(* ===== verification/Prelude.thy ===== *)
theory Prelude
  imports Main
begin

section \<open>Shared vocabulary of the development\<close>

text \<open>
  What every component theory uses: the panics of the program as values, the bind of the
  result type \<open>panic + 'a\<close> with the rules that let \<open>simp\<close> and \<open>auto\<close> run a sequence of
  fallible steps forwards and backwards, \<open>RefCell\<close>s with their exclusive-borrow flag, and
  generic lemmas on lists that several components need.
\<close>

subsection \<open>Panics\<close>

text \<open>
  Every panic, failed assertion and failed \<open>expect\<close> of the modelled code, as a value. A
  modelled operation returns \<open>Inl\<close> of one of them where the Rust code panics. \<open>OutOfFuel\<close>
  is not a panic of the program: it marks that the recursion bound of a fuelled definition
  was too small, and the enough-fuel theorems show it never appears.
\<close>

datatype panic =
    CyclicDependency            \<comment> \<open>\<open>detect cyclic dependency\<close> (ReactionContext::borrow)\<close>
  | BorrowMutError              \<comment> \<open>\<open>RefCell::borrow_mut\<close> of a cell already mutably borrowed\<close>
  | IsDirtyBeforeUpdate         \<comment> \<open>\<open>is_dirty called before update()\<close>\<close>
  | InvalidKey                  \<comment> \<open>indexing a slab map at a vacant key\<close>
  | IndexOutOfBounds
  | AssertFailed                \<comment> \<open>\<open>assert!\<close>\<close>
  | InvalidPhase                \<comment> \<open>a phase the \<open>RuntimeConfig\<close> does not allow\<close>
  | RuntimeExists
  | RuntimeUnavailable
  | ContextAlreadyBorrowed
  | ContextMoved
  | ArithOverflow               \<comment> \<open>overflow of \<open>usize\<close> arithmetic (a build with overflow checks)\<close>
  | RefCountOverflow
  | RefCountUnderflow
  | UnwrapNone
  | Unreachable
  | UserPanic                   \<comment> \<open>a closure supplied by the user panics\<close>
  | UseAfterDrop                \<comment> \<open>undefined behaviour: an access to, or a second drop of, a dropped value\<close>
  | OutOfFuel

type_synonym 'a result = "panic + 'a"

definition res_bind :: "'a result \<Rightarrow> ('a \<Rightarrow> 'b result) \<Rightarrow> 'b result" where
  "res_bind r f = (case r of Inl e \<Rightarrow> Inl e | Inr x \<Rightarrow> f x)"

lemma res_bind_Inl [simp]: "res_bind (Inl e) f = Inl e"
  by (simp add: res_bind_def)

lemma res_bind_Inr [simp]: "res_bind (Inr x) f = f x"
  by (simp add: res_bind_def)

lemma res_bind_eq_Inr: "res_bind r f = Inr y \<longleftrightarrow> (\<exists>x. r = Inr x \<and> f x = Inr y)"
  by (cases r) auto

lemma res_bind_eq_Inl: "res_bind r f = Inl e \<longleftrightarrow> r = Inl e \<or> (\<exists>x. r = Inr x \<and> f x = Inl e)"
  by (cases r) auto

lemma res_bind_InrE:
  assumes "res_bind r f = Inr y"
  obtains x where "r = Inr x" and "f x = Inr y"
  using assms by (auto simp: res_bind_eq_Inr)

lemma res_bind_cong [fundef_cong]:
  "r = r' \<Longrightarrow> (\<And>x. r' = Inr x \<Longrightarrow> f x = g x) \<Longrightarrow> res_bind r f = res_bind r' g"
  by (cases r') auto

text \<open>\<open>assert!(b)\<close> with the panic it raises.\<close>

definition res_assert :: "panic \<Rightarrow> bool \<Rightarrow> unit result" where
  "res_assert e b = (if b then Inr () else Inl e)"

lemma res_assert_simps [simp]: "res_assert e True = Inr ()" "res_assert e False = Inl e"
  by (simp_all add: res_assert_def)

lemma res_assert_eq_Inr [simp]: "res_assert e b = Inr u \<longleftrightarrow> b"
  by (simp add: res_assert_def)

definition res_of_option :: "panic \<Rightarrow> 'a option \<Rightarrow> 'a result" where
  "res_of_option e x = (case x of None \<Rightarrow> Inl e | Some y \<Rightarrow> Inr y)"

lemma res_of_option_simps [simp]:
  "res_of_option e None = Inl e" "res_of_option e (Some y) = Inr y"
  by (simp_all add: res_of_option_def)

lemma res_of_option_eq_Inr [simp]: "res_of_option e x = Inr y \<longleftrightarrow> x = Some y"
  by (cases x) auto

definition is_ok :: "'a result \<Rightarrow> bool" where
  "is_ok r = (case r of Inl _ \<Rightarrow> False | Inr _ \<Rightarrow> True)"

lemma is_ok_simps [simp]: "is_ok (Inl e) = False" "is_ok (Inr x) = True"
  by (simp_all add: is_ok_def)

lemma is_ok_iff: "is_ok r \<longleftrightarrow> (\<exists>x. r = Inr x)"
  by (cases r) auto

subsection \<open>RefCell\<close>

text \<open>
  A \<open>RefCell\<close> holds its value and whether it is mutably borrowed at the moment. Shared
  borrows of the modelled code end within the operation that takes them, so only the
  exclusive borrow is recorded.
\<close>

record 'a ref_cell =
  cell_val :: 'a
  cell_mut :: bool

definition new_cell :: "'a \<Rightarrow> 'a ref_cell" where
  "new_cell x = \<lparr>cell_val = x, cell_mut = False\<rparr>"

lemma new_cell_simps [simp]: "cell_val (new_cell x) = x" "cell_mut (new_cell x) = False"
  by (simp_all add: new_cell_def)

subsection \<open>Lists\<close>

text \<open>\<open>xs[i]\<close> with the panic Rust raises out of range.\<close>

definition list_index :: "'a list \<Rightarrow> nat \<Rightarrow> 'a result" where
  "list_index xs i = (if i < length xs then Inr (xs ! i) else Inl IndexOutOfBounds)"

lemma list_index_eq_Inr [simp]: "list_index xs i = Inr y \<longleftrightarrow> i < length xs \<and> y = xs ! i"
  by (auto simp: list_index_def)

text \<open>\<open>Vec::insert\<close> and \<open>Vec::remove\<close> within range, and lists seen as they are read.\<close>

definition list_insert :: "nat \<Rightarrow> 'a \<Rightarrow> 'a list \<Rightarrow> 'a list" where
  "list_insert i x xs = take i xs @ x # drop i xs"

definition list_remove :: "nat \<Rightarrow> 'a list \<Rightarrow> 'a list" where
  "list_remove i xs = take i xs @ drop (Suc i) xs"

definition list_swap :: "nat \<Rightarrow> nat \<Rightarrow> 'a list \<Rightarrow> 'a list" where
  "list_swap i j xs = xs[i := xs ! j, j := xs ! i]"

lemma length_list_insert [simp]: "i \<le> length xs \<Longrightarrow> length (list_insert i x xs) = Suc (length xs)"
  by (simp add: list_insert_def)

lemma length_list_remove [simp]: "i < length xs \<Longrightarrow> length (list_remove i xs) = length xs - 1"
  by (simp add: list_remove_def)

lemma length_list_swap [simp]: "length (list_swap i j xs) = length xs"
  by (simp add: list_swap_def)

lemma map_list_insert: "map f (list_insert i x xs) = list_insert i (f x) (map f xs)"
  by (simp add: list_insert_def take_map drop_map)

lemma map_list_remove: "map f (list_remove i xs) = list_remove i (map f xs)"
  by (simp add: list_remove_def take_map drop_map)

lemma map_list_swap:
  "i < length xs \<Longrightarrow> j < length xs \<Longrightarrow> map f (list_swap i j xs) = list_swap i j (map f xs)"
  by (simp add: list_swap_def map_update)

lemma set_list_insert: "set (list_insert i x xs) = insert x (set xs)"
proof -
  have "set xs = set (take i xs @ drop i xs)" by simp
  then show ?thesis unfolding list_insert_def by (simp only: set_append set_simps) blast
qed

lemma list_remove_split:
  "i < length xs \<Longrightarrow> xs = take i xs @ xs ! i # drop (Suc i) xs"
  by (rule id_take_nth_drop)

lemma distinct_list_insert:
  "distinct (list_insert i x xs) \<longleftrightarrow> x \<notin> set xs \<and> distinct xs"
proof -
  have "distinct xs = distinct (take i xs @ drop i xs)"
    and "set xs = set (take i xs @ drop i xs)" by simp_all
  then show ?thesis unfolding list_insert_def by (simp only: distinct_append distinct.simps set_append set_simps) blast
qed

lemma distinct_list_remove:
  assumes "i < length xs" "distinct xs"
  shows "distinct (list_remove i xs)" "set (list_remove i xs) = set xs - {xs ! i}"
proof -
  have d: "distinct (take i xs @ xs ! i # drop (Suc i) xs)"
    using assms list_remove_split [OF assms(1)] by simp
  then show "distinct (list_remove i xs)" by (simp add: list_remove_def)
  have "set xs = set (take i xs @ xs ! i # drop (Suc i) xs)"
    using list_remove_split [OF assms(1)] by simp
  with d show "set (list_remove i xs) = set xs - {xs ! i}"
    by (auto simp: list_remove_def)
qed

lemma set_list_swap:
  "i < length xs \<Longrightarrow> j < length xs \<Longrightarrow> set (list_swap i j xs) = set xs"
  by (simp add: list_swap_def)

lemma distinct_list_swap:
  "i < length xs \<Longrightarrow> j < length xs \<Longrightarrow> distinct (list_swap i j xs) = distinct xs"
  by (simp add: list_swap_def)

lemma map_filter_agree:
  "(\<And>x. x \<in> set xs \<Longrightarrow> f x = g x) \<Longrightarrow> List.map_filter f xs = List.map_filter g xs"
  by (induction xs) (auto simp: List.map_filter_simps split: option.split)

text \<open>A fold that can panic: the \<open>for\<close> loop over a list.\<close>

fun res_fold :: "('a \<Rightarrow> 's \<Rightarrow> 's result) \<Rightarrow> 'a list \<Rightarrow> 's \<Rightarrow> 's result" where
  "res_fold f [] s = Inr s"
| "res_fold f (x # xs) s = res_bind (f x s) (res_fold f xs)"

lemma res_fold_append: "res_fold f (xs @ ys) s = res_bind (res_fold f xs s) (res_fold f ys)"
proof (induction xs arbitrary: s)
  case (Cons x xs)
  then show ?case by (cases "f x s") auto
qed simp

lemma res_fold_invariant:
  assumes "res_fold f xs s = Inr s'" and "P s"
    and "\<And>x s s'. x \<in> set xs \<Longrightarrow> P s \<Longrightarrow> f x s = Inr s' \<Longrightarrow> P s'"
  shows "P s'"
  using assms
proof (induction xs arbitrary: s)
  case (Cons x xs)
  from Cons.prems(1) obtain s1 where s1: "f x s = Inr s1" "res_fold f xs s1 = Inr s'"
    by (auto simp: res_bind_eq_Inr)
  have "P s1" using Cons.prems(2,3) s1(1) by auto
  then show ?case using Cons.IH [OF s1(2)] Cons.prems(3) by auto
qed simp

text \<open>A fallible map: collecting an iterator whose items can panic.\<close>

fun res_map :: "('a \<Rightarrow> 'b result) \<Rightarrow> 'a list \<Rightarrow> 'b list result" where
  "res_map f [] = Inr []"
| "res_map f (x # xs) = res_bind (f x) (\<lambda>y. res_bind (res_map f xs) (\<lambda>ys. Inr (y # ys)))"

lemma res_map_eq_Inr: "res_map f xs = Inr ys \<longleftrightarrow> list_all2 (\<lambda>x y. f x = Inr y) xs ys"
  by (induction xs arbitrary: ys) (auto simp: res_bind_eq_Inr list_all2_Cons1)

lemma res_map_Inr: "res_map (\<lambda>x. Inr (f x)) xs = Inr (map f xs)"
  by (induction xs) simp_all

end
