(* ===== verification/Context_Channel.thy ===== *)
theory Context_Channel
  imports Prelude
begin

section \<open>Context channels (core/context_channel.rs, core/raw_context.rs)\<close>

text \<open>
  A context cannot be stored, but a callback that is entered synchronously may need the one of its caller. A \<open>ContextChannel\<close>
  lends it: \<open>scope\<close> puts a raw pointer to the context into a cell while a closure runs, \<open>try_with\<close> takes it out for the
  duration of another closure. Both restore the cell through a guard whose \<open>drop\<close> also runs when the closure panics, so a
  piece of code on a channel returns its outcome, a panic or a value, together with the cell it leaves.
\<close>

datatype 'p channel_state = Inactive | Available 'p | Borrowed

type_synonym ('p, 'a) on_channel = "'p channel_state \<Rightarrow> 'a result \<times> 'p channel_state"

subsection \<open>The cell and its guard\<close>

definition channel_new :: "'p channel_state" where
  "channel_new = Inactive"

text \<open>\<open>StateGuard { restore }\<close> held while \<open>f\<close> runs: \<open>drop\<close> sets the cell, whatever \<open>f\<close> did with it.\<close>

definition state_guard :: "'p channel_state \<Rightarrow> ('p, 'a) on_channel \<Rightarrow> ('p, 'a) on_channel" where
  "state_guard restore f st = (let (r, _) = f st in (r, restore))"

definition channel_scope :: "'p \<Rightarrow> ('p, 'a) on_channel \<Rightarrow> ('p, 'a) on_channel" where
  "channel_scope p f st = state_guard st f (Available p)"

definition channel_try_borrow :: "('p, ('p \<times> 'p channel_state) option) on_channel" where
  "channel_try_borrow st = (case st of
       Inactive \<Rightarrow> (Inr None, Inactive)
     | Available p \<Rightarrow> (Inr (Some (p, Available p)), Borrowed)
     | Borrowed \<Rightarrow> (Inl ContextAlreadyBorrowed, Borrowed))"

definition channel_try_with :: "('p \<Rightarrow> ('p, 'a) on_channel) \<Rightarrow> ('p, 'a option) on_channel" where
  "channel_try_with f st = (case channel_try_borrow st of
       (Inl e, st1) \<Rightarrow> (Inl e, st1)
     | (Inr None, st1) \<Rightarrow> (Inr None, st1)
     | (Inr (Some (p, restore)), st1) \<Rightarrow> (let (r, st2) = state_guard restore (f p) st1 in (map_sum id Some r, st2)))"

subsection \<open>Contexts and their pointers\<close>

text \<open>
  A \<open>SignalContext\<close> consists of references to the runtime's data, to the bump allocator and, when the reads are tracked, to the sink; a
  \<open>ReactionContext\<close> wraps one and an \<open>ActionContext\<close> is the raw runtime itself. A reference is the address of what it refers to.
\<close>

type_synonym address = nat

record signal_context =
  sc_rt :: address
  sc_bump :: address
  sc_sink :: "address option"

datatype reaction_context = ReactionContext signal_context

datatype action_context = ActionContext address

record signal_context_ptr =
  cp_rt :: address
  cp_bump :: address
  cp_sink :: "address option"

definition signal_ptr_new :: "signal_context \<Rightarrow> signal_context_ptr" where
  "signal_ptr_new c = \<lparr>cp_rt = sc_rt c, cp_bump = sc_bump c, cp_sink = map_option id (sc_sink c)\<rparr>"

fun signal_ptr_from_reaction :: "reaction_context \<Rightarrow> signal_context_ptr" where
  "signal_ptr_from_reaction (ReactionContext c) = signal_ptr_new c"

definition ptr_signal_context :: "signal_context_ptr \<Rightarrow> signal_context" where
  "ptr_signal_context p = \<lparr>sc_rt = cp_rt p, sc_bump = cp_bump p, sc_sink = map_option id (cp_sink p)\<rparr>"

definition ptr_reaction_context :: "signal_context_ptr \<Rightarrow> reaction_context" where
  "ptr_reaction_context p = ReactionContext (ptr_signal_context p)"

datatype action_context_ptr = ActionContextPtr address

fun action_ptr_new :: "action_context \<Rightarrow> action_context_ptr" where
  "action_ptr_new (ActionContext a) = ActionContextPtr a"

fun ptr_action_context :: "action_context_ptr \<Rightarrow> action_context" where
  "ptr_action_context (ActionContextPtr a) = ActionContext a"

subsection \<open>The three channels\<close>

definition signal_scope :: "signal_context \<Rightarrow> (signal_context_ptr, 'a) on_channel \<Rightarrow> (signal_context_ptr, 'a) on_channel" where
  "signal_scope c f = channel_scope (signal_ptr_new c) f"

definition signal_try_with ::
    "(signal_context \<Rightarrow> (signal_context_ptr, 'a) on_channel) \<Rightarrow> (signal_context_ptr, 'a option) on_channel" where
  "signal_try_with f = channel_try_with (\<lambda>p. f (ptr_signal_context p))"

definition reaction_scope :: "reaction_context \<Rightarrow> (signal_context_ptr, 'a) on_channel \<Rightarrow> (signal_context_ptr, 'a) on_channel" where
  "reaction_scope c f = channel_scope (signal_ptr_from_reaction c) f"

definition reaction_try_with ::
    "(reaction_context \<Rightarrow> (signal_context_ptr, 'a) on_channel) \<Rightarrow> (signal_context_ptr, 'a option) on_channel" where
  "reaction_try_with f = channel_try_with (\<lambda>p. f (ptr_reaction_context p))"

definition action_scope :: "action_context \<Rightarrow> (action_context_ptr, 'a) on_channel \<Rightarrow> (action_context_ptr, 'a) on_channel" where
  "action_scope c f = channel_scope (action_ptr_new c) f"

definition action_try_with ::
    "(action_context \<Rightarrow> (action_context_ptr, 'a) on_channel) \<Rightarrow> (action_context_ptr, 'a option) on_channel" where
  "action_try_with f = channel_try_with (\<lambda>p. f (ptr_action_context p))"

text \<open>
  The asynchronous contexts are channels: a future keeps one, and uses it between two \<open>await\<close>s, that is while it is polled.
  \<open>AsyncSignalContext::with\<close> and \<open>AsyncActionContext::call\<close> fail outside of that time.
\<close>

definition expect_context :: "('p, 'a option) on_channel \<Rightarrow> ('p, 'a) on_channel" where
  "expect_context f st = (let (r, st1) = f st in (res_bind r (res_of_option ContextMoved), st1))"

definition async_signal_with :: "(signal_context \<Rightarrow> (signal_context_ptr, 'a) on_channel) \<Rightarrow> (signal_context_ptr, 'a) on_channel" where
  "async_signal_with f = expect_context (signal_try_with f)"

definition async_signal_source_with ::
    "signal_context \<Rightarrow> (signal_context_ptr, 'a) on_channel \<Rightarrow> (signal_context_ptr, 'a) on_channel" where
  "async_signal_source_with c f = signal_scope c f"

definition async_action_call :: "(action_context \<Rightarrow> (action_context_ptr, 'a) on_channel) \<Rightarrow> (action_context_ptr, 'a) on_channel" where
  "async_action_call f = expect_context (action_try_with f)"

definition async_action_source_call ::
    "action_context \<Rightarrow> (action_context_ptr, 'a) on_channel \<Rightarrow> (action_context_ptr, 'a) on_channel" where
  "async_action_source_call c f = action_scope c f"

subsection \<open>Code that uses a channel\<close>

text \<open>
  What a closure can do with a channel: return, panic, open a scope with a context it has and go on with the result, or ask for the
  context and go on with what the inner closure returned. \<open>chan_run\<close> runs it on the cell. \<open>chan_lexical\<close> is the reading of
  the documentation: the innermost scope around a piece of code decides, and a context that is lent is not lent a second time
  unless its holder opens a scope for it. It has no cell and nothing to restore.
\<close>

datatype ('c, 'v) chan_code =
    ChanReturn 'v
  | ChanPanic panic
  | ChanScope 'c "('c, 'v) chan_code" "'v \<Rightarrow> ('c, 'v) chan_code"
  | ChanTryWith "'c \<Rightarrow> ('c, 'v) chan_code" "'v option \<Rightarrow> ('c, 'v) chan_code"

primrec chan_run ::
    "('c \<Rightarrow> ('p, 'v) on_channel \<Rightarrow> ('p, 'v) on_channel) \<Rightarrow> (('c \<Rightarrow> ('p, 'v) on_channel) \<Rightarrow> ('p, 'v option) on_channel)
       \<Rightarrow> ('c, 'v) chan_code \<Rightarrow> ('p, 'v) on_channel" where
  "chan_run scope tryw (ChanReturn v) st = (Inr v, st)"
| "chan_run scope tryw (ChanPanic e) st = (Inl e, st)"
| "chan_run scope tryw (ChanScope c f k) st =
     (case scope c (\<lambda>s. chan_run scope tryw f s) st of (Inl e, st1) \<Rightarrow> (Inl e, st1) | (Inr v, st1) \<Rightarrow> chan_run scope tryw (k v) st1)"
| "chan_run scope tryw (ChanTryWith f k) st =
     (case tryw (\<lambda>c s. chan_run scope tryw (f c) s) st of (Inl e, st1) \<Rightarrow> (Inl e, st1) | (Inr v, st1) \<Rightarrow> chan_run scope tryw (k v) st1)"

primrec chan_lexical :: "('c, 'v) chan_code \<Rightarrow> 'c channel_state \<Rightarrow> 'v result" where
  "chan_lexical (ChanReturn v) env = Inr v"
| "chan_lexical (ChanPanic e) env = Inl e"
| "chan_lexical (ChanScope c f k) env = res_bind (chan_lexical f (Available c)) (\<lambda>v. chan_lexical (k v) env)"
| "chan_lexical (ChanTryWith f k) env = (case env of
      Inactive \<Rightarrow> chan_lexical (k None) env
    | Available c \<Rightarrow> res_bind (chan_lexical (f c) Borrowed) (\<lambda>v. chan_lexical (k (Some v)) env)
    | Borrowed \<Rightarrow> Inl ContextAlreadyBorrowed)"

text \<open>The contract of a channel, and what follows from it for all code on it.\<close>

locale context_channel =
  fixes scope :: "'c \<Rightarrow> ('p, 'v) on_channel \<Rightarrow> ('p, 'v) on_channel"
    and tryw :: "('c \<Rightarrow> ('p, 'v) on_channel) \<Rightarrow> ('p, 'v option) on_channel"
    and ptr :: "'c \<Rightarrow> 'p"
  assumes scope_run: "scope c f st = (fst (f (Available (ptr c))), st)"
    and tryw_inactive: "tryw g Inactive = (Inr None, Inactive)"
    and tryw_available: "tryw g (Available (ptr c)) = (map_sum id Some (fst (g c Borrowed)), Available (ptr c))"
    and tryw_borrowed: "tryw g Borrowed = (Inl ContextAlreadyBorrowed, Borrowed)"
begin

lemma run_lexical: "chan_run scope tryw P (map_channel_state ptr env) = (chan_lexical P env, map_channel_state ptr env)"
proof (induction P arbitrary: env)
  case (ChanScope c f k)
  have f: "chan_run scope tryw f (Available (ptr c)) = (chan_lexical f (Available c), Available (ptr c))"
    using ChanScope.IH(1) [of "Available c"] by simp
  have s: "scope c (chan_run scope tryw f) st = (chan_lexical f (Available c), st)" for st by (subst scope_run) (simp add: f)
  show ?case using ChanScope.IH(2) [OF rangeI] by (cases "chan_lexical f (Available c)") (simp_all add: s)
next
  case (ChanTryWith f k)
  show ?case
  proof (cases env)
    case (Available c)
    have f: "chan_run scope tryw (f c) Borrowed = (chan_lexical (f c) Borrowed, Borrowed)"
      using ChanTryWith.IH(1) [OF rangeI, of c Borrowed] by simp
    have t: "tryw (\<lambda>c. chan_run scope tryw (f c)) (Available (ptr c)) = (map_sum id Some (chan_lexical (f c) Borrowed), Available (ptr c))"
      by (subst tryw_available) (simp add: f)
    show ?thesis using ChanTryWith.IH(2) [OF rangeI, of _ "Available c"] Available by (cases "chan_lexical (f c) Borrowed") (simp_all add: t)
  qed (use ChanTryWith.IH(2) [OF rangeI, of _ env] in \<open>simp_all add: tryw_inactive tryw_borrowed\<close>)
qed simp_all

end

lemma channel_scope_run: "channel_scope p f st = (fst (f (Available p)), st)"
  by (simp add: channel_scope_def state_guard_def split: prod.split)

lemma channel_try_with_run:
  "channel_try_with g Inactive = (Inr None, Inactive)"
  "channel_try_with g (Available p) = (map_sum id Some (fst (g p Borrowed)), Available p)"
  "channel_try_with g Borrowed = (Inl ContextAlreadyBorrowed, Borrowed)"
  by (simp_all add: channel_try_with_def channel_try_borrow_def state_guard_def split: prod.split)

lemma ptr_context_simps [simp]:
  "ptr_signal_context (signal_ptr_new c) = c"
  "ptr_reaction_context (signal_ptr_from_reaction rc) = rc"
  "ptr_action_context (action_ptr_new ac) = ac"
  subgoal by (cases c) (simp add: ptr_signal_context_def signal_ptr_new_def option.map_id)
  subgoal by (cases rc) (simp add: ptr_reaction_context_def ptr_signal_context_def signal_ptr_new_def option.map_id)
  subgoal by (cases ac) simp
  done

interpretation signal_chan: context_channel signal_scope signal_try_with signal_ptr_new
  by unfold_locales (simp_all add: signal_scope_def signal_try_with_def channel_scope_run channel_try_with_run)

interpretation reaction_chan: context_channel reaction_scope reaction_try_with signal_ptr_from_reaction
  by unfold_locales (simp_all add: reaction_scope_def reaction_try_with_def channel_scope_run channel_try_with_run)

interpretation action_chan: context_channel action_scope action_try_with action_ptr_new
  by unfold_locales (simp_all add: action_scope_def action_try_with_def channel_scope_run channel_try_with_run)

text \<open>
  C26. Channels are lexical. For any code that uses one of the three channels, run from the inactive cell, with scopes and lendings
  nested in any way and with closures that panic anywhere, the outcome is the one of the lexical reading: a closure is given exactly the
  context of the innermost scope that is still open around it, never one whose scope has ended and never one that is lent to a closure
  still running, and the cell is inactive again afterwards.
\<close>

theorem channels_are_lexical:
  "chan_run signal_scope signal_try_with P channel_new = (chan_lexical P Inactive, channel_new)
   \<and> chan_run reaction_scope reaction_try_with Q channel_new = (chan_lexical Q Inactive, channel_new)
   \<and> chan_run action_scope action_try_with R channel_new = (chan_lexical R Inactive, channel_new)"
  using signal_chan.run_lexical [of P Inactive] reaction_chan.run_lexical [of Q Inactive] action_chan.run_lexical [of R Inactive]
  by (simp add: channel_new_def)

text \<open>
  An asynchronous context answers while its future is polled and only then: within the poll \<open>call\<close> runs its closure with the
  context of this poll, and outside of any poll it panics, without running the closure and without changing the channel; a poll
  that panics leaves the channel as it was.
\<close>

lemma async_context_during_poll:
  "async_action_source_call ac (async_action_call f) st = (fst (f ac Borrowed), st)
   \<and> async_action_call f channel_new = (Inl ContextMoved, channel_new)
   \<and> async_signal_source_with c (async_signal_with g) st' = (fst (g c Borrowed), st')
   \<and> async_signal_with g channel_new = (Inl ContextMoved, channel_new)"
proof -
  have some: "res_bind (map_sum id Some r) (res_of_option ContextMoved) = r" for r :: "'z result" by (cases r) simp_all
  show ?thesis
    by (auto simp: async_action_source_call_def async_action_call_def async_signal_source_with_def async_signal_with_def expect_context_def
        action_scope_def action_try_with_def signal_scope_def signal_try_with_def channel_scope_run channel_try_with_run channel_new_def some)
qed

end
