(* ===== verification/Slab_Interface.thy ===== *)
theory Slab_Interface
  imports Prelude
begin

section \<open>The slab map the program is built on\<close>

text \<open>
  The program stores its sink bindings, collection values, wake entries and asynchronous
  actions in \<open>slabmap::SlabMap\<close>, a crate whose source is not part of the repository. It is
  therefore a parameter: a record \<open>slab_ops\<close> of the operations the program calls, over an
  abstract type \<open>'m\<close> of slab maps, passed to every definition that uses one. What the
  program relies on is the predicate \<open>slab_laws\<close>, the documented behaviour of the crate:
  \<open>insert\<close> returns a key that was vacant, \<open>get\<close> sees exactly what \<open>insert\<close>, an assignment
  through \<open>IndexMut\<close> or \<open>values_mut\<close>, and \<open>remove\<close> left, \<open>optimize\<close> changes no entry, and an
  iteration visits every occupied key once.

  \<open>vec_slab\<close> is a concrete slab map (a vector of optional entries, first vacant position
  first) that satisfies the laws. Only witnesses use it.
\<close>

record ('m, 'v) slab_ops =
  slab_new :: 'm
  slab_insert :: "'m \<Rightarrow> 'v \<Rightarrow> nat \<times> 'm"
  slab_get :: "'m \<Rightarrow> nat \<Rightarrow> 'v option"
  slab_put :: "'m \<Rightarrow> nat \<Rightarrow> 'v \<Rightarrow> 'm"      \<comment> \<open>assignment to an occupied entry\<close>
  slab_remove :: "'m \<Rightarrow> nat \<Rightarrow> 'm"
  slab_keys :: "'m \<Rightarrow> nat list"                 \<comment> \<open>the occupied keys in iteration order\<close>
  slab_optimize :: "'m \<Rightarrow> 'm"

definition slab_laws :: "('m, 'v) slab_ops \<Rightarrow> bool" where
  "slab_laws ops \<longleftrightarrow>
     (\<forall>k. slab_get ops (slab_new ops) k = None)
   \<and> (\<forall>m v. slab_get ops m (fst (slab_insert ops m v)) = None)
   \<and> (\<forall>m v k. slab_get ops (snd (slab_insert ops m v)) k
        = (if k = fst (slab_insert ops m v) then Some v else slab_get ops m k))
   \<and> (\<forall>m i v k. slab_get ops m i \<noteq> None \<longrightarrow> slab_get ops (slab_put ops m i v) k
        = (if k = i then Some v else slab_get ops m k))
   \<and> (\<forall>m i k. slab_get ops (slab_remove ops m i) k = (if k = i then None else slab_get ops m k))
   \<and> (\<forall>m k. slab_get ops (slab_optimize ops m) k = slab_get ops m k)
   \<and> (\<forall>m. distinct (slab_keys ops m) \<and> set (slab_keys ops m) = dom (slab_get ops m))"

lemma slab_get_new: "slab_laws ops \<Longrightarrow> slab_get ops (slab_new ops) k = None"
  by (simp add: slab_laws_def)

lemma slab_insert_vacant: "slab_laws ops \<Longrightarrow> slab_insert ops m v = (i, m') \<Longrightarrow> slab_get ops m i = None"
  by (auto simp: slab_laws_def) (metis fst_conv)

lemma slab_get_insert:
  "slab_laws ops \<Longrightarrow> slab_insert ops m v = (i, m') \<Longrightarrow>
     slab_get ops m' k = (if k = i then Some v else slab_get ops m k)"
  unfolding slab_laws_def by (metis fst_conv snd_conv)

lemma slab_get_put:
  "slab_laws ops \<Longrightarrow> slab_get ops m i = Some u \<Longrightarrow>
     slab_get ops (slab_put ops m i v) k = (if k = i then Some v else slab_get ops m k)"
  unfolding slab_laws_def by (metis option.distinct(1))

lemma slab_get_remove:
  "slab_laws ops \<Longrightarrow> slab_get ops (slab_remove ops m i) k = (if k = i then None else slab_get ops m k)"
  by (simp add: slab_laws_def)

lemma slab_get_optimize: "slab_laws ops \<Longrightarrow> slab_get ops (slab_optimize ops m) k = slab_get ops m k"
  by (simp add: slab_laws_def)

lemma slab_keys_set: "slab_laws ops \<Longrightarrow> set (slab_keys ops m) = dom (slab_get ops m)"
  by (simp add: slab_laws_def)

lemma slab_keys_distinct: "slab_laws ops \<Longrightarrow> distinct (slab_keys ops m)"
  by (simp add: slab_laws_def)

lemma slab_keys_iff: "slab_laws ops \<Longrightarrow> k \<in> set (slab_keys ops m) \<longleftrightarrow> (\<exists>v. slab_get ops m k = Some v)"
  by (auto simp: slab_keys_set)

lemma slab_finite: "slab_laws ops \<Longrightarrow> finite (dom (slab_get ops m))"
  by (metis List.finite_set slab_keys_set)

lemma slab_lawsI:
  assumes "\<And>k. slab_get ops (slab_new ops) k = None"
    and "\<And>m v. slab_get ops m (fst (slab_insert ops m v)) = None"
    and "\<And>m v k. slab_get ops (snd (slab_insert ops m v)) k
        = (if k = fst (slab_insert ops m v) then Some v else slab_get ops m k)"
    and "\<And>m i v k u. slab_get ops m i = Some u \<Longrightarrow> slab_get ops (slab_put ops m i v) k
        = (if k = i then Some v else slab_get ops m k)"
    and "\<And>m i k. slab_get ops (slab_remove ops m i) k = (if k = i then None else slab_get ops m k)"
    and "\<And>m k. slab_get ops (slab_optimize ops m) k = slab_get ops m k"
    and "\<And>m. distinct (slab_keys ops m)" "\<And>m. set (slab_keys ops m) = dom (slab_get ops m)"
  shows "slab_laws ops"
  using assms unfolding slab_laws_def by auto

lemmas slab_simps =
  slab_get_new slab_insert_vacant slab_get_insert slab_get_put slab_get_remove slab_get_optimize

text \<open>Is the slab empty (\<open>SlabMap::is_empty\<close>)?\<close>

definition slab_is_empty :: "('m, 'v) slab_ops \<Rightarrow> 'm \<Rightarrow> bool" where
  "slab_is_empty ops m \<longleftrightarrow> slab_keys ops m = []"

lemma slab_is_empty_iff: "slab_laws ops \<Longrightarrow> slab_is_empty ops m \<longleftrightarrow> (\<forall>k. slab_get ops m k = None)"
  by (simp add: slab_is_empty_def flip: set_empty) (auto simp: slab_keys_set)

subsection \<open>A concrete slab map for witnesses\<close>

fun vec_vacant :: "'v option list \<Rightarrow> nat" where
  "vec_vacant [] = 0"
| "vec_vacant (None # xs) = 0"
| "vec_vacant (Some x # xs) = Suc (vec_vacant xs)"

definition vec_get :: "'v option list \<Rightarrow> nat \<Rightarrow> 'v option" where
  "vec_get xs i = (if i < length xs then xs ! i else None)"

definition vec_insert :: "'v option list \<Rightarrow> 'v \<Rightarrow> nat \<times> 'v option list" where
  "vec_insert xs v = (let i = vec_vacant xs in
     (i, if i < length xs then xs[i := Some v] else xs @ [Some v]))"

definition vec_slab :: "('v option list, 'v) slab_ops" where
  "vec_slab = \<lparr>slab_new = [], slab_insert = vec_insert, slab_get = vec_get,
     slab_put = (\<lambda>xs i v. xs[i := Some v]), slab_remove = (\<lambda>xs i. xs[i := None]),
     slab_keys = (\<lambda>xs. filter (\<lambda>i. xs ! i \<noteq> None) [0 ..< length xs]),
     slab_optimize = (\<lambda>xs. xs)\<rparr>"

lemma vec_vacant_le: "vec_vacant xs \<le> length xs"
  by (induction xs rule: vec_vacant.induct) auto

lemma vec_vacant_None: "vec_vacant xs < length xs \<Longrightarrow> xs ! vec_vacant xs = None"
  by (induction xs rule: vec_vacant.induct) auto

lemma vec_slab_laws: "slab_laws vec_slab"
proof (rule slab_lawsI)
  fix m :: "'v option list" and v k
  show "slab_get vec_slab m (fst (slab_insert vec_slab m v)) = None"
    by (auto simp: vec_slab_def vec_insert_def vec_get_def Let_def vec_vacant_None)
  show "slab_get vec_slab (snd (slab_insert vec_slab m v)) k
     = (if k = fst (slab_insert vec_slab m v) then Some v else slab_get vec_slab m k)"
    using vec_vacant_le [of m]
    by (auto simp: vec_slab_def vec_insert_def vec_get_def Let_def nth_append)
qed (auto simp: vec_slab_def vec_get_def nth_list_update split: if_splits)

end
