(* ===== verification/Dirty_State.thy ===== *)
theory Dirty_State
  imports Prelude
begin

section \<open>Dirty states and dirty levels\<close>

text \<open>
  The three-valued cache state \<open>Dirty\<close> (core/dirty.rs) and the two notification levels
  \<open>DirtyLevel\<close> (core.rs), with their derived order, the join \<open>bitor\<close> and the state change
  on a notification.
\<close>

datatype dirty = Clean | MaybeDirty | Dirty

datatype dirty_level = LevelMaybeDirty | LevelDirty

text \<open>The derived \<open>Ord\<close> is declaration order.\<close>

instantiation dirty :: linorder
begin

definition less_eq_dirty :: "dirty \<Rightarrow> dirty \<Rightarrow> bool" where
  "less_eq_dirty a b \<longleftrightarrow> a = Clean \<or> (a = MaybeDirty \<and> b \<noteq> Clean) \<or> b = Dirty"

definition less_dirty :: "dirty \<Rightarrow> dirty \<Rightarrow> bool" where
  "less_dirty a b \<longleftrightarrow> a \<le> b \<and> a \<noteq> b"

instance
proof
  fix x y z :: dirty
  show "x < y \<longleftrightarrow> x \<le> y \<and> \<not> y \<le> x"
    by (cases x; cases y) (simp_all add: less_eq_dirty_def less_dirty_def)
  show "x \<le> x" by (cases x) (simp_all add: less_eq_dirty_def)
  show "x \<le> y \<Longrightarrow> y \<le> z \<Longrightarrow> x \<le> z"
    by (cases x; cases y; cases z) (simp_all add: less_eq_dirty_def)
  show "x \<le> y \<Longrightarrow> y \<le> x \<Longrightarrow> x = y"
    by (cases x; cases y) (simp_all add: less_eq_dirty_def)
  show "x \<le> y \<or> y \<le> x"
    by (cases x; cases y) (simp_all add: less_eq_dirty_def)
qed

end

definition dirty_of_level :: "dirty_level \<Rightarrow> dirty" where
  "dirty_of_level l = (case l of LevelDirty \<Rightarrow> Dirty | LevelMaybeDirty \<Rightarrow> MaybeDirty)"

definition maybe_if :: "dirty_level \<Rightarrow> bool \<Rightarrow> dirty_level" where
  "maybe_if l is_check = (if is_check then LevelMaybeDirty else l)"

definition from_is_dirty :: "bool \<Rightarrow> dirty" where
  "from_is_dirty b = (if b then Dirty else Clean)"

definition is_clean :: "dirty \<Rightarrow> bool" where
  "is_clean d \<longleftrightarrow> d = Clean"

definition needs_notify :: "dirty \<Rightarrow> bool" where
  "needs_notify d = is_clean d"

definition apply_notify :: "dirty_level \<Rightarrow> dirty \<Rightarrow> dirty" where
  "apply_notify l d = max d (dirty_of_level l)"

definition dirty_bitor :: "dirty \<Rightarrow> dirty \<Rightarrow> dirty" where
  "dirty_bitor a b = max a b"

lemmas dirty_defs =
  dirty_of_level_def maybe_if_def from_is_dirty_def is_clean_def needs_notify_def
  apply_notify_def dirty_bitor_def less_eq_dirty_def less_dirty_def max_def

lemma from_is_dirty_simps [simp]:
  "from_is_dirty True = Dirty" "from_is_dirty False = Clean"
  "from_is_dirty b = Clean \<longleftrightarrow> \<not> b" "from_is_dirty b = Dirty \<longleftrightarrow> b" "from_is_dirty b \<noteq> MaybeDirty"
  by (simp_all add: from_is_dirty_def)

lemma needs_notify_iff [simp]: "needs_notify d \<longleftrightarrow> d = Clean"
  by (simp add: needs_notify_def is_clean_def)

lemma apply_notify_simps [simp]:
  "apply_notify LevelDirty d = Dirty"
  "apply_notify LevelMaybeDirty Clean = MaybeDirty"
  "apply_notify LevelMaybeDirty MaybeDirty = MaybeDirty"
  "apply_notify l Dirty = Dirty"
  by (cases d; simp add: dirty_defs; cases l; simp add: dirty_defs)+

lemma apply_notify_not_Clean [simp]: "apply_notify l d \<noteq> Clean"
  by (cases l; cases d) (simp_all add: dirty_defs)

lemma apply_notify_eq_MaybeDirty:
  "apply_notify l d = MaybeDirty \<longleftrightarrow> l = LevelMaybeDirty \<and> d \<noteq> Dirty"
  by (cases l; cases d) (simp_all add: dirty_defs)

text \<open>
  A notification only ever moves a cache towards \<open>Dirty\<close>, the join is an upper bound of what
  was recorded and what arrived, and the order in which two notifications arrive is
  irrelevant: the state reached is the join of the two levels with the old state.
\<close>

lemma apply_notify_mono: "d \<le> apply_notify l d"
  by (simp add: apply_notify_def)

lemma apply_notify_commute:
  "apply_notify l1 (apply_notify l2 d) = apply_notify l2 (apply_notify l1 d)"
  by (simp add: apply_notify_def max.commute max.left_commute)

lemma apply_notify_fold:
  "fold apply_notify ls d = fold (\<lambda>l. dirty_bitor (dirty_of_level l)) ls d"
  by (rule fold_cong) (simp_all add: fun_eq_iff apply_notify_def dirty_bitor_def max.commute)

lemma fold_apply_notify_Dirty [simp]: "fold apply_notify ls Dirty = Dirty"
  by (induction ls) simp_all

end
