(* ===== verification/Bindings.thy ===== *)
theory Bindings
  imports Slab_Interface Dirty_State
begin

section \<open>Sink bindings and source bindings (core.rs)\<close>

text \<open>
  Every edge of the dependency graph is stored twice. A source keeps a \<open>SinkBinding\<close> (who reads
  me, and is that reader's copy still valid) in its \<open>SinkBindings\<close>, a slab map; a sink keeps a
  \<open>SourceBinding\<close> (whom I read, under which key) in its \<open>SourceBindings\<close>, a vector in the order
  of the reads. A \<open>Sink\<close> is the write head that moves over that vector while the sink's closure
  runs. A \<open>SourceBinder\<close> adds the sink's own dirty state (core/source_binder.rs).

  Nodes of the graph are named by numbers, in the order of their creation; a \<open>Weak<dyn BindSink>\<close>
  or an \<open>Rc<dyn BindSource>\<close> is the number of its node.
\<close>

type_synonym nid = nat
type_synonym slot = nat
type_synonym bind_key = nat

record sink_binding =
  sb_sink :: nid
  sb_slot :: slot
  sb_dirty :: dirty

record source_binding =
  src_node :: nid
  src_slot :: slot
  src_key :: bind_key

type_synonym source_bindings = "source_binding list"

definition is_same :: "source_binding \<Rightarrow> nid \<Rightarrow> slot \<Rightarrow> bool" where
  "is_same b n slot \<longleftrightarrow> src_node b = n \<and> src_slot b = slot"

subsection \<open>The write head\<close>

record sink =
  sk_node :: nid
  sk_slot :: slot
  sk_sources :: source_bindings
  sk_len :: nat

definition sink_push :: "source_binding \<Rightarrow> sink \<Rightarrow> sink \<times> source_binding option" where
  "sink_push b k =
     (let index = sk_len k; k1 = k\<lparr>sk_len := Suc index\<rparr> in
      if index < length (sk_sources k)
      then (k1\<lparr>sk_sources := (sk_sources k)[index := b]\<rparr>, Some (sk_sources k ! index))
      else (k1\<lparr>sk_sources := sk_sources k @ [b]\<rparr>, None))"

subsection \<open>SinkBindings\<close>

text \<open>
  \<open>bind\<close> with a tracking context: reuse the binding the previous run left at this position when
  it is for the same source and slot, otherwise insert a new binding and push it, returning the
  binding it replaces. The caller unbinds that one (the last statement of the Rust \<open>bind\<close>),
  because unbinding is a call on another node.
\<close>

definition sinks_bind ::
    "('m, sink_binding) slab_ops \<Rightarrow> nid \<Rightarrow> slot \<Rightarrow> sink \<Rightarrow> 'm \<Rightarrow> ('m \<times> sink \<times> source_binding option) result" where
  "sinks_bind ops this slot k S =
     (if sk_len k < length (sk_sources k) \<and> is_same (sk_sources k ! sk_len k) this slot
      then (let key = src_key (sk_sources k ! sk_len k) in
            case slab_get ops S key of
              None \<Rightarrow> Inl InvalidKey
            | Some b \<Rightarrow> Inr (slab_put ops S key (b\<lparr>sb_dirty := Clean\<rparr>), k\<lparr>sk_len := Suc (sk_len k)\<rparr>, None))
      else (let (key, S1) = slab_insert ops S \<lparr>sb_sink = sk_node k, sb_slot = sk_slot k, sb_dirty = Clean\<rparr>;
                (k1, old) = sink_push \<lparr>src_node = this, src_slot = slot, src_key = key\<rparr> k
            in Inr (S1, k1, old)))"

text \<open>
  \<open>rebind\<close> moves an existing binding under another write head (with a tracking context) or
  removes it (without one).
\<close>

definition sinks_unbind :: "('m, sink_binding) slab_ops \<Rightarrow> bind_key \<Rightarrow> 'm \<Rightarrow> 'm" where
  "sinks_unbind ops key S = slab_remove ops S key"

definition sinks_rebind ::
    "('m, sink_binding) slab_ops \<Rightarrow> nid \<Rightarrow> slot \<Rightarrow> bind_key \<Rightarrow> sink option \<Rightarrow> 'm
       \<Rightarrow> ('m \<times> sink option \<times> source_binding option) result" where
  "sinks_rebind ops this slot key ko S =
     (case ko of
        Some k \<Rightarrow>
          (case slab_get ops S key of
             None \<Rightarrow> Inl InvalidKey
           | Some b \<Rightarrow>
               let (k1, old) = sink_push \<lparr>src_node = this, src_slot = slot, src_key = key\<rparr> k
               in Inr (slab_put ops S key (b\<lparr>sb_slot := sk_slot k\<rparr>), Some k1, old))
      | None \<Rightarrow> Inr (sinks_unbind ops key S, None, None))"

definition sinks_is_empty :: "('m, sink_binding) slab_ops \<Rightarrow> 'm \<Rightarrow> bool" where
  "sinks_is_empty ops S = slab_is_empty ops S"

definition sinks_is_dirty :: "('m, sink_binding) slab_ops \<Rightarrow> bind_key \<Rightarrow> 'm \<Rightarrow> bool result" where
  "sinks_is_dirty ops key S =
     (case slab_get ops S key of
        None \<Rightarrow> Inl InvalidKey
      | Some b \<Rightarrow> (case sb_dirty b of
          Clean \<Rightarrow> Inr False
        | MaybeDirty \<Rightarrow> Inl IsDirtyBeforeUpdate
        | Dirty \<Rightarrow> Inr True))"

text \<open>
  \<open>notify\<close> visits the bindings in slab order. A binding that was clean forwards the level to its
  sink through \<open>call\<close>; every binding records the level. The slab is exclusively borrowed
  meanwhile, so \<open>call\<close> changes only the rest of the world \<open>'w\<close>.
\<close>

definition notify_one ::
    "('m, sink_binding) slab_ops \<Rightarrow> (sink_binding \<Rightarrow> 'w \<Rightarrow> 'w result) \<Rightarrow> dirty_level
       \<Rightarrow> bind_key \<Rightarrow> 'm \<times> 'w \<Rightarrow> ('m \<times> 'w) result" where
  "notify_one ops call level key = (\<lambda>(S, w).
     case slab_get ops S key of
       None \<Rightarrow> Inr (S, w)
     | Some b \<Rightarrow> res_bind (if needs_notify (sb_dirty b) then call b w else Inr w) (\<lambda>w1.
         Inr (slab_put ops S key (b\<lparr>sb_dirty := apply_notify level (sb_dirty b)\<rparr>), w1)))"

definition sinks_notify ::
    "('m, sink_binding) slab_ops \<Rightarrow> (sink_binding \<Rightarrow> 'w \<Rightarrow> 'w result) \<Rightarrow> dirty_level
       \<Rightarrow> 'm \<Rightarrow> 'w \<Rightarrow> ('m \<times> 'w) result" where
  "sinks_notify ops call level S w =
     (let S1 = slab_optimize ops S
      in res_fold (notify_one ops call level) (slab_keys ops S1) (S1, w))"

text \<open>\<open>update\<close> resolves every \<open>MaybeDirty\<close> binding, and only those.\<close>

definition update_one :: "('m, sink_binding) slab_ops \<Rightarrow> bool \<Rightarrow> bind_key \<Rightarrow> 'm \<Rightarrow> 'm" where
  "update_one ops changed key S =
     (case slab_get ops S key of
        None \<Rightarrow> S
      | Some b \<Rightarrow> if sb_dirty b = MaybeDirty
                then slab_put ops S key (b\<lparr>sb_dirty := from_is_dirty changed\<rparr>) else S)"

definition sinks_update :: "('m, sink_binding) slab_ops \<Rightarrow> bool \<Rightarrow> 'm \<Rightarrow> 'm" where
  "sinks_update ops changed S =
     (let S1 = slab_optimize ops S in fold (update_one ops changed) (slab_keys ops S1) S1)"

subsection \<open>SourceBinder\<close>

record source_binder =
  sbr_sources :: source_bindings
  sbr_dirty :: dirty
  sbr_sink :: nid
  sbr_slot :: slot

definition binder_new :: "nid \<Rightarrow> slot \<Rightarrow> source_binder" where
  "binder_new this slot = \<lparr>sbr_sources = [], sbr_dirty = Dirty, sbr_sink = this, sbr_slot = slot\<rparr>"

definition binder_is_clean :: "source_binder \<Rightarrow> bool" where
  "binder_is_clean sb = is_clean (sbr_dirty sb)"

definition binder_on_notify :: "slot \<Rightarrow> dirty_level \<Rightarrow> source_binder \<Rightarrow> bool \<times> source_binder" where
  "binder_on_notify slot level sb =
     (if slot = sbr_slot sb
      then (needs_notify (sbr_dirty sb), sb\<lparr>sbr_dirty := apply_notify level (sbr_dirty sb)\<rparr>)
      else (False, sb))"

subsection \<open>What the operations do to the entries\<close>

text \<open>One binding after \<open>update\<close> and after \<open>notify\<close>.\<close>

definition resolve_binding :: "bool \<Rightarrow> sink_binding \<Rightarrow> sink_binding" where
  "resolve_binding changed b =
     (if sb_dirty b = MaybeDirty then b\<lparr>sb_dirty := from_is_dirty changed\<rparr> else b)"

definition mark_binding :: "dirty_level \<Rightarrow> sink_binding \<Rightarrow> sink_binding" where
  "mark_binding level b = b\<lparr>sb_dirty := apply_notify level (sb_dirty b)\<rparr>"

lemma resolve_binding_simps [simp]:
  "sb_sink (resolve_binding c b) = sb_sink b" "sb_slot (resolve_binding c b) = sb_slot b"
  "sb_dirty (resolve_binding c b) \<noteq> MaybeDirty"
  "sb_dirty b \<noteq> MaybeDirty \<Longrightarrow> resolve_binding c b = b"
  by (simp_all add: resolve_binding_def)

lemma mark_binding_simps [simp]:
  "sb_sink (mark_binding l b) = sb_sink b" "sb_slot (mark_binding l b) = sb_slot b"
  "sb_dirty (mark_binding l b) = apply_notify l (sb_dirty b)"
  by (simp_all add: mark_binding_def)

lemma fold_update_one:
  assumes laws: "slab_laws ops" and "distinct keys"
  shows "slab_get ops (fold (update_one ops changed) keys S) k
    = (if k \<in> set keys then map_option (resolve_binding changed) (slab_get ops S k) else slab_get ops S k)"
  using assms(2)
proof (induction keys arbitrary: S)
  case (Cons i keys)
  have one: "slab_get ops (update_one ops changed i S) k
      = (if k = i then map_option (resolve_binding changed) (slab_get ops S k) else slab_get ops S k)" for k
    by (auto simp: update_one_def slab_get_put [OF laws] resolve_binding_def split: option.splits)
  show ?case using Cons by (auto simp: one)
qed simp

lemma sinks_update_get:
  assumes "slab_laws ops"
  shows "slab_get ops (sinks_update ops changed S) k = map_option (resolve_binding changed) (slab_get ops S k)"
proof -
  have "k \<notin> set (slab_keys ops (slab_optimize ops S)) \<Longrightarrow> slab_get ops S k = None"
    using assms by (auto simp: slab_keys_set slab_get_optimize)
  then show ?thesis
    using assms by (auto simp: sinks_update_def Let_def fold_update_one slab_keys_distinct slab_get_optimize)
qed

text \<open>
  \<open>notify\<close>: the bindings that were clean are forwarded to, in slab order, and every binding
  records the level. \<open>call\<close> is run on the clean ones only; the slab part of the result does not
  depend on what the calls do.
\<close>

lemma res_fold_notify_one:
  assumes laws: "slab_laws ops" and "distinct keys"
  shows "(case res_fold (notify_one ops call level) keys (S, w) of
      Inl e \<Rightarrow> res_fold call (filter (\<lambda>b. sb_dirty b = Clean) (List.map_filter (slab_get ops S) keys)) w = Inl e
    | Inr (S', w') \<Rightarrow>
        res_fold call (filter (\<lambda>b. sb_dirty b = Clean) (List.map_filter (slab_get ops S) keys)) w = Inr w'
      \<and> (\<forall>k. slab_get ops S' k = (if k \<in> set keys then map_option (mark_binding level) (slab_get ops S k)
                                  else slab_get ops S k)))"
  using assms(2)
proof (induction keys arbitrary: S w)
  case (Cons i keys)
  show ?case
  proof (cases "slab_get ops S i")
    case None
    then show ?thesis
      using Cons.IH [of S w] Cons.prems
      by (auto simp: notify_one_def List.map_filter_simps split: sum.splits)
  next
    case (Some b)
    define S1 where "S1 = slab_put ops S i (mark_binding level b)"
    have get1: "slab_get ops S1 k = (if k = i then Some (mark_binding level b) else slab_get ops S k)" for k
      by (simp add: S1_def slab_get_put [OF laws Some])
    have mf: "List.map_filter (slab_get ops S1) keys = List.map_filter (slab_get ops S) keys"
      using Cons.prems by (intro map_filter_agree) (auto simp: get1)
    have step: "notify_one ops call level i (S, w)
        = res_bind (if sb_dirty b = Clean then call b w else Inr w) (\<lambda>w1. Inr (S1, w1))"
      by (simp add: notify_one_def Some S1_def mark_binding_def)
    show ?thesis
    proof (cases "if sb_dirty b = Clean then call b w else Inr w")
      case (Inl e)
      then show ?thesis
        by (auto simp: step Some List.map_filter_simps split: if_splits)
    next
      case (Inr w1)
      then have hd: "res_fold call (filter (\<lambda>b. sb_dirty b = Clean) (List.map_filter (slab_get ops S) (i # keys))) w
          = res_fold call (filter (\<lambda>b. sb_dirty b = Clean) (List.map_filter (slab_get ops S) keys)) w1"
        by (auto simp: Some List.map_filter_simps split: if_splits)
      have tl: "res_fold (notify_one ops call level) (i # keys) (S, w)
          = res_fold (notify_one ops call level) keys (S1, w1)"
        using Inr by (simp add: step)
      have i: "i \<notin> set keys" "distinct keys" using Cons.prems by simp_all
      show ?thesis
        unfolding tl hd using Cons.IH [OF i(2), of S1 w1] i
        by (cases "res_fold (notify_one ops call level) keys (S1, w1)") (auto simp: mf get1 Some)
    qed
  qed
qed (simp add: List.map_filter_simps)

definition clean_bindings :: "('m, sink_binding) slab_ops \<Rightarrow> 'm \<Rightarrow> sink_binding list" where
  "clean_bindings ops S =
     filter (\<lambda>b. sb_dirty b = Clean) (List.map_filter (slab_get ops S) (slab_keys ops (slab_optimize ops S)))"

lemma clean_bindings_iff:
  assumes "slab_laws ops"
  shows "b \<in> set (clean_bindings ops S) \<longleftrightarrow> sb_dirty b = Clean \<and> (\<exists>k. slab_get ops S k = Some b)"
  using assms
  by (force simp: clean_bindings_def List.map_filter_def slab_keys_set slab_get_optimize)

lemma sinks_notify_run:
  assumes laws: "slab_laws ops"
  shows "res_fold call (clean_bindings ops S) w = Inl e \<Longrightarrow> sinks_notify ops call level S w = Inl e"
    and "res_fold call (clean_bindings ops S) w = Inr w' \<Longrightarrow>
      \<exists>S'. sinks_notify ops call level S w = Inr (S', w')
         \<and> (\<forall>k. slab_get ops S' k = map_option (mark_binding level) (slab_get ops S k))"
proof -
  let ?S1 = "slab_optimize ops S" and ?keys = "slab_keys ops (slab_optimize ops S)"
  have get1: "slab_get ops ?S1 = slab_get ops S"
    by (simp add: fun_eq_iff slab_get_optimize [OF laws])
  have out: "k \<notin> set ?keys \<Longrightarrow> slab_get ops S k = None" for k
    using laws by (auto simp: slab_keys_set get1)
  show "res_fold call (clean_bindings ops S) w = Inl e \<Longrightarrow> sinks_notify ops call level S w = Inl e"
    using res_fold_notify_one [OF laws slab_keys_distinct [OF laws], where call = call and level = level and S = ?S1 and w = w and m1 = ?S1]
    by (auto simp: sinks_notify_def clean_bindings_def Let_def get1 split: sum.splits)
  show "res_fold call (clean_bindings ops S) w = Inr w' \<Longrightarrow>
      \<exists>S'. sinks_notify ops call level S w = Inr (S', w')
         \<and> (\<forall>k. slab_get ops S' k = map_option (mark_binding level) (slab_get ops S k))"
    using res_fold_notify_one [OF laws slab_keys_distinct [OF laws], where call = call and level = level and S = ?S1 and w = w and m1 = ?S1] out
    by (auto simp: sinks_notify_def clean_bindings_def Let_def get1 split: sum.splits)
qed

lemma sinks_is_dirty_ok:
  "slab_get ops S key = Some b \<Longrightarrow> sb_dirty b \<noteq> MaybeDirty \<Longrightarrow>
     sinks_is_dirty ops key S = Inr (sb_dirty b = Dirty)"
  by (cases "sb_dirty b") (simp_all add: sinks_is_dirty_def)

end
