(* ===== verification/Node_Protocol.thy ===== *)
theory Node_Protocol
  imports Bindings
begin

section \<open>The protocol of a cached node\<close>

text \<open>
  The collections (change feeds, observable vectors and slab maps) and the asynchronous signals are nodes of the dependency
  graph of their own. Each keeps a \<open>SourceBinder\<close> towards its sources and \<open>SinkBindings\<close> towards its dependants. What a node
  reaches through \<open>dyn\<close> calls, the other nodes and the closures of the user, is the record \<open>node_env\<close> of functions on the state \<open>'w\<close> of
  everything else. Such a call may come back to the node: it can unbind dependants, which is part of its result. Any
  other way back meets a borrowed cell, so that the call panics.
\<close>

type_synonym unbinds = "(slot \<times> bind_key) list"

record ('w, 'm, 'f) node_env =
  ge_check :: "source_bindings \<Rightarrow> 'w \<Rightarrow> (bool \<times> unbinds \<times> 'w) result"
    \<comment> \<open>the \<open>check\<close> of the sources, in order, up to the first dirty one\<close>
  ge_run :: "source_binder \<Rightarrow> 'm \<Rightarrow> 'w \<Rightarrow> ('f list \<times> source_bindings \<times> unbinds \<times> 'w) result"
    \<comment> \<open>a run of the node's closure: its edits of \<open>'m\<close>, and the new dependencies\<close>
  ge_notify :: "sink_binding \<Rightarrow> 'w \<Rightarrow> 'w result"
  ge_unbind :: "source_binding \<Rightarrow> 'w \<Rightarrow> 'w result"
  ge_schedule :: "nid \<Rightarrow> slot \<Rightarrow> 'w \<Rightarrow> 'w"         \<comment> \<open>\<open>schedule_notify\<close>\<close>

subsection \<open>Operations shared by the nodes\<close>

text \<open>\<open>SourceBinder::check\<close>, which is \<open>SourceBindings::check_with\<close>.\<close>

definition check_with :: "('w, 'm, 'f) node_env \<Rightarrow> source_bindings \<Rightarrow> dirty \<Rightarrow> 'w \<Rightarrow> (bool \<times> dirty \<times> unbinds \<times> 'w) result" where
  "check_with env srcs d w =
     res_bind (if d = MaybeDirty then res_bind (ge_check env srcs w) (\<lambda>(b, us, w1). Inr (from_is_dirty b, us, w1))
               else Inr (d, [], w)) (\<lambda>(d1, us, w1). Inr (d1 = Dirty, d1, us, w1))"

definition binder_check_with :: "('w, 'm, 'f) node_env \<Rightarrow> source_binder \<Rightarrow> 'w \<Rightarrow> (bool \<times> source_binder \<times> unbinds \<times> 'w) result" where
  "binder_check_with env b w =
     res_bind (check_with env (sbr_sources b) (sbr_dirty b) w) (\<lambda>(r, d, us, w1). Inr (r, b\<lparr>sbr_dirty := d\<rparr>, us, w1))"

definition unbind_keys :: "('s, sink_binding) slab_ops \<Rightarrow> unbinds \<Rightarrow> 's \<Rightarrow> 's" where
  "unbind_keys ops us S = fold (\<lambda>(slot, key). sinks_unbind ops key) us S"

text \<open>
  \<open>self.sinks.borrow_mut().bind(self.clone(), slot, sc)\<close>: the cell stays borrowed while the dependency that the new
  one replaces is unbound at its source; when that source is this node again, its \<open>unbind\<close> finds the cell borrowed.
\<close>

definition release_old :: "('w, 'm, 'f) node_env \<Rightarrow> nid \<Rightarrow> source_binding option \<Rightarrow> 'w \<Rightarrow> 'w result" where
  "release_old env this old w =
     (case old of None \<Rightarrow> Inr w | Some b \<Rightarrow> if src_node b = this then Inl BorrowMutError else ge_unbind env b w)"

definition bind_sinks ::
    "('s, sink_binding) slab_ops \<Rightarrow> ('w, 'm, 'f) node_env \<Rightarrow> nid \<Rightarrow> slot \<Rightarrow> sink option \<Rightarrow> 's \<Rightarrow> 'w \<Rightarrow> ('s \<times> sink option \<times> 'w) result" where
  "bind_sinks ops env this slot ko S w =
     (case ko of None \<Rightarrow> Inr (S, None, w)
      | Some k \<Rightarrow> res_bind (sinks_bind ops this slot k S) (\<lambda>(S1, k1, old).
          res_bind (release_old env this old w) (\<lambda>w1. Inr (S1, Some k1, w1))))"

definition rebind_sinks ::
    "('s, sink_binding) slab_ops \<Rightarrow> ('w, 'm, 'f) node_env \<Rightarrow> nid \<Rightarrow> slot \<Rightarrow> bind_key \<Rightarrow> sink option \<Rightarrow> 's \<Rightarrow> 'w \<Rightarrow> ('s \<times> sink option \<times> 'w) result" where
  "rebind_sinks ops env this slot key ko S w =
     res_bind (sinks_rebind ops this slot key ko S) (\<lambda>(S1, k1, old).
       res_bind (release_old env this old w) (\<lambda>w1. Inr (S1, k1, w1)))"

subsection \<open>Coherence of the flags\<close>

text \<open>
  While a node is clean, no dependant is \<open>MaybeDirty\<close>; while it is not, no dependant is \<open>Clean\<close>: all of them have been told.
\<close>

definition flags_ok :: "('s, sink_binding) slab_ops \<Rightarrow> bool \<Rightarrow> 's \<Rightarrow> bool" where
  "flags_ok ops clean S \<longleftrightarrow> (\<forall>k b. slab_get ops S k = Some b \<longrightarrow> sb_dirty b \<noteq> (if clean then MaybeDirty else Clean))"

definition all_dirty :: "('s, sink_binding) slab_ops \<Rightarrow> 's \<Rightarrow> bool" where
  "all_dirty ops S \<longleftrightarrow> (\<forall>k b. slab_get ops S k = Some b \<longrightarrow> sb_dirty b = Dirty)"

lemma flags_okI: "(\<And>k b. slab_get ops S k = Some b \<Longrightarrow> sb_dirty b \<noteq> (if clean then MaybeDirty else Clean)) \<Longrightarrow> flags_ok ops clean S"
  by (simp add: flags_ok_def)

lemma flags_ok_new: "slab_laws ops \<Longrightarrow> flags_ok ops c (slab_new ops)"
  by (simp add: flags_ok_def slab_get_new)

lemma unbind_keys_get:
  assumes "slab_laws ops"
  shows "slab_get ops (unbind_keys ops us S) k = (if k \<in> snd ` set us then None else slab_get ops S k)"
  unfolding unbind_keys_def
  by (induction us arbitrary: S) (auto simp: sinks_unbind_def slab_get_remove [OF assms])

lemma flags_ok_unbind: "slab_laws ops \<Longrightarrow> flags_ok ops c S \<Longrightarrow> flags_ok ops c (unbind_keys ops us S)"
  by (auto simp: flags_ok_def unbind_keys_get split: if_splits)

lemma flags_ok_remove: "slab_laws ops \<Longrightarrow> flags_ok ops c S \<Longrightarrow> flags_ok ops c (sinks_unbind ops key S)"
  by (auto simp: flags_ok_def sinks_unbind_def slab_get_remove split: if_splits)

lemma flags_ok_update: "slab_laws ops \<Longrightarrow> flags_ok ops True (sinks_update ops changed S)"
  by (auto simp: flags_ok_def sinks_update_get)

lemma notify_marks:
  assumes "slab_laws ops" and "sinks_notify ops call level S w = Inr (S', w')"
  shows "slab_get ops S' k = map_option (mark_binding level) (slab_get ops S k)"
proof -
  obtain w1 where w1: "res_fold call (clean_bindings ops S) w = Inr w1"
    using assms(2) sinks_notify_run(1) [OF assms(1), of call S w _ level] by (cases "res_fold call (clean_bindings ops S) w") auto
  show ?thesis using sinks_notify_run(2) [OF assms(1) w1, of level] assms(2) by auto
qed

lemma notify_flags:
  assumes "slab_laws ops" and "sinks_notify ops call level S w = Inr (S', w')"
  shows "flags_ok ops False S'" and "level = LevelDirty \<Longrightarrow> all_dirty ops S'"
  by (auto simp: flags_ok_def all_dirty_def notify_marks [OF assms])

lemma notify_all_dirty: "slab_laws ops \<Longrightarrow> sinks_notify ops call LevelDirty S w = Inr (S', w') \<Longrightarrow> all_dirty ops S'"
  by (rule notify_flags(2)) simp_all

lemma all_dirty_flags: "all_dirty ops S \<Longrightarrow> flags_ok ops c S"
  by (auto simp: all_dirty_def flags_ok_def)

lemma bind_flags:
  assumes laws: "slab_laws ops" and f: "flags_ok ops True S" and b: "bind_sinks ops env this slot ko S w = Inr (S', ko', w')"
  shows "flags_ok ops True S'"
proof (cases ko)
  case None
  then show ?thesis using b f by (simp add: bind_sinks_def)
next
  case (Some k)
  then obtain k1 old where s: "sinks_bind ops this slot k S = Inr (S', k1, old)" using b by (auto simp: bind_sinks_def res_bind_eq_Inr)
  show ?thesis
  proof (cases "sk_len k < length (sk_sources k) \<and> is_same (sk_sources k ! sk_len k) this slot")
    case True
    then obtain u where u: "slab_get ops S (src_key (sk_sources k ! sk_len k)) = Some u"
      "S' = slab_put ops S (src_key (sk_sources k ! sk_len k)) (u\<lparr>sb_dirty := Clean\<rparr>)"
      using s by (auto simp: sinks_bind_def Let_def split: option.splits)
    show ?thesis using f by (auto simp: flags_ok_def u(2) slab_get_put [OF laws u(1)] split: if_splits)
  next
    case False
    then obtain key where key: "slab_insert ops S \<lparr>sb_sink = sk_node k, sb_slot = sk_slot k, sb_dirty = Clean\<rparr> = (key, S')"
      using s by (auto simp: sinks_bind_def split: prod.splits)
    show ?thesis using f by (auto simp: flags_ok_def slab_get_insert [OF laws key] split: if_splits)
  qed
qed

lemma rebind_flags:
  assumes laws: "slab_laws ops" and f: "flags_ok ops c S" and b: "rebind_sinks ops env this slot key ko S w = Inr (S', ko', w')"
  shows "flags_ok ops c S'"
proof (cases ko)
  case None
  then show ?thesis using b flags_ok_remove [OF laws f] by (auto simp: rebind_sinks_def sinks_rebind_def res_bind_eq_Inr)
next
  case (Some k)
  then obtain u where u: "slab_get ops S key = Some u" "S' = slab_put ops S key (u\<lparr>sb_slot := sk_slot k\<rparr>)"
    using b by (auto simp: rebind_sinks_def sinks_rebind_def res_bind_eq_Inr split: option.splits prod.splits)
  show ?thesis using f u(1) by (auto simp: flags_ok_def u(2) slab_get_put [OF laws u(1)] split: if_splits)
qed

text \<open>A clean node answers every dependant that is bound.\<close>

lemma flags_answer:
  "flags_ok ops True S \<Longrightarrow> slab_get ops S key = Some b \<Longrightarrow> sinks_is_dirty ops key S = Inr (sb_dirty b = Dirty)"
  by (rule sinks_is_dirty_ok) (auto simp: flags_ok_def)

lemma flags_no_panic: "flags_ok ops True S \<Longrightarrow> sinks_is_dirty ops key S \<noteq> Inl IsDirtyBeforeUpdate"
  by (cases "slab_get ops S key") (simp_all add: flags_answer, simp add: sinks_is_dirty_def)

lemma binder_check_clean:
  assumes "binder_check_with env b w = Inr (r, b1, us, w1)"
  shows "r \<longleftrightarrow> sbr_dirty b1 = Dirty" and "binder_is_clean b1 \<longleftrightarrow> \<not> r"
    and "sbr_sources b1 = sbr_sources b" "sbr_sink b1 = sbr_sink b" "sbr_slot b1 = sbr_slot b"
  using assms
  by (cases "sbr_dirty b"; auto simp: binder_check_with_def check_with_def binder_is_clean_def is_clean_def res_bind_eq_Inr split: if_splits)+

subsection \<open>The panic of an open flag\<close>

definition not_stale :: "'a result \<Rightarrow> bool" where
  "not_stale r \<longleftrightarrow> r \<noteq> Inl IsDirtyBeforeUpdate"

named_theorems not_stale_intro

lemma not_stale_Inr [not_stale_intro]: "not_stale (Inr x)"
  by (simp add: not_stale_def)

lemma not_stale_Inl: "e \<noteq> IsDirtyBeforeUpdate \<Longrightarrow> not_stale (Inl e)"
  by (simp add: not_stale_def)

lemma not_stale_bind [not_stale_intro]: "not_stale r \<Longrightarrow> (\<And>x. r = Inr x \<Longrightarrow> not_stale (f x)) \<Longrightarrow> not_stale (res_bind r f)"
  by (cases r) (simp_all add: not_stale_def)

lemma not_stale_assert [not_stale_intro]: "e \<noteq> IsDirtyBeforeUpdate \<Longrightarrow> not_stale (res_assert e b)"
  by (simp add: not_stale_def res_assert_def)

lemma not_stale_fold: "(\<And>x s. x \<in> set xs \<Longrightarrow> not_stale (f x s)) \<Longrightarrow> not_stale (res_fold f xs s)"
  by (induction xs arbitrary: s) (auto intro!: not_stale_intro)

text \<open>The rest of the graph does not raise it.\<close>

definition env_safe :: "('w, 'm, 'f) node_env \<Rightarrow> bool" where
  "env_safe env \<longleftrightarrow> (\<forall>s w. not_stale (ge_check env s w)) \<and> (\<forall>b m w. not_stale (ge_run env b m w)) \<and> (\<forall>b w. not_stale (ge_notify env b w))
     \<and> (\<forall>b w. not_stale (ge_unbind env b w))"

lemma not_stale_binds [not_stale_intro]:
  assumes "env_safe env"
  shows "not_stale (bind_sinks ops env this slot ko S w)" and "not_stale (rebind_sinks ops env this slot key ko S w)"
proof -
  have old: "not_stale (release_old env this old w)" for old
    using assms by (auto simp: release_old_def env_safe_def not_stale_Inr not_stale_Inl split: option.split)
  have "not_stale (sinks_bind ops this slot k S)" for k
    by (auto simp: sinks_bind_def Let_def not_stale_def split: option.split prod.split)
  moreover have "not_stale (sinks_rebind ops this slot key ko S)"
    by (auto simp: sinks_rebind_def not_stale_def split: option.split prod.split)
  ultimately show "not_stale (bind_sinks ops env this slot ko S w)" "not_stale (rebind_sinks ops env this slot key ko S w)"
    using old unfolding bind_sinks_def rebind_sinks_def by (auto split: option.split intro!: not_stale_intro)
qed

lemma not_stale_notify:
  assumes "env_safe env"
  shows "not_stale (sinks_notify ops (ge_notify env) level S w)"
  unfolding sinks_notify_def Let_def
  using assms by (intro not_stale_fold) (auto simp: notify_one_def env_safe_def split: option.split intro!: not_stale_intro)

lemma not_stale_check: "env_safe env \<Longrightarrow> not_stale (binder_check_with env b w)"
  unfolding binder_check_with_def check_with_def by (auto simp: env_safe_def intro!: not_stale_intro)

subsection \<open>The contract of a node\<close>

text \<open>
  \<open>pull_node\<close>: what \<open>check\<close> needs of \<open>update\<close>. \<open>flag n q\<close> is the flag of the dependant \<open>q\<close>. \<open>node_steps\<close>: a set of operations that keeps a node coherent.
\<close>

definition check_node :: "('n \<Rightarrow> 'w \<Rightarrow> ('n \<times> 'w) result) \<Rightarrow> ('q \<Rightarrow> 'n \<Rightarrow> bool result) \<Rightarrow> 'q \<Rightarrow> 'n \<Rightarrow> 'w \<Rightarrow> (bool \<times> 'n \<times> 'w) result" where
  "check_node pull ask q n w = res_bind (pull n w) (\<lambda>(n1, w1). res_bind (ask q n1) (\<lambda>d. Inr (d, n1, w1)))"

locale pull_node =
  fixes pull :: "'n \<Rightarrow> 'w \<Rightarrow> ('n \<times> 'w) result" and ask :: "'q \<Rightarrow> 'n \<Rightarrow> bool result" and flag :: "'n \<Rightarrow> 'q \<Rightarrow> dirty option"
    and coherent :: "'n \<Rightarrow> bool"
  assumes pull_coherent: "coherent n \<Longrightarrow> pull n w = Inr (n', w') \<Longrightarrow> coherent n'"
    and pull_decides: "coherent n \<Longrightarrow> pull n w = Inr (n', w') \<Longrightarrow> flag n' q \<noteq> Some MaybeDirty"
    and pull_safe: "coherent n \<Longrightarrow> not_stale (pull n w)"
    and ask_flag: "flag n q = Some d \<Longrightarrow> d \<noteq> MaybeDirty \<Longrightarrow> ask q n = Inr (d = Dirty)"
    and ask_vacant: "flag n q = None \<Longrightarrow> not_stale (ask q n)"
begin

lemma check_safe:
  assumes "coherent n"
  shows "not_stale (check_node pull ask q n w)"
  unfolding check_node_def
proof (intro not_stale_bind pull_safe [OF assms])
  fix x assume x: "pull n w = Inr x"
  obtain n1 w1 where p: "x = (n1, w1)" by (cases x)
  have "flag n1 q \<noteq> Some MaybeDirty" using pull_decides [OF assms] x p by simp
  then have "not_stale (ask q n1)" using ask_flag [of n1 q] ask_vacant [of n1 q] by (cases "flag n1 q") (auto simp: not_stale_Inr)
  then show "not_stale (case x of (n1, w1) \<Rightarrow> res_bind (ask q n1) (\<lambda>d. Inr (d, n1, w1)))" by (auto simp: p intro!: not_stale_intro)
qed

lemma check_coherent: "coherent n \<Longrightarrow> check_node pull ask q n w = Inr (d, n', w') \<Longrightarrow> coherent n'"
  using pull_coherent unfolding check_node_def by (auto simp: res_bind_eq_Inr)

lemma check_answer:
  "coherent n \<Longrightarrow> pull n w = Inr (n', w') \<Longrightarrow> flag n' q = Some f \<Longrightarrow> check_node pull ask q n w = Inr (f = Dirty, n', w')"
  using pull_decides [of n w n' w' q] ask_flag [of n' q f] by (simp add: check_node_def)

end

locale node_steps =
  fixes step :: "'op \<Rightarrow> 'n \<times> 'w \<Rightarrow> ('n \<times> 'w) result" and coherent :: "'n \<Rightarrow> bool"
  assumes step_safe: "coherent n \<Longrightarrow> not_stale (step c (n, w))"
    and step_coherent: "coherent n \<Longrightarrow> step c (n, w) = Inr (n', w') \<Longrightarrow> coherent n'"
begin

lemma run_safe: "coherent n \<Longrightarrow> not_stale (res_fold step cs (n, w))"
proof (induction cs arbitrary: n w)
  case (Cons c cs)
  then show ?case using step_safe [OF Cons.prems] step_coherent [OF Cons.prems] by (auto intro!: not_stale_intro)
qed (simp add: not_stale_Inr)

lemma run_coherent: "coherent n \<Longrightarrow> res_fold step cs (n, w) = Inr (n', w') \<Longrightarrow> coherent n'"
proof (induction cs arbitrary: n w)
  case (Cons c cs)
  then show ?case using step_coherent [OF Cons.prems(1)] by (auto simp: res_bind_eq_Inr) blast
qed simp

end

end
