(* ===== verification/Poll_Scan.thy ===== *)
theory Poll_Scan
  imports Node_Protocol
begin

section \<open>Signals driven by a future or a stream (signal/builder/future\_scan.rs, stream\_scan.rs)\<close>

text \<open>
  Such a node has no sources. Its closure is a future or a stream, polled with a waker that notifies the node. \<open>is_wake\<close> says that it has to be
  polled again; the whole \<open>reaction\<close> is dropped when the future or the stream has ended. Polling is the function \<open>poll\<close>: what \<open>Future::poll\<close> or \<open>Stream::poll_next\<close>
  returns, the future left behind, and the rest of the program. A map function of the builder sees the context, so that it can read other signals.
\<close>

subsection \<open>Map functions\<close>

type_synonym ('x, 'y, 'w) map_fn = "'x \<Rightarrow> sink option \<Rightarrow> 'w \<Rightarrow> ('y \<times> sink option \<times> unbinds \<times> 'w) result"

definition map_fn_none :: "('x, 'x, 'w) map_fn" where
  "map_fn_none x ko w = Inr (x, ko, [], w)"

definition map_fn_raw :: "('x, 'y, 'w) map_fn \<Rightarrow> ('y, 'z, 'w) map_fn \<Rightarrow> ('x, 'z, 'w) map_fn" where
  "map_fn_raw m f x ko w = res_bind (m x ko w) (\<lambda>(y, ko1, us1, w1). res_bind (f y ko1 w1) (\<lambda>(z, ko2, us2, w2). Inr (z, ko2, us1 @ us2, w2)))"

subsection \<open>Futures\<close>

datatype ('st, 'i) future_scan_fn = FutureScanVoid "'st \<Rightarrow> 'i \<Rightarrow> 'st" | FutureScanBool "'st \<Rightarrow> 'i \<Rightarrow> 'st \<times> bool"

primrec future_scan_filter :: "('st, 'i) future_scan_fn \<Rightarrow> bool" where
  "future_scan_filter (FutureScanVoid f) = False"
| "future_scan_filter (FutureScanBool f) = True"

primrec future_scan_call :: "('st, 'i) future_scan_fn \<Rightarrow> 'st \<Rightarrow> 'i \<Rightarrow> 'st \<times> bool" where
  "future_scan_call (FutureScanVoid f) st i = (f st i, True)"
| "future_scan_call (FutureScanBool f) st i = f st i"

record ('fut, 'f) poll_reaction =
  pr_future :: 'fut
  pr_is_wake :: bool
  pr_scan :: 'f

record ('st, 'fut, 'f, 's) poll_node =
  pn_state :: 'st
  pn_reaction :: "('fut, 'f) poll_reaction option"
  pn_sinks :: 's

definition poll_is_wake :: "('st, 'fut, 'f, 's) poll_node \<Rightarrow> bool" where
  "poll_is_wake n = (case pn_reaction n of Some t \<Rightarrow> pr_is_wake t | None \<Rightarrow> False)"

definition future_scan_new :: "('s, sink_binding) slab_ops \<Rightarrow> 'st \<Rightarrow> 'fut \<Rightarrow> 'f \<Rightarrow> ('st, 'fut, 'f, 's) poll_node" where
  "future_scan_new ops st fut f =
     \<lparr>pn_state = st, pn_reaction = Some \<lparr>pr_future = fut, pr_is_wake = True, pr_scan = f\<rparr>, pn_sinks = slab_new ops\<rparr>"

definition future_scan_update ::
    "('s, sink_binding) slab_ops \<Rightarrow> ('fut \<Rightarrow> 'w \<Rightarrow> ('i option \<times> 'fut \<times> 'w) result)
       \<Rightarrow> ('st, 'fut, ('st, 'i) future_scan_fn, 's) poll_node \<Rightarrow> 'w \<Rightarrow> (('st, 'fut, ('st, 'i) future_scan_fn, 's) poll_node \<times> 'w) result" where
  "future_scan_update ops poll n w =
     (if \<not> poll_is_wake n then Inr (n, w)
      else res_bind (res_of_option UnwrapNone (pn_reaction n)) (\<lambda>t.
        res_bind (poll (pr_future t) w) (\<lambda>(v, fut, w1).
        let (is_dirty, n1) = (case v of
            Some value \<Rightarrow> let (st, d) = future_scan_call (pr_scan t) (pn_state n) value in (d, n\<lparr>pn_state := st, pn_reaction := None\<rparr>)
          | None \<Rightarrow> (False, n\<lparr>pn_reaction := Some (t\<lparr>pr_future := fut, pr_is_wake := False\<rparr>)\<rparr>))
        in Inr (n1\<lparr>pn_sinks := sinks_update ops is_dirty (pn_sinks n1)\<rparr>, w1))))"

text \<open>The binding operations are the same for both kinds of nodes; \<open>pull\<close> is the node's \<open>update\<close>.\<close>

definition poll_node_borrow ::
    "('s, sink_binding) slab_ops \<Rightarrow> ('w, 'm, 'g) node_env
       \<Rightarrow> (('st, 'fut, 'f, 's) poll_node \<Rightarrow> 'w \<Rightarrow> (('st, 'fut, 'f, 's) poll_node \<times> 'w) result) \<Rightarrow> ('st, 'v, 'w) map_fn
       \<Rightarrow> nid \<Rightarrow> sink option \<Rightarrow> ('st, 'fut, 'f, 's) poll_node \<Rightarrow> 'w \<Rightarrow> ('v \<times> sink option \<times> ('st, 'fut, 'f, 's) poll_node \<times> 'w) result" where
  "poll_node_borrow ops env pull map_f this ko n w =
     res_bind (pull n w) (\<lambda>(n1, w1).
     res_bind (bind_sinks ops env this 0 ko (pn_sinks n1) w1) (\<lambda>(S, ko1, w2).
     res_bind (map_f (pn_state n1) ko1 w2) (\<lambda>(v, ko2, us, w3). Inr (v, ko2, n1\<lparr>pn_sinks := unbind_keys ops us S\<rparr>, w3))))"

definition poll_node_check ::
    "('s, sink_binding) slab_ops \<Rightarrow> (('st, 'fut, 'f, 's) poll_node \<Rightarrow> 'w \<Rightarrow> (('st, 'fut, 'f, 's) poll_node \<times> 'w) result)
       \<Rightarrow> bind_key \<Rightarrow> ('st, 'fut, 'f, 's) poll_node \<Rightarrow> 'w \<Rightarrow> (bool \<times> ('st, 'fut, 'f, 's) poll_node \<times> 'w) result" where
  "poll_node_check ops pull key n w =
     res_bind (pull n w) (\<lambda>(n1, w1). res_bind (sinks_is_dirty ops key (pn_sinks n1)) (\<lambda>d. Inr (d, n1, w1)))"

definition poll_node_unbind :: "('s, sink_binding) slab_ops \<Rightarrow> bind_key \<Rightarrow> ('st, 'fut, 'f, 's) poll_node \<Rightarrow> ('st, 'fut, 'f, 's) poll_node" where
  "poll_node_unbind ops key n = n\<lparr>pn_sinks := sinks_unbind ops key (pn_sinks n)\<rparr>"

definition poll_node_rebind ::
    "('s, sink_binding) slab_ops \<Rightarrow> ('w, 'm, 'g) node_env \<Rightarrow> nid \<Rightarrow> slot \<Rightarrow> bind_key \<Rightarrow> sink option
       \<Rightarrow> ('st, 'fut, 'f, 's) poll_node \<Rightarrow> 'w \<Rightarrow> (sink option \<times> ('st, 'fut, 'f, 's) poll_node \<times> 'w) result" where
  "poll_node_rebind ops env this slot key ko n w =
     res_bind (rebind_sinks ops env this slot key ko (pn_sinks n) w) (\<lambda>(S, ko1, w1). Inr (ko1, n\<lparr>pn_sinks := S\<rparr>, w1))"

text \<open>\<open>notify\<close>, called by the waker: \<open>forward\<close> is the level the dependants are given.\<close>

definition poll_node_notify ::
    "('s, sink_binding) slab_ops \<Rightarrow> ('w, 'm, 'g) node_env \<Rightarrow> ('f \<Rightarrow> dirty_level)
       \<Rightarrow> ('st, 'fut, 'f, 's) poll_node \<Rightarrow> 'w \<Rightarrow> (('st, 'fut, 'f, 's) poll_node \<times> 'w) result" where
  "poll_node_notify ops env forward n w = (case pn_reaction n of
       None \<Rightarrow> Inr (n, w)
     | Some t \<Rightarrow> if pr_is_wake t then Inr (n, w)
         else res_bind (sinks_notify ops (ge_notify env) (forward (pr_scan t)) (pn_sinks n) w) (\<lambda>(S, w1).
           Inr (n\<lparr>pn_reaction := Some (t\<lparr>pr_is_wake := True\<rparr>), pn_sinks := S\<rparr>, w1)))"

definition future_scan_notify ::
    "('s, sink_binding) slab_ops \<Rightarrow> ('w, 'm, 'g) node_env \<Rightarrow> dirty_level
       \<Rightarrow> ('st, 'fut, ('st, 'i) future_scan_fn, 's) poll_node \<Rightarrow> 'w \<Rightarrow> (('st, 'fut, ('st, 'i) future_scan_fn, 's) poll_node \<times> 'w) result" where
  "future_scan_notify ops env level = poll_node_notify ops env (\<lambda>f. maybe_if level (future_scan_filter f))"

definition future_scan_borrow ::
    "('s, sink_binding) slab_ops \<Rightarrow> ('w, 'm, 'g) node_env \<Rightarrow> ('fut \<Rightarrow> 'w \<Rightarrow> ('i option \<times> 'fut \<times> 'w) result) \<Rightarrow> ('st, 'v, 'w) map_fn
       \<Rightarrow> nid \<Rightarrow> sink option \<Rightarrow> ('st, 'fut, ('st, 'i) future_scan_fn, 's) poll_node \<Rightarrow> 'w
       \<Rightarrow> ('v \<times> sink option \<times> ('st, 'fut, ('st, 'i) future_scan_fn, 's) poll_node \<times> 'w) result" where
  "future_scan_borrow ops env poll = poll_node_borrow ops env (future_scan_update ops poll)"

definition future_scan_check ::
    "('s, sink_binding) slab_ops \<Rightarrow> ('fut \<Rightarrow> 'w \<Rightarrow> ('i option \<times> 'fut \<times> 'w) result)
       \<Rightarrow> bind_key \<Rightarrow> ('st, 'fut, ('st, 'i) future_scan_fn, 's) poll_node \<Rightarrow> 'w
       \<Rightarrow> (bool \<times> ('st, 'fut, ('st, 'i) future_scan_fn, 's) poll_node \<times> 'w) result" where
  "future_scan_check ops poll = poll_node_check ops (future_scan_update ops poll)"

subsection \<open>Streams\<close>

definition stream_scan_update ::
    "('s, sink_binding) slab_ops \<Rightarrow> ('fut \<Rightarrow> 'w \<Rightarrow> ('i option option \<times> 'fut \<times> 'w) result)
       \<Rightarrow> ('st, 'fut, 'st \<Rightarrow> 'i option \<Rightarrow> 'st \<times> bool, 's) poll_node \<Rightarrow> 'w
       \<Rightarrow> (('st, 'fut, 'st \<Rightarrow> 'i option \<Rightarrow> 'st \<times> bool, 's) poll_node \<times> 'w) result" where
  "stream_scan_update ops poll n w =
     (if \<not> poll_is_wake n then Inr (n, w)
      else res_bind (res_of_option UnwrapNone (pn_reaction n)) (\<lambda>t.
        res_bind (poll (pr_future t) w) (\<lambda>(v, fut, w1).
        let (is_dirty, n1) = (case v of
            Some item \<Rightarrow> let (st, d) = pr_scan t (pn_state n) item in
              (d, n\<lparr>pn_state := st, pn_reaction := (if item = None then None else Some (t\<lparr>pr_future := fut\<rparr>))\<rparr>)
          | None \<Rightarrow> (False, n\<lparr>pn_reaction := Some (t\<lparr>pr_future := fut\<rparr>)\<rparr>));
          n2 = n1\<lparr>pn_reaction := map_option (\<lambda>t. t\<lparr>pr_is_wake := False\<rparr>) (pn_reaction n1)\<rparr>
        in Inr (n2\<lparr>pn_sinks := sinks_update ops is_dirty (pn_sinks n2)\<rparr>, w1))))"

definition stream_scan_notify ::
    "('s, sink_binding) slab_ops \<Rightarrow> ('w, 'm, 'g) node_env \<Rightarrow> dirty_level \<Rightarrow> ('st, 'fut, 'f, 's) poll_node \<Rightarrow> 'w
       \<Rightarrow> (('st, 'fut, 'f, 's) poll_node \<times> 'w) result" where
  "stream_scan_notify ops env level = poll_node_notify ops env (\<lambda>f. LevelMaybeDirty)"

definition stream_scan_new :: "('s, sink_binding) slab_ops \<Rightarrow> 'st \<Rightarrow> 'fut \<Rightarrow> 'f \<Rightarrow> ('st, 'fut, 'f, 's) poll_node" where
  "stream_scan_new ops st stream f =
     \<lparr>pn_state = st, pn_reaction = Some \<lparr>pr_future = stream, pr_is_wake = True, pr_scan = f\<rparr>, pn_sinks = slab_new ops\<rparr>"

definition stream_scan_borrow ::
    "('s, sink_binding) slab_ops \<Rightarrow> ('w, 'm, 'g) node_env \<Rightarrow> ('fut \<Rightarrow> 'w \<Rightarrow> ('i option option \<times> 'fut \<times> 'w) result) \<Rightarrow> ('st, 'v, 'w) map_fn
       \<Rightarrow> nid \<Rightarrow> sink option \<Rightarrow> ('st, 'fut, 'st \<Rightarrow> 'i option \<Rightarrow> 'st \<times> bool, 's) poll_node \<Rightarrow> 'w
       \<Rightarrow> ('v \<times> sink option \<times> ('st, 'fut, 'st \<Rightarrow> 'i option \<Rightarrow> 'st \<times> bool, 's) poll_node \<times> 'w) result" where
  "stream_scan_borrow ops env poll = poll_node_borrow ops env (stream_scan_update ops poll)"

definition stream_scan_check ::
    "('s, sink_binding) slab_ops \<Rightarrow> ('fut \<Rightarrow> 'w \<Rightarrow> ('i option option \<times> 'fut \<times> 'w) result)
       \<Rightarrow> bind_key \<Rightarrow> ('st, 'fut, 'st \<Rightarrow> 'i option \<Rightarrow> 'st \<times> bool, 's) poll_node \<Rightarrow> 'w
       \<Rightarrow> (bool \<times> ('st, 'fut, 'st \<Rightarrow> 'i option \<Rightarrow> 'st \<times> bool, 's) poll_node \<times> 'w) result" where
  "stream_scan_check ops poll = poll_node_check ops (stream_scan_update ops poll)"

subsection \<open>Builders\<close>

text \<open>A builder collects what a node is made of; a signal made of it is a node and a map function.\<close>

record ('st, 'fut, 'f, 'm) poll_builder =
  pb_state :: 'st
  pb_future :: 'fut
  pb_scan :: 'f
  pb_map :: 'm

definition future_scan_builder :: "'st \<Rightarrow> 'fut \<Rightarrow> 'f \<Rightarrow> ('st, 'fut, 'f, ('st, 'st, 'w) map_fn) poll_builder" where
  "future_scan_builder st fut f = \<lparr>pb_state = st, pb_future = fut, pb_scan = f, pb_map = map_fn_none\<rparr>"

definition stream_scan_builder :: "'st \<Rightarrow> 'fut \<Rightarrow> 'f \<Rightarrow> ('st, 'fut, 'f, ('st, 'st, 'w) map_fn) poll_builder" where
  "stream_scan_builder st stream f = \<lparr>pb_state = st, pb_future = stream, pb_scan = f, pb_map = map_fn_none\<rparr>"

definition future_map_raw :: "('y, 'z, 'w) map_fn \<Rightarrow> ('st, 'fut, 'f, ('st, 'y, 'w) map_fn) poll_builder \<Rightarrow> ('st, 'fut, 'f, ('st, 'z, 'w) map_fn) poll_builder" where
  "future_map_raw f b = \<lparr>pb_state = pb_state b, pb_future = pb_future b, pb_scan = pb_scan b, pb_map = map_fn_raw (pb_map b) f\<rparr>"

definition stream_map_raw :: "('y, 'z, 'w) map_fn \<Rightarrow> ('st, 'fut, 'f, ('st, 'y, 'w) map_fn) poll_builder \<Rightarrow> ('st, 'fut, 'f, ('st, 'z, 'w) map_fn) poll_builder" where
  "stream_map_raw f b = \<lparr>pb_state = pb_state b, pb_future = pb_future b, pb_scan = pb_scan b, pb_map = map_fn_raw (pb_map b) f\<rparr>"

definition future_build :: "('s, sink_binding) slab_ops \<Rightarrow> ('st, 'fut, 'f, 'm) poll_builder \<Rightarrow> ('st, 'fut, 'f, 's) poll_node \<times> 'm" where
  "future_build ops b = (future_scan_new ops (pb_state b) (pb_future b) (pb_scan b), pb_map b)"

definition stream_build :: "('s, sink_binding) slab_ops \<Rightarrow> ('st, 'fut, 'f, 'm) poll_builder \<Rightarrow> ('st, 'fut, 'f, 's) poll_node \<times> 'm" where
  "stream_build ops b = (stream_scan_new ops (pb_state b) (pb_future b) (pb_scan b), pb_map b)"

text \<open>\<open>SignalBuilder::from_future_scan\<close>, \<open>from_future_scan_filter\<close> and \<open>from_stream_scan_filter\<close>.\<close>

definition from_future_scan :: "'st \<Rightarrow> 'fut \<Rightarrow> ('st \<Rightarrow> 'i \<Rightarrow> 'st) \<Rightarrow> ('st, 'fut, ('st, 'i) future_scan_fn, ('st, 'st, 'w) map_fn) poll_builder" where
  "from_future_scan st fut f = future_scan_builder st fut (FutureScanVoid f)"

definition from_future_scan_filter ::
    "'st \<Rightarrow> 'fut \<Rightarrow> ('st \<Rightarrow> 'i \<Rightarrow> 'st \<times> bool) \<Rightarrow> ('st, 'fut, ('st, 'i) future_scan_fn, ('st, 'st, 'w) map_fn) poll_builder" where
  "from_future_scan_filter st fut f = future_scan_builder st fut (FutureScanBool f)"

definition from_stream_scan_filter ::
    "'st \<Rightarrow> 'fut \<Rightarrow> ('st \<Rightarrow> 'i option \<Rightarrow> 'st \<times> bool) \<Rightarrow> ('st, 'fut, 'st \<Rightarrow> 'i option \<Rightarrow> 'st \<times> bool, ('st, 'st, 'w) map_fn) poll_builder" where
  "from_stream_scan_filter st stream f = stream_scan_builder st stream f"

text \<open>\<open>Signal::from_future\<close> and \<open>Signal::from_stream\<close>: the state is a \<open>Poll\<close>, \<open>None\<close> while it is pending.\<close>

definition signal_from_future ::
    "('s, sink_binding) slab_ops \<Rightarrow> 'fut
       \<Rightarrow> ('i option, 'fut, ('i option, 'i) future_scan_fn, 's) poll_node \<times> ('i option, 'i option, 'w) map_fn" where
  "signal_from_future ops fut = future_build ops (from_future_scan None fut (\<lambda>st v. Some v))"

definition signal_from_stream ::
    "('s, sink_binding) slab_ops \<Rightarrow> 'fut
       \<Rightarrow> ('i option, 'fut, 'i option \<Rightarrow> 'i option \<Rightarrow> 'i option \<times> bool, 's) poll_node \<times> ('i option, 'i option, 'w) map_fn" where
  "signal_from_stream ops stream =
     stream_build ops (from_stream_scan_filter None stream (\<lambda>st v. case v of Some v \<Rightarrow> (Some v, True) | None \<Rightarrow> (st, False)))"

end
