(* ===== verification/Poll_Scan_Properties.thy ===== *)
theory Poll_Scan_Properties
  imports Poll_Scan
begin

section \<open>Properties of signals driven by a future or a stream\<close>

text \<open>
  The calls a future or stream signal receives, its waker included, are gathered in \<open>poll_call\<close>. The properties are about every sequence of them:
  a borrow returns the value of the last poll, and every item of the stream is folded into the state once and in order.
\<close>

subsection \<open>The operations of a node as calls\<close>

datatype poll_call =
    PollBorrow "sink option"
  | PollCheck bind_key
  | PollUnbind bind_key
  | PollRebind slot bind_key "sink option"
  | PollWake              \<comment> \<open>the waker of the future\<close>

fun poll_do ::
    "('s, sink_binding) slab_ops \<Rightarrow> ('w, 'm, 'g) node_env
       \<Rightarrow> (('st, 'fut, 'f, 's) poll_node \<Rightarrow> 'w \<Rightarrow> (('st, 'fut, 'f, 's) poll_node \<times> 'w) result) \<Rightarrow> ('st, 'v, 'w) map_fn
       \<Rightarrow> ('f \<Rightarrow> dirty_level) \<Rightarrow> nid \<Rightarrow> poll_call \<Rightarrow> ('st, 'fut, 'f, 's) poll_node \<times> 'w \<Rightarrow> (('st, 'fut, 'f, 's) poll_node \<times> 'w) result" where
  "poll_do ops env pull map_f forward this (PollBorrow ko) (n, w) =
     res_bind (poll_node_borrow ops env pull map_f this ko n w) (\<lambda>(_, _, n1, w1). Inr (n1, w1))"
| "poll_do ops env pull map_f forward this (PollCheck key) (n, w) = res_bind (poll_node_check ops pull key n w) (\<lambda>(_, n1, w1). Inr (n1, w1))"
| "poll_do ops env pull map_f forward this (PollUnbind key) (n, w) = Inr (poll_node_unbind ops key n, w)"
| "poll_do ops env pull map_f forward this (PollRebind slot key ko) (n, w) =
     res_bind (poll_node_rebind ops env this slot key ko n w) (\<lambda>(_, n1, w1). Inr (n1, w1))"
| "poll_do ops env pull map_f forward this PollWake (n, w) = poll_node_notify ops env forward n w"

text \<open>A node of either kind run by the calls.\<close>

definition future_do ::
    "('s, sink_binding) slab_ops \<Rightarrow> ('w, 'm, 'g) node_env \<Rightarrow> ('fut \<Rightarrow> 'w \<Rightarrow> ('i option \<times> 'fut \<times> 'w) result) \<Rightarrow> ('st, 'v, 'w) map_fn
       \<Rightarrow> nid \<Rightarrow> poll_call \<Rightarrow> ('st, 'fut, ('st, 'i) future_scan_fn, 's) poll_node \<times> 'w
       \<Rightarrow> (('st, 'fut, ('st, 'i) future_scan_fn, 's) poll_node \<times> 'w) result" where
  "future_do ops env poll map_f = poll_do ops env (future_scan_update ops poll) map_f (\<lambda>f. maybe_if LevelDirty (future_scan_filter f))"

definition stream_do ::
    "('s, sink_binding) slab_ops \<Rightarrow> ('w, 'm, 'g) node_env \<Rightarrow> ('fut \<Rightarrow> 'w \<Rightarrow> ('i option option \<times> 'fut \<times> 'w) result) \<Rightarrow> ('st, 'v, 'w) map_fn
       \<Rightarrow> nid \<Rightarrow> poll_call \<Rightarrow> ('st, 'fut, 'st \<Rightarrow> 'i option \<Rightarrow> 'st \<times> bool, 's) poll_node \<times> 'w
       \<Rightarrow> (('st, 'fut, 'st \<Rightarrow> 'i option \<Rightarrow> 'st \<times> bool, 's) poll_node \<times> 'w) result" where
  "stream_do ops env poll map_f = poll_do ops env (stream_scan_update ops poll) map_f (\<lambda>f. LevelMaybeDirty)"

subsection \<open>What an update keeps\<close>

text \<open>
  A kind of node: after \<open>update\<close> it is not awake and no flag is open. \<open>setting\<close> says that the maps of bindings obey their laws and that what the
  node calls raises no panic of an open flag. \<open>prog n\<close> is any account of what the node has done that only an update changes.
\<close>

definition poll_coherent :: "('s, sink_binding) slab_ops \<Rightarrow> bool \<Rightarrow> ('st, 'fut, 'f, 's) poll_node \<Rightarrow> bool" where
  "poll_coherent ops setting n \<longleftrightarrow> setting \<and> flags_ok ops (\<not> poll_is_wake n) (pn_sinks n)"

definition map_safe :: "('x, 'y, 'w) map_fn \<Rightarrow> bool" where
  "map_safe m \<longleftrightarrow> (\<forall>x ko w. not_stale (m x ko w))"

definition poll_setting ::
    "('s, sink_binding) slab_ops \<Rightarrow> ('w, 'm, 'g) node_env \<Rightarrow> ('fut \<Rightarrow> 'w \<Rightarrow> ('i option \<times> 'fut \<times> 'w) result) \<Rightarrow> ('st, 'v, 'w) map_fn \<Rightarrow> bool" where
  "poll_setting ops env poll map_f \<longleftrightarrow> slab_laws ops \<and> env_safe env \<and> (\<forall>f w. not_stale (poll f w)) \<and> map_safe map_f"

lemma map_fn_none_safe: "map_safe map_fn_none"
  by (simp add: map_safe_def map_fn_none_def not_stale_Inr)

lemma map_fn_raw_safe: "map_safe m \<Longrightarrow> map_safe f \<Longrightarrow> map_safe (map_fn_raw m f)"
  by (auto simp: map_safe_def map_fn_raw_def intro!: not_stale_intro)

locale poll_kind =
  fixes ops :: "('s, sink_binding) slab_ops" and env :: "('w, 'm, 'g) node_env"
    and pull :: "('st, 'fut, 'f, 's) poll_node \<Rightarrow> 'w \<Rightarrow> (('st, 'fut, 'f, 's) poll_node \<times> 'w) result"
    and map_f :: "('st, 'v, 'w) map_fn" and setting :: bool
  assumes laws: "setting \<Longrightarrow> slab_laws ops" and safe_env: "setting \<Longrightarrow> env_safe env" and safe_map: "setting \<Longrightarrow> map_safe map_f"
    and pull_flags: "poll_coherent ops setting n \<Longrightarrow> pull n w = Inr (n', w') \<Longrightarrow> \<not> poll_is_wake n' \<and> flags_ok ops True (pn_sinks n')"
    and pull_quiet: "poll_coherent ops setting n \<Longrightarrow> not_stale (pull n w)"

sublocale poll_kind \<subseteq> pull_node pull "\<lambda>key n. sinks_is_dirty ops key (pn_sinks n)"
    "\<lambda>n key. map_option sb_dirty (slab_get ops (pn_sinks n) key)" "poll_coherent ops setting"
proof
  fix n n' :: "('st, 'fut, 'f, 's) poll_node" and w w' :: 'w and key
  assume n: "poll_coherent ops setting n" and run: "pull n w = Inr (n', w')"
  show "poll_coherent ops setting n'" using n pull_flags [OF n run] by (simp add: poll_coherent_def)
  show "map_option sb_dirty (slab_get ops (pn_sinks n') key) \<noteq> Some MaybeDirty" using pull_flags [OF n run] by (auto simp: flags_ok_def)
next
  show "not_stale (pull n w)" if "poll_coherent ops setting n" for n w using that by (rule pull_quiet)
qed (use sinks_is_dirty_ok in \<open>fastforce simp: sinks_is_dirty_def not_stale_def\<close>)+

context poll_kind
begin

lemma do_borrow:
  assumes n: "poll_coherent ops setting n"
  shows "not_stale (poll_node_borrow ops env pull map_f this ko n w)"
    and "poll_node_borrow ops env pull map_f this ko n w = Inr (v, ko', n', w') \<Longrightarrow> poll_coherent ops setting n'"
proof -
  have s: setting using n by (simp add: poll_coherent_def)
  show "not_stale (poll_node_borrow ops env pull map_f this ko n w)"
    unfolding poll_node_borrow_def
    using safe_map [OF s] by (auto simp: map_safe_def intro!: not_stale_intro pull_quiet [OF n] safe_env [OF s])
  assume "poll_node_borrow ops env pull map_f this ko n w = Inr (v, ko', n', w')"
  then obtain n1 w1 S ko1 w2 us where p: "pull n w = Inr (n1, w1)" "bind_sinks ops env this 0 ko (pn_sinks n1) w1 = Inr (S, ko1, w2)"
    "n' = n1\<lparr>pn_sinks := unbind_keys ops us S\<rparr>" by (auto simp: poll_node_borrow_def res_bind_eq_Inr)
  note u = pull_flags [OF n p(1)]
  show "poll_coherent ops setting n'"
    using u s flags_ok_unbind [OF laws [OF s] bind_flags [OF laws [OF s] conjunct2 [OF u] p(2)]]
    by (simp add: poll_coherent_def p(3) poll_is_wake_def)
qed

lemma do_ok:
  assumes n: "poll_coherent ops setting n"
  shows "not_stale (poll_do ops env pull map_f forward this c (n, w))"
    and "poll_do ops env pull map_f forward this c (n, w) = Inr (n', w') \<Longrightarrow> poll_coherent ops setting n'"
proof -
  have s: setting and flags: "flags_ok ops (\<not> poll_is_wake n) (pn_sinks n)" using n by (simp_all add: poll_coherent_def)
  note laws = laws [OF s] and env = safe_env [OF s]
  have sinks: "poll_coherent ops setting (n\<lparr>pn_sinks := S\<rparr>)" if "flags_ok ops (\<not> poll_is_wake n) S" for S
    using that s by (simp add: poll_coherent_def poll_is_wake_def)
  have check: "poll_node_check ops pull key n w = check_node pull (\<lambda>key n. sinks_is_dirty ops key (pn_sinks n)) key n w" for key
    by (simp add: poll_node_check_def check_node_def)
  have "not_stale (poll_do ops env pull map_f forward this c (n, w))
      \<and> (poll_do ops env pull map_f forward this c (n, w) = Inr (n', w') \<longrightarrow> poll_coherent ops setting n')"
  proof (cases c)
    case (PollBorrow ko)
    then show ?thesis using do_borrow [OF n] by (auto simp: res_bind_eq_Inr intro!: not_stale_intro)
  next
    case (PollCheck key)
    then show ?thesis using check_safe [OF n] check_coherent [OF n] by (auto simp: check res_bind_eq_Inr intro!: not_stale_intro)
  next
    case (PollUnbind key)
    then show ?thesis using sinks [OF flags_ok_remove [OF laws flags]] by (auto simp: poll_node_unbind_def not_stale_Inr)
  next
    case (PollRebind slot key ko)
    then show ?thesis using sinks [OF rebind_flags [OF laws flags]] env by (auto simp: poll_node_rebind_def res_bind_eq_Inr intro!: not_stale_intro)
  next
    case PollWake
    show ?thesis
    proof (cases "pn_reaction n")
      case None
      then show ?thesis using PollWake n by (auto simp: poll_node_notify_def not_stale_Inr)
    next
      case (Some t)
      then show ?thesis
        using PollWake n s not_stale_notify [OF env] notify_flags(1) [OF laws]
        by (auto simp: poll_node_notify_def poll_coherent_def poll_is_wake_def res_bind_eq_Inr intro!: not_stale_intro)
    qed
  qed
  then show "not_stale (poll_do ops env pull map_f forward this c (n, w))"
    "poll_do ops env pull map_f forward this c (n, w) = Inr (n', w') \<Longrightarrow> poll_coherent ops setting n'" by blast+
qed

end

sublocale poll_kind \<subseteq> node_steps "poll_do ops env pull map_f forward this" "poll_coherent ops setting" for forward this
  by unfold_locales (auto intro: do_ok)

subsection \<open>Futures and streams are such kinds\<close>

lemma future_update_flags:
  assumes laws: "slab_laws ops" and f: "flags_ok ops (\<not> poll_is_wake n) (pn_sinks n)" and run: "future_scan_update ops poll n w = Inr (n', w')"
  shows "\<not> poll_is_wake n' \<and> flags_ok ops True (pn_sinks n')"
proof (cases "poll_is_wake n")
  case False
  then show ?thesis using f run by (simp add: future_scan_update_def)
next
  case True
  then show ?thesis using run
    by (auto simp: future_scan_update_def res_bind_eq_Inr Let_def poll_is_wake_def flags_ok_update [OF laws] split: option.splits prod.splits)
qed

lemma stream_update_flags:
  assumes laws: "slab_laws ops" and f: "flags_ok ops (\<not> poll_is_wake n) (pn_sinks n)" and run: "stream_scan_update ops poll n w = Inr (n', w')"
  shows "\<not> poll_is_wake n' \<and> flags_ok ops True (pn_sinks n')"
proof (cases "poll_is_wake n")
  case False
  then show ?thesis using f run by (simp add: stream_scan_update_def)
next
  case True
  then show ?thesis using run
    by (auto simp: stream_scan_update_def res_bind_eq_Inr Let_def poll_is_wake_def flags_ok_update [OF laws] split: option.splits prod.splits if_splits)
qed

lemma future_update_quiet: "\<forall>f w. not_stale (poll f w) \<Longrightarrow> not_stale (future_scan_update ops poll n w)"
  unfolding future_scan_update_def res_of_option_def
  by (auto simp: Let_def not_stale_Inl split: option.splits prod.splits intro!: not_stale_intro)

lemma stream_update_quiet: "\<forall>f w. not_stale (poll f w) \<Longrightarrow> not_stale (stream_scan_update ops poll n w)"
  unfolding stream_scan_update_def res_of_option_def
  by (auto simp: Let_def not_stale_Inl split: option.splits prod.splits intro!: not_stale_intro)

interpretation future_kind: poll_kind ops env "future_scan_update ops poll" map_f "poll_setting ops env poll map_f"
  for ops :: "('s, sink_binding) slab_ops" and env :: "('w, 'm, 'g) node_env" and poll :: "'fut \<Rightarrow> 'w \<Rightarrow> ('i option \<times> 'fut \<times> 'w) result"
    and map_f :: "('st, 'v, 'w) map_fn"
  by unfold_locales (auto simp: poll_setting_def poll_coherent_def intro: future_update_quiet dest: future_update_flags)

interpretation stream_kind: poll_kind ops env "stream_scan_update ops poll" map_f "poll_setting ops env poll map_f"
  for ops :: "('s, sink_binding) slab_ops" and env :: "('w, 'm, 'g) node_env" and poll :: "'fut \<Rightarrow> 'w \<Rightarrow> ('i option option \<times> 'fut \<times> 'w) result"
    and map_f :: "('st, 'v, 'w) map_fn"
  by unfold_locales (auto simp: poll_setting_def poll_coherent_def intro: stream_update_quiet dest: stream_update_flags)

subsection \<open>What has been polled\<close>

text \<open>
  A future or a stream that gives the results \<open>rs\<close> one poll after the other, and is pending for ever after them. \<open>I m n\<close> is an account of
  what the node has taken from it when at most \<open>m\<close> polls have been asked for.
\<close>

fun script_poll :: "'r option list \<Rightarrow> 'w \<Rightarrow> ('r option \<times> 'r option list \<times> 'w) result" where
  "script_poll [] w = Inr (None, [], w)"
| "script_poll (r # rs) w = Inr (r, rs, w)"

definition wakes :: "poll_call list \<Rightarrow> nat" where
  "wakes cs = length (filter ((=) PollWake) cs)"

locale poll_account =
  fixes pull :: "('st, 'fut, 'f, 's) poll_node \<Rightarrow> 'w \<Rightarrow> (('st, 'fut, 'f, 's) poll_node \<times> 'w) result"
    and I :: "nat \<Rightarrow> ('st, 'fut, 'f, 's) poll_node \<Rightarrow> bool"
  assumes pull_account: "I m n \<Longrightarrow> pull n w = Inr (n', w') \<Longrightarrow> I m n'"
    and sinks_account: "I m (n\<lparr>pn_sinks := S\<rparr>) = I m n"
    and wake_account: "I m n \<Longrightarrow> pn_reaction n = Some t \<Longrightarrow> I (Suc m) (n\<lparr>pn_reaction := Some (t\<lparr>pr_is_wake := True\<rparr>)\<rparr>)"
    and more_account: "I m n \<Longrightarrow> I (Suc m) n"
begin

lemma do_account:
  assumes "I m n" and "poll_do ops env pull map_f forward this c (n, w) = Inr (n', w')"
  shows "I (m + wakes [c]) n'"
proof (cases c)
  case PollWake
  show ?thesis
  proof (cases "pn_reaction n")
    case None
    then show ?thesis using assms PollWake by (auto simp: poll_node_notify_def wakes_def more_account)
  next
    case (Some t)
    then show ?thesis using assms PollWake wake_account [OF assms(1) Some]
      by (auto simp: poll_node_notify_def wakes_def more_account sinks_account res_bind_eq_Inr split: if_splits
          dest: sinks_account [THEN iffD2])
  qed
qed (use assms in \<open>auto simp: poll_node_borrow_def poll_node_check_def poll_node_unbind_def poll_node_rebind_def wakes_def sinks_account
    res_bind_eq_Inr dest: pull_account\<close>)

lemma run_account:
  "I m n \<Longrightarrow> res_fold (poll_do ops env pull map_f forward this) cs (n, w) = Inr (n', w') \<Longrightarrow> I (m + wakes cs) n'"
proof (induction cs arbitrary: m n w)
  case (Cons c cs)
  obtain n1 w1 where c: "poll_do ops env pull map_f forward this c (n, w) = Inr (n1, w1)"
    "res_fold (poll_do ops env pull map_f forward this) cs (n1, w1) = Inr (n', w')"
    using Cons.prems(2) by (auto simp: res_bind_eq_Inr)
  have "wakes (c # cs) = wakes [c] + wakes cs" by (simp add: wakes_def)
  then show ?case using Cons.IH [OF do_account [OF Cons.prems(1) c(1)] c(2)] by (simp add: add.assoc)
qed (simp add: wakes_def)

end

definition future_account :: "('st, 'i) future_scan_fn \<Rightarrow> 'st \<Rightarrow> 'i option list \<Rightarrow> nat \<Rightarrow> ('st, 'i option list, ('st, 'i) future_scan_fn, 's) poll_node \<Rightarrow> bool" where
  "future_account f st0 rs m n \<longleftrightarrow> (\<exists>k \<le> length rs. k + (if poll_is_wake n then 1 else 0) \<le> m
     \<and> (case pn_reaction n of
          Some t \<Rightarrow> pr_scan t = f \<and> pr_future t = drop k rs \<and> pn_state n = st0 \<and> List.map_filter id (take k rs) = []
        | None \<Rightarrow> \<exists>v. List.map_filter id (take k rs) = [v] \<and> pn_state n = fst (future_scan_call f st0 v)))"

definition stream_account ::
    "('st \<Rightarrow> 'i option \<Rightarrow> 'st \<times> bool) \<Rightarrow> 'st \<Rightarrow> 'i option option list \<Rightarrow> nat
       \<Rightarrow> ('st, 'i option option list, 'st \<Rightarrow> 'i option \<Rightarrow> 'st \<times> bool, 's) poll_node \<Rightarrow> bool" where
  "stream_account f st0 rs m n \<longleftrightarrow> (\<exists>k \<le> length rs. k + (if poll_is_wake n then 1 else 0) \<le> m
     \<and> pn_state n = fold (\<lambda>item st. fst (f st item)) (List.map_filter id (take k rs)) st0
     \<and> (case pn_reaction n of
          Some t \<Rightarrow> pr_scan t = f \<and> pr_future t = drop k rs \<and> None \<notin> set (List.map_filter id (take k rs))
        | None \<Rightarrow> \<exists>xs. List.map_filter id (take k rs) = map Some xs @ [None]))"

lemma map_filter_snoc: "List.map_filter f (xs @ [x]) = List.map_filter f xs @ (case f x of None \<Rightarrow> [] | Some y \<Rightarrow> [y])"
  by (induction xs) (auto simp: List.map_filter_simps split: option.splits)

lemma drop_ConsD: "drop k rs = r # rest \<Longrightarrow> k < length rs \<and> take (Suc k) rs = take k rs @ [r] \<and> drop (Suc k) rs = rest"
  by (metis Cons_nth_drop_Suc drop_eq_Nil2 leI list.distinct(1) list.inject take_Suc_conv_app_nth)

lemma future_update_account:
  assumes I: "future_account f st0 rs m n" and run: "future_scan_update ops script_poll n w = Inr (n', w')"
  shows "future_account f st0 rs m n'"
proof (cases "poll_is_wake n")
  case True
  then obtain t where t: "pn_reaction n = Some t" "pr_is_wake t" by (auto simp: poll_is_wake_def split: option.splits)
  then obtain k where k: "k \<le> length rs" "Suc k \<le> m" "pr_scan t = f" "pr_future t = drop k rs" "pn_state n = st0" "List.map_filter id (take k rs) = []"
    using I True by (auto simp: future_account_def)
  show ?thesis
  proof (cases "drop k rs")
    case Nil
    then have "poll_is_wake n' = False" "pn_state n' = st0" "pn_reaction n' = Some (t\<lparr>pr_future := [], pr_is_wake := False\<rparr>)"
      using run t True k by (auto simp: future_scan_update_def poll_is_wake_def)
    then show ?thesis using k Nil by (auto simp: future_account_def intro!: exI [of _ k])
  next
    case (Cons r rest)
    note d = drop_ConsD [OF Cons]
    show ?thesis
    proof (cases r)
      case None
      then have "poll_is_wake n' = False" "pn_state n' = st0" "pn_reaction n' = Some (t\<lparr>pr_future := rest, pr_is_wake := False\<rparr>)"
        using run t True k Cons by (auto simp: future_scan_update_def poll_is_wake_def)
      then show ?thesis using k d None by (auto simp: future_account_def map_filter_snoc intro!: exI [of _ "Suc k"])
    next
      case (Some v)
      then have "poll_is_wake n' = False" "pn_state n' = fst (future_scan_call f st0 v)" "pn_reaction n' = None"
        using run t True k Cons by (auto simp: future_scan_update_def poll_is_wake_def Let_def split: prod.splits)
      then show ?thesis using k d Some by (auto simp: future_account_def map_filter_snoc intro!: exI [of _ "Suc k"])
    qed
  qed
qed (use I run in \<open>simp add: future_scan_update_def\<close>)

lemma stream_update_account:
  assumes I: "stream_account f st0 rs m n" and run: "stream_scan_update ops script_poll n w = Inr (n', w')"
  shows "stream_account f st0 rs m n'"
proof (cases "poll_is_wake n")
  case True
  then obtain t where t: "pn_reaction n = Some t" "pr_is_wake t" by (auto simp: poll_is_wake_def split: option.splits)
  then obtain k where k: "k \<le> length rs" "Suc k \<le> m" "pr_scan t = f" "pr_future t = drop k rs" "None \<notin> set (List.map_filter id (take k rs))"
    "pn_state n = fold (\<lambda>item st. fst (f st item)) (List.map_filter id (take k rs)) st0"
    using I True by (auto simp: stream_account_def)
  show ?thesis
  proof (cases "drop k rs")
    case Nil
    then have "poll_is_wake n' = False" "pn_state n' = pn_state n" "pn_reaction n' = Some (t\<lparr>pr_future := [], pr_is_wake := False\<rparr>)"
      using run t True k by (auto simp: stream_scan_update_def poll_is_wake_def)
    then show ?thesis using k Nil by (auto simp: stream_account_def intro!: exI [of _ k])
  next
    case (Cons r rest)
    note d = drop_ConsD [OF Cons]
    show ?thesis
    proof (cases r)
      case None
      then have "poll_is_wake n' = False" "pn_state n' = pn_state n" "pn_reaction n' = Some (t\<lparr>pr_future := rest, pr_is_wake := False\<rparr>)"
        using run t True k Cons by (auto simp: stream_scan_update_def poll_is_wake_def)
      then show ?thesis using k d None by (auto simp: stream_account_def map_filter_snoc intro!: exI [of _ "Suc k"])
    next
      case (Some item)
      have n': "poll_is_wake n' = False" "pn_state n' = fst (f (pn_state n) item)"
        "pn_reaction n' = (if item = None then None else Some (t\<lparr>pr_future := rest, pr_is_wake := False\<rparr>))"
        using run t True k Cons Some by (cases item; auto simp: stream_scan_update_def poll_is_wake_def Let_def split: prod.splits)+
      obtain xs where "List.map_filter id (take k rs) = map Some xs"
        using k(5) by (metis ex_map_conv not_None_eq)
      then show ?thesis using k d Some n' by (auto simp: stream_account_def map_filter_snoc intro!: exI [of _ "Suc k"])
    qed
  qed
qed (use I run in \<open>simp add: stream_scan_update_def\<close>)

interpretation future_acc: poll_account "future_scan_update ops script_poll" "future_account f st0 rs"
  for ops :: "('s, sink_binding) slab_ops" and f :: "('st, 'i) future_scan_fn" and st0 rs
proof
  fix m n t assume "future_account f st0 rs m n" "pn_reaction n = Some t"
  then show "future_account f st0 rs (Suc m) (n\<lparr>pn_reaction := Some (t\<lparr>pr_is_wake := True\<rparr>)\<rparr>)"
    by (auto simp: future_account_def poll_is_wake_def split: if_splits)
next
  fix m n assume "future_account f st0 rs m n"
  then show "future_account f st0 rs (Suc m) n" by (auto simp: future_account_def)
qed (rule future_update_account, assumption+, simp add: future_account_def poll_is_wake_def cong: option.case_cong)

interpretation stream_acc: poll_account "stream_scan_update ops script_poll" "stream_account f st0 rs"
  for ops :: "('s, sink_binding) slab_ops" and f :: "'st \<Rightarrow> 'i option \<Rightarrow> 'st \<times> bool" and st0 rs
proof
  fix m n t assume "stream_account f st0 rs m n" "pn_reaction n = Some t"
  then show "stream_account f st0 rs (Suc m) (n\<lparr>pn_reaction := Some (t\<lparr>pr_is_wake := True\<rparr>)\<rparr>)"
    by (auto simp: stream_account_def poll_is_wake_def split: if_splits)
next
  fix m n assume "stream_account f st0 rs m n"
  then show "stream_account f st0 rs (Suc m) n" by (auto simp: stream_account_def)
qed (rule stream_update_account, assumption+, simp add: stream_account_def poll_is_wake_def cong: option.case_cong)

subsection \<open>The properties\<close>

definition ex_poll_env :: "(nid list, unit, unit) node_env" where
  "ex_poll_env = \<lparr>ge_check = (\<lambda>srcs w. Inr (True, [], w)), ge_run = (\<lambda>b m w. Inr ([], [], [], w)),
     ge_notify = (\<lambda>b w. Inr (sb_sink b # w)), ge_unbind = (\<lambda>b w. Inr w), ge_schedule = (\<lambda>n slot w. n # w)\<rparr>"

definition ex_reader :: "sink option" where
  "ex_reader = Some \<lparr>sk_node = 7, sk_slot = 0, sk_sources = [], sk_len = 0\<rparr>"

lemma script_not_stale: "not_stale (script_poll rs w)"
  by (cases rs) (simp_all add: not_stale_Inr)

lemma ex_poll_setting: "poll_setting vec_slab ex_poll_env script_poll map_fn_none"
  by (simp add: poll_setting_def vec_slab_laws env_safe_def ex_poll_env_def not_stale_Inr map_fn_none_safe script_not_stale)

lemma new_coherent:
  assumes "poll_setting ops env poll map_f"
  shows "poll_coherent ops (poll_setting ops env poll map_f) (future_scan_new ops st fut f)"
    and "poll_coherent ops (poll_setting ops env poll map_f) (stream_scan_new ops st fut f')"
  using assms by (simp_all add: poll_coherent_def poll_setting_def future_scan_new_def stream_scan_new_def flags_ok_new)

text \<open>
  C27. Signals driven by a future or by a stream never ask for an open flag. Whatever sequence of reads, checks, bindings coming and going and wake-ups
  such a node gets, in whatever order, and whatever the future answers, no call panics with \<open>is_dirty called before update()\<close>, unless the rest of the graph does;
  a wake-up after which the future is still pending is decided too.
\<close>

theorem poll_scan_never_stale:
  assumes "poll_setting ops env poll map_f" and "poll_setting ops env poll' map_f'"
  shows "res_fold (future_do ops env poll map_f this) cs (future_scan_new ops st fut f, w) \<noteq> Inl IsDirtyBeforeUpdate
    \<and> res_fold (stream_do ops env poll' map_f' this) cs (stream_scan_new ops st' stream f', w) \<noteq> Inl IsDirtyBeforeUpdate"
  using future_kind.run_safe [OF new_coherent(1) [OF assms(1)], of _ this cs st fut f w]
    stream_kind.run_safe [OF new_coherent(2) [OF assms(2)], of _ this cs st' stream f' w]
  by (simp add: not_stale_def future_do_def stream_do_def)

theorem poll_scan_never_stale_witness:
  "res_fold (future_do vec_slab ex_poll_env script_poll map_fn_none 3) [PollBorrow ex_reader, PollWake, PollCheck 0]
     (future_scan_new vec_slab (0::nat) [None, None, Some 5] (FutureScanVoid (\<lambda>_ v. v)), []) \<noteq> Inl IsDirtyBeforeUpdate"
  by (rule conjunct1 [OF poll_scan_never_stale [OF ex_poll_setting ex_poll_setting]])

text \<open>
  C28. A stream signal consumes its stream item by item. After any calls, the state is the fold of the scan over exactly the items that have been
  taken, in order and each once; the stream that is left gives the remaining ones; nothing is polled after the end of the stream; and
  there have been at most as many polls as wake-ups, plus the first one.
\<close>

theorem stream_items_once:
  assumes "res_fold (stream_do ops env script_poll map_f this) cs (stream_scan_new ops st0 rs f, w) = Inr (n, w')"
  shows "\<exists>k \<le> length rs. k \<le> Suc (wakes cs) \<and> pn_state n = fold (\<lambda>item st. fst (f st item)) (List.map_filter id (take k rs)) st0
     \<and> (case pn_reaction n of
          Some t \<Rightarrow> pr_future t = drop k rs \<and> None \<notin> set (List.map_filter id (take k rs))
        | None \<Rightarrow> \<exists>xs. List.map_filter id (take k rs) = map Some xs @ [None])"
proof -
  have "stream_account f st0 rs 1 (stream_scan_new ops st0 rs f)"
    by (simp add: stream_account_def stream_scan_new_def poll_is_wake_def exI [of _ 0] List.map_filter_simps)
  from stream_acc.run_account [OF this] assms have "stream_account f st0 rs (1 + wakes cs) n" by (simp add: stream_do_def)
  then show ?thesis by (auto simp: stream_account_def split: option.splits)
qed

theorem stream_items_once_witness:
  "\<exists>n w'. res_fold (stream_do vec_slab ex_poll_env script_poll map_fn_none 3) [PollBorrow ex_reader, PollWake, PollWake, PollCheck 0, PollCheck 0]
     (stream_scan_new vec_slab (0::nat) [Some (Some 4), Some (Some 5), None] (\<lambda>st i. (st + the i, True)), []) = Inr (n, w')
     \<and> pn_state n = 9 \<and> (\<exists>k \<le> 3. k \<le> 3 \<and> 9 = fold (\<lambda>item st. st + the item) (List.map_filter id (take k [Some (Some 4), Some (Some (5::nat)), None])) 0)"
proof -
  let ?r = "res_fold (stream_do vec_slab ex_poll_env script_poll map_fn_none 3) [PollBorrow ex_reader, PollWake, PollWake, PollCheck 0, PollCheck 0]
     (stream_scan_new vec_slab (0::nat) [Some (Some 4), Some (Some 5), None] (\<lambda>st i. (st + the i, True)), [])"
  have e: "case ?r of Inl _ \<Rightarrow> False | Inr (n, w') \<Rightarrow> pn_state n = 9" by code_simp
  then obtain n w' where r: "?r = Inr (n, w')" "pn_state n = 9" by (auto split: sum.splits)
  from stream_items_once [OF r(1)] show ?thesis using r by (auto simp: wakes_def)
qed

text \<open>
  A future signal changes once. It keeps its initial state while the future is pending; when the future is ready, its value is scanned into the state once, the
  future is dropped and never polled again, and there have been at most as many polls as wake-ups, plus the first one.
\<close>

lemma future_ready_once:
  assumes "res_fold (future_do ops env script_poll map_f this) cs (future_scan_new ops st0 rs f, w) = Inr (n, w')"
  shows "\<exists>k \<le> length rs. k \<le> Suc (wakes cs)
     \<and> (case pn_reaction n of
          Some t \<Rightarrow> pr_future t = drop k rs \<and> pn_state n = st0 \<and> List.map_filter id (take k rs) = []
        | None \<Rightarrow> \<exists>v. List.map_filter id (take k rs) = [v] \<and> pn_state n = fst (future_scan_call f st0 v))"
proof -
  have "future_account f st0 rs 1 (future_scan_new ops st0 rs f)"
    by (simp add: future_account_def future_scan_new_def poll_is_wake_def exI [of _ 0] List.map_filter_simps)
  from future_acc.run_account [OF this] assms have "future_account f st0 rs (1 + wakes cs) n" by (simp add: future_do_def)
  then show ?thesis by (auto simp: future_account_def split: option.splits)
qed

lemma future_ready_once_example:
  "\<exists>n w'. res_fold (future_do vec_slab ex_poll_env script_poll map_fn_none 3) [PollBorrow ex_reader, PollWake, PollWake, PollCheck 0, PollCheck 0]
     (future_scan_new vec_slab (0::nat) [None, Some 5, Some 6] (FutureScanVoid (\<lambda>_ v. v)), []) = Inr (n, w')
     \<and> pn_state n = 5 \<and> pn_reaction n = None \<and> (\<exists>k \<le> 3. List.map_filter id (take k [None, Some (5::nat), Some 6]) = [5])"
proof -
  let ?r = "res_fold (future_do vec_slab ex_poll_env script_poll map_fn_none 3) [PollBorrow ex_reader, PollWake, PollWake, PollCheck 0, PollCheck 0]
     (future_scan_new vec_slab (0::nat) [None, Some 5, Some 6] (FutureScanVoid (\<lambda>_ v. v)), [])"
  have e: "case ?r of Inl _ \<Rightarrow> False | Inr (n, w') \<Rightarrow> pn_state n = 5 \<and> pn_reaction n = None" by code_simp
  then obtain n w' where r: "?r = Inr (n, w')" "pn_state n = 5" "pn_reaction n = None" by (auto split: sum.splits)
  from future_ready_once [OF r(1)] r(2,3) have "\<exists>k \<le> 3. List.map_filter id (take k [None, Some (5::nat), Some 6]) = [5]"
    by (auto simp: numeral_3_eq_3)
  then show ?thesis using r by blast
qed

text \<open>What the ready-made signals hold: the value of the future, and the last item of the stream so far.\<close>

lemma signal_from_future_value:
  assumes "res_fold (future_do ops env script_poll map_f this) cs (fst (signal_from_future ops rs), w) = Inr (n, w')"
  shows "case pn_reaction n of Some t \<Rightarrow> pn_state n = None | None \<Rightarrow> \<exists>k v. List.map_filter id (take k rs) = [v] \<and> pn_state n = Some v"
proof -
  obtain k where k: "case pn_reaction n of
      Some t \<Rightarrow> pr_future t = drop k rs \<and> pn_state n = None \<and> List.map_filter id (take k rs) = []
    | None \<Rightarrow> \<exists>v. List.map_filter id (take k rs) = [v] \<and> pn_state n = Some v"
    using future_ready_once [of ops env map_f this cs None rs "FutureScanVoid (\<lambda>st v. Some v)" w n w'] assms
    by (auto simp: signal_from_future_def future_build_def from_future_scan_def future_scan_builder_def split: option.splits)
  then show ?thesis by (auto split: option.splits)
qed

end
