(* ===== verification/Async_Node.thy ===== *)
theory Async_Node
  imports Node_Protocol
begin

section \<open>Asynchronous nodes (core/async\_signal\_context.rs, signal/scan\_async.rs, effect\_async\_fn.rs)\<close>

text \<open>
  An asynchronous node runs a future that reads signals while it is polled. Its \<open>AsyncSourceBinder\<close> is notified in three slots: the waker of the future
  (\<open>SLOT_WAKE\<close>), the sources the future has read (\<open>SLOT_DEPS\<close>), and the sources of a \<open>poll_fn\<close> that is still pending (\<open>SLOT_POLL\<close>). A change of a source starts the function again; a wake-up
  polls the future once more, keeping what it has read.

  The state shared with the future, behind the \<open>AsyncSignalContext\<close>, is \<open>asc_state\<close>. The context itself travels through a \<open>SignalContextChannel\<close> (theory
  Context_Channel), so a piece of asynchronous code is a function of the write head that records its reads, of \<open>asc_state\<close> and of the rest of the
  program. It may come back to the node only by unbinding dependants.
\<close>

definition slot_wake :: slot where "slot_wake = 0"
definition slot_deps :: slot where "slot_deps = 1"
definition slot_poll :: slot where "slot_poll = 2"

record 'k asc_state =
  as_poll_waker :: "'k option"
  as_poll_bindings :: source_bindings

type_synonym ('x, 'k, 'w) async_code = "sink \<Rightarrow> 'k asc_state \<Rightarrow> 'w \<Rightarrow> ('x \<times> sink \<times> 'k asc_state \<times> unbinds \<times> 'w) result"

record ('w, 'fut, 'v, 'k) async_env =
  ae_node :: "('w, unit, unit) node_env"
  ae_waker :: "nid \<Rightarrow> slot \<Rightarrow> 'w \<Rightarrow> 'k \<times> 'w"                         \<comment> \<open>\<open>waker_from_sink\<close>\<close>
  ae_wake :: "'k \<Rightarrow> 'w \<Rightarrow> 'w"
  ae_rebind :: "source_binding \<Rightarrow> sink \<Rightarrow> 'w \<Rightarrow> (sink \<times> 'w) result"
  ae_get_fut :: "('fut, 'k, 'w) async_code"                       \<comment> \<open>the function that makes the future\<close>
  ae_poll :: "'fut \<Rightarrow> 'k \<Rightarrow> ('v option \<times> 'fut, 'k, 'w) async_code"   \<comment> \<open>\<open>Future::poll\<close>\<close>
  ae_discard :: "nid \<Rightarrow> 'w \<Rightarrow> 'w"                                  \<comment> \<open>\<open>schedule_discard\<close>\<close>

subsection \<open>Recording reads\<close>

text \<open>\<open>SourceBindings::update\<close> around a closure \<open>f\<close>: what the write head has not reached is unbound.\<close>

definition update_with ::
    "('w, 'm, 'g) node_env \<Rightarrow> nid \<Rightarrow> slot \<Rightarrow> bool \<Rightarrow> (sink \<Rightarrow> 'w \<Rightarrow> ('x \<times> sink \<times> unbinds \<times> 'w) result) \<Rightarrow> source_bindings \<Rightarrow> 'w
       \<Rightarrow> ('x \<times> source_bindings \<times> unbinds \<times> 'w) result" where
  "update_with env this slot reset f srcs w =
     (let k = \<lparr>sk_node = this, sk_slot = slot, sk_sources = srcs, sk_len = (if reset then 0 else length srcs)\<rparr> in
      res_bind (f k w) (\<lambda>(x, k1, us, w1).
      res_bind (res_fold (ge_unbind env) (drop (sk_len k1) (sk_sources k1)) w1) (\<lambda>w2.
        Inr (x, take (sk_len k1) (sk_sources k1), us, w2))))"

definition clear_sources :: "('w, 'm, 'g) node_env \<Rightarrow> source_bindings \<Rightarrow> 'w \<Rightarrow> (source_bindings \<times> 'w) result" where
  "clear_sources env srcs w = res_bind (res_fold (ge_unbind env) srcs w) (\<lambda>w1. Inr ([], w1))"

text \<open>\<open>SignalContext::extend\<close>: the bindings move under the write head.\<close>

definition extend_sink :: "('w, 'fut, 'v, 'k) async_env \<Rightarrow> source_bindings \<Rightarrow> sink \<times> 'w \<Rightarrow> (sink \<times> 'w) result" where
  "extend_sink env srcs = res_fold (\<lambda>b (k, w). ae_rebind env b k w) srcs"

text \<open>One poll of \<open>AsyncSignalContext::poll_fn(f)\<close>, with the waker \<open>cx\<close>.\<close>

definition asc_poll_fn ::
    "('w, 'fut, 'v, 'k) async_env \<Rightarrow> nid \<Rightarrow> (sink \<Rightarrow> 'w \<Rightarrow> ('x option \<times> sink \<times> unbinds \<times> 'w) result) \<Rightarrow> 'k \<Rightarrow> ('x option, 'k, 'w) async_code" where
  "asc_poll_fn env this f cx k s w =
     res_bind (update_with (ae_node env) this slot_poll True f (as_poll_bindings s) w) (\<lambda>(ret, bs, us, w1).
       case ret of
         Some _ \<Rightarrow> res_bind (extend_sink env bs (k, w1)) (\<lambda>(k1, w2). Inr (ret, k1, s\<lparr>as_poll_bindings := [], as_poll_waker := None\<rparr>, us, w2))
       | None \<Rightarrow> Inr (None, k, s\<lparr>as_poll_bindings := bs, as_poll_waker := Some cx\<rparr>, us, w1))"

subsection \<open>The binder\<close>

record 'k async_binder =
  ab_sink :: nid
  ab_ctx :: "'k asc_state"
  ab_sources :: source_bindings
  ab_dirty :: dirty
  ab_is_wake :: bool
  ab_waker :: 'k

definition asb_new :: "('w, 'fut, 'v, 'k) async_env \<Rightarrow> nid \<Rightarrow> 'w \<Rightarrow> 'k async_binder \<times> 'w" where
  "asb_new env this w =
     (let (waker, w1) = ae_waker env this slot_wake w in
      (\<lparr>ab_sink = this, ab_ctx = \<lparr>as_poll_waker = None, as_poll_bindings = []\<rparr>, ab_sources = [], ab_dirty = Dirty,
        ab_is_wake = False, ab_waker = waker\<rparr>, w1))"

definition asb_is_clean :: "'k async_binder \<Rightarrow> bool" where
  "asb_is_clean b \<longleftrightarrow> is_clean (ab_dirty b) \<and> \<not> ab_is_wake b"

definition asb_check :: "('w, 'fut, 'v, 'k) async_env \<Rightarrow> 'k async_binder \<Rightarrow> 'w \<Rightarrow> (bool \<times> 'k async_binder \<times> unbinds \<times> 'w) result" where
  "asb_check env b w = res_bind (check_with (ae_node env) (ab_sources b) (ab_dirty b) w) (\<lambda>(r, d, us, w1). Inr (r, b\<lparr>ab_dirty := d\<rparr>, us, w1))"

text \<open>\<open>self.sources.update(..)\<close> with the context in the channel while \<open>f\<close> runs.\<close>

definition asb_update_sources ::
    "('w, 'fut, 'v, 'k) async_env \<Rightarrow> bool \<Rightarrow> ('x, 'k, 'w) async_code \<Rightarrow> 'k async_binder \<Rightarrow> 'w \<Rightarrow> ('x \<times> 'k async_binder \<times> unbinds \<times> 'w) result" where
  "asb_update_sources env reset f b w =
     res_bind (update_with (ae_node env) (ab_sink b) slot_deps reset
         (\<lambda>k w. res_bind (f k (ab_ctx b) w) (\<lambda>(x, k1, s, us, w1). Inr ((x, s), k1, us, w1))) (ab_sources b) w)
       (\<lambda>((x, s), srcs, us, w1). Inr (x, b\<lparr>ab_ctx := s, ab_sources := srcs\<rparr>, us, w1))"

definition asb_init :: "('w, 'fut, 'v, 'k) async_env \<Rightarrow> 'k async_binder \<Rightarrow> 'w \<Rightarrow> ('fut \<times> 'k async_binder \<times> unbinds \<times> 'w) result" where
  "asb_init env b w = asb_update_sources env True (ae_get_fut env) (b\<lparr>ab_dirty := Clean, ab_is_wake := True\<rparr>) w"

definition asb_poll ::
    "('w, 'fut, 'v, 'k) async_env \<Rightarrow> 'fut \<Rightarrow> 'k async_binder \<Rightarrow> 'w \<Rightarrow> (('v option \<times> 'fut) \<times> 'k async_binder \<times> unbinds \<times> 'w) result" where
  "asb_poll env fut b w = asb_update_sources env False (ae_poll env fut (ab_waker b)) (b\<lparr>ab_is_wake := False\<rparr>) w"

definition asb_clear :: "('w, 'fut, 'v, 'k) async_env \<Rightarrow> 'k async_binder \<Rightarrow> 'w \<Rightarrow> ('k async_binder \<times> 'w) result" where
  "asb_clear env b w = res_bind (clear_sources (ae_node env) (ab_sources b) w) (\<lambda>(srcs, w1). Inr (b\<lparr>ab_sources := srcs, ab_dirty := Dirty\<rparr>, w1))"

definition asb_on_notify ::
    "('w, 'fut, 'v, 'k) async_env \<Rightarrow> slot \<Rightarrow> dirty_level \<Rightarrow> 'k async_binder \<Rightarrow> 'w \<Rightarrow> bool \<times> 'k async_binder \<times> 'w" where
  "asb_on_notify env slot level b w =
     (if slot = slot_wake then (\<not> ab_is_wake b, b\<lparr>ab_is_wake := True\<rparr>, w)
      else if slot = slot_deps then (needs_notify (ab_dirty b), b\<lparr>ab_dirty := apply_notify level (ab_dirty b)\<rparr>, w)
      else if slot = slot_poll then
        (case as_poll_waker (ab_ctx b) of
           None \<Rightarrow> (False, b, w)
         | Some waker \<Rightarrow> (False, b\<lparr>ab_ctx := (ab_ctx b)\<lparr>as_poll_waker := None\<rparr>\<rparr>, ae_wake env waker w))
      else (False, b, w))"

subsection \<open>Asynchronous signals\<close>

record ('st, 'fut, 'k, 's) scan_async =
  sa_fut :: "'fut option"
  sa_asb :: "'k async_binder"
  sa_state :: 'st
  sa_sinks :: 's
  sa_discard_scheduled :: bool

definition scan_async_new ::
    "('s, sink_binding) slab_ops \<Rightarrow> ('w, 'fut, 'v, 'k) async_env \<Rightarrow> nid \<Rightarrow> 'st \<Rightarrow> 'w \<Rightarrow> ('st, 'fut, 'k, 's) scan_async \<times> 'w" where
  "scan_async_new ops env this st w =
     (let (asb, w1) = asb_new env this w in
      (\<lparr>sa_fut = None, sa_asb = asb, sa_state = st, sa_sinks = slab_new ops, sa_discard_scheduled = False\<rparr>, w1))"

definition async_try_discard ::
    "('s, sink_binding) slab_ops \<Rightarrow> ('w, 'fut, 'v, 'k) async_env \<Rightarrow> ('st, 'fut, 'k, 's) scan_async \<Rightarrow> 'w \<Rightarrow> ('st, 'fut, 'k, 's) scan_async \<times> 'w" where
  "async_try_discard ops env n w =
     (if sinks_is_empty ops (sa_sinks n)
      then (n\<lparr>sa_discard_scheduled := True\<rparr>, if sa_discard_scheduled n then w else ae_discard env (ab_sink (sa_asb n)) w)
      else (n, w))"

definition scan_async_discard ::
    "('s, sink_binding) slab_ops \<Rightarrow> ('w, 'fut, 'v, 'k) async_env \<Rightarrow> ('st, 'fut, 'k, 's) scan_async \<Rightarrow> 'w
       \<Rightarrow> (('st, 'fut, 'k, 's) scan_async \<times> 'w) result" where
  "scan_async_discard ops env n w =
     (let n1 = n\<lparr>sa_discard_scheduled := False\<rparr> in
      if sinks_is_empty ops (sa_sinks n1)
      then res_bind (asb_clear env (sa_asb n1) w) (\<lambda>(asb, w1). Inr (n1\<lparr>sa_fut := None, sa_asb := asb\<rparr>, w1))
      else Inr (n1, w))"

definition scan_async_unbind ::
    "('s, sink_binding) slab_ops \<Rightarrow> ('w, 'fut, 'v, 'k) async_env \<Rightarrow> bind_key \<Rightarrow> ('st, 'fut, 'k, 's) scan_async \<Rightarrow> 'w \<Rightarrow> ('st, 'fut, 'k, 's) scan_async \<times> 'w" where
  "scan_async_unbind ops env key n w = async_try_discard ops env (n\<lparr>sa_sinks := sinks_unbind ops key (sa_sinks n)\<rparr>) w"

text \<open>The calls \<open>unbind\<close> that came in while the node was running something else.\<close>

definition async_unbinds ::
    "('s, sink_binding) slab_ops \<Rightarrow> ('w, 'fut, 'v, 'k) async_env \<Rightarrow> unbinds \<Rightarrow> ('st, 'fut, 'k, 's) scan_async \<Rightarrow> 'w \<Rightarrow> ('st, 'fut, 'k, 's) scan_async \<times> 'w" where
  "async_unbinds ops env us n w = fold (\<lambda>(_, key) (n, w). scan_async_unbind ops env key n w) us (n, w)"

definition scan_async_update ::
    "('s, sink_binding) slab_ops \<Rightarrow> ('w, 'fut, 'v, 'k) async_env \<Rightarrow> ('st \<Rightarrow> 'v option \<Rightarrow> 'st \<times> bool)
       \<Rightarrow> ('st, 'fut, 'k, 's) scan_async \<Rightarrow> 'w \<Rightarrow> (('st, 'fut, 'k, 's) scan_async \<times> 'w) result" where
  "scan_async_update ops env scan n w =
     (if asb_is_clean (sa_asb n) then Inr (n, w)
      else let (n0, w0) = async_try_discard ops env n w in
        res_bind (asb_check env (sa_asb n0) w0) (\<lambda>(r, b1, us1, w1).
        let (n1, w1) = async_unbinds ops env us1 (n0\<lparr>sa_asb := b1\<rparr>) w1 in
        res_bind (if r then res_bind (asb_init env (sa_asb n1) w1) (\<lambda>(fut, b2, us2, w2).
                      Inr (async_unbinds ops env us2 (n1\<lparr>sa_fut := Some fut, sa_asb := b2\<rparr>) w2))
                  else Inr (n1, w1)) (\<lambda>(n2, w2).
        case sa_fut n2 of
          None \<Rightarrow> Inr (n2, w2)
        | Some fut \<Rightarrow> res_bind (asb_poll env fut (sa_asb n2) w2) (\<lambda>((value, fut1), b3, us3, w3).
            let (n3, w3) = async_unbinds ops env us3 (n2\<lparr>sa_fut := (if value = None then Some fut1 else None), sa_asb := b3\<rparr>) w3 in
            if r \<or> value \<noteq> None
            then let (st, changed) = scan (sa_state n3) value in
              Inr (n3\<lparr>sa_state := st, sa_sinks := sinks_update ops changed (sa_sinks n3)\<rparr>, w3)
            else Inr (n3, w3)))))"

definition scan_async_borrow ::
    "('s, sink_binding) slab_ops \<Rightarrow> ('w, 'fut, 'v, 'k) async_env \<Rightarrow> ('st \<Rightarrow> 'v option \<Rightarrow> 'st \<times> bool) \<Rightarrow> ('st \<Rightarrow> 'y) \<Rightarrow> sink option
       \<Rightarrow> ('st, 'fut, 'k, 's) scan_async \<Rightarrow> 'w \<Rightarrow> ('y \<times> sink option \<times> ('st, 'fut, 'k, 's) scan_async \<times> 'w) result" where
  "scan_async_borrow ops env scan map_f ko n w =
     res_bind (bind_sinks ops (ae_node env) (ab_sink (sa_asb n)) 0 ko (sa_sinks n) w) (\<lambda>(S, ko1, w1).
     res_bind (scan_async_update ops env scan (n\<lparr>sa_sinks := S\<rparr>) w1) (\<lambda>(n1, w2). Inr (map_f (sa_state n1), ko1, n1, w2)))"

definition scan_async_check ::
    "('s, sink_binding) slab_ops \<Rightarrow> ('w, 'fut, 'v, 'k) async_env \<Rightarrow> ('st \<Rightarrow> 'v option \<Rightarrow> 'st \<times> bool) \<Rightarrow> bind_key
       \<Rightarrow> ('st, 'fut, 'k, 's) scan_async \<Rightarrow> 'w \<Rightarrow> (bool \<times> ('st, 'fut, 'k, 's) scan_async \<times> 'w) result" where
  "scan_async_check ops env scan key n w =
     res_bind (scan_async_update ops env scan n w) (\<lambda>(n1, w1). res_bind (sinks_is_dirty ops key (sa_sinks n1)) (\<lambda>d. Inr (d, n1, w1)))"

definition scan_async_rebind ::
    "('s, sink_binding) slab_ops \<Rightarrow> ('w, 'fut, 'v, 'k) async_env \<Rightarrow> slot \<Rightarrow> bind_key \<Rightarrow> sink option
       \<Rightarrow> ('st, 'fut, 'k, 's) scan_async \<Rightarrow> 'w \<Rightarrow> (sink option \<times> ('st, 'fut, 'k, 's) scan_async \<times> 'w) result" where
  "scan_async_rebind ops env slot key ko n w =
     res_bind (rebind_sinks ops (ae_node env) (ab_sink (sa_asb n)) slot key ko (sa_sinks n) w) (\<lambda>(S, ko1, w1).
       let (n1, w2) = async_try_discard ops env (n\<lparr>sa_sinks := S\<rparr>) w1 in Inr (ko1, n1, w2))"

definition scan_async_notify ::
    "('s, sink_binding) slab_ops \<Rightarrow> ('w, 'fut, 'v, 'k) async_env \<Rightarrow> slot \<Rightarrow> dirty_level \<Rightarrow> ('st, 'fut, 'k, 's) scan_async \<Rightarrow> 'w
       \<Rightarrow> (('st, 'fut, 'k, 's) scan_async \<times> 'w) result" where
  "scan_async_notify ops env slot level n w =
     (let (need, b1, w1) = asb_on_notify env slot level (sa_asb n) w; n1 = n\<lparr>sa_asb := b1\<rparr> in
      if need then res_bind (sinks_notify ops (ge_notify (ae_node env)) LevelMaybeDirty (sa_sinks n1) w1) (\<lambda>(S, w2). Inr (n1\<lparr>sa_sinks := S\<rparr>, w2))
      else Inr (n1, w1))"

text \<open>\<open>Signal::from_async\<close>: the state is the \<open>Poll\<close> of the value.\<close>

definition from_async_scan :: "'v option \<Rightarrow> 'v option \<Rightarrow> 'v option \<times> bool" where
  "from_async_scan st poll = (if st = None \<and> poll = None then (st, False) else (poll, True))"

subsection \<open>Asynchronous effects\<close>

record ('fut, 'k) effect_async =
  ea_fut :: "'fut option"
  ea_asb :: "'k async_binder"

definition effect_async_new :: "('w, 'fut, unit, 'k) async_env \<Rightarrow> nid \<Rightarrow> 'w \<Rightarrow> ('fut, 'k) effect_async \<times> 'w" where
  "effect_async_new env this w = (let (asb, w1) = asb_new env this w in (\<lparr>ea_fut = None, ea_asb = asb\<rparr>, w1))"

text \<open>The reaction \<open>call\<close>, for the phase of the effect; \<open>effect_async_in\<close> schedules it once at the start.\<close>

definition effect_async_schedule :: "('w, 'fut, unit, 'k) async_env \<Rightarrow> ('fut, 'k) effect_async \<Rightarrow> 'w \<Rightarrow> 'w" where
  "effect_async_schedule env e w = ge_schedule (ae_node env) (ab_sink (ea_asb e)) slot_wake w"

definition effect_async_in :: "('w, 'fut, unit, 'k) async_env \<Rightarrow> nid \<Rightarrow> 'w \<Rightarrow> ('fut, 'k) effect_async \<times> 'w" where
  "effect_async_in env this w = (let (e, w1) = effect_async_new env this w in (e, effect_async_schedule env e w1))"

definition effect_async_call :: "('w, 'fut, unit, 'k) async_env \<Rightarrow> ('fut, 'k) effect_async \<Rightarrow> 'w \<Rightarrow> (('fut, 'k) effect_async \<times> 'w) result" where
  "effect_async_call env e w =
     (if asb_is_clean (ea_asb e) then Inr (e, w)
      else res_bind (asb_check env (ea_asb e) w) (\<lambda>(r, b1, _, w1).
        res_bind (if r then res_bind (asb_init env b1 w1) (\<lambda>(fut, b2, _, w2). Inr (e\<lparr>ea_fut := Some fut, ea_asb := b2\<rparr>, w2))
                  else Inr (e\<lparr>ea_asb := b1\<rparr>, w1)) (\<lambda>(e1, w2).
        case ea_fut e1 of
          None \<Rightarrow> Inr (e1, w2)
        | Some fut \<Rightarrow> res_bind (asb_poll env fut (ea_asb e1) w2) (\<lambda>((value, fut1), b3, _, w3).
            Inr (e1\<lparr>ea_fut := (if value = None then Some fut1 else None), ea_asb := b3\<rparr>, w3)))))"

definition effect_async_notify ::
    "('w, 'fut, unit, 'k) async_env \<Rightarrow> slot \<Rightarrow> dirty_level \<Rightarrow> ('fut, 'k) effect_async \<Rightarrow> 'w \<Rightarrow> ('fut, 'k) effect_async \<times> 'w" where
  "effect_async_notify env slot level e w =
     (let (need, b, w1) = asb_on_notify env slot level (ea_asb e) w; e1 = e\<lparr>ea_asb := b\<rparr> in
      (e1, if need then effect_async_schedule env e1 w1 else w1))"

end
