(* ===== verification/Async_Properties.thy ===== *)
theory Async_Properties
  imports Async_Node
begin

section \<open>Properties of asynchronous nodes\<close>

text \<open>
  What an update of an asynchronous signal decides, the panic after a wake-up that leaves the future pending, and that an asynchronous effect loses no
  wake-up: what it has to do is read from the events, not from its flags. Each property has an instance on a small setting.
\<close>

subsection \<open>What the steps of the binder leave alone\<close>

lemma asb_update_sources_fields:
  assumes "asb_update_sources env reset f b w = Inr (x, b', us, w')"
  shows "ab_dirty b' = ab_dirty b" and "ab_is_wake b' = ab_is_wake b" and "ab_sink b' = ab_sink b" and "ab_waker b' = ab_waker b"
  using assms by (auto simp: asb_update_sources_def res_bind_eq_Inr)

lemmas asb_fields = asb_update_sources_fields [where reset = True, folded asb_init_def] asb_update_sources_fields [where reset = False]

lemma asb_poll_fields:
  assumes "asb_poll env fut b w = Inr (x, b', us, w')"
  shows "ab_dirty b' = ab_dirty b" and "\<not> ab_is_wake b'"
  using asb_update_sources_fields [OF assms [unfolded asb_poll_def]] by simp_all

lemma asb_init_fields:
  assumes "asb_init env b w = Inr (x, b', us, w')"
  shows "ab_dirty b' = Clean"
  using asb_update_sources_fields [OF assms [unfolded asb_init_def]] by simp

lemma async_try_discard_fields:
  assumes "async_try_discard ops env n w = (n', w')"
  shows "sa_fut n' = sa_fut n" "sa_asb n' = sa_asb n" "sa_state n' = sa_state n" "sa_sinks n' = sa_sinks n"
  using assms by (auto simp: async_try_discard_def split: if_splits)

lemma async_unbinds_fields:
  assumes "async_unbinds ops env us n w = (n', w')"
  shows "sa_fut n' = sa_fut n \<and> sa_asb n' = sa_asb n \<and> sa_state n' = sa_state n \<and> sa_sinks n' = unbind_keys ops us (sa_sinks n)"
  using assms unfolding async_unbinds_def
proof (induction us arbitrary: n w)
  case (Cons u us)
  obtain n1 w1 where u: "scan_async_unbind ops env (snd u) n w = (n1, w1)" by fastforce
  have "fold (\<lambda>(_, key) (n, w). scan_async_unbind ops env key n w) us (n1, w1) = (n', w')"
    using Cons.prems u by (simp add: case_prod_unfold)
  from Cons.IH [OF this] async_try_discard_fields [OF u [unfolded scan_async_unbind_def]]
  show ?case by (simp add: unbind_keys_def case_prod_unfold)
qed (simp add: unbind_keys_def)

text \<open>Whether the sources have changed: one of them said so, or it said that it may have changed and is dirty when it is asked.\<close>

definition sources_changed :: "('w, 'fut, 'v, 'k) async_env \<Rightarrow> 'k async_binder \<Rightarrow> 'w \<Rightarrow> bool" where
  "sources_changed env b w \<longleftrightarrow> ab_dirty b = Dirty
     \<or> ab_dirty b = MaybeDirty \<and> (case ge_check (ae_node env) (ab_sources b) w of Inr (changed, _) \<Rightarrow> changed | Inl _ \<Rightarrow> False)"

lemma asb_check_changed:
  assumes "asb_check env b w = Inr (r, b1, us, w1)"
  shows "r \<longleftrightarrow> sources_changed env b w" and "b1 = b\<lparr>ab_dirty := (if r then Dirty else Clean)\<rparr>"
  using assms by (cases "ab_dirty b"; auto simp: asb_check_def check_with_def sources_changed_def from_is_dirty_def res_bind_eq_Inr split: if_splits)+

text \<open>The one poll of an update: \<open>v\<close> is what it returned, \<open>fut'\<close> what is left. The future is the one there was, or, after a restart, the one the function has just made.\<close>

definition async_polled :: "('w, 'fut, 'v, 'k) async_env \<Rightarrow> bool \<Rightarrow> 'fut option \<Rightarrow> 'v option \<Rightarrow> 'fut option \<Rightarrow> bool" where
  "async_polled env restart old v fut' \<longleftrightarrow> (\<exists>fut fut1 b w x. asb_poll env fut b w = Inr ((v, fut1), x)
     \<and> fut' = (if v = None then Some fut1 else None)
     \<and> (if restart then \<exists>b0 us0 w0 w1. asb_init env b0 w0 = Inr (fut, b, us0, w1) else old = Some fut))"

text \<open>One update that is not cut short, step by step.\<close>

lemma scan_async_update_steps:
  assumes run: "scan_async_update ops env scan n w = Inr (n', w')" and open_node: "\<not> asb_is_clean (sa_asb n)"
  obtains r us1 where "r \<longleftrightarrow> sources_changed env (sa_asb n) (snd (async_try_discard ops env n w))"
    and "(\<not> r \<and> sa_fut n = None \<and> sa_fut n' = None \<and> sa_state n' = sa_state n \<and> sa_sinks n' = unbind_keys ops us1 (sa_sinks n))
      \<or> (\<exists>v. async_polled env r (sa_fut n) v (sa_fut n') \<and> asb_is_clean (sa_asb n')
        \<and> (if r \<or> v \<noteq> None
           then sa_state n' = fst (scan (sa_state n) v) \<and> sa_sinks n' = sinks_update ops (snd (scan (sa_state n) v)) (unbind_keys ops us1 (sa_sinks n))
           else sa_state n' = sa_state n \<and> sa_sinks n' = unbind_keys ops us1 (sa_sinks n)))"
proof -
  have cat: "unbind_keys ops us' (unbind_keys ops us S) = unbind_keys ops (us @ us') S" for us us' S by (simp add: unbind_keys_def)
  obtain n0 w0 where t: "async_try_discard ops env n w = (n0, w0)" by fastforce
  obtain r b1 us1 w1 where c: "asb_check env (sa_asb n0) w0 = Inr (r, b1, us1, w1)"
    using run open_node t by (auto simp: scan_async_update_def res_bind_eq_Inr)
  obtain n1 w1' where u1: "async_unbinds ops env us1 (n0\<lparr>sa_asb := b1\<rparr>) w1 = (n1, w1')" by fastforce
  obtain n2 w2 where i: "(if r then res_bind (asb_init env (sa_asb n1) w1') (\<lambda>(fut, b2, us2, w2).
        Inr (async_unbinds ops env us2 (n1\<lparr>sa_fut := Some fut, sa_asb := b2\<rparr>) w2)) else Inr (n1, w1')) = Inr (n2, w2)"
    using run open_node t c u1 by (cases r) (auto simp: scan_async_update_def res_bind_eq_Inr)
  note f0 = async_try_discard_fields [OF t] and f1 = async_unbinds_fields [OF u1]
  note chk = asb_check_changed [OF c]
  have r: "r \<longleftrightarrow> sources_changed env (sa_asb n) (snd (async_try_discard ops env n w))" using chk(1) f0 t by simp
  obtain us2 where n2: "ab_dirty (sa_asb n2) = Clean" "sa_state n2 = sa_state n" "sa_sinks n2 = unbind_keys ops (us1 @ us2) (sa_sinks n)"
    "if r then \<exists>fut b0 us0 w0 w1. sa_fut n2 = Some fut \<and> asb_init env b0 w0 = Inr (fut, sa_asb n2, us0, w1) else sa_fut n2 = sa_fut n"
  proof (cases r)
    case True
    then obtain fut b2 us2 w2' where b: "asb_init env (sa_asb n1) w1' = Inr (fut, b2, us2, w2')"
      "async_unbinds ops env us2 (n1\<lparr>sa_fut := Some fut, sa_asb := b2\<rparr>) w2' = (n2, w2)" using i by (auto simp: res_bind_eq_Inr)
    note f2 = async_unbinds_fields [OF b(2)]
    have "\<exists>fut b0 us0 w0 w1. sa_fut n2 = Some fut \<and> asb_init env b0 w0 = Inr (fut, sa_asb n2, us0, w1)" using b(1) f2 by auto
    then show thesis using that [of us2] True f0 f1 f2 asb_init_fields [OF b(1)] by (simp add: cat)
  next
    case False
    then show thesis using that [of "[]"] i f0 f1 chk(2) by auto
  qed
  show thesis
  proof (cases "sa_fut n2")
    case None
    then have "n' = n2" "\<not> r" "sa_fut n = None"
      using run open_node t c u1 i n2(4) by (auto simp: scan_async_update_def split: if_splits)
    then show thesis using that [of r "us1 @ us2"] r n2 None by auto
  next
    case (Some fut)
    then obtain v fut1 b3 us3 w3 where p: "asb_poll env fut (sa_asb n2) w2 = Inr ((v, fut1), b3, us3, w3)"
      using run open_node t c u1 i by (auto simp: scan_async_update_def res_bind_eq_Inr)
    obtain n3 w3' where u3: "async_unbinds ops env us3 (n2\<lparr>sa_fut := (if v = None then Some fut1 else None), sa_asb := b3\<rparr>) w3 = (n3, w3')" by fastforce
    have e: "(if r \<or> v \<noteq> None then let (st, changed) = scan (sa_state n3) v in
            Inr (n3\<lparr>sa_state := st, sa_sinks := sinks_update ops changed (sa_sinks n3)\<rparr>, w3') else Inr (n3, w3')) = Inr (n', w')"
      using run open_node t c u1 i Some p u3 by (cases v; cases r) (simp_all add: scan_async_update_def split: prod.split_asm)
    have clean: "asb_is_clean b3" using asb_poll_fields [OF p] n2(1) by (simp add: asb_is_clean_def is_clean_def)
    have polled: "async_polled env r (sa_fut n) v (if v = None then Some fut1 else None)"
      unfolding async_polled_def using p Some n2(4) by (cases r) fastforce+
    obtain st changed where "scan (sa_state n) v = (st, changed)" by fastforce
    then have "async_polled env r (sa_fut n) v (sa_fut n') \<and> asb_is_clean (sa_asb n')
        \<and> (if r \<or> v \<noteq> None
           then sa_state n' = fst (scan (sa_state n) v) \<and> sa_sinks n' = sinks_update ops (snd (scan (sa_state n) v)) (unbind_keys ops ((us1 @ us2) @ us3) (sa_sinks n))
           else sa_state n' = sa_state n \<and> sa_sinks n' = unbind_keys ops ((us1 @ us2) @ us3) (sa_sinks n))"
      using e clean polled n2(2,3) async_unbinds_fields [OF u3] by (cases v; cases r) (auto simp: cat)
    then show thesis by (intro that [of r "(us1 @ us2) @ us3"] r disjI2 exI [of _ v])
  qed
qed

subsection \<open>Asynchronous signals\<close>

text \<open>A small setting: a future that has to be polled as often as its number says, and reads one source.\<close>

definition ex_async :: "(nid list, nat, nat, nat) async_env" where
  "ex_async = \<lparr>ae_node = \<lparr>ge_check = (\<lambda>srcs w. Inr (True, [], w)), ge_run = (\<lambda>b m w. Inr ([], [], [], w)),
       ge_notify = (\<lambda>b w. Inr (sb_sink b # w)), ge_unbind = (\<lambda>b w. Inr w), ge_schedule = (\<lambda>n slot w. n # w)\<rparr>,
     ae_waker = (\<lambda>n slot w. (n, w)), ae_wake = (\<lambda>k w. w), ae_rebind = (\<lambda>b k w. Inr (k, w)),
     ae_get_fut = (\<lambda>k s w. Inr (2, k, s, [], w)),
     ae_poll = (\<lambda>fut waker k s w. Inr (if fut = 0 then (Some 7, 0) else (None, fut - 1), fst (sink_push \<lparr>src_node = 1, src_slot = 0, src_key = 0\<rparr> k), s, [], w)),
     ae_discard = (\<lambda>n w. n # w)\<rparr>"

definition ex_async_node :: "nat \<Rightarrow> dirty \<Rightarrow> dirty \<Rightarrow> (nat option, nat, nat, sink_binding option list) scan_async" where
  "ex_async_node fut d flag = \<lparr>sa_fut = Some fut,
     sa_asb = \<lparr>ab_sink = 4, ab_ctx = \<lparr>as_poll_waker = None, as_poll_bindings = []\<rparr>, ab_sources = [], ab_dirty = d, ab_is_wake = (flag = MaybeDirty), ab_waker = 4\<rparr>,
     sa_state = Some 5, sa_sinks = [Some \<lparr>sb_sink = 3, sb_slot = 0, sb_dirty = flag\<rparr>], sa_discard_scheduled = False\<rparr>"

text \<open>
  C29. What an update of an asynchronous signal does. If its sources have changed, be it that one said so or that one said it may have and is found dirty, the function is started again; if a
  future is there, new or old, it is polled once. When the function was started again or the future became ready, the scan is given the outcome of that poll, every dependant
  that was waiting has its flag decided by whether the scan changed the state, nobody else's flag changes, the node is clean, and the future is gone exactly if it was ready. In all
  other cases state and flags stay as they are; that leaves the flags of a wake-up undecided (see the next property).
\<close>

theorem async_update_decides:
  assumes laws: "slab_laws ops" and run: "scan_async_update ops env scan n w = Inr (n', w')" and opened: "\<not> asb_is_clean (sa_asb n)"
    and restart: "restart \<longleftrightarrow> sources_changed env (sa_asb n) (snd (async_try_discard ops env n w))"
  shows "\<exists>v us. (if restart \<or> sa_fut n \<noteq> None then async_polled env restart (sa_fut n) v (sa_fut n') \<and> asb_is_clean (sa_asb n') else sa_fut n' = None)
    \<and> (if restart \<or> sa_fut n \<noteq> None \<and> sa_fut n' = None
       then flags_ok ops True (sa_sinks n') \<and> sa_state n' = fst (scan (sa_state n) v)
         \<and> (\<forall>key. slab_get ops (sa_sinks n') key = (if key \<in> us then None
              else map_option (resolve_binding (snd (scan (sa_state n) v))) (slab_get ops (sa_sinks n) key)))
       else sa_state n' = sa_state n \<and> (\<forall>key. slab_get ops (sa_sinks n') key = (if key \<in> us then None else slab_get ops (sa_sinks n) key)))"
proof -
  obtain r us where r: "r \<longleftrightarrow> sources_changed env (sa_asb n) (snd (async_try_discard ops env n w))"
    and s: "(\<not> r \<and> sa_fut n = None \<and> sa_fut n' = None \<and> sa_state n' = sa_state n \<and> sa_sinks n' = unbind_keys ops us (sa_sinks n))
      \<or> (\<exists>v. async_polled env r (sa_fut n) v (sa_fut n') \<and> asb_is_clean (sa_asb n')
        \<and> (if r \<or> v \<noteq> None
           then sa_state n' = fst (scan (sa_state n) v) \<and> sa_sinks n' = sinks_update ops (snd (scan (sa_state n) v)) (unbind_keys ops us (sa_sinks n))
           else sa_state n' = sa_state n \<and> sa_sinks n' = unbind_keys ops us (sa_sinks n)))" by (rule scan_async_update_steps [OF run opened])
  have r: "restart \<longleftrightarrow> r" using r restart by simp
  from s show ?thesis
  proof (elim disjE exE)
    assume "\<not> r \<and> sa_fut n = None \<and> sa_fut n' = None \<and> sa_state n' = sa_state n \<and> sa_sinks n' = unbind_keys ops us (sa_sinks n)"
    then show ?thesis by (intro exI [of _ None] exI [of _ "snd ` set us"]) (simp add: r unbind_keys_get [OF laws])
  next
    fix v
    assume v: "async_polled env r (sa_fut n) v (sa_fut n') \<and> asb_is_clean (sa_asb n')
        \<and> (if r \<or> v \<noteq> None
           then sa_state n' = fst (scan (sa_state n) v) \<and> sa_sinks n' = sinks_update ops (snd (scan (sa_state n) v)) (unbind_keys ops us (sa_sinks n))
           else sa_state n' = sa_state n \<and> sa_sinks n' = unbind_keys ops us (sa_sinks n))"
    have f: "sa_fut n' = None \<longleftrightarrow> v \<noteq> None" "r \<or> sa_fut n \<noteq> None" using v by (auto simp: async_polled_def split: if_splits)
    show ?thesis
    proof (cases "r \<or> v \<noteq> None")
      case True
      then show ?thesis using v f
        by (intro exI [of _ v] exI [of _ "snd ` set us"]) (auto simp: r sinks_update_get [OF laws] unbind_keys_get [OF laws] flags_ok_update [OF laws])
    next
      case False
      then show ?thesis using v f by (intro exI [of _ v] exI [of _ "snd ` set us"]) (auto simp: r unbind_keys_get [OF laws])
    qed
  qed
qed

text \<open>A source may have changed and has: the function is started again, the new future is pending, and the dependant is told that the state changed.\<close>

theorem async_update_decides_witness:
  "\<exists>n' w'. scan_async_update vec_slab ex_async from_async_scan (ex_async_node 0 MaybeDirty MaybeDirty) [] = Inr (n', w')
     \<and> sa_fut n' = Some 1 \<and> asb_is_clean (sa_asb n') \<and> flags_ok vec_slab True (sa_sinks n')"
proof -
  let ?n = "ex_async_node 0 MaybeDirty MaybeDirty"
  let ?r = "scan_async_update vec_slab ex_async from_async_scan ?n []"
  have e: "case ?r of Inl _ \<Rightarrow> False | Inr (n', w') \<Rightarrow> sa_fut n' = Some 1" by code_simp
  then obtain n' w' where r: "?r = Inr (n', w')" "sa_fut n' = Some 1" by (auto split: sum.splits)
  have "\<not> asb_is_clean (sa_asb ?n)" "True \<longleftrightarrow> sources_changed ex_async (sa_asb ?n) (snd (async_try_discard vec_slab ex_async ?n []))"
    by (simp_all add: ex_async_node_def asb_is_clean_def is_clean_def sources_changed_def ex_async_def)
  from async_update_decides [OF vec_slab_laws r(1) this] r show ?thesis by auto
qed

text \<open>
  C30. A defect of asynchronous signals: a wake-up after which the future is still pending leaves the dependants undecided. \<open>notify\<close> told them \<open>MaybeDirty\<close>; \<open>update\<close>
  polls, finds the future pending and returns without deciding the flags; the dependant that then asks \<open>check\<close> meets the panic \<open>is_dirty called before update()\<close>.
  A future that awaits two things in turn is enough.
\<close>

theorem async_pending_wake_panics:
  assumes laws: "slab_laws ops" and clean: "asb_is_clean (sa_asb n)" and fut: "sa_fut n = Some fut"
    and bound: "slab_get ops (sa_sinks n) key = Some b" "sb_dirty b = Clean"
    and woken: "scan_async_notify ops env slot_wake level n w = Inr (n1, w1)"
    and pending: "asb_poll env fut (sa_asb n1) w1 = Inr ((None, fut'), b', us, w2)" and kept: "key \<notin> snd ` set us"
  shows "scan_async_check ops env scan key n1 w1 = Inl IsDirtyBeforeUpdate"
proof -
  have c: "ab_dirty (sa_asb n) = Clean" "\<not> ab_is_wake (sa_asb n)" using clean by (simp_all add: asb_is_clean_def is_clean_def)
  obtain S where S: "sinks_notify ops (ge_notify (ae_node env)) LevelMaybeDirty (sa_sinks n) w = Inr (S, w1)"
    "n1 = n\<lparr>sa_asb := (sa_asb n)\<lparr>ab_is_wake := True\<rparr>, sa_sinks := S\<rparr>"
    using woken c by (auto simp: scan_async_notify_def asb_on_notify_def res_bind_eq_Inr)
  have get: "slab_get ops S key = Some (mark_binding LevelMaybeDirty b)" using notify_marks [OF laws S(1), of key] bound(1) by simp
  have ne: "\<not> sinks_is_empty ops S" using get by (auto simp: sinks_is_empty_def slab_is_empty_iff [OF laws])
  then have t: "async_try_discard ops env n1 w1 = (n1, w1)" by (simp add: async_try_discard_def S(2))
  have ck: "asb_check env (sa_asb n1) w1 = Inr (False, sa_asb n1, [], w1)"
    using c by (simp add: asb_check_def check_with_def S(2))
  obtain n3 w3 where u: "async_unbinds ops env us (n1\<lparr>sa_fut := Some fut', sa_asb := b'\<rparr>) w2 = (n3, w3)" by fastforce
  have upd: "scan_async_update ops env scan n1 w1 = Inr (n3, w3)"
    using t ck u pending fut by (simp add: scan_async_update_def asb_is_clean_def S(2) async_unbinds_def [of _ _ "[]"])
  have "slab_get ops (sa_sinks n3) key = Some (mark_binding LevelMaybeDirty b)"
    using async_unbinds_fields [OF u] get kept by (simp add: unbind_keys_get [OF laws] S(2))
  then show ?thesis using bound(2) upd by (simp add: scan_async_check_def sinks_is_dirty_def mark_binding_def apply_notify_def dirty_of_level_def max_def less_eq_dirty_def)
qed

theorem async_pending_wake_panics_witness:
  "\<exists>n1 w1. scan_async_notify vec_slab ex_async slot_wake LevelDirty (ex_async_node 1 Clean Clean) [] = Inr (n1, w1)
     \<and> scan_async_check vec_slab ex_async from_async_scan 0 n1 w1 = Inl IsDirtyBeforeUpdate"
proof -
  let ?n = "ex_async_node 1 Clean Clean"
  let ?r = "scan_async_notify vec_slab ex_async slot_wake LevelDirty ?n []"
  have e: "case ?r of Inl _ \<Rightarrow> False | Inr (n1, w1) \<Rightarrow> (case asb_poll ex_async 1 (sa_asb n1) w1 of Inl _ \<Rightarrow> False | Inr ((v, _), _, us, _) \<Rightarrow> v = None \<and> us = [])"
    by code_simp
  then obtain n1 w1 where r: "?r = Inr (n1, w1)" by (auto split: sum.splits)
  with e obtain fut' b' w2 where p: "asb_poll ex_async 1 (sa_asb n1) w1 = Inr ((None, fut'), b', [], w2)" by (auto split: sum.splits prod.splits)
  have n: "asb_is_clean (sa_asb ?n)" "sa_fut ?n = Some 1" "slab_get vec_slab (sa_sinks ?n) 0 = Some \<lparr>sb_sink = 3, sb_slot = 0, sb_dirty = Clean\<rparr>"
    by (simp_all add: ex_async_node_def asb_is_clean_def is_clean_def vec_slab_def vec_get_def)
  have "scan_async_check vec_slab ex_async from_async_scan 0 n1 w1 = Inl IsDirtyBeforeUpdate"
    by (rule async_pending_wake_panics [OF vec_slab_laws n _ r p]) simp_all
  then show ?thesis using r by blast
qed

subsection \<open>Asynchronous effects\<close>

text \<open>
  \<open>pending w\<close> counts the reactions of the effect that are scheduled. Scheduling adds one; waking a task, and whatever else the program does meanwhile (\<open>other\<close>), does not take one away.
\<close>

definition counts_pending :: "('w, 'fut, unit, 'k) async_env \<Rightarrow> ('w \<Rightarrow> 'w) \<Rightarrow> ('w \<Rightarrow> nat) \<Rightarrow> bool" where
  "counts_pending env other pending \<longleftrightarrow> (\<forall>w. pending w \<le> pending (other w)) \<and> (\<forall>n s w. pending (ge_schedule (ae_node env) n s w) = Suc (pending w)) \<and> (\<forall>k w. pending w \<le> pending (ae_wake env k w))"

datatype effect_event =
    EffectNotify slot dirty_level
  | EffectDispatch     \<comment> \<open>the runtime takes a reaction of the effect from its queue (\<open>take_one\<close>) and calls it\<close>
  | EffectOther        \<comment> \<open>other parts of the program run\<close>

fun effect_step ::
    "('w, 'fut, unit, 'k) async_env \<Rightarrow> ('w \<Rightarrow> 'w) \<Rightarrow> ('w \<Rightarrow> 'w) \<Rightarrow> effect_event \<Rightarrow> ('fut, 'k) effect_async \<times> 'w \<Rightarrow> (('fut, 'k) effect_async \<times> 'w) result" where
  "effect_step env other take_one (EffectNotify slot level) (e, w) = Inr (effect_async_notify env slot level e w)"
| "effect_step env other take_one EffectDispatch (e, w) = effect_async_call env e (take_one w)"
| "effect_step env other take_one EffectOther (e, w) = Inr (e, other w)"

text \<open>
  What the events so far oblige the effect to do. This looks at the events alone, the latest first, and not at the flags in which the effect keeps its own account: its
  function has to run if it never ran, or if one of its sources announced a change after the last dispatch; its sources have to be asked if one of them announced a
  possible change; the future has to be polled if its waker was called.
\<close>

fun owes_run :: "effect_event list \<Rightarrow> bool" where
  "owes_run [] = True"
| "owes_run (EffectDispatch # evs) = False"
| "owes_run (EffectOther # evs) = owes_run evs"
| "owes_run (EffectNotify slot level # evs) = (slot = slot_deps \<and> level = LevelDirty \<or> owes_run evs)"

fun owes_check :: "effect_event list \<Rightarrow> bool" where
  "owes_check [] = False"
| "owes_check (EffectDispatch # evs) = False"
| "owes_check (EffectOther # evs) = owes_check evs"
| "owes_check (EffectNotify slot level # evs) = (slot = slot_deps \<or> owes_check evs)"

fun owes_poll :: "effect_event list \<Rightarrow> bool" where
  "owes_poll [] = False"
| "owes_poll (EffectDispatch # evs) = False"
| "owes_poll (EffectOther # evs) = owes_poll evs"
| "owes_poll (EffectNotify slot level # evs) = (slot = slot_wake \<or> owes_poll evs)"

text \<open>One poll of the future, if there is one, which is dropped when it is ready; and the start of a new future, with its first poll.\<close>

definition effect_poll_once :: "('w, 'fut, unit, 'k) async_env \<Rightarrow> ('fut, 'k) effect_async \<Rightarrow> 'w \<Rightarrow> (('fut, 'k) effect_async \<times> 'w) result" where
  "effect_poll_once env e w = (case ea_fut e of
       None \<Rightarrow> Inr (e, w)
     | Some fut \<Rightarrow> res_bind (asb_poll env fut (ea_asb e) w) (\<lambda>((value, fut1), b, _, w1).
         Inr (e\<lparr>ea_fut := (if value = None then Some fut1 else None), ea_asb := b\<rparr>, w1)))"

definition effect_restart :: "('w, 'fut, unit, 'k) async_env \<Rightarrow> ('fut, 'k) effect_async \<Rightarrow> 'w \<Rightarrow> (('fut, 'k) effect_async \<times> 'w) result" where
  "effect_restart env e w = res_bind (asb_init env (ea_asb e) w) (\<lambda>(fut, b, _, w1).
     effect_poll_once env (e\<lparr>ea_fut := Some fut, ea_asb := b\<rparr>) w1)"

text \<open>What a dispatch has to do, in terms of the events.\<close>

definition effect_due :: "('w, 'fut, unit, 'k) async_env \<Rightarrow> effect_event list \<Rightarrow> ('fut, 'k) effect_async \<Rightarrow> 'w \<Rightarrow> (('fut, 'k) effect_async \<times> 'w) result" where
  "effect_due env evs e w =
     (if owes_run evs then effect_restart env e w
      else if owes_check evs then res_bind (ge_check (ae_node env) (ab_sources (ea_asb e)) w) (\<lambda>(changed, _, w1).
        if changed then effect_restart env e w1 else effect_poll_once env (e\<lparr>ea_asb := (ea_asb e)\<lparr>ab_dirty := Clean\<rparr>\<rparr>) w1)
      else if owes_poll evs then effect_poll_once env e w
      else Inr (e, w))"

text \<open>The flags of the effect agree with the events, and what they oblige it to do is scheduled.\<close>

definition effect_account :: "('w \<Rightarrow> nat) \<Rightarrow> effect_event list \<Rightarrow> ('fut, 'k) effect_async \<times> 'w \<Rightarrow> bool" where
  "effect_account pending evs = (\<lambda>(e, w).
     ab_dirty (ea_asb e) = (if owes_run evs then Dirty else if owes_check evs then MaybeDirty else Clean)
     \<and> (owes_poll evs \<longrightarrow> ab_is_wake (ea_asb e)) \<and> (ab_is_wake (ea_asb e) \<and> ea_fut e \<noteq> None \<longrightarrow> owes_poll evs)
     \<and> (owes_run evs \<or> owes_check evs \<or> owes_poll evs \<and> ea_fut e \<noteq> None \<longrightarrow> 0 < pending w))"

lemmas slot_defs = slot_wake_def slot_deps_def slot_poll_def

lemma effect_notify_wake:
  "effect_async_notify env slot_wake level e w =
     (e\<lparr>ea_asb := (ea_asb e)\<lparr>ab_is_wake := True\<rparr>\<rparr>, if ab_is_wake (ea_asb e) then w else ge_schedule (ae_node env) (ab_sink (ea_asb e)) slot_wake w)"
  by (simp add: effect_async_notify_def asb_on_notify_def effect_async_schedule_def)

lemma effect_notify_deps:
  "effect_async_notify env slot_deps level e w =
     (e\<lparr>ea_asb := (ea_asb e)\<lparr>ab_dirty := apply_notify level (ab_dirty (ea_asb e))\<rparr>\<rparr>,
      if ab_dirty (ea_asb e) = Clean then ge_schedule (ae_node env) (ab_sink (ea_asb e)) slot_wake w else w)"
  by (simp add: effect_async_notify_def asb_on_notify_def effect_async_schedule_def needs_notify_def is_clean_def slot_defs)

lemma effect_notify_poll:
  "effect_async_notify env slot_poll level e w = (case as_poll_waker (ab_ctx (ea_asb e)) of
       None \<Rightarrow> (e, w)
     | Some k \<Rightarrow> (e\<lparr>ea_asb := (ea_asb e)\<lparr>ab_ctx := (ab_ctx (ea_asb e))\<lparr>as_poll_waker := None\<rparr>\<rparr>\<rparr>, ae_wake env k w))"
  by (simp add: effect_async_notify_def asb_on_notify_def slot_defs split: option.split)

lemma effect_notify_other:
  "slot \<noteq> slot_wake \<Longrightarrow> slot \<noteq> slot_deps \<Longrightarrow> slot \<noteq> slot_poll \<Longrightarrow> effect_async_notify env slot level e w = (e, w)"
  by (simp add: effect_async_notify_def asb_on_notify_def)

lemma apply_notify_cases: "apply_notify level d = (if level = LevelDirty \<or> d = Dirty then Dirty else MaybeDirty)"
  by (cases level; cases d) (simp_all add: apply_notify_def dirty_of_level_def max_def less_eq_dirty_def)

lemma effect_account_notify:
  assumes counts: "counts_pending env other pending" and acc: "effect_account pending evs (e, w)"
  shows "effect_account pending (EffectNotify slot level # evs) (effect_async_notify env slot level e w)"
proof -
  have sched: "0 < pending (ge_schedule (ae_node env) n s w)" for n s using counts by (simp add: counts_pending_def)
  have wake: "0 < pending w \<Longrightarrow> 0 < pending (ae_wake env k w)" for k using counts unfolding counts_pending_def by (meson less_le_trans)
  have ne: "slot_wake \<noteq> slot_deps" "slot_wake \<noteq> slot_poll" "slot_deps \<noteq> slot_poll" by (simp_all add: slot_defs)
  consider "slot = slot_wake" | "slot = slot_deps" | "slot = slot_poll" | "slot \<noteq> slot_wake" "slot \<noteq> slot_deps" "slot \<noteq> slot_poll" by blast
  then show ?thesis
  proof cases
    case a: 1
    show ?thesis using acc sched ne by (auto simp: a effect_notify_wake effect_account_def)
  next
    case a: 2
    show ?thesis using acc sched ne by (auto simp: a effect_notify_deps effect_account_def apply_notify_cases)
  next
    case a: 3
    show ?thesis using acc wake ne by (auto simp: a effect_notify_poll effect_account_def split: option.split)
  next
    case a: 4
    show ?thesis using acc by (simp add: a effect_notify_other effect_account_def)
  qed
qed

text \<open>The call of the reaction, by the state of the binder.\<close>

lemma effect_call_eq:
  "effect_async_call env e w =
     (case ab_dirty (ea_asb e) of
        Dirty \<Rightarrow> effect_restart env e w
      | MaybeDirty \<Rightarrow> res_bind (ge_check (ae_node env) (ab_sources (ea_asb e)) w) (\<lambda>(changed, _, w1).
          if changed then effect_restart env e w1 else effect_poll_once env (e\<lparr>ea_asb := (ea_asb e)\<lparr>ab_dirty := Clean\<rparr>\<rparr>) w1)
      | Clean \<Rightarrow> if ab_is_wake (ea_asb e) then effect_poll_once env e w else Inr (e, w))"
proof -
  have id: "e\<lparr>ea_asb := (ea_asb e)\<lparr>ab_dirty := d\<rparr>\<rparr> = e" if "ab_dirty (ea_asb e) = d" for d using that by (cases e; cases "ea_asb e") simp
  have restart: "res_bind (res_bind (asb_init env ((ea_asb e)\<lparr>ab_dirty := d\<rparr>) w) (\<lambda>(fut, b2, _, w2). Inr (e\<lparr>ea_fut := Some fut, ea_asb := b2\<rparr>, w2)))
      (\<lambda>(e1, w2). effect_poll_once env e1 w2) = effect_restart env e w" for d w
    by (cases "asb_init env (ea_asb e) w") (auto simp: effect_restart_def asb_init_def)
  have call: "effect_async_call env e w =
     (if asb_is_clean (ea_asb e) then Inr (e, w)
      else res_bind (asb_check env (ea_asb e) w) (\<lambda>(r, b1, _, w1).
        res_bind (if r then res_bind (asb_init env b1 w1) (\<lambda>(fut, b2, _, w2). Inr (e\<lparr>ea_fut := Some fut, ea_asb := b2\<rparr>, w2))
                  else Inr (e\<lparr>ea_asb := b1\<rparr>, w1)) (\<lambda>(e1, w2). effect_poll_once env e1 w2)))"
    by (simp add: effect_async_call_def effect_poll_once_def)
  show ?thesis
  proof (cases "ab_dirty (ea_asb e)")
    case Clean
    then show ?thesis by (simp add: call asb_is_clean_def is_clean_def asb_check_def check_with_def id)
  next
    case MaybeDirty
    then show ?thesis using restart
      by (cases "ge_check (ae_node env) (ab_sources (ea_asb e)) w")
        (auto simp: call asb_is_clean_def is_clean_def asb_check_def check_with_def from_is_dirty_def)
  next
    case Dirty
    then show ?thesis using restart by (simp add: call asb_is_clean_def is_clean_def asb_check_def check_with_def)
  qed
qed

lemma effect_call_due:
  assumes "effect_account pending evs (e, w)"
  shows "effect_async_call env e w2 = effect_due env evs e w2"
  using assms by (cases "ea_fut e") (auto simp: effect_account_def effect_call_eq effect_due_def effect_poll_once_def)

lemma effect_poll_once_settled:
  assumes "effect_poll_once env e w = Inr (e', w')" and "ab_dirty (ea_asb e) = Clean"
  shows "ab_dirty (ea_asb e') = Clean \<and> (ab_is_wake (ea_asb e') \<longrightarrow> ea_fut e' = None)"
  using assms asb_poll_fields by (fastforce simp: effect_poll_once_def res_bind_eq_Inr split: option.splits)

lemma effect_restart_settled:
  assumes "effect_restart env e w = Inr (e', w')"
  shows "ab_dirty (ea_asb e') = Clean \<and> (ab_is_wake (ea_asb e') \<longrightarrow> ea_fut e' = None)"
proof -
  obtain fut b us w1 where i: "asb_init env (ea_asb e) w = Inr (fut, b, us, w1)"
    "effect_poll_once env (e\<lparr>ea_fut := Some fut, ea_asb := b\<rparr>) w1 = Inr (e', w')"
    using assms by (auto simp: effect_restart_def res_bind_eq_Inr)
  show ?thesis by (rule effect_poll_once_settled [OF i(2)]) (simp add: asb_init_fields [OF i(1)])
qed

lemma effect_account_dispatch:
  assumes run: "effect_async_call env e w = Inr (e', w')"
  shows "effect_account pending (EffectDispatch # evs) (e', w')"
proof -
  have "ab_dirty (ea_asb e') = Clean \<and> (ab_is_wake (ea_asb e') \<longrightarrow> ea_fut e' = None)"
  proof (cases "ab_dirty (ea_asb e)")
    case Clean
    show ?thesis
    proof (cases "ab_is_wake (ea_asb e)")
      case True
      show ?thesis by (rule effect_poll_once_settled [OF _ Clean]) (use run Clean True in \<open>simp add: effect_call_eq\<close>)
    next
      case False
      then show ?thesis using run Clean by (simp add: effect_call_eq)
    qed
  next
    case MaybeDirty
    obtain changed us w1 where c: "ge_check (ae_node env) (ab_sources (ea_asb e)) w = Inr (changed, us, w1)"
      using run MaybeDirty by (auto simp: effect_call_eq res_bind_eq_Inr)
    show ?thesis
    proof (cases changed)
      case True
      show ?thesis by (rule effect_restart_settled) (use run MaybeDirty c True in \<open>simp add: effect_call_eq\<close>)
    next
      case False
      then have "effect_poll_once env (e\<lparr>ea_asb := (ea_asb e)\<lparr>ab_dirty := Clean\<rparr>\<rparr>) w1 = Inr (e', w')" using run MaybeDirty c by (simp add: effect_call_eq)
      then show ?thesis by (rule effect_poll_once_settled) simp
    qed
  next
    case Dirty
    show ?thesis by (rule effect_restart_settled) (use run Dirty in \<open>simp add: effect_call_eq\<close>)
  qed
  then show ?thesis by (auto simp: effect_account_def)
qed

lemma effect_account_run:
  assumes counts: "counts_pending env other pending"
  shows "effect_account pending evs0 (e0, w0) \<Longrightarrow> res_fold (effect_step env other take_one) evs (e0, w0) = Inr (e, w)
    \<Longrightarrow> effect_account pending (rev evs @ evs0) (e, w)"
proof (induction evs arbitrary: evs0 e0 w0)
  case (Cons ev evs)
  obtain e1 w1 where s: "effect_step env other take_one ev (e0, w0) = Inr (e1, w1)" "res_fold (effect_step env other take_one) evs (e1, w1) = Inr (e, w)"
    using Cons.prems(2) by (auto simp: res_bind_eq_Inr)
  have "effect_account pending (ev # evs0) (e1, w1)"
  proof (cases ev)
    case (EffectNotify slot level)
    then show ?thesis using effect_account_notify [OF counts Cons.prems(1), of slot level] s(1) by simp
  next
    case EffectDispatch
    then show ?thesis using effect_account_dispatch [of env e0 "take_one w0" e1 w1] s(1) by simp
  next
    case EffectOther
    then show ?thesis using Cons.prems(1) counts s(1) by (auto simp: effect_account_def counts_pending_def intro: less_le_trans)
  qed
  from Cons.IH [OF this s(2)] show ?case by simp
qed simp

text \<open>
  C31. An asynchronous effect never loses a wake-up. Take any sequence of notifications (of its sources, of its future's waker, of the sources of a pending \<open>poll_fn\<close>)
  and dispatches of its reaction. If the events since the last dispatch oblige the effect to do something, a reaction of it is scheduled; and a dispatch does exactly what the events
  oblige it to: it runs the function again after a change of a source (and the first time), asks the sources after a possible change and runs the function again if they
  changed, polls the future if its waker was called, and does nothing otherwise. A change of a source of a pending \<open>poll_fn\<close> calls the waker that was left there, once.
  What the effect is obliged to do is read from the events, not from its flags.
\<close>

theorem effect_async_no_lost_wake:
  assumes counts: "counts_pending env other pending" and start: "effect_async_in env this w = (e0, w0)"
    and run: "res_fold (effect_step env other take_one) evs (e0, w0) = Inr (e, w1)"
  shows "(owes_run (rev evs) \<or> owes_check (rev evs) \<or> owes_poll (rev evs) \<and> ea_fut e \<noteq> None \<longrightarrow> 0 < pending w1)
    \<and> effect_async_call env e w2 = effect_due env (rev evs) e w2
    \<and> effect_async_notify env slot_poll level e w1 = (case as_poll_waker (ab_ctx (ea_asb e)) of
        None \<Rightarrow> (e, w1)
      | Some k \<Rightarrow> (e\<lparr>ea_asb := (ea_asb e)\<lparr>ab_ctx := (ab_ctx (ea_asb e))\<lparr>as_poll_waker := None\<rparr>\<rparr>\<rparr>, ae_wake env k w1))"
proof -
  have "effect_account pending [] (e0, w0)"
    using start counts by (auto simp: effect_account_def counts_pending_def effect_async_in_def effect_async_new_def asb_new_def
      effect_async_schedule_def split: prod.splits)
  from effect_account_run [OF counts this run] have "effect_account pending (rev evs) (e, w1)" by simp
  then show ?thesis using effect_call_due [of pending "rev evs" e w1 env w2] effect_notify_poll [of env level e w1] by (simp add: effect_account_def)
qed

definition ex_effect :: "(nat, nat, unit, nat) async_env" where
  "ex_effect = \<lparr>ae_node = \<lparr>ge_check = (\<lambda>srcs w. Inr (True, [], w)), ge_run = (\<lambda>b m w. Inr ([], [], [], w)),
       ge_notify = (\<lambda>b w. Inr w), ge_unbind = (\<lambda>b w. Inr w), ge_schedule = (\<lambda>n slot w. Suc w)\<rparr>,
     ae_waker = (\<lambda>n slot w. (n, w)), ae_wake = (\<lambda>k w. w), ae_rebind = (\<lambda>b k w. Inr (k, w)), ae_get_fut = (\<lambda>k s w. Inr (2, k, s, [], w)),
     ae_poll = (\<lambda>fut waker k s w. Inr (if fut = 0 then (Some (), 0) else (None, fut - 1), k, s, [], w)), ae_discard = (\<lambda>n w. w)\<rparr>"

theorem effect_async_no_lost_wake_witness:
  "\<exists>e w1. res_fold (effect_step ex_effect Suc (\<lambda>w. w - 1)) [EffectDispatch, EffectOther, EffectNotify slot_wake LevelDirty] (effect_async_in ex_effect 3 0) = Inr (e, w1)
     \<and> ea_fut e = Some 1 \<and> 0 < w1 \<and> effect_async_call ex_effect e w1 = effect_poll_once ex_effect e w1"
proof -
  let ?evs = "[EffectDispatch, EffectOther, EffectNotify slot_wake LevelDirty]"
  let ?r = "res_fold (effect_step ex_effect Suc (\<lambda>w. w - 1)) ?evs (effect_async_in ex_effect 3 0)"
  have "case ?r of Inl _ \<Rightarrow> False | Inr (e, w1) \<Rightarrow> ea_fut e = Some 1" by code_simp
  then obtain e w1 where r: "?r = Inr (e, w1)" "ea_fut e = Some 1" by (auto split: sum.splits)
  have c: "counts_pending ex_effect Suc id" by (simp add: counts_pending_def ex_effect_def)
  obtain e0 w0 where i: "effect_async_in ex_effect 3 0 = (e0, w0)" by fastforce
  have o: "owes_poll (rev ?evs)" "\<not> owes_check (rev ?evs)" "\<not> owes_run (rev ?evs)" by (simp_all add: slot_defs)
  from effect_async_no_lost_wake [OF c i r(1) [unfolded i], of w1] r o show ?thesis by (simp add: effect_due_def)
qed

end
