(* ===== verification/Signal_Stream.thy ===== *)
theory Signal_Stream
  imports Async_Node
begin

section \<open>Streams of the values of a signal function (stream.rs)\<close>

text \<open>
  \<open>stream_from(f)\<close> is a stream that yields the value of \<open>f\<close>, and again after each change. The node is a sink: a notification schedules a
  reaction, the reaction runs \<open>f\<close> and keeps its value until the consumer polls, and the consumer's waker is called when it was waiting.
  A value that has not been taken is replaced by the next one.
\<close>

datatype ('k, 'v) value_state = NoValue | WaitingFor 'k | ReadyWith 'v

record ('k, 'v) stream_data =
  ss_scheduled :: bool
  ss_value :: "('k, 'v) value_state"
  ss_sb :: source_binder

record ('w, 'v, 'k) stream_env =
  se_node :: "('w, unit, unit) node_env"
  se_f :: "sink \<Rightarrow> 'w \<Rightarrow> ('v \<times> sink \<times> unbinds \<times> 'w) result"
  se_wake :: "'k \<Rightarrow> 'w \<Rightarrow> 'w"
  se_schedule :: "'w \<Rightarrow> 'w"          \<comment> \<open>\<open>Reaction::from_weak_fn(this, Node::update).schedule()\<close>\<close>

definition stream_new :: "nid \<Rightarrow> ('k, 'v) stream_data" where
  "stream_new this = \<lparr>ss_scheduled = False, ss_value = NoValue, ss_sb = binder_new this 0\<rparr>"

definition stream_schedule :: "('w, 'v, 'k) stream_env \<Rightarrow> ('k, 'v) stream_data \<Rightarrow> 'w \<Rightarrow> ('k, 'v) stream_data \<times> 'w" where
  "stream_schedule env d w = (if ss_scheduled d then (d, w) else (d\<lparr>ss_scheduled := True\<rparr>, se_schedule env w))"

definition stream_poll_next :: "('w, 'v, 'k) stream_env \<Rightarrow> 'k \<Rightarrow> ('k, 'v) stream_data \<Rightarrow> 'w \<Rightarrow> 'v option \<times> ('k, 'v) stream_data \<times> 'w" where
  "stream_poll_next env cx d w = (case ss_value d of
       ReadyWith v \<Rightarrow> (Some v, d\<lparr>ss_value := NoValue\<rparr>, w)
     | _ \<Rightarrow> let d1 = d\<lparr>ss_value := WaitingFor cx\<rparr>;
               (d2, w2) = (if \<not> binder_is_clean (ss_sb d1) then stream_schedule env d1 w else (d1, w))
           in (None, d2, w2))"

definition stream_notify :: "('w, 'v, 'k) stream_env \<Rightarrow> slot \<Rightarrow> dirty_level \<Rightarrow> ('k, 'v) stream_data \<Rightarrow> 'w \<Rightarrow> ('k, 'v) stream_data \<times> 'w" where
  "stream_notify env slot level d w =
     (let (need, b) = binder_on_notify slot level (ss_sb d); d1 = d\<lparr>ss_sb := b\<rparr> in
      if need then stream_schedule env d1 w else (d1, w))"

definition stream_update :: "('w, 'v, 'k) stream_env \<Rightarrow> ('k, 'v) stream_data \<Rightarrow> 'w \<Rightarrow> (('k, 'v) stream_data \<times> 'w) result" where
  "stream_update env d w =
     (let d0 = d\<lparr>ss_scheduled := False\<rparr> in
      res_bind (binder_check_with (se_node env) (ss_sb d0) w) (\<lambda>(r, b1, _, w1).
      let d1 = d0\<lparr>ss_sb := b1\<rparr> in
      if \<not> r then Inr (d1, w1)
      else res_bind (update_with (se_node env) (sbr_sink b1) (sbr_slot b1) True (se_f env) (sbr_sources b1) w1) (\<lambda>(v, srcs, _, w2).
        let d2 = d1\<lparr>ss_sb := b1\<lparr>sbr_dirty := Clean, sbr_sources := srcs\<rparr>, ss_value := ReadyWith v\<rparr> in
        Inr (d2, case ss_value d1 of WaitingFor waker \<Rightarrow> se_wake env waker w2 | _ \<Rightarrow> w2))))"

subsection \<open>A waiting consumer is served\<close>

datatype 'k stream_event =
    StreamNotify slot dirty_level
  | StreamPoll 'k
  | StreamDispatch     \<comment> \<open>the runtime takes the reaction from its queue (\<open>take_one\<close>) and calls it\<close>
  | StreamOther        \<comment> \<open>other parts of the program run\<close>

fun stream_step ::
    "('w, 'v, 'k) stream_env \<Rightarrow> ('w \<Rightarrow> 'w) \<Rightarrow> ('w \<Rightarrow> 'w) \<Rightarrow> 'k stream_event \<Rightarrow> ('k, 'v) stream_data \<times> 'w \<Rightarrow> (('k, 'v) stream_data \<times> 'w) result" where
  "stream_step env other take_one (StreamNotify slot level) (d, w) = Inr (stream_notify env slot level d w)"
| "stream_step env other take_one (StreamPoll cx) (d, w) = (let (_, d1, w1) = stream_poll_next env cx d w in Inr (d1, w1))"
| "stream_step env other take_one StreamDispatch (d, w) = stream_update env d (take_one w)"
| "stream_step env other take_one StreamOther (d, w) = Inr (d, other w)"

text \<open>\<open>pending w\<close> counts the reactions of the stream that are scheduled.\<close>

definition stream_counts :: "('w, 'v, 'k) stream_env \<Rightarrow> ('w \<Rightarrow> 'w) \<Rightarrow> ('w \<Rightarrow> nat) \<Rightarrow> bool" where
  "stream_counts env other pending \<longleftrightarrow> (\<forall>w. pending (se_schedule env w) = Suc (pending w)) \<and> (\<forall>w. pending w \<le> pending (other w))"

text \<open>
  What the events so far, the latest first, oblige the stream to do, whatever its flags say: its function has to run if it never ran or a source announced a change after the
  last dispatch, its sources have to be asked after a possible change. The last poll is the one whose waker counts.
\<close>

fun stream_owes_run :: "'k stream_event list \<Rightarrow> bool" where
  "stream_owes_run [] = True"
| "stream_owes_run (StreamDispatch # evs) = False"
| "stream_owes_run (StreamNotify slot level # evs) = (slot = 0 \<and> level = LevelDirty \<or> stream_owes_run evs)"
| "stream_owes_run (_ # evs) = stream_owes_run evs"

fun stream_owes_check :: "'k stream_event list \<Rightarrow> bool" where
  "stream_owes_check [] = False"
| "stream_owes_check (StreamDispatch # evs) = False"
| "stream_owes_check (StreamNotify slot level # evs) = (slot = 0 \<or> stream_owes_check evs)"
| "stream_owes_check (_ # evs) = stream_owes_check evs"

fun stream_last_poll :: "'k stream_event list \<Rightarrow> 'k option" where
  "stream_last_poll [] = None"
| "stream_last_poll (StreamPoll k # evs) = Some k"
| "stream_last_poll (_ # evs) = stream_last_poll evs"

text \<open>A run of the function: its value is kept for the consumer, whose waker is called if it waits; what the run has read are the sources from now on.\<close>

definition stream_recompute :: "('w, 'v, 'k) stream_env \<Rightarrow> ('k, 'v) stream_data \<Rightarrow> 'w \<Rightarrow> (('k, 'v) stream_data \<times> 'w) result" where
  "stream_recompute env d w =
     res_bind (update_with (se_node env) (sbr_sink (ss_sb d)) (sbr_slot (ss_sb d)) True (se_f env) (sbr_sources (ss_sb d)) w) (\<lambda>(v, srcs, _, w1).
       Inr (\<lparr>ss_scheduled = False, ss_value = ReadyWith v, ss_sb = (ss_sb d)\<lparr>sbr_dirty := Clean, sbr_sources := srcs\<rparr>\<rparr>,
            case ss_value d of WaitingFor k \<Rightarrow> se_wake env k w1 | _ \<Rightarrow> w1))"

definition stream_due :: "('w, 'v, 'k) stream_env \<Rightarrow> 'k stream_event list \<Rightarrow> ('k, 'v) stream_data \<Rightarrow> 'w \<Rightarrow> (('k, 'v) stream_data \<times> 'w) result" where
  "stream_due env evs d w =
     (if stream_owes_run evs then stream_recompute env d w
      else if stream_owes_check evs then res_bind (ge_check (se_node env) (sbr_sources (ss_sb d)) w) (\<lambda>(changed, _, w1).
        if changed then stream_recompute env d w1 else Inr (d\<lparr>ss_scheduled := False, ss_sb := (ss_sb d)\<lparr>sbr_dirty := Clean\<rparr>\<rparr>, w1))
      else Inr (d\<lparr>ss_scheduled := False\<rparr>, w))"

definition stream_account :: "('w \<Rightarrow> nat) \<Rightarrow> 'k stream_event list \<Rightarrow> ('k, 'v) stream_data \<times> 'w \<Rightarrow> bool" where
  "stream_account pending evs = (\<lambda>(d, w).
     sbr_slot (ss_sb d) = 0
     \<and> sbr_dirty (ss_sb d) = (if stream_owes_run evs then Dirty else if stream_owes_check evs then MaybeDirty else Clean)
     \<and> (ss_scheduled d \<longrightarrow> 0 < pending w)
     \<and> (stream_owes_run evs \<or> stream_owes_check evs \<longrightarrow> ss_scheduled d \<or> StreamDispatch \<notin> set evs \<and> ss_value d = NoValue)
     \<and> (\<forall>k. ss_value d = WaitingFor k \<longrightarrow> stream_last_poll evs = Some k))"

lemma apply_notify_level: "apply_notify level d = (if level = LevelDirty \<or> d = Dirty then Dirty else MaybeDirty)"
  by (cases level; cases d) (simp_all add: apply_notify_def dirty_of_level_def max_def less_eq_dirty_def)

lemma stream_account_notify:
  assumes "stream_counts env other pending" and "stream_account pending evs (d, w)"
  shows "stream_account pending (StreamNotify slot level # evs) (stream_notify env slot level d w)"
proof -
  have sched: "0 < pending (se_schedule env w)" using assms(1) by (simp add: stream_counts_def)
  show ?thesis
  proof (cases "slot = 0")
    case False
    then show ?thesis using assms(2) by (simp add: stream_account_def stream_notify_def binder_on_notify_def)
  next
    case slot: True
    have n: "stream_notify env 0 level d w =
        (let d1 = d\<lparr>ss_sb := (ss_sb d)\<lparr>sbr_dirty := apply_notify level (sbr_dirty (ss_sb d))\<rparr>\<rparr> in
         if sbr_dirty (ss_sb d) = Clean \<and> \<not> ss_scheduled d then (d1\<lparr>ss_scheduled := True\<rparr>, se_schedule env w) else (d1, w))"
      using assms(2) slot by (simp add: stream_account_def stream_notify_def binder_on_notify_def stream_schedule_def needs_notify_def is_clean_def Let_def)
    show ?thesis
    proof (cases "stream_owes_run evs \<or> stream_owes_check evs")
      case True
      then have "sbr_dirty (ss_sb d) \<noteq> Clean" using assms(2) by (auto simp: stream_account_def)
      with assms(2) True show ?thesis unfolding slot by (auto simp: n stream_account_def apply_notify_level Let_def)
    next
      case False
      with assms(2) sched show ?thesis unfolding slot by (auto simp: n stream_account_def apply_notify_level Let_def)
    qed
  qed
qed

lemma stream_poll_eq:
  assumes "stream_account pending evs (d, w)"
  shows "stream_poll_next env k d w1 = (case ss_value d of
       ReadyWith v \<Rightarrow> (Some v, d\<lparr>ss_value := NoValue\<rparr>, w1)
     | _ \<Rightarrow> (None, d\<lparr>ss_value := WaitingFor k, ss_scheduled := ss_scheduled d \<or> stream_owes_run evs \<or> stream_owes_check evs\<rparr>,
            if \<not> ss_scheduled d \<and> (stream_owes_run evs \<or> stream_owes_check evs) then se_schedule env w1 else w1))"
  using assms
  by (cases d; cases "ss_value d") (auto simp: stream_account_def stream_poll_next_def stream_schedule_def binder_is_clean_def is_clean_def)

lemma stream_account_poll:
  assumes "stream_counts env other pending" and "stream_account pending evs (d, w)" and "stream_poll_next env k d w = (r, d', w')"
  shows "stream_account pending (StreamPoll k # evs) (d', w')"
  using assms(1,2,3) unfolding stream_poll_eq [OF assms(2)]
  by (cases "ss_value d") (auto simp: stream_account_def stream_counts_def)

lemma stream_update_due:
  assumes "stream_account pending evs (d, w)"
  shows "stream_update env d w1 = stream_due env evs d w1"
proof -
  have run: "res_bind (update_with (se_node env) s t True (se_f env) srcs w2) (\<lambda>(v, srcs, _, w3).
        let d2 = d\<lparr>ss_scheduled := False, ss_sb := b\<lparr>sbr_dirty := Clean, sbr_sources := srcs\<rparr>, ss_value := ReadyWith v\<rparr> in
        Inr (d2, case ss_value d of WaitingFor waker \<Rightarrow> se_wake env waker w3 | _ \<Rightarrow> w3))
      = stream_recompute env d w2"
    if "s = sbr_sink (ss_sb d)" "t = sbr_slot (ss_sb d)" "srcs = sbr_sources (ss_sb d)" "b = (ss_sb d)\<lparr>sbr_dirty := x\<rparr>" for s t srcs b x w2
    using that by (cases d) (simp add: stream_recompute_def)
  show ?thesis
  proof (cases "sbr_dirty (ss_sb d)")
    case Clean
    then have "(ss_sb d)\<lparr>sbr_dirty := Clean\<rparr> = ss_sb d" by (cases "ss_sb d") simp
    then show ?thesis using assms Clean
      by (cases d) (auto simp: stream_account_def stream_update_def stream_due_def binder_check_with_def check_with_def split: if_splits)
  next
    case MaybeDirty
    then have "\<not> stream_owes_run evs" "stream_owes_check evs" using assms by (auto simp: stream_account_def split: if_splits)
    then show ?thesis using MaybeDirty run
      by (cases "ge_check (se_node env) (sbr_sources (ss_sb d)) w1")
        (auto simp: stream_update_def stream_due_def binder_check_with_def check_with_def from_is_dirty_def Let_def)
  next
    case Dirty
    then have "stream_owes_run evs" using assms by (auto simp: stream_account_def split: if_splits)
    then show ?thesis using Dirty run by (simp add: stream_update_def stream_due_def binder_check_with_def check_with_def Let_def)
  qed
qed

lemma stream_update_settled:
  assumes "stream_update env d w = Inr (d', w')"
  shows "binder_is_clean (ss_sb d') \<and> sbr_slot (ss_sb d') = sbr_slot (ss_sb d) \<and> \<not> ss_scheduled d'
    \<and> (ss_value d' = ss_value d \<or> (\<exists>v. ss_value d' = ReadyWith v))"
proof -
  obtain r b1 us w1 where c: "binder_check_with (se_node env) (ss_sb d) w = Inr (r, b1, us, w1)"
    using assms by (auto simp: stream_update_def res_bind_eq_Inr)
  show ?thesis using assms c binder_check_clean [OF c]
    by (cases r) (auto simp: stream_update_def res_bind_eq_Inr binder_is_clean_def is_clean_def Let_def)
qed

lemma stream_account_dispatch:
  assumes acc: "stream_account pending evs (d, w)" and run: "stream_update env d w0 = Inr (d', w')"
  shows "stream_account pending (StreamDispatch # evs) (d', w')"
  using acc stream_update_settled [OF run] by (auto simp: stream_account_def binder_is_clean_def is_clean_def)

lemma stream_account_run:
  assumes counts: "stream_counts env other pending"
  shows "stream_account pending evs0 (d0, w0) \<Longrightarrow> res_fold (stream_step env other take_one) evs (d0, w0) = Inr (d, w)
    \<Longrightarrow> stream_account pending (rev evs @ evs0) (d, w)"
proof (induction evs arbitrary: evs0 d0 w0)
  case (Cons ev evs)
  obtain d1 w1 where s: "stream_step env other take_one ev (d0, w0) = Inr (d1, w1)" "res_fold (stream_step env other take_one) evs (d1, w1) = Inr (d, w)"
    using Cons.prems(2) by (auto simp: res_bind_eq_Inr)
  have "stream_account pending (ev # evs0) (d1, w1)"
  proof (cases ev)
    case (StreamNotify slot level)
    then show ?thesis using stream_account_notify [OF counts Cons.prems(1), of slot level] s(1) by simp
  next
    case (StreamPoll k)
    obtain r d' w' where p: "stream_poll_next env k d0 w0 = (r, d', w')" by (cases "stream_poll_next env k d0 w0")
    show ?thesis using stream_account_poll [OF counts Cons.prems(1) p] s(1) p by (simp add: StreamPoll)
  next
    case StreamDispatch
    then show ?thesis using stream_account_dispatch [OF Cons.prems(1)] s(1) by simp
  next
    case StreamOther
    then show ?thesis using Cons.prems(1) counts s(1) by (auto simp: stream_account_def stream_counts_def intro: less_le_trans)
  qed
  from Cons.IH [OF this s(2)] show ?case by simp
qed simp

text \<open>
  C32. A stream of a signal function serves its consumer. Take any sequence of polls, notifications and dispatches of its reaction. If the events since the last dispatch oblige the
  stream to recompute or to ask its sources, and it ran before or was polled, its reaction is scheduled. A dispatch does what the events oblige it to: it runs the function after a change of a
  source (and the first time), asks the sources after a possible change and runs the function if they changed; a run keeps the value of that run for the consumer and calls
  the waker of the last poll if the consumer waits. A poll takes a value that is kept; otherwise it registers its waker, and schedules the reaction if there is something to do.
\<close>

theorem stream_serves_waiting:
  assumes counts: "stream_counts env other pending" and run: "res_fold (stream_step env other take_one) evs (stream_new this, w0) = Inr (d, w)"
    and owes: "owes \<longleftrightarrow> stream_owes_run (rev evs) \<or> stream_owes_check (rev evs)"
  shows "(owes \<and> (StreamDispatch \<in> set evs \<or> ss_value d \<noteq> NoValue) \<longrightarrow> ss_scheduled d \<and> 0 < pending w)
    \<and> (\<forall>k. ss_value d = WaitingFor k \<longrightarrow> stream_last_poll (rev evs) = Some k)
    \<and> stream_update env d w1 = stream_due env (rev evs) d w1
    \<and> stream_poll_next env k d w1 = (case ss_value d of
         ReadyWith v \<Rightarrow> (Some v, d\<lparr>ss_value := NoValue\<rparr>, w1)
       | _ \<Rightarrow> (None, d\<lparr>ss_value := WaitingFor k, ss_scheduled := ss_scheduled d \<or> owes\<rparr>, if \<not> ss_scheduled d \<and> owes then se_schedule env w1 else w1))"
proof -
  have "stream_account pending [] (stream_new this, w0)" by (simp add: stream_account_def stream_new_def binder_new_def)
  from stream_account_run [OF counts this run] have acc: "stream_account pending (rev evs) (d, w)" by simp
  then have "(stream_owes_run (rev evs) \<or> stream_owes_check (rev evs)) \<and> (StreamDispatch \<in> set evs \<or> ss_value d \<noteq> NoValue) \<longrightarrow> ss_scheduled d \<and> 0 < pending w"
    "\<forall>k. ss_value d = WaitingFor k \<longrightarrow> stream_last_poll (rev evs) = Some k" by (auto simp: stream_account_def)
  then show ?thesis unfolding owes by (intro conjI stream_update_due [OF acc] stream_poll_eq [OF acc])
qed

definition ex_stream :: "(nat \<times> nat list, nat, nat) stream_env" where
  "ex_stream = \<lparr>se_node = \<lparr>ge_check = (\<lambda>srcs w. Inr (True, [], w)), ge_run = (\<lambda>b m w. Inr ([], [], [], w)),
       ge_notify = (\<lambda>b w. Inr w), ge_unbind = (\<lambda>b w. Inr w), ge_schedule = (\<lambda>n slot w. w)\<rparr>,
     se_f = (\<lambda>k w. Inr (5, fst (sink_push \<lparr>src_node = 1, src_slot = 0, src_key = 0\<rparr> k), [], w)),
     se_wake = (\<lambda>k (n, ks). (n, k # ks)), se_schedule = (\<lambda>(n, ks). (Suc n, ks))\<rparr>"

text \<open>Polled, run, taken and polled again by a consumer that then waits: a change of the source makes the stream run again and wakes it.\<close>

theorem stream_serves_waiting_witness:
  "\<exists>d w. res_fold (stream_step ex_stream id (\<lambda>(n, ks). (n - 1, ks))) [StreamPoll 8, StreamDispatch, StreamPoll 8, StreamPoll 9, StreamNotify 0 LevelDirty]
       (stream_new 3, (0, [])) = Inr (d, w) \<and> ss_value d = WaitingFor 9 \<and> snd w = [8] \<and> ss_scheduled d \<and> 0 < fst w
     \<and> stream_update ex_stream d w = stream_recompute ex_stream d w"
proof -
  let ?evs = "[StreamPoll 8, StreamDispatch, StreamPoll 8, StreamPoll 9, StreamNotify 0 LevelDirty] :: nat stream_event list"
  let ?r = "res_fold (stream_step ex_stream id (\<lambda>(n, ks). (n - 1, ks))) ?evs (stream_new 3, (0, []))"
  have e: "case ?r of Inl _ \<Rightarrow> False | Inr (d, w) \<Rightarrow> ss_value d = WaitingFor 9 \<and> snd w = [8]" by code_simp
  then obtain d w where r: "?r = Inr (d, w)" "ss_value d = WaitingFor 9" "snd w = [8]" by (auto split: sum.splits)
  have c: "stream_counts ex_stream id fst" by (simp add: stream_counts_def ex_stream_def split: prod.split)
  have o: "True \<longleftrightarrow> stream_owes_run (rev ?evs) \<or> stream_owes_check (rev ?evs)" by simp
  from stream_serves_waiting [OF c r(1) o, of w] r show ?thesis by (simp add: stream_due_def)
qed

end
