(* ===== verification/State_Edit.thy ===== *)
theory State_Edit
  imports Node_Protocol
begin

section \<open>Borrowing a state to edit it (state.rs)\<close>

text \<open>
  \<open>State::borrow_mut\<close> and its variants return a \<open>StateRefMut\<close>, which dereferences to the value and notifies when it is dropped: always if it was dereferenced mutably, or,
  after \<open>dedup\<close>, only if the value then differs from a copy taken at the first such dereference. \<open>nc\<close> says whether the guard holds the
  notification context; a loose guard does not, and schedules the notification instead.
\<close>

datatype 'v guard_dirty =
    GuardUnused
  | GuardDedupUnused "'v \<Rightarrow> 'v \<Rightarrow> bool"
  | GuardDedupUsed 'v "'v \<Rightarrow> 'v \<Rightarrow> bool"
  | GuardDirty

definition guard_set_dedup :: "('v \<Rightarrow> 'v \<Rightarrow> bool) \<Rightarrow> 'v guard_dirty \<Rightarrow> 'v guard_dirty" where
  "guard_set_dedup ne d = (case d of GuardUnused \<Rightarrow> GuardDedupUnused ne | _ \<Rightarrow> d)"

fun guard_set_used :: "'v \<Rightarrow> 'v guard_dirty \<Rightarrow> 'v guard_dirty" where
  "guard_set_used v GuardUnused = GuardDirty"
| "guard_set_used v (GuardDedupUnused ne) = GuardDedupUsed v ne"
| "guard_set_used v d = d"

fun guard_check_dirty :: "'v \<Rightarrow> 'v guard_dirty \<Rightarrow> bool" where
  "guard_check_dirty v GuardUnused = False"
| "guard_check_dirty v (GuardDedupUnused ne) = False"
| "guard_check_dirty v (GuardDedupUsed old ne) = ne old v"
| "guard_check_dirty v GuardDirty = True"

record ('v, 's) edit_node =
  en_sinks :: 's
  en_value :: "'v ref_cell"

record 'v state_ref_mut =
  rm_dirty :: "'v guard_dirty"
  rm_nc :: bool

definition ref_mut_new :: "bool \<Rightarrow> ('v, 's) edit_node \<Rightarrow> ('v state_ref_mut \<times> ('v, 's) edit_node) result" where
  "ref_mut_new nc n =
     (if cell_mut (en_value n) then Inl BorrowMutError
      else Inr (\<lparr>rm_dirty = GuardUnused, rm_nc = nc\<rparr>, n\<lparr>en_value := (en_value n)\<lparr>cell_mut := True\<rparr>\<rparr>))"

definition ref_mut_dedup :: "('v \<Rightarrow> 'v \<Rightarrow> bool) \<Rightarrow> 'v state_ref_mut \<Rightarrow> 'v state_ref_mut" where
  "ref_mut_dedup ne g = g\<lparr>rm_dirty := guard_set_dedup ne (rm_dirty g)\<rparr>"

definition state_borrow_mut :: "('v, 's) edit_node \<Rightarrow> ('v state_ref_mut \<times> ('v, 's) edit_node) result" where
  "state_borrow_mut n = ref_mut_new True n"

definition state_borrow_mut_loose :: "('v, 's) edit_node \<Rightarrow> ('v state_ref_mut \<times> ('v, 's) edit_node) result" where
  "state_borrow_mut_loose n = ref_mut_new False n"

definition state_borrow_mut_dedup :: "('v \<Rightarrow> 'v \<Rightarrow> bool) \<Rightarrow> ('v, 's) edit_node \<Rightarrow> ('v state_ref_mut \<times> ('v, 's) edit_node) result" where
  "state_borrow_mut_dedup ne n = res_bind (state_borrow_mut n) (\<lambda>(g, n1). Inr (ref_mut_dedup ne g, n1))"

definition state_borrow_mut_dedup_loose :: "('v \<Rightarrow> 'v \<Rightarrow> bool) \<Rightarrow> ('v, 's) edit_node \<Rightarrow> ('v state_ref_mut \<times> ('v, 's) edit_node) result" where
  "state_borrow_mut_dedup_loose ne n = res_bind (state_borrow_mut_loose n) (\<lambda>(g, n1). Inr (ref_mut_dedup ne g, n1))"

text \<open>\<open>*guard\<close> and \<open>*guard = ..\<close>: \<open>f\<close> is what the program does with the \<open>&mut T\<close> it gets.\<close>

definition ref_mut_deref :: "('v, 's) edit_node \<Rightarrow> 'v" where
  "ref_mut_deref n = cell_val (en_value n)"

definition ref_mut_deref_mut :: "('v \<Rightarrow> 'v) \<Rightarrow> 'v state_ref_mut \<Rightarrow> ('v, 's) edit_node \<Rightarrow> 'v state_ref_mut \<times> ('v, 's) edit_node" where
  "ref_mut_deref_mut f g n =
     (g\<lparr>rm_dirty := guard_set_used (cell_val (en_value n)) (rm_dirty g)\<rparr>, n\<lparr>en_value := (en_value n)\<lparr>cell_val := f (cell_val (en_value n))\<rparr>\<rparr>)"

definition state_notify_raw ::
    "('s, sink_binding) slab_ops \<Rightarrow> ('w, 'm, 'g) node_env \<Rightarrow> ('v, 's) edit_node \<Rightarrow> 'w \<Rightarrow> (('v, 's) edit_node \<times> 'w) result" where
  "state_notify_raw ops env n w =
     res_bind (sinks_notify ops (ge_notify env) LevelDirty (en_sinks n) w) (\<lambda>(S, w1). Inr (n\<lparr>en_sinks := S\<rparr>, w1))"

definition state_schedule_notify ::
    "('s, sink_binding) slab_ops \<Rightarrow> ('w, 'm, 'g) node_env \<Rightarrow> nid \<Rightarrow> bool \<Rightarrow> ('v, 's) edit_node \<Rightarrow> 'w \<Rightarrow> (('v, 's) edit_node \<times> 'w) result" where
  "state_schedule_notify ops env this nc n w =
     (if nc then state_notify_raw ops env n w else Inr (n, ge_schedule env this 0 w))"

text \<open>\<open>Drop\<close> first notifies, and the fields, the borrow of the value among them, are dropped after that.\<close>

definition ref_mut_drop ::
    "('s, sink_binding) slab_ops \<Rightarrow> ('w, 'm, 'g) node_env \<Rightarrow> nid \<Rightarrow> 'v state_ref_mut \<Rightarrow> ('v, 's) edit_node \<Rightarrow> 'w \<Rightarrow> (('v, 's) edit_node \<times> 'w) result" where
  "ref_mut_drop ops env this g n w =
     res_bind (if guard_check_dirty (cell_val (en_value n)) (rm_dirty g) then state_schedule_notify ops env this (rm_nc g) n w else Inr (n, w)) (\<lambda>(n1, w1).
       Inr (n1\<lparr>en_value := (en_value n1)\<lparr>cell_mut := False\<rparr>\<rparr>, w1))"

subsection \<open>A whole edit\<close>

datatype 'v guard_use = GuardRead | GuardWrite "'v \<Rightarrow> 'v"

fun guard_uses :: "'v guard_use list \<Rightarrow> 'v state_ref_mut \<times> ('v, 's) edit_node \<Rightarrow> 'v list \<times> 'v state_ref_mut \<times> ('v, 's) edit_node" where
  "guard_uses [] (g, n) = ([], g, n)"
| "guard_uses (GuardRead # us) (g, n) = (let (vs, r) = guard_uses us (g, n) in (ref_mut_deref n # vs, r))"
| "guard_uses (GuardWrite f # us) (g, n) = guard_uses us (ref_mut_deref_mut f g n)"

definition edit_state ::
    "('s, sink_binding) slab_ops \<Rightarrow> ('w, 'm, 'g) node_env \<Rightarrow> nid \<Rightarrow> (('v, 's) edit_node \<Rightarrow> ('v state_ref_mut \<times> ('v, 's) edit_node) result)
       \<Rightarrow> 'v guard_use list \<Rightarrow> ('v, 's) edit_node \<Rightarrow> 'w \<Rightarrow> ('v list \<times> ('v, 's) edit_node \<times> 'w) result" where
  "edit_state ops env this borrow us n w =
     res_bind (borrow n) (\<lambda>(g, n1). let (vs, g1, n2) = guard_uses us (g, n1) in
     res_bind (ref_mut_drop ops env this g1 n2 w) (\<lambda>(n3, w1). Inr (vs, n3, w1)))"

text \<open>What it comes to: the writes in order, and whether the value counts as changed.\<close>

definition value_after :: "'v guard_use list \<Rightarrow> 'v \<Rightarrow> 'v" where
  "value_after us v = fold (\<lambda>u v. case u of GuardRead \<Rightarrow> v | GuardWrite f \<Rightarrow> f v) us v"

lemma value_after_simps [simp]:
  "value_after [] v = v" "value_after (GuardRead # us) v = value_after us v" "value_after (GuardWrite f # us) v = value_after us (f v)"
  by (simp_all add: value_after_def)

definition counts_changed :: "('v \<Rightarrow> 'v \<Rightarrow> bool) option \<Rightarrow> 'v guard_use list \<Rightarrow> 'v \<Rightarrow> bool" where
  "counts_changed dedup us v \<longleftrightarrow> (\<exists>u \<in> set us. u \<noteq> GuardRead) \<and> (case dedup of None \<Rightarrow> True | Some ne \<Rightarrow> ne v (value_after us v))"

definition borrow_kind :: "bool \<Rightarrow> ('v \<Rightarrow> 'v \<Rightarrow> bool) option \<Rightarrow> ('v, 's) edit_node \<Rightarrow> ('v state_ref_mut \<times> ('v, 's) edit_node) result" where
  "borrow_kind nc dedup = (case dedup of
       None \<Rightarrow> (if nc then state_borrow_mut else state_borrow_mut_loose)
     | Some ne \<Rightarrow> (if nc then state_borrow_mut_dedup ne else state_borrow_mut_dedup_loose ne))"

lemma guard_uses_used:
  assumes "rm_dirty g \<noteq> GuardUnused" "\<nexists>ne. rm_dirty g = GuardDedupUnused ne"
  shows "snd (guard_uses us (g, n)) = (g, n\<lparr>en_value := (en_value n)\<lparr>cell_val := value_after us (cell_val (en_value n))\<rparr>\<rparr>)"
  using assms
proof (induction us arbitrary: n)
  case (Cons u us)
  show ?case
  proof (cases u)
    case GuardRead
    then show ?thesis using Cons by (simp add: case_prod_unfold Let_def)
  next
    case (GuardWrite f)
    have "guard_set_used v (rm_dirty g) = rm_dirty g" for v using Cons.prems by (cases "rm_dirty g") auto
    then show ?thesis using Cons GuardWrite by (simp add: ref_mut_deref_mut_def)
  qed
qed simp

lemma guard_uses_first:
  assumes "rm_dirty g = (case dedup of None \<Rightarrow> GuardUnused | Some ne \<Rightarrow> GuardDedupUnused ne)" and "v0 = cell_val (en_value n)"
  shows "guard_check_dirty (value_after us v0) (rm_dirty (fst (snd (guard_uses us (g, n))))) = counts_changed dedup us v0
    \<and> snd (snd (guard_uses us (g, n))) = n\<lparr>en_value := (en_value n)\<lparr>cell_val := value_after us v0\<rparr>\<rparr>
    \<and> rm_nc (fst (snd (guard_uses us (g, n)))) = rm_nc g"
  using assms
proof (induction us arbitrary: n)
  case Nil
  then show ?case by (cases dedup) (simp_all add: counts_changed_def)
next
  case (Cons u us)
  show ?case
  proof (cases u)
    case GuardRead
    then show ?thesis using Cons by (simp add: counts_changed_def case_prod_unfold Let_def cong: option.case_cong)
  next
    case (GuardWrite f)
    let ?g = "g\<lparr>rm_dirty := guard_set_used v0 (rm_dirty g)\<rparr>" and ?n = "n\<lparr>en_value := (en_value n)\<lparr>cell_val := f v0\<rparr>\<rparr>"
    have "rm_dirty ?g \<noteq> GuardUnused" "\<nexists>ne. rm_dirty ?g = GuardDedupUnused ne" using Cons.prems by (cases dedup; simp)+
    from guard_uses_used [OF this, of us ?n] show ?thesis
      using Cons.prems GuardWrite by (cases dedup) (simp_all add: ref_mut_deref_mut_def counts_changed_def)
  qed
qed

text \<open>
  C33. Editing a state in place. Whatever reads and writes are made through the guard, the reads see the value at that time and the state ends up with the writes
  applied in order and the borrow released. It notifies exactly when the value counts as changed: something was value_after, and for the \<open>dedup\<close> variants the value is not equal to
  the one before the edit. Then a guard with the notification context leaves every dependant \<open>Dirty\<close>, having called those that were clean; a
  loose one schedules one notification and calls nobody. A state that is already borrowed panics.
\<close>

theorem state_edit_notifies:
  assumes laws: "slab_laws ops"
  shows "if cell_mut (en_value n) then edit_state ops env this (borrow_kind nc dedup) us n w = Inl BorrowMutError
    else case edit_state ops env this (borrow_kind nc dedup) us n w of
      Inl e \<Rightarrow> nc \<and> counts_changed dedup us (cell_val (en_value n)) \<and> res_fold (ge_notify env) (clean_bindings ops (en_sinks n)) w = Inl e
    | Inr (vs, n', w') \<Rightarrow> en_value n' = new_cell (value_after us (cell_val (en_value n)))
        \<and> (if \<not> counts_changed dedup us (cell_val (en_value n)) then en_sinks n' = en_sinks n \<and> w' = w
           else if nc then all_dirty ops (en_sinks n') \<and> res_fold (ge_notify env) (clean_bindings ops (en_sinks n)) w = Inr w'
           else en_sinks n' = en_sinks n \<and> w' = ge_schedule env this 0 w)"
proof (cases "cell_mut (en_value n)")
  case True
  then show ?thesis
    by (cases nc; cases dedup) (simp_all add: edit_state_def borrow_kind_def state_borrow_mut_def state_borrow_mut_loose_def state_borrow_mut_dedup_def
        state_borrow_mut_dedup_loose_def ref_mut_new_def)
next
  case False
  let ?n1 = "n\<lparr>en_value := (en_value n)\<lparr>cell_mut := True\<rparr>\<rparr>" and ?v = "cell_val (en_value n)"
  obtain g where g: "borrow_kind nc dedup n = Inr (g, ?n1)" "rm_nc g = nc"
    "rm_dirty g = (case dedup of None \<Rightarrow> GuardUnused | Some ne \<Rightarrow> GuardDedupUnused ne)"
    by (rule that [of "\<lparr>rm_dirty = (case dedup of None \<Rightarrow> GuardUnused | Some ne \<Rightarrow> GuardDedupUnused ne), rm_nc = nc\<rparr>"])
      (use False in \<open>cases nc; cases dedup; simp add: borrow_kind_def state_borrow_mut_def state_borrow_mut_loose_def state_borrow_mut_dedup_def
        state_borrow_mut_dedup_loose_def ref_mut_new_def ref_mut_dedup_def guard_set_dedup_def\<close>)+
  obtain vs g1 n2 where u: "guard_uses us (g, ?n1) = (vs, g1, n2)" by (cases "guard_uses us (g, ?n1)")
  have f: "guard_check_dirty (value_after us ?v) (rm_dirty g1) = counts_changed dedup us ?v"
    "n2 = ?n1\<lparr>en_value := (en_value ?n1)\<lparr>cell_val := value_after us ?v\<rparr>\<rparr>" "rm_nc g1 = nc"
    using guard_uses_first [OF g(3), of ?v ?n1 us] g(2) u by simp_all
  let ?S = "sinks_notify ops (ge_notify env) LevelDirty (en_sinks n) w"
  have notify: "case ?S of Inl e \<Rightarrow> res_fold (ge_notify env) (clean_bindings ops (en_sinks n)) w = Inl e
      | Inr (S, w') \<Rightarrow> all_dirty ops S \<and> res_fold (ge_notify env) (clean_bindings ops (en_sinks n)) w = Inr w'"
    using sinks_notify_run [OF laws, where call = "ge_notify env" and level = LevelDirty and S = "en_sinks n" and w = w] notify_all_dirty [OF laws]
    by (cases "res_fold (ge_notify env) (clean_bindings ops (en_sinks n)) w"; cases ?S) fastforce+
  have cell: "(en_value n)\<lparr>cell_mut := True, cell_val := v, cell_mut := False\<rparr> = new_cell v" for v
    by (cases "en_value n") (simp add: new_cell_def)
  have e: "edit_state ops env this (borrow_kind nc dedup) us n w = res_bind (ref_mut_drop ops env this g1 n2 w) (\<lambda>(n3, w1). Inr (vs, n3, w1))"
    by (simp add: edit_state_def g(1) u)
  show ?thesis
  proof (cases "counts_changed dedup us ?v \<and> nc")
    case True
    then show ?thesis unfolding e using False notify f
      by (cases ?S) (auto simp: ref_mut_drop_def state_schedule_notify_def state_notify_raw_def cell)
  next
    case no: False
    then show ?thesis unfolding e using False f
      by (auto simp: ref_mut_drop_def state_schedule_notify_def cell)
  qed
qed

definition ex_edit_env :: "(nid list, unit, unit) node_env" where
  "ex_edit_env = \<lparr>ge_check = (\<lambda>_ w. Inr (True, [], w)), ge_run = (\<lambda>_ _ w. Inr ([], [], [], w)), ge_notify = (\<lambda>b w. Inr (sb_sink b # w)),
     ge_unbind = (\<lambda>_ w. Inr w), ge_schedule = (\<lambda>n _ w. n # w)\<rparr>"

definition ex_edit_node :: "(nat, sink_binding option list) edit_node" where
  "ex_edit_node = \<lparr>en_sinks = [Some \<lparr>sb_sink = 3, sb_slot = 0, sb_dirty = Clean\<rparr>], en_value = new_cell 5\<rparr>"

theorem state_edit_notifies_witness:
  "\<exists>vs n' w'. edit_state vec_slab ex_edit_env 9 (borrow_kind True (Some (\<noteq>))) [GuardRead, GuardWrite Suc, GuardRead] ex_edit_node [] = Inr (vs, n', w')
     \<and> en_value n' = new_cell 6 \<and> all_dirty vec_slab (en_sinks n')"
proof -
  let ?r = "edit_state vec_slab ex_edit_env 9 (borrow_kind True (Some (\<noteq>))) [GuardRead, GuardWrite Suc, GuardRead] ex_edit_node []"
  have "\<not> isl ?r" by code_simp
  then obtain vs n' w' where r: "?r = Inr (vs, n', w')" by (cases ?r) auto
  show ?thesis
    using state_edit_notifies [OF vec_slab_laws, of ex_edit_node ex_edit_env 9 True "Some (\<noteq>)" "[GuardRead, GuardWrite Suc, GuardRead]" "[]"] r
    by (simp add: ex_edit_node_def counts_changed_def)
qed

end
