(* ===== verification/Oneshot.thy ===== *)
theory Oneshot
  imports Slab_Interface
begin

section \<open>A one-shot broadcast (utils/sync/oneshot\_broadcast.rs)\<close>

text \<open>
  A sender and any number of receivers share a value that is sent once. A receiving future that has to wait keeps its waker in a slab map, under a key it
  remembers in a \<open>WakerKeyGuard\<close>: a later poll overwrites the waker at that key, and dropping the future removes the entry. \<open>send\<close> takes all wakers out and
  calls them. The mutex is held during each of these operations, so that they are the steps of the system, in any order.
\<close>

record ('v, 's) oneshot =
  os_value :: "'v option"
  os_waker :: 's

definition oneshot_new :: "('s, 'k) slab_ops \<Rightarrow> ('v, 's) oneshot" where
  "oneshot_new ops = \<lparr>os_value = None, os_waker = slab_new ops\<rparr>"

text \<open>\<open>send\<close> returns the wakers it calls, in order.\<close>

definition oneshot_send :: "('s, 'k) slab_ops \<Rightarrow> 'v \<Rightarrow> ('v, 's) oneshot \<Rightarrow> 'k list \<times> ('v, 's) oneshot" where
  "oneshot_send ops v d =
     (List.map_filter (slab_get ops (os_waker d)) (slab_keys ops (os_waker d)), d\<lparr>os_value := Some v, os_waker := slab_new ops\<rparr>)"

text \<open>One poll of \<open>recv\<close> by a future whose guard holds \<open>key\<close>; the guard's key afterwards is part of the result.\<close>

definition oneshot_poll ::
    "('s, 'k) slab_ops \<Rightarrow> nat option \<Rightarrow> 'k \<Rightarrow> ('v, 's) oneshot \<Rightarrow> ('v option \<times> nat option \<times> ('v, 's) oneshot) result" where
  "oneshot_poll ops key cx d = (case os_value d of
       Some v \<Rightarrow> Inr (Some v, key, d)
     | None \<Rightarrow> (case key of
         Some k \<Rightarrow> if slab_get ops (os_waker d) k = None then Inl InvalidKey else Inr (None, key, d\<lparr>os_waker := slab_put ops (os_waker d) k cx\<rparr>)
       | None \<Rightarrow> let (k, S) = slab_insert ops (os_waker d) cx in Inr (None, Some k, d\<lparr>os_waker := S\<rparr>)))"

definition waker_guard_drop :: "('s, 'k) slab_ops \<Rightarrow> nat option \<Rightarrow> ('v, 's) oneshot \<Rightarrow> ('v, 's) oneshot" where
  "waker_guard_drop ops key d = (case key of None \<Rightarrow> d | Some k \<Rightarrow> d\<lparr>os_waker := slab_remove ops (os_waker d) k\<rparr>)"

subsection \<open>The system of a sender and its receivers\<close>

text \<open>
  Receiving futures are named by numbers. \<open>waiting i\<close> is the key of the guard of a future that has been polled and is still pending, and the
  waker of its last poll. A future that gets its value is finished, and its guard is dropped; a pending one can be dropped at any time.
\<close>

inductive oneshot_reach :: "('s, 'k) slab_ops \<Rightarrow> ('v, 's) oneshot \<Rightarrow> (nat \<Rightarrow> (nat \<times> 'k) option) \<Rightarrow> bool" for ops where
  start: "oneshot_reach ops (oneshot_new ops) (\<lambda>_. None)"
| send: "oneshot_reach ops d waiting \<Longrightarrow> oneshot_send ops v d = (ks, d') \<Longrightarrow> oneshot_reach ops d' waiting"
| pending: "oneshot_reach ops d waiting \<Longrightarrow> oneshot_poll ops (map_option fst (waiting i)) cx d = Inr (None, Some key, d')
    \<Longrightarrow> oneshot_reach ops d' (waiting(i \<mapsto> (key, cx)))"
| ready: "oneshot_reach ops d waiting \<Longrightarrow> oneshot_poll ops (map_option fst (waiting i)) cx d = Inr (Some v, key, d1)
    \<Longrightarrow> waker_guard_drop ops key d1 = d' \<Longrightarrow> oneshot_reach ops d' (waiting(i := None))"
| cancel: "oneshot_reach ops d waiting \<Longrightarrow> waker_guard_drop ops (map_option fst (waiting i)) d = d' \<Longrightarrow> oneshot_reach ops d' (waiting(i := None))"

text \<open>Until the value is sent, the slab map holds exactly the last wakers of the waiting futures, each under a key of its own.\<close>

definition wakers_match :: "('s, 'k) slab_ops \<Rightarrow> ('v, 's) oneshot \<Rightarrow> (nat \<Rightarrow> (nat \<times> 'k) option) \<Rightarrow> bool" where
  "wakers_match ops d waiting \<longleftrightarrow> os_value d \<noteq> None
     \<or> ((\<forall>i k c. waiting i = Some (k, c) \<longrightarrow> slab_get ops (os_waker d) k = Some c)
      \<and> (\<forall>k c. slab_get ops (os_waker d) k = Some c \<longrightarrow> (\<exists>i. waiting i = Some (k, c)))
      \<and> (\<forall>i j k c c'. waiting i = Some (k, c) \<longrightarrow> waiting j = Some (k, c') \<longrightarrow> i = j))"

lemma wakers_matchD:
  assumes "wakers_match ops d waiting" and "os_value d = None"
  shows "waiting i = Some (k, c) \<Longrightarrow> slab_get ops (os_waker d) k = Some c"
    and "slab_get ops (os_waker d) k = Some c \<Longrightarrow> \<exists>i. waiting i = Some (k, c)"
    and "waiting i = Some (k, c) \<Longrightarrow> waiting j = Some (k, c') \<Longrightarrow> i = j"
  using assms unfolding wakers_match_def by blast+

lemma wakers_matchI:
  assumes "\<And>i k c. waiting i = Some (k, c) \<Longrightarrow> slab_get ops (os_waker d) k = Some c"
    and "\<And>k c. slab_get ops (os_waker d) k = Some c \<Longrightarrow> \<exists>i. waiting i = Some (k, c)"
    and "\<And>i j k c c'. waiting i = Some (k, c) \<Longrightarrow> waiting j = Some (k, c') \<Longrightarrow> i = j"
  shows "wakers_match ops d waiting"
  using assms unfolding wakers_match_def by blast

lemma reach_match:
  assumes laws: "slab_laws ops"
  shows "oneshot_reach ops d waiting \<Longrightarrow> wakers_match ops d waiting"
proof (induction rule: oneshot_reach.induct)
  case start
  then show ?case by (simp add: wakers_match_def oneshot_new_def slab_get_new [OF laws])
next
  case (send d waiting v ks d')
  then show ?case by (auto simp: wakers_match_def oneshot_send_def)
next
  case (pending d waiting i cx key d')
  then have none: "os_value d = None" by (auto simp: oneshot_poll_def split: option.splits)
  note m = wakers_matchD [OF pending.IH none]
  show ?case
  proof (cases "waiting i")
    case None
    then obtain S where S: "slab_insert ops (os_waker d) cx = (key, S)" "d' = d\<lparr>os_waker := S\<rparr>"
      using pending.hyps none by (auto simp: oneshot_poll_def split: prod.splits)
    have new: "waiting j \<noteq> Some (key, c)" for j c using m(1) slab_insert_vacant [OF laws S(1)] by fastforce
    note get = slab_get_insert [OF laws S(1)]
    show ?thesis
    proof (rule wakers_matchI)
      show "\<exists>j. (waiting(i \<mapsto> (key, cx))) j = Some (k, c)" if "slab_get ops (os_waker d') k = Some c" for k c
        using that m(2) [of k c] None by (cases "k = key") (auto simp: S(2) get, metis option.distinct(1))
    qed (use m new in \<open>auto simp: S(2) get split: if_splits\<close>)
  next
    case (Some p)
    then obtain k c where p: "waiting i = Some (k, c)" by (cases p) auto
    note old = m(1) [OF p]
    have d': "key = k" "d' = d\<lparr>os_waker := slab_put ops (os_waker d) k cx\<rparr>"
      using pending.hyps none p old by (auto simp: oneshot_poll_def)
    have own: "waiting j = Some (k, c') \<Longrightarrow> j = i" for j c' using m(3) [of j k c' i c] p by blast
    show ?thesis
    proof (rule wakers_matchI)
      show "\<exists>j. (waiting(i \<mapsto> (key, cx))) j = Some (k', c')" if "slab_get ops (os_waker d') k' = Some c'" for k' c'
        using that m(2) [of k' c'] p by (cases "k' = k") (auto simp: d' slab_get_put [OF laws old], metis option.inject prod.inject)
    qed (use m own in \<open>auto simp: d' slab_get_put [OF laws old] split: if_splits\<close>)
  qed
next
  case (ready d waiting i cx v key d1 d')
  then have "os_value d' \<noteq> None" by (auto simp: oneshot_poll_def waker_guard_drop_def split: option.splits if_splits prod.splits)
  then show ?case by (simp add: wakers_match_def)
next
  case (cancel d waiting i d')
  show ?case
  proof (cases "os_value d = None \<and> waiting i \<noteq> None")
    case True
    then obtain k c where p: "waiting i = Some (k, c)" by (cases "waiting i") auto
    note m = wakers_matchD [OF cancel.IH conjunct1 [OF True]]
    have d': "d' = d\<lparr>os_waker := slab_remove ops (os_waker d) k\<rparr>" using cancel.hyps p by (simp add: waker_guard_drop_def)
    have own: "waiting j = Some (k, c') \<Longrightarrow> j = i" for j c' using m(3) [of j k c' i c] p by blast
    show ?thesis
    proof (rule wakers_matchI)
      show "\<exists>j. (waiting(i := None)) j = Some (k', c')" if "slab_get ops (os_waker d') k' = Some c'" for k' c'
      proof -
        have "k' \<noteq> k" "slab_get ops (os_waker d) k' = Some c'" using that by (auto simp: d' slab_get_remove [OF laws] split: if_splits)
        then obtain j where "waiting j = Some (k', c')" "j \<noteq> i" using m(2) p by fastforce
        then show ?thesis by (intro exI [of _ j]) simp
      qed
    qed (use m own in \<open>auto simp: d' slab_get_remove [OF laws] split: if_splits\<close>)
  next
    case False
    then consider "os_value d \<noteq> None" | "waiting i = None" by (cases "waiting i") auto
    then show ?thesis
    proof cases
      case 1
      then have "os_value d' \<noteq> None" using cancel.hyps by (auto simp: waker_guard_drop_def split: option.splits)
      then show ?thesis by (simp add: wakers_match_def)
    next
      case 2
      then have "d' = d" "waiting(i := None) = waiting" using cancel.hyps by (auto simp: waker_guard_drop_def fun_upd_idem)
      then show ?thesis using cancel.IH by simp
    qed
  qed
qed

text \<open>
  C34. The broadcast wakes every waiting receiver. In every reachable state a poll does not panic; and as long as nothing has been sent, \<open>send\<close> calls exactly the last
  wakers of the waiting futures, each once, after which every poll is answered with the value.
\<close>

theorem oneshot_wakes_all:
  assumes laws: "slab_laws ops" and reach: "oneshot_reach ops d waiting"
  shows "\<not> isl (oneshot_poll ops (map_option fst (waiting i)) cx d)
    \<and> (case os_value d of
         Some v \<Rightarrow> \<exists>key. oneshot_poll ops (map_option fst (waiting i)) cx d = Inr (Some v, key, d)
       | None \<Rightarrow> \<exists>order. distinct order \<and> set order = dom waiting \<and> fst (oneshot_send ops v' d) = map (\<lambda>i. snd (the (waiting i))) order)
    \<and> oneshot_poll ops key' cx (snd (oneshot_send ops v' d)) = Inr (Some v', key', snd (oneshot_send ops v' d))"
proof (cases "os_value d")
  case (Some v)
  then show ?thesis by (simp add: oneshot_poll_def oneshot_send_def)
next
  case None
  note m = wakers_matchD [OF reach_match [OF laws reach] None]
  have "\<not> isl (oneshot_poll ops (map_option fst (waiting i)) cx d)"
    using None m(1) by (cases "waiting i") (auto simp: oneshot_poll_def split: prod.split)
  moreover
  define keys where "keys = slab_keys ops (os_waker d)"
  define owner where "owner k = (THE i. \<exists>c. waiting i = Some (k, c))" for k
  have own: "owner k = i" if "waiting i = Some (k, c)" for i k c
    unfolding owner_def using that m(3) by (intro the_equality) blast+
  have key: "k \<in> set keys \<longleftrightarrow> (\<exists>i c. waiting i = Some (k, c))" for k
    unfolding keys_def slab_keys_iff [OF laws] using m(1,2) by blast
  have inj: "inj_on owner (set keys)" using key own by (intro inj_onI) (metis option.inject prod.inject)
  have "List.map_filter (slab_get ops (os_waker d)) ks = map (\<lambda>i. snd (the (waiting i))) (map owner ks)" if "set ks \<subseteq> set keys" for ks
    using that
  proof (induction ks)
    case (Cons k ks)
    then obtain i c where i: "waiting i = Some (k, c)" using key by auto
    then show ?case using Cons own [OF i] m(1) [OF i] by (simp add: List.map_filter_simps)
  qed (simp add: List.map_filter_simps)
  then have "fst (oneshot_send ops v' d) = map (\<lambda>i. snd (the (waiting i))) (map owner keys)"
    by (simp add: oneshot_send_def keys_def)
  moreover have "distinct (map owner keys)" using inj slab_keys_distinct [OF laws] by (simp add: distinct_map keys_def)
  moreover have "set (map owner keys) = dom waiting"
  proof -
    have "owner ` set keys \<subseteq> dom waiting" using key own by fastforce
    moreover have "dom waiting \<subseteq> owner ` set keys" using key own by (auto simp: image_iff) metis
    ultimately show ?thesis by auto
  qed
  ultimately show ?thesis using None by (auto simp: oneshot_poll_def oneshot_send_def intro!: exI [of _ "map owner keys"])
qed

theorem oneshot_wakes_all_witness:
  "\<exists>d waiting. oneshot_reach vec_slab d waiting \<and> os_value (d :: (nat, nat option list) oneshot) = None \<and> dom waiting = {0, 1}
     \<and> (\<exists>order. distinct order \<and> set order = {0, 1} \<and> fst (oneshot_send vec_slab 5 d) = map (\<lambda>i. snd (the (waiting i))) order)"
proof -
  define d1 where "d1 = (\<lparr>os_value = None, os_waker = [Some 20]\<rparr> :: (nat, nat option list) oneshot)"
  define d2 where "d2 = (\<lparr>os_value = None, os_waker = [Some 20, Some 21]\<rparr> :: (nat, nat option list) oneshot)"
  define W where "W = ((\<lambda>_. None)(0 \<mapsto> (0::nat, 20::nat), 1 \<mapsto> (1, 21)) :: nat \<Rightarrow> _)"
  have s0: "oneshot_reach vec_slab (oneshot_new vec_slab :: (nat, nat option list) oneshot) (\<lambda>_. None)" by (rule oneshot_reach.start)
  have s1: "oneshot_reach vec_slab d1 ((\<lambda>_. None)(0 \<mapsto> (0, 20)))"
    by (rule oneshot_reach.pending [OF s0]) (simp add: oneshot_poll_def oneshot_new_def vec_slab_def vec_insert_def d1_def)
  have s2: "oneshot_reach vec_slab d2 W"
    unfolding W_def by (rule oneshot_reach.pending [OF s1]) (simp add: oneshot_poll_def vec_slab_def vec_insert_def d1_def d2_def)
  have d: "dom W = {0, 1}" by (auto simp: W_def)
  have v: "os_value d2 = None" by (simp add: d2_def)
  have order: "\<exists>order. distinct order \<and> set order = dom W \<and> fst (oneshot_send vec_slab 5 d2) = map (\<lambda>i. snd (the (W i))) order"
    using conjunct1 [OF conjunct2 [OF oneshot_wakes_all [OF vec_slab_laws s2, where v' = 5]]] unfolding v option.case by assumption
  show ?thesis by (rule exI [of _ d2], rule exI [of _ W]) (intro conjI s2 v d order [unfolded d])
qed

end
