(* ===== verification/ISize_Map.thy ===== *)
theory ISize_Map
  imports Prelude
begin

section \<open>Maps from signed indices with a default (utils/isize_map.rs)\<close>

text \<open>
  \<open>ISizeMap<T>\<close> is a deque of values with a signed start index; reading outside the deque gives
  the default, a mutable access first extends the deque on whichever side is needed. The
  locale \<open>int_map\<close> is the interface \<open>Buckets\<close> uses; \<open>ISizeMap\<close> provides it.
\<close>

record 'a isize_map =
  im_start :: int
  im_values :: "'a list"

definition imap_new :: "'a isize_map" where
  "imap_new = \<lparr>im_start = 0, im_values = []\<rparr>"

definition imap_end_index :: "'a isize_map \<Rightarrow> int" where
  "imap_end_index m = im_start m + int (length (im_values m))"

text \<open>\<open>get\<close> and \<open>get_mut\<close>: the value when the index lies in the deque.\<close>

definition imap_get :: "'a isize_map \<Rightarrow> int \<Rightarrow> 'a option" where
  "imap_get m i =
     (if im_start m \<le> i \<and> i - im_start m < int (length (im_values m))
      then Some (im_values m ! nat (i - im_start m)) else None)"

text \<open>\<open>Index::index\<close>: the default outside the deque.\<close>

definition imap_index :: "'a \<Rightarrow> 'a isize_map \<Rightarrow> int \<Rightarrow> 'a" where
  "imap_index d m i =
     (if im_start m \<le> i \<and> i - im_start m < int (length (im_values m))
      then im_values m ! nat (i - im_start m) else d)"

text \<open>The two extension loops of \<open>prepare\<close>.\<close>

function extend_front :: "'a \<Rightarrow> int \<Rightarrow> 'a isize_map \<Rightarrow> 'a isize_map" where
  "extend_front d start m =
     (if start < im_start m
      then extend_front d start \<lparr>im_start = im_start m - 1, im_values = d # im_values m\<rparr>
      else m)"
  by pat_completeness auto
termination
  by (relation "measure (\<lambda>(d, start, m). nat (im_start m - start))") auto

function extend_back :: "'a \<Rightarrow> int \<Rightarrow> 'a isize_map \<Rightarrow> 'a isize_map" where
  "extend_back d lst m =
     (if length (im_values m) \<le> nat (lst - im_start m)
      then extend_back d lst (m\<lparr>im_values := im_values m @ [d]\<rparr>)
      else m)"
  by pat_completeness auto
termination
  by (relation "measure (\<lambda>(d, lst, m). Suc (nat (lst - im_start m)) - length (im_values m))") auto

declare extend_front.simps [simp del] extend_back.simps [simp del]

definition imap_prepare :: "'a \<Rightarrow> int \<Rightarrow> int \<Rightarrow> 'a isize_map \<Rightarrow> 'a isize_map result" where
  "imap_prepare d start lst m =
     (if start \<le> lst then
        let m1 = (if im_values m = [] then \<lparr>im_start = start, im_values = [d]\<rparr> else m)
        in Inr (extend_back d lst (extend_front d start m1))
      else Inl AssertFailed)"

text \<open>
  A mutable access, \<open>IndexMut::index_mut\<close> followed by a write \<open>f\<close>: \<open>prepare\<close>, then
  \<open>get_mut(index).unwrap()\<close>.
\<close>

definition imap_modify :: "'a \<Rightarrow> 'a isize_map \<Rightarrow> int \<Rightarrow> ('a \<Rightarrow> 'a) \<Rightarrow> 'a isize_map result" where
  "imap_modify d m i f =
     res_bind (imap_prepare d i i m) (\<lambda>m1.
       case imap_get m1 i of None \<Rightarrow> Inl UnwrapNone
       | Some x \<Rightarrow> Inr (m1\<lparr>im_values := (im_values m1)[nat (i - im_start m1) := f x]\<rparr>))"

text \<open>A write through \<open>get_mut\<close>, which does nothing outside the deque.\<close>

definition imap_put :: "'a isize_map \<Rightarrow> int \<Rightarrow> 'a \<Rightarrow> 'a isize_map" where
  "imap_put m i x =
     (if im_start m \<le> i \<and> i - im_start m < int (length (im_values m))
      then m\<lparr>im_values := (im_values m)[nat (i - im_start m) := x]\<rparr> else m)"

subsection \<open>The interface\<close>

locale int_map =
  fixes fresh :: 'm
    and lookup :: "'m \<Rightarrow> int \<Rightarrow> 'a"
    and find :: "'m \<Rightarrow> int \<Rightarrow> 'a option"
    and modify :: "'m \<Rightarrow> int \<Rightarrow> ('a \<Rightarrow> 'a) \<Rightarrow> 'm result"
    and put :: "'m \<Rightarrow> int \<Rightarrow> 'a \<Rightarrow> 'm"
    and dflt :: 'a
  assumes lookup_fresh: "lookup fresh i = dflt"
    and lookup_find: "lookup m i = (case find m i of None \<Rightarrow> dflt | Some x \<Rightarrow> x)"
    and modify_total: "\<exists>m'. modify m i f = Inr m'"
    and lookup_modify: "modify m i f = Inr m' \<Longrightarrow>
          lookup m' j = (if j = i then f (lookup m i) else lookup m j)"
    and lookup_put: "find m i = Some y \<Longrightarrow> lookup (put m i x) j = (if j = i then x else lookup m j)"
begin

lemma modify_other: "modify m i f = Inr m' \<Longrightarrow> j \<noteq> i \<Longrightarrow> lookup m' j = lookup m j"
  by (simp add: lookup_modify)

lemma find_None_lookup: "find m i = None \<Longrightarrow> lookup m i = dflt"
  by (simp add: lookup_find)

lemma find_Some_lookup: "find m i = Some x \<Longrightarrow> lookup m i = x"
  by (simp add: lookup_find)

lemma modify_twice:
  assumes "modify m i f = Inr m1" "modify m1 i g = Inr m2" "modify m i (g \<circ> f) = Inr m3"
  shows "lookup m2 j = lookup m3 j"
  using assms by (simp add: lookup_modify)

end

subsection \<open>\<open>ISizeMap\<close> provides it\<close>

lemma imap_index_get: "imap_index d m i = (case imap_get m i of None \<Rightarrow> d | Some x \<Rightarrow> x)"
  by (simp add: imap_index_def imap_get_def)

lemma imap_index_Cons:
  "imap_index d \<lparr>im_start = im_start m - 1, im_values = d # im_values m\<rparr> i = imap_index d m i"
proof (cases "im_start m \<le> i")
  case True
  then have "nat (i - (im_start m - 1)) = Suc (nat (i - im_start m))" by simp
  with True show ?thesis by (simp add: imap_index_def)
qed (simp add: imap_index_def)

lemma imap_index_snoc:
  "imap_index d (m\<lparr>im_values := im_values m @ [d]\<rparr>) i = imap_index d m i"
  by (auto simp: imap_index_def nth_append)

lemma extend_front_index: "imap_index d (extend_front d s m) i = imap_index d m i"
proof (induction d s m rule: extend_front.induct)
  case (1 d s m)
  then show ?case
    by (cases "s < im_start m")
      (simp_all add: extend_front.simps [of d s m] imap_index_Cons)
qed

lemma extend_back_index: "imap_index d (extend_back d l m) i = imap_index d m i"
proof (induction d l m rule: extend_back.induct)
  case (1 d l m)
  then show ?case
    by (cases "length (im_values m) \<le> nat (l - im_start m)")
      (simp_all add: extend_back.simps [of d l m] imap_index_snoc)
qed

lemma extend_front_start: "im_start (extend_front d s m) = min s (im_start m)"
proof (induction d s m rule: extend_front.induct)
  case (1 d s m)
  then show ?case
    by (cases "s < im_start m") (simp_all add: extend_front.simps [of d s m])
qed

lemma extend_back_start: "im_start (extend_back d l m) = im_start m"
proof (induction d l m rule: extend_back.induct)
  case (1 d l m)
  then show ?case
    by (cases "length (im_values m) \<le> nat (l - im_start m)")
      (simp_all add: extend_back.simps [of d l m])
qed

lemma extend_back_covers: "nat (l - im_start m) < length (im_values (extend_back d l m))"
proof (induction d l m rule: extend_back.induct)
  case (1 d l m)
  then show ?case
    by (cases "length (im_values m) \<le> nat (l - im_start m)")
      (simp_all add: extend_back.simps [of d l m])
qed

lemma imap_prepare_ok:
  assumes "start \<le> lst"
  obtains m' where "imap_prepare d start lst m = Inr m'"
    and "im_start m' \<le> start" and "nat (lst - im_start m') < length (im_values m')"
    and "\<And>i. imap_index d m' i = imap_index d m i"
proof
  let ?m1 = "if im_values m = [] then \<lparr>im_start = start, im_values = [d]\<rparr> else m"
  let ?m' = "extend_back d lst (extend_front d start ?m1)"
  show "imap_prepare d start lst m = Inr ?m'"
    using assms by (simp add: imap_prepare_def Let_def)
  show "im_start ?m' \<le> start" by (simp add: extend_back_start extend_front_start)
  show "nat (lst - im_start ?m') < length (im_values ?m')"
    by (simp only: extend_back_start extend_back_covers)
  have "imap_index d ?m1 i = imap_index d m i" for i
    by (auto simp: imap_index_def)
  then show "imap_index d ?m' i = imap_index d m i" for i
    by (simp only: extend_back_index extend_front_index)
qed

lemma imap_put_index:
  assumes "imap_get m i = Some y"
  shows "imap_index d (imap_put m i x) j = (if j = i then x else imap_index d m j)"
proof -
  let ?k = "\<lambda>j. nat (j - im_start m)"
  have i: "im_start m \<le> i" "i - im_start m < int (length (im_values m))"
    using assms by (simp_all add: imap_get_def split: if_splits)
  have put: "imap_put m i x = m\<lparr>im_values := (im_values m)[?k i := x]\<rparr>"
    using i by (simp add: imap_put_def)
  show ?thesis
  proof (cases "im_start m \<le> j \<and> j - im_start m < int (length (im_values m))")
    case True
    then have "?k j < length (im_values m)" and "?k j = ?k i \<longleftrightarrow> j = i"
      using i by linarith+
    with True show ?thesis
      by (simp only: imap_index_def put isize_map.simps length_list_update) auto
  next
    case False
    with i have "j \<noteq> i" by blast
    with False show ?thesis
      by (simp only: imap_index_def put isize_map.simps length_list_update) auto
  qed
qed

lemma imap_modify_ok:
  obtains m' where "imap_modify d m i f = Inr m'"
    and "\<And>j. imap_index d m' j = (if j = i then f (imap_index d m i) else imap_index d m j)"
proof -
  obtain m1 where m1: "imap_prepare d i i m = Inr m1" "im_start m1 \<le> i"
    "nat (i - im_start m1) < length (im_values m1)"
    "\<And>j. imap_index d m1 j = imap_index d m j"
  proof (rule imap_prepare_ok [OF order_refl [of i], of d m])
  qed (rule that)
  have get: "imap_get m1 i = Some (imap_index d m i)"
  proof -
    have "i - im_start m1 < int (length (im_values m1))" using m1(2,3) by linarith
    with m1(2) have "imap_get m1 i = Some (imap_index d m1 i)"
      by (simp only: imap_get_def imap_index_def if_True simp_thms)
    then show ?thesis by (simp only: m1(4))
  qed
  moreover from get have "im_start m1 \<le> i \<and> i - im_start m1 < int (length (im_values m1))"
    by (simp only: imap_get_def option.distinct split: if_splits)
  ultimately have "imap_modify d m i f = Inr (imap_put m1 i (f (imap_index d m i)))"
    using m1(1) by (simp only: imap_modify_def imap_put_def res_bind_Inr option.case simp_thms if_True)
  then show ?thesis
    using that imap_put_index [OF get] m1(4) by simp
qed

interpretation im: int_map imap_new "imap_index d" imap_get "imap_modify d" imap_put d for d
proof
  fix m :: "'a isize_map" and i j f m'
  show "\<exists>m'. imap_modify d m i f = Inr m'"
    using imap_modify_ok by metis
  show "imap_modify d m i f = Inr m' \<Longrightarrow>
      imap_index d m' j = (if j = i then f (imap_index d m i) else imap_index d m j)"
    using imap_modify_ok [of d m i f] by (metis sum.inject(2))
qed (simp_all add: imap_index_get imap_put_index flip: imap_index_get,
    auto simp: imap_new_def imap_index_def)

end
