(* ===== verification/Bucket_Queue.thy ===== *)
theory Bucket_Queue
  imports ISize_Map
begin

section \<open>Phase-indexed FIFO queues (utils/buckets.rs)\<close>

text \<open>
  \<open>Buckets<T>\<close> keeps one FIFO queue per signed id and the range \<open>start..=last\<close> outside which
  every queue is empty. \<open>isize::MAX\<close> and \<open>isize::MIN\<close> mark the empty range. The state is read
  through \<open>bk_queue\<close>, the function from ids to queues. The invariant \<open>bk_inv\<close> says that the range
  is tight; the callers' ids are \<open>i8\<close> values, so the range never reaches the sentinels.
\<close>

definition isize_max :: int where "isize_max = 2 ^ 63 - 1"
definition isize_min :: int where "isize_min = - (2 ^ 63)"

record 'a buckets =
  bk_map :: "'a list isize_map"
  bk_start :: int
  bk_last :: int

definition bk_new :: "'a buckets" where
  "bk_new = \<lparr>bk_map = imap_new, bk_start = isize_max, bk_last = isize_min\<rparr>"

definition bk_is_empty :: "'a buckets \<Rightarrow> bool" where
  "bk_is_empty b \<longleftrightarrow> bk_start b = isize_max"

definition bk_set_empty :: "'a buckets \<Rightarrow> 'a buckets" where
  "bk_set_empty b = b\<lparr>bk_start := isize_max, bk_last := isize_min\<rparr>"

definition bk_queue :: "'a buckets \<Rightarrow> int \<Rightarrow> 'a list" where
  "bk_queue b i = imap_index [] (bk_map b) i"

definition bk_ids :: "'a buckets \<Rightarrow> int list" where
  "bk_ids b = filter (\<lambda>i. imap_index [] (bk_map b) i \<noteq> []) [bk_start b .. bk_last b]"

definition bk_push :: "int \<Rightarrow> 'a \<Rightarrow> 'a buckets \<Rightarrow> 'a buckets result" where
  "bk_push i x b =
     res_bind (imap_modify [] (bk_map b) i (\<lambda>q. q @ [x])) (\<lambda>m.
       Inr \<lparr>bk_map = m, bk_start = min (bk_start b) i, bk_last = max (bk_last b) i\<rparr>)"

text \<open>The two loops of \<open>update_bounds\<close>.\<close>

function raise_start :: "'a buckets \<Rightarrow> 'a buckets" where
  "raise_start b =
     (if bk_start b \<le> bk_last b \<and> imap_index [] (bk_map b) (bk_start b) = []
      then raise_start (b\<lparr>bk_start := bk_start b + 1\<rparr>) else b)"
  by pat_completeness auto
termination
  by (relation "measure (\<lambda>b. nat (bk_last b + 1 - bk_start b))") auto

function lower_last :: "'a buckets \<Rightarrow> 'a buckets" where
  "lower_last b =
     (if bk_start b \<le> bk_last b \<and> imap_index [] (bk_map b) (bk_last b) = []
      then lower_last (b\<lparr>bk_last := bk_last b - 1\<rparr>) else b)"
  by pat_completeness auto
termination
  by (relation "measure (\<lambda>b. nat (bk_last b + 1 - bk_start b))") auto

declare raise_start.simps [simp del] lower_last.simps [simp del]

definition bk_update_bounds :: "int \<Rightarrow> 'a buckets \<Rightarrow> 'a buckets" where
  "bk_update_bounds emptied b =
     (let b1 = (if bk_start b = emptied then raise_start b else b);
          b2 = (if bk_last b1 = emptied then lower_last b1 else b1)
      in if bk_start b2 > bk_last b2 then bk_set_empty b2 else b2)"

definition bk_pop_front :: "int \<Rightarrow> 'a buckets \<Rightarrow> 'a option \<times> 'a buckets" where
  "bk_pop_front i b =
     (case imap_get (bk_map b) i of
        None \<Rightarrow> (None, b)
      | Some [] \<Rightarrow> (None, b)
      | Some (x # q) \<Rightarrow> (Some x, bk_update_bounds i (b\<lparr>bk_map := imap_put (bk_map b) i q\<rparr>)))"

text \<open>Emptying one bucket into \<open>to\<close>, when the map has it.\<close>

definition drain_bucket :: "int \<Rightarrow> 'a list \<times> 'a list isize_map \<Rightarrow> 'a list \<times> 'a list isize_map" where
  "drain_bucket i = (\<lambda>(out, m).
     case imap_get m i of None \<Rightarrow> (out, m) | Some q \<Rightarrow> (out @ q, imap_put m i []))"

definition bk_drain :: "int option \<Rightarrow> 'a list \<Rightarrow> 'a buckets \<Rightarrow> 'a list \<times> 'a buckets" where
  "bk_drain opt out b =
     (case opt of
        Some i \<Rightarrow> (let (out', m) = drain_bucket i (out, bk_map b)
                  in (out', bk_update_bounds i (b\<lparr>bk_map := m\<rparr>)))
      | None \<Rightarrow> (let (out', m) = fold drain_bucket [bk_start b .. bk_last b] (out, bk_map b)
                in (out', bk_set_empty (b\<lparr>bk_map := m\<rparr>))))"

subsection \<open>Invariant\<close>

definition phase_id :: "int \<Rightarrow> bool" where
  "phase_id i \<longleftrightarrow> - 128 \<le> i \<and> i \<le> 127"

text \<open>
  Either no queue has an item and the range is the sentinel, or the two ends of the range are
  ids of non-empty queues and all non-empty queues lie between them.
\<close>

definition bk_inv :: "'a buckets \<Rightarrow> bool" where
  "bk_inv b \<longleftrightarrow>
     (if bk_start b = isize_max then bk_last b = isize_min \<and> (\<forall>i. bk_queue b i = [])
      else phase_id (bk_start b) \<and> phase_id (bk_last b) \<and> bk_start b \<le> bk_last b
         \<and> bk_queue b (bk_start b) \<noteq> [] \<and> bk_queue b (bk_last b) \<noteq> []
         \<and> (\<forall>i. bk_queue b i \<noteq> [] \<longrightarrow> bk_start b \<le> i \<and> i \<le> bk_last b))"

lemma phase_id_not_sentinel: "phase_id i \<Longrightarrow> i \<noteq> isize_max \<and> i \<noteq> isize_min \<and> i < isize_max \<and> isize_min < i"
  by (simp add: phase_id_def isize_max_def isize_min_def)

lemma bk_queue_simps [simp]:
  "bk_queue (bk_set_empty b) = bk_queue b"
  "bk_queue (b\<lparr>bk_start := s\<rparr>) = bk_queue b"
  "bk_queue (b\<lparr>bk_last := l\<rparr>) = bk_queue b"
  by (simp_all add: bk_queue_def bk_set_empty_def fun_eq_iff)

lemma bk_new_queue [simp]: "bk_queue bk_new i = []"
  by (simp add: bk_queue_def bk_new_def im.lookup_fresh)

lemma bk_new_inv: "bk_inv bk_new"
  by (simp add: bk_inv_def) (simp add: bk_new_def)

lemma bk_inv_is_empty: "bk_inv b \<Longrightarrow> bk_is_empty b \<longleftrightarrow> (\<forall>i. bk_queue b i = [])"
  by (auto simp: bk_inv_def bk_is_empty_def split: if_splits)

lemma bk_inv_ids:
  assumes "bk_inv b"
  shows "i \<in> set (bk_ids b) \<longleftrightarrow> bk_queue b i \<noteq> []"
  using assms by (auto simp: bk_inv_def bk_ids_def bk_queue_def isize_max_def isize_min_def split: if_splits)

lemma bk_ids_phase: "bk_inv b \<Longrightarrow> i \<in> set (bk_ids b) \<Longrightarrow> phase_id i"
  by (auto simp: bk_inv_def bk_ids_def phase_id_def isize_max_def isize_min_def split: if_splits)

lemma bk_ids_sorted: "sorted (bk_ids b)" "distinct (bk_ids b)"
  by (simp_all add: bk_ids_def sorted_wrt_filter)

subsection \<open>push\<close>

lemma bk_push_ok:
  obtains b' where "bk_push i x b = Inr b'"
    and "bk_queue b' = (bk_queue b)(i := bk_queue b i @ [x])"
    and "bk_start b' = min (bk_start b) i" and "bk_last b' = max (bk_last b) i"
proof -
  obtain m' where m': "imap_modify [] (bk_map b) i (\<lambda>q. q @ [x]) = Inr m'"
    using im.modify_total [of "[]" "bk_map b" i "\<lambda>q. q @ [x]"] by auto
  let ?b' = "\<lparr>bk_map = m', bk_start = min (bk_start b) i, bk_last = max (bk_last b) i\<rparr>"
  have "bk_queue ?b' = (bk_queue b)(i := bk_queue b i @ [x])"
    using im.lookup_modify [OF m'] by (auto simp: bk_queue_def)
  then show ?thesis using that [of ?b'] m' by (simp add: bk_push_def)
qed

lemma bk_push_inv:
  assumes inv: "bk_inv b" and i: "phase_id i" and push: "bk_push i x b = Inr b'"
  shows "bk_inv b'"
proof -
  have q: "bk_queue b' = (bk_queue b)(i := bk_queue b i @ [x])"
    and s: "bk_start b' = min (bk_start b) i" and l: "bk_last b' = max (bk_last b) i"
    using bk_push_ok [of i x b] push by auto
  show ?thesis
  proof (cases "bk_start b = isize_max")
    case True
    with inv have e: "bk_last b = isize_min" "\<And>j. bk_queue b j = []"
      by (simp_all add: bk_inv_def)
    then have "bk_start b' = i" "bk_last b' = i"
      using s l True phase_id_not_sentinel [OF i] by simp_all
    then show ?thesis using q e i phase_id_not_sentinel [OF i] by (simp add: bk_inv_def)
  next
    case False
    then have "phase_id (bk_start b')" "phase_id (bk_last b')"
      using inv i s l by (auto simp: bk_inv_def min_def max_def)
    then show ?thesis
      using inv False s l q phase_id_not_sentinel
      by (auto simp: bk_inv_def min_def max_def split: if_splits)
  qed
qed

subsection \<open>Shrinking the range\<close>

lemma raise_start_map [simp]: "bk_map (raise_start b) = bk_map b" "bk_last (raise_start b) = bk_last b"
proof (induction b rule: raise_start.induct)
  case (1 b)
  {
    case 1
    from "1.IH" show ?case by (subst raise_start.simps) simp
  next
    case 2
    from "1.IH" show ?case by (subst raise_start.simps) simp
  }
qed

lemma raise_start_spec:
  "(bk_start (raise_start b) > bk_last b \<or> bk_queue b (bk_start (raise_start b)) \<noteq> [])
   \<and> bk_start b \<le> bk_start (raise_start b)
   \<and> (\<forall>i. bk_start b \<le> i \<and> i < bk_start (raise_start b) \<longrightarrow> bk_queue b i = [])"
proof (induction b rule: raise_start.induct)
  case (1 b)
  show ?case
  proof (cases "bk_start b \<le> bk_last b \<and> imap_index [] (bk_map b) (bk_start b) = []")
    case True
    let ?c = "b\<lparr>bk_start := bk_start b + 1\<rparr>"
    have eq: "raise_start b = raise_start ?c" using True by (subst raise_start.simps) simp
    have "i = bk_start b \<or> bk_start b + 1 \<le> i" if "bk_start b \<le> i" for i using that by linarith
    then show ?thesis using 1 [OF True] True unfolding eq
      by (auto simp: bk_queue_def)
  next
    case False
    then have "raise_start b = b" by (subst raise_start.simps) (simp only: if_False)
    then show ?thesis using False by (auto simp: bk_queue_def)
  qed
qed

lemma lower_last_map [simp]: "bk_map (lower_last b) = bk_map b" "bk_start (lower_last b) = bk_start b"
proof (induction b rule: lower_last.induct)
  case (1 b)
  {
    case 1
    from "1.IH" show ?case by (subst lower_last.simps) simp
  next
    case 2
    from "1.IH" show ?case by (subst lower_last.simps) simp
  }
qed

lemma lower_last_spec:
  "(bk_start b > bk_last (lower_last b) \<or> bk_queue b (bk_last (lower_last b)) \<noteq> [])
   \<and> bk_last (lower_last b) \<le> bk_last b
   \<and> (\<forall>i. bk_last (lower_last b) < i \<and> i \<le> bk_last b \<longrightarrow> bk_queue b i = [])"
proof (induction b rule: lower_last.induct)
  case (1 b)
  show ?case
  proof (cases "bk_start b \<le> bk_last b \<and> imap_index [] (bk_map b) (bk_last b) = []")
    case True
    let ?c = "b\<lparr>bk_last := bk_last b - 1\<rparr>"
    have eq: "lower_last b = lower_last ?c" using True by (subst lower_last.simps) simp
    have "i = bk_last b \<or> i \<le> bk_last b - 1" if "i \<le> bk_last b" for i using that by linarith
    then show ?thesis using 1 [OF True] True unfolding eq
      by (auto simp: bk_queue_def)
  next
    case False
    then have "lower_last b = b" by (subst lower_last.simps) (simp only: if_False)
    then show ?thesis using False by (auto simp: bk_queue_def)
  qed
qed

lemma bk_update_bounds_queue [simp]: "bk_queue (bk_update_bounds i b) = bk_queue b"
  by (simp add: bk_update_bounds_def Let_def bk_queue_def fun_eq_iff bk_set_empty_def)

text \<open>
  A state whose range is right except that the queue \<open>i\<close> may just have been emptied: after
  \<open>update_bounds i\<close> the invariant holds again.
\<close>

definition bk_nearly :: "int \<Rightarrow> 'a buckets \<Rightarrow> bool" where
  "bk_nearly i b \<longleftrightarrow>
     phase_id (bk_start b) \<and> phase_id (bk_last b)
   \<and> (bk_start b = i \<or> bk_queue b (bk_start b) \<noteq> []) \<and> (bk_last b = i \<or> bk_queue b (bk_last b) \<noteq> [])
   \<and> (\<forall>j. bk_queue b j \<noteq> [] \<longrightarrow> bk_start b \<le> j \<and> j \<le> bk_last b)"

lemma bk_update_bounds_inv:
  assumes "bk_nearly i b" and "bk_start b \<le> bk_last b"
  shows "bk_inv (bk_update_bounds i b)"
proof -
  define b1 where "b1 = (if bk_start b = i then raise_start b else b)"
  define b2 where "b2 = (if bk_last b1 = i then lower_last b1 else b1)"
  have q1: "bk_queue b1 = bk_queue b" and q2: "bk_queue b2 = bk_queue b1"
    by (simp_all add: b1_def b2_def bk_queue_def fun_eq_iff)
  have l1: "bk_last b1 = bk_last b" and s2: "bk_start b2 = bk_start b1"
    by (simp_all add: b1_def b2_def)
  have s1: "bk_start b1 > bk_last b1 \<or> bk_queue b (bk_start b1) \<noteq> []"
    "bk_start b \<le> bk_start b1" "\<And>j. bk_start b \<le> j \<Longrightarrow> j < bk_start b1 \<Longrightarrow> bk_queue b j = []"
    using raise_start_spec [of b] assms(1) unfolding b1_def bk_nearly_def
    by (cases "bk_start b = i"; simp; blast)+
  have l2: "bk_start b2 > bk_last b2 \<or> bk_queue b (bk_last b2) \<noteq> []"
    "bk_last b2 \<le> bk_last b1" "\<And>j. bk_last b2 < j \<Longrightarrow> j \<le> bk_last b1 \<Longrightarrow> bk_queue b j = []"
    using lower_last_spec [of b1] assms(1) l1 q1 unfolding b2_def bk_nearly_def
    by (cases "bk_last b1 = i"; simp; blast)+
  have within: "bk_queue b j \<noteq> [] \<Longrightarrow> bk_start b2 \<le> j \<and> j \<le> bk_last b2" for j
    using assms s1(3) [of j] l2(3) [of j] l1 s2 by (force simp: bk_nearly_def not_less)
  have upd: "bk_update_bounds i b = (if bk_start b2 > bk_last b2 then bk_set_empty b2 else b2)"
    by (simp add: bk_update_bounds_def Let_def b1_def b2_def)
  show ?thesis
  proof (cases "bk_start b2 > bk_last b2")
    case True
    then have "bk_queue b j = []" for j using within [of j] by fastforce
    then show ?thesis using True upd q1 q2
      by (simp add: bk_inv_def) (simp add: bk_set_empty_def)
  next
    case False
    have "bk_queue b (bk_start b2) \<noteq> []" using False s1(1) s2 l2(2) by auto
    moreover have "bk_queue b (bk_last b2) \<noteq> []" using False l2(1) by auto
    moreover have "phase_id (bk_start b2)" "phase_id (bk_last b2)"
      using assms s1(2) l2(2) l1 s2 False by (auto simp: bk_nearly_def phase_id_def)
    ultimately show ?thesis
      using False upd q1 q2 within phase_id_not_sentinel [of "bk_start b2"]
      by (simp add: bk_inv_def)
  qed
qed

lemma bk_update_bounds_unchanged:
  assumes "bk_inv b" and "bk_queue b i = []" and "phase_id i"
  shows "bk_update_bounds i b = b"
proof (cases "bk_start b = isize_max")
  case True
  with assms have "bk_last b = isize_min" by (simp add: bk_inv_def)
  with True assms(3) show ?thesis
    using phase_id_not_sentinel [OF assms(3)]
    by (auto simp: bk_update_bounds_def Let_def bk_set_empty_def isize_max_def isize_min_def
        intro!: buckets.equality)
next
  case False
  with assms have "bk_start b \<noteq> i" "bk_last b \<noteq> i" "bk_start b \<le> bk_last b"
    by (auto simp: bk_inv_def)
  then show ?thesis by (simp add: bk_update_bounds_def Let_def)
qed

subsection \<open>pop\_front and drain\<close>

text \<open>Writing the queue of an id the map has.\<close>

lemma bk_put_queue:
  assumes "imap_get (bk_map b) i = Some q0"
  shows "bk_queue (b\<lparr>bk_map := imap_put (bk_map b) i q\<rparr>) = (bk_queue b)(i := q)"
  using assms by (auto simp: bk_queue_def im.lookup_put)

lemma bk_shrunk_nearly:
  assumes "bk_inv b" and "bk_queue b i \<noteq> []" and "bk_queue b' = (bk_queue b)(i := q)"
    and "bk_start b' = bk_start b" and "bk_last b' = bk_last b"
  shows "bk_nearly i b' \<and> bk_start b' \<le> bk_last b'"
  using assms by (auto simp: bk_nearly_def bk_inv_def split: if_splits)

lemma bk_pop_front_spec:
  assumes inv: "bk_inv b"
  shows "bk_pop_front i b = (case bk_queue b i of [] \<Rightarrow> (None, b)
           | x # q \<Rightarrow> (Some x, snd (bk_pop_front i b)))"
    and "bk_queue (snd (bk_pop_front i b)) = (bk_queue b)(i := tl (bk_queue b i))"
    and "bk_inv (snd (bk_pop_front i b))"
proof -
  let ?R = "bk_pop_front i b"
  have "?R = (case bk_queue b i of [] \<Rightarrow> (None, b) | x # q \<Rightarrow> (Some x, snd ?R))
     \<and> bk_queue (snd ?R) = (bk_queue b)(i := tl (bk_queue b i)) \<and> bk_inv (snd ?R)"
  proof (cases "imap_get (bk_map b) i")
    case None
    then have "bk_queue b i = []" by (simp add: bk_queue_def im.find_None_lookup)
    with None inv show ?thesis by (simp add: bk_pop_front_def fun_upd_idem)
  next
    case (Some q0)
    then have q0: "bk_queue b i = q0" by (simp add: bk_queue_def im.find_Some_lookup)
    show ?thesis
    proof (cases q0)
      case Nil
      with Some q0 inv show ?thesis by (simp add: bk_pop_front_def fun_upd_idem)
    next
      case (Cons x q)
      let ?b = "b\<lparr>bk_map := imap_put (bk_map b) i q\<rparr>"
      have bq: "bk_queue ?b = (bk_queue b)(i := q)" by (rule bk_put_queue [OF Some])
      have "bk_nearly i ?b \<and> bk_start ?b \<le> bk_last ?b"
        by (rule bk_shrunk_nearly [OF inv _ bq]) (simp_all add: q0 Cons)
      then have "bk_inv (bk_update_bounds i ?b)" by (simp add: bk_update_bounds_inv)
      then show ?thesis using Some Cons q0 bq by (simp add: bk_pop_front_def)
    qed
  qed
  then show "?R = (case bk_queue b i of [] \<Rightarrow> (None, b) | x # q \<Rightarrow> (Some x, snd ?R))"
    and "bk_queue (snd ?R) = (bk_queue b)(i := tl (bk_queue b i))" and "bk_inv (snd ?R)"
    by blast+
qed

lemma drain_bucket_spec:
  "fst (drain_bucket i (out, m)) = out @ imap_index [] m i"
  "imap_index [] (snd (drain_bucket i (out, m))) j = (if j = i then [] else imap_index [] m j)"
  by (auto simp: drain_bucket_def im.find_None_lookup im.find_Some_lookup im.lookup_put split: option.splits)

lemma fold_drain_bucket:
  assumes "distinct ids"
  shows "fst (fold drain_bucket ids (out, m)) = out @ concat (map (imap_index [] m) ids)
    \<and> (\<forall>j. imap_index [] (snd (fold drain_bucket ids (out, m))) j
          = (if j \<in> set ids then [] else imap_index [] m j))"
  using assms
proof (induction ids arbitrary: out m)
  case (Cons i ids)
  obtain out1 m1 where d: "drain_bucket i (out, m) = (out1, m1)" by force
  then have o1: "out1 = out @ imap_index [] m i"
    and m1: "\<And>j. imap_index [] m1 j = (if j = i then [] else imap_index [] m j)"
    using drain_bucket_spec [of i out m] by simp_all
  have mm: "map (imap_index [] m1) ids = map (imap_index [] m) ids"
    using Cons.prems m1 by auto
  have ih: "fst (fold drain_bucket ids (out1, m1)) = out1 @ concat (map (imap_index [] m1) ids)"
    "\<And>j. imap_index [] (snd (fold drain_bucket ids (out1, m1))) j
          = (if j \<in> set ids then [] else imap_index [] m1 j)"
    using Cons.IH [of out1 m1] Cons.prems by simp_all
  have "fst (fold drain_bucket (i # ids) (out, m)) = out @ concat (map (imap_index [] m) (i # ids))"
    using ih(1) unfolding mm by (simp add: d o1)
  moreover have "imap_index [] (snd (fold drain_bucket (i # ids) (out, m))) j
      = (if j \<in> set (i # ids) then [] else imap_index [] m j)" for j
    using ih(2) [of j] by (simp add: d m1)
  ultimately show ?case by blast
qed simp

lemma bk_drain_one:
  assumes inv: "bk_inv b" and i: "phase_id i"
  shows "fst (bk_drain (Some i) out b) = out @ bk_queue b i"
    and "bk_queue (snd (bk_drain (Some i) out b)) = (bk_queue b)(i := [])"
    and "bk_inv (snd (bk_drain (Some i) out b))"
proof -
  obtain out' m' where d: "drain_bucket i (out, bk_map b) = (out', m')" by force
  let ?b = "b\<lparr>bk_map := m'\<rparr>"
  have q: "bk_queue ?b = (bk_queue b)(i := [])"
    using drain_bucket_spec(2) [of i out "bk_map b"] d by (auto simp: bk_queue_def)
  show "fst (bk_drain (Some i) out b) = out @ bk_queue b i"
    using drain_bucket_spec(1) [of i out "bk_map b"] d by (simp add: bk_drain_def bk_queue_def)
  show "bk_queue (snd (bk_drain (Some i) out b)) = (bk_queue b)(i := [])"
    using d q by (simp add: bk_drain_def)
  have "bk_inv (bk_update_bounds i ?b)"
  proof (cases "bk_queue b i = []")
    case True
    then have "bk_queue ?b = bk_queue b" using q by (simp add: fun_upd_idem)
    then have "bk_inv ?b" using inv by (simp add: bk_inv_def)
    then show ?thesis using bk_update_bounds_unchanged [OF _ _ i, of ?b] q by simp
  next
    case False
    have "bk_nearly i ?b \<and> bk_start ?b \<le> bk_last ?b"
      by (rule bk_shrunk_nearly [OF inv False q]) simp_all
    then show ?thesis by (simp add: bk_update_bounds_inv)
  qed
  then show "bk_inv (snd (bk_drain (Some i) out b))" using d by (simp add: bk_drain_def)
qed

lemma bk_drain_all:
  assumes inv: "bk_inv b"
  shows "fst (bk_drain None out b) = out @ concat (map (bk_queue b) (bk_ids b))"
    and "bk_queue (snd (bk_drain None out b)) = (\<lambda>_. [])"
    and "bk_inv (snd (bk_drain None out b))"
proof -
  let ?ids = "[bk_start b .. bk_last b]"
  obtain out' m' where d: "fold drain_bucket ?ids (out, bk_map b) = (out', m')" by force
  have o: "out' = out @ concat (map (imap_index [] (bk_map b)) ?ids)"
    and m: "\<And>j. imap_index [] m' j = (if j \<in> set ?ids then [] else imap_index [] (bk_map b) j)"
    using fold_drain_bucket [of ?ids out "bk_map b"] d by (simp_all del: set_upto)
  have "concat (map (imap_index [] (bk_map b)) xs)
      = concat (map (imap_index [] (bk_map b)) (filter (\<lambda>i. imap_index [] (bk_map b) i \<noteq> []) xs))" for xs
    by (induction xs) auto
  then show "fst (bk_drain None out b) = out @ concat (map (bk_queue b) (bk_ids b))"
    using d o by (simp add: bk_drain_def bk_ids_def bk_queue_def [abs_def])
  have "imap_index [] m' j = []" for j
    using inv m [of j] by (auto simp: bk_inv_def bk_queue_def split: if_splits)
  then have q: "bk_queue (snd (bk_drain None out b)) j = []" for j
    using d by (simp add: bk_drain_def bk_queue_def bk_set_empty_def)
  then show "bk_queue (snd (bk_drain None out b)) = (\<lambda>_. [])" by (simp add: fun_eq_iff)
  show "bk_inv (snd (bk_drain None out b))"
    using q d by (simp add: bk_inv_def bk_drain_def) (simp add: bk_set_empty_def)
qed

end
