(* ===== verification/Bucket_Properties.thy ===== *)
theory Bucket_Properties
  imports Bucket_Queue "HOL-Library.Multiset"
begin

section \<open>The bucket queue is a queue that is sorted stably\<close>

text \<open>
  The abstract queue is the list of the items with their phases, in the order of the pushes. Draining a phase takes its items in
  that order; draining everything sorts the list by phase, stably.
\<close>

datatype 'a queue_op = QPush int 'a | QPop int | QDrain "int option"

fun queue_do :: "'a queue_op \<Rightarrow> 'a buckets \<Rightarrow> ('a list \<times> 'a buckets) result" where
  "queue_do (QPush i x) b = res_bind (bk_push i x b) (\<lambda>b1. Inr ([], b1))"
| "queue_do (QPop i) b = (let (x, b1) = bk_pop_front i b in Inr (case x of None \<Rightarrow> [] | Some x \<Rightarrow> [x], b1))"
| "queue_do (QDrain opt) b = Inr (bk_drain opt [] b)"

fun queue_run :: "'a queue_op list \<Rightarrow> 'a buckets \<Rightarrow> ('a list list \<times> 'a buckets) result" where
  "queue_run [] b = Inr ([], b)"
| "queue_run (c # cs) b = res_bind (queue_do c b) (\<lambda>(out, b1). res_bind (queue_run cs b1) (\<lambda>(outs, b2). Inr (out # outs, b2)))"

primrec remove_phase :: "int \<Rightarrow> (int \<times> 'a) list \<Rightarrow> (int \<times> 'a) list" where
  "remove_phase i [] = []"
| "remove_phase i (p # ps) = (if fst p = i then ps else p # remove_phase i ps)"

definition of_phase :: "int \<Rightarrow> (int \<times> 'a) list \<Rightarrow> 'a list" where
  "of_phase i l = map snd (filter (\<lambda>p. fst p = i) l)"

fun spec_do :: "'a queue_op \<Rightarrow> (int \<times> 'a) list \<Rightarrow> 'a list \<times> (int \<times> 'a) list" where
  "spec_do (QPush i x) l = ([], l @ [(i, x)])"
| "spec_do (QPop i) l = (take 1 (of_phase i l), remove_phase i l)"
| "spec_do (QDrain (Some i)) l = (of_phase i l, filter (\<lambda>p. fst p \<noteq> i) l)"
| "spec_do (QDrain None) l = (map snd (sort_key fst l), [])"

fun spec_run :: "'a queue_op list \<Rightarrow> (int \<times> 'a) list \<Rightarrow> 'a list list \<times> (int \<times> 'a) list" where
  "spec_run [] l = ([], l)"
| "spec_run (c # cs) l = (let (out, l1) = spec_do c l; (outs, l2) = spec_run cs l1 in (out # outs, l2))"

fun op_phase :: "'a queue_op \<Rightarrow> bool" where
  "op_phase (QPush i x) = phase_id i"
| "op_phase (QPop i) = phase_id i"
| "op_phase (QDrain opt) = (case opt of None \<Rightarrow> True | Some i \<Rightarrow> phase_id i)"

definition bk_abs :: "'a buckets \<Rightarrow> (int \<times> 'a) list \<Rightarrow> bool" where
  "bk_abs b l \<longleftrightarrow> bk_inv b \<and> bk_queue b = (\<lambda>i. of_phase i l)"

lemma of_phase_simps [simp]:
  "of_phase i [] = []" "of_phase i (l @ [(j, x)]) = (if i = j then of_phase i l @ [x] else of_phase i l)"
  "of_phase i (filter (\<lambda>p. fst p \<noteq> j) l) = (if i = j then [] else of_phase i l)"
  by (auto simp: of_phase_def filter_empty_conv intro!: arg_cong [where f = "map snd"] filter_cong)

lemma of_phase_remove: "of_phase i (remove_phase j l) = (if i = j then tl (of_phase i l) else of_phase i l)"
  by (induction l) (auto simp: of_phase_def)

lemma of_phase_sorted:
  assumes "sorted ids" and "distinct ids" and "\<And>p. p \<in> set l \<Longrightarrow> fst p \<in> set ids"
  shows "concat (map (\<lambda>i. filter (\<lambda>p. fst p = i) l) ids) = sort_key fst l"
proof (rule sym, rule properties_for_sort_key)
  show "mset (concat (map (\<lambda>i. filter (\<lambda>p. fst p = i) l) ids)) = mset l"
    using assms(2,3)
  proof (induction ids arbitrary: l)
    case (Cons i ids)
    let ?l = "filter (\<lambda>p. fst p \<noteq> i) l"
    have "filter (\<lambda>p. fst p = j) l = filter (\<lambda>p. fst p = j) ?l" if "j \<in> set ids" for j
      using that Cons.prems(1) by (auto intro: filter_cong)
    then have eq: "map (\<lambda>j. filter (\<lambda>p. fst p = j) l) ids = map (\<lambda>j. filter (\<lambda>p. fst p = j) ?l) ids" by (intro map_cong refl)
    have "mset (concat (map (\<lambda>j. filter (\<lambda>p. fst p = j) ?l) ids)) = mset ?l"
      by (rule Cons.IH) (use Cons.prems in auto)
    then have "mset (concat (map (\<lambda>i. filter (\<lambda>p. fst p = i) l) (i # ids))) = mset (filter (\<lambda>p. fst p = i) l) + mset ?l"
      by (simp only: list.map concat.simps mset_append eq)
    then show ?case by (simp flip: multiset_partition)
  next
    case Nil
    then show ?case by (cases l) auto
  qed
next
  fix p assume "p \<in> set (concat (map (\<lambda>i. filter (\<lambda>p. fst p = i) l) ids))"
  show "filter (\<lambda>q. fst p = fst q) (concat (map (\<lambda>i. filter (\<lambda>p. fst p = i) l) ids)) = filter (\<lambda>q. fst p = fst q) l"
  proof -
    have "filter (\<lambda>q. fst p = fst q) (concat (map (\<lambda>i. filter (\<lambda>p. fst p = i) l) js)) = (if fst p \<in> set js then filter (\<lambda>q. fst p = fst q) l else [])"
      if "distinct js" for js
      using that by (induction js) (auto simp: filter_empty_conv intro!: filter_cong)
    moreover have "fst p \<in> set ids" using \<open>p \<in> _\<close> by auto
    ultimately show ?thesis using assms(2) by simp
  qed
next
  show "sorted (map fst (concat (map (\<lambda>i. filter (\<lambda>p. fst p = i) l) ids)))"
  proof -
    have "sorted (map fst (filter (\<lambda>p. fst p = i) l))" for i by (induction l) auto
    then show ?thesis using assms(1) by (induction ids) (auto simp: sorted_append)
  qed
qed

lemma drain_all_sorts:
  assumes "bk_abs b l"
  shows "fst (bk_drain None [] b) = map snd (sort_key fst l)"
proof -
  have inv: "bk_inv b" and q: "bk_queue b = (\<lambda>i. of_phase i l)" using assms by (simp_all add: bk_abs_def)
  note bk_ids_sorted [of b]
  moreover have "fst p \<in> set (bk_ids b)" if "p \<in> set l" for p
    using that bk_inv_ids [OF inv] by (auto simp: q of_phase_def filter_empty_conv)
  ultimately have "concat (map (\<lambda>i. filter (\<lambda>p. fst p = i) l) (bk_ids b)) = sort_key fst l" by (rule of_phase_sorted)
  then have "map snd (sort_key fst l) = concat (map (bk_queue b) (bk_ids b))" by (auto simp: q of_phase_def map_concat comp_def simp flip: \<open>_ = sort_key fst l\<close>)
  then show ?thesis using bk_drain_all(1) [OF inv, of "[]"] by simp
qed

lemma queue_do_spec:
  assumes abs: "bk_abs b l" and c: "op_phase c"
  shows "\<exists>b'. queue_do c b = Inr (fst (spec_do c l), b') \<and> bk_abs b' (snd (spec_do c l))"
proof -
  have inv: "bk_inv b" and q: "bk_queue b = (\<lambda>i. of_phase i l)" using abs by (simp_all add: bk_abs_def)
  show ?thesis
  proof (cases c)
    case (QPush i x)
    obtain b' where "bk_push i x b = Inr b'" "bk_queue b' = (bk_queue b)(i := bk_queue b i @ [x])" using bk_push_ok by metis
    then show ?thesis using QPush c bk_push_inv [OF inv] by (auto simp: bk_abs_def q)
  next
    case (QPop i)
    note p = bk_pop_front_spec [OF inv, of i]
    show ?thesis
    proof (cases "of_phase i l")
      case Nil
      then show ?thesis using QPop p(1) abs of_phase_remove [of _ i l] by (auto simp: q bk_abs_def fun_eq_iff)
    next
      case (Cons x xs)
      then have "bk_pop_front i b = (Some x, snd (bk_pop_front i b))" using p(1) by (simp add: q)
      then obtain b' where b': "bk_pop_front i b = (Some x, b')" by metis
      then show ?thesis using QPop p(2,3) Cons of_phase_remove [of _ i l] by (auto simp: q bk_abs_def fun_eq_iff)
    qed
  next
    case (QDrain opt)
    show ?thesis
    proof (cases opt)
      case None
      then show ?thesis using QDrain drain_all_sorts [OF abs] bk_drain_all(2,3) [OF inv, of "[]"]
        by (cases "bk_drain None [] b") (auto simp: bk_abs_def)
    next
      case (Some i)
      then have "phase_id i" using c QDrain by simp
      from bk_drain_one [OF inv this, of "[]"] show ?thesis using QDrain Some
        by (cases "bk_drain (Some i) [] b") (auto simp: bk_abs_def q)
    qed
  qed
qed

text \<open>
  C35. The bucket queue refines a stable sort. Whatever items are pushed, popped and drained, in whatever order and for whatever phases a runtime can have,
  nothing panics and every pop and drain returns what the list of the pending items gives: popping and draining a phase take its items first in, first out, and
  draining everything returns all items sorted by phase, those of one phase in the order in which they were pushed. The queue says that it is empty exactly when it is.
\<close>

theorem buckets_sort_stably:
  assumes "list_all op_phase cs"
  shows "\<exists>b. queue_run cs bk_new = Inr (fst (spec_run cs []), b) \<and> (bk_is_empty b \<longleftrightarrow> snd (spec_run cs []) = [])"
proof -
  have "\<exists>b'. queue_run cs b = Inr (fst (spec_run cs l), b') \<and> bk_abs b' (snd (spec_run cs l))" if "bk_abs b l" for b l
    using that assms
  proof (induction cs arbitrary: b l)
    case (Cons c cs)
    obtain b1 where "queue_do c b = Inr (fst (spec_do c l), b1)" "bk_abs b1 (snd (spec_do c l))"
      using queue_do_spec [OF Cons.prems(1)] Cons.prems(2) by auto
    then show ?case using Cons.IH [of b1 "snd (spec_do c l)"] Cons.prems(2) by (auto simp: case_prod_unfold Let_def)
  qed simp
  moreover have "bk_abs (bk_new :: 'a buckets) []" by (simp add: bk_abs_def bk_new_inv bk_new_queue fun_eq_iff)
  ultimately obtain b where b: "queue_run cs bk_new = Inr (fst (spec_run cs []), b)" "bk_abs b (snd (spec_run cs []))" by blast
  have "bk_is_empty b \<longleftrightarrow> (\<forall>i. of_phase i (snd (spec_run cs [])) = [])"
    using b(2) bk_inv_is_empty [of b] by (auto simp: bk_abs_def)
  also have "\<dots> \<longleftrightarrow> snd (spec_run cs []) = []" by (auto simp: of_phase_def filter_empty_conv) (metis list.set_intros(1) neq_Nil_conv)
  finally show ?thesis using b(1) by blast
qed

theorem buckets_sort_stably_witness:
  "\<exists>b. queue_run [QPush 3 (7::nat), QPush (-1) 8, QPush 3 9, QPop 3, QPush 0 6, QDrain None] bk_new = Inr ([[], [], [], [7], [], [8, 6, 9]], b) \<and> bk_is_empty b"
  using buckets_sort_stably [of "[QPush 3 (7::nat), QPush (-1) 8, QPush 3 9, QPop 3, QPush 0 6, QDrain None]"]
  by (simp add: phase_id_def of_phase_def)

end
