(* ===== verification/State_Ref.thy ===== *)
theory State_Ref
  imports Prelude
begin

section \<open>References that own what they refer to (core/state\_ref.rs)\<close>

text \<open>
  \<open>StateRef\<close> is an abstracted reference: a value, a plain reference, a \<open>RefCell\<close> guard, or one of these derived from another \<open>StateRef\<close> that it then
  owns. It is built with raw pointers: owned values are moved into the bump allocator of the context and dropped in place through an \<open>AllocHandle\<close>. Here
  that memory is explicit: an allocation holds a value, a guard or a pair of handles until it is dropped, and any later access to it, or a second drop,
  is the error \<open>UseAfterDrop\<close>. The memory itself is reclaimed when the context ends, which \<open>bumpalo\<close> sees to.
\<close>

subsection \<open>Memory\<close>

text \<open>Where a value lives: a constant, a place outside the allocator, or an allocation. A pointer leads to a part of the value at a place.\<close>

datatype loc = Static nat | Outer nat | Bump nat

type_synonym 'v ptr = "loc \<times> ('v \<Rightarrow> 'v)"

datatype 'v val = Plain 'v | RefTo "'v ptr"      \<comment> \<open>a value, or a value that is itself a reference\<close>

record 'v guard =                                \<comment> \<open>\<open>std::cell::Ref\<close>\<close>
  rg_cell :: loc
  rg_ptr :: "'v ptr"

datatype 'v cont = CVal "'v val" | CGuard "'v guard" | CPair nat nat
datatype 'v slot = Live "'v cont" | Dropped

record 'v bump =
  bm_outer :: "loc \<Rightarrow> 'v val"
  bm_slots :: "'v slot list"
  bm_borrows :: "loc \<Rightarrow> nat"                     \<comment> \<open>shared borrows of the \<open>RefCell\<close> at a place\<close>

definition content :: "'v bump \<Rightarrow> loc \<Rightarrow> 'v cont result" where
  "content m l = (case l of
       Bump a \<Rightarrow> if a < length (bm_slots m)
                 then (case bm_slots m ! a of Live c \<Rightarrow> Inr c | Dropped \<Rightarrow> Inl UseAfterDrop) else Inl UseAfterDrop
     | _ \<Rightarrow> Inr (CVal (bm_outer m l)))"

primrec part :: "('v \<Rightarrow> 'v) \<Rightarrow> 'v val \<Rightarrow> 'v val" where
  "part g (Plain v) = Plain (g v)"
| "part g (RefTo p) = RefTo p"

definition read_ptr :: "'v bump \<Rightarrow> 'v ptr \<Rightarrow> 'v val result" where
  "read_ptr m p = res_bind (content m (fst p)) (\<lambda>c. case c of CVal x \<Rightarrow> Inr (part (snd p) x) | _ \<Rightarrow> Inl Unreachable)"

definition bump_alloc :: "'v cont \<Rightarrow> 'v bump \<Rightarrow> nat \<times> 'v bump" where
  "bump_alloc c m = (length (bm_slots m), m\<lparr>bm_slots := bm_slots m @ [Live c]\<rparr>)"

text \<open>\<open>RefCell::borrow\<close> and the drop of its guard.\<close>

definition cell_borrow :: "loc \<Rightarrow> ('v \<Rightarrow> 'v) \<Rightarrow> 'v bump \<Rightarrow> ('v guard \<times> 'v bump) result" where
  "cell_borrow l g m = res_bind (content m l) (\<lambda>_. Inr (\<lparr>rg_cell = l, rg_ptr = (l, g)\<rparr>, m\<lparr>bm_borrows := (bm_borrows m)(l := Suc (bm_borrows m l))\<rparr>))"

definition drop_guard :: "'v guard \<Rightarrow> 'v bump \<Rightarrow> 'v bump result" where
  "drop_guard g m = res_bind (content m (rg_cell g)) (\<lambda>_.
     if bm_borrows m (rg_cell g) = 0 then Inl RefCountUnderflow
     else Inr (m\<lparr>bm_borrows := (bm_borrows m)(rg_cell g := bm_borrows m (rg_cell g) - 1)\<rparr>))"

definition kill :: "nat \<Rightarrow> 'v bump \<Rightarrow> 'v bump" where
  "kill a m = m\<lparr>bm_slots := (bm_slots m)[a := Dropped]\<rparr>"

text \<open>
  \<open>drop_in_place\<close>. The fields of a tuple are dropped in order. The recursion is bounded by the number of allocations: the parts of a pair are older than it.
\<close>

fun drop_at :: "nat \<Rightarrow> nat \<Rightarrow> 'v bump \<Rightarrow> 'v bump result" where
  "drop_at 0 a m = Inl OutOfFuel"
| "drop_at (Suc f) a m = res_bind (content m (Bump a)) (\<lambda>c. case c of
       CVal _ \<Rightarrow> Inr (kill a m)
     | CGuard g \<Rightarrow> drop_guard g (kill a m)
     | CPair v w \<Rightarrow> res_bind (drop_at f v (kill a m)) (drop_at f w))"

subsection \<open>AllocHandle and MaybeBox\<close>

type_synonym alloc_handle = "nat option"

definition handle_drop :: "alloc_handle \<Rightarrow> 'v bump \<Rightarrow> 'v bump result" where
  "handle_drop h m = (case h of None \<Rightarrow> Inr m | Some a \<Rightarrow> drop_at (length (bm_slots m)) a m)"

definition chain :: "alloc_handle \<Rightarrow> alloc_handle \<Rightarrow> 'v bump \<Rightarrow> alloc_handle \<times> 'v bump" where
  "chain owner h m = (case (owner, h) of
       (None, None) \<Rightarrow> (None, m)
     | (None, Some v) \<Rightarrow> (Some v, m)
     | (Some w, None) \<Rightarrow> (Some w, m)
     | (Some w, Some v) \<Rightarrow> (let (a, m1) = bump_alloc (CPair v w) m in (Some a, m1)))"

record 'v maybe_box =
  mb_p :: "'v ptr"
  mb_handle :: alloc_handle

definition box_alloc :: "'v cont \<Rightarrow> 'v bump \<Rightarrow> 'v maybe_box \<times> 'v bump" where
  "box_alloc c m = (let (a, m1) = bump_alloc c m in (\<lparr>mb_p = (Bump a, \<lambda>v. v), mb_handle = Some a\<rparr>, m1))"

definition box_map :: "('v ptr \<Rightarrow> 'v val \<Rightarrow> 'v ptr) \<Rightarrow> 'v maybe_box \<Rightarrow> 'v bump \<Rightarrow> 'v maybe_box result" where
  "box_map f b m = res_bind (read_ptr m (mb_p b)) (\<lambda>x. Inr (b\<lparr>mb_p := f (mb_p b) x\<rparr>))"

definition with_owner :: "'v maybe_box \<Rightarrow> alloc_handle \<Rightarrow> 'v bump \<Rightarrow> 'v maybe_box \<times> 'v bump" where
  "with_owner b owner m = (let (h, m1) = chain owner (mb_handle b) m in (b\<lparr>mb_handle := h\<rparr>, m1))"

subsection \<open>The data of a reference\<close>

datatype 'v raw_ref = RawPtr "'v ptr" | RawCell "'v guard"
datatype 'v ref_value = VRef "'v raw_ref" | VEmbedded "'v val"
datatype 'v ref_data = ValueAndOwner bool "'v ref_value" alloc_handle | ValueStatic "'v val"

definition box_into_data :: "bool \<Rightarrow> 'v maybe_box \<Rightarrow> 'v ref_data" where
  "box_into_data is_static b = ValueAndOwner is_static (VRef (RawPtr (mb_p b))) (mb_handle b)"

text \<open>
  A buffer of \<open>n\<close> elements of 16 bytes holds a value when its layout, size and alignment, fits. \<open>align_to_mut\<close> leaves no slot for a value without a size.
\<close>

definition is_supported :: "nat \<times> nat \<Rightarrow> nat \<Rightarrow> bool" where
  "is_supported layout n \<longleftrightarrow> fst layout \<le> 16 * n \<and> 16 mod snd layout = 0"

definition embedded_new :: "('v val \<Rightarrow> nat \<times> nat) \<Rightarrow> nat \<Rightarrow> 'v val \<Rightarrow> 'v val + 'v val" where
  "embedded_new ly n x = (if \<not> is_supported (ly x) n then Inl x else if fst (ly x) = 0 then Inl x else Inr x)"

definition data_pin :: "'v ref_data \<Rightarrow> 'v bump \<Rightarrow> bool \<times> 'v maybe_box \<times> 'v bump" where
  "data_pin d m = (case d of
       ValueAndOwner is_static v owner \<Rightarrow>
         (let (b, m1) = (case v of
              VRef (RawPtr p) \<Rightarrow> (\<lparr>mb_p = p, mb_handle = None\<rparr>, m)
            | VRef (RawCell g) \<Rightarrow> (let (b, m1) = box_alloc (CGuard g) m in (b\<lparr>mb_p := rg_ptr g\<rparr>, m1))
            | VEmbedded x \<Rightarrow> box_alloc (CVal x) m);
              (b1, m2) = with_owner b owner m1
          in (is_static, b1, m2))
     | ValueStatic x \<Rightarrow> (let (b, m1) = box_alloc (CVal x) m in (True, b, m1)))"

definition data_deref :: "'v bump \<Rightarrow> 'v ref_data \<Rightarrow> 'v val result" where
  "data_deref m d = (case d of
       ValueAndOwner _ (VRef (RawPtr p)) _ \<Rightarrow> read_ptr m p
     | ValueAndOwner _ (VRef (RawCell g)) _ \<Rightarrow> read_ptr m (rg_ptr g)
     | ValueAndOwner _ (VEmbedded x) _ \<Rightarrow> Inr x
     | ValueStatic x \<Rightarrow> Inr x)"

text \<open>The drop of the fields, \<open>value\<close> before \<open>owner\<close>.\<close>

definition data_drop :: "'v ref_data \<Rightarrow> 'v bump \<Rightarrow> 'v bump result" where
  "data_drop d m = (case d of
       ValueAndOwner _ (VRef (RawCell g)) owner \<Rightarrow> res_bind (drop_guard g m) (handle_drop owner)
     | ValueAndOwner _ _ owner \<Rightarrow> handle_drop owner m
     | ValueStatic _ \<Rightarrow> Inr m)"

subsection \<open>StateRef\<close>

definition from_value_ref :: "('v val \<Rightarrow> nat \<times> nat) \<Rightarrow> 'v val \<Rightarrow> 'v bump \<Rightarrow> 'v ref_data \<times> 'v bump" where
  "from_value_ref ly x m = (case embedded_new ly 3 x of
       Inr x \<Rightarrow> (ValueStatic x, m)
     | Inl x \<Rightarrow> (let (b, m1) = box_alloc (CVal x) m in (box_into_data True b, m1)))"

definition from_value_non_static :: "('v val \<Rightarrow> nat \<times> nat) \<Rightarrow> 'v val \<Rightarrow> 'v bump \<Rightarrow> 'v ref_data \<times> 'v bump" where
  "from_value_non_static ly x m = (case embedded_new ly 1 x of
       Inr x \<Rightarrow> (ValueAndOwner False (VEmbedded x) None, m)
     | Inl x \<Rightarrow> (let (b, m1) = box_alloc (CVal x) m in (box_into_data False b, m1)))"

definition ref_from_ptr :: "'v ptr \<Rightarrow> 'v ref_data" where
  "ref_from_ptr p = ValueAndOwner False (VRef (RawPtr p)) None"

definition ref_from_cell :: "'v guard \<Rightarrow> 'v ref_data" where
  "ref_from_cell g = ValueAndOwner False (VRef (RawCell g)) None"

definition raw_ref_map :: "('v ptr \<Rightarrow> 'v val \<Rightarrow> 'v ptr) \<Rightarrow> 'v raw_ref \<Rightarrow> 'v bump \<Rightarrow> 'v raw_ref result" where
  "raw_ref_map f r m = (case r of
       RawPtr p \<Rightarrow> res_bind (read_ptr m p) (\<lambda>x. Inr (RawPtr (f p x)))
     | RawCell g \<Rightarrow> res_bind (read_ptr m (rg_ptr g)) (\<lambda>x. Inr (RawCell (g\<lparr>rg_ptr := f (rg_ptr g) x\<rparr>))))"

definition state_ref_map :: "('v ptr \<Rightarrow> 'v val \<Rightarrow> 'v ptr) \<Rightarrow> 'v ref_data \<Rightarrow> 'v bump \<Rightarrow> ('v ref_data \<times> 'v bump) result" where
  "state_ref_map f d m = (case d of
       ValueAndOwner is_static (VRef r) owner \<Rightarrow> res_bind (raw_ref_map f r m) (\<lambda>r1. Inr (ValueAndOwner is_static (VRef r1) owner, m))
     | _ \<Rightarrow> (let (is_static, b, m1) = data_pin d m in res_bind (box_map f b m1) (\<lambda>b1. Inr (box_into_data is_static b1, m1))))"

definition state_ref_map_ref ::
    "('v ptr \<Rightarrow> 'v val \<Rightarrow> 'v bump \<Rightarrow> ('v ref_data \<times> 'v bump) result) \<Rightarrow> 'v ref_data \<Rightarrow> 'v bump \<Rightarrow> ('v ref_data \<times> 'v bump) result" where
  "state_ref_map_ref f d m =
     (let (is_static, b, m1) = data_pin d m in
      res_bind (read_ptr m1 (mb_p b)) (\<lambda>x.
      res_bind (f (mb_p b) x m1) (\<lambda>(d1, m2). case d1 of
          ValueAndOwner False v owner \<Rightarrow> (let (h, m3) = chain (mb_handle b) owner m2 in Inr (ValueAndOwner is_static v h, m3))
        | _ \<Rightarrow> res_bind (handle_drop (mb_handle b) m2) (\<lambda>m3. Inr (d1, m3)))))"

definition ref_into_owned :: "'v ref_data \<Rightarrow> 'v bump \<Rightarrow> ('v val \<times> 'v bump) result" where
  "ref_into_owned d m = (case d of
       ValueStatic x \<Rightarrow> Inr (x, m)
     | _ \<Rightarrow> res_bind (data_deref m d) (\<lambda>x. res_bind (data_drop d m) (\<lambda>m1. Inr (x, m1))))"

definition ref_has_owner :: "'v ref_data \<Rightarrow> bool" where
  "ref_has_owner d = (case d of ValueAndOwner _ _ owner \<Rightarrow> owner \<noteq> None | ValueStatic _ \<Rightarrow> False)"

definition ref_is_static :: "'v ref_data \<Rightarrow> bool" where
  "ref_is_static d = (case d of ValueAndOwner is_static _ _ \<Rightarrow> is_static | ValueStatic _ \<Rightarrow> True)"

definition ref_storage :: "'v ref_data \<Rightarrow> string" where
  "ref_storage d = (case d of
       ValueAndOwner _ (VRef (RawPtr _)) _ \<Rightarrow> ''ref''
     | ValueAndOwner _ (VRef (RawCell _)) _ \<Rightarrow> ''ref_cell''
     | ValueAndOwner _ (VEmbedded _) _ \<Rightarrow> ''inline''
     | ValueStatic _ \<Rightarrow> ''inline'')"

subsection \<open>StateRefBuilder\<close>

text \<open>A builder is a reference together with the context, here the memory, that it was built in.\<close>

record 'v ref_builder =
  rb_r :: "'v ref_data"
  rb_sc :: "'v bump"

definition rb_from_value :: "('v val \<Rightarrow> nat \<times> nat) \<Rightarrow> 'v val \<Rightarrow> 'v bump \<Rightarrow> 'v ref_builder" where
  "rb_from_value ly x m = (let (d, m1) = from_value_ref ly x m in \<lparr>rb_r = d, rb_sc = m1\<rparr>)"

definition rb_from_value_non_static :: "('v val \<Rightarrow> nat \<times> nat) \<Rightarrow> 'v val \<Rightarrow> 'v bump \<Rightarrow> 'v ref_builder" where
  "rb_from_value_non_static ly x m = (let (d, m1) = from_value_non_static ly x m in \<lparr>rb_r = d, rb_sc = m1\<rparr>)"

definition rb_from_ref :: "'v ptr \<Rightarrow> 'v bump \<Rightarrow> 'v ref_builder" where
  "rb_from_ref p m = \<lparr>rb_r = ref_from_ptr p, rb_sc = m\<rparr>"

definition rb_from_ref_cell :: "'v guard \<Rightarrow> 'v bump \<Rightarrow> 'v ref_builder" where
  "rb_from_ref_cell g m = \<lparr>rb_r = ref_from_cell g, rb_sc = m\<rparr>"

definition rb_map :: "('v ptr \<Rightarrow> 'v val \<Rightarrow> 'v ptr) \<Rightarrow> 'v ref_builder \<Rightarrow> 'v ref_builder result" where
  "rb_map f b = res_bind (state_ref_map f (rb_r b) (rb_sc b)) (\<lambda>(d, m). Inr \<lparr>rb_r = d, rb_sc = m\<rparr>)"

definition rb_map_ref :: "('v ptr \<Rightarrow> 'v val \<Rightarrow> 'v bump \<Rightarrow> ('v ref_data \<times> 'v bump) result) \<Rightarrow> 'v ref_builder \<Rightarrow> 'v ref_builder result" where
  "rb_map_ref f b = res_bind (state_ref_map_ref f (rb_r b) (rb_sc b)) (\<lambda>(d, m). Inr \<lparr>rb_r = d, rb_sc = m\<rparr>)"

definition rb_build :: "'v ref_builder \<Rightarrow> 'v ref_data" where
  "rb_build b = rb_r b"

subsection \<open>Code that builds references\<close>

text \<open>What code does with the functions above, \<open>RefCell::borrow\<close> included. The closures of \<open>map\<close> and \<open>map_ref\<close> get a pointer and the value it leads to.\<close>

datatype 'v ref_code =
    CodeValue 'v
  | CodeNonStatic "'v val"
  | CodeRef "'v ptr"
  | CodeCell loc "'v \<Rightarrow> 'v"
  | CodeMap "'v ref_code" "'v ptr \<Rightarrow> 'v val \<Rightarrow> 'v ptr"
  | CodeMapRef "'v ref_code" "'v ptr \<Rightarrow> 'v val \<Rightarrow> 'v ref_code"

primrec run_code :: "('v val \<Rightarrow> nat \<times> nat) \<Rightarrow> 'v ref_code \<Rightarrow> 'v bump \<Rightarrow> ('v ref_data \<times> 'v bump) result" where
  "run_code ly (CodeValue v) = (\<lambda>m. Inr (from_value_ref ly (Plain v) m))"
| "run_code ly (CodeNonStatic x) = (\<lambda>m. Inr (from_value_non_static ly x m))"
| "run_code ly (CodeRef p) = (\<lambda>m. Inr (ref_from_ptr p, m))"
| "run_code ly (CodeCell l g) = (\<lambda>m. res_bind (cell_borrow l g m) (\<lambda>(r, m1). Inr (ref_from_cell r, m1)))"
| "run_code ly (CodeMap c f) = (\<lambda>m. res_bind (run_code ly c m) (\<lambda>(d, m1). state_ref_map f d m1))"
| "run_code ly (CodeMapRef c f) = (\<lambda>m. res_bind (run_code ly c m) (\<lambda>(d, m1). state_ref_map_ref (\<lambda>p x. run_code ly (f p x)) d m1))"

end
