(* ===== verification/State_Ref_Properties.thy ===== *)
theory State_Ref_Properties
  imports State_Ref
begin

section \<open>Memory safety of StateRef\<close>

text \<open>
  What a reference owns is the list of its allocations in the order in which dropping it drops them. \<open>ordered\<close> says that each of them refers only to places in the
  scope of the reference and to values that are dropped after it. \<open>ref_inv\<close> adds that nothing else was allocated and left undropped,
  and accounts for every shared borrow.
\<close>

subsection \<open>Places, borrows and ownership\<close>

primrec val_refs :: "'v val \<Rightarrow> loc set" where
  "val_refs (Plain v) = {}"
| "val_refs (RefTo p) = {fst p}"

primrec cont_refs :: "'v cont \<Rightarrow> loc set" where
  "cont_refs (CVal x) = val_refs x"
| "cont_refs (CGuard g) = {rg_cell g, fst (rg_ptr g)}"
| "cont_refs (CPair v w) = {}"

definition slot_guard :: "'v slot \<Rightarrow> loc \<Rightarrow> nat" where
  "slot_guard s l = (case s of Live (CGuard g) \<Rightarrow> if rg_cell g = l then 1 else 0 | _ \<Rightarrow> 0)"

definition guards :: "'v slot list \<Rightarrow> nat list \<Rightarrow> loc \<Rightarrow> nat" where
  "guards sl as l = (\<Sum>a \<leftarrow> as. slot_guard (sl ! a) l)"

definition data_refs :: "'v ref_data \<Rightarrow> loc set" where
  "data_refs d = (case d of
       ValueAndOwner _ (VRef (RawPtr p)) _ \<Rightarrow> {fst p}
     | ValueAndOwner _ (VRef (RawCell g)) _ \<Rightarrow> {rg_cell g, fst (rg_ptr g)}
     | ValueAndOwner _ (VEmbedded x) _ \<Rightarrow> val_refs x
     | ValueStatic x \<Rightarrow> val_refs x)"

definition data_guard :: "'v ref_data \<Rightarrow> loc \<Rightarrow> nat" where
  "data_guard d l = (case d of ValueAndOwner _ (VRef (RawCell g)) _ \<Rightarrow> if rg_cell g = l then 1 else 0 | _ \<Rightarrow> 0)"

definition data_handle :: "'v ref_data \<Rightarrow> alloc_handle" where
  "data_handle d = (case d of ValueAndOwner _ _ owner \<Rightarrow> owner | ValueStatic _ \<Rightarrow> None)"

definition vlocs :: "'v slot list \<Rightarrow> nat list \<Rightarrow> loc set" where
  "vlocs sl as = {Bump a | a. a \<in> set as \<and> (\<exists>x. sl ! a = Live (CVal x))}"

fun ordered :: "'v slot list \<Rightarrow> loc set \<Rightarrow> nat list \<Rightarrow> bool" where
  "ordered sl S [] = True"
| "ordered sl S (a # as) = (a < length sl \<and> (\<exists>c. sl ! a = Live c \<and> cont_refs c \<subseteq> S \<union> vlocs sl as) \<and> ordered sl S as)"

text \<open>The allocations below a handle, in the order in which they are dropped.\<close>

inductive tree :: "'v slot list \<Rightarrow> nat \<Rightarrow> nat list \<Rightarrow> bool" for sl where
  tree_val: "sl ! a = Live (CVal x) \<Longrightarrow> tree sl a [a]"
| tree_guard: "sl ! a = Live (CGuard g) \<Longrightarrow> tree sl a [a]"
| tree_pair: "sl ! a = Live (CPair v w) \<Longrightarrow> v < a \<Longrightarrow> w < a \<Longrightarrow> tree sl v xs \<Longrightarrow> tree sl w ys \<Longrightarrow> tree sl a (a # xs @ ys)"

definition owns :: "'v slot list \<Rightarrow> alloc_handle \<Rightarrow> nat list \<Rightarrow> bool" where
  "owns sl h as = (case h of None \<Rightarrow> as = [] | Some a \<Rightarrow> a < length sl \<and> tree sl a as)"

text \<open>A set of places that hold values and refer to each other only.\<close>

definition closed :: "'v bump \<Rightarrow> loc set \<Rightarrow> bool" where
  "closed m S \<longleftrightarrow> (\<forall>l \<in> S. \<exists>x. content m l = Inr (CVal x) \<and> val_refs x \<subseteq> S)"

definition fresh_live :: "'v slot list \<Rightarrow> 'v slot list \<Rightarrow> nat set" where
  "fresh_live sl0 sl = {a. length sl0 \<le> a \<and> a < length sl \<and> sl ! a \<noteq> Dropped}"

definition accounts :: "loc set \<Rightarrow> 'v bump \<Rightarrow> loc set \<Rightarrow> (loc \<Rightarrow> nat) \<Rightarrow> nat list \<Rightarrow> 'v bump \<Rightarrow> bool" where
  "accounts S m0 R G as m \<longleftrightarrow>
     bm_outer m = bm_outer m0 \<and> (\<exists>ys. bm_slots m = bm_slots m0 @ ys)
   \<and> set as = fresh_live (bm_slots m0) (bm_slots m) \<and> distinct as \<and> ordered (bm_slots m) S as
   \<and> R \<subseteq> S \<union> vlocs (bm_slots m) as \<and> (\<forall>l. bm_borrows m l = bm_borrows m0 l + guards (bm_slots m) as l + G l)"

definition ref_inv :: "loc set \<Rightarrow> 'v bump \<Rightarrow> loc set \<Rightarrow> (loc \<Rightarrow> nat) \<Rightarrow> alloc_handle \<Rightarrow> nat list \<Rightarrow> 'v bump \<Rightarrow> bool" where
  "ref_inv S m0 R G h as m \<longleftrightarrow> accounts S m0 R G as m \<and> owns (bm_slots m) h as"

definition scope :: "bool \<Rightarrow> loc set \<Rightarrow> loc set" where
  "scope is_static E = range Static \<union> (if is_static then {} else E)"

definition data_inv :: "loc set \<Rightarrow> 'v bump \<Rightarrow> 'v ref_data \<Rightarrow> nat list \<Rightarrow> 'v bump \<Rightarrow> bool" where
  "data_inv E m0 d as m = ref_inv (scope (ref_is_static d) E) m0 (data_refs d) (data_guard d) (data_handle d) as m"

subsection \<open>Lifetimes\<close>

text \<open>Can the code build a reference that claims to be static?\<close>

primrec may_static :: "'v ref_code \<Rightarrow> bool" where
  "may_static (CodeValue v) = True"
| "may_static (CodeNonStatic x) = False"
| "may_static (CodeRef p) = False"
| "may_static (CodeCell l g) = False"
| "may_static (CodeMap c f) = may_static c"
| "may_static (CodeMapRef c f) = (may_static c \<or> (\<exists>p x. may_static (f p x)))"

text \<open>
  The rules of lifetimes that the signatures state: code refers to places that live as long as its result. A closure given to \<open>map\<close> returns a reference to a part of its
  argument, to what that refers to, or to a constant. The closure given to \<open>map_ref\<close> may use its argument, what that refers to, and the rest of the scope.
\<close>

primrec lifetimes :: "'v ref_code \<Rightarrow> loc set \<Rightarrow> bool" where
  "lifetimes (CodeValue v) = (\<lambda>E. True)"
| "lifetimes (CodeNonStatic x) = (\<lambda>E. val_refs x \<subseteq> E)"
| "lifetimes (CodeRef p) = (\<lambda>E. fst p \<in> E)"
| "lifetimes (CodeCell l g) = (\<lambda>E. l \<in> E)"
| "lifetimes (CodeMap c f) = (\<lambda>E. lifetimes c E \<and> (\<forall>p x. fst (f p x) \<in> {fst p} \<union> val_refs x \<union> range Static))"
| "lifetimes (CodeMapRef c f) = (\<lambda>E. lifetimes c E \<and> (\<forall>p x. lifetimes (f p x) ({fst p} \<union> val_refs x \<union> range Static \<union> E)))"

text \<open>
  A condition that no signature states: the closure of a \<open>map_ref\<close> that is applied to a reference that may be static keeps to its argument and does not use what it captures.
\<close>

primrec static_apart :: "'v ref_code \<Rightarrow> bool" where
  "static_apart (CodeValue v) = True"
| "static_apart (CodeNonStatic x) = True"
| "static_apart (CodeRef p) = True"
| "static_apart (CodeCell l g) = True"
| "static_apart (CodeMap c f) = static_apart c"
| "static_apart (CodeMapRef c f) = (static_apart c
     \<and> (\<forall>p x. static_apart (f p x) \<and> (may_static c \<longrightarrow> lifetimes (f p x) ({fst p} \<union> val_refs x \<union> range Static))))"

text \<open>Both conditions in one.\<close>

primrec confined :: "'v ref_code \<Rightarrow> loc set \<Rightarrow> bool" where
  "confined (CodeValue v) = (\<lambda>E. True)"
| "confined (CodeNonStatic x) = (\<lambda>E. val_refs x \<subseteq> E)"
| "confined (CodeRef p) = (\<lambda>E. fst p \<in> E)"
| "confined (CodeCell l g) = (\<lambda>E. l \<in> E)"
| "confined (CodeMap c f) = (\<lambda>E. confined c E \<and> (\<forall>p x. fst (f p x) \<in> {fst p} \<union> val_refs x \<union> range Static))"
| "confined (CodeMapRef c f) = (\<lambda>E. confined c E
     \<and> (\<forall>p x. confined (f p x) ({fst p} \<union> val_refs x \<union> range Static \<union> (if may_static c then {} else E))))"

lemma lifetimes_confined: "lifetimes c E \<Longrightarrow> static_apart c \<Longrightarrow> confined c E"
proof (induction c arbitrary: E)
  case (CodeMapRef c f)
  have "confined (f p x) ({fst p} \<union> val_refs x \<union> range Static \<union> (if may_static c then {} else E))" for p x
    by (rule CodeMapRef.IH(2) [of "f p" "f p x", OF rangeI rangeI]) (use CodeMapRef.prems in \<open>auto simp del: split_paired_All\<close>)
  with CodeMapRef show ?case by auto
qed auto

lemma confined_mono: "confined c E \<Longrightarrow> E \<subseteq> E' \<Longrightarrow> confined c E'"
proof (induction c arbitrary: E E')
  case (CodeMapRef c f)
  have "confined (f p x) ({fst p} \<union> val_refs x \<union> range Static \<union> (if may_static c then {} else E'))" for p x
    by (rule CodeMapRef.IH(2) [of "f p" "f p x", OF rangeI rangeI, where E = "{fst p} \<union> val_refs x \<union> range Static \<union> (if may_static c then {} else E)"])
      (use CodeMapRef.prems in \<open>cases p, auto\<close>)
  with CodeMapRef show ?case by (auto intro: CodeMapRef.IH(1))
qed auto

subsection \<open>Basic facts\<close>

lemma content_append: "content m l = Inr c \<Longrightarrow> bm_slots m' = bm_slots m @ ys \<Longrightarrow> bm_outer m' = bm_outer m \<Longrightarrow> content m' l = Inr c"
  by (auto simp: content_def nth_append split: loc.splits if_splits)

lemma closed_append: "closed m S \<Longrightarrow> bm_slots m' = bm_slots m @ ys \<Longrightarrow> bm_outer m' = bm_outer m \<Longrightarrow> closed m' S"
  unfolding closed_def by (blast intro: content_append)

lemma closed_bump: "closed m S \<Longrightarrow> Bump a \<in> S \<Longrightarrow> a < length (bm_slots m) \<and> bm_slots m ! a \<noteq> Dropped"
  by (auto simp: closed_def content_def split: if_splits slot.splits dest!: bspec)

lemma closed_Un: "closed m S \<Longrightarrow> closed m T \<Longrightarrow> closed m (S \<union> T)"
  unfolding closed_def by blast

lemma vlocs_simps [simp]:
  "vlocs sl [] = {}" "vlocs sl (as @ bs) = vlocs sl as \<union> vlocs sl bs"
  by (auto simp: vlocs_def)

lemma vlocs_mono: "set as \<subseteq> set bs \<Longrightarrow> vlocs sl as \<subseteq> vlocs sl bs"
  by (auto simp: vlocs_def)

lemma vlocs_cong: "(\<And>a. a \<in> set as \<Longrightarrow> sl ! a = sl' ! a) \<Longrightarrow> vlocs sl as = vlocs sl' as"
  by (auto simp: vlocs_def)

lemma guards_simps [simp]:
  "guards sl [] l = 0" "guards sl (a # as) l = slot_guard (sl ! a) l + guards sl as l" "guards sl (as @ bs) l = guards sl as l + guards sl bs l"
  by (simp_all add: guards_def)

lemma guards_cong: "(\<And>a. a \<in> set as \<Longrightarrow> sl ! a = sl' ! a) \<Longrightarrow> guards sl as = guards sl' as"
  unfolding guards_def by (intro ext arg_cong [of _ _ sum_list] map_cong) simp_all

lemma ordered_live: "ordered sl S as \<Longrightarrow> a \<in> set as \<Longrightarrow> a < length sl \<and> sl ! a \<noteq> Dropped"
  by (induction as) auto

lemma ordered_cong:
  "ordered sl S as \<Longrightarrow> (\<And>a. a \<in> set as \<Longrightarrow> sl ! a = sl' ! a \<and> a < length sl') \<Longrightarrow> S \<subseteq> S' \<Longrightarrow> ordered sl' S' as"
proof (induction as)
  case (Cons a as)
  have v: "vlocs sl as = vlocs sl' as" by (rule vlocs_cong) (use Cons.prems in auto)
  have "ordered sl' S' as" by (rule Cons.IH) (use Cons.prems in auto)
  moreover obtain c where "sl ! a = Live c" "cont_refs c \<subseteq> S \<union> vlocs sl' as" using Cons.prems(1) v by auto
  ultimately show ?case using Cons.prems(2) [of a] Cons.prems(3) by (auto simp del: Un_iff intro!: Un_mono [THEN subsetD] dest: subsetD)
qed simp

lemma ordered_append: "ordered sl (S \<union> vlocs sl ys) xs \<Longrightarrow> ordered sl S ys \<Longrightarrow> ordered sl S (xs @ ys)"
  by (induction xs) (auto simp: Un_ac)

lemma ordered_closed:
  assumes "ordered (bm_slots m) S as" and "closed m S"
  shows "closed m (S \<union> vlocs (bm_slots m) as)"
  using assms
proof (induction as)
  case (Cons a as)
  let ?T = "S \<union> vlocs (bm_slots m) as"
  have T: "closed m ?T" using Cons by simp
  show ?case
  proof (cases "\<exists>x. bm_slots m ! a = Live (CVal x)")
    case True
    then obtain x where x: "bm_slots m ! a = Live (CVal x)" by blast
    then have "S \<union> vlocs (bm_slots m) (a # as) = insert (Bump a) ?T" by (auto simp: vlocs_def)
    moreover have "content m (Bump a) = Inr (CVal x)" "val_refs x \<subseteq> ?T" using Cons.prems x by (simp_all add: content_def)
    then have "closed m (insert (Bump a) ?T)" using T unfolding closed_def by blast
    ultimately show ?thesis by simp
  next
    case False
    then have "vlocs (bm_slots m) (a # as) = vlocs (bm_slots m) as" by (auto simp: vlocs_def)
    then show ?thesis using T by simp
  qed
qed simp

lemma tree_cong: "tree sl a as \<Longrightarrow> (\<And>b. b \<in> set as \<Longrightarrow> sl ! b = sl' ! b) \<Longrightarrow> tree sl' a as"
proof (induction rule: tree.induct)
  case (tree_pair a v w xs ys)
  then show ?case by (intro tree.tree_pair) auto
qed (auto intro: tree.intros)

lemma tree_root: "tree sl a as \<Longrightarrow> a \<in> set as"
  by (erule tree.cases) auto

lemma owns_cong:
  "owns sl h as \<Longrightarrow> (\<And>b. b \<in> set as \<Longrightarrow> sl ! b = sl' ! b \<and> b < length sl') \<Longrightarrow> owns sl' h as"
  by (auto simp: owns_def split: option.splits intro: tree_cong dest: tree_root)

lemma read_closed:
  assumes "closed m S" and "fst p \<in> S"
  obtains x where "read_ptr m p = Inr x" and "val_refs x \<subseteq> S"
proof -
  obtain y where y: "content m (fst p) = Inr (CVal y)" "val_refs y \<subseteq> S" using assms unfolding closed_def by blast
  then have "val_refs (part (snd p) y) \<subseteq> S" by (cases y) auto
  with y show ?thesis using that by (simp add: read_ptr_def)
qed

subsection \<open>Dropping\<close>

text \<open>Dropping a tree is dropping its allocations one after the other.\<close>

fun drop_list :: "nat list \<Rightarrow> 'v bump \<Rightarrow> 'v bump result" where
  "drop_list [] m = Inr m"
| "drop_list (a # as) m = res_bind (content m (Bump a)) (\<lambda>c. case c of
       CGuard g \<Rightarrow> res_bind (drop_guard g (kill a m)) (drop_list as) | _ \<Rightarrow> drop_list as (kill a m))"

lemma drop_list_append: "drop_list (as @ bs) m = res_bind (drop_list as m) (drop_list bs)"
  by (induction as arbitrary: m) (auto simp: res_bind_def split: sum.splits cont.splits)

lemma drop_guard_slots: "drop_guard g m = Inr m' \<Longrightarrow> bm_slots m' = bm_slots m"
  by (auto simp: drop_guard_def res_bind_eq_Inr split: if_splits)

lemma kill_simps [simp]:
  "b \<noteq> a \<Longrightarrow> bm_slots (kill a m) ! b = bm_slots m ! b" "length (bm_slots (kill a m)) = length (bm_slots m)"
  "a < length (bm_slots m) \<Longrightarrow> bm_slots (kill a m) ! a = Dropped" "bm_outer (kill a m) = bm_outer m" "bm_borrows (kill a m) = bm_borrows m"
  by (simp_all add: kill_def)

lemma drop_list_slots:
  "drop_list as m = Inr m' \<Longrightarrow> length (bm_slots m') = length (bm_slots m) \<and> (\<forall>b. b \<notin> set as \<longrightarrow> bm_slots m' ! b = bm_slots m ! b)"
proof (induction as arbitrary: m)
  case (Cons a as)
  then obtain c where "content m (Bump a) = Inr c"
    and c: "(case c of CGuard g \<Rightarrow> res_bind (drop_guard g (kill a m)) (drop_list as) | _ \<Rightarrow> drop_list as (kill a m)) = Inr m'"
    by (auto simp: res_bind_eq_Inr)
  have "\<exists>m1. drop_list as m1 = Inr m' \<and> bm_slots m1 = bm_slots (kill a m)"
    using c by (cases c) (auto simp: res_bind_eq_Inr dest: drop_guard_slots)
  then show ?case using Cons.IH by fastforce
qed simp

lemma tree_drop:
  assumes "tree sl a as" and "distinct as" and "\<And>b. b \<in> set as \<Longrightarrow> b < length (bm_slots m) \<and> bm_slots m ! b = sl ! b" and "a < f"
  shows "drop_at f a m = drop_list as m"
  using assms
proof (induction arbitrary: m f rule: tree.induct)
  case (tree_val a x)
  then show ?case by (cases f) (auto simp: content_def)
next
  case (tree_guard a g)
  then show ?case by (cases f) (auto simp: content_def res_bind_def split: sum.splits)
next
  case (tree_pair a v w xs ys)
  obtain f' where f: "f = Suc f'" using tree_pair.prems(3) by (cases f) auto
  have c: "content m (Bump a) = Inr (CPair v w)" using tree_pair by (simp add: content_def)
  have same: "b < length (bm_slots (kill a m)) \<and> bm_slots (kill a m) ! b = sl ! b" if "b \<in> set xs \<union> set ys" for b
    using tree_pair.prems(1,2) that by (cases "b = a") auto
  have 1: "drop_at f' v (kill a m) = drop_list xs (kill a m)"
    by (rule tree_pair.IH(1)) (use tree_pair.prems tree_pair.hyps f same in auto)
  have 2: "drop_at f' w m2 = drop_list ys m2" if "drop_list xs (kill a m) = Inr m2" for m2
    by (rule tree_pair.IH(2)) (use tree_pair.prems tree_pair.hyps f same drop_list_slots [OF that] in auto)
  have "res_bind (drop_list xs (kill a m)) (drop_at f' w) = res_bind (drop_list xs (kill a m)) (drop_list ys)"
    by (rule res_bind_cong [OF refl 2])
  then show ?case using c f 1 by (simp add: drop_list_append)
qed

lemma handle_drop_list: "owns (bm_slots m) h as \<Longrightarrow> distinct as \<Longrightarrow> ordered (bm_slots m) S as \<Longrightarrow> handle_drop h m = drop_list as m"
  by (auto simp: owns_def handle_drop_def split: option.splits intro!: tree_drop dest: ordered_live)

text \<open>The state after the drop of \<open>as\<close>.\<close>

definition dropped :: "nat list \<Rightarrow> 'v bump \<Rightarrow> 'v bump \<Rightarrow> bool" where
  "dropped as m m' \<longleftrightarrow> bm_outer m' = bm_outer m \<and> length (bm_slots m') = length (bm_slots m)
     \<and> (\<forall>b < length (bm_slots m). bm_slots m' ! b = (if b \<in> set as then Dropped else bm_slots m ! b))
     \<and> (\<forall>l. bm_borrows m l = bm_borrows m' l + guards (bm_slots m) as l)"

lemma content_kill: "l \<noteq> Bump a \<Longrightarrow> content (kill a m) l = content m l"
  by (cases l) (simp_all add: content_def)

lemma closed_kill: "closed m S \<Longrightarrow> Bump a \<notin> S \<Longrightarrow> closed (kill a m) S"
  unfolding closed_def using content_kill by metis

lemma slot_guard_ok:
  assumes "content m (rg_cell g) = Inr c" and "0 < bm_borrows m (rg_cell g)"
  shows "\<exists>m'. drop_guard g m = Inr m' \<and> bm_outer m' = bm_outer m \<and> bm_slots m' = bm_slots m
    \<and> (\<forall>l. bm_borrows m l = bm_borrows m' l + (if rg_cell g = l then 1 else 0))"
  using assms unfolding drop_guard_def by (intro exI [of _ "m\<lparr>bm_borrows := (bm_borrows m)(rg_cell g := bm_borrows m (rg_cell g) - 1)\<rparr>"]) simp

lemma content_cong: "bm_slots m' = bm_slots m \<Longrightarrow> bm_outer m' = bm_outer m \<Longrightarrow> content m' l = content m l"
  by (auto simp: content_def split: loc.splits)

lemma closed_cong: "bm_slots m' = bm_slots m \<Longrightarrow> bm_outer m' = bm_outer m \<Longrightarrow> closed m' S = closed m S"
  using content_cong [of m' m] by (simp add: closed_def)

lemma drop_list_ok:
  assumes "ordered (bm_slots m) S as" and "distinct as" and "closed m S" and "\<And>a. a \<in> set as \<Longrightarrow> Bump a \<notin> S"
    and "\<And>l. guards (bm_slots m) as l \<le> bm_borrows m l"
  shows "\<exists>m'. drop_list as m = Inr m' \<and> dropped as m m'"
  using assms
proof (induction as arbitrary: m)
  case Nil
  then show ?case by (simp add: dropped_def)
next
  case (Cons a as)
  obtain c where c: "a < length (bm_slots m)" "bm_slots m ! a = Live c" "cont_refs c \<subseteq> S \<union> vlocs (bm_slots m) as" using Cons.prems(1) by auto
  have cont: "content m (Bump a) = Inr c" using c by (simp add: content_def)
  let ?k = "kill a m"
  have other: "bm_slots ?k ! b = bm_slots m ! b" if "b \<in> set as" for b using that Cons.prems(2) by (cases "b = a") auto
  have ord: "ordered (bm_slots ?k) S as"
    by (rule ordered_cong [of "bm_slots m" S]) (use Cons.prems(1) other ordered_live [of "bm_slots m" S as] in auto)
  have cl: "closed ?k S" by (rule closed_kill) (use Cons.prems in auto)
  have g: "guards (bm_slots ?k) as = guards (bm_slots m) as" by (rule guards_cong) (simp add: other)
  have "\<exists>m1. (case c of CGuard g \<Rightarrow> drop_guard g ?k | _ \<Rightarrow> Inr ?k) = Inr m1 \<and> bm_outer m1 = bm_outer m \<and> bm_slots m1 = bm_slots ?k
      \<and> (\<forall>l. bm_borrows m l = bm_borrows m1 l + slot_guard (Live c) l)"
  proof (cases c)
    case (CGuard g)
    have "rg_cell g \<in> S \<union> vlocs (bm_slots ?k) as" using c(3) CGuard vlocs_cong [of as "bm_slots m" "bm_slots ?k"] other by auto
    then obtain x where x: "content ?k (rg_cell g) = Inr (CVal x)" using ordered_closed [OF ord cl] unfolding closed_def by blast
    have pos: "0 < bm_borrows ?k (rg_cell g)" using Cons.prems(5) [of "rg_cell g"] c(2) CGuard by (simp add: slot_guard_def)
    show ?thesis using slot_guard_ok [OF x pos] CGuard by (auto simp: slot_guard_def)
  qed (auto simp: slot_guard_def)
  then obtain m1 where m1: "(case c of CGuard g \<Rightarrow> drop_guard g ?k | _ \<Rightarrow> Inr ?k) = Inr m1" "bm_outer m1 = bm_outer m" "bm_slots m1 = bm_slots ?k"
    "\<forall>l. bm_borrows m l = bm_borrows m1 l + slot_guard (Live c) l" by blast
  have step: "drop_list (a # as) m = drop_list as m1" using cont m1(1) by (cases c) auto
  have cl1: "closed m1 S" using cl closed_cong [of m1 ?k S] m1(2,3) by simp
  have borrows: "guards (bm_slots m1) as l \<le> bm_borrows m1 l" for l
    using Cons.prems(5) [of l] m1(3) spec [OF m1(4), of l] c(2) g by simp
  obtain m2 where m2: "drop_list as m1 = Inr m2" "dropped as m1 m2"
    using Cons.IH [of m1] ord cl1 Cons.prems(2,4) m1(3) borrows by auto
  have "dropped (a # as) m m2"
    unfolding dropped_def
  proof (intro conjI allI impI)
    show "bm_slots m2 ! b = (if b \<in> set (a # as) then Dropped else bm_slots m ! b)" if "b < length (bm_slots m)" for b
      using m2(2) m1(3) that by (cases "b = a") (simp_all add: dropped_def)
    show "bm_borrows m l = bm_borrows m2 l + guards (bm_slots m) (a # as) l" for l
      using m2(2) spec [OF m1(4), of l] m1(3) c(2) g by (simp add: dropped_def)
  qed (use m2(2) m1(2,3) in \<open>simp_all add: dropped_def\<close>)
  then show ?case using step m2(1) by simp
qed

subsection \<open>Allocating and chaining\<close>

lemma vlocs_Cons: "vlocs sl (a # as) = (if \<exists>x. sl ! a = Live (CVal x) then {Bump a} else {}) \<union> vlocs sl as"
  by (auto simp: vlocs_def)

lemma accounts_refl: "R \<subseteq> S \<Longrightarrow> accounts S m R (\<lambda>_. 0) [] m"
  by (auto simp: accounts_def fresh_live_def)

text \<open>What one reference owns is older than, and dropped after, what a reference derived from it owns.\<close>

lemma accounts_trans:
  assumes 1: "accounts S m0 R0 (\<lambda>_. 0) as m1" and 2: "accounts (S \<union> vlocs (bm_slots m1) as) m1 R G bs m2"
  shows "accounts S m0 R G (bs @ as) m2" and "\<And>a. a \<in> set as \<Longrightarrow> a < length (bm_slots m2) \<and> bm_slots m2 ! a = bm_slots m1 ! a"
proof -
  obtain ys zs where sl: "bm_slots m1 = bm_slots m0 @ ys" "bm_slots m2 = bm_slots m1 @ zs" using 1 2 by (auto simp: accounts_def)
  have live: "a < length (bm_slots m1)" if "a \<in> set as" for a using 1 that by (auto simp: accounts_def fresh_live_def)
  show same: "a < length (bm_slots m2) \<and> bm_slots m2 ! a = bm_slots m1 ! a" if "a \<in> set as" for a
    using live [OF that] sl(2) by (simp add: nth_append)
  have v: "vlocs (bm_slots m2) as = vlocs (bm_slots m1) as" and g: "guards (bm_slots m2) as = guards (bm_slots m1) as"
    by (rule vlocs_cong, simp add: same) (rule guards_cong, simp add: same)
  have o1: "ordered (bm_slots m1) S as" and o2: "ordered (bm_slots m2) (S \<union> vlocs (bm_slots m2) as) bs"
    using 1 2 v by (simp_all add: accounts_def)
  have "ordered (bm_slots m2) S as" by (rule ordered_cong [OF o1]) (simp_all add: same)
  with o2 have "ordered (bm_slots m2) S (bs @ as)" by (rule ordered_append)
  moreover have "set (bs @ as) = fresh_live (bm_slots m0) (bm_slots m2)"
    using 1 2 sl by (auto simp: accounts_def fresh_live_def nth_append)
  moreover have "distinct (bs @ as)" using 1 2 sl by (auto simp: accounts_def fresh_live_def)
  ultimately show "accounts S m0 R G (bs @ as) m2" using 1 2 sl v g by (auto simp: accounts_def)
qed

lemma accounts_pair:
  assumes "accounts S m0 R G cs m"
  shows "accounts S m0 R G (length (bm_slots m) # cs) (m\<lparr>bm_slots := bm_slots m @ [Live (CPair v w)]\<rparr>)"
proof -
  let ?sl = "bm_slots m @ [Live (CPair v w)]"
  have lt: "a < length (bm_slots m)" if "a \<in> set cs" for a using assms that by (auto simp: accounts_def fresh_live_def)
  then have same: "?sl ! a = bm_slots m ! a" if "a \<in> set cs" for a using that by (simp add: nth_append)
  have v: "vlocs ?sl cs = vlocs (bm_slots m) cs" and g: "guards ?sl cs = guards (bm_slots m) cs"
    by (rule vlocs_cong, simp add: same) (rule guards_cong, simp add: same)
  have "ordered ?sl S cs" by (rule ordered_cong [of "bm_slots m" S]) (use assms same lt in \<open>auto simp: accounts_def less_Suc_eq\<close>)
  moreover have "set (length (bm_slots m) # cs) = fresh_live (bm_slots m0) ?sl"
    using assms by (auto simp: accounts_def fresh_live_def nth_append split: if_splits)
  moreover have "distinct (length (bm_slots m) # cs)" using assms lt by (auto simp: accounts_def)
  ultimately show ?thesis using assms v g by (auto simp: accounts_def vlocs_Cons slot_guard_def)
qed

lemma chain_inv:
  assumes 1: "ref_inv S m0 R0 (\<lambda>_. 0) h as m1" and 2: "ref_inv (S \<union> vlocs (bm_slots m1) as) m1 R G h' bs m2" and ch: "chain h h' m2 = (h3, m3)"
  shows "\<exists>cs. ref_inv S m0 R G h3 cs m3 \<and> set as \<subseteq> set cs \<and> set bs \<subseteq> set cs \<and> (\<forall>a \<in> set bs. bm_slots m3 ! a = bm_slots m2 ! a)"
proof -
  have acc: "accounts S m0 R G (bs @ as) m2" and same: "\<And>a. a \<in> set as \<Longrightarrow> a < length (bm_slots m2) \<and> bm_slots m2 ! a = bm_slots m1 ! a"
    using accounts_trans [of S m0 R0 as m1 R G bs m2] 1 2 by (simp_all add: ref_inv_def)
  have ow: "owns (bm_slots m2) h as" "owns (bm_slots m2) h' bs"
    using 1 2 same by (auto simp: ref_inv_def intro: owns_cong [of "bm_slots m1"])
  show ?thesis
  proof (cases "\<exists>v w. h = Some w \<and> h' = Some v")
    case True
    then obtain v w where hs: "h = Some w" "h' = Some v" by blast
    let ?n = "length (bm_slots m2)" and ?sl = "bm_slots m2 @ [Live (CPair v w)]"
    have m3: "h3 = Some ?n" "m3 = m2\<lparr>bm_slots := ?sl\<rparr>" using ch hs by (simp_all add: chain_def bump_alloc_def)
    have lt: "a < ?n" if "a \<in> set bs \<union> set as" for a using acc that by (auto simp: accounts_def fresh_live_def)
    then have same2: "?sl ! a = bm_slots m2 ! a" if "a \<in> set bs \<union> set as" for a using that by (simp add: nth_append)
    have "tree ?sl v bs" "tree ?sl w as" "v < ?n" "w < ?n"
      using ow hs same2 by (auto simp: owns_def intro: tree_cong)
    then have "owns ?sl (Some ?n) (?n # bs @ as)" by (simp add: owns_def tree_pair)
    then show ?thesis using accounts_pair [OF acc, of v w] m3 same2 by (intro exI [of _ "?n # bs @ as"]) (auto simp: ref_inv_def)
  next
    case False
    then have "owns (bm_slots m2) h3 (bs @ as) \<and> m3 = m2" using ow ch by (cases h; cases h') (auto simp: chain_def owns_def)
    then show ?thesis using acc by (auto simp: ref_inv_def)
  qed
qed

text \<open>A guard moves from a reference into an allocation.\<close>

lemma alloc_inv:
  assumes sl: "bm_slots m = bm_slots m0" "bm_outer m = bm_outer m0" "\<And>l. bm_borrows m l = bm_borrows m0 l + slot_guard (Live c) l"
    and c: "cont_refs c \<subseteq> S" "\<nexists>v w. c = CPair v w" and R: "R \<subseteq> S \<union> (if \<exists>x. c = CVal x then {Bump (length (bm_slots m))} else {})"
  shows "ref_inv S m0 R (\<lambda>_. 0) (Some (length (bm_slots m))) [length (bm_slots m)] (m\<lparr>bm_slots := bm_slots m @ [Live c]\<rparr>)"
proof -
  have "tree (bm_slots m @ [Live c]) (length (bm_slots m)) [length (bm_slots m)]"
    using c(2) by (cases c) (auto intro: tree_val tree_guard)
  then show ?thesis using assms by (auto simp: ref_inv_def accounts_def owns_def fresh_live_def nth_append vlocs_Cons less_Suc_eq)
qed

lemma ref_inv_ghost:
  assumes "ref_inv S m0 R G h as m" and "R' \<subseteq> S \<union> vlocs (bm_slots m) as" and "\<And>l. bm_borrows m l = B l + G l"
  shows "ref_inv S m0 R' (\<lambda>_. 0) h as (m\<lparr>bm_borrows := B\<rparr>)"
  using assms by (auto simp: ref_inv_def accounts_def)

lemma alloc_chain_inv:
  assumes inv: "ref_inv S m0 R G h as m" and c: "cont_refs c \<subseteq> S \<union> vlocs (bm_slots m) as" "\<nexists>v w. c = CPair v w" "G = slot_guard (Live c)"
    and R': "R' \<subseteq> S \<union> vlocs (bm_slots m) as \<union> (if \<exists>x. c = CVal x then {Bump (length (bm_slots m))} else {})"
    and run: "bump_alloc c m = (a, m1)" "chain h (Some a) m1 = (h2, m2)"
  shows "\<exists>bs. ref_inv S m0 R' (\<lambda>_. 0) h2 bs m2"
proof -
  define g where "g = m\<lparr>bm_borrows := \<lambda>l. bm_borrows m l - G l\<rparr>"
  have B: "bm_borrows m l = (bm_borrows m l - G l) + G l" for l using inv by (auto simp: ref_inv_def accounts_def)
  have 1: "ref_inv S m0 {} (\<lambda>_. 0) h as g" unfolding g_def by (rule ref_inv_ghost [OF inv _ B]) simp
  have a: "a = length (bm_slots m)" "m1 = m\<lparr>bm_slots := bm_slots m @ [Live c]\<rparr>" using run(1) by (simp_all add: bump_alloc_def)
  have 2: "ref_inv (S \<union> vlocs (bm_slots g) as) g R' (\<lambda>_. 0) (Some a) [a] m1"
    unfolding a by (rule alloc_inv) (use B c R' in \<open>simp_all add: g_def\<close>)
  show ?thesis using chain_inv [OF 1 2 run(2)] by blast
qed

subsection \<open>The operations keep the invariant\<close>

lemmas data_defs = data_refs_def data_guard_def data_handle_def ref_is_static_def

lemma closed_scope:
  assumes "closed m0 E" and "closed m0 (range Static)" and "ref_inv S m0 R G h as m"
  shows "closed m (scope b E)" and "closed m0 (scope b E)"
proof -
  show c: "closed m0 (scope b E)" using closed_Un [OF assms(2,1)] assms(2) by (cases b) (simp_all add: scope_def)
  show "closed m (scope b E)" using closed_append [OF c] assms(3) by (auto simp: ref_inv_def accounts_def)
qed

lemma ref_inv_refs: "ref_inv S m0 R G h as m \<Longrightarrow> R' \<subseteq> S \<union> vlocs (bm_slots m) as \<Longrightarrow> ref_inv S m0 R' G h as m"
  by (simp add: ref_inv_def accounts_def)

text \<open>What a reference refers to can be read, and what is read there refers to places that can be read.\<close>

lemma ref_inv_read:
  assumes inv: "ref_inv S m0 R G h as m" and cl: "closed m S" and p: "fst p \<in> R"
  obtains x where "read_ptr m p = Inr x" and "val_refs x \<subseteq> S \<union> vlocs (bm_slots m) as"
proof (rule read_closed)
  show "closed m (S \<union> vlocs (bm_slots m) as)" using inv cl by (intro ordered_closed) (auto simp: ref_inv_def accounts_def)
  show "fst p \<in> S \<union> vlocs (bm_slots m) as" using inv p by (auto simp: ref_inv_def accounts_def)
qed (rule that)

lemma pin_inv:
  assumes inv: "data_inv E m0 d as m" and run: "data_pin d m = (s, b, m1)"
  shows "s = ref_is_static d" and "\<exists>bs. ref_inv (scope s E) m0 {fst (mb_p b)} (\<lambda>_. 0) (mb_handle b) bs m1"
proof -
  show s: "s = ref_is_static d"
    using run by (auto simp: data_pin_def ref_is_static_def split: ref_data.splits ref_value.splits raw_ref.splits prod.splits)
  let ?S = "scope s E"
  have i: "ref_inv ?S m0 (data_refs d) (data_guard d) (data_handle d) as m" using inv s by (simp add: data_inv_def)
  have R: "data_refs d \<subseteq> ?S \<union> vlocs (bm_slots m) as" using i by (simp add: ref_inv_def accounts_def)
  let ?n = "length (bm_slots m)"
  have alloc: "\<exists>bs. ref_inv ?S m0 R' (\<lambda>_. 0) h2 bs m2"
    if "cont_refs c \<subseteq> ?S \<union> vlocs (bm_slots m) as" "\<nexists>v w. c = CPair v w" "data_guard d = slot_guard (Live c)"
      "R' \<subseteq> ?S \<union> vlocs (bm_slots m) as \<union> (if \<exists>x. c = CVal x then {Bump ?n} else {})"
      "chain (data_handle d) (Some ?n) (m\<lparr>bm_slots := bm_slots m @ [Live c]\<rparr>) = (h2, m2)" for c R' h2 m2
    by (rule alloc_chain_inv [OF i that(1-4) _ that(5)]) (simp add: bump_alloc_def)
  show "\<exists>bs. ref_inv ?S m0 {fst (mb_p b)} (\<lambda>_. 0) (mb_handle b) bs m1"
  proof (cases d)
    case (ValueStatic x)
    then have "mb_p b = (Bump ?n, \<lambda>v. v)" "chain (data_handle d) (Some ?n) (m\<lparr>bm_slots := bm_slots m @ [Live (CVal x)]\<rparr>) = (mb_handle b, m1)"
      using run by (auto simp: data_pin_def box_alloc_def bump_alloc_def data_defs chain_def)
    then show ?thesis
      using alloc [of "CVal x" "{Bump ?n}"] R ValueStatic by (simp add: data_refs_def data_guard_def slot_guard_def fun_eq_iff)
  next
    case d: (ValueAndOwner st v owner)
    show ?thesis
    proof (cases v)
      case (VEmbedded x)
      then have "mb_p b = (Bump ?n, \<lambda>v. v)" "chain (data_handle d) (Some ?n) (m\<lparr>bm_slots := bm_slots m @ [Live (CVal x)]\<rparr>) = (mb_handle b, m1)"
        using run d by (auto simp: data_pin_def box_alloc_def bump_alloc_def data_defs with_owner_def split: prod.splits)
      then show ?thesis
        using alloc [of "CVal x" "{Bump ?n}"] R d VEmbedded by (simp add: data_refs_def data_guard_def slot_guard_def fun_eq_iff)
    next
      case r: (VRef r)
      show ?thesis
      proof (cases r)
        case (RawPtr p)
        then have "mb_p b = p" "mb_handle b = owner" "m1 = m"
          using run d r by (auto simp: data_pin_def with_owner_def chain_def split: prod.splits option.splits)
        moreover have "data_guard d = (\<lambda>_. 0)" using d r RawPtr by (simp add: data_guard_def fun_eq_iff)
        ultimately show ?thesis using i d r RawPtr by (auto simp: data_refs_def data_handle_def)
      next
        case (RawCell g)
        then have "mb_p b = rg_ptr g" "chain (data_handle d) (Some ?n) (m\<lparr>bm_slots := bm_slots m @ [Live (CGuard g)]\<rparr>) = (mb_handle b, m1)"
          using run d r by (auto simp: data_pin_def box_alloc_def bump_alloc_def data_defs with_owner_def split: prod.splits)
        moreover have "data_guard d = slot_guard (Live (CGuard g))" using d r RawCell by (simp add: data_guard_def slot_guard_def fun_eq_iff)
        ultimately show ?thesis
          using alloc [of "CGuard g" "{fst (rg_ptr g)}"] R d r RawCell by (simp add: data_refs_def)
      qed
    qed
  qed
qed

definition in_arg :: "('v ptr \<Rightarrow> 'v val \<Rightarrow> 'v ptr) \<Rightarrow> bool" where
  "in_arg f \<longleftrightarrow> (\<forall>p x. fst (f p x) \<in> {fst p} \<union> val_refs x \<union> range Static)"

lemma in_arg_scope: "in_arg f \<Longrightarrow> fst p \<in> T \<Longrightarrow> val_refs x \<subseteq> T \<Longrightarrow> range Static \<subseteq> T \<Longrightarrow> fst (f p x) \<in> T"
  unfolding in_arg_def by (drule spec [of _ p], drule spec [of _ x]) auto

lemma scope_static: "range Static \<subseteq> scope b E \<union> X"
  by (auto simp: scope_def)

lemma map_inv:
  assumes inv: "data_inv E m0 d as m" and E: "closed m0 E" "closed m0 (range Static)" and f: "in_arg f"
  shows "\<exists>d' m' bs. state_ref_map f d m = Inr (d', m') \<and> data_inv E m0 d' bs m' \<and> ref_is_static d' = ref_is_static d"
proof (cases "\<exists>s r owner. d = ValueAndOwner s (VRef r) owner")
  case True
  then obtain s r owner where d: "d = ValueAndOwner s (VRef r) owner" by blast
  have i: "ref_inv (scope s E) m0 (data_refs d) (data_guard d) (data_handle d) as m" using inv d by (simp add: data_inv_def ref_is_static_def)
  have R: "data_refs d \<subseteq> scope s E \<union> vlocs (bm_slots m) as" using i by (simp add: ref_inv_def accounts_def)
  define p where "p = (case r of RawPtr p \<Rightarrow> p | RawCell g \<Rightarrow> rg_ptr g)"
  have "fst p \<in> data_refs d" by (cases r) (simp_all add: p_def d data_refs_def)
  from ref_inv_read [OF i closed_scope(1) [OF E i] this]
  obtain x where x: "read_ptr m p = Inr x" "val_refs x \<subseteq> scope s E \<union> vlocs (bm_slots m) as" by blast
  have q: "fst (f p x) \<in> scope s E \<union> vlocs (bm_slots m) as"
    by (rule in_arg_scope [OF f _ x(2) scope_static]) (use \<open>fst p \<in> data_refs d\<close> R in blast)
  define r' where "r' = (case r of RawPtr p \<Rightarrow> RawPtr (f p x) | RawCell g \<Rightarrow> RawCell (g\<lparr>rg_ptr := f (rg_ptr g) x\<rparr>))"
  let ?d = "ValueAndOwner s (VRef r') owner"
  have run: "state_ref_map f d m = Inr (?d, m)" using x(1) by (cases r) (simp_all add: d state_ref_map_def raw_ref_map_def r'_def p_def)
  have "data_refs ?d \<subseteq> scope s E \<union> vlocs (bm_slots m) as" and "data_guard ?d = data_guard d" and "data_handle ?d = data_handle d"
    using R q by (cases r; auto simp: d r'_def p_def data_defs fun_eq_iff)+
  then have "data_inv E m0 ?d as m" using ref_inv_refs [OF i] by (simp add: data_inv_def ref_is_static_def)
  then show ?thesis using run by (auto simp: d ref_is_static_def)
next
  case False
  obtain s b m1 where pin: "data_pin d m = (s, b, m1)" by (cases "data_pin d m")
  obtain bs where i: "ref_inv (scope s E) m0 {fst (mb_p b)} (\<lambda>_. 0) (mb_handle b) bs m1" using pin_inv(2) [OF inv pin] by blast
  from ref_inv_read [OF i closed_scope(1) [OF E i]]
  obtain x where x: "read_ptr m1 (mb_p b) = Inr x" "val_refs x \<subseteq> scope s E \<union> vlocs (bm_slots m1) bs" by blast
  have q: "fst (f (mb_p b) x) \<in> scope s E \<union> vlocs (bm_slots m1) bs"
    by (rule in_arg_scope [OF f _ x(2) scope_static]) (use i in \<open>auto simp: ref_inv_def accounts_def\<close>)
  let ?d = "box_into_data s (b\<lparr>mb_p := f (mb_p b) x\<rparr>)"
  have run: "state_ref_map f d m = Inr (?d, m1)"
    using False pin x(1) by (auto simp: state_ref_map_def box_map_def split: ref_data.split ref_value.split)
  have "data_refs ?d = {fst (f (mb_p b) x)}" "data_guard ?d = (\<lambda>_. 0)" "data_handle ?d = mb_handle b" "ref_is_static ?d = s"
    by (simp_all add: box_into_data_def data_defs fun_eq_iff)
  then have "data_inv E m0 ?d bs m1" using ref_inv_refs [OF i, of "{fst (f (mb_p b) x)}"] q by (simp add: data_inv_def)
  then show ?thesis using run pin_inv(1) [OF inv pin] \<open>ref_is_static ?d = s\<close> by auto
qed

text \<open>The owner is dropped while a reference that does not need it lives on.\<close>

lemma ref_inv_prefix:
  assumes "ref_inv S m0 R G h as m"
  obtains ys where "bm_slots m = bm_slots m0 @ ys" and "\<And>a. a \<in> set as \<Longrightarrow> length (bm_slots m0) \<le> a \<and> a < length (bm_slots m)"
  using assms by (auto simp: ref_inv_def accounts_def fresh_live_def)

lemma owner_drops:
  assumes 1: "ref_inv S m0 R0 (\<lambda>_. 0) h as m1" and 2: "ref_inv S' m1 R G h' bs m2" and cl: "closed m0 S"
  shows "\<exists>m3. handle_drop h m2 = Inr m3 \<and> dropped as m2 m3" and "guards (bm_slots m2) as = guards (bm_slots m1) as"
proof -
  obtain ys where ys: "bm_slots m1 = bm_slots m0 @ ys" and live: "\<And>a. a \<in> set as \<Longrightarrow> length (bm_slots m0) \<le> a \<and> a < length (bm_slots m1)"
    using ref_inv_prefix [OF 1] by blast
  obtain zs where zs: "bm_slots m2 = bm_slots m1 @ zs" using ref_inv_prefix [OF 2] by blast
  have same: "a < length (bm_slots m2) \<and> bm_slots m2 ! a = bm_slots m1 ! a" if "a \<in> set as" for a
    using live [OF that] zs by (simp add: nth_append)
  have ord: "ordered (bm_slots m2) S as" and ow: "owns (bm_slots m2) h as"
    using 1 same by (auto simp: ref_inv_def accounts_def intro: ordered_cong [of "bm_slots m1" S] owns_cong [of "bm_slots m1"])
  show g: "guards (bm_slots m2) as = guards (bm_slots m1) as" by (rule guards_cong) (simp add: same)
  have cl2: "closed m2 S" using closed_append [OF cl, of m2 "ys @ zs"] ys zs 1 2 by (simp add: ref_inv_def accounts_def)
  have out: "Bump a \<notin> S" if "a \<in> set as" for a using closed_bump [OF cl, of a] live [OF that] by auto
  have le: "guards (bm_slots m2) as l \<le> bm_borrows m2 l" for l using 1 2 g by (simp add: ref_inv_def accounts_def)
  have d: "distinct as" using 1 by (simp add: ref_inv_def accounts_def)
  show "\<exists>m3. handle_drop h m2 = Inr m3 \<and> dropped as m2 m3"
    using drop_list_ok [OF ord d cl2 out le] handle_drop_list [OF ow d ord] by simp
qed

lemma dropped_slots:
  assumes "dropped as m m'"
  shows "length (bm_slots m') = length (bm_slots m)" and "b < length (bm_slots m) \<Longrightarrow> bm_slots m' ! b = (if b \<in> set as then Dropped else bm_slots m ! b)"
  using assms by (simp_all add: dropped_def)

lemma dropped_prefix:
  assumes 1: "ref_inv S m0 R0 G0 h as m1" and 2: "ref_inv S' m1 R G h' bs m2" and dr: "dropped as m2 m3"
  shows "\<exists>us. bm_slots m3 = bm_slots m0 @ us"
proof -
  obtain ys where ys: "bm_slots m1 = bm_slots m0 @ ys" and live: "\<And>a. a \<in> set as \<Longrightarrow> length (bm_slots m0) \<le> a" using ref_inv_prefix [OF 1] by blast
  obtain zs where zs: "bm_slots m2 = bm_slots m1 @ zs" using ref_inv_prefix [OF 2] by blast
  have "take (length (bm_slots m0)) (bm_slots m3) = bm_slots m0"
  proof (rule nth_equalityI)
    fix k assume "k < length (take (length (bm_slots m0)) (bm_slots m3))"
    then have k: "k < length (bm_slots m0)" by simp
    then have "k \<notin> set as" using live [of k] by auto
    then show "take (length (bm_slots m0)) (bm_slots m3) ! k = bm_slots m0 ! k" using dropped_slots(2) [OF dr, of k] k ys zs by (simp add: nth_append)
  qed (use ys zs dropped_slots(1) [OF dr] in simp)
  then show ?thesis by (metis append_take_drop_id)
qed

lemma dropped_fresh:
  assumes 1: "ref_inv S m0 R0 G0 h as m1" and 2: "ref_inv S' m1 R G h' bs m2" and dr: "dropped as m2 m3"
  shows "set bs = fresh_live (bm_slots m0) (bm_slots m3)"
proof (rule set_eqI)
  fix b
  obtain ys where ys: "bm_slots m1 = bm_slots m0 @ ys" and live: "\<And>a. a \<in> set as \<Longrightarrow> a < length (bm_slots m1)" using ref_inv_prefix [OF 1] by blast
  obtain zs where zs: "bm_slots m2 = bm_slots m1 @ zs" using ref_inv_prefix [OF 2] by blast
  have "set as = fresh_live (bm_slots m0) (bm_slots m1)" "set bs = fresh_live (bm_slots m1) (bm_slots m2)"
    using 1 2 by (simp_all add: ref_inv_def accounts_def)
  note fl = this [unfolded fresh_live_def set_eq_iff mem_Collect_eq]
  show "b \<in> set bs \<longleftrightarrow> b \<in> fresh_live (bm_slots m0) (bm_slots m3)"
  proof (cases "b < length (bm_slots m1)")
    case True
    then have "bm_slots m2 ! b = bm_slots m1 ! b" and "b < length (bm_slots m2)" using zs by (simp_all add: nth_append)
    then show ?thesis using fl [rule_format, of b] dropped_slots(2) [OF dr, of b] True by (auto simp: fresh_live_def)
  next
    case False
    then have "b \<notin> set as" and "length (bm_slots m0) \<le> b" using live [of b] ys by auto
    then show ?thesis using spec [OF fl(2), of b] dropped_slots(1) [OF dr] dropped_slots(2) [OF dr, of b] False by (auto simp: fresh_live_def)
  qed
qed

lemma drop_owner_inv:
  assumes 1: "ref_inv S m0 R0 (\<lambda>_. 0) h as m1" and 2: "ref_inv S' m1 R G h' bs m2" and cl: "closed m0 S"
  shows "\<exists>m3. handle_drop h m2 = Inr m3 \<and> ref_inv S' m0 R G h' bs m3"
proof -
  obtain m3 where m3: "handle_drop h m2 = Inr m3" and dr: "dropped as m2 m3" using owner_drops(1) [OF 1 2 cl] by blast
  have keep: "bm_slots m2 ! b = bm_slots m3 ! b \<and> b < length (bm_slots m3)" if "b \<in> set bs" for b
  proof -
    have b: "length (bm_slots m1) \<le> b" "b < length (bm_slots m2)" using ref_inv_prefix [OF 2] that by blast+
    then have "b \<notin> set as" using ref_inv_prefix [OF 1] leD by blast
    then show ?thesis using dropped_slots(1) [OF dr] dropped_slots(2) [OF dr, of b] b(2) by simp
  qed
  have "ordered (bm_slots m3) S' bs" and "owns (bm_slots m3) h' bs"
    using 2 keep by (auto simp: ref_inv_def accounts_def intro: ordered_cong [of "bm_slots m2" S'] owns_cong [of "bm_slots m2"])
  moreover have "vlocs (bm_slots m3) bs = vlocs (bm_slots m2) bs" and "guards (bm_slots m3) bs = guards (bm_slots m2) bs"
    using vlocs_cong [of bs "bm_slots m2" "bm_slots m3"] guards_cong [of bs "bm_slots m2" "bm_slots m3"] keep by simp_all
  moreover have "bm_borrows m3 l = bm_borrows m0 l + guards (bm_slots m2) bs l + G l" for l
  proof -
    have "bm_borrows m2 l = bm_borrows m3 l + guards (bm_slots m2) as l" using dr by (simp add: dropped_def)
    then show ?thesis using 1 2 owner_drops(2) [OF 1 2 cl] by (simp add: ref_inv_def accounts_def)
  qed
  ultimately show ?thesis using m3 1 2 dr dropped_prefix [OF 1 2 dr] dropped_fresh [OF 1 2 dr] by (simp add: ref_inv_def accounts_def dropped_def)
qed

definition scoped_run :: "loc set \<Rightarrow> bool \<Rightarrow> ('v ptr \<Rightarrow> 'v val \<Rightarrow> 'v bump \<Rightarrow> ('v ref_data \<times> 'v bump) result) \<Rightarrow> bool \<Rightarrow> bool" where
  "scoped_run E s f Q \<longleftrightarrow> (\<forall>p x T m. fst p \<in> T \<and> val_refs x \<subseteq> T \<and> scope s E \<subseteq> T \<and> closed m T \<and> closed m (range Static)
     \<longrightarrow> (\<exists>d m1 as. f p x m = Inr (d, m1) \<and> data_inv T m d as m1 \<and> (ref_is_static d \<longrightarrow> Q)))"

lemma map_ref_inv:
  assumes inv: "data_inv E m0 d as m" and E: "closed m0 E" "closed m0 (range Static)" and f: "scoped_run E (ref_is_static d) f Q"
  shows "\<exists>d' m' bs. state_ref_map_ref f d m = Inr (d', m') \<and> data_inv E m0 d' bs m' \<and> (ref_is_static d' \<longrightarrow> ref_is_static d \<or> Q)"
proof -
  obtain s b m1 where pin: "data_pin d m = (s, b, m1)" by (cases "data_pin d m")
  have s: "s = ref_is_static d" by (rule pin_inv(1) [OF inv pin])
  obtain bs where i: "ref_inv (scope s E) m0 {fst (mb_p b)} (\<lambda>_. 0) (mb_handle b) bs m1" using pin_inv(2) [OF inv pin] by blast
  let ?T = "scope s E \<union> vlocs (bm_slots m1) bs"
  from ref_inv_read [OF i closed_scope(1) [OF E i]]
  obtain x where x: "read_ptr m1 (mb_p b) = Inr x" "val_refs x \<subseteq> ?T" by blast
  have "closed m1 ?T" using i closed_scope(1) [OF E i] by (intro ordered_closed) (auto simp: ref_inv_def accounts_def)
  moreover have "closed m1 (range Static)" using closed_scope(1) [OF E i, of True] by (simp add: scope_def)
  moreover have "fst (mb_p b) \<in> ?T" using i by (auto simp: ref_inv_def accounts_def)
  ultimately have "\<exists>d' m2 cs. f (mb_p b) x m1 = Inr (d', m2) \<and> data_inv ?T m1 d' cs m2 \<and> (ref_is_static d' \<longrightarrow> Q)"
    using x(2) by (intro f [unfolded scoped_run_def s [symmetric], rule_format]) simp
  then obtain d' m2 cs where run: "f (mb_p b) x m1 = Inr (d', m2)" and i2: "data_inv ?T m1 d' cs m2" and Q: "ref_is_static d' \<longrightarrow> Q" by blast
  have step: "state_ref_map_ref f d m = (case d' of
      ValueAndOwner False v owner \<Rightarrow> (let (h, m3) = chain (mb_handle b) owner m2 in Inr (ValueAndOwner s v h, m3))
    | _ \<Rightarrow> res_bind (handle_drop (mb_handle b) m2) (\<lambda>m3. Inr (d', m3)))"
    using pin x(1) run by (simp add: state_ref_map_ref_def)
  show ?thesis
  proof (cases "ref_is_static d'")
    case True
    then have "ref_inv (range Static) m1 (data_refs d') (data_guard d') (data_handle d') cs m2" using i2 by (simp add: data_inv_def scope_def)
    from drop_owner_inv [OF i this closed_scope(2) [OF E i]]
    obtain m3 where m3: "handle_drop (mb_handle b) m2 = Inr m3" "ref_inv (range Static) m0 (data_refs d') (data_guard d') (data_handle d') cs m3" by blast
    have "state_ref_map_ref f d m = Inr (d', m3)" using step m3(1) True by (auto simp: ref_is_static_def split: ref_data.splits bool.splits)
    moreover have "data_inv E m0 d' cs m3" using m3(2) True by (simp add: data_inv_def scope_def)
    ultimately show ?thesis using Q True by blast
  next
    case False
    then obtain v owner where d': "d' = ValueAndOwner False v owner" by (cases d') (auto simp: ref_is_static_def)
    obtain h m3 where ch: "chain (mb_handle b) owner m2 = (h, m3)" by (cases "chain (mb_handle b) owner m2")
    have "scope False ?T = ?T" using scope_static [of s E] by (auto simp: scope_def)
    then have i2': "ref_inv ?T m1 (data_refs d') (data_guard d') owner cs m2" using i2 d' by (simp add: data_inv_def ref_is_static_def data_handle_def)
    obtain es where es: "ref_inv (scope s E) m0 (data_refs d') (data_guard d') h es m3" using chain_inv [OF i i2' ch] by blast
    let ?d = "ValueAndOwner s v h"
    have "data_refs ?d = data_refs d'" "data_guard ?d = data_guard d'" using d' by (simp_all add: data_refs_def data_guard_def fun_eq_iff)
    then have "data_inv E m0 ?d es m3" using es by (simp add: data_inv_def ref_is_static_def data_handle_def)
    moreover have "state_ref_map_ref f d m = Inr (?d, m3)" using step d' ch by simp
    ultimately show ?thesis using s by (auto simp: ref_is_static_def)
  qed
qed

text \<open>Nothing is left of a reference after its drop but dropped allocations.\<close>

definition restored :: "'v bump \<Rightarrow> 'v bump \<Rightarrow> bool" where
  "restored m m' \<longleftrightarrow> bm_outer m' = bm_outer m \<and> bm_borrows m' = bm_borrows m \<and> (\<exists>n. bm_slots m' = bm_slots m @ replicate n Dropped)"

lemma handle_drop_restores:
  assumes i: "ref_inv S m0 R (\<lambda>_. 0) h as m" and cl: "closed m0 S"
  shows "\<exists>m'. handle_drop h m = Inr m' \<and> restored m0 m'"
proof -
  have "ref_inv {} m {} (\<lambda>_. 0) None [] m" by (simp add: ref_inv_def accounts_refl owns_def)
  from drop_owner_inv [OF i this cl] obtain m' where m': "handle_drop h m = Inr m'" "accounts {} m0 {} (\<lambda>_. 0) [] m'"
    by (auto simp: ref_inv_def)
  then obtain ys where ys: "bm_slots m' = bm_slots m0 @ ys" by (auto simp: accounts_def)
  have "y = Dropped" if y: "y \<in> set ys" for y
  proof -
    obtain k where k: "k < length ys" "ys ! k = y" using y unfolding in_set_conv_nth by blast
    then have "length (bm_slots m0) + k \<notin> fresh_live (bm_slots m0) (bm_slots m')" using m'(2) by (simp add: accounts_def)
    moreover have "bm_slots m' ! (length (bm_slots m0) + k) = y" "length (bm_slots m0) + k < length (bm_slots m')" using k ys by simp_all
    ultimately show ?thesis by (simp add: fresh_live_def)
  qed
  then have "replicate (length ys) Dropped = ys" by (intro replicate_length_same) blast
  with ys have "\<exists>n. bm_slots m' = bm_slots m0 @ replicate n Dropped" by metis
  then show ?thesis using m' by (simp add: restored_def accounts_def fun_eq_iff)
qed

lemma data_drop_restores:
  assumes inv: "data_inv E m0 d as m" and E: "closed m0 E" "closed m0 (range Static)"
  shows "\<exists>m'. data_drop d m = Inr m' \<and> restored m0 m'"
proof -
  let ?S = "scope (ref_is_static d) E"
  have i: "ref_inv ?S m0 (data_refs d) (data_guard d) (data_handle d) as m" using inv by (simp add: data_inv_def)
  have cl: "closed m0 ?S" "closed m ?S" using closed_scope [OF E i] by blast+
  show ?thesis
  proof (cases "\<exists>s g owner. d = ValueAndOwner s (VRef (RawCell g)) owner")
    case True
    then obtain s g owner where d: "d = ValueAndOwner s (VRef (RawCell g)) owner" by blast
    have "rg_cell g \<in> ?S \<union> vlocs (bm_slots m) as" using i d by (simp add: ref_inv_def accounts_def data_refs_def)
    moreover have "closed m (?S \<union> vlocs (bm_slots m) as)" using i cl(2) by (intro ordered_closed) (auto simp: ref_inv_def accounts_def)
    ultimately obtain x where x: "content m (rg_cell g) = Inr (CVal x)" unfolding closed_def by blast
    have b: "bm_borrows m l = bm_borrows m0 l + guards (bm_slots m) as l + data_guard d l" for l using i by (simp add: ref_inv_def accounts_def)
    then have pos: "0 < bm_borrows m (rg_cell g)" using d by (simp add: data_guard_def)
    let ?B = "(bm_borrows m)(rg_cell g := bm_borrows m (rg_cell g) - 1)"
    have "bm_borrows m l = ?B l + data_guard d l" for l using pos d by (cases "rg_cell g = l") (auto simp: data_guard_def)
    from ref_inv_ghost [OF i _ this, of "{}"] have "ref_inv ?S m0 {} (\<lambda>_. 0) owner as (m\<lparr>bm_borrows := ?B\<rparr>)"
      using d by (simp add: data_handle_def fun_upd_def)
    then show ?thesis using handle_drop_restores [OF _ cl(1)] x pos d by (simp add: data_drop_def drop_guard_def)
  next
    case False
    then have "data_guard d = (\<lambda>_. 0)" by (auto simp: data_guard_def fun_eq_iff split: ref_data.splits ref_value.splits raw_ref.splits)
    then have "\<exists>m'. handle_drop (data_handle d) m = Inr m' \<and> restored m0 m'" using handle_drop_restores [OF _ cl(1)] i by simp
    moreover have "data_drop d m = handle_drop (data_handle d) m"
      using False by (auto simp: data_drop_def data_handle_def handle_drop_def split: ref_data.splits ref_value.splits raw_ref.splits)
    ultimately show ?thesis by simp
  qed
qed

lemma data_deref_ok:
  assumes inv: "data_inv E m0 d as m" and E: "closed m0 E" "closed m0 (range Static)"
  shows "\<exists>x. data_deref m d = Inr x"
proof -
  let ?S = "scope (ref_is_static d) E"
  have i: "ref_inv ?S m0 (data_refs d) (data_guard d) (data_handle d) as m" using inv by (simp add: data_inv_def)
  have read: "\<exists>x. read_ptr m p = Inr x" if "fst p \<in> data_refs d" for p
    by (rule ref_inv_read [OF i closed_scope(1) [OF E i] that]) blast
  show ?thesis using read [of "case d of ValueAndOwner _ (VRef (RawPtr p)) _ \<Rightarrow> p | ValueAndOwner _ (VRef (RawCell g)) _ \<Rightarrow> rg_ptr g"]
    by (auto simp: data_deref_def data_refs_def split: ref_data.splits ref_value.splits raw_ref.splits)
qed

subsection \<open>Any code\<close>

lemma alloc_data_inv:
  assumes "val_refs x \<subseteq> scope s E" and "box_alloc (CVal x) m = (b, m1)"
  shows "\<exists>as. data_inv E m (box_into_data s b) as m1"
proof -
  have b: "b = \<lparr>mb_p = (Bump (length (bm_slots m)), \<lambda>v. v), mb_handle = Some (length (bm_slots m))\<rparr>" "m1 = m\<lparr>bm_slots := bm_slots m @ [Live (CVal x)]\<rparr>"
    using assms(2) by (auto simp: box_alloc_def bump_alloc_def)
  have "ref_inv (scope s E) m {Bump (length (bm_slots m))} (\<lambda>_. 0) (mb_handle b) [length (bm_slots m)] m1"
    using alloc_inv [of m m "CVal x" "scope s E" "{Bump (length (bm_slots m))}"] assms(1) b by (simp add: slot_guard_def)
  moreover have "data_refs (box_into_data s b) = {Bump (length (bm_slots m))}" "data_guard (box_into_data s b) = (\<lambda>_. 0)"
      "data_handle (box_into_data s b) = mb_handle b" "ref_is_static (box_into_data s b) = s"
    using b by (simp_all add: box_into_data_def data_defs fun_eq_iff)
  ultimately show ?thesis by (auto simp: data_inv_def)
qed

lemma plain_data_inv:
  assumes "data_refs d \<subseteq> scope (ref_is_static d) E" and "data_handle d = None"
  shows "data_guard d = (\<lambda>_. 0) \<Longrightarrow> data_inv E m d [] m"
  using assms by (simp add: data_inv_def ref_inv_def owns_def accounts_refl)

definition code_inv :: "('v val \<Rightarrow> nat \<times> nat) \<Rightarrow> 'v ref_code \<Rightarrow> loc set \<Rightarrow> 'v bump \<Rightarrow> bool" where
  "code_inv ly c E m \<longleftrightarrow> (\<exists>d m1 as. run_code ly c m = Inr (d, m1) \<and> data_inv E m d as m1 \<and> (ref_is_static d \<longrightarrow> may_static c))"

lemma value_inv: "code_inv ly (CodeValue v) E m"
proof (cases "embedded_new ly 3 (Plain v)")
  case (Inl x)
  then have x: "x = Plain v" by (auto simp: embedded_new_def split: if_splits)
  obtain b m1 where b: "box_alloc (CVal x) m = (b, m1)" by (cases "box_alloc (CVal x) m")
  then show ?thesis using Inl alloc_data_inv [OF _ b, of True E] x by (auto simp: code_inv_def from_value_ref_def)
next
  case (Inr x)
  then have "data_inv E m (ValueStatic x) [] m"
    by (intro plain_data_inv) (auto simp: embedded_new_def data_defs fun_eq_iff split: if_splits)
  then show ?thesis using Inr by (auto simp: code_inv_def from_value_ref_def)
qed

lemma non_static_inv:
  assumes y: "val_refs y \<subseteq> E"
  shows "code_inv ly (CodeNonStatic y) E m"
proof (cases "embedded_new ly 1 y")
  case (Inl x)
  then have x: "x = y" by (auto simp: embedded_new_def split: if_splits)
  obtain b m1 where b: "box_alloc (CVal x) m = (b, m1)" by (cases "box_alloc (CVal x) m")
  have "val_refs x \<subseteq> scope False E" using y x by (auto simp: scope_def)
  then show ?thesis
    using Inl alloc_data_inv [OF _ b, of False E] b by (auto simp: code_inv_def from_value_non_static_def box_into_data_def ref_is_static_def)
next
  case (Inr x)
  then have "x = y" by (auto simp: embedded_new_def split: if_splits)
  then have "data_inv E m (ValueAndOwner False (VEmbedded x) None) [] m"
    using y by (intro plain_data_inv) (auto simp: data_defs fun_eq_iff scope_def)
  then show ?thesis using Inr by (auto simp: code_inv_def from_value_non_static_def ref_is_static_def)
qed

lemma cell_inv:
  assumes l: "l \<in> E" and E: "closed m E" "range Static \<subseteq> E"
  shows "code_inv ly (CodeCell l g) E m"
proof -
  obtain x where x: "content m l = Inr (CVal x)" using l E(1) unfolding closed_def by auto
  let ?g = "\<lparr>rg_cell = l, rg_ptr = (l, g)\<rparr>" and ?m = "m\<lparr>bm_borrows := (bm_borrows m)(l := Suc (bm_borrows m l))\<rparr>"
  have "accounts E m {} (\<lambda>_. 0) [] m" by (rule accounts_refl) simp
  then have "accounts E m {l} (\<lambda>k. if l = k then 1 else 0) [] ?m" using l by (simp add: accounts_def)
  moreover have "scope False E = E" using E(2) by (auto simp: scope_def)
  ultimately have "data_inv E m (ref_from_cell ?g) [] ?m"
    by (simp add: data_inv_def ref_inv_def owns_def ref_from_cell_def data_refs_def data_guard_def [abs_def] data_handle_def ref_is_static_def)
  then show ?thesis using x by (auto simp: code_inv_def cell_borrow_def ref_from_cell_def ref_is_static_def)
qed

text \<open>The closure of \<open>map_ref\<close> may be run in any scope that contains what it may use.\<close>

lemma closure_scoped:
  assumes life: "confined (CodeMapRef c f) E" and s: "s \<longrightarrow> may_static c"
    and IH: "\<And>p x T m. confined (f p x) T \<Longrightarrow> closed m T \<Longrightarrow> closed m (range Static) \<Longrightarrow> range Static \<subseteq> T \<Longrightarrow> code_inv ly (f p x) T m"
  shows "scoped_run E s (\<lambda>p x. run_code ly (f p x)) (\<exists>p x. may_static (f p x))"
  unfolding scoped_run_def
proof (intro allI impI, elim conjE)
  fix p :: "'a ptr" and x :: "'a val" and T and m :: "'a bump"
  assume T: "fst p \<in> T" "val_refs x \<subseteq> T" "scope s E \<subseteq> T" "closed m T" "closed m (range Static)"
  have "confined (f p x) ({fst p} \<union> val_refs x \<union> range Static \<union> (if may_static c then {} else E))"
    using life unfolding confined.simps by blast
  then have "confined (f p x) T" by (rule confined_mono) (use T s in \<open>auto simp: scope_def split: if_splits\<close>)
  moreover have "range Static \<subseteq> T" using T(3) by (auto simp: scope_def)
  ultimately show "\<exists>d m1 as. run_code ly (f p x) m = Inr (d, m1) \<and> data_inv T m d as m1 \<and> (ref_is_static d \<longrightarrow> (\<exists>p x. may_static (f p x)))"
    using IH [of p x T m] T(4,5) unfolding code_inv_def by blast
qed

lemma run_code_inv:
  assumes "confined c E" and "closed m E" and "closed m (range Static)" and "range Static \<subseteq> E"
  shows "code_inv ly c E m"
  using assms
proof (induction c arbitrary: E m)
  case (CodeRef p)
  then have "data_inv E m (ref_from_ptr p) [] m" by (intro plain_data_inv) (auto simp: ref_from_ptr_def data_defs fun_eq_iff scope_def)
  then show ?case by (auto simp: code_inv_def ref_from_ptr_def ref_is_static_def)
next
  case (CodeMap c f)
  then obtain d m1 as where d: "run_code ly c m = Inr (d, m1)" "data_inv E m d as m1" "ref_is_static d \<longrightarrow> may_static c"
    using CodeMap.IH [OF _ CodeMap.prems(2-4)] CodeMap.prems(1) unfolding confined.simps code_inv_def by blast
  have "in_arg f" using CodeMap.prems(1) by (simp add: in_arg_def)
  from map_inv [OF d(2) CodeMap.prems(2,3) this] show ?case using d(1,3) by (auto simp: code_inv_def)
next
  case (CodeMapRef c f)
  have lc: "confined c E" using CodeMapRef.prems(1) by simp
  obtain d m1 as where d: "run_code ly c m = Inr (d, m1)" "data_inv E m d as m1" "ref_is_static d \<longrightarrow> may_static c"
    using CodeMapRef.IH(1) [OF lc CodeMapRef.prems(2-4)] unfolding code_inv_def by blast
  have "scoped_run E (ref_is_static d) (\<lambda>p x. run_code ly (f p x)) (\<exists>p x. may_static (f p x))"
    by (rule closure_scoped [OF CodeMapRef.prems(1) d(3) CodeMapRef.IH(2) [OF rangeI rangeI]])
  from map_ref_inv [OF d(2) CodeMapRef.prems(2,3) this] show ?case using d(1,3) by (auto simp: code_inv_def)
qed (simp_all add: value_inv non_static_inv cell_inv)

text \<open>
  C37. Memory safety of \<open>StateRef\<close>, under a condition on the closures of \<open>map_ref\<close>. Code that follows the rules of lifetimes, and in which the closure of a \<open>map_ref\<close> that is applied to a reference that may be
  static does not refer to what it captures, builds its reference without an access to a dropped value, whatever is stored inline and whatever in
  the allocator. The reference can be read, and by \<open>into_owned\<close> too; dropping it drops everything it owns exactly once, in an order in which no guard
  outlives its cell: afterwards nothing that was allocated is left undropped, and every shared borrow has been given back. The condition is not stated by the
  signatures, and it cannot be left out: \<open>ex_dangling\<close> below follows the rules of lifetimes without it, and its result dangles.
\<close>

theorem state_ref_memory_safe:
  assumes code: "lifetimes c E" and apart: "static_apart c" and places: "closed m E" "closed m (range Static)" "range Static \<subseteq> E"
  shows "\<exists>d m1 x. run_code ly c m = Inr (d, m1) \<and> data_deref m1 d = Inr x
    \<and> (\<exists>m2. data_drop d m1 = Inr m2 \<and> restored m m2) \<and> (\<exists>m2. ref_into_owned d m1 = Inr (x, m2) \<and> restored m m2)"
proof -
  obtain d m1 as where d: "run_code ly c m = Inr (d, m1)" "data_inv E m d as m1" using run_code_inv [OF lifetimes_confined [OF code apart] places] unfolding code_inv_def by blast
  obtain x where x: "data_deref m1 d = Inr x" using data_deref_ok [OF d(2) places(1,2)] by blast
  obtain m2 where m2: "data_drop d m1 = Inr m2" "restored m m2" using data_drop_restores [OF d(2) places(1,2)] by blast
  have "\<exists>m2. ref_into_owned d m1 = Inr (x, m2) \<and> restored m m2"
    using x m2 by (cases d) (auto simp: ref_into_owned_def data_deref_def data_drop_def)
  then show ?thesis using d(1) x m2 by blast
qed

text \<open>The cell holds 5; the inner reference is derived from a guard that is moved into the allocator, and a value of 100 bytes is derived from that.\<close>

definition ex_bump :: "nat bump" where
  "ex_bump = \<lparr>bm_outer = (\<lambda>_. Plain 5), bm_slots = [], bm_borrows = (\<lambda>_. 0)\<rparr>"

definition ex_code :: "nat ref_code" where
  "ex_code = CodeMapRef (CodeMapRef (CodeCell (Outer 0) (\<lambda>v. v)) (\<lambda>p x. CodeNonStatic (RefTo p)))
     (\<lambda>p x. CodeMap (CodeRef p) (\<lambda>p x. case x of RefTo q \<Rightarrow> q | Plain _ \<Rightarrow> p))"

theorem state_ref_memory_safe_witness:
  "\<exists>d m1. run_code (\<lambda>_. (100, 8)) ex_code ex_bump = Inr (d, m1) \<and> data_deref m1 d = Inr (Plain 5) \<and> length (bm_slots m1) = 3
    \<and> (\<exists>m2. data_drop d m1 = Inr m2 \<and> restored ex_bump m2)"
proof -
  have "lifetimes ex_code (range Static \<union> {Outer 0})" "static_apart ex_code" by (auto simp: ex_code_def split: val.splits)
  moreover have "closed ex_bump (range Static \<union> {Outer 0})" "closed ex_bump (range Static)" by (auto simp: closed_def content_def ex_bump_def)
  ultimately obtain d m1 where d: "run_code (\<lambda>_. (100, 8)) ex_code ex_bump = Inr (d, m1)" "\<exists>m2. data_drop d m1 = Inr m2 \<and> restored ex_bump m2"
    using state_ref_memory_safe [of ex_code "range Static \<union> {Outer 0}" ex_bump "\<lambda>_. (100, 8)"] by auto
  moreover have "data_deref m1 d = Inr (Plain 5) \<and> length (bm_slots m1) = 3"
    using d(1) by (auto simp: ex_code_def ex_bump_def cell_borrow_def content_def ref_from_cell_def state_ref_map_ref_def data_pin_def box_alloc_def
        bump_alloc_def with_owner_def chain_def read_ptr_def from_value_non_static_def embedded_new_def is_supported_def box_into_data_def
        ref_from_ptr_def state_ref_map_def raw_ref_map_def data_deref_def)
  ultimately show ?thesis by blast
qed

subsection \<open>A static reference to something that is not\<close>

text \<open>
  The condition on closures of \<open>map_ref\<close> that are applied to a static reference is needed, and the signature does not state it. The inner closure below returns a value that
  refers to the argument of the outer one. Because it is applied to a static reference, the result claims to be static too, and the outer
  \<open>map_ref\<close> drops what it refers to.
\<close>

definition ex_dangling :: "nat ref_code" where
  "ex_dangling = CodeMapRef (CodeValue 7)
     (\<lambda>s x. CodeMap (CodeMapRef (CodeValue 0) (\<lambda>p y. CodeNonStatic (RefTo s))) (\<lambda>p x. case x of RefTo q \<Rightarrow> q | Plain _ \<Rightarrow> p))"

lemma static_map_ref_dangles:
  "lifetimes ex_dangling (range Static) \<and> \<not> static_apart ex_dangling
    \<and> (\<exists>d m1. run_code (\<lambda>_. (8, 8)) ex_dangling ex_bump = Inr (d, m1) \<and> ref_is_static d \<and> data_deref m1 d = Inl UseAfterDrop)"
proof -
  have "lifetimes ex_dangling (range Static)" by (auto simp: ex_dangling_def split: val.splits)
  moreover have "\<not> static_apart ex_dangling"
  proof
    assume "static_apart ex_dangling"
    then have "val_refs (RefTo s) \<subseteq> {fst p} \<union> val_refs y \<union> range Static" for s p :: "nat ptr" and y :: "nat val"
      unfolding ex_dangling_def static_apart.simps may_static.simps lifetimes.simps by blast
    from this [of "(Outer 0, \<lambda>v. v)" "(Outer 1, \<lambda>v. v)" "Plain 0"] show False by auto
  qed
  moreover have "\<exists>d m1. run_code (\<lambda>_. (8, 8)) ex_dangling ex_bump = Inr (d, m1) \<and> ref_is_static d \<and> data_deref m1 d = Inl UseAfterDrop"
  by (simp add: ex_dangling_def ex_bump_def content_def state_ref_map_ref_def data_pin_def box_alloc_def handle_drop_def kill_def
      bump_alloc_def with_owner_def chain_def read_ptr_def from_value_ref_def from_value_non_static_def embedded_new_def is_supported_def box_into_data_def
      state_ref_map_def box_map_def data_deref_def ref_is_static_def)
  ultimately show ?thesis by blast
qed

end
