(* ===== verification/Phases.thy ===== *)
theory Phases
  imports Prelude "HOL-Library.Word"
begin

unbundle bit_operations_syntax

section \<open>Phases and the runtime configuration\<close>

text \<open>
  \<open>ActionPhase\<close> and \<open>ReactionPhase\<close> are \<open>i8\<close> identifiers; a \<open>RuntimeConfig\<close> restricts each to
  a \<open>PhaseSet\<close>, a bit set of four \<open>u64\<close> words (core.rs). The interface a configuration relies
  on is the locale \<open>id_set\<close>: insertion adds exactly one member. \<open>PhaseSet\<close> is shown to provide
  it for every one of the 256 identifiers, with the word arithmetic of the code.
\<close>

type_synonym phase = "8 word"

type_synonym phase_set = "64 word list"   \<comment> \<open>\<open>[u64; 4]\<close>\<close>

definition phase_set_default :: phase_set where
  "phase_set_default = replicate 4 0"

text \<open>\<open>(i16::from(id) - i16::from(i8::MIN)) as usize\<close>\<close>

definition phase_index :: "phase \<Rightarrow> nat" where
  "phase_index i = unat (scast i - (- 128) :: 16 word)"

definition phase_insert :: "phase_set \<Rightarrow> phase \<Rightarrow> phase_set" where
  "phase_insert s i = (let index = phase_index i in
     s[index div 64 := (s ! (index div 64)) OR push_bit (index mod 64) 1])"

definition phase_contains :: "phase_set \<Rightarrow> phase \<Rightarrow> bool" where
  "phase_contains s i = (let index = phase_index i in
     (s ! (index div 64)) AND push_bit (index mod 64) 1 \<noteq> 0)"

datatype valid_phases = AllPhases | OnlyPhases phase_set

definition valid_from_ids :: "phase list \<Rightarrow> valid_phases" where
  "valid_from_ids ids = OnlyPhases (fold (\<lambda>i s. phase_insert s i) ids phase_set_default)"

definition valid_contains :: "valid_phases \<Rightarrow> phase \<Rightarrow> bool" where
  "valid_contains v i = (case v of AllPhases \<Rightarrow> True | OnlyPhases s \<Rightarrow> phase_contains s i)"

record runtime_config =
  action_phases :: valid_phases
  reaction_phases :: valid_phases

definition config_default :: runtime_config where
  "config_default = \<lparr>action_phases = AllPhases, reaction_phases = AllPhases\<rparr>"

definition with_action_phases :: "phase list \<Rightarrow> runtime_config \<Rightarrow> runtime_config" where
  "with_action_phases ps c = c\<lparr>action_phases := valid_from_ids ps\<rparr>"

definition with_reaction_phases :: "phase list \<Rightarrow> runtime_config \<Rightarrow> runtime_config" where
  "with_reaction_phases ps c = c\<lparr>reaction_phases := valid_from_ids ps\<rparr>"

definition assert_valid_action_phase :: "runtime_config \<Rightarrow> phase \<Rightarrow> unit result" where
  "assert_valid_action_phase c p = res_assert InvalidPhase (valid_contains (action_phases c) p)"

definition assert_valid_reaction_phase :: "runtime_config \<Rightarrow> phase \<Rightarrow> unit result" where
  "assert_valid_reaction_phase c p = res_assert InvalidPhase (valid_contains (reaction_phases c) p)"

subsection \<open>What a configuration relies on\<close>

locale id_set =
  fixes set_default :: 's
    and set_insert :: "'s \<Rightarrow> 'i \<Rightarrow> 's"
    and set_contains :: "'s \<Rightarrow> 'i \<Rightarrow> bool"
    and set_wf :: "'s \<Rightarrow> bool"
  assumes default_wf: "set_wf set_default"
    and default_contains: "\<not> set_contains set_default i"
    and insert_wf: "set_wf s \<Longrightarrow> set_wf (set_insert s i)"
    and insert_contains: "set_wf s \<Longrightarrow> set_contains (set_insert s i) j \<longleftrightarrow> j = i \<or> set_contains s j"
begin

lemma fold_insert_wf: "set_wf s \<Longrightarrow> set_wf (fold (\<lambda>i s. set_insert s i) ids s)"
  by (induction ids arbitrary: s) (simp_all add: insert_wf)

lemma fold_insert_contains:
  "set_wf s \<Longrightarrow> set_contains (fold (\<lambda>i s. set_insert s i) ids s) j \<longleftrightarrow> j \<in> set ids \<or> set_contains s j"
  by (induction ids arbitrary: s) (auto simp: insert_wf insert_contains)

lemma from_ids_contains:
  "set_contains (fold (\<lambda>i s. set_insert s i) ids set_default) j \<longleftrightarrow> j \<in> set ids"
  by (simp add: fold_insert_contains default_wf default_contains)

end

subsection \<open>The bit set provides it\<close>

lemma phase_index_eq: "phase_index i = nat (sint i + 128)"
proof -
  have b: "- 128 \<le> sint i" "sint i < 128"
    using sint_ge [of i] sint_lt [of i] by simp_all
  have "(scast i :: 16 word) = word_of_int (sint i)" by simp
  then have "scast i - (- 128) = (word_of_int (sint i + 128) :: 16 word)"
    by (subst diff_minus_eq_add) (simp only: of_int_add of_int_numeral)
  then have "uint (scast i - (- 128) :: 16 word) = (sint i + 128) mod 2 ^ 16"
    by (simp only: uint_word_of_int_eq take_bit_eq_mod) simp
  also have "\<dots> = sint i + 128"
    using b by simp
  finally show ?thesis by (simp only: phase_index_def unat_eq_nat_uint)
qed

lemma phase_index_less: "phase_index i < 256"
  using sint_ge [of i] sint_lt [of i] by (auto simp: phase_index_eq)

lemma phase_index_inject: "phase_index i = phase_index j \<longleftrightarrow> i = j"
proof
  assume "phase_index i = phase_index j"
  then have "sint i = sint j"
    using sint_ge [of i] sint_ge [of j] by (auto simp: phase_index_eq)
  then show "i = j" by (rule signed_word_eqI)
qed simp

lemma and_push_bit_1_nonzero: "(w :: 64 word) AND push_bit n 1 \<noteq> 0 \<longleftrightarrow> bit w n"
  by (simp add: and_exp_eq_0_iff_not_bit)

lemma phase_contains_bit:
  "phase_contains s i \<longleftrightarrow> bit (s ! (phase_index i div 64)) (phase_index i mod 64)"
  by (simp add: phase_contains_def Let_def and_push_bit_1_nonzero del: push_bit_of_1)

lemma phase_contains_insert:
  assumes "length s = 4"
  shows "phase_contains (phase_insert s i) j \<longleftrightarrow> j = i \<or> phase_contains s j"
proof -
  let ?i = "phase_index i" and ?j = "phase_index j"
  have "?i div 64 < 4" using phase_index_less [of i] by simp
  then have sel: "phase_insert s i ! (?j div 64)
      = (if ?j div 64 = ?i div 64 then (s ! (?i div 64)) OR push_bit (?i mod 64) 1 else s ! (?j div 64))"
    using assms by (simp add: phase_insert_def Let_def nth_list_update)
  have same: "?j = ?i \<longleftrightarrow> ?j div 64 = ?i div 64 \<and> ?j mod 64 = ?i mod 64"
    by (metis div_mult_mod_eq)
  have "bit (push_bit (?i mod 64) 1 :: 64 word) (?j mod 64) \<longleftrightarrow> ?j mod 64 = ?i mod 64"
    by (auto simp: bit_simps)
  then show ?thesis
    using same by (auto simp: phase_contains_bit sel bit_or_iff phase_index_inject simp del: push_bit_of_1)
qed

interpretation ps: id_set phase_set_default phase_insert phase_contains "\<lambda>s. length s = 4"
proof
  fix i show "\<not> phase_contains phase_set_default i"
    using phase_index_less [of i] by (simp add: phase_contains_bit phase_set_default_def)
qed (simp_all add: phase_contains_insert, simp_all add: phase_set_default_def phase_insert_def Let_def)

lemma valid_from_ids_iff: "valid_contains (valid_from_ids ids) i \<longleftrightarrow> i \<in> set ids"
  by (simp add: valid_contains_def valid_from_ids_def ps.from_ids_contains)

end
