(* ===== verification/Reactive_Graph.thy ===== *)
theory Reactive_Graph
  imports Bindings Phases Bucket_Queue
begin

section \<open>The reactive graph: states, scan signals and effects\<close>

text \<open>
  The heap of nodes and the operations that move information through it: \<open>bind\<close>, \<open>unbind\<close>,
  \<open>check\<close>, \<open>update\<close>, \<open>notify\<close>, the write of a state, the discard of a cache and the run of an
  effect (core.rs, core/source_binder.rs, state.rs, signal/builder.rs, signal/builder/get.rs,
  signal/builder/scan.rs, effect\_fn.rs).

  A closure of the user is a program over reads of other nodes. Dynamic dispatch through
  \<open>dyn BindSource\<close> and \<open>dyn BindSink\<close> is a case distinction on the node. The mutual recursion of
  \<open>check\<close> and \<open>update\<close>, and that of \<open>notify\<close>, are tied by a fuel argument that bounds the
  nesting depth; the invariant theories prove that the number of nodes is
  enough. The definitions are parametric in the slab map \<open>ops\<close>, and they work on any extension of
  the \<open>world\<close> record, so that the runtime adds its own fields.
\<close>

subsection \<open>Closures\<close>

text \<open>
  What a closure does with the \<open>SignalContext\<close> it is given: read a node (\<open>borrow\<close> or \<open>get\<close>, which
  registers a dependency), read one inside \<open>untrack\<close> (which does not), panic, or return.
\<close>

datatype ('v, 'a) prog =
    Return 'a
  | Read nid "'v \<Rightarrow> ('v, 'a) prog"
  | ReadUntracked nid "'v \<Rightarrow> ('v, 'a) prog"
  | Fail

primrec prog_map :: "('a \<Rightarrow> 'b) \<Rightarrow> ('v, 'a) prog \<Rightarrow> ('v, 'b) prog" where
  "prog_map f (Return x) = Return (f x)"
| "prog_map f (Read n k) = Read n (\<lambda>v. prog_map f (k v))"
| "prog_map f (ReadUntracked n k) = ReadUntracked n (\<lambda>v. prog_map f (k v))"
| "prog_map f Fail = Fail"

text \<open>
  \<open>ScanFnVoid\<close> and \<open>ScanFnBool\<close> with their \<open>FILTER\<close> constant. The state cell of a scan node is an
  option: \<open>None\<close> only for a node of the \<open>get\<close> builder that has not run or was discarded.
\<close>

datatype 'v scan_fn =
    ScanFnVoid "'v option \<Rightarrow> ('v, 'v option) prog"
  | ScanFnBool "'v option \<Rightarrow> ('v, 'v option \<times> bool) prog"

definition scan_filter :: "'v scan_fn \<Rightarrow> bool" where
  "scan_filter s = (case s of ScanFnVoid _ \<Rightarrow> False | ScanFnBool _ \<Rightarrow> True)"

definition scan_call :: "'v scan_fn \<Rightarrow> 'v option \<Rightarrow> ('v, 'v option \<times> bool) prog" where
  "scan_call s st = (case s of ScanFnVoid f \<Rightarrow> prog_map (\<lambda>x. (x, True)) (f st) | ScanFnBool f \<Rightarrow> f st)"

text \<open>\<open>GetFnGet\<close> and \<open>GetFnGetDedup\<close>: the closures of \<open>Signal::new\<close> and \<open>Signal::new_dedup\<close>.\<close>

definition get_fn_get :: "('v, 'v) prog \<Rightarrow> 'v scan_fn" where
  "get_fn_get g = ScanFnVoid (\<lambda>st. prog_map Some g)"

definition get_fn_get_dedup :: "('v, 'v) prog \<Rightarrow> 'v scan_fn" where
  "get_fn_get_dedup g = ScanFnBool (\<lambda>st. prog_map (\<lambda>value.
     case st of Some old \<Rightarrow> if old = value then (st, False) else (Some value, True)
              | None \<Rightarrow> (Some value, True)) g)"

datatype 'v discard_fn = DiscardFnKeep | DiscardFnVoid "'v option \<Rightarrow> 'v option"

text \<open>The \<open>on_discard\<close> closure of the \<open>get\<close> builder: \<open>st.take()\<close>.\<close>

definition discard_take :: "'v discard_fn" where
  "discard_take = DiscardFnVoid (\<lambda>_. None)"

subsection \<open>Nodes and the world\<close>

record ('m, 'v) state_node =
  st_sinks :: "'m ref_cell"
  st_value :: 'v

record 'v scan_data =
  sd_state :: "'v option"
  sd_scan :: "'v scan_fn"
  sd_sb :: source_binder

record ('m, 'v) scan_node =
  sn_sinks :: "'m ref_cell"
  sn_data :: "'v scan_data ref_cell"
  sn_discard :: "'v discard_fn"
  sn_scheduled :: bool

text \<open>
  The closure of an effect is an \<open>FnMut\<close>: it owns a captured state that a run may change.
\<close>

record 'v effect_data =
  ed_state :: "'v option"
  ed_f :: "'v option \<Rightarrow> ('v, 'v option) prog"
  ed_sb :: source_binder

record 'v effect_node =
  ef_data :: "'v effect_data ref_cell"
  ef_phase :: phase

datatype ('m, 'v) node =
    StateNode "('m, 'v) state_node"
  | ScanNode "('m, 'v) scan_node"
  | EffectNode "'v effect_node"

text \<open>
  Scheduled reactions: the call of an effect (a weak reference), the discard of a scan node (a
  strong one), a closure of the user.
\<close>

datatype 'v reaction =
    EffectCall nid
  | ScanDiscard nid
  | UserReaction "('v, unit) prog"

record ('m, 'v) world =
  heap :: "nid \<Rightarrow> ('m, 'v) node option"
  next_id :: nid
  discards :: "'v reaction list"              \<comment> \<open>\<open>RuntimeData::discards\<close>, a stack\<close>
  g_config :: "runtime_config option"
  g_unbinds :: "source_bindings list"
  g_notifys :: "(nid \<times> slot) list"
  g_reactions :: "'v reaction buckets"
  g_need_wake :: bool
  g_waker :: bool                             \<comment> \<open>a waker is stored in the wake requests\<close>
  g_woken :: nat                              \<comment> \<open>how often it was woken\<close>
  effect_log :: "(nid \<times> 'v option) list"     \<comment> \<open>the runs of effects, newest first\<close>

subsection \<open>Globals\<close>

definition global_wake :: "('m, 'v, 'z) world_scheme \<Rightarrow> ('m, 'v, 'z) world_scheme" where
  "global_wake w =
     (if \<not> g_need_wake w then w
      else let w1 = w\<lparr>g_need_wake := False\<rparr> in
           if g_waker w1 then w1\<lparr>g_waker := False, g_woken := Suc (g_woken w1)\<rparr> else w1)"

definition schedule_reaction ::
    "phase \<Rightarrow> 'v reaction \<Rightarrow> ('m, 'v, 'z) world_scheme \<Rightarrow> ('m, 'v, 'z) world_scheme result" where
  "schedule_reaction p r w =
     res_bind (case g_config w of None \<Rightarrow> Inr () | Some c \<Rightarrow> assert_valid_reaction_phase c p) (\<lambda>_.
     res_bind (bk_push (sint p) r (g_reactions w)) (\<lambda>b.
       Inr (global_wake (w\<lparr>g_reactions := b\<rparr>))))"

definition push_notify :: "nid \<Rightarrow> slot \<Rightarrow> ('m, 'v, 'z) world_scheme \<Rightarrow> ('m, 'v, 'z) world_scheme" where
  "push_notify n slot w = global_wake (w\<lparr>g_notifys := g_notifys w @ [(n, slot)]\<rparr>)"

text \<open>Dropping a \<open>SourceBindings\<close> defers its unbinding.\<close>

definition drop_sources :: "source_bindings \<Rightarrow> ('m, 'v, 'z) world_scheme \<Rightarrow> ('m, 'v, 'z) world_scheme" where
  "drop_sources bs w = (if bs \<noteq> [] then w\<lparr>g_unbinds := g_unbinds w @ [bs]\<rparr> else w)"

subsection \<open>The sinks of a node\<close>

definition node_sinks :: "('m, 'v) node \<Rightarrow> 'm ref_cell option" where
  "node_sinks nd = (case nd of StateNode s \<Rightarrow> Some (st_sinks s) | ScanNode s \<Rightarrow> Some (sn_sinks s)
     | EffectNode e \<Rightarrow> None)"

definition set_node_sinks :: "'m ref_cell \<Rightarrow> ('m, 'v) node \<Rightarrow> ('m, 'v) node" where
  "set_node_sinks c nd = (case nd of StateNode s \<Rightarrow> StateNode (s\<lparr>st_sinks := c\<rparr>)
     | ScanNode s \<Rightarrow> ScanNode (s\<lparr>sn_sinks := c\<rparr>) | EffectNode e \<Rightarrow> EffectNode e)"

definition put_node :: "nid \<Rightarrow> ('m, 'v) node \<Rightarrow> ('m, 'v, 'z) world_scheme \<Rightarrow> ('m, 'v, 'z) world_scheme" where
  "put_node n nd w = w\<lparr>heap := (heap w)(n \<mapsto> nd)\<rparr>"

definition put_sinks :: "nid \<Rightarrow> 'm ref_cell \<Rightarrow> ('m, 'v, 'z) world_scheme \<Rightarrow> ('m, 'v, 'z) world_scheme" where
  "put_sinks n c w = (case heap w n of None \<Rightarrow> w | Some nd \<Rightarrow> put_node n (set_node_sinks c nd) w)"

text \<open>\<open>self.sinks.borrow_mut()\<close> and \<open>self.sinks.borrow()\<close>.\<close>

definition borrow_sinks :: "nid \<Rightarrow> ('m, 'v, 'z) world_scheme \<Rightarrow> 'm result" where
  "borrow_sinks n w =
     (case heap w n of None \<Rightarrow> Inl Unreachable
      | Some nd \<Rightarrow> (case node_sinks nd of None \<Rightarrow> Inl Unreachable
          | Some c \<Rightarrow> if cell_mut c then Inl BorrowMutError else Inr (cell_val c)))"

definition modify_sinks ::
    "nid \<Rightarrow> ('m \<Rightarrow> 'm) \<Rightarrow> ('m, 'v, 'z) world_scheme \<Rightarrow> ('m, 'v, 'z) world_scheme result" where
  "modify_sinks n f w = res_bind (borrow_sinks n w) (\<lambda>S. Inr (put_sinks n (new_cell (f S)) w))"

subsection \<open>Discards\<close>

text \<open>
  \<open>try_schedule_discard\<close>: only for a node built with an \<open>on_discard\<close> closure (\<open>ScheduledCell =
  Cell<bool>\<close>), once, and only when nobody is bound.
\<close>

definition try_schedule_discard ::
    "('m, sink_binding) slab_ops \<Rightarrow> nid \<Rightarrow> ('m, 'v, 'z) world_scheme \<Rightarrow> ('m, 'v, 'z) world_scheme result" where
  "try_schedule_discard ops n w =
     (case heap w n of
        Some (ScanNode sn) \<Rightarrow>
          (case sn_discard sn of
             DiscardFnKeep \<Rightarrow> Inr w
           | DiscardFnVoid _ \<Rightarrow>
               if sn_scheduled sn then Inr w
               else res_bind (borrow_sinks n w) (\<lambda>S.
                 if \<not> sinks_is_empty ops S then Inr w
                 else Inr (put_node n (ScanNode (sn\<lparr>sn_scheduled := True\<rparr>))
                             (w\<lparr>discards := discards w @ [ScanDiscard n]\<rparr>))))
      | _ \<Rightarrow> Inr w)"

text \<open>\<open>BindSource::unbind\<close> of each node kind.\<close>

definition node_unbind ::
    "('m, sink_binding) slab_ops \<Rightarrow> nid \<Rightarrow> bind_key \<Rightarrow> ('m, 'v, 'z) world_scheme \<Rightarrow> ('m, 'v, 'z) world_scheme result" where
  "node_unbind ops n key w =
     res_bind (modify_sinks n (sinks_unbind ops key) w) (try_schedule_discard ops n)"

definition unbind_all ::
    "('m, sink_binding) slab_ops \<Rightarrow> source_bindings \<Rightarrow> ('m, 'v, 'z) world_scheme \<Rightarrow> ('m, 'v, 'z) world_scheme result" where
  "unbind_all ops = res_fold (\<lambda>b. node_unbind ops (src_node b) (src_key b))"

subsection \<open>bind\<close>

text \<open>
  \<open>self.sinks.borrow_mut().bind(self.clone(), Slot(0), sc)\<close>: the sinks stay exclusively borrowed
  while the binding that was replaced is unbound at its own source.
\<close>

definition node_bind ::
    "('m, sink_binding) slab_ops \<Rightarrow> nid \<Rightarrow> sink option \<Rightarrow> ('m, 'v, 'z) world_scheme
       \<Rightarrow> (sink option \<times> ('m, 'v, 'z) world_scheme) result" where
  "node_bind ops n ko w =
     res_bind (borrow_sinks n w) (\<lambda>S.
       case ko of
         None \<Rightarrow> Inr (None, w)
       | Some k \<Rightarrow>
           res_bind (sinks_bind ops n 0 k S) (\<lambda>(S1, k1, old).
             res_bind (case old of
                 None \<Rightarrow> Inr w
               | Some b \<Rightarrow> node_unbind ops (src_node b) (src_key b)
                   (put_sinks n \<lparr>cell_val = S1, cell_mut = True\<rparr> w)) (\<lambda>w1.
               Inr (Some k1, put_sinks n (new_cell S1) w1))))"

subsection \<open>check, update and the run of a closure\<close>

text \<open>
  These take the recursive \<open>update\<close> of a node as an argument \<open>upd\<close>; it is tied below.
\<close>

definition node_check ::
    "('m, sink_binding) slab_ops \<Rightarrow> (nid \<Rightarrow> ('m, 'v, 'z) world_scheme \<Rightarrow> ('m, 'v, 'z) world_scheme result)
       \<Rightarrow> nid \<Rightarrow> bind_key \<Rightarrow> ('m, 'v, 'z) world_scheme \<Rightarrow> (bool \<times> ('m, 'v, 'z) world_scheme) result" where
  "node_check ops upd n key w =
     res_bind (case heap w n of Some (ScanNode _) \<Rightarrow> upd n w | _ \<Rightarrow> Inr w) (\<lambda>w1.
     res_bind (borrow_sinks n w1) (\<lambda>S.
     res_bind (sinks_is_dirty ops key S) (\<lambda>d. Inr (d, w1))))"

definition node_value :: "nid \<Rightarrow> ('m, 'v, 'z) world_scheme \<Rightarrow> 'v result" where
  "node_value n w =
     (case heap w n of
        Some (StateNode s) \<Rightarrow> Inr (st_value s)
      | Some (ScanNode sn) \<Rightarrow>
          if cell_mut (sn_data sn) then Inl BorrowMutError
          else res_of_option UnwrapNone (sd_state (cell_val (sn_data sn)))
      | _ \<Rightarrow> Inl Unreachable)"

text \<open>\<open>SignalNode::borrow\<close>: a state binds; a scan node binds, then updates.\<close>

definition node_borrow ::
    "('m, sink_binding) slab_ops \<Rightarrow> (nid \<Rightarrow> ('m, 'v, 'z) world_scheme \<Rightarrow> ('m, 'v, 'z) world_scheme result)
       \<Rightarrow> nid \<Rightarrow> sink option \<Rightarrow> ('m, 'v, 'z) world_scheme
       \<Rightarrow> ('v \<times> sink option \<times> ('m, 'v, 'z) world_scheme) result" where
  "node_borrow ops upd n ko w =
     res_bind (node_bind ops n ko w) (\<lambda>(k1, w1).
     res_bind (case heap w1 n of Some (ScanNode _) \<Rightarrow> upd n w1 | _ \<Rightarrow> Inr w1) (\<lambda>w2.
     res_bind (node_value n w2) (\<lambda>v. Inr (v, k1, w2))))"

primrec run_prog ::
    "('m, sink_binding) slab_ops \<Rightarrow> (nid \<Rightarrow> ('m, 'v, 'z) world_scheme \<Rightarrow> ('m, 'v, 'z) world_scheme result)
       \<Rightarrow> ('v, 'a) prog \<Rightarrow> sink option \<Rightarrow> ('m, 'v, 'z) world_scheme
       \<Rightarrow> ('a \<times> sink option \<times> ('m, 'v, 'z) world_scheme) result" where
  "run_prog ops upd (Return x) = (\<lambda>ko w. Inr (x, ko, w))"
| "run_prog ops upd (Read n k) = (\<lambda>ko w.
     res_bind (node_borrow ops upd n ko w) (\<lambda>(v, ko1, w1). run_prog ops upd (k v) ko1 w1))"
| "run_prog ops upd (ReadUntracked n k) = (\<lambda>ko w.
     res_bind (node_borrow ops upd n None w) (\<lambda>(v, _, w1). run_prog ops upd (k v) ko w1))"
| "run_prog ops upd Fail = (\<lambda>ko w. Inl UserPanic)"

text \<open>\<open>SourceBindings::check\<close>: the first dirty source ends the loop.\<close>

fun sources_check ::
    "('m, sink_binding) slab_ops \<Rightarrow> (nid \<Rightarrow> ('m, 'v, 'z) world_scheme \<Rightarrow> ('m, 'v, 'z) world_scheme result)
       \<Rightarrow> source_bindings \<Rightarrow> ('m, 'v, 'z) world_scheme \<Rightarrow> (bool \<times> ('m, 'v, 'z) world_scheme) result" where
  "sources_check ops upd [] w = Inr (False, w)"
| "sources_check ops upd (b # bs) w =
     res_bind (node_check ops upd (src_node b) (src_key b) w) (\<lambda>(d, w1).
       if d then Inr (True, w1) else sources_check ops upd bs w1)"

text \<open>\<open>SourceBindings::update\<close>.\<close>

definition sources_update ::
    "('m, sink_binding) slab_ops \<Rightarrow> (nid \<Rightarrow> ('m, 'v, 'z) world_scheme \<Rightarrow> ('m, 'v, 'z) world_scheme result)
       \<Rightarrow> nid \<Rightarrow> slot \<Rightarrow> bool \<Rightarrow> ('v, 'a) prog \<Rightarrow> source_bindings \<Rightarrow> ('m, 'v, 'z) world_scheme
       \<Rightarrow> ('a \<times> source_bindings \<times> ('m, 'v, 'z) world_scheme) result" where
  "sources_update ops upd n slot reset p bs w =
     res_bind (run_prog ops upd p (Some \<lparr>sk_node = n, sk_slot = slot, sk_sources = bs,
         sk_len = (if reset then 0 else length bs)\<rparr>) w) (\<lambda>(x, ko, w1).
       case ko of
         None \<Rightarrow> Inl Unreachable
       | Some k \<Rightarrow> res_bind (unbind_all ops (drop (sk_len k) (sk_sources k)) w1) (\<lambda>w2.
           Inr (x, take (sk_len k) (sk_sources k), w2)))"

text \<open>\<open>SourceBinder::check\<close> (with \<open>check_with\<close>), \<open>update\<close> and \<open>clear\<close>.\<close>

definition binder_check ::
    "('m, sink_binding) slab_ops \<Rightarrow> (nid \<Rightarrow> ('m, 'v, 'z) world_scheme \<Rightarrow> ('m, 'v, 'z) world_scheme result)
       \<Rightarrow> source_binder \<Rightarrow> ('m, 'v, 'z) world_scheme
       \<Rightarrow> (bool \<times> source_binder \<times> ('m, 'v, 'z) world_scheme) result" where
  "binder_check ops upd sb w =
     res_bind (if sbr_dirty sb = MaybeDirty
               then res_bind (sources_check ops upd (sbr_sources sb) w) (\<lambda>(d, w1).
                 Inr (sb\<lparr>sbr_dirty := from_is_dirty d\<rparr>, w1))
               else Inr (sb, w)) (\<lambda>(sb1, w1).
       Inr (sbr_dirty sb1 = Dirty, sb1, w1))"

definition binder_update ::
    "('m, sink_binding) slab_ops \<Rightarrow> (nid \<Rightarrow> ('m, 'v, 'z) world_scheme \<Rightarrow> ('m, 'v, 'z) world_scheme result)
       \<Rightarrow> ('v, 'a) prog \<Rightarrow> source_binder \<Rightarrow> ('m, 'v, 'z) world_scheme
       \<Rightarrow> ('a \<times> source_binder \<times> ('m, 'v, 'z) world_scheme) result" where
  "binder_update ops upd p sb w =
     res_bind (sources_update ops upd (sbr_sink sb) (sbr_slot sb) True p (sbr_sources sb) w) (\<lambda>(x, bs, w1).
       Inr (x, sb\<lparr>sbr_dirty := Clean, sbr_sources := bs\<rparr>, w1))"

definition binder_clear ::
    "('m, sink_binding) slab_ops \<Rightarrow> source_binder \<Rightarrow> ('m, 'v, 'z) world_scheme
       \<Rightarrow> (source_binder \<times> ('m, 'v, 'z) world_scheme) result" where
  "binder_clear ops sb w =
     res_bind (unbind_all ops (sbr_sources sb) w) (\<lambda>w1.
       Inr (sb\<lparr>sbr_sources := [], sbr_dirty := Dirty\<rparr>, w1))"

text \<open>
  \<open>ScanNode::update\<close>. \<open>put_scan_data\<close> writes the data cell of the node as it is in the heap at
  that moment; the cell is exclusively borrowed from the first to the last of these writes.
\<close>

definition put_scan_data ::
    "nid \<Rightarrow> 'v scan_data ref_cell \<Rightarrow> ('m, 'v, 'z) world_scheme \<Rightarrow> ('m, 'v, 'z) world_scheme" where
  "put_scan_data n c w = (case heap w n of
     Some (ScanNode sn) \<Rightarrow> put_node n (ScanNode (sn\<lparr>sn_data := c\<rparr>)) w | _ \<Rightarrow> w)"

definition scan_recompute ::
    "('m, sink_binding) slab_ops \<Rightarrow> (nid \<Rightarrow> ('m, 'v, 'z) world_scheme \<Rightarrow> ('m, 'v, 'z) world_scheme result)
       \<Rightarrow> 'v scan_data \<Rightarrow> ('m, 'v, 'z) world_scheme
       \<Rightarrow> (bool \<times> 'v scan_data \<times> ('m, 'v, 'z) world_scheme) result" where
  "scan_recompute ops upd d w =
     res_bind (binder_check ops upd (sd_sb d) w) (\<lambda>(b, sb, w1).
       if b then
         res_bind (binder_update ops upd (scan_call (sd_scan d) (sd_state d)) sb w1) (\<lambda>((st, changed), sb1, w2).
           Inr (changed, d\<lparr>sd_state := st, sd_sb := sb1\<rparr>, w2))
       else Inr (False, d\<lparr>sd_sb := sb\<rparr>, w1))"

definition scan_update ::
    "('m, sink_binding) slab_ops \<Rightarrow> (nid \<Rightarrow> ('m, 'v, 'z) world_scheme \<Rightarrow> ('m, 'v, 'z) world_scheme result)
       \<Rightarrow> nid \<Rightarrow> ('m, 'v, 'z) world_scheme \<Rightarrow> ('m, 'v, 'z) world_scheme result" where
  "scan_update ops upd n w =
     (case heap w n of
        Some (ScanNode sn) \<Rightarrow>
          if cell_mut (sn_data sn) then Inl CyclicDependency
          else if binder_is_clean (sd_sb (cell_val (sn_data sn))) then Inr w
          else res_bind (try_schedule_discard ops n w) (\<lambda>w1.
            let d = cell_val (sn_data sn) in
            res_bind (scan_recompute ops upd d (put_scan_data n \<lparr>cell_val = d, cell_mut = True\<rparr> w1))
              (\<lambda>(is_dirty, d1, w2).
            res_bind (modify_sinks n (sinks_update ops is_dirty) w2) (\<lambda>w3.
              Inr (put_scan_data n (new_cell d1) w3))))
      | _ \<Rightarrow> Inl Unreachable)"

fun node_update ::
    "('m, sink_binding) slab_ops \<Rightarrow> nat \<Rightarrow> nid \<Rightarrow> ('m, 'v, 'z) world_scheme \<Rightarrow> ('m, 'v, 'z) world_scheme result" where
  "node_update ops 0 n w = Inl OutOfFuel"
| "node_update ops (Suc fuel) n w = scan_update ops (node_update ops fuel) n w"

text \<open>
  The depth of nested updates never exceeds the number of nodes, so the runtime's calls use
  \<open>next_id\<close> as fuel.
\<close>

definition do_update :: "('m, sink_binding) slab_ops \<Rightarrow> nid \<Rightarrow> ('m, 'v, 'z) world_scheme \<Rightarrow> ('m, 'v, 'z) world_scheme result" where
  "do_update ops n w = node_update ops (next_id w) n w"

text \<open>\<open>Signal::get\<close> and \<open>State::get\<close> from a context without a sink, for instance \<open>runtime.sc()\<close>.\<close>

definition signal_get ::
    "('m, sink_binding) slab_ops \<Rightarrow> nid \<Rightarrow> ('m, 'v, 'z) world_scheme \<Rightarrow> ('v \<times> ('m, 'v, 'z) world_scheme) result" where
  "signal_get ops n w =
     res_bind (node_borrow ops (do_update ops) n None w) (\<lambda>(v, _, w1). Inr (v, w1))"

subsection \<open>notify\<close>

definition put_effect_data ::
    "nid \<Rightarrow> 'v effect_data ref_cell \<Rightarrow> ('m, 'v, 'z) world_scheme \<Rightarrow> ('m, 'v, 'z) world_scheme" where
  "put_effect_data n c w = (case heap w n of
     Some (EffectNode e) \<Rightarrow> put_node n (EffectNode (e\<lparr>ef_data := c\<rparr>)) w | _ \<Rightarrow> w)"

text \<open>\<open>self.sinks.borrow_mut().notify(level, nc)\<close>, with \<open>ntf\<close> the recursive notification of a sink.\<close>

definition notify_sinks ::
    "('m, sink_binding) slab_ops
       \<Rightarrow> (nid \<Rightarrow> slot \<Rightarrow> dirty_level \<Rightarrow> ('m, 'v, 'z) world_scheme \<Rightarrow> ('m, 'v, 'z) world_scheme result)
       \<Rightarrow> nid \<Rightarrow> dirty_level \<Rightarrow> ('m, 'v, 'z) world_scheme \<Rightarrow> ('m, 'v, 'z) world_scheme result" where
  "notify_sinks ops ntf n level w =
     res_bind (borrow_sinks n w) (\<lambda>S.
     res_bind (sinks_notify ops (\<lambda>b. ntf (sb_sink b) (sb_slot b) level) level S
                 (put_sinks n \<lparr>cell_val = S, cell_mut = True\<rparr> w)) (\<lambda>(S1, w1).
       Inr (put_sinks n (new_cell S1) w1)))"

text \<open>
  \<open>BindSink::notify\<close> of each node kind, after \<open>Weak::upgrade\<close> (a dropped sink ignores it).
\<close>

definition notify_step ::
    "('m, sink_binding) slab_ops
       \<Rightarrow> (nid \<Rightarrow> slot \<Rightarrow> dirty_level \<Rightarrow> ('m, 'v, 'z) world_scheme \<Rightarrow> ('m, 'v, 'z) world_scheme result)
       \<Rightarrow> nid \<Rightarrow> slot \<Rightarrow> dirty_level \<Rightarrow> ('m, 'v, 'z) world_scheme \<Rightarrow> ('m, 'v, 'z) world_scheme result" where
  "notify_step ops ntf n slot level w =
     (case heap w n of
        None \<Rightarrow> Inr w
      | Some (StateNode s) \<Rightarrow> notify_sinks ops ntf n LevelDirty w
      | Some (ScanNode sn) \<Rightarrow>
          if cell_mut (sn_data sn) then Inl BorrowMutError
          else let d = cell_val (sn_data sn); (needs, sb) = binder_on_notify slot level (sd_sb d);
                   w1 = put_scan_data n (new_cell (d\<lparr>sd_sb := sb\<rparr>)) w
               in if needs then notify_sinks ops ntf n (maybe_if level (scan_filter (sd_scan d))) w1
                  else Inr w1
      | Some (EffectNode e) \<Rightarrow>
          if cell_mut (ef_data e) then Inl BorrowMutError
          else let d = cell_val (ef_data e); (needs, sb) = binder_on_notify slot level (ed_sb d);
                   w1 = put_effect_data n (new_cell (d\<lparr>ed_sb := sb\<rparr>)) w
               in if needs then schedule_reaction (ef_phase e) (EffectCall n) w1 else Inr w1)"

fun node_notify ::
    "('m, sink_binding) slab_ops \<Rightarrow> nat \<Rightarrow> nid \<Rightarrow> slot \<Rightarrow> dirty_level
       \<Rightarrow> ('m, 'v, 'z) world_scheme \<Rightarrow> ('m, 'v, 'z) world_scheme result" where
  "node_notify ops 0 n slot level w = Inl OutOfFuel"
| "node_notify ops (Suc fuel) n slot level w = notify_step ops (node_notify ops fuel) n slot level w"

definition do_notify ::
    "('m, sink_binding) slab_ops \<Rightarrow> nid \<Rightarrow> slot \<Rightarrow> dirty_level
       \<Rightarrow> ('m, 'v, 'z) world_scheme \<Rightarrow> ('m, 'v, 'z) world_scheme result" where
  "do_notify ops n slot level w = node_notify ops (Suc (next_id w)) n slot level w"

subsection \<open>State\<close>

definition state_new :: "('m, sink_binding) slab_ops \<Rightarrow> 'v \<Rightarrow> ('m, 'v, 'z) world_scheme \<Rightarrow> nid \<times> ('m, 'v, 'z) world_scheme" where
  "state_new ops v w =
     (next_id w, put_node (next_id w) (StateNode \<lparr>st_sinks = new_cell (slab_new ops), st_value = v\<rparr>)
        (w\<lparr>next_id := Suc (next_id w)\<rparr>))"

definition put_value :: "nid \<Rightarrow> 'v \<Rightarrow> ('m, 'v, 'z) world_scheme \<Rightarrow> ('m, 'v, 'z) world_scheme" where
  "put_value n v w = (case heap w n of
     Some (StateNode s) \<Rightarrow> put_node n (StateNode (s\<lparr>st_value := v\<rparr>)) w | _ \<Rightarrow> w)"

text \<open>\<open>notify_raw\<close>: notify the sinks with \<open>Dirty\<close>. \<open>State::set\<close> and \<open>State::set_dedup\<close>.\<close>

definition notify_raw :: "('m, sink_binding) slab_ops \<Rightarrow> nid \<Rightarrow> ('m, 'v, 'z) world_scheme \<Rightarrow> ('m, 'v, 'z) world_scheme result" where
  "notify_raw ops n w = notify_sinks ops (node_notify ops (next_id w)) n LevelDirty w"

definition state_set ::
    "('m, sink_binding) slab_ops \<Rightarrow> nid \<Rightarrow> 'v \<Rightarrow> ('m, 'v, 'z) world_scheme \<Rightarrow> ('m, 'v, 'z) world_scheme result" where
  "state_set ops n v w =
     (case heap w n of
        Some (StateNode s) \<Rightarrow> notify_raw ops n (put_value n v w)
      | _ \<Rightarrow> Inl Unreachable)"

definition state_set_dedup ::
    "('m, sink_binding) slab_ops \<Rightarrow> nid \<Rightarrow> 'v \<Rightarrow> ('m, 'v, 'z) world_scheme \<Rightarrow> ('m, 'v, 'z) world_scheme result" where
  "state_set_dedup ops n v w =
     (case heap w n of
        Some (StateNode s) \<Rightarrow>
          if st_value s \<noteq> v then notify_raw ops n (put_value n v w) else Inr w
      | _ \<Rightarrow> Inl Unreachable)"

subsection \<open>Scan signals\<close>

text \<open>\<open>ScanBuilder::build\<close>, and the signals of \<open>Signal::new\<close> and \<open>Signal::new_dedup\<close>.\<close>

definition scan_new ::
    "('m, sink_binding) slab_ops \<Rightarrow> 'v option \<Rightarrow> 'v scan_fn \<Rightarrow> 'v discard_fn
       \<Rightarrow> ('m, 'v, 'z) world_scheme \<Rightarrow> nid \<times> ('m, 'v, 'z) world_scheme" where
  "scan_new ops st scan discard w =
     (let n = next_id w in
      (n, put_node n (ScanNode \<lparr>sn_sinks = new_cell (slab_new ops),
            sn_data = new_cell \<lparr>sd_state = st, sd_scan = scan, sd_sb = binder_new n 0\<rparr>,
            sn_discard = discard, sn_scheduled = False\<rparr>)
        (w\<lparr>next_id := Suc n\<rparr>)))"

definition signal_new ::
    "('m, sink_binding) slab_ops \<Rightarrow> ('v, 'v) prog \<Rightarrow> ('m, 'v, 'z) world_scheme \<Rightarrow> nid \<times> ('m, 'v, 'z) world_scheme" where
  "signal_new ops g w = scan_new ops None (get_fn_get g) discard_take w"

definition signal_new_dedup ::
    "('m, sink_binding) slab_ops \<Rightarrow> ('v, 'v) prog \<Rightarrow> ('m, 'v, 'z) world_scheme \<Rightarrow> nid \<times> ('m, 'v, 'z) world_scheme" where
  "signal_new_dedup ops g w = scan_new ops None (get_fn_get_dedup g) discard_take w"

text \<open>\<open>ScanNode::discard\<close>, the reaction that \<open>try_schedule_discard\<close> registers.\<close>

definition scan_discard ::
    "('m, sink_binding) slab_ops \<Rightarrow> nid \<Rightarrow> ('m, 'v, 'z) world_scheme \<Rightarrow> ('m, 'v, 'z) world_scheme result" where
  "scan_discard ops n w =
     (case heap w n of
        Some (ScanNode sn) \<Rightarrow>
          let w1 = put_node n (ScanNode (sn\<lparr>sn_scheduled := False\<rparr>)) w in
          res_bind (borrow_sinks n w1) (\<lambda>S.
            if sinks_is_empty ops S then
              if cell_mut (sn_data sn) then Inl BorrowMutError
              else let d = cell_val (sn_data sn) in
                (case sn_discard sn of
                   DiscardFnKeep \<Rightarrow> Inl Unreachable
                 | DiscardFnVoid f \<Rightarrow>
                     res_bind (binder_clear ops (sd_sb d)
                         (put_scan_data n \<lparr>cell_val = d, cell_mut = True\<rparr> w1)) (\<lambda>(sb, w2).
                       Inr (put_scan_data n (new_cell (d\<lparr>sd_state := f (sd_state d), sd_sb := sb\<rparr>)) w2)))
            else Inr w1)
      | _ \<Rightarrow> Inl Unreachable)"

subsection \<open>Effects\<close>

definition effect_new ::
    "'v option \<Rightarrow> ('v option \<Rightarrow> ('v, 'v option) prog) \<Rightarrow> phase
       \<Rightarrow> ('m, 'v, 'z) world_scheme \<Rightarrow> (nid \<times> ('m, 'v, 'z) world_scheme) result" where
  "effect_new st f p w =
     (let n = next_id w;
          w1 = put_node n (EffectNode \<lparr>ef_data = new_cell \<lparr>ed_state = st, ed_f = f, ed_sb = binder_new n 0\<rparr>,
                  ef_phase = p\<rparr>) (w\<lparr>next_id := Suc n\<rparr>)
      in res_bind (schedule_reaction p (EffectCall n) w1) (\<lambda>w2. Inr (n, w2)))"

text \<open>\<open>EffectNode::call\<close>, through a weak reference.\<close>

definition effect_call ::
    "('m, sink_binding) slab_ops \<Rightarrow> nid \<Rightarrow> ('m, 'v, 'z) world_scheme \<Rightarrow> ('m, 'v, 'z) world_scheme result" where
  "effect_call ops n w =
     (case heap w n of
        Some (EffectNode e) \<Rightarrow>
          if cell_mut (ef_data e) then Inl BorrowMutError
          else let d = cell_val (ef_data e) in
            res_bind (binder_check ops (do_update ops) (ed_sb d)
                (put_effect_data n \<lparr>cell_val = d, cell_mut = True\<rparr> w)) (\<lambda>(b, sb, w1).
              if b then
                res_bind (binder_update ops (do_update ops) (ed_f d (ed_state d)) sb w1) (\<lambda>(st, sb1, w2).
                  Inr ((put_effect_data n (new_cell (d\<lparr>ed_state := st, ed_sb := sb1\<rparr>)) w2)
                         \<lparr>effect_log := (n, st) # effect_log w2\<rparr>))
              else Inr (put_effect_data n (new_cell (d\<lparr>ed_sb := sb\<rparr>)) w1))
      | _ \<Rightarrow> Inr w)"

text \<open>
  Dropping the last reference to a node drops its \<open>SourceBindings\<close>; a dropped \<open>Subscription\<close>
  does this to its effect.
\<close>

definition node_sources :: "('m, 'v) node \<Rightarrow> source_bindings" where
  "node_sources nd = (case nd of StateNode s \<Rightarrow> []
     | ScanNode sn \<Rightarrow> sbr_sources (sd_sb (cell_val (sn_data sn)))
     | EffectNode e \<Rightarrow> sbr_sources (ed_sb (cell_val (ef_data e))))"

definition drop_node :: "nid \<Rightarrow> ('m, 'v, 'z) world_scheme \<Rightarrow> ('m, 'v, 'z) world_scheme" where
  "drop_node n w = (case heap w n of None \<Rightarrow> w
     | Some nd \<Rightarrow> drop_sources (node_sources nd) (w\<lparr>heap := (heap w)(n := None)\<rparr>))"

subsection \<open>The empty world\<close>

definition world_init :: "runtime_config option \<Rightarrow> ('m, 'v) world" where
  "world_init c = \<lparr>heap = (\<lambda>_. None), next_id = 0, discards = [], g_config = c, g_unbinds = [],
     g_notifys = [], g_reactions = bk_new, g_need_wake = False, g_waker = False, g_woken = 0,
     effect_log = []\<rparr>"

end
