(* ===== verification/Graph_View.thy ===== *)
theory Graph_View
  imports Reactive_Graph
begin

section \<open>Views of the graph\<close>

text \<open>
  The heap is read through six functions on node numbers: what a node is (\<open>code\<close>), its source
  bindings, whether its data cell is being updated (\<open>active\<close>), its current value, whether its
  sinks are exclusively borrowed (\<open>busy\<close>), and the entry of its sinks under a key. Every write of
  the operations is characterised once by what it does to these views; invariants and proofs
  mention nothing else.
\<close>

datatype 'v code =
    CState
  | CScan "'v scan_fn" "'v discard_fn"
  | CEffect "'v option \<Rightarrow> ('v, 'v option) prog" phase

definition code :: "('m, 'v, 'z) world_scheme \<Rightarrow> nid \<Rightarrow> 'v code option" where
  "code w k = map_option (\<lambda>nd. case nd of
       StateNode s \<Rightarrow> CState
     | ScanNode sn \<Rightarrow> CScan (sd_scan (cell_val (sn_data sn))) (sn_discard sn)
     | EffectNode e \<Rightarrow> CEffect (ed_f (cell_val (ef_data e))) (ef_phase e)) (heap w k)"

definition src_binder :: "('m, 'v, 'z) world_scheme \<Rightarrow> nid \<Rightarrow> source_binder option" where
  "src_binder w k = (case heap w k of
       Some (ScanNode sn) \<Rightarrow> Some (sd_sb (cell_val (sn_data sn)))
     | Some (EffectNode e) \<Rightarrow> Some (ed_sb (cell_val (ef_data e)))
     | _ \<Rightarrow> None)"

definition active :: "('m, 'v, 'z) world_scheme \<Rightarrow> nid \<Rightarrow> bool" where
  "active w k = (case heap w k of
       Some (ScanNode sn) \<Rightarrow> cell_mut (sn_data sn)
     | Some (EffectNode e) \<Rightarrow> cell_mut (ef_data e)
     | _ \<Rightarrow> False)"

definition cval :: "('m, 'v, 'z) world_scheme \<Rightarrow> nid \<Rightarrow> 'v option" where
  "cval w k = (case heap w k of
       Some (StateNode s) \<Rightarrow> Some (st_value s)
     | Some (ScanNode sn) \<Rightarrow> sd_state (cell_val (sn_data sn))
     | Some (EffectNode e) \<Rightarrow> ed_state (cell_val (ef_data e))
     | None \<Rightarrow> None)"

definition sinks_of :: "('m, 'v, 'z) world_scheme \<Rightarrow> nid \<Rightarrow> 'm ref_cell option" where
  "sinks_of w k = Option.bind (heap w k) node_sinks"

definition busy :: "('m, 'v, 'z) world_scheme \<Rightarrow> nid \<Rightarrow> bool" where
  "busy w k = (case sinks_of w k of None \<Rightarrow> False | Some c \<Rightarrow> cell_mut c)"

definition entry :: "('m, sink_binding) slab_ops \<Rightarrow> ('m, 'v, 'z) world_scheme \<Rightarrow> nid \<Rightarrow> bind_key \<Rightarrow> sink_binding option" where
  "entry ops w k key = (case sinks_of w k of None \<Rightarrow> None | Some c \<Rightarrow> slab_get ops (cell_val c) key)"

text \<open>A node that others can read: a state or a scan signal.\<close>

definition is_source :: "('m, 'v, 'z) world_scheme \<Rightarrow> nid \<Rightarrow> bool" where
  "is_source w k \<longleftrightarrow> (\<exists>c. sinks_of w k = Some c)"

definition is_scan :: "('m, 'v, 'z) world_scheme \<Rightarrow> nid \<Rightarrow> bool" where
  "is_scan w k \<longleftrightarrow> (\<exists>sn. heap w k = Some (ScanNode sn))"

definition stale :: "('m, 'v, 'z) world_scheme \<Rightarrow> nid \<Rightarrow> bool" where
  "stale w k \<longleftrightarrow> (\<exists>sb. src_binder w k = Some sb \<and> sbr_dirty sb \<noteq> Clean)"

text \<open>All of the world but the heap and the pending discards.\<close>

definition rest_same :: "('m, 'v, 'z) world_scheme \<Rightarrow> ('m, 'v, 'z) world_scheme \<Rightarrow> bool" where
  "rest_same w w' \<longleftrightarrow> w' = w\<lparr>heap := heap w', discards := discards w'\<rparr>"

lemma rest_same_refl [simp]: "rest_same w w"
  by (simp add: rest_same_def)

lemma rest_same_trans:
  assumes a: "rest_same w w1" and b: "rest_same w1 w2"
  shows "rest_same w w2"
proof -
  let ?f = "\<lambda>x. x\<lparr>heap := heap w2, discards := discards w2\<rparr>"
  have "w2 = ?f w1" using b by (simp only: rest_same_def)
  also have "?f w1 = ?f (w\<lparr>heap := heap w1, discards := discards w1\<rparr>)"
    using a unfolding rest_same_def by (rule arg_cong)
  also have "\<dots> = ?f w" by simp
  finally show ?thesis by (simp only: rest_same_def)
qed

lemma rest_same_fields:
  assumes "rest_same w w'"
  shows "next_id w' = next_id w" "g_config w' = g_config w" "g_unbinds w' = g_unbinds w"
    "g_notifys w' = g_notifys w" "g_reactions w' = g_reactions w" "effect_log w' = effect_log w"
proof -
  note a = assms [unfolded rest_same_def]
  show "next_id w' = next_id w" using arg_cong [OF a, of next_id] by simp
  show "g_config w' = g_config w" using arg_cong [OF a, of g_config] by simp
  show "g_unbinds w' = g_unbinds w" using arg_cong [OF a, of g_unbinds] by simp
  show "g_notifys w' = g_notifys w" using arg_cong [OF a, of g_notifys] by simp
  show "g_reactions w' = g_reactions w" using arg_cong [OF a, of g_reactions] by simp
  show "effect_log w' = effect_log w" using arg_cong [OF a, of effect_log] by simp
qed

lemmas rest_same_next = rest_same_fields(1)

lemma is_source_code: "is_source w k \<longleftrightarrow> code w k = Some CState \<or> (\<exists>s d. code w k = Some (CScan s d))"
proof (cases "heap w k")
  case (Some nd)
  then show ?thesis by (cases nd) (simp_all add: is_source_def sinks_of_def code_def node_sinks_def)
qed (simp add: is_source_def sinks_of_def code_def)

lemma is_scan_code: "is_scan w k \<longleftrightarrow> (\<exists>s d. code w k = Some (CScan s d))"
proof (cases "heap w k")
  case (Some nd)
  then show ?thesis by (cases nd) (simp_all add: is_scan_def code_def)
qed (simp add: is_scan_def code_def)

lemma is_scan_source: "is_scan w k \<Longrightarrow> is_source w k"
  by (auto simp: is_source_code is_scan_code)

lemma src_binder_code: "src_binder w k = None \<longleftrightarrow> code w k = None \<or> code w k = Some CState"
proof (cases "heap w k")
  case (Some nd)
  then show ?thesis by (cases nd) (simp_all add: src_binder_def code_def)
qed (simp add: src_binder_def code_def)

lemma state_not_stale: "code w k = Some CState \<Longrightarrow> \<not> stale w k"
  using src_binder_code [of w k] by (auto simp: stale_def)

lemma entry_source: "entry ops w k key = Some b \<Longrightarrow> is_source w k"
  by (auto simp: entry_def is_source_def split: option.splits)

lemma busy_source: "busy w k \<Longrightarrow> is_source w k"
  by (auto simp: busy_def is_source_def split: option.splits)

lemmas view_defs = code_def src_binder_def active_def cval_def sinks_of_def busy_def entry_def

text \<open>Two worlds with the same heap have the same views.\<close>

lemma view_heap_cong:
  assumes "heap w' = heap w"
  shows "code w' = code w" "src_binder w' = src_binder w" "active w' = active w" "cval w' = cval w"
    "sinks_of w' = sinks_of w" "busy w' = busy w" "entry ops w' = entry ops w"
    "is_source w' = is_source w" "is_scan w' = is_scan w" "stale w' = stale w"
proof -
  show c: "code w' = code w" and b: "src_binder w' = src_binder w" and "active w' = active w"
    and "cval w' = cval w" and s: "sinks_of w' = sinks_of w" and "is_scan w' = is_scan w"
    using assms by (simp_all add: code_def src_binder_def active_def cval_def sinks_of_def is_scan_def fun_eq_iff)
  show "busy w' = busy w" "entry ops w' = entry ops w" "is_source w' = is_source w" "stale w' = stale w"
    by (simp_all add: busy_def entry_def is_source_def stale_def s b fun_eq_iff)
qed

lemma put_node_heap [simp]: "heap (put_node n nd w) = (heap w)(n \<mapsto> nd)"
  by (simp add: put_node_def)

lemma put_node_rest [simp]: "rest_same w (put_node n nd w)"
  by (simp add: rest_same_def put_node_def)

lemma put_node_fields [simp]:
  "next_id (put_node n nd w) = next_id w" "discards (put_node n nd w) = discards w"
  by (simp_all add: put_node_def)

subsection \<open>Writing the sinks\<close>

lemma put_sinks_heap:
  "k \<noteq> n \<Longrightarrow> heap (put_sinks n c w) k = heap w k"
  by (simp add: put_sinks_def split: option.splits)

lemma put_sinks_rest [simp]: "rest_same w (put_sinks n c w)"
  by (simp add: put_sinks_def split: option.splits)

lemma put_sinks_discards [simp]: "discards (put_sinks n c w) = discards w"
  by (simp add: put_sinks_def split: option.splits)

lemma put_sinks_views [simp]:
  "code (put_sinks n c w) k = code w k"
  "src_binder (put_sinks n c w) k = src_binder w k"
  "active (put_sinks n c w) k = active w k"
  "cval (put_sinks n c w) k = cval w k"
  by (auto simp: put_sinks_def set_node_sinks_def view_defs split: option.splits node.splits)

lemma put_sinks_stale [simp]: "stale (put_sinks n c w) k = stale w k"
  by (simp add: stale_def)

lemma put_sinks_scan [simp]: "is_scan (put_sinks n c w) k = is_scan w k"
  by (simp add: is_scan_code)

lemma put_sinks_source [simp]: "is_source (put_sinks n c w) k = is_source w k"
  by (simp add: is_source_code)

lemma put_sinks_sinks_of:
  "is_source w n \<Longrightarrow> sinks_of (put_sinks n c w) k = (if k = n then Some c else sinks_of w k)"
  by (auto simp: put_sinks_def set_node_sinks_def is_source_def sinks_of_def node_sinks_def
      split: option.splits node.splits bind_splits)

lemma put_sinks_entry:
  "is_source w n \<Longrightarrow> entry ops (put_sinks n c w) k key
     = (if k = n then slab_get ops (cell_val c) key else entry ops w k key)"
  by (simp add: entry_def put_sinks_sinks_of)

lemma put_sinks_busy:
  "is_source w n \<Longrightarrow> busy (put_sinks n c w) k = (if k = n then cell_mut c else busy w k)"
  by (simp add: busy_def put_sinks_sinks_of)

lemma borrow_sinks_ok:
  assumes "is_source w n" and "\<not> busy w n"
  obtains S where "borrow_sinks n w = Inr S" and "sinks_of w n = Some \<lparr>cell_val = S, cell_mut = False\<rparr>"
    and "\<And>key. entry ops w n key = slab_get ops S key"
proof -
  from assms obtain c where c: "sinks_of w n = Some c" "\<not> cell_mut c"
    by (auto simp: is_source_def busy_def)
  then have "borrow_sinks n w = Inr (cell_val c)"
    by (auto simp: borrow_sinks_def sinks_of_def split: option.splits bind_splits)
  with c show ?thesis by (intro that [of "cell_val c"]) (simp_all add: entry_def)
qed

subsection \<open>Writing the data of a scan node or an effect\<close>

lemma put_scan_data_rest [simp]: "rest_same w (put_scan_data n c w)"
  by (simp add: put_scan_data_def split: option.splits node.splits)

lemma put_scan_data_heap: "k \<noteq> n \<Longrightarrow> heap (put_scan_data n c w) k = heap w k"
  by (simp add: put_scan_data_def split: option.splits node.splits)

lemma put_scan_data_views:
  assumes "heap w n = Some (ScanNode sn)"
  shows "code (put_scan_data n c w) k
      = (if k = n then Some (CScan (sd_scan (cell_val c)) (sn_discard sn)) else code w k)"
    and "src_binder (put_scan_data n c w) k = (if k = n then Some (sd_sb (cell_val c)) else src_binder w k)"
    and "active (put_scan_data n c w) k = (if k = n then cell_mut c else active w k)"
    and "cval (put_scan_data n c w) k = (if k = n then sd_state (cell_val c) else cval w k)"
    and "sinks_of (put_scan_data n c w) k = sinks_of w k"
    and "entry ops (put_scan_data n c w) k = entry ops w k"
    and "busy (put_scan_data n c w) k = busy w k"
  using assms by (auto simp: put_scan_data_def view_defs node_sinks_def fun_eq_iff)

lemma put_effect_data_rest [simp]: "rest_same w (put_effect_data n c w)"
  by (simp add: put_effect_data_def split: option.splits node.splits)

lemma put_effect_data_heap: "k \<noteq> n \<Longrightarrow> heap (put_effect_data n c w) k = heap w k"
  by (simp add: put_effect_data_def split: option.splits node.splits)

lemma put_effect_data_views:
  assumes "heap w n = Some (EffectNode e)"
  shows "code (put_effect_data n c w) k
      = (if k = n then Some (CEffect (ed_f (cell_val c)) (ef_phase e)) else code w k)"
    and "src_binder (put_effect_data n c w) k = (if k = n then Some (ed_sb (cell_val c)) else src_binder w k)"
    and "active (put_effect_data n c w) k = (if k = n then cell_mut c else active w k)"
    and "cval (put_effect_data n c w) k = (if k = n then ed_state (cell_val c) else cval w k)"
    and "sinks_of (put_effect_data n c w) k = sinks_of w k"
    and "entry ops (put_effect_data n c w) k = entry ops w k"
    and "busy (put_effect_data n c w) k = busy w k"
  using assms by (auto simp: put_effect_data_def view_defs node_sinks_def fun_eq_iff)

subsection \<open>Bookkeeping changes\<close>

text \<open>
  \<open>book_same w w'\<close>: the two worlds differ at most in entries, in what is scheduled for discard,
  and in the flags of that schedule.
\<close>

definition book_same :: "('m, 'v, 'z) world_scheme \<Rightarrow> ('m, 'v, 'z) world_scheme \<Rightarrow> bool" where
  "book_same w w' \<longleftrightarrow> rest_same w w' \<and> code w' = code w \<and> src_binder w' = src_binder w
     \<and> active w' = active w \<and> cval w' = cval w"

lemma book_same_refl [simp]: "book_same w w"
  by (simp add: book_same_def)

lemma book_same_trans: "book_same w w1 \<Longrightarrow> book_same w1 w2 \<Longrightarrow> book_same w w2"
  unfolding book_same_def using rest_same_trans by fastforce

lemma book_same_source: "book_same w w' \<Longrightarrow> is_source w' k = is_source w k"
  by (simp add: book_same_def is_source_code)

lemma book_same_scan: "book_same w w' \<Longrightarrow> is_scan w' k = is_scan w k"
  by (simp add: book_same_def is_scan_code)

lemma book_same_stale: "book_same w w' \<Longrightarrow> stale w' k = stale w k"
  by (simp add: book_same_def stale_def)

lemma put_sinks_book: "book_same w (put_sinks n c w)"
  by (simp add: book_same_def fun_eq_iff)

lemma try_schedule_discard_ok:
  assumes "\<not> busy w n" and "is_source w n"
  obtains w' where "try_schedule_discard ops n w = Inr w'" and "book_same w w'"
    and "\<And>k. k \<noteq> n \<Longrightarrow> heap w' k = heap w k" and "sinks_of w' = sinks_of w"
proof (cases "\<exists>sn f. heap w n = Some (ScanNode sn) \<and> sn_discard sn = DiscardFnVoid f \<and> \<not> sn_scheduled sn")
  case True
  then obtain sn f where sn: "heap w n = Some (ScanNode sn)" "sn_discard sn = DiscardFnVoid f"
    "\<not> sn_scheduled sn" by blast
  obtain S where S: "borrow_sinks n w = Inr S" using borrow_sinks_ok [OF assms(2,1)] by blast
  let ?w1 = "put_node n (ScanNode (sn\<lparr>sn_scheduled := True\<rparr>)) (w\<lparr>discards := discards w @ [ScanDiscard n]\<rparr>)"
  have run: "try_schedule_discard ops n w = (if \<not> sinks_is_empty ops S then Inr w else Inr ?w1)"
    using sn S by (simp add: try_schedule_discard_def)
  have "rest_same w ?w1" by (simp add: rest_same_def put_node_def)
  moreover have "code ?w1 = code w" "src_binder ?w1 = src_binder w" "active ?w1 = active w" "cval ?w1 = cval w"
    "sinks_of ?w1 = sinks_of w"
    using sn by (auto simp: view_defs node_sinks_def fun_eq_iff)
  ultimately have "book_same w ?w1" "sinks_of ?w1 = sinks_of w"
    "\<And>k. k \<noteq> n \<Longrightarrow> heap ?w1 k = heap w k"
    by (simp_all add: book_same_def)
  then show ?thesis using that run by (cases "sinks_is_empty ops S") auto
next
  case False
  then have "try_schedule_discard ops n w = Inr w"
    by (auto simp: try_schedule_discard_def split: option.splits node.splits discard_fn.splits)
  then show ?thesis using that by simp
qed

lemma node_unbind_ok:
  assumes laws: "slab_laws ops" and "is_source w n" and "\<not> busy w n"
  obtains w' where "node_unbind ops n key w = Inr w'" and "book_same w w'"
    and "\<And>k. k \<noteq> n \<Longrightarrow> heap w' k = heap w k"
    and "\<And>k i. entry ops w' k i = (if k = n \<and> i = key then None else entry ops w k i)"
    and "\<And>k. busy w' k = busy w k"
proof -
  obtain S where S: "borrow_sinks n w = Inr S" "\<And>i. entry ops w n i = slab_get ops S i"
    using borrow_sinks_ok [OF assms(2,3)] by metis
  let ?w1 = "put_sinks n (new_cell (sinks_unbind ops key S)) w"
  have "\<not> busy ?w1 n" "is_source ?w1 n" using assms by (simp_all add: put_sinks_busy)
  then obtain w' where w': "try_schedule_discard ops n ?w1 = Inr w'" "book_same ?w1 w'"
    "\<And>k. k \<noteq> n \<Longrightarrow> heap w' k = heap ?w1 k" "sinks_of w' = sinks_of ?w1"
    using try_schedule_discard_ok by metis
  have e: "entry ops w' = entry ops ?w1" and b: "busy w' = busy ?w1"
    using w'(4) by (simp_all add: entry_def busy_def fun_eq_iff)
  show ?thesis
  proof (rule that)
    show "node_unbind ops n key w = Inr w'"
      using S(1) w'(1) by (simp add: node_unbind_def modify_sinks_def)
    show "book_same w w'" using book_same_trans [OF put_sinks_book w'(2)] .
    show "\<And>k. k \<noteq> n \<Longrightarrow> heap w' k = heap w k" using w'(3) by (simp add: put_sinks_heap)
    show "\<And>k i. entry ops w' k i = (if k = n \<and> i = key then None else entry ops w k i)"
      using assms(2) S(2) by (auto simp: e put_sinks_entry sinks_unbind_def slab_get_remove [OF laws])
    show "\<And>k. busy w' k = busy w k" using assms(2,3) by (auto simp: b put_sinks_busy)
  qed
qed

end
