(* ===== verification/Graph_Invariant.thy ===== *)
theory Graph_Invariant
  imports Graph_View
begin

section \<open>The invariant of the reactive graph\<close>

text \<open>
  \<open>graph_inv\<close> ties the two copies of every edge together and says what the dirty flags promise.
  It is stated for graphs whose signals come from \<open>Signal::new\<close> and \<open>Signal::new_dedup\<close> and whose
  effects record what they read; \<open>G k\<close> is the closure of node \<open>k\<close>. The closure reads only nodes
  created before \<open>k\<close>, as a Rust closure that captures its sources does.

  It holds at every moment of an \<open>update\<close>: nodes being updated (\<open>active\<close>) are exempt from the
  conditions on their own source bindings, which they hold in local variables, and from the condition on
  clean entries of theirs.
\<close>

subsection \<open>Closures and the reads they make\<close>

primrec tracked :: "(nid \<Rightarrow> bool) \<Rightarrow> ('v, 'a) prog \<Rightarrow> bool" where
  "tracked P (Return x) = True"
| "tracked P (Read m k) = (P m \<and> (\<forall>v. tracked P (k v)))"
| "tracked P (ReadUntracked m k) = False"
| "tracked P Fail = False"

text \<open>The result of a closure whose reads returned the values of the trace.\<close>

primrec follow :: "('v, 'a) prog \<Rightarrow> (nid \<times> 'v) list \<Rightarrow> 'a option" where
  "follow (Return x) = (\<lambda>tr. if tr = [] then Some x else None)"
| "follow (Read m k) = (\<lambda>tr. case tr of [] \<Rightarrow> None
     | (m', v) # tr' \<Rightarrow> if m' = m then follow (k v) tr' else None)"
| "follow (ReadUntracked m k) = (\<lambda>tr. None)"
| "follow Fail = (\<lambda>tr. None)"

lemma tracked_mono: "tracked P p \<Longrightarrow> (\<And>m. P m \<Longrightarrow> Q m) \<Longrightarrow> tracked Q p"
  by (induction p) auto

lemma tracked_prog_map [simp]: "tracked P (prog_map f p) = tracked P p"
  by (induction p) auto

lemma follow_prog_map: "follow (prog_map f p) tr = map_option f (follow p tr)"
  by (induction p arbitrary: tr) (auto split: list.splits)

subsection \<open>The invariant\<close>

definition loc :: "source_binding \<Rightarrow> nid \<times> bind_key" where
  "loc b = (src_node b, src_key b)"

text \<open>The source bindings of \<open>j\<close> are exactly the entries that name \<open>j\<close> as their sink.\<close>

definition binds :: "('m, sink_binding) slab_ops \<Rightarrow> ('m, 'v, 'z) world_scheme \<Rightarrow> nid \<Rightarrow> source_bindings \<Rightarrow> bool" where
  "binds ops w j bs \<longleftrightarrow> distinct (map loc bs) \<and> (\<forall>b \<in> set bs. src_slot b = 0)
     \<and> (\<forall>k key. (k, key) \<in> set (map loc bs) \<longleftrightarrow> (\<exists>b. entry ops w k key = Some b \<and> sb_sink b = j))"

definition flag :: "('m, sink_binding) slab_ops \<Rightarrow> ('m, 'v, 'z) world_scheme \<Rightarrow> source_binding \<Rightarrow> dirty" where
  "flag ops w b = (case entry ops w (src_node b) (src_key b) of None \<Rightarrow> Dirty | Some e \<Rightarrow> sb_dirty e)"

definition node_fits :: "(nid \<Rightarrow> ('v, 'v) prog) \<Rightarrow> ('m, 'v, 'z) world_scheme \<Rightarrow> nid \<Rightarrow> bool" where
  "node_fits G w k \<longleftrightarrow> (case code w k of
       None \<Rightarrow> True
     | Some CState \<Rightarrow> True
     | Some (CScan s d) \<Rightarrow> (s = get_fn_get (G k) \<or> s = get_fn_get_dedup (G k))
         \<and> tracked (\<lambda>m. m < k \<and> is_source w m) (G k)
     | Some (CEffect f p) \<Rightarrow> f = (\<lambda>_. prog_map Some (G k)) \<and> tracked (\<lambda>m. m < k \<and> is_source w m) (G k))"

text \<open>
  The value of \<open>j\<close> is what its closure returns when its reads return some values \<open>vs\<close>, and a
  source whose entry is not marked \<open>Dirty\<close> still has the value that was read.
\<close>

definition valid :: "('m, sink_binding) slab_ops \<Rightarrow> (nid \<Rightarrow> ('v, 'v) prog) \<Rightarrow> ('m, 'v, 'z) world_scheme
    \<Rightarrow> nid \<Rightarrow> source_bindings \<Rightarrow> bool" where
  "valid ops G w j bs \<longleftrightarrow> (\<exists>vs v. length vs = length bs
     \<and> follow (G j) (zip (map src_node bs) vs) = Some v \<and> cval w j = Some v
     \<and> (\<forall>i < length bs. flag ops w (bs ! i) \<noteq> Dirty \<longrightarrow> cval w (src_node (bs ! i)) = Some (vs ! i)))"

lemma validI:
  assumes "length vs = length bs" and "follow (G j) (zip (map src_node bs) vs) = Some v" and "cval w j = Some v"
    and "\<And>i. i < length bs \<Longrightarrow> flag ops w (bs ! i) \<noteq> Dirty \<Longrightarrow> cval w (src_node (bs ! i)) = Some (vs ! i)"
  shows "valid ops G w j bs"
  unfolding valid_def using assms by blast

lemma validE:
  assumes "valid ops G w j bs"
  obtains vs v where "length vs = length bs" and "follow (G j) (zip (map src_node bs) vs) = Some v" and "cval w j = Some v"
    and "\<And>i. i < length bs \<Longrightarrow> flag ops w (bs ! i) \<noteq> Dirty \<Longrightarrow> cval w (src_node (bs ! i)) = Some (vs ! i)"
  using assms unfolding valid_def by blast

definition binder_ok :: "('m, sink_binding) slab_ops \<Rightarrow> (nid \<Rightarrow> ('v, 'v) prog) \<Rightarrow> ('m, 'v, 'z) world_scheme
    \<Rightarrow> nid \<Rightarrow> source_binder \<Rightarrow> bool" where
  "binder_ok ops G w j sb \<longleftrightarrow> sbr_sink sb = j \<and> sbr_slot sb = 0 \<and> binds ops w j (sbr_sources sb)
     \<and> (sbr_dirty sb = Clean \<longrightarrow> (\<forall>b \<in> set (sbr_sources sb). flag ops w b = Clean))
     \<and> (sbr_dirty sb \<noteq> Dirty \<longrightarrow> valid ops G w j (sbr_sources sb))"

definition graph_inv :: "('m, sink_binding) slab_ops \<Rightarrow> (nid \<Rightarrow> ('v, 'v) prog) \<Rightarrow> ('m, 'v, 'z) world_scheme \<Rightarrow> bool" where
  "graph_inv ops G w \<longleftrightarrow>
     (\<forall>k. code w k \<noteq> None \<longrightarrow> k < next_id w)
   \<and> (\<forall>k. node_fits G w k)
   \<and> (\<forall>k. \<not> busy w k)
   \<and> (\<forall>k key b. entry ops w k key = Some b \<longrightarrow> k < sb_sink b \<and> sb_sink b < next_id w \<and> sb_slot b = 0
        \<and> code w (sb_sink b) \<noteq> Some CState)
   \<and> (\<forall>k key b. entry ops w k key = Some b \<longrightarrow> sb_dirty b = Clean \<longrightarrow> \<not> active w (sb_sink b) \<longrightarrow> \<not> stale w k)
   \<and> (\<forall>k key b. entry ops w k key = Some b \<longrightarrow> \<not> stale w k \<longrightarrow> sb_dirty b \<noteq> MaybeDirty)
   \<and> (\<forall>j sb. src_binder w j = Some sb \<longrightarrow> \<not> active w j \<longrightarrow> binder_ok ops G w j sb)"

lemma graph_invI:
  assumes "\<And>k. code w k \<noteq> None \<Longrightarrow> k < next_id w"
    and "\<And>k. node_fits G w k"
    and "\<And>k. \<not> busy w k"
    and "\<And>k key b. entry ops w k key = Some b \<Longrightarrow> k < sb_sink b \<and> sb_sink b < next_id w \<and> sb_slot b = 0
        \<and> code w (sb_sink b) \<noteq> Some CState"
    and "\<And>k key b. entry ops w k key = Some b \<Longrightarrow> sb_dirty b = Clean \<Longrightarrow> \<not> active w (sb_sink b) \<Longrightarrow> \<not> stale w k"
    and "\<And>k key b. entry ops w k key = Some b \<Longrightarrow> \<not> stale w k \<Longrightarrow> sb_dirty b \<noteq> MaybeDirty"
    and "\<And>j sb. src_binder w j = Some sb \<Longrightarrow> \<not> active w j \<Longrightarrow> binder_ok ops G w j sb"
  shows "graph_inv ops G w"
  using assms unfolding graph_inv_def by blast

lemma graph_invD:
  assumes "graph_inv ops G w"
  shows inv_next: "\<And>k. code w k \<noteq> None \<Longrightarrow> k < next_id w"
    and inv_fits: "\<And>k. node_fits G w k"
    and inv_busy: "\<And>k. \<not> busy w k"
    and inv_entry: "\<And>k key b. entry ops w k key = Some b \<Longrightarrow> k < sb_sink b \<and> sb_sink b < next_id w \<and> sb_slot b = 0
        \<and> code w (sb_sink b) \<noteq> Some CState"
    and inv_clean: "\<And>k key b. entry ops w k key = Some b \<Longrightarrow> sb_dirty b = Clean \<Longrightarrow> \<not> active w (sb_sink b) \<Longrightarrow> \<not> stale w k"
    and inv_resolved: "\<And>k key b. entry ops w k key = Some b \<Longrightarrow> \<not> stale w k \<Longrightarrow> sb_dirty b \<noteq> MaybeDirty"
    and inv_binder: "\<And>j sb. src_binder w j = Some sb \<Longrightarrow> \<not> active w j \<Longrightarrow> binder_ok ops G w j sb"
  using assms unfolding graph_inv_def by blast+

lemma bindsD:
  assumes "binds ops w j bs" and "b \<in> set bs"
  obtains e where "entry ops w (src_node b) (src_key b) = Some e" and "sb_sink e = j"
    and "flag ops w b = sb_dirty e"
proof -
  from assms have "(src_node b, src_key b) \<in> set (map loc bs)" by (auto simp: loc_def)
  with assms(1) obtain e where "entry ops w (src_node b) (src_key b) = Some e" "sb_sink e = j"
    by (auto simp: binds_def)
  then show ?thesis using that by (simp add: flag_def)
qed

lemma binds_lt:
  assumes "graph_inv ops G w" and "binds ops w j bs" and "b \<in> set bs"
  shows "src_node b < j" and "is_source w (src_node b)"
  using bindsD [OF assms(2,3)] inv_entry [OF assms(1)] entry_source by metis+

text \<open>The entries of one sink determine \<open>binds\<close> and the flags of its bindings.\<close>

lemma binds_cong:
  assumes "\<And>k key. (\<exists>b. entry ops w' k key = Some b \<and> sb_sink b = j) = (\<exists>b. entry ops w k key = Some b \<and> sb_sink b = j)"
  shows "binds ops w' j bs = binds ops w j bs"
  by (simp add: binds_def assms)

lemma node_fits_cong:
  "code w' = code w \<Longrightarrow> node_fits G w' k = node_fits G w k"
proof -
  assume c: "code w' = code w"
  then have "is_source w' = is_source w" by (simp add: fun_eq_iff is_source_code)
  show ?thesis unfolding node_fits_def c \<open>is_source w' = is_source w\<close> ..
qed

subsection \<open>Changing only the entries of a node being updated\<close>

lemma active_not_state: "active w j \<Longrightarrow> code w j \<noteq> Some CState"
proof (cases "heap w j")
  case (Some nd)
  then show "active w j \<Longrightarrow> ?thesis" by (cases nd) (simp_all add: active_def code_def)
qed (simp add: code_def)

lemma graph_inv_rebind:
  assumes inv: "graph_inv ops G w" and book: "book_same w w'" and nb: "\<And>k. \<not> busy w' k"
    and other: "\<And>k key b. sb_sink b \<noteq> j \<Longrightarrow> entry ops w' k key = Some b \<longleftrightarrow> entry ops w k key = Some b"
    and own: "\<And>k key b. entry ops w' k key = Some b \<Longrightarrow> sb_sink b = j \<Longrightarrow>
      k < j \<and> sb_slot b = 0 \<and> sb_dirty b \<noteq> MaybeDirty \<or> entry ops w k key = Some b"
    and j: "active w j" "j < next_id w"
  shows "graph_inv ops G w'"
proof (rule graph_invI)
  have eqs: "code w' = code w" "src_binder w' = src_binder w" "active w' = active w" "cval w' = cval w"
    and nx: "next_id w' = next_id w"
    using book by (simp_all add: book_same_def rest_same_next)
  have st: "stale w' k = stale w k" for k using book by (rule book_same_stale)
  show "\<And>k. code w' k \<noteq> None \<Longrightarrow> k < next_id w'" using inv_next [OF inv] by (simp add: eqs nx)
  show "\<And>k. node_fits G w' k" using inv_fits [OF inv] node_fits_cong [OF eqs(1)] by blast
  show "\<And>k. \<not> busy w' k" by (rule nb)
  fix k key b assume e: "entry ops w' k key = Some b"
  then have cases: "entry ops w k key = Some b \<or> sb_sink b = j \<and> k < j \<and> sb_slot b = 0 \<and> sb_dirty b \<noteq> MaybeDirty"
    using other own by (cases "sb_sink b = j") blast+
  then show "k < sb_sink b \<and> sb_sink b < next_id w' \<and> sb_slot b = 0 \<and> code w' (sb_sink b) \<noteq> Some CState"
    using inv_entry [OF inv] j nx eqs(1) active_not_state by metis
  show "sb_dirty b = Clean \<Longrightarrow> \<not> active w' (sb_sink b) \<Longrightarrow> \<not> stale w' k"
    using cases inv_clean [OF inv] j(1) by (auto simp: eqs st)
  show "\<not> stale w' k \<Longrightarrow> sb_dirty b \<noteq> MaybeDirty"
    using cases inv_resolved [OF inv] by (auto simp: st)
next
  fix i sb assume b: "src_binder w' i = Some sb" and na: "\<not> active w' i"
  have eqs: "src_binder w' = src_binder w" "active w' = active w" "cval w' = cval w"
    using book by (simp_all add: book_same_def)
  have ok: "binder_ok ops G w i sb" and ij: "i \<noteq> j"
    using inv_binder [OF inv] b na j(1) by (auto simp: eqs)
  have "binds ops w' i bs = binds ops w i bs" for bs
    using other ij by (intro binds_cong) blast
  moreover have "flag ops w' b = flag ops w b" if bb: "binds ops w i bs" "b \<in> set bs" for b bs
  proof -
    obtain e where e: "entry ops w (src_node b) (src_key b) = Some e" "sb_sink e = i"
      using bindsD [OF bb] by metis
    then have "entry ops w' (src_node b) (src_key b) = Some e" using other ij by blast
    with e show ?thesis by (simp add: flag_def)
  qed
  ultimately show "binder_ok ops G w' i sb"
    using ok by (auto simp: binder_ok_def valid_def eqs)
qed

subsection \<open>What an update may change\<close>

text \<open>
  Nodes from \<open>a\<close> on are untouched. A node that was not stale keeps its dirty state, its bindings and its value.
  Of the entries for sinks from \<open>c\<close> on, only \<open>MaybeDirty\<close> ones change, each to \<open>Clean\<close> or
  \<open>Dirty\<close>; one that does not become \<open>Dirty\<close> is at a node that kept its value, one that becomes
  \<open>Clean\<close> is at a node that is no longer stale.
\<close>

definition entry_frame :: "('m, sink_binding) slab_ops \<Rightarrow> nat \<Rightarrow> ('m, 'v, 'z) world_scheme \<Rightarrow> ('m, 'v, 'z) world_scheme \<Rightarrow> bool" where
  "entry_frame ops c w w' \<longleftrightarrow>
     (\<forall>k key b. entry ops w k key = Some b \<longrightarrow> c \<le> sb_sink b \<longrightarrow>
        (\<exists>b'. entry ops w' k key = Some b' \<and> sb_sink b' = sb_sink b
          \<and> (b' = b \<or> sb_dirty b = MaybeDirty)
          \<and> (sb_dirty b = MaybeDirty \<longrightarrow> sb_dirty b' \<noteq> Dirty \<longrightarrow> cval w' k = cval w k)
          \<and> (sb_dirty b = MaybeDirty \<longrightarrow> sb_dirty b' = Clean \<longrightarrow> \<not> stale w' k)))
   \<and> (\<forall>k key b'. entry ops w' k key = Some b' \<longrightarrow> c \<le> sb_sink b' \<longrightarrow>
        (\<exists>b. entry ops w k key = Some b \<and> sb_sink b = sb_sink b'))"

definition upd_frame :: "('m, sink_binding) slab_ops \<Rightarrow> nat \<Rightarrow> nat \<Rightarrow> ('m, 'v, 'z) world_scheme \<Rightarrow> ('m, 'v, 'z) world_scheme \<Rightarrow> bool" where
  "upd_frame ops a c w w' \<longleftrightarrow> rest_same w w' \<and> code w' = code w \<and> active w' = active w
     \<and> (\<forall>k \<ge> a. heap w' k = heap w k)
     \<and> (\<forall>k. \<not> stale w k \<longrightarrow> src_binder w' k = src_binder w k \<and> cval w' k = cval w k)
     \<and> entry_frame ops c w w'"

lemma upd_frameD:
  assumes "upd_frame ops a c w w'"
  shows frame_rest: "rest_same w w'" and frame_code: "code w' = code w" and frame_active: "active w' = active w"
    and frame_heap: "\<And>k. a \<le> k \<Longrightarrow> heap w' k = heap w k"
    and frame_clean: "\<And>k. \<not> stale w k \<Longrightarrow> src_binder w' k = src_binder w k"
      "\<And>k. \<not> stale w k \<Longrightarrow> cval w' k = cval w k"
    and frame_entry: "entry_frame ops c w w'"
  using assms unfolding upd_frame_def by blast+

lemma frame_stale: "upd_frame ops a c w w' \<Longrightarrow> \<not> stale w k \<Longrightarrow> \<not> stale w' k"
  using frame_clean(1) by (fastforce simp: stale_def)

lemma frame_source: "upd_frame ops a c w w' \<Longrightarrow> is_source w' k = is_source w k"
  by (simp add: is_source_code frame_code)

lemma entry_frameD1:
  assumes "entry_frame ops c w w'" and "entry ops w k key = Some b" and "c \<le> sb_sink b"
  obtains b' where "entry ops w' k key = Some b'" and "sb_sink b' = sb_sink b"
    and "b' = b \<or> sb_dirty b = MaybeDirty"
    and "sb_dirty b = MaybeDirty \<Longrightarrow> sb_dirty b' \<noteq> Dirty \<Longrightarrow> cval w' k = cval w k"
    and "sb_dirty b = MaybeDirty \<Longrightarrow> sb_dirty b' = Clean \<Longrightarrow> \<not> stale w' k"
  using assms unfolding entry_frame_def by blast

lemma entry_frameD2:
  assumes "entry_frame ops c w w'" and "entry ops w' k key = Some b'" and "c \<le> sb_sink b'"
  obtains b where "entry ops w k key = Some b" and "sb_sink b = sb_sink b'"
  using assms unfolding entry_frame_def by blast

lemma entry_frame_refl [simp]: "entry_frame ops c w w"
  by (auto simp: entry_frame_def)

lemma upd_frame_refl [simp]: "upd_frame ops a c w w"
  by (simp add: upd_frame_def)

lemma entry_frame_trans:
  assumes f1: "entry_frame ops c w w1" and f2: "entry_frame ops c w1 w2"
    and keep: "\<And>k. \<not> stale w1 k \<Longrightarrow> \<not> stale w2 k \<and> cval w2 k = cval w1 k"
  shows "entry_frame ops c w w2"
  unfolding entry_frame_def
proof (intro conjI allI impI)
  fix k key b assume e: "entry ops w k key = Some b" and c: "c \<le> sb_sink b"
  obtain b1 where b1: "entry ops w1 k key = Some b1" "sb_sink b1 = sb_sink b" "b1 = b \<or> sb_dirty b = MaybeDirty"
    "sb_dirty b = MaybeDirty \<Longrightarrow> sb_dirty b1 \<noteq> Dirty \<Longrightarrow> cval w1 k = cval w k"
    "sb_dirty b = MaybeDirty \<Longrightarrow> sb_dirty b1 = Clean \<Longrightarrow> \<not> stale w1 k"
    using entry_frameD1 [OF f1 e c] by blast
  have c1: "c \<le> sb_sink b1" using c b1(2) by simp
  obtain b2 where b2: "entry ops w2 k key = Some b2" "sb_sink b2 = sb_sink b1" "b2 = b1 \<or> sb_dirty b1 = MaybeDirty"
    "sb_dirty b1 = MaybeDirty \<Longrightarrow> sb_dirty b2 \<noteq> Dirty \<Longrightarrow> cval w2 k = cval w1 k"
    "sb_dirty b1 = MaybeDirty \<Longrightarrow> sb_dirty b2 = Clean \<Longrightarrow> \<not> stale w2 k"
    using entry_frameD1 [OF f2 b1(1) c1] by blast
  have "b2 = b \<or> sb_dirty b = MaybeDirty" using b1(3) b2(3) by blast
  moreover have "cval w2 k = cval w k" if "sb_dirty b = MaybeDirty" "sb_dirty b2 \<noteq> Dirty"
    using that b1(3-5) b2(3,4) keep by (cases "sb_dirty b1") auto
  moreover have "\<not> stale w2 k" if "sb_dirty b = MaybeDirty" "sb_dirty b2 = Clean"
    using that b1(3-5) b2(3,5) keep by (cases "sb_dirty b1") auto
  ultimately show "\<exists>b'. entry ops w2 k key = Some b' \<and> sb_sink b' = sb_sink b
      \<and> (b' = b \<or> sb_dirty b = MaybeDirty)
      \<and> (sb_dirty b = MaybeDirty \<longrightarrow> sb_dirty b' \<noteq> Dirty \<longrightarrow> cval w2 k = cval w k)
      \<and> (sb_dirty b = MaybeDirty \<longrightarrow> sb_dirty b' = Clean \<longrightarrow> \<not> stale w2 k)"
    using b1(2) b2(1,2) by auto
next
  fix k key b' assume "entry ops w2 k key = Some b'" "c \<le> sb_sink b'"
  then obtain b1 where "entry ops w1 k key = Some b1" "sb_sink b1 = sb_sink b'"
    using entry_frameD2 [OF f2] by blast
  then show "\<exists>b. entry ops w k key = Some b \<and> sb_sink b = sb_sink b'"
    using entry_frameD2 [OF f1] \<open>c \<le> sb_sink b'\<close> by metis
qed

lemma upd_frame_trans:
  assumes f1: "upd_frame ops a c w w1" and f2: "upd_frame ops a c w1 w2"
  shows "upd_frame ops a c w w2"
proof -
  have st: "\<not> stale w k \<Longrightarrow> \<not> stale w1 k" for k using frame_stale [OF f1] .
  have "entry_frame ops c w w2"
    using entry_frame_trans [OF frame_entry [OF f1] frame_entry [OF f2]]
      frame_stale [OF f2] frame_clean(2) [OF f2] by blast
  then show ?thesis
    using f1 f2 st unfolding upd_frame_def by (auto intro: rest_same_trans)
qed

lemma upd_frame_mono:
  assumes "upd_frame ops a c w w'" and "a \<le> a'" and "c \<le> c'"
  shows "upd_frame ops a' c' w w'"
  using assms unfolding upd_frame_def entry_frame_def
  by (meson order_trans)

text \<open>A change of bookkeeping and of the entries of sinks below \<open>c\<close>.\<close>

lemma upd_frame_book:
  assumes "book_same w w'" and "\<And>k. a \<le> k \<Longrightarrow> heap w' k = heap w k"
    and "\<And>k key b. c \<le> sb_sink b \<Longrightarrow> entry ops w' k key = Some b \<longleftrightarrow> entry ops w k key = Some b"
  shows "upd_frame ops a c w w'"
proof -
  have "entry_frame ops c w w'"
    using assms(3) assms(1) book_same_stale [OF assms(1)]
    unfolding entry_frame_def book_same_def by (metis dirty.distinct(1))
  then show ?thesis using assms(1,2) by (simp add: upd_frame_def book_same_def)
qed

lemma frame_flag:
  assumes f: "upd_frame ops a c w w'" and b: "binds ops w j bs" "b \<in> set bs" and "c \<le> j"
    and "flag ops w b \<noteq> MaybeDirty"
  shows "flag ops w' b = flag ops w b"
proof -
  obtain e where e: "entry ops w (src_node b) (src_key b) = Some e" "sb_sink e = j" "flag ops w b = sb_dirty e"
    using bindsD [OF b] .
  then have "c \<le> sb_sink e" using assms(4) by simp
  then have "entry ops w' (src_node b) (src_key b) = Some e"
    using entry_frameD1 [OF frame_entry [OF f] e(1)] e(3) assms(5) by metis
  then show ?thesis using e(3) by (simp add: flag_def)
qed

lemma frame_binds:
  assumes f: "upd_frame ops a c w w'" and cj: "c \<le> j"
  shows "binds ops w' j bs = binds ops w j bs"
proof (rule binds_cong)
  fix k key
  have "\<exists>b. entry ops w' k key = Some b \<and> sb_sink b = j" if "entry ops w k key = Some e" "sb_sink e = j" for e
  proof -
    have "c \<le> sb_sink e" using that cj by simp
    from entry_frameD1 [OF frame_entry [OF f] that(1) this] that(2) show ?thesis by metis
  qed
  moreover have "\<exists>b. entry ops w k key = Some b \<and> sb_sink b = j" if "entry ops w' k key = Some e" "sb_sink e = j" for e
  proof -
    have "c \<le> sb_sink e" using that cj by simp
    from entry_frameD2 [OF frame_entry [OF f] that(1) this] that(2) show ?thesis by metis
  qed
  ultimately show "(\<exists>b. entry ops w' k key = Some b \<and> sb_sink b = j) = (\<exists>b. entry ops w k key = Some b \<and> sb_sink b = j)"
    by blast
qed

end
