(* ===== verification/Graph_Update.thy ===== *)
theory Graph_Update
  imports Graph_Invariant
begin

section \<open>Updating a node\<close>

text \<open>
  \<open>check\<close>, \<open>borrow\<close>, the run of a closure and \<open>update\<close> call the \<open>update\<close> of other nodes. The
  locale \<open>node_updater\<close> is the contract of that call: it returns, it keeps the invariant, it changes
  no more than \<open>upd_frame\<close> allows, and the updated node is not stale afterwards. Inside the locale
  each caller is verified against the contract; the last lemma shows that \<open>scan_update\<close> then
  satisfies it for one more node, and the interpretation closes the induction over the fuel.
\<close>

subsection \<open>Unbinding and binding\<close>

lemma unbind_all_ok:
  assumes laws: "slab_laws ops" and "\<And>b. b \<in> set bs \<Longrightarrow> is_source w (src_node b) \<and> \<not> busy w (src_node b)"
  shows "\<exists>w'. unbind_all ops bs w = Inr w' \<and> book_same w w'
     \<and> (\<forall>k. k \<notin> src_node ` set bs \<longrightarrow> heap w' k = heap w k)
     \<and> (\<forall>k key. entry ops w' k key = (if (k, key) \<in> set (map loc bs) then None else entry ops w k key))
     \<and> (\<forall>k. busy w' k = busy w k)"
  using assms(2)
proof (induction bs arbitrary: w)
  case Nil
  then show ?case by (simp add: unbind_all_def)
next
  case (Cons b bs)
  have src: "is_source w (src_node b)" and nb: "\<not> busy w (src_node b)" using Cons.prems by auto
  obtain w1 where w1: "node_unbind ops (src_node b) (src_key b) w = Inr w1" "book_same w w1"
    "\<And>k. k \<noteq> src_node b \<Longrightarrow> heap w1 k = heap w k"
    "\<And>k i. entry ops w1 k i = (if k = src_node b \<and> i = src_key b then None else entry ops w k i)"
    "\<And>k. busy w1 k = busy w k"
    using node_unbind_ok [OF laws src nb, of "src_key b"] by blast
  have "\<And>b'. b' \<in> set bs \<Longrightarrow> is_source w1 (src_node b') \<and> \<not> busy w1 (src_node b')"
    using Cons.prems by (simp add: w1(5) book_same_source [OF w1(2)])
  from Cons.IH [OF this] obtain w' where w': "unbind_all ops bs w1 = Inr w'" "book_same w1 w'"
    "\<And>k. k \<notin> src_node ` set bs \<Longrightarrow> heap w' k = heap w1 k"
    "\<And>k key. entry ops w' k key = (if (k, key) \<in> set (map loc bs) then None else entry ops w1 k key)"
    "\<And>k. busy w' k = busy w1 k" by blast
  show ?case
  proof (intro exI conjI allI impI)
    show "unbind_all ops (b # bs) w = Inr w'" using w1(1) w'(1) by (simp add: unbind_all_def)
    show "book_same w w'" using book_same_trans [OF w1(2) w'(2)] .
    show "k \<notin> src_node ` set (b # bs) \<Longrightarrow> heap w' k = heap w k" for k using w1(3) w'(3) by simp
    show "entry ops w' k key = (if (k, key) \<in> set (map loc (b # bs)) then None else entry ops w k key)" for k key
      by (auto simp: w1(4) w'(4) loc_def)
    show "busy w' k = busy w k" for k by (simp add: w1(5) w'(5))
  qed
qed

text \<open>
  Binding the write head of \<open>j\<close> to \<open>m\<close>. The position the head leaves behind holds a clean binding
  to \<open>m\<close>; entries of other sinks and earlier bindings of \<open>j\<close> are untouched.
\<close>

definition head_at :: "('m, sink_binding) slab_ops \<Rightarrow> ('m, 'v, 'z) world_scheme \<Rightarrow> nid \<Rightarrow> sink \<Rightarrow> bool" where
  "head_at ops w j k \<longleftrightarrow> sk_node k = j \<and> sk_slot k = 0 \<and> sk_len k \<le> length (sk_sources k)
     \<and> binds ops w j (sk_sources k)"

definition bind_step :: "('m, sink_binding) slab_ops \<Rightarrow> nid \<Rightarrow> nid \<Rightarrow> sink \<Rightarrow> ('m, 'v, 'z) world_scheme
    \<Rightarrow> sink \<Rightarrow> ('m, 'v, 'z) world_scheme \<Rightarrow> bool" where
  "bind_step ops m j k w k' w' \<longleftrightarrow> head_at ops w' j k' \<and> sk_len k' = Suc (sk_len k)
     \<and> take (sk_len k) (sk_sources k') = take (sk_len k) (sk_sources k)
     \<and> src_node (sk_sources k' ! sk_len k) = m \<and> flag ops w' (sk_sources k' ! sk_len k) = Clean
     \<and> book_same w w' \<and> (\<forall>i. \<not> busy w' i) \<and> (\<forall>i \<ge> j. heap w' i = heap w i)
     \<and> (\<forall>i key b. sb_sink b \<noteq> j \<longrightarrow> entry ops w' i key = Some b \<longleftrightarrow> entry ops w i key = Some b)
     \<and> (\<forall>i key b. entry ops w' i key = Some b \<longrightarrow> sb_sink b = j \<longrightarrow>
          i < j \<and> sb_slot b = 0 \<and> sb_dirty b \<noteq> MaybeDirty \<or> entry ops w i key = Some b)
     \<and> (\<forall>b \<in> set (take (sk_len k) (sk_sources k)). flag ops w b = Clean \<longrightarrow> flag ops w' b = Clean)"


text \<open>
  What the three branches of \<open>bind\<close> have in common: the position of the head holds \<open>b'\<close>, its
  entry is clean, and the entry of the binding it replaced is gone.
\<close>

lemma bind_stepI:
  assumes head: "head_at ops w j k" and l: "l = sk_len k"
    and k': "k' = k\<lparr>sk_len := Suc l, sk_sources := take l (sk_sources k) @ b' # drop (Suc l) (sk_sources k)\<rparr>"
    and b': "src_node b' = m" "src_slot b' = 0" "m < j"
    and fresh: "l < length (sk_sources k) \<and> loc b' = loc (sk_sources k ! l)
      \<or> loc b' \<notin> set (map loc (sk_sources k)) \<and> entry ops w m (src_key b') = None"
    and e': "sb_sink e' = j" "sb_slot e' = 0" "sb_dirty e' = Clean"
    and entry: "\<And>i key. entry ops w' i key = (if (i, key) = loc b' then Some e'
      else if l < length (sk_sources k) \<and> (i, key) = loc (sk_sources k ! l) then None else entry ops w i key)"
    and book: "book_same w w'" "\<And>i. \<not> busy w' i" "\<And>i. j \<le> i \<Longrightarrow> heap w' i = heap w i"
  shows "bind_step ops m j k w k' w'"
proof -
  let ?bs = "sk_sources k"
  have hd: "sk_node k = j" "sk_slot k = 0" "l \<le> length ?bs" "distinct (map loc ?bs)" "\<forall>b \<in> set ?bs. src_slot b = 0"
    and locs: "\<And>i key. (i, key) \<in> set (map loc ?bs) \<longleftrightarrow> (\<exists>b. entry ops w i key = Some b \<and> sb_sink b = j)"
    using head l by (simp_all add: head_at_def binds_def)
  have tk: "take l (sk_sources k') = take l ?bs" and nth: "sk_sources k' ! l = b'"
    using hd(3) by (simp_all add: k' nth_append)
  have split: "l < length ?bs \<Longrightarrow> map loc ?bs = map loc (take l ?bs) @ loc (?bs ! l) # map loc (drop (Suc l) ?bs)"
    using id_take_nth_drop [of l ?bs] by (metis list.simps(9) map_append)
  have split': "\<not> l < length ?bs \<Longrightarrow> take l ?bs = ?bs \<and> drop (Suc l) ?bs = []" by simp
  have new: "loc b' \<notin> set (map loc (take l ?bs)) \<and> loc b' \<notin> set (map loc (drop (Suc l) ?bs))"
  proof (cases "l < length ?bs")
    case True
    show ?thesis using fresh hd(4) unfolding split [OF True] by (auto; metis imageI)
  next
    case False
    then show ?thesis using fresh split' [OF False] by simp
  qed
  have dist: "distinct (map loc (sk_sources k'))"
  proof (cases "l < length ?bs")
    case True
    show ?thesis using new hd(4) unfolding split [OF True] by (simp add: k')
  next
    case False
    then show ?thesis using new hd(4) split' [OF False] by (simp add: k')
  qed
  have "(i, key) \<in> set (map loc (sk_sources k')) \<longleftrightarrow> (\<exists>b. entry ops w' i key = Some b \<and> sb_sink b = j)" for i key
  proof (cases "l < length ?bs")
    case True
    then have "entry ops w' i key = (if (i, key) = loc b' then Some e'
        else if (i, key) = loc (?bs ! l) then None else entry ops w i key)"
      using entry [of i key] by simp
    then show ?thesis
      using new hd(4) locs [of i key] e'(1) unfolding split [OF True] by (auto simp: k')
  next
    case False
    then have "entry ops w' i key = (if (i, key) = loc b' then Some e' else entry ops w i key)"
      using entry [of i key] by simp
    then show ?thesis using locs [of i key] e'(1) split' [OF False] by (auto simp: k')
  qed
  moreover have "\<forall>b \<in> set (sk_sources k'). src_slot b = 0"
  proof
    fix b assume "b \<in> set (sk_sources k')"
    then have "b = b' \<or> b \<in> set ?bs"
      using in_set_takeD [of b l ?bs] in_set_dropD [of b "Suc l" ?bs] by (simp add: k') blast
    then show "src_slot b = 0" using hd(5) b'(2) by blast
  qed
  ultimately have "binds ops w' j (sk_sources k')" using dist by (simp add: binds_def)
  then have "head_at ops w' j k'" using hd(1-3) by (simp add: head_at_def k')
  moreover have "flag ops w' b' = Clean"
    using entry [of "src_node b'" "src_key b'"] e'(3) by (simp add: flag_def loc_def)
  moreover have "entry ops w' i key = Some b \<longleftrightarrow> entry ops w i key = Some b" if other: "sb_sink b \<noteq> j" for i key b
  proof (cases "(i, key) = loc b' \<or> l < length ?bs \<and> (i, key) = loc (?bs ! l)")
    case True
    have "\<not> entry ops w i key = Some b"
    proof
      assume e: "entry ops w i key = Some b"
      then have "(i, key) \<notin> set (map loc ?bs)" using other locs by fastforce
      moreover have "l < length ?bs \<Longrightarrow> loc (?bs ! l) \<in> set (map loc ?bs)" by simp
      ultimately show False using True fresh e b'(1) by (metis loc_def option.distinct(1) prod.inject)
    qed
    moreover have "\<not> entry ops w' i key = Some b"
      using entry [of i key] True e'(1) other by (metis option.distinct(1) option.inject)
    ultimately show ?thesis by simp
  next
    case False
    then show ?thesis using entry [of i key] by metis
  qed
  moreover have "i < j \<and> sb_slot b = 0 \<and> sb_dirty b \<noteq> MaybeDirty \<or> entry ops w i key = Some b"
    if "entry ops w' i key = Some b" for i key b
    using that entry [of i key] e' b'(1,3) by (auto simp: loc_def split: if_splits)
  moreover have "flag ops w' b = Clean" if "b \<in> set (take l ?bs)" "flag ops w b = Clean" for b
  proof -
    have "loc b \<in> set (map loc (take l ?bs))" using that(1) by simp
    then have "loc b \<noteq> loc b'" using new by metis
    moreover have "\<not> (l < length ?bs \<and> loc b = loc (?bs ! l))"
      using hd(4) that(1) split by (metis (no_types, lifting) distinct_append disjoint_iff image_eqI list.set_intros(1) list.set_map)
    moreover have "(src_node b, src_key b) = loc b" by (simp add: loc_def)
    ultimately have "entry ops w' (src_node b) (src_key b) = entry ops w (src_node b) (src_key b)"
      using entry [of "src_node b" "src_key b"] by metis
    then show ?thesis using that(2) by (simp add: flag_def)
  qed
  ultimately show ?thesis
    using book tk nth b'(1) hd(3) unfolding bind_step_def l by (simp add: k' l)
qed


lemma node_bind_reuse:
  assumes laws: "slab_laws ops" and inv: "graph_inv ops G w" and head: "head_at ops w j k"
    and m: "is_source w m" "m < j" and same: "sk_len k < length (sk_sources k)" "is_same (sk_sources k ! sk_len k) m 0"
  shows "\<exists>k' w'. node_bind ops m (Some k) w = Inr (Some k', w') \<and> bind_step ops m j k w k' w'"
proof -
  let ?l = "sk_len k" and ?b = "sk_sources k ! sk_len k"
  obtain S where S: "borrow_sinks m w = Inr S" "\<And>key. entry ops w m key = slab_get ops S key"
    using borrow_sinks_ok [OF m(1) inv_busy [OF inv]] by metis
  have b: "src_node ?b = m" "src_slot ?b = 0" using same(2) by (simp_all add: is_same_def)
  have "binds ops w j (sk_sources k)" using head by (simp add: head_at_def)
  then obtain e where e: "entry ops w m (src_key ?b) = Some e" "sb_sink e = j"
    using bindsD [OF _ nth_mem [OF same(1)]] b(1) by metis
  have e0: "sb_slot e = 0" using inv_entry [OF inv e(1)] by simp
  define S1 where "S1 = slab_put ops S (src_key ?b) (e\<lparr>sb_dirty := Clean\<rparr>)"
  have get: "slab_get ops S1 key = (if key = src_key ?b then Some (e\<lparr>sb_dirty := Clean\<rparr>) else slab_get ops S key)" for key
    using slab_get_put [OF laws] e(1) S(2) by (simp add: S1_def)
  let ?k' = "k\<lparr>sk_len := Suc ?l\<rparr>" and ?w' = "put_sinks m (new_cell S1) w"
  have run: "node_bind ops m (Some k) w = Inr (Some ?k', ?w')"
    using S e same by (simp add: node_bind_def sinks_bind_def S1_def)
  have "bind_step ops m j k w ?k' ?w'"
  proof (rule bind_stepI [where b' = ?b and e' = "e\<lparr>sb_dirty := Clean\<rparr>"])
    show "?k' = k\<lparr>sk_len := Suc ?l, sk_sources := take ?l (sk_sources k) @ ?b # drop (Suc ?l) (sk_sources k)\<rparr>"
      using id_take_nth_drop [OF same(1)] by simp
    show "entry ops ?w' i key = (if (i, key) = loc ?b then Some (e\<lparr>sb_dirty := Clean\<rparr>)
        else if ?l < length (sk_sources k) \<and> (i, key) = loc ?b then None else entry ops w i key)" for i key
      using m(1) S(2) b(1) by (simp add: put_sinks_entry get loc_def)
    show "\<not> busy ?w' i" for i using inv_busy [OF inv] m(1) by (simp add: put_sinks_busy)
    show "j \<le> i \<Longrightarrow> heap ?w' i = heap w i" for i using m(2) by (intro put_sinks_heap) simp
  qed (use head m b e e0 same(1) put_sinks_book in simp_all)
  then show ?thesis using run by blast
qed

lemma sink_push_conv:
  assumes "sk_len k \<le> length (sk_sources k)"
  shows "sink_push b k = (k\<lparr>sk_len := Suc (sk_len k),
      sk_sources := take (sk_len k) (sk_sources k) @ b # drop (Suc (sk_len k)) (sk_sources k)\<rparr>,
      if sk_len k < length (sk_sources k) then Some (sk_sources k ! sk_len k) else None)"
  using assms by (simp add: sink_push_def Let_def upd_conv_take_nth_drop)

lemma node_bind_new:
  assumes laws: "slab_laws ops" and inv: "graph_inv ops G w" and head: "head_at ops w j k"
    and m: "is_source w m" "m < j"
    and other: "\<not> (sk_len k < length (sk_sources k) \<and> is_same (sk_sources k ! sk_len k) m 0)"
  shows "\<exists>k' w'. node_bind ops m (Some k) w = Inr (Some k', w') \<and> bind_step ops m j k w k' w'"
proof -
  let ?l = "sk_len k" and ?b = "sk_sources k ! sk_len k"
  have hd: "sk_node k = j" "sk_slot k = 0" "?l \<le> length (sk_sources k)" and bnd: "binds ops w j (sk_sources k)"
    using head by (simp_all add: head_at_def)
  obtain S where S: "borrow_sinks m w = Inr S" "\<And>key. entry ops w m key = slab_get ops S key"
    using borrow_sinks_ok [OF m(1) inv_busy [OF inv]] by metis
  define e' where "e' = \<lparr>sb_sink = j, sb_slot = 0, sb_dirty = Clean\<rparr>"
  obtain key S1 where ins: "slab_insert ops S e' = (key, S1)" by fastforce
  note get = slab_get_insert [OF laws ins] and vac = slab_insert_vacant [OF laws ins]
  define b' where "b' = \<lparr>src_node = m, src_slot = 0, src_key = key\<rparr>"
  define k' where "k' = k\<lparr>sk_len := Suc ?l, sk_sources := take ?l (sk_sources k) @ b' # drop (Suc ?l) (sk_sources k)\<rparr>"
  define old where "old = (if ?l < length (sk_sources k) then Some ?b else None)"
  have sb: "sinks_bind ops m 0 k S = Inr (S1, k', old)"
    using ins hd sink_push_conv [OF hd(3), of b'] unfolding sinks_bind_def if_not_P [OF other]
    by (simp add: e'_def b'_def k'_def old_def Let_def)
  let ?w0 = "put_sinks m \<lparr>cell_val = S1, cell_mut = True\<rparr> w"
  obtain w1 where w1: "(case old of None \<Rightarrow> Inr w | Some b \<Rightarrow> node_unbind ops (src_node b) (src_key b) ?w0) = Inr w1"
    "book_same w w1" "\<And>i. j \<le> i \<Longrightarrow> heap w1 i = heap w i" "\<And>i. i \<noteq> m \<Longrightarrow> \<not> busy w1 i"
    "\<And>i key'. i \<noteq> m \<Longrightarrow> entry ops w1 i key' = (if ?l < length (sk_sources k) \<and> (i, key') = loc ?b then None else entry ops w i key')"
    and old_m: "?l < length (sk_sources k) \<Longrightarrow> src_node ?b \<noteq> m"
  proof (cases "?l < length (sk_sources k)")
    case True
    have slot: "src_slot ?b = 0" using bnd True by (simp add: binds_def)
    then have ne: "src_node ?b \<noteq> m" using other True by (simp add: is_same_def)
    have src: "is_source w (src_node ?b)" "src_node ?b < j" using binds_lt [OF inv bnd nth_mem [OF True]] by simp_all
    have "is_source ?w0 (src_node ?b)" "\<not> busy ?w0 (src_node ?b)"
      using src(1) ne m(1) inv_busy [OF inv] by (simp_all add: put_sinks_busy)
    from node_unbind_ok [OF laws this, of "src_key ?b"] obtain w1 where
      u: "node_unbind ops (src_node ?b) (src_key ?b) ?w0 = Inr w1" "book_same ?w0 w1"
      "\<And>i. i \<noteq> src_node ?b \<Longrightarrow> heap w1 i = heap ?w0 i"
      "\<And>i key'. entry ops w1 i key' = (if i = src_node ?b \<and> key' = src_key ?b then None else entry ops ?w0 i key')"
      "\<And>i. busy w1 i = busy ?w0 i" by blast
    show ?thesis
    proof (rule that [of w1])
      show "book_same w w1" using book_same_trans [OF put_sinks_book u(2)] .
      show "j \<le> i \<Longrightarrow> heap w1 i = heap w i" for i using u(3) src(2) m(2) by (simp add: put_sinks_heap)
      show "i \<noteq> m \<Longrightarrow> \<not> busy w1 i" for i using u(5) m(1) inv_busy [OF inv] by (simp add: put_sinks_busy)
      show "i \<noteq> m \<Longrightarrow> entry ops w1 i key' = (if ?l < length (sk_sources k) \<and> (i, key') = loc ?b then None else entry ops w i key')" for i key'
        using True m(1) by (simp add: u(4) put_sinks_entry loc_def)
    qed (use True u(1) ne in \<open>simp_all add: old_def\<close>)
  next
    case False
    then show ?thesis using that [of w] inv_busy [OF inv] by (simp add: old_def)
  qed
  let ?w' = "put_sinks m (new_cell S1) w1"
  have src1: "is_source w1 m" using m(1) book_same_source [OF w1(2)] by simp
  have run: "node_bind ops m (Some k) w = Inr (Some k', ?w')"
    using S(1) sb w1(1) by (simp add: node_bind_def)
  have "bind_step ops m j k w k' ?w'"
  proof (rule bind_stepI [where b' = b' and e' = e'])
    have "(m, key) \<notin> set (map loc (sk_sources k))" using bnd vac S(2) by (simp add: binds_def)
    then show "?l < length (sk_sources k) \<and> loc b' = loc ?b \<or> loc b' \<notin> set (map loc (sk_sources k)) \<and> entry ops w m (src_key b') = None"
      using vac S(2) by (simp add: b'_def loc_def)
    show "entry ops ?w' i key' = (if (i, key') = loc b' then Some e'
        else if ?l < length (sk_sources k) \<and> (i, key') = loc ?b then None else entry ops w i key')" for i key'
      using old_m by (auto simp: put_sinks_entry [OF src1] get b'_def loc_def S(2) w1(5))
    show "book_same w ?w'" using book_same_trans [OF w1(2) put_sinks_book] .
    show "\<not> busy ?w' i" for i using w1(4) by (simp add: put_sinks_busy [OF src1])
    show "j \<le> i \<Longrightarrow> heap ?w' i = heap w i" for i using m(2) w1(3) by (simp add: put_sinks_heap)
  qed (use head m k'_def in \<open>simp_all add: b'_def e'_def\<close>)
  then show ?thesis using run by blast
qed

lemma node_bind_ok:
  assumes "slab_laws ops" and "graph_inv ops G w" and "head_at ops w j k" and "is_source w m" and "m < j"
  shows "\<exists>k' w'. node_bind ops m (Some k) w = Inr (Some k', w') \<and> bind_step ops m j k w k' w'"
  using node_bind_reuse [OF assms] node_bind_new [OF assms] by blast


lemma bind_step_inv:
  assumes "graph_inv ops G w" and "bind_step ops m j k w k' w'" and "active w j" and "j < next_id w"
  shows "graph_inv ops G w'"
  using assms(2) by (intro graph_inv_rebind [OF assms(1) _ _ _ _ assms(3,4)]) (simp_all add: bind_step_def)

lemma bind_step_frame:
  assumes "bind_step ops m j k w k' w'"
  shows "upd_frame ops j (Suc j) w w'"
  using assms by (intro upd_frame_book) (simp_all add: bind_step_def)

text \<open>The value of a source that is neither stale nor being updated.\<close>

lemma clean_value:
  assumes inv: "graph_inv ops G w" and "is_source w m" and "\<not> stale w m" and "\<not> active w m"
  obtains v where "cval w m = Some v" and "node_value m w = Inr v"
proof -
  consider st where "heap w m = Some (StateNode st)" | sn where "heap w m = Some (ScanNode sn)"
    using assms(2) by (auto simp: is_source_def sinks_of_def node_sinks_def split: bind_splits node.splits)
  then show ?thesis
  proof cases
    case 1
    then show ?thesis using that [of "st_value st"] by (simp add: cval_def node_value_def)
  next
    case 2
    then have b: "src_binder w m = Some (sd_sb (cell_val (sn_data sn)))" by (simp add: src_binder_def)
    then have "valid ops G w m (sbr_sources (sd_sb (cell_val (sn_data sn))))"
      using inv_binder [OF inv b assms(4)] assms(3) by (simp add: binder_ok_def stale_def)
    then obtain v where "cval w m = Some v" by (auto simp: valid_def)
    then show ?thesis using that [of v] 2 assms(4) by (simp add: cval_def node_value_def active_def)
  qed
qed

text \<open>The values a binding list read, if they are still the values of the sources.\<close>

definition read_vals :: "('m, 'v, 'z) world_scheme \<Rightarrow> source_bindings \<Rightarrow> 'v list \<Rightarrow> bool" where
  "read_vals w bs vs \<longleftrightarrow> length vs = length bs \<and> (\<forall>i < length bs. cval w (src_node (bs ! i)) = Some (vs ! i))"

definition all_clean :: "('m, sink_binding) slab_ops \<Rightarrow> ('m, 'v, 'z) world_scheme \<Rightarrow> source_bindings \<Rightarrow> bool" where
  "all_clean ops w bs \<longleftrightarrow> (\<forall>b \<in> set bs. flag ops w b = Clean \<and> \<not> stale w (src_node b))"

lemma all_clean_frame:
  assumes f: "upd_frame ops a c w w'" and "binds ops w j bs" and "set bs' \<subseteq> set bs" and "c \<le> j" and "all_clean ops w bs'"
  shows "all_clean ops w' bs'"
  using assms frame_flag [OF f assms(2)] frame_stale [OF f] by (auto simp: all_clean_def)

lemma valid_frame:
  assumes f: "upd_frame ops a c w w'" and "a \<le> j" and "c \<le> j" and b: "binds ops w j bs"
    and clean: "\<And>b. b \<in> set bs \<Longrightarrow> flag ops w b = Clean \<Longrightarrow> \<not> stale w (src_node b)"
    and v: "valid ops G w j bs"
  shows "valid ops G w' j bs"
proof -
  obtain vs x where vs: "length vs = length bs" "follow (G j) (zip (map src_node bs) vs) = Some x" "cval w j = Some x"
    "\<And>i. i < length bs \<Longrightarrow> flag ops w (bs ! i) \<noteq> Dirty \<Longrightarrow> cval w (src_node (bs ! i)) = Some (vs ! i)"
    using v unfolding valid_def by blast
  have "cval w' j = cval w j" using frame_heap [OF f assms(2)] by (simp add: cval_def)
  moreover have "cval w' (src_node (bs ! i)) = Some (vs ! i)" if i: "i < length bs" and nd: "flag ops w' (bs ! i) \<noteq> Dirty" for i
  proof -
    let ?b = "bs ! i"
    obtain e where e: "entry ops w (src_node ?b) (src_key ?b) = Some e" "sb_sink e = j" "flag ops w ?b = sb_dirty e"
      using bindsD [OF b nth_mem [OF i]] .
    obtain e' where e': "entry ops w' (src_node ?b) (src_key ?b) = Some e'" "e' = e \<or> sb_dirty e = MaybeDirty"
      "sb_dirty e = MaybeDirty \<Longrightarrow> sb_dirty e' \<noteq> Dirty \<Longrightarrow> cval w' (src_node ?b) = cval w (src_node ?b)"
      using entry_frameD1 [OF frame_entry [OF f] e(1)] e(2) assms(3) by metis
    have nd': "sb_dirty e' \<noteq> Dirty" using nd e'(1) by (simp add: flag_def)
    show ?thesis
    proof (cases "sb_dirty e")
      case Clean
      then have "\<not> stale w (src_node ?b)" using clean nth_mem [OF i] e(3) by simp
      then show ?thesis using frame_clean(2) [OF f] vs(4) [OF i] e(3) Clean by simp
    next
      case MaybeDirty
      then show ?thesis using e'(3) nd' vs(4) [OF i] e(3) by simp
    next
      case Dirty
      then show ?thesis using e'(2) nd' by simp
    qed
  qed
  ultimately show ?thesis using vs(1-3) by (intro validI [of vs]) simp_all
qed

text \<open>
  What a run of the closure \<open>p\<close> of \<open>j\<close> achieves: the bindings between the old and the new position
  of the head are the reads it made, their values are current, and \<open>p\<close> returns the result for them.
\<close>

definition ran :: "('m, sink_binding) slab_ops \<Rightarrow> (nid \<Rightarrow> ('v, 'v) prog) \<Rightarrow> nid \<Rightarrow> ('v, 'a) prog \<Rightarrow> sink
    \<Rightarrow> ('m, 'v, 'z) world_scheme \<Rightarrow> 'a \<Rightarrow> sink \<Rightarrow> ('m, 'v, 'z) world_scheme \<Rightarrow> bool" where
  "ran ops G j p k w x k' w' \<longleftrightarrow> graph_inv ops G w' \<and> upd_frame ops j (Suc j) w w' \<and> head_at ops w' j k'
     \<and> sk_len k \<le> sk_len k' \<and> take (sk_len k) (sk_sources k') = take (sk_len k) (sk_sources k)
     \<and> all_clean ops w' (take (sk_len k') (sk_sources k'))
     \<and> (\<exists>vs. read_vals w' (drop (sk_len k) (take (sk_len k') (sk_sources k'))) vs
          \<and> follow p (zip (map src_node (drop (sk_len k) (take (sk_len k') (sk_sources k')))) vs) = Some x)"

lemma ran_read:
  assumes r: "ran ops G j (f v) k1 w1 x k' w'" and f1: "upd_frame ops j (Suc j) w w1"
    and k1: "sk_len k1 = Suc (sk_len k)" "take (sk_len k) (sk_sources k1) = take (sk_len k) (sk_sources k)"
    and l1: "sk_len k1 \<le> length (sk_sources k1)"
    and b: "src_node (sk_sources k1 ! sk_len k) = m" and v: "cval w1 m = Some v" "\<not> stale w1 m"
  shows "ran ops G j (Read m f) k w x k' w'"
proof -
  let ?l = "sk_len k" and ?bs = "take (sk_len k') (sk_sources k')"
  obtain vs where vs: "read_vals w' (drop (Suc ?l) ?bs) vs" "follow (f v) (zip (map src_node (drop (Suc ?l) ?bs)) vs) = Some x"
    using r k1(1) by (auto simp: ran_def)
  have fr: "upd_frame ops j (Suc j) w1 w'" and le: "Suc ?l \<le> sk_len k'" "sk_len k' \<le> length (sk_sources k')"
    and tk: "take (Suc ?l) (sk_sources k') = take (Suc ?l) (sk_sources k1)"
    using r k1(1) by (simp_all add: ran_def head_at_def)
  have nth: "?bs ! ?l = sk_sources k1 ! ?l" using tk le
    by (metis Suc_le_eq lessI nth_take)
  have "drop ?l ?bs = ?bs ! ?l # drop (Suc ?l) ?bs"
    using le by (intro Cons_nth_drop_Suc [symmetric]) simp
  then have d: "drop ?l ?bs = sk_sources k1 ! ?l # drop (Suc ?l) ?bs" by (simp only: nth)
  have "cval w' m = Some v" using frame_clean(2) [OF fr v(2)] v(1) by simp
  then have "read_vals w' (drop ?l ?bs) (v # vs)"
    using vs(1) b unfolding d by (auto simp: read_vals_def nth_Cons split: nat.splits)
  moreover have "follow (Read m f) (zip (map src_node (drop ?l ?bs)) (v # vs)) = Some x"
    using vs(2) b unfolding d by simp
  moreover have "take ?l (sk_sources k') = take ?l (sk_sources k)"
    using arg_cong [OF tk, of "take ?l"] k1(2) by (simp add: min_def)
  moreover have "graph_inv ops G w'" "head_at ops w' j k'" "all_clean ops w' ?bs" using r by (simp_all add: ran_def)
  moreover have "upd_frame ops j (Suc j) w w'" by (rule upd_frame_trans [OF f1 fr])
  moreover have "?l \<le> sk_len k'" using le(1) by simp
  ultimately show ?thesis unfolding ran_def by blast
qed

text \<open>Unbinding the last bindings of a sink that is being updated.\<close>

lemma unbind_tail:
  assumes laws: "slab_laws ops" and inv: "graph_inv ops G w" and b: "binds ops w j (bs @ ts)"
    and act: "active w j" "j < next_id w"
  shows "\<exists>w'. unbind_all ops ts w = Inr w' \<and> book_same w w' \<and> graph_inv ops G w' \<and> binds ops w' j bs
    \<and> upd_frame ops j (Suc j) w w' \<and> (\<forall>b \<in> set bs. flag ops w' b = flag ops w b)"
proof -
  have tl: "is_source w (src_node b)" "\<not> busy w (src_node b)" "src_node b < j" if "b \<in> set ts" for b
    using binds_lt [OF inv b] inv_busy [OF inv] that by simp_all
  then obtain w' where w': "unbind_all ops ts w = Inr w'" "book_same w w'"
    "\<And>k. k \<notin> src_node ` set ts \<Longrightarrow> heap w' k = heap w k"
    "\<And>k key. entry ops w' k key = (if (k, key) \<in> set (map loc ts) then None else entry ops w k key)"
    "\<And>k. busy w' k = busy w k"
    using unbind_all_ok [OF laws, of ts w] by blast
  have dist: "distinct (map loc bs)" "set (map loc bs) \<inter> set (map loc ts) = {}" "\<forall>b \<in> set bs. src_slot b = 0"
    using b by (simp_all add: binds_def)
  have locs: "(k, key) \<in> set (map loc bs) \<or> (k, key) \<in> set (map loc ts) \<longleftrightarrow> (\<exists>b. entry ops w k key = Some b \<and> sb_sink b = j)" for k key
    using b by (simp add: binds_def)
  have other: "entry ops w' k key = Some b \<longleftrightarrow> entry ops w k key = Some b" if "sb_sink b \<noteq> j" for k key b
    using w'(4) [of k key] locs [of k key] that by (cases "(k, key) \<in> set (map loc ts)") (simp_all del: set_map, force)
  have own: "entry ops w' k key = Some b \<Longrightarrow> entry ops w k key = Some b" for k key b
    using w'(4) [of k key] by (simp split: if_splits)
  show ?thesis
  proof (intro exI conjI ballI)
    show "unbind_all ops ts w = Inr w'" "book_same w w'" by fact+
    show "graph_inv ops G w'"
    proof (rule graph_inv_rebind [OF inv w'(2) _ other _ act])
      show "\<not> busy w' k" for k using inv_busy [OF inv] w'(5) by simp
      show "k < j \<and> sb_slot b = 0 \<and> sb_dirty b \<noteq> MaybeDirty \<or> entry ops w k key = Some b"
        if "entry ops w' k key = Some b" for k key b using own [OF that] by simp
    qed
    show "binds ops w' j bs"
      unfolding binds_def
    proof (intro conjI allI)
      show "(k, key) \<in> set (map loc bs) \<longleftrightarrow> (\<exists>b. entry ops w' k key = Some b \<and> sb_sink b = j)" for k key
        using locs [of k key] dist(2) w'(4) [of k key] by (cases "(k, key) \<in> set (map loc ts)") (simp_all del: set_map, blast)
    qed (use dist in simp_all)
    show "upd_frame ops j (Suc j) w w'"
    proof (rule upd_frame_book [OF w'(2)])
      show "j \<le> k \<Longrightarrow> heap w' k = heap w k" for k using w'(3) tl(3) by (metis image_iff leD)
      show "Suc j \<le> sb_sink b \<Longrightarrow> entry ops w' k key = Some b \<longleftrightarrow> entry ops w k key = Some b" for k key b
        using other by simp
    qed
    fix b assume "b \<in> set bs"
    then have "loc b \<notin> set (map loc ts)" using dist(2) by auto
    then have "entry ops w' (src_node b) (src_key b) = entry ops w (src_node b) (src_key b)"
      using w'(4) unfolding loc_def by simp
    then show "flag ops w' b = flag ops w b" by (simp add: flag_def)
  qed
qed

subsection \<open>A binder held by a running update\<close>

text \<open>
  While \<open>j\<close> is being updated its binder lives in a local variable. \<open>held\<close> is what is known of it
  before the check, \<open>settled\<close> what is reached: the bindings are the reads of a run that returned \<open>v\<close>,
  and all of them are current.
\<close>

definition held :: "('m, sink_binding) slab_ops \<Rightarrow> (nid \<Rightarrow> ('v, 'v) prog) \<Rightarrow> ('m, 'v, 'z) world_scheme \<Rightarrow> nid \<Rightarrow> source_binder \<Rightarrow> bool" where
  "held ops G w j sb \<longleftrightarrow> sbr_sink sb = j \<and> sbr_slot sb = 0 \<and> binds ops w j (sbr_sources sb)
     \<and> (sbr_dirty sb = Clean \<longrightarrow> all_clean ops w (sbr_sources sb))
     \<and> (sbr_dirty sb \<noteq> Dirty \<longrightarrow> valid ops G w j (sbr_sources sb))
     \<and> (\<forall>b \<in> set (sbr_sources sb). flag ops w b = Clean \<longrightarrow> \<not> stale w (src_node b))"

definition settled :: "('m, sink_binding) slab_ops \<Rightarrow> (nid \<Rightarrow> ('v, 'v) prog) \<Rightarrow> ('m, 'v, 'z) world_scheme \<Rightarrow> nid \<Rightarrow> source_binder \<Rightarrow> 'v \<Rightarrow> bool" where
  "settled ops G w j sb v \<longleftrightarrow> sbr_sink sb = j \<and> sbr_slot sb = 0 \<and> sbr_dirty sb = Clean
     \<and> binds ops w j (sbr_sources sb) \<and> all_clean ops w (sbr_sources sb)
     \<and> (\<exists>vs. read_vals w (sbr_sources sb) vs \<and> follow (G j) (zip (map src_node (sbr_sources sb)) vs) = Some v)"

lemma inv_held:
  assumes inv: "graph_inv ops G w" and "src_binder w j = Some sb" and "\<not> active w j"
  shows "held ops G w j sb"
proof -
  have ok: "binder_ok ops G w j sb" using inv_binder [OF assms] .
  then have b: "binds ops w j (sbr_sources sb)" by (simp add: binder_ok_def)
  have "\<not> stale w (src_node b)" if "b \<in> set (sbr_sources sb)" "flag ops w b = Clean" for b
    using bindsD [OF b that(1)] inv_clean [OF inv] that(2) assms(3) by metis
  then show ?thesis using ok by (auto simp: held_def binder_ok_def all_clean_def)
qed

lemma valid_settled:
  assumes "all_clean ops w bs" and "valid ops G w j bs"
  shows "\<exists>vs v. read_vals w bs vs \<and> follow (G j) (zip (map src_node bs) vs) = Some v \<and> cval w j = Some v"
proof -
  obtain vs v where vs: "length vs = length bs" "follow (G j) (zip (map src_node bs) vs) = Some v" "cval w j = Some v"
    "\<And>i. i < length bs \<Longrightarrow> flag ops w (bs ! i) \<noteq> Dirty \<Longrightarrow> cval w (src_node (bs ! i)) = Some (vs ! i)"
    using assms(2) unfolding valid_def by blast
  then have "read_vals w bs vs" using assms(1) by (simp add: read_vals_def all_clean_def)
  then show ?thesis using vs(2,3) by blast
qed

lemma valid_settledI:
  assumes "all_clean ops w (sbr_sources sb)" and "valid ops G w j (sbr_sources sb)" and "binds ops w j (sbr_sources sb)"
    and "sbr_sink sb' = j" "sbr_slot sb' = 0" "sbr_dirty sb' = Clean" "sbr_sources sb' = sbr_sources sb"
  shows "\<exists>v. settled ops G w j sb' v \<and> cval w j = Some v"
  using valid_settled [OF assms(1,2)] assms unfolding settled_def by metis

text \<open>The closures of the \<open>get\<close> builder return their value; the deduplicating one only keeps an equal one.\<close>

definition fits_scan :: "('v, 'v) prog \<Rightarrow> 'v scan_fn \<Rightarrow> bool" where
  "fits_scan g s \<longleftrightarrow> s = get_fn_get g \<or> s = get_fn_get_dedup g"

lemma scan_call_tracked:
  "fits_scan g s \<Longrightarrow> tracked P (scan_call s st) = tracked P g"
  by (auto simp: fits_scan_def get_fn_get_def get_fn_get_dedup_def scan_call_def)

lemma scan_call_follow:
  assumes "fits_scan g s" and "follow (scan_call s st) tr = Some (r, changed)"
  shows "\<exists>v. follow g tr = Some v \<and> r = Some v \<and> (\<not> changed \<longrightarrow> st = Some v)"
proof -
  consider "s = get_fn_get g" | "s = get_fn_get_dedup g" using assms(1) by (auto simp: fits_scan_def)
  then show ?thesis
  proof cases
    case 1
    then show ?thesis using assms(2) by (auto simp: get_fn_get_def scan_call_def follow_prog_map)
  next
    case 2
    then obtain v where "follow g tr = Some v" "(case st of Some old \<Rightarrow> if old = v then (st, False) else (Some v, True)
        | None \<Rightarrow> (Some v, True)) = (r, changed)"
      using assms(2) by (auto simp: get_fn_get_dedup_def scan_call_def follow_prog_map)
    then show ?thesis by (intro exI [of _ v]) (cases st; auto split: if_splits)
  qed
qed

text \<open>Marking a node as being updated.\<close>

lemma graph_inv_activate:
  assumes inv: "graph_inv ops G w" and eqs: "code w' = code w" "src_binder w' = src_binder w" "cval w' = cval w"
    "entry ops w' = entry ops w" "busy w' = busy w" "next_id w' = next_id w"
    and act: "\<And>k. active w k \<Longrightarrow> active w' k"
  shows "graph_inv ops G w'"
proof (rule graph_invI)
  have st: "stale w' = stale w" by (simp add: fun_eq_iff stale_def eqs)
  have fl: "flag ops w' = flag ops w" "valid ops G w' = valid ops G w" "binds ops w' = binds ops w"
    by (simp_all add: fun_eq_iff flag_def valid_def binds_def eqs)
  show "code w' k \<noteq> None \<Longrightarrow> k < next_id w'" for k using inv_next [OF inv] by (simp add: eqs)
  show "node_fits G w' k" for k using inv_fits [OF inv] node_fits_cong [OF eqs(1)] by metis
  show "\<not> busy w' k" for k using inv_busy [OF inv] by (simp add: eqs)
  fix k key b assume e: "entry ops w' k key = Some b"
  show "k < sb_sink b \<and> sb_sink b < next_id w' \<and> sb_slot b = 0 \<and> code w' (sb_sink b) \<noteq> Some CState"
    using inv_entry [OF inv] e by (simp add: eqs)
  show "sb_dirty b = Clean \<Longrightarrow> \<not> active w' (sb_sink b) \<Longrightarrow> \<not> stale w' k"
    using inv_clean [OF inv] e act by (auto simp: eqs st)
  show "\<not> stale w' k \<Longrightarrow> sb_dirty b \<noteq> MaybeDirty" using inv_resolved [OF inv] e by (auto simp: eqs st)
next
  have fl: "flag ops w' = flag ops w" "valid ops G w' = valid ops G w" "binds ops w' = binds ops w"
    by (simp_all add: fun_eq_iff flag_def valid_def binds_def eqs)
  show "src_binder w' j = Some sb \<Longrightarrow> \<not> active w' j \<Longrightarrow> binder_ok ops G w' j sb" for j sb
    using inv_binder [OF inv, of j sb] act [of j] by (auto simp: eqs binder_ok_def fl)
qed

text \<open>Releasing a node whose binder settled: its value is stored and its \<open>MaybeDirty\<close> entries are resolved.\<close>

lemma graph_inv_settle:
  assumes inv: "graph_inv ops G w" and act: "active w n" and s: "settled ops G w n sb v"
    and dirty: "\<And>key b. entry ops w n key = Some b \<Longrightarrow> sb_dirty b = Clean \<Longrightarrow> active w (sb_sink b)"
    and keep: "\<not> changed \<Longrightarrow> cval w n = Some v"
    and eqs: "code w' = code w" "src_binder w' = (src_binder w)(n := Some sb)" "active w' = (active w)(n := False)"
      "cval w' = (cval w)(n := Some v)" "next_id w' = next_id w"
    and busy: "\<And>k. \<not> busy w' k"
    and entry: "\<And>k key. entry ops w' k key = (if k = n then map_option (resolve_binding changed) (entry ops w k key) else entry ops w k key)"
  shows "graph_inv ops G w'"
proof (rule graph_invI)
  have st: "stale w' k \<longleftrightarrow> k \<noteq> n \<and> stale w k" for k
    using s by (auto simp: stale_def eqs settled_def)
  show "code w' k \<noteq> None \<Longrightarrow> k < next_id w'" for k using inv_next [OF inv] by (simp add: eqs)
  show "node_fits G w' k" for k using inv_fits [OF inv] node_fits_cong [OF eqs(1)] by metis
  show "\<not> busy w' k" for k by (rule busy)
  fix k key b' assume e': "entry ops w' k key = Some b'"
  then obtain b where b: "entry ops w k key = Some b" "b' = (if k = n then resolve_binding changed b else b)"
    using entry [of k key] by (auto split: if_splits)
  show "k < sb_sink b' \<and> sb_sink b' < next_id w' \<and> sb_slot b' = 0 \<and> code w' (sb_sink b') \<noteq> Some CState"
    using inv_entry [OF inv b(1)] b(2) by (simp add: eqs)
  show "\<not> stale w' k \<Longrightarrow> sb_dirty b' \<noteq> MaybeDirty"
    using inv_resolved [OF inv b(1)] b(2) st by (cases "k = n") simp_all
  show "\<not> stale w' k" if "sb_dirty b' = Clean" "\<not> active w' (sb_sink b')"
  proof (cases "k = n")
    case False
    show ?thesis
    proof (cases "sb_sink b = n")
      case True
      have "(k, key) \<in> set (map loc (sbr_sources sb))" using s b(1) True by (auto simp: settled_def binds_def)
      then show ?thesis using s st by (auto simp: settled_def all_clean_def loc_def)
    next
      case other: False
      then show ?thesis using inv_clean [OF inv b(1)] that b(2) False st by (simp add: eqs)
    qed
  qed (simp add: st)
next
  have fl: "flag ops w' b = (if src_node b = n \<and> flag ops w b = MaybeDirty then from_is_dirty changed else flag ops w b)" for b
    by (simp add: flag_def entry resolve_binding_def split: option.split)
  have bnd: "binds ops w' j bs = binds ops w j bs" for j bs
    by (intro binds_cong) (auto simp: entry)
  fix j b assume j: "src_binder w' j = Some b" "\<not> active w' j"
  show "binder_ok ops G w' j b"
  proof (cases "j = n")
    case True
    then have b: "b = sb" using j(1) by (simp add: eqs)
    have bs: "binds ops w n (sbr_sources sb)" "all_clean ops w (sbr_sources sb)" using s by (simp_all add: settled_def)
    have src: "src_node a < n" if "a \<in> set (sbr_sources sb)" for a using binds_lt(1) [OF inv bs(1) that] .
    obtain vs where vs: "read_vals w (sbr_sources sb) vs" "follow (G n) (zip (map src_node (sbr_sources sb)) vs) = Some v"
      using s by (auto simp: settled_def)
    have "cval w' (src_node (sbr_sources sb ! i)) = Some (vs ! i)" if "i < length (sbr_sources sb)" for i
      using src [OF nth_mem [OF that]] vs(1) that by (simp add: eqs read_vals_def)
    then have "valid ops G w' n (sbr_sources sb)"
      using vs unfolding valid_def by (intro exI [of _ vs] exI [of _ v]) (simp add: eqs read_vals_def)
    moreover have "\<forall>a \<in> set (sbr_sources sb). flag ops w' a = Clean"
      using bs(2) by (simp add: all_clean_def fl)
    ultimately show ?thesis using s True b bnd bs(1) by (simp add: binder_ok_def settled_def)
  next
    case False
    then have ok: "binder_ok ops G w j b" using inv_binder [OF inv] j by (simp add: eqs)
    then have bs: "binds ops w j (sbr_sources b)" by (simp add: binder_ok_def)
    have ja: "\<not> active w j" using j(2) False by (simp add: eqs)
    have clean: "flag ops w a \<noteq> Clean" if "a \<in> set (sbr_sources b)" "src_node a = n" for a
      using bindsD [OF bs that(1)] dirty ja that(2) by metis
    have "cval w' (src_node a) = Some x" if "a \<in> set (sbr_sources b)" "flag ops w' a \<noteq> Dirty"
      "flag ops w a \<noteq> Dirty \<Longrightarrow> cval w (src_node a) = Some x" for a x
      using that clean [OF that(1)] keep fl [of a] by (cases "flag ops w a") (auto simp: eqs split: if_splits)
    note src = this
    have "valid ops G w' j (sbr_sources b)" if v: "valid ops G w j (sbr_sources b)"
    proof (rule validE [OF v])
      fix vs x
      assume "length vs = length (sbr_sources b)" "follow (G j) (zip (map src_node (sbr_sources b)) vs) = Some x" "cval w j = Some x"
        and read: "\<And>i. i < length (sbr_sources b) \<Longrightarrow> flag ops w (sbr_sources b ! i) \<noteq> Dirty \<Longrightarrow>
            cval w (src_node (sbr_sources b ! i)) = Some (vs ! i)"
      then show ?thesis
        using False src [OF nth_mem _ read] by (intro validI [of vs]) (simp_all add: eqs)
    qed
    then show ?thesis using ok bnd fl by (simp add: binder_ok_def)
  qed
qed

text \<open>What \<open>ScanNode::update\<close> does to the views before and after the recomputation.\<close>

lemma scan_begin_views:
  assumes sn: "heap w n = Some (ScanNode sn)" and book: "book_same w w1" "sinks_of w1 = sinks_of w"
    and w2: "w2 = put_scan_data n \<lparr>cell_val = cell_val (sn_data sn), cell_mut = True\<rparr> w1"
  shows "code w2 = code w" "src_binder w2 = src_binder w" "cval w2 = cval w" "sinks_of w2 = sinks_of w"
    "active w2 = (active w)(n := True)" "rest_same w w2"
proof -
  have c: "code w1 n = Some (CScan (sd_scan (cell_val (sn_data sn))) (sn_discard sn))"
    using book(1) sn by (simp add: book_same_def code_def)
  then obtain sn1 where sn1: "heap w1 n = Some (ScanNode sn1)" by (metis is_scan_code is_scan_def)
  then have d: "sn_discard sn1 = sn_discard sn" using c by (simp add: code_def)
  have eqs: "code w1 = code w" "src_binder w1 = src_binder w" "cval w1 = cval w" "active w1 = active w"
    using book(1) by (simp_all add: book_same_def)
  note v = put_scan_data_views [OF sn1, where c = "\<lparr>cell_val = cell_val (sn_data sn), cell_mut = True\<rparr>", folded w2]
  show "code w2 = code w" using c d by (auto simp: fun_eq_iff v(1) eqs)
  have "src_binder w n = Some (sd_sb (cell_val (sn_data sn)))" "cval w n = sd_state (cell_val (sn_data sn))"
    using sn by (simp_all add: src_binder_def cval_def)
  then show "src_binder w2 = src_binder w" "cval w2 = cval w" by (simp_all add: fun_eq_iff v eqs)
  show "sinks_of w2 = sinks_of w" by (simp add: fun_eq_iff v(5) book(2))
  show "active w2 = (active w)(n := True)" by (simp add: fun_eq_iff v(3) eqs)
  have "rest_same w w1" using book(1) by (simp add: book_same_def)
  then show "rest_same w w2" unfolding w2 by (rule rest_same_trans [OF _ put_scan_data_rest])
qed

lemma scan_end_views:
  assumes laws: "slab_laws ops" and sn: "heap w n = Some (ScanNode sn)" and nb: "\<not> busy w n"
    and scan: "sd_scan d = sd_scan (cell_val (sn_data sn))"
  obtains w1 w' where "modify_sinks n (sinks_update ops changed) w = Inr w1" and "put_scan_data n (new_cell d) w1 = w'"
    and "rest_same w w'" and "\<And>k. k \<noteq> n \<Longrightarrow> heap w' k = heap w k" and "code w' = code w"
    and "src_binder w' = (src_binder w)(n := Some (sd_sb d))" and "active w' = (active w)(n := False)"
    and "cval w' = (cval w)(n := sd_state d)" and "\<And>k. busy w' k = busy w k"
    and "\<And>k key. entry ops w' k key = (if k = n then map_option (resolve_binding changed) (entry ops w k key) else entry ops w k key)"
proof -
  have src: "is_source w n" using sn by (simp add: is_scan_source is_scan_def)
  obtain S where S: "borrow_sinks n w = Inr S" "\<And>key. entry ops w n key = slab_get ops S key"
    using borrow_sinks_ok [OF src nb] by metis
  define w1 where "w1 = put_sinks n (new_cell (sinks_update ops changed S)) w"
  define w' where "w' = put_scan_data n (new_cell d) w1"
  have "heap w1 n = Some (ScanNode (sn\<lparr>sn_sinks := new_cell (sinks_update ops changed S)\<rparr>))"
    using sn by (simp add: w1_def put_sinks_def set_node_sinks_def)
  note v = put_scan_data_views [OF this, where c = "new_cell d", folded w'_def]
  show ?thesis
  proof (rule that)
    show "modify_sinks n (sinks_update ops changed) w = Inr w1" using S(1) by (simp add: modify_sinks_def w1_def)
    show "put_scan_data n (new_cell d) w1 = w'" by (simp add: w'_def)
    show "rest_same w w'" using rest_same_trans [OF put_sinks_rest put_scan_data_rest] by (simp add: w'_def w1_def)
    show "k \<noteq> n \<Longrightarrow> heap w' k = heap w k" for k by (simp add: w'_def w1_def put_scan_data_heap put_sinks_heap)
    have "code w n = Some (CScan (sd_scan (cell_val (sn_data sn))) (sn_discard sn))" using sn by (simp add: code_def)
    then show "code w' = code w" using scan by (simp add: fun_eq_iff v w1_def)
    show "src_binder w' = (src_binder w)(n := Some (sd_sb d))" by (auto simp: fun_eq_iff v w1_def)
    show "active w' = (active w)(n := False)" by (auto simp: fun_eq_iff v w1_def)
    show "cval w' = (cval w)(n := sd_state d)" by (auto simp: fun_eq_iff v w1_def)
    show "busy w' k = busy w k" for k using nb by (simp add: v w1_def put_sinks_busy [OF src])
    show "entry ops w' k key = (if k = n then map_option (resolve_binding changed) (entry ops w k key) else entry ops w k key)" for k key
      by (simp add: v w1_def put_sinks_entry [OF src] sinks_update_get [OF laws] S(2))
  qed
qed

lemma held_cong:
  assumes "src_binder w' = src_binder w" "cval w' = cval w" "entry ops w' = entry ops w"
  shows "held ops G w' j sb = held ops G w j sb"
proof -
  have "stale w' = stale w" by (simp add: fun_eq_iff stale_def assms)
  moreover have "flag ops w' = flag ops w" "valid ops G w' = valid ops G w" "binds ops w' = binds ops w"
    by (simp_all add: fun_eq_iff flag_def valid_def binds_def assms)
  ultimately show ?thesis by (simp add: held_def all_clean_def)
qed

lemma entry_frame_resolve:
  assumes entry: "\<And>k key. entry ops w' k key = (if k = n then map_option (resolve_binding changed) (entry ops w k key) else entry ops w k key)"
    and n: "\<not> stale w' n" "\<not> changed \<Longrightarrow> cval w' n = cval w n" "\<And>k. k \<noteq> n \<Longrightarrow> cval w' k = cval w k"
  shows "entry_frame ops c w w'"
  unfolding entry_frame_def
proof (intro conjI allI impI)
  fix k key b assume e: "entry ops w k key = Some b"
  let ?b = "if k = n then resolve_binding changed b else b"
  have "entry ops w' k key = Some ?b" by (simp only: entry e option.map if_distrib [of Some])
  moreover have "?b = b \<or> sb_dirty b = MaybeDirty" by (simp add: resolve_binding_def)
  moreover have "sb_dirty b = MaybeDirty \<Longrightarrow> sb_dirty ?b \<noteq> Dirty \<Longrightarrow> cval w' k = cval w k"
    using n(2,3) by (cases "k = n") (simp_all add: resolve_binding_def)
  moreover have "sb_dirty b = MaybeDirty \<Longrightarrow> sb_dirty ?b = Clean \<Longrightarrow> \<not> stale w' k"
    using n(1) by (cases "k = n") simp_all
  ultimately show "\<exists>b'. entry ops w' k key = Some b' \<and> sb_sink b' = sb_sink b \<and> (b' = b \<or> sb_dirty b = MaybeDirty)
      \<and> (sb_dirty b = MaybeDirty \<longrightarrow> sb_dirty b' \<noteq> Dirty \<longrightarrow> cval w' k = cval w k)
      \<and> (sb_dirty b = MaybeDirty \<longrightarrow> sb_dirty b' = Clean \<longrightarrow> \<not> stale w' k)"
    by (intro exI [of _ ?b]) simp
next
  fix k key b' assume "entry ops w' k key = Some b'"
  then show "\<exists>b. entry ops w k key = Some b \<and> sb_sink b = sb_sink b'"
    using entry [of k key] by (auto split: if_splits)
qed

subsection \<open>The contract of update\<close>

locale node_updater =
  fixes ops :: "('m, sink_binding) slab_ops"
    and G :: "nid \<Rightarrow> ('v, 'v) prog"
    and upd :: "nid \<Rightarrow> ('m, 'v, 'z) world_scheme \<Rightarrow> ('m, 'v, 'z) world_scheme result"
    and bound :: nat
  assumes updates: "slab_laws ops \<Longrightarrow> m < bound \<Longrightarrow> is_scan w m \<Longrightarrow> graph_inv ops G w \<Longrightarrow> (\<forall>k \<le> m. \<not> active w k) \<Longrightarrow>
     \<exists>w'. upd m w = Inr w' \<and> graph_inv ops G w' \<and> upd_frame ops (Suc m) (Suc m) w w' \<and> \<not> stale w' m"
begin

text \<open>Bringing any source up to date: nothing to do for a state.\<close>

lemma source_update:
  assumes "slab_laws ops" and "m < bound" and "is_source w m" and "graph_inv ops G w" and "\<forall>k \<le> m. \<not> active w k"
  obtains w' where "(case heap w m of Some (ScanNode _) \<Rightarrow> upd m w | _ \<Rightarrow> Inr w) = Inr w'"
    and "graph_inv ops G w'" and "upd_frame ops (Suc m) (Suc m) w w'" and "\<not> stale w' m"
proof (cases "is_scan w m")
  case True
  then show ?thesis using updates [OF assms(1,2) True assms(4,5)] that by (auto simp: is_scan_def)
next
  case False
  then have "code w m = Some CState" using assms(3) by (simp add: is_source_code is_scan_code)
  then show ?thesis using that [of w] assms(4) state_not_stale [of w m] False
    by (auto simp: is_scan_def split: option.splits node.splits)
qed

lemma node_check_ok:
  assumes laws: "slab_laws ops" and mb: "m < bound" and src: "is_source w m" and inv: "graph_inv ops G w"
    and na: "\<forall>k \<le> m. \<not> active w k" and e: "entry ops w m key = Some e"
  obtains w' d e' where "node_check ops upd m key w = Inr (d, w')" and "graph_inv ops G w'"
    and "upd_frame ops (Suc m) (Suc m) w w'" and "\<not> stale w' m"
    and "entry ops w' m key = Some e'" and "sb_dirty e' = from_is_dirty d"
proof -
  obtain w' where w': "(case heap w m of Some (ScanNode _) \<Rightarrow> upd m w | _ \<Rightarrow> Inr w) = Inr w'"
    "graph_inv ops G w'" "upd_frame ops (Suc m) (Suc m) w w'" "\<not> stale w' m"
    using source_update [OF laws mb src inv na] .
  have "Suc m \<le> sb_sink e" using inv_entry [OF inv e] by simp
  then obtain e' where e': "entry ops w' m key = Some e'"
    using entry_frameD1 [OF frame_entry [OF w'(3)] e] by metis
  have res: "sb_dirty e' \<noteq> MaybeDirty" using inv_resolved [OF w'(2) e' w'(4)] .
  have "is_source w' m" using src frame_source [OF w'(3)] by simp
  then obtain S where S: "borrow_sinks m w' = Inr S" "\<And>key. entry ops w' m key = slab_get ops S key"
    using borrow_sinks_ok [OF _ inv_busy [OF w'(2)]] by metis
  show ?thesis
  proof (rule that [OF _ w'(2-4) e'])
    show "node_check ops upd m key w = Inr (sb_dirty e' = Dirty, w')"
      using w'(1) S(1) sinks_is_dirty_ok [of ops S key e'] e' S(2) res by (simp add: node_check_def)
    show "sb_dirty e' = from_is_dirty (sb_dirty e' = Dirty)" using res by (cases "sb_dirty e'") simp_all
  qed
qed

lemma sources_check_ok:
  assumes laws: "slab_laws ops" and "j \<le> bound"
  shows "graph_inv ops G w \<Longrightarrow> (\<forall>k < j. \<not> active w k) \<Longrightarrow> binds ops w j bs0 \<Longrightarrow> set bs \<subseteq> set bs0 \<Longrightarrow>
    \<exists>d w'. sources_check ops upd bs w = Inr (d, w') \<and> graph_inv ops G w' \<and> upd_frame ops j j w w'
      \<and> (\<not> d \<longrightarrow> all_clean ops w' bs)"
proof (induction bs arbitrary: w)
  case Nil
  then show ?case by (auto simp: all_clean_def)
next
  case (Cons b bs)
  have inb: "b \<in> set bs0" using Cons.prems(4) by simp
  obtain e where e: "entry ops w (src_node b) (src_key b) = Some e"
    using bindsD [OF Cons.prems(3) inb] by metis
  note lt = binds_lt [OF Cons.prems(1,3) inb]
  have na: "\<forall>k \<le> src_node b. \<not> active w k" and mb: "src_node b < bound" using Cons.prems(2) lt(1) assms(2) by auto
  obtain d w1 e1 where w1: "node_check ops upd (src_node b) (src_key b) w = Inr (d, w1)" "graph_inv ops G w1"
    "upd_frame ops (Suc (src_node b)) (Suc (src_node b)) w w1" "\<not> stale w1 (src_node b)"
    "entry ops w1 (src_node b) (src_key b) = Some e1" "sb_dirty e1 = from_is_dirty d"
    using node_check_ok [OF laws mb lt(2) Cons.prems(1) na e] .
  have f1: "upd_frame ops j j w w1" using upd_frame_mono [OF w1(3)] lt(1) by simp
  show ?case
  proof (cases d)
    case True
    then show ?thesis using w1(1,2) f1 by auto
  next
    case False
    have b1: "binds ops w1 j bs0" using frame_binds [OF f1, of j] Cons.prems(3) by simp
    have "\<forall>k < j. \<not> active w1 k" using Cons.prems(2) by (simp add: frame_active [OF f1])
    from Cons.IH [OF w1(2) this b1] Cons.prems(4) obtain d' w' where
      w': "sources_check ops upd bs w1 = Inr (d', w')" "graph_inv ops G w'" "upd_frame ops j j w1 w'"
        "\<not> d' \<longrightarrow> all_clean ops w' bs" by auto
    have "all_clean ops w1 [b]" using w1(4-6) False by (simp add: all_clean_def flag_def)
    then have "all_clean ops w' [b]" using all_clean_frame [OF w'(3) b1, of "[b]"] inb by simp
    then have "\<not> d' \<longrightarrow> all_clean ops w' (b # bs)" using w'(4) by (simp add: all_clean_def)
    then show ?thesis using w1(1) False w'(1,2) upd_frame_trans [OF f1 w'(3)] by simp
  qed
qed

text \<open>One read of the closure of \<open>j\<close>: bind, then update.\<close>

lemma node_borrow_ok:
  assumes laws: "slab_laws ops" and jb: "j \<le> bound" and inv: "graph_inv ops G w" and na: "\<forall>i < j. \<not> active w i"
    and j: "active w j" "j < next_id w" and head: "head_at ops w j k" and m: "m < j" "is_source w m"
    and clean: "all_clean ops w (take (sk_len k) (sk_sources k))"
  obtains v k1 w1 where "node_borrow ops upd m (Some k) w = Inr (v, Some k1, w1)"
    and "graph_inv ops G w1" and "upd_frame ops j (Suc j) w w1" and "head_at ops w1 j k1"
    and "sk_len k1 = Suc (sk_len k)" and "take (sk_len k) (sk_sources k1) = take (sk_len k) (sk_sources k)"
    and "src_node (sk_sources k1 ! sk_len k) = m" and "cval w1 m = Some v" and "\<not> stale w1 m"
    and "all_clean ops w1 (take (sk_len k1) (sk_sources k1))"
proof -
  obtain k1 w0 where bnd: "node_bind ops m (Some k) w = Inr (Some k1, w0)" and st: "bind_step ops m j k w k1 w0"
    using node_bind_ok [OF laws inv head m(2,1)] by blast
  have inv0: "graph_inv ops G w0" by (rule bind_step_inv [OF inv st j])
  have book: "book_same w w0" and hd0: "head_at ops w0 j k1" and len: "sk_len k1 = Suc (sk_len k)"
    and tk: "take (sk_len k) (sk_sources k1) = take (sk_len k) (sk_sources k)"
    and new: "src_node (sk_sources k1 ! sk_len k) = m" "flag ops w0 (sk_sources k1 ! sk_len k) = Clean"
    and keep: "\<forall>b \<in> set (take (sk_len k) (sk_sources k)). flag ops w b = Clean \<longrightarrow> flag ops w0 b = Clean"
    using st by (simp_all add: bind_step_def)
  have f0: "upd_frame ops j (Suc j) w w0" by (rule bind_step_frame [OF st])
  have "is_source w0 m" "\<forall>k \<le> m. \<not> active w0 k"
    using m na book_same_source [OF book] by (auto simp: frame_active [OF f0])
  then obtain w1 where w1: "(case heap w0 m of Some (ScanNode _) \<Rightarrow> upd m w0 | _ \<Rightarrow> Inr w0) = Inr w1"
    "graph_inv ops G w1" "upd_frame ops (Suc m) (Suc m) w0 w1" "\<not> stale w1 m"
    using source_update [OF laws _ _ inv0] m(1) jb by (metis order.strict_trans2)
  have f1: "upd_frame ops j j w0 w1" using upd_frame_mono [OF w1(3)] m(1) by simp
  have f: "upd_frame ops j (Suc j) w w1" using upd_frame_trans [OF f0 upd_frame_mono [OF f1]] by simp
  have "is_source w1 m" "\<not> active w1 m" using m na frame_source [OF f] by (simp_all add: frame_active [OF f])
  then obtain v where v: "cval w1 m = Some v" "node_value m w1 = Inr v" using clean_value [OF w1(2) _ w1(4)] by blast
  have b0: "binds ops w0 j (sk_sources k1)" using hd0 by (simp add: head_at_def)
  then have hd1: "head_at ops w1 j k1" using hd0 frame_binds [OF f1 order.refl] by (simp add: head_at_def)
  have l: "sk_len k < length (sk_sources k1)" using hd0 len by (simp add: head_at_def)
  have ac0: "all_clean ops w0 (take (sk_len k) (sk_sources k1))"
    using clean keep book_same_stale [OF book] by (simp add: all_clean_def tk)
  then have "all_clean ops w1 (take (sk_len k) (sk_sources k1))"
    by (rule all_clean_frame [OF f1 b0 set_take_subset order.refl])
  moreover have "flag ops w1 (sk_sources k1 ! sk_len k) = Clean"
    using frame_flag [OF f1 b0 nth_mem [OF l] order.refl] new(2) by simp
  ultimately have "all_clean ops w1 (take (sk_len k1) (sk_sources k1))"
    using w1(4) new(1) by (simp add: len take_Suc_conv_app_nth [OF l] all_clean_def)
  moreover have "node_borrow ops upd m (Some k) w = Inr (v, Some k1, w1)"
    using bnd w1(1) v(2) by (simp add: node_borrow_def)
  ultimately show ?thesis using that [OF _ w1(2) f hd1 len tk new(1) v(1) w1(4)] by blast
qed

lemma run_prog_ok:
  assumes laws: "slab_laws ops" and jb: "j \<le> bound"
  shows "tracked (\<lambda>m. m < j \<and> is_source w m) p \<Longrightarrow> graph_inv ops G w \<Longrightarrow> (\<forall>i < j. \<not> active w i) \<Longrightarrow>
    active w j \<Longrightarrow> j < next_id w \<Longrightarrow> head_at ops w j k \<Longrightarrow> all_clean ops w (take (sk_len k) (sk_sources k)) \<Longrightarrow>
    \<exists>x k' w'. run_prog ops upd p (Some k) w = Inr (x, Some k', w') \<and> ran ops G j p k w x k' w'"
proof (induction p arbitrary: w k)
  case (Return x)
  then show ?case by (simp add: ran_def read_vals_def)
next
  case (Read m f)
  have m: "m < j" "is_source w m" using Read.prems(1) by simp_all
  obtain v k1 w1 where w1: "node_borrow ops upd m (Some k) w = Inr (v, Some k1, w1)"
    "graph_inv ops G w1" "upd_frame ops j (Suc j) w w1" "head_at ops w1 j k1"
    "sk_len k1 = Suc (sk_len k)" "take (sk_len k) (sk_sources k1) = take (sk_len k) (sk_sources k)"
    "src_node (sk_sources k1 ! sk_len k) = m" "cval w1 m = Some v" "\<not> stale w1 m"
    "all_clean ops w1 (take (sk_len k1) (sk_sources k1))"
    using node_borrow_ok [OF laws jb Read.prems(2-6) m Read.prems(7)] .
  have "tracked (\<lambda>m. m < j \<and> is_source w1 m) (f v)"
    using Read.prems(1) by (simp add: frame_source [OF w1(3)])
  moreover have "\<forall>i < j. \<not> active w1 i" "active w1 j" "j < next_id w1"
    using Read.prems(3-5) rest_same_next [OF frame_rest [OF w1(3)]] by (simp_all add: frame_active [OF w1(3)])
  ultimately obtain x k' w' where "run_prog ops upd (f v) (Some k1) w1 = Inr (x, Some k', w')" "ran ops G j (f v) k1 w1 x k' w'"
    using Read.IH [OF rangeI [of f v] _ w1(2) _ _ _ w1(4,10)] by blast
  moreover have "sk_len k1 \<le> length (sk_sources k1)" using w1(4) by (simp add: head_at_def)
  ultimately show ?case using w1(1) ran_read [OF _ w1(3,5,6) _ w1(7-9)] by fastforce
qed simp_all

text \<open>\<open>SourceBindings::update\<close> with \<open>reset\<close>: afterwards the bindings are exactly the reads of the run.\<close>

lemma sources_update_ok:
  assumes laws: "slab_laws ops" and jb: "j \<le> bound" and p: "tracked (\<lambda>m. m < j \<and> is_source w m) p"
    and inv: "graph_inv ops G w" and na: "\<forall>i < j. \<not> active w i" and j: "active w j" "j < next_id w"
    and b: "binds ops w j bs"
  obtains x bs' w' vs where "sources_update ops upd j 0 True p bs w = Inr (x, bs', w')"
    and "graph_inv ops G w'" and "upd_frame ops j (Suc j) w w'" and "binds ops w' j bs'" and "all_clean ops w' bs'"
    and "read_vals w' bs' vs" and "follow p (zip (map src_node bs') vs) = Some x"
proof -
  let ?k = "\<lparr>sk_node = j, sk_slot = 0, sk_sources = bs, sk_len = 0\<rparr>"
  have "head_at ops w j ?k" "all_clean ops w (take (sk_len ?k) (sk_sources ?k))"
    using b by (simp_all add: head_at_def all_clean_def)
  from run_prog_ok [OF laws jb p inv na j this] obtain x k' w1 where
    run: "run_prog ops upd p (Some ?k) w = Inr (x, Some k', w1)" and r: "ran ops G j p ?k w x k' w1" by blast
  let ?bs = "take (sk_len k') (sk_sources k')" and ?tl = "drop (sk_len k') (sk_sources k')"
  obtain vs where vs: "read_vals w1 ?bs vs" "follow p (zip (map src_node ?bs) vs) = Some x"
    using r by (auto simp: ran_def)
  have inv1: "graph_inv ops G w1" and f1: "upd_frame ops j (Suc j) w w1" and hd: "head_at ops w1 j k'"
    and ac: "all_clean ops w1 ?bs" using r by (simp_all add: ran_def)
  have b1: "binds ops w1 j (?bs @ ?tl)" using hd by (simp add: head_at_def)
  have act1: "active w1 j" "j < next_id w1" using j rest_same_next [OF frame_rest [OF f1]] by (simp_all add: frame_active [OF f1])
  obtain w' where w': "unbind_all ops ?tl w1 = Inr w'" "book_same w1 w'" "graph_inv ops G w'" "binds ops w' j ?bs"
    "upd_frame ops j (Suc j) w1 w'" "\<And>b. b \<in> set ?bs \<Longrightarrow> flag ops w' b = flag ops w1 b"
    using unbind_tail [OF laws inv1 b1 act1] by metis
  show ?thesis
  proof (rule that)
    show "sources_update ops upd j 0 True p bs w = Inr (x, ?bs, w')"
      using run w'(1) by (simp add: sources_update_def)
    show "upd_frame ops j (Suc j) w w'" using upd_frame_trans [OF f1 w'(5)] .
    show "all_clean ops w' ?bs" using ac w'(6) book_same_stale [OF w'(2)] by (simp add: all_clean_def)
    show "read_vals w' ?bs vs" using vs(1) w'(2) by (simp add: read_vals_def book_same_def)
  qed (use w'(3,4) vs(2) in simp_all)
qed

lemma binder_check_ok:
  assumes laws: "slab_laws ops" and jb: "j \<le> bound" and inv: "graph_inv ops G w" and na: "\<forall>i < j. \<not> active w i"
    and h: "held ops G w j sb"
  obtains d sb1 w1 where "binder_check ops upd sb w = Inr (d, sb1, w1)" and "graph_inv ops G w1" and "upd_frame ops j j w w1"
    and "sb1 = sb\<lparr>sbr_dirty := sbr_dirty sb1\<rparr>" and "binds ops w1 j (sbr_sources sb)"
    and "\<not> d \<longrightarrow> (\<exists>v. settled ops G w1 j sb1 v \<and> cval w1 j = Some v)"
proof (cases "sbr_dirty sb = MaybeDirty")
  case True
  have b: "binds ops w j (sbr_sources sb)" using h by (simp add: held_def)
  obtain d w1 where w1: "sources_check ops upd (sbr_sources sb) w = Inr (d, w1)" "graph_inv ops G w1" "upd_frame ops j j w w1"
    "\<not> d \<Longrightarrow> all_clean ops w1 (sbr_sources sb)"
    using sources_check_ok [OF laws jb inv na b] by blast
  have b1: "binds ops w1 j (sbr_sources sb)" using b frame_binds [OF w1(3) order.refl] by simp
  have v: "valid ops G w1 j (sbr_sources sb)"
    using h True by (intro valid_frame [OF w1(3) order.refl order.refl b]) (simp_all add: held_def)
  have "\<exists>v. settled ops G w1 j (sb\<lparr>sbr_dirty := Clean\<rparr>) v \<and> cval w1 j = Some v" if "\<not> d"
    by (rule valid_settledI [OF w1(4) [OF that] v b1]) (use h in \<open>simp_all add: held_def\<close>)
  moreover have "binder_check ops upd sb w = Inr (d, sb\<lparr>sbr_dirty := from_is_dirty d\<rparr>, w1)"
    using True w1(1) by (simp add: binder_check_def)
  ultimately show ?thesis using that [OF _ w1(2,3) _ b1] by (cases d) simp_all
next
  case False
  have run: "binder_check ops upd sb w = Inr (sbr_dirty sb = Dirty, sb, w)"
    using False by (simp add: binder_check_def)
  have "\<exists>v. settled ops G w j sb v \<and> cval w j = Some v" if "\<not> sbr_dirty sb = Dirty"
  proof -
    have c: "sbr_dirty sb = Clean" using False that by (cases "sbr_dirty sb") simp_all
    then show ?thesis using h by (intro valid_settledI) (simp_all add: held_def)
  qed
  then show ?thesis using that [OF run inv] h by (simp add: held_def)
qed

lemma binder_update_ok:
  assumes laws: "slab_laws ops" and jb: "j \<le> bound" and p: "tracked (\<lambda>m. m < j \<and> is_source w m) p"
    and inv: "graph_inv ops G w" and na: "\<forall>i < j. \<not> active w i" and j: "active w j" "j < next_id w"
    and b: "binds ops w j (sbr_sources sb)" and sb: "sbr_sink sb = j" "sbr_slot sb = 0"
  obtains x sb' w' vs where "binder_update ops upd p sb w = Inr (x, sb', w')"
    and "graph_inv ops G w'" and "upd_frame ops j (Suc j) w w'"
    and "\<forall>v. follow (G j) (zip (map src_node (sbr_sources sb')) vs) = Some v \<longrightarrow> settled ops G w' j sb' v"
    and "follow p (zip (map src_node (sbr_sources sb')) vs) = Some x"
proof -
  obtain x bs' w' vs where w': "sources_update ops upd j 0 True p (sbr_sources sb) w = Inr (x, bs', w')"
    "graph_inv ops G w'" "upd_frame ops j (Suc j) w w'" "binds ops w' j bs'" "all_clean ops w' bs'"
    "read_vals w' bs' vs" "follow p (zip (map src_node bs') vs) = Some x"
    using sources_update_ok [OF laws jb p inv na j b] .
  show ?thesis
  proof (rule that [of x "sb\<lparr>sbr_dirty := Clean, sbr_sources := bs'\<rparr>"])
    show "binder_update ops upd p sb w = Inr (x, sb\<lparr>sbr_dirty := Clean, sbr_sources := bs'\<rparr>, w')"
      using w'(1) sb by (simp add: binder_update_def)
    show "\<forall>v. follow (G j) (zip (map src_node (sbr_sources (sb\<lparr>sbr_dirty := Clean, sbr_sources := bs'\<rparr>))) vs) = Some v
        \<longrightarrow> settled ops G w' j (sb\<lparr>sbr_dirty := Clean, sbr_sources := bs'\<rparr>) v"
      using w'(4-6) sb by (auto simp: settled_def)
  qed (use w' in simp_all)
qed

lemma scan_recompute_ok:
  assumes laws: "slab_laws ops" and jb: "j \<le> bound" and fits: "fits_scan (G j) (sd_scan d)"
    and p: "tracked (\<lambda>m. m < j \<and> is_source w m) (G j)"
    and inv: "graph_inv ops G w" and na: "\<forall>i < j. \<not> active w i" and j: "active w j" "j < next_id w"
    and h: "held ops G w j (sd_sb d)" and st: "cval w j = sd_state d"
  obtains changed d1 w1 v where "scan_recompute ops upd d w = Inr (changed, d1, w1)" and "graph_inv ops G w1"
    and "upd_frame ops j (Suc j) w w1" and "settled ops G w1 j (sd_sb d1) v" and "sd_state d1 = Some v"
    and "sd_scan d1 = sd_scan d" and "\<not> changed \<Longrightarrow> sd_state d = Some v"
proof -
  obtain c sb1 w1 where w1: "binder_check ops upd (sd_sb d) w = Inr (c, sb1, w1)" "graph_inv ops G w1" "upd_frame ops j j w w1"
    "sb1 = (sd_sb d)\<lparr>sbr_dirty := sbr_dirty sb1\<rparr>" "binds ops w1 j (sbr_sources (sd_sb d))"
    "\<not> c \<longrightarrow> (\<exists>v. settled ops G w1 j sb1 v \<and> cval w1 j = Some v)"
    using binder_check_ok [OF laws jb inv na h] .
  have f1: "upd_frame ops j (Suc j) w w1" using upd_frame_mono [OF w1(3)] by simp
  show ?thesis
  proof (cases c)
    case False
    then obtain v where v: "settled ops G w1 j sb1 v" "cval w1 j = Some v" using w1(6) by blast
    have "sd_state d = Some v" using v(2) st frame_heap [OF w1(3) order.refl] by (simp add: cval_def)
    moreover have "scan_recompute ops upd d w = Inr (False, d\<lparr>sd_sb := sb1\<rparr>, w1)"
      using w1(1) False by (simp add: scan_recompute_def)
    ultimately show ?thesis using v(1) by (intro that [of False "d\<lparr>sd_sb := sb1\<rparr>" w1 v, OF _ w1(2) f1]) simp_all
  next
    case True
    let ?p = "scan_call (sd_scan d) (sd_state d)"
    have p1: "tracked (\<lambda>m. m < j \<and> is_source w1 m) ?p"
      using p by (simp add: scan_call_tracked [OF fits] frame_source [OF w1(3)])
    have na1: "\<forall>i < j. \<not> active w1 i" "active w1 j" "j < next_id w1"
      using na j rest_same_next [OF frame_rest [OF w1(3)]] by (simp_all add: frame_active [OF w1(3)])
    have sb1: "sbr_sources sb1 = sbr_sources (sd_sb d)" "sbr_sink sb1 = j" "sbr_slot sb1 = 0"
      using arg_cong [OF w1(4), of sbr_sources] arg_cong [OF w1(4), of sbr_sink] arg_cong [OF w1(4), of sbr_slot] h
      by (simp_all add: held_def)
    have b1: "binds ops w1 j (sbr_sources sb1)" using w1(5) sb1(1) by simp
    obtain x sb2 w2 vs where w2: "binder_update ops upd ?p sb1 w1 = Inr (x, sb2, w2)" "graph_inv ops G w2"
      "upd_frame ops j (Suc j) w1 w2"
      "\<forall>v. follow (G j) (zip (map src_node (sbr_sources sb2)) vs) = Some v \<longrightarrow> settled ops G w2 j sb2 v"
      "follow ?p (zip (map src_node (sbr_sources sb2)) vs) = Some x"
      using binder_update_ok [OF laws jb p1 w1(2) na1 b1 sb1(2,3)] .
    obtain r ch where x: "x = (r, ch)" by fastforce
    obtain v where v: "follow (G j) (zip (map src_node (sbr_sources sb2)) vs) = Some v" "r = Some v" "\<not> ch \<Longrightarrow> sd_state d = Some v"
      using scan_call_follow [OF fits] w2(5) x by metis
    have "scan_recompute ops upd d w = Inr (ch, d\<lparr>sd_state := r, sd_sb := sb2\<rparr>, w2)"
      using w1(1) True w2(1) x by (simp add: scan_recompute_def)
    then show ?thesis
      using w2(4) v by (intro that [of ch "d\<lparr>sd_state := r, sd_sb := sb2\<rparr>" w2 v, OF _ w2(2) upd_frame_trans [OF f1 w2(3)]]) simp_all
  qed
qed

text \<open>\<open>ScanNode::update\<close> satisfies the contract for its own node when \<open>upd\<close> does for the earlier ones.\<close>

lemma scan_update_stale:
  assumes laws: "slab_laws ops" and nb: "n \<le> bound" and sn: "heap w n = Some (ScanNode sn)"
    and inv: "graph_inv ops G w" and na: "\<forall>k \<le> n. \<not> active w k" and st: "stale w n"
  shows "\<exists>w'. scan_update ops upd n w = Inr w' \<and> graph_inv ops G w' \<and> upd_frame ops (Suc n) (Suc n) w w' \<and> \<not> stale w' n"
proof -
  let ?d = "cell_val (sn_data sn)"
  have src: "is_source w n" using sn by (simp add: is_scan_source is_scan_def)
  have cell: "\<not> cell_mut (sn_data sn)" using na sn by (auto simp: active_def)
  have sb: "src_binder w n = Some (sd_sb ?d)" and cv: "cval w n = sd_state ?d"
    and cd: "code w n = Some (CScan (sd_scan ?d) (sn_discard sn))"
    using sn by (simp_all add: src_binder_def cval_def code_def)
  have nc: "\<not> binder_is_clean (sd_sb ?d)" using st sb by (simp add: stale_def binder_is_clean_def is_clean_def)
  obtain w1 where w1: "try_schedule_discard ops n w = Inr w1" "book_same w w1" "\<And>k. k \<noteq> n \<Longrightarrow> heap w1 k = heap w k"
    "sinks_of w1 = sinks_of w"
    using try_schedule_discard_ok [OF inv_busy [OF inv] src] by metis
  define w2 where "w2 = put_scan_data n \<lparr>cell_val = ?d, cell_mut = True\<rparr> w1"
  note v2 = scan_begin_views [OF sn w1(2,4) w2_def]
  have e2: "entry ops w2 = entry ops w" "busy w2 = busy w" "next_id w2 = next_id w"
    using v2(4) rest_same_next [OF v2(6)] by (simp_all add: entry_def busy_def fun_eq_iff)
  have h2: "heap w2 k = heap w k" if "k \<noteq> n" for k using that w1(3) by (simp add: w2_def put_scan_data_heap)
  have inv2: "graph_inv ops G w2" by (rule graph_inv_activate [OF inv v2(1-3) e2]) (simp add: v2(5))
  have held2: "held ops G w2 n (sd_sb ?d)"
    using inv_held [OF inv sb] na held_cong [OF v2(2,3) e2(1)] by simp
  have fits: "fits_scan (G n) (sd_scan ?d)" "tracked (\<lambda>m. m < n \<and> is_source w2 m) (G n)"
    using inv_fits [OF inv2, of n] cd by (simp_all add: node_fits_def v2(1) fits_scan_def)
  have act2: "\<forall>i < n. \<not> active w2 i" "active w2 n" "n < next_id w2"
    using na inv_next [OF inv2, of n] cd by (simp_all add: v2(1,5))
  have cv2: "cval w2 n = sd_state ?d" using cv by (simp add: v2(3))
  obtain changed d1 w3 v where rec: "scan_recompute ops upd ?d w2 = Inr (changed, d1, w3)" "graph_inv ops G w3"
    "upd_frame ops n (Suc n) w2 w3" "settled ops G w3 n (sd_sb d1) v" "sd_state d1 = Some v"
    "sd_scan d1 = sd_scan ?d" "\<not> changed \<longrightarrow> sd_state ?d = Some v"
    using scan_recompute_ok [OF laws nb fits inv2 act2 held2 cv2] by metis
  note f3 = rec(3)
  have same3: "cval w3 n = cval w2 n" "stale w3 n = stale w2 n"
    using frame_heap [OF f3 order.refl] by (simp_all add: cval_def stale_def src_binder_def)
  have st3: "stale w3 n" using st same3(2) v2(2) by (simp add: stale_def)
  have "code w3 n = Some (CScan (sd_scan ?d) (sn_discard sn))" using cd by (simp add: frame_code [OF f3] v2(1))
  then obtain sn3 where sn3: "heap w3 n = Some (ScanNode sn3)" "sd_scan d1 = sd_scan (cell_val (sn_data sn3))"
    using rec(6) is_scan_code [of w3 n] by (auto simp: is_scan_def code_def)
  obtain w4 w5 where w5: "modify_sinks n (sinks_update ops changed) w3 = Inr w4" "put_scan_data n (new_cell d1) w4 = w5"
    "rest_same w3 w5" "\<And>k. k \<noteq> n \<Longrightarrow> heap w5 k = heap w3 k" "code w5 = code w3"
    "src_binder w5 = (src_binder w3)(n := Some (sd_sb d1))" "active w5 = (active w3)(n := False)"
    "cval w5 = (cval w3)(n := sd_state d1)" "\<And>k. busy w5 k = busy w3 k"
    "\<And>k key. entry ops w5 k key = (if k = n then map_option (resolve_binding changed) (entry ops w3 k key) else entry ops w3 k key)"
    using scan_end_views [OF laws sn3(1) inv_busy [OF rec(2)] sn3(2)] by metis
  have keep: "\<not> changed \<Longrightarrow> cval w3 n = Some v" using rec(7) same3(1) cv2 by simp
  have inv5: "graph_inv ops G w5"
  proof (rule graph_inv_settle [OF rec(2) _ rec(4) _ keep w5(5,6,7) _ _ _ w5(10)])
    show "active w3 n" using act2(2) by (simp add: frame_active [OF f3])
    show "entry ops w3 n key = Some b \<Longrightarrow> sb_dirty b = Clean \<Longrightarrow> active w3 (sb_sink b)" for key b
      using inv_clean [OF rec(2)] st3 by blast
    show "\<not> busy w5 k" for k using w5(9) inv_busy [OF rec(2)] by simp
  qed (use w5(8) rec(5) rest_same_next [OF w5(3)] in simp_all)
  have ns5: "\<not> stale w5 n" using rec(4) by (simp add: stale_def w5(6) settled_def)
  have "entry_frame ops (Suc n) w w3" using frame_entry [OF f3] by (simp add: entry_frame_def e2(1) v2(3))
  moreover have "entry_frame ops (Suc n) w3 w5"
    using keep rec(5) by (intro entry_frame_resolve [OF w5(10) ns5]) (simp_all add: w5(8))
  ultimately have ef: "entry_frame ops (Suc n) w w5"
    by (rule entry_frame_trans) (use st3 in \<open>auto simp: stale_def w5(6,8)\<close>)
  have "upd_frame ops (Suc n) (Suc n) w w5"
    unfolding upd_frame_def
  proof (intro conjI allI impI)
    show "rest_same w w5" using rest_same_trans [OF v2(6) rest_same_trans [OF frame_rest [OF f3] w5(3)]] .
    show "code w5 = code w" by (simp add: w5(5) frame_code [OF f3] v2(1))
    show "active w5 = active w" using na by (simp add: fun_eq_iff w5(7) frame_active [OF f3] v2(5))
    show "Suc n \<le> k \<Longrightarrow> heap w5 k = heap w k" for k using w5(4) h2 frame_heap [OF f3] by simp
    fix k assume "\<not> stale w k"
    then have "k \<noteq> n" "\<not> stale w2 k" using st v2(2) by (auto simp: stale_def)
    then show "src_binder w5 k = src_binder w k" "cval w5 k = cval w k"
      using frame_clean [OF f3] by (simp_all add: w5(6,8) v2(2,3))
  qed (rule ef)
  moreover have "scan_update ops upd n w = Inr w5"
    using sn cell nc w1(1) rec(1) w5(1,2) by (simp add: scan_update_def Let_def w2_def)
  ultimately show ?thesis using inv5 ns5 by blast
qed

lemma scan_update_ok:
  assumes laws: "slab_laws ops" and "n \<le> bound" and scan: "is_scan w n"
    and inv: "graph_inv ops G w" and na: "\<forall>k \<le> n. \<not> active w k"
  shows "\<exists>w'. scan_update ops upd n w = Inr w' \<and> graph_inv ops G w' \<and> upd_frame ops (Suc n) (Suc n) w w' \<and> \<not> stale w' n"
proof -
  obtain sn where sn: "heap w n = Some (ScanNode sn)" using scan by (auto simp: is_scan_def)
  show ?thesis
  proof (cases "stale w n")
    case True
    then show ?thesis using scan_update_stale [OF assms(1,2) sn inv na] by simp
  next
    case False
    then have "binder_is_clean (sd_sb (cell_val (sn_data sn)))" "\<not> cell_mut (sn_data sn)"
      using sn na by (auto simp: stale_def src_binder_def binder_is_clean_def is_clean_def active_def)
    then have "scan_update ops upd n w = Inr w" using sn by (simp add: scan_update_def)
    then show ?thesis using inv False by simp
  qed
qed

end

subsection \<open>Enough fuel\<close>

text \<open>With fuel \<open>f\<close>, \<open>node_update\<close> satisfies the contract for every node below \<open>f\<close>.\<close>

lemma node_update_contract: "node_updater ops G (node_update ops fuel) fuel"
proof (induction fuel)
  case 0
  show ?case by unfold_locales simp
next
  case (Suc fuel)
  show ?case
    by unfold_locales (simp add: node_updater.scan_update_ok [OF Suc])
qed

interpretation upd: node_updater ops G "node_update ops fuel" fuel for ops G fuel
  by (rule node_update_contract)


text \<open>The runtime's calls use as much fuel as there are nodes: they satisfy the contract for all nodes.\<close>

lemma do_update_contract: "node_updater ops G (do_update ops) bound"
proof
  fix m and w :: "('a, 'b, 'c) world_scheme"
  assume a: "slab_laws ops" "is_scan w m" "graph_inv ops G w" "\<forall>k \<le> m. \<not> active w k"
  have "m < next_id w" using inv_next [OF a(3), of m] a(2) by (auto simp: is_scan_code)
  then show "\<exists>w'. do_update ops m w = Inr w' \<and> graph_inv ops G w' \<and> upd_frame ops (Suc m) (Suc m) w w' \<and> \<not> stale w' m"
    unfolding do_update_def using upd.updates a by blast
qed

interpretation du: node_updater ops G "do_update ops" bound for ops G bound
  by (rule do_update_contract)

end
