(* ===== verification/Glitch_Freedom.thy ===== *)
theory Glitch_Freedom
  imports Graph_Update
begin

section \<open>Reading a graph and running effects\<close>

text \<open>
  The meaning of a graph is \<open>sem\<close>: the value a signal would have if every closure were evaluated
  from scratch over the current values of the states, in the order of creation. It mentions no
  cache, no flag and no binding. The theorems say that the incremental evaluator implements it: a
  read returns \<open>sem\<close> (never a stale or a half-updated value), a node without a pending
  notification holds \<open>sem\<close>, and an effect that is called records \<open>sem\<close>.
\<close>

subsection \<open>The reference semantics\<close>

primrec eval_prog :: "(nid \<Rightarrow> 'v option) \<Rightarrow> ('v, 'a) prog \<Rightarrow> 'a option" where
  "eval_prog env (Return x) = Some x"
| "eval_prog env (Read m k) = (case env m of None \<Rightarrow> None | Some v \<Rightarrow> eval_prog env (k v))"
| "eval_prog env (ReadUntracked m k) = (case env m of None \<Rightarrow> None | Some v \<Rightarrow> eval_prog env (k v))"
| "eval_prog env Fail = None"

primrec sem_env :: "(nid \<Rightarrow> ('v, 'v) prog) \<Rightarrow> ('m, 'v, 'z) world_scheme \<Rightarrow> nat \<Rightarrow> nid \<Rightarrow> 'v option" where
  "sem_env G w 0 = (\<lambda>_. None)"
| "sem_env G w (Suc n) = (sem_env G w n)(n :=
     (case code w n of None \<Rightarrow> None | Some CState \<Rightarrow> cval w n | Some _ \<Rightarrow> eval_prog (sem_env G w n) (G n)))"

definition sem :: "(nid \<Rightarrow> ('v, 'v) prog) \<Rightarrow> ('m, 'v, 'z) world_scheme \<Rightarrow> nid \<Rightarrow> 'v option" where
  "sem G w k = sem_env G w (Suc k) k"

lemma sem_env_below: "m < n \<Longrightarrow> sem_env G w n m = sem G w m"
proof (induction n)
  case (Suc n)
  then show ?case by (cases "m = n") (simp_all add: sem_def)
qed simp

lemma sem_state: "code w k = Some CState \<Longrightarrow> sem G w k = cval w k"
  by (simp add: sem_def)

lemma sem_eval: "code w k = Some c \<Longrightarrow> c \<noteq> CState \<Longrightarrow> sem G w k = eval_prog (sem_env G w k) (G k)"
  by (cases c) (simp_all add: sem_def)

lemma sem_cong:
  assumes "code w' = code w" and "\<And>k. code w k = Some CState \<Longrightarrow> cval w' k = cval w k"
  shows "sem G w' = sem G w"
proof -
  have "sem_env G w' n = sem_env G w n" for n
  proof (induction n)
    case (Suc n)
    then show ?case using assms by (auto split: option.splits code.splits)
  qed simp
  then have "sem_env G w' = sem_env G w" by (rule ext)
  then show ?thesis by (simp only: fun_eq_iff sem_def simp_thms)
qed

text \<open>A run whose reads returned the values of the environment computes its value.\<close>

lemma follow_eval:
  assumes "follow p (zip ms vs) = Some x" and "length vs = length ms"
    and "\<And>i. i < length ms \<Longrightarrow> env (ms ! i) = Some (vs ! i)"
  shows "eval_prog env p = Some x"
  using assms
proof (induction p arbitrary: ms vs)
  case (Read m k)
  then obtain ms' v vs' where ms: "ms = m # ms'" "vs = v # vs'" "follow (k v) (zip ms' vs') = Some x"
    by (cases ms; cases vs) (auto split: if_splits)
  moreover have "env m = Some v" using Read.prems(3) [of 0] ms by simp
  moreover have "env (ms' ! i) = Some (vs' ! i)" if "i < length ms'" for i
    using Read.prems(3) [of "Suc i"] ms that by simp
  ultimately show ?case using Read.IH [of "k v" ms' vs'] Read.prems(2) by simp
qed (auto split: if_splits)

subsection \<open>Clean nodes are up to date\<close>

definition quiet :: "('m, 'v, 'z) world_scheme \<Rightarrow> bool" where
  "quiet w \<longleftrightarrow> (\<forall>k. \<not> active w k)"

lemma clean_sem:
  assumes inv: "graph_inv ops G w" and q: "quiet w"
  shows "code w k \<noteq> None \<Longrightarrow> \<not> stale w k \<Longrightarrow> cval w k = sem G w k \<and> sem G w k \<noteq> None"
proof (induction k rule: less_induct)
  case (less k)
  obtain c where c: "code w k = Some c" using less.prems by auto
  show ?case
  proof (cases "c = CState")
    case True
    then have s: "code w k = Some CState" using c by simp
    then obtain st where "heap w k = Some (StateNode st)"
      by (cases "heap w k") (auto simp: code_def split: node.splits)
    then show ?thesis using sem_state [OF s, of G] by (simp add: cval_def)
  next
    case False
    then obtain sb where sb: "src_binder w k = Some sb" using c src_binder_code [of w k] by fastforce
    have na: "\<not> active w k" using q by (simp add: quiet_def)
    have ok: "binder_ok ops G w k sb" using inv_binder [OF inv sb na] .
    have cl: "sbr_dirty sb = Clean" using less.prems(2) sb by (simp add: stale_def)
    let ?bs = "sbr_sources sb"
    have bnd: "binds ops w k ?bs" and flags: "\<forall>b \<in> set ?bs. flag ops w b = Clean" and v: "valid ops G w k ?bs"
      using ok cl by (simp_all add: binder_ok_def)
    obtain vs x where vs: "length vs = length ?bs" "follow (G k) (zip (map src_node ?bs) vs) = Some x" "cval w k = Some x"
      "\<And>i. i < length ?bs \<Longrightarrow> flag ops w (?bs ! i) \<noteq> Dirty \<Longrightarrow> cval w (src_node (?bs ! i)) = Some (vs ! i)"
      using v unfolding valid_def by blast
    have "sem_env G w k (map src_node ?bs ! i) = Some (vs ! i)" if i: "i < length (map src_node ?bs)" for i
    proof -
      let ?b = "?bs ! i"
      have b: "?b \<in> set ?bs" using i by simp
      obtain e where e: "entry ops w (src_node ?b) (src_key ?b) = Some e" "sb_sink e = k" "flag ops w ?b = sb_dirty e"
        using bindsD [OF bnd b] .
      have lt: "src_node ?b < k" "is_source w (src_node ?b)" using binds_lt [OF inv bnd b] by simp_all
      have "\<not> stale w (src_node ?b)" using inv_clean [OF inv e(1)] e flags b na by simp
      then have "cval w (src_node ?b) = sem G w (src_node ?b)"
        using less.IH [OF lt(1)] lt(2) by (auto simp: is_source_code)
      moreover have "cval w (src_node ?b) = Some (vs ! i)" using vs(4) [of i] flags b i by simp
      ultimately show ?thesis using i lt(1) by (simp add: sem_env_below)
    qed
    then have "eval_prog (sem_env G w k) (G k) = Some x"
      using follow_eval [OF vs(2)] vs(1) by simp
    then show ?thesis using sem_eval [OF c False, of G] vs(3) by simp
  qed
qed

text \<open>An update changes no state and no closure, so it keeps the meaning.\<close>

lemma upd_frame_sem:
  assumes "upd_frame ops a c w w'"
  shows "sem G w' = sem G w"
  using frame_code [OF assms] frame_clean(2) [OF assms] state_not_stale by (intro sem_cong) blast+

lemma upd_frame_quiet: "upd_frame ops a c w w' \<Longrightarrow> quiet w' = quiet w"
  by (simp add: quiet_def frame_active)

subsection \<open>Reading\<close>

lemma signal_get_ok:
  assumes laws: "slab_laws ops" and inv: "graph_inv ops G w" and q: "quiet w" and src: "is_source w n"
  shows "\<exists>v w'. signal_get ops n w = Inr (v, w') \<and> sem G w n = Some v \<and> graph_inv ops G w'
      \<and> upd_frame ops (Suc n) (Suc n) w w' \<and> \<not> stale w' n"
proof -
  obtain S where S: "borrow_sinks n w = Inr S" using borrow_sinks_ok [OF src inv_busy [OF inv]] by blast
  have na: "\<forall>k \<le> n. \<not> active w k" using q by (simp add: quiet_def)
  obtain w' where w': "(case heap w n of Some (ScanNode _) \<Rightarrow> do_update ops n w | _ \<Rightarrow> Inr w) = Inr w'"
    "graph_inv ops G w'" "upd_frame ops (Suc n) (Suc n) w w'" "\<not> stale w' n"
    using du.source_update [OF laws lessI src inv na] .
  have src': "is_source w' n" using src frame_source [OF w'(3)] by simp
  have q': "quiet w'" using q upd_frame_quiet [OF w'(3)] by simp
  obtain v where v: "cval w' n = Some v" "node_value n w' = Inr v"
    using clean_value [OF w'(2) src' w'(4)] q' by (auto simp: quiet_def)
  have "cval w' n = sem G w' n" using clean_sem [OF w'(2) q' _ w'(4)] src' by (auto simp: is_source_code)
  then have "sem G w n = Some v" using v(1) upd_frame_sem [OF w'(3), of G] by simp
  moreover have "signal_get ops n w = Inr (v, w')"
    using S w'(1) v(2) by (simp add: signal_get_def node_borrow_def node_bind_def)
  ultimately show ?thesis using w'(2-4) by blast
qed


subsection \<open>Running an effect\<close>

lemma graph_inv_heap:
  assumes "heap w' = heap w" and "next_id w' = next_id w" and inv: "graph_inv ops G w"
  shows "graph_inv ops G w'"
  by (rule graph_inv_activate [OF inv]) (simp_all add: view_heap_cong [OF assms(1)] assms(2))

lemma effect_no_entry:
  assumes "code w n = Some (CEffect f p)"
  shows "entry ops w n key = None"
proof -
  have "\<not> is_source w n" using assms by (simp add: is_source_code)
  then show ?thesis using entry_source [of ops w n key] by (cases "entry ops w n key") auto
qed

lemma effect_views:
  assumes e: "heap w n = Some (EffectNode e)" and f: "ed_f d = ed_f (cell_val (ef_data e))"
    and w': "w' = put_effect_data n \<lparr>cell_val = d, cell_mut = b\<rparr> w"
  shows "code w' = code w" "src_binder w' = (src_binder w)(n := Some (ed_sb d))" "cval w' = (cval w)(n := ed_state d)"
    "entry ops w' = entry ops w" "busy w' = busy w" "active w' = (active w)(n := b)" "rest_same w w'"
    "\<And>k. k \<noteq> n \<Longrightarrow> heap w' k = heap w k" "\<exists>e'. heap w' n = Some (EffectNode e') \<and> cell_val (ef_data e') = d"
proof -
  note v = put_effect_data_views [OF e, where c = "\<lparr>cell_val = d, cell_mut = b\<rparr>", folded w']
  have "code w n = Some (CEffect (ed_f d) (ef_phase e))" using e f by (simp add: code_def)
  then show "code w' = code w" by (auto simp: fun_eq_iff v)
  show "src_binder w' = (src_binder w)(n := Some (ed_sb d))" "cval w' = (cval w)(n := ed_state d)"
    "active w' = (active w)(n := b)" by (simp_all add: fun_eq_iff v)
  show "entry ops w' = entry ops w" "busy w' = busy w" by (simp_all add: fun_eq_iff v)
  show "rest_same w w'" by (simp add: w')
  show "k \<noteq> n \<Longrightarrow> heap w' k = heap w k" for k by (simp add: w' put_effect_data_heap)
  show "\<exists>e'. heap w' n = Some (EffectNode e') \<and> cell_val (ef_data e') = d"
    using e by (simp add: w' put_effect_data_def)
qed

text \<open>The check and the run of an effect, with the binder taken out of the node.\<close>

definition effect_recompute ::
    "('m, sink_binding) slab_ops \<Rightarrow> 'v effect_data \<Rightarrow> ('m, 'v, 'z) world_scheme
       \<Rightarrow> (bool \<times> 'v effect_data \<times> ('m, 'v, 'z) world_scheme) result" where
  "effect_recompute ops d w =
     res_bind (binder_check ops (do_update ops) (ed_sb d) w) (\<lambda>(b, sb, w1).
       if b then
         res_bind (binder_update ops (do_update ops) (ed_f d (ed_state d)) sb w1) (\<lambda>(st, sb1, w2).
           Inr (True, d\<lparr>ed_state := st, ed_sb := sb1\<rparr>, w2))
       else Inr (False, d\<lparr>ed_sb := sb\<rparr>, w1))"

lemma effect_recompute_ok:
  assumes laws: "slab_laws ops" and f: "ed_f d = (\<lambda>_. prog_map Some (G j))"
    and p: "tracked (\<lambda>m. m < j \<and> is_source w m) (G j)"
    and inv: "graph_inv ops G w" and na: "\<forall>i < j. \<not> active w i" and j: "active w j" "j < next_id w"
    and h: "held ops G w j (ed_sb d)" and st: "cval w j = ed_state d"
  obtains ran d1 w1 v where "effect_recompute ops d w = Inr (ran, d1, w1)" and "graph_inv ops G w1"
    and "upd_frame ops j (Suc j) w w1" and "settled ops G w1 j (ed_sb d1) v" and "ed_state d1 = Some v"
    and "ed_f d1 = ed_f d" and "\<not> ran \<longrightarrow> ed_state d = Some v" and "ran \<longrightarrow> sbr_dirty (ed_sb d) \<noteq> Clean"
proof -
  obtain c sb1 w1 where w1: "binder_check ops (do_update ops) (ed_sb d) w = Inr (c, sb1, w1)" "graph_inv ops G w1"
    "upd_frame ops j j w w1" "sb1 = (ed_sb d)\<lparr>sbr_dirty := sbr_dirty sb1\<rparr>" "binds ops w1 j (sbr_sources (ed_sb d))"
    "\<not> c \<longrightarrow> (\<exists>v. settled ops G w1 j sb1 v \<and> cval w1 j = Some v)"
    using du.binder_check_ok [OF laws order.refl inv na h] .
  have f1: "upd_frame ops j (Suc j) w w1" using upd_frame_mono [OF w1(3)] by simp
  have nc: "c \<longrightarrow> sbr_dirty (ed_sb d) \<noteq> Clean"
    using w1(1) by (auto simp: binder_check_def split: if_splits)
  show ?thesis
  proof (cases c)
    case False
    then obtain v where v: "settled ops G w1 j sb1 v" "cval w1 j = Some v" using w1(6) by blast
    have "ed_state d = Some v" using v(2) st frame_heap [OF w1(3) order.refl] by (simp add: cval_def)
    moreover have "effect_recompute ops d w = Inr (False, d\<lparr>ed_sb := sb1\<rparr>, w1)"
      using w1(1) False by (simp add: effect_recompute_def)
    ultimately show ?thesis using v(1) by (intro that [of False "d\<lparr>ed_sb := sb1\<rparr>" w1 v, OF _ w1(2) f1]) simp_all
  next
    case True
    let ?p = "prog_map Some (G j)"
    have p1: "tracked (\<lambda>m. m < j \<and> is_source w1 m) ?p" using p by (simp add: frame_source [OF w1(3)])
    have na1: "\<forall>i < j. \<not> active w1 i" "active w1 j" "j < next_id w1"
      using na j rest_same_next [OF frame_rest [OF w1(3)]] by (simp_all add: frame_active [OF w1(3)])
    have sb1: "sbr_sources sb1 = sbr_sources (ed_sb d)" "sbr_sink sb1 = j" "sbr_slot sb1 = 0"
      using arg_cong [OF w1(4), of sbr_sources] arg_cong [OF w1(4), of sbr_sink] arg_cong [OF w1(4), of sbr_slot] h
      by (simp_all add: held_def)
    have b1: "binds ops w1 j (sbr_sources sb1)" using w1(5) sb1(1) by simp
    obtain x sb2 w2 vs where w2: "binder_update ops (do_update ops) ?p sb1 w1 = Inr (x, sb2, w2)" "graph_inv ops G w2"
      "upd_frame ops j (Suc j) w1 w2"
      "\<forall>v. follow (G j) (zip (map src_node (sbr_sources sb2)) vs) = Some v \<longrightarrow> settled ops G w2 j sb2 v"
      "follow ?p (zip (map src_node (sbr_sources sb2)) vs) = Some x"
      using du.binder_update_ok [OF laws order.refl p1 w1(2) na1 b1 sb1(2,3)] .
    obtain v where v: "follow (G j) (zip (map src_node (sbr_sources sb2)) vs) = Some v" "x = Some v"
      using w2(5) by (auto simp: follow_prog_map)
    have "effect_recompute ops d w = Inr (True, d\<lparr>ed_state := x, ed_sb := sb2\<rparr>, w2)"
      using w1(1) True w2(1) f by (simp add: effect_recompute_def)
    then show ?thesis
      using w2(4) v nc True
      by (intro that [of True "d\<lparr>ed_state := x, ed_sb := sb2\<rparr>" w2 v, OF _ w2(2) upd_frame_trans [OF f1 w2(3)]]) simp_all
  qed
qed

lemma effect_call_recompute:
  assumes "heap w n = Some (EffectNode e)" and "\<not> cell_mut (ef_data e)"
  shows "effect_call ops n w =
    res_bind (effect_recompute ops (cell_val (ef_data e)) (put_effect_data n \<lparr>cell_val = cell_val (ef_data e), cell_mut = True\<rparr> w))
      (\<lambda>(ran, d, w2). let w3 = put_effect_data n (new_cell d) w2 in
         Inr (if ran then w3\<lparr>effect_log := (n, ed_state d) # effect_log w2\<rparr> else w3))"
proof -
  let ?d = "cell_val (ef_data e)" and ?w = "put_effect_data n \<lparr>cell_val = cell_val (ef_data e), cell_mut = True\<rparr> w"
  show ?thesis
  proof (cases "binder_check ops (do_update ops) (ed_sb ?d) ?w")
    case (Inl x)
    then show ?thesis using assms by (simp add: effect_call_def effect_recompute_def Let_def)
  next
    case (Inr y)
    obtain b sb w1 where y: "y = (b, sb, w1)" by (cases y) auto
    show ?thesis
    proof (cases "binder_update ops (do_update ops) (ed_f ?d (ed_state ?d)) sb w1")
      case (Inl x)
      then show ?thesis using assms Inr y by (simp add: effect_call_def effect_recompute_def Let_def)
    next
      case (Inr z)
      then show ?thesis using assms \<open>binder_check ops (do_update ops) (ed_sb ?d) ?w = Inr y\<close> y
        by (cases z) (simp add: effect_call_def effect_recompute_def Let_def)
    qed
  qed
qed


text \<open>
  What a run of the effect \<open>n\<close> changes: nothing above \<open>n\<close>, no closure, no state, no queue; a node
  that was not stale stays as it is.
\<close>

definition called :: "nid \<Rightarrow> ('m, 'v, 'z) world_scheme \<Rightarrow> ('m, 'v, 'z) world_scheme \<Rightarrow> bool" where
  "called n w w' \<longleftrightarrow> w' = w\<lparr>heap := heap w', discards := discards w', effect_log := effect_log w'\<rparr>
     \<and> code w' = code w \<and> active w' = active w \<and> (\<forall>k. stale w' k \<longrightarrow> stale w k)
     \<and> (\<forall>k. k \<noteq> n \<longrightarrow> \<not> stale w k \<longrightarrow> cval w' k = cval w k) \<and> \<not> stale w' n"

lemma rest_same_called:
  assumes "rest_same w w1"
  shows "w1\<lparr>effect_log := l\<rparr> = w\<lparr>heap := heap w1, discards := discards w1, effect_log := l\<rparr>"
  using arg_cong [OF assms [unfolded rest_same_def], of "\<lambda>x. x\<lparr>effect_log := l\<rparr>"] by simp

lemma effect_call_ok:
  assumes laws: "slab_laws ops" and inv: "graph_inv ops G w" and q: "quiet w" and c: "code w n = Some (CEffect f p)"
  shows "\<exists>w'. effect_call ops n w = Inr w' \<and> graph_inv ops G w' \<and> called n w w'
      \<and> cval w' n = sem G w n \<and> sem G w n \<noteq> None
      \<and> (effect_log w' = effect_log w \<and> cval w n = sem G w n
         \<or> effect_log w' = (n, sem G w n) # effect_log w \<and> stale w n)"
proof -
  obtain e where e: "heap w n = Some (EffectNode e)"
  proof (cases "heap w n")
    case (Some nd)
    then show ?thesis using c that by (cases nd) (simp_all add: code_def)
  qed (use c in \<open>simp add: code_def\<close>)
  let ?d = "cell_val (ef_data e)"
  have "\<not> active w n" using q by (simp add: quiet_def)
  then have cell: "\<not> cell_mut (ef_data e)" using e by (simp add: active_def)
  have sb: "src_binder w n = Some (ed_sb ?d)" and cv: "cval w n = ed_state ?d" and f: "ed_f ?d = f"
    using e c by (simp_all add: src_binder_def cval_def code_def)
  define w2 where "w2 = put_effect_data n \<lparr>cell_val = ?d, cell_mut = True\<rparr> w"
  note v2 = effect_views [OF e refl w2_def]
  have e2: "src_binder w2 = src_binder w" "cval w2 = cval w" "next_id w2 = next_id w"
    using sb cv rest_same_next [OF v2(7)] by (simp_all add: v2(2,3) fun_upd_idem)
  have inv2: "graph_inv ops G w2"
    by (rule graph_inv_activate [OF inv v2(1) e2(1,2) v2(4,5) e2(3)]) (simp add: v2(6))
  have h2: "held ops G w2 n (ed_sb ?d)"
    using inv_held [OF inv sb] q held_cong [OF e2(1,2) v2(4)] by (simp add: quiet_def)
  have fits: "ed_f ?d = (\<lambda>_. prog_map Some (G n))" "tracked (\<lambda>m. m < n \<and> is_source w2 m) (G n)"
    using inv_fits [OF inv2, of n] c f by (simp_all add: node_fits_def v2(1))
  have act2: "\<forall>i < n. \<not> active w2 i" "active w2 n" "n < next_id w2"
    using q inv_next [OF inv2, of n] c by (simp_all add: v2(1,6) quiet_def)
  have cv2: "cval w2 n = ed_state ?d" using cv e2(2) by simp
  obtain ran d1 w3 v where rec: "effect_recompute ops ?d w2 = Inr (ran, d1, w3)" "graph_inv ops G w3"
    "upd_frame ops n (Suc n) w2 w3" "settled ops G w3 n (ed_sb d1) v" "ed_state d1 = Some v"
    "ed_f d1 = ed_f ?d" "\<not> ran \<longrightarrow> ed_state ?d = Some v" "ran \<longrightarrow> sbr_dirty (ed_sb ?d) \<noteq> Clean"
    using effect_recompute_ok [OF laws fits inv2 act2 h2 cv2] .
  note f3 = rec(3)
  obtain e3 where e3: "heap w3 n = Some (EffectNode e3)" "cell_val (ef_data e3) = ?d"
    using frame_heap [OF f3 order.refl] v2(9) by auto
  define w4 where "w4 = put_effect_data n (new_cell d1) w3"
  have "ed_f d1 = ed_f (cell_val (ef_data e3))" using rec(6) e3(2) by simp
  note v4 = effect_views [OF e3(1) this w4_def [unfolded new_cell_def]]
  have none: "entry ops w3 n key = None" for key
    using c by (intro effect_no_entry [of _ _ f p]) (simp add: frame_code [OF f3] v2(1))
  have inv4: "graph_inv ops G w4"
    by (rule graph_inv_settle [OF rec(2) _ rec(4), where changed = True])
      (use act2(2) none v4 rec(5) inv_busy [OF rec(2)] rest_same_next [OF v4(7)] in \<open>simp_all add: frame_active [OF f3]\<close>)
  define w' where "w' = (if ran then w4\<lparr>effect_log := (n, ed_state d1) # effect_log w3\<rparr> else w4)"
  have heap: "heap w' = heap w4" by (simp add: w'_def)
  note vh = view_heap_cong [OF heap]
  have inv': "graph_inv ops G w'" by (rule graph_inv_heap [OF heap _ inv4]) (simp add: w'_def)
  have act: "active w' = active w" using q by (simp add: vh v4(6) frame_active [OF f3] v2(6) fun_eq_iff quiet_def)
  have cd: "code w' = code w" by (simp add: vh v4(1) frame_code [OF f3] v2(1))
  have rest: "rest_same w w4" using rest_same_trans [OF v2(7) rest_same_trans [OF frame_rest [OF f3] v4(7)]] .
  have log: "effect_log w3 = effect_log w" "effect_log w4 = effect_log w"
    using rest_same_fields(6) [OF rest] rest_same_fields(6) [OF v4(7)] by simp_all
  have ns: "\<not> stale w' n" using rec(4) by (simp add: vh stale_def v4(2) settled_def)
  have keep: "\<not> stale w' k" "k \<noteq> n \<Longrightarrow> cval w' k = cval w k" if "\<not> stale w k" for k
  proof -
    have "\<not> stale w2 k" using that by (simp add: stale_def e2(1))
    then have "src_binder w3 k = src_binder w k" "cval w3 k = cval w k" using frame_clean [OF f3] e2 by simp_all
    then show "\<not> stale w' k" "k \<noteq> n \<Longrightarrow> cval w' k = cval w k"
      using that ns by (cases "k = n"; simp add: vh stale_def v4(2,3))+
  qed
  have called: "called n w w'"
    unfolding called_def
  proof (intro conjI allI impI)
    show "w' = w\<lparr>heap := heap w', discards := discards w', effect_log := effect_log w'\<rparr>"
      using rest_same_called [OF rest, of "effect_log w'"] by (cases ran) (simp_all add: w'_def)
  qed (use keep ns act cd in blast)+
  have q': "quiet w'" using q act by (simp add: quiet_def)
  have "sem G w' = sem G w"
    using keep(2) c state_not_stale by (intro sem_cong [OF cd]) fastforce
  moreover have "cval w' n = Some v" by (simp add: vh v4(3) rec(5))
  ultimately have s: "sem G w n = Some v" using clean_sem [OF inv' q' _ ns] c cd by simp
  have "effect_call ops n w = Inr w'"
    using rec(1) by (simp add: effect_call_recompute [OF e cell] flip: w2_def) (simp add: Let_def w'_def log flip: w4_def)
  moreover have "stale w n" if ran using that rec(8) sb by (simp add: stale_def)
  ultimately show ?thesis
    using inv' called \<open>cval w' n = Some v\<close> s rec(5,7) cv by (cases ran) (simp_all add: w'_def log)
qed

end
