(* ===== verification/Graph_Notify.thy ===== *)
theory Graph_Notify
  imports Glitch_Freedom
begin

section \<open>Notifying the sinks of a node\<close>

text \<open>
  \<open>notify\<close> walks the graph upwards. \<open>marked\<close> is what such a walk may change: dirty states and the
  dirty states of entries grow, nothing else of the graph changes; a node that becomes stale has
  told all its sinks; an entry that stops being clean belongs to a sink that is now stale; an
  effect that becomes stale is scheduled. The walk is shown to return with the fuel the runtime
  gives it, and a write of a state followed by such a walk keeps the invariant.
\<close>

subsection \<open>What a notification may change\<close>

definition grown_binder :: "source_binder \<Rightarrow> source_binder \<Rightarrow> bool" where
  "grown_binder sb sb' \<longleftrightarrow> sb' = sb\<lparr>sbr_dirty := sbr_dirty sb'\<rparr> \<and> sbr_dirty sb \<le> sbr_dirty sb'"

definition grown_entry :: "sink_binding \<Rightarrow> sink_binding \<Rightarrow> bool" where
  "grown_entry b b' \<longleftrightarrow> sb_sink b' = sb_sink b \<and> sb_slot b' = sb_slot b \<and> sb_dirty b \<le> sb_dirty b'"

definition scheduled :: "('m, 'v, 'z) world_scheme \<Rightarrow> nid \<Rightarrow> bool" where
  "scheduled w k \<longleftrightarrow> (\<forall>f p. code w k = Some (CEffect f p) \<longrightarrow> EffectCall k \<in> set (bk_queue (g_reactions w) (sint p)))"

definition ntf_rest :: "('m, 'v, 'z) world_scheme \<Rightarrow> ('m, 'v, 'z) world_scheme \<Rightarrow> bool" where
  "ntf_rest w w' \<longleftrightarrow> w' = w\<lparr>heap := heap w', g_reactions := g_reactions w', g_need_wake := g_need_wake w',
     g_waker := g_waker w', g_woken := g_woken w'\<rparr>"

definition marked :: "('m, sink_binding) slab_ops \<Rightarrow> nid set \<Rightarrow> ('m, 'v, 'z) world_scheme \<Rightarrow> ('m, 'v, 'z) world_scheme \<Rightarrow> bool" where
  "marked ops X w w' \<longleftrightarrow> ntf_rest w w' \<and> code w' = code w \<and> active w' = active w \<and> cval w' = cval w \<and> busy w' = busy w
     \<and> (\<forall>k. rel_option grown_binder (src_binder w k) (src_binder w' k))
     \<and> (\<forall>k key. rel_option grown_entry (entry ops w k key) (entry ops w' k key))
     \<and> (\<forall>k key b. entry ops w' k key = Some b \<longrightarrow> \<not> stale w k \<and> stale w' k \<or> k \<in> X \<longrightarrow> sb_dirty b \<noteq> Clean)
     \<and> (\<forall>k key. k \<notin> X \<longrightarrow> (stale w' k \<longrightarrow> stale w k) \<longrightarrow> entry ops w' k key = entry ops w k key)
     \<and> (\<forall>k key b b'. entry ops w k key = Some b \<longrightarrow> entry ops w' k key = Some b' \<longrightarrow> sb_dirty b = Clean \<longrightarrow> sb_dirty b' \<noteq> Clean
          \<longrightarrow> src_binder w (sb_sink b) \<noteq> None \<longrightarrow> stale w' (sb_sink b))
     \<and> (\<forall>k. \<not> stale w k \<longrightarrow> stale w' k \<longrightarrow> scheduled w' k)
     \<and> (\<forall>i. set (bk_queue (g_reactions w) i) \<subseteq> set (bk_queue (g_reactions w') i))
     \<and> (bk_inv (g_reactions w) \<longrightarrow> bk_inv (g_reactions w'))"

lemma ntf_rest_refl [simp]: "ntf_rest w w"
  by (simp add: ntf_rest_def)

lemma ntf_rest_trans:
  assumes a: "ntf_rest w w1" and b: "ntf_rest w1 w2"
  shows "ntf_rest w w2"
proof -
  let ?f = "\<lambda>x. x\<lparr>heap := heap w2, g_reactions := g_reactions w2, g_need_wake := g_need_wake w2,
     g_waker := g_waker w2, g_woken := g_woken w2\<rparr>"
  have "w2 = ?f w1" using b by (simp only: ntf_rest_def)
  also have "?f w1 = ?f (w\<lparr>heap := heap w1, g_reactions := g_reactions w1, g_need_wake := g_need_wake w1,
     g_waker := g_waker w1, g_woken := g_woken w1\<rparr>)"
    using a unfolding ntf_rest_def by (rule arg_cong)
  also have "\<dots> = ?f w" by simp
  finally show ?thesis by (simp only: ntf_rest_def)
qed

lemma ntf_rest_fields:
  assumes "ntf_rest w w'"
  shows "next_id w' = next_id w" "g_config w' = g_config w" "discards w' = discards w" "g_unbinds w' = g_unbinds w"
    "g_notifys w' = g_notifys w" "effect_log w' = effect_log w"
proof -
  note a = assms [unfolded ntf_rest_def]
  show "next_id w' = next_id w" using arg_cong [OF a, of next_id] by simp
  show "g_config w' = g_config w" using arg_cong [OF a, of g_config] by simp
  show "discards w' = discards w" using arg_cong [OF a, of discards] by simp
  show "g_unbinds w' = g_unbinds w" using arg_cong [OF a, of g_unbinds] by simp
  show "g_notifys w' = g_notifys w" using arg_cong [OF a, of g_notifys] by simp
  show "effect_log w' = effect_log w" using arg_cong [OF a, of effect_log] by simp
qed

lemma grown_binder_refl [simp]: "grown_binder b b"
  by (simp add: grown_binder_def)

lemma grown_entry_refl [simp]: "grown_entry b b"
  by (simp add: grown_entry_def)

lemma grown_binder_trans: "grown_binder a b \<Longrightarrow> grown_binder b c \<Longrightarrow> grown_binder a c"
  unfolding grown_binder_def
  by (cases a; cases b; cases c) (auto intro: order_trans)

lemma grown_entry_trans: "grown_entry a b \<Longrightarrow> grown_entry b c \<Longrightarrow> grown_entry a c"
  unfolding grown_entry_def by (auto intro: order_trans)

lemma grown_not_Clean: "d \<le> d' \<Longrightarrow> d \<noteq> Clean \<Longrightarrow> d' \<noteq> (Clean :: dirty)"
  by (cases d; cases d') (simp_all add: less_eq_dirty_def)

lemma Clean_le [simp]: "Clean \<le> (d :: dirty)"
  by (simp add: less_eq_dirty_def)


lemma markedD:
  assumes "marked ops X w w'"
  shows marked_rest: "ntf_rest w w'" and marked_code: "code w' = code w" and marked_active: "active w' = active w"
    and marked_cval: "cval w' = cval w" and marked_busy: "busy w' = busy w"
    and marked_binder: "\<And>k. rel_option grown_binder (src_binder w k) (src_binder w' k)"
    and marked_grown: "\<And>k key. rel_option grown_entry (entry ops w k key) (entry ops w' k key)"
    and marked_told: "\<And>k key b. entry ops w' k key = Some b \<Longrightarrow> \<not> stale w k \<and> stale w' k \<or> k \<in> X \<Longrightarrow> sb_dirty b \<noteq> Clean"
    and marked_same: "\<And>k key. k \<notin> X \<Longrightarrow> (stale w' k \<Longrightarrow> stale w k) \<Longrightarrow> entry ops w' k key = entry ops w k key"
    and marked_sink: "\<And>k key b b'. entry ops w k key = Some b \<Longrightarrow> entry ops w' k key = Some b' \<Longrightarrow> sb_dirty b = Clean \<Longrightarrow>
      sb_dirty b' \<noteq> Clean \<Longrightarrow> src_binder w (sb_sink b) \<noteq> None \<Longrightarrow> stale w' (sb_sink b)"
    and marked_scheduled: "\<And>k. \<not> stale w k \<Longrightarrow> stale w' k \<Longrightarrow> scheduled w' k"
    and marked_queue: "\<And>i. set (bk_queue (g_reactions w) i) \<subseteq> set (bk_queue (g_reactions w') i)"
    and marked_bk: "bk_inv (g_reactions w) \<Longrightarrow> bk_inv (g_reactions w')"
proof -
  note m = assms [unfolded marked_def]
  show "ntf_rest w w'" "code w' = code w" "active w' = active w" "cval w' = cval w" "busy w' = busy w" using m by simp_all
  show "rel_option grown_binder (src_binder w k) (src_binder w' k)" for k using m by simp
  show "rel_option grown_entry (entry ops w k key) (entry ops w' k key)" for k key using m by simp
  show "entry ops w' k key = Some b \<Longrightarrow> \<not> stale w k \<and> stale w' k \<or> k \<in> X \<Longrightarrow> sb_dirty b \<noteq> Clean" for k key b using m by metis
  show "k \<notin> X \<Longrightarrow> (stale w' k \<Longrightarrow> stale w k) \<Longrightarrow> entry ops w' k key = entry ops w k key" for k key using m by metis
  show "entry ops w k key = Some b \<Longrightarrow> entry ops w' k key = Some b' \<Longrightarrow> sb_dirty b = Clean \<Longrightarrow>
      sb_dirty b' \<noteq> Clean \<Longrightarrow> src_binder w (sb_sink b) \<noteq> None \<Longrightarrow> stale w' (sb_sink b)" for k key b b' using m by metis
  show "\<not> stale w k \<Longrightarrow> stale w' k \<Longrightarrow> scheduled w' k" for k using m by metis
  show "set (bk_queue (g_reactions w) i) \<subseteq> set (bk_queue (g_reactions w') i)" for i using m by simp
  show "bk_inv (g_reactions w) \<Longrightarrow> bk_inv (g_reactions w')" using m by simp
qed

lemma markedI:
  assumes "ntf_rest w w'" and "code w' = code w" and "active w' = active w" and "cval w' = cval w" and "busy w' = busy w"
    and "\<And>k. rel_option grown_binder (src_binder w k) (src_binder w' k)"
    and "\<And>k key. rel_option grown_entry (entry ops w k key) (entry ops w' k key)"
    and "\<And>k key b. entry ops w' k key = Some b \<Longrightarrow> \<not> stale w k \<and> stale w' k \<or> k \<in> X \<Longrightarrow> sb_dirty b \<noteq> Clean"
    and "\<And>k key. k \<notin> X \<Longrightarrow> (stale w' k \<Longrightarrow> stale w k) \<Longrightarrow> entry ops w' k key = entry ops w k key"
    and "\<And>k key b b'. entry ops w k key = Some b \<Longrightarrow> entry ops w' k key = Some b' \<Longrightarrow> sb_dirty b = Clean \<Longrightarrow>
      sb_dirty b' \<noteq> Clean \<Longrightarrow> src_binder w (sb_sink b) \<noteq> None \<Longrightarrow> stale w' (sb_sink b)"
    and "\<And>k. \<not> stale w k \<Longrightarrow> stale w' k \<Longrightarrow> scheduled w' k"
    and "\<And>i. set (bk_queue (g_reactions w) i) \<subseteq> set (bk_queue (g_reactions w') i)"
    and "bk_inv (g_reactions w) \<Longrightarrow> bk_inv (g_reactions w')"
  shows "marked ops X w w'"
  using assms unfolding marked_def by simp

lemma marked_stale: "marked ops X w w' \<Longrightarrow> stale w k \<Longrightarrow> stale w' k"
  using marked_binder [of ops X w w' k] grown_not_Clean
  by (cases "src_binder w k"; cases "src_binder w' k") (auto simp: stale_def grown_binder_def)

lemma marked_sinks: "marked ops X w w' \<Longrightarrow> src_binder w' k = None \<longleftrightarrow> src_binder w k = None"
  using marked_binder [of ops X w w' k] by (cases "src_binder w k"; cases "src_binder w' k") auto

lemma marked_refl [simp]: "marked ops {} w w"
  by (rule markedI) (auto intro: option.rel_refl)

lemma scheduled_mono:
  "code w' = code w \<Longrightarrow> (\<And>i. set (bk_queue (g_reactions w) i) \<subseteq> set (bk_queue (g_reactions w') i)) \<Longrightarrow>
     scheduled w k \<Longrightarrow> scheduled w' k"
  unfolding scheduled_def by fastforce

lemma rel_option_trans:
  "(\<And>a b c. R a b \<Longrightarrow> R b c \<Longrightarrow> R a c) \<Longrightarrow> rel_option R x y \<Longrightarrow> rel_option R y z \<Longrightarrow> rel_option R x z"
  by (cases x; cases y; cases z) auto

lemma marked_trans:
  assumes m1: "marked ops X w w1" and m2: "marked ops X w1 w2"
  shows "marked ops X w w2"
proof (rule markedI)
  show "ntf_rest w w2" using ntf_rest_trans [OF marked_rest [OF m1] marked_rest [OF m2]] .
  show "code w2 = code w" "active w2 = active w" "cval w2 = cval w" "busy w2 = busy w"
    by (simp_all add: marked_code [OF m1] marked_code [OF m2] marked_active [OF m1] marked_active [OF m2]
        marked_cval [OF m1] marked_cval [OF m2] marked_busy [OF m1] marked_busy [OF m2])
  show "rel_option grown_binder (src_binder w k) (src_binder w2 k)" for k
    using rel_option_trans [of grown_binder, OF grown_binder_trans marked_binder [OF m1] marked_binder [OF m2]] .
  show "rel_option grown_entry (entry ops w k key) (entry ops w2 k key)" for k key
    using rel_option_trans [of grown_entry, OF grown_entry_trans marked_grown [OF m1] marked_grown [OF m2]] .
  show "sb_dirty b2 \<noteq> Clean" if e2: "entry ops w2 k key = Some b2" and d: "\<not> stale w k \<and> stale w2 k \<or> k \<in> X" for k key b2
  proof (cases "\<not> stale w k \<and> stale w1 k")
    case True
    obtain b1 where b1: "entry ops w1 k key = Some b1" "grown_entry b1 b2"
      using marked_grown [OF m2, of k key] e2 by (cases "entry ops w1 k key") auto
    then show ?thesis using marked_told [OF m1 b1(1)] True grown_not_Clean by (auto simp: grown_entry_def)
  next
    case False
    then show ?thesis using marked_told [OF m2 e2] d by blast
  qed
  show "entry ops w2 k key = entry ops w k key" if "k \<notin> X" "stale w2 k \<Longrightarrow> stale w k" for k key
    using marked_same [OF m1 that(1), of key] marked_same [OF m2 that(1), of key] that(2)
      marked_stale [OF m1] marked_stale [OF m2] by metis
  show "stale w2 (sb_sink b)" if b: "entry ops w k key = Some b" "entry ops w2 k key = Some b2" "sb_dirty b = Clean"
    "sb_dirty b2 \<noteq> Clean" "src_binder w (sb_sink b) \<noteq> None" for k key b b2
  proof -
    obtain b1 where b1: "entry ops w1 k key = Some b1" "sb_sink b1 = sb_sink b"
      using marked_grown [OF m1, of k key] b(1) by (cases "entry ops w1 k key") (auto simp: grown_entry_def)
    show ?thesis
    proof (cases "sb_dirty b1 = Clean")
      case True
      then show ?thesis using marked_sink [OF m2 b1(1) b(2)] b(4,5) b1(2) marked_sinks [OF m1] by simp
    next
      case False
      then show ?thesis using marked_sink [OF m1 b(1) b1(1) b(3)] b(5) marked_stale [OF m2] by blast
    qed
  qed
  show "scheduled w2 k" if "\<not> stale w k" "stale w2 k" for k
    using that marked_scheduled [OF m1] marked_scheduled [OF m2] scheduled_mono [OF marked_code [OF m2] marked_queue [OF m2]]
    by blast
  show "set (bk_queue (g_reactions w) i) \<subseteq> set (bk_queue (g_reactions w2) i)" for i
    using marked_queue [OF m1, of i] marked_queue [OF m2, of i] by blast
  show "bk_inv (g_reactions w) \<Longrightarrow> bk_inv (g_reactions w2)" using marked_bk [OF m1] marked_bk [OF m2] by blast
qed

subsection \<open>Scheduling an effect\<close>

definition phases_ok :: "('m, 'v, 'z) world_scheme \<Rightarrow> bool" where
  "phases_ok w \<longleftrightarrow> (\<forall>k f p c. code w k = Some (CEffect f p) \<longrightarrow> g_config w = Some c \<longrightarrow> valid_contains (reaction_phases c) p)"

lemma phase_id_sint [simp]: "phase_id (sint (p :: 8 word))"
  using sint_ge [of p] sint_lt [of p] by (simp add: phase_id_def)

lemma global_wake_rest: "ntf_rest w (global_wake w)"
  by (simp add: ntf_rest_def global_wake_def Let_def)

lemma global_wake_fields [simp]:
  "heap (global_wake w) = heap w" "g_reactions (global_wake w) = g_reactions w" "next_id (global_wake w) = next_id w"
  by (simp_all add: global_wake_def Let_def)

lemma schedule_reaction_ok:
  assumes "\<And>c. g_config w = Some c \<Longrightarrow> valid_contains (reaction_phases c) p"
  obtains w' where "schedule_reaction p r w = Inr w'" and "ntf_rest w w'" and "heap w' = heap w"
    and "bk_queue (g_reactions w') = (bk_queue (g_reactions w))(sint p := bk_queue (g_reactions w) (sint p) @ [r])"
    and "bk_inv (g_reactions w) \<Longrightarrow> bk_inv (g_reactions w')"
proof -
  obtain b where b: "bk_push (sint p) r (g_reactions w) = Inr b"
    "bk_queue b = (bk_queue (g_reactions w))(sint p := bk_queue (g_reactions w) (sint p) @ [r])"
    using bk_push_ok by metis
  have v: "(case g_config w of None \<Rightarrow> Inr () | Some c \<Rightarrow> assert_valid_reaction_phase c p) = Inr ()"
    using assms by (auto simp: assert_valid_reaction_phase_def split: option.split)
  show ?thesis
  proof (rule that [of "global_wake (w\<lparr>g_reactions := b\<rparr>)"])
    show "schedule_reaction p r w = Inr (global_wake (w\<lparr>g_reactions := b\<rparr>))"
      using v b(1) by (simp add: schedule_reaction_def)
    show "ntf_rest w (global_wake (w\<lparr>g_reactions := b\<rparr>))"
      by (rule ntf_rest_trans [OF _ global_wake_rest]) (simp add: ntf_rest_def)
    show "bk_inv (g_reactions w) \<Longrightarrow> bk_inv (g_reactions (global_wake (w\<lparr>g_reactions := b\<rparr>)))"
      using bk_push_inv [OF _ phase_id_sint b(1)] by simp
  qed (use b in simp_all)
qed


subsection \<open>The walk\<close>

definition notifiable :: "('m, sink_binding) slab_ops \<Rightarrow> ('m, 'v, 'z) world_scheme \<Rightarrow> nat \<Rightarrow> bool" where
  "notifiable ops w j \<longleftrightarrow> (\<forall>k key b. entry ops w k key = Some b \<longrightarrow>
       k < sb_sink b \<and> sb_sink b < next_id w \<and> sb_slot b = 0 \<and> code w (sb_sink b) \<noteq> Some CState)
     \<and> (\<forall>k \<ge> j. \<not> busy w k) \<and> quiet w \<and> (\<forall>k sb. src_binder w k = Some sb \<longrightarrow> sbr_slot sb = 0) \<and> phases_ok w"

lemma notifiable_mono: "notifiable ops w j \<Longrightarrow> j \<le> j' \<Longrightarrow> notifiable ops w j'"
  by (simp add: notifiable_def)

lemma notifiable_marked:
  assumes n: "notifiable ops w j" and m: "marked ops X w w'"
  shows "notifiable ops w' j"
proof -
  have "k < sb_sink b \<and> sb_sink b < next_id w \<and> sb_slot b = 0 \<and> code w (sb_sink b) \<noteq> Some CState"
    if e: "entry ops w' k key = Some b" for k key b
  proof -
    obtain b0 where "entry ops w k key = Some b0" "grown_entry b0 b"
      using marked_grown [OF m, of k key] e by (cases "entry ops w k key") auto
    then show ?thesis using n by (auto simp: notifiable_def grown_entry_def)
  qed
  moreover have "sbr_slot sb = 0" if e: "src_binder w' k = Some sb" for k sb
  proof -
    obtain sb0 where sb0: "src_binder w k = Some sb0" "grown_binder sb0 sb"
      using marked_binder [OF m, of k] e by (cases "src_binder w k") auto
    then have "sbr_slot sb = sbr_slot sb0" by (simp add: grown_binder_def) (metis source_binder.select_convs(4) source_binder.surjective source_binder.update_convs(2))
    then show ?thesis using n sb0(1) by (simp add: notifiable_def)
  qed
  ultimately show ?thesis
    using n ntf_rest_fields [OF marked_rest [OF m]]
    by (simp add: notifiable_def marked_code [OF m] marked_busy [OF m] quiet_def marked_active [OF m] phases_ok_def)
qed

text \<open>The contract of the notification of one sink, for the sinks of \<open>n\<close>.\<close>

definition notifies :: "('m, sink_binding) slab_ops \<Rightarrow> nat
    \<Rightarrow> (('m, 'v, 'z) world_scheme \<Rightarrow> ('m, 'v, 'z) world_scheme result) \<Rightarrow> nid \<Rightarrow> ('m, 'v, 'z) world_scheme \<Rightarrow> bool" where
  "notifies ops j f s w \<longleftrightarrow> (\<exists>w'. f w = Inr w' \<and> marked ops {} w w' \<and> (\<forall>k < j. heap w' k = heap w k)
     \<and> (src_binder w s \<noteq> None \<longrightarrow> stale w' s))"

definition notifies_above :: "('m, sink_binding) slab_ops
    \<Rightarrow> (nid \<Rightarrow> slot \<Rightarrow> dirty_level \<Rightarrow> ('m, 'v, 'z) world_scheme \<Rightarrow> ('m, 'v, 'z) world_scheme result)
    \<Rightarrow> nid \<Rightarrow> ('m, 'v, 'z) world_scheme \<Rightarrow> bool" where
  "notifies_above ops ntf n w \<longleftrightarrow> (\<forall>w' :: ('m, 'v, 'z) world_scheme. \<forall>s level. notifiable ops w' (Suc n) \<longrightarrow> next_id w' = next_id w \<longrightarrow>
     code w' = code w \<longrightarrow> n < s \<longrightarrow> s < next_id w \<longrightarrow> code w s \<noteq> Some CState \<longrightarrow> notifies ops (Suc n) (ntf s 0 level) s w')"

lemma notify_fold:
  assumes "\<And>w b. notifiable ops w j \<Longrightarrow> next_id w = N \<Longrightarrow> code w = C \<Longrightarrow> b \<in> set bs \<Longrightarrow> notifies ops j (call b) (sb_sink b) w"
  shows "notifiable ops w j \<Longrightarrow> next_id w = N \<Longrightarrow> code w = C \<Longrightarrow>
    \<exists>w'. res_fold call bs w = Inr w' \<and> marked ops {} w w' \<and> (\<forall>k < j. heap w' k = heap w k)
      \<and> (\<forall>b \<in> set bs. src_binder w (sb_sink b) \<noteq> None \<longrightarrow> stale w' (sb_sink b))"
  using assms
proof (induction bs arbitrary: w)
  case Nil
  then show ?case by simp
next
  case (Cons b bs)
  obtain w1 where w1: "call b w = Inr w1" "marked ops {} w w1" "\<forall>k < j. heap w1 k = heap w k"
    "src_binder w (sb_sink b) \<noteq> None \<longrightarrow> stale w1 (sb_sink b)"
    using Cons.prems(4) [OF Cons.prems(1-3), of b] by (auto simp: notifies_def)
  have "notifiable ops w1 j" "next_id w1 = N" "code w1 = C"
    using notifiable_marked [OF Cons.prems(1) w1(2)] ntf_rest_fields [OF marked_rest [OF w1(2)]] marked_code [OF w1(2)]
      Cons.prems(2,3) by simp_all
  then obtain w' where w': "res_fold call bs w1 = Inr w'" "marked ops {} w1 w'" "\<forall>k < j. heap w' k = heap w1 k"
    "\<forall>b \<in> set bs. src_binder w1 (sb_sink b) \<noteq> None \<longrightarrow> stale w' (sb_sink b)"
    using Cons.IH Cons.prems(4) by (metis list.set_intros(2))
  have "stale w' (sb_sink b)" if "src_binder w (sb_sink b) \<noteq> None"
    using w1(4) that marked_stale [OF w'(2)] by blast
  moreover have "stale w' (sb_sink b')" if "b' \<in> set bs" "src_binder w (sb_sink b') \<noteq> None" for b'
    using w'(4) that marked_sinks [OF w1(2)] by metis
  ultimately show ?case using w1(1,3) w'(1,3) marked_trans [OF w1(2) w'(2)] by auto
qed

lemma put_sinks_ntf_rest: "ntf_rest w (put_sinks n c w)"
  by (simp add: put_sinks_def put_node_def ntf_rest_def split: option.splits)

lemma put_sinks_world [simp]:
  "next_id (put_sinks n c w) = next_id w" "g_reactions (put_sinks n c w) = g_reactions w" "g_config (put_sinks n c w) = g_config w"
  by (simp_all add: put_sinks_def put_node_def split: option.splits)

lemma mark_grown: "grown_entry b (mark_binding level b)"
  by (simp add: grown_entry_def apply_notify_mono)

lemma notify_sinks_ok:
  assumes laws: "slab_laws ops" and nf: "notifiable ops w n" and src: "is_source w n"
    and step: "notifies_above ops ntf n w"
  obtains w' where "notify_sinks ops ntf n level w = Inr w'" and "marked ops {n} w w'" and "\<And>k. k < n \<Longrightarrow> heap w' k = heap w k"
    and "src_binder w' n = src_binder w n" and "\<And>key. entry ops w' n key = map_option (mark_binding level) (entry ops w n key)"
proof -
  have nb: "\<not> busy w n" using nf by (simp add: notifiable_def)
  obtain S where S: "borrow_sinks n w = Inr S" "\<And>key. entry ops w n key = slab_get ops S key"
    using borrow_sinks_ok [OF src nb] by metis
  define w0 where "w0 = put_sinks n \<lparr>cell_val = S, cell_mut = True\<rparr> w"
  have e0: "entry ops w0 = entry ops w" by (auto simp: fun_eq_iff w0_def put_sinks_entry [OF src] S(2))
  have b0: "busy w0 = (busy w)(n := True)" by (auto simp: fun_eq_iff w0_def put_sinks_busy [OF src])
  have v0: "code w0 = code w" "src_binder w0 = src_binder w" "active w0 = active w" "cval w0 = cval w"
    "next_id w0 = next_id w" "g_config w0 = g_config w" by (simp_all add: fun_eq_iff w0_def)
  have nf0: "notifiable ops w0 (Suc n)"
    using nf by (auto simp: notifiable_def e0 b0 v0 quiet_def phases_ok_def)
  let ?call = "\<lambda>b. ntf (sb_sink b) (sb_slot b) level"
  have "notifies ops (Suc n) (?call b) (sb_sink b) w'"
    if pre: "notifiable ops w' (Suc n)" "next_id w' = next_id w" "code w' = code w" "b \<in> set (clean_bindings ops S)" for w' b
  proof -
    obtain key where "entry ops w n key = Some b" using pre(4) S(2) by (auto simp: clean_bindings_iff [OF laws])
    then have b: "n < sb_sink b" "sb_sink b < next_id w" "code w (sb_sink b) \<noteq> Some CState" "sb_slot b = 0"
      using nf by (auto simp: notifiable_def)
    then show ?thesis using step pre(1-3) by (simp add: notifies_above_def)
  qed
  then obtain w1 where w1: "res_fold ?call (clean_bindings ops S) w0 = Inr w1" "marked ops {} w0 w1"
    "\<forall>k < Suc n. heap w1 k = heap w0 k"
    "\<forall>b \<in> set (clean_bindings ops S). src_binder w0 (sb_sink b) \<noteq> None \<longrightarrow> stale w1 (sb_sink b)"
    using notify_fold [OF _ nf0 v0(5,1), where bs = "clean_bindings ops S" and call = ?call] by blast
  obtain S1 where S1: "sinks_notify ops ?call level S w0 = Inr (S1, w1)"
    "\<And>k. slab_get ops S1 k = map_option (mark_binding level) (slab_get ops S k)"
    using sinks_notify_run(2) [OF laws w1(1)] by blast
  define w' where "w' = put_sinks n (new_cell S1) w1"
  have src1: "is_source w1 n" using src by (simp add: is_source_code marked_code [OF w1(2)] v0(1))
  have e': "entry ops w' k key = (if k = n then map_option (mark_binding level) (entry ops w n key) else entry ops w1 k key)" for k key
    by (simp add: w'_def put_sinks_entry [OF src1] S1(2) S(2))
  have v': "src_binder w' = src_binder w1" "code w' = code w1" "active w' = active w1" "cval w' = cval w1"
    by (simp_all add: w'_def fun_eq_iff)
  have st: "stale w' = stale w1" "stale w0 = stale w" by (simp_all add: fun_eq_iff stale_def v' v0)
  have sch: "scheduled w' k = scheduled w1 k" for k by (simp add: scheduled_def v' w'_def)
  have "marked ops {n} w w'"
  proof (rule markedI)
    have "ntf_rest w w0" by (simp add: w0_def put_sinks_ntf_rest)
    from ntf_rest_trans [OF this ntf_rest_trans [OF marked_rest [OF w1(2)] put_sinks_ntf_rest]]
    show "ntf_rest w w'" by (simp add: w'_def)
    show "code w' = code w" "active w' = active w" "cval w' = cval w"
      by (simp_all add: v' v0 marked_code [OF w1(2)] marked_active [OF w1(2)] marked_cval [OF w1(2)])
    show "busy w' = busy w"
      using nb by (auto simp: fun_eq_iff w'_def put_sinks_busy [OF src1] marked_busy [OF w1(2)] b0)
    show "rel_option grown_binder (src_binder w k) (src_binder w' k)" for k
      using marked_binder [OF w1(2), of k] by (simp add: v' v0)
    show "rel_option grown_entry (entry ops w k key) (entry ops w' k key)" for k key
      using marked_grown [OF w1(2), of k key] mark_grown by (cases "entry ops w n key") (auto simp: e' e0)
    show "sb_dirty b \<noteq> Clean" if "entry ops w' k key = Some b" "\<not> stale w k \<and> stale w' k \<or> k \<in> {n}" for k key b
      using that marked_told [OF w1(2), of k key b] by (auto simp: e' st split: if_splits)
    show "entry ops w' k key = entry ops w k key" if "k \<notin> {n}" "stale w' k \<Longrightarrow> stale w k" for k key
      using that marked_same [OF w1(2), of k key] by (simp add: e' st e0)
    show "stale w' (sb_sink b)" if "entry ops w k key = Some b" "entry ops w' k key = Some b'" "sb_dirty b = Clean"
      "sb_dirty b' \<noteq> Clean" "src_binder w (sb_sink b) \<noteq> None" for k key b b'
    proof (cases "k = n")
      case True
      then have "b \<in> set (clean_bindings ops S)" using that(1,3) S(2) by (auto simp: clean_bindings_iff [OF laws])
      then show ?thesis using w1(4) that(5) by (simp add: st v0)
    next
      case False
      then show ?thesis using marked_sink [OF w1(2), of k key b b'] that by (simp add: e' e0 st v0)
    qed
    show "\<not> stale w k \<Longrightarrow> stale w' k \<Longrightarrow> scheduled w' k" for k
      using marked_scheduled [OF w1(2)] by (simp add: st sch)
    show "set (bk_queue (g_reactions w) i) \<subseteq> set (bk_queue (g_reactions w') i)" for i
      using marked_queue [OF w1(2), of i] by (simp add: w'_def w0_def)
    show "bk_inv (g_reactions w) \<Longrightarrow> bk_inv (g_reactions w')"
      using marked_bk [OF w1(2)] by (simp add: w'_def w0_def)
  qed
  moreover have "notify_sinks ops ntf n level w = Inr w'"
    using S(1) S1(1) by (simp add: notify_sinks_def w0_def w'_def)
  moreover have "heap w' k = heap w k" if "k < n" for k
    using that w1(3) by (simp add: w'_def w0_def put_sinks_heap)
  moreover have "heap w1 n = heap w0 n" using w1(3) by simp
  then have "src_binder w' n = src_binder w n" using fun_cong [OF v0(2), of n] by (simp add: v' src_binder_def)
  ultimately show ?thesis using that e' by simp
qed


text \<open>A node that becomes stale itself, and then tells its sinks.\<close>

lemma marked_self:
  assumes w1: "ntf_rest w w1" "code w1 = code w" "active w1 = active w" "cval w1 = cval w" "busy w1 = busy w" "entry ops w1 = entry ops w"
      "g_reactions w1 = g_reactions w" "src_binder w1 = (src_binder w)(j := Some sb1)"
    and sb: "src_binder w j = Some sb" "grown_binder sb sb1" "sbr_dirty sb1 \<noteq> Clean"
    and m: "stale w j \<and> w' = w1 \<or> \<not> stale w j \<and> marked ops {j} w1 w' \<and> scheduled w' j"
  shows "marked ops {} w w' \<and> stale w' j"
proof -
  have st: "stale w1 k \<longleftrightarrow> k = j \<or> stale w k" for k using sb(3) by (simp add: stale_def w1(8))
  have gb: "rel_option grown_binder (src_binder w k) (src_binder w1 k)" for k
    using sb by (cases "src_binder w k") (auto simp: w1(8) option.rel_refl)
  have ge: "rel_option grown_entry (entry ops w k key) (entry ops w1 k key)" for k key
    by (simp add: w1(6) option.rel_refl)
  from m show ?thesis
  proof (elim disjE conjE)
    assume s: "stale w j" and w': "w' = w1"
    have "stale w1 = stale w" using st s by (auto simp: fun_eq_iff)
    then have "marked ops {} w w1" using gb ge by (intro markedI) (simp_all add: w1(1-7))
    then show ?thesis using st w' by blast
  next
    assume s: "\<not> stale w j" and m: "marked ops {j} w1 w'" and sch: "scheduled w' j"
    have sj: "stale w' j" using marked_stale [OF m] st by blast
    have "marked ops {} w w'"
    proof (rule markedI)
      show "ntf_rest w w'" using ntf_rest_trans [OF w1(1) marked_rest [OF m]] .
      show "code w' = code w" "active w' = active w" "cval w' = cval w" "busy w' = busy w"
        by (simp_all add: marked_code [OF m] marked_active [OF m] marked_cval [OF m] marked_busy [OF m] w1)
      show "rel_option grown_binder (src_binder w k) (src_binder w' k)" for k
        using rel_option_trans [of grown_binder, OF grown_binder_trans gb marked_binder [OF m]] .
      show "rel_option grown_entry (entry ops w k key) (entry ops w' k key)" for k key
        using marked_grown [OF m, of k key] by (simp add: w1(6))
      show "sb_dirty b \<noteq> Clean" if "entry ops w' k key = Some b" "\<not> stale w k \<and> stale w' k \<or> k \<in> {}" for k key b
        using marked_told [OF m that(1)] that(2) st by (cases "k = j") simp_all
      show "entry ops w' k key = entry ops w k key" if "stale w' k \<Longrightarrow> stale w k" for k key
        using marked_same [OF m, of k key] that s sj st by (cases "k = j") (auto simp: w1(6))
      show "stale w' (sb_sink b)" if "entry ops w k key = Some b" "entry ops w' k key = Some b'" "sb_dirty b = Clean"
        "sb_dirty b' \<noteq> Clean" "src_binder w (sb_sink b) \<noteq> None" for k key b b'
        using marked_sink [OF m, of k key b b'] that by (simp add: w1(6,8))
      show "scheduled w' k" if "\<not> stale w k" "stale w' k" for k
        using that sch marked_scheduled [OF m, of k] st by (cases "k = j") simp_all
      show "set (bk_queue (g_reactions w) i) \<subseteq> set (bk_queue (g_reactions w') i)" for i
        using marked_queue [OF m, of i] by (simp add: w1(7))
      show "bk_inv (g_reactions w) \<Longrightarrow> bk_inv (g_reactions w')" using marked_bk [OF m] by (simp add: w1(7))
    qed
    then show ?thesis using sj by blast
  qed
qed

lemma binder_on_notify_grown:
  assumes "sbr_slot sb = slot" and "binder_on_notify slot level sb = (needs, sb1)"
  shows "grown_binder sb sb1" "sbr_dirty sb1 \<noteq> Clean" "needs \<longleftrightarrow> sbr_dirty sb = Clean"
  using assms by (auto simp: binder_on_notify_def grown_binder_def apply_notify_mono)

lemma notify_scan:
  assumes laws: "slab_laws ops" and nf: "notifiable ops w j" and sn: "heap w j = Some (ScanNode sn)"
    and step: "notifies_above ops ntf j w"
  shows "notifies ops j (notify_step ops ntf j 0 level) j w"
proof -
  let ?d = "cell_val (sn_data sn)"
  have "\<not> active w j" using nf by (simp add: notifiable_def quiet_def)
  then have cell: "\<not> cell_mut (sn_data sn)" using sn by (simp add: active_def)
  have sb: "src_binder w j = Some (sd_sb ?d)" using sn by (simp add: src_binder_def)
  then have slot: "sbr_slot (sd_sb ?d) = 0" using nf by (simp add: notifiable_def)
  obtain needs sb1 where on: "binder_on_notify 0 level (sd_sb ?d) = (needs, sb1)" by fastforce
  note g = binder_on_notify_grown [OF slot on]
  define w1 where "w1 = put_scan_data j (new_cell (?d\<lparr>sd_sb := sb1\<rparr>)) w"
  note v = put_scan_data_views [OF sn, where c = "new_cell (?d\<lparr>sd_sb := sb1\<rparr>)", folded w1_def]
  have cj: "code w j = Some (CScan (sd_scan ?d) (sn_discard sn))" "cval w j = sd_state ?d" using sn by (simp_all add: code_def cval_def)
  have rest: "ntf_rest w w1" "g_reactions w1 = g_reactions w" "next_id w1 = next_id w"
    using sn by (simp_all add: w1_def put_scan_data_def put_node_def ntf_rest_def)
  have views: "code w1 = code w" "active w1 = active w" "cval w1 = cval w" "busy w1 = busy w" "entry ops w1 = entry ops w"
    "src_binder w1 = (src_binder w)(j := Some sb1)"
    using cj \<open>\<not> active w j\<close> by (auto simp: fun_eq_iff v)
  have nf1: "notifiable ops w1 j"
    using nf slot g(1) sb unfolding notifiable_def grown_binder_def
    by (auto simp: views rest quiet_def phases_ok_def ntf_rest_fields [OF rest(1)])
      (metis source_binder.select_convs(4) source_binder.surjective source_binder.update_convs(2))
  have below: "heap w1 k = heap w k" if "k < j" for k using that by (simp add: w1_def put_scan_data_heap)
  show ?thesis
  proof (cases needs)
    case False
    then have "stale w j" using g(3) sb by (simp add: stale_def)
    then have "marked ops {} w w1 \<and> stale w1 j"
      using marked_self [OF rest(1) views(1-5) rest(2) views(6) sb g(1,2), of w1] by blast
    moreover have "notify_step ops ntf j 0 level w = Inr w1" using sn cell on False by (simp add: notify_step_def w1_def)
    ultimately show ?thesis using below by (auto simp: notifies_def)
  next
    case True
    let ?l = "maybe_if level (scan_filter (sd_scan ?d))"
    have src1: "is_source w1 j" using cj(1) by (auto simp: is_source_code views)
    have "notifies_above ops ntf j w1" using step by (simp add: notifies_above_def rest(3) views(1))
    then obtain w' where w': "notify_sinks ops ntf j ?l w1 = Inr w'" "marked ops {j} w1 w'" "\<forall>k < j. heap w' k = heap w1 k"
      using notify_sinks_ok [OF laws nf1 src1] by metis
    have "\<not> stale w j" using True g(3) sb by (simp add: stale_def)
    moreover have "scheduled w' j" using cj(1) by (simp add: scheduled_def marked_code [OF w'(2)] views(1))
    ultimately have "marked ops {} w w' \<and> stale w' j"
      using marked_self [OF rest(1) views(1-5) rest(2) views(6) sb g(1,2), of w'] w'(2) by blast
    moreover have "notify_step ops ntf j 0 level w = Inr w'" using sn cell on True w'(1) by (simp add: notify_step_def w1_def Let_def)
    ultimately show ?thesis using below w'(3) by (auto simp: notifies_def)
  qed
qed


lemma notify_effect:
  assumes nf: "notifiable ops w j" and e: "heap w j = Some (EffectNode e)"
  shows "notifies ops j (notify_step ops ntf j 0 level) j w"
proof -
  let ?d = "cell_val (ef_data e)"
  have "\<not> active w j" using nf by (simp add: notifiable_def quiet_def)
  then have cell: "\<not> cell_mut (ef_data e)" using e by (simp add: active_def)
  have sb: "src_binder w j = Some (ed_sb ?d)" and cv: "cval w j = ed_state ?d" using e by (simp_all add: src_binder_def cval_def)
  then have slot: "sbr_slot (ed_sb ?d) = 0" using nf by (simp add: notifiable_def)
  obtain needs sb1 where on: "binder_on_notify 0 level (ed_sb ?d) = (needs, sb1)" by fastforce
  note g = binder_on_notify_grown [OF slot on]
  define w1 where "w1 = put_effect_data j (new_cell (?d\<lparr>ed_sb := sb1\<rparr>)) w"
  have f: "ed_f (?d\<lparr>ed_sb := sb1\<rparr>) = ed_f ?d" by simp
  note v = effect_views [OF e f w1_def [unfolded new_cell_def]]
  have cj: "code w j = Some (CEffect (ed_f ?d) (ef_phase e))" using e by (simp add: code_def)
  have rest: "ntf_rest w w1" "g_reactions w1 = g_reactions w" "g_config w1 = g_config w"
    using e by (simp_all add: w1_def put_effect_data_def put_node_def ntf_rest_def)
  have views: "active w1 = active w" "cval w1 = cval w" "src_binder w1 = (src_binder w)(j := Some sb1)"
    using cv \<open>\<not> active w j\<close> by (auto simp: fun_eq_iff v)
  note self = marked_self [OF rest(1) v(1) views(1,2) v(5,4) rest(2) views(3) sb g(1,2)]
  show ?thesis
  proof (cases needs)
    case False
    then have "stale w j" using g(3) sb by (simp add: stale_def)
    then have "marked ops {} w w1 \<and> stale w1 j" using self [of w1] by blast
    moreover have "notify_step ops ntf j 0 level w = Inr w1" using e cell on False by (simp add: notify_step_def w1_def)
    ultimately show ?thesis using v(8) by (auto simp: notifies_def)
  next
    case True
    have "valid_contains (reaction_phases c) (ef_phase e)" if "g_config w1 = Some c" for c
      using nf cj that by (auto simp: notifiable_def phases_ok_def rest(3))
    then obtain w' where w': "schedule_reaction (ef_phase e) (EffectCall j) w1 = Inr w'" "ntf_rest w1 w'" "heap w' = heap w1"
      "bk_queue (g_reactions w') = (bk_queue (g_reactions w1))(sint (ef_phase e) := bk_queue (g_reactions w1) (sint (ef_phase e)) @ [EffectCall j])"
      "bk_inv (g_reactions w1) \<longrightarrow> bk_inv (g_reactions w')"
      using schedule_reaction_ok [of w1 "ef_phase e" "EffectCall j"] by metis
    note vh = view_heap_cong [OF w'(3)]
    have "entry ops w1 j key = None" for key
      using effect_no_entry [of w1 j _ _ ops key] cj by (simp add: v(1))
    then have "marked ops {j} w1 w'"
      by (intro markedI) (use w' in \<open>auto simp: vh option.rel_refl\<close>)
    moreover have "scheduled w' j" using cj by (simp add: scheduled_def vh v(1) w'(4))
    moreover have "\<not> stale w j" using True g(3) sb by (simp add: stale_def)
    ultimately have "marked ops {} w w' \<and> stale w' j" using self [of w'] by blast
    moreover have "notify_step ops ntf j 0 level w = Inr w'" using e cell on True w'(1) by (simp add: notify_step_def w1_def Let_def)
    ultimately show ?thesis using v(8) w'(3) by (auto simp: notifies_def)
  qed
qed

lemma node_notify_ok:
  assumes laws: "slab_laws ops"
  shows "notifiable ops w j \<Longrightarrow> j < next_id w \<Longrightarrow> next_id w \<le> j + fuel \<Longrightarrow> code w j \<noteq> Some CState \<Longrightarrow>
    notifies ops j (node_notify ops fuel j 0 level) j w"
proof (induction fuel arbitrary: w j level)
  case (Suc fuel)
  have step: "notifies_above ops (node_notify ops fuel) j w"
    unfolding notifies_above_def
  proof (intro allI impI)
    fix w' :: "('a, 'b, 'c) world_scheme" and s level
    assume a: "notifiable ops w' (Suc j)" "next_id w' = next_id w" "code w' = code w" "j < s" "s < next_id w" "code w s \<noteq> Some CState"
    then have "notifies ops s (node_notify ops fuel s 0 level) s w'"
      using Suc.prems(3) notifiable_mono [OF a(1)] Suc.IH [of w' s level] by simp
    then show "notifies ops (Suc j) (node_notify ops fuel s 0 level) s w'" using a(4) by (auto simp: notifies_def)
  qed
  show ?case
  proof (cases "heap w j")
    case None
    then show ?thesis by (simp add: notifies_def notify_step_def src_binder_def)
  next
    case (Some nd)
    then show ?thesis
      using Suc.prems(4) notify_scan [OF laws Suc.prems(1) _ step] notify_effect [OF Suc.prems(1)]
      by (cases nd) (simp_all add: code_def)
  qed
qed simp


subsection \<open>Writing a state\<close>

text \<open>
  \<open>sys_inv\<close> adds what the runtime relies on between operations: nothing is being updated, the
  queues of reactions are well formed, and every effect with a pending notification is queued.
\<close>

definition sys_inv :: "('m, sink_binding) slab_ops \<Rightarrow> (nid \<Rightarrow> ('v, 'v) prog) \<Rightarrow> ('m, 'v, 'z) world_scheme \<Rightarrow> bool" where
  "sys_inv ops G w \<longleftrightarrow> graph_inv ops G w \<and> quiet w \<and> phases_ok w \<and> bk_inv (g_reactions w) \<and> (\<forall>k. stale w k \<longrightarrow> scheduled w k)"

lemma sys_invD:
  assumes "sys_inv ops G w"
  shows sys_graph: "graph_inv ops G w" and sys_quiet: "quiet w" and sys_phases: "phases_ok w" and sys_bk: "bk_inv (g_reactions w)"
    and sys_scheduled: "\<And>k. stale w k \<Longrightarrow> scheduled w k"
  using assms by (simp_all add: sys_inv_def)

lemma inv_notifiable:
  assumes inv: "graph_inv ops G w" and "quiet w" and "phases_ok w"
  shows "notifiable ops w j"
proof -
  have "sbr_slot sb = 0" if "src_binder w k = Some sb" for k sb
    using inv_binder [OF inv that] assms(2) by (simp add: quiet_def binder_ok_def)
  then show ?thesis using inv_entry [OF inv] inv_busy [OF inv] assms(2,3) unfolding notifiable_def by blast
qed

text \<open>An entry that is not clean belongs to a stale sink.\<close>

lemma entry_sink_stale:
  assumes inv: "graph_inv ops G w" and e: "entry ops w k key = Some b" "sb_dirty b \<noteq> Clean"
    and s: "src_binder w (sb_sink b) \<noteq> None" and na: "\<not> active w (sb_sink b)"
  shows "stale w (sb_sink b)"
proof -
  obtain sb where sb: "src_binder w (sb_sink b) = Some sb" using s by blast
  have ok: "binder_ok ops G w (sb_sink b) sb" using inv_binder [OF inv sb na] .
  then have "(k, key) \<in> set (map loc (sbr_sources sb))" using e(1) by (auto simp: binder_ok_def binds_def)
  then obtain a where a: "a \<in> set (sbr_sources sb)" "src_node a = k" "src_key a = key" by (auto simp: loc_def)
  then have "flag ops w a \<noteq> Clean" using e by (simp add: flag_def)
  then have "sbr_dirty sb \<noteq> Clean" using ok a(1) by (auto simp: binder_ok_def)
  then show ?thesis using sb by (simp add: stale_def)
qed

lemma graph_inv_notified:
  assumes inv: "graph_inv ops G w" and q: "quiet w" and n: "code w n = Some CState"
    and w0: "code w0 = code w" "src_binder w0 = src_binder w" "active w0 = active w" "busy w0 = busy w" "entry ops w0 = entry ops w"
      "next_id w0 = next_id w" "cval w0 = (cval w)(n := Some v)"
    and m: "marked ops {n} w0 w'" and dirty: "\<And>key b. entry ops w' n key = Some b \<Longrightarrow> sb_dirty b = Dirty"
  shows "graph_inv ops G w'"
proof -
  have st0: "stale w0 = stale w" by (simp add: fun_eq_iff stale_def w0)
  note st = marked_stale [OF m, unfolded st0]
  have old: "\<exists>b. entry ops w k key = Some b \<and> grown_entry b b'" if "entry ops w' k key = Some b'" for k key b'
    using marked_grown [OF m, of k key] that by (cases "entry ops w k key") (auto simp: w0)
  have nx: "next_id w' = next_id w" using ntf_rest_fields(1) [OF marked_rest [OF m]] by (simp add: w0)
  have cd: "code w' = code w" by (simp add: marked_code [OF m] w0)
  have na: "\<not> active w k" for k using q by (simp add: quiet_def)
  show ?thesis
  proof (rule graph_invI)
    show "code w' k \<noteq> None \<Longrightarrow> k < next_id w'" for k using inv_next [OF inv] by (simp add: nx cd)
    show "node_fits G w' k" for k using inv_fits [OF inv] node_fits_cong [OF cd] by metis
    show "\<not> busy w' k" for k using inv_busy [OF inv] by (simp add: marked_busy [OF m] w0)
    fix k key b' assume e': "entry ops w' k key = Some b'"
    then obtain b where b: "entry ops w k key = Some b" "grown_entry b b'" using old by blast
    show "k < sb_sink b' \<and> sb_sink b' < next_id w' \<and> sb_slot b' = 0 \<and> code w' (sb_sink b') \<noteq> Some CState"
      using inv_entry [OF inv b(1)] b(2) by (simp add: nx cd grown_entry_def)
    show "\<not> stale w' k" if "sb_dirty b' = Clean"
      using that marked_told [OF m e'] inv_clean [OF inv b(1)] b(2) grown_not_Clean na st0 by (metis grown_entry_def)
    show "\<not> stale w' k \<Longrightarrow> sb_dirty b' \<noteq> MaybeDirty"
      using dirty e' marked_same [OF m, of k key] st [of k] inv_resolved [OF inv, of k key b'] by (cases "k = n") (auto simp: w0)
  next
    fix j sb' assume "src_binder w' j = Some sb'"
    then obtain sb where sb: "src_binder w j = Some sb" "grown_binder sb sb'"
      using marked_binder [OF m, of j] by (cases "src_binder w j") (auto simp: w0)
    have eqs: "sbr_sources sb' = sbr_sources sb" "sbr_sink sb' = sbr_sink sb" "sbr_slot sb' = sbr_slot sb"
      using sb(2) unfolding grown_binder_def
      by (metis source_binder.ext_inject source_binder.surjective source_binder.update_convs(2))+
    have ok: "binder_ok ops G w j sb" using inv_binder [OF inv sb(1) na] .
    let ?bs = "sbr_sources sb"
    have bnd: "binds ops w j ?bs" using ok by (simp add: binder_ok_def)
    have jn: "j \<noteq> n" using sb(1) n src_binder_code [of w n] by auto
    have bnd': "binds ops w' j ?bs"
    proof (subst binds_cong)
      show "(\<exists>b. entry ops w' k key = Some b \<and> sb_sink b = j) = (\<exists>b. entry ops w k key = Some b \<and> sb_sink b = j)" for k key
        using marked_grown [OF m, of k key] by (cases "entry ops w k key"; cases "entry ops w' k key") (auto simp: w0 grown_entry_def)
    qed (rule bnd)
    have flags: "flag ops w b \<le> flag ops w' b" for b
      using marked_grown [OF m, of "src_node b" "src_key b"]
      by (cases "entry ops w (src_node b) (src_key b)"; cases "entry ops w' (src_node b) (src_key b)")
        (auto simp: w0 grown_entry_def flag_def)
    have clean: "flag ops w' b = Clean" if c: "sbr_dirty sb' = Clean" and b: "b \<in> set ?bs" for b
    proof -
      have "sbr_dirty sb = Clean" using c sb(2) grown_not_Clean by (auto simp: grown_binder_def)
      then have "flag ops w b = Clean" using ok b by (simp add: binder_ok_def)
      moreover obtain e where e: "entry ops w (src_node b) (src_key b) = Some e" "sb_sink e = j" "flag ops w b = sb_dirty e"
        using bindsD [OF bnd b] .
      moreover obtain e' where e': "entry ops w' (src_node b) (src_key b) = Some e'" "flag ops w' b = sb_dirty e'"
        using bindsD [OF bnd' b] by metis
      moreover have "\<not> stale w' j" using c \<open>src_binder w' j = Some sb'\<close> by (simp add: stale_def)
      ultimately show ?thesis using marked_sink [OF m, of "src_node b" "src_key b" e e'] sb(1) by (auto simp: w0)
    qed
    have "valid ops G w' j ?bs" if d: "sbr_dirty sb' \<noteq> Dirty"
    proof -
      have "sbr_dirty sb \<noteq> Dirty" using d sb(2) by (auto simp: grown_binder_def less_eq_dirty_def)
      then have v: "valid ops G w j ?bs" using ok by (simp add: binder_ok_def)
      show ?thesis
      proof (rule validE [OF v])
        fix vs x assume a: "length vs = length ?bs" "follow (G j) (zip (map src_node ?bs) vs) = Some x" "cval w j = Some x"
          and read: "\<And>i. i < length ?bs \<Longrightarrow> flag ops w (?bs ! i) \<noteq> Dirty \<Longrightarrow> cval w (src_node (?bs ! i)) = Some (vs ! i)"
        show ?thesis
        proof (rule validI [where G = G and j = j, OF a(1,2)])
          show "cval w' j = Some x" using a(3) jn by (simp add: marked_cval [OF m] w0)
          fix i assume i: "i < length ?bs" "flag ops w' (?bs ! i) \<noteq> Dirty"
          obtain e' where "entry ops w' (src_node (?bs ! i)) (src_key (?bs ! i)) = Some e'" "flag ops w' (?bs ! i) = sb_dirty e'"
            using bindsD [OF bnd' nth_mem [OF i(1)]] by metis
          then have "src_node (?bs ! i) \<noteq> n" using dirty i(2) by auto
          moreover have "flag ops w (?bs ! i) \<noteq> Dirty" using flags [of "?bs ! i"] i(2) by (auto simp: less_eq_dirty_def)
          ultimately show "cval w' (src_node (?bs ! i)) = Some (vs ! i)" using read i(1) by (simp add: marked_cval [OF m] w0)
        qed
      qed
    qed
    then show "binder_ok ops G w' j sb'" using ok bnd' clean by (simp add: binder_ok_def eqs)
  qed
qed


lemma notifies_above_fuel:
  assumes "slab_laws ops"
  shows "notifies_above ops (node_notify ops (next_id w)) n w"
  unfolding notifies_above_def
proof (intro allI impI)
  fix w' :: "('a, 'b, 'c) world_scheme" and s level
  assume a: "notifiable ops w' (Suc n)" "next_id w' = next_id w" "code w' = code w" "n < s" "s < next_id w" "code w s \<noteq> Some CState"
  then have "notifies ops s (node_notify ops (next_id w) s 0 level) s w'"
    using notifiable_mono [OF a(1)] by (intro node_notify_ok [OF assms]) simp_all
  then show "notifies ops (Suc n) (node_notify ops (next_id w) s 0 level) s w'" using a(4) by (auto simp: notifies_def)
qed

text \<open>What a write of the state \<open>n\<close> changes.\<close>

definition written :: "nid \<Rightarrow> 'v \<Rightarrow> ('m, 'v, 'z) world_scheme \<Rightarrow> ('m, 'v, 'z) world_scheme \<Rightarrow> bool" where
  "written n v w w' \<longleftrightarrow> ntf_rest w w' \<and> code w' = code w \<and> active w' = active w \<and> cval w' = (cval w)(n := Some v)
     \<and> (\<forall>k. stale w k \<longrightarrow> stale w' k)"

lemma state_set_ok:
  assumes laws: "slab_laws ops" and inv: "sys_inv ops G w" and n: "code w n = Some CState"
  shows "\<exists>w'. state_set ops n v w = Inr w' \<and> sys_inv ops G w' \<and> written n v w w'
    \<and> (\<forall>key b. entry ops w n key = Some b \<longrightarrow> src_binder w (sb_sink b) \<noteq> None \<longrightarrow> stale w' (sb_sink b))
    \<and> (\<forall>k key. rel_option grown_entry (entry ops w k key) (entry ops w' k key))"
proof -
  note g = sys_graph [OF inv] and q = sys_quiet [OF inv] and ph = sys_phases [OF inv]
  obtain s where s: "heap w n = Some (StateNode s)"
  proof (cases "heap w n")
    case (Some nd)
    then show ?thesis using n that by (cases nd) (simp_all add: code_def)
  qed (use n in \<open>simp add: code_def\<close>)
  define w0 where "w0 = put_value n v w"
  have heap0: "heap w0 = (heap w)(n \<mapsto> StateNode (s\<lparr>st_value := v\<rparr>))" using s by (simp add: w0_def put_value_def)
  have v0: "code w0 = code w" "src_binder w0 = src_binder w" "active w0 = active w" "busy w0 = busy w" "entry ops w0 = entry ops w"
    "cval w0 = (cval w)(n := Some v)"
    using s by (auto simp: fun_eq_iff view_defs heap0 node_sinks_def)
  have r0: "ntf_rest w w0" "next_id w0 = next_id w" "g_config w0 = g_config w" "g_reactions w0 = g_reactions w"
    using s by (simp_all add: w0_def put_value_def put_node_def ntf_rest_def)
  have nf: "notifiable ops w0 n"
    using inv_notifiable [OF g q ph, of n] by (simp add: notifiable_def v0 r0 quiet_def phases_ok_def)
  have src: "is_source w0 n" using n by (simp add: is_source_code v0(1))
  obtain w' where w': "notify_sinks ops (node_notify ops (next_id w0)) n LevelDirty w0 = Inr w'" "marked ops {n} w0 w'"
    "\<forall>key. entry ops w' n key = map_option (mark_binding LevelDirty) (entry ops w0 n key)"
    using notify_sinks_ok [OF laws nf src notifies_above_fuel [OF laws]] by metis
  note m = w'(2)
  have dirty: "sb_dirty b = Dirty" if "entry ops w' n key = Some b" for key b using w'(3) that by auto
  have st0: "stale w0 = stale w" by (simp add: fun_eq_iff stale_def v0)
  have st: "stale w' k" if "stale w k" for k using marked_stale [OF m] that by (simp add: st0)
  have gi: "graph_inv ops G w'" by (rule graph_inv_notified [OF g q n v0(1-5) r0(2) v0(6) m dirty])
  have sch: "scheduled w' k" if sk: "stale w' k" for k
  proof (cases "stale w k")
    case True
    have "scheduled w0 k" using sys_scheduled [OF inv True] by (simp add: scheduled_def v0 r0)
    then show ?thesis by (rule scheduled_mono [OF marked_code [OF m] marked_queue [OF m]])
  next
    case False
    then show ?thesis using marked_scheduled [OF m _ sk] by (simp add: st0)
  qed
  have sys: "sys_inv ops G w'"
    using gi sch q ph marked_bk [OF m] sys_bk [OF inv] ntf_rest_fields(2) [OF marked_rest [OF m]]
    by (simp add: sys_inv_def quiet_def phases_ok_def marked_active [OF m] marked_code [OF m] v0 r0)
  have wr: "written n v w w'"
    using ntf_rest_trans [OF r0(1) marked_rest [OF m]] st
    by (simp add: written_def marked_code [OF m] marked_active [OF m] marked_cval [OF m] v0)
  have run: "state_set ops n v w = Inr w'"
    using s w'(1) by (simp add: state_set_def notify_raw_def flip: w0_def)
  have "stale w' (sb_sink b)" if b: "entry ops w n key = Some b" "src_binder w (sb_sink b) \<noteq> None" for key b
  proof (cases "sb_dirty b = Clean")
    case True
    have "entry ops w' n key = Some (mark_binding LevelDirty b)" using w'(3) b(1) by (simp add: v0)
    then show ?thesis using marked_sink [OF m, of n key b] b True by (simp add: v0)
  next
    case False
    show ?thesis using entry_sink_stale [OF g b(1) False b(2)] q st by (simp add: quiet_def)
  qed
  moreover have "rel_option grown_entry (entry ops w k key) (entry ops w' k key)" for k key
    using m by (simp add: marked_def v0)
  ultimately show ?thesis using run sys wr by blast
qed

end
