(* ===== verification/Graph_Lifecycle.thy ===== *)
theory Graph_Lifecycle
  imports Graph_Notify
begin

section \<open>Creating, discarding and dropping nodes\<close>

text \<open>
  The operations that change the set of nodes or throw caches away, each with the preservation of
  \<open>sys_inv\<close>: \<open>State::new\<close>, \<open>Signal::new\<close>, \<open>Signal::new_dedup\<close>, \<open>effect\<close>, the discard of the cache of a
  signal nobody is bound to, the drop of a node and the deferred unbinding of its sources.
\<close>

subsection \<open>Creation\<close>

lemma graph_inv_add:
  assumes inv: "graph_inv ops G w" and n: "n = next_id w" and heap: "heap w' = (heap w)(n \<mapsto> nd)" and nx: "next_id w' = Suc n"
    and fresh: "\<not> active w' n" "\<not> busy w' n" "\<And>key. entry ops w' n key = None"
      "src_binder w' n = None \<or> src_binder w' n = Some (binder_new n 0)" and fits: "node_fits G w' n"
  shows "graph_inv ops G w'"
proof -
  have "code w n = None" using inv_next [OF inv, of n] n by (cases "code w n") auto
  have other: "code w' k = code w k" "src_binder w' k = src_binder w k" "active w' k = active w k" "cval w' k = cval w k"
    "busy w' k = busy w k" "entry ops w' k key = entry ops w k key" if "k \<noteq> n" for k key
    using that by (simp_all add: view_defs heap)
  have st: "stale w' k = stale w k" if "k \<noteq> n" for k using other [OF that] by (simp add: stale_def)
  have src: "is_source w m \<Longrightarrow> is_source w' m" for m
    using other(1) [of m] \<open>code w n = None\<close> by (cases "m = n") (simp_all add: is_source_code)
  have en: "k \<noteq> n \<and> entry ops w k key = Some b" if "entry ops w' k key = Some b" for k key b
    using that fresh(3) other(6) by (cases "k = n") simp_all
  have sink: "sb_sink b \<noteq> n" if "entry ops w k key = Some b" for k key b using inv_entry [OF inv that] n by simp
  show ?thesis
  proof (rule graph_invI)
    show "k < next_id w'" if "code w' k \<noteq> None" for k
      using inv_next [OF inv, of k] that other(1) nx n by (cases "k = n") auto
    show "node_fits G w' k" for k
    proof (cases "k = n")
      case False
      have "tracked (\<lambda>m. m < k \<and> is_source w m) p \<Longrightarrow> tracked (\<lambda>m. m < k \<and> is_source w' m) p" for p :: "('b, 'b) prog"
        by (erule tracked_mono) (auto intro: src)
      then show ?thesis using inv_fits [OF inv, of k] other(1) [OF False]
        by (auto simp: node_fits_def split: option.splits code.splits)
    qed (use fits in simp)
    show "\<not> busy w' k" for k using fresh(2) other(5) inv_busy [OF inv] by (cases "k = n") simp_all
    fix k key b assume e': "entry ops w' k key = Some b"
    then have e: "k \<noteq> n" "entry ops w k key = Some b" using en by blast+
    show "k < sb_sink b \<and> sb_sink b < next_id w' \<and> sb_slot b = 0 \<and> code w' (sb_sink b) \<noteq> Some CState"
      using inv_entry [OF inv e(2)] other(1) [OF sink [OF e(2)]] nx n by simp
    show "sb_dirty b = Clean \<Longrightarrow> \<not> active w' (sb_sink b) \<Longrightarrow> \<not> stale w' k"
      using inv_clean [OF inv e(2)] other(3) [OF sink [OF e(2)]] st [OF e(1)] by simp
    show "\<not> stale w' k \<Longrightarrow> sb_dirty b \<noteq> MaybeDirty" using inv_resolved [OF inv e(2)] st [OF e(1)] by simp
  next
    fix j sb assume sb: "src_binder w' j = Some sb" and na: "\<not> active w' j"
    have none: "entry ops w n key = None" for key
    proof (cases "entry ops w n key")
      case (Some b)
      then show ?thesis using entry_source [OF Some] \<open>code w n = None\<close> by (simp add: is_source_code)
    qed
    have "entry ops w' k key = entry ops w k key" for k key
      using other(6) [of k key] fresh(3) none by (cases "k = n") simp_all
    then have bnd: "binds ops w' j bs = binds ops w j bs" for bs by (simp add: binds_def)
    show "binder_ok ops G w' j sb"
    proof (cases "j = n")
      case True
      then have "sb = binder_new n 0" using sb fresh(4) by auto
      moreover have "binds ops w n []" using sink by (auto simp: binds_def)
      ultimately show ?thesis using True bnd by (simp add: binder_ok_def binder_new_def)
    next
      case False
      then have ok: "binder_ok ops G w j sb" using inv_binder [OF inv, of j sb] sb na other by simp
      have bs: "binds ops w j (sbr_sources sb)" using ok by (simp add: binder_ok_def)
      have src_n: "src_node b \<noteq> n" if "b \<in> set (sbr_sources sb)" for b
        using binds_lt(2) [OF inv bs that] \<open>code w n = None\<close> by (auto simp: is_source_code)
      have "flag ops w' b = flag ops w b" if "b \<in> set (sbr_sources sb)" for b
        using other(6) [OF src_n [OF that]] by (simp add: flag_def)
      then show ?thesis
        using ok other(4) [OF False] other(4) [OF src_n [OF nth_mem]] by (simp add: binder_ok_def bnd valid_def)
    qed
  qed
qed

text \<open>What creation needs of the closure: it reads existing sources, each read tracked.\<close>

definition closed_prog :: "('m, 'v, 'z) world_scheme \<Rightarrow> ('v, 'v) prog \<Rightarrow> bool" where
  "closed_prog w p \<longleftrightarrow> tracked (is_source w) p"

lemma closed_fits:
  assumes inv: "graph_inv ops G w" and "closed_prog w p" and "\<And>m. is_source w m \<Longrightarrow> is_source w' m"
  shows "tracked (\<lambda>m. m < next_id w \<and> is_source w' m) p"
proof (rule tracked_mono [OF assms(2) [unfolded closed_prog_def]])
  show "is_source w m \<Longrightarrow> m < next_id w \<and> is_source w' m" for m
    using inv_next [OF inv, of m] assms(3) by (auto simp: is_source_code)
qed


text \<open>The rest of \<open>sys_inv\<close> for a node that has no phase.\<close>

lemma sys_inv_add:
  assumes inv: "sys_inv ops G w" and heap: "heap w' = (heap w)(next_id w \<mapsto> nd)" and nx: "next_id w' = Suc (next_id w)"
    and same: "g_config w' = g_config w" "g_reactions w' = g_reactions w"
    and g: "graph_inv ops G w'" and na: "\<not> active w' (next_id w)"
    and ne: "\<And>f p. code w' (next_id w) \<noteq> Some (CEffect f p)"
  shows "sys_inv ops G w'"
proof -
  have other: "code w' k = code w k" "active w' k = active w k" "stale w' k = stale w k" if "k \<noteq> next_id w" for k
    using that by (simp_all add: view_defs stale_def heap)
  have "active w' k = False" for k
    using na other(2) [of k] sys_quiet [OF inv] by (cases "k = next_id w") (simp_all add: quiet_def)
  moreover have "valid_contains (reaction_phases c) p" if "code w' k = Some (CEffect f p)" "g_config w = Some c" for k f p c
    using that ne other(1) [of k] sys_phases [OF inv] by (cases "k = next_id w") (auto simp: phases_ok_def)
  moreover have "scheduled w' k" if "stale w' k" for k
    using that ne other [of k] sys_scheduled [OF inv, of k] by (cases "k = next_id w") (simp_all add: scheduled_def same)
  ultimately show ?thesis using g sys_bk [OF inv] by (simp add: sys_inv_def quiet_def phases_ok_def same)
qed

lemma state_new_ok:
  assumes laws: "slab_laws ops" and inv: "sys_inv ops G w" and new: "state_new ops v w = (n, w')"
  shows "sys_inv ops G w'" and "n = next_id w" and "code w' = (code w)(n := Some CState)" and "cval w' = (cval w)(n := Some v)"
    and "g_config w' = g_config w" and "next_id w' = Suc n"
proof -
  have n: "n = next_id w" and w': "w' = put_node n (StateNode \<lparr>st_sinks = new_cell (slab_new ops), st_value = v\<rparr>) (w\<lparr>next_id := Suc n\<rparr>)"
    using new by (auto simp: state_new_def)
  have heap: "heap w' = (heap w)(n \<mapsto> StateNode \<lparr>st_sinks = new_cell (slab_new ops), st_value = v\<rparr>)" by (simp add: w')
  show "n = next_id w" by (rule n)
  show c: "code w' = (code w)(n := Some CState)" and "cval w' = (cval w)(n := Some v)"
    by (simp_all add: fun_eq_iff view_defs heap)
  show "g_config w' = g_config w" by (simp add: w' put_node_def)
  show "next_id w' = Suc n" by (simp add: w')
  have g: "graph_inv ops G w'"
    by (rule graph_inv_add [OF sys_graph [OF inv] n heap])
      (simp_all add: w' view_defs node_sinks_def node_fits_def slab_get_new [OF laws])
  show "sys_inv ops G w'"
    by (rule sys_inv_add [OF inv heap [unfolded n] _ _ _ g])
      (use c n in \<open>simp_all add: w' put_node_def active_def\<close>)
qed

lemma scan_new_ok:
  assumes laws: "slab_laws ops" and inv: "sys_inv ops G w" and new: "scan_new ops st s d w = (n, w')"
    and fits: "fits_scan (G n) s" and p: "closed_prog w (G n)"
  shows "sys_inv ops G w'" and "n = next_id w" and "code w' = (code w)(n := Some (CScan s d))" and "g_config w' = g_config w"
    and "next_id w' = Suc n"
proof -
  let ?nd = "ScanNode \<lparr>sn_sinks = new_cell (slab_new ops), sn_data = new_cell \<lparr>sd_state = st, sd_scan = s, sd_sb = binder_new n 0\<rparr>,
            sn_discard = d, sn_scheduled = False\<rparr>"
  have n: "n = next_id w" and w': "w' = put_node n ?nd (w\<lparr>next_id := Suc n\<rparr>)"
    using new by (auto simp: scan_new_def Let_def)
  have heap: "heap w' = (heap w)(n \<mapsto> ?nd)" by (simp add: w')
  show "n = next_id w" by (rule n)
  show c: "code w' = (code w)(n := Some (CScan s d))" by (simp add: fun_eq_iff view_defs heap)
  show "g_config w' = g_config w" by (simp add: w' put_node_def)
  show "next_id w' = Suc n" by (simp add: w')
  have src: "is_source w m \<Longrightarrow> is_source w' m" for m by (auto simp: is_source_code c)
  have "node_fits G w' n"
    using closed_fits [OF sys_graph [OF inv] p src] fits by (simp add: node_fits_def c n fits_scan_def)
  then have g: "graph_inv ops G w'"
    by (rule graph_inv_add [OF sys_graph [OF inv] n heap, rotated -1])
      (simp_all add: w' view_defs node_sinks_def slab_get_new [OF laws])
  show "sys_inv ops G w'"
    by (rule sys_inv_add [OF inv heap [unfolded n] _ _ _ g])
      (use c n in \<open>simp_all add: w' put_node_def active_def\<close>)
qed

lemma effect_new_ok:
  assumes inv: "sys_inv ops G w" and f: "f = (\<lambda>_. prog_map Some (G (next_id w)))" and p: "closed_prog w (G (next_id w))"
    and ph: "\<And>c. g_config w = Some c \<Longrightarrow> valid_contains (reaction_phases c) p"
  obtains w' where "effect_new st f p w = Inr (next_id w, w')" and "sys_inv ops G w'"
    and "code w' = (code w)(next_id w := Some (CEffect f p))" and "cval w' = (cval w)(next_id w := st)"
    and "g_config w' = g_config w" and "next_id w' = Suc (next_id w)"
proof -
  let ?n = "next_id w"
  let ?nd = "EffectNode \<lparr>ef_data = new_cell \<lparr>ed_state = st, ed_f = f, ed_sb = binder_new ?n 0\<rparr>, ef_phase = p\<rparr>"
  define w1 where "w1 = put_node ?n ?nd (w\<lparr>next_id := Suc ?n\<rparr>)"
  have heap1: "heap w1 = (heap w)(?n \<mapsto> ?nd)" and nx1: "next_id w1 = Suc ?n"
    and s1: "g_config w1 = g_config w" "g_reactions w1 = g_reactions w" by (simp_all add: w1_def put_node_def)
  have c1: "code w1 = (code w)(?n := Some (CEffect f p))" and v1: "cval w1 = (cval w)(?n := st)"
    by (simp_all add: fun_eq_iff view_defs heap1)
  have src: "is_source w m \<Longrightarrow> is_source w1 m" for m
    using inv_next [OF sys_graph [OF inv], of m] by (auto simp: is_source_code c1)
  have "node_fits G w1 ?n" using closed_fits [OF sys_graph [OF inv] p src] f by (simp add: node_fits_def c1)
  then have g1: "graph_inv ops G w1"
    by (rule graph_inv_add [OF sys_graph [OF inv] refl heap1 nx1, rotated -1])
      (simp_all add: heap1 view_defs node_sinks_def)
  obtain w' where w': "schedule_reaction p (EffectCall ?n) w1 = Inr w'" "ntf_rest w1 w'" "heap w' = heap w1"
    "bk_queue (g_reactions w') = (bk_queue (g_reactions w1))(sint p := bk_queue (g_reactions w1) (sint p) @ [EffectCall ?n])"
    "bk_inv (g_reactions w1) \<longrightarrow> bk_inv (g_reactions w')"
    using schedule_reaction_ok [of w1 p "EffectCall ?n"] ph by (metis s1(1))
  note vh = view_heap_cong [OF w'(3)]
  have g: "graph_inv ops G w'" by (rule graph_inv_heap [OF w'(3) _ g1]) (rule ntf_rest_fields(1) [OF w'(2)])
  have other: "code w' k = code w k" "active w' k = active w k" "stale w' k = stale w k" if "k \<noteq> ?n" for k
    using that by (simp_all add: vh c1) (simp_all add: view_defs stale_def heap1)
  have "active w' k = False" for k
    using other(2) [of k] sys_quiet [OF inv] by (cases "k = ?n") (simp_all add: quiet_def vh, simp add: active_def heap1)
  moreover have cfg: "g_config w' = g_config w" using ntf_rest_fields(2) [OF w'(2)] s1(1) by simp
  moreover have "valid_contains (reaction_phases c) p'" if "code w' k = Some (CEffect f' p')" "g_config w = Some c" for k f' p' c
    using that ph other(1) [of k] sys_phases [OF inv] by (cases "k = ?n") (auto simp: phases_ok_def vh c1)
  moreover have "scheduled w' k" if "stale w' k" for k
    using that other [of k] sys_scheduled [OF inv, of k] by (cases "k = ?n") (auto simp: scheduled_def vh c1 w'(4) s1)
  ultimately have "sys_inv ops G w'" using g w'(5) sys_bk [OF inv] s1(2) by (simp add: sys_inv_def quiet_def phases_ok_def)
  moreover have "effect_new st f p w = Inr (?n, w')" using w'(1) by (simp add: effect_new_def Let_def w1_def)
  ultimately show ?thesis
    using that [of w'] c1 v1 cfg ntf_rest_fields(1) [OF w'(2)] nx1 by (simp add: vh)
qed

lemma sys_inv_empty:
  assumes "heap w = (\<lambda>_. None)" and "bk_inv (g_reactions w)"
  shows "sys_inv ops G w"
proof -
  have "graph_inv ops G w" by (rule graph_invI) (simp_all add: assms view_defs node_fits_def)
  then show ?thesis using assms by (simp add: sys_inv_def quiet_def phases_ok_def stale_def view_defs)
qed

lemma sys_inv_init: "sys_inv ops G (world_init c)"
  by (rule sys_inv_empty) (simp_all add: world_init_def bk_new_inv)

subsection \<open>Reads and runs keep the system invariant\<close>

lemma sys_inv_upd:
  assumes inv: "sys_inv ops G w" and g: "graph_inv ops G w'" and f: "upd_frame ops a c w w'"
  shows "sys_inv ops G w'"
proof -
  note r = rest_same_fields [OF frame_rest [OF f]]
  have "scheduled w' k" if "stale w' k" for k
    using that frame_stale [OF f] sys_scheduled [OF inv] by (auto simp: scheduled_def r frame_code [OF f])
  then show ?thesis
    using g upd_frame_quiet [OF f] sys_quiet [OF inv] sys_phases [OF inv] sys_bk [OF inv]
    by (simp add: sys_inv_def phases_ok_def r frame_code [OF f])
qed

lemma called_fields:
  assumes "called n w w'"
  shows "g_reactions w' = g_reactions w" "g_config w' = g_config w" "next_id w' = next_id w" "g_unbinds w' = g_unbinds w"
    "g_notifys w' = g_notifys w" "code w' = code w" "active w' = active w" "\<not> stale w' n" "\<And>k. stale w' k \<Longrightarrow> stale w k"
    "\<And>k. k \<noteq> n \<Longrightarrow> \<not> stale w k \<Longrightarrow> cval w' k = cval w k"
proof -
  note c = assms [unfolded called_def]
  note a = c [THEN conjunct1]
  show "g_reactions w' = g_reactions w" using arg_cong [OF a, of g_reactions] by simp
  show "g_config w' = g_config w" using arg_cong [OF a, of g_config] by simp
  show "next_id w' = next_id w" using arg_cong [OF a, of next_id] by simp
  show "g_unbinds w' = g_unbinds w" using arg_cong [OF a, of g_unbinds] by simp
  show "g_notifys w' = g_notifys w" using arg_cong [OF a, of g_notifys] by simp
qed (use assms in \<open>auto simp: called_def\<close>)

lemma called_sem:
  assumes c: "called n w w'" and n: "code w n \<noteq> Some CState"
  shows "sem G w' = sem G w"
proof (rule sem_cong)
  show "code w' = code w" by (rule called_fields(6) [OF c])
  show "cval w' k = cval w k" if "code w k = Some CState" for k
    using called_fields(10) [OF c, of k] state_not_stale [OF that] n that by auto
qed

end
