(* ===== verification/Signal_Algebra.thy ===== *)
theory Signal_Algebra
  imports Graph_Lifecycle
begin

section \<open>Signals as values (signal/signal\_t.rs)\<close>

text \<open>
  A \<open>Signal\<close> is a static reference or a reference-counted node. Besides the nodes of the graph there are nodes that are not in it: a \<open>ConstantNode\<close>,
  which holds its value, and a \<open>FromBorrowNode\<close>, whose closure reads other signals with the context of its reader. Those are named by the address of
  their allocation. What a reader of a signal does is a closure of the graph, \<open>signal_borrow\<close>.
\<close>

type_synonym addr = nat

datatype 'v signal =
    StaticRef addr 'v
  | ConstantSignal addr 'v
  | BorrowSignal addr "('v, 'v) prog"
  | GraphSignal nid

primrec signal_borrow :: "'v signal \<Rightarrow> ('v, 'v) prog" where
  "signal_borrow (StaticRef a v) = Return v"
| "signal_borrow (ConstantSignal a v) = Return v"
| "signal_borrow (BorrowSignal a p) = p"
| "signal_borrow (GraphSignal n) = Read n Return"

primrec try_borrow_constant :: "'v signal \<Rightarrow> 'v option" where
  "try_borrow_constant (StaticRef a v) = Some v"
| "try_borrow_constant (ConstantSignal a v) = Some v"
| "try_borrow_constant (BorrowSignal a p) = None"
| "try_borrow_constant (GraphSignal n) = None"

fun signal_ptr_eq :: "'v signal \<Rightarrow> 'v signal \<Rightarrow> bool" where
  "signal_ptr_eq (StaticRef a v) (StaticRef b u) = (a = b)"
| "signal_ptr_eq (ConstantSignal a v) (ConstantSignal b u) = (a = b)"
| "signal_ptr_eq (BorrowSignal a p) (BorrowSignal b q) = (a = b)"
| "signal_ptr_eq (GraphSignal m) (GraphSignal n) = (m = n)"
| "signal_ptr_eq _ _ = False"

definition from_value_map :: "addr \<Rightarrow> 'u \<Rightarrow> ('u \<Rightarrow> 'v) \<Rightarrow> 'v signal" where
  "from_value_map a value f = ConstantSignal a (f value)"

definition from_value :: "addr \<Rightarrow> 'v \<Rightarrow> 'v signal" where
  "from_value a value = from_value_map a value (\<lambda>x. x)"

definition from_borrow :: "addr \<Rightarrow> ('v, 'v) prog \<Rightarrow> 'v signal" where
  "from_borrow a p = BorrowSignal a p"

definition signal_map :: "addr \<Rightarrow> 'v signal \<Rightarrow> ('v \<Rightarrow> 'v) \<Rightarrow> 'v signal" where
  "signal_map a s f = from_borrow a (prog_map f (signal_borrow s))"

text \<open>\<open>Signal::dedup\<close>: \<open>from_scan_filter(None, ..).map(..).build()\<close>, which keeps its cache.\<close>

definition signal_dedup :: "('m, sink_binding) slab_ops \<Rightarrow> 'v signal \<Rightarrow> ('m, 'v, 'z) world_scheme \<Rightarrow> 'v signal \<times> ('m, 'v, 'z) world_scheme" where
  "signal_dedup ops s w =
     (let (n, w1) = scan_new ops None (ScanFnBool (\<lambda>st. prog_map (\<lambda>v.
          case st of Some old \<Rightarrow> if old = v then (st, False) else (Some v, True) | None \<Rightarrow> (Some v, True)) (signal_borrow s))) DiscardFnKeep w
      in (GraphSignal n, w1))"

subsection \<open>Boolean signals\<close>

primrec prog_bind :: "('v, 'a) prog \<Rightarrow> ('a \<Rightarrow> ('v, 'b) prog) \<Rightarrow> ('v, 'b) prog" where
  "prog_bind (Return x) f = f x"
| "prog_bind (Read n k) f = Read n (\<lambda>v. prog_bind (k v) f)"
| "prog_bind (ReadUntracked n k) f = ReadUntracked n (\<lambda>v. prog_bind (k v) f)"
| "prog_bind Fail f = Fail"

definition signal_true :: "bool signal" where "signal_true = StaticRef 0 True"
definition signal_false :: "bool signal" where "signal_false = StaticRef 1 False"

text \<open>\<open>self.get(sc) || rhs.get(sc)\<close> and \<open>self.get(sc) && rhs.get(sc)\<close>, with the lazy operators of Rust.\<close>

definition or_prog :: "bool signal \<Rightarrow> bool signal \<Rightarrow> (bool, bool) prog" where
  "or_prog l r = prog_bind (signal_borrow l) (\<lambda>a. if a then Return True else signal_borrow r)"

definition and_prog :: "bool signal \<Rightarrow> bool signal \<Rightarrow> (bool, bool) prog" where
  "and_prog l r = prog_bind (signal_borrow l) (\<lambda>a. if a then signal_borrow r else Return False)"

definition new_bool_signal :: "('m, sink_binding) slab_ops \<Rightarrow> (bool, bool) prog \<Rightarrow> ('m, bool, 'z) world_scheme \<Rightarrow> bool signal \<times> ('m, bool, 'z) world_scheme" where
  "new_bool_signal ops p w = (let (n, w1) = signal_new_dedup ops p w in (GraphSignal n, w1))"

definition signal_bitor ::
    "('m, sink_binding) slab_ops \<Rightarrow> bool signal \<Rightarrow> bool signal \<Rightarrow> ('m, bool, 'z) world_scheme \<Rightarrow> bool signal \<times> ('m, bool, 'z) world_scheme" where
  "signal_bitor ops l r w =
     (if try_borrow_constant l = Some True \<or> try_borrow_constant r = Some True then (signal_true, w)
      else case (try_borrow_constant l, try_borrow_constant r) of
          (Some _, Some _) \<Rightarrow> (signal_false, w)
        | (Some _, None) \<Rightarrow> (r, w)
        | (None, Some _) \<Rightarrow> (l, w)
        | (None, None) \<Rightarrow> new_bool_signal ops (or_prog l r) w)"

definition signal_bitand ::
    "('m, sink_binding) slab_ops \<Rightarrow> bool signal \<Rightarrow> bool signal \<Rightarrow> ('m, bool, 'z) world_scheme \<Rightarrow> bool signal \<times> ('m, bool, 'z) world_scheme" where
  "signal_bitand ops l r w =
     (if try_borrow_constant l = Some False \<or> try_borrow_constant r = Some False then (signal_false, w)
      else case (try_borrow_constant l, try_borrow_constant r) of
          (Some _, Some _) \<Rightarrow> (signal_true, w)
        | (Some _, None) \<Rightarrow> (r, w)
        | (None, Some _) \<Rightarrow> (l, w)
        | (None, None) \<Rightarrow> new_bool_signal ops (and_prog l r) w)"

subsection \<open>Values\<close>

text \<open>The value of a signal by the reference semantics of the graph.\<close>

definition sig_value :: "(nid \<Rightarrow> ('v, 'v) prog) \<Rightarrow> ('m, 'v, 'z) world_scheme \<Rightarrow> 'v signal \<Rightarrow> 'v option" where
  "sig_value G w s = eval_prog (sem G w) (signal_borrow s)"

definition sig_ok :: "('m, 'v, 'z) world_scheme \<Rightarrow> 'v signal \<Rightarrow> bool" where
  "sig_ok w s \<longleftrightarrow> closed_prog w (signal_borrow s)"

lemma eval_prog_bind: "eval_prog env (prog_bind p f) = Option.bind (eval_prog env p) (\<lambda>x. eval_prog env (f x))"
  by (induction p) (auto split: option.split)

lemma tracked_prog_bind: "tracked P p \<Longrightarrow> (\<And>x. tracked P (f x)) \<Longrightarrow> tracked P (prog_bind p f)"
  by (induction p) auto

lemma eval_prog_cong: "tracked P p \<Longrightarrow> (\<And>m. P m \<Longrightarrow> env m = env' m) \<Longrightarrow> eval_prog env p = eval_prog env' p"
  by (induction p) (auto split: option.split)

lemma eval_prog_total: "tracked P p \<Longrightarrow> (\<And>m. P m \<Longrightarrow> env m \<noteq> None) \<Longrightarrow> \<exists>v. eval_prog env p = Some v"
proof (induction p)
  case (Read m k)
  then obtain v where "env m = Some v" by fastforce
  then show ?case using Read by simp
qed simp_all

lemma source_has_value:
  assumes "slab_laws ops" and inv: "sys_inv ops G w" and src: "is_source w n"
  shows "sem G w n \<noteq> None"
  using signal_get_ok [OF assms(1) sys_graph [OF inv] sys_quiet [OF inv] src] by force

lemma sig_has_value: "slab_laws ops \<Longrightarrow> sys_inv ops G w \<Longrightarrow> sig_ok w s \<Longrightarrow> \<exists>v. sig_value G w s = Some v"
  unfolding sig_value_def sig_ok_def closed_prog_def by (rule eval_prog_total [of "is_source w"]) (auto dest: source_has_value)

lemma constant_value: "try_borrow_constant s = Some v \<Longrightarrow> sig_value G w s = Some v \<and> sig_ok w s"
  by (cases s) (simp_all add: sig_value_def sig_ok_def closed_prog_def)

text \<open>A new node leaves the others alone and means its closure.\<close>

lemma sem_env_upto:
  assumes "\<And>k. k < n \<Longrightarrow> code w' k = code w k" and "\<And>k. k < n \<Longrightarrow> code w k = Some CState \<Longrightarrow> cval w' k = cval w k"
  shows "m \<le> n \<Longrightarrow> sem_env G w' m = sem_env G w m"
proof (induction m)
  case (Suc m)
  then show ?case using assms [of m] by (auto split: option.splits code.splits)
qed simp

lemma scan_new_value:
  assumes laws: "slab_laws ops" and inv: "sys_inv ops G w" and new: "scan_new ops st s d w = (n, w')"
    and fits: "fits_scan (G n) s" and p: "closed_prog w (G n)"
  shows "sys_inv ops G w'" and "sig_ok w' (GraphSignal n)" and "sig_value G w' (GraphSignal n) = eval_prog (sem G w) (G n)"
    and "\<And>s'. sig_ok w s' \<Longrightarrow> sig_ok w' s' \<and> sig_value G w' s' = sig_value G w s'"
proof -
  note ok = scan_new_ok [OF laws inv new fits p]
  have heap: "heap w' k = heap w k" if "k \<noteq> n" for k using new that by (auto simp: scan_new_def Let_def put_node_def)
  have cd: "code w' k = code w k" "cval w' k = cval w k" if "k \<noteq> n" for k using heap [OF that] by (simp_all add: view_defs)
  have lt: "m < n" if "is_source w m" for m
    using that bindsD is_source_code [of w m] sys_graph [OF inv] ok(2) by (auto simp: graph_inv_def)
  have env: "m \<le> n \<Longrightarrow> sem_env G w' m = sem_env G w m" for m by (rule sem_env_upto) (simp_all add: cd)
  have old: "sem G w' m = sem G w m" if "is_source w m" for m
    using env [of "Suc m"] lt [OF that] by (simp add: sem_def del: sem_env.simps)
  show "sys_inv ops G w'" by (rule ok(1))
  show "sig_ok w' (GraphSignal n)" by (simp add: sig_ok_def closed_prog_def is_source_code ok(3))
  have "sem G w' n = eval_prog (sem_env G w n) (G n)" using sem_eval [of w' n "CScan s d" G] env [of n] ok(3) by simp
  also have "\<dots> = eval_prog (sem G w) (G n)"
    by (rule eval_prog_cong [OF p [unfolded closed_prog_def]]) (simp add: sem_env_below lt)
  finally show "sig_value G w' (GraphSignal n) = eval_prog (sem G w) (G n)" by (simp add: sig_value_def split: option.split)
  fix s' assume s': "sig_ok w s'"
  have src: "is_source w m \<Longrightarrow> is_source w' m" for m by (auto simp: is_source_code ok(3))
  show "sig_ok w' s' \<and> sig_value G w' s' = sig_value G w s'"
    using s' eval_prog_cong [of "is_source w" "signal_borrow s'" "sem G w'" "sem G w"] old tracked_mono [OF _ src]
    by (simp add: sig_ok_def sig_value_def closed_prog_def)
qed

lemma new_bool_signal_value:
  assumes laws: "slab_laws ops" and inv: "sys_inv ops G w" and new: "new_bool_signal ops p w = (s, w')" and p: "closed_prog w p" and G: "G (next_id w) = p"
  shows "sys_inv ops G w' \<and> sig_ok w' s \<and> sig_value G w' s = eval_prog (sem G w) p"
proof -
  obtain n where n: "scan_new ops None (get_fn_get_dedup p) discard_take w = (n, w')" "s = GraphSignal n"
    using new by (auto simp: new_bool_signal_def signal_new_dedup_def split: prod.splits)
  have "n = next_id w" using n(1) by (simp add: scan_new_def Let_def)
  then have "fits_scan (G n) (get_fn_get_dedup p)" "closed_prog w (G n)" "G n = p" using p G by (simp_all add: fits_scan_def)
  from scan_new_value [OF laws inv n(1) this(1,2)] this(3) show ?thesis by (simp add: n(2))
qed

lemma bool_progs:
  assumes "sig_ok w l" and "sig_ok w r"
  shows "closed_prog w (or_prog l r)" and "closed_prog w (and_prog l r)"
    and "eval_prog (sem G w) (or_prog l r) = Option.bind (sig_value G w l) (\<lambda>a. if a then Some True else sig_value G w r)"
    and "eval_prog (sem G w) (and_prog l r) = Option.bind (sig_value G w l) (\<lambda>a. if a then sig_value G w r else Some False)"
  using assms
  by (auto simp: or_prog_def and_prog_def closed_prog_def sig_ok_def sig_value_def eval_prog_bind if_distrib [of "eval_prog _"] cong: if_cong
      intro!: tracked_prog_bind)

definition simplified :: "bool signal \<Rightarrow> bool signal \<Rightarrow> bool signal \<Rightarrow> ('m, bool, 'z) world_scheme \<Rightarrow> ('m, bool, 'z) world_scheme \<Rightarrow> bool" where
  "simplified l r s w w' \<longleftrightarrow> (if try_borrow_constant l = None \<and> try_borrow_constant r = None then True else w' = w \<and> s \<in> {signal_true, signal_false, l, r})"

lemma constant_signals:
  "sig_value G w signal_true = Some True" "sig_value G w signal_false = Some False" "sig_ok w signal_true" "sig_ok w signal_false"
  by (simp_all add: sig_value_def sig_ok_def closed_prog_def signal_true_def signal_false_def)

lemma bitor_value:
  assumes laws: "slab_laws ops" and inv: "sys_inv ops G w" and ok: "sig_ok w l" "sig_ok w r" and meaning: "G (next_id w) = or_prog l r"
    and v: "sig_value G w l = Some a" "sig_value G w r = Some b" and run: "signal_bitor ops l r w = (s, w')"
  shows "sys_inv ops G w' \<and> sig_ok w' s \<and> sig_value G w' s = Some (a \<or> b) \<and> simplified l r s w w'"
proof (cases "try_borrow_constant l = None \<and> try_borrow_constant r = None")
  case True
  then have "new_bool_signal ops (or_prog l r) w = (s, w')" using run by (simp add: signal_bitor_def)
  then show ?thesis
    using new_bool_signal_value [OF laws inv _ bool_progs(1) [OF ok] meaning] bool_progs(3) [OF ok, of G] v True by (simp add: simplified_def)
next
  case False
  have c: "try_borrow_constant l = Some x \<Longrightarrow> a = x" "try_borrow_constant r = Some x \<Longrightarrow> b = x" for x
    by (use v(1) constant_value [where G = G and w = w] in simp) (use v(2) constant_value [where G = G and w = w] in simp)
  show ?thesis using run False inv ok v c constant_signals(1,2) [of G w] constant_signals(3,4) [of w]
    by (cases "try_borrow_constant l"; cases "try_borrow_constant r") (auto simp: signal_bitor_def simplified_def split: if_splits)
qed

lemma bitand_value:
  assumes laws: "slab_laws ops" and inv: "sys_inv ops G w" and ok: "sig_ok w l" "sig_ok w r" and meaning: "G (next_id w) = and_prog l r"
    and v: "sig_value G w l = Some a" "sig_value G w r = Some b" and run: "signal_bitand ops l r w = (s, w')"
  shows "sys_inv ops G w' \<and> sig_ok w' s \<and> sig_value G w' s = Some (a \<and> b) \<and> simplified l r s w w'"
proof (cases "try_borrow_constant l = None \<and> try_borrow_constant r = None")
  case True
  then have "new_bool_signal ops (and_prog l r) w = (s, w')" using run by (simp add: signal_bitand_def)
  then show ?thesis
    using new_bool_signal_value [OF laws inv _ bool_progs(2) [OF ok] meaning] bool_progs(4) [OF ok, of G] v True by (simp add: simplified_def)
next
  case False
  have c: "try_borrow_constant l = Some x \<Longrightarrow> a = x" "try_borrow_constant r = Some x \<Longrightarrow> b = x" for x
    by (use v(1) constant_value [where G = G and w = w] in simp) (use v(2) constant_value [where G = G and w = w] in simp)
  show ?thesis using run False inv ok v c constant_signals(1,2) [of G w] constant_signals(3,4) [of w]
    by (cases "try_borrow_constant l"; cases "try_borrow_constant r") (auto simp: signal_bitand_def simplified_def split: if_splits)
qed

text \<open>
  C36. The operators on boolean signals simplify without changing the value. For any two signals, \<open>l | r\<close> and \<open>l & r\<close> have the disjunction and the conjunction of
  their values, whichever simplification was taken, and the graph stays sound; and when one of them is known to be constant, no node is created: the
  result is a constant or the other operand itself.
\<close>

theorem bool_operators_simplify:
  assumes laws: "slab_laws ops" and inv: "sys_inv ops G w" "sys_inv ops G' w" and ok: "sig_ok w l" "sig_ok w r"
    and meaning: "G (next_id w) = or_prog l r" "G' (next_id w) = and_prog l r"
  shows "\<exists>a b a' b'. sig_value G w l = Some a \<and> sig_value G w r = Some b \<and> sig_value G' w l = Some a' \<and> sig_value G' w r = Some b'
    \<and> (case signal_bitor ops l r w of (s, w') \<Rightarrow>
          sys_inv ops G w' \<and> sig_ok w' s \<and> sig_value G w' s = Some (a \<or> b) \<and> simplified l r s w w')
    \<and> (case signal_bitand ops l r w of (s, w') \<Rightarrow>
          sys_inv ops G' w' \<and> sig_ok w' s \<and> sig_value G' w' s = Some (a' \<and> b') \<and> simplified l r s w w')"
proof -
  obtain a b a' b' where v: "sig_value G w l = Some a" "sig_value G w r = Some b" "sig_value G' w l = Some a'" "sig_value G' w r = Some b'"
    using sig_has_value [OF laws inv(1) ok(1)] sig_has_value [OF laws inv(1) ok(2)] sig_has_value [OF laws inv(2) ok(1)] sig_has_value [OF laws inv(2) ok(2)] by auto
  obtain s w' where o: "signal_bitor ops l r w = (s, w')" by fastforce
  obtain s2 w2 where n: "signal_bitand ops l r w = (s2, w2)" by fastforce
  show ?thesis
    unfolding o n prod.case
    by (rule exI [of _ a], rule exI [of _ b], rule exI [of _ a'], rule exI [of _ b'], intro conjI v)
      (use bitor_value [OF laws inv(1) ok meaning(1) v(1,2) o] bitand_value [OF laws inv(2) ok meaning(2) v(3,4) n] in blast)+
qed

definition ex_bool_world :: "(sink_binding option list, bool) world" where
  "ex_bool_world = snd (state_new vec_slab True (world_init (Some config_default)))"

theorem bool_operators_simplify_witness:
  "\<exists>G. sig_value G ex_bool_world (GraphSignal 0) = Some True
     \<and> (case signal_bitor vec_slab (GraphSignal 0) (BorrowSignal 5 (Return False)) ex_bool_world of (s, w') \<Rightarrow> sig_value G w' s = Some True)"
proof -
  let ?l = "GraphSignal 0 :: bool signal" and ?r = "BorrowSignal 5 (Return False) :: bool signal"
  have new: "state_new vec_slab True (world_init (Some config_default)) = (0, ex_bool_world)"
    by (simp add: ex_bool_world_def state_new_def world_init_def)
  note ok = state_new_ok [OF vec_slab_laws sys_inv_init new]
  have n: "next_id ex_bool_world = 1" by (simp add: ex_bool_world_def state_new_def world_init_def)
  have sig: "sig_ok ex_bool_world ?l" "sig_ok ex_bool_world ?r"
    using ok(3) by (simp_all add: sig_ok_def closed_prog_def is_source_code)
  have l: "sig_value G ex_bool_world ?l = Some True" for G
    using ok(3) by (simp add: sig_value_def sem_state ex_bool_world_def state_new_def world_init_def view_defs put_node_def)
  from bool_operators_simplify [OF vec_slab_laws ok(1) ok(1) sig, where G = "\<lambda>_. or_prog ?l ?r" and G' = "\<lambda>_. and_prog ?l ?r"] l
  show ?thesis by (auto split: prod.splits intro!: exI [of _ "\<lambda>_. or_prog ?l ?r"])
qed

end
