(* ===== verification/Signal_Builder.thy ===== *)
theory Signal_Builder
  imports Signal_Algebra
begin

section \<open>Building signals (signal/builder.rs, signal/builder/get.rs, signal/builder/scan.rs)\<close>

text \<open>
  A \<open>SignalBuilder\<close> collects what a scan node is made of: the initial state, the scan, what happens to the state on a discard, and a map from the state to the value
  that readers get. The map may read signals itself, with the context of the reader. The value of a state cell that a \<open>get\<close> builder
  made is the content of an \<open>Option\<close>, as in the graph; taking it out (\<open>st.as_ref().unwrap()\<close>) is part of reading the node there.
\<close>

subsection \<open>Scan builders\<close>

record 'v scan_builder =
  bu_state :: "'v option"
  bu_scan :: "'v scan_fn"
  bu_discard :: "'v discard_fn"
  bu_map :: "'v \<Rightarrow> ('v, 'v) prog"

definition map_none :: "'v \<Rightarrow> ('v, 'v) prog" where
  "map_none v = Return v"

definition map_apply_raw :: "('v \<Rightarrow> ('v, 'v) prog) \<Rightarrow> ('v \<Rightarrow> ('v, 'v) prog) \<Rightarrow> 'v \<Rightarrow> ('v, 'v) prog" where
  "map_apply_raw m f v = prog_bind (m v) f"

definition new_scan_builder :: "'v option \<Rightarrow> 'v scan_fn \<Rightarrow> 'v scan_builder" where
  "new_scan_builder st scan = \<lparr>bu_state = st, bu_scan = scan, bu_discard = DiscardFnKeep, bu_map = map_none\<rparr>"

definition scan_on_discard :: "('v option \<Rightarrow> 'v option) \<Rightarrow> 'v scan_builder \<Rightarrow> 'v scan_builder" where
  "scan_on_discard f b = \<lparr>bu_state = bu_state b, bu_scan = bu_scan b, bu_discard = DiscardFnVoid f, bu_map = bu_map b\<rparr>"

definition scan_keep :: "'v scan_builder \<Rightarrow> 'v scan_builder" where
  "scan_keep b = \<lparr>bu_state = bu_state b, bu_scan = bu_scan b, bu_discard = DiscardFnKeep, bu_map = bu_map b\<rparr>"

definition scan_map_raw :: "('v \<Rightarrow> ('v, 'v) prog) \<Rightarrow> 'v scan_builder \<Rightarrow> 'v scan_builder" where
  "scan_map_raw f b = \<lparr>bu_state = bu_state b, bu_scan = bu_scan b, bu_discard = bu_discard b, bu_map = map_apply_raw (bu_map b) f\<rparr>"

text \<open>The signal that is built is the node with the map that its \<open>borrow\<close> applies.\<close>

record 'v built_signal =
  bs_node :: nid
  bs_map :: "'v \<Rightarrow> ('v, 'v) prog"

definition scan_build ::
    "('m, sink_binding) slab_ops \<Rightarrow> 'v scan_builder \<Rightarrow> ('m, 'v, 'z) world_scheme \<Rightarrow> 'v built_signal \<times> ('m, 'v, 'z) world_scheme" where
  "scan_build ops b w = (let (n, w1) = scan_new ops (bu_state b) (bu_scan b) (bu_discard b) w in (\<lparr>bs_node = n, bs_map = bu_map b\<rparr>, w1))"

definition built_borrow :: "'v built_signal \<Rightarrow> ('v, 'v) prog" where
  "built_borrow s = Read (bs_node s) (bs_map s)"

subsection \<open>Get builders\<close>

datatype 'v get_fn = GetFnGet "('v, 'v) prog" | GetFnGetDedup "('v, 'v) prog"

definition into_scan_build :: "'v get_fn \<Rightarrow> 'v scan_builder" where
  "into_scan_build g = new_scan_builder None (case g of GetFnGet get \<Rightarrow> get_fn_get get | GetFnGetDedup get \<Rightarrow> get_fn_get_dedup get)"

definition into_build :: "'v get_fn \<Rightarrow> 'v scan_builder" where
  "into_build g = scan_on_discard (\<lambda>_. None) (into_scan_build g)"

definition get_builder :: "('v, 'v) prog \<Rightarrow> 'v get_fn" where
  "get_builder get = GetFnGet get"

primrec get_dedup :: "'v get_fn \<Rightarrow> 'v get_fn" where
  "get_dedup (GetFnGet get) = GetFnGetDedup get"
| "get_dedup (GetFnGetDedup get) = GetFnGetDedup get"

text \<open>
  The closure of \<open>on_discard_value\<close> gets the value that is thrown away, that of \<open>on_discard\<close> may change it before. Both leave \<open>None\<close>; they have no context,
  so that nothing else of the graph depends on them.
\<close>

definition get_on_discard_value :: "'v get_fn \<Rightarrow> 'v scan_builder" where
  "get_on_discard_value g = scan_on_discard (\<lambda>_. None) (into_scan_build g)"

definition get_on_discard :: "('v \<Rightarrow> 'v) \<Rightarrow> 'v get_fn \<Rightarrow> 'v scan_builder" where
  "get_on_discard f g = scan_on_discard (\<lambda>st. let st1 = map_option f st in None) (into_scan_build g)"

definition get_keep :: "'v get_fn \<Rightarrow> 'v scan_builder" where
  "get_keep g = scan_keep (into_scan_build g)"

definition get_map_raw :: "('v \<Rightarrow> ('v, 'v) prog) \<Rightarrow> 'v get_fn \<Rightarrow> 'v scan_builder" where
  "get_map_raw f g = scan_map_raw f (into_build g)"

definition get_build ::
    "('m, sink_binding) slab_ops \<Rightarrow> 'v get_fn \<Rightarrow> ('m, 'v, 'z) world_scheme \<Rightarrow> 'v built_signal \<times> ('m, 'v, 'z) world_scheme" where
  "get_build ops g w = scan_build ops (into_build g) w"

subsection \<open>SignalBuilder\<close>

definition sb_new :: "('v, 'v) prog \<Rightarrow> 'v get_fn" where
  "sb_new f = get_builder f"

definition sb_from_scan :: "'v \<Rightarrow> ('v option \<Rightarrow> ('v, 'v option) prog) \<Rightarrow> 'v scan_builder" where
  "sb_from_scan st f = new_scan_builder (Some st) (ScanFnVoid f)"

definition sb_from_scan_filter :: "'v \<Rightarrow> ('v option \<Rightarrow> ('v, 'v option \<times> bool) prog) \<Rightarrow> 'v scan_builder" where
  "sb_from_scan_filter st f = new_scan_builder (Some st) (ScanFnBool f)"

definition sb_map :: "('v \<Rightarrow> 'v) \<Rightarrow> 'v scan_builder \<Rightarrow> 'v scan_builder" where
  "sb_map f b = scan_map_raw (\<lambda>st. Return (f st)) b"

definition sb_map_value :: "('v \<Rightarrow> 'v) \<Rightarrow> 'v scan_builder \<Rightarrow> 'v scan_builder" where
  "sb_map_value f b = scan_map_raw (\<lambda>st. Return (f st)) b"

definition sb_flat_map :: "('v \<Rightarrow> 'v signal) \<Rightarrow> 'v scan_builder \<Rightarrow> 'v scan_builder" where
  "sb_flat_map f b = scan_map_raw (\<lambda>st. signal_borrow (f st)) b"

subsection \<open>What is built\<close>

text \<open>What code does with a builder before it builds; \<open>get_prog\<close> is the closure given to \<open>new\<close>.\<close>

datatype 'v build_step =
    BuildOnDiscard "'v option \<Rightarrow> 'v option"
  | BuildKeep
  | BuildMap "'v \<Rightarrow> 'v"
  | BuildMapValue "'v \<Rightarrow> 'v"
  | BuildFlatMap "'v \<Rightarrow> 'v signal"

primrec do_build_step :: "'v build_step \<Rightarrow> 'v scan_builder \<Rightarrow> 'v scan_builder" where
  "do_build_step (BuildOnDiscard f) b = scan_on_discard f b"
| "do_build_step BuildKeep b = scan_keep b"
| "do_build_step (BuildMap f) b = sb_map f b"
| "do_build_step (BuildMapValue f) b = sb_map_value f b"
| "do_build_step (BuildFlatMap f) b = sb_flat_map f b"

primrec get_prog :: "'v get_fn \<Rightarrow> ('v, 'v) prog" where
  "get_prog (GetFnGet p) = p"
| "get_prog (GetFnGetDedup p) = p"

text \<open>The value of the steps, on the values of the signals.\<close>

primrec step_value :: "('v signal \<Rightarrow> 'v option) \<Rightarrow> 'v build_step \<Rightarrow> 'v \<Rightarrow> 'v option" where
  "step_value val (BuildOnDiscard f) v = Some v"
| "step_value val BuildKeep v = Some v"
| "step_value val (BuildMap f) v = Some (f v)"
| "step_value val (BuildMapValue f) v = Some (f v)"
| "step_value val (BuildFlatMap f) v = val (f v)"

definition step_ok :: "('m, 'v, 'z) world_scheme \<Rightarrow> 'v build_step \<Rightarrow> bool" where
  "step_ok w s = (case s of BuildFlatMap f \<Rightarrow> \<forall>v. sig_ok w (f v) | _ \<Rightarrow> True)"

lemmas builder_defs =
  new_scan_builder_def scan_on_discard_def scan_keep_def scan_map_raw_def sb_map_def sb_map_value_def sb_flat_map_def map_none_def map_apply_raw_def

lemma build_step_fields [simp]: "bu_state (do_build_step s b) = bu_state b" "bu_scan (do_build_step s b) = bu_scan b"
  by (cases s; simp add: builder_defs)+

lemma build_step_map:
  "eval_prog env (bu_map (do_build_step s b) v)
     = Option.bind (eval_prog env (bu_map b v)) (step_value (\<lambda>x. eval_prog env (signal_borrow x)) s)"
  by (cases s; cases "eval_prog env (bu_map b v)") (simp_all add: builder_defs eval_prog_bind)

lemma build_step_closed: "step_ok w s \<Longrightarrow> (\<And>v. closed_prog w (bu_map b v)) \<Longrightarrow> closed_prog w (bu_map (do_build_step s b) v)"
  by (cases s) (auto simp: builder_defs closed_prog_def step_ok_def sig_ok_def intro: tracked_prog_bind)

lemma build_steps_fields: "bu_state (fold do_build_step xs b) = bu_state b" "bu_scan (fold do_build_step xs b) = bu_scan b"
  by (induction xs arbitrary: b) auto

lemma build_steps_map:
  "eval_prog env (bu_map (fold do_build_step xs b) v)
     = fold (\<lambda>s r. Option.bind r (step_value (\<lambda>x. eval_prog env (signal_borrow x)) s)) xs (eval_prog env (bu_map b v))"
  by (induction xs arbitrary: b) (simp_all add: build_step_map)

lemma build_steps_closed:
  "list_all (step_ok w) xs \<Longrightarrow> (\<And>v. closed_prog w (bu_map b v)) \<Longrightarrow> closed_prog w (bu_map (fold do_build_step xs b) v)"
  by (induction xs arbitrary: b) (simp_all add: build_step_closed)

definition steps_value :: "('v signal \<Rightarrow> 'v option) \<Rightarrow> 'v build_step list \<Rightarrow> 'v \<Rightarrow> 'v option" where
  "steps_value val xs v = fold (\<lambda>s r. Option.bind r (step_value val s)) xs (Some v)"

lemma steps_value_cong:
  assumes "list_all (step_ok w) xs" and "\<And>s. sig_ok w s \<Longrightarrow> val s = val' s"
  shows "fold (\<lambda>s r. Option.bind r (step_value val s)) xs r = fold (\<lambda>s r. Option.bind r (step_value val' s)) xs r"
  using assms(1)
proof (induction xs arbitrary: r)
  case (Cons s xs)
  have "step_value val s = step_value val' s" using Cons.prems assms(2) by (cases s) (auto simp: step_ok_def)
  then show ?case using Cons by simp
qed simp

text \<open>
  C38. The options of a builder do not change what a signal means. Whatever closure a \<open>SignalBuilder::new\<close> is given, with or without \<open>dedup\<close>, and whatever steps
  follow (\<open>on_discard\<close>, \<open>keep\<close>, \<open>map\<close>, \<open>map_value\<close>, \<open>flat_map\<close>, in any order), \<open>build\<close> adds a node that keeps the graph sound, and the value of the
  signal is that of the closure with the maps applied to it one after the other; \<open>flat_map\<close> continues with the value of the signal that its function selects.
\<close>

theorem builders_mean:
  assumes laws: "slab_laws ops" and inv: "sys_inv ops G w" and p: "closed_prog w (get_prog g)" and meaning: "G (next_id w) = get_prog g"
    and steps: "list_all (step_ok w) xs"
  shows "case scan_build ops (fold do_build_step xs (into_scan_build g)) w of (s, w') \<Rightarrow>
      sys_inv ops G w' \<and> closed_prog w' (built_borrow s)
    \<and> eval_prog (sem G w') (built_borrow s) = Option.bind (eval_prog (sem G w) (get_prog g)) (steps_value (sig_value G w) xs)"
proof -
  let ?b = "fold do_build_step xs (into_scan_build g)" and ?f = "case g of GetFnGet p \<Rightarrow> get_fn_get p | GetFnGetDedup p \<Rightarrow> get_fn_get_dedup p"
  have b: "bu_state ?b = None" "bu_scan ?b = ?f" by (simp_all add: build_steps_fields into_scan_build_def new_scan_builder_def)
  obtain n w' where new: "scan_new ops None ?f (bu_discard ?b) w = (n, w')" by fastforce
  have n: "n = next_id w" using new by (simp add: scan_new_def Let_def)
  then have G: "G n = get_prog g" using meaning by simp
  have fits: "fits_scan (G n) ?f" by (cases g) (simp_all add: G fits_scan_def)
  note built = scan_new_value [OF laws inv new fits p [folded G]]
  have run: "scan_build ops ?b w = (\<lparr>bs_node = n, bs_map = bu_map ?b\<rparr>, w')" using new b by (simp add: scan_build_def)
  have m0: "bu_map (into_scan_build g) v = Return v" for v by (simp add: into_scan_build_def builder_defs)
  have "closed_prog w (bu_map ?b v)" for v by (rule build_steps_closed [OF steps]) (simp add: m0 closed_prog_def)
  then have "closed_prog w' (bu_map ?b v)" for v using built(4) [of "BorrowSignal 0 (bu_map ?b v)"] by (simp add: sig_ok_def)
  then have closed: "closed_prog w' (built_borrow \<lparr>bs_node = n, bs_map = bu_map ?b\<rparr>)"
    using built(2) by (simp add: built_borrow_def closed_prog_def sig_ok_def)
  have "eval_prog (sem G w') (bu_map ?b v) = steps_value (sig_value G w) xs v" for v
    using steps_value_cong [OF steps, of "sig_value G w'" "sig_value G w" "Some v"] built(4)
    by (simp add: build_steps_map m0 steps_value_def sig_value_def [abs_def])
  moreover have "sem G w' n = eval_prog (sem G w) (get_prog g)"
    using built(3) G by (simp add: sig_value_def split: option.splits)
  ultimately have "eval_prog (sem G w') (built_borrow \<lparr>bs_node = n, bs_map = bu_map ?b\<rparr>)
      = Option.bind (eval_prog (sem G w) (get_prog g)) (steps_value (sig_value G w) xs)"
    by (simp add: built_borrow_def split: option.split bind_split)
  then show ?thesis using run built(1) closed by simp
qed

text \<open>Two states; the first, read through a \<open>dedup\<close> and kept, says which of two signals the \<open>flat_map\<close> continues with.\<close>

definition ex_build_world :: "(sink_binding option list, int) world" where
  "ex_build_world = snd (state_new vec_slab 7 (world_init (Some config_default)))"

theorem builders_mean_witness:
  "\<exists>G s w'. scan_build vec_slab (fold do_build_step [BuildKeep, BuildFlatMap (\<lambda>v. if v = 7 then GraphSignal 0 else ConstantSignal 5 v), BuildMap (\<lambda>v. v + 1)]
        (into_scan_build (get_dedup (sb_new (Read 0 Return))))) ex_build_world = (s, w')
    \<and> sys_inv vec_slab G w' \<and> eval_prog (sem G w') (built_borrow s) = Some 8"
proof -
  let ?g = "get_dedup (sb_new (Read 0 Return)) :: int get_fn" and ?G = "\<lambda>_ :: nid. Read 0 Return :: (int, int) prog"
  let ?xs = "[BuildKeep, BuildFlatMap (\<lambda>v. if v = 7 then GraphSignal 0 else ConstantSignal 5 v), BuildMap (\<lambda>v. v + 1)] :: int build_step list"
  have new: "state_new vec_slab 7 (world_init (Some config_default)) = (0, ex_build_world)"
    by (simp add: ex_build_world_def state_new_def world_init_def)
  note ok = state_new_ok [OF vec_slab_laws sys_inv_init new]
  have src: "is_source ex_build_world 0" using ok(3) by (simp add: is_source_code)
  have v: "sem ?G ex_build_world 0 = Some 7"
    using ok(3) by (simp add: sem_state ex_build_world_def state_new_def world_init_def view_defs put_node_def)
  have "closed_prog ex_build_world (get_prog ?g)" "list_all (step_ok ex_build_world) ?xs" "?G (next_id ex_build_world) = get_prog ?g"
    using src by (auto simp: sb_new_def get_builder_def closed_prog_def step_ok_def sig_ok_def)
  from builders_mean [OF vec_slab_laws ok(1) this(1,3,2)] v show ?thesis
    by (auto simp: sb_new_def get_builder_def steps_value_def sig_value_def split: prod.splits intro!: exI [of _ ?G])
qed

end
