(* ===== verification/Format_Macro.thy ===== *)
theory Format_Macro
  imports Prelude
begin

section \<open>The macro signal\_format (macros/src/signal\_format\_impl.rs)\<close>

text \<open>
  What the procedural macro does at compile time: it splits the format string into literal text and variables, and turns every part into one call on a
  string builder. The tokens and expressions of Rust are a type \<open>'e\<close>; \<open>id_ok\<close> says which strings \<open>Ident::new\<close> of \<open>proc_macro2\<close> accepts (it panics on
  the others), and \<open>ident_expr\<close> is the expression made of an identifier. A string is the list of its bytes; the braces and the colon
  are ASCII, so that they never occur inside another character.
\<close>

subsection \<open>Splitting the format string\<close>

datatype format_error =
    InvalidFormat
  | InvalidPositional nat   \<comment> \<open>\<open>invalid reference to positional argument\<close>\<close>
  | IdentPanic string       \<comment> \<open>\<open>Ident::new\<close> of a string that is no identifier\<close>

datatype var_key = KeyNone | KeyName string | KeyIndex nat

datatype fmt_part = is_PartStr: PartStr string | PartVar var_key string

text \<open>\<open>str::parse::<usize>\<close> of the standard library, on a 64-bit host: an optional plus sign and at least one digit, without overflow.\<close>

definition digit_value :: "char \<Rightarrow> nat option" where
  "digit_value c = (let n = of_char c :: nat in if 48 \<le> n \<and> n \<le> 57 then Some (n - 48) else None)"

primrec parse_digits :: "nat \<Rightarrow> string \<Rightarrow> nat option" where
  "parse_digits acc [] = Some acc"
| "parse_digits acc (c # cs) = (case digit_value c of
     Some d \<Rightarrow> if acc * 10 + d < 2 ^ 64 then parse_digits (acc * 10 + d) cs else None
   | None \<Rightarrow> None)"

definition parse_usize :: "string \<Rightarrow> nat option" where
  "parse_usize s = (case s of [] \<Rightarrow> None
     | c # r \<Rightarrow> if c = CHR ''+'' then (if r = [] then None else parse_digits 0 r) else parse_digits 0 s)"

definition var_key_parse :: "(string \<Rightarrow> bool) \<Rightarrow> string \<Rightarrow> format_error + var_key" where
  "var_key_parse id_ok s =
     (if s = [] then Inr KeyNone
      else case parse_usize s of
          Some index \<Rightarrow> Inr (KeyIndex index)
        | None \<Rightarrow> if id_ok s then Inr (KeyName s) else Inl (IdentPanic s))"

text \<open>The two regular expressions, of which no match can backtrack: \<open>^[^{}]+\<close> and \<open>^\{([^:{}]*)(?::([^}]*))?\}\<close>.\<close>

definition plain :: "char \<Rightarrow> bool" where
  "plain c \<longleftrightarrow> c \<noteq> CHR ''{'' \<and> c \<noteq> CHR ''}''"

definition match_text :: "string \<Rightarrow> (string \<times> string) option" where
  "match_text s = (let m = takeWhile plain s in if m = [] then None else Some (m, dropWhile plain s))"

definition match_close :: "string \<Rightarrow> string \<Rightarrow> string \<Rightarrow> (string \<times> string \<times> string) option" where
  "match_close key spec s = (case s of [] \<Rightarrow> None | c # r \<Rightarrow> if c = CHR ''}'' then Some (key, spec, r) else None)"

definition match_var :: "string \<Rightarrow> (string \<times> string \<times> string) option" where
  "match_var s = (case s of [] \<Rightarrow> None
     | c # r \<Rightarrow> if c \<noteq> CHR ''{'' then None
        else let key = takeWhile (\<lambda>c. plain c \<and> c \<noteq> CHR '':'') r; r1 = dropWhile (\<lambda>c. plain c \<and> c \<noteq> CHR '':'') r
          in (case r1 of [] \<Rightarrow> None
             | d # r2 \<Rightarrow> if d = CHR '':'' then match_close key (takeWhile (\<lambda>c. c \<noteq> CHR ''}'') r2) (dropWhile (\<lambda>c. c \<noteq> CHR ''}'') r2)
                        else match_close key [] r1))"

lemma match_var_shorter: "match_var s = Some (key, spec, r) \<Longrightarrow> length r < length s"
proof -
  assume m: "match_var s = Some (key, spec, r)"
  obtain c s' where s: "s = c # s'" using m by (cases s) (auto simp: match_var_def)
  define r1 where "r1 = dropWhile (\<lambda>c. plain c \<and> c \<noteq> CHR '':'') s'"
  have l1: "length r1 \<le> length s'" unfolding r1_def by (rule length_dropWhile_le)
  have "length (dropWhile (\<lambda>c. c \<noteq> CHR ''}'') r2) \<le> length r2" for r2 :: string by (rule length_dropWhile_le)
  then show ?thesis
    using m l1 unfolding s match_var_def Let_def list.case r1_def [symmetric]
    by (auto simp: match_close_def split: if_splits list.splits intro: le_less_trans)
      (metis length_Cons less_Suc_eq_le Suc_le_lessD le_trans nat_le_linear not_less_eq_eq)+
qed

text \<open>The loop of \<open>parse_parts\<close>: what is left of the string, the literal text so far and the parts so far.\<close>

function parse_loop :: "(string \<Rightarrow> bool) \<Rightarrow> string \<Rightarrow> string \<Rightarrow> fmt_part list \<Rightarrow> format_error + fmt_part list" where
  "parse_loop id_ok s st parts =
     (if s = [] then Inr (parts @ [PartStr st])
      else if take 2 s = ''{{'' then parse_loop id_ok (drop 2 s) (st @ ''{'') parts
      else if take 2 s = ''}}'' then parse_loop id_ok (drop 2 s) (st @ ''}'') parts
      else case match_text s of
          Some (m, rest) \<Rightarrow> parse_loop id_ok rest (st @ m) parts
        | None \<Rightarrow> (case match_var s of
              Some (key, spec, rest) \<Rightarrow> (case var_key_parse id_ok key of
                  Inl e \<Rightarrow> Inl e
                | Inr k \<Rightarrow> parse_loop id_ok rest [] (parts @ [PartStr st, PartVar k spec]))
            | None \<Rightarrow> Inl InvalidFormat))"
  by pat_completeness auto
termination
  by (relation "measure (\<lambda>(id_ok, s, st, parts). length s)")
    (auto simp: match_text_def Let_def takeWhile_eq_Nil_iff neq_Nil_conv less_Suc_eq_le length_dropWhile_le dest!: match_var_shorter split: if_splits)

declare parse_loop.simps [simp del]

definition parse_parts :: "(string \<Rightarrow> bool) \<Rightarrow> string \<Rightarrow> format_error + fmt_part list" where
  "parse_parts id_ok s = (case parse_loop id_ok s [] [] of
     Inl e \<Rightarrow> Inl e
   | Inr parts \<Rightarrow> Inr (filter (\<lambda>p. p \<noteq> PartStr []) parts))"

subsection \<open>Generating the calls\<close>

datatype 'e fmt_arg = NameExpr string 'e | PosExpr 'e

primrec arg_expr :: "'e fmt_arg \<Rightarrow> 'e" where
  "arg_expr (NameExpr name e) = e"
| "arg_expr (PosExpr e) = e"

fun expr_by_name_opt :: "'e fmt_arg list \<Rightarrow> string \<Rightarrow> 'e option" where
  "expr_by_name_opt [] name = None"
| "expr_by_name_opt (NameExpr n e # args) name = (if n = name then Some e else expr_by_name_opt args name)"
| "expr_by_name_opt (PosExpr e # args) name = expr_by_name_opt args name"

definition expr_by_name :: "(string \<Rightarrow> 'e) \<Rightarrow> 'e fmt_arg list \<Rightarrow> string \<Rightarrow> 'e" where
  "expr_by_name ident_expr args name = (case expr_by_name_opt args name of Some e \<Rightarrow> e | None \<Rightarrow> ident_expr name)"

definition find_expr_by_index :: "'e fmt_arg list \<Rightarrow> nat \<Rightarrow> format_error + 'e" where
  "find_expr_by_index args index = (if index < length args then Inr (arg_expr (args ! index)) else Inl (InvalidPositional index))"

text \<open>The expression of a variable, and the counter of the variables without a key after it.\<close>

definition key_to_expr :: "(string \<Rightarrow> 'e) \<Rightarrow> 'e fmt_arg list \<Rightarrow> var_key \<Rightarrow> nat \<Rightarrow> (format_error + 'e) \<times> nat" where
  "key_to_expr ident_expr args key index = (case key of
     KeyNone \<Rightarrow> (find_expr_by_index args index, index + 1)
   | KeyName name \<Rightarrow> (Inr (expr_by_name ident_expr args name), index)
   | KeyIndex i \<Rightarrow> (find_expr_by_index args i, index))"

definition to_dummy_fn_arg :: "'e fmt_arg list \<Rightarrow> var_key \<Rightarrow> string option" where
  "to_dummy_fn_arg args key = (case key of KeyName name \<Rightarrow> if expr_by_name_opt args name = None then Some name else None | _ \<Rightarrow> None)"

datatype dummy_arg = NamedDummy string | PosDummy

primrec to_dummy_arg :: "'e fmt_arg \<Rightarrow> dummy_arg" where
  "to_dummy_arg (NameExpr name e) = NamedDummy name"
| "to_dummy_arg (PosExpr e) = PosDummy"

definition format_str_from_spec :: "string \<Rightarrow> string" where
  "format_str_from_spec spec = (if spec = [] then ''{}'' else ''{:'' @ spec @ ''}'')"

text \<open>
  The \<open>let\<close>s of the generated code, and its dummy \<open>format!\<close>, in which the compiler checks the original format string: a closure with the captured
  names as parameters and a call with the original format string and one dummy for each argument.
\<close>

datatype 'e fmt_let = PushStatic string | SignalFmt 'e string

record 'e expansion =
  ex_dummy_fn_args :: "string list"
  ex_dummy_args :: "dummy_arg list"
  ex_format :: string
  ex_lets :: "'e fmt_let list"

fun expand_parts ::
    "(string \<Rightarrow> 'e) \<Rightarrow> 'e fmt_arg list \<Rightarrow> nat \<Rightarrow> fmt_part list \<Rightarrow> format_error + string list \<times> 'e fmt_let list" where
  "expand_parts ident_expr args index [] = Inr ([], [])"
| "expand_parts ident_expr args index (PartStr s # parts) = (case expand_parts ident_expr args index parts of
     Inl e \<Rightarrow> Inl e
   | Inr (dummies, lets) \<Rightarrow> Inr (dummies, PushStatic s # lets))"
| "expand_parts ident_expr args index (PartVar key spec # parts) = (case key_to_expr ident_expr args key index of
     (Inl e, _) \<Rightarrow> Inl e
   | (Inr e, index1) \<Rightarrow> (case expand_parts ident_expr args index1 parts of
         Inl e \<Rightarrow> Inl e
       | Inr (dummies, lets) \<Rightarrow> Inr ((case to_dummy_fn_arg args key of Some d \<Rightarrow> [d] | None \<Rightarrow> []) @ dummies,
                                     SignalFmt e (format_str_from_spec spec) # lets)))"

definition signal_format :: "(string \<Rightarrow> bool) \<Rightarrow> (string \<Rightarrow> 'e) \<Rightarrow> string \<Rightarrow> 'e fmt_arg list \<Rightarrow> format_error + 'e expansion" where
  "signal_format id_ok ident_expr fmt args = (case parse_parts id_ok fmt of
     Inl e \<Rightarrow> Inl e
   | Inr parts \<Rightarrow> (case expand_parts ident_expr args 0 parts of
         Inl e \<Rightarrow> Inl e
       | Inr (dummies, lets) \<Rightarrow>
           Inr \<lparr>ex_dummy_fn_args = dummies, ex_dummy_args = map to_dummy_arg args, ex_format = fmt, ex_lets = lets\<rparr>))"

subsection \<open>Printing parts\<close>

text \<open>The inverse of the parser: literal text with its braces doubled, variables in braces.\<close>

definition escape_char :: "char \<Rightarrow> string" where
  "escape_char c = (if c = CHR ''{'' then ''{{'' else if c = CHR ''}'' then ''}}'' else [c])"

definition digit_char :: "nat \<Rightarrow> char" where
  "digit_char d = char_of (48 + d)"

fun decimal :: "nat \<Rightarrow> string" where
  "decimal n = (if n < 10 then [digit_char n] else decimal (n div 10) @ [digit_char (n mod 10)])"

declare decimal.simps [simp del]

primrec key_text :: "var_key \<Rightarrow> string" where
  "key_text KeyNone = []"
| "key_text (KeyName n) = n"
| "key_text (KeyIndex i) = decimal i"

primrec print_part :: "fmt_part \<Rightarrow> string" where
  "print_part (PartStr s) = concat (map escape_char s)"
| "print_part (PartVar k spec) = ''{'' @ key_text k @ (if spec = [] then [] else '':'' @ spec) @ ''}''"

definition print_parts :: "fmt_part list \<Rightarrow> string" where
  "print_parts ps = concat (map print_part ps)"

definition key_plain :: "char \<Rightarrow> bool" where
  "key_plain c \<longleftrightarrow> plain c \<and> c \<noteq> CHR '':''"

definition key_ok :: "(string \<Rightarrow> bool) \<Rightarrow> var_key \<Rightarrow> bool" where
  "key_ok id_ok k = (case k of KeyNone \<Rightarrow> True
     | KeyName n \<Rightarrow> n \<noteq> [] \<and> list_all key_plain n \<and> parse_usize n = None \<and> id_ok n
     | KeyIndex i \<Rightarrow> i < 2 ^ 64)"

primrec part_ok :: "(string \<Rightarrow> bool) \<Rightarrow> fmt_part \<Rightarrow> bool" where
  "part_ok id_ok (PartStr s) = (s \<noteq> [])"
| "part_ok id_ok (PartVar k spec) = (key_ok id_ok k \<and> CHR ''}'' \<notin> set spec)"

text \<open>Lists of parts in the form the parser produces: no literal is empty or next to another.\<close>

fun parts_ok :: "(string \<Rightarrow> bool) \<Rightarrow> fmt_part list \<Rightarrow> bool" where
  "parts_ok id_ok (PartStr s # PartStr t # ps) = False"
| "parts_ok id_ok (p # ps) = (part_ok id_ok p \<and> parts_ok id_ok ps)"
| "parts_ok id_ok [] = True"

subsection \<open>The parser inverts printing\<close>

lemma parse_digits_append:
  "parse_digits acc (s @ t) = Option.bind (parse_digits acc s) (\<lambda>n. parse_digits n t)"
  by (induction s arbitrary: acc) (auto split: option.split)

lemma digit_value_char [simp]: "d < 10 \<Longrightarrow> digit_value (digit_char d) = Some d"
  by (simp add: digit_value_def digit_char_def)

lemma digit_char_plain:
  assumes "d < 10" shows "key_plain (digit_char d)" and "digit_char d \<noteq> CHR ''+''"
proof -
  have "of_char (digit_char d) = 48 + d" using assms by (simp add: digit_char_def)
  then have "digit_char d \<noteq> c" if "of_char c \<notin> {48..57 :: nat}" for c using assms that by auto
  then show "key_plain (digit_char d)" "digit_char d \<noteq> CHR ''+''" by (simp_all add: key_plain_def plain_def)
qed

lemma decimal_plain: "list_all key_plain (decimal n)"
  by (induction n rule: decimal.induct) (subst decimal.simps, simp add: digit_char_plain)

lemma decimal_hd: "\<exists>c r. decimal n = c # r \<and> c \<noteq> CHR ''+''"
  by (induction n rule: decimal.induct) (subst decimal.simps, force simp: digit_char_plain)

lemma parse_decimal: "n < 2 ^ 64 \<Longrightarrow> parse_digits 0 (decimal n) = Some n"
proof (induction n rule: decimal.induct)
  case (1 n)
  show ?case
  proof (cases "n < 10")
    case False
    then have "parse_digits 0 (decimal (n div 10)) = Some (n div 10)" using 1 by simp
    then show ?thesis using False 1(2) by (subst decimal.simps) (simp add: parse_digits_append)
  qed (use 1(2) in \<open>subst decimal.simps, simp\<close>)
qed

lemma parse_usize_decimal: "n < 2 ^ 64 \<Longrightarrow> parse_usize (decimal n) = Some n"
  using decimal_hd [of n] parse_decimal [of n] by (auto simp: parse_usize_def)

lemma key_text_parse: "key_ok id_ok k \<Longrightarrow> list_all key_plain (key_text k) \<and> var_key_parse id_ok (key_text k) = Inr k"
proof (cases k)
  case (KeyIndex i)
  moreover have "decimal i \<noteq> []" using decimal_hd [of i] by auto
  ultimately show "key_ok id_ok k \<Longrightarrow> ?thesis" by (simp add: key_ok_def decimal_plain var_key_parse_def parse_usize_decimal)
qed (auto simp: key_ok_def var_key_parse_def)

lemma parse_usize_less: "parse_usize s = Some n \<Longrightarrow> n < 2 ^ 64"
proof -
  have "parse_digits acc s = Some n \<Longrightarrow> s = [] \<or> n < 2 ^ 64" for acc and s
    by (induction s arbitrary: acc) (fastforce split: option.splits if_splits)+
  moreover have "parse_digits acc [] = Some n \<Longrightarrow> n = acc" for acc by simp
  ultimately show "parse_usize s = Some n \<Longrightarrow> n < 2 ^ 64" by (force simp: parse_usize_def split: list.splits if_splits)
qed

text \<open>The steps of the loop.\<close>

lemma loop_nil [simp]: "parse_loop id_ok [] st parts = Inr (parts @ [PartStr st])"
  by (simp add: parse_loop.simps)

lemma loop_run:
  assumes "plain c"
  shows "parse_loop id_ok (c # s) st parts = parse_loop id_ok (dropWhile plain s) (st @ c # takeWhile plain s) parts"
proof -
  have "take 2 (c # s) \<noteq> ''{{''" "take 2 (c # s) \<noteq> ''}}''" using assms by (auto simp: plain_def)
  moreover have "match_text (c # s) = Some (c # takeWhile plain s, dropWhile plain s)" using assms by (simp add: match_text_def)
  ultimately show ?thesis by (subst parse_loop.simps) auto
qed

lemma loop_char: "plain c \<Longrightarrow> parse_loop id_ok (c # s) st parts = parse_loop id_ok s (st @ [c]) parts"
  by (cases s; cases "plain (hd s)") (simp_all add: loop_run)

lemma loop_escape: "parse_loop id_ok (escape_char c @ s) st parts = parse_loop id_ok s (st @ [c]) parts"
proof (cases "plain c")
  case False
  then have c: "c = CHR ''{'' \<or> c = CHR ''}''" by (auto simp: plain_def)
  then have "escape_char c = [c, c]" by (auto simp: escape_char_def)
  then show ?thesis using c by (subst parse_loop.simps) auto
qed (auto simp: escape_char_def plain_def loop_char)

lemma loop_text: "parse_loop id_ok (concat (map escape_char t) @ s) st parts = parse_loop id_ok s (st @ t) parts"
  by (induction t arbitrary: st) (simp_all add: loop_escape)

lemma take_drop_run: "list_all P k \<Longrightarrow> \<not> P d \<Longrightarrow> takeWhile P (k @ d # s) = k \<and> dropWhile P (k @ d # s) = d # s"
  by (induction k) auto

lemma match_printed:
  assumes k: "list_all key_plain k" and spec: "CHR ''}'' \<notin> set spec"
  shows "match_var (CHR ''{'' # k @ (if spec = [] then [] else CHR '':'' # spec) @ CHR ''}'' # s) = Some (k, spec, s)"
proof -
  have "\<not> key_plain (CHR ''}'')" "\<not> key_plain (CHR '':'')" by (simp_all add: key_plain_def plain_def)
  note run = take_drop_run [OF k this(1), of s] take_drop_run [OF k this(2), of "spec @ CHR ''}'' # s"]
  have "list_all (\<lambda>c. c \<noteq> CHR ''}'') spec" using spec by (auto simp: list_all_iff)
  from take_drop_run [OF this, of "CHR ''}''" s] run show ?thesis
    by (cases "spec = []") (simp_all add: match_var_def match_close_def key_plain_def [abs_def])
qed

lemma loop_var:
  assumes k: "key_ok id_ok k" and spec: "CHR ''}'' \<notin> set spec"
  shows "parse_loop id_ok (print_part (PartVar k spec) @ s) st parts = parse_loop id_ok s [] (parts @ [PartStr st, PartVar k spec])"
proof -
  let ?s = "print_part (PartVar k spec) @ s"
  note kt = key_text_parse [OF k]
  have m: "match_var ?s = Some (key_text k, spec, s)" using match_printed [OF conjunct1 [OF kt] spec, of s] by (cases "spec = []") simp_all
  have "take 2 ?s \<noteq> ''{{''" "take 2 ?s \<noteq> ''}}''"
    using kt by (cases "key_text k"; auto simp: key_plain_def plain_def)+
  moreover have "match_text ?s = None" "?s \<noteq> []" by (simp_all add: match_text_def plain_def)
  ultimately show ?thesis using m kt by (subst parse_loop.simps) (simp del: print_part.simps)
qed

text \<open>The parts as the loop collects them, with a literal, maybe empty, before each variable and at the end.\<close>

fun collected :: "string \<Rightarrow> fmt_part list \<Rightarrow> fmt_part list" where
  "collected st [] = [PartStr st]"
| "collected st (PartStr t # ps) = collected (st @ t) ps"
| "collected st (PartVar k spec # ps) = PartStr st # PartVar k spec # collected [] ps"

lemma loop_print:
  "list_all (\<lambda>p. is_PartStr p \<or> part_ok id_ok p) ps \<Longrightarrow> parse_loop id_ok (print_parts ps) st parts = Inr (parts @ collected st ps)"
  by (induction st ps arbitrary: parts rule: collected.induct)
    (auto simp: print_parts_def loop_text loop_var simp del: print_part.simps(2))

lemma collected_filter:
  "parts_ok id_ok ps \<Longrightarrow> st = [] \<or> ps = [] \<or> \<not> is_PartStr (hd ps)
     \<Longrightarrow> filter (\<lambda>p. p \<noteq> PartStr []) (collected st ps) = (if st = [] then [] else [PartStr st]) @ ps"
proof (induction st ps rule: collected.induct)
  case (2 st t ps)
  then have "parts_ok id_ok ps" "t \<noteq> []" "ps = [] \<or> \<not> is_PartStr (hd ps)" "st = []" by (cases ps; cases "hd ps"; auto)+
  then show ?case using 2 by simp
qed auto

lemma parts_ok_parts: "parts_ok id_ok ps \<Longrightarrow> list_all (part_ok id_ok) ps"
  by (induction id_ok ps rule: parts_ok.induct) simp_all

lemma parse_print: "parts_ok id_ok ps \<Longrightarrow> parse_parts id_ok (print_parts ps) = Inr ps"
  using loop_print [of id_ok ps "[]" "[]"] collected_filter [of id_ok ps "[]"] parts_ok_parts [of id_ok ps]
  by (simp add: parse_parts_def list.pred_mono_strong)

text \<open>Whatever the parser returns has this form.\<close>

fun alternates :: "(string \<Rightarrow> bool) \<Rightarrow> fmt_part list \<Rightarrow> bool" where
  "alternates id_ok [PartStr t] = True"
| "alternates id_ok (PartStr t # PartVar k spec # ps) = (part_ok id_ok (PartVar k spec) \<and> alternates id_ok ps)"
| "alternates id_ok _ = False"

lemma alternates_filter: "alternates id_ok ps \<Longrightarrow> parts_ok id_ok (filter (\<lambda>p. p \<noteq> PartStr []) ps)"
proof (induction id_ok ps rule: alternates.induct)
  case (2 id_ok t k spec ps)
  then show ?case by simp
qed auto

lemma match_var_parts:
  assumes "match_var s = Some (key, spec, r)"
  shows "list_all key_plain key" and "CHR ''}'' \<notin> set spec"
  using assms
  by (auto simp: match_var_def match_close_def Let_def list_all_iff key_plain_def dest: set_takeWhileD split: list.splits if_splits)

lemma var_key_parse_ok: "list_all key_plain s \<Longrightarrow> var_key_parse id_ok s = Inr k \<Longrightarrow> key_ok id_ok k"
  by (auto simp: var_key_parse_def key_ok_def dest: parse_usize_less split: if_splits option.splits)

lemma loop_sound: "parse_loop id_ok s st parts = Inr r \<Longrightarrow> \<exists>q. r = parts @ q \<and> alternates id_ok q"
proof (induction id_ok s st parts rule: parse_loop.induct)
  case (1 id_ok s st parts)
  note run = 1(5) [unfolded parse_loop.simps [of id_ok s st parts]]
  consider "s = []" | "s \<noteq> []" "take 2 s = ''{{''" | "s \<noteq> []" "take 2 s \<noteq> ''{{''" "take 2 s = ''}}''"
    | m rest where "s \<noteq> []" "take 2 s \<noteq> ''{{''" "take 2 s \<noteq> ''}}''" "match_text s = Some (m, rest)"
    | "s \<noteq> []" "take 2 s \<noteq> ''{{''" "take 2 s \<noteq> ''}}''" "match_text s = None"
    by (cases "match_text s") auto
  then show ?case
  proof cases
    case 1
    then show ?thesis using run by (intro exI [of _ "[PartStr st]"]) simp
  next
    case 2
    then show ?thesis using run 1(1) by simp
  next
    case 3
    then show ?thesis using run 1(2) by simp
  next
    case 4
    then show ?thesis using run 1(4) [OF 4 refl] by simp
  next
    case 5
    then obtain key spec rest where m: "match_var s = Some (key, spec, rest)" using run by (auto split: option.splits)
    then obtain k where k: "var_key_parse id_ok key = Inr k" "parse_loop id_ok rest [] (parts @ [PartStr st, PartVar k spec]) = Inr r"
      using run 5 by (auto split: sum.splits)
    have "part_ok id_ok (PartVar k spec)" using match_var_parts [OF m] var_key_parse_ok k(1) by simp
    then show ?thesis using 1(3) [OF 5(1-4) m refl refl k] by fastforce
  qed
qed

lemma parse_parts_ok: "parse_parts id_ok s = Inr ps \<Longrightarrow> parts_ok id_ok ps"
  using loop_sound [of id_ok s "[]" "[]"] alternates_filter by (fastforce simp: parse_parts_def split: sum.splits)

text \<open>
  C40. The parser of format strings and printing are inverse to each other. The lists of parts that the parser can return are exactly the well-formed ones (no empty literal, no
  two literals next to each other, keys and format specifications without the characters that end them), and each of them is what the parser returns for
  its printed form, in which the braces of the literals are doubled. So no brace, key or specification is lost or moved to another part.
\<close>

theorem format_parts_roundtrip:
  "(parts_ok id_ok ps = (parse_parts id_ok (print_parts ps) = Inr ps)) \<and> (parts_ok id_ok ps = (\<exists>s. parse_parts id_ok s = Inr ps))"
  using parse_print parse_parts_ok by metis

text \<open>\<open>format!\<close> allows white space before the closing brace; here it becomes part of the name, and \<open>Ident::new\<close> panics.\<close>

lemma trailing_space_panics:
  assumes "\<not> id_ok ''a ''"
  shows "parse_parts id_ok ''{a }'' = Inl (IdentPanic ''a '')"
proof -
  have "match_var ''{a }'' = Some (''a '', [], [])" "parse_usize ''a '' = None"
    by (simp_all add: match_var_def match_close_def plain_def parse_usize_def digit_value_def)
  moreover have "match_text ''{a }'' = None" by (simp add: match_text_def plain_def)
  ultimately show ?thesis using assms by (simp add: parse_parts_def parse_loop.simps [of _ "''{a }''"] var_key_parse_def)
qed

end
