(* ===== verification/Format_String.thy ===== *)
theory Format_String
  imports Signal_Builder Format_Macro
begin

section \<open>Formatted signals (fmt/helpers.rs)\<close>

text \<open>
  The code that \<open>signal_format!\<close> generates calls a string builder part by part. Plain values are formatted at once into a buffer that is never cleared; literals, and signals, which are
  formatted at each update, become parts that remember how long the buffer was when they were added. An update of the built signal runs the parts in order, each of them
  after the piece of the buffer since the part before. \<open>str_value\<close> is a string as a value of the graph.
\<close>

subsection \<open>Parts and the builder\<close>

text \<open>A part appends to the string it is given; \<open>&buf[start..end]\<close> panics out of range.\<close>

datatype 'v lazy_part = NonePart | FnPart "'v lazy_part" "string \<Rightarrow> ('v, string) prog" nat

definition str_slice :: "string \<Rightarrow> nat \<Rightarrow> nat \<Rightarrow> ('v, string) prog" where
  "str_slice buf i j = (if i \<le> j \<and> j \<le> length buf then Return (take (j - i) (drop i buf)) else Fail)"

primrec part_write :: "'v lazy_part \<Rightarrow> string \<Rightarrow> string \<Rightarrow> ('v, nat \<times> string) prog" where
  "part_write NonePart buf out = Return (0, out)"
| "part_write (FnPart prev f buf_end) buf out =
     prog_bind (part_write prev buf out) (\<lambda>(buf_start, out1).
     prog_bind (str_slice buf buf_start buf_end) (\<lambda>piece.
     prog_bind (f (out1 @ piece)) (\<lambda>out2. Return (buf_end, out2))))"

record 'v string_builder =
  sb_buf :: string
  sb_part :: "'v lazy_part"

definition signal_string_builder :: "'v string_builder" where
  "signal_string_builder = \<lparr>sb_buf = [], sb_part = NonePart\<rparr>"

definition push_eager :: "(string \<Rightarrow> string result) \<Rightarrow> 'v string_builder \<Rightarrow> 'v string_builder result" where
  "push_eager f b = res_bind (f (sb_buf b)) (\<lambda>buf. Inr (b\<lparr>sb_buf := buf\<rparr>))"

definition push_lazy :: "(string \<Rightarrow> ('v, string) prog) \<Rightarrow> 'v string_builder \<Rightarrow> 'v string_builder" where
  "push_lazy f b = \<lparr>sb_buf = sb_buf b, sb_part = FnPart (sb_part b) f (length (sb_buf b))\<rparr>"

definition push_signal :: "'v signal \<Rightarrow> (string \<Rightarrow> 'v \<Rightarrow> ('v, string) prog) \<Rightarrow> 'v string_builder \<Rightarrow> 'v string_builder" where
  "push_signal s f b = push_lazy (\<lambda>buf. prog_bind (signal_borrow s) (f buf)) b"

definition push_static :: "string \<Rightarrow> 'v string_builder \<Rightarrow> 'v string_builder" where
  "push_static s b = push_lazy (\<lambda>buf. Return (buf @ s)) b"

text \<open>The closure of the scan: the string is cleared, the parts are written, then the rest of the buffer.\<close>

definition format_write :: "'v string_builder \<Rightarrow> string \<Rightarrow> ('v, string) prog" where
  "format_write b st = (let cleared = take 0 st in
     prog_bind (part_write (sb_part b) (sb_buf b) cleared) (\<lambda>(offset, out).
     prog_bind (str_slice (sb_buf b) offset (length (sb_buf b))) (\<lambda>rest. Return (out @ rest))))"

definition format_scan :: "(string \<Rightarrow> 'v) \<Rightarrow> ('v \<Rightarrow> string) \<Rightarrow> 'v string_builder \<Rightarrow> 'v option \<Rightarrow> ('v, 'v option) prog" where
  "format_scan str_value the_str b st = prog_map Some (prog_map str_value
     (format_write b (case st of Some v \<Rightarrow> the_str v | None \<Rightarrow> [])))"

definition format_build ::
    "('m, sink_binding) slab_ops \<Rightarrow> (string \<Rightarrow> 'v) \<Rightarrow> ('v \<Rightarrow> string) \<Rightarrow> 'v string_builder \<Rightarrow> ('m, 'v, 'z) world_scheme
       \<Rightarrow> 'v built_signal \<times> ('m, 'v, 'z) world_scheme" where
  "format_build ops str_value the_str b w =
     scan_build ops (sb_map (\<lambda>st. st) (sb_from_scan (str_value []) (format_scan str_value the_str b))) w"

subsection \<open>The generated calls\<close>

text \<open>
  \<open>Helper(&e).signal_fmt(b, f)\<close> selects its implementation by the type of \<open>e\<close>: that of \<open>Helper\<close> itself for what converts to a signal, that of the trait \<open>HelperForNonSignal\<close> otherwise.
  \<open>fmt\<close> is what \<open>write!\<close> with a format string appends for a value, \<open>None\<close> when the implementation of the value returns an error, which is unwrapped.
\<close>

datatype 'v operand = OpSignal "'v signal" | OpValue 'v

definition fmt_unwrap :: "(string \<Rightarrow> 'v \<Rightarrow> string option) \<Rightarrow> string \<Rightarrow> string \<Rightarrow> 'v \<Rightarrow> ('v, string) prog" where
  "fmt_unwrap fmt fs buf v = (case fmt fs v of Some t \<Rightarrow> Return (buf @ t) | None \<Rightarrow> Fail)"

definition helper_signal_fmt ::
    "(string \<Rightarrow> 'v \<Rightarrow> string option) \<Rightarrow> 'v signal \<Rightarrow> string \<Rightarrow> 'v string_builder \<Rightarrow> 'v string_builder result" where
  "helper_signal_fmt fmt s fs b = Inr (push_signal s (fmt_unwrap fmt fs) b)"

definition helper_value_fmt ::
    "(string \<Rightarrow> 'v \<Rightarrow> string option) \<Rightarrow> 'v \<Rightarrow> string \<Rightarrow> 'v string_builder \<Rightarrow> 'v string_builder result" where
  "helper_value_fmt fmt v fs b = push_eager (\<lambda>buf. case fmt fs v of Some t \<Rightarrow> Inr (buf @ t) | None \<Rightarrow> Inl UnwrapNone) b"

definition run_let ::
    "(string \<Rightarrow> 'v \<Rightarrow> string option) \<Rightarrow> ('e \<Rightarrow> 'v operand) \<Rightarrow> 'e fmt_let \<Rightarrow> 'v string_builder \<Rightarrow> 'v string_builder result" where
  "run_let fmt denote l b = (case l of
     PushStatic s \<Rightarrow> Inr (push_static s b)
   | SignalFmt e fs \<Rightarrow> (case denote e of OpSignal s \<Rightarrow> helper_signal_fmt fmt s fs b | OpValue v \<Rightarrow> helper_value_fmt fmt v fs b))"

definition run_expansion ::
    "(string \<Rightarrow> 'v \<Rightarrow> string option) \<Rightarrow> ('e \<Rightarrow> 'v operand) \<Rightarrow> 'e expansion \<Rightarrow> 'v string_builder result" where
  "run_expansion fmt denote x = res_fold (run_let fmt denote) (ex_lets x) signal_string_builder"

subsection \<open>What the signal means\<close>

definition format_prog :: "(string \<Rightarrow> 'v) \<Rightarrow> 'v string_builder \<Rightarrow> ('v, 'v) prog" where
  "format_prog str_value b = prog_map str_value (format_write b [])"

lemma format_scan_get: "ScanFnVoid (format_scan str_value the_str b) = get_fn_get (format_prog str_value b)"
  by (simp add: format_scan_def [abs_def] format_prog_def get_fn_get_def format_write_def Let_def)

lemma tracked_bind_set: "tracked P p \<Longrightarrow> (\<And>x. x \<in> set_prog p \<Longrightarrow> tracked P (f x)) \<Longrightarrow> tracked P (prog_bind p f)"
  by (induction p) auto

lemma set_prog_bind: "x \<in> set_prog (prog_bind p f) \<Longrightarrow> \<exists>y \<in> set_prog p. x \<in> set_prog (f y)"
  by (induction p) fastforce+

lemma eval_prog_map: "eval_prog env (prog_map f p) = map_option f (eval_prog env p)"
  by (induction p) (auto split: option.split)

text \<open>The position in the buffer up to which the parts have written, and the builders whose positions are in order.\<close>

primrec part_end :: "'v lazy_part \<Rightarrow> nat" where
  "part_end NonePart = 0"
| "part_end (FnPart prev f e) = e"

primrec part_wf :: "(nid \<Rightarrow> bool) \<Rightarrow> 'v lazy_part \<Rightarrow> bool" where
  "part_wf P NonePart = True"
| "part_wf P (FnPart prev f e) = (part_wf P prev \<and> part_end prev \<le> e \<and> (\<forall>out. tracked P (f out)))"

definition builder_wf :: "(nid \<Rightarrow> bool) \<Rightarrow> 'v string_builder \<Rightarrow> bool" where
  "builder_wf P b \<longleftrightarrow> part_wf P (sb_part b) \<and> part_end (sb_part b) \<le> length (sb_buf b)"

lemma part_write_end: "(k, out') \<in> set_prog (part_write p buf out) \<Longrightarrow> k = part_end p"
  by (cases p) (auto dest!: set_prog_bind split: prod.splits)

lemma part_write_tracked: "part_wf P p \<Longrightarrow> part_end p \<le> length buf \<Longrightarrow> tracked P (part_write p buf out)"
proof (induction p arbitrary: out)
  case (FnPart prev f e)
  then show ?case
    by (auto simp: str_slice_def intro!: tracked_bind_set [OF FnPart.IH] tracked_bind_set [of P "f _"] dest!: part_write_end)
qed simp

lemma format_prog_tracked:
  assumes "builder_wf P b" shows "tracked P (format_prog str_value b)"
proof -
  have "tracked P (part_write (sb_part b) (sb_buf b) [])" using assms part_write_tracked by (auto simp: builder_wf_def)
  then have "tracked P (format_write b [])" unfolding format_write_def Let_def take_0
    by (rule tracked_bind_set) (use assms in \<open>auto simp: builder_wf_def str_slice_def dest!: part_write_end\<close>)
  then show ?thesis by (simp add: format_prog_def tracked_prog_map)
qed

text \<open>The text of a builder in an environment, whatever is appended to its buffer later.\<close>

definition builds :: "(nid \<Rightarrow> 'v option) \<Rightarrow> 'v string_builder \<Rightarrow> string \<Rightarrow> bool" where
  "builds env b t \<longleftrightarrow> (\<forall>extra out. \<exists>u. t = u @ drop (part_end (sb_part b)) (sb_buf b)
     \<and> eval_prog env (part_write (sb_part b) (sb_buf b @ extra) out) = Some (part_end (sb_part b), out @ u))"

definition grows :: "(nid \<Rightarrow> bool) \<Rightarrow> (nid \<Rightarrow> 'v option) \<Rightarrow> string \<Rightarrow> 'v string_builder \<Rightarrow> 'v string_builder \<Rightarrow> bool" where
  "grows P env t b b' \<longleftrightarrow> (\<forall>u. builder_wf P b \<and> builds env b u \<longrightarrow> builder_wf P b' \<and> builds env b' (u @ t))"

lemma grows_eager: "grows P env t b (b\<lparr>sb_buf := sb_buf b @ t\<rparr>)"
proof -
  have "builds env (b\<lparr>sb_buf := sb_buf b @ t\<rparr>) (u @ t)" if wf: "builder_wf P b" and u: "builds env b u" for u
    unfolding builds_def
  proof (intro allI)
    fix extra out
    obtain v where "u = v @ drop (part_end (sb_part b)) (sb_buf b)"
      "eval_prog env (part_write (sb_part b) (sb_buf b @ t @ extra) out) = Some (part_end (sb_part b), out @ v)"
      using u unfolding builds_def by blast
    then show "\<exists>v. u @ t = v @ drop (part_end (sb_part (b\<lparr>sb_buf := sb_buf b @ t\<rparr>))) (sb_buf (b\<lparr>sb_buf := sb_buf b @ t\<rparr>))
       \<and> eval_prog env (part_write (sb_part (b\<lparr>sb_buf := sb_buf b @ t\<rparr>)) (sb_buf (b\<lparr>sb_buf := sb_buf b @ t\<rparr>) @ extra) out)
           = Some (part_end (sb_part (b\<lparr>sb_buf := sb_buf b @ t\<rparr>)), out @ v)"
      using wf by (intro exI [of _ v]) (simp add: builder_wf_def)
  qed
  then show ?thesis by (auto simp: grows_def builder_wf_def)
qed

lemma grows_lazy:
  assumes tr: "\<And>out. tracked P (f out)" and f: "\<And>out. eval_prog env (f out) = Some (out @ t)"
  shows "grows P env t b (push_lazy f b)"
proof -
  have "builds env (push_lazy f b) (u @ t)" if wf: "builder_wf P b" and u: "builds env b u" for u
    unfolding builds_def
  proof (intro allI)
    fix extra out
    obtain v where v: "u = v @ drop (part_end (sb_part b)) (sb_buf b)"
      "eval_prog env (part_write (sb_part b) (sb_buf b @ extra) out) = Some (part_end (sb_part b), out @ v)"
      using u unfolding builds_def by blast
    then show "\<exists>v. u @ t = v @ drop (part_end (sb_part (push_lazy f b))) (sb_buf (push_lazy f b))
       \<and> eval_prog env (part_write (sb_part (push_lazy f b)) (sb_buf (push_lazy f b) @ extra) out) = Some (part_end (sb_part (push_lazy f b)), out @ v)"
      using wf f by (intro exI [of _ "u @ t"]) (simp add: push_lazy_def eval_prog_bind str_slice_def builder_wf_def)
  qed
  then show ?thesis using tr by (auto simp: grows_def builder_wf_def push_lazy_def)
qed

lemma builds_value:
  assumes "builder_wf P b" and "builds env b t"
  shows "eval_prog env (format_prog str_value b) = Some (str_value t)"
proof -
  obtain u where "t = u @ drop (part_end (sb_part b)) (sb_buf b)"
    "eval_prog env (part_write (sb_part b) (sb_buf b) []) = Some (part_end (sb_part b), u)"
    using assms(2) unfolding builds_def by (metis append_Nil append_Nil2)
  then show ?thesis using assms(1)
    by (simp add: format_prog_def format_write_def eval_prog_map eval_prog_bind str_slice_def builder_wf_def)
qed

lemma grows_let:
  assumes run: "run_let fmt denote l b = Inr b'" and display: "\<And>fs v. fmt fs v = Some (disp fs v)"
    and sig: "\<And>e s. denote e = OpSignal s \<Longrightarrow> tracked P (signal_borrow s)"
    and val: "\<And>e s. denote e = OpSignal s \<Longrightarrow> eval_prog env (signal_borrow s) = Some (val s)"
  shows "grows P env (case l of PushStatic s \<Rightarrow> s | SignalFmt e fs \<Rightarrow> disp fs (case denote e of OpSignal s \<Rightarrow> val s | OpValue v \<Rightarrow> v)) b b'"
proof (cases l)
  case (PushStatic s)
  then have "b' = push_lazy (\<lambda>buf. Return (buf @ s)) b" using run by (simp add: run_let_def push_static_def)
  then show ?thesis using grows_lazy [of P "\<lambda>buf. Return (buf @ s)" env s b] PushStatic by simp
next
  case (SignalFmt e fs)
  show ?thesis
  proof (cases "denote e")
    case (OpSignal s)
    let ?f = "\<lambda>buf. prog_bind (signal_borrow s) (fmt_unwrap fmt fs buf)"
    have "b' = push_lazy ?f b" using run SignalFmt OpSignal by (simp add: run_let_def helper_signal_fmt_def push_signal_def)
    moreover have "tracked P (?f buf)" for buf
      by (rule tracked_prog_bind [OF sig [OF OpSignal]]) (simp add: fmt_unwrap_def display)
    moreover have "eval_prog env (?f buf) = Some (buf @ disp fs (val s))" for buf
      by (simp add: eval_prog_bind val [OF OpSignal] fmt_unwrap_def display)
    ultimately show ?thesis using grows_lazy [of P ?f env "disp fs (val s)" b] SignalFmt OpSignal by simp
  next
    case (OpValue v)
    then have "b' = b\<lparr>sb_buf := sb_buf b @ disp fs v\<rparr>"
      using run SignalFmt by (simp add: run_let_def helper_value_fmt_def push_eager_def display)
    then show ?thesis using grows_eager [of P env "disp fs v" b] SignalFmt OpValue by simp
  qed
qed

definition let_text :: "(string \<Rightarrow> 'v \<Rightarrow> string) \<Rightarrow> ('v signal \<Rightarrow> 'v) \<Rightarrow> ('e \<Rightarrow> 'v operand) \<Rightarrow> 'e fmt_let \<Rightarrow> string" where
  "let_text disp val denote l =
     (case l of PushStatic s \<Rightarrow> s | SignalFmt e fs \<Rightarrow> disp fs (case denote e of OpSignal s \<Rightarrow> val s | OpValue v \<Rightarrow> v))"

lemma run_let_ok: "(\<And>fs v. fmt fs v = Some (disp fs v)) \<Longrightarrow> \<exists>b'. run_let fmt denote l b = Inr b'"
  by (auto simp: run_let_def helper_signal_fmt_def helper_value_fmt_def push_eager_def split: fmt_let.split operand.split)

lemma run_lets:
  assumes display: "\<And>fs v. fmt fs v = Some (disp fs v)"
    and sig: "\<And>e s. denote e = OpSignal s \<Longrightarrow> tracked P (signal_borrow s)"
    and val: "\<And>e s. denote e = OpSignal s \<Longrightarrow> eval_prog env (signal_borrow s) = Some (val s)"
    and b: "builder_wf P b" "builds env b u"
  shows "\<exists>b'. res_fold (run_let fmt denote) lets b = Inr b' \<and> builder_wf P b' \<and> builds env b' (u @ concat (map (let_text disp val denote) lets))"
  using b
proof (induction lets arbitrary: b u)
  case (Cons l lets)
  obtain b1 where run: "run_let fmt denote l b = Inr b1" using run_let_ok [of fmt disp, OF display] by blast
  have "grows P env (let_text disp val denote l) b b1"
    using grows_let [OF run display sig val] by (simp add: let_text_def)
  then have "builder_wf P b1" "builds env b1 (u @ let_text disp val denote l)" using Cons.prems by (auto simp: grows_def)
  from Cons.IH [OF this] show ?case by (simp add: run)
qed simp

subsection \<open>format! as the reference\<close>

text \<open>
  What the standard library's \<open>format!\<close> does with a parsed format string. The text of a variable without a key is that of the positional argument whose number is the number of variables without
  a key before it; an index selects an argument by its position; a name selects the argument of that name, or the variable in scope.

  The text of a piece may depend on other arguments too: a width or a precision may name one (\<open>{:width$}\<close>, \<open>{:1$}\<close>), and \<open>{:.*}\<close> takes one. \<open>text_of\<close> stands for the library's formatting: it is
  given the values of the positional arguments and of all names besides the value that is shown. A format specification is self-contained (\<open>own_spec\<close>) when it contains neither \<open>$\<close> nor \<open>.*\<close>.
\<close>

definition implicit_before :: "fmt_part list \<Rightarrow> nat \<Rightarrow> nat" where
  "implicit_before parts j = length (filter (\<lambda>p. case p of PartVar KeyNone spec \<Rightarrow> True | _ \<Rightarrow> False) (take j parts))"

definition std_named :: "(string \<Rightarrow> 'e) \<Rightarrow> 'e fmt_arg list \<Rightarrow> string \<Rightarrow> 'e" where
  "std_named scope args n = (case filter (\<lambda>a. case a of NameExpr m e \<Rightarrow> m = n | PosExpr e \<Rightarrow> False) args of [] \<Rightarrow> scope n | a # _ \<Rightarrow> arg_expr a)"

definition std_operand :: "(string \<Rightarrow> 'e) \<Rightarrow> 'e fmt_arg list \<Rightarrow> fmt_part list \<Rightarrow> nat \<Rightarrow> var_key \<Rightarrow> 'e" where
  "std_operand scope args parts j key = (case key of
     KeyNone \<Rightarrow> arg_expr (args ! implicit_before parts j)
   | KeyIndex i \<Rightarrow> arg_expr (args ! i)
   | KeyName n \<Rightarrow> std_named scope args n)"

type_synonym 'v std_text = "'v list \<Rightarrow> (string \<Rightarrow> 'v) \<Rightarrow> string \<Rightarrow> 'v \<Rightarrow> string"

definition std_piece :: "'v std_text \<Rightarrow> ('e \<Rightarrow> 'v) \<Rightarrow> (string \<Rightarrow> 'e) \<Rightarrow> 'e fmt_arg list \<Rightarrow> fmt_part list \<Rightarrow> nat \<Rightarrow> string" where
  "std_piece text_of value_of scope args parts j = (case parts ! j of
       PartStr s \<Rightarrow> s
     | PartVar key spec \<Rightarrow> text_of (map (\<lambda>a. value_of (arg_expr a)) args) (\<lambda>n. value_of (std_named scope args n))
         (format_str_from_spec spec) (value_of (std_operand scope args parts j key)))"

definition std_format :: "'v std_text \<Rightarrow> ('e \<Rightarrow> 'v) \<Rightarrow> (string \<Rightarrow> 'e) \<Rightarrow> 'e fmt_arg list \<Rightarrow> fmt_part list \<Rightarrow> string" where
  "std_format text_of value_of scope args parts = concat (map (std_piece text_of value_of scope args parts) [0..<length parts])"

fun own_spec :: "string \<Rightarrow> bool" where
  "own_spec [] = True"
| "own_spec (c # cs) = (c \<noteq> CHR ''$'' \<and> \<not> (c = CHR ''.'' \<and> cs \<noteq> [] \<and> hd cs = CHR ''*'') \<and> own_spec cs)"

definition own_specs :: "fmt_part list \<Rightarrow> bool" where
  "own_specs parts = list_all (\<lambda>p. case p of PartVar key spec \<Rightarrow> own_spec spec | PartStr s \<Rightarrow> True) parts"

text \<open>The library's formatting of a self-contained specification shows the value as \<open>disp\<close> does, whatever the other arguments are.\<close>

definition std_shows :: "'v std_text \<Rightarrow> (string \<Rightarrow> 'v \<Rightarrow> string) \<Rightarrow> bool" where
  "std_shows text_of disp \<longleftrightarrow> (\<forall>pos named spec v. own_spec spec \<longrightarrow> text_of pos named (format_str_from_spec spec) v = disp (format_str_from_spec spec) v)"

text \<open>The value of an operand: a signal is shown by its value.\<close>

definition operand_value :: "('v signal \<Rightarrow> 'v) \<Rightarrow> ('e \<Rightarrow> 'v operand) \<Rightarrow> 'e \<Rightarrow> 'v" where
  "operand_value val denote e = (case denote e of OpSignal s \<Rightarrow> val s | OpValue v \<Rightarrow> v)"

lemma expr_by_name_filter: "expr_by_name scope args n = std_named scope args n"
  by (induction args n rule: expr_by_name_opt.induct) (auto simp: expr_by_name_def std_named_def)

lemma implicit_before_Suc:
  "j < length parts \<Longrightarrow> implicit_before parts (Suc j) = implicit_before parts j + (case parts ! j of PartVar KeyNone spec \<Rightarrow> 1 | _ \<Rightarrow> 0)"
  by (simp add: implicit_before_def take_Suc_conv_app_nth split: fmt_part.split var_key.split)

lemma expand_step:
  assumes "key_to_expr scope args key (implicit_before parts j) = (Inr e, i)" and "j < length parts" and "parts ! j = PartVar key spec"
  shows "i = implicit_before parts (Suc j)" and "e = std_operand scope args parts j key"
  using assms
  by (auto simp: implicit_before_Suc std_operand_def key_to_expr_def find_expr_by_index_def expr_by_name_filter split: var_key.splits if_splits)

lemma expand_std:
  assumes shows_own: "std_shows text_of disp" "own_specs parts"
    and "expand_parts scope args (implicit_before parts j) (drop j parts) = Inr (ds, lets)" and "j \<le> length parts"
  shows "concat (map (let_text disp val denote) lets)
       = concat (map (std_piece text_of (operand_value val denote) scope args parts) [j..<length parts])"
  using assms(4,3)
proof (induction arbitrary: ds lets rule: inc_induct)
  case (step j)
  have dj: "drop j parts = parts ! j # drop (Suc j) parts" using step.hyps by (simp add: Cons_nth_drop_Suc)
  have upt: "[j..<length parts] = j # [Suc j..<length parts]" using step.hyps by (simp add: upt_conv_Cons)
  show ?case
  proof (cases "parts ! j")
    case (PartStr s)
    then obtain lets1 where "expand_parts scope args (implicit_before parts (Suc j)) (drop (Suc j) parts) = Inr (ds, lets1)" "lets = PushStatic s # lets1"
      using step.prems step.hyps by (auto simp: dj implicit_before_Suc split: sum.splits)
    then show ?thesis using step.IH by (simp add: upt let_text_def std_piece_def PartStr)
  next
    case (PartVar key spec)
    obtain e i where ke: "key_to_expr scope args key (implicit_before parts j) = (Inr e, i)"
      using step.prems by (auto simp: dj PartVar split: prod.splits sum.splits)
    note e = expand_step [OF ke step.hyps(2) PartVar]
    obtain ds1 lets1 where "expand_parts scope args i (drop (Suc j) parts) = Inr (ds1, lets1)" "lets = SignalFmt e (format_str_from_spec spec) # lets1"
      using step.prems by (auto simp: dj PartVar ke split: prod.splits sum.splits)
    moreover have "own_spec spec" using shows_own(2) step.hyps(2) PartVar by (auto simp: own_specs_def list_all_length)
    ultimately show ?thesis using step.IH e shows_own(1) by (simp add: upt let_text_def std_piece_def operand_value_def PartVar std_shows_def)
  qed
qed simp

text \<open>
  C39. \<open>signal_format!\<close> is \<open>format!\<close> of the current values. When the macro accepts a format string and its arguments, the code it generates builds a signal without a panic (provided that the
  operands are signals of the graph or plain values and their implementations of the format traits return no error); the new node keeps the graph sound, and the value of the
  signal is the string that \<open>format!\<close> makes of the format string when every signal is replaced by its value, provided that no format specification contains \<open>$\<close> or \<open>.*\<close> (widths and precisions
  that are arguments, which the macro does not pass on): each literal and each argument in its place, also where plain
  values, formatted at once, and signals and literals, formatted at each update, alternate.
\<close>

theorem signal_format_means:
  assumes laws: "slab_laws ops" and inv: "sys_inv ops G w" and own: "own_specs parts" and std: "std_shows text_of disp"
    and expand: "parse_parts id_ok s = Inr parts" "signal_format id_ok scope s args = Inr x"
    and sig: "\<And>e sg. denote e = OpSignal sg \<Longrightarrow> sig_ok w sg" and display: "\<And>fs v. fmt fs v = Some (disp fs v)"
    and meaning: "\<And>b. run_expansion fmt denote x = Inr b \<Longrightarrow> G (next_id w) = format_prog str_value b"
  shows "\<exists>b sg w'. run_expansion fmt denote x = Inr b \<and> format_build ops str_value the_str b w = (sg, w')
    \<and> sys_inv ops G w' \<and> closed_prog w' (built_borrow sg)
    \<and> eval_prog (sem G w') (built_borrow sg)
        = Some (str_value (std_format text_of (operand_value (\<lambda>s. the (sig_value G w s)) denote) scope args parts))"
proof -
  let ?val = "\<lambda>s. the (sig_value G w s)" and ?t = "concat (map (let_text disp (\<lambda>s. the (sig_value G w s)) denote) (ex_lets x))"
  have eq: "?t = std_format text_of (operand_value ?val denote) scope args parts"
    using expand expand_std [OF std own, of scope args 0 _ _ ?val denote] by (auto simp: signal_format_def std_format_def implicit_before_def split: sum.splits prod.splits)
  have "eval_prog (sem G w) (signal_borrow sg) = Some (?val sg)" if "denote e = OpSignal sg" for e sg
    using sig_has_value [OF laws inv sig [OF that]] by (auto simp: sig_value_def)
  moreover have "tracked (is_source w) (signal_borrow sg)" if "denote e = OpSignal sg" for e sg
    using sig [OF that] by (simp add: sig_ok_def closed_prog_def)
  moreover have "builder_wf (is_source w) (signal_string_builder :: 'b string_builder)" "builds (sem G w) (signal_string_builder :: 'b string_builder) []"
    by (simp_all add: builder_wf_def builds_def signal_string_builder_def)
  ultimately have "\<exists>b. run_expansion fmt denote x = Inr b \<and> builder_wf (is_source w) b \<and> builds (sem G w) b ([] @ ?t)"
    unfolding run_expansion_def by (intro run_lets) (use display in auto)
  then obtain b where b: "run_expansion fmt denote x = Inr b" "builder_wf (is_source w) b" "builds (sem G w) b ?t" by auto
  let ?g = "format_prog str_value b"
  have G: "G (next_id w) = ?g" by (rule meaning [OF b(1)])
  obtain n w' where new: "scan_new ops (Some (str_value [])) (get_fn_get ?g) DiscardFnKeep w = (n, w')" by fastforce
  have n: "n = next_id w" using new by (simp add: scan_new_def Let_def)
  have fits: "fits_scan (G n) (get_fn_get ?g)" by (simp add: n G fits_scan_def)
  have "closed_prog w (G n)" using format_prog_tracked [OF b(2)] by (simp add: n G closed_prog_def)
  note built = scan_new_value [OF laws inv new fits this]
  have map_id: "map_apply_raw map_none Return = Return" by (simp add: fun_eq_iff map_apply_raw_def map_none_def)
  let ?sg = "\<lparr>bs_node = n, bs_map = \<lambda>v. Return v\<rparr> :: 'b built_signal"
  have "format_build ops str_value the_str b w = (?sg, w')"
    using new map_id by (simp add: format_build_def scan_build_def sb_from_scan_def sb_map_def scan_map_raw_def new_scan_builder_def format_scan_get)
  moreover have "closed_prog w' (built_borrow ?sg)" using built(2) by (simp add: built_borrow_def sig_ok_def)
  moreover have "eval_prog (sem G w') (built_borrow ?sg) = Some (str_value ?t)"
    using built(3) builds_value [OF b(2,3)] by (simp add: built_borrow_def sig_value_def n G)
  ultimately show ?thesis using b(1) built(1) eq by metis
qed

text \<open>A state that holds \<open>x\<close>, captured by name, and a plain argument \<open>y\<close>.\<close>

definition ex_format_world :: "(sink_binding option list, string) world" where
  "ex_format_world = snd (state_new vec_slab ''x'' (world_init (Some config_default)))"

definition ex_format_parts :: "fmt_part list" where
  "ex_format_parts = [PartVar (KeyName ''a'') [], PartStr '': '', PartVar KeyNone '':?'', PartStr ''!'']"

lemma ex_format_parse: "parse_parts (\<lambda>_. True) ''{a}: {::?}!'' = Inr ex_format_parts"
proof -
  have "parse_usize ''a'' = None" by (simp add: parse_usize_def digit_value_def)
  then have "parts_ok (\<lambda>_. True) ex_format_parts" by (simp add: ex_format_parts_def key_ok_def key_plain_def plain_def)
  from parse_print [OF this] show ?thesis by (simp add: ex_format_parts_def print_parts_def escape_char_def)
qed

text \<open>The two expressions are \<open>True\<close>, the captured signal, and \<open>False\<close>, the plain argument.\<close>

definition ex_operand :: "bool \<Rightarrow> string operand" where
  "ex_operand e = (if e then OpSignal (GraphSignal 0) else OpValue ''y'')"

theorem signal_format_means_witness:
  "\<exists>G x b sg w'. signal_format (\<lambda>_. True) (\<lambda>_. True) ''{a}: {::?}!'' [PosExpr False] = Inr x
    \<and> run_expansion (\<lambda>fs v. Some v) ex_operand x = Inr b \<and> format_build vec_slab (\<lambda>s. s) (\<lambda>s. s) b ex_format_world = (sg, w')
    \<and> sys_inv vec_slab G w' \<and> eval_prog (sem G w') (built_borrow sg) = Some ''x: y!''"
proof -
  obtain x where x: "signal_format (\<lambda>_. True) (\<lambda>_. True) ''{a}: {::?}!'' [PosExpr False] = Inr x"
    by (simp add: signal_format_def ex_format_parse) (simp add: ex_format_parts_def key_to_expr_def find_expr_by_index_def)
  define G where "G = (\<lambda>_ :: nid. case run_expansion (\<lambda>fs v. Some v) ex_operand x of Inr b \<Rightarrow> format_prog (\<lambda>s. s) b | Inl _ \<Rightarrow> Fail)"
  have new: "state_new vec_slab ''x'' (world_init (Some config_default)) = (0, ex_format_world)"
    by (simp add: ex_format_world_def state_new_def world_init_def)
  have init: "sys_inv vec_slab G (world_init (Some config_default))" by (rule sys_inv_init)
  note ok = state_new_ok [OF vec_slab_laws init new]
  have v: "sem G ex_format_world 0 = Some ''x''"
    using ok(3) by (simp add: sem_state ex_format_world_def state_new_def world_init_def view_defs put_node_def)
  have sig: "sig_ok ex_format_world sg" if "ex_operand e = OpSignal sg" for e sg
    using that ok(3) by (auto simp: ex_operand_def sig_ok_def closed_prog_def is_source_code split: if_splits)
  have own: "own_specs ex_format_parts" by (simp add: own_specs_def ex_format_parts_def)
  have std: "std_shows (\<lambda>_ _ fs v. v) (\<lambda>fs v. v)" by (simp add: std_shows_def)
  have "\<exists>b sg w'. run_expansion (\<lambda>fs v. Some v) ex_operand x = Inr b \<and> format_build vec_slab (\<lambda>s. s) (\<lambda>s. s) b ex_format_world = (sg, w')
    \<and> sys_inv vec_slab G w' \<and> closed_prog w' (built_borrow sg) \<and> eval_prog (sem G w') (built_borrow sg)
       = Some (std_format (\<lambda>_ _ fs v. v) (operand_value (\<lambda>s. the (sig_value G ex_format_world s)) ex_operand) (\<lambda>_. True) [PosExpr False] ex_format_parts)"
    by (rule signal_format_means [OF vec_slab_laws ok(1) own std ex_format_parse x]) (use sig in \<open>simp_all add: G_def\<close>)
  moreover have "std_format (\<lambda>_ _ fs v. v) (operand_value (\<lambda>s. the (sig_value G ex_format_world s)) ex_operand) (\<lambda>_. True) [PosExpr False] ex_format_parts = ''x: y!''"
    using v by (simp add: std_format_def ex_format_parts_def std_piece_def std_operand_def std_named_def implicit_before_def operand_value_def ex_operand_def sig_value_def upt_rec)
  ultimately show ?thesis using x by metis
qed

end
