(* ===== verification/Keep_Node.thy ===== *)
theory Keep_Node
  imports Async_Node
begin

section \<open>Signals that keep their cache (signal/signal\_t/keep.rs)\<close>

text \<open>
  \<open>Signal::keep\<close> wraps a signal in a \<open>KeepNode\<close>, a sink that is bound to the signal and to nothing else: as long as it is bound, the signal has a
  dependant and its cache is not discarded. A reader is not bound to the node but to the signal itself. Reading the signal is the
  argument \<open>read\<close>, as is everything the node reaches through \<open>dyn\<close> calls.
\<close>

type_synonym ('v, 'w) read_signal = "sink option \<Rightarrow> 'w \<Rightarrow> ('v \<times> sink option \<times> 'w) result"

record keep_node =
  kn_binder :: source_binder

definition keep_new :: "nid \<Rightarrow> keep_node" where
  "keep_new this = \<lparr>kn_binder = binder_new this 0\<rparr>"

text \<open>The closure of \<open>update\<close>, which ignores the value it reads.\<close>

definition keep_watch :: "('v, 'w) read_signal \<Rightarrow> sink \<Rightarrow> 'w \<Rightarrow> (unit \<times> sink \<times> unbinds \<times> 'w) result" where
  "keep_watch read k w = res_bind (read (Some k) w) (\<lambda>(v, ko, w1). case ko of None \<Rightarrow> Inl Unreachable | Some k1 \<Rightarrow> Inr ((), k1, [], w1))"

definition keep_update :: "('w, 'm, 'g) node_env \<Rightarrow> ('v, 'w) read_signal \<Rightarrow> keep_node \<Rightarrow> 'w \<Rightarrow> (keep_node \<times> 'w) result" where
  "keep_update env read n w =
     (let b = kn_binder n in
      if binder_is_clean b then Inr (n, w)
      else res_bind (update_with env (sbr_sink b) (sbr_slot b) True (keep_watch read) (sbr_sources b) w) (\<lambda>(_, bs, _, w1).
        Inr (n\<lparr>kn_binder := b\<lparr>sbr_dirty := Clean, sbr_sources := bs\<rparr>\<rparr>, w1)))"

definition keep_borrow ::
    "('w, 'm, 'g) node_env \<Rightarrow> ('v, 'w) read_signal \<Rightarrow> sink option \<Rightarrow> keep_node \<Rightarrow> 'w \<Rightarrow> ('v \<times> sink option \<times> keep_node \<times> 'w) result" where
  "keep_borrow env read ko n w =
     res_bind (keep_update env read n w) (\<lambda>(n1, w1). res_bind (read ko w1) (\<lambda>(v, ko1, w2). Inr (v, ko1, n1, w2)))"

definition keep_notify :: "slot \<Rightarrow> dirty_level \<Rightarrow> keep_node \<Rightarrow> keep_node" where
  "keep_notify slot level n = (let (_, b) = binder_on_notify slot level (kn_binder n) in n\<lparr>kn_binder := b\<rparr>)"

subsection \<open>The node never lets go\<close>

text \<open>
  What is used of the signal: reading it with a write head records one binding under the head, the one of the signal. Then the node is bound to the signal after the first
  read, whatever follows, and a read is the read of the signal after at most one read on behalf of the node.
\<close>

definition binds_one :: "('v, 'w) read_signal \<Rightarrow> source_binding \<Rightarrow> bool" where
  "binds_one read b \<longleftrightarrow> (\<forall>k w v ko w'. read (Some k) w = Inr (v, ko, w')
     \<longrightarrow> (\<exists>k'. ko = Some k' \<and> sk_len k' = Suc (sk_len k) \<and> take (sk_len k') (sk_sources k') = take (sk_len k) (sk_sources k) @ [b]))"

datatype keep_call = KeepBorrow "sink option" | KeepNotify slot dirty_level

definition do_keep_call :: "('w, 'm, 'g) node_env \<Rightarrow> ('v, 'w) read_signal \<Rightarrow> keep_call \<Rightarrow> keep_node \<times> 'w \<Rightarrow> (keep_node \<times> 'w) result" where
  "do_keep_call env read c = (\<lambda>(n, w). case c of
       KeepBorrow ko \<Rightarrow> res_bind (keep_borrow env read ko n w) (\<lambda>(_, _, n1, w1). Inr (n1, w1))
     | KeepNotify slot level \<Rightarrow> Inr (keep_notify slot level n, w))"

lemma keep_update_binds:
  assumes "binds_one read b" and "keep_update env read n w = Inr (n', w')" and "binder_is_clean (kn_binder n) \<Longrightarrow> sbr_sources (kn_binder n) = [b]"
  shows "sbr_sources (kn_binder n') = [b]" and "binder_is_clean (kn_binder n')"
proof -
  have "sbr_sources (kn_binder n') = [b] \<and> binder_is_clean (kn_binder n')"
  proof (cases "binder_is_clean (kn_binder n)")
    case True
    then show ?thesis using assms(2,3) by (simp add: keep_update_def)
  next
    case False
    then obtain x bs us w1 where u: "update_with env (sbr_sink (kn_binder n)) (sbr_slot (kn_binder n)) True (keep_watch read) (sbr_sources (kn_binder n)) w = Inr (x, bs, us, w1)"
      and n': "n' = n\<lparr>kn_binder := (kn_binder n)\<lparr>sbr_dirty := Clean, sbr_sources := bs\<rparr>\<rparr>"
      using assms(2) by (auto simp: keep_update_def res_bind_eq_Inr Let_def)
    have "bs = [b]"
      using u assms(1) unfolding binds_one_def by (fastforce simp: update_with_def keep_watch_def res_bind_eq_Inr Let_def split: option.splits)
    then show ?thesis by (simp add: n' binder_is_clean_def is_clean_def)
  qed
  then show "sbr_sources (kn_binder n') = [b]" "binder_is_clean (kn_binder n')" by blast+
qed

definition keep_bound :: "source_binding \<Rightarrow> keep_node \<Rightarrow> bool" where
  "keep_bound b n \<longleftrightarrow> sbr_sources (kn_binder n) = [b]"

lemma keep_notify_sources [simp]: "sbr_sources (kn_binder (keep_notify slot level n)) = sbr_sources (kn_binder n)"
  by (simp add: keep_notify_def binder_on_notify_def Let_def split: prod.split)

lemma keep_call_bound: "binds_one read b \<Longrightarrow> keep_bound b n \<Longrightarrow> do_keep_call env read c (n, w) = Inr (n', w') \<Longrightarrow> keep_bound b n'"
  by (cases c) (auto simp: do_keep_call_def keep_borrow_def keep_bound_def res_bind_eq_Inr dest!: keep_update_binds(1))

lemma keep_never_lets_go:
  assumes one: "binds_one read b" and first: "keep_borrow env read ko (keep_new this) w = Inr (v, ko', n, w1)"
    and run: "res_fold (do_keep_call env read) cs (n, w1) = Inr (n', w')"
  shows "keep_bound b n'"
proof -
  have "keep_bound b n"
    using first by (auto simp: keep_borrow_def keep_bound_def res_bind_eq_Inr keep_new_def binder_new_def binder_is_clean_def is_clean_def dest!: keep_update_binds(1) [OF one])
  then show ?thesis using run
  proof (induction cs arbitrary: n w1)
    case (Cons c cs)
    then obtain n2 w2 where "do_keep_call env read c (n, w1) = Inr (n2, w2)" "res_fold (do_keep_call env read) cs (n2, w2) = Inr (n', w')"
      by (auto simp: res_bind_eq_Inr)
    then show ?case using Cons.IH keep_call_bound [OF one Cons.prems(1)] by blast
  qed simp
qed

end
