(* ===== verification/Runtime_Loop.thy ===== *)
theory Runtime_Loop
  imports Graph_Lifecycle
begin

section \<open>The runtime: queues, wakers, asynchronous actions and the dispatch loops (core.rs)\<close>

text \<open>
  The second half of core.rs: actions, the wake table, asynchronous actions and the loops of
  \<open>RawRuntime\<close> over the queues of \<open>Globals\<close>. The record \<open>runtime\<close> extends the \<open>world\<close> of the graph
  with the remaining fields of \<open>Globals\<close>, \<open>WakeTable\<close> and \<open>RuntimeData\<close>, so every graph operation
  applies to it unchanged.

  A closure that gets an \<open>ActionContext\<close> is a program over the operations of that context. A
  future is such a program that may suspend: \<open>AAwait k\<close> is a poll that returns \<open>Poll::Pending\<close> and
  leaves \<open>k\<close> for the next poll; \<open>ADone\<close> returns (\<open>Poll::Ready\<close> in a poll). Such programs are
  finite trees: a closure that schedules itself again without end, which the source allows, is not
  among them. The loops that may run forever in the source take fuel.
\<close>

subsection \<open>Actions\<close>

datatype 'v act =
    ADone
  | APanic
  | AAwait "'v act"
  | AGet nid "'v \<Rightarrow> 'v act"                     \<comment> \<open>\<open>signal.get(&mut ac.sc())\<close>\<close>
  | ASet nid 'v "'v act"                        \<comment> \<open>\<open>state.set(v, ac)\<close>\<close>
  | ASetDedup nid 'v "'v act"
  | ASpawn phase "'v act" "'v act"              \<comment> \<open>\<open>spawn_action_in\<close>\<close>
  | ASpawnAsync phase "'v act" "'v act"         \<comment> \<open>\<open>spawn_action_async_in\<close>\<close>
  | AReaction phase "('v, unit) prog" "'v act"  \<comment> \<open>\<open>Reaction::new(f).schedule_in(phase)\<close>\<close>
  | AWake bind_key "'v act"                     \<comment> \<open>\<open>waker.wake()\<close>\<close>

text \<open>
  \<open>RawAction\<close>: a boxed closure; the boxed closure of \<open>spawn_action_async_in\<close>; \<open>AsyncAction::next\<close>
  of a shared asynchronous action (\<open>to_action\<close>).
\<close>

datatype 'v action =
    ActBox "'v act"
  | ActStartAsync phase "'v act"
  | ActNext nat

datatype wake_reaction =
    WakeNotify nid slot
  | WakeAsync nat

record 'v async_data =
  ad_future :: "'v act"
  ad_waker :: bind_key
  ad_id :: bind_key

record 'v async_action =
  aa_phase :: phase
  aa_data :: "'v async_data option ref_cell"

record ('m, 'v, 's, 't) runtime = "('m, 'v) world" +
  g_actions :: "'v action buckets"
  wk_reactions :: 's
  rq_wakes :: "bind_key list"
  rq_drops :: "bind_key list"
  async_actions :: 't
  async_heap :: "nat \<Rightarrow> 'v async_action option"
  next_async :: nat
  g_runtime :: bool                          \<comment> \<open>\<open>Globals::runtime\<close> holds the lent runtime\<close>

text \<open>The three slab maps of the runtime.\<close>

record ('m, 's, 't) slabs =
  sink_slab :: "('m, sink_binding) slab_ops"
  wake_slab :: "('s, wake_reaction) slab_ops"
  async_slab :: "('t, nat) slab_ops"

type_synonym ('m, 'v, 's, 't) runtime_op = "('m, 'v, 's, 't) runtime \<Rightarrow> ('m, 'v, 's, 't) runtime result"

subsection \<open>Globals\<close>

definition push_action ::
    "phase \<Rightarrow> 'v action \<Rightarrow> ('m, 'v, 's, 't) runtime_op" where
  "push_action p a w =
     res_bind (case g_config w of None \<Rightarrow> Inr () | Some c \<Rightarrow> assert_valid_action_phase c p) (\<lambda>_.
     res_bind (bk_push (sint p) a (g_actions w)) (\<lambda>b. Inr (w\<lparr>g_actions := b\<rparr>)))"

definition schedule_action :: "phase \<Rightarrow> 'v action \<Rightarrow> ('m, 'v, 's, 't) runtime_op" where
  "schedule_action p a w = res_bind (push_action p a w) (\<lambda>w1. Inr (global_wake w1))"

definition wake_one ::
    "('m, 's, 't) slabs \<Rightarrow> bind_key \<Rightarrow> ('m, 'v, 's, 't) runtime_op" where
  "wake_one L key w =
     (case slab_get (wake_slab L) (wk_reactions w) key of
        None \<Rightarrow> Inr w
      | Some (WakeNotify n slot) \<Rightarrow> Inr (w\<lparr>g_notifys := g_notifys w @ [(n, slot)]\<rparr>)
      | Some (WakeAsync a) \<Rightarrow>
          (case async_heap w a of
             None \<Rightarrow> Inl Unreachable
           | Some x \<Rightarrow> push_action (aa_phase x) (ActNext a) w))"

text \<open>The entries whose waker is gone are removed first, then the wakes are served in order.\<close>

definition apply_wake :: "('m, 's, 't) slabs \<Rightarrow> ('m, 'v, 's, 't) runtime_op" where
  "apply_wake L w =
     (let w1 = w\<lparr>wk_reactions := fold (\<lambda>key s. slab_remove (wake_slab L) s key) (rq_drops w) (wk_reactions w),
                 rq_drops := []\<rparr>
      in res_fold (wake_one L) (rq_wakes w1) (w1\<lparr>rq_wakes := []\<rparr>))"

definition get_notifys ::
    "('m, 's, 't) slabs \<Rightarrow> ('m, 'v, 's, 't) runtime \<Rightarrow> ((nid \<times> slot) list \<times> ('m, 'v, 's, 't) runtime) result" where
  "get_notifys L w = res_bind (apply_wake L w) (\<lambda>w1. Inr (g_notifys w1, w1\<lparr>g_notifys := []\<rparr>))"

definition get_reactions ::
    "phase option \<Rightarrow> ('m, 'v, 's, 't) runtime \<Rightarrow> 'v reaction list \<times> ('m, 'v, 's, 't) runtime" where
  "get_reactions p w = (let (rs, b) = bk_drain (map_option sint p) [] (g_reactions w) in (rs, w\<lparr>g_reactions := b\<rparr>))"

definition get_action ::
    "('m, 's, 't) slabs \<Rightarrow> phase \<Rightarrow> ('m, 'v, 's, 't) runtime \<Rightarrow> ('v action option \<times> ('m, 'v, 's, 't) runtime) result" where
  "get_action L p w = res_bind (apply_wake L w) (\<lambda>w1.
     let (a, b) = bk_pop_front (sint p) (g_actions w1) in Inr (a, w1\<lparr>g_actions := b\<rparr>))"

definition get_actions ::
    "('m, 's, 't) slabs \<Rightarrow> phase option \<Rightarrow> ('m, 'v, 's, 't) runtime \<Rightarrow> ('v action list \<times> ('m, 'v, 's, 't) runtime) result" where
  "get_actions L p w = res_bind (apply_wake L w) (\<lambda>w1.
     let (xs, b) = bk_drain (map_option sint p) [] (g_actions w1) in Inr (xs, w1\<lparr>g_actions := b\<rparr>))"

text \<open>
  \<open>RawWake::wake\<close> and \<open>RawWake::drop\<close>, which may run on any thread between two operations of the
  runtime; \<open>WakeReaction::into_waker\<close>.
\<close>

definition raw_wake :: "bind_key \<Rightarrow> ('m, 'v, 's, 't) runtime \<Rightarrow> ('m, 'v, 's, 't) runtime" where
  "raw_wake key w =
     (let w1 = w\<lparr>rq_wakes := rq_wakes w @ [key]\<rparr>
      in if g_waker w1 then w1\<lparr>g_waker := False, g_woken := Suc (g_woken w1)\<rparr> else w1)"

definition raw_wake_drop :: "bind_key \<Rightarrow> ('m, 'v, 's, 't) runtime \<Rightarrow> ('m, 'v, 's, 't) runtime" where
  "raw_wake_drop key w = w\<lparr>rq_drops := rq_drops w @ [key]\<rparr>"

definition into_waker ::
    "('m, 's, 't) slabs \<Rightarrow> wake_reaction \<Rightarrow> ('m, 'v, 's, 't) runtime \<Rightarrow> bind_key \<times> ('m, 'v, 's, 't) runtime" where
  "into_waker L r w = (let (key, s) = slab_insert (wake_slab L) (wk_reactions w) r in (key, w\<lparr>wk_reactions := s\<rparr>))"

definition wait_for_ready :: "('m, 'v, 's, 't) runtime \<Rightarrow> bool \<times> ('m, 'v, 's, 't) runtime" where
  "wait_for_ready w =
     (let w1 = w\<lparr>g_need_wake := False\<rparr> in
      if g_notifys w1 \<noteq> [] \<or> \<not> bk_is_empty (g_actions w1) \<or> \<not> bk_is_empty (g_reactions w1) \<or> g_unbinds w1 \<noteq> []
      then (True, w1)
      else if rq_drops w1 \<noteq> [] \<or> rq_wakes w1 \<noteq> [] then (True, w1)
      else (False, w1\<lparr>g_waker := True, g_need_wake := True\<rparr>))"

subsection \<open>Pending unbinds and notifications\<close>

fun apply_unbind ::
    "('m, 's, 't) slabs \<Rightarrow> nat \<Rightarrow> ('m, 'v, 's, 't) runtime \<Rightarrow> (bool \<times> ('m, 'v, 's, 't) runtime) result" where
  "apply_unbind L 0 w = Inl OutOfFuel"
| "apply_unbind L (Suc fuel) w =
     (if g_unbinds w = [] then Inr (False, w)
      else res_bind (res_fold (unbind_all (sink_slab L)) (g_unbinds w) (w\<lparr>g_unbinds := []\<rparr>)) (\<lambda>w1.
           res_bind (apply_unbind L fuel w1) (\<lambda>(_, w2). Inr (True, w2))))"

fun notify_loop ::
    "('m, 's, 't) slabs \<Rightarrow> nat \<Rightarrow> ('m, 'v, 's, 't) runtime \<Rightarrow> (bool \<times> ('m, 'v, 's, 't) runtime) result" where
  "notify_loop L 0 w = Inl OutOfFuel"
| "notify_loop L (Suc fuel) w =
     res_bind (get_notifys L w) (\<lambda>(ns, w1).
       if ns = [] then Inr (False, w1)
       else res_bind (res_fold (\<lambda>(n, slot). do_notify (sink_slab L) n slot LevelDirty) ns w1) (\<lambda>w2.
            res_bind (notify_loop L fuel w2) (\<lambda>(_, w3). Inr (True, w3))))"

text \<open>Two rounds are enough for either loop: the first empties the list, the second finds it empty.\<close>

definition apply_notify_all ::
    "('m, 's, 't) slabs \<Rightarrow> ('m, 'v, 's, 't) runtime \<Rightarrow> (bool \<times> ('m, 'v, 's, 't) runtime) result" where
  "apply_notify_all L w =
     res_bind (apply_unbind L 2 w) (\<lambda>(h1, w1).
     res_bind (notify_loop L 2 w1) (\<lambda>(h2, w2). Inr (h1 \<or> h2, w2)))"

text \<open>Reading from the runtime: \<open>sc()\<close> applies the pending notifications first.\<close>

definition runtime_get ::
    "('m, 's, 't) slabs \<Rightarrow> nid \<Rightarrow> ('m, 'v, 's, 't) runtime \<Rightarrow> ('v \<times> ('m, 'v, 's, 't) runtime) result" where
  "runtime_get L n w = res_bind (apply_notify_all L w) (\<lambda>(_, w1). signal_get (sink_slab L) n w1)"

subsection \<open>Running actions\<close>

text \<open>The run of a closure, up to its end (\<open>None\<close>) or its suspension.\<close>

primrec act_run ::
    "('m, 's, 't) slabs \<Rightarrow> 'v act \<Rightarrow> ('m, 'v, 's, 't) runtime \<Rightarrow> ('v act option \<times> ('m, 'v, 's, 't) runtime) result" where
  "act_run L ADone = (\<lambda>w. Inr (None, w))"
| "act_run L APanic = (\<lambda>w. Inl UserPanic)"
| "act_run L (AAwait k) = (\<lambda>w. Inr (Some k, w))"
| "act_run L (AGet n k) = (\<lambda>w. res_bind (runtime_get L n w) (\<lambda>(v, w1). act_run L (k v) w1))"
| "act_run L (ASet n v k) = (\<lambda>w. res_bind (state_set (sink_slab L) n v w) (act_run L k))"
| "act_run L (ASetDedup n v k) = (\<lambda>w. res_bind (state_set_dedup (sink_slab L) n v w) (act_run L k))"
| "act_run L (ASpawn p a k) = (\<lambda>w. res_bind (schedule_action p (ActBox a) w) (act_run L k))"
| "act_run L (ASpawnAsync p a k) = (\<lambda>w. res_bind (schedule_action p (ActStartAsync p a) w) (act_run L k))"
| "act_run L (AReaction p r k) = (\<lambda>w. res_bind (schedule_reaction p (UserReaction r) w) (act_run L k))"
| "act_run L (AWake key k) = (\<lambda>w. act_run L k (raw_wake key w))"

text \<open>
  \<open>AsyncAction\<close>. Its data cell is exclusively borrowed while \<open>f\<close> runs. Taking the data drops the
  future and the waker; the waker's clones are held by the future.
\<close>

definition put_async :: "nat \<Rightarrow> 'v async_data option ref_cell \<Rightarrow> ('m, 'v, 's, 't) runtime \<Rightarrow> ('m, 'v, 's, 't) runtime" where
  "put_async a c w = (case async_heap w a of None \<Rightarrow> w
     | Some x \<Rightarrow> w\<lparr>async_heap := (async_heap w)(a \<mapsto> x\<lparr>aa_data := c\<rparr>)\<rparr>)"

definition async_finish ::
    "('m, 's, 't) slabs \<Rightarrow> nat \<Rightarrow> 'v async_data \<Rightarrow> ('m, 'v, 's, 't) runtime \<Rightarrow> ('m, 'v, 's, 't) runtime" where
  "async_finish L a d w =
     (let w1 = raw_wake_drop (ad_waker d) (put_async a (new_cell None) w)
      in w1\<lparr>async_actions := slab_remove (async_slab L) (async_actions w1) (ad_id d)\<rparr>)"

definition async_next :: "('m, 's, 't) slabs \<Rightarrow> nat \<Rightarrow> ('m, 'v, 's, 't) runtime_op" where
  "async_next L a w =
     (case async_heap w a of
        None \<Rightarrow> Inl Unreachable
      | Some x \<Rightarrow>
          if cell_mut (aa_data x) then Inl BorrowMutError
          else (case cell_val (aa_data x) of
             None \<Rightarrow> Inr w
           | Some d \<Rightarrow>
               res_bind (act_run L (ad_future d) (put_async a \<lparr>cell_val = Some d, cell_mut = True\<rparr> w)) (\<lambda>(r, w1).
                 case r of
                   None \<Rightarrow> Inr (async_finish L a d w1)
                 | Some k \<Rightarrow> Inr (put_async a (new_cell (Some (d\<lparr>ad_future := k\<rparr>))) w1))))"

definition async_cancel :: "('m, 's, 't) slabs \<Rightarrow> nat \<Rightarrow> ('m, 'v, 's, 't) runtime_op" where
  "async_cancel L a w =
     (case async_heap w a of
        None \<Rightarrow> Inl Unreachable
      | Some x \<Rightarrow>
          if cell_mut (aa_data x) then Inl BorrowMutError
          else (case cell_val (aa_data x) of
             None \<Rightarrow> Inr w
           | Some d \<Rightarrow> Inr (async_finish L a d w)))"

definition async_start :: "('m, 's, 't) slabs \<Rightarrow> phase \<Rightarrow> 'v act \<Rightarrow> ('m, 'v, 's, 't) runtime_op" where
  "async_start L p f w =
     (let a = next_async w;
          (i, t) = slab_insert (async_slab L) (async_actions w) a;
          (key, w1) = into_waker L (WakeAsync a) (w\<lparr>async_actions := t, next_async := Suc a\<rparr>);
          x = \<lparr>aa_phase = p, aa_data = new_cell (Some \<lparr>ad_future = f, ad_waker = key, ad_id = i\<rparr>)\<rparr>
      in async_next L a (w1\<lparr>async_heap := (async_heap w1)(a \<mapsto> x)\<rparr>))"

definition action_call :: "('m, 's, 't) slabs \<Rightarrow> 'v action \<Rightarrow> ('m, 'v, 's, 't) runtime_op" where
  "action_call L a w =
     (case a of
        ActBox f \<Rightarrow> res_bind (act_run L f w) (\<lambda>(r, w1). case r of None \<Rightarrow> Inr w1 | Some _ \<Rightarrow> Inl Unreachable)
      | ActStartAsync p f \<Rightarrow> async_start L p f w
      | ActNext i \<Rightarrow> async_next L i w)"

subsection \<open>The dispatch loops of RawRuntime\<close>

definition dispatch_action ::
    "('m, 's, 't) slabs \<Rightarrow> phase \<Rightarrow> ('m, 'v, 's, 't) runtime \<Rightarrow> (bool \<times> ('m, 'v, 's, 't) runtime) result" where
  "dispatch_action L p w =
     res_bind (get_action L p w) (\<lambda>(a, w1).
       case a of None \<Rightarrow> Inr (False, w1)
       | Some x \<Rightarrow> res_bind (action_call L x w1) (\<lambda>w2. Inr (True, w2)))"

fun dispatch_actions_with ::
    "('m, 's, 't) slabs \<Rightarrow> nat \<Rightarrow> phase option \<Rightarrow> ('m, 'v, 's, 't) runtime \<Rightarrow> (bool \<times> ('m, 'v, 's, 't) runtime) result" where
  "dispatch_actions_with L 0 p w = Inl OutOfFuel"
| "dispatch_actions_with L (Suc fuel) p w =
     res_bind (get_actions L p w) (\<lambda>(xs, w1).
       if xs = [] then Inr (False, w1)
       else res_bind (res_fold (action_call L) xs w1) (\<lambda>w2.
            res_bind (dispatch_actions_with L fuel p w2) (\<lambda>(_, w3). Inr (True, w3))))"

definition reaction_run ::
    "('m, 's, 't) slabs \<Rightarrow> 'v reaction \<Rightarrow> ('m, 'v, 's, 't) runtime_op" where
  "reaction_run L r w =
     (case r of
        EffectCall n \<Rightarrow> effect_call (sink_slab L) n w
      | ScanDiscard n \<Rightarrow> scan_discard (sink_slab L) n w
      | UserReaction p \<Rightarrow> res_bind (run_prog (sink_slab L) (do_update (sink_slab L)) p None w) (\<lambda>(_, _, w1). Inr w1))"

definition dispatch_reactions_with ::
    "('m, 's, 't) slabs \<Rightarrow> phase option \<Rightarrow> ('m, 'v, 's, 't) runtime \<Rightarrow> (bool \<times> ('m, 'v, 's, 't) runtime) result" where
  "dispatch_reactions_with L p w =
     res_bind (apply_notify_all L w) (\<lambda>(_, w1).
     let (rs, w2) = get_reactions p w1 in
     res_bind (res_fold (reaction_run L) rs w2) (\<lambda>w3. Inr (rs \<noteq> [], w3)))"

fun dispatch_discards ::
    "('m, 's, 't) slabs \<Rightarrow> nat \<Rightarrow> ('m, 'v, 's, 't) runtime \<Rightarrow> (bool \<times> ('m, 'v, 's, 't) runtime) result" where
  "dispatch_discards L 0 w = Inl OutOfFuel"
| "dispatch_discards L (Suc fuel) w =
     (if discards w \<noteq> [] then
        res_bind (reaction_run L (last (discards w)) (w\<lparr>discards := butlast (discards w)\<rparr>)) (\<lambda>w1.
        res_bind (dispatch_discards L fuel w1) (\<lambda>(_, w2). Inr (True, w2)))
      else res_bind (apply_unbind L 2 w) (\<lambda>(h, w1).
        if h then res_bind (dispatch_discards L fuel w1) (\<lambda>(_, w2). Inr (True, w2))
        else Inr (False, w1)))"

fun flush :: "('m, 's, 't) slabs \<Rightarrow> nat \<Rightarrow> ('m, 'v, 's, 't) runtime_op" where
  "flush L 0 w = Inl OutOfFuel"
| "flush L (Suc fuel) w =
     res_bind (dispatch_actions_with L fuel None w) (\<lambda>(h1, w1).
       if h1 then flush L fuel w1
       else res_bind (dispatch_reactions_with L None w1) (\<lambda>(h2, w2).
         if h2 then flush L fuel w2
         else res_bind (dispatch_discards L fuel w2) (\<lambda>(h3, w3).
           if h3 then flush L fuel w3 else Inr w3)))"

fun cancel_async_actions :: "('m, 's, 't) slabs \<Rightarrow> nat \<Rightarrow> ('m, 'v, 's, 't) runtime_op" where
  "cancel_async_actions L 0 w = Inl OutOfFuel"
| "cancel_async_actions L (Suc fuel) w =
     (if slab_is_empty (async_slab L) (async_actions w) then Inr w
      else let acts = List.map_filter (slab_get (async_slab L) (async_actions w)) (slab_keys (async_slab L) (async_actions w))
           in res_bind (res_fold (async_cancel L) acts w) (cancel_async_actions L fuel))"

subsection \<open>The checked entry points of Runtime\<close>

definition check_action_phase :: "phase \<Rightarrow> ('m, 'v, 's, 't) runtime \<Rightarrow> unit result" where
  "check_action_phase p w = (case g_config w of None \<Rightarrow> Inr () | Some c \<Rightarrow> assert_valid_action_phase c p)"

definition check_reaction_phase :: "phase \<Rightarrow> ('m, 'v, 's, 't) runtime \<Rightarrow> unit result" where
  "check_reaction_phase p w = (case g_config w of None \<Rightarrow> Inr () | Some c \<Rightarrow> assert_valid_reaction_phase c p)"

definition rt_dispatch_action ::
    "('m, 's, 't) slabs \<Rightarrow> phase \<Rightarrow> ('m, 'v, 's, 't) runtime \<Rightarrow> (bool \<times> ('m, 'v, 's, 't) runtime) result" where
  "rt_dispatch_action L p w = res_bind (check_action_phase p w) (\<lambda>_. dispatch_action L p w)"

definition rt_dispatch_actions ::
    "('m, 's, 't) slabs \<Rightarrow> nat \<Rightarrow> phase \<Rightarrow> ('m, 'v, 's, 't) runtime \<Rightarrow> (bool \<times> ('m, 'v, 's, 't) runtime) result" where
  "rt_dispatch_actions L fuel p w = res_bind (check_action_phase p w) (\<lambda>_. dispatch_actions_with L fuel (Some p) w)"

definition rt_dispatch_reactions ::
    "('m, 's, 't) slabs \<Rightarrow> phase \<Rightarrow> ('m, 'v, 's, 't) runtime \<Rightarrow> (bool \<times> ('m, 'v, 's, 't) runtime) result" where
  "rt_dispatch_reactions L p w = res_bind (check_reaction_phase p w) (\<lambda>_. dispatch_reactions_with L (Some p) w)"

end
