(* ===== verification/Graph_Drop.thy ===== *)
theory Graph_Drop
  imports Graph_Lifecycle
begin

section \<open>Dropped nodes, deferred unbinding and discarded caches\<close>

text \<open>
  What happens to a graph when a node goes away: its source bindings wait in \<open>g_unbinds\<close>, its
  entries in the sinks of its sources stay behind until \<open>apply_unbind\<close> removes them, and a scan
  signal nobody is bound to any more throws its cache away. All of this keeps the invariant
  \<open>sys_inv\<close> and the meaning of every remaining signal.
\<close>

subsection \<open>Removing entries of dropped sinks\<close>

lemma graph_inv_remove_dead:
  assumes inv: "graph_inv ops G w" and book: "book_same w w'" and bz: "\<And>k. busy w' k = busy w k"
    and e: "\<And>k key. entry ops w' k key = (if (k, key) \<in> X then None else entry ops w k key)"
    and dead: "\<And>k key b. (k, key) \<in> X \<Longrightarrow> entry ops w k key = Some b \<Longrightarrow> src_binder w (sb_sink b) = None"
  shows "graph_inv ops G w'"
proof (rule graph_invI)
  have eqs: "code w' = code w" "src_binder w' = src_binder w" "active w' = active w" "cval w' = cval w"
    and nx: "next_id w' = next_id w" using book by (simp_all add: book_same_def rest_same_next)
  have st: "stale w' k = stale w k" for k using book by (rule book_same_stale)
  show "\<And>k. code w' k \<noteq> None \<Longrightarrow> k < next_id w'" using inv_next [OF inv] by (simp add: eqs nx)
  show "\<And>k. node_fits G w' k" using inv_fits [OF inv] node_fits_cong [OF eqs(1)] by blast
  show "\<And>k. \<not> busy w' k" using inv_busy [OF inv] bz by simp
  fix k key b assume e': "entry ops w' k key = Some b"
  then have old: "entry ops w k key = Some b" using e by (auto split: if_splits)
  show "k < sb_sink b \<and> sb_sink b < next_id w' \<and> sb_slot b = 0 \<and> code w' (sb_sink b) \<noteq> Some CState"
    using inv_entry [OF inv old] nx eqs(1) by simp
  show "sb_dirty b = Clean \<Longrightarrow> \<not> active w' (sb_sink b) \<Longrightarrow> \<not> stale w' k"
    using inv_clean [OF inv old] by (simp add: eqs st)
  show "\<not> stale w' k \<Longrightarrow> sb_dirty b \<noteq> MaybeDirty" using inv_resolved [OF inv old] by (simp add: st)
next
  fix j sb assume sb: "src_binder w' j = Some sb" and na: "\<not> active w' j"
  have eqs: "src_binder w' = src_binder w" "active w' = active w" "cval w' = cval w"
    using book by (simp_all add: book_same_def)
  have ok: "binder_ok ops G w j sb" using inv_binder [OF inv] sb na by (simp add: eqs)
  have keep: "entry ops w' k key = Some b" if "entry ops w k key = Some b" "sb_sink b = j" for k key b
    using e [of k key] dead [of k key b] that sb by (auto simp: eqs)
  have old: "entry ops w k key = Some b" if "entry ops w' k key = Some b" for k key b
    using that e [of k key] by (simp split: if_splits)
  have bnd: "binds ops w' j bs = binds ops w j bs" for bs
    by (rule binds_cong) (use old keep in blast)
  have "binds ops w j (sbr_sources sb)" using ok by (simp add: binder_ok_def)
  then have fl: "flag ops w' b = flag ops w b" if "b \<in> set (sbr_sources sb)" for b
    using that keep by (elim bindsD) (auto simp: flag_def)
  then have "valid ops G w' j (sbr_sources sb) = valid ops G w j (sbr_sources sb)"
    by (simp add: valid_def eqs)
  then show "binder_ok ops G w' j sb" using ok fl by (simp add: binder_ok_def bnd)
qed

text \<open>The bindings that wait to be unbound belong to dropped sinks of existing sources.\<close>

definition pending_ok :: "('m, sink_binding) slab_ops \<Rightarrow> ('m, 'v, 'z) world_scheme \<Rightarrow> bool" where
  "pending_ok ops w \<longleftrightarrow> (\<forall>b \<in> set (concat (g_unbinds w)). is_source w (src_node b)
     \<and> (\<forall>e. entry ops w (src_node b) (src_key b) = Some e \<longrightarrow> code w (sb_sink e) = None))"

lemma pending_ok_Nil [simp]: "g_unbinds w = [] \<Longrightarrow> pending_ok ops w"
  by (simp add: pending_ok_def)

lemma res_fold_unbind_all: "res_fold (unbind_all ops) bss w = unbind_all ops (concat bss) w"
  by (induction bss arbitrary: w) (auto simp: unbind_all_def res_fold_append intro: res_bind_cong)

lemma sys_inv_book:
  assumes inv: "sys_inv ops G w" and g: "graph_inv ops G w'" and b: "book_same w w'"
  shows "sys_inv ops G w'"
proof -
  have r: "rest_same w w'" and eqs: "code w' = code w" "active w' = active w"
    using b by (simp_all add: book_same_def)
  note f = rest_same_fields [OF r]
  show ?thesis using g inv book_same_stale [OF b]
    by (simp add: sys_inv_def quiet_def phases_ok_def scheduled_def f eqs)
qed

lemma unbind_pending_ok:
  assumes laws: "slab_laws ops" and inv: "sys_inv ops G w" and p: "\<forall>b \<in> set bs. is_source w (src_node b)
     \<and> (\<forall>e. entry ops w (src_node b) (src_key b) = Some e \<longrightarrow> code w (sb_sink e) = None)"
  shows "\<exists>w'. unbind_all ops bs w = Inr w' \<and> sys_inv ops G w' \<and> book_same w w'
    \<and> (\<forall>k key e. entry ops w' k key = Some e \<longrightarrow> entry ops w k key = Some e)"
proof -
  have "\<And>b. b \<in> set bs \<Longrightarrow> is_source w (src_node b) \<and> \<not> busy w (src_node b)"
    using p inv_busy [OF sys_graph [OF inv]] by blast
  from unbind_all_ok [OF laws this] obtain w' where w': "unbind_all ops bs w = Inr w'" "book_same w w'"
    "\<And>k key. entry ops w' k key = (if (k, key) \<in> set (map loc bs) then None else entry ops w k key)"
    "\<And>k. busy w' k = busy w k" by blast
  have "graph_inv ops G w'"
    by (rule graph_inv_remove_dead [OF sys_graph [OF inv] w'(2,4,3)])
      (use p in \<open>auto simp: loc_def src_binder_code\<close>)
  then have "sys_inv ops G w'" by (rule sys_inv_book [OF inv _ w'(2)])
  moreover have "entry ops w' k key = Some e \<longrightarrow> entry ops w k key = Some e" for k key e using w'(3) by simp
  ultimately show ?thesis using w'(1,2) by blast
qed

subsection \<open>Dropping a node\<close>

text \<open>
  Only a node that nothing refers to is dropped: no binding and no pending unbinding names it as
  its source, no closure reads it, no scheduled discard holds it.
\<close>

definition unreferenced :: "('m, sink_binding) slab_ops \<Rightarrow> (nid \<Rightarrow> ('v, 'v) prog) \<Rightarrow> ('m, 'v, 'z) world_scheme \<Rightarrow> nid \<Rightarrow> bool" where
  "unreferenced ops G w n \<longleftrightarrow> (\<forall>key. entry ops w n key = None) \<and> n \<notin> src_node ` set (concat (g_unbinds w))
     \<and> (\<forall>k. code w k \<noteq> None \<longrightarrow> code w k \<noteq> Some CState \<longrightarrow> tracked (\<lambda>m. m \<noteq> n) (G k))
     \<and> ScanDiscard n \<notin> set (discards w)"

lemma tracked_conj: "tracked P p \<Longrightarrow> tracked Q p \<Longrightarrow> tracked (\<lambda>m. P m \<and> Q m) p"
  by (induction p) auto

lemma drop_views:
  assumes w': "w' = drop_node n w"
  shows "code w' = (code w)(n := None)" "src_binder w' = (src_binder w)(n := None)" "active w' = (active w)(n := False)"
    "cval w' = (cval w)(n := None)" "sinks_of w' = (sinks_of w)(n := None)"
    "next_id w' = next_id w" "g_config w' = g_config w" "g_reactions w' = g_reactions w" "discards w' = discards w"
    "g_notifys w' = g_notifys w"
  by (simp_all add: w' drop_node_def drop_sources_def fun_eq_iff view_defs split: option.splits)

lemma drop_unbinds:
  assumes "heap w n = Some nd"
  shows "g_unbinds (drop_node n w) = (if node_sources nd = [] then g_unbinds w else g_unbinds w @ [node_sources nd])"
  using assms by (simp add: drop_node_def drop_sources_def)

lemma node_sources_binder:
  "heap w n = Some nd \<Longrightarrow> node_sources nd = (case src_binder w n of None \<Rightarrow> [] | Some sb \<Rightarrow> sbr_sources sb)"
  by (cases nd) (simp_all add: node_sources_def src_binder_def)

lemma drop_entry:
  "entry ops (drop_node n w) k key = (if k = n then None else entry ops w k key)"
  by (simp add: entry_def drop_views(5) [OF refl])

lemma drop_busy: "busy (drop_node n w) k = (if k = n then False else busy w k)"
  by (simp add: busy_def drop_views(5) [OF refl])

lemma drop_stale: "stale (drop_node n w) k = (if k = n then False else stale w k)"
  by (simp add: stale_def drop_views(2) [OF refl])

lemma graph_inv_drop:
  assumes inv: "graph_inv ops G w" and u: "unreferenced ops G w n" and na: "\<not> active w n"
  shows "graph_inv ops G (drop_node n w)" (is "graph_inv ops G ?w")
proof (rule graph_invI)
  note v = drop_views [OF refl, of n w]
  have ne: "k \<noteq> n \<and> entry ops w k key = Some b" if "entry ops ?w k key = Some b" for k key b
    using that by (auto simp: drop_entry split: if_splits)
  show "k < next_id ?w" if "code ?w k \<noteq> None" for k
    using that inv_next [OF inv, of k] by (auto simp: v split: if_splits)
  show "\<not> busy ?w k" for k using inv_busy [OF inv] by (simp add: drop_busy)
  show "node_fits G ?w k" for k
  proof (cases "k = n")
    case False
    have "tracked (\<lambda>m. m < k \<and> is_source ?w m) (G k)"
      if "tracked (\<lambda>m. m < k \<and> is_source w m) (G k)" "code w k \<noteq> None" "code w k \<noteq> Some CState"
    proof -
      have "tracked (\<lambda>m. m \<noteq> n) (G k)" using u that(2,3) by (simp add: unreferenced_def)
      from tracked_conj [OF that(1) this] show ?thesis
        by (rule tracked_mono) (auto simp: is_source_code v)
    qed
    then show ?thesis using inv_fits [OF inv, of k] False
      by (auto simp: node_fits_def v split: option.splits code.splits)
  qed (simp add: node_fits_def v)
  fix k key b assume "entry ops ?w k key = Some b"
  then have e: "k \<noteq> n" "entry ops w k key = Some b" using ne by blast+
  show "k < sb_sink b \<and> sb_sink b < next_id ?w \<and> sb_slot b = 0 \<and> code ?w (sb_sink b) \<noteq> Some CState"
    using inv_entry [OF inv e(2)] by (simp add: v)
  show "\<not> stale ?w k \<Longrightarrow> sb_dirty b \<noteq> MaybeDirty" using inv_resolved [OF inv e(2)] e(1) by (simp add: drop_stale)
  show "sb_dirty b = Clean \<Longrightarrow> \<not> active ?w (sb_sink b) \<Longrightarrow> \<not> stale ?w k"
    using inv_clean [OF inv e(2)] na e(1) by (auto simp: v drop_stale split: if_splits)
next
  fix j sb assume sb: "src_binder ?w j = Some sb" and "\<not> active ?w j"
  note v = drop_views [OF refl, of n w]
  have jn: "j \<noteq> n" and "src_binder w j = Some sb" "\<not> active w j"
    using sb \<open>\<not> active ?w j\<close> by (auto simp: v split: if_splits)
  then have ok: "binder_ok ops G w j sb" using inv_binder [OF inv] by blast
  have none: "entry ops w n key = None" for key using u by (simp add: unreferenced_def)
  have en: "entry ops ?w k key = entry ops w k key" for k key using none by (simp add: drop_entry)
  have bnd: "binds ops ?w j bs = binds ops w j bs" and fl: "flag ops ?w b = flag ops w b" for bs b
    by (simp_all add: binds_def flag_def en)
  have bs: "binds ops w j (sbr_sources sb)" using ok by (simp add: binder_ok_def)
  have "src_node b \<noteq> n" if "b \<in> set (sbr_sources sb)" for b
    using bindsD [OF bs that] none by (metis option.distinct(1))
  then have "cval ?w (src_node (sbr_sources sb ! i)) = cval w (src_node (sbr_sources sb ! i))" if "i < length (sbr_sources sb)" for i
    using that by (simp add: v)
  then have "valid ops G ?w j (sbr_sources sb) = valid ops G w j (sbr_sources sb)"
    using jn by (simp add: valid_def fl v cong: conj_cong)
  then show "binder_ok ops G ?w j sb" using ok by (simp add: binder_ok_def bnd fl)
qed

lemma sys_inv_drop:
  assumes inv: "sys_inv ops G w" and u: "unreferenced ops G w n"
  shows "sys_inv ops G (drop_node n w)"
proof -
  note v = drop_views [OF refl, of n w]
  have "\<not> active w n" using sys_quiet [OF inv] by (simp add: quiet_def)
  then have "graph_inv ops G (drop_node n w)" by (rule graph_inv_drop [OF sys_graph [OF inv] u])
  moreover have "scheduled (drop_node n w) k" if "stale (drop_node n w) k" for k
    using that sys_scheduled [OF inv, of k] by (auto simp: scheduled_def v drop_stale split: if_splits)
  ultimately show ?thesis using sys_quiet [OF inv] sys_phases [OF inv] sys_bk [OF inv]
    by (auto simp: sys_inv_def quiet_def phases_ok_def v split: if_splits)
qed

lemma pending_ok_drop:
  assumes inv: "sys_inv ops G w" and p: "pending_ok ops w" and u: "unreferenced ops G w n"
  shows "pending_ok ops (drop_node n w)"
proof (cases "heap w n")
  case None
  then show ?thesis using p by (simp add: drop_node_def)
next
  case (Some nd)
  note v = drop_views [OF refl, of n w]
  have src: "is_source (drop_node n w) k = (k \<noteq> n \<and> is_source w k)" for k by (auto simp: is_source_code v)
  have old: "is_source (drop_node n w) (src_node b) \<and> (\<forall>e. entry ops (drop_node n w) (src_node b) (src_key b) = Some e
      \<longrightarrow> code (drop_node n w) (sb_sink e) = None)" if "b \<in> set (concat (g_unbinds w))" for b
    using that p u by (force simp: pending_ok_def unreferenced_def src drop_entry v)
  have new: "is_source (drop_node n w) (src_node b) \<and> (\<forall>e. entry ops (drop_node n w) (src_node b) (src_key b) = Some e
      \<longrightarrow> code (drop_node n w) (sb_sink e) = None)" if b: "b \<in> set (node_sources nd)" for b
  proof -
    obtain sb where sb: "src_binder w n = Some sb" "b \<in> set (sbr_sources sb)"
      using b node_sources_binder [of w n nd] Some by (auto split: option.splits)
    have "\<not> active w n" using sys_quiet [OF inv] by (simp add: quiet_def)
    then have "binder_ok ops G w n sb" by (rule inv_binder [OF sys_graph [OF inv] sb(1)])
    then have bs: "binds ops w n (sbr_sources sb)" by (simp add: binder_ok_def)
    obtain e where e: "entry ops w (src_node b) (src_key b) = Some e" "sb_sink e = n" using bindsD [OF bs sb(2)] by metis
    show ?thesis using binds_lt [OF sys_graph [OF inv] bs sb(2)] e by (auto simp: src drop_entry v)
  qed
  have "set (concat (g_unbinds (drop_node n w))) \<subseteq> set (concat (g_unbinds w)) \<union> set (node_sources nd)"
    by (simp add: drop_unbinds [OF Some])
  then show ?thesis using old new unfolding pending_ok_def by blast
qed

subsection \<open>Discarding a cache\<close>

lemma graph_inv_cleared:
  assumes inv: "graph_inv ops G w" and rest: "rest_same w w'" and bz: "\<And>k. \<not> busy w' k"
    and v: "code w' = code w" "active w' = active w" "\<And>k. k \<noteq> n \<Longrightarrow> cval w' k = cval w k"
    and b: "src_binder w' = (src_binder w)(n \<mapsto> sb\<lparr>sbr_sources := [], sbr_dirty := Dirty\<rparr>)"
    and sb: "src_binder w n = Some sb" and na: "\<not> active w n"
    and e: "\<And>k key. entry ops w' k key = (if (k, key) \<in> set (map loc (sbr_sources sb)) then None else entry ops w k key)"
    and none: "\<And>key. entry ops w n key = None"
  shows "graph_inv ops G w'"
proof -
  have ok: "binder_ok ops G w n sb" by (rule inv_binder [OF inv sb na])
  then have bs: "binds ops w n (sbr_sources sb)" by (simp add: binder_ok_def)
  have old: "k \<noteq> n \<and> entry ops w k key = Some x \<and> sb_sink x \<noteq> n" if "entry ops w' k key = Some x" for k key x
  proof -
    have "entry ops w k key = Some x" "(k, key) \<notin> set (map loc (sbr_sources sb))" using that e [of k key] by (auto split: if_splits)
    then show ?thesis using none bs by (auto simp: binds_def)
  qed
  have keep: "entry ops w' k key = Some x" if "entry ops w k key = Some x" "sb_sink x \<noteq> n" for k key x
    using that e [of k key] bs by (auto simp: binds_def)
  have st: "stale w' k = stale w k" if "k \<noteq> n" for k using that by (simp add: stale_def b)
  have nx: "next_id w' = next_id w" by (rule rest_same_next [OF rest])
  show ?thesis
  proof (rule graph_invI)
    show "k < next_id w'" if "code w' k \<noteq> None" for k using that inv_next [OF inv] by (simp add: v nx)
    show "node_fits G w' k" for k using inv_fits [OF inv] node_fits_cong [OF v(1)] by blast
    show "\<not> busy w' k" for k by (rule bz)
    fix k key x assume "entry ops w' k key = Some x"
    then have o: "k \<noteq> n" "entry ops w k key = Some x" using old by blast+
    show "k < sb_sink x \<and> sb_sink x < next_id w' \<and> sb_slot x = 0 \<and> code w' (sb_sink x) \<noteq> Some CState"
      using inv_entry [OF inv o(2)] by (simp add: nx v)
    show "sb_dirty x = Clean \<Longrightarrow> \<not> active w' (sb_sink x) \<Longrightarrow> \<not> stale w' k"
      using inv_clean [OF inv o(2)] by (simp add: v st [OF o(1)])
    show "\<not> stale w' k \<Longrightarrow> sb_dirty x \<noteq> MaybeDirty" using inv_resolved [OF inv o(2)] by (simp add: st [OF o(1)])
  next
    fix j sb' assume sb': "src_binder w' j = Some sb'" and "\<not> active w' j"
    show "binder_ok ops G w' j sb'"
    proof (cases "j = n")
      case True
      then have "sb' = sb\<lparr>sbr_sources := [], sbr_dirty := Dirty\<rparr>" using sb' by (simp add: b)
      moreover have "binds ops w' n []" using old by (auto simp: binds_def)
      ultimately show ?thesis using True ok by (simp add: binder_ok_def)
    next
      case False
      then have okj: "binder_ok ops G w j sb'" using sb' \<open>\<not> active w' j\<close> inv_binder [OF inv] by (simp add: b v)
      then have bsj: "binds ops w j (sbr_sources sb')" by (simp add: binder_ok_def)
      have bnd: "binds ops w' j bs = binds ops w j bs" for bs
        by (rule binds_cong) (use old keep False in blast)
      have fl: "flag ops w' x = flag ops w x \<and> src_node x \<noteq> n" if "x \<in> set (sbr_sources sb')" for x
        using bindsD [OF bsj that] keep False none by (metis flag_def option.distinct(1))
      then have "flag ops w' (sbr_sources sb' ! i) = flag ops w (sbr_sources sb' ! i)
          \<and> cval w' (src_node (sbr_sources sb' ! i)) = cval w (src_node (sbr_sources sb' ! i))" if "i < length (sbr_sources sb')" for i
        using that v(3) by simp
      then have "valid ops G w' j (sbr_sources sb') = valid ops G w j (sbr_sources sb')"
        using v(3) [OF False] by (simp add: valid_def cong: conj_cong)
      then show ?thesis using okj fl by (simp add: binder_ok_def bnd)
    qed
  qed
qed

definition discarded :: "('m, sink_binding) slab_ops \<Rightarrow> nid \<Rightarrow> ('m, 'v, 'z) world_scheme \<Rightarrow> ('m, 'v, 'z) world_scheme \<Rightarrow> bool" where
  "discarded ops n w w' \<longleftrightarrow> rest_same w w' \<and> code w' = code w \<and> active w' = active w \<and> (\<forall>k. k \<noteq> n \<longrightarrow> cval w' k = cval w k)
     \<and> (\<forall>k key e. entry ops w' k key = Some e \<longrightarrow> entry ops w k key = Some e)"

lemma code_scanE:
  assumes "code w n = Some (CScan s d)"
  obtains sn where "heap w n = Some (ScanNode sn)" and "sn_discard sn = d" and "sd_scan (cell_val (sn_data sn)) = s"
proof -
  obtain nd where nd: "heap w n = Some nd" using assms by (cases "heap w n") (simp_all add: code_def)
  then show ?thesis using assms that by (cases nd) (simp_all add: code_def)
qed

lemma scan_discard_ok:
  assumes laws: "slab_laws ops" and inv: "sys_inv ops G w" and c: "code w n = Some (CScan s (DiscardFnVoid f))"
  shows "\<exists>w'. scan_discard ops n w = Inr w' \<and> sys_inv ops G w' \<and> discarded ops n w w'"
proof -
  obtain sn where sn: "heap w n = Some (ScanNode sn)" "sn_discard sn = DiscardFnVoid f"
    using code_scanE [OF c] by metis
  define w1 where "w1 = put_node n (ScanNode (sn\<lparr>sn_scheduled := False\<rparr>)) w"
  have h1: "heap w1 = (heap w)(n \<mapsto> ScanNode (sn\<lparr>sn_scheduled := False\<rparr>))" by (simp add: w1_def)
  have v1: "code w1 = code w" "src_binder w1 = src_binder w" "active w1 = active w" "cval w1 = cval w" "sinks_of w1 = sinks_of w"
    by (simp_all add: fun_eq_iff view_defs h1 sn node_sinks_def)
  have en1: "entry ops w1 = entry ops w" and bz1: "busy w1 = busy w" and src1: "is_source w1 = is_source w"
    by (simp_all add: fun_eq_iff entry_def busy_def is_source_def v1)
  have r1: "rest_same w w1" by (simp add: w1_def)
  then have b1: "book_same w w1" by (simp add: book_same_def v1)
  have g: "graph_inv ops G w" and act: "\<not> active w k" and nb: "\<not> busy w k" for k
    using sys_graph [OF inv] sys_quiet [OF inv] inv_busy [OF sys_graph [OF inv]] by (simp_all add: quiet_def)
  have srcn: "is_source w n" using c by (simp add: is_source_code)
  obtain S where S: "borrow_sinks n w1 = Inr S" "\<And>key. entry ops w n key = slab_get ops S key"
    using borrow_sinks_ok [of w1 n] srcn nb by (metis src1 bz1 en1)
  have mut: "\<not> cell_mut (sn_data sn)" using act [of n] sn by (simp add: active_def)
  show ?thesis
  proof (cases "sinks_is_empty ops S")
    case False
    then have "scan_discard ops n w = Inr w1" using sn S by (simp add: scan_discard_def Let_def w1_def)
    moreover have "sys_inv ops G w1"
      by (rule sys_inv_book [OF inv graph_inv_remove_dead [OF g b1, where X = "{}"] b1]) (simp_all add: en1 bz1)
    moreover have "discarded ops n w w1" using b1 by (simp add: discarded_def v1 en1 book_same_def)
    ultimately show ?thesis by blast
  next
    case True
    then have none: "entry ops w n key = None" for key using S(2) by (simp add: sinks_is_empty_def slab_is_empty_iff [OF laws])
    define d where "d = cell_val (sn_data sn)"
    have cn: "code w n = Some (CScan (sd_scan d) (DiscardFnVoid f))" using sn by (simp add: code_def d_def)
    have sb: "src_binder w n = Some (sd_sb d)" using sn by (simp add: src_binder_def d_def)
    have bs: "binds ops w n (sbr_sources (sd_sb d))" using inv_binder [OF g sb act] by (simp add: binder_ok_def)
    define w2 where "w2 = put_scan_data n \<lparr>cell_val = d, cell_mut = True\<rparr> w1"
    have hn: "heap w1 n = Some (ScanNode (sn\<lparr>sn_scheduled := False\<rparr>))" by (simp add: h1)
    note v2 = put_scan_data_views [OF hn, where c = "\<lparr>cell_val = d, cell_mut = True\<rparr>", folded w2_def]
    have hn2: "heap w2 n = Some (ScanNode (sn\<lparr>sn_scheduled := False, sn_data := \<lparr>cell_val = d, cell_mut = True\<rparr>\<rparr>))"
      by (simp add: w2_def put_scan_data_def hn)
    have s2: "sinks_of w2 = sinks_of w"
      by (simp add: fun_eq_iff w2_def put_scan_data_def hn) (simp add: sinks_of_def h1 sn node_sinks_def)
    have en2: "entry ops w2 = entry ops w" and bz2: "busy w2 = busy w" and src2: "is_source w2 = is_source w"
      by (simp_all add: fun_eq_iff entry_def busy_def is_source_def s2)
    have "\<And>b. b \<in> set (sbr_sources (sd_sb d)) \<Longrightarrow> is_source w2 (src_node b) \<and> \<not> busy w2 (src_node b)"
      using binds_lt(2) [OF g bs] nb by (simp add: src2 bz2)
    from unbind_all_ok [OF laws this] obtain w3 where w3: "unbind_all ops (sbr_sources (sd_sb d)) w2 = Inr w3" "book_same w2 w3"
      "\<And>k. k \<notin> src_node ` set (sbr_sources (sd_sb d)) \<Longrightarrow> heap w3 k = heap w2 k"
      "\<And>k key. entry ops w3 k key = (if (k, key) \<in> set (map loc (sbr_sources (sd_sb d))) then None else entry ops w2 k key)"
      "\<And>k. busy w3 k = busy w2 k" by blast
    have "n \<notin> src_node ` set (sbr_sources (sd_sb d))" using binds_lt(1) [OF g bs] by auto
    then have hn3: "heap w3 n = Some (ScanNode (sn\<lparr>sn_scheduled := False, sn_data := \<lparr>cell_val = d, cell_mut = True\<rparr>\<rparr>))"
      using w3(3) hn2 by simp
    define c' where "c' = new_cell (d\<lparr>sd_state := f (sd_state d), sd_sb := (sd_sb d)\<lparr>sbr_sources := [], sbr_dirty := Dirty\<rparr>\<rparr>)"
    define w' where "w' = put_scan_data n c' w3"
    note v' = put_scan_data_views [OF hn3, where c = c', folded w'_def]
    have s': "sinks_of w' k = sinks_of w3 k" for k
      by (simp add: w'_def put_scan_data_def hn3) (simp add: sinks_of_def hn3 node_sinks_def)
    have en': "entry ops w' = entry ops w3" and bz': "busy w' = busy w3"
      by (simp_all add: fun_eq_iff entry_def busy_def s')
    have b3: "code w3 = code w2" "src_binder w3 = src_binder w2" "active w3 = active w2" "cval w3 = cval w2" "rest_same w2 w3"
      using w3(2) by (simp_all add: book_same_def)
    have rest: "rest_same w w'"
      using rest_same_trans [OF rest_same_trans [OF rest_same_trans [OF _ _] b3(5)]] by (metis w1_def put_node_rest w2_def put_scan_data_rest w'_def)
    have ret: "scan_discard ops n w = Inr w'"
      using sn S True mut w3(1) by (simp add: scan_discard_def Let_def w1_def [symmetric] binder_clear_def d_def [symmetric] w2_def [symmetric] w'_def c'_def)
    have vw: "code w' = code w" "active w' = active w" "\<And>k. k \<noteq> n \<Longrightarrow> cval w' k = cval w k"
      "src_binder w' = (src_binder w)(n \<mapsto> (sd_sb d)\<lparr>sbr_sources := [], sbr_dirty := Dirty\<rparr>)"
      using act [of n] cn by (simp_all add: fun_eq_iff v' v2 b3 v1 c'_def sn(2))
    have ent: "entry ops w' k key = (if (k, key) \<in> set (map loc (sbr_sources (sd_sb d))) then None else entry ops w k key)" for k key
      using w3(4) by (simp add: en' en2)
    have g': "graph_inv ops G w'"
      by (rule graph_inv_cleared [OF g rest _ vw(1,2,3,4) sb act ent none]) (simp add: bz' w3(5) bz2 nb)
    have st: "stale w' k \<Longrightarrow> k = n \<or> stale w k" for k by (auto simp: stale_def vw split: if_splits)
    note rf = rest_same_fields [OF rest]
    have "scheduled w' k" if "stale w' k" for k
      using st [OF that] c sys_scheduled [OF inv, of k] by (auto simp: scheduled_def vw rf)
    then have "sys_inv ops G w'" using g' inv by (simp add: sys_inv_def quiet_def phases_ok_def vw rf)
    moreover have "discarded ops n w w'" using rest vw ent by (simp add: discarded_def)
    ultimately show ?thesis using ret by blast
  qed
qed

lemma discarded_sem:
  assumes "discarded ops n w w'" and "code w n \<noteq> Some CState"
  shows "sem G w' = sem G w"
  by (rule sem_cong) (use assms in \<open>auto simp: discarded_def\<close>)

end
