(* ===== verification/Queue_Contents.thy ===== *)
theory Queue_Contents
  imports Graph_Drop
begin

section \<open>What the queues hold\<close>

text \<open>
  The stack of pending discards holds nothing but \<open>ScanNode::discard\<close> of existing scan signals
  that have an \<open>on_discard\<close> closure, and the reaction queue holds calls of effects and closures of the
  user that read existing sources. Every operation of the graph keeps this, whatever it is given
  and however deep it recurses: partial correctness, by induction along the definitions.
\<close>

subsection \<open>Pending discards\<close>

definition discards_ok :: "(nid \<Rightarrow> 'v code option) \<Rightarrow> ('m, 'v, 'z) world_scheme \<Rightarrow> bool" where
  "discards_ok C w \<longleftrightarrow> code w = C \<and> (\<forall>r \<in> set (discards w). \<exists>n s f. r = ScanDiscard n \<and> C n = Some (CScan s (DiscardFnVoid f)))"

definition keeps_discards :: "(nid \<Rightarrow> 'v code option) \<Rightarrow> (nid \<Rightarrow> ('m, 'v, 'z) world_scheme \<Rightarrow> ('m, 'v, 'z) world_scheme result) \<Rightarrow> bool" where
  "keeps_discards C upd \<longleftrightarrow> (\<forall>n w w'. upd n w = Inr w' \<longrightarrow> discards_ok C w \<longrightarrow> discards_ok C w')"

lemma keeps_discardsD: "keeps_discards C upd \<Longrightarrow> upd n w = Inr w' \<Longrightarrow> discards_ok C w \<Longrightarrow> discards_ok C w'"
  by (auto simp: keeps_discards_def)

lemma dk_put_sinks [simp]: "discards_ok C (put_sinks n c w) = discards_ok C w"
proof -
  have "code (put_sinks n c w) = code w" by (simp add: fun_eq_iff)
  then show ?thesis by (simp add: discards_ok_def)
qed

lemma dk_modify_sinks: "modify_sinks n f w = Inr w' \<Longrightarrow> discards_ok C w \<Longrightarrow> discards_ok C w'"
  by (auto simp: modify_sinks_def res_bind_eq_Inr)

lemma dk_try_schedule:
  assumes "try_schedule_discard ops n w = Inr w'" and w: "discards_ok C w"
  shows "discards_ok C w'"
proof (cases "\<exists>sn f. heap w n = Some (ScanNode sn) \<and> sn_discard sn = DiscardFnVoid f")
  case True
  then obtain sn f where sn: "heap w n = Some (ScanNode sn)" "sn_discard sn = DiscardFnVoid f" by blast
  let ?w1 = "put_node n (ScanNode (sn\<lparr>sn_scheduled := True\<rparr>)) (w\<lparr>discards := discards w @ [ScanDiscard n]\<rparr>)"
  have "code ?w1 = code w" using sn by (simp add: fun_eq_iff code_def)
  moreover have "code w n = Some (CScan (sd_scan (cell_val (sn_data sn))) (DiscardFnVoid f))"
    using sn by (simp add: code_def)
  ultimately have "discards_ok C ?w1" using w by (auto simp: discards_ok_def)
  moreover have "w' = w \<or> w' = ?w1" using assms(1) sn
    by (auto simp: try_schedule_discard_def res_bind_eq_Inr split: if_splits)
  ultimately show ?thesis using w by blast
next
  case False
  then have "w' = w" using assms(1)
    by (auto simp: try_schedule_discard_def split: option.splits node.splits discard_fn.splits)
  then show ?thesis using w by simp
qed

lemma dk_node_unbind: "node_unbind ops n key w = Inr w' \<Longrightarrow> discards_ok C w \<Longrightarrow> discards_ok C w'"
  by (auto simp: node_unbind_def res_bind_eq_Inr dest: dk_modify_sinks dk_try_schedule)

lemma dk_unbind_all: "unbind_all ops bs w = Inr w' \<Longrightarrow> discards_ok C w \<Longrightarrow> discards_ok C w'"
  unfolding unbind_all_def by (rule res_fold_invariant [where P = "discards_ok C"]) (auto dest: dk_node_unbind)

lemma dk_node_bind:
  assumes "node_bind ops n ko w = Inr (k1, w')" and "discards_ok C w"
  shows "discards_ok C w'"
  using assms by (auto simp: node_bind_def res_bind_eq_Inr split: option.splits dest!: dk_node_unbind [where C = C])

lemma dk_node_borrow:
  assumes "keeps_discards C upd" and "node_borrow ops upd n ko w = Inr (v, k1, w')" and "discards_ok C w"
  shows "discards_ok C w'"
proof -
  obtain k w1 where b: "node_bind ops n ko w = Inr (k, w1)"
    and u: "(case heap w1 n of Some (ScanNode _) \<Rightarrow> upd n w1 | _ \<Rightarrow> Inr w1) = Inr w'"
    using assms(2) by (auto simp: node_borrow_def res_bind_eq_Inr)
  have "discards_ok C w1" by (rule dk_node_bind [OF b assms(3)])
  then show ?thesis using u keeps_discardsD [OF assms(1)] by (auto split: option.splits node.splits)
qed

lemma dk_node_check:
  assumes "keeps_discards C upd" and "node_check ops upd n key w = Inr (d, w')" and "discards_ok C w"
  shows "discards_ok C w'"
  using assms keeps_discardsD [OF assms(1)]
  by (auto simp: node_check_def res_bind_eq_Inr split: option.splits node.splits)

lemma dk_run_prog:
  assumes "keeps_discards C upd"
  shows "run_prog ops upd p ko w = Inr (x, k1, w') \<Longrightarrow> discards_ok C w \<Longrightarrow> discards_ok C w'"
proof (induction p arbitrary: ko w)
  case (Read n k)
  then obtain v k2 w1 where "node_borrow ops upd n ko w = Inr (v, k2, w1)" "run_prog ops upd (k v) k2 w1 = Inr (x, k1, w')"
    by (auto simp: res_bind_eq_Inr)
  then show ?case using Read.IH dk_node_borrow [OF assms] Read.prems(2) by blast
next
  case (ReadUntracked n k)
  then obtain v k2 w1 where "node_borrow ops upd n None w = Inr (v, k2, w1)" "run_prog ops upd (k v) ko w1 = Inr (x, k1, w')"
    by (auto simp: res_bind_eq_Inr)
  then show ?case using ReadUntracked.IH dk_node_borrow [OF assms] ReadUntracked.prems(2) by blast
qed auto

lemma dk_sources_check:
  assumes "keeps_discards C upd"
  shows "sources_check ops upd bs w = Inr (d, w') \<Longrightarrow> discards_ok C w \<Longrightarrow> discards_ok C w'"
proof (induction bs arbitrary: w)
  case (Cons b bs)
  then obtain d1 w1 where "node_check ops upd (src_node b) (src_key b) w = Inr (d1, w1)"
    "(if d1 then Inr (True, w1) else sources_check ops upd bs w1) = Inr (d, w')"
    by (auto simp: res_bind_eq_Inr)
  then show ?case using Cons.IH dk_node_check [OF assms] Cons.prems(2) by (auto split: if_splits)
qed auto

lemma dk_sources_update:
  assumes "keeps_discards C upd" and "sources_update ops upd n slot reset p bs w = Inr (x, bs', w')" and "discards_ok C w"
  shows "discards_ok C w'"
  using assms(2,3) by (auto simp: sources_update_def res_bind_eq_Inr split: option.splits
      dest!: dk_run_prog [OF assms(1)] dk_unbind_all [where C = C])

lemma dk_binder_check:
  assumes "keeps_discards C upd" and "binder_check ops upd sb w = Inr (b, sb', w')" and "discards_ok C w"
  shows "discards_ok C w'"
  using assms(2,3) dk_sources_check [OF assms(1)]
  by (auto simp: binder_check_def res_bind_eq_Inr split: if_splits)

lemma dk_binder_update:
  assumes "keeps_discards C upd" and "binder_update ops upd p sb w = Inr (x, sb', w')" and "discards_ok C w"
  shows "discards_ok C w'"
  using assms(2,3) dk_sources_update [OF assms(1)] by (auto simp: binder_update_def res_bind_eq_Inr)

lemma dk_scan_recompute:
  assumes "keeps_discards C upd" and "scan_recompute ops upd d w = Inr (b, d', w')" and "discards_ok C w"
  shows "discards_ok C w' \<and> sd_scan d' = sd_scan d"
proof -
  obtain b1 sb w1 where c: "binder_check ops upd (sd_sb d) w = Inr (b1, sb, w1)"
    and r: "(if b1 then
         res_bind (binder_update ops upd (scan_call (sd_scan d) (sd_state d)) sb w1) (\<lambda>((st, changed), sb1, w2).
           Inr (changed, d\<lparr>sd_state := st, sd_sb := sb1\<rparr>, w2))
       else Inr (False, d\<lparr>sd_sb := sb\<rparr>, w1)) = Inr (b, d', w')"
    using assms(2) by (auto simp: scan_recompute_def res_bind_eq_Inr)
  have w1: "discards_ok C w1" by (rule dk_binder_check [OF assms(1) c assms(3)])
  show ?thesis
  proof (cases b1)
    case True
    then show ?thesis using r w1 dk_binder_update [OF assms(1)] by (auto simp: res_bind_eq_Inr)
  qed (use r w1 in auto)
qed

lemma dk_put_scan_data:
  assumes "discards_ok C w" and "C n = Some (CScan (sd_scan (cell_val c)) d)"
  shows "discards_ok C (put_scan_data n c w)"
proof -
  have "code w n = Some (CScan (sd_scan (cell_val c)) d)" using assms by (simp add: discards_ok_def)
  then obtain sn where sn: "heap w n = Some (ScanNode sn)" "sn_discard sn = d" by (rule code_scanE)
  have "code (put_scan_data n c w) = code w"
    using sn assms by (simp add: fun_eq_iff put_scan_data_views(1) [OF sn(1)] discards_ok_def)
  moreover have "discards (put_scan_data n c w) = discards w" using sn by (simp add: put_scan_data_def)
  ultimately show ?thesis using assms(1) by (simp add: discards_ok_def)
qed

lemma dk_scan_update:
  assumes u: "keeps_discards C upd" and r: "scan_update ops upd n w = Inr w'" and w: "discards_ok C w"
  shows "discards_ok C w'"
proof -
  obtain sn where sn: "heap w n = Some (ScanNode sn)"
    using r by (auto simp: scan_update_def split: option.splits node.splits)
  define d where "d = cell_val (sn_data sn)"
  have cn: "C n = Some (CScan (sd_scan d) (sn_discard sn))" using w sn by (auto simp: discards_ok_def code_def d_def)
  show ?thesis
  proof (cases "binder_is_clean (sd_sb d)")
    case True
    then show ?thesis using r w sn by (auto simp: scan_update_def d_def split: if_splits)
  next
    case False
    then obtain w1 b d1 w2 w3 where s: "try_schedule_discard ops n w = Inr w1"
      "scan_recompute ops upd d (put_scan_data n \<lparr>cell_val = d, cell_mut = True\<rparr> w1) = Inr (b, d1, w2)"
      "modify_sinks n (sinks_update ops b) w2 = Inr w3" "w' = put_scan_data n (new_cell d1) w3"
      using r sn by (auto simp: scan_update_def d_def [symmetric] Let_def res_bind_eq_Inr split: if_splits)
    have "discards_ok C (put_scan_data n \<lparr>cell_val = d, cell_mut = True\<rparr> w1)"
      by (rule dk_put_scan_data) (use dk_try_schedule [OF s(1) w] cn in auto)
    from dk_scan_recompute [OF u s(2) this] have "discards_ok C w2" "sd_scan d1 = sd_scan d" by auto
    then show ?thesis using dk_modify_sinks [OF s(3)] cn by (auto simp: s(4) intro: dk_put_scan_data)
  qed
qed

lemma keeps_node_update: "keeps_discards C (node_update ops fuel)"
proof (induction fuel)
  case (Suc fuel)
  show ?case unfolding keeps_discards_def by (auto dest: dk_scan_update [OF Suc.IH])
qed (simp add: keeps_discards_def)

lemma keeps_do_update: "keeps_discards C (do_update ops)"
  unfolding keeps_discards_def do_update_def by (auto dest: keeps_discardsD [OF keeps_node_update])

lemma dk_signal_get: "signal_get ops n w = Inr (v, w') \<Longrightarrow> discards_ok C w \<Longrightarrow> discards_ok C w'"
  by (auto simp: signal_get_def res_bind_eq_Inr dest: dk_node_borrow [OF keeps_do_update])

lemma dk_put_effect_data:
  assumes "discards_ok C w" and "C n = Some (CEffect (ed_f (cell_val c)) p)"
  shows "discards_ok C (put_effect_data n c w)"
proof -
  have cn: "code w n = Some (CEffect (ed_f (cell_val c)) p)" using assms by (simp add: discards_ok_def)
  then obtain nd where nd: "heap w n = Some nd" by (cases "heap w n") (simp_all add: code_def)
  with cn obtain e where e: "heap w n = Some (EffectNode e)" "ef_phase e = p" by (cases nd) (simp_all add: code_def)
  have "code (put_effect_data n c w) = code w"
    using e cn by (simp add: fun_eq_iff put_effect_data_views(1) [OF e(1)])
  moreover have "discards (put_effect_data n c w) = discards w" using e by (simp add: put_effect_data_def)
  ultimately show ?thesis using assms(1) by (simp add: discards_ok_def)
qed

lemma dk_log [simp]: "discards_ok C (w\<lparr>effect_log := l\<rparr>) = discards_ok C w"
proof -
  have "code (w\<lparr>effect_log := l\<rparr>) = code w" by (simp add: fun_eq_iff code_def)
  then show ?thesis by (simp add: discards_ok_def)
qed

lemma dk_effect_call:
  assumes r: "effect_call ops n w = Inr w'" and w: "discards_ok C w"
  shows "discards_ok C w'"
proof (cases "\<exists>e. heap w n = Some (EffectNode e)")
  case True
  then obtain e where e: "heap w n = Some (EffectNode e)" by blast
  define d where "d = cell_val (ef_data e)"
  have cn: "C n = Some (CEffect (ed_f d) (ef_phase e))" using w e by (auto simp: discards_ok_def code_def d_def)
  obtain b sb w1 where c: "binder_check ops (do_update ops) (ed_sb d) (put_effect_data n \<lparr>cell_val = d, cell_mut = True\<rparr> w) = Inr (b, sb, w1)"
    and rr: "(if b then
                res_bind (binder_update ops (do_update ops) (ed_f d (ed_state d)) sb w1) (\<lambda>(st, sb1, w2).
                  Inr ((put_effect_data n (new_cell (d\<lparr>ed_state := st, ed_sb := sb1\<rparr>)) w2)
                         \<lparr>effect_log := (n, st) # effect_log w2\<rparr>))
              else Inr (put_effect_data n (new_cell (d\<lparr>ed_sb := sb\<rparr>)) w1)) = Inr w'"
    using r e by (auto simp: effect_call_def d_def [symmetric] Let_def res_bind_eq_Inr split: if_splits)
  have "discards_ok C (put_effect_data n \<lparr>cell_val = d, cell_mut = True\<rparr> w)"
    by (rule dk_put_effect_data) (use w cn in auto)
  from dk_binder_check [OF keeps_do_update c this] have w1: "discards_ok C w1" .
  show ?thesis
  proof (cases b)
    case True
    then obtain st sb1 w2 where "binder_update ops (do_update ops) (ed_f d (ed_state d)) sb w1 = Inr (st, sb1, w2)"
      "w' = (put_effect_data n (new_cell (d\<lparr>ed_state := st, ed_sb := sb1\<rparr>)) w2)\<lparr>effect_log := (n, st) # effect_log w2\<rparr>"
      using rr by (auto simp: res_bind_eq_Inr)
    then show ?thesis using dk_binder_update [OF keeps_do_update _ w1] cn
      by (auto intro!: dk_put_effect_data [where p = "ef_phase e"])
  next
    case False
    then show ?thesis using rr w1 cn by (auto intro!: dk_put_effect_data [where p = "ef_phase e"])
  qed
next
  case False
  then show ?thesis using r w by (auto simp: effect_call_def split: option.splits node.splits)
qed

lemma dk_scan_discard:
  assumes r: "scan_discard ops n w = Inr w'" and w: "discards_ok C w"
  shows "discards_ok C w'"
proof -
  obtain sn where sn: "heap w n = Some (ScanNode sn)"
    using r by (auto simp: scan_discard_def split: option.splits node.splits)
  define w1 where "w1 = put_node n (ScanNode (sn\<lparr>sn_scheduled := False\<rparr>)) w"
  have "code w1 = code w" "discards w1 = discards w" using sn by (simp_all add: w1_def fun_eq_iff code_def)
  then have w1: "discards_ok C w1" using w by (simp add: discards_ok_def)
  define d where "d = cell_val (sn_data sn)"
  have cn: "C n = Some (CScan (sd_scan d) (sn_discard sn))" using w sn by (auto simp: discards_ok_def code_def d_def)
  have "w' = w1 \<or> (\<exists>f sb w2. binder_clear ops (sd_sb d) (put_scan_data n \<lparr>cell_val = d, cell_mut = True\<rparr> w1) = Inr (sb, w2)
      \<and> w' = put_scan_data n (new_cell (d\<lparr>sd_state := f (sd_state d), sd_sb := sb\<rparr>)) w2)"
    using r sn by (auto simp: scan_discard_def w1_def [symmetric] d_def [symmetric] Let_def res_bind_eq_Inr
        split: if_splits discard_fn.splits)
  moreover have "discards_ok C (put_scan_data n \<lparr>cell_val = d, cell_mut = True\<rparr> w1)"
    by (rule dk_put_scan_data) (use w1 cn in auto)
  ultimately show ?thesis using w1 cn dk_unbind_all
    by (fastforce simp: binder_clear_def res_bind_eq_Inr intro: dk_put_scan_data)
qed

subsection \<open>Pending reactions\<close>

primrec reads_ok :: "(nid \<Rightarrow> bool) \<Rightarrow> ('v, 'a) prog \<Rightarrow> bool" where
  "reads_ok P (Return x) = True"
| "reads_ok P (Read m k) = (P m \<and> (\<forall>v. reads_ok P (k v)))"
| "reads_ok P (ReadUntracked m k) = (P m \<and> (\<forall>v. reads_ok P (k v)))"
| "reads_ok P Fail = False"

definition source_code :: "(nid \<Rightarrow> 'v code option) \<Rightarrow> nid \<Rightarrow> bool" where
  "source_code C n \<longleftrightarrow> C n = Some CState \<or> (\<exists>s d. C n = Some (CScan s d))"

lemma source_code_eq: "source_code (code w) = is_source w"
  by (simp add: fun_eq_iff source_code_def is_source_code)

definition reaction_ok :: "(nid \<Rightarrow> 'v code option) \<Rightarrow> 'v reaction \<Rightarrow> bool" where
  "reaction_ok C r = (case r of
       EffectCall n \<Rightarrow> C n = None \<or> (\<exists>f p. C n = Some (CEffect f p))
     | ScanDiscard n \<Rightarrow> False
     | UserReaction p \<Rightarrow> reads_ok (source_code C) p)"

definition reactions_ok :: "(nid \<Rightarrow> 'v code option) \<Rightarrow> ('m, 'v, 'z) world_scheme \<Rightarrow> bool" where
  "reactions_ok C w \<longleftrightarrow> code w = C \<and> (\<forall>i. \<forall>r \<in> set (bk_queue (g_reactions w) i). reaction_ok C r)"

lemma reactions_ok_cong:
  "code w' = code w \<Longrightarrow> g_reactions w' = g_reactions w \<Longrightarrow> reactions_ok C w' = reactions_ok C w"
  by (simp add: reactions_ok_def)

lemma rk_put_sinks [simp]: "reactions_ok C (put_sinks n c w) = reactions_ok C w"
  by (rule reactions_ok_cong) (simp_all add: fun_eq_iff rest_same_fields(5) [OF put_sinks_rest])

lemma rk_put_scan_data:
  assumes "reactions_ok C w" and "C n = Some (CScan (sd_scan (cell_val c)) d)"
  shows "reactions_ok C (put_scan_data n c w)"
proof -
  have "code w n = Some (CScan (sd_scan (cell_val c)) d)" using assms by (simp add: reactions_ok_def)
  then obtain sn where sn: "heap w n = Some (ScanNode sn)" "sn_discard sn = d" by (rule code_scanE)
  have "code (put_scan_data n c w) = code w"
    using sn assms by (simp add: fun_eq_iff put_scan_data_views(1) [OF sn(1)] reactions_ok_def)
  then show ?thesis
    using assms(1) reactions_ok_cong rest_same_fields(5) [OF put_scan_data_rest] by blast
qed

lemma rk_put_effect_data:
  assumes "reactions_ok C w" and e: "heap w n = Some (EffectNode e)" and "ed_f (cell_val c) = ed_f (cell_val (ef_data e))"
  shows "reactions_ok C (put_effect_data n c w)"
proof -
  have "code w n = Some (CEffect (ed_f (cell_val c)) (ef_phase e))" using e assms(3) by (simp add: code_def)
  then have "code (put_effect_data n c w) = code w" by (simp add: fun_eq_iff put_effect_data_views(1) [OF e])
  then show ?thesis
    using assms(1) reactions_ok_cong rest_same_fields(5) [OF put_effect_data_rest] by blast
qed

lemma global_wake_select [simp]:
  "heap (global_wake w) = heap w" "g_reactions (global_wake w) = g_reactions w" "discards (global_wake w) = discards w"
  "next_id (global_wake w) = next_id w" "g_config (global_wake w) = g_config w" "g_unbinds (global_wake w) = g_unbinds w"
  "g_notifys (global_wake w) = g_notifys w" "effect_log (global_wake w) = effect_log w"
  by (simp_all add: global_wake_def Let_def)

lemma rk_schedule:
  assumes "schedule_reaction p r w = Inr w'" and w: "reactions_ok C w" and "reaction_ok C r"
  shows "reactions_ok C w'"
proof -
  obtain b where b: "bk_push (sint p) r (g_reactions w) = Inr b" "w' = global_wake (w\<lparr>g_reactions := b\<rparr>)"
    using assms(1) by (auto simp: schedule_reaction_def res_bind_eq_Inr)
  have q: "bk_queue b = (bk_queue (g_reactions w))(sint p := bk_queue (g_reactions w) (sint p) @ [r])"
    using bk_push_ok [of "sint p" r "g_reactions w"] b(1) by auto
  have "code w' = code w" by (rule view_heap_cong(1)) (simp add: b(2))
  then show ?thesis using w assms(3) q by (auto simp: reactions_ok_def b(2))
qed

lemma rk_notify_sinks:
  assumes k: "\<And>s slot level w w'. ntf s slot level w = Inr w' \<Longrightarrow> reactions_ok C w \<Longrightarrow> reactions_ok C w'"
    and r: "notify_sinks ops ntf n level w = Inr w'" and w: "reactions_ok C w"
  shows "reactions_ok C w'"
proof -
  obtain S S1 w1 where s: "sinks_notify ops (\<lambda>b. ntf (sb_sink b) (sb_slot b) level) level S
      (put_sinks n \<lparr>cell_val = S, cell_mut = True\<rparr> w) = Inr (S1, w1)" and w': "w' = put_sinks n (new_cell S1) w1"
    using r by (auto simp: notify_sinks_def res_bind_eq_Inr)
  have "reactions_ok C (snd (S1, w1))"
    by (rule res_fold_invariant [OF s [unfolded sinks_notify_def Let_def], where P = "\<lambda>x. reactions_ok C (snd x)"])
      (use w k in \<open>auto simp: notify_one_def res_bind_eq_Inr split: option.splits if_splits\<close>)
  then show ?thesis by (simp add: w')
qed

lemma rk_notify_step:
  assumes k: "\<And>s slot level w w'. ntf s slot level w = Inr w' \<Longrightarrow> reactions_ok C w \<Longrightarrow> reactions_ok C w'"
    and r: "notify_step ops ntf n slot level w = Inr w'" and w: "reactions_ok C w"
  shows "reactions_ok C w'"
proof (cases "heap w n")
  case None
  then show ?thesis using r w by (simp add: notify_step_def)
next
  case (Some nd)
  show ?thesis
  proof (cases nd)
    case (StateNode s)
    then show ?thesis using r Some rk_notify_sinks [OF k _ w] by (simp add: notify_step_def)
  next
    case (ScanNode sn)
    define d where "d = cell_val (sn_data sn)"
    obtain needs sb where b: "binder_on_notify slot level (sd_sb d) = (needs, sb)" by force
    define w1 where "w1 = put_scan_data n (new_cell (d\<lparr>sd_sb := sb\<rparr>)) w"
    have "C n = Some (CScan (sd_scan d) (sn_discard sn))" using w Some ScanNode by (auto simp: reactions_ok_def code_def d_def)
    then have w1: "reactions_ok C w1" unfolding w1_def by (intro rk_put_scan_data [OF w]) simp
    have "(if needs then notify_sinks ops ntf n (maybe_if level (scan_filter (sd_scan d))) w1 else Inr w1) = Inr w'"
      using r Some ScanNode b by (simp add: notify_step_def Let_def d_def [symmetric] w1_def [symmetric] split: if_splits)
    then show ?thesis using w1 rk_notify_sinks [OF k _ w1] by (auto split: if_splits)
  next
    case (EffectNode e)
    define d where "d = cell_val (ef_data e)"
    obtain needs sb where b: "binder_on_notify slot level (ed_sb d) = (needs, sb)" by force
    define w1 where "w1 = put_effect_data n (new_cell (d\<lparr>ed_sb := sb\<rparr>)) w"
    have "C n = Some (CEffect (ed_f d) (ef_phase e))" using w Some EffectNode by (auto simp: reactions_ok_def code_def d_def)
    then have rok: "reaction_ok C (EffectCall n)" by (simp add: reaction_ok_def)
    have w1: "reactions_ok C w1" unfolding w1_def
      by (rule rk_put_effect_data [OF w]) (use Some EffectNode in \<open>simp_all add: d_def\<close>)
    have "(if needs then schedule_reaction (ef_phase e) (EffectCall n) w1 else Inr w1) = Inr w'"
      using r Some EffectNode b by (simp add: notify_step_def Let_def d_def [symmetric] w1_def [symmetric] split: if_splits)
    then show ?thesis using w1 rk_schedule [OF _ w1 rok] by (auto split: if_splits)
  qed
qed

lemma rk_node_notify: "node_notify ops fuel n slot level w = Inr w' \<Longrightarrow> reactions_ok C w \<Longrightarrow> reactions_ok C w'"
proof (induction fuel arbitrary: n slot level w w')
  case (Suc fuel)
  show ?case by (rule rk_notify_step [OF Suc.IH, where ops = ops]) (use Suc.prems in auto)
qed simp

lemma rk_state_set:
  assumes "state_set ops n v w = Inr w'" and w: "reactions_ok C w"
  shows "reactions_ok C w'"
proof -
  obtain s where s: "heap w n = Some (StateNode s)" "notify_sinks ops (node_notify ops (next_id (put_value n v w))) n LevelDirty (put_value n v w) = Inr w'"
    using assms(1) by (auto simp: state_set_def notify_raw_def split: option.splits node.splits)
  have "code (put_value n v w) = code w" using s(1) by (simp add: fun_eq_iff put_value_def code_def)
  moreover have "g_reactions (put_value n v w) = g_reactions w" using s(1) by (simp add: put_value_def put_node_def)
  ultimately have "reactions_ok C (put_value n v w)" using w reactions_ok_cong by blast
  from rk_notify_sinks [OF _ s(2) this] rk_node_notify show ?thesis by blast
qed

end
