(* ===== verification/Runtime_Invariant.thy ===== *)
theory Runtime_Invariant
  imports Runtime_Loop Queue_Contents
begin

section \<open>The invariant of the runtime\<close>

text \<open>
  \<open>rt_inv\<close> adds to the invariant of the graph what the queues, the wake table and the asynchronous
  actions promise: everything queued refers to nodes of the right kind and to phases the
  configuration allows, and every entry of the wake table that belongs to an asynchronous action
  belongs to an existing one. Under it no operation of the runtime panics.
\<close>

subsection \<open>Well-formed closures\<close>

definition action_allowed :: "runtime_config option \<Rightarrow> phase \<Rightarrow> bool" where
  "action_allowed cfg p \<longleftrightarrow> (\<forall>c. cfg = Some c \<longrightarrow> valid_contains (action_phases c) p)"

definition reaction_allowed :: "runtime_config option \<Rightarrow> phase \<Rightarrow> bool" where
  "reaction_allowed cfg p \<longleftrightarrow> (\<forall>c. cfg = Some c \<longrightarrow> valid_contains (reaction_phases c) p)"

text \<open>The last argument says whether the closure may suspend.\<close>

primrec act_ok :: "(nid \<Rightarrow> 'v code option) \<Rightarrow> runtime_config option \<Rightarrow> 'v act \<Rightarrow> bool \<Rightarrow> bool" where
  "act_ok C cfg ADone = (\<lambda>s. True)"
| "act_ok C cfg APanic = (\<lambda>s. False)"
| "act_ok C cfg (AAwait k) = (\<lambda>s. s \<and> act_ok C cfg k s)"
| "act_ok C cfg (AGet n k) = (\<lambda>s. source_code C n \<and> (\<forall>v. act_ok C cfg (k v) s))"
| "act_ok C cfg (ASet n v k) = (\<lambda>s. C n = Some CState \<and> act_ok C cfg k s)"
| "act_ok C cfg (ASetDedup n v k) = (\<lambda>s. C n = Some CState \<and> act_ok C cfg k s)"
| "act_ok C cfg (ASpawn p a k) = (\<lambda>s. action_allowed cfg p \<and> act_ok C cfg a False \<and> act_ok C cfg k s)"
| "act_ok C cfg (ASpawnAsync p a k) = (\<lambda>s. action_allowed cfg p \<and> act_ok C cfg a True \<and> act_ok C cfg k s)"
| "act_ok C cfg (AReaction p r k) = (\<lambda>s. reaction_allowed cfg p \<and> reads_ok (source_code C) r \<and> act_ok C cfg k s)"
| "act_ok C cfg (AWake key k) = (\<lambda>s. act_ok C cfg k s)"

definition action_ok :: "(nid \<Rightarrow> 'v code option) \<Rightarrow> runtime_config option \<Rightarrow> (nat \<Rightarrow> 'v async_action option) \<Rightarrow> 'v action \<Rightarrow> bool" where
  "action_ok C cfg H a = (case a of ActBox f \<Rightarrow> act_ok C cfg f False
     | ActStartAsync p f \<Rightarrow> action_allowed cfg p \<and> act_ok C cfg f True
     | ActNext i \<Rightarrow> H i \<noteq> None)"

definition async_ok :: "(nid \<Rightarrow> 'v code option) \<Rightarrow> runtime_config option \<Rightarrow> (nat \<Rightarrow> 'v async_action option) \<Rightarrow> nat \<Rightarrow> bool" where
  "async_ok C cfg H m \<longleftrightarrow> (\<forall>i x. H i = Some x \<longrightarrow> i < m \<and> action_allowed cfg (aa_phase x)
     \<and> (\<forall>d. cell_val (aa_data x) = Some d \<longrightarrow> act_ok C cfg (ad_future d) True))"

definition wake_ok :: "('m, 's, 't) slabs \<Rightarrow> (nid \<Rightarrow> 'v code option) \<Rightarrow> (nat \<Rightarrow> 'v async_action option) \<Rightarrow> 's \<Rightarrow> bool" where
  "wake_ok L C H s \<longleftrightarrow> (\<forall>key r. slab_get (wake_slab L) s key = Some r \<longrightarrow>
     (case r of WakeNotify n slot \<Rightarrow> C n = None \<or> C n = Some CState | WakeAsync a \<Rightarrow> H a \<noteq> None))"

definition rt_inv :: "('m, 's, 't) slabs \<Rightarrow> (nid \<Rightarrow> ('v, 'v) prog) \<Rightarrow> ('m, 'v, 's, 't) runtime \<Rightarrow> bool" where
  "rt_inv L G w \<longleftrightarrow> sys_inv (sink_slab L) G w \<and> pending_ok (sink_slab L) w \<and> discards_ok (code w) w \<and> reactions_ok (code w) w
     \<and> (\<forall>(n, slot) \<in> set (g_notifys w). code w n = None \<or> code w n = Some CState)
     \<and> bk_inv (g_actions w) \<and> (\<forall>i. \<forall>a \<in> set (bk_queue (g_actions w) i). action_ok (code w) (g_config w) (async_heap w) a)
     \<and> async_ok (code w) (g_config w) (async_heap w) (next_async w)
     \<and> wake_ok L (code w) (async_heap w) (wk_reactions w)"

definition slabs_laws :: "('m, 's, 't) slabs \<Rightarrow> bool" where
  "slabs_laws L \<longleftrightarrow> slab_laws (sink_slab L) \<and> slab_laws (wake_slab L) \<and> slab_laws (async_slab L)"

lemma slabs_lawsD:
  "slabs_laws L \<Longrightarrow> slab_laws (sink_slab L)" "slabs_laws L \<Longrightarrow> slab_laws (wake_slab L)" "slabs_laws L \<Longrightarrow> slab_laws (async_slab L)"
  by (simp_all add: slabs_laws_def)

lemma rt_invI:
  assumes "sys_inv (sink_slab L) G w" and "pending_ok (sink_slab L) w" and "discards_ok (code w) w" and "reactions_ok (code w) w"
    and "\<And>n slot. (n, slot) \<in> set (g_notifys w) \<Longrightarrow> code w n = None \<or> code w n = Some CState"
    and "bk_inv (g_actions w)" and "\<And>i a. a \<in> set (bk_queue (g_actions w) i) \<Longrightarrow> action_ok (code w) (g_config w) (async_heap w) a"
    and "async_ok (code w) (g_config w) (async_heap w) (next_async w)" and "wake_ok L (code w) (async_heap w) (wk_reactions w)"
  shows "rt_inv L G w"
  using assms unfolding rt_inv_def by auto

lemma rt_invD:
  assumes "rt_inv L G w"
  shows rt_sys: "sys_inv (sink_slab L) G w" and rt_pending: "pending_ok (sink_slab L) w" and rt_discards: "discards_ok (code w) w"
    and rt_reactions: "reactions_ok (code w) w"
    and rt_notifys: "\<And>n slot. (n, slot) \<in> set (g_notifys w) \<Longrightarrow> code w n = None \<or> code w n = Some CState"
    and rt_bk: "bk_inv (g_actions w)" and rt_actions: "\<And>i a. a \<in> set (bk_queue (g_actions w) i) \<Longrightarrow> action_ok (code w) (g_config w) (async_heap w) a"
    and rt_async: "async_ok (code w) (g_config w) (async_heap w) (next_async w)" and rt_wake: "wake_ok L (code w) (async_heap w) (wk_reactions w)"
  using assms unfolding rt_inv_def by auto

subsection \<open>Frames\<close>

text \<open>The fields that the runtime adds to the world, and the configuration.\<close>

definition rt_same :: "('m, 'v, 's, 't) runtime \<Rightarrow> ('m, 'v, 's, 't) runtime \<Rightarrow> bool" where
  "rt_same w w' \<longleftrightarrow> g_actions w' = g_actions w \<and> wk_reactions w' = wk_reactions w \<and> rq_wakes w' = rq_wakes w
     \<and> rq_drops w' = rq_drops w \<and> async_actions w' = async_actions w \<and> async_heap w' = async_heap w
     \<and> next_async w' = next_async w \<and> g_runtime w' = g_runtime w \<and> g_config w' = g_config w"

lemma rt_same_refl [simp]: "rt_same w w"
  by (simp add: rt_same_def)

lemma rt_same_trans: "rt_same w w1 \<Longrightarrow> rt_same w1 w2 \<Longrightarrow> rt_same w w2"
  by (simp add: rt_same_def)

lemma rest_same_rt:
  assumes "rest_same w w'"
  shows "rt_same w w'"
proof -
  note a = assms [unfolded rest_same_def]
  show ?thesis unfolding rt_same_def by (subst a, simp)+ simp?
qed

lemma ntf_rest_rt:
  assumes "ntf_rest w w'"
  shows "rt_same w w'"
proof -
  note a = assms [unfolded ntf_rest_def]
  show ?thesis unfolding rt_same_def by (subst a, simp)+ simp?
qed

lemma called_rt:
  assumes "called n w w'"
  shows "rt_same w w'"
proof -
  note a = assms [unfolded called_def, THEN conjunct1]
  show ?thesis unfolding rt_same_def by (subst a, simp)+ simp?
qed

text \<open>A step of the graph part that keeps the nodes and what is deferred.\<close>

definition graph_step :: "('m, 'v, 's, 't) runtime \<Rightarrow> ('m, 'v, 's, 't) runtime \<Rightarrow> bool" where
  "graph_step w w' \<longleftrightarrow> rt_same w w' \<and> code w' = code w \<and> next_id w' = next_id w \<and> g_unbinds w' = g_unbinds w \<and> g_notifys w' = g_notifys w"

lemma graph_stepD:
  assumes "graph_step w w'"
  shows "g_actions w' = g_actions w" "wk_reactions w' = wk_reactions w" "rq_wakes w' = rq_wakes w" "rq_drops w' = rq_drops w"
    "async_actions w' = async_actions w" "async_heap w' = async_heap w" "next_async w' = next_async w" "g_config w' = g_config w"
    "code w' = code w" "next_id w' = next_id w" "g_unbinds w' = g_unbinds w" "g_notifys w' = g_notifys w"
  using assms by (simp_all add: graph_step_def rt_same_def)

lemma graph_step_refl [simp]: "graph_step w w"
  by (simp add: graph_step_def)

lemma graph_step_trans: "graph_step w w1 \<Longrightarrow> graph_step w1 w2 \<Longrightarrow> graph_step w w2"
  by (auto simp: graph_step_def intro: rt_same_trans)

lemma rt_inv_step:
  assumes inv: "rt_inv L G w" and st: "graph_step w w'" and "sys_inv (sink_slab L) G w'" and "pending_ok (sink_slab L) w'"
    and "discards_ok (code w) w'" and "reactions_ok (code w) w'"
  shows "rt_inv L G w'"
  using assms(3-) inv unfolding rt_inv_def by (simp add: graph_stepD [OF st])

lemma rt_signal_get:
  assumes L: "slabs_laws L" and inv: "rt_inv L G w" and u: "g_unbinds w = []" and src: "is_source w n"
  shows "\<exists>v w'. signal_get (sink_slab L) n w = Inr (v, w') \<and> sem G w n = Some v \<and> rt_inv L G w' \<and> graph_step w w'
    \<and> sem G w' = sem G w \<and> g_reactions w' = g_reactions w \<and> (\<forall>k. stale w' k \<longrightarrow> stale w k)"
proof -
  note sys = rt_sys [OF inv]
  obtain v w' where r: "signal_get (sink_slab L) n w = Inr (v, w')" "sem G w n = Some v" "graph_inv (sink_slab L) G w'"
    "upd_frame (sink_slab L) (Suc n) (Suc n) w w'"
    using signal_get_ok [OF slabs_lawsD(1) [OF L] sys_graph [OF sys] sys_quiet [OF sys] src] by blast
  note rs = frame_rest [OF r(4)] and f = rest_same_fields [OF frame_rest [OF r(4)]]
  have st: "graph_step w w'" using rest_same_rt [OF rs] by (simp add: graph_step_def f frame_code [OF r(4)])
  have "rt_inv L G w'"
  proof (rule rt_inv_step [OF inv st sys_inv_upd [OF sys r(3,4)]])
    show "pending_ok (sink_slab L) w'" using u f by simp
    show "discards_ok (code w) w'" by (rule dk_signal_get [OF r(1) rt_discards [OF inv]])
    show "reactions_ok (code w) w'" using rt_reactions [OF inv] f frame_code [OF r(4)] by (simp add: reactions_ok_def)
  qed
  then show ?thesis using r(1,2) st upd_frame_sem [OF r(4), of G] f frame_stale [OF r(4)] by blast
qed

lemma rt_state_set:
  assumes L: "slabs_laws L" and inv: "rt_inv L G w" and n: "code w n = Some CState"
  shows "\<exists>w'. state_set (sink_slab L) n v w = Inr w' \<and> rt_inv L G w' \<and> graph_step w w' \<and> written n v w w'"
proof -
  obtain w' where r: "state_set (sink_slab L) n v w = Inr w'" "sys_inv (sink_slab L) G w'" "written n v w w'"
    "\<forall>k key. rel_option grown_entry (entry (sink_slab L) w k key) (entry (sink_slab L) w' k key)"
    using state_set_ok [OF slabs_lawsD(1) [OF L] rt_sys [OF inv] n, of v] by blast
  have nr: "ntf_rest w w'" and c: "code w' = code w" using r(3) by (simp_all add: written_def)
  note f = ntf_rest_fields [OF nr]
  have st: "graph_step w w'" using ntf_rest_rt [OF nr] by (simp add: graph_step_def f c)
  have "rt_inv L G w'"
  proof (rule rt_inv_step [OF inv st r(2)])
    have "is_source w' = is_source w" by (simp add: fun_eq_iff is_source_code c)
    moreover have "code w' (sb_sink e') = None" if old: "\<forall>e. entry (sink_slab L) w k key = Some e \<longrightarrow> code w (sb_sink e) = None"
      and new: "entry (sink_slab L) w' k key = Some e'" for k key e'
    proof -
      obtain e where "entry (sink_slab L) w k key = Some e" "grown_entry e e'"
        using r(4) new by (metis option.rel_distinct(1) option.rel_inject(2) option.exhaust)
      then show ?thesis using old by (simp add: grown_entry_def c)
    qed
    ultimately show "pending_ok (sink_slab L) w'" using rt_pending [OF inv] by (simp only: pending_ok_def f) blast
    show "discards_ok (code w) w'" using rt_discards [OF inv] by (simp add: discards_ok_def f c)
    show "reactions_ok (code w) w'" by (rule rk_state_set [OF r(1) rt_reactions [OF inv]])
  qed
  then show ?thesis using r st by blast
qed

text \<open>A notification of a state is a write of the value it has.\<close>

lemma do_notify_state:
  assumes "code w n = Some CState"
  obtains v where "do_notify ops n slot level w = state_set ops n v w" and "cval w n = Some v"
proof -
  obtain nd where nd: "heap w n = Some nd" using assms by (cases "heap w n") (simp_all add: code_def)
  then obtain s where s: "heap w n = Some (StateNode s)" using assms by (cases nd) (simp_all add: code_def)
  have "put_value n (st_value s) w = w" using s by (simp add: put_value_def put_node_def fun_upd_idem)
  then have "do_notify ops n slot level w = state_set ops n (st_value s) w"
    using s by (simp add: do_notify_def notify_step_def state_set_def notify_raw_def)
  then show ?thesis using that [of "st_value s"] s by (simp add: cval_def)
qed

lemma written_same_sem:
  assumes "written n v w w'" and "cval w n = Some v"
  shows "sem G w' = sem G w"
  by (rule sem_cong) (use assms in \<open>auto simp: written_def\<close>)

lemma rt_do_notify:
  assumes L: "slabs_laws L" and inv: "rt_inv L G w" and n: "code w n = None \<or> code w n = Some CState"
  shows "\<exists>w'. do_notify (sink_slab L) n slot level w = Inr w' \<and> rt_inv L G w' \<and> graph_step w w' \<and> sem G w' = sem G w"
proof (cases "code w n")
  case None
  then have "heap w n = None" by (simp add: code_def)
  then have "do_notify (sink_slab L) n slot level w = Inr w" by (simp add: do_notify_def notify_step_def)
  then show ?thesis using inv by auto
next
  case (Some c)
  then have c: "code w n = Some CState" using n by simp
  obtain v where v: "do_notify (sink_slab L) n slot level w = state_set (sink_slab L) n v w" "cval w n = Some v"
    by (rule do_notify_state [OF c])
  show ?thesis using rt_state_set [OF L inv c, of v] v written_same_sem by metis
qed

end
