(* ===== verification/Runtime_Steps.thy ===== *)
theory Runtime_Steps
  imports Runtime_Invariant "HOL-Library.Multiset"
begin

section \<open>The steps of the runtime return and keep the invariant\<close>

subsection \<open>The work that is pending\<close>

text \<open>
  The closures that are queued or suspended, as a multiset. A dispatched action replaces its
  closure by proper subterms of it.
\<close>

definition acts_in :: "'v action \<Rightarrow> 'v act multiset" where
  "acts_in a = (case a of ActBox f \<Rightarrow> {#f#} | ActStartAsync p f \<Rightarrow> {#f#} | ActNext i \<Rightarrow> {#})"

definition queue_acts :: "'v action buckets \<Rightarrow> 'v act multiset" where
  "queue_acts b = (\<Sum>i \<in> {-128..127}. \<Sum>\<^sub># (image_mset acts_in (mset (bk_queue b i))))"

definition async_rest :: "'v async_action option \<Rightarrow> 'v act multiset" where
  "async_rest x = (case x of None \<Rightarrow> {#} | Some y \<Rightarrow> (case cell_val (aa_data y) of None \<Rightarrow> {#} | Some d \<Rightarrow> {#ad_future d#}))"

definition async_acts :: "(nat \<Rightarrow> 'v async_action option) \<Rightarrow> nat \<Rightarrow> 'v act multiset" where
  "async_acts H m = (\<Sum>i < m. async_rest (H i))"

definition acts_of :: "('m, 'v, 's, 't) runtime \<Rightarrow> 'v act multiset" where
  "acts_of w = queue_acts (g_actions w) + async_acts (async_heap w) (next_async w)"

lemma queue_acts_upd:
  assumes "bk_queue b' = (bk_queue b)(i := q)" and "phase_id i"
  shows "queue_acts b' + \<Sum>\<^sub># (image_mset acts_in (mset (bk_queue b i))) = queue_acts b + \<Sum>\<^sub># (image_mset acts_in (mset q))"
proof -
  let ?f = "\<lambda>b i. \<Sum>\<^sub># (image_mset acts_in (mset (bk_queue b i)))"
  let ?I = "{-128..127} - {i}"
  have i: "i \<in> {-128..127}" using assms(2) by (simp add: phase_id_def)
  have "queue_acts b = ?f b i + sum (?f b) ?I" for b :: "'a action buckets"
    unfolding queue_acts_def by (rule sum.remove) (use i in auto)
  moreover have "sum (?f b') ?I = sum (?f b) ?I" by (rule sum.cong) (simp_all add: assms(1))
  moreover have "?f b' i = \<Sum>\<^sub># (image_mset acts_in (mset q))" by (simp add: assms(1))
  ultimately show ?thesis by (simp add: ac_simps)
qed

lemma async_acts_upd:
  assumes "i < m"
  shows "async_acts (H(i := x)) m + async_rest (H i) = async_acts H m + async_rest x"
proof -
  have "async_acts H m = async_rest (H i) + (\<Sum>j \<in> {..<m} - {i}. async_rest (H j))" for H
    unfolding async_acts_def by (rule sum.remove) (use assms in auto)
  from this [of H] this [of "H(i := x)"] have "async_acts H m = async_rest (H i) + (\<Sum>j \<in> {..<m} - {i}. async_rest (H j))"
    "async_acts (H(i := x)) m = async_rest x + (\<Sum>j \<in> {..<m} - {i}. async_rest ((H(i := x)) j))" by simp_all
  moreover have "(\<Sum>j \<in> {..<m} - {i}. async_rest ((H(i := x)) j)) = (\<Sum>j \<in> {..<m} - {i}. async_rest (H j))"
    by (rule sum.cong) auto
  ultimately show ?thesis by (simp add: ac_simps)
qed

lemma async_acts_Suc: "H m = x \<Longrightarrow> async_acts H (Suc m) = async_acts H m + async_rest x"
  by (simp add: async_acts_def)

subsection \<open>Scheduling\<close>

lemma sys_inv_cong:
  assumes h: "heap w' = heap w" and "next_id w' = next_id w" "g_config w' = g_config w" "g_reactions w' = g_reactions w"
  shows "sys_inv ops G w' = sys_inv ops G w"
proof -
  have "graph_inv ops G w' = graph_inv ops G w"
    using graph_inv_heap [OF h, of ops G] graph_inv_heap [OF h [symmetric], of ops G] assms(2) by auto
  then show ?thesis by (simp add: sys_inv_def quiet_def phases_ok_def scheduled_def view_heap_cong [OF h] assms)
qed

lemma rt_inv_actions:
  assumes inv: "rt_inv L G w" and "bk_inv b"
    and "\<And>i a. a \<in> set (bk_queue b i) \<Longrightarrow> action_ok (code w) (g_config w) (async_heap w) a"
  shows "rt_inv L G (w\<lparr>g_actions := b\<rparr>)"
proof -
  let ?w = "w\<lparr>g_actions := b\<rparr>"
  have h: "heap ?w = heap w" by simp
  have "sys_inv (sink_slab L) G ?w" using rt_sys [OF inv] sys_inv_cong [OF h, of "sink_slab L" G] by simp
  then show ?thesis
    using inv assms(2,3) unfolding rt_inv_def by (simp add: pending_ok_def discards_ok_def reactions_ok_def view_heap_cong [OF h])
qed

lemma push_action_ok:
  assumes "action_allowed (g_config w) p"
  obtains b where "push_action p a w = Inr (w\<lparr>g_actions := b\<rparr>)"
    and "bk_queue b = (bk_queue (g_actions w))(sint p := bk_queue (g_actions w) (sint p) @ [a])"
    and "bk_inv (g_actions w) \<longrightarrow> bk_inv b" and "queue_acts b = queue_acts (g_actions w) + acts_in a"
proof -
  obtain b where b: "bk_push (sint p) a (g_actions w) = Inr b"
    "bk_queue b = (bk_queue (g_actions w))(sint p := bk_queue (g_actions w) (sint p) @ [a])"
    using bk_push_ok by metis
  have "(case g_config w of None \<Rightarrow> Inr () | Some c \<Rightarrow> assert_valid_action_phase c p) = Inr ()"
    using assms by (auto simp: action_allowed_def assert_valid_action_phase_def split: option.split)
  then have "push_action p a w = Inr (w\<lparr>g_actions := b\<rparr>)" using b(1) by (simp add: push_action_def)
  moreover have "bk_inv b" if "bk_inv (g_actions w)" using bk_push_inv [OF that _ b(1)] by simp
  moreover have "queue_acts b = queue_acts (g_actions w) + acts_in a"
    using queue_acts_upd [OF b(2)] by simp
  ultimately show ?thesis using that b(2) by blast
qed

lemma rt_push_action:
  assumes inv: "rt_inv L G w" and p: "action_allowed (g_config w) p" and a: "action_ok (code w) (g_config w) (async_heap w) a"
  obtains b where "push_action p a w = Inr (w\<lparr>g_actions := b\<rparr>)" and "rt_inv L G (w\<lparr>g_actions := b\<rparr>)"
    and "queue_acts b = queue_acts (g_actions w) + acts_in a"
proof -
  obtain b where b: "push_action p a w = Inr (w\<lparr>g_actions := b\<rparr>)"
    "bk_queue b = (bk_queue (g_actions w))(sint p := bk_queue (g_actions w) (sint p) @ [a])"
    "bk_inv (g_actions w) \<longrightarrow> bk_inv b" "queue_acts b = queue_acts (g_actions w) + acts_in a"
    by (rule push_action_ok [OF p, where a = a])
  have "rt_inv L G (w\<lparr>g_actions := b\<rparr>)"
    by (rule rt_inv_actions [OF inv b(3) [rule_format, OF rt_bk [OF inv]]])
      (use b(2) a rt_actions [OF inv] in \<open>auto split: if_splits\<close>)
  then show ?thesis using that b by blast
qed

text \<open>Fields that no invariant mentions.\<close>

lemma rt_inv_cong:
  assumes h: "heap w' = heap w" and "next_id w' = next_id w" "g_config w' = g_config w" "g_reactions w' = g_reactions w"
    "discards w' = discards w" "g_unbinds w' = g_unbinds w" "g_notifys w' = g_notifys w" "g_actions w' = g_actions w"
    "async_heap w' = async_heap w" "next_async w' = next_async w" "wk_reactions w' = wk_reactions w"
  shows "rt_inv L G w' = rt_inv L G w"
  using assms(2-) sys_inv_cong [OF h, of "sink_slab L" G]
  by (simp add: rt_inv_def pending_ok_def discards_ok_def reactions_ok_def view_heap_cong [OF h])

lemma rt_inv_flags [simp]:
  "rt_inv L G (w\<lparr>rq_wakes := ks\<rparr>) = rt_inv L G w" "rt_inv L G (w\<lparr>rq_drops := ks\<rparr>) = rt_inv L G w"
  "rt_inv L G (w\<lparr>g_runtime := x\<rparr>) = rt_inv L G w" "rt_inv L G (w\<lparr>async_actions := t\<rparr>) = rt_inv L G w"
  by (rule rt_inv_cong; simp)+

lemma rt_inv_raw_wake [simp]: "rt_inv L G (raw_wake key w) = rt_inv L G w"
  by (rule rt_inv_cong) (simp_all add: raw_wake_def Let_def)

lemma rt_inv_global_wake [simp]: "rt_inv L G (global_wake w) = rt_inv L G w"
  by (rule rt_inv_cong) (simp_all add: global_wake_def Let_def)

subsection \<open>Wakes\<close>

text \<open>The fields that serving the wakes leaves alone.\<close>

definition wake_frame :: "('m, 'v, 's, 't) runtime \<Rightarrow> ('m, 'v, 's, 't) runtime \<Rightarrow> bool" where
  "wake_frame w w' \<longleftrightarrow> w' = w\<lparr>g_actions := g_actions w', wk_reactions := wk_reactions w', rq_wakes := rq_wakes w',
     rq_drops := rq_drops w', g_notifys := g_notifys w'\<rparr>"

lemma wake_frame_fields:
  assumes "wake_frame w w'"
  shows "heap w' = heap w" "next_id w' = next_id w" "g_config w' = g_config w" "g_reactions w' = g_reactions w"
    "discards w' = discards w" "g_unbinds w' = g_unbinds w" "async_heap w' = async_heap w" "next_async w' = next_async w"
    "async_actions w' = async_actions w"
  by (subst assms [unfolded wake_frame_def], simp)+

lemma wake_frame_trans: "wake_frame w w1 \<Longrightarrow> wake_frame w1 w2 \<Longrightarrow> wake_frame w w2"
  unfolding wake_frame_def by (cases w; cases w1; cases w2) simp

lemma wake_one_ok:
  assumes inv: "rt_inv L G w"
  shows "\<exists>w'. wake_one L key w = Inr w' \<and> rt_inv L G w' \<and> wake_frame w w' \<and> rq_wakes w' = rq_wakes w \<and> rq_drops w' = rq_drops w
    \<and> wk_reactions w' = wk_reactions w \<and> queue_acts (g_actions w') = queue_acts (g_actions w)"
proof (cases "slab_get (wake_slab L) (wk_reactions w) key")
  case None
  then show ?thesis using inv by (simp add: wake_one_def wake_frame_def)
next
  case (Some r)
  show ?thesis
  proof (cases r)
    case (WakeNotify n slot)
    let ?w = "w\<lparr>g_notifys := g_notifys w @ [(n, slot)]\<rparr>"
    have c: "code w n = None \<or> code w n = Some CState" using rt_wake [OF inv] Some WakeNotify by (force simp: wake_ok_def)
    have h: "heap ?w = heap w" by simp
    have "sys_inv (sink_slab L) G ?w" using rt_sys [OF inv] sys_inv_cong [OF h, of "sink_slab L" G] by simp
    then have "rt_inv L G ?w"
      using inv c unfolding rt_inv_def by (simp add: pending_ok_def discards_ok_def reactions_ok_def view_heap_cong [OF h])
    then show ?thesis using Some WakeNotify by (simp add: wake_one_def wake_frame_def)
  next
    case (WakeAsync a)
    then have "async_heap w a \<noteq> None" using rt_wake [OF inv] Some by (force simp: wake_ok_def)
    then obtain x where x: "async_heap w a = Some x" by blast
    then have p: "action_allowed (g_config w) (aa_phase x)" using rt_async [OF inv] by (auto simp: async_ok_def)
    have "action_ok (code w) (g_config w) (async_heap w) (ActNext a)" using x by (simp add: action_ok_def)
    from rt_push_action [OF inv p this] obtain b where "push_action (aa_phase x) (ActNext a) w = Inr (w\<lparr>g_actions := b\<rparr>)"
      "rt_inv L G (w\<lparr>g_actions := b\<rparr>)" "queue_acts b = queue_acts (g_actions w) + acts_in (ActNext a)" by metis
    then show ?thesis using Some WakeAsync x by (simp add: wake_one_def wake_frame_def acts_in_def)
  qed
qed

lemma wake_fold_ok:
  assumes inv: "rt_inv L G w"
  shows "\<exists>w'. res_fold (wake_one L) keys w = Inr w' \<and> rt_inv L G w' \<and> wake_frame w w' \<and> rq_wakes w' = rq_wakes w
    \<and> rq_drops w' = rq_drops w \<and> queue_acts (g_actions w') = queue_acts (g_actions w)"
  using inv
proof (induction keys arbitrary: w)
  case (Cons key keys)
  from wake_one_ok [OF Cons.prems, of key] obtain w1 where w1: "wake_one L key w = Inr w1" "rt_inv L G w1" "wake_frame w w1"
    "rq_wakes w1 = rq_wakes w" "rq_drops w1 = rq_drops w" "queue_acts (g_actions w1) = queue_acts (g_actions w)" by blast
  from Cons.IH [OF w1(2)] obtain w' where w': "res_fold (wake_one L) keys w1 = Inr w'" "rt_inv L G w'" "wake_frame w1 w'"
    "rq_wakes w' = rq_wakes w1" "rq_drops w' = rq_drops w1" "queue_acts (g_actions w') = queue_acts (g_actions w1)" by blast
  then show ?case using w1 wake_frame_trans [OF w1(3) w'(3)] by auto
qed (simp add: wake_frame_def)

lemma wake_ok_remove:
  assumes "slab_laws (wake_slab L)" and "wake_ok L C H s"
  shows "wake_ok L C H (fold (\<lambda>key s. slab_remove (wake_slab L) s key) keys s)"
  using assms(2)
proof (induction keys arbitrary: s)
  case (Cons key keys)
  have "wake_ok L C H (slab_remove (wake_slab L) s key)"
    using Cons.prems by (auto simp: wake_ok_def slab_get_remove [OF assms(1)] split: if_splits)
  then show ?case using Cons.IH by simp
qed simp

lemma apply_wake_ok:
  assumes L: "slabs_laws L" and inv: "rt_inv L G w"
  shows "\<exists>w'. apply_wake L w = Inr w' \<and> rt_inv L G w' \<and> wake_frame w w' \<and> rq_wakes w' = [] \<and> rq_drops w' = []
    \<and> acts_of w' = acts_of w"
proof -
  let ?s = "fold (\<lambda>key s. slab_remove (wake_slab L) s key) (rq_drops w) (wk_reactions w)"
  let ?w = "w\<lparr>wk_reactions := ?s, rq_drops := [], rq_wakes := []\<rparr>"
  have h: "heap ?w = heap w" by simp
  have "sys_inv (sink_slab L) G ?w" using rt_sys [OF inv] sys_inv_cong [OF h, of "sink_slab L" G] by simp
  then have "rt_inv L G ?w"
    using inv wake_ok_remove [OF slabs_lawsD(2) [OF L] rt_wake [OF inv]]
    unfolding rt_inv_def by (simp add: pending_ok_def discards_ok_def reactions_ok_def view_heap_cong [OF h])
  from wake_fold_ok [OF this, of "rq_wakes w"] obtain w' where w': "res_fold (wake_one L) (rq_wakes w) ?w = Inr w'" "rt_inv L G w'"
    "wake_frame ?w w'" "rq_wakes w' = []" "rq_drops w' = []" "queue_acts (g_actions w') = queue_acts (g_actions w)" by auto
  have "wake_frame w ?w" by (simp add: wake_frame_def)
  then have f: "wake_frame w w'" using w'(3) by (rule wake_frame_trans)
  moreover have "apply_wake L w = Inr w'" using w'(1) by (simp add: apply_wake_def Let_def)
  moreover have "acts_of w' = acts_of w" using w'(6) by (simp add: acts_of_def wake_frame_fields [OF f])
  ultimately show ?thesis using w' by blast
qed

subsection \<open>Pending unbinds and notifications\<close>

text \<open>
  \<open>kept G w w'\<close>: the nodes, the configuration, the asynchronous actions, the pending work and the
  meaning of the graph are the same.
\<close>

definition kept :: "(nid \<Rightarrow> ('v, 'v) prog) \<Rightarrow> ('m, 'v, 's, 't) runtime \<Rightarrow> ('m, 'v, 's, 't) runtime \<Rightarrow> bool" where
  "kept G w w' \<longleftrightarrow> code w' = code w \<and> g_config w' = g_config w \<and> async_heap w' = async_heap w \<and> next_async w' = next_async w
     \<and> async_actions w' = async_actions w \<and> acts_of w' = acts_of w \<and> sem G w' = sem G w"

lemma kept_refl [simp]: "kept G w w"
  by (simp add: kept_def)

lemma kept_trans: "kept G w w1 \<Longrightarrow> kept G w1 w2 \<Longrightarrow> kept G w w2"
  by (simp add: kept_def)

lemma kept_step: "graph_step w w' \<Longrightarrow> sem G w' = sem G w \<Longrightarrow> kept G w w'"
  by (simp add: kept_def graph_stepD acts_of_def)

lemma kept_wake:
  assumes f: "wake_frame w w'" and "acts_of w' = acts_of w"
  shows "kept G w w'"
proof -
  note ff = wake_frame_fields [OF f]
  have "sem G w' = sem G w" by (rule sem_cong) (simp_all add: view_heap_cong [OF ff(1)])
  then show ?thesis using assms(2) by (simp add: kept_def ff view_heap_cong [OF ff(1)])
qed

lemma apply_unbind_ok:
  assumes L: "slabs_laws L" and inv: "rt_inv L G w"
  shows "\<exists>h w'. apply_unbind L (Suc (Suc f)) w = Inr (h, w') \<and> rt_inv L G w' \<and> g_unbinds w' = [] \<and> kept G w w'
    \<and> rq_wakes w' = rq_wakes w \<and> g_notifys w' = g_notifys w \<and> g_reactions w' = g_reactions w \<and> g_actions w' = g_actions w
    \<and> (h \<longleftrightarrow> g_unbinds w \<noteq> []) \<and> (\<not> h \<longrightarrow> w' = w)"
proof (cases "g_unbinds w = []")
  case True
  then show ?thesis using inv by auto
next
  case False
  define w0 where "w0 = w\<lparr>g_unbinds := []\<rparr>"
  have h: "heap w0 = heap w" by (simp add: w0_def)
  note v = view_heap_cong [OF h]
  have sys: "sys_inv (sink_slab L) G w0" using rt_sys [OF inv] sys_inv_cong [OF h, of "sink_slab L" G] by (simp add: w0_def)
  have "\<forall>b \<in> set (concat (g_unbinds w)). is_source w0 (src_node b) \<and> (\<forall>e. entry (sink_slab L) w0 (src_node b) (src_key b) = Some e
      \<longrightarrow> code w0 (sb_sink e) = None)"
    using rt_pending [OF inv] by (simp add: pending_ok_def v)
  from unbind_pending_ok [OF slabs_lawsD(1) [OF L] sys this] obtain w' where w': "unbind_all (sink_slab L) (concat (g_unbinds w)) w0 = Inr w'"
    "sys_inv (sink_slab L) G w'" "book_same w0 w'" by blast
  have rs: "rest_same w0 w'" and c: "code w' = code w" "cval w' = cval w" using w'(3) by (simp_all add: book_same_def v)
  note f = rest_same_fields [OF rs] and rt = rest_same_rt [OF rs, unfolded rt_same_def]
  have u: "g_unbinds w' = []" by (simp add: f w0_def)
  have "discards_ok (code w) w'"
  proof (rule dk_unbind_all [OF w'(1)])
    show "discards_ok (code w) w0" using rt_discards [OF inv] by (simp add: discards_ok_def v) (simp add: w0_def)
  qed
  moreover have "reactions_ok (code w) w'" using rt_reactions [OF inv] by (simp add: reactions_ok_def c f) (simp add: w0_def)
  ultimately have "rt_inv L G w'"
    using inv w'(2) u f rt c(1) unfolding rt_inv_def by (simp add: w0_def)
  moreover have "sem G w' = sem G w" by (rule sem_cong) (simp_all add: c)
  then have "kept G w w'" using c(1) rt by (simp add: kept_def acts_of_def w0_def)
  moreover have "apply_unbind L (Suc (Suc f)) w = Inr (True, w')"
    using False w'(1) u by (simp add: res_fold_unbind_all w0_def)
  ultimately show ?thesis using u f rt False
    by (intro exI [of _ True] exI [of _ w']) (simp add: w0_def del: apply_unbind.simps)
qed

lemma notify_fold_ok:
  assumes L: "slabs_laws L" and "rt_inv L G w" and "\<forall>x \<in> set ns. code w (fst x) = None \<or> code w (fst x) = Some CState"
  shows "\<exists>w'. res_fold (\<lambda>(n, slot). do_notify (sink_slab L) n slot LevelDirty) ns w = Inr w' \<and> rt_inv L G w' \<and> graph_step w w'
    \<and> sem G w' = sem G w"
  using assms(2,3)
proof (induction ns arbitrary: w)
  case (Cons x ns)
  obtain n slot where x: "x = (n, slot)" by force
  from rt_do_notify [OF L Cons.prems(1), of n slot LevelDirty] Cons.prems(2) x
  obtain w1 where w1: "do_notify (sink_slab L) n slot LevelDirty w = Inr w1" "rt_inv L G w1" "graph_step w w1" "sem G w1 = sem G w"
    by auto
  have "\<forall>x \<in> set ns. code w1 (fst x) = None \<or> code w1 (fst x) = Some CState"
    using Cons.prems(2) by (simp add: graph_stepD [OF w1(3)])
  from Cons.IH [OF w1(2) this] show ?case using w1 x graph_step_trans [OF w1(3)] by auto
qed simp

lemma rt_inv_take_notifys:
  assumes inv: "rt_inv L G w"
  shows "rt_inv L G (w\<lparr>g_notifys := []\<rparr>)"
proof -
  let ?w = "w\<lparr>g_notifys := []\<rparr>"
  have h: "heap ?w = heap w" by simp
  have "sys_inv (sink_slab L) G ?w" using rt_sys [OF inv] sys_inv_cong [OF h, of "sink_slab L" G] by simp
  then show ?thesis
    using inv unfolding rt_inv_def by (simp add: pending_ok_def discards_ok_def reactions_ok_def view_heap_cong [OF h])
qed

lemma get_notifys_ok:
  assumes L: "slabs_laws L" and inv: "rt_inv L G w"
  shows "\<exists>ns w'. get_notifys L w = Inr (ns, w') \<and> rt_inv L G w' \<and> kept G w w' \<and> rq_wakes w' = [] \<and> g_notifys w' = []
    \<and> g_unbinds w' = g_unbinds w \<and> (\<forall>(n, slot) \<in> set ns. code w n = None \<or> code w n = Some CState)
    \<and> (rq_wakes w = [] \<longrightarrow> g_actions w' = g_actions w) \<and> (rq_wakes w = [] \<and> g_notifys w = [] \<longrightarrow> ns = [])
    \<and> heap w' = heap w \<and> g_reactions w' = g_reactions w \<and> discards w' = discards w"
proof -
  obtain w1 where w1: "apply_wake L w = Inr w1" "rt_inv L G w1" "wake_frame w w1" "rq_wakes w1 = []" "rq_drops w1 = []" "acts_of w1 = acts_of w"
    using apply_wake_ok [OF L inv] by blast
  let ?w = "w1\<lparr>g_notifys := []\<rparr>"
  have h: "heap ?w = heap w1" by simp
  have k: "kept G w w1" by (rule kept_wake [OF w1(3,6)])
  have "sem G ?w = sem G w1" by (rule sem_cong) (simp_all add: view_heap_cong [OF h])
  then have "kept G w1 ?w" by (simp add: kept_def acts_of_def view_heap_cong [OF h])
  then have "kept G w ?w" by (rule kept_trans [OF k])
  moreover have "\<forall>(n, slot) \<in> set (g_notifys w1). code w n = None \<or> code w n = Some CState"
    using w1(2) k by (simp add: rt_inv_def kept_def)
  moreover have "g_notifys w1 = g_notifys w \<and> g_actions w1 = g_actions w" if "rq_wakes w = []"
    using w1(1) that by (auto simp: apply_wake_def Let_def)
  ultimately show ?thesis
    using w1 rt_inv_take_notifys [OF w1(2)] wake_frame_fields [OF w1(3)] by (simp add: get_notifys_def)
qed

lemma notify_loop_ok:
  assumes L: "slabs_laws L" and inv: "rt_inv L G w"
  shows "\<exists>h w'. notify_loop L (Suc (Suc f)) w = Inr (h, w') \<and> rt_inv L G w' \<and> kept G w w' \<and> g_unbinds w' = g_unbinds w
    \<and> rq_wakes w' = [] \<and> g_notifys w' = [] \<and> (rq_wakes w = [] \<longrightarrow> g_actions w' = g_actions w)
    \<and> (rq_wakes w = [] \<and> g_notifys w = [] \<longrightarrow> g_reactions w' = g_reactions w \<and> discards w' = discards w)"
proof -
  obtain ns w1 where w1: "get_notifys L w = Inr (ns, w1)" "rt_inv L G w1" "kept G w w1" "rq_wakes w1 = []" "g_notifys w1 = []"
    "g_unbinds w1 = g_unbinds w" "\<forall>(n, slot) \<in> set ns. code w n = None \<or> code w n = Some CState"
    "rq_wakes w = [] \<longrightarrow> g_actions w1 = g_actions w" "rq_wakes w = [] \<and> g_notifys w = [] \<longrightarrow> ns = []"
    "g_reactions w1 = g_reactions w" "discards w1 = discards w"
    using get_notifys_ok [OF L inv] by blast
  show ?thesis
  proof (cases "ns = []")
    case True
    then show ?thesis using w1 by auto
  next
    case False
    have "\<forall>x \<in> set ns. code w1 (fst x) = None \<or> code w1 (fst x) = Some CState" using w1(3,7) by (auto simp: kept_def)
    from notify_fold_ok [OF L w1(2) this] obtain w2
      where w2: "res_fold (\<lambda>(n, slot). do_notify (sink_slab L) n slot LevelDirty) ns w1 = Inr w2" "rt_inv L G w2" "graph_step w1 w2"
        "sem G w2 = sem G w1" by blast
    have q: "rq_wakes w2 = []" "g_notifys w2 = []" using w1(4,5) by (simp_all add: graph_stepD [OF w2(3)])
    obtain ns' w3 where w3: "get_notifys L w2 = Inr (ns', w3)" "rt_inv L G w3" "kept G w2 w3" "rq_wakes w3 = []" "g_notifys w3 = []"
      "g_unbinds w3 = g_unbinds w2" "ns' = []" "g_actions w3 = g_actions w2"
      using get_notifys_ok [OF L w2(2)] q by blast
    have "notify_loop L (Suc (Suc f)) w = Inr (True, w3)" using w1(1) False w2(1) w3(1,7) by simp
    moreover have "kept G w w3" using w1(3) kept_step [OF w2(3,4)] w3(3) by (blast intro: kept_trans)
    ultimately show ?thesis using w3 w1(6,8,9) graph_stepD(1,11) [OF w2(3)] False by auto
  qed
qed

lemma apply_notify_all_ok:
  assumes L: "slabs_laws L" and inv: "rt_inv L G w"
  shows "\<exists>h w'. apply_notify_all L w = Inr (h, w') \<and> rt_inv L G w' \<and> kept G w w' \<and> g_unbinds w' = [] \<and> rq_wakes w' = [] \<and> g_notifys w' = []
    \<and> (rq_wakes w = [] \<longrightarrow> g_actions w' = g_actions w)
    \<and> (rq_wakes w = [] \<and> g_notifys w = [] \<and> g_unbinds w = [] \<longrightarrow> g_reactions w' = g_reactions w \<and> discards w' = discards w)"
proof -
  obtain h1 w1 where w1: "apply_unbind L 2 w = Inr (h1, w1)" "rt_inv L G w1" "g_unbinds w1 = []" "kept G w w1"
    "rq_wakes w1 = rq_wakes w" "g_notifys w1 = g_notifys w" "g_actions w1 = g_actions w" "g_unbinds w = [] \<longrightarrow> w1 = w"
    using apply_unbind_ok [OF L inv, of 0] by (auto simp: numeral_2_eq_2)
  obtain h2 w2 where w2: "notify_loop L 2 w1 = Inr (h2, w2)" "rt_inv L G w2" "kept G w1 w2" "g_unbinds w2 = g_unbinds w1" "rq_wakes w2 = []" "g_notifys w2 = []"
    "rq_wakes w1 = [] \<longrightarrow> g_actions w2 = g_actions w1"
    "rq_wakes w1 = [] \<and> g_notifys w1 = [] \<longrightarrow> g_reactions w2 = g_reactions w1 \<and> discards w2 = discards w1"
    using notify_loop_ok [OF L w1(2), of 0] by (auto simp: numeral_2_eq_2)
  show ?thesis using w1 w2 kept_trans [OF w1(4) w2(3)] by (auto simp: apply_notify_all_def)
qed

lemma runtime_get_ok:
  assumes L: "slabs_laws L" and inv: "rt_inv L G w" and src: "is_source w n"
  shows "\<exists>v w'. runtime_get L n w = Inr (v, w') \<and> sem G w n = Some v \<and> rt_inv L G w' \<and> kept G w w'"
proof -
  obtain h w1 where w1: "apply_notify_all L w = Inr (h, w1)" "rt_inv L G w1" "kept G w w1" "g_unbinds w1 = []"
    using apply_notify_all_ok [OF L inv] by blast
  have "is_source w1 n" using src w1(3) by (simp add: is_source_code kept_def)
  from rt_signal_get [OF L w1(2,4) this] obtain v w' where r: "signal_get (sink_slab L) n w1 = Inr (v, w')" "sem G w1 n = Some v"
    "rt_inv L G w'" "graph_step w1 w'" "sem G w' = sem G w1" by blast
  have "kept G w w'" by (rule kept_trans [OF w1(3) kept_step [OF r(4,5)]])
  moreover have "sem G w n = Some v" using r(2) w1(3) by (simp add: kept_def)
  ultimately show ?thesis using r w1(1) by (simp add: runtime_get_def)
qed

end
