(* ===== verification/Runtime_Actions.thy ===== *)
theory Runtime_Actions
  imports Runtime_Steps
begin

section \<open>Actions return, keep the invariant and use up the pending work\<close>

text \<open>
  A closure is a finite tree of effects, so its run returns; this theory bounds the work it leaves behind (the \<open>budget\<close> of the closures that wait
  in the queues) and shows that running one keeps the invariant of the runtime. The loops of Runtime\_Loop get their termination measures from it.
\<close>

subsection \<open>Subterms of a closure\<close>

inductive_set act_sub :: "('v act \<times> 'v act) set" where
  "(k, AAwait k) \<in> act_sub"
| "(k v, AGet n k) \<in> act_sub"
| "(k, ASet n v k) \<in> act_sub"
| "(k, ASetDedup n v k) \<in> act_sub"
| "(a, ASpawn p a k) \<in> act_sub"
| "(k, ASpawn p a k) \<in> act_sub"
| "(a, ASpawnAsync p a k) \<in> act_sub"
| "(k, ASpawnAsync p a k) \<in> act_sub"
| "(k, AReaction p r k) \<in> act_sub"
| "(k, AWake key k) \<in> act_sub"

inductive_simps act_sub_simps [simp]:
  "(x, ADone) \<in> act_sub" "(x, APanic) \<in> act_sub" "(x, AAwait k) \<in> act_sub" "(x, AGet n f) \<in> act_sub"
  "(x, ASet n v k) \<in> act_sub" "(x, ASetDedup n v k) \<in> act_sub" "(x, ASpawn p a k) \<in> act_sub"
  "(x, ASpawnAsync p a k) \<in> act_sub" "(x, AReaction p r k) \<in> act_sub" "(x, AWake key k) \<in> act_sub"

definition act_lt :: "('v act \<times> 'v act) set" where
  "act_lt = act_sub\<^sup>+"

lemma wf_act_sub: "wf act_sub"
proof (rule wfUNIVI)
  fix P and a :: "'v act"
  assume step [rule_format]: "\<forall>x :: 'v act. (\<forall>y. (y, x) \<in> act_sub \<longrightarrow> P y) \<longrightarrow> P x"
  show "P a" by (induction a) (rule step; auto)+
qed

lemma wf_act_lt: "wf act_lt"
  unfolding act_lt_def by (rule wf_trancl [OF wf_act_sub])

lemma act_lt_sub: "(k, a) \<in> act_sub \<Longrightarrow> (k, a) \<in> act_lt"
  by (simp add: act_lt_def)

lemma act_lt_trans: "(x, k) \<in> act_lt \<Longrightarrow> (k, a) \<in> act_sub \<Longrightarrow> (x, a) \<in> act_lt"
  unfolding act_lt_def by (rule trancl_into_trancl)

lemma trans_act_lt: "trans act_lt"
  by (simp add: act_lt_def)

subsection \<open>The run of a closure\<close>

text \<open>What no action changes: the nodes, the configuration, the asynchronous actions.\<close>

definition same_nodes :: "('m, 'v, 's, 't) runtime \<Rightarrow> ('m, 'v, 's, 't) runtime \<Rightarrow> bool" where
  "same_nodes w w' \<longleftrightarrow> code w' = code w \<and> g_config w' = g_config w \<and> async_heap w' = async_heap w
     \<and> next_async w' = next_async w \<and> async_actions w' = async_actions w"

lemma same_nodes_refl [simp]: "same_nodes w w"
  by (simp add: same_nodes_def)

lemma same_nodes_trans: "same_nodes w w1 \<Longrightarrow> same_nodes w1 w2 \<Longrightarrow> same_nodes w w2"
  by (simp add: same_nodes_def)

lemma kept_same_nodes: "kept G w w' \<Longrightarrow> same_nodes w w'"
  by (simp add: kept_def same_nodes_def)

lemma graph_step_same_nodes: "graph_step w w' \<Longrightarrow> same_nodes w w' \<and> acts_of w' = acts_of w"
  by (simp add: same_nodes_def acts_of_def graph_stepD)

lemma same_nodes_raw_wake: "same_nodes w (raw_wake key w) \<and> acts_of (raw_wake key w) = acts_of w"
  by (simp add: same_nodes_def raw_wake_def Let_def acts_of_def fun_eq_iff code_def)

lemma state_set_dedup_eq:
  assumes "code w n = Some CState"
  shows "state_set_dedup ops n v w = (if cval w n = Some v then Inr w else state_set ops n v w)"
proof -
  obtain nd where nd: "heap w n = Some nd" using assms by (cases "heap w n") (simp_all add: code_def)
  then obtain s where "heap w n = Some (StateNode s)" using assms by (cases nd) (simp_all add: code_def)
  then show ?thesis by (simp add: state_set_dedup_def state_set_def cval_def)
qed

lemma rt_schedule_reaction:
  assumes L: "slabs_laws L" and inv: "rt_inv L G w" and p: "reaction_allowed (g_config w) p" and r: "reaction_ok (code w) r"
  shows "\<exists>w'. schedule_reaction p r w = Inr w' \<and> rt_inv L G w' \<and> graph_step w w'"
proof -
  obtain w' where w': "schedule_reaction p r w = Inr w'" "ntf_rest w w'" "heap w' = heap w"
    "bk_queue (g_reactions w') = (bk_queue (g_reactions w))(sint p := bk_queue (g_reactions w) (sint p) @ [r])"
    "bk_inv (g_reactions w) \<longrightarrow> bk_inv (g_reactions w')"
    using schedule_reaction_ok [of w p r] p by (metis reaction_allowed_def)
  note v = view_heap_cong [OF w'(3)] and f = ntf_rest_fields [OF w'(2)] and sys = rt_sys [OF inv]
  have st: "graph_step w w'" using ntf_rest_rt [OF w'(2)] by (simp add: graph_step_def f v)
  have "rt_inv L G w'"
  proof (rule rt_inv_step [OF inv st])
    have "graph_inv (sink_slab L) G w'" by (rule graph_inv_heap [OF w'(3) f(1) sys_graph [OF sys]])
    moreover have "scheduled w' k" if "stale w' k" for k
      using that sys_scheduled [OF sys, of k] by (auto simp: scheduled_def v w'(4))
    ultimately show "sys_inv (sink_slab L) G w'"
      using w'(5) sys by (simp add: sys_inv_def quiet_def phases_ok_def v f)
    show "pending_ok (sink_slab L) w'" using rt_pending [OF inv] by (simp add: pending_ok_def f v)
    show "discards_ok (code w) w'" using rt_discards [OF inv] by (simp add: discards_ok_def f v)
    show "reactions_ok (code w) w'" by (rule rk_schedule [OF w'(1) rt_reactions [OF inv] r])
  qed
  then show ?thesis using w'(1) st by blast
qed

lemma rt_schedule_action:
  assumes inv: "rt_inv L G w" and p: "action_allowed (g_config w) p" and a: "action_ok (code w) (g_config w) (async_heap w) a"
  shows "\<exists>w'. schedule_action p a w = Inr w' \<and> rt_inv L G w' \<and> same_nodes w w' \<and> acts_of w' = acts_of w + acts_in a"
proof -
  obtain b where b: "push_action p a w = Inr (w\<lparr>g_actions := b\<rparr>)" "rt_inv L G (w\<lparr>g_actions := b\<rparr>)"
    "queue_acts b = queue_acts (g_actions w) + acts_in a" by (rule rt_push_action [OF inv p a])
  have "same_nodes w (global_wake (w\<lparr>g_actions := b\<rparr>))"
    by (simp add: same_nodes_def global_wake_def Let_def fun_eq_iff code_def)
  moreover have "acts_of (global_wake (w\<lparr>g_actions := b\<rparr>)) = acts_of w + acts_in a"
    using b(3) by (simp add: acts_of_def global_wake_def Let_def)
  ultimately show ?thesis using b by (simp add: schedule_action_def)
qed

text \<open>The outcome of a closure: it returns or suspends, and schedules only subterms of itself.\<close>

definition ran_act :: "('m, 's, 't) slabs \<Rightarrow> (nid \<Rightarrow> ('v, 'v) prog) \<Rightarrow> bool \<Rightarrow> 'v act \<Rightarrow> ('m, 'v, 's, 't) runtime
    \<Rightarrow> ('v act option \<times> ('m, 'v, 's, 't) runtime) result \<Rightarrow> bool" where
  "ran_act L G s a w res \<longleftrightarrow> (\<exists>r w' N. res = Inr (r, w') \<and> rt_inv L G w' \<and> same_nodes w w' \<and> acts_of w' = acts_of w + N
     \<and> (\<forall>x \<in># N. (x, a) \<in> act_lt)
     \<and> (\<forall>k. r = Some k \<longrightarrow> s \<and> act_ok (code w) (g_config w) k True \<and> (k, a) \<in> act_lt))"

lemma ran_actI:
  assumes "ran_act L G s k w1 res" and "same_nodes w w1" and "acts_of w1 = acts_of w + M" and "(k, a) \<in> act_sub"
    and "\<And>x. x \<in># M \<Longrightarrow> (x, a) \<in> act_lt"
  shows "ran_act L G s a w res"
proof -
  obtain r w' N where r: "res = Inr (r, w')" "rt_inv L G w'" "same_nodes w1 w'" "acts_of w' = acts_of w1 + N"
    "\<forall>x \<in># N. (x, k) \<in> act_lt" "\<forall>k'. r = Some k' \<longrightarrow> s \<and> act_ok (code w1) (g_config w1) k' True \<and> (k', k) \<in> act_lt"
    using assms(1) by (auto simp: ran_act_def)
  have "acts_of w' = acts_of w + (M + N)" using r(4) assms(3) by simp
  moreover have "\<forall>x \<in># M + N. (x, a) \<in> act_lt" using r(5) assms(4,5) act_lt_trans by fastforce
  moreover have "code w1 = code w" "g_config w1 = g_config w" using assms(2) by (simp_all add: same_nodes_def)
  ultimately show ?thesis
    using r same_nodes_trans [OF assms(2) r(3)] assms(4) act_lt_trans unfolding ran_act_def by metis
qed

lemma act_run_ok:
  assumes L: "slabs_laws L"
  shows "rt_inv L G w \<Longrightarrow> act_ok (code w) (g_config w) a s \<Longrightarrow> ran_act L G s a w (act_run L a w)"
proof (induction a arbitrary: w)
  case ADone
  then show ?case by (simp add: ran_act_def)
next
  case (AAwait k)
  then show ?case by (auto simp: ran_act_def act_lt_sub)
next
  case (AGet n k)
  have "is_source w n" using AGet.prems(2) by (simp add: source_code_eq)
  then obtain v w1 where w1: "runtime_get L n w = Inr (v, w1)" "rt_inv L G w1" "kept G w w1"
    using runtime_get_ok [OF L AGet.prems(1)] by blast
  have sn: "same_nodes w w1" by (rule kept_same_nodes [OF w1(3)])
  then have "act_ok (code w1) (g_config w1) (k v) s" using AGet.prems(2) by (simp add: same_nodes_def)
  then have "ran_act L G s (k v) w1 (act_run L (k v) w1)" by (rule AGet.IH [OF rangeI w1(2)])
  from ran_actI [OF this sn, where M = "{#}" and a = "AGet n k"] show ?case using w1(1,3) by (auto simp: kept_def)
next
  case (ASet n v k)
  then obtain w1 where w1: "state_set (sink_slab L) n v w = Inr w1" "rt_inv L G w1" "graph_step w w1"
    using rt_state_set [OF L ASet.prems(1), of n v] by auto
  have sn: "same_nodes w w1" "acts_of w1 = acts_of w" using graph_step_same_nodes [OF w1(3)] by auto
  then have "act_ok (code w1) (g_config w1) k s" using ASet.prems(2) by (simp add: same_nodes_def)
  from ran_actI [OF ASet.IH [OF w1(2) this] sn(1), where M = "{#}" and a = "ASet n v k"] show ?case using w1(1) sn(2) by auto
next
  case (ASetDedup n v k)
  have c: "code w n = Some CState" using ASetDedup.prems(2) by simp
  have "\<exists>w1. state_set_dedup (sink_slab L) n v w = Inr w1 \<and> rt_inv L G w1 \<and> graph_step w w1"
    using rt_state_set [OF L ASetDedup.prems(1) c, of v] ASetDedup.prems(1) by (auto simp: state_set_dedup_eq [OF c])
  then obtain w1 where w1: "state_set_dedup (sink_slab L) n v w = Inr w1" "rt_inv L G w1" "graph_step w w1" by blast
  have sn: "same_nodes w w1" "acts_of w1 = acts_of w" using graph_step_same_nodes [OF w1(3)] by auto
  then have "act_ok (code w1) (g_config w1) k s" using ASetDedup.prems(2) by (simp add: same_nodes_def)
  from ran_actI [OF ASetDedup.IH [OF w1(2) this] sn(1), where M = "{#}" and a = "ASetDedup n v k"]
  show ?case using w1(1) sn(2) by auto
next
  case (ASpawn p b k)
  have ok: "action_ok (code w) (g_config w) (async_heap w) (ActBox b)" using ASpawn.prems(2) by (simp add: action_ok_def)
  have "action_allowed (g_config w) p" using ASpawn.prems(2) by simp
  from rt_schedule_action [OF ASpawn.prems(1) this ok] obtain w1 where w1: "schedule_action p (ActBox b) w = Inr w1" "rt_inv L G w1"
    "same_nodes w w1" "acts_of w1 = acts_of w + {#b#}" by (auto simp: acts_in_def)
  have "act_ok (code w1) (g_config w1) k s" using ASpawn.prems(2) w1(3) by (simp add: same_nodes_def)
  from ran_actI [OF ASpawn.IH(2) [OF w1(2) this] w1(3,4), where a = "ASpawn p b k"] show ?case
    using w1(1) by (auto simp: act_lt_sub)
next
  case (ASpawnAsync p b k)
  have ok: "action_ok (code w) (g_config w) (async_heap w) (ActStartAsync p b)" using ASpawnAsync.prems(2) by (simp add: action_ok_def)
  have "action_allowed (g_config w) p" using ASpawnAsync.prems(2) by simp
  from rt_schedule_action [OF ASpawnAsync.prems(1) this ok] obtain w1 where w1: "schedule_action p (ActStartAsync p b) w = Inr w1" "rt_inv L G w1"
    "same_nodes w w1" "acts_of w1 = acts_of w + {#b#}" by (auto simp: acts_in_def)
  have "act_ok (code w1) (g_config w1) k s" using ASpawnAsync.prems(2) w1(3) by (simp add: same_nodes_def)
  from ran_actI [OF ASpawnAsync.IH(2) [OF w1(2) this] w1(3,4), where a = "ASpawnAsync p b k"] show ?case
    using w1(1) by (auto simp: act_lt_sub)
next
  case (AReaction p r k)
  have ok: "reaction_ok (code w) (UserReaction r)" using AReaction.prems(2) by (simp add: reaction_ok_def)
  have "reaction_allowed (g_config w) p" using AReaction.prems(2) by simp
  from rt_schedule_reaction [OF L AReaction.prems(1) this ok] obtain w1
    where w1: "schedule_reaction p (UserReaction r) w = Inr w1" "rt_inv L G w1" "graph_step w w1" by blast
  have sn: "same_nodes w w1" "acts_of w1 = acts_of w" using graph_step_same_nodes [OF w1(3)] by auto
  then have "act_ok (code w1) (g_config w1) k s" using AReaction.prems(2) by (simp add: same_nodes_def)
  from ran_actI [OF AReaction.IH [OF w1(2) this] sn(1), where M = "{#}" and a = "AReaction p r k"] show ?case using w1(1) sn(2) by auto
next
  case (AWake key k)
  have sn: "same_nodes w (raw_wake key w)" "acts_of (raw_wake key w) = acts_of w" using same_nodes_raw_wake by auto
  have "act_ok (code (raw_wake key w)) (g_config (raw_wake key w)) k s" using AWake.prems(2) sn(1) by (simp add: same_nodes_def)
  from ran_actI [OF AWake.IH [OF _ this] sn(1), where M = "{#}" and a = "AWake key k"] show ?case using AWake.prems(1) sn(2) by auto
qed simp

subsection \<open>Asynchronous actions\<close>

text \<open>
  Between two operations no asynchronous action is borrowed, and the slab of the runtime holds
  exactly those that have not finished, each under the key it remembers.
\<close>

definition async_calm :: "('m, 's, 't) slabs \<Rightarrow> ('m, 'v, 's, 't) runtime \<Rightarrow> bool" where
  "async_calm L w \<longleftrightarrow> (\<forall>i x. async_heap w i = Some x \<longrightarrow> \<not> cell_mut (aa_data x))
     \<and> (\<forall>key i. slab_get (async_slab L) (async_actions w) key = Some i \<longleftrightarrow>
          (\<exists>x d. async_heap w i = Some x \<and> cell_val (aa_data x) = Some d \<and> ad_id d = key))"

lemma rt_inv_async:
  assumes inv: "rt_inv L G w" and h: "heap w' = heap w" and "next_id w' = next_id w" "g_config w' = g_config w" "g_reactions w' = g_reactions w"
    "discards w' = discards w" "g_unbinds w' = g_unbinds w" "g_notifys w' = g_notifys w" "g_actions w' = g_actions w"
    and dom: "\<And>i. async_heap w i \<noteq> None \<Longrightarrow> async_heap w' i \<noteq> None"
    and "async_ok (code w) (g_config w) (async_heap w') (next_async w')" and "wake_ok L (code w) (async_heap w') (wk_reactions w')"
  shows "rt_inv L G w'"
proof -
  have "action_ok (code w) (g_config w) (async_heap w') a" if "action_ok (code w) (g_config w) (async_heap w) a" for a
    using that dom by (auto simp: action_ok_def split: action.splits)
  then show ?thesis
    using inv assms(3-9,11-) sys_inv_cong [OF h, of "sink_slab L" G] unfolding rt_inv_def
    by (simp add: pending_ok_def discards_ok_def reactions_ok_def view_heap_cong [OF h])
qed

lemma wake_ok_mono: "wake_ok L C H s \<Longrightarrow> (\<And>i. H i \<noteq> None \<Longrightarrow> H' i \<noteq> None) \<Longrightarrow> wake_ok L C H' s"
  unfolding wake_ok_def by (fastforce split: wake_reaction.splits)

lemma put_async_fields:
  "heap (put_async a c w) = heap w" "next_id (put_async a c w) = next_id w" "g_config (put_async a c w) = g_config w"
  "g_reactions (put_async a c w) = g_reactions w" "discards (put_async a c w) = discards w" "g_unbinds (put_async a c w) = g_unbinds w"
  "g_notifys (put_async a c w) = g_notifys w" "g_actions (put_async a c w) = g_actions w" "next_async (put_async a c w) = next_async w"
  "wk_reactions (put_async a c w) = wk_reactions w" "rq_wakes (put_async a c w) = rq_wakes w" "rq_drops (put_async a c w) = rq_drops w"
  "async_actions (put_async a c w) = async_actions w"
  by (simp_all add: put_async_def split: option.split)

lemma put_async_heap:
  "async_heap w a = Some x \<Longrightarrow> async_heap (put_async a c w) = (async_heap w)(a \<mapsto> x\<lparr>aa_data := c\<rparr>)"
  by (simp add: put_async_def)

lemma rt_inv_put_async:
  assumes inv: "rt_inv L G w" and x: "async_heap w a = Some x"
    and ok: "\<And>d. cell_val c = Some d \<Longrightarrow> act_ok (code w) (g_config w) (ad_future d) True"
  shows "rt_inv L G (put_async a c w)"
proof (rule rt_inv_async [OF inv])
  show "\<And>i. async_heap w i \<noteq> None \<Longrightarrow> async_heap (put_async a c w) i \<noteq> None" by (simp add: put_async_heap [OF x])
  then show "wake_ok L (code w) (async_heap (put_async a c w)) (wk_reactions (put_async a c w))"
    using wake_ok_mono [OF rt_wake [OF inv]] by (simp add: put_async_fields)
  show "async_ok (code w) (g_config w) (async_heap (put_async a c w)) (next_async (put_async a c w))"
    using rt_async [OF inv] x ok unfolding async_ok_def by (auto simp: put_async_heap [OF x] put_async_fields)
qed (simp_all add: put_async_fields)

text \<open>Pending work never grows: it stays, or closures are replaced by proper subterms.\<close>

definition acts_le :: "'v act multiset \<Rightarrow> 'v act multiset \<Rightarrow> bool" where
  "acts_le M N \<longleftrightarrow> M = N \<or> (M, N) \<in> mult act_lt"

lemma acts_less_replace:
  assumes "\<And>x. x \<in># N \<Longrightarrow> (x, f) \<in> act_lt"
  shows "(M + N, M + {#f#}) \<in> mult act_lt"
  by (rule one_step_implies_mult) (use assms in auto)

lemma acts_less_trans: "(A, B) \<in> mult act_lt \<Longrightarrow> (B, C) \<in> mult act_lt \<Longrightarrow> (A, C) \<in> mult act_lt"
  by (rule transD [OF trans_mult [OF trans_act_lt]])

lemma acts_less_cancel: "(A + C, B + C) \<in> mult act_lt \<longleftrightarrow> (A, B) \<in> mult act_lt"
  by (subst mult_cancel) (simp_all add: trans_act_lt irrefl_on_def wf_not_refl [OF wf_act_lt])

text \<open>
  The outcome of an action: its own closure, or the rest of a future, is used up. The last case is
  the poll of an asynchronous action that is over, which changes nothing.
\<close>

definition ran_action :: "('m, 's, 't) slabs \<Rightarrow> (nid \<Rightarrow> ('v, 'v) prog) \<Rightarrow> 'v act multiset \<Rightarrow> ('m, 'v, 's, 't) runtime
    \<Rightarrow> ('m, 'v, 's, 't) runtime result \<Rightarrow> bool" where
  "ran_action L G M w res \<longleftrightarrow> (\<exists>w'. res = Inr w' \<and> rt_inv L G w' \<and> async_calm L w' \<and> code w' = code w \<and> g_config w' = g_config w
     \<and> (\<forall>i. async_heap w i \<noteq> None \<longrightarrow> async_heap w' i \<noteq> None)
     \<and> ((acts_of w', acts_of w + M) \<in> mult act_lt \<or> M = {#} \<and> w' = w))"

lemma poll_ok:
  assumes L: "slabs_laws L" and inv: "rt_inv L G w" and calm: "async_calm L w" and x: "async_heap w a = Some x"
    and d: "cell_val (aa_data x) = Some d"
  shows "ran_action L G {#} w (async_next L a w) \<and> async_next L a w \<noteq> Inr w \<and>
    (\<forall>w'. async_next L a w = Inr w' \<longrightarrow> (acts_of w', acts_of w) \<in> mult act_lt)"
proof -
  note laws = slabs_lawsD(3) [OF L]
  have am: "a < next_async w" and nm: "\<not> cell_mut (aa_data x)" and ok: "act_ok (code w) (g_config w) (ad_future d) True"
    using rt_async [OF inv] calm x d by (auto simp: async_ok_def async_calm_def)
  have slab: "slab_get (async_slab L) (async_actions w) (ad_id d) = Some a" using calm x d by (auto simp: async_calm_def)
  define w0 where "w0 = put_async a \<lparr>cell_val = Some d, cell_mut = True\<rparr> w"
  have h0: "heap w0 = heap w" by (simp add: w0_def put_async_fields)
  note v0 = view_heap_cong [OF h0]
  have inv0: "rt_inv L G w0" unfolding w0_def by (rule rt_inv_put_async [OF inv x]) (use ok in auto)
  have ok0: "act_ok (code w0) (g_config w0) (ad_future d) True" using ok by (simp add: v0) (simp add: w0_def put_async_fields)
  from act_run_ok [OF L inv0 ok0] obtain r w1 N where r: "act_run L (ad_future d) w0 = Inr (r, w1)" "rt_inv L G w1" "same_nodes w0 w1"
    "acts_of w1 = acts_of w0 + N" "\<forall>y \<in># N. (y, ad_future d) \<in> act_lt"
    "\<forall>k. r = Some k \<longrightarrow> act_ok (code w0) (g_config w0) k True \<and> (k, ad_future d) \<in> act_lt"
    unfolding ran_act_def by blast
  have w1: "code w1 = code w" "g_config w1 = g_config w" "next_async w1 = next_async w" "async_actions w1 = async_actions w"
    "async_heap w1 = (async_heap w)(a \<mapsto> x\<lparr>aa_data := \<lparr>cell_val = Some d, cell_mut = True\<rparr>\<rparr>)"
    using r(3) v0(1) by (simp_all add: same_nodes_def) (simp_all add: w0_def put_async_fields put_async_heap [OF x])
  define x1 where "x1 = x\<lparr>aa_data := \<lparr>cell_val = Some d, cell_mut = True\<rparr>\<rparr>"
  have x1: "async_heap w1 a = Some x1" by (simp add: w1 x1_def)
  have acts0: "acts_of w0 = acts_of w"
    using async_acts_upd [OF am, of "async_heap w" "Some x1"] d x
    by (simp add: acts_of_def w0_def put_async_fields put_async_heap [OF x] x1_def async_rest_def)
  define r' where "r' = (case r of None \<Rightarrow> None | Some k \<Rightarrow> Some (d\<lparr>ad_future := k\<rparr>))"
  define w2 where "w2 = put_async a (new_cell r') w1"
  have inv2: "rt_inv L G w2" unfolding w2_def
    by (rule rt_inv_put_async [OF r(2) x1]) (use r(6) w1(1,2) v0(1) in \<open>auto simp: r'_def w0_def put_async_fields split: option.splits\<close>)
  have H2: "async_heap w2 = (async_heap w)(a \<mapsto> x\<lparr>aa_data := new_cell r'\<rparr>)"
    by (simp add: w2_def put_async_heap [OF x1] w1 x1_def)
  define w' where "w' = (case r of None \<Rightarrow> async_finish L a d w1 | Some k \<Rightarrow> w2)"
  have fin: "async_finish L a d w1 = w2\<lparr>rq_drops := rq_drops w2 @ [ad_waker d],
      async_actions := slab_remove (async_slab L) (async_actions w2) (ad_id d)\<rparr>" if "r = None"
    using that by (simp add: async_finish_def Let_def w2_def r'_def raw_wake_drop_def)
  have run: "async_next L a w = Inr w'"
    using x d nm r(1) by (simp add: async_next_def w0_def [symmetric] w'_def w2_def r'_def split: option.split)
  have inv': "rt_inv L G w'" using inv2 fin by (simp add: w'_def split: option.split)
  have "heap w' = heap w1" by (simp add: w'_def fin w2_def put_async_fields split: option.split)
  then have cw: "code w' = code w" using view_heap_cong(1) [of w' w1] w1(1) by simp
  have fields: "g_config w' = g_config w" "async_heap w' = async_heap w2" "g_actions w' = g_actions w1" "next_async w' = next_async w"
    by (simp_all add: w'_def fin w1 w2_def put_async_fields split: option.split)
  have acts: "acts_of w' + {#ad_future d#} = acts_of w + N + async_rest (Some (x\<lparr>aa_data := new_cell r'\<rparr>))"
  proof -
    have "async_acts (async_heap w2) (next_async w) + async_rest (Some x) = async_acts (async_heap w) (next_async w) + async_rest (Some (x\<lparr>aa_data := new_cell r'\<rparr>))"
      using async_acts_upd [OF am, of "async_heap w" "Some (x\<lparr>aa_data := new_cell r'\<rparr>)"] x by (simp add: H2)
    moreover have "async_acts (async_heap w1) (next_async w) = async_acts (async_heap w) (next_async w)"
      using async_acts_upd [OF am, of "async_heap w" "Some x1"] d x by (simp add: w1 x1_def async_rest_def)
    moreover have "queue_acts (g_actions w1) + async_acts (async_heap w1) (next_async w) = acts_of w + N"
      using r(4) acts0 by (simp add: acts_of_def w1)
    ultimately show ?thesis using d by (simp add: acts_of_def fields async_rest_def ac_simps)
  qed
  have less: "(acts_of w', acts_of w) \<in> mult act_lt"
  proof -
    define K where "K = N + async_rest (Some (x\<lparr>aa_data := new_cell r'\<rparr>))"
    have "\<forall>y \<in># K. (y, ad_future d) \<in> act_lt" using r(5,6) by (auto simp: K_def async_rest_def r'_def split: option.splits)
    then have "(acts_of w + K, acts_of w + {#ad_future d#}) \<in> mult act_lt" by (intro acts_less_replace) blast
    then have "(acts_of w' + {#ad_future d#}, acts_of w + {#ad_future d#}) \<in> mult act_lt" using acts by (simp add: K_def ac_simps)
    then show ?thesis by (simp only: acts_less_cancel)
  qed
  have "async_calm L w'"
  proof -
    have "async_actions w' = (if r = None then slab_remove (async_slab L) (async_actions w) (ad_id d) else async_actions w)"
      by (simp add: w'_def fin w2_def put_async_fields w1 split: option.split)
    moreover have "ad_id e = ad_id d \<longleftrightarrow> i = a" if "async_heap w i = Some y" "cell_val (aa_data y) = Some e" for i y e
      using calm slab that x d unfolding async_calm_def by (metis option.inject)
    ultimately show ?thesis using calm x d unfolding async_calm_def fields H2
      by (auto simp: slab_get_remove [OF laws] r'_def split: option.splits)
  qed
  moreover have "\<forall>i. async_heap w i \<noteq> None \<longrightarrow> async_heap w' i \<noteq> None" by (simp add: fields H2)
  ultimately have "ran_action L G {#} w (async_next L a w)"
    unfolding ran_action_def run using inv' cw fields(1) less by auto
  moreover have "w' \<noteq> w" using less wf_not_refl [OF wf_mult [OF wf_act_lt]] by metis
  ultimately show ?thesis using run less by auto
qed

lemma async_next_ok:
  assumes L: "slabs_laws L" and inv: "rt_inv L G w" and calm: "async_calm L w" and a: "async_heap w a \<noteq> None"
  shows "ran_action L G {#} w (async_next L a w)"
proof -
  obtain x where x: "async_heap w a = Some x" using a by blast
  show ?thesis
  proof (cases "cell_val (aa_data x)")
    case None
    then have "async_next L a w = Inr w" using x calm by (simp add: async_next_def async_calm_def)
    then show ?thesis using inv calm by (simp add: ran_action_def)
  next
    case (Some d)
    show ?thesis using poll_ok [OF L inv calm x Some] by blast
  qed
qed

lemma async_start_ok:
  assumes L: "slabs_laws L" and inv: "rt_inv L G w" and calm: "async_calm L w"
    and p: "action_allowed (g_config w) p" and f: "act_ok (code w) (g_config w) f True"
  shows "ran_action L G {#f#} w (async_start L p f w)"
proof -
  let ?a = "next_async w"
  obtain i t where t: "slab_insert (async_slab L) (async_actions w) ?a = (i, t)" by force
  obtain key s where s: "slab_insert (wake_slab L) (wk_reactions w) (WakeAsync ?a) = (key, s)" by force
  define x where "x = \<lparr>aa_phase = p, aa_data = new_cell (Some \<lparr>ad_future = f, ad_waker = key, ad_id = i\<rparr>)\<rparr>"
  define w1 where "w1 = w\<lparr>async_actions := t, next_async := Suc ?a, wk_reactions := s, async_heap := (async_heap w)(?a \<mapsto> x)\<rparr>"
  have fresh: "async_heap w ?a = None" using rt_async [OF inv] by (cases "async_heap w ?a") (auto simp: async_ok_def)
  have run: "async_start L p f w = async_next L ?a w1"
    using t s by (simp add: async_start_def into_waker_def w1_def x_def Let_def)
  have h: "heap w1 = heap w" by (simp add: w1_def)
  have c1: "code w1 = code w" by (rule view_heap_cong(1) [OF h])
  have old: "wake_ok L (code w) (async_heap w1) (wk_reactions w)" by (rule wake_ok_mono [OF rt_wake [OF inv]]) (simp add: w1_def)
  have wk: "wake_ok L (code w) (async_heap w1) s"
    unfolding wake_ok_def
  proof (intro allI impI)
    fix k r assume k: "slab_get (wake_slab L) s k = Some r"
    show "case r of WakeNotify n slot \<Rightarrow> code w n = None \<or> code w n = Some CState | WakeAsync a \<Rightarrow> async_heap w1 a \<noteq> None"
    proof (cases "k = key")
      case True
      then have "r = WakeAsync ?a" using k by (simp add: slab_get_insert [OF slabs_lawsD(2) [OF L] s])
      then show ?thesis by (simp add: w1_def)
    next
      case False
      then have "slab_get (wake_slab L) (wk_reactions w) k = Some r" using k by (simp add: slab_get_insert [OF slabs_lawsD(2) [OF L] s])
      then show ?thesis using old by (simp add: wake_ok_def)
    qed
  qed
  have inv1: "rt_inv L G w1"
  proof (rule rt_inv_async [OF inv h])
    show "async_ok (code w) (g_config w) (async_heap w1) (next_async w1)"
      using rt_async [OF inv] p f unfolding async_ok_def by (auto simp: w1_def x_def less_Suc_eq split: if_splits)
    show "wake_ok L (code w) (async_heap w1) (wk_reactions w1)" using wk by (simp add: w1_def)
  qed (simp_all add: w1_def)
  have noid: "ad_id e \<noteq> i" if "async_heap w j = Some y" "cell_val (aa_data y) = Some e" for j y e
  proof -
    have "slab_get (async_slab L) (async_actions w) (ad_id e) = Some j" using calm that unfolding async_calm_def by blast
    then show ?thesis using slab_insert_vacant [OF slabs_lawsD(3) [OF L] t] by auto
  qed
  have calm1: "async_calm L w1"
    using calm fresh noid unfolding async_calm_def
    by (auto simp: w1_def x_def slab_get_insert [OF slabs_lawsD(3) [OF L] t] split: if_splits)
  have x1: "async_heap w1 ?a = Some x" by (simp add: w1_def)
  have acts1: "acts_of w1 = acts_of w + {#f#}"
  proof -
    have "async_acts ((async_heap w)(?a \<mapsto> x)) ?a = async_acts (async_heap w) ?a"
      unfolding async_acts_def by (rule sum.cong) simp_all
    then show ?thesis by (simp add: acts_of_def w1_def async_acts_Suc async_rest_def) (simp add: x_def)
  qed
  have "ran_action L G {#} w1 (async_next L ?a w1)" "\<forall>w'. async_next L ?a w1 = Inr w' \<longrightarrow> (acts_of w', acts_of w1) \<in> mult act_lt"
    using poll_ok [OF L inv1 calm1 x1] by (auto simp: x_def)
  moreover have "\<forall>j. async_heap w j \<noteq> None \<longrightarrow> async_heap w1 j \<noteq> None" by (simp add: w1_def)
  moreover have "g_config w1 = g_config w" by (simp add: w1_def)
  ultimately show ?thesis unfolding ran_action_def run by (auto simp: c1 acts1)
qed

lemma action_call_ok:
  assumes L: "slabs_laws L" and inv: "rt_inv L G w" and calm: "async_calm L w"
    and a: "action_ok (code w) (g_config w) (async_heap w) a"
  shows "ran_action L G (acts_in a) w (action_call L a w)"
proof (cases a)
  case (ActBox f)
  then have f: "act_ok (code w) (g_config w) f False" using a by (simp add: action_ok_def)
  from act_run_ok [OF L inv f] obtain w' N where r: "act_run L f w = Inr (None, w')" "rt_inv L G w'" "same_nodes w w'"
    "acts_of w' = acts_of w + N" "\<forall>x \<in># N. (x, f) \<in> act_lt"
    unfolding ran_act_def by (metis not_None_eq)
  have "async_calm L w'" using calm r(3) by (simp add: async_calm_def same_nodes_def)
  moreover have "(acts_of w', acts_of w + {#f#}) \<in> mult act_lt" unfolding r(4) by (rule acts_less_replace) (use r(5) in blast)
  ultimately show ?thesis
    using r(1-3) unfolding ran_action_def by (simp add: ActBox action_call_def acts_in_def same_nodes_def)
next
  case (ActStartAsync p f)
  then show ?thesis using async_start_ok [OF L inv calm, of p f] a by (simp add: action_ok_def action_call_def acts_in_def)
next
  case (ActNext i)
  then show ?thesis using async_next_ok [OF L inv calm, of i] a by (simp add: action_ok_def action_call_def acts_in_def)
qed

lemma action_ok_mono:
  "action_ok C cfg H a \<Longrightarrow> (\<And>i. H i \<noteq> None \<Longrightarrow> H' i \<noteq> None) \<Longrightarrow> action_ok C cfg H' a"
  by (auto simp: action_ok_def split: action.splits)

lemma action_fold_ok:
  assumes L: "slabs_laws L"
  shows "rt_inv L G w \<Longrightarrow> async_calm L w \<Longrightarrow> \<forall>a \<in> set xs. action_ok (code w) (g_config w) (async_heap w) a \<Longrightarrow>
    ran_action L G (\<Sum>\<^sub># (image_mset acts_in (mset xs))) w (res_fold (action_call L) xs w)"
proof (induction xs arbitrary: w)
  case Nil
  then show ?case by (simp add: ran_action_def)
next
  case (Cons a xs)
  let ?M = "\<Sum>\<^sub># (image_mset acts_in (mset xs))"
  obtain w1 where w1: "action_call L a w = Inr w1" "rt_inv L G w1" "async_calm L w1" "code w1 = code w" "g_config w1 = g_config w"
    "\<forall>i. async_heap w i \<noteq> None \<longrightarrow> async_heap w1 i \<noteq> None"
    "(acts_of w1, acts_of w + acts_in a) \<in> mult act_lt \<or> acts_in a = {#} \<and> w1 = w"
    using action_call_ok [OF L Cons.prems(1,2), of a] Cons.prems(3) by (auto simp: ran_action_def)
  have "\<forall>a \<in> set xs. action_ok (code w1) (g_config w1) (async_heap w1) a"
    using Cons.prems(3) w1(6) by (auto simp: w1(4,5) intro: action_ok_mono)
  from Cons.IH [OF w1(2,3) this] obtain w2 where w2: "res_fold (action_call L) xs w1 = Inr w2" "rt_inv L G w2" "async_calm L w2"
    "code w2 = code w" "g_config w2 = g_config w" "\<forall>i. async_heap w1 i \<noteq> None \<longrightarrow> async_heap w2 i \<noteq> None"
    "(acts_of w2, acts_of w1 + ?M) \<in> mult act_lt \<or> ?M = {#} \<and> w2 = w1"
    unfolding ran_action_def w1(4,5) by blast
  have "(acts_of w2, acts_of w + (acts_in a + ?M)) \<in> mult act_lt \<or> acts_in a + ?M = {#} \<and> w2 = w"
  proof (cases "acts_in a = {#} \<and> w1 = w")
    case True
    then show ?thesis using w2(7) by auto
  next
    case False
    then have less: "(acts_of w1 + ?M, acts_of w + acts_in a + ?M) \<in> mult act_lt" using w1(7) by (simp only: acts_less_cancel) blast
    from w2(7) have "(acts_of w2, acts_of w + acts_in a + ?M) \<in> mult act_lt"
    proof
      assume "(acts_of w2, acts_of w1 + ?M) \<in> mult act_lt"
      then show ?thesis using less by (rule acts_less_trans)
    next
      assume "?M = {#} \<and> w2 = w1"
      then have "acts_of w2 = acts_of w1 + ?M" by simp
      then show ?thesis using less by simp
    qed
    then show ?thesis by (simp only: add.assoc) blast
  qed
  then show ?case using w1(1,6) w2 by (simp add: ran_action_def)
qed

subsection \<open>The action loops\<close>

lemma sum_mset_concat:
  "distinct ids \<Longrightarrow> \<Sum>\<^sub># (image_mset f (mset (concat (map q ids)))) = (\<Sum>i \<in> set ids. \<Sum>\<^sub># (image_mset f (mset (q i))))"
  by (induction ids) simp_all

text \<open>What draining takes out of the action queue.\<close>

definition drained :: "phase option \<Rightarrow> 'v action buckets \<Rightarrow> 'v action list \<Rightarrow> 'v action buckets \<Rightarrow> bool" where
  "drained p b xs b' \<longleftrightarrow> bk_inv b' \<and> queue_acts b' + \<Sum>\<^sub># (image_mset acts_in (mset xs)) = queue_acts b
     \<and> (\<forall>i. set (bk_queue b' i) \<subseteq> set (bk_queue b i)) \<and> (\<forall>a \<in> set xs. \<exists>i. a \<in> set (bk_queue b i))
     \<and> (\<forall>i. (p = None \<or> (\<exists>q. p = Some q \<and> i = sint q)) \<longrightarrow> bk_queue b' i = [])
     \<and> ((\<forall>i. (p = None \<or> (\<exists>q. p = Some q \<and> i = sint q)) \<longrightarrow> bk_queue b i = []) \<longrightarrow> xs = [])"

lemma drained_None:
  assumes inv: "bk_inv b" and d: "bk_drain None [] b = (xs, b')"
  shows "drained None b xs b'"
proof -
  have xs: "xs = concat (map (bk_queue b) (bk_ids b))" and q: "bk_queue b' = (\<lambda>_. [])" and b': "bk_inv b'"
    using bk_drain_all [OF inv, of "[]"] d by simp_all
  have "set (bk_ids b) \<subseteq> {-128..127}" using bk_ids_phase [OF inv] by (auto simp: phase_id_def)
  then have "queue_acts b = (\<Sum>i \<in> set (bk_ids b). \<Sum>\<^sub># (image_mset acts_in (mset (bk_queue b i))))"
    unfolding queue_acts_def by (intro sum.mono_neutral_right) (auto simp: bk_inv_ids [OF inv])
  then have "\<Sum>\<^sub># (image_mset acts_in (mset xs)) = queue_acts b" by (simp add: xs sum_mset_concat bk_ids_sorted(2))
  then show ?thesis using q b' xs by (auto simp: drained_def queue_acts_def)
qed

lemma drained_Some:
  assumes inv: "bk_inv b" and d: "bk_drain (Some (sint p)) [] b = (xs, b')"
  shows "drained (Some p) b xs b'"
proof -
  have xs: "xs = bk_queue b (sint p)" and q: "bk_queue b' = (bk_queue b)(sint p := [])" and b': "bk_inv b'"
    using bk_drain_one [OF inv, of "sint p" "[]"] d by simp_all
  have "queue_acts b' + \<Sum>\<^sub># (image_mset acts_in (mset xs)) = queue_acts b" using queue_acts_upd [OF q] by (simp add: xs)
  then show ?thesis using q b' xs by (auto simp: drained_def)
qed

definition queue_empty :: "phase option \<Rightarrow> 'v action buckets \<Rightarrow> bool" where
  "queue_empty p b \<longleftrightarrow> (\<forall>i. (p = None \<or> (\<exists>q. p = Some q \<and> i = sint q)) \<longrightarrow> bk_queue b i = [])"

lemma get_actions_ok:
  assumes L: "slabs_laws L" and inv: "rt_inv L G w" and calm: "async_calm L w"
  shows "\<exists>xs w1. get_actions L p w = Inr (xs, w1) \<and> rt_inv L G w1 \<and> async_calm L w1 \<and> code w1 = code w \<and> g_config w1 = g_config w
    \<and> acts_of w1 + \<Sum>\<^sub># (image_mset acts_in (mset xs)) = acts_of w
    \<and> (\<forall>a \<in> set xs. action_ok (code w1) (g_config w1) (async_heap w1) a) \<and> rq_wakes w1 = [] \<and> queue_empty p (g_actions w1)
    \<and> (rq_wakes w = [] \<and> queue_empty p (g_actions w) \<longrightarrow> xs = [])
    \<and> heap w1 = heap w \<and> g_reactions w1 = g_reactions w \<and> g_unbinds w1 = g_unbinds w \<and> discards w1 = discards w
    \<and> (rq_wakes w = [] \<longrightarrow> g_notifys w1 = g_notifys w)"
proof -
  obtain w1 where w1: "apply_wake L w = Inr w1" "rt_inv L G w1" "wake_frame w w1" "rq_wakes w1 = []" "acts_of w1 = acts_of w"
    using apply_wake_ok [OF L inv] by blast
  note f = wake_frame_fields [OF w1(3)]
  obtain xs b where d: "bk_drain (map_option sint p) [] (g_actions w1) = (xs, b)" by force
  have dr: "drained p (g_actions w1) xs b"
    using drained_None [OF rt_bk [OF w1(2)]] drained_Some [OF rt_bk [OF w1(2)]] d by (cases p) auto
  have inv2: "rt_inv L G (w1\<lparr>g_actions := b\<rparr>)"
    by (rule rt_inv_actions [OF w1(2)]) (use dr rt_actions [OF w1(2)] in \<open>auto simp: drained_def\<close>)
  have "code (w1\<lparr>g_actions := b\<rparr>) = code w" by (rule view_heap_cong(1)) (simp add: f)
  moreover have "async_calm L (w1\<lparr>g_actions := b\<rparr>)" using calm by (simp add: async_calm_def f)
  moreover have "acts_of (w1\<lparr>g_actions := b\<rparr>) + \<Sum>\<^sub># (image_mset acts_in (mset xs)) = acts_of w"
  proof -
    let ?S = "\<Sum>\<^sub># (image_mset acts_in (mset xs))"
    have "acts_of (w1\<lparr>g_actions := b\<rparr>) + ?S = (queue_acts b + ?S) + async_acts (async_heap w1) (next_async w1)"
      by (simp add: acts_of_def ac_simps)
    also have "queue_acts b + ?S = queue_acts (g_actions w1)" using dr by (simp add: drained_def)
    also have "queue_acts (g_actions w1) + async_acts (async_heap w1) (next_async w1) = acts_of w"
      using w1(5) by (simp add: acts_of_def)
    finally show ?thesis .
  qed
  moreover have "\<forall>a \<in> set xs. action_ok (code w) (g_config w) (async_heap w) a"
    using dr rt_actions [OF w1(2)] by (auto simp: drained_def f view_heap_cong [OF f(1)])
  moreover have "queue_empty p b" using dr by (simp add: drained_def queue_empty_def)
  moreover have "xs = [] \<and> g_notifys w1 = g_notifys w" if "rq_wakes w = []" "queue_empty p (g_actions w)"
  proof -
    have "g_actions w1 = g_actions w" "g_notifys w1 = g_notifys w" using w1(1) that(1) by (auto simp: apply_wake_def Let_def)
    then show ?thesis using dr that(2) by (simp add: drained_def queue_empty_def)
  qed
  moreover have "g_notifys w1 = g_notifys w" if "rq_wakes w = []" using w1(1) that by (auto simp: apply_wake_def Let_def)
  moreover have "get_actions L p w = Inr (xs, w1\<lparr>g_actions := b\<rparr>)" using w1(1) d by (simp add: get_actions_def)
  ultimately show ?thesis using inv2 w1(4) f by auto
qed

text \<open>
  The loop over the actions ends: there is a bound on the number of its rounds, and afterwards
  nothing is left in the phases that were dispatched.
\<close>

definition actions_done :: "('m, 's, 't) slabs \<Rightarrow> (nid \<Rightarrow> ('v, 'v) prog) \<Rightarrow> phase option \<Rightarrow> ('m, 'v, 's, 't) runtime
    \<Rightarrow> (bool \<times> ('m, 'v, 's, 't) runtime) result \<Rightarrow> bool" where
  "actions_done L G p w res \<longleftrightarrow> (\<exists>h w'. res = Inr (h, w') \<and> rt_inv L G w' \<and> async_calm L w' \<and> code w' = code w \<and> g_config w' = g_config w
     \<and> rq_wakes w' = [] \<and> queue_empty p (g_actions w'))"

lemma actions_doneI:
  "res = Inr (h, w') \<Longrightarrow> rt_inv L G w' \<Longrightarrow> async_calm L w' \<Longrightarrow> code w' = code w \<Longrightarrow> g_config w' = g_config w \<Longrightarrow>
     rq_wakes w' = [] \<Longrightarrow> queue_empty p (g_actions w') \<Longrightarrow> actions_done L G p w res"
  unfolding actions_done_def by blast

lemma dispatch_actions_idle:
  assumes "get_actions L p w = Inr ([], w1)" and "f \<noteq> 0"
  shows "dispatch_actions_with L f p w = Inr (False, w1)"
  using assms by (cases f) simp_all

lemma dispatch_actions_ends:
  assumes L: "slabs_laws L" and "rt_inv L G w" and "async_calm L w"
  shows "\<exists>f0. \<forall>f \<ge> f0. actions_done L G p w (dispatch_actions_with L f p w)"
  using assms(2-)
proof (induction "acts_of w" arbitrary: w rule: wf_induct_rule [OF wf_mult [OF wf_act_lt]])
  case 1
  obtain xs w1 where w1: "get_actions L p w = Inr (xs, w1)" "rt_inv L G w1" "async_calm L w1" "code w1 = code w" "g_config w1 = g_config w"
    "acts_of w1 + \<Sum>\<^sub># (image_mset acts_in (mset xs)) = acts_of w" "\<forall>a \<in> set xs. action_ok (code w1) (g_config w1) (async_heap w1) a"
    "rq_wakes w1 = []" "queue_empty p (g_actions w1)"
    using get_actions_ok [OF L 1(2,3), of p] by blast
  show ?case
  proof (cases "xs = []")
    case True
    have "actions_done L G p w (dispatch_actions_with L f p w)" if "f \<ge> 1" for f
      by (rule actions_doneI [OF dispatch_actions_idle [OF w1(1) [unfolded True]] w1(2,3,4,5,8,9)]) (use that in simp)
    then show ?thesis by blast
  next
    case False
    obtain w2 where w2: "res_fold (action_call L) xs w1 = Inr w2" "rt_inv L G w2" "async_calm L w2" "code w2 = code w" "g_config w2 = g_config w"
      "(acts_of w2, acts_of w) \<in> mult act_lt \<or> w2 = w1"
      using action_fold_ok [OF L w1(2,3,7)] unfolding ran_action_def w1(4,5,6) by blast
    have step: "dispatch_actions_with L (Suc f) p w = res_bind (dispatch_actions_with L f p w2) (\<lambda>(_, w3). Inr (True, w3))" for f
      using w1(1) w2(1) False by simp
    have lift: "actions_done L G p w (dispatch_actions_with L (Suc f) p w)" if "actions_done L G p w2 (dispatch_actions_with L f p w2)" for f
      using that unfolding step actions_done_def w2(4,5) by auto
    obtain f1 where f1: "\<forall>f \<ge> f1. actions_done L G p w2 (dispatch_actions_with L f p w2)"
    proof (cases "w2 = w1")
      case True
      then obtain w3 where w3: "get_actions L p w2 = Inr ([], w3)" "rt_inv L G w3" "async_calm L w3" "code w3 = code w2" "g_config w3 = g_config w2"
        "rq_wakes w3 = []" "queue_empty p (g_actions w3)"
        using get_actions_ok [OF L w1(2,3), of p] w1(8,9) by blast
      have "actions_done L G p w2 (dispatch_actions_with L f p w2)" if "f \<ge> 1" for f
        by (rule actions_doneI [OF dispatch_actions_idle [OF w3(1)] w3(2-)]) (use that in simp)
      then show ?thesis using that by blast
    next
      case False
      then show ?thesis using 1(1) [OF _ w2(2,3)] w2(6) that by blast
    qed
    have "actions_done L G p w (dispatch_actions_with L f p w)" if "f \<ge> Suc f1" for f
      using lift [of "f - 1"] f1 that by (cases f) auto
    then show ?thesis by blast
  qed
qed

end
