(* ===== verification/Runtime_Flush.thy ===== *)
theory Runtime_Flush
  imports Runtime_Actions
begin

section \<open>Reactions, discards and flush\<close>

text \<open>
  Dispatching the reactions of a phase runs every reaction that was queued, after which each effect
  of that phase holds the value of the reference semantics. Dispatching the discards ends. \<open>flush\<close>
  ends, with nothing left to do and every effect up to date.
\<close>

subsection \<open>One reaction\<close>

text \<open>What a reaction may change: heap, discards and the log; stale nodes only get fresh.\<close>

definition run_step :: "('m, 'v, 's, 't) runtime \<Rightarrow> ('m, 'v, 's, 't) runtime \<Rightarrow> bool" where
  "run_step w w' \<longleftrightarrow> w' = w\<lparr>heap := heap w', discards := discards w', effect_log := effect_log w'\<rparr>
     \<and> code w' = code w \<and> active w' = active w \<and> (\<forall>k. stale w' k \<longrightarrow> stale w k)
     \<and> (\<forall>k. code w k = Some CState \<longrightarrow> cval w' k = cval w k)"

lemma run_step_refl [simp]: "run_step w w"
  by (simp add: run_step_def)

lemma run_step_fields:
  assumes "run_step w w'"
  shows "graph_step w w'" "g_reactions w' = g_reactions w" "quiet w' = quiet w" "\<And>k. stale w' k \<Longrightarrow> stale w k" "sem G w' = sem G w"
proof -
  note a = assms [unfolded run_step_def, THEN conjunct1]
  have b: "code w' = code w" "active w' = active w" "\<And>k. stale w' k \<Longrightarrow> stale w k"
    "\<And>k. code w k = Some CState \<Longrightarrow> cval w' k = cval w k"
    using assms by (simp_all add: run_step_def)
  have "rt_same w w'" unfolding rt_same_def by (subst a, simp)+ simp?
  moreover have "next_id w' = next_id w" "g_unbinds w' = g_unbinds w" "g_notifys w' = g_notifys w" by (subst a, simp)+
  ultimately show "graph_step w w'" using b(1) by (simp add: graph_step_def)
  show "g_reactions w' = g_reactions w" by (subst a, simp)
  show "quiet w' = quiet w" by (simp add: quiet_def b(2))
  show "\<And>k. stale w' k \<Longrightarrow> stale w k" by (rule b(3))
  show "sem G w' = sem G w" by (rule sem_cong) (use b in auto)
qed

lemma run_step_trans:
  assumes "run_step w w1" and "run_step w1 w2"
  shows "run_step w w2"
proof -
  note a = assms(1) [unfolded run_step_def, THEN conjunct1] and b = assms(2) [unfolded run_step_def, THEN conjunct1]
  have "w2 = w\<lparr>heap := heap w2, discards := discards w2, effect_log := effect_log w2\<rparr>"
    by (subst b, subst a, simp)
  then show ?thesis using assms by (auto simp: run_step_def)
qed

lemma upd_frame_run_step:
  assumes f: "upd_frame ops a c w w'"
  shows "run_step w w'"
proof -
  have "w' = w\<lparr>heap := heap w', discards := discards w', effect_log := effect_log w'\<rparr>"
    using frame_rest [OF f] rest_same_fields(6) [OF frame_rest [OF f]] unfolding rest_same_def by (cases w; cases w') simp
  then show ?thesis using frame_code [OF f] frame_active [OF f] frame_stale [OF f] frame_clean(2) [OF f] state_not_stale
    unfolding run_step_def by blast
qed

lemma called_run_step:
  assumes c: "called n w w'" and n: "code w n \<noteq> Some CState"
  shows "run_step w w'"
proof -
  have "cval w' k = cval w k" if "code w k = Some CState" for k
    using called_fields(10) [OF c, of k] state_not_stale [OF that] n that by auto
  then show ?thesis using c by (simp add: run_step_def called_def)
qed

lemma run_reads_ok:
  assumes laws: "slab_laws ops"
  shows "graph_inv ops G w \<Longrightarrow> quiet w \<Longrightarrow> reads_ok (is_source w) p \<Longrightarrow>
    \<exists>x w'. run_prog ops (do_update ops) p None w = Inr (x, None, w') \<and> graph_inv ops G w' \<and> run_step w w'"
proof (induction p arbitrary: w)
  case (Read n k)
  obtain v w1 where r: "signal_get ops n w = Inr (v, w1)" "graph_inv ops G w1" "upd_frame ops (Suc n) (Suc n) w w1"
    using signal_get_ok [OF laws Read.prems(1,2), of n] Read.prems(3) by auto
  then have b: "node_borrow ops (do_update ops) n None w = Inr (v, None, w1)"
    by (auto simp: signal_get_def res_bind_eq_Inr node_borrow_def node_bind_def)
  note st = upd_frame_run_step [OF r(3)]
  have "is_source w1 = is_source w" by (rule ext) (rule frame_source [OF r(3)])
  then have "reads_ok (is_source w1) (k v)" using Read.prems(3) by simp
  from Read.IH [OF rangeI r(2) _ this] obtain x w' where "run_prog ops (do_update ops) (k v) None w1 = Inr (x, None, w')"
    "graph_inv ops G w'" "run_step w1 w'" using Read.prems(2) run_step_fields(3) [OF st] by auto
  then show ?case using b run_step_trans [OF st] by auto
next
  case (ReadUntracked n k)
  obtain v w1 where r: "signal_get ops n w = Inr (v, w1)" "graph_inv ops G w1" "upd_frame ops (Suc n) (Suc n) w w1"
    using signal_get_ok [OF laws ReadUntracked.prems(1,2), of n] ReadUntracked.prems(3) by auto
  then have b: "node_borrow ops (do_update ops) n None w = Inr (v, None, w1)"
    by (auto simp: signal_get_def res_bind_eq_Inr node_borrow_def node_bind_def)
  note st = upd_frame_run_step [OF r(3)]
  have "is_source w1 = is_source w" by (rule ext) (rule frame_source [OF r(3)])
  then have "reads_ok (is_source w1) (k v)" using ReadUntracked.prems(3) by simp
  from ReadUntracked.IH [OF rangeI r(2) _ this] obtain x w' where "run_prog ops (do_update ops) (k v) None w1 = Inr (x, None, w')"
    "graph_inv ops G w'" "run_step w1 w'" using ReadUntracked.prems(2) run_step_fields(3) [OF st] by auto
  then show ?case using b run_step_trans [OF st] by auto
qed auto

lemma reaction_run_ok:
  assumes laws: "slab_laws (sink_slab L)" and inv: "graph_inv (sink_slab L) G w" and q: "quiet w" and d: "discards_ok (code w) w"
    and r: "reaction_ok (code w) r"
  shows "\<exists>w'. reaction_run L r w = Inr w' \<and> graph_inv (sink_slab L) G w' \<and> run_step w w' \<and> discards_ok (code w) w'
    \<and> (\<forall>n. r = EffectCall n \<longrightarrow> \<not> stale w' n)"
proof (cases r)
  case (EffectCall n)
  show ?thesis
  proof (cases "code w n")
    case None
    then have "heap w n = None" by (simp add: code_def)
    then have "reaction_run L r w = Inr w" "\<not> stale w n"
      using None by (simp_all add: EffectCall reaction_run_def effect_call_def stale_def src_binder_def)
    then show ?thesis using inv d EffectCall by auto
  next
    case (Some c)
    then obtain f p where c: "code w n = Some (CEffect f p)" using r by (auto simp: EffectCall reaction_ok_def)
    obtain w' where w': "effect_call (sink_slab L) n w = Inr w'" "graph_inv (sink_slab L) G w'" "called n w w'"
      using effect_call_ok [OF laws inv q c] by blast
    have "run_step w w'" by (rule called_run_step [OF w'(3)]) (simp add: c)
    then show ?thesis using w' dk_effect_call [OF w'(1) d] called_fields(8) [OF w'(3)]
      by (simp add: EffectCall reaction_run_def)
  qed
next
  case (ScanDiscard n)
  then show ?thesis using r by (simp add: reaction_ok_def)
next
  case (UserReaction p)
  then have "reads_ok (is_source w) p" using r by (simp add: reaction_ok_def source_code_eq)
  from run_reads_ok [OF laws inv q this] obtain x w'
    where w': "run_prog (sink_slab L) (do_update (sink_slab L)) p None w = Inr (x, None, w')" "graph_inv (sink_slab L) G w'" "run_step w w'" by blast
  then show ?thesis using dk_run_prog [OF keeps_do_update w'(1) d] by (simp add: UserReaction reaction_run_def)
qed

lemma reaction_fold_ok:
  assumes laws: "slab_laws (sink_slab L)"
  shows "graph_inv (sink_slab L) G w \<Longrightarrow> quiet w \<Longrightarrow> discards_ok (code w) w \<Longrightarrow> \<forall>r \<in> set rs. reaction_ok (code w) r \<Longrightarrow>
    \<exists>w'. res_fold (reaction_run L) rs w = Inr w' \<and> graph_inv (sink_slab L) G w' \<and> run_step w w' \<and> discards_ok (code w) w'
      \<and> (\<forall>n. EffectCall n \<in> set rs \<longrightarrow> \<not> stale w' n)"
proof (induction rs arbitrary: w)
  case (Cons r rs)
  obtain w1 where w1: "reaction_run L r w = Inr w1" "graph_inv (sink_slab L) G w1" "run_step w w1" "discards_ok (code w) w1"
    "\<forall>n. r = EffectCall n \<longrightarrow> \<not> stale w1 n"
    using reaction_run_ok [OF laws Cons.prems(1,2,3), of r] Cons.prems(4) by auto
  have c: "code w1 = code w" by (rule graph_stepD(9) [OF run_step_fields(1) [OF w1(3)]])
  obtain w' where w': "res_fold (reaction_run L) rs w1 = Inr w'" "graph_inv (sink_slab L) G w'" "run_step w1 w'" "discards_ok (code w) w'"
      "\<forall>n. EffectCall n \<in> set rs \<longrightarrow> \<not> stale w' n"
    using Cons.IH [OF w1(2)] Cons.prems(2,4) w1(4) run_step_fields(3) [OF w1(3)] unfolding c by auto
  have "\<not> stale w' n" if "r = EffectCall n" for n using w1(5) that run_step_fields(4) [OF w'(3)] by blast
  then show ?case using w1(1) w' run_step_trans [OF w1(3) w'(3)] by auto
qed simp

subsection \<open>Dispatching reactions\<close>

lemma reactions_drained:
  assumes inv: "bk_inv b" and d: "bk_drain (map_option sint (p :: phase option)) [] b = (rs, b')"
  shows "bk_inv b'" and "\<And>i. set (bk_queue b i) \<subseteq> set (bk_queue b' i) \<union> set rs" and "\<And>i. set (bk_queue b' i) \<subseteq> set (bk_queue b i)"
    and "\<And>r. r \<in> set rs \<Longrightarrow> \<exists>i. r \<in> set (bk_queue b i)" and "p = None \<Longrightarrow> bk_queue b' i = []"
    and "p = Some q \<Longrightarrow> set (bk_queue b (sint q)) \<subseteq> set rs" and "p = None \<Longrightarrow> (\<And>i. bk_queue b i = []) \<Longrightarrow> rs = []"
    and "p = None \<Longrightarrow> set (bk_queue b i) \<subseteq> set rs"
proof -
  have "bk_inv b' \<and> (\<forall>i. set (bk_queue b i) \<subseteq> set (bk_queue b' i) \<union> set rs) \<and> (\<forall>i. set (bk_queue b' i) \<subseteq> set (bk_queue b i))
    \<and> (\<forall>r \<in> set rs. \<exists>i. r \<in> set (bk_queue b i)) \<and> (p = None \<longrightarrow> (\<forall>i. bk_queue b' i = [] \<and> set (bk_queue b i) \<subseteq> set rs))
    \<and> (\<forall>q. p = Some q \<longrightarrow> set (bk_queue b (sint q)) \<subseteq> set rs) \<and> (p = None \<longrightarrow> (\<forall>i. bk_queue b i = []) \<longrightarrow> rs = [])"
  proof (cases p)
    case None
    then have rs: "rs = concat (map (bk_queue b) (bk_ids b))" and q: "bk_queue b' = (\<lambda>_. [])" and b': "bk_inv b'"
      using bk_drain_all [OF inv, of "[]"] d by simp_all
    have "set (bk_queue b i) \<subseteq> set rs" for i
      using bk_inv_ids [OF inv, of i] by (cases "bk_queue b i = []") (auto simp: rs)
    then show ?thesis using None rs q b' by auto
  next
    case (Some q)
    then have rs: "rs = bk_queue b (sint q)" and q: "bk_queue b' = (bk_queue b)(sint q := [])" and b': "bk_inv b'"
      using bk_drain_one [OF inv, of "sint q" "[]"] d by simp_all
    then show ?thesis using Some by auto
  qed
  then show "bk_inv b'" and "\<And>i. set (bk_queue b i) \<subseteq> set (bk_queue b' i) \<union> set rs" and "\<And>i. set (bk_queue b' i) \<subseteq> set (bk_queue b i)"
    and "\<And>r. r \<in> set rs \<Longrightarrow> \<exists>i. r \<in> set (bk_queue b i)" and "p = None \<Longrightarrow> bk_queue b' i = []"
    and "p = Some q \<Longrightarrow> set (bk_queue b (sint q)) \<subseteq> set rs" and "p = None \<Longrightarrow> (\<And>i. bk_queue b i = []) \<Longrightarrow> rs = []"
    and "p = None \<Longrightarrow> set (bk_queue b i) \<subseteq> set rs"
    by blast+
qed

text \<open>The effects of a phase are up to date.\<close>

definition effects_current :: "(nid \<Rightarrow> ('v, 'v) prog) \<Rightarrow> phase option \<Rightarrow> ('m, 'v, 'z) world_scheme \<Rightarrow> bool" where
  "effects_current G p w \<longleftrightarrow> (\<forall>n f q. code w n = Some (CEffect f q) \<longrightarrow> (p = None \<or> p = Some q) \<longrightarrow>
     cval w n = sem G w n \<and> sem G w n \<noteq> None \<and> \<not> stale w n)"

definition no_actions :: "('m, 'v, 's, 't) runtime \<Rightarrow> bool" where
  "no_actions w \<longleftrightarrow> rq_wakes w = [] \<and> queue_empty None (g_actions w)"

definition no_reactions :: "('m, 'v, 's, 't) runtime \<Rightarrow> bool" where
  "no_reactions w \<longleftrightarrow> g_unbinds w = [] \<and> g_notifys w = [] \<and> (\<forall>i. bk_queue (g_reactions w) i = [])"

lemma async_calm_cong:
  "async_heap w' = async_heap w \<Longrightarrow> async_actions w' = async_actions w \<Longrightarrow> async_calm L w' = async_calm L w"
  by (simp add: async_calm_def)

lemma dispatch_reactions_ok:
  assumes L: "slabs_laws L" and inv: "rt_inv L G w" and calm: "async_calm L w"
  shows "\<exists>h w'. dispatch_reactions_with L p w = Inr (h, w') \<and> rt_inv L G w' \<and> async_calm L w' \<and> kept G w w' \<and> effects_current G p w'
    \<and> g_unbinds w' = [] \<and> g_notifys w' = [] \<and> rq_wakes w' = [] \<and> (p = None \<longrightarrow> no_reactions w')
    \<and> (rq_wakes w = [] \<longrightarrow> g_actions w' = g_actions w)
    \<and> (p = None \<and> rq_wakes w = [] \<and> no_reactions w \<longrightarrow> h = False \<and> discards w' = discards w)"
proof -
  obtain h1 w1 where w1: "apply_notify_all L w = Inr (h1, w1)" "rt_inv L G w1" "kept G w w1" "g_unbinds w1 = []" "rq_wakes w1 = []" "g_notifys w1 = []"
    "rq_wakes w = [] \<longrightarrow> g_actions w1 = g_actions w"
    "rq_wakes w = [] \<and> g_notifys w = [] \<and> g_unbinds w = [] \<longrightarrow> g_reactions w1 = g_reactions w \<and> discards w1 = discards w"
    using apply_notify_all_ok [OF L inv] by blast
  note sys = rt_sys [OF w1(2)]
  obtain rs b where d: "bk_drain (map_option sint p) [] (g_reactions w1) = (rs, b)" by force
  note dr = reactions_drained [OF sys_bk [OF sys] d]
  define w2 where "w2 = w1\<lparr>g_reactions := b\<rparr>"
  have h2: "heap w2 = heap w1" by (simp add: w2_def)
  note v2 = view_heap_cong [OF h2]
  have g2: "graph_inv (sink_slab L) G w2" by (rule graph_inv_heap [OF h2 _ sys_graph [OF sys]]) (simp add: w2_def)
  have q2: "quiet w2" using sys_quiet [OF sys] by (simp add: quiet_def v2)
  have d2: "discards_ok (code w2) w2" using rt_discards [OF w1(2)] by (simp add: discards_ok_def v2) (simp add: w2_def)
  have rs_ok: "\<forall>r \<in> set rs. reaction_ok (code w2) r"
    using dr(4) rt_reactions [OF w1(2)] by (auto simp: reactions_ok_def v2)
  from reaction_fold_ok [OF slabs_lawsD(1) [OF L] g2 q2 d2 rs_ok] obtain w' where w': "res_fold (reaction_run L) rs w2 = Inr w'"
    "graph_inv (sink_slab L) G w'" "run_step w2 w'" "discards_ok (code w2) w'" "\<forall>n. EffectCall n \<in> set rs \<longrightarrow> \<not> stale w' n" by blast
  note f = run_step_fields [OF w'(3)] and gs = graph_stepD [OF run_step_fields(1) [OF w'(3)]]
  have c: "code w' = code w1" by (simp add: gs v2)
  have fields: "g_reactions w' = b" "g_config w' = g_config w1" "g_actions w' = g_actions w1" "g_unbinds w' = []" "g_notifys w' = []"
    "rq_wakes w' = []" "async_heap w' = async_heap w1" "async_actions w' = async_actions w1" "next_async w' = next_async w1" "wk_reactions w' = wk_reactions w1"
    using w1(4-6) by (simp_all add: f gs w2_def)
  have sched: "scheduled w' k" if "stale w' k" for k
  proof -
    have s1: "stale w1 k" using f(4) [OF that] by (simp add: v2)
    show ?thesis unfolding scheduled_def
    proof (intro allI impI)
      fix g q assume "code w' k = Some (CEffect g q)"
      then have "EffectCall k \<in> set (bk_queue (g_reactions w1) (sint q))" using sys_scheduled [OF sys s1] by (simp add: scheduled_def c)
      then show "EffectCall k \<in> set (bk_queue (g_reactions w') (sint q))" using dr(2) w'(5) that by (auto simp: fields)
    qed
  qed
  have "sys_inv (sink_slab L) G w'"
    using w'(2) q2 sched dr(1) sys_phases [OF sys] by (simp add: sys_inv_def f(3) phases_ok_def c fields)
  moreover have "reactions_ok (code w1) w'" using rt_reactions [OF w1(2)] dr(3) by (fastforce simp: reactions_ok_def c fields)
  moreover have "discards_ok (code w1) w'" using w'(4) by (simp add: v2)
  ultimately have inv': "rt_inv L G w'" using w1(2) fields(4) unfolding rt_inv_def by (simp add: c fields)
  have "sem G w2 = sem G w1" by (rule sem_cong) (simp_all add: v2)
  then have k: "kept G w1 w'" using f(5) by (simp add: kept_def c fields acts_of_def)
  have cur: "effects_current G p w'"
    unfolding effects_current_def
  proof (intro allI impI)
    fix n g q assume n: "code w' n = Some (CEffect g q)" and p: "p = None \<or> p = Some q"
    have "\<not> stale w' n"
    proof
      assume s: "stale w' n"
      then have "EffectCall n \<in> set (bk_queue (g_reactions w1) (sint q))"
        using sys_scheduled [OF sys, of n] f(4) [OF s] n by (simp add: v2 scheduled_def c)
      then have "EffectCall n \<in> set rs" using p dr(6,8) by blast
      then show False using w'(5) s by blast
    qed
    then show "cval w' n = sem G w' n \<and> sem G w' n \<noteq> None \<and> \<not> stale w' n"
      using clean_sem [OF w'(2)] q2 f(3) n by auto
  qed
  have "dispatch_reactions_with L p w = Inr (rs \<noteq> [], w')"
    using w1(1) d w'(1) by (simp add: dispatch_reactions_with_def get_reactions_def w2_def)
  moreover have "async_calm L w'" using calm w1(3) by (simp add: async_calm_def fields kept_def)
  moreover have "no_reactions w'" if "p = None" using dr(5) [OF that] by (simp add: no_reactions_def fields)
  moreover have "rs = [] \<and> discards w' = discards w" if "p = None" "rq_wakes w = []" "no_reactions w"
  proof -
    have "g_reactions w1 = g_reactions w" "discards w1 = discards w" using w1(8) that by (simp_all add: no_reactions_def)
    then have "rs = []" "discards w2 = discards w" using dr(7) that by (simp_all add: no_reactions_def w2_def)
    then show ?thesis using w'(1) by simp
  qed
  moreover have "rq_wakes w = [] \<longrightarrow> g_actions w' = g_actions w" using w1(7) by (simp add: fields)
  ultimately show ?thesis using inv' cur kept_trans [OF w1(3) k] fields(4-6) by blast
qed

end
