(* ===== verification/Runtime_Settle.thy ===== *)
theory Runtime_Settle
  imports Runtime_Flush
begin

section \<open>Discards, flush and the cancellation of asynchronous actions\<close>

text \<open>
  Discarding a node drops its cached value and its bindings; this can only schedule the discard of
  nodes it had read, which are older. So the discards end, and with them \<open>flush\<close>: each of its rounds
  lowers \<open>flush_rank\<close>, the kind of work that can still be pending. What it leaves is settled: no
  action, reaction, notification, unbinding or discard is pending and every effect is up to date.
\<close>

subsection \<open>More fuel gives the same result\<close>

lemma dispatch_actions_mono:
  "dispatch_actions_with L f p w = Inr r \<Longrightarrow> f \<le> f' \<Longrightarrow> dispatch_actions_with L f' p w = Inr r"
proof (induction f arbitrary: f' w r)
  case (Suc f)
  then obtain g where g: "f' = Suc g" "f \<le> g" by (cases f') auto
  obtain xs w1 where w1: "get_actions L p w = Inr (xs, w1)" using Suc.prems(1) by (auto simp: res_bind_eq_Inr)
  show ?case
  proof (cases "xs = []")
    case True
    then show ?thesis using Suc.prems(1) w1 by (simp add: g)
  next
    case False
    then obtain w2 h w3 where "res_fold (action_call L) xs w1 = Inr w2" and w3: "dispatch_actions_with L f p w2 = Inr (h, w3)" and "r = (True, w3)"
      using Suc.prems(1) w1 by (auto simp: res_bind_eq_Inr)
    then show ?thesis using False w1 Suc.IH [OF w3 g(2)] by (simp add: g)
  qed
qed simp

lemma dispatch_discards_mono:
  "dispatch_discards L f w = Inr r \<Longrightarrow> f \<le> f' \<Longrightarrow> dispatch_discards L f' w = Inr r"
proof (induction f arbitrary: f' w r)
  case (Suc f)
  then obtain g where g: "f' = Suc g" "f \<le> g" by (cases f') auto
  show ?case
  proof (cases "discards w = []")
    case True
    obtain h w1 where w1: "apply_unbind L 2 w = Inr (h, w1)" using Suc.prems(1) True by (auto simp: res_bind_eq_Inr)
    show ?thesis
    proof (cases h)
      case False
      then show ?thesis using Suc.prems(1) w1 True by (auto simp: g)
    next
      case h: True
      then obtain h2 w3 where w3: "dispatch_discards L f w1 = Inr (h2, w3)" and "r = (True, w3)"
        using Suc.prems(1) w1 True by (auto simp: res_bind_eq_Inr)
      then show ?thesis using True h w1 Suc.IH [OF w3 g(2)] by (simp add: g)
    qed
  next
    case False
    then obtain w2 h w3 where "reaction_run L (last (discards w)) (w\<lparr>discards := butlast (discards w)\<rparr>) = Inr w2"
      and w3: "dispatch_discards L f w2 = Inr (h, w3)" and "r = (True, w3)"
      using Suc.prems(1) by (auto simp: res_bind_eq_Inr)
    then show ?thesis using False Suc.IH [OF w3 g(2)] by (simp add: g)
  qed
qed simp

subsection \<open>Dispatching discards\<close>

lemma try_schedule_discards:
  assumes "try_schedule_discard ops n w = Inr w'"
  shows "discards w' = discards w \<or> discards w' = discards w @ [ScanDiscard n]"
  using assms by (auto simp: try_schedule_discard_def put_node_def res_bind_eq_Inr
      split: option.splits node.splits discard_fn.splits if_splits)

lemma put_scan_data_discards [simp]: "discards (put_scan_data n c w) = discards w"
  by (simp add: put_scan_data_def put_node_def split: option.splits node.splits)

lemma unbind_all_discards:
  "unbind_all ops bs w = Inr w' \<Longrightarrow> \<exists>ds. discards w' = discards w @ ds \<and> set ds \<subseteq> ScanDiscard ` src_node ` set bs"
proof (induction bs arbitrary: w)
  case (Cons b bs)
  obtain w1 where w1: "node_unbind ops (src_node b) (src_key b) w = Inr w1" "unbind_all ops bs w1 = Inr w'"
    using Cons.prems by (auto simp: unbind_all_def res_bind_eq_Inr)
  obtain ds where ds: "discards w' = discards w1 @ ds" "set ds \<subseteq> ScanDiscard ` src_node ` set bs" using Cons.IH [OF w1(2)] by blast
  have "discards w1 = discards w \<or> discards w1 = discards w @ [ScanDiscard (src_node b)]"
    using w1(1) try_schedule_discards by (fastforce simp: node_unbind_def modify_sinks_def res_bind_eq_Inr)
  then show ?case
  proof
    assume "discards w1 = discards w"
    then show ?thesis using ds by (intro exI [of _ ds]) auto
  next
    assume "discards w1 = discards w @ [ScanDiscard (src_node b)]"
    then show ?thesis using ds by (intro exI [of _ "ScanDiscard (src_node b) # ds"]) auto
  qed
qed (simp add: unbind_all_def)

lemma scan_discard_discards:
  assumes r: "scan_discard ops n w = Inr w'" and inv: "sys_inv ops G w"
  shows "\<exists>ds. discards w' = discards w @ ds \<and> set ds \<subseteq> ScanDiscard ` {..<n}"
proof -
  obtain sn where sn: "heap w n = Some (ScanNode sn)"
    using r by (auto simp: scan_discard_def split: option.splits node.splits)
  define w1 where "w1 = put_node n (ScanNode (sn\<lparr>sn_scheduled := False\<rparr>)) w"
  have d1: "discards w1 = discards w" by (simp add: w1_def put_node_def)
  define d where "d = cell_val (sn_data sn)"
  have sb: "src_binder w n = Some (sd_sb d)" using sn by (simp add: src_binder_def d_def)
  have act: "\<not> active w n" using sys_quiet [OF inv] by (simp add: quiet_def)
  have bs: "binds ops w n (sbr_sources (sd_sb d))" using inv_binder [OF sys_graph [OF inv] sb act] by (simp add: binder_ok_def)
  have lt: "src_node ` set (sbr_sources (sd_sb d)) \<subseteq> {..<n}" using binds_lt(1) [OF sys_graph [OF inv] bs] by auto
  have "w' = w1 \<or> (\<exists>f sb w2. binder_clear ops (sd_sb d) (put_scan_data n \<lparr>cell_val = d, cell_mut = True\<rparr> w1) = Inr (sb, w2)
      \<and> w' = put_scan_data n (new_cell (d\<lparr>sd_state := f (sd_state d), sd_sb := sb\<rparr>)) w2)"
    using r sn by (auto simp: scan_discard_def w1_def [symmetric] d_def [symmetric] Let_def res_bind_eq_Inr
        split: if_splits discard_fn.splits)
  then show ?thesis
  proof
    assume "w' = w1"
    then show ?thesis by (simp add: d1)
  next
    assume "\<exists>f sb w2. binder_clear ops (sd_sb d) (put_scan_data n \<lparr>cell_val = d, cell_mut = True\<rparr> w1) = Inr (sb, w2)
      \<and> w' = put_scan_data n (new_cell (d\<lparr>sd_state := f (sd_state d), sd_sb := sb\<rparr>)) w2"
    then obtain w2 where w2: "unbind_all ops (sbr_sources (sd_sb d)) (put_scan_data n \<lparr>cell_val = d, cell_mut = True\<rparr> w1) = Inr w2"
      "discards w' = discards w2" by (auto simp: binder_clear_def res_bind_eq_Inr)
    from unbind_all_discards [OF w2(1)] show ?thesis using image_mono [OF lt, of ScanDiscard] by (fastforce simp: w2(2) d1)
  qed
qed

definition discard_id :: "'v reaction \<Rightarrow> nat" where
  "discard_id r = (case r of ScanDiscard n \<Rightarrow> n | _ \<Rightarrow> 0)"

definition discard_ids :: "('m, 'v, 'z) world_scheme \<Rightarrow> nat multiset" where
  "discard_ids w = mset (map discard_id (discards w))"

lemma rt_inv_butlast:
  assumes "rt_inv L G w"
  shows "rt_inv L G (w\<lparr>discards := butlast (discards w)\<rparr>)"
proof -
  let ?w = "w\<lparr>discards := butlast (discards w)\<rparr>"
  have h: "heap ?w = heap w" by simp
  note v = view_heap_cong [OF h]
  have "sys_inv (sink_slab L) G ?w" using rt_sys [OF assms] sys_inv_cong [OF h, of "sink_slab L" G] by simp
  then show ?thesis using assms unfolding rt_inv_def
    by (auto simp: v pending_ok_def discards_ok_def reactions_ok_def dest: in_set_butlastD)
qed

lemma discard_step:
  assumes L: "slabs_laws L" and inv: "rt_inv L G w" and d: "discards w \<noteq> []"
  shows "\<exists>w'. reaction_run L (last (discards w)) (w\<lparr>discards := butlast (discards w)\<rparr>) = Inr w' \<and> rt_inv L G w' \<and> graph_step w w'
    \<and> g_reactions w' = g_reactions w \<and> sem G w' = sem G w \<and> (discard_ids w', discard_ids w) \<in> mult less_than"
proof -
  define w0 where "w0 = w\<lparr>discards := butlast (discards w)\<rparr>"
  have inv0: "rt_inv L G w0" unfolding w0_def by (rule rt_inv_butlast [OF inv])
  have h: "heap w0 = heap w" by (simp add: w0_def)
  note v = view_heap_cong [OF h]
  have "last (discards w) \<in> set (discards w)" using d by simp
  then obtain n s f where n: "last (discards w) = ScanDiscard n" "code w0 n = Some (CScan s (DiscardFnVoid f))"
    using rt_discards [OF inv] by (auto simp: discards_ok_def v)
  obtain w' where w': "scan_discard (sink_slab L) n w0 = Inr w'" "sys_inv (sink_slab L) G w'" "discarded (sink_slab L) n w0 w'"
    using scan_discard_ok [OF slabs_lawsD(1) [OF L] rt_sys [OF inv0] n(2)] by blast
  have rs: "rest_same w0 w'" and c: "code w' = code w0" using w'(3) by (simp_all add: discarded_def)
  note rf = rest_same_fields [OF rs]
  have st0: "graph_step w0 w'" using rest_same_rt [OF rs] by (simp add: graph_step_def rf c)
  have "rt_inv L G w'"
  proof (rule rt_inv_step [OF inv0 st0 w'(2)])
    have "is_source w' = is_source w0" by (simp add: fun_eq_iff is_source_code c)
    then show "pending_ok (sink_slab L) w'" using rt_pending [OF inv0] w'(3) unfolding pending_ok_def discarded_def rf c by metis
    show "discards_ok (code w0) w'" by (rule dk_scan_discard [OF w'(1) rt_discards [OF inv0]])
    show "reactions_ok (code w0) w'" using rt_reactions [OF inv0] by (simp add: reactions_ok_def c rf)
  qed
  moreover have "graph_step w w0" by (simp add: graph_step_def rt_same_def v) (simp add: w0_def)
  then have "graph_step w w'" by (rule graph_step_trans [OF _ st0])
  moreover have "sem G w' = sem G w0" by (rule discarded_sem [OF w'(3)]) (simp add: n)
  then have "sem G w' = sem G w" using sem_cong [of w0 w] v by metis
  moreover have "(discard_ids w', discard_ids w) \<in> mult less_than"
  proof -
    obtain ds where ds: "discards w' = discards w0 @ ds" "set ds \<subseteq> ScanDiscard ` {..<n}"
      using scan_discard_discards [OF w'(1) rt_sys [OF inv0]] by blast
    have "discards w = discards w0 @ [ScanDiscard n]" using append_butlast_last_id [OF d] n(1) by (simp add: w0_def)
    then have "discard_ids w = discard_ids w0 + {#n#}" by (simp add: discard_ids_def discard_id_def)
    moreover have "discard_ids w' = discard_ids w0 + mset (map discard_id ds)" by (simp add: discard_ids_def ds)
    moreover have "\<forall>k \<in># mset (map discard_id ds). \<exists>j \<in># {#n#}. (k, j) \<in> less_than"
      using ds(2) by (auto simp: discard_id_def)
    ultimately show ?thesis using one_step_implies_mult [of "{#n#}" "mset (map discard_id ds)" less_than "discard_ids w0"] by simp
  qed
  ultimately show ?thesis using w'(1) rf(5) by (auto simp: n reaction_run_def w0_def)
qed

definition discards_done :: "('m, 's, 't) slabs \<Rightarrow> (nid \<Rightarrow> ('v, 'v) prog) \<Rightarrow> ('m, 'v, 's, 't) runtime \<Rightarrow> ('m, 'v, 's, 't) runtime \<Rightarrow> bool" where
  "discards_done L G w w' \<longleftrightarrow> rt_inv L G w' \<and> graph_step w w' \<and> g_reactions w' = g_reactions w \<and> sem G w' = sem G w \<and> discards w' = []"

lemma dispatch_discards_ends:
  assumes L: "slabs_laws L" and "rt_inv L G w" and "g_unbinds w = []"
  shows "\<exists>f w'. dispatch_discards L f w = Inr (discards w \<noteq> [], w') \<and> discards_done L G w w'"
  using assms(2-)
proof (induction "discard_ids w" arbitrary: w rule: wf_induct_rule [OF wf_mult [OF wf_less_than]])
  case 1
  show ?case
  proof (cases "discards w = []")
    case True
    then have "dispatch_discards L (Suc 0) w = Inr (False, w)" using 1(3) by (simp add: numeral_2_eq_2)
    then show ?thesis using True 1(2) by (intro exI [of _ "Suc 0"] exI [of _ w]) (simp add: discards_done_def)
  next
    case False
    obtain w1 where w1: "reaction_run L (last (discards w)) (w\<lparr>discards := butlast (discards w)\<rparr>) = Inr w1" "rt_inv L G w1" "graph_step w w1"
      "g_reactions w1 = g_reactions w" "sem G w1 = sem G w" "(discard_ids w1, discard_ids w) \<in> mult less_than"
      using discard_step [OF L 1(2) False] by blast
    have "g_unbinds w1 = []" using 1(3) by (simp add: graph_stepD [OF w1(3)])
    from 1(1) [OF w1(6,2) this] obtain f w' where w': "dispatch_discards L f w1 = Inr (discards w1 \<noteq> [], w')" "discards_done L G w1 w'" by blast
    have "dispatch_discards L (Suc f) w = Inr (True, w')" using False w1(1) w'(1) by simp
    moreover have "discards_done L G w w'" using w'(2) graph_step_trans [OF w1(3)] w1(4,5) by (simp add: discards_done_def)
    ultimately show ?thesis using False by (intro exI [of _ "Suc f"] exI [of _ w']) simp
  qed
qed

lemma dispatch_discards_total:
  assumes L: "slabs_laws L" and "rt_inv L G w"
  shows "\<exists>f h w'. dispatch_discards L f w = Inr (h, w') \<and> rt_inv L G w' \<and> async_actions w' = async_actions w \<and> async_heap w' = async_heap w
    \<and> code w' = code w \<and> g_config w' = g_config w \<and> discards w' = [] \<and> g_unbinds w' = []"
  using assms(2-)
proof (induction "discard_ids w" arbitrary: w rule: wf_induct_rule [OF wf_mult [OF wf_less_than]])
  case 1
  show ?case
  proof (cases "discards w = []")
    case True
    obtain h w1 where w1: "apply_unbind L 2 w = Inr (h, w1)" "rt_inv L G w1" "g_unbinds w1 = []" "kept G w w1" "\<not> h \<longrightarrow> w1 = w"
      using apply_unbind_ok [OF L 1(2), of 0] by (auto simp: numeral_2_eq_2)
    show ?thesis
    proof (cases h)
      case False
      then have "dispatch_discards L (Suc 0) w = Inr (False, w)" using True w1(1,5) by simp
      then show ?thesis using 1(2) True False w1(3,5) by blast
    next
      case h: True
      obtain f w' where w': "dispatch_discards L f w1 = Inr (discards w1 \<noteq> [], w')" "discards_done L G w1 w'"
        using dispatch_discards_ends [OF L w1(2,3)] by blast
      have "dispatch_discards L (Suc f) w = Inr (True, w')" using True h w1(1) w'(1) by simp
      then show ?thesis using w'(2) w1(4)
        by (intro exI [of _ "Suc f"] exI [of _ True] exI [of _ w']) (use w1(3) in \<open>simp add: discards_done_def graph_step_def rt_same_def kept_def\<close>)
    qed
  next
    case False
    obtain w1 where w1: "reaction_run L (last (discards w)) (w\<lparr>discards := butlast (discards w)\<rparr>) = Inr w1" "rt_inv L G w1" "graph_step w w1"
      "(discard_ids w1, discard_ids w) \<in> mult less_than"
      using discard_step [OF L 1(2) False] by blast
    from 1(1) [OF w1(4,2)] obtain f h w' where w': "dispatch_discards L f w1 = Inr (h, w')" "rt_inv L G w'" "async_actions w' = async_actions w1"
      "async_heap w' = async_heap w1" "code w' = code w1" "g_config w' = g_config w1" "discards w' = []" "g_unbinds w' = []" by blast
    have "dispatch_discards L (Suc f) w = Inr (True, w')" using False w1(1) w'(1) by simp
    then show ?thesis using w'(2-) w1(3)
      by (intro exI [of _ "Suc f"] exI [of _ True] exI [of _ w']) (simp add: graph_step_def rt_same_def)
  qed
qed

subsection \<open>flush\<close>

text \<open>The kind of work that may be pending, from nothing (0) to anything (3).\<close>

definition flush_rank :: "('m, 'v, 's, 't) runtime \<Rightarrow> nat" where
  "flush_rank w = (if \<not> no_actions w then 3 else if \<not> no_reactions w then 2 else if discards w \<noteq> [] then 1 else 0)"

definition settled :: "('m, 's, 't) slabs \<Rightarrow> (nid \<Rightarrow> ('v, 'v) prog) \<Rightarrow> ('m, 'v, 's, 't) runtime \<Rightarrow> bool" where
  "settled L G w \<longleftrightarrow> rt_inv L G w \<and> async_calm L w \<and> flush_rank w = 0 \<and> effects_current G None w"

lemma flush_actions:
  assumes L: "slabs_laws L" and inv: "rt_inv L G w" and calm: "async_calm L w"
  shows "\<exists>f h w'. (\<forall>g \<ge> f. dispatch_actions_with L g None w = Inr (h, w')) \<and> rt_inv L G w' \<and> async_calm L w' \<and> code w' = code w
    \<and> g_config w' = g_config w \<and> no_actions w'
    \<and> (no_actions w \<longrightarrow> h = False \<and> no_reactions w' = no_reactions w \<and> discards w' = discards w)"
proof -
  obtain f0 where "\<forall>f \<ge> f0. actions_done L G None w (dispatch_actions_with L f None w)"
    using dispatch_actions_ends [OF L inv calm] by blast
  then obtain h w' where w': "dispatch_actions_with L f0 None w = Inr (h, w')" "rt_inv L G w'" "async_calm L w'" "code w' = code w"
    "g_config w' = g_config w" "rq_wakes w' = []" "queue_empty None (g_actions w')" unfolding actions_done_def by blast
  note fuel = dispatch_actions_mono [OF w'(1)]
  have "h = False \<and> no_reactions w' = no_reactions w \<and> discards w' = discards w" if n: "no_actions w"
  proof -
    obtain w1 where w1: "get_actions L None w = Inr ([], w1)" "g_reactions w1 = g_reactions w" "g_unbinds w1 = g_unbinds w"
      "discards w1 = discards w" "g_notifys w1 = g_notifys w"
      using get_actions_ok [OF L inv calm, of None] n unfolding no_actions_def by blast
    have "(False, w1) = (h, w')" using dispatch_actions_idle [OF w1(1), of "Suc f0"] fuel [of "Suc f0"] by simp
    then show ?thesis using w1 by (simp add: no_reactions_def)
  qed
  then show ?thesis using w' fuel by (intro exI [of _ f0] exI [of _ h] exI [of _ w']) (simp add: no_actions_def)
qed

lemma flush_step:
  "flush L (Suc f) w = res_bind (dispatch_actions_with L f None w) (\<lambda>(h1, w1).
       if h1 then flush L f w1
       else res_bind (dispatch_reactions_with L None w1) (\<lambda>(h2, w2).
         if h2 then flush L f w2
         else res_bind (dispatch_discards L f w2) (\<lambda>(h3, w3).
           if h3 then flush L f w3 else Inr w3)))"
  by (rule flush.simps)

lemma flush_mono:
  "flush L f w = Inr r \<Longrightarrow> f \<le> f' \<Longrightarrow> flush L f' w = Inr r"
proof (induction f arbitrary: f' w r)
  case (Suc f)
  then obtain g where g: "f' = Suc g" "f \<le> g" by (cases f') auto
  obtain x where x: "dispatch_actions_with L f None w = Inr x" "(case x of (h1, w1) \<Rightarrow>
       if h1 then flush L f w1
       else res_bind (dispatch_reactions_with L None w1) (\<lambda>(h2, w2).
         if h2 then flush L f w2
         else res_bind (dispatch_discards L f w2) (\<lambda>(h3, w3).
           if h3 then flush L f w3 else Inr w3))) = Inr r"
    using Suc.prems(1) unfolding flush_step by (rule res_bind_InrE)
  obtain h1 w1 where hw: "x = (h1, w1)" by (cases x)
  note a = x(1) [unfolded hw] and r1 = x(2) [unfolded hw prod.case]
  note a' = dispatch_actions_mono [OF a g(2)]
  show ?case
  proof (cases h1)
    case True
    then have "flush L f w1 = Inr r" using r1 by simp
    from Suc.IH [OF this g(2)] show ?thesis using a' True by (simp add: g(1) flush_step)
  next
    case h1: False
    then obtain h2 w2 where b: "dispatch_reactions_with L None w1 = Inr (h2, w2)"
      and r2: "(if h2 then flush L f w2 else res_bind (dispatch_discards L f w2) (\<lambda>(h3, w3). if h3 then flush L f w3 else Inr w3)) = Inr r"
      using r1 by (auto simp: res_bind_eq_Inr)
    show ?thesis
    proof (cases h2)
      case True
      then have "flush L f w2 = Inr r" using r2 by simp
      from Suc.IH [OF this g(2)] show ?thesis using a' b h1 True by (simp add: g(1) flush_step)
    next
      case h2: False
      then obtain h3 w3 where c: "dispatch_discards L f w2 = Inr (h3, w3)" and r3: "(if h3 then flush L f w3 else Inr w3) = Inr r"
        using r2 by (auto simp: res_bind_eq_Inr)
      have "h3 \<Longrightarrow> flush L g w3 = Inr r" using r3 Suc.IH [OF _ g(2)] by simp
      then show ?thesis using a' b h1 h2 r3 dispatch_discards_mono [OF c g(2)]
        by (cases h3) (simp_all add: g(1) flush_step)
    qed
  qed
qed simp

lemma flush_round:
  assumes L: "slabs_laws L" and inv: "rt_inv L G w" and calm: "async_calm L w"
  shows "\<exists>f0 w'. rt_inv L G w' \<and> async_calm L w' \<and> code w' = code w \<and> g_config w' = g_config w
    \<and> (flush_rank w' < flush_rank w \<and> (\<forall>f \<ge> f0. flush L (Suc f) w = flush L f w')
       \<or> settled L G w' \<and> (\<forall>f \<ge> f0. flush L (Suc f) w = Inr w'))"
proof -
  obtain f1 h1 w1 where w1: "\<forall>f \<ge> f1. dispatch_actions_with L f None w = Inr (h1, w1)" "rt_inv L G w1" "async_calm L w1" "code w1 = code w"
    "g_config w1 = g_config w" "no_actions w1"
    "no_actions w \<longrightarrow> h1 = False \<and> no_reactions w1 = no_reactions w \<and> discards w1 = discards w"
    using flush_actions [OF L inv calm] by blast
  show ?thesis
  proof (cases h1)
    case True
    then have "flush_rank w1 < flush_rank w" using w1(6,7) by (simp add: flush_rank_def)
    moreover have "\<forall>f \<ge> f1. flush L (Suc f) w = flush L f w1" using w1(1) True by (simp add: flush_step)
    ultimately show ?thesis using w1(2-5) by blast
  next
    case h1: False
    obtain h2 w2 where w2: "dispatch_reactions_with L None w1 = Inr (h2, w2)" "rt_inv L G w2" "async_calm L w2" "kept G w1 w2"
      "effects_current G None w2" "rq_wakes w2 = []" "no_reactions w2" "g_actions w2 = g_actions w1"
      "no_reactions w1 \<longrightarrow> h2 = False \<and> discards w2 = discards w1"
      using dispatch_reactions_ok [OF L w1(2,3), of None] w1(6) unfolding no_actions_def by blast
    have c2: "code w2 = code w" "g_config w2 = g_config w" using w2(4) w1(4,5) by (simp_all add: kept_def)
    have na2: "no_actions w2" using w1(6) w2(6,8) by (simp add: no_actions_def)
    show ?thesis
    proof (cases h2)
      case True
      then have "flush_rank w2 < flush_rank w" using w2(7,9) w1(7) na2 by (auto simp: flush_rank_def)
      moreover have "\<forall>f \<ge> f1. flush L (Suc f) w = flush L f w2" using w1(1) w2(1) h1 True by (simp add: flush_step)
      ultimately show ?thesis using w2(2,3) c2 by blast
    next
      case h2: False
      obtain f3 w3 where w3: "dispatch_discards L f3 w2 = Inr (discards w2 \<noteq> [], w3)" "discards_done L G w2 w3"
        using dispatch_discards_ends [OF L w2(2)] w2(7) by (auto simp: no_reactions_def)
      have inv3: "rt_inv L G w3" and st: "graph_step w2 w3" and d3: "discards w3 = []" "g_reactions w3 = g_reactions w2"
        using w3(2) by (simp_all add: discards_done_def)
      note g3 = graph_stepD [OF st]
      have rank3: "flush_rank w3 = 0" using na2 w2(7) d3 by (simp add: flush_rank_def no_actions_def no_reactions_def g3)
      have calm3: "async_calm L w3" using w2(3) async_calm_cong [OF g3(6,5)] by simp
      show ?thesis
      proof (cases "discards w2 = []")
        case True
        have same: "w3 = w2"
        proof -
          have "dispatch_discards L (Suc f3) w2 = Inr (False, w3)" using dispatch_discards_mono [OF w3(1), of "Suc f3"] True by simp
          then show ?thesis using True w2(7) by (simp add: no_reactions_def numeral_2_eq_2)
        qed
        have "\<forall>f \<ge> max f1 f3. flush L (Suc f) w = Inr w2"
          using w1(1) w2(1) h1 h2 dispatch_discards_mono [OF w3(1)] True by (simp add: flush_step same)
        moreover have "settled L G w2" using w2(2,3,5) rank3 by (simp add: settled_def same)
        ultimately show ?thesis using w2(2,3) c2 by blast
      next
        case False
        then have "flush_rank w3 < flush_rank w" using rank3 w1(7) w2(9) by (auto simp: flush_rank_def)
        moreover have "\<forall>f \<ge> max f1 f3. flush L (Suc f) w = flush L f w3"
          using w1(1) w2(1) h1 h2 dispatch_discards_mono [OF w3(1)] False by (simp add: flush_step)
        ultimately show ?thesis using inv3 calm3 c2 g3(8,9) by metis
      qed
    qed
  qed
qed

lemma flush_ends:
  assumes L: "slabs_laws L"
  shows "rt_inv L G w \<Longrightarrow> async_calm L w \<Longrightarrow>
    \<exists>f0 w'. (\<forall>f \<ge> f0. flush L f w = Inr w') \<and> settled L G w' \<and> code w' = code w \<and> g_config w' = g_config w"
proof (induction "flush_rank w" arbitrary: w rule: less_induct)
  case less
  obtain f0 w1 where w1: "rt_inv L G w1" "async_calm L w1" "code w1 = code w" "g_config w1 = g_config w"
    "flush_rank w1 < flush_rank w \<and> (\<forall>f \<ge> f0. flush L (Suc f) w = flush L f w1)
       \<or> settled L G w1 \<and> (\<forall>f \<ge> f0. flush L (Suc f) w = Inr w1)"
    using flush_round [OF L less.prems] by metis
  have suc: "\<forall>f \<ge> Suc m. flush L f w = Inr w'" if "\<forall>f \<ge> m. flush L (Suc f) w = Inr w'" for m w'
    using that by (metis Suc_le_D Suc_le_mono)
  from w1(5) show ?case
  proof
    assume a: "flush_rank w1 < flush_rank w \<and> (\<forall>f \<ge> f0. flush L (Suc f) w = flush L f w1)"
    then obtain f1 w' where w': "\<forall>f \<ge> f1. flush L f w1 = Inr w'" "settled L G w'" "code w' = code w1" "g_config w' = g_config w1"
      using less.hyps [OF _ w1(1,2)] by blast
    have "\<forall>f \<ge> max f0 f1. flush L (Suc f) w = Inr w'" using a w'(1) by simp
    from suc [OF this] show ?thesis using w'(2-4) w1(3,4) by metis
  next
    assume a: "settled L G w1 \<and> (\<forall>f \<ge> f0. flush L (Suc f) w = Inr w1)"
    then show ?thesis using suc [of f0 w1] w1(3,4) by metis
  qed
qed

subsection \<open>Cancelling the asynchronous actions\<close>

text \<open>The actions that have not finished. Cancelling one finishes it and touches no other.\<close>

definition async_live :: "('m, 'v, 's, 't) runtime \<Rightarrow> nat \<Rightarrow> bool" where
  "async_live w i \<longleftrightarrow> (\<exists>x d. async_heap w i = Some x \<and> cell_val (aa_data x) = Some d)"

lemma async_cancel_ok:
  assumes L: "slabs_laws L" and inv: "rt_inv L G w" and calm: "async_calm L w" and a: "async_heap w a \<noteq> None"
  shows "\<exists>w'. async_cancel L a w = Inr w' \<and> rt_inv L G w' \<and> async_calm L w' \<and> code w' = code w
    \<and> (\<forall>i. async_live w' i \<longleftrightarrow> async_live w i \<and> i \<noteq> a) \<and> (\<forall>i. async_heap w i \<noteq> None \<longrightarrow> async_heap w' i \<noteq> None)"
proof -
  obtain x where x: "async_heap w a = Some x" using a by blast
  have nm: "\<not> cell_mut (aa_data x)" using calm x by (auto simp: async_calm_def)
  show ?thesis
  proof (cases "cell_val (aa_data x)")
    case None
    then have "async_cancel L a w = Inr w" using x nm by (simp add: async_cancel_def)
    moreover have "\<not> async_live w a" using x None by (simp add: async_live_def)
    ultimately show ?thesis using inv calm by auto
  next
    case (Some d)
    define w' where "w' = async_finish L a d w"
    have run: "async_cancel L a w = Inr w'" using x nm Some by (simp add: async_cancel_def w'_def)
    have slab: "slab_get (async_slab L) (async_actions w) (ad_id d) = Some a" using calm x Some by (auto simp: async_calm_def)
    have fin: "w' = (put_async a (new_cell None) w)\<lparr>rq_drops := rq_drops w @ [ad_waker d],
        async_actions := slab_remove (async_slab L) (async_actions w) (ad_id d)\<rparr>"
      by (simp add: w'_def async_finish_def raw_wake_drop_def put_async_fields Let_def)
    have H: "async_heap w' = (async_heap w)(a \<mapsto> x\<lparr>aa_data := new_cell None\<rparr>)" by (simp add: fin put_async_heap [OF x])
    have "rt_inv L G (put_async a (new_cell None) w)" by (rule rt_inv_put_async [OF inv x]) simp
    then have "rt_inv L G w'" by (simp add: fin)
    moreover have "code w' = code w" by (rule view_heap_cong(1)) (simp add: fin put_async_fields)
    moreover have "async_live w' i \<longleftrightarrow> async_live w i \<and> i \<noteq> a" for i by (auto simp: async_live_def H)
    moreover have "async_calm L w'"
    proof -
      have key: "ad_id e = ad_id d \<longleftrightarrow> i = a" if "async_heap w i = Some y" "cell_val (aa_data y) = Some e" for i y e
        using calm slab that x Some unfolding async_calm_def by (metis option.inject)
      have "async_actions w' = slab_remove (async_slab L) (async_actions w) (ad_id d)" by (simp add: fin)
      then show ?thesis using calm x Some key unfolding async_calm_def H
        by (auto simp: slab_get_remove [OF slabs_lawsD(3) [OF L]])
    qed
    ultimately show ?thesis using run by (auto simp: H)
  qed
qed

lemma cancel_fold_ok:
  assumes L: "slabs_laws L"
  shows "rt_inv L G w \<Longrightarrow> async_calm L w \<Longrightarrow> \<forall>a \<in> set xs. async_heap w a \<noteq> None \<Longrightarrow>
    \<exists>w'. res_fold (async_cancel L) xs w = Inr w' \<and> rt_inv L G w' \<and> async_calm L w' \<and> code w' = code w
      \<and> (\<forall>i. async_live w' i \<longleftrightarrow> async_live w i \<and> i \<notin> set xs)"
proof (induction xs arbitrary: w)
  case (Cons a xs)
  obtain w1 where w1: "async_cancel L a w = Inr w1" "rt_inv L G w1" "async_calm L w1" "code w1 = code w"
    "\<forall>i. async_live w1 i \<longleftrightarrow> async_live w i \<and> i \<noteq> a" "\<forall>i. async_heap w i \<noteq> None \<longrightarrow> async_heap w1 i \<noteq> None"
    using async_cancel_ok [OF L Cons.prems(1,2)] Cons.prems(3) by (metis list.set_intros(1))
  have "\<forall>a \<in> set xs. async_heap w1 a \<noteq> None" using Cons.prems(3) w1(6) by simp
  from Cons.IH [OF w1(2,3) this] show ?case using w1(1,4,5) by auto
qed simp

lemma cancel_async_ends:
  assumes L: "slabs_laws L" and inv: "rt_inv L G w" and calm: "async_calm L w"
  shows "\<exists>w'. cancel_async_actions L (Suc (Suc f)) w = Inr w' \<and> rt_inv L G w' \<and> async_calm L w' \<and> code w' = code w
    \<and> slab_is_empty (async_slab L) (async_actions w') \<and> (\<forall>i. \<not> async_live w' i)"
proof -
  note laws = slabs_lawsD(3) [OF L]
  let ?xs = "List.map_filter (slab_get (async_slab L) (async_actions w)) (slab_keys (async_slab L) (async_actions w))"
  have live: "async_live w i \<longleftrightarrow> (\<exists>key. slab_get (async_slab L) (async_actions w) key = Some i)" for i
    using calm unfolding async_calm_def async_live_def by blast
  have xs: "i \<in> set ?xs \<longleftrightarrow> async_live w i" for i
  proof -
    have "i \<in> set ?xs \<longleftrightarrow> (\<exists>k \<in> set (slab_keys (async_slab L) (async_actions w)). slab_get (async_slab L) (async_actions w) k = Some i)"
      by (auto simp: List.map_filter_def) force
    then show ?thesis unfolding live using slab_keys_iff [OF laws, of _ "async_actions w"] by blast
  qed
  show ?thesis
  proof (cases "slab_is_empty (async_slab L) (async_actions w)")
    case True
    then show ?thesis using inv calm live by (simp add: slab_is_empty_iff [OF laws])
  next
    case False
    have "\<forall>a \<in> set ?xs. async_heap w a \<noteq> None" using xs by (auto simp: async_live_def)
    from cancel_fold_ok [OF L inv calm this] obtain w' where w': "res_fold (async_cancel L) ?xs w = Inr w'" "rt_inv L G w'"
      "async_calm L w'" "code w' = code w" "\<forall>i. async_live w' i \<longleftrightarrow> async_live w i \<and> i \<notin> set ?xs" by blast
    have none: "\<not> async_live w' i" for i using w'(5) xs by blast
    have "slab_get (async_slab L) (async_actions w') key = None" for key
    proof (cases "slab_get (async_slab L) (async_actions w') key")
      case (Some i)
      then have "async_live w' i" using w'(3) unfolding async_calm_def async_live_def by blast
      then show ?thesis using none by blast
    qed
    then have "slab_is_empty (async_slab L) (async_actions w')" by (simp add: slab_is_empty_iff [OF laws])
    then show ?thesis using False w' none by (simp add: Let_def)
  qed
qed

end
