(* ===== verification/Runtime_Handle.thy ===== *)
theory Runtime_Handle
  imports Runtime_Settle
begin

section \<open>Runtime, RuntimeLend and Runtime::call (core.rs)\<close>

text \<open>
  At most one \<open>Runtime\<close> exists per thread. Its \<open>RawRuntime\<close> is a box that travels: it is in the
  handle that created it, in \<open>Globals::runtime\<close> while that handle is lent, or in the handle that
  \<open>Runtime::call\<close> made for its closure. The model keeps the contents of the box in the record
  \<open>runtime\<close> and says who holds it: \<open>rt_raw\<close> of a handle, or \<open>g_runtime\<close>. \<open>session\<close> follows one
  runtime through its nested lends and calls; there is always exactly one holder.
\<close>

subsection \<open>The operations\<close>

record handle =
  rt_owned :: bool
  rt_raw :: bool

text \<open>Before any runtime exists on the thread.\<close>

definition globals_new :: "('m, 's, 't) slabs \<Rightarrow> ('m, 'v, 's, 't) runtime" where
  "globals_new L = world.extend (world_init None)
     \<lparr>g_actions = bk_new, wk_reactions = slab_new (wake_slab L), rq_wakes = [], rq_drops = [],
      async_actions = slab_new (async_slab L), async_heap = (\<lambda>_. None), next_async = 0, g_runtime = False\<rparr>"

definition prepare_runtime :: "runtime_config \<Rightarrow> ('m, 'v, 's, 't) runtime \<Rightarrow> unit result" where
  "prepare_runtime c w =
     res_bind (res_assert RuntimeExists (g_config w = None)) (\<lambda>_.
     res_bind (res_fold (\<lambda>i _. assert_valid_action_phase c (word_of_int i)) (bk_ids (g_actions w)) ()) (\<lambda>_.
       res_fold (\<lambda>i _. assert_valid_reaction_phase c (word_of_int i)) (bk_ids (g_reactions w)) ()))"

definition activate_runtime :: "runtime_config \<Rightarrow> ('m, 'v, 's, 't) runtime \<Rightarrow> ('m, 'v, 's, 't) runtime" where
  "activate_runtime c w = w\<lparr>g_config := Some c\<rparr>"

definition new_with_config ::
    "('m, 's, 't) slabs \<Rightarrow> runtime_config \<Rightarrow> ('m, 'v, 's, 't) runtime \<Rightarrow> (handle \<times> ('m, 'v, 's, 't) runtime) result" where
  "new_with_config L c w =
     res_bind (prepare_runtime c w) (\<lambda>_.
       let w1 = w\<lparr>discards := [], async_actions := slab_new (async_slab L)\<rparr>
       in Inr (\<lparr>rt_owned = True, rt_raw = True\<rparr>, activate_runtime c w1))"

definition as_raw :: "handle \<Rightarrow> unit result" where
  "as_raw h = res_assert RuntimeUnavailable (rt_raw h)"

definition lend :: "handle \<Rightarrow> ('m, 'v, 's, 't) runtime \<Rightarrow> handle \<times> ('m, 'v, 's, 't) runtime" where
  "lend h w = (h\<lparr>rt_raw := False\<rparr>, w\<lparr>g_runtime := rt_raw h\<rparr>)"

definition lend_drop :: "handle \<Rightarrow> ('m, 'v, 's, 't) runtime \<Rightarrow> handle \<times> ('m, 'v, 's, 't) runtime" where
  "lend_drop h w = (h\<lparr>rt_raw := g_runtime w\<rparr>, w\<lparr>g_runtime := False\<rparr>)"

datatype call_error = CallDoesNotExist | CallUnavailable

definition try_call :: "('m, 'v, 's, 't) runtime \<Rightarrow> call_error + (handle \<times> ('m, 'v, 's, 't) runtime)" where
  "try_call w =
     (if g_config w = None then Inl CallDoesNotExist
      else if \<not> g_runtime w then Inl CallUnavailable
      else Inr (\<lparr>rt_owned = False, rt_raw = True\<rparr>, w\<lparr>g_runtime := False\<rparr>))"

definition finish_runtime :: "('m, 'v, 's, 't) runtime \<Rightarrow> ('m, 'v, 's, 't) runtime" where
  "finish_runtime w = w\<lparr>g_config := None, g_reactions := bk_new, g_actions := bk_new\<rparr>"

text \<open>\<open>RawRuntime::drop\<close>; the fields of \<open>RuntimeData\<close> go with the box.\<close>

definition raw_drop :: "('m, 's, 't) slabs \<Rightarrow> nat \<Rightarrow> ('m, 'v, 's, 't) runtime_op" where
  "raw_drop L fuel w = res_bind (cancel_async_actions L fuel w) (\<lambda>w1. Inr ((finish_runtime w1)\<lparr>discards := []\<rparr>))"

text \<open>\<open>Runtime::drop\<close>, and the drop of its \<open>raw\<close> field.\<close>

definition runtime_drop :: "('m, 's, 't) slabs \<Rightarrow> nat \<Rightarrow> handle \<Rightarrow> ('m, 'v, 's, 't) runtime_op" where
  "runtime_drop L fuel h w =
     (if rt_owned h then
        res_bind (as_raw h) (\<lambda>_.
        res_bind (cancel_async_actions L fuel w) (\<lambda>w1. raw_drop L fuel (finish_runtime w1)))
      else res_bind (res_assert AssertFailed (\<not> g_runtime w)) (\<lambda>_. Inr (w\<lparr>g_runtime := rt_raw h\<rparr>)))"

subsection \<open>Sessions\<close>

text \<open>
  The scopes that are open, innermost first, with the handle of each call and of the owner. A
  guard borrows the handle it lends, so while it lives only \<open>Runtime::call\<close> reaches the runtime;
  scopes close in the reverse order of their opening. Any other operation of the runtime keeps
  the configuration and \<open>g_runtime\<close>.
\<close>

datatype scope = ScLend | ScCall

inductive session :: "('m, 's, 't) slabs \<Rightarrow> scope list \<Rightarrow> handle list \<Rightarrow> ('m, 'v, 's, 't) runtime \<Rightarrow> bool" for L where
  session_new: "new_with_config L c w0 = Inr (h, w) \<Longrightarrow> \<not> g_runtime w0 \<Longrightarrow> session L [] [h] w"
| session_lend: "session L sc (h # hs) w \<Longrightarrow> sc = [] \<or> hd sc = ScCall \<Longrightarrow> lend h w = (h', w') \<Longrightarrow> session L (ScLend # sc) (h' # hs) w'"
| session_call: "session L sc hs w \<Longrightarrow> try_call w = Inr (h, w') \<Longrightarrow> session L (ScCall # sc) (h # hs) w'"
| session_end_lend: "session L (ScLend # sc) (h # hs) w \<Longrightarrow> lend_drop h w = (h', w') \<Longrightarrow> session L sc (h' # hs) w'"
| session_end_call: "session L (ScCall # sc) (h # hs) w \<Longrightarrow> runtime_drop L fuel h w = Inr w' \<Longrightarrow> session L sc hs w'"
| session_op: "session L sc hs w \<Longrightarrow> g_config w' = g_config w \<Longrightarrow> g_runtime w' = g_runtime w \<Longrightarrow> session L sc hs w'"

inductive_cases session_lendE: "session L (ScLend # sc) hs w"

text \<open>
  The shape of a session: \<open>in_scopes\<close> says which handles there are, given who holds the box. The
  handle that a lend emptied stays empty until that lend ends.
\<close>

fun in_scopes :: "scope list \<Rightarrow> handle list \<Rightarrow> bool \<Rightarrow> bool" where
  "in_scopes [] hs r \<longleftrightarrow> hs = [\<lparr>rt_owned = True, rt_raw = True\<rparr>] \<and> \<not> r"
| "in_scopes (ScLend # sc) hs r \<longleftrightarrow> (\<exists>h hs'. hs = h\<lparr>rt_raw := False\<rparr> # hs' \<and> rt_raw h \<and> in_scopes sc (h # hs') False) \<and> r"
| "in_scopes (ScCall # sc) hs r \<longleftrightarrow> (\<exists>hs'. hs = \<lparr>rt_owned = False, rt_raw = True\<rparr> # hs' \<and> in_scopes sc hs' True) \<and> \<not> r"

lemma in_scopes_flag: "in_scopes sc hs r \<Longrightarrow> r \<longleftrightarrow> sc \<noteq> [] \<and> hd sc = ScLend"
  by (induction sc hs r rule: in_scopes.induct) simp_all

lemma in_scopes_raw: "in_scopes sc hs r \<Longrightarrow> hs \<noteq> [] \<and> (rt_raw (hd hs) \<longleftrightarrow> \<not> r)"
  by (induction sc hs r rule: in_scopes.induct) auto

lemma handle_raw: "rt_raw h \<Longrightarrow> h\<lparr>rt_raw := True\<rparr> = h"
  by (cases h) simp

lemma in_scopes_holders:
  "in_scopes sc hs r \<Longrightarrow> length (filter rt_raw hs) + of_bool r = 1"
proof (induction sc hs r rule: in_scopes.induct)
  case (2 sc hs r)
  then obtain h hs' where h: "hs = h\<lparr>rt_raw := False\<rparr> # hs'" "rt_raw h" "in_scopes sc (h # hs') False" and r: r by auto
  have "length (filter rt_raw (h # hs')) = 1" using 2(1) [OF h(3)] by simp
  then show ?case using h(1,2) r by simp
next
  case (3 sc hs r)
  then obtain hs' where h: "hs = \<lparr>rt_owned = False, rt_raw = True\<rparr> # hs'" "in_scopes sc hs' True" and r: "\<not> r" by auto
  show ?case using 3(1) [OF h(2)] h(1) r by simp
qed simp

lemma in_scopes_owner:
  "in_scopes sc hs r \<Longrightarrow> hs \<noteq> [] \<and> rt_owned (last hs) \<and> (\<forall>h \<in> set (butlast hs). \<not> rt_owned h) \<and> length hs = Suc (length (filter (\<lambda>s. s = ScCall) sc))"
proof (induction sc hs r rule: in_scopes.induct)
  case (2 sc hs r)
  then obtain h hs' where h: "hs = h\<lparr>rt_raw := False\<rparr> # hs'" "in_scopes sc (h # hs') False" by auto
  show ?case using 2(1) [OF h(2)] h(1) by (cases hs') simp_all
next
  case (3 sc hs r)
  then obtain hs' where h: "hs = \<lparr>rt_owned = False, rt_raw = True\<rparr> # hs'" "in_scopes sc hs' True" by auto
  show ?case using 3(1) [OF h(2)] h(1) by simp
qed simp

lemma new_with_config_fields:
  assumes "new_with_config L c w0 = Inr (h, w)"
  shows "h = \<lparr>rt_owned = True, rt_raw = True\<rparr>" and "w = w0\<lparr>discards := [], async_actions := slab_new (async_slab L), g_config := Some c\<rparr>"
    and "g_runtime w = g_runtime w0" and "g_config w = Some c" and "prepare_runtime c w0 = Inr ()"
proof -
  obtain u where "prepare_runtime c w0 = Inr u"
    "(\<lparr>rt_owned = True, rt_raw = True\<rparr>, activate_runtime c (w0\<lparr>discards := [], async_actions := slab_new (async_slab L)\<rparr>)) = (h, w)"
    using assms unfolding new_with_config_def by (rule res_bind_InrE) (simp add: Let_def)
  then show "h = \<lparr>rt_owned = True, rt_raw = True\<rparr>" and "w = w0\<lparr>discards := [], async_actions := slab_new (async_slab L), g_config := Some c\<rparr>"
    and "g_runtime w = g_runtime w0" and "g_config w = Some c" and "prepare_runtime c w0 = Inr ()"
    by (auto simp: activate_runtime_def)
qed

lemma session_scopes:
  assumes "session L sc hs w"
  shows "in_scopes sc hs (g_runtime w) \<and> g_config w \<noteq> None"
  using assms
proof (induction rule: session.induct)
  case (session_new c w0 h w)
  then show ?case by (simp add: new_with_config_fields [OF session_new(1)])
next
  case (session_lend sc h hs w h' w')
  then have "\<not> g_runtime w" using in_scopes_flag [of sc "h # hs" "g_runtime w"] by (cases sc) auto
  moreover have "rt_raw h" using session_lend in_scopes_raw [of sc "h # hs" "g_runtime w"] \<open>\<not> g_runtime w\<close> by simp
  ultimately show ?case using session_lend by (auto simp: lend_def)
next
  case (session_call sc hs w h w')
  then show ?case by (auto simp: try_call_def split: if_splits)
next
  case (session_end_lend sc h hs w h' w')
  then show ?case by (auto simp: lend_drop_def handle_raw)
next
  case (session_end_call sc h hs w fuel w')
  then show ?case by (auto simp: runtime_drop_def)
qed simp

lemma session_fields:
  assumes "session L sc hs w"
  shows "g_config w \<noteq> None" and "g_runtime w \<longleftrightarrow> sc \<noteq> [] \<and> hd sc = ScLend" and "length (filter rt_raw hs) + of_bool (g_runtime w) = 1"
    and "hs \<noteq> []" and "rt_raw (hd hs) \<longleftrightarrow> \<not> g_runtime w" and "rt_owned (last hs)"
proof -
  have s: "in_scopes sc hs (g_runtime w)" "g_config w \<noteq> None" using session_scopes [OF assms] by simp_all
  show "g_config w \<noteq> None" by (rule s(2))
  show "g_runtime w \<longleftrightarrow> sc \<noteq> [] \<and> hd sc = ScLend" by (rule in_scopes_flag [OF s(1)])
  show "length (filter rt_raw hs) + of_bool (g_runtime w) = 1" by (rule in_scopes_holders [OF s(1)])
  show "hs \<noteq> []" "rt_raw (hd hs) \<longleftrightarrow> \<not> g_runtime w" using in_scopes_raw [OF s(1)] by simp_all
  show "rt_owned (last hs)" using in_scopes_owner [OF s(1)] by simp
qed

subsection \<open>The life of a runtime\<close>

lemma res_fold_check: "res_fold (\<lambda>i _. f i) xs () = Inr () \<longleftrightarrow> (\<forall>i \<in> set xs. f i = Inr ())"
  by (induction xs) (auto simp: res_bind_eq_Inr)

lemma prepare_runtime_iff:
  "prepare_runtime c w = Inr () \<longleftrightarrow> g_config w = None
     \<and> (\<forall>i \<in> set (bk_ids (g_actions w)). valid_contains (action_phases c) (word_of_int i))
     \<and> (\<forall>i \<in> set (bk_ids (g_reactions w)). valid_contains (reaction_phases c) (word_of_int i))"
  by (auto simp: prepare_runtime_def res_bind_eq_Inr res_fold_check assert_valid_action_phase_def assert_valid_reaction_phase_def)

lemma raw_drop_ok:
  assumes L: "slabs_laws L" and e: "slab_is_empty (async_slab L) (async_actions w)"
  shows "raw_drop L (Suc f) w = Inr ((finish_runtime w)\<lparr>discards := []\<rparr>)"
  using e by (simp add: raw_drop_def)

lemma bk_ids_new [simp]: "bk_ids bk_new = []"
  by (simp add: bk_ids_def bk_new_def isize_max_def isize_min_def)

lemma runtime_drop_ok:
  assumes L: "slabs_laws L" and inv: "rt_inv L G w" and calm: "async_calm L w" and h: "rt_owned h" "rt_raw h"
  shows "\<exists>w'. runtime_drop L (Suc (Suc f)) h w = Inr w' \<and> g_config w' = None \<and> code w' = code w
    \<and> bk_ids (g_actions w') = [] \<and> bk_ids (g_reactions w') = [] \<and> discards w' = [] \<and> (\<forall>i. \<not> async_live w' i)"
proof -
  obtain w1 where w1: "cancel_async_actions L (Suc (Suc f)) w = Inr w1" "code w1 = code w"
    "slab_is_empty (async_slab L) (async_actions w1)" "\<forall>i. \<not> async_live w1 i"
    using cancel_async_ends [OF L inv calm] by blast
  let ?w2 = "finish_runtime w1"
  have e: "slab_is_empty (async_slab L) (async_actions ?w2)" using w1(3) by (simp add: finish_runtime_def)
  have "runtime_drop L (Suc (Suc f)) h w = Inr ((finish_runtime ?w2)\<lparr>discards := []\<rparr>)"
    using h w1(1) raw_drop_ok [OF L e] by (simp add: runtime_drop_def as_raw_def)
  moreover have "code ((finish_runtime ?w2)\<lparr>discards := []\<rparr>) = code w1" by (rule view_heap_cong(1)) (simp add: finish_runtime_def)
  ultimately show ?thesis using w1(2,4) by (simp add: finish_runtime_def async_live_def)
qed

end
