(* ===== verification/Runtime_Teardown.thy ===== *)
theory Runtime_Teardown
  imports Runtime_Handle
begin

section \<open>Queued closures that own nodes, when the runtime is dropped\<close>

text \<open>
  The closures of Runtime\_Loop own no nodes. A closure that is still queued when the runtime is dropped may own the last reference to some: \<open>finish_runtime\<close> drops the queues
  with \<open>Globals\<close> mutably borrowed, and dropping such a node drops its \<open>SourceBindings\<close>, which borrows \<open>Globals\<close> again unless it is empty. \<open>locked\<close>
  says that \<open>Globals\<close> is borrowed; \<open>ns\<close> are the nodes that only the queued closures own.
\<close>

definition sources_drop :: "bool \<Rightarrow> source_bindings \<Rightarrow> ('m, 'v, 'z) world_scheme \<Rightarrow> ('m, 'v, 'z) world_scheme result" where
  "sources_drop locked bs w = (if bs \<noteq> [] then (if locked then Inl BorrowMutError else Inr (w\<lparr>g_unbinds := g_unbinds w @ [bs]\<rparr>)) else Inr w)"

definition owned_drop :: "bool \<Rightarrow> nid \<Rightarrow> ('m, 'v, 'z) world_scheme \<Rightarrow> ('m, 'v, 'z) world_scheme result" where
  "owned_drop locked n w = (case heap w n of None \<Rightarrow> Inr w
     | Some nd \<Rightarrow> sources_drop locked (node_sources nd) (w\<lparr>heap := (heap w)(n := None)\<rparr>))"

definition finish_runtime_owning :: "nid list \<Rightarrow> ('m, 'v, 's, 't) runtime \<Rightarrow> ('m, 'v, 's, 't) runtime result" where
  "finish_runtime_owning ns w = res_bind (res_fold (owned_drop True) ns w) (\<lambda>w1. Inr (finish_runtime w1))"

lemma owned_drop_idle: "owned_drop False n w = Inr (drop_node n w)"
  by (simp add: owned_drop_def sources_drop_def drop_node_def drop_sources_def split: option.split)

lemma finish_runtime_owning_nothing: "finish_runtime_owning [] w = Inr (finish_runtime w)"
  by (simp add: finish_runtime_owning_def)

text \<open>
  Dropping the runtime panics exactly when one of those nodes has been read and still has sources.
\<close>

lemma owned_drops_locked:
  "distinct ns \<Longrightarrow> (\<forall>w'. res_fold (owned_drop True) ns w \<noteq> Inr w') \<longleftrightarrow> (\<exists>n \<in> set ns. \<exists>nd. heap w n = Some nd \<and> node_sources nd \<noteq> [])"
proof (induction ns arbitrary: w)
  case (Cons n ns)
  show ?case
  proof (cases "\<exists>nd. heap w n = Some nd \<and> node_sources nd \<noteq> []")
    case True
    then show ?thesis by (auto simp: owned_drop_def sources_drop_def)
  next
    case False
    let ?w = "w\<lparr>heap := (heap w)(n := None)\<rparr>"
    have "\<exists>w1. owned_drop True n w = Inr w1 \<and> heap w1 = heap ?w"
      using False by (cases "heap w n") (auto simp: owned_drop_def sources_drop_def)
    then obtain w1 where "owned_drop True n w = Inr w1" "heap w1 = heap ?w" by blast
    then show ?thesis using False Cons.IH [of w1] Cons.prems by auto
  qed
qed simp

lemma finish_runtime_drop_panics:
  assumes "distinct ns"
  shows "(\<forall>w'. finish_runtime_owning ns w \<noteq> Inr w') \<longleftrightarrow> (\<exists>n \<in> set ns. \<exists>nd. heap w n = Some nd \<and> node_sources nd \<noteq> [])"
  using owned_drops_locked [OF assms, of w] by (cases "res_fold (owned_drop True) ns w") (simp_all add: finish_runtime_owning_def)

end
