(* ===== verification/Callback.thy ===== *)
theory Callback
  imports Prelude
begin

section \<open>Closures over reference-counted values (Action and Reaction of core.rs)\<close>

text \<open>
  An \<open>Action\<close>, a \<open>Reaction\<close> and a \<open>Subscription\<close> can be made of a closure, of an \<open>Rc\<close> and a function of it, or of a \<open>Weak\<close> and a function of the \<open>Rc\<close> it upgrades to. The values behind
  \<open>Rc\<close>s are addresses with their number of strong references; \<open>rc_rest\<close> is everything else that closures change, and \<open>drop_value\<close> what the drop of the value at an address
  does to it. A function that is given an \<open>Rc\<close> owns one of its references. \<open>downcast_or\<close> in \<open>new\<close> only avoids to box a closure that is boxed already, and the \<open>downcast\<close>s
  to the type of the function always succeed.
\<close>

type_synonym rc = nat

record 'w rc_world =
  rc_strong :: "rc \<Rightarrow> nat"
  rc_rest :: 'w

type_synonym 'w rc_fn = "rc \<Rightarrow> 'w rc_world \<Rightarrow> 'w rc_world"

definition rc_drop :: "(rc \<Rightarrow> 'w \<Rightarrow> 'w) \<Rightarrow> 'w rc_fn" where
  "rc_drop drop_value a s = (let s1 = s\<lparr>rc_strong := (rc_strong s)(a := rc_strong s a - 1)\<rparr> in
     if rc_strong s1 a = 0 then s1\<lparr>rc_rest := drop_value a (rc_rest s1)\<rparr> else s1)"

definition weak_upgrade :: "rc \<Rightarrow> 'w rc_world \<Rightarrow> rc option \<times> 'w rc_world" where
  "weak_upgrade a s = (if rc_strong s a = 0 then (None, s) else (Some a, s\<lparr>rc_strong := (rc_strong s)(a := rc_strong s a + 1)\<rparr>))"

definition weak_call :: "'w rc_fn \<Rightarrow> 'w rc_fn" where
  "weak_call f this s = (case weak_upgrade this s of (Some this, s1) \<Rightarrow> f this s1 | (None, s1) \<Rightarrow> s1)"

subsection \<open>Actions\<close>

datatype 'w raw_action =
    ActionBox "'w rc_world \<Rightarrow> 'w rc_world"
  | ActionRc rc "'w rc_fn"
  | ActionWeak rc "'w rc_fn"

definition action_new :: "('w rc_world \<Rightarrow> 'w rc_world) \<Rightarrow> 'w raw_action" where
  "action_new f = ActionBox f"

definition action_from_rc_fn :: "rc \<Rightarrow> 'w rc_fn \<Rightarrow> 'w raw_action" where
  "action_from_rc_fn this f = ActionRc this (\<lambda>this s. f this s)"

definition action_from_weak_fn :: "rc \<Rightarrow> 'w rc_fn \<Rightarrow> 'w raw_action" where
  "action_from_weak_fn this f = ActionWeak this (\<lambda>this s. weak_call f this s)"

definition raw_action_call :: "'w raw_action \<Rightarrow> 'w rc_world \<Rightarrow> 'w rc_world" where
  "raw_action_call a s = (case a of ActionBox f \<Rightarrow> f s | ActionRc this f \<Rightarrow> f this s | ActionWeak this f \<Rightarrow> f this s)"

subsection \<open>Reactions\<close>

datatype 'w raw_reaction =
    ReactionBox "'w rc_world \<Rightarrow> 'w rc_world"
  | ReactionRc rc "'w rc_fn"
  | ReactionWeak rc "'w rc_fn"

definition reaction_new :: "('w rc_world \<Rightarrow> 'w rc_world) \<Rightarrow> 'w raw_reaction" where
  "reaction_new f = ReactionBox f"

definition reaction_from_rc_fn :: "rc \<Rightarrow> 'w rc_fn \<Rightarrow> 'w raw_reaction" where
  "reaction_from_rc_fn this f = ReactionRc this (\<lambda>this s. f this s)"

definition reaction_from_weak_fn :: "rc \<Rightarrow> 'w rc_fn \<Rightarrow> 'w raw_reaction" where
  "reaction_from_weak_fn this f = ReactionWeak this (\<lambda>this s. weak_call f this s)"

definition raw_reaction_run :: "'w raw_reaction \<Rightarrow> 'w rc_world \<Rightarrow> 'w rc_world" where
  "raw_reaction_run r s = (case r of ReactionBox f \<Rightarrow> f s | ReactionRc this f \<Rightarrow> f this s | ReactionWeak this f \<Rightarrow> f this s)"

subsection \<open>The common contract\<close>

text \<open>
  Where a closure comes from, with its effect on the rest of the world; the functions of an \<open>Rc\<close> drop it after their effect (\<open>on_rc\<close>). \<open>owned\<close> are the references that the closure takes over when it is
  made and gives back when it is called. A weak closure has its effect only while the value lives.
\<close>

definition on_rc :: "(rc \<Rightarrow> 'w \<Rightarrow> 'w) \<Rightarrow> (rc \<Rightarrow> 'w \<Rightarrow> 'w) \<Rightarrow> 'w rc_fn" where
  "on_rc drop_value effect a s = rc_drop drop_value a (s\<lparr>rc_rest := effect a (rc_rest s)\<rparr>)"

datatype 'w callback_source = FromFn "'w \<Rightarrow> 'w" | FromRcFn rc "rc \<Rightarrow> 'w \<Rightarrow> 'w" | FromWeakFn rc "rc \<Rightarrow> 'w \<Rightarrow> 'w"

primrec owned :: "'w callback_source \<Rightarrow> rc \<Rightarrow> nat" where
  "owned (FromFn f) = (\<lambda>_. 0)"
| "owned (FromRcFn a f) = (\<lambda>_. 0)(a := 1)"
| "owned (FromWeakFn a f) = (\<lambda>_. 0)"

primrec call_effect :: "(rc \<Rightarrow> 'w \<Rightarrow> 'w) \<Rightarrow> 'w callback_source \<Rightarrow> 'w rc_world \<Rightarrow> 'w" where
  "call_effect drop_value (FromFn f) s = f (rc_rest s)"
| "call_effect drop_value (FromRcFn a f) s = (if rc_strong s a = 1 then drop_value a (f a (rc_rest s)) else f a (rc_rest s))"
| "call_effect drop_value (FromWeakFn a f) s = (if rc_strong s a = 0 then rc_rest s else f a (rc_rest s))"

primrec make_callback ::
    "(('w rc_world \<Rightarrow> 'w rc_world) \<Rightarrow> 'c) \<Rightarrow> (rc \<Rightarrow> 'w rc_fn \<Rightarrow> 'c) \<Rightarrow> (rc \<Rightarrow> 'w rc_fn \<Rightarrow> 'c) \<Rightarrow> (rc \<Rightarrow> 'w \<Rightarrow> 'w) \<Rightarrow> 'w callback_source \<Rightarrow> 'c" where
  "make_callback from_fn from_rc_fn from_weak_fn drop_value (FromFn f) = from_fn (\<lambda>s. s\<lparr>rc_rest := f (rc_rest s)\<rparr>)"
| "make_callback from_fn from_rc_fn from_weak_fn drop_value (FromRcFn a f) = from_rc_fn a (on_rc drop_value f)"
| "make_callback from_fn from_rc_fn from_weak_fn drop_value (FromWeakFn a f) = from_weak_fn a (on_rc drop_value f)"

locale rc_callback =
  fixes from_fn :: "('w rc_world \<Rightarrow> 'w rc_world) \<Rightarrow> 'c"
    and from_rc_fn :: "rc \<Rightarrow> 'w rc_fn \<Rightarrow> 'c"
    and from_weak_fn :: "rc \<Rightarrow> 'w rc_fn \<Rightarrow> 'c"
    and run :: "'c \<Rightarrow> 'w rc_world \<Rightarrow> 'w rc_world"
  assumes run_fn: "run (from_fn f) s = f s"
    and run_rc: "run (from_rc_fn a g) s = g a s"
    and run_weak: "run (from_weak_fn a g) s = weak_call g a s"
begin

lemma call_balanced:
  assumes "\<And>a. owned src a \<le> rc_strong s a"
  shows "run (make_callback from_fn from_rc_fn from_weak_fn drop_value src) s = \<lparr>rc_strong = \<lambda>a. rc_strong s a - owned src a, rc_rest = call_effect drop_value src s\<rparr>"
proof (cases src)
  case (FromFn f)
  then show ?thesis by (simp add: run_fn)
next
  case (FromRcFn a f)
  then have "rc_strong s a \<noteq> 0" using assms [of a] by simp
  then show ?thesis using FromRcFn by (cases s) (auto simp: run_rc on_rc_def rc_drop_def Let_def fun_eq_iff)
next
  case (FromWeakFn a f)
  then show ?thesis by (cases s) (auto simp: run_weak weak_call_def weak_upgrade_def on_rc_def rc_drop_def Let_def)
qed

end

interpretation action_cb: rc_callback action_new action_from_rc_fn action_from_weak_fn raw_action_call
  by unfold_locales (simp_all add: action_new_def action_from_rc_fn_def action_from_weak_fn_def raw_action_call_def)

interpretation reaction_cb: rc_callback reaction_new reaction_from_rc_fn reaction_from_weak_fn raw_reaction_run
  by unfold_locales (simp_all add: reaction_new_def reaction_from_rc_fn_def reaction_from_weak_fn_def raw_reaction_run_def)

end
