(* ===== verification/Subscription.thy ===== *)
theory Subscription
  imports Callback
begin

section \<open>Subscriptions (subscription.rs)\<close>

text \<open>
  A \<open>Subscription\<close> is what is to happen once, when it is dropped. The values behind \<open>Rc\<close>s, and closures over them, are those of Callback.
\<close>

datatype 'w raw_subscription =
    SubEmpty
  | SubFn "'w rc_world \<Rightarrow> 'w rc_world"
  | SubRc rc
  | SubRcFn rc "'w rc_fn"
  | SubWeakFn rc "'w rc_fn"

definition sub_empty :: "'w raw_subscription" where
  "sub_empty = SubEmpty"

definition sub_from_fn :: "('w rc_world \<Rightarrow> 'w rc_world) \<Rightarrow> 'w raw_subscription" where
  "sub_from_fn f = SubFn f"

definition sub_from_rc :: "rc \<Rightarrow> 'w raw_subscription" where
  "sub_from_rc a = SubRc a"

definition sub_from_rc_fn :: "rc \<Rightarrow> 'w rc_fn \<Rightarrow> 'w raw_subscription" where
  "sub_from_rc_fn this unsubscribe = SubRcFn this (\<lambda>this. unsubscribe this)"

definition sub_from_weak_fn :: "rc \<Rightarrow> 'w rc_fn \<Rightarrow> 'w raw_subscription" where
  "sub_from_weak_fn this unsubscribe = SubWeakFn this (\<lambda>this s. weak_call unsubscribe this s)"

text \<open>The drop takes the content out of the subscription, which is left empty, and acts on it.\<close>

definition sub_drop ::
    "(rc \<Rightarrow> 'w \<Rightarrow> 'w) \<Rightarrow> 'w raw_subscription \<times> 'w rc_world \<Rightarrow> 'w raw_subscription \<times> 'w rc_world" where
  "sub_drop drop_value = (\<lambda>(sub, s). (SubEmpty, case sub of
     SubEmpty \<Rightarrow> s
   | SubFn f \<Rightarrow> f s
   | SubRc this \<Rightarrow> rc_drop drop_value this s
   | SubRcFn this unsubscribe \<Rightarrow> unsubscribe this s
   | SubWeakFn this unsubscribe \<Rightarrow> unsubscribe this s))"

subsection \<open>References are given back\<close>

text \<open>
  The drop of a subscription gives back exactly the references it took over, has the effect of its closure once, and drops the value if its reference was the last one; a second drop does nothing. So
  a weak subscription neither keeps its value alive nor acts on a dropped one.
\<close>

interpretation sub_cb: rc_callback sub_from_fn sub_from_rc_fn sub_from_weak_fn "\<lambda>sub s. snd (sub_drop drop_value (sub, s))"
  by unfold_locales (simp_all add: sub_from_fn_def sub_from_rc_fn_def sub_from_weak_fn_def sub_drop_def)

lemma sub_drop_once:
  assumes "\<And>a. owned src a \<le> rc_strong s a"
  shows "sub_drop drop_value (make_callback sub_from_fn sub_from_rc_fn sub_from_weak_fn drop_value src, s)
       = (SubEmpty, \<lparr>rc_strong = \<lambda>a. rc_strong s a - owned src a, rc_rest = call_effect drop_value src s\<rparr>)"
    and "sub_drop drop_value (sub_from_rc a, s) = (SubEmpty, rc_drop drop_value a s)"
    and "sub_drop drop_value (sub_empty, s) = (SubEmpty, s)"
  using sub_cb.call_balanced [OF assms, of drop_value] by (simp_all add: sub_drop_def sub_from_rc_def sub_empty_def)

end
