(* ===== verification/Example_Graph.thy ===== *)
theory Example_Graph
  imports Graph_Lifecycle
begin

section \<open>A concrete graph\<close>

text \<open>
  A small graph on which the witnesses evaluate: two states with the values 1 and 2, a signal that
  adds them, and an effect that reads the signal. It is built by the program's own operations, in a
  world or in a runtime that has no node yet.
\<close>

definition ex_G :: "nid \<Rightarrow> (int, int) prog" where
  "ex_G k = (if k = 2 then Read 0 (\<lambda>a. Read 1 (\<lambda>b. Return (a + b)))
     else if k = 3 then Read 2 Return else Return 0)"

type_synonym 'z ex_scheme = "(sink_binding option list, int, 'z) world_scheme"

definition ex_start :: "'z ex_scheme \<Rightarrow> bool" where
  "ex_start w \<longleftrightarrow> heap w = (\<lambda>_. None) \<and> next_id w = 0 \<and> g_config w = Some config_default \<and> g_reactions w = bk_new"

definition ex_w1 :: "'z ex_scheme \<Rightarrow> 'z ex_scheme" where "ex_w1 w0 = snd (state_new vec_slab 1 w0)"
definition ex_w2 :: "'z ex_scheme \<Rightarrow> 'z ex_scheme" where "ex_w2 w0 = snd (state_new vec_slab 2 (ex_w1 w0))"
definition ex_w3 :: "'z ex_scheme \<Rightarrow> 'z ex_scheme" where "ex_w3 w0 = snd (signal_new vec_slab (ex_G 2) (ex_w2 w0))"

definition ex_w :: "'z ex_scheme \<Rightarrow> 'z ex_scheme" where
  "ex_w w0 = (case effect_new None (\<lambda>_. prog_map Some (ex_G 3)) 0 (ex_w3 w0) of Inr (_, w) \<Rightarrow> w | Inl _ \<Rightarrow> ex_w3 w0)"

lemma ex_w1:
  assumes "ex_start w0"
  shows "sys_inv vec_slab ex_G (ex_w1 w0)" "next_id (ex_w1 w0) = 1" "code (ex_w1 w0) = [0 \<mapsto> CState]" "cval (ex_w1 w0) = [0 \<mapsto> 1]"
    "g_config (ex_w1 w0) = Some config_default" "state_new vec_slab 1 w0 = (0, ex_w1 w0)"
proof -
  note a = assms [unfolded ex_start_def]
  have i: "sys_inv vec_slab ex_G w0" by (rule sys_inv_empty) (simp_all add: a bk_new_inv)
  show n: "state_new vec_slab 1 w0 = (0, ex_w1 w0)" by (simp add: ex_w1_def state_new_def a)
  have c0: "code w0 = Map.empty" "cval w0 = Map.empty" by (simp_all add: fun_eq_iff view_defs a)
  note r = state_new_ok [OF vec_slab_laws i n]
  show "sys_inv vec_slab ex_G (ex_w1 w0)" "next_id (ex_w1 w0) = 1" "code (ex_w1 w0) = [0 \<mapsto> CState]" "cval (ex_w1 w0) = [0 \<mapsto> 1]"
    "g_config (ex_w1 w0) = Some config_default"
    using r c0 a by simp_all
qed

lemma ex_w2:
  assumes "ex_start w0"
  shows "sys_inv vec_slab ex_G (ex_w2 w0)" "next_id (ex_w2 w0) = 2" "code (ex_w2 w0) = [0 \<mapsto> CState, 1 \<mapsto> CState]"
    "cval (ex_w2 w0) = [0 \<mapsto> 1, 1 \<mapsto> 2]" "g_config (ex_w2 w0) = Some config_default"
    "state_new vec_slab 2 (ex_w1 w0) = (1, ex_w2 w0)"
proof -
  note w1 = ex_w1 [OF assms]
  show n: "state_new vec_slab 2 (ex_w1 w0) = (1, ex_w2 w0)" using w1(2) by (simp add: ex_w2_def state_new_def)
  note r = state_new_ok [OF vec_slab_laws w1(1) n]
  show "sys_inv vec_slab ex_G (ex_w2 w0)" "next_id (ex_w2 w0) = 2" "code (ex_w2 w0) = [0 \<mapsto> CState, 1 \<mapsto> CState]"
    "cval (ex_w2 w0) = [0 \<mapsto> 1, 1 \<mapsto> 2]" "g_config (ex_w2 w0) = Some config_default"
    using r w1 by simp_all
qed

lemma ex_w3:
  assumes "ex_start w0"
  shows "sys_inv vec_slab ex_G (ex_w3 w0)" "next_id (ex_w3 w0) = 3"
    "code (ex_w3 w0) = [0 \<mapsto> CState, 1 \<mapsto> CState, 2 \<mapsto> CScan (get_fn_get (ex_G 2)) discard_take]"
    "g_config (ex_w3 w0) = Some config_default" "signal_new vec_slab (ex_G 2) (ex_w2 w0) = (2, ex_w3 w0)"
    "closed_prog (ex_w2 w0) (ex_G 2)"
proof -
  note w2 = ex_w2 [OF assms]
  show m: "signal_new vec_slab (ex_G 2) (ex_w2 w0) = (2, ex_w3 w0)"
    using w2(2) by (simp add: ex_w3_def signal_new_def scan_new_def Let_def)
  then have n: "scan_new vec_slab None (get_fn_get (ex_G 2)) discard_take (ex_w2 w0) = (2, ex_w3 w0)" by (simp add: signal_new_def)
  show c: "closed_prog (ex_w2 w0) (ex_G 2)" by (simp add: closed_prog_def ex_G_def is_source_code w2)
  note r = scan_new_ok [OF vec_slab_laws w2(1) n _ c]
  show "sys_inv vec_slab ex_G (ex_w3 w0)" "next_id (ex_w3 w0) = 3"
    "code (ex_w3 w0) = [0 \<mapsto> CState, 1 \<mapsto> CState, 2 \<mapsto> CScan (get_fn_get (ex_G 2)) discard_take]"
    "g_config (ex_w3 w0) = Some config_default"
    using r w2 by (simp_all add: fits_scan_def)
qed

lemma ex_w:
  assumes "ex_start w0"
  shows "sys_inv vec_slab ex_G (ex_w w0)" "next_id (ex_w w0) = 4"
    "code (ex_w w0) = [0 \<mapsto> CState, 1 \<mapsto> CState, 2 \<mapsto> CScan (get_fn_get (ex_G 2)) discard_take,
       3 \<mapsto> CEffect (\<lambda>_. prog_map Some (ex_G 3)) 0]" "g_config (ex_w w0) = Some config_default"
    "cval (ex_w w0) = (cval (ex_w3 w0))(3 := None)"
    "effect_new None (\<lambda>_. prog_map Some (ex_G 3)) 0 (ex_w3 w0) = Inr (3, ex_w w0)" "closed_prog (ex_w3 w0) (ex_G 3)"
proof -
  note w3 = ex_w3 [OF assms]
  have p: "closed_prog (ex_w3 w0) (ex_G (next_id (ex_w3 w0)))" by (simp add: closed_prog_def ex_G_def is_source_code w3)
  then show "closed_prog (ex_w3 w0) (ex_G 3)" by (simp add: w3)
  have v: "g_config (ex_w3 w0) = Some c \<Longrightarrow> valid_contains (reaction_phases c) 0" for c
    by (auto simp: w3 config_default_def valid_contains_def)
  obtain w' where w': "effect_new None (\<lambda>_. prog_map Some (ex_G (next_id (ex_w3 w0)))) 0 (ex_w3 w0) = Inr (next_id (ex_w3 w0), w')"
    "sys_inv vec_slab ex_G w'" "code w' = (code (ex_w3 w0))(next_id (ex_w3 w0) := Some (CEffect (\<lambda>_. prog_map Some (ex_G (next_id (ex_w3 w0)))) 0))"
    "g_config w' = g_config (ex_w3 w0)" "next_id w' = Suc (next_id (ex_w3 w0))"
    "cval w' = (cval (ex_w3 w0))(next_id (ex_w3 w0) := None)"
    by (rule effect_new_ok [OF w3(1) refl p v, of None]) auto
  then have e: "ex_w w0 = w'" using w3(2) by (simp add: ex_w_def)
  then show "effect_new None (\<lambda>_. prog_map Some (ex_G 3)) 0 (ex_w3 w0) = Inr (3, ex_w w0)" using w'(1) w3(2) by simp
  show "sys_inv vec_slab ex_G (ex_w w0)" "next_id (ex_w w0) = 4"
    "code (ex_w w0) = [0 \<mapsto> CState, 1 \<mapsto> CState, 2 \<mapsto> CScan (get_fn_get (ex_G 2)) discard_take,
     3 \<mapsto> CEffect (\<lambda>_. prog_map Some (ex_G 3)) 0]" "g_config (ex_w w0) = Some config_default" "cval (ex_w w0) = (cval (ex_w3 w0))(3 := None)"
    using w' w3 e by simp_all
qed

lemma ex_cval:
  assumes "ex_start w0"
  shows "cval (ex_w w0) 0 = Some 1" "cval (ex_w w0) 1 = Some 2"
proof -
  have "cval (ex_w3 w0) k = cval (ex_w2 w0) k" if "k < 2" for k
    using that ex_w2(2) [OF assms] by (simp add: ex_w3_def signal_new_def scan_new_def Let_def) (simp add: put_node_def view_defs)
  then show "cval (ex_w w0) 0 = Some 1" "cval (ex_w w0) 1 = Some 2" by (simp_all add: ex_w(5) [OF assms] ex_w2(4) [OF assms])
qed

lemma ex_sem:
  assumes "ex_start w0"
  shows "sem ex_G (ex_w w0) 2 = Some 3" "sem ex_G (ex_w w0) 3 = Some 3"
  using ex_cval [OF assms] ex_cval(2) [OF assms, unfolded One_nat_def]
  by (simp_all add: sem_def ex_w(3) [OF assms] ex_G_def numeral_2_eq_2 numeral_3_eq_3)

text \<open>The graph in a world of its own.\<close>

definition ex_world :: "(sink_binding option list, int) world" where
  "ex_world = ex_w (world_init (Some config_default))"

lemma ex_start_world: "ex_start (world_init (Some config_default) :: (sink_binding option list, int) world)"
  by (simp add: ex_start_def world_init_def)

lemmas ex_world_facts = ex_w [OF ex_start_world, folded ex_world_def] ex_sem [OF ex_start_world, folded ex_world_def]
  ex_cval [OF ex_start_world, folded ex_world_def]

end
