(* ===== verification/Runtime_Reach.thy ===== *)
theory Runtime_Reach
  imports Runtime_Handle
begin

section \<open>The states a program can reach\<close>

text \<open>
  \<open>reach L G w\<close> says that a program can bring a thread into the state \<open>w\<close>: it creates a runtime, then
  creates states, signals and effects, runs closures, reads, dispatches, drops nodes, and its
  wakers fire, in any order. \<open>G\<close> names the closure of each node. Rule induction shows \<open>rt_inv\<close> in
  every reachable state, so the theorems about \<open>rt_inv\<close> are theorems about every run.
\<close>

subsection \<open>A new runtime\<close>

lemma globals_new_fields:
  "heap (globals_new L) = (\<lambda>_. None)" "g_reactions (globals_new L) = bk_new" "g_actions (globals_new L) = bk_new"
  "g_unbinds (globals_new L) = []" "g_notifys (globals_new L) = []" "async_heap (globals_new L) = (\<lambda>_. None)"
  "wk_reactions (globals_new L) = slab_new (wake_slab L)" "g_config (globals_new L) = None" "g_runtime (globals_new L) = False"
  "rq_wakes (globals_new L) = []" "next_id (globals_new L) = 0"
  by (simp_all add: globals_new_def world.defs world_init_def)

lemma prepare_globals_new: "prepare_runtime c (globals_new L) = Inr ()"
  by (simp add: prepare_runtime_iff globals_new_fields)

lemma new_runtime_ok:
  assumes L: "slabs_laws L"
  shows "\<exists>w. new_with_config L c (globals_new L) = Inr (\<lparr>rt_owned = True, rt_raw = True\<rparr>, w) \<and> rt_inv L G w \<and> async_calm L w
    \<and> g_config w = Some c \<and> heap w = (\<lambda>_. None)"
proof -
  let ?w = "(globals_new L)\<lparr>discards := [], async_actions := slab_new (async_slab L), g_config := Some c\<rparr>"
  have "rt_inv L G ?w"
    by (rule rt_invI)
      (simp_all add: sys_inv_empty globals_new_fields bk_new_inv discards_ok_def reactions_ok_def async_ok_def wake_ok_def
        slab_get_new [OF slabs_lawsD(2) [OF L]])
  moreover have "async_calm L ?w" by (simp add: async_calm_def globals_new_fields slab_get_new [OF slabs_lawsD(3) [OF L]])
  ultimately show ?thesis by (simp add: prepare_globals_new new_with_config_def activate_runtime_def Let_def globals_new_fields)
qed

subsection \<open>Creating nodes\<close>

text \<open>
  The identity of a new node is its address. As long as a weak reference to a dropped node is
  around, its allocation is, so no pending weak reference names a new node.
\<close>

definition fresh_id :: "('m, 'v, 's, 't) runtime \<Rightarrow> ('s, wake_reaction) slab_ops \<Rightarrow> nid \<Rightarrow> bool" where
  "fresh_id w K n \<longleftrightarrow> (\<forall>i. EffectCall n \<notin> set (bk_queue (g_reactions w) i)) \<and> n \<notin> fst ` set (g_notifys w)
     \<and> (\<forall>key slot. slab_get K (wk_reactions w) key \<noteq> Some (WakeNotify n slot))"

lemma source_code_mono: "source_code C k \<Longrightarrow> C n = None \<Longrightarrow> source_code (C(n \<mapsto> c)) k"
  by (auto simp: source_code_def)

lemma run_reads_mono: "reads_ok P p \<Longrightarrow> (\<And>n. P n \<Longrightarrow> Q n) \<Longrightarrow> reads_ok Q p"
  by (induction p) auto

lemma act_ok_mono: "act_ok C cfg a s \<Longrightarrow> C n = None \<Longrightarrow> act_ok (C(n \<mapsto> c)) cfg a s"
  by (induction a arbitrary: s) (auto intro: source_code_mono run_reads_mono)

lemma action_ok_grow:
  assumes "action_ok C cfg H a" and "C n = None"
  shows "action_ok (C(n \<mapsto> c)) cfg H a"
proof (cases a)
  case (ActBox f)
  then show ?thesis using assms act_ok_mono by (fastforce simp: action_ok_def)
next
  case (ActStartAsync p f)
  then show ?thesis using assms act_ok_mono by (fastforce simp: action_ok_def)
qed (use assms in \<open>simp add: action_ok_def\<close>)

lemma reaction_ok_grow:
  assumes "reaction_ok C r" and "C n = None" and "r \<noteq> EffectCall n"
  shows "reaction_ok (C(n \<mapsto> c)) r"
proof (cases r)
  case (UserReaction p)
  then show ?thesis using assms(1) run_reads_mono [of "source_code C" p "source_code (C(n \<mapsto> c))"] source_code_mono [where C = C and n = n] assms(2) by (auto simp: reaction_ok_def)
qed (use assms in \<open>auto simp: reaction_ok_def\<close>)

text \<open>The fields of the runtime that a creation leaves alone.\<close>

definition grown :: "('m, 's, 't) slabs \<Rightarrow> nid \<Rightarrow> 'v code \<Rightarrow> ('m, 'v, 's, 't) runtime \<Rightarrow> ('m, 'v, 's, 't) runtime \<Rightarrow> bool" where
  "grown L n c w w' \<longleftrightarrow> rt_same w w' \<and> code w' = (code w)(n \<mapsto> c) \<and> g_unbinds w' = g_unbinds w \<and> g_notifys w' = g_notifys w
     \<and> discards w' = discards w \<and> (\<forall>k key. k \<noteq> n \<longrightarrow> entry (sink_slab L) w' k key = entry (sink_slab L) w k key)"

lemma rt_inv_grown:
  assumes inv: "rt_inv L G w" and n: "n = next_id w" and fresh: "fresh_id w (wake_slab L) n" and g: "grown L n c w w'"
    and sys: "sys_inv (sink_slab L) G w'"
    and r: "\<And>i r. r \<in> set (bk_queue (g_reactions w') i) \<Longrightarrow> r \<in> set (bk_queue (g_reactions w) i) \<or> (\<exists>f p. c = CEffect f p) \<and> r = EffectCall n"
  shows "rt_inv L G w'"
proof -
  note gi = sys_graph [OF rt_sys [OF inv]]
  have old: "code w n = None" using inv_next [OF gi, of n] n by (cases "code w n") auto
  have c: "code w' = (code w)(n \<mapsto> c)" and same: "rt_same w w'" and f: "g_unbinds w' = g_unbinds w" "g_notifys w' = g_notifys w" "discards w' = discards w"
    using g by (simp_all add: grown_def)
  note rs = same [unfolded rt_same_def]
  show ?thesis
  proof (rule rt_invI [OF sys])
    have src: "is_source w k \<Longrightarrow> is_source w' k \<and> k \<noteq> n" for k using old by (auto simp: is_source_code c)
    have ent: "entry (sink_slab L) w' k key = entry (sink_slab L) w k key" if "k \<noteq> n" for k key using g that by (simp add: grown_def)
    have snk: "code w' (sb_sink e) = None" if "entry (sink_slab L) w k key = Some e" "code w (sb_sink e) = None" for k key e
      using inv_entry [OF gi that(1)] that(2) n by (simp add: c)
    show "pending_ok (sink_slab L) w'"
      using rt_pending [OF inv] src ent snk unfolding pending_ok_def f by metis
    show "discards_ok (code w') w'"
      using rt_discards [OF inv] old unfolding discards_ok_def f by (auto simp: c) (metis option.distinct(1))
    show "reactions_ok (code w') w'"
      unfolding reactions_ok_def
    proof (intro conjI refl allI ballI)
      fix i r assume i: "r \<in> set (bk_queue (g_reactions w') i)"
      from r [OF this] show "reaction_ok (code w') r"
      proof
        assume "r \<in> set (bk_queue (g_reactions w) i)"
        then have "reaction_ok (code w) r" "r \<noteq> EffectCall n"
          using rt_reactions [OF inv] fresh by (auto simp: reactions_ok_def fresh_id_def)
        then show ?thesis unfolding c using reaction_ok_grow old by blast
      next
        assume "(\<exists>f p. c = CEffect f p) \<and> r = EffectCall n"
        then show ?thesis by (auto simp: reaction_ok_def c)
      qed
    qed
    fix m slot assume "(m, slot) \<in> set (g_notifys w')"
    then have "(m, slot) \<in> set (g_notifys w)" by (simp add: f)
    moreover have "m \<noteq> n" using fresh calculation by (force simp: fresh_id_def)
    ultimately show "code w' m = None \<or> code w' m = Some CState" using rt_notifys [OF inv, of m slot] by (simp add: c)
  next
    show "bk_inv (g_actions w')" using rt_bk [OF inv] rs by simp
    show "\<And>i a. a \<in> set (bk_queue (g_actions w') i) \<Longrightarrow> action_ok (code w') (g_config w') (async_heap w') a"
      using rt_actions [OF inv] rs action_ok_grow [where C = "code w" and n = n] old by (simp add: c)
    show "async_ok (code w') (g_config w') (async_heap w') (next_async w')"
      using rt_async [OF inv] rs act_ok_mono [of "code w" _ _ _ n] old unfolding async_ok_def by (fastforce simp: c)
    show "wake_ok L (code w') (async_heap w') (wk_reactions w')"
      unfolding wake_ok_def
    proof (intro allI impI)
      fix key r assume "slab_get (wake_slab L) (wk_reactions w') key = Some r"
      then have k: "slab_get (wake_slab L) (wk_reactions w) key = Some r" using rs by simp
      then have "case r of WakeNotify m slot \<Rightarrow> code w m = None \<or> code w m = Some CState | WakeAsync a \<Rightarrow> async_heap w a \<noteq> None"
        using rt_wake [OF inv] unfolding wake_ok_def by blast
      moreover have "r \<noteq> WakeNotify n slot" for slot using fresh k by (auto simp: fresh_id_def)
      ultimately show "case r of WakeNotify m slot \<Rightarrow> code w' m = None \<or> code w' m = Some CState | WakeAsync a \<Rightarrow> async_heap w' a \<noteq> None"
        using rs by (cases r) (auto simp: c)
    qed
  qed
qed

lemma put_node_runtime:
  "rt_same w (put_node n nd (w\<lparr>next_id := m\<rparr>))" "g_reactions (put_node n nd (w\<lparr>next_id := m\<rparr>)) = g_reactions w"
  "g_unbinds (put_node n nd (w\<lparr>next_id := m\<rparr>)) = g_unbinds w" "g_notifys (put_node n nd (w\<lparr>next_id := m\<rparr>)) = g_notifys w"
  "discards (put_node n nd (w\<lparr>next_id := m\<rparr>)) = discards w" "g_runtime (put_node n nd (w\<lparr>next_id := m\<rparr>)) = g_runtime w"
  by (simp_all add: put_node_def rt_same_def)

lemma put_node_entry: "k \<noteq> n \<Longrightarrow> entry ops (put_node n nd (w\<lparr>next_id := m\<rparr>)) k key = entry ops w k key"
  by (simp add: entry_def sinks_of_def put_node_def)

lemma rt_state_new:
  assumes L: "slabs_laws L" and inv: "rt_inv L G w" and fresh: "fresh_id w (wake_slab L) (next_id w)"
    and new: "state_new (sink_slab L) v w = (n, w')"
  shows "rt_inv L G w'" and "rt_same w w'"
proof -
  note ok = state_new_ok [OF slabs_lawsD(1) [OF L] rt_sys [OF inv] new]
  have w': "w' = put_node n (StateNode \<lparr>st_sinks = new_cell (slab_new (sink_slab L)), st_value = v\<rparr>) (w\<lparr>next_id := Suc n\<rparr>)"
    using new by (auto simp: state_new_def)
  show "rt_same w w'" unfolding w' by (rule put_node_runtime(1))
  have "grown L n CState w w'" using ok(3) by (simp add: grown_def w' put_node_runtime put_node_entry)
  from rt_inv_grown [OF inv ok(2) fresh [folded ok(2)] this ok(1)] show "rt_inv L G w'" by (simp add: w' put_node_runtime)
qed

lemma rt_scan_new:
  assumes L: "slabs_laws L" and inv: "rt_inv L G w" and fresh: "fresh_id w (wake_slab L) (next_id w)"
    and new: "scan_new (sink_slab L) None s d w = (n, w')" and fits: "fits_scan (G n) s" and p: "closed_prog w (G n)"
  shows "rt_inv L G w'" and "rt_same w w'"
proof -
  note ok = scan_new_ok [OF slabs_lawsD(1) [OF L] rt_sys [OF inv] new fits p]
  obtain nd where w': "w' = put_node n nd (w\<lparr>next_id := Suc n\<rparr>)" using new by (auto simp: scan_new_def Let_def)
  show "rt_same w w'" unfolding w' by (rule put_node_runtime(1))
  have "grown L n (CScan s d) w w'" using ok(3) by (simp add: grown_def w' put_node_runtime put_node_entry)
  from rt_inv_grown [OF inv ok(2) fresh [folded ok(2)] this ok(1)] show "rt_inv L G w'" by (simp add: w' put_node_runtime)
qed

lemma fits_signal: "fits_scan g (get_fn_get g)" "fits_scan g (get_fn_get_dedup g)"
  by (simp_all add: fits_scan_def)

lemma rt_effect_new:
  assumes L: "slabs_laws L" and inv: "rt_inv L G w" and fresh: "fresh_id w (wake_slab L) (next_id w)"
    and f: "f = (\<lambda>_. prog_map Some (G (next_id w)))" and p: "closed_prog w (G (next_id w))" and ph: "reaction_allowed (g_config w) p"
  shows "\<exists>w'. effect_new st f p w = Inr (next_id w, w') \<and> rt_inv L G w' \<and> rt_same w w'"
proof -
  let ?n = "next_id w"
  let ?nd = "EffectNode \<lparr>ef_data = new_cell \<lparr>ed_state = st, ed_f = f, ed_sb = binder_new ?n 0\<rparr>, ef_phase = p\<rparr>"
  obtain w' where w': "effect_new st f p w = Inr (?n, w')" "sys_inv (sink_slab L) G w'" "code w' = (code w)(?n := Some (CEffect f p))"
    by (rule effect_new_ok [OF rt_sys [OF inv] f p]) (use ph in \<open>auto simp: reaction_allowed_def\<close>)
  define w1 where "w1 = put_node ?n ?nd (w\<lparr>next_id := Suc ?n\<rparr>)"
  have "g_config w1 = g_config w" by (simp add: w1_def put_node_def)
  then obtain w2 where w2: "schedule_reaction p (EffectCall ?n) w1 = Inr w2" "ntf_rest w1 w2" "heap w2 = heap w1"
    "bk_queue (g_reactions w2) = (bk_queue (g_reactions w1))(sint p := bk_queue (g_reactions w1) (sint p) @ [EffectCall ?n])"
    using schedule_reaction_ok [of w1 p "EffectCall ?n"] ph by (metis reaction_allowed_def)
  have "w' = w2" using w'(1) w2(1) by (simp add: effect_new_def Let_def w1_def)
  note f2 = ntf_rest_fields [OF w2(2)] and rt2 = ntf_rest_rt [OF w2(2)]
  have same: "rt_same w w'" unfolding \<open>w' = w2\<close> by (rule rt_same_trans [OF _ rt2]) (simp add: w1_def put_node_runtime)
  have "entry (sink_slab L) w' k key = entry (sink_slab L) w k key" if "k \<noteq> ?n" for k key
    using that by (simp add: \<open>w' = w2\<close> view_heap_cong [OF w2(3)] w1_def put_node_entry)
  then have g: "grown L ?n (CEffect f p) w w'"
    using same w'(3) f2 by (simp add: grown_def \<open>w' = w2\<close>) (simp add: w1_def put_node_runtime)
  have "rt_inv L G w'"
  proof (rule rt_inv_grown [OF inv refl fresh g w'(2)])
    fix i r assume "r \<in> set (bk_queue (g_reactions w') i)"
    then show "r \<in> set (bk_queue (g_reactions w) i) \<or> (\<exists>f' p'. CEffect f p = CEffect f' p') \<and> r = EffectCall ?n"
      by (auto simp: \<open>w' = w2\<close> w2(4) w1_def put_node_runtime split: if_splits)
  qed
  then show ?thesis using w'(1) same by blast
qed

subsection \<open>Dropping nodes\<close>

text \<open>A node is dropped when nothing refers to it: no other node, and no pending or suspended closure.\<close>

definition detached :: "('m, 's, 't) slabs \<Rightarrow> (nid \<Rightarrow> ('v, 'v) prog) \<Rightarrow> ('m, 'v, 's, 't) runtime \<Rightarrow> nid \<Rightarrow> bool" where
  "detached L G w n \<longleftrightarrow> unreferenced (sink_slab L) G w n
     \<and> (\<forall>i. \<forall>r \<in> set (bk_queue (g_reactions w) i). reaction_ok ((code w)(n := None)) r)
     \<and> (\<forall>i. \<forall>a \<in> set (bk_queue (g_actions w) i). action_ok ((code w)(n := None)) (g_config w) (async_heap w) a)
     \<and> async_ok ((code w)(n := None)) (g_config w) (async_heap w) (next_async w)"

lemma drop_runtime: "rt_same w (drop_node n w)"
  by (simp add: drop_node_def drop_sources_def rt_same_def split: option.split)

lemma rt_drop:
  assumes inv: "rt_inv L G w" and d: "detached L G w n"
  shows "rt_inv L G (drop_node n w)"
proof -
  note v = drop_views [OF refl, of n w] and rs = drop_runtime [of w n, unfolded rt_same_def]
  have u: "unreferenced (sink_slab L) G w n" using d by (simp add: detached_def)
  show ?thesis
  proof (rule rt_invI [OF sys_inv_drop [OF rt_sys [OF inv] u] pending_ok_drop [OF rt_sys [OF inv] rt_pending [OF inv] u]])
    show "discards_ok (code (drop_node n w)) (drop_node n w)"
    proof -
      have "ScanDiscard n \<notin> set (discards w)" using u by (simp add: unreferenced_def)
      then show ?thesis using rt_discards [OF inv] unfolding discards_ok_def v by (metis fun_upd_other)
    qed
    show "reactions_ok (code (drop_node n w)) (drop_node n w)" using d by (simp add: reactions_ok_def detached_def v)
    show "\<And>m slot. (m, slot) \<in> set (g_notifys (drop_node n w)) \<Longrightarrow> code (drop_node n w) m = None \<or> code (drop_node n w) m = Some CState"
      using rt_notifys [OF inv] by (auto simp: v)
    show "bk_inv (g_actions (drop_node n w))" using rt_bk [OF inv] rs by simp
    show "\<And>i a. a \<in> set (bk_queue (g_actions (drop_node n w)) i) \<Longrightarrow>
        action_ok (code (drop_node n w)) (g_config (drop_node n w)) (async_heap (drop_node n w)) a"
      using d rs by (auto simp: detached_def v)
    show "async_ok (code (drop_node n w)) (g_config (drop_node n w)) (async_heap (drop_node n w)) (next_async (drop_node n w))"
      using d rs by (simp add: detached_def v)
    show "wake_ok L (code (drop_node n w)) (async_heap (drop_node n w)) (wk_reactions (drop_node n w))"
      using rt_wake [OF inv] rs unfolding wake_ok_def v(1) by (fastforce split: wake_reaction.splits)
  qed
qed

subsection \<open>Every operation of a client\<close>

datatype 'v client_op =
    OpState 'v
  | OpSignal "('v, 'v) prog"
  | OpSignalDedup "('v, 'v) prog"
  | OpEffect phase "('v, 'v) prog"
  | OpRun "'v act"                          \<comment> \<open>a closure over \<open>runtime.ac()\<close>\<close>
  | OpSpawn phase "'v act"
  | OpSpawnAsync phase "'v act"
  | OpReaction phase "('v, unit) prog"
  | OpGet nid                               \<comment> \<open>over \<open>runtime.sc()\<close>\<close>
  | OpDispatchAction phase
  | OpDispatchActions "phase option"
  | OpDispatchReactions "phase option"
  | OpDispatchDiscards
  | OpFlush
  | OpDrop nid
  | OpWake bind_key
  | OpWakeDrop bind_key
  | OpWaitForReady

definition client_run :: "('m, 's, 't) slabs \<Rightarrow> nat \<Rightarrow> 'v client_op \<Rightarrow> ('m, 'v, 's, 't) runtime_op" where
  "client_run L fuel x w =
     (case x of
        OpState v \<Rightarrow> Inr (snd (state_new (sink_slab L) v w))
      | OpSignal g \<Rightarrow> Inr (snd (signal_new (sink_slab L) g w))
      | OpSignalDedup g \<Rightarrow> Inr (snd (signal_new_dedup (sink_slab L) g w))
      | OpEffect p g \<Rightarrow> res_bind (effect_new None (\<lambda>_. prog_map Some g) p w) (\<lambda>(_, w1). Inr w1)
      | OpRun a \<Rightarrow> res_bind (act_run L a w) (\<lambda>(_, w1). Inr w1)
      | OpSpawn p a \<Rightarrow> schedule_action p (ActBox a) w
      | OpSpawnAsync p a \<Rightarrow> schedule_action p (ActStartAsync p a) w
      | OpReaction p r \<Rightarrow> schedule_reaction p (UserReaction r) w
      | OpGet n \<Rightarrow> res_bind (runtime_get L n w) (\<lambda>(_, w1). Inr w1)
      | OpDispatchAction p \<Rightarrow> res_bind (rt_dispatch_action L p w) (\<lambda>(_, w1). Inr w1)
      | OpDispatchActions None \<Rightarrow> res_bind (dispatch_actions_with L fuel None w) (\<lambda>(_, w1). Inr w1)
      | OpDispatchActions (Some p) \<Rightarrow> res_bind (rt_dispatch_actions L fuel p w) (\<lambda>(_, w1). Inr w1)
      | OpDispatchReactions None \<Rightarrow> res_bind (dispatch_reactions_with L None w) (\<lambda>(_, w1). Inr w1)
      | OpDispatchReactions (Some p) \<Rightarrow> res_bind (rt_dispatch_reactions L p w) (\<lambda>(_, w1). Inr w1)
      | OpDispatchDiscards \<Rightarrow> res_bind (dispatch_discards L fuel w) (\<lambda>(_, w1). Inr w1)
      | OpFlush \<Rightarrow> flush L fuel w
      | OpDrop n \<Rightarrow> Inr (drop_node n w)
      | OpWake key \<Rightarrow> Inr (raw_wake key w)
      | OpWakeDrop key \<Rightarrow> Inr (raw_wake_drop key w)
      | OpWaitForReady \<Rightarrow> Inr (snd (wait_for_ready w)))"

text \<open>What the operations ask of the client.\<close>

definition client_ok :: "('m, 's, 't) slabs \<Rightarrow> (nid \<Rightarrow> ('v, 'v) prog) \<Rightarrow> ('m, 'v, 's, 't) runtime \<Rightarrow> 'v client_op \<Rightarrow> bool" where
  "client_ok L G w x =
     (case x of
        OpState v \<Rightarrow> fresh_id w (wake_slab L) (next_id w)
      | OpSignal g \<Rightarrow> fresh_id w (wake_slab L) (next_id w) \<and> closed_prog w g \<and> G (next_id w) = g
      | OpSignalDedup g \<Rightarrow> fresh_id w (wake_slab L) (next_id w) \<and> closed_prog w g \<and> G (next_id w) = g
      | OpEffect p g \<Rightarrow> fresh_id w (wake_slab L) (next_id w) \<and> closed_prog w g \<and> G (next_id w) = g \<and> reaction_allowed (g_config w) p
      | OpRun a \<Rightarrow> act_ok (code w) (g_config w) a False
      | OpSpawn p a \<Rightarrow> action_allowed (g_config w) p \<and> act_ok (code w) (g_config w) a False
      | OpSpawnAsync p a \<Rightarrow> action_allowed (g_config w) p \<and> act_ok (code w) (g_config w) a True
      | OpReaction p r \<Rightarrow> reaction_allowed (g_config w) p \<and> reads_ok (is_source w) r
      | OpGet n \<Rightarrow> is_source w n
      | OpDispatchAction p \<Rightarrow> action_allowed (g_config w) p
      | OpDispatchActions p \<Rightarrow> (\<forall>q. p = Some q \<longrightarrow> action_allowed (g_config w) q)
      | OpDispatchReactions p \<Rightarrow> (\<forall>q. p = Some q \<longrightarrow> reaction_allowed (g_config w) q)
      | OpDrop n \<Rightarrow> detached L G w n
      | _ \<Rightarrow> True)"

definition good :: "('m, 's, 't) slabs \<Rightarrow> (nid \<Rightarrow> ('v, 'v) prog) \<Rightarrow> ('m, 'v, 's, 't) runtime \<Rightarrow> bool" where
  "good L G w \<longleftrightarrow> rt_inv L G w \<and> async_calm L w"

lemma goodD: "good L G w \<Longrightarrow> rt_inv L G w" "good L G w \<Longrightarrow> async_calm L w"
  by (simp_all add: good_def)

lemma good_same: "async_calm L w \<Longrightarrow> rt_same w w' \<Longrightarrow> rt_inv L G w' \<Longrightarrow> good L G w'"
  by (simp add: good_def rt_same_def async_calm_def)

lemma good_nodes: "async_calm L w \<Longrightarrow> same_nodes w w' \<Longrightarrow> rt_inv L G w' \<Longrightarrow> good L G w'"
  by (simp add: good_def same_nodes_def async_calm_def)

lemma check_phases:
  "action_allowed (g_config w) p \<Longrightarrow> check_action_phase p w = Inr ()"
  "reaction_allowed (g_config w) p \<Longrightarrow> check_reaction_phase p w = Inr ()"
  by (auto simp: action_allowed_def reaction_allowed_def check_action_phase_def check_reaction_phase_def
      assert_valid_action_phase_def assert_valid_reaction_phase_def split: option.split)

lemma dispatch_action_ok:
  assumes L: "slabs_laws L" and inv: "rt_inv L G w" and calm: "async_calm L w"
  shows "\<exists>h w'. dispatch_action L p w = Inr (h, w') \<and> good L G w'"
proof -
  obtain w1 where w1: "apply_wake L w = Inr w1" "rt_inv L G w1" "wake_frame w w1"
    using apply_wake_ok [OF L inv] by blast
  note f = wake_frame_fields [OF w1(3)]
  obtain a b where pop: "bk_pop_front (sint p) (g_actions w1) = (a, b)" by force
  have q: "bk_queue b = (bk_queue (g_actions w1))(sint p := tl (bk_queue (g_actions w1) (sint p)))" and bi: "bk_inv b"
    and hd: "a = (case bk_queue (g_actions w1) (sint p) of [] \<Rightarrow> None | x # q \<Rightarrow> Some x)"
  proof -
    have ab: "b = snd (bk_pop_front (sint p) (g_actions w1))" "a = fst (bk_pop_front (sint p) (g_actions w1))" using pop by simp_all
    note ps = bk_pop_front_spec [OF rt_bk [OF w1(2)], of "sint p"]
    show "bk_queue b = (bk_queue (g_actions w1))(sint p := tl (bk_queue (g_actions w1) (sint p)))" "bk_inv b" unfolding ab by (rule ps)+
    show "a = (case bk_queue (g_actions w1) (sint p) of [] \<Rightarrow> None | x # q \<Rightarrow> Some x)"
      unfolding ab by (subst ps(1)) (simp split: list.split)
  qed
  define w2 where "w2 = w1\<lparr>g_actions := b\<rparr>"
  have calm2: "async_calm L w2" using calm by (simp add: async_calm_def w2_def f)
  have get: "get_action L p w = Inr (a, w2)" using w1(1) pop by (simp add: get_action_def w2_def)
  have sub: "set (bk_queue b i) \<subseteq> set (bk_queue (g_actions w1) i)" for i
    by (auto simp: q dest: list.set_sel(2) split: if_splits) (metis list.sel(2) list.set_sel(2))
  have inv2: "rt_inv L G w2" unfolding w2_def
    by (rule rt_inv_actions [OF w1(2)]) (use bi sub rt_actions [OF w1(2)] in auto)
  show ?thesis
  proof (cases a)
    case None
    then show ?thesis using get inv2 calm2 by (auto simp: dispatch_action_def good_def)
  next
    case (Some x)
    then have "x \<in> set (bk_queue (g_actions w1) (sint p))" using hd by (auto split: list.splits)
    from rt_actions [OF w1(2) this] have "action_ok (code w2) (g_config w2) (async_heap w2) x"
      by (simp add: w2_def view_heap_cong(1) [of "w1\<lparr>g_actions := b\<rparr>" w1])
    from action_call_ok [OF L inv2 calm2 this] show ?thesis
      using get Some by (auto simp: dispatch_action_def ran_action_def good_def)
  qed
qed

theorem client_step:
  assumes L: "slabs_laws L" and g: "good L G w" and ok: "client_ok L G w x"
  shows "\<exists>f0 w'. (\<forall>f \<ge> f0. client_run L f x w = Inr w') \<and> good L G w'"
proof -
  note inv = goodD(1) [OF g] and calm = goodD(2) [OF g]
  have const: ?thesis if "\<And>f. client_run L f x w = Inr w'" "good L G w'" for w' using that by blast
  have fuelled: ?thesis if "\<And>f. f \<ge> f0 \<Longrightarrow> client_run L f x w = Inr w'" "good L G w'" for f0 w' using that by blast
  show ?thesis
  proof (cases x)
    case (OpState v)
    obtain n w' where new: "state_new (sink_slab L) v w = (n, w')" by force
    have "good L G w'"
      using rt_state_new [OF L inv _ new] good_same [OF calm] ok by (simp add: OpState client_ok_def)
    then show ?thesis by (intro const) (simp_all add: OpState client_run_def new)
  next
    case (OpSignal p)
    obtain n w' where new: "scan_new (sink_slab L) None (get_fn_get p) discard_take w = (n, w')" by force
    have n: "n = next_id w" using new by (auto simp: scan_new_def Let_def)
    have "good L G w'" using rt_scan_new [OF L inv _ new] good_same [OF calm] ok fits_signal(1) [of p] by (simp add: OpSignal client_ok_def n)
    then show ?thesis by (intro const) (simp_all add: OpSignal client_run_def signal_new_def new)
  next
    case (OpSignalDedup p)
    obtain n w' where new: "scan_new (sink_slab L) None (get_fn_get_dedup p) discard_take w = (n, w')" by force
    have n: "n = next_id w" using new by (auto simp: scan_new_def Let_def)
    have "good L G w'" using rt_scan_new [OF L inv _ new] good_same [OF calm] ok fits_signal(2) [of p] by (simp add: OpSignalDedup client_ok_def n)
    then show ?thesis by (intro const) (simp_all add: OpSignalDedup client_run_def signal_new_dedup_def new)
  next
    case (OpEffect p q)
    obtain w' where "effect_new None (\<lambda>_. prog_map Some q) p w = Inr (next_id w, w')" "rt_inv L G w'" "rt_same w w'"
      using rt_effect_new [OF L inv, where f = "\<lambda>_. prog_map Some q" and p = p and st = None] ok by (auto simp: OpEffect client_ok_def)
    then show ?thesis using good_same [OF calm] by (intro const [of w']) (simp_all add: OpEffect client_run_def)
  next
    case (OpRun a)
    then obtain r w' where "act_run L a w = Inr (r, w')" "rt_inv L G w'" "same_nodes w w'"
      using act_run_ok [OF L inv, of a False] ok unfolding ran_act_def client_ok_def by auto
    then show ?thesis using good_nodes [OF calm] by (intro const [of w']) (simp_all add: OpRun client_run_def)
  next
    case (OpSpawn p a)
    then obtain w' where "schedule_action p (ActBox a) w = Inr w'" "rt_inv L G w'" "same_nodes w w'"
      using rt_schedule_action [OF inv, of p "ActBox a"] ok by (auto simp: client_ok_def action_ok_def)
    then show ?thesis using good_nodes [OF calm] by (intro const [of w']) (simp_all add: OpSpawn client_run_def)
  next
    case (OpSpawnAsync p a)
    then obtain w' where "schedule_action p (ActStartAsync p a) w = Inr w'" "rt_inv L G w'" "same_nodes w w'"
      using rt_schedule_action [OF inv, of p "ActStartAsync p a"] ok by (auto simp: client_ok_def action_ok_def)
    then show ?thesis using good_nodes [OF calm] by (intro const [of w']) (simp_all add: OpSpawnAsync client_run_def)
  next
    case (OpReaction p r)
    then obtain w' where "schedule_reaction p (UserReaction r) w = Inr w'" "rt_inv L G w'" "graph_step w w'"
      using rt_schedule_reaction [OF L inv, of p "UserReaction r"] ok by (auto simp: client_ok_def reaction_ok_def source_code_eq)
    then show ?thesis using good_same [OF calm] by (intro const [of w']) (simp_all add: OpReaction client_run_def graph_step_def)
  next
    case (OpGet n)
    then obtain v w' where "runtime_get L n w = Inr (v, w')" "rt_inv L G w'" "kept G w w'"
      using runtime_get_ok [OF L inv, of n] ok by (auto simp: client_ok_def)
    then show ?thesis using good_nodes [OF calm kept_same_nodes] by (intro const [of w']) (simp_all add: OpGet client_run_def)
  next
    case (OpDispatchAction p)
    then have "check_action_phase p w = Inr ()" using ok by (simp add: client_ok_def check_phases)
    moreover obtain h w' where "dispatch_action L p w = Inr (h, w')" "good L G w'" using dispatch_action_ok [OF L inv calm] by blast
    ultimately show ?thesis by (intro const [of w']) (simp_all add: OpDispatchAction client_run_def rt_dispatch_action_def)
  next
    case (OpDispatchActions p)
    obtain f0 where "\<forall>f \<ge> f0. actions_done L G p w (dispatch_actions_with L f p w)"
      using dispatch_actions_ends [OF L inv calm] by blast
    then obtain h w' where w': "dispatch_actions_with L f0 p w = Inr (h, w')" "good L G w'" unfolding actions_done_def good_def by blast
    show ?thesis
    proof (rule fuelled [OF _ w'(2)])
      fix f assume "f \<ge> f0"
      then show "client_run L f x w = Inr w'" using ok dispatch_actions_mono [OF w'(1)]
        by (cases p) (simp_all add: OpDispatchActions client_run_def client_ok_def rt_dispatch_actions_def check_phases)
    qed
  next
    case (OpDispatchReactions p)
    obtain h w' where w': "dispatch_reactions_with L p w = Inr (h, w')" "rt_inv L G w'" "async_calm L w'"
      using dispatch_reactions_ok [OF L inv calm, of p] by blast
    show ?thesis
    proof (rule const)
      show "client_run L f x w = Inr w'" for f using ok w'(1)
        by (cases p) (simp_all add: OpDispatchReactions client_run_def client_ok_def rt_dispatch_reactions_def check_phases)
    qed (use w' in \<open>simp add: good_def\<close>)
  next
    case OpDispatchDiscards
    obtain f0 h w' where w': "dispatch_discards L f0 w = Inr (h, w')" "rt_inv L G w'" "async_actions w' = async_actions w" "async_heap w' = async_heap w"
      using dispatch_discards_total [OF L inv] by blast
    have "good L G w'" using w'(2) calm async_calm_cong [OF w'(4,3)] by (simp add: good_def)
    then show ?thesis
      by (intro fuelled [of f0 w']) (simp_all add: OpDispatchDiscards client_run_def dispatch_discards_mono [OF w'(1)])
  next
    case OpFlush
    obtain f0 w' where "\<forall>f \<ge> f0. flush L f w = Inr w'" "settled L G w'" using flush_ends [OF L inv calm] by blast
    then show ?thesis by (intro fuelled [of f0 w']) (simp_all add: OpFlush client_run_def settled_def good_def)
  next
    case (OpDrop n)
    then have "rt_inv L G (drop_node n w)" using rt_drop [OF inv] ok by (simp add: client_ok_def)
    then show ?thesis using good_same [OF calm drop_runtime] by (intro const [of "drop_node n w"]) (simp_all add: OpDrop client_run_def)
  next
    case (OpWake key)
    have "good L G (raw_wake key w)" using inv calm by (simp add: good_def) (simp add: async_calm_def raw_wake_def Let_def)
    then show ?thesis by (intro const) (simp_all add: OpWake client_run_def)
  next
    case (OpWakeDrop key)
    have "good L G (raw_wake_drop key w)" using inv calm by (simp add: good_def raw_wake_drop_def) (simp add: async_calm_def)
    then show ?thesis by (intro const) (simp_all add: OpWakeDrop client_run_def)
  next
    case OpWaitForReady
    have "rt_inv L G (snd (wait_for_ready w)) = rt_inv L G w"
      by (rule rt_inv_cong) (simp_all add: wait_for_ready_def Let_def)
    moreover have "async_calm L (snd (wait_for_ready w)) = async_calm L w"
      by (rule async_calm_cong) (simp_all add: wait_for_ready_def Let_def)
    ultimately have "good L G (snd (wait_for_ready w))" using g by (simp add: good_def)
    then show ?thesis by (intro const) (simp_all add: OpWaitForReady client_run_def)
  qed
qed

subsection \<open>Reachable states\<close>

inductive reach :: "('m, 's, 't) slabs \<Rightarrow> (nid \<Rightarrow> ('v, 'v) prog) \<Rightarrow> ('m, 'v, 's, 't) runtime \<Rightarrow> bool" for L G where
  reach_new: "new_with_config L c (globals_new L) = Inr (h, w) \<Longrightarrow> reach L G w"
| reach_step: "reach L G w \<Longrightarrow> client_ok L G w x \<Longrightarrow> client_run L f x w = Inr w' \<Longrightarrow> reach L G w'"

lemma client_run_mono:
  assumes "client_run L f x w = Inr w'" and "f \<le> f'"
  shows "client_run L f' x w = Inr w'"
proof (cases x)
  case (OpDispatchActions p)
  show ?thesis
  proof (cases p)
    case None
    then obtain h where "dispatch_actions_with L f None w = Inr (h, w')"
      using assms(1) OpDispatchActions by (auto simp: client_run_def res_bind_eq_Inr)
    from dispatch_actions_mono [OF this assms(2)] show ?thesis using None OpDispatchActions by (simp add: client_run_def)
  next
    case (Some q)
    then obtain h where c: "check_action_phase q w = Inr ()" and "dispatch_actions_with L f p w = Inr (h, w')"
      using assms(1) OpDispatchActions by (auto simp: client_run_def rt_dispatch_actions_def res_bind_eq_Inr)
    from dispatch_actions_mono [OF this(2) assms(2)] show ?thesis
      using c Some OpDispatchActions by (simp add: client_run_def rt_dispatch_actions_def)
  qed
next
  case OpDispatchDiscards
  then obtain h where "dispatch_discards L f w = Inr (h, w')" using assms(1) by (auto simp: client_run_def res_bind_eq_Inr)
  from dispatch_discards_mono [OF this assms(2)] show ?thesis using OpDispatchDiscards by (simp add: client_run_def)
next
  case OpFlush
  then show ?thesis using assms flush_mono by (simp add: client_run_def)
qed (use assms in \<open>simp_all add: client_run_def split: option.splits\<close>)

lemma reach_good:
  assumes L: "slabs_laws L" and "reach L G w"
  shows "good L G w"
  using assms(2)
proof (induction rule: reach.induct)
  case (reach_new c h w)
  then show ?case using new_runtime_ok [OF L, of c G] by (auto simp: good_def)
next
  case (reach_step w x f w')
  obtain f0 w'' where w'': "\<forall>g \<ge> f0. client_run L g x w = Inr w''" "good L G w''"
    using client_step [OF L reach_step.IH reach_step.hyps(2)] by blast
  have "client_run L (max f f0) x w = Inr w'" by (rule client_run_mono [OF reach_step.hyps(3)]) simp
  then show ?case using w'' by simp
qed

end
