(* ===== verification/Example_Runtime.thy ===== *)
theory Example_Runtime
  imports Example_Graph Runtime_Reach
begin

section \<open>A concrete runtime\<close>

text \<open>
  The graph of \<open>Example_Graph\<close> in a runtime, reached by the operations of a client. The effect is
  still pending: its first run is queued.
\<close>

type_synonym ex_runtime =
  "(sink_binding option list, int, wake_reaction option list, nat option list) runtime"

definition ex_L :: "(sink_binding option list, wake_reaction option list, nat option list) slabs" where
  "ex_L = \<lparr>sink_slab = vec_slab, wake_slab = vec_slab, async_slab = vec_slab\<rparr>"

lemma ex_L: "slabs_laws ex_L" "sink_slab ex_L = vec_slab" "wake_slab ex_L = vec_slab"
  by (simp_all add: slabs_laws_def ex_L_def vec_slab_laws)

definition ex_r0 :: ex_runtime where
  "ex_r0 = (case new_with_config ex_L config_default (globals_new ex_L) of Inr (_, w) \<Rightarrow> w | Inl _ \<Rightarrow> globals_new ex_L)"

definition ex_r :: ex_runtime where "ex_r = ex_w ex_r0"

lemma ex_r0: "new_with_config ex_L config_default (globals_new ex_L) = Inr (\<lparr>rt_owned = True, rt_raw = True\<rparr>, ex_r0)"
  "ex_start ex_r0" "g_notifys ex_r0 = []" "wk_reactions ex_r0 = []" "g_actions ex_r0 = bk_new"
proof -
  show n: "new_with_config ex_L config_default (globals_new ex_L) = Inr (\<lparr>rt_owned = True, rt_raw = True\<rparr>, ex_r0)"
    using new_runtime_ok [OF ex_L(1), of config_default ex_G] unfolding ex_r0_def by auto
  note f = new_with_config_fields(2) [OF n]
  show "ex_start ex_r0" "g_notifys ex_r0 = []" "wk_reactions ex_r0 = []" "g_actions ex_r0 = bk_new"
    by (simp_all add: f globals_new_fields ex_start_def ex_L(3)) (simp add: vec_slab_def)
qed

lemma ex_quiet: "fresh_id w vec_slab n"
  if "g_reactions w = bk_new" and "g_notifys w = []" and "wk_reactions w = []"
  by (simp add: fresh_id_def that) (simp add: vec_slab_def vec_get_def)

lemma ex_kept:
  "g_reactions (ex_w1 w) = g_reactions w" "g_notifys (ex_w1 w) = g_notifys w" "wk_reactions (ex_w1 v) = wk_reactions v"
  "g_reactions (ex_w2 w) = g_reactions w" "g_notifys (ex_w2 w) = g_notifys w" "wk_reactions (ex_w2 v) = wk_reactions v"
  "g_reactions (ex_w3 w) = g_reactions w" "g_notifys (ex_w3 w) = g_notifys w" "wk_reactions (ex_w3 v) = wk_reactions v"
  by (simp_all add: ex_w1_def ex_w2_def ex_w3_def state_new_def signal_new_def scan_new_def Let_def put_node_def)

lemma ex_reach: "reach ex_L ex_G ex_r"
proof -
  note s = ex_r0(2) and w1 = ex_w1 [OF ex_r0(2)] and w2 = ex_w2 [OF ex_r0(2)] and w3 = ex_w3 [OF ex_r0(2)] and w4 = ex_w [OF ex_r0(2)]
  have q: "g_reactions ex_r0 = bk_new" "next_id ex_r0 = 0" using s by (simp_all add: ex_start_def)
  have r0: "reach ex_L ex_G ex_r0" by (rule reach_new [OF ex_r0(1)])
  have r1: "reach ex_L ex_G (ex_w1 ex_r0)"
    by (rule reach_step [OF r0, of "OpState 1" 0])
      (use w1(6) ex_r0(3,4) q in \<open>simp_all add: client_ok_def client_run_def ex_L(2,3) ex_quiet\<close>)
  have r2: "reach ex_L ex_G (ex_w2 ex_r0)"
    by (rule reach_step [OF r1, of "OpState 2" 0])
      (use w2(6) ex_r0(3,4) q in \<open>simp_all add: client_ok_def client_run_def ex_L(2,3) ex_quiet ex_kept\<close>)
  have r3: "reach ex_L ex_G (ex_w3 ex_r0)"
    by (rule reach_step [OF r2, of "OpSignal (ex_G 2)" 0])
      (use w3(5,6) w2(2) ex_r0(3,4) q in \<open>simp_all add: client_ok_def client_run_def ex_L(2,3) ex_quiet ex_kept\<close>)
  show ?thesis unfolding ex_r_def
    by (rule reach_step [OF r3, of "OpEffect 0 (ex_G 3)" 0])
      (use w4(6,7) w3(2,4) ex_r0(3,4) q in \<open>simp_all add: client_ok_def client_run_def ex_L(2,3) ex_quiet ex_kept
        reaction_allowed_def config_default_def valid_contains_def\<close>)
qed

lemmas ex_good = reach_good [OF ex_L(1) ex_reach]
lemmas ex_r_facts = ex_w [OF ex_r0(2), folded ex_r_def] ex_sem [OF ex_r0(2), folded ex_r_def] ex_cval [OF ex_r0(2), folded ex_r_def]

end
