(* ===== verification/Runtime_Properties.thy ===== *)
theory Runtime_Properties
  imports Example_Runtime
begin

section \<open>Properties of the runtime\<close>

text \<open>
  The theorems about core.rs that a client of the runtime relies on, each with a concrete instance
  on the runtime of \<open>Example_Runtime\<close>.
\<close>

subsection \<open>Dispatching\<close>

text \<open>
  A closure is a finite tree of effects, so it can respawn itself only a bounded number of times; the bound is part of it. \<open>respawn p n\<close> does so \<open>n\<close> times. In the source, a closure that
  spawns itself without end would be \<open>respawn p n\<close> for every \<open>n\<close> at once.
\<close>

primrec respawn :: "phase \<Rightarrow> nat \<Rightarrow> 'v act" where
  "respawn p 0 = ADone"
| "respawn p (Suc n) = ASpawn p (respawn p n) ADone"

text \<open>\<open>a\<close> is the only action queued for the phases that \<open>q\<close> selects.\<close>

definition only_queued :: "phase option \<Rightarrow> phase \<Rightarrow> 'v action \<Rightarrow> 'v action buckets \<Rightarrow> bool" where
  "only_queued q p a b \<longleftrightarrow> bk_inv b \<and> (q = None \<or> q = Some p)
     \<and> (\<forall>i. q = None \<or> i = sint p \<longrightarrow> bk_queue b i = (if i = sint p then [a] else []))"

lemma drain_only_queued:
  assumes only: "only_queued q p a b"
  obtains b' where "bk_drain (map_option sint q) [] b = ([a], b')" and "bk_inv b'" and "queue_empty q b'"
proof -
  have inv: "bk_inv b" and q: "q = None \<or> q = Some p" using only by (simp_all add: only_queued_def)
  from q have "fst (bk_drain (map_option sint q) [] b) = [a] \<and> bk_inv (snd (bk_drain (map_option sint q) [] b))
      \<and> queue_empty q (snd (bk_drain (map_option sint q) [] b))"
  proof
    assume q: "q = Some p"
    then show ?thesis using only bk_drain_one [OF inv, of "sint p" "[]"] by (auto simp: only_queued_def queue_empty_def)
  next
    assume q: "q = None"
    then have "set (bk_ids b) = {sint p}" using only bk_inv_ids [OF inv] by (auto simp: only_queued_def split: if_splits)
    moreover have "distinct (bk_ids b)" by (simp add: bk_ids_def)
    ultimately have "bk_ids b = [sint p]" by (cases "bk_ids b"; cases "tl (bk_ids b)") auto
    then show ?thesis using q only bk_drain_all [OF inv, of "[]"] by (auto simp: only_queued_def queue_empty_def)
  qed
  then show thesis using that by (cases "bk_drain (map_option sint q) [] b") auto
qed

lemma drain_queue_empty:
  assumes "bk_inv b" and "queue_empty q b"
  shows "fst (bk_drain (map_option sint q) [] b) = []"
proof (cases q)
  case None
  then show ?thesis using assms(2) bk_drain_all(1) [OF assms(1), of "[]"] by (simp add: queue_empty_def)
next
  case (Some r)
  then show ?thesis using assms(2) bk_drain_one(1) [OF assms(1), of "sint r" "[]"] by (simp add: queue_empty_def)
qed

lemma dispatch_respawn:
  assumes "rq_wakes w = []" and "action_allowed (g_config w) p" and "only_queued q p (ActBox (respawn p n)) (g_actions w)"
  shows "if f < n + 2 then dispatch_actions_with L f q w = Inl OutOfFuel else \<exists>w'. dispatch_actions_with L f q w = Inr (True, w')"
  using assms
proof (induction f arbitrary: n w)
  case (Suc f)
  obtain b where b: "bk_drain (map_option sint q) [] (g_actions w) = ([ActBox (respawn p n)], b)" "bk_inv b" "queue_empty q b"
    by (rule drain_only_queued [OF Suc.prems(3)])
  have q: "q = None \<or> q = Some p" using Suc.prems(3) by (simp add: only_queued_def)
  define w1 where "w1 = w\<lparr>wk_reactions := fold (\<lambda>key s. slab_remove (wake_slab L) s key) (rq_drops w) (wk_reactions w), rq_drops := [], g_actions := b\<rparr>"
  have get: "get_actions L q w = Inr ([ActBox (respawn p n)], w1)"
    using Suc.prems(1) b(1) by (simp add: get_actions_def apply_wake_def w1_def)
  have w1: "rq_wakes w1 = []" "rq_drops w1 = []" "g_config w1 = g_config w" "g_actions w1 = b" using Suc.prems(1) by (simp_all add: w1_def)
  show ?case
  proof (cases n)
    case 0
    have "fst (bk_drain (map_option sint q) [] b) = []" by (rule drain_queue_empty [OF b(2,3)])
    then have "\<exists>w2. get_actions L q w1 = Inr ([], w2)"
      using w1 by (cases "bk_drain (map_option sint q) [] b") (simp add: get_actions_def apply_wake_def)
    then show ?thesis using get by (cases f) (auto simp: 0 action_call_def)
  next
    case (Suc m)
    obtain b' where b': "bk_push (sint p) (ActBox (respawn p m)) b = Inr b'" "bk_queue b' = (bk_queue b)(sint p := bk_queue b (sint p) @ [ActBox (respawn p m)])"
      by (rule bk_push_ok)
    define w2 where "w2 = global_wake (w1\<lparr>g_actions := b'\<rparr>)"
    have "res_fold (action_call L) [ActBox (respawn p n)] w1 = Inr w2"
      using b'(1) Suc.prems(2) w1 by (auto simp: Suc action_call_def schedule_action_def push_action_def action_allowed_def assert_valid_action_phase_def
        res_assert_def w2_def split: option.split)
    moreover have "only_queued q p (ActBox (respawn p m)) b'"
      using b b'(2) bk_push_inv [OF b(2) phase_id_sint b'(1)] q by (auto simp: only_queued_def queue_empty_def)
    then have "if f < m + 2 then dispatch_actions_with L f q w2 = Inl OutOfFuel else \<exists>w'. dispatch_actions_with L f q w2 = Inr (True, w')"
      by (intro Suc.IH) (use Suc.prems(2) w1 in \<open>simp_all add: w2_def global_wake_def Let_def\<close>)
    ultimately show ?thesis using get by (auto simp: Suc split: if_splits)
  qed
qed simp

text \<open>
  C5. Dispatching the actions of a phase (or of all phases) ends, provided that no closure schedules itself again without end: closures are finite trees here, and that is an assumption on the
  client, which the source does not check. No action that was allowed can panic, afterwards no action of those phases is queued, and all wake-ups that had arrived are served; actions that schedule further
  actions of the phase, and futures that resume themselves, are run to their end in the same dispatch. The assumption is needed: a closure that respawns itself \<open>n\<close> times takes exactly
  \<open>n + 2\<close> rounds of the loop, so no number of rounds is enough for all closures, and one that respawns itself for ever would keep the loop, and \<open>flush\<close>, running for ever.
\<close>

theorem dispatch_actions_terminates:
  assumes L: "slabs_laws L" and r: "reach L G w"
  shows "\<exists>f0 h w'. (\<forall>f \<ge> f0. dispatch_actions_with L f p w = Inr (h, w')) \<and> good L G w'
    \<and> queue_empty p (g_actions w') \<and> rq_wakes w' = []
    \<and> (\<forall>q n f w2. (p = None \<or> p = Some q) \<and> schedule_action q (ActBox (respawn q n)) w' = Inr w2
        \<longrightarrow> (if f < n + 2 then dispatch_actions_with L f p w2 = Inl OutOfFuel else \<exists>w3. dispatch_actions_with L f p w2 = Inr (True, w3)))"
proof -
  note g = goodD [OF reach_good [OF L r]]
  obtain f0 where "\<forall>f \<ge> f0. actions_done L G p w (dispatch_actions_with L f p w)"
    using dispatch_actions_ends [OF L g] by blast
  then obtain h w' where w': "dispatch_actions_with L f0 p w = Inr (h, w')" "good L G w'" "queue_empty p (g_actions w')" "rq_wakes w' = []"
    unfolding actions_done_def good_def by blast
  have inv: "bk_inv (g_actions w')" by (rule rt_bk [OF goodD(1) [OF w'(2)]])
  have "if f < n + 2 then dispatch_actions_with L f p w2 = Inl OutOfFuel else \<exists>w3. dispatch_actions_with L f p w2 = Inr (True, w3)"
    if q: "p = None \<or> p = Some q" and s: "schedule_action q (ActBox (respawn q n)) w' = Inr w2" for q n f w2
  proof -
    obtain b where b: "bk_push (sint q) (ActBox (respawn q n)) (g_actions w') = Inr b" "w2 = global_wake (w'\<lparr>g_actions := b\<rparr>)" "action_allowed (g_config w') q"
      using s by (auto simp: schedule_action_def push_action_def res_bind_eq_Inr action_allowed_def assert_valid_action_phase_def res_assert_def
        split: if_splits option.splits)
    have bq: "bk_queue b = (bk_queue (g_actions w'))(sint q := bk_queue (g_actions w') (sint q) @ [ActBox (respawn q n)])"
      using bk_push_ok [of "sint q" "ActBox (respawn q n)" "g_actions w'"] b(1) by (metis sum.inject(2))
    have "only_queued p q (ActBox (respawn q n)) b"
      using w'(3) q bq bk_push_inv [OF inv phase_id_sint b(1)] by (auto simp: only_queued_def queue_empty_def)
    then show ?thesis by (intro dispatch_respawn [where p = q]) (use w'(4) b(2,3) in \<open>simp_all add: global_wake_def Let_def\<close>)
  qed
  then show ?thesis using w' dispatch_actions_mono [OF w'(1)] by blast
qed

theorem dispatch_actions_terminates_witness:
  "\<exists>f0 h w'. (\<forall>f \<ge> f0. dispatch_actions_with ex_L f None ex_r = Inr (h, w')) \<and> queue_empty None (g_actions w')"
  using dispatch_actions_terminates [OF ex_L(1) ex_reach, of None] by blast

text \<open>
  C6. Dispatching the reactions of a phase applies every pending unbinding and notification, runs
  every reaction queued for the phase, and leaves each effect of that phase with the value the
  reference semantics gives it. No user-visible meaning changes.
\<close>

theorem dispatch_reactions_updates:
  assumes L: "slabs_laws L" and r: "reach L G w"
  shows "\<exists>h w'. dispatch_reactions_with L p w = Inr (h, w') \<and> good L G w' \<and> effects_current G p w' \<and> sem G w' = sem G w
    \<and> g_unbinds w' = [] \<and> g_notifys w' = [] \<and> (p = None \<longrightarrow> no_reactions w')"
proof -
  note g = goodD [OF reach_good [OF L r]]
  obtain h w' where w': "dispatch_reactions_with L p w = Inr (h, w')" "rt_inv L G w'" "async_calm L w'" "kept G w w'"
    "effects_current G p w'" "g_unbinds w' = []" "g_notifys w' = []" "p = None \<longrightarrow> no_reactions w'"
    using dispatch_reactions_ok [OF L g, of p] by blast
  then show ?thesis by (auto simp: good_def kept_def)
qed

theorem dispatch_reactions_updates_witness:
  "\<exists>h w'. dispatch_reactions_with ex_L (Some 0) ex_r = Inr (h, w') \<and> cval w' 3 = Some 3"
proof -
  obtain h w' where w': "dispatch_reactions_with ex_L (Some 0) ex_r = Inr (h, w')" "effects_current ex_G (Some 0) w'" "sem ex_G w' = sem ex_G ex_r"
    using dispatch_reactions_updates [OF ex_L(1) ex_reach, of "Some 0"] by blast
  obtain h2 w2 where w2: "dispatch_reactions_with ex_L (Some 0) ex_r = Inr (h2, w2)" "kept ex_G ex_r w2"
    using dispatch_reactions_ok [OF ex_L(1) goodD [OF ex_good], of "Some 0"] by blast
  have "code w' 3 = Some (CEffect (\<lambda>_. prog_map Some (ex_G 3)) 0)" using w2 w'(1) by (simp add: kept_def ex_r_facts)
  then have "cval w' 3 = sem ex_G w' 3" using w'(2) unfolding effects_current_def by blast
  then show ?thesis using w'(1,3) by (simp add: ex_r_facts)
qed

text \<open>
  Dispatching the discards ends: a discard can schedule only the discard of nodes created earlier.
  It empties the stack of discards and the list of pending unbindings.
\<close>

lemma dispatch_discards_terminates:
  assumes L: "slabs_laws L" and r: "reach L G w"
  shows "\<exists>f0 h w'. (\<forall>f \<ge> f0. dispatch_discards L f w = Inr (h, w')) \<and> good L G w' \<and> code w' = code w
    \<and> discards w' = [] \<and> g_unbinds w' = []"
proof -
  note g = goodD [OF reach_good [OF L r]]
  obtain f0 h w' where w': "dispatch_discards L f0 w = Inr (h, w')" "rt_inv L G w'" "async_actions w' = async_actions w"
    "async_heap w' = async_heap w" "code w' = code w" "discards w' = []" "g_unbinds w' = []"
    using dispatch_discards_total [OF L g(1)] by blast
  have "good L G w'" using w'(2) g(2) async_calm_cong [OF w'(4,3)] by (simp add: good_def)
  then show ?thesis using w'(5-7) dispatch_discards_mono [OF w'(1)] by blast
qed

lemma dispatch_discards_terminates_example:
  "\<exists>f0 h w'. (\<forall>f \<ge> f0. dispatch_discards ex_L f ex_r = Inr (h, w')) \<and> good ex_L ex_G w'"
  using dispatch_discards_terminates [OF ex_L(1) ex_reach] by blast

subsection \<open>Waking\<close>

text \<open>What can happen to a runtime while nobody dispatches it: other code on its thread schedules or drops something, wakers are called or dropped on any thread.\<close>

datatype 'v idle_event =
    IdleWake bind_key                  \<comment> \<open>\<open>RawWake::wake\<close>\<close>
  | IdleNotify nid slot
  | IdleAction phase "'v action"
  | IdleReaction phase "'v reaction"
  | IdleWakerDropped bind_key          \<comment> \<open>\<open>RawWake::drop\<close>\<close>
  | IdleSourcesDropped source_bindings

fun idle_step :: "'v idle_event \<Rightarrow> ('m, 'v, 's, 't) runtime_op" where
  "idle_step (IdleWake key) w = Inr (raw_wake key w)"
| "idle_step (IdleNotify n slot) w = Inr (push_notify n slot w)"
| "idle_step (IdleAction p a) w = schedule_action p a w"
| "idle_step (IdleReaction p r) w = schedule_reaction p r w"
| "idle_step (IdleWakerDropped key) w = Inr (raw_wake_drop key w)"
| "idle_step (IdleSourcesDropped bs) w = Inr (drop_sources bs w)"

text \<open>The events that bring work for \<open>flush\<close>, and those that only leave something to be tidied up.\<close>

fun brings_work :: "'v idle_event \<Rightarrow> bool" where
  "brings_work (IdleWakerDropped key) = False"
| "brings_work (IdleSourcesDropped bs) = False"
| "brings_work _ = True"

fun leaves_trace :: "'v idle_event \<Rightarrow> bool" where
  "leaves_trace (IdleSourcesDropped bs) = (bs \<noteq> [])"
| "leaves_trace _ = True"

definition quiet_runtime :: "('m, 'v, 's, 't) runtime \<Rightarrow> bool" where
  "quiet_runtime w \<longleftrightarrow> (\<forall>i. bk_queue (g_actions w) i = []) \<and> (\<forall>i. bk_queue (g_reactions w) i = []) \<and> g_notifys w = [] \<and> g_unbinds w = []
     \<and> rq_wakes w = [] \<and> rq_drops w = []"

lemma wait_for_ready_iff:
  "bk_inv (g_actions w) \<Longrightarrow> bk_inv (g_reactions w) \<Longrightarrow> fst (wait_for_ready w) \<longleftrightarrow> \<not> quiet_runtime w"
  by (simp add: wait_for_ready_def quiet_runtime_def bk_inv_is_empty Let_def) blast

definition idle_inv :: "nat \<Rightarrow> bool \<Rightarrow> bool \<Rightarrow> ('m, 'v, 's, 't) runtime \<Rightarrow> bool" where
  "idle_inv k worked traced w \<longleftrightarrow> bk_inv (g_actions w) \<and> bk_inv (g_reactions w) \<and> (g_waker w \<longleftrightarrow> \<not> worked) \<and> (g_waker w \<longrightarrow> g_need_wake w)
     \<and> g_woken w = k + of_bool worked \<and> (quiet_runtime w \<longleftrightarrow> \<not> traced)"

lemma idle_inv_global_wake:
  assumes "idle_inv k worked traced w" and "bk_inv (g_actions w1)" "bk_inv (g_reactions w1)"
    and "g_waker w1 = g_waker w" "g_need_wake w1 = g_need_wake w" "g_woken w1 = g_woken w" and busy: "\<not> quiet_runtime w1"
  shows "idle_inv k True True (global_wake w1)"
  using assms by (auto simp: idle_inv_def global_wake_def Let_def quiet_runtime_def)

lemma idle_inv_step:
  assumes inv: "idle_inv k worked traced w" and step: "idle_step ev w = Inr w'"
  shows "idle_inv k (worked \<or> brings_work ev) (traced \<or> leaves_trace ev) w'"
proof (cases ev)
  case (IdleAction p a)
  then obtain b where b: "bk_push (sint p) a (g_actions w) = Inr b" "w' = global_wake (w\<lparr>g_actions := b\<rparr>)"
    using step by (auto simp: schedule_action_def push_action_def res_bind_eq_Inr)
  have "bk_queue b (sint p) \<noteq> []" using bk_push_ok [of "sint p" a "g_actions w"] b(1) by force
  moreover have "bk_inv b" using inv bk_push_inv [OF _ phase_id_sint b(1)] by (simp add: idle_inv_def)
  ultimately have "idle_inv k True True w'" unfolding b(2)
    by (intro idle_inv_global_wake [OF inv]) (use inv in \<open>auto simp: idle_inv_def quiet_runtime_def\<close>)
  then show ?thesis by (simp add: IdleAction)
next
  case (IdleReaction p r)
  then obtain b where b: "bk_push (sint p) r (g_reactions w) = Inr b" "w' = global_wake (w\<lparr>g_reactions := b\<rparr>)"
    using step by (auto simp: schedule_reaction_def res_bind_eq_Inr)
  have "bk_queue b (sint p) \<noteq> []" using bk_push_ok [of "sint p" r "g_reactions w"] b(1) by force
  moreover have "bk_inv b" using inv bk_push_inv [OF _ phase_id_sint b(1)] by (simp add: idle_inv_def)
  ultimately have "idle_inv k True True w'" unfolding b(2)
    by (intro idle_inv_global_wake [OF inv]) (use inv in \<open>auto simp: idle_inv_def quiet_runtime_def\<close>)
  then show ?thesis by (simp add: IdleReaction)
next
  case (IdleNotify n slot)
  have "idle_inv k True True (push_notify n slot w)" unfolding push_notify_def
    by (intro idle_inv_global_wake [OF inv]) (use inv in \<open>auto simp: idle_inv_def quiet_runtime_def\<close>)
  then show ?thesis using step by (simp add: IdleNotify)
qed (use inv step in \<open>auto simp: idle_inv_def quiet_runtime_def raw_wake_def raw_wake_drop_def drop_sources_def Let_def split: if_splits\<close>)

lemma idle_inv_run:
  "idle_inv k worked traced w \<Longrightarrow> res_fold idle_step evs w = Inr w'
    \<Longrightarrow> idle_inv k (worked \<or> list_ex brings_work evs) (traced \<or> list_ex leaves_trace evs) w'"
proof (induction evs arbitrary: worked traced w)
  case (Cons ev evs)
  obtain w1 where s: "idle_step ev w = Inr w1" "res_fold idle_step evs w1 = Inr w'" using Cons.prems(2) by (auto simp: res_bind_eq_Inr)
  from Cons.IH [OF idle_inv_step [OF Cons.prems(1) s(1)] s(2)] show ?case by (simp add: disj_assoc)
qed simp

text \<open>
  C7. No wake-up is lost. \<open>wait_for_ready\<close> reports that it is not ready exactly if no action, reaction, notification, unbinding, wake request or dropped waker is pending; discards are not looked at.
  After such a report, whatever actions, reactions, notifications and wake requests arrive, in any order and number, the registered waker is called exactly once when there is one of them, and not at all otherwise.
  Sources that are dropped and wakers that are dropped do not call it. Asked again, \<open>wait_for_ready\<close> reports that it is ready exactly if one of all these arrived.
\<close>

theorem wait_no_lost_wakeup:
  assumes inv: "bk_inv (g_actions w)" "bk_inv (g_reactions w)" and wait: "wait_for_ready w = (ready, w1)"
    and idle: "res_fold idle_step evs w1 = Inr w2"
  shows "(ready \<longleftrightarrow> \<not> quiet_runtime w)
    \<and> (\<not> ready \<longrightarrow> g_woken w2 = g_woken w + of_bool (list_ex brings_work evs) \<and> (fst (wait_for_ready w2) \<longleftrightarrow> list_ex leaves_trace evs))"
proof -
  have ready: "ready \<longleftrightarrow> \<not> quiet_runtime w" using wait_for_ready_iff [OF inv] wait by simp
  moreover have "g_woken w2 = g_woken w + of_bool (list_ex brings_work evs) \<and> (fst (wait_for_ready w2) \<longleftrightarrow> list_ex leaves_trace evs)" if "\<not> ready"
  proof -
    have "w1 = w\<lparr>g_need_wake := True, g_waker := True\<rparr>" using wait that by (auto simp: wait_for_ready_def Let_def split: if_splits)
    then have "idle_inv (g_woken w) False False w1" using inv ready that by (simp add: idle_inv_def quiet_runtime_def)
    from idle_inv_run [OF this idle] show ?thesis using wait_for_ready_iff [of w2] by (auto simp: idle_inv_def)
  qed
  ultimately show ?thesis by blast
qed

text \<open>The new runtime waits; a source is dropped, then a waker is called twice: one call of the registered waker.\<close>

theorem wait_no_lost_wakeup_witness:
  "\<exists>w1 w2. wait_for_ready ex_r0 = (False, w1)
     \<and> res_fold idle_step [IdleSourcesDropped [\<lparr>src_node = 1, src_slot = 0, src_key = 0\<rparr>], IdleWake 7, IdleWake 7] w1 = Inr w2
     \<and> g_woken w2 = Suc (g_woken ex_r0) \<and> fst (wait_for_ready w2)"
proof -
  have e: "bk_is_empty (bk_new :: 'b buckets)" by (simp add: bk_inv_is_empty [OF bk_new_inv])
  have wait: "wait_for_ready ex_r0 = (False, snd (wait_for_ready ex_r0))"
    by (simp add: wait_for_ready_def Let_def new_with_config_fields(2) [OF ex_r0(1)] globals_new_fields e)
      (simp add: globals_new_def world.defs)
  have inv: "bk_inv (g_actions ex_r0)" "bk_inv (g_reactions ex_r0)"
    using ex_r0(2,5) by (simp_all add: bk_new_inv ex_start_def)
  obtain w2 where w2: "res_fold idle_step [IdleSourcesDropped [\<lparr>src_node = 1, src_slot = 0, src_key = 0\<rparr>], IdleWake 7, IdleWake 7] (snd (wait_for_ready ex_r0)) = Inr w2"
    by simp
  from wait_no_lost_wakeup [OF inv wait w2] wait w2 show ?thesis by auto
qed

subsection \<open>The life of a runtime\<close>

text \<open>
  C8. Within a session exactly one place holds the runtime: one of the live handles, or the
  thread's globals. It is in the globals exactly when the innermost open scope is a lend.
\<close>

theorem session_one_holder:
  assumes "session L sc hs w"
  shows "length (filter rt_raw hs) + of_bool (g_runtime w) = 1 \<and> (g_runtime w \<longleftrightarrow> sc \<noteq> [] \<and> hd sc = ScLend)
    \<and> (rt_raw (hd hs) \<longleftrightarrow> \<not> g_runtime w)"
  using session_fields [OF assms] by blast

text \<open>
  C9. \<open>Runtime::try_call\<close> succeeds within a session exactly when the innermost open scope is a lend,
  so never in a call that is already running; it fails with \<open>RuntimeUnavailable\<close> otherwise. The
  second runtime of a thread is refused. When the scope of a call ends, the runtime goes back to the lender.
\<close>

theorem session_calls:
  assumes s: "session L sc hs w"
  shows "try_call w = (if sc \<noteq> [] \<and> hd sc = ScLend then Inr (\<lparr>rt_owned = False, rt_raw = True\<rparr>, w\<lparr>g_runtime := False\<rparr>) else Inl CallUnavailable)
    \<and> new_with_config L c w = Inl RuntimeExists
    \<and> (\<forall>h w1 f. try_call w = Inr (h, w1) \<longrightarrow> runtime_drop L f h w1 = Inr w)"
proof -
  note f = session_fields [OF s]
  have "try_call w = (if g_runtime w then Inr (\<lparr>rt_owned = False, rt_raw = True\<rparr>, w\<lparr>g_runtime := False\<rparr>) else Inl CallUnavailable)"
    using f(1) by (simp add: try_call_def)
  moreover obtain cfg where "g_config w = Some cfg" using f(1) by auto
  then have "new_with_config L c w = Inl RuntimeExists" by (simp add: new_with_config_def prepare_runtime_def)
  ultimately show ?thesis using f(2) by (auto simp: runtime_drop_def)
qed

lemma ex_session: "session ex_L [ScLend] [\<lparr>rt_owned = True, rt_raw = False\<rparr>] (ex_r0\<lparr>g_runtime := True\<rparr>)"
proof -
  have "session ex_L [] [\<lparr>rt_owned = True, rt_raw = True\<rparr>] ex_r0"
    by (rule session_new [OF ex_r0(1)]) (simp add: globals_new_fields)
  from session_lend [OF this] show ?thesis by (simp add: lend_def)
qed

theorem session_one_holder_witness:
  "length (filter rt_raw [\<lparr>rt_owned = True, rt_raw = False\<rparr>]) + of_bool (g_runtime (ex_r0\<lparr>g_runtime := True\<rparr>)) = 1"
  using session_one_holder [OF ex_session] by blast

theorem session_calls_witness:
  "try_call (ex_r0\<lparr>g_runtime := True\<rparr>) = Inr (\<lparr>rt_owned = False, rt_raw = True\<rparr>, ex_r0\<lparr>g_runtime := False\<rparr>)"
  using session_calls [OF ex_session, of config_default] by simp

text \<open>
  C10. Dropping a runtime returns, whatever asynchronous actions are suspended: it cancels all of
  them, empties the queues and frees the thread, so a new runtime can be created there.
\<close>

theorem runtime_drop_then_new:
  assumes L: "slabs_laws L" and r: "reach L G w" and h: "rt_owned h" "rt_raw h"
  shows "\<exists>w' h' w''. runtime_drop L (Suc (Suc f)) h w = Inr w' \<and> (\<forall>i. \<not> async_live w' i) \<and> discards w' = []
    \<and> new_with_config L c w' = Inr (h', w'') \<and> rt_owned h' \<and> rt_raw h' \<and> g_config w'' = Some c"
proof -
  obtain w' where w': "runtime_drop L (Suc (Suc f)) h w = Inr w'" "g_config w' = None" "bk_ids (g_actions w') = []"
    "bk_ids (g_reactions w') = []" "discards w' = []" "\<forall>i. \<not> async_live w' i"
    using runtime_drop_ok [OF L goodD [OF reach_good [OF L r]] h] by blast
  have "prepare_runtime c w' = Inr ()" using w'(2-4) by (simp add: prepare_runtime_iff)
  then show ?thesis using w' by (simp add: new_with_config_def activate_runtime_def Let_def)
qed

theorem runtime_drop_then_new_witness:
  "\<exists>w'. runtime_drop ex_L 2 \<lparr>rt_owned = True, rt_raw = True\<rparr> ex_r = Inr w' \<and> discards w' = []"
  using runtime_drop_then_new [OF ex_L(1) ex_reach, of "\<lparr>rt_owned = True, rt_raw = True\<rparr>" 0] by (auto simp: numeral_2_eq_2)

end
