(* ===== verification/Index_Permutation.thy ===== *)
theory Index_Permutation
  imports Prelude "HOL-Library.Multiset"
begin

section \<open>Index permutations and ranges (utils.rs)\<close>

text \<open>
  \<open>IndexNewToOld\<close> is the permutation that a sort of a collection reports: position \<open>k\<close> of the new
  order holds the old index of its element. \<open>apply_to\<close> permutes a slice in place by following the
  cycles of the inverse. \<open>is_sorted\<close> and \<open>to_range\<close> are the other helpers of the collections.
\<close>

subsection \<open>Definitions\<close>

definition usize_max :: nat where
  "usize_max = 2 ^ 64 - 1"

definition slice_swap :: "nat \<Rightarrow> nat \<Rightarrow> 'a list \<Rightarrow> 'a list result" where
  "slice_swap i j xs = (if i < length xs \<and> j < length xs then Inr (list_swap i j xs) else Inl IndexOutOfBounds)"

definition build_old_to_new :: "nat list \<Rightarrow> nat list result" where
  "build_old_to_new new_to_old =
     res_fold (\<lambda>(new, old) o2n. if old < length o2n then Inr (o2n[old := new]) else Inl IndexOutOfBounds)
       (zip [0 ..< length new_to_old] new_to_old) (replicate (length new_to_old) usize_max)"

text \<open>The inner \<open>loop\<close> of \<open>apply_to\<close>; \<open>fuel\<close> bounds its rounds.\<close>

fun apply_cycle :: "nat \<Rightarrow> nat \<Rightarrow> 'a list \<times> nat list \<Rightarrow> ('a list \<times> nat list) result" where
  "apply_cycle 0 old s = Inl OutOfFuel"
| "apply_cycle (Suc fuel) old (xs, o2n) =
     res_bind (list_index o2n old) (\<lambda>new.
       if old = new then Inr (xs, o2n)
       else res_bind (slice_swap old new xs) (\<lambda>xs1.
            res_bind (slice_swap old new o2n) (\<lambda>o2n1. apply_cycle fuel old (xs1, o2n1))))"

definition apply_to :: "nat list \<Rightarrow> 'a list \<Rightarrow> 'a list result" where
  "apply_to new_to_old xs =
     res_bind (build_old_to_new new_to_old) (\<lambda>o2n.
     res_bind (res_fold (apply_cycle (Suc (length xs))) [0 ..< length xs] (xs, o2n)) (\<lambda>(ys, _). Inr ys))"

definition is_sorted :: "nat list \<Rightarrow> bool" where
  "is_sorted items = list_all (\<lambda>i. \<not> items ! (i - 1) > items ! i) [1 ..< length items]"

datatype bound = Included nat | Excluded nat | Unbounded

definition usize_succ :: "nat \<Rightarrow> nat result" where
  "usize_succ n = (if n < usize_max then Inr (n + 1) else Inl ArithOverflow)"

definition to_range :: "bound \<Rightarrow> bound \<Rightarrow> nat \<Rightarrow> (nat \<times> nat) result" where
  "to_range start_bound end_bound len =
     res_bind (case start_bound of Included n \<Rightarrow> Inr n | Excluded n \<Rightarrow> usize_succ n | Unbounded \<Rightarrow> Inr 0) (\<lambda>s.
     res_bind (case end_bound of Included n \<Rightarrow> usize_succ n | Excluded n \<Rightarrow> Inr n | Unbounded \<Rightarrow> Inr len) (\<lambda>e.
     res_bind (res_assert AssertFailed (s \<le> e)) (\<lambda>_.
     res_bind (res_assert AssertFailed (e \<le> len)) (\<lambda>_. Inr (s, e)))))"

subsection \<open>Sortedness and ranges\<close>

lemma is_sorted_iff: "is_sorted xs \<longleftrightarrow> sorted xs"
proof
  assume a: "is_sorted xs"
  show "sorted xs" unfolding sorted_iff_nth_Suc
  proof (intro allI impI)
    fix i assume "Suc i < length xs"
    then have "Suc i \<in> set [1 ..< length xs]" by simp
    with a have "\<not> xs ! (Suc i - 1) > xs ! Suc i" unfolding is_sorted_def list_all_iff by blast
    then show "xs ! i \<le> xs ! Suc i" by simp
  qed
next
  assume "sorted xs"
  then show "is_sorted xs" by (simp add: is_sorted_def list_all_iff not_less sorted_nth_mono)
qed

lemma to_range_ok: "to_range s e len = Inr (a, b) \<Longrightarrow> a \<le> b \<and> b \<le> len"
  unfolding to_range_def by (auto simp: res_bind_eq_Inr)

lemma to_range_full: "to_range Unbounded Unbounded len = Inr (0, len)"
  by (simp add: to_range_def)

subsection \<open>Permutations\<close>

definition is_perm :: "nat list \<Rightarrow> nat \<Rightarrow> bool" where
  "is_perm p n \<longleftrightarrow> length p = n \<and> distinct p \<and> (\<forall>i \<in> set p. i < n)"

lemma is_perm_set: "is_perm p n \<Longrightarrow> set p = {0 ..< n}"
proof -
  assume p: "is_perm p n"
  have "set p \<subseteq> {0 ..< n}" using p by (auto simp: is_perm_def)
  moreover have "card (set p) = card {0 ..< n}" using p by (simp add: is_perm_def distinct_card)
  ultimately show ?thesis by (intro card_subset_eq) simp_all
qed

lemma is_perm_nth: "is_perm p n \<Longrightarrow> i < n \<Longrightarrow> p ! i < n"
  by (simp add: is_perm_def)

lemma is_perm_upt: "is_perm [0 ..< n] n"
  by (simp add: is_perm_def)

lemma is_perm_sorted:
  assumes "is_perm p n" and "sorted p"
  shows "p = [0 ..< n]"
proof -
  have "set p = set [0 ..< n]" using is_perm_set [OF assms(1)] by simp
  moreover have "distinct p" using assms(1) by (simp add: is_perm_def)
  ultimately show ?thesis using assms(2) sorted_distinct_set_unique distinct_upt sorted_upt by blast
qed

lemma is_perm_mset: "is_perm p n \<longleftrightarrow> mset p = mset [0 ..< n]"
proof
  assume p: "is_perm p n"
  have "set p = set [0 ..< n]" using is_perm_set [OF p] by simp
  moreover have "distinct p" using p by (simp add: is_perm_def)
  ultimately show "mset p = mset [0 ..< n]" using set_eq_iff_mset_eq_distinct distinct_upt by blast
next
  assume m: "mset p = mset [0 ..< n]"
  then have "set p = {0 ..< n}" using mset_eq_setD [OF m] by simp
  then show "is_perm p n" using mset_eq_length [OF m] mset_eq_imp_distinct_iff [OF m] by (simp add: is_perm_def)
qed

lemma is_perm_swap: "is_perm p n \<Longrightarrow> i < n \<Longrightarrow> j < n \<Longrightarrow> is_perm (list_swap i j p) n"
  by (simp add: is_perm_def set_list_swap distinct_list_swap)

lemma map_nth_perm:
  assumes "is_perm p (length xs)"
  shows "mset (map ((!) xs) p) = mset xs"
proof -
  have "mset (map ((!) xs) p) = image_mset ((!) xs) (mset [0 ..< length xs])" using assms by (simp add: is_perm_mset)
  also have "\<dots> = mset (map ((!) xs) [0 ..< length xs])" by simp
  finally show ?thesis by (simp add: map_nth)
qed

subsection \<open>\<open>build_old_to_new\<close> is the inverse\<close>

lemma build_steps:
  assumes "\<forall>i \<in> set olds. i < length o2n" and "distinct olds" and "length news = length olds"
  shows "\<exists>o2n'. res_fold (\<lambda>(new, old) o2n. if old < length o2n then Inr (o2n[old := new]) else Inl IndexOutOfBounds) (zip news olds) o2n = Inr o2n'
    \<and> length o2n' = length o2n \<and> (\<forall>k < length olds. o2n' ! (olds ! k) = news ! k) \<and> (\<forall>i. i \<notin> set olds \<longrightarrow> o2n' ! i = o2n ! i)"
  using assms
proof (induction olds arbitrary: news o2n)
  case (Cons old olds)
  obtain new news' where n: "news = new # news'" using Cons.prems(3) by (cases news) auto
  have "\<exists>o2n'. res_fold (\<lambda>(new, old) o2n. if old < length o2n then Inr (o2n[old := new]) else Inl IndexOutOfBounds) (zip news' olds) (o2n[old := new]) = Inr o2n'
    \<and> length o2n' = length (o2n[old := new]) \<and> (\<forall>k < length olds. o2n' ! (olds ! k) = news' ! k) \<and> (\<forall>i. i \<notin> set olds \<longrightarrow> o2n' ! i = o2n[old := new] ! i)"
    by (rule Cons.IH) (use Cons.prems n in auto)
  then obtain o2n' where o: "res_fold (\<lambda>(new, old) o2n. if old < length o2n then Inr (o2n[old := new]) else Inl IndexOutOfBounds) (zip news' olds) (o2n[old := new]) = Inr o2n'"
    "length o2n' = length o2n" "\<forall>k < length olds. o2n' ! (olds ! k) = news' ! k" "\<forall>i. i \<notin> set olds \<longrightarrow> o2n' ! i = o2n[old := new] ! i" by auto
  have "o2n' ! ((old # olds) ! k) = news ! k" if "k < length (old # olds)" for k
    using that o(3,4) Cons.prems n by (cases k) auto
  then show ?case using o Cons.prems n by auto
qed simp

lemma build_old_to_new_ok:
  assumes "is_perm p n"
  shows "\<exists>q. build_old_to_new p = Inr q \<and> is_perm q n \<and> (\<forall>k < n. q ! (p ! k) = k) \<and> (\<forall>i < n. p ! (q ! i) = i)"
proof -
  have "\<exists>q. build_old_to_new p = Inr q \<and> length q = length (replicate (length p) usize_max) \<and> (\<forall>k < length p. q ! (p ! k) = [0 ..< length p] ! k)
    \<and> (\<forall>i. i \<notin> set p \<longrightarrow> q ! i = replicate (length p) usize_max ! i)"
    unfolding build_old_to_new_def by (rule build_steps) (use assms in \<open>auto simp: is_perm_def\<close>)
  then obtain q where q: "build_old_to_new p = Inr q" "length q = n" "\<forall>k < n. q ! (p ! k) = k"
    using assms by (auto simp: is_perm_def)
  have inv: "p ! (q ! i) = i \<and> q ! i < n" if "i < n" for i
  proof -
    have "i \<in> set p" using that is_perm_set [OF assms] by simp
    then obtain k where "k < n" "p ! k = i" using assms by (auto simp: in_set_conv_nth is_perm_def)
    then show ?thesis using q(3) by auto
  qed
  have "distinct q" unfolding distinct_conv_nth using inv q(2) by metis
  then have "is_perm q n" using q(2) inv by (auto simp: is_perm_def in_set_conv_nth)
  then show ?thesis using q inv by blast
qed

subsection \<open>\<open>apply_to\<close> permutes\<close>

text \<open>Element \<open>i\<close> of \<open>xs\<close> has to move to position \<open>o2n ! i\<close> of \<open>ys\<close>.\<close>

definition heads_to :: "'a list \<Rightarrow> 'a list \<times> nat list \<Rightarrow> bool" where
  "heads_to ys = (\<lambda>(xs, o2n). length xs = length ys \<and> is_perm o2n (length ys) \<and> (\<forall>i < length ys. ys ! (o2n ! i) = xs ! i))"

definition unplaced :: "nat list \<Rightarrow> nat set" where
  "unplaced o2n = {i. i < length o2n \<and> o2n ! i \<noteq> i}"

lemma finite_unplaced [simp]: "finite (unplaced o2n)"
  by (simp add: unplaced_def)

lemma apply_cycle_ok:
  assumes "heads_to ys (xs, o2n)" and "old < length ys" and "card (unplaced o2n) < fuel"
  shows "\<exists>xs' o2n'. apply_cycle fuel old (xs, o2n) = Inr (xs', o2n') \<and> heads_to ys (xs', o2n') \<and> unplaced o2n' \<subseteq> unplaced o2n - {old}"
  using assms
proof (induction fuel arbitrary: xs o2n)
  case (Suc fuel)
  let ?n = "length ys" and ?new = "o2n ! old"
  have h: "length xs = ?n" "is_perm o2n ?n" "\<forall>i < ?n. ys ! (o2n ! i) = xs ! i" using Suc.prems(1) by (simp_all add: heads_to_def)
  have l: "length o2n = ?n" and d: "distinct o2n" using h(2) by (simp_all add: is_perm_def)
  show ?case
  proof (cases "old = ?new")
    case True
    then have "unplaced o2n \<subseteq> unplaced o2n - {old}" by (auto simp: unplaced_def)
    then show ?thesis using True Suc.prems(1,2) l by (simp add: list_index_def)
  next
    case False
    have new: "?new < ?n" by (rule is_perm_nth [OF h(2) Suc.prems(2)])
    have nn: "o2n ! ?new \<noteq> ?new" using d False new Suc.prems(2) l by (metis nth_eq_iff_index_eq)
    let ?xs = "list_swap old ?new xs" and ?o = "list_swap old ?new o2n"
    have H: "heads_to ys (?xs, ?o)"
      using h is_perm_swap [OF h(2) Suc.prems(2) new] Suc.prems(2) new l by (auto simp: heads_to_def list_swap_def nth_list_update)
    have sub: "unplaced ?o \<subseteq> unplaced o2n - {?new}"
      using False nn new Suc.prems(2) l by (auto simp: unplaced_def list_swap_def nth_list_update split: if_splits)
    have "?new \<in> unplaced o2n" using nn new l by (simp add: unplaced_def)
    then have "card (unplaced ?o) < card (unplaced o2n)" using sub by (intro psubset_card_mono) auto
    then have "card (unplaced ?o) < fuel" using Suc.prems(3) by simp
    from Suc.IH [OF H Suc.prems(2) this] obtain xs' o2n' where r: "apply_cycle fuel old (?xs, ?o) = Inr (xs', o2n')"
      "heads_to ys (xs', o2n')" "unplaced o2n' \<subseteq> unplaced ?o - {old}" by blast
    then show ?thesis using False new Suc.prems(2) l h(1) sub by (auto simp: list_index_def slice_swap_def)
  qed
qed simp

lemma apply_cycles_ok:
  assumes "heads_to ys (xs, o2n)" and "\<forall>i \<in> set is. i < length ys"
  shows "\<exists>xs' o2n'. res_fold (apply_cycle (Suc (length ys))) is (xs, o2n) = Inr (xs', o2n') \<and> heads_to ys (xs', o2n')
    \<and> unplaced o2n' \<subseteq> unplaced o2n - set is"
  using assms
proof (induction "is" arbitrary: xs o2n)
  case (Cons i "is")
  have "unplaced o2n \<subseteq> {..< length ys}" using Cons.prems(1) by (auto simp: heads_to_def is_perm_def unplaced_def)
  then have "card (unplaced o2n) < Suc (length ys)" using card_mono [of "{..< length ys}" "unplaced o2n"] by simp
  from apply_cycle_ok [OF Cons.prems(1) _ this, of i] Cons.prems(2) obtain xs1 o1 where
    s: "apply_cycle (Suc (length ys)) i (xs, o2n) = Inr (xs1, o1)" "heads_to ys (xs1, o1)" "unplaced o1 \<subseteq> unplaced o2n - {i}" by auto
  from Cons.IH [OF s(2)] Cons.prems(2) obtain xs' o' where
    "res_fold (apply_cycle (Suc (length ys))) is (xs1, o1) = Inr (xs', o')" "heads_to ys (xs', o')" "unplaced o' \<subseteq> unplaced o1 - set is" by auto
  then show ?case using s by (intro exI [of _ xs'] exI [of _ o']) (auto simp del: apply_cycle.simps)
qed simp

lemma apply_to_perm:
  assumes "is_perm p (length xs)"
  shows "apply_to p xs = Inr (map ((!) xs) p)"
proof -
  let ?ys = "map ((!) xs) p"
  obtain q where q: "build_old_to_new p = Inr q" "is_perm q (length xs)" "\<forall>i < length xs. p ! (q ! i) = i"
    using build_old_to_new_ok [OF assms] by blast
  have l: "length ?ys = length xs" using assms by (simp add: is_perm_def)
  have "heads_to ?ys (xs, q)" using q assms is_perm_nth [OF q(2)] by (auto simp: heads_to_def is_perm_def)
  from apply_cycles_ok [OF this, of "[0 ..< length xs]"] l obtain xs' q' where
    r: "res_fold (apply_cycle (Suc (length xs))) [0 ..< length xs] (xs, q) = Inr (xs', q')"
    "heads_to ?ys (xs', q')" "unplaced q' \<subseteq> unplaced q - {0 ..< length xs}" by auto
  have lq: "length q' = length xs" "length xs' = length xs" using r(2) l by (auto simp: heads_to_def is_perm_def)
  have "unplaced q' = {}" using r(3) q(2) by (auto simp: unplaced_def is_perm_def)
  then have "q' ! i = i" if "i < length xs" for i using that lq by (auto simp: unplaced_def)
  then have "xs' = ?ys" using r(2) l lq by (intro nth_equalityI) (auto simp: heads_to_def)
  then show ?thesis using q(1) r(1) by (simp add: apply_to_def del: apply_cycle.simps)
qed

end
