(* ===== verification/Change_Log.thy ===== *)
theory Change_Log
  imports Prelude "HOL-Library.Word" "HOL-Library.Multiset"
begin

section \<open>The change log of a change feed (utils.rs)\<close>

text \<open>
  \<open>Changes\<close> is a queue of changes with one reference count per position: the number of readers
  whose cursor stands before that change, and \<open>end_ref_count\<close> for the readers at the end. A
  position is named by its age, a \<open>usize\<close> that wraps around. \<open>RefCountOps\<close> collects changes of the
  counts while the queue is borrowed. Reference counts are kept as \<open>nat\<close>, with the overflow check of the
  source written out.

  The specification is a list \<open>log\<close> of all changes ever pushed: the queue holds \<open>drop base log\<close>,
  the age of position \<open>p\<close> is \<open>p\<close> modulo the word size, and after \<open>RefCountOps::apply\<close> each count
  is the number of readers at its position.
\<close>

type_synonym age = "64 word"

record 'a change =
  ch_data :: 'a
  ch_rc :: nat

record 'a changes =
  age_base :: age
  log_items :: "'a change list"
  end_rc :: nat

subsection \<open>Changes\<close>

definition changes_new :: "'a changes" where
  "changes_new = \<lparr>age_base = 0, log_items = [], end_rc = 0\<rparr>"

definition changes_push :: "'a \<Rightarrow> 'a changes \<Rightarrow> 'a changes" where
  "changes_push x c = c\<lparr>end_rc := 0, log_items := log_items c @ [\<lparr>ch_data = x, ch_rc = end_rc c\<rparr>]\<rparr>"

definition checked_add :: "nat \<Rightarrow> nat \<Rightarrow> nat result" where
  "checked_add n k = (if n + k < 2 ^ 64 then Inr (n + k) else Inl RefCountOverflow)"

lemma checked_add_code [code]: "checked_add n k = (if int (n + k) < 18446744073709551616 then Inr (n + k) else Inl RefCountOverflow)"
  by (simp add: checked_add_def flip: of_nat_less_iff)

definition checked_sub :: "nat \<Rightarrow> nat \<Rightarrow> nat result" where
  "checked_sub n k = (if k \<le> n then Inr (n - k) else Inl RefCountUnderflow)"

definition end_age :: "'a changes \<Rightarrow> age" where
  "end_age c = age_base c + of_nat (length (log_items c))"

definition age_to_index :: "age \<Rightarrow> 'a changes \<Rightarrow> nat result" where
  "age_to_index a c =
     (let i = unat (a - age_base c)
      in res_bind (res_assert AssertFailed (i \<le> length (log_items c))) (\<lambda>_. Inr i))"

definition modify_ref_count :: "(nat \<Rightarrow> nat result) \<Rightarrow> age \<Rightarrow> 'a changes \<Rightarrow> 'a changes result" where
  "modify_ref_count f a c =
     res_bind (age_to_index a c) (\<lambda>i.
       if i = length (log_items c) then res_bind (f (end_rc c)) (\<lambda>n. Inr (c\<lparr>end_rc := n\<rparr>))
       else res_bind (f (ch_rc (log_items c ! i))) (\<lambda>n.
              Inr (c\<lparr>log_items := (log_items c)[i := (log_items c ! i)\<lparr>ch_rc := n\<rparr>]\<rparr>)))"

definition increment_ref_count :: "nat \<Rightarrow> 'a changes \<Rightarrow> 'a changes result" where
  "increment_ref_count k c = res_bind (checked_add (end_rc c) k) (\<lambda>n. Inr (c\<lparr>end_rc := n\<rparr>))"

definition increment_ref_count_at :: "age \<Rightarrow> 'a changes \<Rightarrow> 'a changes result" where
  "increment_ref_count_at = modify_ref_count (\<lambda>n. checked_add n 1)"

definition decrement_ref_count :: "age \<Rightarrow> 'a changes \<Rightarrow> 'a changes result" where
  "decrement_ref_count = modify_ref_count (\<lambda>n. checked_sub n 1)"

text \<open>\<open>Changes::clean\<close>: pops the changes nobody can read any more and hands them to \<open>f\<close>.\<close>

fun clean_items :: "('a \<Rightarrow> 'm \<Rightarrow> 'm) \<Rightarrow> 'a change list \<Rightarrow> age \<Rightarrow> 'm \<Rightarrow> 'a change list \<times> age \<times> 'm" where
  "clean_items f [] a m = ([], a, m)"
| "clean_items f (x # xs) a m =
     (if ch_rc x \<noteq> 0 then (x # xs, a, m) else clean_items f xs (a + 1) (f (ch_data x) m))"

definition changes_clean :: "('a \<Rightarrow> 'm \<Rightarrow> 'm) \<Rightarrow> 'a changes \<Rightarrow> 'm \<Rightarrow> 'a changes \<times> 'm" where
  "changes_clean f c m =
     (let (xs, a, m1) = clean_items f (log_items c) (age_base c) m in (c\<lparr>log_items := xs, age_base := a\<rparr>, m1))"

definition changes_items :: "age \<Rightarrow> 'a changes \<Rightarrow> 'a list result" where
  "changes_items a c = res_bind (age_to_index a c) (\<lambda>i. Inr (map ch_data (drop i (log_items c))))"

subsection \<open>RefCountOps\<close>

record ref_count_ops =
  increments :: nat
  increment_ages :: "age list"
  decrement_ages :: "age list"

definition ops_new :: ref_count_ops where
  "ops_new = \<lparr>increments = 0, increment_ages = [], decrement_ages = []\<rparr>"

lemma ops_new_sel [simp]: "increments ops_new = 0" "increment_ages ops_new = []" "decrement_ages ops_new = []"
  by (simp_all add: ops_new_def)

definition ops_increment :: "ref_count_ops \<Rightarrow> ref_count_ops" where
  "ops_increment r = r\<lparr>increments := increments r + 1\<rparr>"

definition ops_increment_at :: "age \<Rightarrow> ref_count_ops \<Rightarrow> ref_count_ops" where
  "ops_increment_at a r = r\<lparr>increment_ages := increment_ages r @ [a]\<rparr>"

definition ops_decrement :: "age option \<Rightarrow> ref_count_ops \<Rightarrow> ref_count_ops" where
  "ops_decrement a r = (case a of None \<Rightarrow> r | Some b \<Rightarrow> r\<lparr>decrement_ages := decrement_ages r @ [b]\<rparr>)"

text \<open>\<open>RefCountOps::apply\<close>; \<open>Vec::pop\<close> takes the ages from the back.\<close>

definition ops_apply :: "ref_count_ops \<Rightarrow> 'a changes \<Rightarrow> (ref_count_ops \<times> 'a changes) result" where
  "ops_apply r c =
     res_bind (increment_ref_count (increments r) c) (\<lambda>c1.
     res_bind (res_fold increment_ref_count_at (rev (increment_ages r)) c1) (\<lambda>c2.
     res_bind (res_fold decrement_ref_count (rev (decrement_ages r)) c2) (\<lambda>c3.
       Inr (\<lparr>increments = 0, increment_ages = [], decrement_ages = []\<rparr>, c3))))"

subsection \<open>The queue as a window on the log\<close>

definition log_window :: "'a list \<Rightarrow> nat \<Rightarrow> 'a changes \<Rightarrow> bool" where
  "log_window log base c \<longleftrightarrow> base \<le> length log \<and> map ch_data (log_items c) = drop base log \<and> age_base c = of_nat base
     \<and> length log - base < 2 ^ 64"

definition rc_at :: "'a changes \<Rightarrow> nat \<Rightarrow> nat" where
  "rc_at c i = (if i = length (log_items c) then end_rc c else ch_rc (log_items c ! i))"

lemma log_window_length: "log_window log base c \<Longrightarrow> length (log_items c) = length log - base"
  by (auto simp: log_window_def dest: arg_cong [of _ _ length])

lemma unat_age_diff:
  assumes "base \<le> p" and "p - base < 2 ^ 64"
  shows "unat (of_nat p - of_nat base :: age) = p - base"
proof -
  have "(of_nat p - of_nat base :: age) = of_nat (p - base)" using assms(1) by (simp add: of_nat_diff)
  then show ?thesis using assms(2) by (simp add: unat_of_nat)
qed

lemma age_to_index_window:
  assumes "log_window log base c" and "base \<le> p" and "p \<le> length log"
  shows "age_to_index (of_nat p) c = Inr (p - base)"
proof -
  have "p - base < 2 ^ 64" using assms by (auto simp: log_window_def)
  moreover have "p - base \<le> length (log_items c)" using log_window_length [OF assms(1)] assms(3) by simp
  ultimately show ?thesis using assms unat_age_diff [of base p] by (simp add: age_to_index_def Let_def log_window_def)
qed

lemma end_age_window: "log_window log base c \<Longrightarrow> end_age c = of_nat (length log)"
  using log_window_length [of log base c] by (simp add: end_age_def log_window_def flip: of_nat_add)

lemma changes_items_window:
  assumes "log_window log base c" and "base \<le> p" and "p \<le> length log"
  shows "changes_items (of_nat p) c = Inr (drop p log)"
proof -
  have "map ch_data (drop (p - base) (log_items c)) = drop (p - base) (drop base log)"
    using assms(1) by (simp add: log_window_def flip: drop_map)
  then show ?thesis using assms(2) age_to_index_window [OF assms] by (simp add: changes_items_def)
qed

lemma modify_ref_count_window:
  assumes "log_window log base c" and "base \<le> p" and "p \<le> length log" and f: "f (rc_at c (p - base)) = Inr n"
  shows "\<exists>c'. modify_ref_count f (of_nat p) c = Inr c' \<and> log_window log base c'
    \<and> (\<forall>q. base \<le> q \<and> q \<le> length log \<longrightarrow> rc_at c' (q - base) = (if q = p then n else rc_at c (q - base)))"
proof (cases "p = length log")
  case True
  let ?c = "c\<lparr>end_rc := n\<rparr>"
  have i: "p - base = length (log_items c)" using log_window_length [OF assms(1)] True by simp
  have "modify_ref_count f (of_nat p) c = Inr ?c"
    using age_to_index_window [OF assms(1-3)] f by (simp add: modify_ref_count_def i rc_at_def)
  moreover have "log_window log base ?c" using assms(1) by (simp add: log_window_def)
  moreover have "rc_at ?c (q - base) = (if q = p then n else rc_at c (q - base))" if "base \<le> q" "q \<le> length log" for q
    using that True log_window_length [OF assms(1)] by (auto simp: rc_at_def)
  ultimately show ?thesis by blast
next
  case False
  let ?i = "p - base"
  let ?c = "c\<lparr>log_items := (log_items c)[?i := (log_items c ! ?i)\<lparr>ch_rc := n\<rparr>]\<rparr>"
  have i: "?i < length (log_items c)" using log_window_length [OF assms(1)] False assms(2,3) by simp
  have "modify_ref_count f (of_nat p) c = Inr ?c"
    using age_to_index_window [OF assms(1-3)] f i by (simp add: modify_ref_count_def rc_at_def)
  moreover have "map ch_data (log_items ?c) = map ch_data (log_items c)"
    using i by (simp add: map_update) (metis list_update_id map_update length_map nth_map)
  then have "log_window log base ?c" using assms(1) by (simp add: log_window_def)
  moreover have "rc_at ?c (q - base) = (if q = p then n else rc_at c (q - base))" if "base \<le> q" "q \<le> length log" for q
    using that i assms(2) by (auto simp: rc_at_def nth_list_update)
  ultimately show ?thesis by blast
qed

text \<open>Applying a list of increments, and of decrements, changes each count by the number of times its age occurs.\<close>

lemma increments_window:
  assumes "log_window log base c" and "set ps \<subseteq> {base..length log}"
    and "\<And>p. p \<in> {base..length log} \<Longrightarrow> rc_at c (p - base) + count (mset ps) p < 2 ^ 64"
  shows "\<exists>c'. res_fold increment_ref_count_at (map of_nat ps) c = Inr c' \<and> log_window log base c'
    \<and> (\<forall>p \<in> {base..length log}. rc_at c' (p - base) = rc_at c (p - base) + count (mset ps) p)"
  using assms
proof (induction ps arbitrary: c)
  case (Cons q ps)
  have q: "base \<le> q" "q \<le> length log" using Cons.prems(2) by auto
  have "rc_at c (q - base) + 1 < 2 ^ 64" using Cons.prems(3) [of q] q by simp
  then have "checked_add (rc_at c (q - base)) 1 = Inr (rc_at c (q - base) + 1)" by (simp add: checked_add_def)
  from modify_ref_count_window [where f = "\<lambda>n. checked_add n 1", OF Cons.prems(1) q this]
  obtain c1 where c1: "increment_ref_count_at (of_nat q) c = Inr c1" "log_window log base c1"
    "\<And>p. base \<le> p \<and> p \<le> length log \<Longrightarrow> rc_at c1 (p - base) = (if p = q then rc_at c (q - base) + 1 else rc_at c (p - base))"
    unfolding increment_ref_count_at_def by blast
  have "rc_at c1 (p - base) + count (mset ps) p < 2 ^ 64" if "p \<in> {base..length log}" for p
    using Cons.prems(3) [OF that] c1(3) that by (auto split: if_splits)
  from Cons.IH [OF c1(2) _ this] obtain c' where "res_fold increment_ref_count_at (map of_nat ps) c1 = Inr c'" "log_window log base c'"
    "\<forall>p \<in> {base..length log}. rc_at c' (p - base) = rc_at c1 (p - base) + count (mset ps) p"
    using Cons.prems(2) by auto
  then show ?case using c1(1,3) by auto
qed simp

lemma decrements_window:
  assumes "log_window log base c" and "set ps \<subseteq> {base..length log}"
    and "\<And>p. p \<in> {base..length log} \<Longrightarrow> count (mset ps) p \<le> rc_at c (p - base)"
  shows "\<exists>c'. res_fold decrement_ref_count (map of_nat ps) c = Inr c' \<and> log_window log base c'
    \<and> (\<forall>p \<in> {base..length log}. rc_at c' (p - base) + count (mset ps) p = rc_at c (p - base))"
  using assms
proof (induction ps arbitrary: c)
  case (Cons q ps)
  have q: "base \<le> q" "q \<le> length log" using Cons.prems(2) by auto
  have "1 \<le> rc_at c (q - base)" using Cons.prems(3) [of q] q by simp
  then have "checked_sub (rc_at c (q - base)) 1 = Inr (rc_at c (q - base) - 1)" by (simp add: checked_sub_def)
  from modify_ref_count_window [where f = "\<lambda>n. checked_sub n 1", OF Cons.prems(1) q this]
  obtain c1 where c1: "decrement_ref_count (of_nat q) c = Inr c1" "log_window log base c1"
    "\<And>p. base \<le> p \<and> p \<le> length log \<Longrightarrow> rc_at c1 (p - base) = (if p = q then rc_at c (q - base) - 1 else rc_at c (p - base))"
    unfolding decrement_ref_count_def by blast
  have "count (mset ps) p \<le> rc_at c1 (p - base)" if "p \<in> {base..length log}" for p
    using Cons.prems(3) [OF that] c1(3) that by (auto split: if_splits)
  from Cons.IH [OF c1(2) _ this] obtain c' where "res_fold decrement_ref_count (map of_nat ps) c1 = Inr c'" "log_window log base c'"
    "\<forall>p \<in> {base..length log}. rc_at c' (p - base) + count (mset ps) p = rc_at c1 (p - base)"
    using Cons.prems(2) by auto
  then show ?case using c1(1,3) \<open>1 \<le> rc_at c (q - base)\<close> by auto
qed simp

subsection \<open>Counting readers\<close>

text \<open>
  \<open>R\<close> is the multiset of the positions at which readers stand. The counts of the queue and the
  pending operations together account for exactly these readers.
\<close>

definition counts_ok :: "nat multiset \<Rightarrow> 'a list \<Rightarrow> nat \<Rightarrow> ref_count_ops \<Rightarrow> 'a changes \<Rightarrow> bool" where
  "counts_ok R log base r c \<longleftrightarrow> log_window log base c \<and> set_mset R \<subseteq> {base..length log}
     \<and> (\<exists>ips dps. increment_ages r = map of_nat ips \<and> decrement_ages r = map of_nat dps
          \<and> set ips \<subseteq> {base..length log} \<and> set dps \<subseteq> {base..length log}
          \<and> (\<forall>p \<in> {base..length log}. rc_at c (p - base) + (if p = length log then increments r else 0) + count (mset ips) p
               = count R p + count (mset dps) p))"

lemma counts_okE:
  assumes "counts_ok R log base r c"
  obtains ips dps where "log_window log base c" and "set_mset R \<subseteq> {base..length log}" and "increment_ages r = map of_nat ips"
    and "decrement_ages r = map of_nat dps" and "set ips \<subseteq> {base..length log}" and "set dps \<subseteq> {base..length log}"
    and "\<And>p. p \<in> {base..length log} \<Longrightarrow> rc_at c (p - base) + (if p = length log then increments r else 0) + count (mset ips) p
               = count R p + count (mset dps) p"
  using assms unfolding counts_ok_def by blast

lemma counts_okI:
  assumes "log_window log base c" and "set_mset R \<subseteq> {base..length log}" and "increment_ages r = map of_nat ips"
    and "decrement_ages r = map of_nat dps" and "set ips \<subseteq> {base..length log}" and "set dps \<subseteq> {base..length log}"
    and "\<And>p. p \<in> {base..length log} \<Longrightarrow> rc_at c (p - base) + (if p = length log then increments r else 0) + count (mset ips) p
               = count R p + count (mset dps) p"
  shows "counts_ok R log base r c"
  using assms unfolding counts_ok_def by blast

lemma counts_ok_applied:
  "counts_ok R log base ops_new c \<longleftrightarrow> log_window log base c \<and> set_mset R \<subseteq> {base..length log}
     \<and> (\<forall>p \<in> {base..length log}. rc_at c (p - base) = count R p)"
proof
  assume "counts_ok R log base ops_new c"
  then show "log_window log base c \<and> set_mset R \<subseteq> {base..length log} \<and> (\<forall>p \<in> {base..length log}. rc_at c (p - base) = count R p)"
    by (rule counts_okE) (simp cong: if_cong)
next
  assume a: "log_window log base c \<and> set_mset R \<subseteq> {base..length log} \<and> (\<forall>p \<in> {base..length log}. rc_at c (p - base) = count R p)"
  show "counts_ok R log base ops_new c"
    by (rule counts_okI [where ips = "[]" and dps = "[]"]) (use a in \<open>simp_all add: ops_new_def\<close>)
qed

lemma counts_ok_new: "counts_ok {#} [] 0 ops_new changes_new"
  by (simp add: counts_ok_applied log_window_def changes_new_def rc_at_def)

lemma ops_apply_ok:
  assumes ok: "counts_ok R log base r c" and small: "size R + length (decrement_ages r) < 2 ^ 64"
  shows "\<exists>c'. ops_apply r c = Inr (ops_new, c') \<and> counts_ok R log base ops_new c'"
proof -
  obtain ips dps where w: "log_window log base c" and R: "set_mset R \<subseteq> {base..length log}" and ips: "increment_ages r = map of_nat ips"
    and dps: "decrement_ages r = map of_nat dps" and sub: "set ips \<subseteq> {base..length log}" "set dps \<subseteq> {base..length log}"
    and cnt: "\<And>p. p \<in> {base..length log} \<Longrightarrow> rc_at c (p - base) + (if p = length log then increments r else 0) + count (mset ips) p
               = count R p + count (mset dps) p"
    using counts_okE [OF ok] by blast
  have bound: "count R p + count (mset dps) p < 2 ^ 64" for p
    using count_le_size [of R p] count_le_size [of "mset dps" p] small by (simp add: dps)
  let ?e = "length log"
  have be: "base \<le> ?e" using w by (simp add: log_window_def)
  have rce: "rc_at c (?e - base) = end_rc c" using log_window_length [OF w] by (simp add: rc_at_def)
  have "end_rc c + increments r < 2 ^ 64" using cnt [of ?e] be bound [of ?e] rce by simp
  define c1 where "c1 = c\<lparr>end_rc := end_rc c + increments r\<rparr>"
  have c1: "increment_ref_count (increments r) c = Inr c1"
    using \<open>end_rc c + increments r < 2 ^ 64\<close> by (simp add: increment_ref_count_def checked_add_def c1_def)
  have w1: "log_window log base c1" using w by (simp add: log_window_def c1_def)
  have rc1: "rc_at c1 (p - base) = rc_at c (p - base) + (if p = ?e then increments r else 0)" if "p \<in> {base..?e}" for p
    using that log_window_length [OF w] by (auto simp: rc_at_def c1_def)
  have rsub: "set (rev ips) \<subseteq> {base..?e}" "set (rev dps) \<subseteq> {base..?e}" using sub by simp_all
  have "rc_at c1 (p - base) + count (mset (rev ips)) p < 2 ^ 64" if "p \<in> {base..?e}" for p
    using cnt [OF that] rc1 [OF that] bound [of p] by simp
  from increments_window [OF w1 rsub(1) this] obtain c2 where c2: "res_fold increment_ref_count_at (map of_nat (rev ips)) c1 = Inr c2"
    "log_window log base c2" "\<forall>p \<in> {base..?e}. rc_at c2 (p - base) = rc_at c1 (p - base) + count (mset (rev ips)) p" by blast
  have "count (mset (rev dps)) p \<le> rc_at c2 (p - base)" if "p \<in> {base..?e}" for p
    using cnt [OF that] rc1 [OF that] c2(3) that by simp
  from decrements_window [OF c2(2) rsub(2) this] obtain c3 where c3: "res_fold decrement_ref_count (map of_nat (rev dps)) c2 = Inr c3"
    "log_window log base c3" "\<forall>p \<in> {base..?e}. rc_at c3 (p - base) + count (mset (rev dps)) p = rc_at c2 (p - base)" by blast
  have "rc_at c3 (p - base) = count R p" if "p \<in> {base..?e}" for p
    using cnt [OF that] rc1 [OF that] c2(3) c3(3) that by fastforce
  then have "counts_ok R log base ops_new c3" using c3(2) R by (simp add: counts_ok_applied)
  moreover have "ops_apply r c = Inr (ops_new, c3)"
    using c1 c2(1) c3(1) by (simp add: ops_apply_def ips dps rev_map ops_new_def)
  ultimately show ?thesis by blast
qed

subsection \<open>Cleaning\<close>

lemma clean_items_eq:
  "clean_items f xs a m = (let n = length (takeWhile (\<lambda>x. ch_rc x = 0) xs)
     in (drop n xs, a + of_nat n, fold f (map ch_data (take n xs)) m))"
  by (induction f xs a m rule: clean_items.induct) (simp_all add: Let_def add.assoc)

text \<open>
  Cleaning releases a prefix of the queue, in order, up to the first position where a reader
  stands: nothing a reader can still see, and everything before that.
\<close>

lemma changes_clean_ok:
  assumes ok: "counts_ok R log base ops_new c"
  shows "\<exists>base' c'. changes_clean f c m = (c', fold f (take (base' - base) (drop base log)) m) \<and> base \<le> base'
    \<and> counts_ok R log base' ops_new c' \<and> (base' = length log \<or> base' \<in># R)"
proof -
  have w: "log_window log base c" and R: "set_mset R \<subseteq> {base..length log}" and cnt: "\<And>p. p \<in> {base..length log} \<Longrightarrow> rc_at c (p - base) = count R p"
    using ok by (simp_all add: counts_ok_applied)
  let ?xs = "log_items c"
  define n where "n = length (takeWhile (\<lambda>x. ch_rc x = 0) ?xs)"
  have n: "n \<le> length ?xs" by (simp add: n_def length_takeWhile_le)
  have len: "length ?xs = length log - base" and be: "base \<le> length log" using log_window_length [OF w] w by (simp_all add: log_window_def)
  define c' where "c' = c\<lparr>log_items := drop n ?xs, age_base := age_base c + of_nat n\<rparr>"
  have zero: "ch_rc (?xs ! i) = 0" if "i < n" for i
    using that nth_mem [of i "takeWhile (\<lambda>x. ch_rc x = 0) ?xs"] unfolding n_def by (metis takeWhile_nth set_takeWhileD)
  have clean: "changes_clean f c m = (c', fold f (take (base + n - base) (drop base log)) m)"
    using w by (simp add: changes_clean_def clean_items_eq Let_def n_def [symmetric] c'_def log_window_def flip: take_map)
  have w': "log_window log (base + n) c'" using w n len by (auto simp: log_window_def c'_def add.commute simp flip: drop_map)
  have rc': "rc_at c' (p - (base + n)) = rc_at c (p - base)" if "p \<in> {base + n..length log}" for p
  proof -
    have "p - base = n + (p - (base + n))" using that by simp
    moreover have "(p - (base + n) = length (drop n ?xs)) = (n + (p - (base + n)) = length ?xs)" using n by auto
    ultimately show ?thesis using n that len be by (auto simp: rc_at_def c'_def)
  qed
  have none: "p \<notin># R" if "base \<le> p" "p < base + n" for p
  proof -
    have i: "p - base < n" using that by simp
    then have "rc_at c (p - base) = 0" using zero [OF i] n by (simp add: rc_at_def)
    moreover have "p \<in> {base..length log}" using that n len by simp
    ultimately have "count R p = 0" using cnt by simp
    then show ?thesis by (simp only: count_eq_zero_iff not_False_eq_True)
  qed
  have R': "set_mset R \<subseteq> {base + n..length log}"
  proof
    fix p assume p: "p \<in># R"
    then have "p \<in> {base..length log}" using R by blast
    moreover have "\<not> p < base + n" using none p calculation by auto
    ultimately show "p \<in> {base + n..length log}" by simp
  qed
  have "counts_ok R log (base + n) ops_new c'" using w' R' rc' cnt by (simp add: counts_ok_applied)
  moreover have "base + n \<in># R" if "base + n \<noteq> length log"
  proof -
    have "n < length ?xs" using n that len be by auto
    then have "ch_rc (?xs ! n) \<noteq> 0" using nth_length_takeWhile [of "\<lambda>x. ch_rc x = 0" ?xs] by (simp add: n_def)
    then have "count R (base + n) \<noteq> 0" using cnt [of "base + n"] \<open>n < length ?xs\<close> len by (simp add: rc_at_def)
    then show ?thesis by (simp add: count_eq_zero_iff)
  qed
  ultimately show ?thesis using clean by (intro exI [of _ "base + n"] exI [of _ c']) auto
qed

lemma changes_push_ok:
  assumes ok: "counts_ok R log base r c" and inc: "increments r = 0" and room: "Suc (length log) - base < 2 ^ 64"
  shows "counts_ok R (log @ [x]) base r (changes_push x c)"
proof -
  obtain ips dps where w: "log_window log base c" and R: "set_mset R \<subseteq> {base..length log}" and ips: "increment_ages r = map of_nat ips"
    and dps: "decrement_ages r = map of_nat dps" and sub: "set ips \<subseteq> {base..length log}" "set dps \<subseteq> {base..length log}"
    and cnt: "\<And>p. p \<in> {base..length log} \<Longrightarrow> rc_at c (p - base) + (if p = length log then increments r else 0) + count (mset ips) p
               = count R p + count (mset dps) p"
    using counts_okE [OF ok] by blast
  let ?c = "changes_push x c"
  have len: "length (log_items c) = length log - base" and be: "base \<le> length log" using log_window_length [OF w] w by (simp_all add: log_window_def)
  show ?thesis
  proof (rule counts_okI [OF _ _ ips dps])
    show "log_window (log @ [x]) base ?c" using w room by (simp add: log_window_def changes_push_def)
    show "set_mset R \<subseteq> {base..length (log @ [x])}" "set ips \<subseteq> {base..length (log @ [x])}" "set dps \<subseteq> {base..length (log @ [x])}"
      using R sub by auto
    fix p assume p: "p \<in> {base..length (log @ [x])}"
    show "rc_at ?c (p - base) + (if p = length (log @ [x]) then increments r else 0) + count (mset ips) p = count R p + count (mset dps) p"
    proof (cases "p = Suc (length log)")
      case True
      have "p \<notin># R" "p \<notin># mset ips" "p \<notin># mset dps" using R sub True by auto
      then have z: "count R p = 0" "count (mset ips) p = 0" "count (mset dps) p = 0" by (simp_all only: count_eq_zero_iff not_False_eq_True)
      have z2: "rc_at ?c (p - base) = 0" using len be True by (simp add: rc_at_def changes_push_def Suc_diff_le)
      show ?thesis unfolding z z2 inc by simp
    next
      case False
      then have "p \<in> {base..length log}" using p by simp
      moreover have "rc_at ?c (p - base) = rc_at c (p - base)"
        using calculation len be by (auto simp: rc_at_def changes_push_def nth_append)
      ultimately show ?thesis using cnt [of p] inc False by (simp cong: if_cong)
    qed
  qed
qed

subsection \<open>Deferred operations on the counts\<close>

lemma counts_increment:
  assumes "counts_ok R log base r c"
  shows "counts_ok (add_mset (length log) R) log base (ops_increment r) c"
proof -
  obtain ips dps where w: "log_window log base c" and a: "set_mset R \<subseteq> {base..length log}" "increment_ages r = map of_nat ips"
    "decrement_ages r = map of_nat dps" "set ips \<subseteq> {base..length log}" "set dps \<subseteq> {base..length log}"
    and cnt: "\<And>p. p \<in> {base..length log} \<Longrightarrow> rc_at c (p - base) + (if p = length log then increments r else 0) + count (mset ips) p
               = count R p + count (mset dps) p"
    using counts_okE [OF assms] by blast
  have "base \<le> length log" using w by (simp add: log_window_def)
  show ?thesis
    by (rule counts_okI [where ips = ips and dps = dps, OF w])
      (use a cnt \<open>base \<le> length log\<close> in \<open>simp_all add: ops_increment_def cong: if_cong\<close>, fastforce)
qed

lemma counts_increment_at:
  assumes "counts_ok R log base r c" and "p \<in># R"
  shows "counts_ok (add_mset p R) log base (ops_increment_at (of_nat p) r) c"
proof -
  obtain ips dps where w: "log_window log base c" and a: "set_mset R \<subseteq> {base..length log}" "increment_ages r = map of_nat ips"
    "decrement_ages r = map of_nat dps" "set ips \<subseteq> {base..length log}" "set dps \<subseteq> {base..length log}"
    and cnt: "\<And>p. p \<in> {base..length log} \<Longrightarrow> rc_at c (p - base) + (if p = length log then increments r else 0) + count (mset ips) p
               = count R p + count (mset dps) p"
    using counts_okE [OF assms(1)] by blast
  show ?thesis
  proof (rule counts_okI [where ips = "ips @ [p]" and dps = dps, OF w])
    fix q assume "q \<in> {base..length log}"
    from cnt [OF this] show "rc_at c (q - base) + (if q = length log then increments (ops_increment_at (of_nat p) r) else 0) + count (mset (ips @ [p])) q
        = count (add_mset p R) q + count (mset dps) q"
      by (auto simp: ops_increment_at_def split: if_splits)
  qed (use a assms(2) in \<open>auto simp: ops_increment_at_def\<close>)
qed

lemma counts_decrement:
  assumes "counts_ok R log base r c" and "p \<in># R"
  shows "counts_ok (R - {#p#}) log base (ops_decrement (Some (of_nat p)) r) c"
proof -
  obtain ips dps where w: "log_window log base c" and a: "set_mset R \<subseteq> {base..length log}" "increment_ages r = map of_nat ips"
    "decrement_ages r = map of_nat dps" "set ips \<subseteq> {base..length log}" "set dps \<subseteq> {base..length log}"
    and cnt: "\<And>p. p \<in> {base..length log} \<Longrightarrow> rc_at c (p - base) + (if p = length log then increments r else 0) + count (mset ips) p
               = count R p + count (mset dps) p"
    using counts_okE [OF assms(1)] by blast
  obtain k where k: "count R p = Suc k" using assms(2) by (metis count_greater_zero_iff gr0_implies_Suc)
  show ?thesis
  proof (rule counts_okI [where ips = ips and dps = "dps @ [p]", OF w])
    fix q assume "q \<in> {base..length log}"
    from cnt [OF this] show "rc_at c (q - base) + (if q = length log then increments (ops_decrement (Some (of_nat p)) r) else 0) + count (mset ips) q
        = count (R - {#p#}) q + count (mset (dps @ [p])) q"
      by (cases "q = p") (simp_all add: ops_decrement_def k cong: if_cong)
  next
    show "set_mset (R - {#p#}) \<subseteq> {base..length log}" using a(1) by (meson in_diffD subset_iff)
  qed (use a assms(2) in \<open>auto simp: ops_decrement_def\<close>)
qed

end
