(* ===== verification/Change_Feed.thy ===== *)
theory Change_Feed
  imports Change_Log
begin

section \<open>Change feeds (building_blocks/change_feed.rs)\<close>

text \<open>
  A change feed keeps the current value of a model together with the changes that some reader has
  not read yet. \<open>ChangeFeedStorage\<close> is the record \<open>feed\<close>: the history (model and changes) in a
  \<open>RefCell\<close> whose outstanding shared borrows are counted by \<open>fd_shared\<close>, and the pending
  \<open>RefCountOps\<close>. The model's \<open>release_change\<close> is a parameter of the operations.

  The locale \<open>feed_model\<close> is the contract between the feed and a model: what releasing a change
  nobody can read, and editing, keep. In it, whatever readers, guards and edits come and go, the delta
  that a reader sees turns the value of its last read into the current one.
\<close>

subsection \<open>Storage\<close>

record ('m, 'c) feed =
  fd_current :: 'm
  fd_changes :: "'c changes"
  fd_ops :: ref_count_ops
  fd_shared :: nat
  fd_excl :: bool

record feed_ref =
  fr_since :: "age option"

datatype 'c feed_delta = DeltaInitial | DeltaIncremental "'c list"

datatype edit_finish = FinishNone | FinishTrack | FinishNotify | FinishSchedule

record feed_edit =
  fe_start :: age
  fe_dirty :: bool
  fe_finish :: edit_finish

record feed_reader =
  rd_cursor :: "age option"

definition feed_new :: "'m \<Rightarrow> ('m, 'c) feed" where
  "feed_new m = \<lparr>fd_current = m, fd_changes = changes_new, fd_ops = ops_new, fd_shared = 0, fd_excl = False\<rparr>"

definition end_cursor :: "('m, 'c) feed \<Rightarrow> age" where
  "end_cursor st = end_age (fd_changes st)"

definition feed_compact :: "('c \<Rightarrow> 'm \<Rightarrow> 'm) \<Rightarrow> ('m, 'c) feed \<Rightarrow> ('m, 'c) feed result" where
  "feed_compact rel st =
     (if fd_shared st \<noteq> 0 \<or> fd_excl st then Inr st
      else res_bind (ops_apply (fd_ops st) (fd_changes st)) (\<lambda>(r, c).
        let (c1, m) = changes_clean rel c (fd_current st)
        in Inr (st\<lparr>fd_ops := r, fd_changes := c1, fd_current := m\<rparr>)))"

text \<open>\<open>history.borrow()\<close>.\<close>

definition borrow_history :: "('m, 'c) feed \<Rightarrow> ('m, 'c) feed result" where
  "borrow_history st = (if fd_excl st then Inl BorrowMutError else Inr (st\<lparr>fd_shared := Suc (fd_shared st)\<rparr>))"

definition borrow_since :: "('c \<Rightarrow> 'm \<Rightarrow> 'm) \<Rightarrow> age option \<Rightarrow> ('m, 'c) feed \<Rightarrow> (feed_ref \<times> ('m, 'c) feed) result" where
  "borrow_since rel since st =
     res_bind (feed_compact rel st) (\<lambda>st1. res_bind (borrow_history st1) (\<lambda>st2. Inr (\<lparr>fr_since = since\<rparr>, st2)))"

definition borrow_current :: "('c \<Rightarrow> 'm \<Rightarrow> 'm) \<Rightarrow> ('m, 'c) feed \<Rightarrow> (feed_ref \<times> ('m, 'c) feed) result" where
  "borrow_current rel st =
     res_bind (feed_compact rel st) (\<lambda>st1. res_bind (borrow_history st1) (\<lambda>st2.
       Inr (\<lparr>fr_since = Some (end_cursor st2)\<rparr>, st2)))"

text \<open>\<open>try_borrow_current\<close> does not compact; its error is a value, not a panic.\<close>

definition try_borrow_current :: "('m, 'c) feed \<Rightarrow> (feed_ref \<times> ('m, 'c) feed) option" where
  "try_borrow_current st =
     (if fd_excl st then None
      else Some (\<lparr>fr_since = Some (end_cursor st)\<rparr>, st\<lparr>fd_shared := Suc (fd_shared st)\<rparr>))"

definition current_ref :: "('c \<Rightarrow> 'm \<Rightarrow> 'm) \<Rightarrow> ('m, 'c) feed \<Rightarrow> ('m \<times> ('m, 'c) feed) result" where
  "current_ref rel st =
     res_bind (feed_compact rel st) (\<lambda>st1. res_bind (borrow_history st1) (\<lambda>st2. Inr (fd_current st2, st2)))"

definition begin_edit :: "('c \<Rightarrow> 'm \<Rightarrow> 'm) \<Rightarrow> ('m, 'c) feed \<Rightarrow> (feed_edit \<times> ('m, 'c) feed) result" where
  "begin_edit rel st =
     res_bind (feed_compact rel st) (\<lambda>st1.
       if fd_shared st1 \<noteq> 0 \<or> fd_excl st1 then Inl BorrowMutError
       else Inr (\<lparr>fe_start = end_cursor st1, fe_dirty = False, fe_finish = FinishNone\<rparr>, st1\<lparr>fd_excl := True\<rparr>))"

definition storage_reader :: "('m, 'c) feed \<Rightarrow> feed_reader" where
  "storage_reader st = \<lparr>rd_cursor = None\<rparr>"

definition retain_cursor :: "('c \<Rightarrow> 'm \<Rightarrow> 'm) \<Rightarrow> age \<Rightarrow> ('m, 'c) feed \<Rightarrow> ('m, 'c) feed result" where
  "retain_cursor rel a st = feed_compact rel (st\<lparr>fd_ops := ops_increment_at a (fd_ops st)\<rparr>)"

definition advance_cursor :: "('c \<Rightarrow> 'm \<Rightarrow> 'm) \<Rightarrow> age option \<Rightarrow> ('m, 'c) feed \<Rightarrow> (age \<times> ('m, 'c) feed) result" where
  "advance_cursor rel old st =
     res_bind (borrow_history st) (\<lambda>_.
       let e = end_cursor st
       in res_bind (feed_compact rel (st\<lparr>fd_ops := ops_increment (ops_decrement old (fd_ops st))\<rparr>)) (\<lambda>st1. Inr (e, st1)))"

definition release_cursor :: "('c \<Rightarrow> 'm \<Rightarrow> 'm) \<Rightarrow> age \<Rightarrow> ('m, 'c) feed \<Rightarrow> ('m, 'c) feed result" where
  "release_cursor rel a st = feed_compact rel (st\<lparr>fd_ops := ops_decrement (Some a) (fd_ops st)\<rparr>)"

subsection \<open>Guards\<close>

definition ref_current :: "feed_ref \<Rightarrow> ('m, 'c) feed \<Rightarrow> 'm" where
  "ref_current g st = fd_current st"

definition ref_delta :: "feed_ref \<Rightarrow> ('m, 'c) feed \<Rightarrow> 'c feed_delta result" where
  "ref_delta g st = (case fr_since g of None \<Rightarrow> Inr DeltaInitial
     | Some a \<Rightarrow> res_bind (changes_items a (fd_changes st)) (\<lambda>cs. Inr (DeltaIncremental cs)))"

definition ref_drop :: "('c \<Rightarrow> 'm \<Rightarrow> 'm) \<Rightarrow> ('m, 'c) feed \<Rightarrow> ('m, 'c) feed result" where
  "ref_drop rel st = feed_compact rel (st\<lparr>fd_shared := fd_shared st - 1\<rparr>)"

definition with_finish :: "edit_finish \<Rightarrow> feed_edit \<Rightarrow> feed_edit" where
  "with_finish f e = e\<lparr>fe_finish := f\<rparr>"

text \<open>\<open>is_dirty\<close> with its \<open>debug_assert_eq!\<close>.\<close>

definition edit_is_dirty :: "feed_edit \<Rightarrow> ('m, 'c) feed \<Rightarrow> bool result" where
  "edit_is_dirty e st =
     res_bind (res_assert AssertFailed (fe_dirty e = (fe_start e \<noteq> end_age (fd_changes st)))) (\<lambda>_. Inr (fe_dirty e))"

definition edit_changes :: "feed_edit \<Rightarrow> ('m, 'c) feed \<Rightarrow> 'c list result" where
  "edit_changes e st = changes_items (fe_start e) (fd_changes st)"

definition edit_current_mut :: "('m \<Rightarrow> 'm) \<Rightarrow> ('m, 'c) feed \<Rightarrow> ('m, 'c) feed" where
  "edit_current_mut f st = st\<lparr>fd_current := f (fd_current st)\<rparr>"

definition edit_record :: "'c \<Rightarrow> feed_edit \<times> ('m, 'c) feed \<Rightarrow> feed_edit \<times> ('m, 'c) feed" where
  "edit_record x = (\<lambda>(e, st). (e\<lparr>fe_dirty := True\<rparr>, st\<lparr>fd_changes := changes_push x (fd_changes st)\<rparr>))"

text \<open>Dropping an edit: what is left to do for the owner is the \<open>EditFinish\<close>, if the edit is dirty.\<close>

definition edit_drop :: "('c \<Rightarrow> 'm \<Rightarrow> 'm) \<Rightarrow> feed_edit \<Rightarrow> ('m, 'c) feed \<Rightarrow> (edit_finish \<times> ('m, 'c) feed) result" where
  "edit_drop rel e st =
     res_bind (edit_is_dirty e st) (\<lambda>d.
     res_bind (feed_compact rel (st\<lparr>fd_excl := False\<rparr>)) (\<lambda>st1.
       Inr (if \<not> d then FinishNone else fe_finish e, st1)))"

subsection \<open>Cursor readers\<close>

definition reader_read :: "('c \<Rightarrow> 'm \<Rightarrow> 'm) \<Rightarrow> feed_reader \<Rightarrow> ('m, 'c) feed \<Rightarrow> (feed_ref \<times> feed_reader \<times> ('m, 'c) feed) result" where
  "reader_read rel r st =
     res_bind (borrow_since rel (rd_cursor r) st) (\<lambda>(g, st1).
     res_bind (advance_cursor rel (rd_cursor r) st1) (\<lambda>(e, st2). Inr (g, r\<lparr>rd_cursor := Some e\<rparr>, st2)))"

definition reader_peek :: "('c \<Rightarrow> 'm \<Rightarrow> 'm) \<Rightarrow> feed_reader \<Rightarrow> ('m, 'c) feed \<Rightarrow> (feed_ref \<times> ('m, 'c) feed) result" where
  "reader_peek rel r st = borrow_since rel (rd_cursor r) st"

definition reader_clone :: "('c \<Rightarrow> 'm \<Rightarrow> 'm) \<Rightarrow> feed_reader \<Rightarrow> ('m, 'c) feed \<Rightarrow> (feed_reader \<times> ('m, 'c) feed) result" where
  "reader_clone rel r st =
     res_bind (case rd_cursor r of None \<Rightarrow> Inr st | Some a \<Rightarrow> retain_cursor rel a st) (\<lambda>st1. Inr (r, st1))"

definition reader_drop :: "('c \<Rightarrow> 'm \<Rightarrow> 'm) \<Rightarrow> feed_reader \<Rightarrow> ('m, 'c) feed \<Rightarrow> ('m, 'c) feed result" where
  "reader_drop rel r st = (case rd_cursor r of None \<Rightarrow> Inr st | Some a \<Rightarrow> release_cursor rel a st)"

text \<open>
  An edit from \<open>begin_edit\<close> to its drop. Each operation of a collection mutates the model and says
  which changes it records.
\<close>

definition edit_step :: "('m \<Rightarrow> ('m \<times> 'c list) result) \<Rightarrow> feed_edit \<times> ('m, 'c) feed \<Rightarrow> (feed_edit \<times> ('m, 'c) feed) result" where
  "edit_step f = (\<lambda>(e, st). res_bind (f (fd_current st)) (\<lambda>(m, ds).
     Inr (fold edit_record ds (e, edit_current_mut (\<lambda>_. m) st))))"

definition feed_edit_run ::
    "('c \<Rightarrow> 'm \<Rightarrow> 'm) \<Rightarrow> edit_finish \<Rightarrow> ('m \<Rightarrow> ('m \<times> 'c list) result) list \<Rightarrow> ('m, 'c) feed \<Rightarrow> (edit_finish \<times> ('m, 'c) feed) result" where
  "feed_edit_run rel fin fs st =
     res_bind (begin_edit rel st) (\<lambda>(e, st1).
     res_bind (res_fold edit_step fs (with_finish fin e, st1)) (\<lambda>(e1, st2). edit_drop rel e1 st2))"

subsection \<open>The contract of a model\<close>

text \<open>
  \<open>own m cs\<close>: the model owns everything that the retained changes \<open>cs\<close> refer to. \<open>view\<close> is what a
  client sees; \<open>replay m c\<close> replays a change on a view, with the values that \<open>m\<close> holds for it.
  \<open>edit m ds m'\<close>: an operation of the collection takes \<open>m\<close> to \<open>m'\<close> and records \<open>ds\<close>.
\<close>

locale feed_model =
  fixes release :: "'c \<Rightarrow> 'm \<Rightarrow> 'm"
    and own :: "'m \<Rightarrow> 'c list \<Rightarrow> bool"
    and view :: "'m \<Rightarrow> 'x"
    and replay :: "'m \<Rightarrow> 'c \<Rightarrow> 'x \<Rightarrow> 'x"
    and edit :: "'m \<Rightarrow> 'c list \<Rightarrow> 'm \<Rightarrow> bool"
  assumes release_own: "own m (c # cs) \<Longrightarrow> own (release c m) cs"
    and release_view: "own m (c # cs) \<Longrightarrow> view (release c m) = view m"
    and release_replay: "own m (c # cs) \<Longrightarrow> d \<in> set cs \<Longrightarrow> replay (release c m) d x = replay m d x"
    and edit_own: "own m cs \<Longrightarrow> edit m ds m' \<Longrightarrow> own m' (cs @ ds)"
    and edit_view: "own m cs \<Longrightarrow> edit m ds m' \<Longrightarrow> fold (replay m') ds (view m) = view m'"
    and edit_replay: "own m cs \<Longrightarrow> edit m ds m' \<Longrightarrow> d \<in> set cs \<Longrightarrow> replay m' d x = replay m d x"

text \<open>Every position of \<open>Q\<close>, with the value seen there, replays to the current value.\<close>

definition feed_sound :: "('m \<Rightarrow> 'c list \<Rightarrow> bool) \<Rightarrow> ('m \<Rightarrow> 'x) \<Rightarrow> ('m \<Rightarrow> 'c \<Rightarrow> 'x \<Rightarrow> 'x) \<Rightarrow> 'm \<Rightarrow> 'c list \<Rightarrow> nat \<Rightarrow> (nat \<times> 'x) set \<Rightarrow> bool" where
  "feed_sound own view replay m log base Q \<longleftrightarrow> own m (drop base log)
     \<and> (\<forall>(p, x) \<in> Q. base \<le> p \<and> p \<le> length log \<and> fold (replay m) (drop p log) x = view m)"

text \<open>
  The invariant between operations. \<open>P\<close>: the live readers that have read, as their position and
  the value they saw; \<open>S\<close>: the live guards, \<open>None\<close> for one whose delta is \<open>Initial\<close>.
\<close>

definition feed_inv ::
    "('m \<Rightarrow> 'c list \<Rightarrow> bool) \<Rightarrow> ('m \<Rightarrow> 'x) \<Rightarrow> ('m \<Rightarrow> 'c \<Rightarrow> 'x \<Rightarrow> 'x) \<Rightarrow> ('m, 'c) feed \<Rightarrow> 'c list
       \<Rightarrow> (nat \<times> 'x) multiset \<Rightarrow> (nat \<times> 'x) option multiset \<Rightarrow> bool" where
  "feed_inv own view replay st log P S \<longleftrightarrow> \<not> fd_excl st \<and> size S = fd_shared st
     \<and> (\<exists>base. counts_ok (image_mset fst P) log base (fd_ops st) (fd_changes st)
          \<and> feed_sound own view replay (fd_current st) log base (set_mset P \<union> {px. Some px \<in># S}))"

text \<open>Fewer readers and unread changes than a \<open>usize\<close> counts.\<close>

definition feed_room :: "('m, 'c) feed \<Rightarrow> 'a multiset \<Rightarrow> nat \<Rightarrow> bool" where
  "feed_room st P k \<longleftrightarrow> size P + length (decrement_ages (fd_ops st)) + 2 < 2 ^ 64 \<and> length (log_items (fd_changes st)) + k < 2 ^ 64"

text \<open>The state after a compaction: no pending counts, and some reader stands before the oldest change.\<close>

definition compacted :: "('m, 'c) feed \<Rightarrow> bool" where
  "compacted st \<longleftrightarrow> fd_ops st = ops_new \<and> (log_items (fd_changes st) = [] \<or> ch_rc (hd (log_items (fd_changes st))) \<noteq> 0)"

lemma clean_items_hd: "clean_items f xs a m = (ys, b, m1) \<Longrightarrow> ys = [] \<or> ch_rc (hd ys) \<noteq> 0"
  by (induction f xs a m rule: clean_items.induct) (auto split: if_splits)

lemma compact_compacted: "feed_compact rel st = Inr st' \<Longrightarrow> fd_shared st = 0 \<Longrightarrow> \<not> fd_excl st \<Longrightarrow> compacted st'"
  by (auto simp: feed_compact_def ops_apply_def res_bind_eq_Inr ops_new_def Let_def compacted_def changes_clean_def
      split: prod.splits dest: clean_items_hd)

text \<open>With no reader left, nothing is retained.\<close>

lemma compacted_empty:
  assumes "feed_inv own view replay st log {#} {#}" and "compacted st"
  shows "log_items (fd_changes st) = []"
proof (rule ccontr)
  assume ne: "log_items (fd_changes st) \<noteq> []"
  obtain base where c: "counts_ok {#} log base ops_new (fd_changes st)" using assms by (auto simp: feed_inv_def compacted_def)
  have w: "log_window log base (fd_changes st)" using c by (simp add: counts_ok_applied)
  have "0 < length (log_items (fd_changes st))" using ne by simp
  then have "base < length log" using log_window_length [OF w] by simp
  then have "rc_at (fd_changes st) 0 = 0" using c by (simp add: counts_ok_applied) (metis atLeastAtMost_iff diff_self_eq_0 le_refl less_imp_le)
  then show False using ne assms(2) by (simp add: rc_at_def compacted_def hd_conv_nth)
qed

lemma feed_invE:
  assumes "feed_inv own view replay st log P S"
  obtains base where "\<not> fd_excl st" and "size S = fd_shared st" and "counts_ok (image_mset fst P) log base (fd_ops st) (fd_changes st)"
    and "feed_sound own view replay (fd_current st) log base (set_mset P \<union> {px. Some px \<in># S})"
  using assms unfolding feed_inv_def by blast

lemma feed_invI:
  assumes "\<not> fd_excl st" and "size S = fd_shared st" and "counts_ok (image_mset fst P) log base (fd_ops st) (fd_changes st)"
    and "feed_sound own view replay (fd_current st) log base (set_mset P \<union> {px. Some px \<in># S})"
  shows "feed_inv own view replay st log P S"
  using assms unfolding feed_inv_def by blast

lemma feed_sound_subset:
  "feed_sound own view replay m log base Q \<Longrightarrow> Q' \<subseteq> Q \<Longrightarrow> feed_sound own view replay m log base Q'"
  unfolding feed_sound_def by blast

lemma feed_sound_end:
  assumes "feed_sound own view replay m log base Q" and "base \<le> length log"
  shows "feed_sound own view replay m log base (insert (length log, view m) Q)"
  using assms by (auto simp: feed_sound_def)

context feed_model
begin

lemma release_fold:
  "own m (cs @ ds) \<Longrightarrow> own (fold release cs m) ds \<and> view (fold release cs m) = view m
     \<and> (\<forall>d \<in> set ds. \<forall>x. replay (fold release cs m) d x = replay m d x)"
proof (induction cs arbitrary: m)
  case (Cons c cs)
  then have o: "own (release c m) (cs @ ds)" and v: "view (release c m) = view m"
    using release_own release_view by simp_all
  have "replay (release c m) d x = replay m d x" if "d \<in> set ds" for d x
    using release_replay [of m c "cs @ ds" d x] Cons.prems that by simp
  then show ?case using Cons.IH [OF o] v by simp
qed simp

lemma sound_release:
  assumes s: "feed_sound own view replay m log base Q" and le: "base \<le> base'" and Q: "\<And>p x. (p, x) \<in> Q \<Longrightarrow> base' \<le> p"
  shows "feed_sound own view replay (fold release (take (base' - base) (drop base log)) m) log base' Q"
    and "view (fold release (take (base' - base) (drop base log)) m) = view m"
proof -
  let ?m = "fold release (take (base' - base) (drop base log)) m"
  have split: "drop base log = take (base' - base) (drop base log) @ drop base' log"
    using le by (metis append_take_drop_id drop_drop le_add_diff_inverse2)
  have o: "own m (take (base' - base) (drop base log) @ drop base' log)" using s split by (simp add: feed_sound_def)
  note r = release_fold [OF o]
  show v: "view ?m = view m" using r by blast
  have "fold (replay ?m) (drop p log) x = view ?m" if px: "(p, x) \<in> Q" for p x
  proof -
    have "fold (replay ?m) (drop p log) x = fold (replay m) (drop p log) x"
    proof (rule fold_cong)
      fix d assume "d \<in> set (drop p log)"
      then have d: "d \<in> set (drop base' log)" using set_drop_subset_set_drop [OF Q [OF px], of log] by blast
      show "replay ?m d = replay m d" by (rule ext) (rule r [THEN conjunct2, THEN conjunct2, THEN bspec, OF d, THEN spec])
    qed simp_all
    then show ?thesis using s px v by (auto simp: feed_sound_def)
  qed
  then show "feed_sound own view replay ?m log base' Q" using r s Q by (auto simp: feed_sound_def)
qed

lemma compact_ok:
  assumes inv: "feed_inv own view replay st log P S" and small: "size P + length (decrement_ages (fd_ops st)) < 2 ^ 64"
  shows "\<exists>st'. feed_compact release st = Inr st' \<and> feed_inv own view replay st' log P S \<and> fd_shared st' = fd_shared st
    \<and> view (fd_current st') = view (fd_current st) \<and> (fd_shared st = 0 \<longrightarrow> fd_ops st' = ops_new \<and> compacted st')
    \<and> (fd_shared st \<noteq> 0 \<longrightarrow> st' = st) \<and> length (log_items (fd_changes st')) \<le> length (log_items (fd_changes st))"
proof (cases "fd_shared st = 0")
  case False
  then show ?thesis using inv by (simp add: feed_compact_def)
next
  case True
  obtain base where e: "\<not> fd_excl st" "size S = fd_shared st" and c: "counts_ok (image_mset fst P) log base (fd_ops st) (fd_changes st)"
    and s: "feed_sound own view replay (fd_current st) log base (set_mset P \<union> {px. Some px \<in># S})"
    by (rule feed_invE [OF inv])
  have S: "S = {#}" using e(2) True by simp
  obtain c1 where c1: "ops_apply (fd_ops st) (fd_changes st) = Inr (ops_new, c1)" "counts_ok (image_mset fst P) log base ops_new c1"
    using ops_apply_ok [OF c] small by auto
  let ?m = "\<lambda>b. fold release (take (b - base) (drop base log)) (fd_current st)"
  obtain base' c2 where c2: "changes_clean release c1 (fd_current st) = (c2, ?m base')" "base \<le> base'"
    "counts_ok (image_mset fst P) log base' ops_new c2"
    using changes_clean_ok [OF c1(2), where f = release and m = "fd_current st"] by blast
  have pos: "base' \<le> p" if "(p, x) \<in># P" for p x
  proof -
    have "set_mset (image_mset fst P) \<subseteq> {base'..length log}" using c2(3) by (simp add: counts_ok_applied)
    then show ?thesis using that by force
  qed
  define st' where "st' = st\<lparr>fd_ops := ops_new, fd_changes := c2, fd_current := ?m base'\<rparr>"
  have "feed_compact release st = Inr st'"
    using True e(1) c1(1) c2(1) by (simp add: feed_compact_def st'_def)
  moreover have s': "feed_sound own view replay (?m base') log base' (set_mset P)" "view (?m base') = view (fd_current st)"
    using sound_release [OF s c2(2)] pos S by auto
  then have "feed_inv own view replay st' log P S"
    by (intro feed_invI [where base = base']) (use e c2(3) S True in \<open>simp_all add: st'_def\<close>)
  moreover have "length (log_items c2) \<le> length (log_items (fd_changes st))"
  proof -
    have "log_window log base' c2" "log_window log base (fd_changes st)" using c2(3) c by (simp_all add: counts_ok_def)
    then show ?thesis using c2(2) by (simp add: log_window_length)
  qed
  moreover have "compacted st'" by (rule compact_compacted [OF calculation(1) True e(1)])
  ultimately show ?thesis using s'(2) True by (intro exI [of _ st']) (simp add: st'_def)
qed

lemma add_guard_ok:
  assumes inv: "feed_inv own view replay st log P S"
    and g: "g = None \<or> (\<exists>px. g = Some px \<and> (px \<in># P \<or> px = (length log, view (fd_current st))))"
  shows "borrow_history st = Inr (st\<lparr>fd_shared := Suc (fd_shared st)\<rparr>)"
    and "feed_inv own view replay (st\<lparr>fd_shared := Suc (fd_shared st)\<rparr>) log P (add_mset g S)"
proof -
  obtain base where e: "\<not> fd_excl st" "size S = fd_shared st" and c: "counts_ok (image_mset fst P) log base (fd_ops st) (fd_changes st)"
    and s: "feed_sound own view replay (fd_current st) log base (set_mset P \<union> {px. Some px \<in># S})"
    by (rule feed_invE [OF inv])
  show "borrow_history st = Inr (st\<lparr>fd_shared := Suc (fd_shared st)\<rparr>)" using e by (simp add: borrow_history_def)
  have "base \<le> length log" using c by (simp add: counts_ok_def log_window_def)
  from feed_sound_end [OF s this]
  have "feed_sound own view replay (fd_current st) log base (set_mset P \<union> {px. Some px \<in># add_mset g S})"
    by (rule feed_sound_subset) (use g in auto)
  then show "feed_inv own view replay (st\<lparr>fd_shared := Suc (fd_shared st)\<rparr>) log P (add_mset g S)"
    by (intro feed_invI [where base = base]) (use e c in simp_all)
qed

lemma drop_guard_ok:
  assumes inv: "feed_inv own view replay st log P (add_mset g S)"
  shows "feed_inv own view replay (st\<lparr>fd_shared := fd_shared st - 1\<rparr>) log P S"
proof -
  obtain base where e: "\<not> fd_excl st" "size (add_mset g S) = fd_shared st" and c: "counts_ok (image_mset fst P) log base (fd_ops st) (fd_changes st)"
    and s: "feed_sound own view replay (fd_current st) log base (set_mset P \<union> {px. Some px \<in># add_mset g S})"
    by (rule feed_invE [OF inv])
  have "feed_sound own view replay (fd_current st) log base (set_mset P \<union> {px. Some px \<in># S})"
    by (rule feed_sound_subset [OF s]) auto
  then show ?thesis by (intro feed_invI [where base = base]) (use e c in simp_all)
qed

lemma delta_ok:
  assumes inv: "feed_inv own view replay st log P S" and g: "Some (p, x) \<in># S"
  shows "ref_delta \<lparr>fr_since = Some (of_nat p)\<rparr> st = Inr (DeltaIncremental (drop p log))"
    and "fold (replay (fd_current st)) (drop p log) x = view (fd_current st)"
proof -
  obtain base where c: "counts_ok (image_mset fst P) log base (fd_ops st) (fd_changes st)"
    and s: "feed_sound own view replay (fd_current st) log base (set_mset P \<union> {px. Some px \<in># S})"
    by (rule feed_invE [OF inv])
  have "base \<le> p \<and> p \<le> length log \<and> fold (replay (fd_current st)) (drop p log) x = view (fd_current st)"
    using s g by (auto simp: feed_sound_def)
  moreover have "log_window log base (fd_changes st)" using counts_okE [OF c] by blast
  from changes_items_window [OF this, of p] have "base \<le> p \<and> p \<le> length log \<longrightarrow> changes_items (of_nat p) (fd_changes st) = Inr (drop p log)" by blast
  ultimately show "ref_delta \<lparr>fr_since = Some (of_nat p)\<rparr> st = Inr (DeltaIncremental (drop p log))"
    and "fold (replay (fd_current st)) (drop p log) x = view (fd_current st)"
    by (auto simp: ref_delta_def)
qed

lemma end_cursor_ok:
  assumes "feed_inv own view replay st log P S"
  shows "end_cursor st = of_nat (length log)"
proof -
  obtain base where c: "counts_ok (image_mset fst P) log base (fd_ops st) (fd_changes st)"
    by (rule feed_invE [OF assms])
  from counts_okE [OF c] have "log_window log base (fd_changes st)" by blast
  then show ?thesis by (simp add: end_cursor_def end_age_window)
qed

lemma defer_ok:
  assumes inv: "feed_inv own view replay st log P S"
  shows "feed_inv own view replay (st\<lparr>fd_ops := ops_increment (fd_ops st)\<rparr>) log (add_mset (length log, view (fd_current st)) P) S"
    and "(p, x) \<in># P \<Longrightarrow> feed_inv own view replay (st\<lparr>fd_ops := ops_increment_at (of_nat p) (fd_ops st)\<rparr>) log (add_mset (p, x) P) S"
    and "(p, x) \<in># P \<Longrightarrow> feed_inv own view replay (st\<lparr>fd_ops := ops_decrement (Some (of_nat p)) (fd_ops st)\<rparr>) log (P - {#(p, x)#}) S"
proof -
  obtain base where e: "\<not> fd_excl st" "size S = fd_shared st" and c: "counts_ok (image_mset fst P) log base (fd_ops st) (fd_changes st)"
    and s: "feed_sound own view replay (fd_current st) log base (set_mset P \<union> {px. Some px \<in># S})"
    by (rule feed_invE [OF inv])
  have be: "base \<le> length log" using c by (simp add: counts_ok_def log_window_def)
  show "feed_inv own view replay (st\<lparr>fd_ops := ops_increment (fd_ops st)\<rparr>) log (add_mset (length log, view (fd_current st)) P) S"
    by (rule feed_invI [where base = base]) (use e counts_increment [OF c] feed_sound_end [OF s be] in simp_all)
  assume p: "(p, x) \<in># P"
  then have fp: "p \<in># image_mset fst P" by force
  show "feed_inv own view replay (st\<lparr>fd_ops := ops_increment_at (of_nat p) (fd_ops st)\<rparr>) log (add_mset (p, x) P) S"
    by (rule feed_invI [where base = base])
      (use e counts_increment_at [OF c fp] feed_sound_subset [OF s] p in \<open>auto simp: insert_absorb\<close>)
  have "image_mset fst (P - {#(p, x)#}) = image_mset fst P - {#p#}" using p by (simp add: image_mset_Diff)
  moreover have "set_mset (P - {#(p, x)#}) \<subseteq> set_mset P" by (meson in_diffD subsetI)
  ultimately show "feed_inv own view replay (st\<lparr>fd_ops := ops_decrement (Some (of_nat p)) (fd_ops st)\<rparr>) log (P - {#(p, x)#}) S"
    by (intro feed_invI [where base = base]) (use e counts_decrement [OF c fp] feed_sound_subset [OF s, of "set_mset (P - {#(p, x)#}) \<union> {px. Some px \<in># S}"] in auto)
qed

text \<open>A reader and the position it stands at, if it has read.\<close>

end

definition reader_at :: "feed_reader \<Rightarrow> (nat \<times> 'x) option \<Rightarrow> (nat \<times> 'x) multiset \<Rightarrow> bool" where
  "reader_at r px P \<longleftrightarrow> rd_cursor r = map_option (\<lambda>q. of_nat (fst q)) px \<and> (\<forall>q. px = Some q \<longrightarrow> q \<in># P)"

definition without_reader :: "(nat \<times> 'x) option \<Rightarrow> (nat \<times> 'x) multiset \<Rightarrow> (nat \<times> 'x) multiset" where
  "without_reader px P = (case px of None \<Rightarrow> P | Some q \<Rightarrow> P - {#q#})"

text \<open>The operations that an edit runs, one after the other.\<close>

fun edit_trace :: "('m \<Rightarrow> ('m \<times> 'c list) result) list \<Rightarrow> 'm \<Rightarrow> ('m \<times> 'c list) result" where
  "edit_trace [] m = Inr (m, [])"
| "edit_trace (f # fs) m = res_bind (f m) (\<lambda>(m1, ds). res_bind (edit_trace fs m1) (\<lambda>(m2, es). Inr (m2, ds @ es)))"

lemma fold_edit_record:
  "fold edit_record ds (e, st) = (if ds = [] then (e, st)
     else (e\<lparr>fe_dirty := True\<rparr>, st\<lparr>fd_changes := fold changes_push ds (fd_changes st)\<rparr>))"
  by (induction ds arbitrary: e st) (simp_all add: edit_record_def)

lemma changes_push_fold:
  assumes "counts_ok R log base r c" and "increments r = 0" and "length log + length ds - base < 2 ^ 64"
  shows "counts_ok R (log @ ds) base r (fold changes_push ds c)"
  using assms
proof (induction ds arbitrary: log c)
  case (Cons d ds)
  have "counts_ok R (log @ [d]) base r (changes_push d c)"
    by (rule changes_push_ok [OF Cons.prems(1,2)]) (use Cons.prems(3) in simp)
  from Cons.IH [OF this] Cons.prems(2,3) show ?case by simp
qed simp

lemma borrow_history_excl: "feed_compact rel st = Inr st' \<Longrightarrow> fd_shared st \<noteq> 0 \<Longrightarrow> st' = st"
  by (simp add: feed_compact_def)

lemma edit_trace_fails: "edit_trace fs (fd_current st) = Inl e \<Longrightarrow> res_fold edit_step fs (e0, st) = Inl e"
proof (induction fs arbitrary: e0 st)
  case (Cons f fs)
  show ?case
  proof (cases "f (fd_current st)")
    case (Inl e')
    then show ?thesis using Cons.prems by (simp add: edit_step_def)
  next
    case (Inr x)
    obtain m1 ds where x: "x = (m1, ds)" by (cases x)
    then have "edit_trace fs m1 = Inl e" using Cons.prems Inr by (auto simp: res_bind_eq_Inl)
    then show ?thesis using Cons.IH Inr x by (simp add: edit_step_def fold_edit_record edit_current_mut_def)
  qed
qed simp

context feed_model
begin

lemma borrow_since_ok:
  assumes inv: "feed_inv own view replay st log P S" and small: "size P + length (decrement_ages (fd_ops st)) < 2 ^ 64"
    and px: "\<forall>q. px = Some q \<longrightarrow> q \<in># P"
  shows "\<exists>st'. borrow_since release (map_option (\<lambda>q. of_nat (fst q)) px) st = Inr (\<lparr>fr_since = map_option (\<lambda>q. of_nat (fst q)) px\<rparr>, st')
    \<and> feed_inv own view replay st' log P (add_mset px S) \<and> view (fd_current st') = view (fd_current st) \<and> fd_shared st' \<noteq> 0
    \<and> length (decrement_ages (fd_ops st')) \<le> length (decrement_ages (fd_ops st))"
proof -
  obtain st1 where st1: "feed_compact release st = Inr st1" "feed_inv own view replay st1 log P S" "view (fd_current st1) = view (fd_current st)"
    "length (decrement_ages (fd_ops st1)) \<le> length (decrement_ages (fd_ops st))"
    using compact_ok [OF inv small] by (metis le_refl le0 list.size(3) ops_new_sel(3))
  have "px = None \<or> (\<exists>q. px = Some q \<and> (q \<in># P \<or> q = (length log, view (fd_current st1))))" using px by (cases px) auto
  from add_guard_ok [OF st1(2) this] show ?thesis using st1(1,3,4) by (simp add: borrow_since_def)
qed

lemma reader_read_ok:
  assumes inv: "feed_inv own view replay st log P S" and small: "size P + length (decrement_ages (fd_ops st)) < 2 ^ 64"
    and r: "reader_at r px P"
  shows "\<exists>r' st'. reader_read release r st = Inr (\<lparr>fr_since = rd_cursor r\<rparr>, r', st')
    \<and> feed_inv own view replay st' log (add_mset (length log, view (fd_current st')) (without_reader px P)) (add_mset px S)
    \<and> reader_at r' (Some (length log, view (fd_current st'))) (add_mset (length log, view (fd_current st')) (without_reader px P))
    \<and> view (fd_current st') = view (fd_current st) \<and> length (decrement_ages (fd_ops st')) \<le> length (decrement_ages (fd_ops st)) + 1"
proof -
  have rc: "rd_cursor r = map_option (\<lambda>q. of_nat (fst q)) px" and px: "\<forall>q. px = Some q \<longrightarrow> q \<in># P"
    using r by (simp_all add: reader_at_def)
  obtain st1 where st1: "borrow_since release (rd_cursor r) st = Inr (\<lparr>fr_since = rd_cursor r\<rparr>, st1)"
    "feed_inv own view replay st1 log P (add_mset px S)" "view (fd_current st1) = view (fd_current st)" "fd_shared st1 \<noteq> 0"
    "length (decrement_ages (fd_ops st1)) \<le> length (decrement_ages (fd_ops st))"
    using borrow_since_ok [OF inv small px] unfolding rc by blast
  define st2 where "st2 = st1\<lparr>fd_ops := ops_decrement (rd_cursor r) (fd_ops st1)\<rparr>"
  have inv2: "feed_inv own view replay st2 log (without_reader px P) (add_mset px S)"
  proof (cases px)
    case None
    then show ?thesis using st1(2) by (simp add: st2_def rc ops_decrement_def without_reader_def)
  next
    case (Some q)
    then show ?thesis using defer_ok(3) [OF st1(2), of "fst q" "snd q"] px by (simp add: st2_def rc without_reader_def)
  qed
  define st3 where "st3 = st2\<lparr>fd_ops := ops_increment (fd_ops st2)\<rparr>"
  have c3: "fd_current st3 = fd_current st1" by (simp add: st3_def st2_def)
  have inv3: "feed_inv own view replay st3 log (add_mset (length log, view (fd_current st3)) (without_reader px P)) (add_mset px S)"
    using defer_ok(1) [OF inv2] by (simp add: st3_def)
  have "\<not> fd_excl st1" using feed_invE [OF st1(2)] by blast
  then have "advance_cursor release (rd_cursor r) st1 = Inr (of_nat (length log), st3)"
    using st1(4) end_cursor_ok [OF st1(2)]
    by (simp add: advance_cursor_def borrow_history_def feed_compact_def Let_def st3_def st2_def)
  then have "reader_read release r st = Inr (\<lparr>fr_since = rd_cursor r\<rparr>, r\<lparr>rd_cursor := Some (of_nat (length log))\<rparr>, st3)"
    using st1(1) by (simp add: reader_read_def)
  moreover have "length (decrement_ages (fd_ops st3)) \<le> length (decrement_ages (fd_ops st)) + 1"
    using st1(5) by (auto simp: st3_def st2_def ops_increment_def ops_decrement_def split: option.split)
  ultimately show ?thesis using inv3 st1(3) c3
    by (intro exI [of _ "r\<lparr>rd_cursor := Some (of_nat (length log))\<rparr>"] exI [of _ st3]) (simp add: reader_at_def)
qed

lemma reader_clone_ok:
  assumes inv: "feed_inv own view replay st log P S" and small: "size P + length (decrement_ages (fd_ops st)) + 1 < 2 ^ 64"
    and r: "reader_at r px P"
  shows "\<exists>st'. reader_clone release r st = Inr (r, st') \<and> feed_inv own view replay st' log (P + (case px of None \<Rightarrow> {#} | Some q \<Rightarrow> {#q#})) S
    \<and> view (fd_current st') = view (fd_current st)"
proof (cases px)
  case None
  then show ?thesis using inv r by (simp add: reader_clone_def reader_at_def)
next
  case (Some q)
  let ?st = "st\<lparr>fd_ops := ops_increment_at (of_nat (fst q)) (fd_ops st)\<rparr>"
  have inv1: "feed_inv own view replay ?st log (add_mset q P) S"
    using defer_ok(2) [OF inv, of "fst q" "snd q"] r Some by (simp add: reader_at_def)
  have "size (add_mset q P) + length (decrement_ages (fd_ops ?st)) < 2 ^ 64" using small by (simp add: ops_increment_at_def)
  from compact_ok [OF inv1 this] show ?thesis
    using r Some by (auto simp: reader_clone_def reader_at_def retain_cursor_def)
qed

lemma reader_drop_ok:
  assumes inv: "feed_inv own view replay st log P S" and small: "size P + length (decrement_ages (fd_ops st)) < 2 ^ 64"
    and r: "reader_at r px P"
  shows "\<exists>st'. reader_drop release r st = Inr st' \<and> feed_inv own view replay st' log (without_reader px P) S
    \<and> view (fd_current st') = view (fd_current st)"
proof (cases px)
  case None
  then show ?thesis using inv r by (simp add: reader_drop_def reader_at_def without_reader_def)
next
  case (Some q)
  let ?st = "st\<lparr>fd_ops := ops_decrement (Some (of_nat (fst q))) (fd_ops st)\<rparr>"
  have q: "q \<in># P" using r Some by (simp add: reader_at_def)
  then have inv1: "feed_inv own view replay ?st log (P - {#q#}) S" using defer_ok(3) [OF inv, of "fst q" "snd q"] by simp
  have "Suc (size (P - {#q#})) = size P" using q by (metis size_Suc_Diff1)
  then have "size (P - {#q#}) + length (decrement_ages (fd_ops ?st)) < 2 ^ 64" using small by (simp add: ops_decrement_def)
  from compact_ok [OF inv1 this] show ?thesis
    using r Some by (auto simp: reader_drop_def reader_at_def release_cursor_def without_reader_def)
qed

lemma ref_drop_ok:
  assumes inv: "feed_inv own view replay st log P (add_mset g S)" and small: "size P + length (decrement_ages (fd_ops st)) < 2 ^ 64"
  shows "\<exists>st'. ref_drop release st = Inr st' \<and> feed_inv own view replay st' log P S \<and> view (fd_current st') = view (fd_current st)"
  using compact_ok [OF drop_guard_ok [OF inv]] small by (auto simp: ref_drop_def)

subsection \<open>Edits\<close>

lemma edit_sound:
  assumes s: "feed_sound own view replay m log base Q" and ed: "edit m ds m'" and be: "base \<le> length log"
  shows "feed_sound own view replay m' (log @ ds) base Q"
proof -
  have o: "own m (drop base log)" using s by (simp add: feed_sound_def)
  have "own m' (drop base (log @ ds))" using edit_own [OF o ed] be by simp
  moreover have "p \<le> length (log @ ds) \<and> fold (replay m') (drop p (log @ ds)) x = view m'" if px: "(p, x) \<in> Q" for p x
  proof -
    have p: "base \<le> p" "p \<le> length log" "fold (replay m) (drop p log) x = view m" using s px by (auto simp: feed_sound_def)
    have "fold (replay m') (drop p log) x = fold (replay m) (drop p log) x"
    proof (rule fold_cong)
      fix d assume "d \<in> set (drop p log)"
      then have d: "d \<in> set (drop base log)" using set_drop_subset_set_drop [OF p(1), of log] by blast
      show "replay m' d = replay m d" by (rule ext) (rule edit_replay [OF o ed d])
    qed simp_all
    then show ?thesis using p edit_view [OF o ed] by simp
  qed
  ultimately show ?thesis using s by (auto simp: feed_sound_def)
qed

text \<open>Inside an edit that began at position \<open>n\<close>.\<close>

lemma edit_steps_ok:
  assumes "counts_ok (image_mset fst P) log base ops_new (fd_changes st)" and "feed_sound own view replay (fd_current st) log base (set_mset P)"
    and "edit_trace fs (fd_current st) = Inr (m', ds)" and "length log + length ds - base < 2 ^ 64"
    and ed: "\<forall>f \<in> set fs. \<forall>m m' ds. f m = Inr (m', ds) \<longrightarrow> edit m ds m'"
  shows "\<exists>c'. res_fold edit_step fs (e, st) = Inr (e\<lparr>fe_dirty := (fe_dirty e \<or> ds \<noteq> [])\<rparr>, st\<lparr>fd_current := m', fd_changes := c'\<rparr>)
    \<and> counts_ok (image_mset fst P) (log @ ds) base ops_new c' \<and> feed_sound own view replay m' (log @ ds) base (set_mset P)"
  using assms
proof (induction fs arbitrary: e st log ds)
  case Nil
  then show ?case by (intro exI [of _ "fd_changes st"]) simp
next
  case (Cons f fs)
  obtain m1 ds1 ds2 where f: "f (fd_current st) = Inr (m1, ds1)" "edit_trace fs m1 = Inr (m', ds2)" "ds = ds1 @ ds2"
    using Cons.prems(3) by (auto simp: res_bind_eq_Inr)
  let ?e = "e\<lparr>fe_dirty := (fe_dirty e \<or> ds1 \<noteq> [])\<rparr>"
  let ?st = "st\<lparr>fd_current := m1, fd_changes := fold changes_push ds1 (fd_changes st)\<rparr>"
  have step: "edit_step f (e, st) = Inr (?e, ?st)"
    using f(1) by (simp add: edit_step_def fold_edit_record edit_current_mut_def)
  have be: "base \<le> length log" using counts_okE [OF Cons.prems(1)] unfolding log_window_def by blast
  have c1: "counts_ok (image_mset fst P) (log @ ds1) base ops_new (fd_changes ?st)"
    using changes_push_fold [OF Cons.prems(1)] Cons.prems(4) f(3) by simp
  have s1: "feed_sound own view replay (fd_current ?st) (log @ ds1) base (set_mset P)"
    using edit_sound [OF Cons.prems(2) _ be, of ds1 m1] Cons.prems(5) f(1) by simp
  have "\<exists>c'. res_fold edit_step fs (?e, ?st) = Inr (?e\<lparr>fe_dirty := (fe_dirty ?e \<or> ds2 \<noteq> [])\<rparr>, ?st\<lparr>fd_current := m', fd_changes := c'\<rparr>)
    \<and> counts_ok (image_mset fst P) ((log @ ds1) @ ds2) base ops_new c' \<and> feed_sound own view replay m' ((log @ ds1) @ ds2) base (set_mset P)"
    by (rule Cons.IH [OF c1 s1]) (use f Cons.prems(4,5) in auto)
  then show ?case using step f(3) by auto
qed

lemma feed_edit_ok:
  assumes inv: "feed_inv own view replay st log P S" and sh: "fd_shared st = 0"
    and small: "size P + length (decrement_ages (fd_ops st)) < 2 ^ 64"
    and ed: "\<forall>f \<in> set fs. \<forall>m m' ds. f m = Inr (m', ds) \<longrightarrow> edit m ds m'"
    and run: "\<And>m st1 cs. feed_compact release st = Inr st1 \<Longrightarrow> m = fd_current st1 \<Longrightarrow> own m cs \<Longrightarrow> view m = view (fd_current st) \<Longrightarrow>
      \<exists>m' ds. edit_trace fs m = Inr (m', ds) \<and> length (log_items (fd_changes st)) + length ds < 2 ^ 64"
  shows "\<exists>st1 m m' ds st' cs. feed_compact release st = Inr st1 \<and> m = fd_current st1 \<and> view m = view (fd_current st) \<and> own m cs \<and> edit_trace fs m = Inr (m', ds)
    \<and> feed_edit_run release fin fs st = Inr (if ds = [] then FinishNone else fin, st')
    \<and> feed_inv own view replay st' (log @ ds) P S \<and> view (fd_current st') = view m' \<and> compacted st'"
proof -
  obtain st1 where st1: "feed_compact release st = Inr st1" "feed_inv own view replay st1 log P S" "fd_shared st1 = 0"
    "view (fd_current st1) = view (fd_current st)" "fd_ops st1 = ops_new" "length (log_items (fd_changes st1)) \<le> length (log_items (fd_changes st))"
    using compact_ok [OF inv small] sh by metis
  obtain base where e: "\<not> fd_excl st1" "size S = fd_shared st1" and c: "counts_ok (image_mset fst P) log base ops_new (fd_changes st1)"
    and s: "feed_sound own view replay (fd_current st1) log base (set_mset P)"
    using feed_invE [OF st1(2)] st1(3,5) by (metis (no_types, lifting) feed_sound_subset Un_upper1)
  have w: "log_window log base (fd_changes st1)" using counts_okE [OF c] by blast
  have be: "base \<le> length log" using w by (simp add: log_window_def)
  obtain m' ds where tr: "edit_trace fs (fd_current st1) = Inr (m', ds)" "length (log_items (fd_changes st)) + length ds < 2 ^ 64"
    using run [OF st1(1) refl _ st1(4)] s unfolding feed_sound_def by blast
  have room: "length log + length ds - base < 2 ^ 64" using log_window_length [OF w] st1(6) tr(2) be by linarith
  define e0 where "e0 = \<lparr>fe_start = end_cursor st1, fe_dirty = False, fe_finish = fin\<rparr>"
  have st0: "end_cursor st1 = of_nat (length log)" by (rule end_cursor_ok [OF st1(2)])
  have s2: "counts_ok (image_mset fst P) log base ops_new (fd_changes (st1\<lparr>fd_excl := True\<rparr>))"
    "feed_sound own view replay (fd_current (st1\<lparr>fd_excl := True\<rparr>)) log base (set_mset P)"
    "edit_trace fs (fd_current (st1\<lparr>fd_excl := True\<rparr>)) = Inr (m', ds)" using c s tr by simp_all
  from edit_steps_ok [OF s2 room ed, of e0] obtain c' where steps:
    "res_fold edit_step fs (e0, st1\<lparr>fd_excl := True\<rparr>) = Inr (e0\<lparr>fe_dirty := (ds \<noteq> [])\<rparr>, st1\<lparr>fd_excl := True, fd_current := m', fd_changes := c'\<rparr>)"
    "counts_ok (image_mset fst P) (log @ ds) base ops_new c'" "feed_sound own view replay m' (log @ ds) base (set_mset P)"
    by (auto simp: e0_def)
  define st3 where "st3 = st1\<lparr>fd_current := m', fd_changes := c', fd_excl := False\<rparr>"
  have S: "S = {#}" using e(2) st1(3) by simp
  have inv3: "feed_inv own view replay st3 (log @ ds) P S"
    by (rule feed_invI [where base = base]) (use e steps st1(3,5) S in \<open>simp_all add: st3_def\<close>)
  have w': "log_window (log @ ds) base c'" using counts_okE [OF steps(2)] by blast
  have dirty: "(fe_start e0 \<noteq> end_age c') = (ds \<noteq> [])"
  proof -
    have "(of_nat (length log + length ds) :: age) = of_nat (length log) \<longleftrightarrow> ds = []"
    proof
      assume a: "(of_nat (length log + length ds) :: age) = of_nat (length log)"
      then have "(of_nat (length ds) :: age) = 0" by simp
      then have "unat (of_nat (length ds) :: age) = 0" by simp
      moreover have "length ds < 2 ^ 64" using tr(2) by simp
      ultimately show "ds = []" by (simp add: unat_of_nat)
    qed simp
    then show ?thesis by (auto simp: e0_def st0 end_age_window [OF w'] simp flip: of_nat_add)
  qed
  obtain st' where st': "feed_compact release st3 = Inr st'" "feed_inv own view replay st' (log @ ds) P S" "compacted st'"
    "view (fd_current st') = view (fd_current st3)"
    using compact_ok [OF inv3] st1(3,5) small by (auto simp: st3_def)
  have "feed_edit_run release fin fs st = Inr (if ds = [] then FinishNone else fin, st')"
    using st1(1,3) e(1) steps(1) dirty st'(1)
    by (simp add: feed_edit_run_def begin_edit_def with_finish_def e0_def edit_drop_def edit_is_dirty_def st3_def)
  moreover have "own (fd_current st1) (drop base log)" using s by (simp add: feed_sound_def)
  ultimately show ?thesis using tr(1) st'(2-4) st1(1,4)
    by (intro exI [of _ st1] exI [of _ "fd_current st1"] exI [of _ m'] exI [of _ ds] exI [of _ st'] exI [of _ "drop base log"]) (simp add: st3_def)
qed

end

end
