(* ===== verification/Feed_Client.thy ===== *)
theory Feed_Client
  imports Change_Feed
begin

section \<open>Clients of a change feed\<close>

text \<open>
  A client of a collection creates, clones, reads and drops readers and edits the collection through
  exclusive guards, in any order. \<open>feed_client\<close> runs one such operation on the storage;
  \<open>spec_client\<close> is what the client is promised, on the plain values: a collection value and what every
  live reader saw last. \<open>feed_run_ok\<close>, in the locale \<open>feed_edits\<close>, is the simulation: no
  operation panics, and the delta that a read reports turns what the reader saw last into the current
  value.
\<close>

datatype 'f feed_op = ReaderNew | ReaderRead nat | ReaderClone nat | ReaderDrop nat | EditWith edit_finish "'f list"

datatype ('c, 'm) feed_out = OutNone | OutRead "'c feed_delta" 'm | OutEdit edit_finish

definition live :: "'a option list \<Rightarrow> nat \<Rightarrow> 'a option" where
  "live rs i = (if i < length rs then rs ! i else None)"

text \<open>A handle that is not live cannot be used: such an operation is skipped.\<close>

fun feed_client ::
    "('c \<Rightarrow> 'm \<Rightarrow> 'm) \<Rightarrow> ('f \<Rightarrow> 'm \<Rightarrow> ('m \<times> 'c list) result) \<Rightarrow> 'f feed_op \<Rightarrow> ('m, 'c) feed \<times> feed_reader option list
       \<Rightarrow> (('c, 'm) feed_out \<times> ('m, 'c) feed \<times> feed_reader option list) result" where
  "feed_client rel fe ReaderNew (st, rs) = Inr (OutNone, st, rs @ [Some (storage_reader st)])"
| "feed_client rel fe (ReaderRead i) (st, rs) = (case live rs i of None \<Rightarrow> Inr (OutNone, st, rs)
     | Some r \<Rightarrow> res_bind (reader_read rel r st) (\<lambda>(g, r1, st1).
         res_bind (ref_delta g st1) (\<lambda>d.
         res_bind (ref_drop rel st1) (\<lambda>st2. Inr (OutRead d (ref_current g st1), st2, rs[i := Some r1])))))"
| "feed_client rel fe (ReaderClone i) (st, rs) = (case live rs i of None \<Rightarrow> Inr (OutNone, st, rs)
     | Some r \<Rightarrow> res_bind (reader_clone rel r st) (\<lambda>(r1, st1). Inr (OutNone, st1, rs @ [Some r1])))"
| "feed_client rel fe (ReaderDrop i) (st, rs) = (case live rs i of None \<Rightarrow> Inr (OutNone, st, rs)
     | Some r \<Rightarrow> res_bind (reader_drop rel r st) (\<lambda>st1. Inr (OutNone, st1, rs[i := None])))"
| "feed_client rel fe (EditWith fin fs) (st, rs) =
     res_bind (feed_edit_run rel fin (map fe fs) st) (\<lambda>(f, st1). Inr (OutEdit f, st1, rs))"

fun feed_run ::
    "('c \<Rightarrow> 'm \<Rightarrow> 'm) \<Rightarrow> ('f \<Rightarrow> 'm \<Rightarrow> ('m \<times> 'c list) result) \<Rightarrow> 'f feed_op list \<Rightarrow> ('m, 'c) feed \<times> feed_reader option list
       \<Rightarrow> (('c, 'm) feed_out list \<times> ('m, 'c) feed \<times> feed_reader option list) result" where
  "feed_run rel fe [] s = Inr ([], s)"
| "feed_run rel fe (x # xs) s =
     res_bind (feed_client rel fe x s) (\<lambda>(out, s1). res_bind (feed_run rel fe xs s1) (\<lambda>(outs, s2). Inr (out # outs, s2)))"

subsection \<open>What the client is promised\<close>

datatype 'x spec_out = SpecNone | SpecRead "'x option" 'x | SpecEdit

text \<open>\<open>fs f x = Some (y, k)\<close>: the edit \<open>f\<close> takes \<open>x\<close> to \<open>y\<close> and records at most \<open>k\<close> changes.\<close>

fun spec_edits :: "('f \<Rightarrow> 'x \<Rightarrow> ('x \<times> nat) option) \<Rightarrow> 'f list \<Rightarrow> 'x \<Rightarrow> ('x \<times> nat) option" where
  "spec_edits fs [] x = Some (x, 0)"
| "spec_edits fs (f # es) x = (case fs f x of None \<Rightarrow> None
     | Some (y, k) \<Rightarrow> (case spec_edits fs es y of None \<Rightarrow> None | Some (z, l) \<Rightarrow> Some (z, k + l)))"

fun spec_client ::
    "('f \<Rightarrow> 'x \<Rightarrow> ('x \<times> nat) option) \<Rightarrow> 'f feed_op \<Rightarrow> 'x \<times> 'x option option list \<Rightarrow> ('x spec_out \<times> nat \<times> 'x \<times> 'x option option list) option" where
  "spec_client fs ReaderNew (x, rs) = Some (SpecNone, 0, x, rs @ [Some None])"
| "spec_client fs (ReaderRead i) (x, rs) = (case live rs i of None \<Rightarrow> Some (SpecNone, 0, x, rs)
     | Some s \<Rightarrow> Some (SpecRead s x, 0, x, rs[i := Some (Some x)]))"
| "spec_client fs (ReaderClone i) (x, rs) = (case live rs i of None \<Rightarrow> Some (SpecNone, 0, x, rs)
     | Some s \<Rightarrow> Some (SpecNone, 0, x, rs @ [Some s]))"
| "spec_client fs (ReaderDrop i) (x, rs) = (case live rs i of None \<Rightarrow> Some (SpecNone, 0, x, rs)
     | Some s \<Rightarrow> Some (SpecNone, 0, x, rs[i := None]))"
| "spec_client fs (EditWith fin es) (x, rs) = (case spec_edits fs es x of None \<Rightarrow> None
     | Some (y, k) \<Rightarrow> Some (SpecEdit, k, y, rs))"

fun spec_run ::
    "('f \<Rightarrow> 'x \<Rightarrow> ('x \<times> nat) option) \<Rightarrow> 'f feed_op list \<Rightarrow> 'x \<times> 'x option option list \<Rightarrow> ('x spec_out list \<times> nat \<times> 'x \<times> 'x option option list) option" where
  "spec_run fs [] s = Some ([], 0, s)"
| "spec_run fs (x # xs) s = (case spec_client fs x s of None \<Rightarrow> None
     | Some (out, k, s1) \<Rightarrow> (case spec_run fs xs s1 of None \<Rightarrow> None
         | Some (outs, l, s2) \<Rightarrow> Some (out # outs, k + l, s2)))"

text \<open>A read reports the current value and a delta that leads there from the value seen last.\<close>

fun out_ok :: "('m \<Rightarrow> 'x) \<Rightarrow> ('m \<Rightarrow> 'c \<Rightarrow> 'x \<Rightarrow> 'x) \<Rightarrow> ('c, 'm) feed_out \<Rightarrow> 'x spec_out \<Rightarrow> bool" where
  "out_ok view replay (OutRead d m) (SpecRead s x) \<longleftrightarrow> view m = x \<and> (case d of DeltaInitial \<Rightarrow> s = None
     | DeltaIncremental cs \<Rightarrow> (case s of None \<Rightarrow> False | Some y \<Rightarrow> fold (replay m) cs y = x))"
| "out_ok view replay OutNone SpecNone \<longleftrightarrow> True"
| "out_ok view replay (OutEdit fin) SpecEdit \<longleftrightarrow> True"
| "out_ok view replay _ _ \<longleftrightarrow> False"

locale feed_edits = feed_model release own view replay edit
  for release :: "'c \<Rightarrow> 'm \<Rightarrow> 'm" and own and view :: "'m \<Rightarrow> 'x" and replay and edit +
  fixes fe :: "'f \<Rightarrow> 'm \<Rightarrow> ('m \<times> 'c list) result"
    and fs :: "'f \<Rightarrow> 'x \<Rightarrow> ('x \<times> nat) option"
  assumes fe_edit: "fe f m = Inr (m', ds) \<Longrightarrow> edit m ds m'"
    and fe_spec: "own m cs \<Longrightarrow> fs f (view m) = Some (y, k) \<Longrightarrow> \<exists>m' ds. fe f m = Inr (m', ds) \<and> view m' = y \<and> length ds \<le> k"

text \<open>The positions of the live readers.\<close>

definition seen_of :: "'q option option \<Rightarrow> 'q multiset" where
  "seen_of h = (case h of Some (Some q) \<Rightarrow> {#q#} | _ \<Rightarrow> {#})"

definition all_seen :: "'q option option list \<Rightarrow> 'q multiset" where
  "all_seen qs = sum_mset (image_mset seen_of (mset qs))"

definition handle_ok :: "feed_reader option \<Rightarrow> (nat \<times> 'x) option option \<Rightarrow> bool" where
  "handle_ok r q \<longleftrightarrow> map_option rd_cursor r = map_option (map_option (\<lambda>q. of_nat (fst q))) q"

lemma all_seen_append: "all_seen (qs @ [h]) = all_seen qs + seen_of h"
  by (simp add: all_seen_def)

lemma all_seen_nth:
  assumes "i < length qs"
  obtains M where "all_seen qs = M + seen_of (qs ! i)" and "\<And>h. all_seen (qs[i := h]) = M + seen_of h"
proof
  let ?M = "sum_mset (image_mset seen_of (mset qs - {#qs ! i#}))"
  have m: "mset qs = add_mset (qs ! i) (mset qs - {#qs ! i#})" using assms by simp
  show "all_seen qs = ?M + seen_of (qs ! i)" unfolding all_seen_def by (subst m) (simp add: add.commute)
  show "all_seen (qs[i := h]) = ?M + seen_of h" for h using assms by (simp add: all_seen_def mset_update add.commute)
qed

lemma size_all_seen: "size (all_seen qs) \<le> length qs"
  by (induction qs) (auto simp: all_seen_def seen_of_def split: option.split)

lemma live_Some: "live rs i = Some r \<longleftrightarrow> i < length rs \<and> rs ! i = Some r"
  by (auto simp: live_def)

lemma live_None: "live rs i = None \<longleftrightarrow> (i < length rs \<longrightarrow> rs ! i = None)"
  by (auto simp: live_def)

text \<open>The storage between two operations of the client.\<close>

definition client_inv ::
    "('m \<Rightarrow> 'c list \<Rightarrow> bool) \<Rightarrow> ('m \<Rightarrow> 'x) \<Rightarrow> ('m \<Rightarrow> 'c \<Rightarrow> 'x \<Rightarrow> 'x) \<Rightarrow> ('m, 'c) feed \<Rightarrow> feed_reader option list \<Rightarrow> 'c list
       \<Rightarrow> (nat \<times> 'x) option option list \<Rightarrow> bool" where
  "client_inv own view replay st rs log qs \<longleftrightarrow> list_all2 handle_ok rs qs \<and> feed_inv own view replay st log (all_seen qs) {#}
     \<and> compacted st"

lemma compacted_ops: "compacted st \<Longrightarrow> fd_ops st = ops_new"
  by (simp add: compacted_def)

lemma client_inv_room:
  assumes "client_inv own view replay st rs log qs" and "length qs + 2 < 2 ^ 64"
  shows "size (all_seen qs) + length (decrement_ages (fd_ops st)) + 2 < 2 ^ 64"
  using assms size_all_seen [of qs] by (simp add: client_inv_def compacted_ops)

lemma client_inv_shared: "client_inv own view replay st rs log qs \<Longrightarrow> fd_shared st = 0 \<and> \<not> fd_excl st"
  by (auto simp: client_inv_def feed_inv_def)

lemma live_map: "live (map (map_option f) qs) i = map_option f (live qs i)"
  by (simp add: live_def)

lemma client_live: "client_inv own view replay st rs log qs \<Longrightarrow> live rs i = None \<longleftrightarrow> live qs i = None"
proof -
  assume "client_inv own view replay st rs log qs"
  then have l: "list_all2 handle_ok rs qs" by (simp add: client_inv_def)
  show ?thesis
  proof (cases "i < length rs")
    case True
    from list_all2_nthD [OF l True] have "rs ! i = None \<longleftrightarrow> qs ! i = None" by (cases "rs ! i"; cases "qs ! i") (simp_all add: handle_ok_def)
    then show ?thesis using True list_all2_lengthD [OF l] by (simp add: live_def)
  next
    case False
    then show ?thesis using list_all2_lengthD [OF l] by (simp add: live_def)
  qed
qed

context feed_model
begin

lemma client_new_ok:
  assumes "client_inv own view replay st rs log qs"
  shows "client_inv own view replay st (rs @ [Some (storage_reader st)]) log (qs @ [Some None])"
  using assms by (simp add: client_inv_def all_seen_append seen_of_def list_all2_appendI handle_ok_def storage_reader_def)

lemma client_reader_at:
  assumes inv: "client_inv own view replay st rs log qs" and "live rs i = Some r"
  obtains px M where "qs ! i = Some px" and "i < length qs" and "reader_at r px (all_seen qs)" and "all_seen qs = M + seen_of (Some px)"
    and "\<And>h. all_seen (qs[i := h]) = M + seen_of h" and "without_reader px (all_seen qs) = M"
proof -
  have i: "i < length rs" "rs ! i = Some r" and l: "list_all2 handle_ok rs qs" using assms by (simp_all add: live_Some client_inv_def)
  then have iq: "i < length qs" by (simp add: list_all2_lengthD)
  have h: "handle_ok (rs ! i) (qs ! i)" by (rule list_all2_nthD [OF l i(1)])
  then obtain px where px: "qs ! i = Some px" "rd_cursor r = map_option (\<lambda>q. of_nat (fst q)) px"
    using i(2) by (cases "qs ! i") (auto simp: handle_ok_def)
  obtain M where M: "all_seen qs = M + seen_of (qs ! i)" "\<And>h. all_seen (qs[i := h]) = M + seen_of h" using all_seen_nth [OF iq] by blast
  show ?thesis
    by (rule that [of px M]) (use px iq M in \<open>auto simp: reader_at_def seen_of_def without_reader_def split: option.split\<close>)
qed

lemma client_handles:
  assumes "client_inv own view replay st rs log qs" and "handle_ok r q"
  shows "list_all2 handle_ok (rs[i := r]) (qs[i := q])" and "list_all2 handle_ok (rs @ [r]) (qs @ [q])"
  using assms by (auto simp: client_inv_def list_all2_update_cong intro: list_all2_appendI)

lemma client_read_ok:
  assumes inv: "client_inv own view replay st rs log qs" and room: "length qs + 2 < 2 ^ 64" and r: "live rs i = Some r"
  shows "\<exists>d m st' rs' px. feed_client release fe (ReaderRead i) (st, rs) = Inr (OutRead d m, st', rs') \<and> qs ! i = Some px
    \<and> i < length qs \<and> client_inv own view replay st' rs' log (qs[i := Some (Some (length log, view (fd_current st)))])
    \<and> view (fd_current st') = view (fd_current st) \<and> view m = view (fd_current st)
    \<and> (case px of None \<Rightarrow> d = DeltaInitial | Some q \<Rightarrow> \<exists>cs. d = DeltaIncremental cs \<and> fold (replay m) cs (snd q) = view m)"
proof -
  let ?v = "view (fd_current st)"
  obtain px M where px: "qs ! i = Some px" "i < length qs" "reader_at r px (all_seen qs)" and M: "all_seen qs = M + seen_of (Some px)"
    "\<And>h. all_seen (qs[i := h]) = M + seen_of h" "without_reader px (all_seen qs) = M"
    using client_reader_at [OF inv r] by blast
  have f: "feed_inv own view replay st log (all_seen qs) {#}" using inv by (simp add: client_inv_def)
  have small: "size (all_seen qs) + length (decrement_ages (fd_ops st)) + 2 < 2 ^ 64" by (rule client_inv_room [OF inv room])
  obtain r1 st1 where r1: "reader_read release r st = Inr (\<lparr>fr_since = rd_cursor r\<rparr>, r1, st1)"
    "feed_inv own view replay st1 log (add_mset (length log, view (fd_current st1)) M) {#px#}"
    "reader_at r1 (Some (length log, view (fd_current st1))) (add_mset (length log, view (fd_current st1)) M)"
    "view (fd_current st1) = ?v" "length (decrement_ages (fd_ops st1)) \<le> length (decrement_ages (fd_ops st)) + 1"
    using reader_read_ok [OF f _ px(3)] small M(3) by auto
  have rc: "rd_cursor r = map_option (\<lambda>q. of_nat (fst q)) px" using px(3) by (simp add: reader_at_def)
  obtain d where d: "ref_delta \<lparr>fr_since = rd_cursor r\<rparr> st1 = Inr d"
    "case px of None \<Rightarrow> d = DeltaInitial | Some q \<Rightarrow> \<exists>cs. d = DeltaIncremental cs \<and> fold (replay (fd_current st1)) cs (snd q) = view (fd_current st1)"
  proof (cases px)
    case None
    then show ?thesis using that rc by (simp add: ref_delta_def)
  next
    case (Some q)
    then show ?thesis using that rc delta_ok [OF r1(2), of "fst q" "snd q"] by auto
  qed
  let ?P = "add_mset (length log, view (fd_current st1)) M"
  let ?st2 = "st1\<lparr>fd_shared := fd_shared st1 - 1\<rparr>"
  have g: "feed_inv own view replay ?st2 log ?P {#}" by (rule drop_guard_ok) (use r1(2) in simp)
  have sz: "size ?P + length (decrement_ages (fd_ops ?st2)) < 2 ^ 64"
    using small r1(5) M(1) by simp
  obtain st2 where st2: "feed_compact release ?st2 = Inr st2" "feed_inv own view replay st2 log ?P {#}" "view (fd_current st2) = ?v"
    "compacted st2"
  proof -
    have "fd_shared ?st2 = 0" using g unfolding feed_inv_def by simp
    then show ?thesis using that compact_ok [OF g sz] r1(4) by auto
  qed
  have "feed_client release fe (ReaderRead i) (st, rs) = Inr (OutRead d (fd_current st1), st2, rs[i := Some r1])"
    using r r1(1) d(1) st2(1) by (simp add: ref_drop_def ref_current_def)
  moreover have "handle_ok (Some r1) (Some (Some (length log, ?v)))" using r1(3,4) by (simp add: handle_ok_def reader_at_def)
  with client_handles(1) [OF inv] have "client_inv own view replay st2 (rs[i := Some r1]) log (qs[i := Some (Some (length log, ?v))])"
    using st2 r1(4) M(2) by (simp add: client_inv_def seen_of_def)
  ultimately show ?thesis using px(1,2) st2(3) r1(4) d(2) by blast
qed

lemma client_clone_ok:
  assumes inv: "client_inv own view replay st rs log qs" and room: "length qs + 2 < 2 ^ 64" and r: "live rs i = Some r"
  shows "\<exists>st' rs' px. feed_client release fe (ReaderClone i) (st, rs) = Inr (OutNone, st', rs') \<and> qs ! i = Some px \<and> i < length qs
    \<and> client_inv own view replay st' rs' log (qs @ [Some px]) \<and> view (fd_current st') = view (fd_current st)"
proof -
  obtain px where px: "qs ! i = Some px" "i < length qs" "reader_at r px (all_seen qs)" using client_reader_at [OF inv r] by blast
  have f: "feed_inv own view replay st log (all_seen qs) {#}" using inv by (simp add: client_inv_def)
  obtain st' where st': "reader_clone release r st = Inr (r, st')" "view (fd_current st') = view (fd_current st)"
    "feed_inv own view replay st' log (all_seen qs + (case px of None \<Rightarrow> {#} | Some q \<Rightarrow> {#q#})) {#}"
    using reader_clone_ok [OF f _ px(3)] client_inv_room [OF inv room] by auto
  have "compacted st'"
    using st'(1) client_inv_shared [OF inv] inv
    by (auto simp: reader_clone_def retain_cursor_def res_bind_eq_Inr client_inv_def dest: compact_compacted split: option.splits)
  moreover have "seen_of (Some px) = (case px of None \<Rightarrow> {#} | Some q \<Rightarrow> {#q#})" by (simp add: seen_of_def split: option.split)
  moreover have "handle_ok (Some r) (Some px)" using px(3) by (simp add: handle_ok_def reader_at_def)
  with client_handles(2) [OF inv] have "list_all2 handle_ok (rs @ [Some r]) (qs @ [Some px])" .
  ultimately have "client_inv own view replay st' (rs @ [Some r]) log (qs @ [Some px])"
    using st'(3) by (simp add: client_inv_def all_seen_append)
  then show ?thesis using r st'(1,2) px by simp
qed

lemma client_drop_ok:
  assumes inv: "client_inv own view replay st rs log qs" and room: "length qs + 2 < 2 ^ 64" and r: "live rs i = Some r"
  shows "\<exists>st' rs'. feed_client release fe (ReaderDrop i) (st, rs) = Inr (OutNone, st', rs')
    \<and> client_inv own view replay st' rs' log (qs[i := None]) \<and> view (fd_current st') = view (fd_current st)"
proof -
  obtain px M where px: "reader_at r px (all_seen qs)" "without_reader px (all_seen qs) = M" "\<And>h. all_seen (qs[i := h]) = M + seen_of h"
    using client_reader_at [OF inv r] by blast
  have f: "feed_inv own view replay st log (all_seen qs) {#}" using inv by (simp add: client_inv_def)
  obtain st' where st': "reader_drop release r st = Inr st'" "view (fd_current st') = view (fd_current st)" "feed_inv own view replay st' log M {#}"
    using reader_drop_ok [OF f _ px(1)] client_inv_room [OF inv room] px(2) by auto
  have "compacted st'"
    using st'(1) client_inv_shared [OF inv] inv
    by (auto simp: reader_drop_def release_cursor_def client_inv_def dest: compact_compacted split: option.splits)
  moreover have "list_all2 handle_ok (rs[i := None]) (qs[i := None])" by (rule client_handles(1) [OF inv]) (simp add: handle_ok_def)
  ultimately have "client_inv own view replay st' (rs[i := None]) log (qs[i := None])"
    using st'(3) px(3) by (simp add: client_inv_def seen_of_def)
  then show ?thesis using r st'(1,2) by simp
qed

end

text \<open>No live reader has read, in the terms of the specification.\<close>

definition unread :: "'x option option list \<Rightarrow> bool" where
  "unread hs = list_all (\<lambda>h. case h of Some (Some _) \<Rightarrow> False | _ \<Rightarrow> True) hs"

lemma unread_seen: "unread (map (map_option (map_option f)) qs) \<Longrightarrow> all_seen qs = {#}"
  by (induction qs) (auto simp: unread_def all_seen_def seen_of_def split: option.splits)

context feed_model
begin

text \<open>Without a reader that has read, no change is retained, and the model owns nothing but its value.\<close>

lemma log_items_le:
  assumes "feed_inv own view replay st log P S"
  shows "length (log_items (fd_changes st)) \<le> length log"
proof -
  obtain base where "counts_ok (image_mset fst P) log base (fd_ops st) (fd_changes st)" by (rule feed_invE [OF assms])
  then have "log_window log base (fd_changes st)" using counts_okE by blast
  then show ?thesis by (simp add: log_window_length)
qed

lemma client_unread:
  assumes inv: "client_inv own view replay st rs log qs" and "unread (map (map_option (map_option snd)) qs)"
  shows "log_items (fd_changes st) = []" and "own (fd_current st) []"
proof -
  have seen: "all_seen qs = {#}" using assms(2) by (rule unread_seen)
  then have f: "feed_inv own view replay st log {#} {#}" using inv by (simp add: client_inv_def)
  show e: "log_items (fd_changes st) = []" by (rule compacted_empty [OF f]) (use inv in \<open>simp add: client_inv_def\<close>)
  obtain base where c: "counts_ok {#} log base (fd_ops st) (fd_changes st)" and s: "own (fd_current st) (drop base log)"
    using f by (auto simp: feed_inv_def feed_sound_def)
  have w: "log_window log base (fd_changes st)" using counts_okE [OF c] by blast
  have "drop base log = []" using w e by (simp add: log_window_def)
  then show "own (fd_current st) []" using s by simp
qed

lemma feed_start:
  assumes "own m []"
  shows "client_inv own view replay (feed_new m) [] [] []"
proof -
  have "counts_ok {#} [] 0 ops_new (changes_new :: 'b changes)"
    by (simp add: counts_ok_def log_window_def changes_new_def rc_at_def)
  then have "feed_inv own view replay (feed_new m) [] {#} {#}"
    using assms by (intro feed_invI [where base = 0]) (simp_all add: feed_new_def feed_sound_def)
  then show ?thesis by (simp add: client_inv_def all_seen_def) (simp add: feed_new_def compacted_def changes_new_def)
qed

end

context feed_edits
begin

lemma spec_edits_ok:
  assumes "own m cs" and "spec_edits fs es (view m) = Some (y, k)"
  shows "\<exists>m' ds. edit_trace (map fe es) m = Inr (m', ds) \<and> view m' = y \<and> length ds \<le> k"
  using assms
proof (induction es arbitrary: m cs k)
  case (Cons f es)
  obtain y1 k1 k2 where s: "fs f (view m) = Some (y1, k1)" "spec_edits fs es y1 = Some (y, k2)" "k = k1 + k2"
    using Cons.prems(2) by (auto split: option.splits)
  obtain m1 ds1 where m1: "fe f m = Inr (m1, ds1)" "view m1 = y1" "length ds1 \<le> k1" using fe_spec [OF Cons.prems(1) s(1)] by blast
  have "own m1 (cs @ ds1)" by (rule edit_own [OF Cons.prems(1) fe_edit [OF m1(1)]])
  from Cons.IH [OF this] s(2) m1(2) obtain m2 ds2 where "edit_trace (map fe es) m1 = Inr (m2, ds2)" "view m2 = y" "length ds2 \<le> k2" by auto
  then show ?case using m1 s(3) by simp
qed simp

lemma client_edit_ok:
  assumes inv: "client_inv own view replay st rs log qs" and room: "length qs + 2 < 2 ^ 64" "length log + k < 2 ^ 64"
    and spec: "spec_edits fs es (view (fd_current st)) = Some (y, k)"
  shows "\<exists>fin' st' ds. feed_client release fe (EditWith fin es) (st, rs) = Inr (OutEdit fin', st', rs)
    \<and> client_inv own view replay st' rs (log @ ds) qs \<and> view (fd_current st') = y \<and> length ds \<le> k"
proof -
  have f: "feed_inv own view replay st log (all_seen qs) {#}" using inv by (simp add: client_inv_def)
  have small: "size (all_seen qs) + length (decrement_ages (fd_ops st)) < 2 ^ 64" using client_inv_room [OF inv room(1)] by simp
  have li: "length (log_items (fd_changes st)) \<le> length log" by (rule log_items_le [OF f])
  have ed: "\<forall>f \<in> set (map fe es). \<forall>m m' ds. f m = Inr (m', ds) \<longrightarrow> edit m ds m'" using fe_edit by auto
  have run: "\<exists>m' ds. edit_trace (map fe es) m = Inr (m', ds) \<and> length (log_items (fd_changes st)) + length ds < 2 ^ 64"
    if o: "own m cs" and v: "view m = view (fd_current st)" for m cs
  proof -
    obtain m' ds where "edit_trace (map fe es) m = Inr (m', ds)" "length ds \<le> k" using spec_edits_ok [OF o, of es y k] spec v by auto
    then show ?thesis using li room(2) by (intro exI [of _ m'] exI [of _ ds]) linarith
  qed
  have shared: "fd_shared st = 0" using client_inv_shared [OF inv] by blast
  obtain m m' ds cs st' where e: "view m = view (fd_current st)" "own m cs" "edit_trace (map fe es) m = Inr (m', ds)"
    "feed_edit_run release fin (map fe es) st = Inr (if ds = [] then FinishNone else fin, st')"
    "feed_inv own view replay st' (log @ ds) (all_seen qs) {#}" "view (fd_current st') = view m'" "compacted st'"
  proof -
    have "\<exists>st1 m m' ds st' cs. feed_compact release st = Inr st1 \<and> m = fd_current st1 \<and> view m = view (fd_current st) \<and> own m cs \<and> edit_trace (map fe es) m = Inr (m', ds)
      \<and> feed_edit_run release fin (map fe es) st = Inr (if ds = [] then FinishNone else fin, st')
      \<and> feed_inv own view replay st' (log @ ds) (all_seen qs) {#} \<and> view (fd_current st') = view m' \<and> compacted st'"
      by (rule feed_edit_ok [OF f shared small ed]) (rule run; assumption)
    then show ?thesis using that by blast
  qed
  obtain m2 ds2 where "edit_trace (map fe es) m = Inr (m2, ds2)" "view m2 = y" "length ds2 \<le> k" using spec_edits_ok [OF e(2), of es y k] spec e(1) by auto
  then have y: "view m' = y" "length ds \<le> k" using e(3) by auto
  have "client_inv own view replay st' rs (log @ ds) qs" using inv e(5,7) by (simp add: client_inv_def)
  then show ?thesis using e(4,6) y by auto
qed

text \<open>One operation of the client keeps the storage and what the client is promised in step.\<close>

lemma client_step_ok:
  assumes inv: "client_inv own view replay st rs log qs" and room: "length qs + 2 < 2 ^ 64" "length log + k < 2 ^ 64"
    and spec: "spec_client fs op (view (fd_current st), map (map_option (map_option snd)) qs) = Some (out, k, x', ss')"
  shows "\<exists>out' st' rs' ds qs'. feed_client release fe op (st, rs) = Inr (out', st', rs') \<and> out_ok view replay out' out
    \<and> client_inv own view replay st' rs' (log @ ds) qs' \<and> view (fd_current st') = x' \<and> ss' = map (map_option (map_option snd)) qs'
    \<and> length ds \<le> k \<and> length qs' \<le> Suc (length qs)"
proof -
  let ?seen = "map (map_option (map_option snd))"
  have skip: ?thesis if "feed_client release fe op (st, rs) = Inr (OutNone, st, rs)" "out = SpecNone" "x' = view (fd_current st)" "ss' = ?seen qs"
    using that inv by (intro exI [of _ OutNone] exI [of _ st] exI [of _ rs] exI [of _ "[]"] exI [of _ qs]) simp
  show ?thesis
  proof (cases op)
    case ReaderNew
    then show ?thesis using client_new_ok [OF inv] spec
      by (intro exI [of _ OutNone] exI [of _ st] exI [of _ "rs @ [Some (storage_reader st)]"] exI [of _ "[]"] exI [of _ "qs @ [Some None]"]) simp
  next
    case (ReaderRead i)
    show ?thesis
    proof (cases "live rs i")
      case None
      then have "live qs i = None" using client_live [OF inv] by simp
      then show ?thesis using None ReaderRead spec by (intro skip) (simp_all add: live_map)
    next
      case (Some r)
      obtain d m st' rs' px where s: "feed_client release fe (ReaderRead i) (st, rs) = Inr (OutRead d m, st', rs')" "qs ! i = Some px" "i < length qs"
        "client_inv own view replay st' rs' log (qs[i := Some (Some (length log, view (fd_current st)))])"
        "view (fd_current st') = view (fd_current st)" "view m = view (fd_current st)"
        "case px of None \<Rightarrow> d = DeltaInitial | Some q \<Rightarrow> \<exists>cs. d = DeltaIncremental cs \<and> fold (replay m) cs (snd q) = view m"
        using client_read_ok [OF inv room(1) Some] by blast
      have o: "out = SpecRead (map_option snd px) (view (fd_current st))" "x' = view (fd_current st)"
        "ss' = (?seen qs)[i := Some (Some (view (fd_current st)))]"
        using spec ReaderRead s(2,3) by (auto simp: live_map live_def)
      have "out_ok view replay (OutRead d m) out" using o(1) s(6,7) by (cases px) auto
      then show ?thesis using s o ReaderRead
        by (intro exI [of _ "OutRead d m"] exI [of _ st'] exI [of _ rs'] exI [of _ "[]"] exI [of _ "qs[i := Some (Some (length log, view (fd_current st)))]"])
          (simp add: map_update del: feed_client.simps)
    qed
  next
    case (ReaderClone i)
    show ?thesis
    proof (cases "live rs i")
      case None
      then have "live qs i = None" using client_live [OF inv] by simp
      then show ?thesis using None ReaderClone spec by (intro skip) (simp_all add: live_map)
    next
      case (Some r)
      from client_clone_ok [OF inv room(1) Some, of fe] obtain st' rs' px where
        s: "feed_client release fe (ReaderClone i) (st, rs) = Inr (OutNone, st', rs')" "qs ! i = Some px" "i < length qs"
        "client_inv own view replay st' rs' log (qs @ [Some px])" "view (fd_current st') = view (fd_current st)" by blast
      then show ?thesis using spec ReaderClone
        by (intro exI [of _ OutNone] exI [of _ st'] exI [of _ rs'] exI [of _ "[]"] exI [of _ "qs @ [Some px]"])
          (simp add: live_map live_def del: feed_client.simps)
    qed
  next
    case (ReaderDrop i)
    show ?thesis
    proof (cases "live rs i")
      case None
      then have "live qs i = None" using client_live [OF inv] by simp
      then show ?thesis using None ReaderDrop spec by (intro skip) (simp_all add: live_map)
    next
      case (Some r)
      obtain px where q: "qs ! i = Some px" "i < length qs" using client_reader_at [OF inv Some] by blast
      from client_drop_ok [OF inv room(1) Some, of fe] obtain st' rs' where
        s: "feed_client release fe (ReaderDrop i) (st, rs) = Inr (OutNone, st', rs')"
        "client_inv own view replay st' rs' log (qs[i := None])" "view (fd_current st') = view (fd_current st)" by blast
      then show ?thesis using spec ReaderDrop q
        by (intro exI [of _ OutNone] exI [of _ st'] exI [of _ rs'] exI [of _ "[]"] exI [of _ "qs[i := None]"])
          (simp add: live_map live_def map_update del: feed_client.simps)
    qed
  next
    case (EditWith fin es)
    then have e: "spec_edits fs es (view (fd_current st)) = Some (x', k)" "out = SpecEdit" "ss' = ?seen qs"
      using spec by (auto split: option.splits)
    from client_edit_ok [OF inv room e(1), of fin] obtain fin' st' ds where
      "feed_client release fe (EditWith fin es) (st, rs) = Inr (OutEdit fin', st', rs)" "client_inv own view replay st' rs (log @ ds) qs"
      "view (fd_current st') = x'" "length ds \<le> k" by blast
    then show ?thesis using e EditWith
      by (intro exI [of _ "OutEdit fin'"] exI [of _ st'] exI [of _ rs] exI [of _ ds] exI [of _ qs]) (simp del: feed_client.simps)
  qed
qed

lemma feed_run_ok:
  assumes "client_inv own view replay st rs log qs" and "length qs + length ops + 2 < 2 ^ 64" and "length log + k < 2 ^ 64"
    and "spec_run fs ops (view (fd_current st), map (map_option (map_option snd)) qs) = Some (outs, k, x', ss')"
  shows "\<exists>outs' st' rs' log' qs'. feed_run release fe ops (st, rs) = Inr (outs', st', rs') \<and> list_all2 (out_ok view replay) outs' outs
    \<and> view (fd_current st') = x' \<and> client_inv own view replay st' rs' log' qs' \<and> ss' = map (map_option (map_option snd)) qs'"
  using assms
proof (induction ops arbitrary: st rs log qs k outs)
  case Nil
  then show ?case by auto
next
  case (Cons op ops)
  obtain out k1 x1 ss1 outs1 k2 where s: "spec_client fs op (view (fd_current st), map (map_option (map_option snd)) qs) = Some (out, k1, x1, ss1)"
    "spec_run fs ops (x1, ss1) = Some (outs1, k2, x', ss')" "outs = out # outs1" "k = k1 + k2"
    using Cons.prems(4) by (auto simp del: spec_client.simps split: option.splits)
  have room: "length qs + 2 < 2 ^ 64" "length log + k1 < 2 ^ 64" using Cons.prems(2,3) s(4) by simp_all
  from client_step_ok [OF Cons.prems(1) room s(1)] obtain out' st1 rs1 ds qs1 where
    h: "feed_client release fe op (st, rs) = Inr (out', st1, rs1)" "out_ok view replay out' out"
    "client_inv own view replay st1 rs1 (log @ ds) qs1" "view (fd_current st1) = x1" "ss1 = map (map_option (map_option snd)) qs1"
    "length ds \<le> k1" "length qs1 \<le> Suc (length qs)" by blast
  have "\<exists>outs' st' rs' log' qs'. feed_run release fe ops (st1, rs1) = Inr (outs', st', rs') \<and> list_all2 (out_ok view replay) outs' outs1
    \<and> view (fd_current st') = x' \<and> client_inv own view replay st' rs' log' qs' \<and> ss' = map (map_option (map_option snd)) qs'"
    by (rule Cons.IH [OF h(3)]) (use Cons.prems(2,3) s h in simp_all)
  then show ?case using h(1,2) s(3) by (auto simp del: feed_client.simps) blast
qed

end

end
