(* ===== verification/Vec_Model.thy ===== *)
theory Vec_Model
  imports Slab_Interface Index_Permutation Feed_Client
begin

section \<open>Observable vectors (collections/vec.rs)\<close>

text \<open>
  \<open>VecModel\<close> keeps its values in a slab map and the order as a vector of slab keys, so that a removed
  value stays readable for the readers that have not seen its removal. \<open>ItemsMut\<close> is the editing guard:
  every operation changes the model and says which \<open>ChangeData\<close> it records. \<open>Items\<close> is the reading
  guard, whose \<open>delta\<close> turns the recorded keys back into values.

  The slab map is the parameter \<open>ops\<close>; \<open>us\<close> is the standard library's \<open>sort_unstable_by\<close>, whose order
  of equal elements is unspecified. A comparison closure is given as \<open>le a b\<close>: it does not return
  \<open>Greater\<close>.
\<close>

subsection \<open>The model\<close>

record 's vec_model =
  vm_items :: "nat list"
  vm_values :: 's

datatype change_data =
    ChInsert nat nat            \<comment> \<open>index, new value\<close>
  | ChRemove nat nat            \<comment> \<open>index, old value\<close>
  | ChSet nat nat nat           \<comment> \<open>index, old value, new value\<close>
  | ChMove nat nat
  | ChSwap nat nat
  | ChSort "nat list"

datatype 'v vec_change =
    VcInsert nat 'v
  | VcRemove nat 'v
  | VcSet nat 'v 'v             \<comment> \<open>index, old value, new value\<close>
  | VcMove nat nat
  | VcSwap nat nat
  | VcSort "nat list"

definition vm_new :: "('s, 'v) slab_ops \<Rightarrow> 's vec_model" where
  "vm_new ops = \<lparr>vm_items = [], vm_values = slab_new ops\<rparr>"

definition vm_len :: "'s vec_model \<Rightarrow> nat" where
  "vm_len m = length (vm_items m)"

definition insert_raw :: "('s, 'v) slab_ops \<Rightarrow> nat \<Rightarrow> 'v \<Rightarrow> 's vec_model \<Rightarrow> (nat \<times> 's vec_model) result" where
  "insert_raw ops i v m =
     (let (key, vs) = slab_insert ops (vm_values m) v
      in if i \<le> length (vm_items m) then Inr (key, \<lparr>vm_items = list_insert i key (vm_items m), vm_values = vs\<rparr>)
         else Inl IndexOutOfBounds)"

definition push_raw :: "('s, 'v) slab_ops \<Rightarrow> 'v \<Rightarrow> 's vec_model \<Rightarrow> 's vec_model result" where
  "push_raw ops v m = res_bind (insert_raw ops (vm_len m) v m) (\<lambda>(_, m1). Inr m1)"

definition slab_index :: "('s, 'v) slab_ops \<Rightarrow> 's \<Rightarrow> nat \<Rightarrow> 'v result" where
  "slab_index ops vs k = res_of_option InvalidKey (slab_get ops vs k)"

definition vm_get :: "('s, 'v) slab_ops \<Rightarrow> 's vec_model \<Rightarrow> nat \<Rightarrow> 'v option result" where
  "vm_get ops m i =
     (if i < length (vm_items m) then res_bind (slab_index ops (vm_values m) (vm_items m ! i)) (\<lambda>v. Inr (Some v))
      else Inr None)"

text \<open>\<open>Iter\<close>: its \<open>next\<close>, and the \<open>for\<close> loop over it.\<close>

definition iter_next :: "(nat \<Rightarrow> 'v option result) \<Rightarrow> nat \<Rightarrow> ('v option \<times> nat) result" where
  "iter_next get i = res_bind (get i) (\<lambda>x. case x of None \<Rightarrow> Inr (None, i) | Some v \<Rightarrow> Inr (Some v, i + 1))"

fun iter_collect :: "nat \<Rightarrow> (nat \<Rightarrow> 'v option result) \<Rightarrow> nat \<Rightarrow> 'v list result" where
  "iter_collect 0 get i = Inl OutOfFuel"
| "iter_collect (Suc fuel) get i = res_bind (iter_next get i) (\<lambda>(x, j).
     case x of None \<Rightarrow> Inr [] | Some v \<Rightarrow> res_bind (iter_collect fuel get j) (\<lambda>vs. Inr (v # vs)))"

definition vm_iter :: "('s, 'v) slab_ops \<Rightarrow> 's vec_model \<Rightarrow> 'v list result" where
  "vm_iter ops m = iter_collect (Suc (vm_len m)) (vm_get ops m) 0"

text \<open>Stable insertion sort, the result that \<open>slice::sort_by\<close> documents for a total preorder.\<close>

fun insert_by :: "('a \<Rightarrow> 'a \<Rightarrow> bool) \<Rightarrow> 'a \<Rightarrow> 'a list \<Rightarrow> 'a list" where
  "insert_by le x [] = [x]"
| "insert_by le x (y # ys) = (if le x y then x # y # ys else y # insert_by le x ys)"

definition sort_by_le :: "('a \<Rightarrow> 'a \<Rightarrow> bool) \<Rightarrow> 'a list \<Rightarrow> 'a list" where
  "sort_by_le le xs = foldr (insert_by le) xs []"

type_synonym unstable_sort = "(nat \<Rightarrow> nat \<Rightarrow> bool) \<Rightarrow> nat list \<Rightarrow> nat list"

definition vm_value :: "('s, 'v) slab_ops \<Rightarrow> 's vec_model \<Rightarrow> nat \<Rightarrow> 'v" where
  "vm_value ops m i = the (slab_get ops (vm_values m) (vm_items m ! i))"

definition vm_present :: "('s, 'v) slab_ops \<Rightarrow> 's vec_model \<Rightarrow> bool" where
  "vm_present ops m = list_all (\<lambda>k. slab_get ops (vm_values m) k \<noteq> None) (vm_items m)"

text \<open>
  \<open>sort_as\<close>: the branches are as in the source, where \<open>stable\<close> selects \<open>sort_unstable_by\<close>. Sorting two
  or more elements compares each of them, which panics on a vacant key.
\<close>

definition sort_as ::
    "('s, 'v) slab_ops \<Rightarrow> unstable_sort \<Rightarrow> ('v \<Rightarrow> 'v \<Rightarrow> bool) \<Rightarrow> bool \<Rightarrow> 's vec_model \<Rightarrow> ('s vec_model \<times> change_data option) result" where
  "sort_as ops us le is_stable m =
     (let indices = [0 ..< length (vm_items m)];
          compare = (\<lambda>i0 i1. le (vm_value ops m i0) (vm_value ops m i1))
      in if 1 < length (vm_items m) \<and> \<not> vm_present ops m then Inl InvalidKey
         else let new_to_old = (if is_stable then us compare indices else sort_by_le compare indices)
              in if is_sorted new_to_old then Inr (m, None)
                 else res_bind (apply_to new_to_old (vm_items m)) (\<lambda>xs. Inr (m\<lparr>vm_items := xs\<rparr>, Some (ChSort new_to_old))))"

definition release_change :: "('s, 'v) slab_ops \<Rightarrow> change_data \<Rightarrow> 's vec_model \<Rightarrow> 's vec_model" where
  "release_change ops c m = (case c of
       ChRemove _ old \<Rightarrow> m\<lparr>vm_values := slab_remove ops (vm_values m) old\<rparr>
     | ChSet _ old _ \<Rightarrow> m\<lparr>vm_values := slab_remove ops (vm_values m) old\<rparr>
     | _ \<Rightarrow> m)"

subsection \<open>Editing: \<open>ItemsMut\<close>\<close>

type_synonym 's vec_edit = "'s vec_model \<Rightarrow> ('s vec_model \<times> change_data list) result"

definition edit_seq :: "('m \<Rightarrow> ('m \<times> 'c list) result) \<Rightarrow> ('m \<Rightarrow> ('m \<times> 'c list) result) \<Rightarrow> 'm \<Rightarrow> ('m \<times> 'c list) result" where
  "edit_seq f g m = res_bind (f m) (\<lambda>(m1, ds). res_bind (g m1) (\<lambda>(m2, es). Inr (m2, ds @ es)))"

definition items_insert :: "('s, 'v) slab_ops \<Rightarrow> nat \<Rightarrow> 'v \<Rightarrow> 's vec_edit" where
  "items_insert ops i v m = res_bind (insert_raw ops i v m) (\<lambda>(key, m1). Inr (m1, [ChInsert i key]))"

definition items_push :: "('s, 'v) slab_ops \<Rightarrow> 'v \<Rightarrow> 's vec_edit" where
  "items_push ops v m = items_insert ops (vm_len m) v m"

definition items_remove :: "nat \<Rightarrow> 's vec_edit" where
  "items_remove i m = res_bind (list_index (vm_items m) i) (\<lambda>old.
     Inr (m\<lparr>vm_items := list_remove i (vm_items m)\<rparr>, [ChRemove i old]))"

definition items_set :: "('s, 'v) slab_ops \<Rightarrow> nat \<Rightarrow> 'v \<Rightarrow> 's vec_edit" where
  "items_set ops i v m = res_bind (list_index (vm_items m) i) (\<lambda>old.
     let (new, vs) = slab_insert ops (vm_values m) v
     in Inr (\<lparr>vm_items = (vm_items m)[i := new], vm_values = vs\<rparr>, [ChSet i old new]))"

definition items_swap :: "nat \<Rightarrow> nat \<Rightarrow> 's vec_edit" where
  "items_swap i j m =
     (if i = j then Inr (m, [])
      else res_bind (slice_swap i j (vm_items m)) (\<lambda>xs. Inr (m\<lparr>vm_items := xs\<rparr>, [ChSwap i j])))"

definition items_swap_remove :: "nat \<Rightarrow> 's vec_edit" where
  "items_swap_remove i m =
     res_bind (res_assert AssertFailed (i < vm_len m)) (\<lambda>_.
       let last = vm_len m - 1 in edit_seq (items_swap i last) (items_remove last) m)"

text \<open>\<open>xs[a..=b].rotate_left(1)\<close> and \<open>rotate_right(1)\<close>.\<close>

definition slice_rotate_left :: "nat \<Rightarrow> nat \<Rightarrow> 'a list \<Rightarrow> 'a list result" where
  "slice_rotate_left a b xs =
     (if a \<le> b \<and> b < length xs then Inr (take a xs @ rotate1 (take (Suc b - a) (drop a xs)) @ drop (Suc b) xs)
      else Inl IndexOutOfBounds)"

definition rotate_right1 :: "'a list \<Rightarrow> 'a list" where
  "rotate_right1 xs = (if xs = [] then [] else last xs # butlast xs)"

definition slice_rotate_right :: "nat \<Rightarrow> nat \<Rightarrow> 'a list \<Rightarrow> 'a list result" where
  "slice_rotate_right a b xs =
     (if a \<le> b \<and> b < length xs then Inr (take a xs @ rotate_right1 (take (Suc b - a) (drop a xs)) @ drop (Suc b) xs)
      else Inl IndexOutOfBounds)"

definition items_move_item :: "nat \<Rightarrow> nat \<Rightarrow> 's vec_edit" where
  "items_move_item old new m =
     (if old = new then Inr (m, [])
      else res_bind (if old < new then slice_rotate_left old new (vm_items m) else slice_rotate_right new old (vm_items m))
             (\<lambda>xs. Inr (m\<lparr>vm_items := xs\<rparr>, [ChMove old new])))"

definition items_sort_by :: "('s, 'v) slab_ops \<Rightarrow> unstable_sort \<Rightarrow> ('v \<Rightarrow> 'v \<Rightarrow> bool) \<Rightarrow> 's vec_edit" where
  "items_sort_by ops us le m =
     res_bind (sort_as ops us le True m) (\<lambda>(m1, c). Inr (m1, case c of None \<Rightarrow> [] | Some d \<Rightarrow> [d]))"

definition items_sort_unstable_by :: "('s, 'v) slab_ops \<Rightarrow> unstable_sort \<Rightarrow> ('v \<Rightarrow> 'v \<Rightarrow> bool) \<Rightarrow> 's vec_edit" where
  "items_sort_unstable_by ops us le m =
     res_bind (sort_as ops us le False m) (\<lambda>(m1, c). Inr (m1, case c of None \<Rightarrow> [] | Some d \<Rightarrow> [d]))"

text \<open>\<open>sort_by_key(key)\<close> and \<open>sort_unstable_by_key(key)\<close>; \<open>sort\<close> is the case of the identity.\<close>

definition items_sort_by_key :: "('s, 'v) slab_ops \<Rightarrow> unstable_sort \<Rightarrow> ('k \<Rightarrow> 'k \<Rightarrow> bool) \<Rightarrow> ('v \<Rightarrow> 'k) \<Rightarrow> 's vec_edit" where
  "items_sort_by_key ops us le key = items_sort_by ops us (\<lambda>a b. le (key a) (key b))"

definition items_sort_unstable_by_key :: "('s, 'v) slab_ops \<Rightarrow> unstable_sort \<Rightarrow> ('k \<Rightarrow> 'k \<Rightarrow> bool) \<Rightarrow> ('v \<Rightarrow> 'k) \<Rightarrow> 's vec_edit" where
  "items_sort_unstable_by_key ops us le key = items_sort_unstable_by ops us (\<lambda>a b. le (key a) (key b))"

definition items_drain :: "bound \<Rightarrow> bound \<Rightarrow> 's vec_edit" where
  "items_drain s e m =
     res_bind (to_range s e (vm_len m)) (\<lambda>(a, b).
     res_bind (res_map (\<lambda>i. res_bind (list_index (vm_items m) i) (\<lambda>old. Inr (ChRemove i old))) (rev [a ..< b])) (\<lambda>ds.
       Inr (m\<lparr>vm_items := take a (vm_items m) @ drop b (vm_items m)\<rparr>, ds)))"

definition items_clear :: "'s vec_edit" where
  "items_clear = items_drain Unbounded Unbounded"

fun items_extend :: "('s, 'v) slab_ops \<Rightarrow> 'v list \<Rightarrow> 's vec_edit" where
  "items_extend ops [] m = Inr (m, [])"
| "items_extend ops (v # vs) m = edit_seq (items_push ops v) (items_extend ops vs) m"

datatype 'v vec_op =
    VecInsert nat 'v | VecPush 'v | VecRemove nat | VecSet nat 'v | VecSwap nat nat | VecSwapRemove nat | VecMoveItem nat nat
  | VecSortBy "'v \<Rightarrow> 'v \<Rightarrow> bool" | VecSortUnstableBy "'v \<Rightarrow> 'v \<Rightarrow> bool" | VecDrain bound bound | VecClear | VecExtend "'v list"

fun vec_apply :: "('s, 'v) slab_ops \<Rightarrow> unstable_sort \<Rightarrow> 'v vec_op \<Rightarrow> 's vec_edit" where
  "vec_apply ops us (VecInsert i v) = items_insert ops i v"
| "vec_apply ops us (VecPush v) = items_push ops v"
| "vec_apply ops us (VecRemove i) = items_remove i"
| "vec_apply ops us (VecSet i v) = items_set ops i v"
| "vec_apply ops us (VecSwap i j) = items_swap i j"
| "vec_apply ops us (VecSwapRemove i) = items_swap_remove i"
| "vec_apply ops us (VecMoveItem i j) = items_move_item i j"
| "vec_apply ops us (VecSortBy le) = items_sort_by ops us le"
| "vec_apply ops us (VecSortUnstableBy le) = items_sort_unstable_by ops us le"
| "vec_apply ops us (VecDrain s e) = items_drain s e"
| "vec_apply ops us VecClear = items_clear"
| "vec_apply ops us (VecExtend vs) = items_extend ops vs"

text \<open>\<open>FromIterator\<close> and \<open>Deserialize\<close> push every value in order.\<close>

definition from_iter :: "('s, 'v) slab_ops \<Rightarrow> 'v list \<Rightarrow> 's vec_model result" where
  "from_iter ops vs = res_fold (push_raw ops) vs (vm_new ops)"

subsection \<open>Reading: \<open>Items\<close>\<close>

definition to_signal_vec_change :: "('s, 'v) slab_ops \<Rightarrow> 's \<Rightarrow> change_data \<Rightarrow> 'v vec_change result" where
  "to_signal_vec_change ops vs c = (case c of
       ChInsert i new \<Rightarrow> res_bind (slab_index ops vs new) (\<lambda>v. Inr (VcInsert i v))
     | ChRemove i old \<Rightarrow> res_bind (slab_index ops vs old) (\<lambda>v. Inr (VcRemove i v))
     | ChSet i old new \<Rightarrow> res_bind (slab_index ops vs old) (\<lambda>u. res_bind (slab_index ops vs new) (\<lambda>v. Inr (VcSet i u v)))
     | ChMove i j \<Rightarrow> Inr (VcMove i j)
     | ChSwap i j \<Rightarrow> Inr (VcSwap i j)
     | ChSort p \<Rightarrow> Inr (VcSort p))"

datatype ('s, 'v) raw_items = FromFeed feed_ref "('s vec_model, change_data) feed" | FromSlice "'v list"

record ('s, 'v) vec_items =
  it_items :: "('s, 'v) raw_items"
  it_initial :: bool

definition from_slice :: "'v list \<Rightarrow> bool \<Rightarrow> ('s, 'v) vec_items" where
  "from_slice xs initial = \<lparr>it_items = FromSlice xs, it_initial = initial\<rparr>"

definition from_ref :: "feed_ref \<Rightarrow> ('s vec_model, change_data) feed \<Rightarrow> ('s, 'v) vec_items" where
  "from_ref g st = \<lparr>it_items = FromFeed g st, it_initial = False\<rparr>"

definition items_len :: "('s, 'v) vec_items \<Rightarrow> nat" where
  "items_len it = (case it_items it of FromFeed g st \<Rightarrow> length (vm_items (ref_current g st)) | FromSlice xs \<Rightarrow> length xs)"

definition items_get :: "('s, 'v) slab_ops \<Rightarrow> ('s, 'v) vec_items \<Rightarrow> nat \<Rightarrow> 'v option result" where
  "items_get ops it i = (case it_items it of FromFeed g st \<Rightarrow> vm_get ops (ref_current g st) i
     | FromSlice xs \<Rightarrow> Inr (if i < length xs then Some (xs ! i) else None))"

definition items_iter :: "('s, 'v) slab_ops \<Rightarrow> ('s, 'v) vec_items \<Rightarrow> 'v list result" where
  "items_iter ops it = iter_collect (Suc (items_len it)) (items_get ops it) 0"

definition initial_changes :: "('s, 'v) slab_ops \<Rightarrow> ('s, 'v) vec_items \<Rightarrow> 'v vec_change list result" where
  "initial_changes ops it = res_bind (items_iter ops it) (\<lambda>vs. Inr (map (\<lambda>(i, v). VcInsert i v) (zip [0 ..< length vs] vs)))"

definition items_delta :: "('s, 'v) slab_ops \<Rightarrow> ('s, 'v) vec_items \<Rightarrow> 'v vec_change list result" where
  "items_delta ops it = (case it_items it of
       FromFeed g st \<Rightarrow> res_bind (ref_delta g st) (\<lambda>d. case d of
           DeltaInitial \<Rightarrow> initial_changes ops it
         | DeltaIncremental cs \<Rightarrow> res_map (to_signal_vec_change ops (vm_values (ref_current g st))) cs)
     | FromSlice xs \<Rightarrow> if it_initial it then initial_changes ops it else Inr [])"

text \<open>A reader of an immutable \<open>Vec\<close> or slice.\<close>

record 'v slice_reader =
  sr_items :: "'v list"
  sr_has_read :: bool

definition slice_reader_new :: "'v list \<Rightarrow> 'v slice_reader" where
  "slice_reader_new xs = \<lparr>sr_items = xs, sr_has_read = False\<rparr>"

definition slice_reader_read :: "'v slice_reader \<Rightarrow> ('s, 'v) vec_items \<times> 'v slice_reader" where
  "slice_reader_read r = (from_slice (sr_items r) (\<not> sr_has_read r), r\<lparr>sr_has_read := True\<rparr>)"

definition slice_reader_peek :: "'v slice_reader \<Rightarrow> ('s, 'v) vec_items" where
  "slice_reader_peek r = from_slice (sr_items r) (\<not> sr_has_read r)"

end
