(* ===== verification/Retained_Keys.thy ===== *)
theory Retained_Keys
  imports Slab_Interface
begin

section \<open>Storage keys that unread changes still need\<close>

text \<open>
  The collections keep their values in a slab map and delay the removal of a value until every reader has
  seen the change that removed it. \<open>nk c\<close> and \<open>rk c\<close> are the keys a change \<open>c\<close> introduces and retires. \<open>keys_inv\<close> is
  the invariant of the storage: with live keys \<open>I\<close> and retained changes \<open>cs\<close>, the occupied keys \<open>D\<close> are the
  live ones and the retired ones that wait, and a retired key is used by nothing later.
\<close>

definition touched :: "('c \<Rightarrow> nat set) \<Rightarrow> ('c \<Rightarrow> nat set) \<Rightarrow> 'c \<Rightarrow> nat set" where
  "touched nk rk c = nk c \<union> rk c"

fun keys_ok :: "('c \<Rightarrow> nat set) \<Rightarrow> ('c \<Rightarrow> nat set) \<Rightarrow> 'c list \<Rightarrow> nat set \<Rightarrow> bool" where
  "keys_ok nk rk [] I \<longleftrightarrow> True"
| "keys_ok nk rk (c # cs) I \<longleftrightarrow> rk c \<inter> ((\<Union>d \<in> set cs. touched nk rk d) \<union> I) = {} \<and> keys_ok nk rk cs I"

definition keys_inv :: "('c \<Rightarrow> nat set) \<Rightarrow> ('c \<Rightarrow> nat set) \<Rightarrow> 'c list \<Rightarrow> nat set \<Rightarrow> nat set \<Rightarrow> bool" where
  "keys_inv nk rk cs I D \<longleftrightarrow> D = I \<union> (\<Union>c \<in> set cs. rk c) \<and> (\<Union>c \<in> set cs. nk c) \<subseteq> D \<and> keys_ok nk rk cs I"

lemma keys_ok_mono: "keys_ok nk rk cs I \<Longrightarrow> J \<subseteq> I \<Longrightarrow> keys_ok nk rk cs J"
  by (induction cs) auto

lemma keys_ok_append: "keys_ok nk rk (cs @ [d]) I \<longleftrightarrow> keys_ok nk rk cs (I \<union> touched nk rk d) \<and> rk d \<inter> I = {}"
  by (induction cs) auto

lemma keys_ok_add: "keys_ok nk rk cs I \<Longrightarrow> (\<And>c. c \<in> set cs \<Longrightarrow> rk c \<inter> N = {}) \<Longrightarrow> keys_ok nk rk cs (I \<union> N)"
  by (induction cs) auto

lemma keys_inv_Nil: "keys_inv nk rk [] I D \<longleftrightarrow> D = I"
  by (auto simp: keys_inv_def)

lemma keys_inv_mem: "keys_inv nk rk cs I D \<Longrightarrow> k \<in> I \<or> (\<exists>c \<in> set cs. k \<in> touched nk rk c) \<Longrightarrow> k \<in> D"
  unfolding keys_inv_def touched_def by blast

lemma keys_inv_retired: "keys_inv nk rk (c # cs) I D \<Longrightarrow> k \<in> I \<or> (\<exists>d \<in> set cs. k \<in> touched nk rk d) \<Longrightarrow> k \<notin> rk c"
  unfolding keys_inv_def keys_ok.simps by blast

lemma keys_inv_release:
  assumes "keys_inv nk rk (c # cs) I D"
  shows "keys_inv nk rk cs I (D - rk c)"
proof -
  let ?N = "\<Union>d \<in> set cs. nk d" and ?R = "\<Union>d \<in> set cs. rk d"
  have k: "keys_ok nk rk cs I" and D: "D = I \<union> (rk c \<union> ?R)" using assms by (simp_all only: keys_inv_def keys_ok.simps list.set UN_insert)
  have "nk c \<union> ?N \<subseteq> D" using assms unfolding keys_inv_def list.set UN_insert by (elim conjE)
  then have N: "?N \<subseteq> D" by (rule order_trans [OF Un_upper2])
  have off: "x \<notin> rk c" if "x \<in> I \<or> x \<in> ?N \<or> x \<in> ?R" for x
    using keys_inv_retired [OF assms, of x] that by (auto simp: touched_def)
  have "D - rk c = I \<union> ?R" using off unfolding D by blast
  moreover have "?N \<subseteq> D - rk c" using N off by blast
  ultimately show ?thesis using k by (simp only: keys_inv_def)
qed

lemma keys_inv_step:
  assumes inv: "keys_inv nk rk cs I D" and I: "I' \<union> rk d = I \<union> nk d" and new: "nk d \<inter> D = {}" and D: "D' = D \<union> nk d"
    and old: "rk d \<inter> I' = {}"
  shows "keys_inv nk rk (cs @ [d]) I' D'"
proof -
  have "rk c \<inter> nk d = {}" if "c \<in> set cs" for c using that inv new unfolding keys_inv_def by blast
  then have "keys_ok nk rk cs (I \<union> nk d)" using inv unfolding keys_inv_def by (intro keys_ok_add) blast+
  then have "keys_ok nk rk cs (I' \<union> touched nk rk d)" by (rule keys_ok_mono) (use I in \<open>auto simp: touched_def\<close>)
  moreover have "D' = I' \<union> (\<Union>c \<in> set (cs @ [d]). rk c)" "(\<Union>c \<in> set (cs @ [d]). nk c) \<subseteq> D'"
    using inv I unfolding keys_inv_def D by auto
  ultimately show ?thesis using old by (simp add: keys_inv_def keys_ok_append)
qed

end
