(* ===== verification/Vec_Spec.thy ===== *)
theory Vec_Spec
  imports Vec_Model Retained_Keys
begin

section \<open>Correctness of observable vectors\<close>

text \<open>
  \<open>vec_spec\<close> says what every operation of \<open>ItemsMut\<close> does to the list of values, and \<open>vec_replay\<close> what a
  reader that mirrors the vector does with a change: it fails unless the change fits, that is the index is in range
  and the reported old value is the one there. \<open>vec_own\<close> is the storage invariant: every key of the order and of
  a change that some reader can still see is occupied, and the old value of a change is used by nothing later.
  The contract of change feeds is interpreted on these definitions.
\<close>

subsection \<open>Values of a model\<close>

definition vm_contents :: "('s, 'v) slab_ops \<Rightarrow> 's vec_model \<Rightarrow> 'v list" where
  "vm_contents ops m = map (\<lambda>k. the (slab_get ops (vm_values m) k)) (vm_items m)"

definition vm_view :: "('s, 'v) slab_ops \<Rightarrow> 's vec_model \<Rightarrow> 'v list option" where
  "vm_view ops m = (if vm_present ops m then Some (vm_contents ops m) else None)"

lemma length_vm_contents [simp]: "length (vm_contents ops m) = length (vm_items m)"
  by (simp add: vm_contents_def)

lemma vm_present_iff: "vm_present ops m \<longleftrightarrow> (\<forall>k \<in> set (vm_items m). \<exists>v. slab_get ops (vm_values m) k = Some v)"
  by (auto simp: vm_present_def list_all_iff)

lemma vm_view_Some: "vm_view ops m = Some xs \<longleftrightarrow> vm_present ops m \<and> xs = vm_contents ops m"
  by (auto simp: vm_view_def)

lemma vm_get_ok: "vm_present ops m \<Longrightarrow> vm_get ops m i = Inr (if i < vm_len m then Some (vm_contents ops m ! i) else None)"
proof (cases "i < length (vm_items m)")
  case True
  assume "vm_present ops m"
  then obtain v where "slab_get ops (vm_values m) (vm_items m ! i) = Some v" using True nth_mem unfolding vm_present_iff by blast
  then show ?thesis using True by (simp add: vm_get_def vm_len_def vm_contents_def slab_index_def)
qed (simp add: vm_get_def vm_len_def)

lemma iter_collect_ok:
  assumes "\<And>i. get i = Inr (if i < length xs then Some (xs ! i) else None)" and "length xs - i < fuel"
  shows "iter_collect fuel get i = Inr (drop i xs)"
  using assms(2)
proof (induction fuel arbitrary: i)
  case (Suc fuel)
  then show ?case by (cases "i < length xs") (auto simp: iter_next_def assms(1) Cons_nth_drop_Suc)
qed simp

lemma vm_iter_ok: "vm_present ops m \<Longrightarrow> vm_iter ops m = Inr (vm_contents ops m)"
  using iter_collect_ok [of "vm_get ops m" "vm_contents ops m" 0 "Suc (vm_len m)"]
  by (simp add: vm_iter_def vm_get_ok vm_len_def del: iter_collect.simps)

subsection \<open>Replaying a change on a mirror\<close>

definition spec_move :: "nat \<Rightarrow> nat \<Rightarrow> 'a list \<Rightarrow> 'a list" where
  "spec_move i j xs = list_insert j (xs ! i) (list_remove i xs)"

fun apply_change :: "'v vec_change \<Rightarrow> 'v list \<Rightarrow> 'v list option" where
  "apply_change (VcInsert i v) xs = (if i \<le> length xs then Some (list_insert i v xs) else None)"
| "apply_change (VcRemove i v) xs = (if i < length xs \<and> xs ! i = v then Some (list_remove i xs) else None)"
| "apply_change (VcSet i u v) xs = (if i < length xs \<and> xs ! i = u then Some (xs[i := v]) else None)"
| "apply_change (VcMove i j) xs = (if i < length xs \<and> j < length xs then Some (spec_move i j xs) else None)"
| "apply_change (VcSwap i j) xs = (if i < length xs \<and> j < length xs then Some (list_swap i j xs) else None)"
| "apply_change (VcSort p) xs = (if is_perm p (length xs) then Some (map ((!) xs) p) else None)"

definition apply_delta :: "'v vec_change list \<Rightarrow> 'v list \<Rightarrow> 'v list option" where
  "apply_delta cs xs = fold (\<lambda>c x. Option.bind x (apply_change c)) cs (Some xs)"

definition vec_replay :: "('s, 'v) slab_ops \<Rightarrow> 's vec_model \<Rightarrow> change_data \<Rightarrow> 'v list option \<Rightarrow> 'v list option" where
  "vec_replay ops m c x = (case to_signal_vec_change ops (vm_values m) c of Inl _ \<Rightarrow> None | Inr d \<Rightarrow> Option.bind x (apply_change d))"

lemma fold_bind_None [simp]: "fold (\<lambda>c x. Option.bind x (f c)) cs None = None"
  by (induction cs) simp_all

lemma vec_replay_None [simp]: "fold (vec_replay ops m) cs None = None"
  by (induction cs) (simp_all add: vec_replay_def split: sum.split)

text \<open>A replay that succeeds is one with the delta of the values.\<close>

lemma vec_replay_delta:
  assumes "fold (vec_replay ops m) cs (Some xs) = Some ys"
  shows "\<exists>ds. res_map (to_signal_vec_change ops (vm_values m)) cs = Inr ds \<and> apply_delta ds xs = Some ys"
  using assms
proof (induction cs arbitrary: xs)
  case Nil
  then show ?case by (simp add: apply_delta_def)
next
  case (Cons c cs)
  obtain d zs where d: "to_signal_vec_change ops (vm_values m) c = Inr d" "apply_change d xs = Some zs" "fold (vec_replay ops m) cs (Some zs) = Some ys"
  proof (cases "vec_replay ops m c (Some xs)")
    case None
    then show ?thesis using Cons.prems by simp
  next
    case (Some zs)
    then obtain d where "to_signal_vec_change ops (vm_values m) c = Inr d" "apply_change d xs = Some zs"
      by (auto simp: vec_replay_def split: sum.splits)
    then show ?thesis using that [of d zs] Cons.prems Some by simp
  qed
  from Cons.IH [OF d(3)] obtain ds where "res_map (to_signal_vec_change ops (vm_values m)) cs = Inr ds" "apply_delta ds zs = Some ys" by blast
  then show ?case using d(1,2) by (simp add: apply_delta_def)
qed

subsection \<open>The storage invariant\<close>

fun new_keys :: "change_data \<Rightarrow> nat set" where
  "new_keys (ChInsert i k) = {k}"
| "new_keys (ChSet i old new) = {new}"
| "new_keys _ = {}"

fun old_keys :: "change_data \<Rightarrow> nat set" where
  "old_keys (ChRemove i k) = {k}"
| "old_keys (ChSet i old new) = {old}"
| "old_keys _ = {}"

abbreviation change_keys :: "change_data \<Rightarrow> nat set" where
  "change_keys \<equiv> touched new_keys old_keys"

text \<open>
  The contract of the standard library's \<open>sort_unstable_by\<close>: a permutation, sorted if the comparison is a total preorder, that
  depends on the comparisons of the elements only.
\<close>

definition total_preorder :: "('a \<Rightarrow> 'a \<Rightarrow> bool) \<Rightarrow> bool" where
  "total_preorder le \<longleftrightarrow> (\<forall>a b. le a b \<or> le b a) \<and> (\<forall>a b c. le a b \<longrightarrow> le b c \<longrightarrow> le a c)"

definition unstable_sort_laws :: "unstable_sort \<Rightarrow> bool" where
  "unstable_sort_laws us \<longleftrightarrow> (\<forall>le xs. mset (us le xs) = mset xs) \<and> (\<forall>le xs. total_preorder le \<longrightarrow> sorted_wrt le (us le xs))
     \<and> (\<forall>le le' xs. (\<forall>i \<in> set xs. \<forall>j \<in> set xs. le i j = le' i j) \<longrightarrow> us le xs = us le' xs)"

definition vec_own :: "('s, 'v) slab_ops \<Rightarrow> unstable_sort \<Rightarrow> 's vec_model \<Rightarrow> change_data list \<Rightarrow> bool" where
  "vec_own ops us m cs \<longleftrightarrow> slab_laws ops \<and> unstable_sort_laws us \<and> distinct (vm_items m)
     \<and> keys_inv new_keys old_keys cs (set (vm_items m)) (dom (slab_get ops (vm_values m)))"

lemma vec_own_keys:
  "vec_own ops us m cs \<Longrightarrow> k \<in> set (vm_items m) \<or> (\<exists>c \<in> set cs. k \<in> change_keys c) \<Longrightarrow> \<exists>v. slab_get ops (vm_values m) k = Some v"
  using keys_inv_mem [of new_keys old_keys cs "set (vm_items m)" "dom (slab_get ops (vm_values m))" k] by (auto simp: vec_own_def)

lemma vec_own_present: "vec_own ops us m cs \<Longrightarrow> vm_present ops m"
  using vec_own_keys unfolding vm_present_iff by blast

lemma vec_own_view: "vec_own ops us m cs \<Longrightarrow> vm_view ops m = Some (vm_contents ops m)"
  by (simp add: vm_view_def vec_own_present)

lemma vec_own_new: "slab_laws ops \<Longrightarrow> unstable_sort_laws us \<Longrightarrow> vec_own ops us (vm_new ops) []"
  by (simp add: vec_own_def vm_new_def slab_get_new dom_def keys_inv_Nil)

lemma to_change_cong:
  "(\<And>k. k \<in> change_keys c \<Longrightarrow> slab_get ops vs k = slab_get ops vs' k) \<Longrightarrow> to_signal_vec_change ops vs c = to_signal_vec_change ops vs' c"
  by (cases c) (simp_all add: to_signal_vec_change_def slab_index_def touched_def)

lemma replaced_key: "a \<in> S \<Longrightarrow> insert k (S - {a}) \<union> {a} = S \<union> {k}"
  by blast

lemma release_change_ok:
  assumes o: "vec_own ops us m (c # cs)"
  shows "vec_own ops us (release_change ops c m) cs" and "vm_view ops (release_change ops c m) = vm_view ops m"
    and "d \<in> set cs \<Longrightarrow> vec_replay ops (release_change ops c m) d x = vec_replay ops m d x"
proof -
  have laws: "slab_laws ops" using o by (simp add: vec_own_def)
  have items: "vm_items (release_change ops c m) = vm_items m" by (simp add: release_change_def split: change_data.split)
  have keys: "keys_inv new_keys old_keys (c # cs) (set (vm_items m)) (dom (slab_get ops (vm_values m)))" using o by (simp add: vec_own_def)
  have eq: "slab_get ops (vm_values (release_change ops c m)) k = (if k \<in> old_keys c then None else slab_get ops (vm_values m) k)" for k
    by (cases c) (simp_all add: release_change_def slab_get_remove [OF laws])
  have get: "slab_get ops (vm_values (release_change ops c m)) k = slab_get ops (vm_values m) k"
    if "k \<in> set (vm_items m) \<or> (\<exists>d \<in> set cs. k \<in> change_keys d)" for k
    using keys_inv_retired [OF keys that] by (simp add: eq)
  have dom: "dom (slab_get ops (vm_values (release_change ops c m))) = dom (slab_get ops (vm_values m)) - old_keys c"
    by (auto simp: eq split: if_splits)
  show own: "vec_own ops us (release_change ops c m) cs" using o keys_inv_release [OF keys] by (simp add: vec_own_def items dom)
  have "vm_contents ops (release_change ops c m) = vm_contents ops m" using get by (simp add: vm_contents_def items)
  then show "vm_view ops (release_change ops c m) = vm_view ops m" using vec_own_view [OF o] vec_own_view [OF own] by simp
  assume "d \<in> set cs"
  then have "to_signal_vec_change ops (vm_values (release_change ops c m)) d = to_signal_vec_change ops (vm_values m) d"
    using get by (intro to_change_cong) blast
  then show "vec_replay ops (release_change ops c m) d x = vec_replay ops m d x" by (simp add: vec_replay_def)
qed

subsection \<open>Elementary steps\<close>

inductive vec_step :: "('s, 'v) slab_ops \<Rightarrow> 's vec_model \<Rightarrow> change_data \<Rightarrow> 's vec_model \<Rightarrow> bool" for ops where
  step_insert: "i \<le> length xs \<Longrightarrow> slab_insert ops vs v = (k, vs') \<Longrightarrow>
     vec_step ops \<lparr>vm_items = xs, vm_values = vs\<rparr> (ChInsert i k) \<lparr>vm_items = list_insert i k xs, vm_values = vs'\<rparr>"
| step_remove: "i < length xs \<Longrightarrow>
     vec_step ops \<lparr>vm_items = xs, vm_values = vs\<rparr> (ChRemove i (xs ! i)) \<lparr>vm_items = list_remove i xs, vm_values = vs\<rparr>"
| step_set: "i < length xs \<Longrightarrow> slab_insert ops vs v = (k, vs') \<Longrightarrow>
     vec_step ops \<lparr>vm_items = xs, vm_values = vs\<rparr> (ChSet i (xs ! i) k) \<lparr>vm_items = xs[i := k], vm_values = vs'\<rparr>"
| step_swap: "i < length xs \<Longrightarrow> j < length xs \<Longrightarrow>
     vec_step ops \<lparr>vm_items = xs, vm_values = vs\<rparr> (ChSwap i j) \<lparr>vm_items = list_swap i j xs, vm_values = vs\<rparr>"
| step_move: "i < length xs \<Longrightarrow> j < length xs \<Longrightarrow>
     vec_step ops \<lparr>vm_items = xs, vm_values = vs\<rparr> (ChMove i j) \<lparr>vm_items = spec_move i j xs, vm_values = vs\<rparr>"
| step_sort: "is_perm p (length xs) \<Longrightarrow>
     vec_step ops \<lparr>vm_items = xs, vm_values = vs\<rparr> (ChSort p) \<lparr>vm_items = map ((!) xs) p, vm_values = vs\<rparr>"

inductive vec_steps :: "('s, 'v) slab_ops \<Rightarrow> 's vec_model \<Rightarrow> change_data list \<Rightarrow> 's vec_model \<Rightarrow> bool" for ops where
  steps_nil: "vec_steps ops m [] m"
| steps_cons: "vec_step ops m d m1 \<Longrightarrow> vec_steps ops m1 ds m2 \<Longrightarrow> vec_steps ops m (d # ds) m2"

lemma vec_steps_single: "vec_step ops m d m' \<Longrightarrow> vec_steps ops m [d] m'"
  by (blast intro: steps_nil steps_cons)

lemma vec_steps_append: "vec_steps ops m ds m1 \<Longrightarrow> vec_steps ops m1 es m2 \<Longrightarrow> vec_steps ops m (ds @ es) m2"
  by (induction rule: vec_steps.induct) (auto intro: steps_cons)

lemma spec_move_props:
  assumes "i < length xs" and "j < length xs"
  shows "set (spec_move i j xs) = set xs" and "distinct (spec_move i j xs) = distinct xs" and "length (spec_move i j xs) = length xs"
    and "map f (spec_move i j xs) = spec_move i j (map f xs)"
proof -
  let ?r = "list_remove i xs"
  have m: "mset (spec_move i j xs) = mset xs"
  proof -
    have "mset (spec_move i j xs) = add_mset (xs ! i) (mset (take j ?r) + mset (drop j ?r))" by (simp add: spec_move_def list_insert_def)
    also have "mset (take j ?r) + mset (drop j ?r) = mset ?r" by (metis append_take_drop_id mset_append)
    also have "add_mset (xs ! i) (mset ?r) = mset (take i xs @ xs ! i # drop (Suc i) xs)" by (simp add: list_remove_def)
    finally show ?thesis using list_remove_split [OF assms(1)] by simp
  qed
  show "set (spec_move i j xs) = set xs" by (rule mset_eq_setD [OF m])
  show "distinct (spec_move i j xs) = distinct xs" by (rule mset_eq_imp_distinct_iff [OF m])
  show "length (spec_move i j xs) = length xs" by (rule mset_eq_length [OF m])
  show "map f (spec_move i j xs) = spec_move i j (map f xs)"
    using assms(1) by (simp add: spec_move_def map_list_insert map_list_remove)
qed

lemma vec_step_values:
  assumes "vec_step ops m d m'" and laws: "slab_laws ops"
  shows "slab_get ops (vm_values m) k = Some v \<Longrightarrow> slab_get ops (vm_values m') k = Some v"
  using assms(1)
  by (cases rule: vec_step.cases) (auto simp: slab_get_insert [OF laws] dest: slab_insert_vacant [OF laws])

lemma vec_step_keys:
  assumes st: "vec_step ops m d m'" and laws: "slab_laws ops" and dist: "distinct (vm_items m)"
    and pres: "set (vm_items m) \<subseteq> dom (slab_get ops (vm_values m))"
  shows "distinct (vm_items m')" and "set (vm_items m') \<union> old_keys d = set (vm_items m) \<union> new_keys d"
    and "new_keys d \<inter> dom (slab_get ops (vm_values m)) = {}" and "dom (slab_get ops (vm_values m')) = dom (slab_get ops (vm_values m)) \<union> new_keys d"
    and "old_keys d \<subseteq> set (vm_items m)" and "old_keys d \<inter> set (vm_items m') = {}"
proof -
  have "distinct (vm_items m') \<and> set (vm_items m') \<union> old_keys d = set (vm_items m) \<union> new_keys d
    \<and> new_keys d \<inter> dom (slab_get ops (vm_values m)) = {} \<and> dom (slab_get ops (vm_values m')) = dom (slab_get ops (vm_values m)) \<union> new_keys d
    \<and> old_keys d \<subseteq> set (vm_items m) \<and> old_keys d \<inter> set (vm_items m') = {}"
    using st
  proof (cases rule: vec_step.cases)
    case (step_insert i xs vs v k vs')
    have k: "slab_get ops vs k = None" by (rule slab_insert_vacant [OF laws step_insert(5)])
    then have "k \<notin> set xs" using pres step_insert(1) by auto
    moreover have "dom (slab_get ops vs') = insert k (dom (slab_get ops vs))" by (auto simp: slab_get_insert [OF laws step_insert(5)])
    ultimately show ?thesis using step_insert k dist by (simp add: distinct_list_insert set_list_insert) blast
  next
    case (step_remove i xs vs)
    then have "distinct xs" "xs ! i \<in> set xs" using dist by simp_all
    moreover have "distinct (list_remove i xs)" "set (list_remove i xs) = set xs - {xs ! i}"
      using distinct_list_remove [of i xs] step_remove dist by simp_all
    ultimately show ?thesis using step_remove by (simp add: insert_absorb)
  next
    case (step_set i xs vs v k vs')
    have k: "slab_get ops vs k = None" by (rule slab_insert_vacant [OF laws step_set(5)])
    then have kx: "k \<notin> set xs" using pres step_set(1) by auto
    have "distinct xs" using dist step_set(1) by simp
    moreover have "dom (slab_get ops vs') = insert k (dom (slab_get ops vs))" by (auto simp: slab_get_insert [OF laws step_set(5)])
    moreover have "xs ! i \<in> set xs" "xs ! i \<noteq> k" using step_set(4) kx by auto
    ultimately show ?thesis using step_set(1-4) k kx replaced_key [of "xs ! i" "set xs" k]
      by (simp add: distinct_list_update set_update_distinct del: Un_insert_left Un_insert_right) auto
  next
    case (step_swap i xs j vs)
    then show ?thesis using dist by (simp add: set_list_swap distinct_list_swap)
  next
    case (step_move i xs j vs)
    then show ?thesis using dist by (simp add: spec_move_props)
  next
    case (step_sort p xs vs)
    have m: "mset (map ((!) xs) p) = mset xs" by (rule map_nth_perm [OF step_sort(4)])
    show ?thesis using step_sort dist mset_eq_setD [OF m] mset_eq_imp_distinct_iff [OF m] by auto
  qed
  then show "distinct (vm_items m')" and "set (vm_items m') \<union> old_keys d = set (vm_items m) \<union> new_keys d"
    and "new_keys d \<inter> dom (slab_get ops (vm_values m)) = {}" and "dom (slab_get ops (vm_values m')) = dom (slab_get ops (vm_values m)) \<union> new_keys d"
    and "old_keys d \<subseteq> set (vm_items m)" and "old_keys d \<inter> set (vm_items m') = {}" by blast+
qed

text \<open>What a step does to the contents is what its change does to a mirror.\<close>

lemma vec_step_view:
  assumes st: "vec_step ops m d m'" and laws: "slab_laws ops" and pres: "vm_present ops m"
  shows "vm_present ops m'" and "vec_replay ops m' d (Some (vm_contents ops m)) = Some (vm_contents ops m')"
proof -
  have keep: "the (slab_get ops (vm_values m') k) = the (slab_get ops (vm_values m) k)" if "k \<in> set (vm_items m)" for k
    using vec_step_values [OF st laws] that pres by (fastforce simp: vm_present_iff)
  have old: "map (\<lambda>k. the (slab_get ops (vm_values m') k)) (vm_items m) = vm_contents ops m"
    unfolding vm_contents_def by (rule map_cong [OF refl keep])
  have present: "\<exists>v. slab_get ops (vm_values m') k = Some v" if "k \<in> set (vm_items m)" for k
    using vec_step_values [OF st laws] that pres by (fastforce simp: vm_present_iff)
  have "vm_present ops m' \<and> vec_replay ops m' d (Some (vm_contents ops m)) = Some (vm_contents ops m')"
    using st
  proof (cases rule: vec_step.cases)
    case (step_insert i xs vs v k vs')
    have get: "slab_get ops vs' k = Some v" by (simp add: slab_get_insert [OF laws step_insert(5)])
    have c: "vm_contents ops m' = list_insert i v (vm_contents ops m)"
    proof -
      have "map (\<lambda>k. the (slab_get ops vs' k)) xs = vm_contents ops m" using old step_insert by simp
      then show ?thesis unfolding step_insert(3) by (subst vm_contents_def) (simp add: get map_list_insert)
    qed
    have "vm_present ops m'" using step_insert present get by (auto simp: vm_present_iff set_list_insert)
    then show ?thesis using step_insert get c by (simp add: vec_replay_def to_signal_vec_change_def slab_index_def)
  next
    case (step_remove i xs vs)
    obtain v where "slab_get ops vs (xs ! i) = Some v" using present [of "xs ! i"] step_remove by auto
    moreover have "set (list_remove i xs) \<subseteq> set xs" using set_take_subset [of i xs] set_drop_subset [of "Suc i" xs] by (simp add: list_remove_def)
    then have "vm_present ops m'" using step_remove present unfolding vm_present_iff by auto
    ultimately show ?thesis using step_remove
      by (simp add: vec_replay_def to_signal_vec_change_def slab_index_def vm_contents_def map_list_remove)
  next
    case (step_set i xs vs v k vs')
    obtain u where "slab_get ops vs' (xs ! i) = Some u" using present [of "xs ! i"] step_set by auto
    moreover have get: "slab_get ops vs' k = Some v" by (simp add: slab_get_insert [OF laws step_set(5)])
    moreover have "vm_contents ops m' = (vm_contents ops m)[i := v]"
    proof -
      have "map (\<lambda>k. the (slab_get ops vs' k)) xs = vm_contents ops m" using old step_set by simp
      then show ?thesis unfolding step_set(3) by (subst vm_contents_def) (simp add: get map_update)
    qed
    moreover have "vm_contents ops m ! i = u" using step_set calculation(1) keep [of "xs ! i"] by (simp add: vm_contents_def)
    moreover have "vm_present ops m'" using step_set present get set_update_subset_insert [of xs i k] by (auto simp: vm_present_iff)
    ultimately show ?thesis using step_set by (simp add: vec_replay_def to_signal_vec_change_def slab_index_def)
  next
    case (step_swap i xs j vs)
    then show ?thesis using present
      by (simp add: vm_present_iff set_list_swap vec_replay_def to_signal_vec_change_def vm_contents_def map_list_swap)
  next
    case (step_move i xs j vs)
    then show ?thesis using present
      by (simp add: vm_present_iff spec_move_props vec_replay_def to_signal_vec_change_def vm_contents_def)
  next
    case (step_sort p xs vs)
    have "set (map ((!) xs) p) = set xs" by (rule mset_eq_setD [OF map_nth_perm [OF step_sort(4)]])
    moreover have "\<forall>i \<in> set p. i < length xs" using step_sort(4) by (simp add: is_perm_def)
    ultimately show ?thesis using step_sort present
      by (auto simp: vm_present_iff vec_replay_def to_signal_vec_change_def vm_contents_def)
  qed
  then show "vm_present ops m'" and "vec_replay ops m' d (Some (vm_contents ops m)) = Some (vm_contents ops m')" by blast+
qed

lemma vec_own_step:
  assumes o: "vec_own ops us m cs" and st: "vec_step ops m d m'"
  shows "vec_own ops us m' (cs @ [d])"
proof -
  have laws: "slab_laws ops" "unstable_sort_laws us" and dist: "distinct (vm_items m)"
    and keys: "keys_inv new_keys old_keys cs (set (vm_items m)) (dom (slab_get ops (vm_values m)))"
    using o by (simp_all add: vec_own_def)
  have "set (vm_items m) \<subseteq> dom (slab_get ops (vm_values m))" using keys by (auto simp: keys_inv_def)
  note s = vec_step_keys [OF st laws(1) dist this]
  from keys_inv_step [OF keys s(2,3,4,6)] show ?thesis using laws s(1) by (simp add: vec_own_def)
qed

lemma vec_own_steps:
  assumes "vec_steps ops m ds m'" and "vec_own ops us m cs"
  shows "vec_own ops us m' (cs @ ds) \<and> fold (vec_replay ops m') ds (vm_view ops m) = vm_view ops m'
    \<and> (\<forall>k v. slab_get ops (vm_values m) k = Some v \<longrightarrow> slab_get ops (vm_values m') k = Some v)"
  using assms
proof (induction arbitrary: cs rule: vec_steps.induct)
  case (steps_nil m)
  then show ?case by simp
next
  case (steps_cons m d m1 ds m2)
  have laws: "slab_laws ops" using steps_cons.prems by (simp add: vec_own_def)
  have o: "vec_own ops us m1 (cs @ [d])" by (rule vec_own_step [OF steps_cons.prems steps_cons.hyps(1)])
  note ih = steps_cons.IH [OF o]
  have "vec_replay ops m2 d = vec_replay ops m1 d"
  proof -
    have "slab_get ops (vm_values m2) k = slab_get ops (vm_values m1) k" if "k \<in> change_keys d" for k
    proof -
      have "\<exists>v. slab_get ops (vm_values m1) k = Some v" by (rule vec_own_keys [OF o]) (use that in auto)
      then show ?thesis using ih by auto
    qed
    then have "to_signal_vec_change ops (vm_values m2) d = to_signal_vec_change ops (vm_values m1) d" by (intro to_change_cong) blast
    then show ?thesis by (auto simp: vec_replay_def fun_eq_iff)
  qed
  moreover have "vec_replay ops m1 d (vm_view ops m) = vm_view ops m1"
    using vec_step_view(2) [OF steps_cons.hyps(1) laws vec_own_present [OF steps_cons.prems]] vec_own_view [OF steps_cons.prems] vec_own_view [OF o]
    by simp
  ultimately show ?case using ih vec_step_values [OF steps_cons.hyps(1) laws] by simp
qed

lemma vec_steps_keep_replay:
  assumes "vec_steps ops m ds m'" and o: "vec_own ops us m cs" and "d \<in> set cs"
  shows "vec_replay ops m' d x = vec_replay ops m d x"
proof -
  have "slab_get ops (vm_values m') k = slab_get ops (vm_values m) k" if "k \<in> change_keys d" for k
  proof -
    have "\<exists>v. slab_get ops (vm_values m) k = Some v" by (rule vec_own_keys [OF o]) (use that assms(3) in auto)
    then show ?thesis using vec_own_steps [OF assms(1) o] by auto
  qed
  then have "to_signal_vec_change ops (vm_values m') d = to_signal_vec_change ops (vm_values m) d" by (intro to_change_cong) blast
  then show ?thesis by (simp add: vec_replay_def)
qed

subsection \<open>Every operation is a sequence of elementary steps\<close>

lemma slice_rotate_left_move:
  assumes "a \<le> b" and "b < length xs"
  shows "slice_rotate_left a b xs = Inr (spec_move a b xs)"
proof -
  define A M R where "A = take a xs" and "M = take (b - a) (drop (Suc a) xs)" and "R = drop (Suc b) xs"
  have "drop (Suc a) xs = M @ R" using assms append_take_drop_id [of "b - a" "drop (Suc a) xs"] by (simp add: M_def R_def)
  then have xs: "xs = A @ xs ! a # M @ R" using assms id_take_nth_drop [of a xs] by (simp add: A_def)
  have l: "length A = a" "length M = b - a" using assms by (simp_all add: A_def M_def)
  define x where "x = xs ! a"
  have "slice_rotate_left a b (A @ x # M @ R) = Inr (spec_move a b (A @ x # M @ R))"
    using l assms by (simp add: slice_rotate_left_def spec_move_def list_insert_def list_remove_def nth_append Suc_diff_le)
  then show ?thesis using xs x_def by simp
qed

lemma slice_rotate_right_move:
  assumes "a \<le> b" and "b < length xs"
  shows "slice_rotate_right a b xs = Inr (spec_move b a xs)"
proof -
  define A M R where "A = take a xs" and "M = take (b - a) (drop a xs)" and "R = drop (Suc b) xs"
  have "take b xs = A @ M" using assms take_add [of a "b - a" xs] by (simp add: A_def M_def)
  then have xs: "xs = A @ M @ xs ! b # R" using assms id_take_nth_drop [of b xs] by (simp add: R_def)
  have l: "length A = a" "length M = b - a" using assms by (simp_all add: A_def M_def)
  define x where "x = xs ! b"
  have "slice_rotate_right a b (A @ M @ x # R) = Inr (spec_move b a (A @ M @ x # R))"
    using l assms by (simp add: slice_rotate_right_def rotate_right1_def spec_move_def list_insert_def list_remove_def nth_append Suc_diff_le)
  then show ?thesis using xs x_def by simp
qed

lemma slice_rotate_left_eq:
  "slice_rotate_left a b xs = (if a \<le> b \<and> b < length xs then Inr (spec_move a b xs) else Inl IndexOutOfBounds)"
  using slice_rotate_left_move [of a b xs] by (auto simp: slice_rotate_left_def)

lemma slice_rotate_right_eq:
  "slice_rotate_right a b xs = (if a \<le> b \<and> b < length xs then Inr (spec_move b a xs) else Inl IndexOutOfBounds)"
  using slice_rotate_right_move [of a b xs] by (auto simp: slice_rotate_right_def)

lemma mset_insert_by [simp]: "mset (insert_by le x ys) = add_mset x (mset ys)"
  by (induction ys) simp_all

lemma mset_sort_by_le [simp]: "mset (sort_by_le le xs) = mset xs"
  by (induction xs) (simp_all add: sort_by_le_def)

lemma sort_as_ok:
  fixes le :: "'v \<Rightarrow> 'v \<Rightarrow> bool" and s :: bool
  assumes "unstable_sort_laws us" and "vm_present ops m"
  defines "p \<equiv> (if s then us else sort_by_le) (\<lambda>i j. le (vm_value ops m i) (vm_value ops m j)) [0 ..< length (vm_items m)]"
  shows "sort_as ops us le s m = Inr (m\<lparr>vm_items := map ((!) (vm_items m)) p\<rparr>, if is_sorted p then None else Some (ChSort p))"
    and "is_perm p (length (vm_items m))"
proof -
  have p: "mset p = mset [0 ..< length (vm_items m)]" using assms(1) by (simp add: p_def unstable_sort_laws_def)
  then show perm: "is_perm p (length (vm_items m))" by (simp only: is_perm_mset)
  have "map ((!) (vm_items m)) p = vm_items m" if "is_sorted p"
    using is_perm_sorted [OF perm] that by (simp add: is_sorted_iff map_nth)
  then show "sort_as ops us le s m = Inr (m\<lparr>vm_items := map ((!) (vm_items m)) p\<rparr>, if is_sorted p then None else Some (ChSort p))"
    using assms(2) apply_to_perm [OF perm] by (cases s) (simp_all add: sort_as_def Let_def p_def)
qed

lemma sort_as_steps:
  assumes "unstable_sort_laws us" and "sort_as ops us le s m = Inr (m', c)"
  shows "vec_steps ops m (case c of None \<Rightarrow> [] | Some d \<Rightarrow> [d]) m'"
proof -
  define p where "p = (if s then us else sort_by_le) (\<lambda>i j. le (vm_value ops m i) (vm_value ops m j)) [0 ..< length (vm_items m)]"
  have "mset p = mset [0 ..< length (vm_items m)]" using assms(1) by (simp add: p_def unstable_sort_laws_def)
  then have perm: "is_perm p (length (vm_items m))" by (simp only: is_perm_mset)
  show ?thesis
  proof (cases "is_sorted p")
    case True
    then have "m' = m \<and> c = None" using assms(2) by (cases s) (auto simp: sort_as_def Let_def p_def split: if_splits)
    then show ?thesis by (simp add: steps_nil)
  next
    case False
    then have "m' = m\<lparr>vm_items := map ((!) (vm_items m)) p\<rparr> \<and> c = Some (ChSort p)"
      using assms(2) apply_to_perm [OF perm] by (cases s) (auto simp: sort_as_def Let_def p_def split: if_splits)
    then show ?thesis using perm by (cases m) (auto intro: vec_steps_single step_sort)
  qed
qed

lemma drain_steps:
  assumes "a \<le> b" and "b \<le> length xs"
  shows "vec_steps ops \<lparr>vm_items = xs, vm_values = vs\<rparr> (map (\<lambda>i. ChRemove i (xs ! i)) (rev [a ..< b]))
    \<lparr>vm_items = take a xs @ drop b xs, vm_values = vs\<rparr>"
  using assms
proof (induction "b - a" arbitrary: b xs)
  case 0
  then show ?case by (simp add: steps_nil)
next
  case (Suc n)
  obtain c where c: "b = Suc c" "a \<le> c" using Suc.hyps(2) by (cases b) auto
  let ?ys = "list_remove c xs"
  have "vec_steps ops \<lparr>vm_items = ?ys, vm_values = vs\<rparr> (map (\<lambda>i. ChRemove i (?ys ! i)) (rev [a ..< c]))
    \<lparr>vm_items = take a ?ys @ drop c ?ys, vm_values = vs\<rparr>"
    by (rule Suc.hyps(1)) (use Suc c in auto)
  moreover have "map (\<lambda>i. ChRemove i (?ys ! i)) (rev [a ..< c]) = map (\<lambda>i. ChRemove i (xs ! i)) (rev [a ..< c])"
    using Suc.prems(2) c by (simp add: list_remove_def nth_append)
  moreover have "take a ?ys @ drop c ?ys = take a xs @ drop b xs" using Suc.prems(2) c by (simp add: list_remove_def)
  ultimately show ?case using Suc.prems(2) c step_remove [of c xs ops vs] by (simp add: steps_cons)
qed

lemma drain_changes:
  "b \<le> length xs \<Longrightarrow> res_map (\<lambda>i. res_bind (list_index xs i) (\<lambda>old. Inr (ChRemove i old))) (rev [a ..< b])
     = Inr (map (\<lambda>i. ChRemove i (xs ! i)) (rev [a ..< b]))"
  by (simp add: res_map_eq_Inr list_all2_map2 list_all2_same list_index_def)

lemma push_steps: "items_push ops v m = Inr (m', ds) \<Longrightarrow> vec_steps ops m ds m'"
  by (cases m) (auto simp: items_push_def items_insert_def insert_raw_def vm_len_def split: prod.splits intro!: vec_steps_single step_insert)

lemma extend_steps: "items_extend ops vs m = Inr (m', ds) \<Longrightarrow> vec_steps ops m ds m'"
proof (induction vs arbitrary: m ds)
  case Nil
  then show ?case by (simp add: steps_nil)
next
  case (Cons v vs)
  then show ?case by (auto simp: edit_seq_def res_bind_eq_Inr dest: push_steps intro: vec_steps_append)
qed

lemma swap_steps: "items_swap i j m = Inr (m', ds) \<Longrightarrow> vec_steps ops m ds m'"
  by (cases m) (auto simp: items_swap_def slice_swap_def res_bind_eq_Inr steps_nil split: if_splits intro!: vec_steps_single step_swap)

lemma remove_steps: "items_remove i m = Inr (m', ds) \<Longrightarrow> vec_steps ops m ds m'"
  by (cases m) (auto simp: items_remove_def res_bind_eq_Inr intro!: vec_steps_single step_remove)

lemma vec_apply_steps:
  assumes "unstable_sort_laws us" and "vec_apply ops us op m = Inr (m', ds)"
  shows "vec_steps ops m ds m'"
proof (cases op)
  case (VecInsert i v)
  then show ?thesis using assms(2)
    by (cases m) (auto simp: items_insert_def insert_raw_def split: prod.splits if_splits intro!: vec_steps_single step_insert)
next
  case (VecPush v)
  then show ?thesis using assms(2) push_steps by auto
next
  case (VecRemove i)
  then show ?thesis using assms(2) remove_steps by auto
next
  case (VecSet i v)
  then show ?thesis using assms(2)
    by (cases m) (auto simp: items_set_def res_bind_eq_Inr split: prod.splits intro!: vec_steps_single step_set)
next
  case (VecSwap i j)
  then show ?thesis using assms(2) swap_steps by auto
next
  case (VecSwapRemove i)
  then show ?thesis using assms(2)
    by (auto simp: items_swap_remove_def edit_seq_def Let_def res_bind_eq_Inr dest!: swap_steps [of _ _ _ _ _ ops] remove_steps [of _ _ _ _ ops] intro: vec_steps_append)
next
  case (VecMoveItem i j)
  then show ?thesis using assms(2)
    by (cases m) (auto simp: items_move_item_def slice_rotate_left_eq slice_rotate_right_eq res_bind_eq_Inr steps_nil split: if_splits
      intro!: vec_steps_single step_move)
next
  case (VecSortBy le)
  then show ?thesis using assms by (auto simp: items_sort_by_def res_bind_eq_Inr dest!: sort_as_steps)
next
  case (VecSortUnstableBy le)
  then show ?thesis using assms by (auto simp: items_sort_unstable_by_def res_bind_eq_Inr dest!: sort_as_steps)
next
  case (VecDrain s e)
  then show ?thesis using assms(2)
    by (cases m) (auto simp: items_drain_def res_bind_eq_Inr drain_changes vm_len_def dest!: to_range_ok intro!: drain_steps)
next
  case VecClear
  then show ?thesis using assms(2) drain_steps [of 0 "length (vm_items m)" "vm_items m" ops "vm_values m"]
    by (cases m) (auto simp: items_clear_def items_drain_def to_range_full res_bind_eq_Inr drain_changes vm_len_def)
next
  case (VecExtend vs)
  then show ?thesis using assms(2) extend_steps by auto
qed

end
