(* ===== verification/Vec_Refine.thy ===== *)
theory Vec_Refine
  imports Vec_Spec
begin

section \<open>What the operations of a vector do to its values\<close>

text \<open>
  \<open>vec_spec\<close> is the abstract vector: each operation on a plain list of values, \<open>None\<close> where the
  program panics, with a bound on the number of changes it records. \<open>vec_apply_spec\<close> is the refinement. The contract of change
  feeds (\<open>feed_model\<close>, \<open>feed_edits\<close>) is interpreted on the vector model here.
\<close>

definition spec_sort :: "((nat \<Rightarrow> nat \<Rightarrow> bool) \<Rightarrow> nat list \<Rightarrow> nat list) \<Rightarrow> ('v \<Rightarrow> 'v \<Rightarrow> bool) \<Rightarrow> 'v list \<Rightarrow> 'v list" where
  "spec_sort sorter le xs = map ((!) xs) (sorter (\<lambda>i j. le (xs ! i) (xs ! j)) [0 ..< length xs])"

fun vec_spec :: "unstable_sort \<Rightarrow> 'v vec_op \<Rightarrow> 'v list \<Rightarrow> ('v list \<times> nat) option" where
  "vec_spec us (VecInsert i v) xs = (if i \<le> length xs then Some (list_insert i v xs, 1) else None)"
| "vec_spec us (VecPush v) xs = Some (xs @ [v], 1)"
| "vec_spec us (VecRemove i) xs = (if i < length xs then Some (list_remove i xs, 1) else None)"
| "vec_spec us (VecSet i v) xs = (if i < length xs then Some (xs[i := v], 1) else None)"
| "vec_spec us (VecSwap i j) xs = (if i = j then Some (xs, 0)
     else if i < length xs \<and> j < length xs then Some (list_swap i j xs, 1) else None)"
| "vec_spec us (VecSwapRemove i) xs = (if i < length xs then Some (butlast (list_swap i (length xs - 1) xs), 2) else None)"
| "vec_spec us (VecMoveItem i j) xs = (if i = j then Some (xs, 0)
     else if i < length xs \<and> j < length xs then Some (spec_move i j xs, 1) else None)"
| "vec_spec us (VecSortBy le) xs = Some (spec_sort us le xs, 1)"
| "vec_spec us (VecSortUnstableBy le) xs = Some (spec_sort sort_by_le le xs, 1)"
| "vec_spec us (VecDrain s e) xs = (case to_range s e (length xs) of Inl _ \<Rightarrow> None
     | Inr (a, b) \<Rightarrow> Some (take a xs @ drop b xs, b - a))"
| "vec_spec us VecClear xs = Some ([], length xs)"
| "vec_spec us (VecExtend vs) xs = Some (xs @ vs, length vs)"

lemma insert_spec:
  assumes laws: "slab_laws ops" and pres: "vm_present ops m" and i: "i \<le> vm_len m"
  shows "\<exists>m' k. items_insert ops i v m = Inr (m', [ChInsert i k]) \<and> vm_present ops m' \<and> vm_contents ops m' = list_insert i v (vm_contents ops m)"
proof -
  obtain k vs' where k: "slab_insert ops (vm_values m) v = (k, vs')" by fastforce
  let ?m = "\<lparr>vm_items = list_insert i k (vm_items m), vm_values = vs'\<rparr>"
  have st: "vec_step ops m (ChInsert i k) ?m" using step_insert [OF _ k, of i "vm_items m"] i by (cases m) (simp add: vm_len_def)
  have "items_insert ops i v m = Inr (?m, [ChInsert i k])" using i k by (simp add: items_insert_def insert_raw_def vm_len_def)
  moreover have "vm_contents ops ?m = list_insert i v (vm_contents ops m)"
    using vec_step_view(2) [OF st laws pres] i
    by (simp add: vec_replay_def to_signal_vec_change_def slab_index_def slab_get_insert [OF laws k] vm_len_def)
  ultimately show ?thesis using vec_step_view(1) [OF st laws pres] by blast
qed

lemma list_insert_end [simp]: "list_insert (length xs) v xs = xs @ [v]"
  by (simp add: list_insert_def)

lemma push_spec:
  assumes "slab_laws ops" and "vm_present ops m"
  shows "\<exists>m' d. items_push ops v m = Inr (m', [d]) \<and> vm_present ops m' \<and> vm_contents ops m' = vm_contents ops m @ [v]"
  using insert_spec [OF assms, of "vm_len m" v] by (auto simp: items_push_def vm_len_def) (metis length_vm_contents list_insert_end)

lemma extend_spec:
  assumes "slab_laws ops" and "vm_present ops m"
  shows "\<exists>m' ds. items_extend ops vs m = Inr (m', ds) \<and> vm_present ops m' \<and> vm_contents ops m' = vm_contents ops m @ vs \<and> length ds = length vs"
  using assms(2)
proof (induction vs arbitrary: m)
  case (Cons v vs)
  obtain m1 d where m1: "items_push ops v m = Inr (m1, [d])" "vm_present ops m1" "vm_contents ops m1 = vm_contents ops m @ [v]"
    using push_spec [OF assms(1) Cons.prems] by blast
  from Cons.IH [OF m1(2)] m1 show ?case by (auto simp: edit_seq_def)
qed simp

lemma remove_spec:
  assumes laws: "slab_laws ops" and pres: "vm_present ops m" and i: "i < vm_len m"
  shows "\<exists>m' d. items_remove i m = Inr (m', [d]) \<and> vm_present ops m' \<and> vm_contents ops m' = list_remove i (vm_contents ops m)"
proof -
  let ?m = "m\<lparr>vm_items := list_remove i (vm_items m)\<rparr>"
  have st: "vec_step ops m (ChRemove i (vm_items m ! i)) ?m" using step_remove [of i "vm_items m" ops "vm_values m"] i by (cases m) (simp add: vm_len_def)
  have "vm_contents ops ?m = list_remove i (vm_contents ops m)"
    using vec_step_view(2) [OF st laws pres] i by (auto simp: vec_replay_def split: sum.splits if_splits) (auto simp: to_signal_vec_change_def res_bind_eq_Inr split: if_splits)
  then show ?thesis using vec_step_view(1) [OF st laws pres] i by (simp add: items_remove_def list_index_def vm_len_def)
qed

lemma set_spec:
  assumes laws: "slab_laws ops" and pres: "vm_present ops m" and i: "i < vm_len m"
  shows "\<exists>m' d. items_set ops i v m = Inr (m', [d]) \<and> vm_present ops m' \<and> vm_contents ops m' = (vm_contents ops m)[i := v]"
proof -
  obtain k vs' where k: "slab_insert ops (vm_values m) v = (k, vs')" by fastforce
  let ?m = "\<lparr>vm_items = (vm_items m)[i := k], vm_values = vs'\<rparr>"
  have st: "vec_step ops m (ChSet i (vm_items m ! i) k) ?m" using step_set [OF _ k, of i "vm_items m"] i by (cases m) (simp add: vm_len_def)
  have "vm_contents ops ?m = (vm_contents ops m)[i := v]"
    using vec_step_view(2) [OF st laws pres] i
    by (auto simp: vec_replay_def split: sum.splits if_splits)
      (auto simp: to_signal_vec_change_def slab_index_def res_bind_eq_Inr slab_get_insert [OF laws k] split: if_splits)
  then show ?thesis using vec_step_view(1) [OF st laws pres] i k by (simp add: items_set_def list_index_def vm_len_def)
qed

lemma swap_spec:
  assumes laws: "slab_laws ops" and pres: "vm_present ops m" and i: "i = j \<or> i < vm_len m \<and> j < vm_len m"
  shows "\<exists>m' ds. items_swap i j m = Inr (m', ds) \<and> vm_present ops m' \<and> vm_contents ops m' = (if i = j then vm_contents ops m else list_swap i j (vm_contents ops m))
    \<and> vm_len m' = vm_len m \<and> length ds \<le> (if i = j then 0 else 1)"
proof (cases "i = j")
  case True
  then show ?thesis using pres by (simp add: items_swap_def)
next
  case False
  let ?m = "m\<lparr>vm_items := list_swap i j (vm_items m)\<rparr>"
  have st: "vec_step ops m (ChSwap i j) ?m" using step_swap [of i "vm_items m" j ops "vm_values m"] i False by (cases m) (simp add: vm_len_def)
  then show ?thesis using False i vec_step_view [OF st laws pres]
    by (simp add: items_swap_def slice_swap_def vm_len_def vec_replay_def to_signal_vec_change_def)
qed

lemma move_spec:
  assumes laws: "slab_laws ops" and pres: "vm_present ops m" and i: "i = j \<or> i < vm_len m \<and> j < vm_len m"
  shows "\<exists>m' ds. items_move_item i j m = Inr (m', ds) \<and> vm_present ops m' \<and> vm_contents ops m' = (if i = j then vm_contents ops m else spec_move i j (vm_contents ops m))
    \<and> length ds \<le> (if i = j then 0 else 1)"
proof (cases "i = j")
  case True
  then show ?thesis using pres by (simp add: items_move_item_def)
next
  case False
  let ?m = "m\<lparr>vm_items := spec_move i j (vm_items m)\<rparr>"
  have st: "vec_step ops m (ChMove i j) ?m" using step_move [of i "vm_items m" j ops "vm_values m"] i False by (cases m) (simp add: vm_len_def)
  have "items_move_item i j m = Inr (?m, [ChMove i j])"
    using False i by (auto simp: items_move_item_def slice_rotate_left_eq slice_rotate_right_eq vm_len_def)
  then show ?thesis using False i vec_step_view [OF st laws pres] by (simp add: vec_replay_def to_signal_vec_change_def vm_len_def)
qed

lemma swap_remove_spec:
  assumes laws: "slab_laws ops" and pres: "vm_present ops m" and i: "i < vm_len m"
  shows "\<exists>m' ds. items_swap_remove i m = Inr (m', ds) \<and> vm_present ops m' \<and> vm_contents ops m' = butlast (list_swap i (vm_len m - 1) (vm_contents ops m))
    \<and> length ds \<le> 2"
proof -
  let ?l = "vm_len m - 1"
  have "i = ?l \<or> i < vm_len m \<and> ?l < vm_len m" using i by linarith
  from swap_spec [OF laws pres this] obtain m1 ds where m1: "items_swap i ?l m = Inr (m1, ds)" "vm_present ops m1"
    "vm_contents ops m1 = list_swap i ?l (vm_contents ops m)" "vm_len m1 = vm_len m" "length ds \<le> 1"
    using i by (auto simp: list_swap_def vm_len_def split: if_splits)
  have "?l < vm_len m1" using m1(4) i by simp
  from remove_spec [OF laws m1(2) this] obtain m2 d where m2: "items_remove ?l m1 = Inr (m2, [d])" "vm_present ops m2"
    "vm_contents ops m2 = list_remove ?l (vm_contents ops m1)" by blast
  have "list_remove ?l (vm_contents ops m1) = butlast (vm_contents ops m1)" using m1(4) i by (simp add: list_remove_def butlast_conv_take vm_len_def)
  then show ?thesis using m1 m2 i by (simp add: items_swap_remove_def edit_seq_def Let_def)
qed

lemma sort_by_le_cong:
  assumes "\<And>a b. a \<in> set xs \<Longrightarrow> b \<in> set xs \<Longrightarrow> le a b = le' a b"
  shows "sort_by_le le xs = sort_by_le le' xs"
proof -
  have ins: "insert_by le x ys = insert_by le' x ys" if "\<forall>y \<in> set ys. le x y = le' x y" for x ys
    using that by (induction ys) auto
  have "foldr (insert_by le) zs [] = foldr (insert_by le') zs []" if "set zs \<subseteq> set xs" for zs
    using that
  proof (induction zs)
    case (Cons z zs)
    have "set (foldr (insert_by le') zs []) = set zs" using mset_eq_setD [OF mset_sort_by_le [of le' zs]] by (simp add: sort_by_le_def)
    then show ?case using Cons assms by (auto intro!: ins)
  qed simp
  then show ?thesis by (simp add: sort_by_le_def)
qed

lemma sort_spec:
  assumes us: "unstable_sort_laws us" and pres: "vm_present ops m"
  shows "\<exists>m' c. sort_as ops us le s m = Inr (m', c) \<and> vm_present ops m' \<and> vm_contents ops m' = spec_sort (if s then us else sort_by_le) le (vm_contents ops m)"
proof -
  let ?c = "\<lambda>i j. le (vm_value ops m i) (vm_value ops m j)" and ?c' = "\<lambda>i j. le (vm_contents ops m ! i) (vm_contents ops m ! j)"
  let ?n = "length (vm_items m)"
  let ?p = "(if s then us else sort_by_le) ?c [0 ..< ?n]"
  have agree: "?c i j = ?c' i j" if "i \<in> set [0 ..< ?n]" "j \<in> set [0 ..< ?n]" for i j
    using that by (simp add: vm_value_def vm_contents_def)
  have "?p = (if s then us else sort_by_le) ?c' [0 ..< ?n]"
    using us agree sort_by_le_cong [of "[0 ..< ?n]" ?c ?c'] unfolding unstable_sort_laws_def by (cases s) (simp_all, blast?)
  then have p: "spec_sort (if s then us else sort_by_le) le (vm_contents ops m) = map ((!) (vm_contents ops m)) ?p" by (simp add: spec_sort_def)
  note s = sort_as_ok [OF us pres, where s = s and le = le]
  have lt: "\<forall>i \<in> set ?p. i < ?n" using s(2) by (simp add: is_perm_def)
  let ?m = "m\<lparr>vm_items := map ((!) (vm_items m)) ?p\<rparr>"
  have "vm_contents ops ?m = map ((!) (vm_contents ops m)) ?p" using lt by (simp add: vm_contents_def)
  moreover have "vm_present ops ?m" using pres lt by (auto simp: vm_present_iff)
  ultimately show ?thesis using s(1) p by auto
qed

lemma drain_spec:
  assumes pres: "vm_present ops m" and r: "to_range s e (vm_len m) = Inr (a, b)"
  shows "\<exists>m' ds. items_drain s e m = Inr (m', ds) \<and> vm_present ops m' \<and> vm_contents ops m' = take a (vm_contents ops m) @ drop b (vm_contents ops m)
    \<and> length ds = b - a"
proof -
  let ?m = "m\<lparr>vm_items := take a (vm_items m) @ drop b (vm_items m)\<rparr>"
  have "b \<le> length (vm_items m)" using to_range_ok [OF r] by (simp add: vm_len_def)
  note d = drain_changes [OF this, of a]
  have "vm_present ops ?m" using pres by (auto simp: vm_present_iff dest: in_set_takeD in_set_dropD)
  moreover have "vm_contents ops ?m = take a (vm_contents ops m) @ drop b (vm_contents ops m)" by (simp add: vm_contents_def take_map drop_map)
  ultimately show ?thesis using r d by (simp add: items_drain_def)
qed

lemma vec_apply_spec:
  assumes laws: "slab_laws ops" and us: "unstable_sort_laws us" and pres: "vm_present ops m" and spec: "vec_spec us op (vm_contents ops m) = Some (ys, k)"
  shows "\<exists>m' ds. vec_apply ops us op m = Inr (m', ds) \<and> vm_present ops m' \<and> vm_contents ops m' = ys \<and> length ds \<le> k"
proof -
  note facts = insert_spec [OF laws pres] push_spec [OF laws pres] remove_spec [OF laws pres] set_spec [OF laws pres] swap_spec [OF laws pres]
    move_spec [OF laws pres] swap_remove_spec [OF laws pres] extend_spec [OF laws pres] drain_spec [OF pres]
  show ?thesis
  proof (cases op)
    case (VecSortBy le)
    then show ?thesis using sort_spec [OF us pres, of le True] spec by (auto simp: items_sort_by_def split: option.split)
  next
    case (VecSortUnstableBy le)
    then show ?thesis using sort_spec [OF us pres, of le False] spec by (auto simp: items_sort_unstable_by_def split: option.split)
  next
    case (VecInsert i v)
    then show ?thesis using insert_spec [OF laws pres, of i v] spec by (auto simp: vm_len_def split: if_splits)
  next
    case (VecPush v)
    then show ?thesis using push_spec [OF laws pres, of v] spec by auto
  next
    case (VecRemove i)
    then show ?thesis using remove_spec [OF laws pres, of i] spec by (auto simp: vm_len_def split: if_splits)
  next
    case (VecSet i v)
    then show ?thesis using set_spec [OF laws pres, of i v] spec by (auto simp: vm_len_def split: if_splits)
  next
    case (VecSwap i j)
    then show ?thesis using swap_spec [OF laws pres, of i j] spec by (auto simp: vm_len_def split: if_splits)
  next
    case (VecSwapRemove i)
    then show ?thesis using swap_remove_spec [OF laws pres, of i] spec by (auto simp: vm_len_def split: if_splits)
  next
    case (VecMoveItem i j)
    then show ?thesis using move_spec [OF laws pres, of i j] spec by (auto simp: vm_len_def split: if_splits)
  next
    case (VecDrain s e)
    then obtain a b where r: "to_range s e (vm_len m) = Inr (a, b)" using spec by (auto simp: vm_len_def split: sum.splits)
    then show ?thesis using drain_spec [OF pres r] spec VecDrain by (auto simp: vm_len_def)
  next
    case VecClear
    then show ?thesis using drain_spec [OF pres to_range_full] spec by (auto simp: items_clear_def vm_len_def)
  next
    case (VecExtend vs)
    then show ?thesis using extend_spec [OF laws pres, of vs] spec by auto
  qed
qed

text \<open>Where the specification is undefined, the program panics.\<close>

lemma vec_apply_panics:
  assumes "vec_spec us op (vm_contents ops m) = None"
  shows "\<exists>e. vec_apply ops us op m = Inl e"
  using assms
  by (cases op) (auto simp: items_insert_def insert_raw_def items_remove_def items_set_def items_swap_def slice_swap_def items_swap_remove_def
      items_move_item_def slice_rotate_left_def slice_rotate_right_def items_drain_def list_index_def vm_len_def split: if_splits prod.splits sum.splits)

subsection \<open>The contract of change feeds, on vectors\<close>

definition vec_edit :: "('s, 'v) slab_ops \<Rightarrow> unstable_sort \<Rightarrow> 's vec_model \<Rightarrow> change_data list \<Rightarrow> 's vec_model \<Rightarrow> bool" where
  "vec_edit ops us m ds m' \<longleftrightarrow> (\<exists>op. vec_apply ops us op m = Inr (m', ds))"

definition vec_view_spec :: "unstable_sort \<Rightarrow> 'v vec_op \<Rightarrow> 'v list option \<Rightarrow> ('v list option \<times> nat) option" where
  "vec_view_spec us op x = (case x of None \<Rightarrow> None | Some xs \<Rightarrow> map_option (\<lambda>(ys, k). (Some ys, k)) (vec_spec us op xs))"

interpretation vec_feed: feed_edits "release_change ops" "vec_own ops us" "vm_view ops" "vec_replay ops" "vec_edit ops us" "vec_apply ops us" "vec_view_spec us"
  for ops :: "('s, 'v) slab_ops" and us
proof
  fix m :: "'s vec_model" and c cs assume o: "vec_own ops us m (c # cs)"
  show "vec_own ops us (release_change ops c m) cs" "vm_view ops (release_change ops c m) = vm_view ops m"
    by (rule release_change_ok(1) [OF o], rule release_change_ok(2) [OF o])
  fix d x assume "d \<in> set cs"
  then show "vec_replay ops (release_change ops c m) d x = vec_replay ops m d x" by (rule release_change_ok(3) [OF o])
next
  fix m :: "'s vec_model" and cs ds m' assume o: "vec_own ops us m cs" and e: "vec_edit ops us m ds m'"
  have "unstable_sort_laws us" using o by (simp add: vec_own_def)
  then have st: "vec_steps ops m ds m'" using e vec_apply_steps unfolding vec_edit_def by blast
  show "vec_own ops us m' (cs @ ds)" "fold (vec_replay ops m') ds (vm_view ops m) = vm_view ops m'"
    using vec_own_steps [OF st o] by blast+
  fix d x assume "d \<in> set cs"
  then show "vec_replay ops m' d x = vec_replay ops m d x" by (rule vec_steps_keep_replay [OF st o])
next
  fix op and m m' :: "'s vec_model" and ds assume "vec_apply ops us op m = Inr (m', ds)"
  then show "vec_edit ops us m ds m'" unfolding vec_edit_def by blast
next
  fix op and m :: "'s vec_model" and cs y k assume o: "vec_own ops us m cs" and s: "vec_view_spec us op (vm_view ops m) = Some (y, k)"
  have "slab_laws ops" "unstable_sort_laws us" using o by (simp_all add: vec_own_def)
  moreover obtain ys where "vec_spec us op (vm_contents ops m) = Some (ys, k)" "y = Some ys"
    using s by (auto simp: vec_view_spec_def vec_own_view [OF o])
  ultimately show "\<exists>m' ds. vec_apply ops us op m = Inr (m', ds) \<and> vm_view ops m' = y \<and> length ds \<le> k"
    using vec_apply_spec [OF _ _ vec_own_present [OF o], of us op ys k] by (auto simp: vm_view_Some)
qed

end
