(* ===== verification/Vec_Properties.thy ===== *)
theory Vec_Properties
  imports Vec_Refine
begin

section \<open>Properties of observable vectors\<close>

text \<open>
  What a client of \<open>StateVec\<close> and \<open>SignalVec\<close> relies on: the deltas of its readers, the storage of
  removed values, panics, iteration, and sorting, each with a witness on \<open>vec_slab\<close>.
\<close>

subsection \<open>Deltas as a client sees them\<close>

definition model_delta :: "('s, 'v) slab_ops \<Rightarrow> change_data feed_delta \<Rightarrow> 's vec_model \<Rightarrow> 'v vec_change list result" where
  "model_delta ops d m = (case d of
       DeltaInitial \<Rightarrow> res_bind (vm_iter ops m) (\<lambda>vs. Inr (map (\<lambda>(i, v). VcInsert i v) (zip [0 ..< length vs] vs)))
     | DeltaIncremental cs \<Rightarrow> res_map (to_signal_vec_change ops (vm_values m)) cs)"

lemma items_delta_model: "items_delta ops (from_ref g st) = res_bind (ref_delta g st) (\<lambda>d. model_delta ops d (ref_current g st))"
proof -
  have "items_get ops (from_ref g st) = vm_get ops (ref_current g st)" by (rule ext) (simp add: items_get_def from_ref_def)
  then have "initial_changes ops (from_ref g st) = model_delta ops DeltaInitial (ref_current g st)"
    by (simp add: initial_changes_def items_iter_def model_delta_def vm_iter_def items_len_def vm_len_def from_ref_def del: iter_collect.simps)
  then show ?thesis
    by (cases "ref_delta g st") (auto simp: items_delta_def from_ref_def model_delta_def split: feed_delta.split)
qed

text \<open>The insertions of a first read build the vector from nothing.\<close>

lemma fold_inserts:
  "n = length xs \<Longrightarrow> fold (\<lambda>c x. Option.bind x (apply_change c)) (map (\<lambda>(i, v). VcInsert i v) (zip [n ..< n + length vs] vs)) (Some xs) = Some (xs @ vs)"
proof (induction vs arbitrary: n xs)
  case (Cons v vs)
  have "[n ..< n + length (v # vs)] = n # [Suc n ..< Suc n + length vs]" by (simp add: upt_conv_Cons del: upt_Suc)
  then show ?case using Cons.IH [of "Suc n" "xs @ [v]"] Cons.prems by simp
qed simp

lemma initial_delta:
  "vm_view ops m = Some xs \<Longrightarrow> \<exists>ds. model_delta ops DeltaInitial m = Inr ds \<and> apply_delta ds [] = Some xs"
  using fold_inserts [of 0 "[]" xs] by (auto simp: model_delta_def vm_view_Some vm_iter_ok apply_delta_def)

text \<open>
  A read is right when its delta, computed without panic, turns what the reader saw last (nothing before its first
  read) into the current contents.
\<close>

fun vec_read_ok :: "('s, 'v) slab_ops \<Rightarrow> (change_data, 's vec_model) feed_out \<Rightarrow> 'v list option spec_out \<Rightarrow> bool" where
  "vec_read_ok ops (OutRead d m) (SpecRead seen x) \<longleftrightarrow>
     (case model_delta ops d m of Inl _ \<Rightarrow> False
      | Inr ds \<Rightarrow> apply_delta ds (case seen of Some (Some xs) \<Rightarrow> xs | _ \<Rightarrow> []) = x) \<and> vm_view ops m = x"
| "vec_read_ok ops OutNone SpecNone \<longleftrightarrow> True"
| "vec_read_ok ops (OutEdit fin) SpecEdit \<longleftrightarrow> True"
| "vec_read_ok ops _ _ \<longleftrightarrow> False"

text \<open>Along a run of the specification every value is a list.\<close>

definition is_list :: "'v list option \<times> 'v list option option option list \<Rightarrow> bool" where
  "is_list s \<longleftrightarrow> fst s \<noteq> None \<and> Some (Some None) \<notin> set (snd s)"

definition out_list :: "'v list option spec_out \<Rightarrow> bool" where
  "out_list o1 \<longleftrightarrow> (case o1 of SpecRead seen x \<Rightarrow> x \<noteq> None \<and> seen \<noteq> Some None | _ \<Rightarrow> True)"

lemma spec_edits_list: "spec_edits (vec_view_spec us) es x = Some (y, k) \<Longrightarrow> x \<noteq> None \<Longrightarrow> y \<noteq> None"
  by (induction es arbitrary: x k) (auto simp: vec_view_spec_def split: option.splits)

lemma spec_client_list:
  assumes "spec_client (vec_view_spec us) op s = Some (out, k, s')" and "is_list s"
  shows "is_list s' \<and> out_list out"
proof -
  obtain x rs where s: "s = (x, rs)" by (cases s)
  have upd: "Some (Some None) \<in> set (rs[i := h]) \<Longrightarrow> h = Some (Some None) \<or> Some (Some None) \<in> set rs" for i h
    using set_update_subset_insert [of rs i h] by auto
  have live: "live rs i = Some h \<Longrightarrow> Some h \<in> set rs" for i h by (auto simp: live_def split: if_splits) (metis nth_mem)
  show ?thesis
  proof (cases op)
    case (EditWith fin es)
    then obtain y where "spec_edits (vec_view_spec us) es x = Some (y, k)" "s' = (y, rs)" "out = SpecEdit"
      using assms(1) unfolding s by (auto split: option.splits)
    then show ?thesis using assms(2) spec_edits_list [of us es x y k] unfolding s by (simp add: is_list_def out_list_def)
  qed (use assms in \<open>auto simp: s is_list_def out_list_def dest!: upd live split: option.splits\<close>)
qed

lemma spec_run_list:
  "spec_run (vec_view_spec us) ops s = Some (outs, k, s') \<Longrightarrow> is_list s \<Longrightarrow> list_all out_list outs"
proof (induction ops arbitrary: s outs k)
  case (Cons op ops)
  obtain out k1 s1 outs1 k2 where h: "spec_client (vec_view_spec us) op s = Some (out, k1, s1)"
    "spec_run (vec_view_spec us) ops s1 = Some (outs1, k2, s')" "outs = out # outs1"
    using Cons.prems(1) by (auto simp del: spec_client.simps split: option.splits)
  then show ?case using spec_client_list [OF h(1) Cons.prems(2)] Cons.IH [OF h(2)] by simp
qed simp

lemma out_ok_read:
  assumes "out_ok (vm_view ops) (vec_replay ops) out' out" and "out_list out"
  shows "vec_read_ok ops out' out"
proof (cases out')
  case (OutRead d m)
  then obtain seen x where out: "out = SpecRead seen x" using assms(1) by (cases out) auto
  obtain xs where x: "x = Some xs" using assms(2) out by (auto simp: out_list_def)
  have v: "vm_view ops m = Some xs" using assms(1) OutRead out x by simp
  show ?thesis
  proof (cases d)
    case DeltaInitial
    then show ?thesis using initial_delta [OF v] v assms(1) OutRead out x by auto
  next
    case (DeltaIncremental cs)
    then obtain ys where ys: "seen = Some (Some ys)" "fold (vec_replay ops m) cs (Some ys) = Some xs"
      using assms OutRead out x by (auto simp: out_list_def split: option.splits)
    from vec_replay_delta [OF ys(2)] show ?thesis using ys(1) v DeltaIncremental OutRead out x by (auto simp: model_delta_def)
  qed
qed (use assms(1) in \<open>cases out; simp\<close>)+

subsection \<open>Sorting\<close>

lemma insert_by_sorted:
  assumes "total_preorder le" and "sorted_wrt le ys"
  shows "sorted_wrt le (insert_by le x ys)"
  using assms(2)
proof (induction ys)
  case (Cons y ys)
  have set_ins: "set (insert_by le x ys) = insert x (set ys)" using mset_eq_setD [of "insert_by le x ys" "x # ys"] by simp
  show ?case
  proof (cases "le x y")
    case True
    then show ?thesis using Cons.prems assms(1) by (auto simp: total_preorder_def)
  next
    case False
    then have "le y x" using assms(1) by (auto simp: total_preorder_def)
    then show ?thesis using False Cons set_ins by auto
  qed
qed simp

lemma sort_by_le_sorted: "total_preorder le \<Longrightarrow> sorted_wrt le (sort_by_le le xs)"
  by (induction xs) (simp_all add: sort_by_le_def insert_by_sorted)

text \<open>Stability: elements that compare as equal keep their order.\<close>

definition stable_for :: "('a \<Rightarrow> 'a \<Rightarrow> bool) \<Rightarrow> 'a list \<Rightarrow> 'a list \<Rightarrow> bool" where
  "stable_for le xs ys \<longleftrightarrow> (\<forall>Q. (\<forall>a b. Q a \<longrightarrow> Q b \<longrightarrow> le a b) \<longrightarrow> filter Q ys = filter Q xs)"

lemma insert_by_filter:
  assumes "\<And>a b. Q a \<Longrightarrow> Q b \<Longrightarrow> le a b"
  shows "filter Q (insert_by le x ys) = filter Q (x # ys)"
  using assms by (induction ys) auto

lemma sort_by_le_stable: "stable_for le xs (sort_by_le le xs)"
  unfolding stable_for_def
proof (intro allI impI)
  fix Q assume Q: "\<forall>a b. Q a \<longrightarrow> Q b \<longrightarrow> le a b"
  then show "filter Q (sort_by_le le xs) = filter Q xs"
    by (induction xs) (simp_all add: sort_by_le_def insert_by_filter)
qed

lemma sort_by_le_laws: "unstable_sort_laws sort_by_le"
  unfolding unstable_sort_laws_def
proof (intro conjI allI impI)
  fix le le' :: "nat \<Rightarrow> nat \<Rightarrow> bool" and xs
  assume "\<forall>i \<in> set xs. \<forall>j \<in> set xs. le i j = le' i j"
  then show "sort_by_le le xs = sort_by_le le' xs" by (intro sort_by_le_cong) blast
qed (simp_all add: sort_by_le_sorted)

lemma spec_sort_stable: "stable_for le xs (spec_sort sort_by_le le xs)"
  unfolding stable_for_def
proof (intro allI impI)
  fix Q assume Q: "\<forall>a b. Q a \<longrightarrow> Q b \<longrightarrow> le a b"
  let ?le = "\<lambda>i j. le (xs ! i) (xs ! j)"
  have "filter Q (map ((!) xs) (sort_by_le ?le [0 ..< length xs])) = map ((!) xs) (filter (\<lambda>i. Q (xs ! i)) (sort_by_le ?le [0 ..< length xs]))"
    by (simp only: filter_map comp_def)
  also have "filter (\<lambda>i. Q (xs ! i)) (sort_by_le ?le [0 ..< length xs]) = filter (\<lambda>i. Q (xs ! i)) [0 ..< length xs]"
  proof -
    have "\<forall>i j. Q (xs ! i) \<longrightarrow> Q (xs ! j) \<longrightarrow> ?le i j" using Q by blast
    then show ?thesis by (rule sort_by_le_stable [of ?le "[0 ..< length xs]", unfolded stable_for_def, THEN spec, THEN mp])
  qed
  also have "map ((!) xs) (filter (\<lambda>i. Q (xs ! i)) [0 ..< length xs]) = filter Q (map ((!) xs) [0 ..< length xs])"
    by (simp only: filter_map comp_def)
  finally show "filter Q (spec_sort sort_by_le le xs) = filter Q xs" by (simp add: spec_sort_def map_nth)
qed

lemma spec_sort_sorted:
  assumes "total_preorder le" and "\<And>c n. total_preorder c \<Longrightarrow> sorted_wrt c (sorter c [0 ..< n])"
  shows "sorted_wrt le (spec_sort sorter le xs)"
proof -
  let ?le = "\<lambda>i j. le (xs ! i) (xs ! j)"
  have "total_preorder ?le" using assms(1) unfolding total_preorder_def by blast
  then have "sorted_wrt ?le (sorter ?le [0 ..< length xs])" by (rule assms(2))
  then show ?thesis by (simp add: spec_sort_def sorted_wrt_map)
qed

lemma spec_sort_mset:
  assumes "\<And>c n. mset (sorter c [0 ..< n]) = mset [0 ..< n]"
  shows "mset (spec_sort sorter le xs) = mset xs"
proof -
  have "is_perm (sorter (\<lambda>i j. le (xs ! i) (xs ! j)) [0 ..< length xs]) (length xs)" by (simp add: is_perm_mset assms)
  then show ?thesis unfolding spec_sort_def by (rule map_nth_perm)
qed

subsection \<open>Readers\<close>

lemma vec_run:
  fixes ops :: "('s, 'v) slab_ops"
  assumes laws: "slab_laws ops" "unstable_sort_laws us"
    and spec: "spec_run (vec_view_spec us) xs (Some [], []) = Some (outs, k, x, seen)"
    and room: "length xs + 2 < 2 ^ 64" "k < 2 ^ 64"
  obtains outs' st rs log qs where "feed_run (release_change ops) (vec_apply ops us) xs (feed_new (vm_new ops), []) = Inr (outs', st, rs)"
    and "list_all2 (vec_read_ok ops) outs' outs" and "vm_view ops (fd_current st) = x"
    and "client_inv (vec_own ops us) (vm_view ops) (vec_replay ops) st rs log qs" and "seen = map (map_option (map_option snd)) qs"
proof -
  let ?st = "feed_new (vm_new ops) :: ('s vec_model, change_data) feed"
  have start: "client_inv (vec_own ops us) (vm_view ops) (vec_replay ops) ?st [] [] []"
    by (rule vec_feed.feed_start [OF vec_own_new [OF laws]])
  have "vm_view ops (fd_current ?st) = Some []"
    by (simp add: feed_new_def vm_new_def vm_view_def vm_present_def vm_contents_def)
  then have "spec_run (vec_view_spec us) xs (vm_view ops (fd_current ?st), map (map_option (map_option snd)) []) = Some (outs, k, x, seen)"
    using spec by simp
  from vec_feed.feed_run_ok [OF start _ _ this] room obtain outs' st rs log qs where
    r: "feed_run (release_change ops) (vec_apply ops us) xs (?st, []) = Inr (outs', st, rs)"
    "list_all2 (out_ok (vm_view ops) (vec_replay ops)) outs' outs" "vm_view ops (fd_current st) = x"
    "client_inv (vec_own ops us) (vm_view ops) (vec_replay ops) st rs log qs" "seen = map (map_option (map_option snd)) qs" by auto
  have "list_all out_list outs" using spec_run_list [OF spec] by (simp add: is_list_def)
  then have "list_all2 (vec_read_ok ops) outs' outs"
    using r(2) by (auto simp: list_all2_conv_all_nth list_all_length intro!: out_ok_read)
  then show thesis using that r(1,3,4,5) by blast
qed

text \<open>
  C11. Readers track the vector. Whatever a client of a new \<open>StateVec\<close> does (creating, cloning, reading and
  dropping readers, editing through guards, in any order), no operation panics unless the plain list operation of
  \<open>vec_spec\<close> is out of range. Every read yields the current contents, and a delta that can be computed and that,
  applied change by change with every reported old value checked, turns what that reader saw last into them.
\<close>

theorem vec_readers_track:
  assumes laws: "slab_laws ops" "unstable_sort_laws us"
    and spec: "spec_run (vec_view_spec us) xs (Some [], []) = Some (outs, k, x, seen)"
    and room: "length xs + 2 < 2 ^ 64" "k < 2 ^ 64"
  shows "\<exists>outs' st rs. feed_run (release_change ops) (vec_apply ops us) xs (feed_new (vm_new ops), []) = Inr (outs', st, rs)
    \<and> list_all2 (vec_read_ok ops) outs' outs \<and> vm_view ops (fd_current st) = x"
  using vec_run [OF assms] by metis

definition ex_vec_ops :: "nat vec_op feed_op list" where
  "ex_vec_ops = [ReaderNew, EditWith FinishNotify [VecPush 3, VecPush 1, VecPush 2], ReaderRead 0,
     EditWith FinishNotify [VecSortUnstableBy (\<le>), VecSet 0 7, VecRemove 1], ReaderClone 0,
     EditWith FinishSchedule [VecDrain (Included 0) Unbounded, VecExtend [5, 6]], ReaderRead 0, ReaderDrop 0, ReaderRead 1]"

lemma ex_vec_spec:
  "spec_run (vec_view_spec sort_by_le) ex_vec_ops (Some [], []) =
     Some ([SpecNone, SpecEdit, SpecRead None (Some [3, 1, 2]), SpecEdit, SpecNone, SpecEdit, SpecRead (Some (Some [3, 1, 2])) (Some [5, 6]), SpecNone,
            SpecRead (Some (Some [3, 1, 2])) (Some [5, 6])], 10, Some [5, 6], [None, Some (Some (Some [5, 6]))])"
  by code_simp

theorem vec_readers_track_witness:
  "\<exists>outs st rs. feed_run (release_change vec_slab) (vec_apply vec_slab sort_by_le) ex_vec_ops (feed_new (vm_new vec_slab), []) = Inr (outs, st, rs)
     \<and> length outs = 9 \<and> vm_view vec_slab (fd_current st) = Some [5, 6]"
proof -
  from vec_readers_track [OF vec_slab_laws sort_by_le_laws ex_vec_spec] obtain outs st rs where
    "feed_run (release_change vec_slab) (vec_apply vec_slab sort_by_le) ex_vec_ops (feed_new (vm_new vec_slab), []) = Inr (outs, st, rs)"
    "list_all2 (vec_read_ok vec_slab) outs [SpecNone, SpecEdit, SpecRead None (Some [3, 1, 2]), SpecEdit, SpecNone, SpecEdit,
       SpecRead (Some (Some [3, 1, 2])) (Some [5, 6]), SpecNone, SpecRead (Some (Some [3, 1, 2])) (Some [5, 6])]"
    "vm_view vec_slab (fd_current st) = Some [5, 6]" by (auto simp: ex_vec_ops_def)
  moreover from this(2) have "length outs = 9" by (simp add: list_all2_lengthD)
  ultimately show ?thesis by blast
qed

text \<open>
  C12. Removed values are not leaked. At the end of such a run, when every live reader is one that has not read
  yet, no change is retained, and the slab map holds exactly the values of the vector, each under one key.
\<close>

theorem vec_no_leak:
  assumes laws: "slab_laws ops" "unstable_sort_laws us"
    and spec: "spec_run (vec_view_spec us) xs (Some [], []) = Some (outs, k, x, seen)"
    and room: "length xs + 2 < 2 ^ 64" "k < 2 ^ 64"
    and unread: "unread seen"
  shows "\<exists>outs' st rs. feed_run (release_change ops) (vec_apply ops us) xs (feed_new (vm_new ops), []) = Inr (outs', st, rs)
    \<and> log_items (fd_changes st) = [] \<and> distinct (vm_items (fd_current st))
    \<and> set (slab_keys ops (vm_values (fd_current st))) = set (vm_items (fd_current st)) \<and> vm_view ops (fd_current st) = x"
proof -
  obtain outs' st rs log qs where r: "feed_run (release_change ops) (vec_apply ops us) xs (feed_new (vm_new ops), []) = Inr (outs', st, rs)"
    "vm_view ops (fd_current st) = x" and inv: "client_inv (vec_own ops us) (vm_view ops) (vec_replay ops) st rs log qs"
    and seen: "seen = map (map_option (map_option snd)) qs"
    using vec_run [OF laws spec room] by metis
  show ?thesis using r vec_feed.client_unread [OF inv unread [unfolded seen]] laws(1) by (simp add: vec_own_def keys_inv_Nil slab_keys_set)
qed

definition ex_leak_ops :: "nat vec_op feed_op list" where
  "ex_leak_ops = [ReaderNew, EditWith FinishNotify [VecPush 3, VecPush 1], ReaderRead 0, EditWith FinishNotify [VecSet 0 7, VecRemove 1], ReaderDrop 0]"

lemma ex_leak_spec:
  "spec_run (vec_view_spec sort_by_le) ex_leak_ops (Some [], []) =
     Some ([SpecNone, SpecEdit, SpecRead None (Some [3, 1]), SpecEdit, SpecNone], 4, Some [7], [None])"
  by code_simp

theorem vec_no_leak_witness:
  "\<exists>outs st rs. feed_run (release_change vec_slab) (vec_apply vec_slab sort_by_le) ex_leak_ops (feed_new (vm_new vec_slab), []) = Inr (outs, st, rs)
     \<and> log_items (fd_changes st) = [] \<and> vm_view vec_slab (fd_current st) = Some [7]"
  using vec_no_leak [OF vec_slab_laws sort_by_le_laws ex_leak_spec] by (auto simp: unread_def ex_leak_ops_def)


definition ex_vec :: "nat option list vec_model" where
  "ex_vec = \<lparr>vm_items = [2, 0, 1], vm_values = [Some 5, Some 6, Some 7]\<rparr>"

lemma ex_vec_own: "vec_own vec_slab sort_by_le ex_vec []"
  using vec_slab_laws sort_by_le_laws
  by (auto simp: vec_own_def keys_inv_Nil ex_vec_def vec_slab_def vec_get_def less_Suc_eq nth_Cons' split: if_splits)


text \<open>
  \<open>sort_unstable_by\<close> sorts stably: on a total preorder the result is a sorted permutation of the contents in which
  elements that compare as equal keep their order.
\<close>

lemma sort_unstable_by_is_stable:
  assumes own: "vec_own ops us m cs" and le: "total_preorder le"
  shows "\<exists>m' ds. items_sort_unstable_by ops us le m = Inr (m', ds) \<and> sorted_wrt le (vm_contents ops m')
    \<and> mset (vm_contents ops m') = mset (vm_contents ops m) \<and> stable_for le (vm_contents ops m) (vm_contents ops m')"
proof -
  have laws: "slab_laws ops" "unstable_sort_laws us" using own by (simp_all add: vec_own_def)
  obtain m' ds where m': "items_sort_unstable_by ops us le m = Inr (m', ds)" "vm_contents ops m' = spec_sort sort_by_le le (vm_contents ops m)"
    using vec_apply_spec [OF laws vec_own_present [OF own], of "VecSortUnstableBy le"] by auto
  have "sorted_wrt le (spec_sort sort_by_le le (vm_contents ops m))" by (rule spec_sort_sorted [OF le]) (simp add: sort_by_le_sorted)
  moreover have "mset (spec_sort sort_by_le le (vm_contents ops m)) = mset (vm_contents ops m)" by (rule spec_sort_mset) simp
  ultimately show ?thesis using m' spec_sort_stable by metis
qed

lemma sort_unstable_by_is_stable_example:
  "\<exists>m' ds. items_sort_unstable_by vec_slab sort_by_le (\<lambda>a b. a div 4 \<le> b div 4) ex_vec = Inr (m', ds)
     \<and> mset (vm_contents vec_slab m') = {#5, 6, 7#} \<and> stable_for (\<lambda>a b. a div 4 \<le> b div 4) [7, 5, 6 :: nat] (vm_contents vec_slab m')"
proof -
  have "total_preorder (\<lambda>a b. a div 4 \<le> b div (4 :: nat))" by (auto simp: total_preorder_def)
  moreover have "vm_contents vec_slab ex_vec = [7, 5, 6]" by code_simp
  ultimately show ?thesis using sort_unstable_by_is_stable [OF ex_vec_own, of "\<lambda>a b. a div 4 \<le> b div 4"] by (auto simp: add_mset_commute)
qed

text \<open>
  \<open>sort_by\<close>, the operation named after the stable sort, is not stable: with a library \<open>sort_unstable_by\<close> that keeps its
  contract it can exchange elements that compare as equal. \<open>sort_as\<close> calls \<open>sort_unstable_by\<close> when asked for a stable sort.
\<close>

definition ex_unstable :: unstable_sort where
  "ex_unstable le xs = sort_by_le le (rev xs)"

theorem sort_by_not_stable:
  "\<exists>us (m :: nat option list vec_model) le m' ds. vec_own vec_slab us m [] \<and> total_preorder le
     \<and> items_sort_by vec_slab us le m = Inr (m', ds) \<and> \<not> stable_for le (vm_contents vec_slab m) (vm_contents vec_slab m')"
proof -
  let ?le = "\<lambda>a b :: nat. True" and ?m = "\<lparr>vm_items = [0, 1], vm_values = [Some 5, Some 6]\<rparr> :: nat option list vec_model"
  have us: "unstable_sort_laws ex_unstable" using sort_by_le_laws unfolding unstable_sort_laws_def ex_unstable_def by simp
  have own: "vec_own vec_slab ex_unstable ?m []"
    using us vec_slab_laws by (auto simp: vec_own_def keys_inv_Nil vec_slab_def vec_get_def less_Suc_eq nth_Cons' split: if_splits)
  have run: "items_sort_by vec_slab ex_unstable ?le ?m = Inr (\<lparr>vm_items = [1, 0], vm_values = [Some 5, Some 6]\<rparr>, [ChSort [1, 0]])"
  proof -
    have "ex_unstable (\<lambda>i j. True) [0, 1] = [1, 0]" "\<not> is_sorted [1, 0]" by code_simp+
    then show ?thesis using sort_as_ok(1) [OF us vec_own_present [OF own], where s = True and le = ?le] by (simp add: items_sort_by_def)
  qed
  have "vm_contents vec_slab ?m = [5, 6]" "vm_contents vec_slab \<lparr>vm_items = [1, 0], vm_values = [Some 5, Some 6]\<rparr> = [6, 5 :: nat]" by code_simp+
  moreover have "\<not> stable_for ?le [5, 6] [6, 5]" unfolding stable_for_def by (auto intro!: exI [of _ "\<lambda>_. True"])
  moreover have "total_preorder ?le" by (simp add: total_preorder_def)
  ultimately have "vec_own vec_slab ex_unstable ?m [] \<and> total_preorder ?le
     \<and> items_sort_by vec_slab ex_unstable ?le ?m = Inr (\<lparr>vm_items = [1, 0], vm_values = [Some 5, Some 6]\<rparr>, [ChSort [1, 0]])
     \<and> \<not> stable_for ?le (vm_contents vec_slab ?m) (vm_contents vec_slab \<lparr>vm_items = [1, 0], vm_values = [Some 5, Some 6]\<rparr>)" using own run by simp
  then show ?thesis by blast
qed

text \<open>
  C14. \<open>IndexNewToOld::apply_to\<close>, which permutes in place by following cycles, ends and gives the same result as reading the
  old elements in the new order.
\<close>

theorem apply_to_permutes:
  assumes "is_perm p (length xs)"
  shows "apply_to p xs = Inr (map ((!) xs) p)"
  by (rule apply_to_perm [OF assms])

theorem apply_to_permutes_witness: "apply_to [2, 0, 1] [10, 20, 30 :: nat] = Inr [30, 10, 20]"
  using apply_to_permutes [of "[2, 0, 1]" "[10, 20, 30 :: nat]"] by (simp add: is_perm_def)

text \<open>
  Building a vector from an iterator (\<open>FromIterator\<close>, \<open>Deserialize\<close>) and iterating over it gives the values back in order, and
  the new vector owns its storage.
\<close>

lemma push_raw_ok:
  assumes laws: "slab_laws ops" "unstable_sort_laws us" and o: "vec_own ops us m []"
  shows "\<exists>m'. push_raw ops v m = Inr m' \<and> vec_own ops us m' [] \<and> vm_contents ops m' = vm_contents ops m @ [v]"
proof -
  obtain m' d where p: "items_push ops v m = Inr (m', [d])" "vm_contents ops m' = vm_contents ops m @ [v]"
    using push_spec [OF laws(1) vec_own_present [OF o]] by blast
  then obtain k where d: "d = ChInsert (vm_len m) k" "push_raw ops v m = Inr m'"
    by (auto simp: items_push_def items_insert_def push_raw_def res_bind_eq_Inr)
  have "vec_own ops us m' [d]" using vec_own_steps [OF push_steps [OF p(1)] o] by simp
  then have "vec_own ops us m' []" using d(1) by (auto simp: vec_own_def keys_inv_def)
  then show ?thesis using d(2) p(2) by blast
qed

lemma from_iter_ok:
  assumes laws: "slab_laws ops" "unstable_sort_laws us"
  shows "\<exists>m. from_iter ops vs = Inr m \<and> vec_own ops us m [] \<and> vm_contents ops m = vs"
proof -
  have "\<exists>m'. res_fold (push_raw ops) vs m = Inr m' \<and> vec_own ops us m' [] \<and> vm_contents ops m' = vm_contents ops m @ vs"
    if "vec_own ops us m []" for m
    using that
  proof (induction vs arbitrary: m)
    case (Cons v vs)
    obtain m1 where m1: "push_raw ops v m = Inr m1" "vec_own ops us m1 []" "vm_contents ops m1 = vm_contents ops m @ [v]"
      using push_raw_ok [OF laws Cons.prems] by blast
    then show ?case using Cons.IH [OF m1(2)] by simp
  qed simp
  from this [OF vec_own_new [OF laws]] show ?thesis by (simp add: from_iter_def vm_contents_def vm_new_def)
qed

theorem from_iter_iter:
  assumes "slab_laws ops"
  shows "res_bind (from_iter ops vs) (vm_iter ops) = Inr vs \<and> (\<exists>m. from_iter ops vs = Inr m \<and> set (slab_keys ops (vm_values m)) = set (vm_items m))"
proof -
  obtain m where m: "from_iter ops vs = Inr m" "vec_own ops sort_by_le m []" "vm_contents ops m = vs"
    using from_iter_ok [OF assms sort_by_le_laws] by blast
  have "res_bind (from_iter ops vs) (vm_iter ops) = Inr vs" using m vm_iter_ok [OF vec_own_present [OF m(2)]] by simp
  then show ?thesis using m assms by (auto simp: vec_own_def keys_inv_Nil slab_keys_set)
qed

theorem from_iter_iter_witness:
  "res_bind (from_iter vec_slab [4, 4, 9 :: nat]) (vm_iter vec_slab) = Inr [4, 4, 9]"
  using from_iter_iter [OF vec_slab_laws] by blast

text \<open>
  A reader of an immutable \<open>Vec\<close> or slice reports every element as inserted on its first read and nothing afterwards, and
  \<open>peek\<close> reports what the next \<open>read\<close> will, without consuming it.
\<close>

lemma slice_iter: "items_iter ops (from_slice xs b) = Inr xs"
  using iter_collect_ok [of "items_get ops (from_slice xs b)" xs 0 "Suc (length xs)"]
  by (simp add: items_iter_def items_len_def items_get_def from_slice_def del: iter_collect.simps)

lemma slice_reader_once:
  fixes r :: "'v slice_reader"
  shows "\<exists>ds. items_delta ops (slice_reader_peek r :: ('s, 'v) vec_items) = Inr ds
      \<and> items_delta ops (fst (slice_reader_read r) :: ('s, 'v) vec_items) = Inr ds
      \<and> apply_delta ds (if sr_has_read r then sr_items r else []) = Some (sr_items r)
      \<and> items_delta ops (fst (slice_reader_read (snd (slice_reader_read r :: ('s, 'v) vec_items \<times> 'v slice_reader))) :: ('s, 'v) vec_items) = Inr []"
proof -
  have "initial_changes ops (from_slice (sr_items r) b :: ('s, 'v) vec_items) = Inr (map (\<lambda>(i, v). VcInsert i v) (zip [0 ..< length (sr_items r)] (sr_items r)))" for b
    by (simp add: initial_changes_def slice_iter)
  moreover have "apply_delta (map (\<lambda>(i, v). VcInsert i v) (zip [0 ..< length (sr_items r)] (sr_items r))) [] = Some (sr_items r)"
    using fold_inserts [of 0 "[]" "sr_items r"] by (simp add: apply_delta_def)
  ultimately show ?thesis
    by (auto simp: slice_reader_peek_def slice_reader_read_def items_delta_def from_slice_def apply_delta_def)
qed

end
