(* ===== verification/Feed_Node.thy ===== *)
theory Feed_Node
  imports Node_Protocol Change_Feed
begin

section \<open>Change feed nodes (building_blocks/change_feed.rs)\<close>

text \<open>
  \<open>StateNode\<close> (\<open>ChangeFeedState\<close>, with or without a scan) and \<open>ScanNode\<close> (\<open>ChangeFeedSignal::from_scan\<close>): a storage, a binder and
  the sinks. The scan closure of the user receives the edit; the operations it runs on the model are given by the environment, and \<open>fe\<close>
  interprets one. Both nodes refresh in the same way.
\<close>

subsection \<open>Refreshing\<close>

record ('m, 'c, 's) feed_node =
  fn_storage :: "('m, 'c) feed"
  fn_binder :: "source_binder option"
  fn_sinks :: 's

definition feed_refresh ::
    "('s, sink_binding) slab_ops \<Rightarrow> ('c \<Rightarrow> 'm \<Rightarrow> 'm) \<Rightarrow> ('f \<Rightarrow> 'm \<Rightarrow> ('m \<times> 'c list) result) \<Rightarrow> ('w, 'm, 'f) node_env
       \<Rightarrow> source_binder \<Rightarrow> ('m, 'c) feed \<Rightarrow> 's \<Rightarrow> 'w \<Rightarrow> (source_binder \<times> ('m, 'c) feed \<times> 's \<times> 'w) result" where
  "feed_refresh ops rel fe env b st S w =
     (if binder_is_clean b then Inr (b, st, S, w)
      else res_bind (binder_check_with env b w) (\<lambda>(r, b1, us, w1).
        let S1 = unbind_keys ops us S in
        if \<not> r then Inr (b1, st, sinks_update ops False S1, w1)
        else res_bind (begin_edit rel st) (\<lambda>(e, st1).
          res_bind (ge_run env (b1\<lparr>sbr_dirty := Clean\<rparr>) (fd_current st1) w1) (\<lambda>(fs, srcs, us1, w2).
          res_bind (res_fold edit_step (map fe fs) (with_finish FinishTrack e, st1)) (\<lambda>(e1, st2).
          res_bind (edit_drop rel e1 st2) (\<lambda>(fin, st3).
            Inr (b1\<lparr>sbr_dirty := Clean, sbr_sources := srcs\<rparr>, st3,
                 sinks_update ops (fin = FinishTrack) (unbind_keys ops us1 S1), w2)))))))"

definition feed_node_update ::
    "('s, sink_binding) slab_ops \<Rightarrow> ('c \<Rightarrow> 'm \<Rightarrow> 'm) \<Rightarrow> ('f \<Rightarrow> 'm \<Rightarrow> ('m \<times> 'c list) result) \<Rightarrow> ('w, 'm, 'f) node_env
       \<Rightarrow> ('m, 'c, 's) feed_node \<Rightarrow> 'w \<Rightarrow> (('m, 'c, 's) feed_node \<times> 'w) result" where
  "feed_node_update ops rel fe env n w =
     (case fn_binder n of None \<Rightarrow> Inr (n, w)
      | Some b \<Rightarrow> res_bind (feed_refresh ops rel fe env b (fn_storage n) (fn_sinks n) w) (\<lambda>(b1, st1, S1, w1).
          Inr (\<lparr>fn_storage = st1, fn_binder = Some b1, fn_sinks = S1\<rparr>, w1)))"

subsection \<open>States\<close>

definition feed_source_slot :: slot where
  "feed_source_slot = 0"

definition feed_local_slot :: slot where
  "feed_local_slot = 1"

definition feed_state_new :: "('s, sink_binding) slab_ops \<Rightarrow> 'm \<Rightarrow> ('m, 'c, 's) feed_node" where
  "feed_state_new ops m = \<lparr>fn_storage = feed_new m, fn_binder = None, fn_sinks = slab_new ops\<rparr>"

definition feed_state_from_scan :: "('s, sink_binding) slab_ops \<Rightarrow> nid \<Rightarrow> 'm \<Rightarrow> ('m, 'c, 's) feed_node" where
  "feed_state_from_scan ops this m =
     \<lparr>fn_storage = feed_new m, fn_binder = Some (binder_new this feed_source_slot), fn_sinks = slab_new ops\<rparr>"

definition feed_node_bind ::
    "('s, sink_binding) slab_ops \<Rightarrow> ('w, 'm, 'f) node_env \<Rightarrow> nid \<Rightarrow> sink option \<Rightarrow> ('m, 'c, 's) feed_node \<Rightarrow> 'w
       \<Rightarrow> (sink option \<times> ('m, 'c, 's) feed_node \<times> 'w) result" where
  "feed_node_bind ops env this ko n w =
     res_bind (bind_sinks ops env this 0 ko (fn_sinks n) w) (\<lambda>(S, ko1, w1). Inr (ko1, n\<lparr>fn_sinks := S\<rparr>, w1))"

definition feed_node_watch ::
    "('s, sink_binding) slab_ops \<Rightarrow> ('c \<Rightarrow> 'm \<Rightarrow> 'm) \<Rightarrow> ('f \<Rightarrow> 'm \<Rightarrow> ('m \<times> 'c list) result) \<Rightarrow> ('w, 'm, 'f) node_env \<Rightarrow> nid
       \<Rightarrow> sink option \<Rightarrow> ('m, 'c, 's) feed_node \<Rightarrow> 'w \<Rightarrow> (sink option \<times> ('m, 'c, 's) feed_node \<times> 'w) result" where
  "feed_node_watch ops rel fe env this ko n w =
     res_bind (feed_node_update ops rel fe env n w) (\<lambda>(n1, w1). feed_node_bind ops env this ko n1 w1)"

text \<open>\<open>BindSource\<close> and \<open>BindSink\<close>.\<close>

definition feed_node_check ::
    "('s, sink_binding) slab_ops \<Rightarrow> ('c \<Rightarrow> 'm \<Rightarrow> 'm) \<Rightarrow> ('f \<Rightarrow> 'm \<Rightarrow> ('m \<times> 'c list) result) \<Rightarrow> ('w, 'm, 'f) node_env
       \<Rightarrow> bind_key \<Rightarrow> ('m, 'c, 's) feed_node \<Rightarrow> 'w \<Rightarrow> (bool \<times> ('m, 'c, 's) feed_node \<times> 'w) result" where
  "feed_node_check ops rel fe env key n w =
     res_bind (feed_node_update ops rel fe env n w) (\<lambda>(n1, w1).
     res_bind (sinks_is_dirty ops key (fn_sinks n1)) (\<lambda>d. Inr (d, n1, w1)))"

definition feed_node_unbind :: "('s, sink_binding) slab_ops \<Rightarrow> bind_key \<Rightarrow> ('m, 'c, 's) feed_node \<Rightarrow> ('m, 'c, 's) feed_node" where
  "feed_node_unbind ops key n = n\<lparr>fn_sinks := sinks_unbind ops key (fn_sinks n)\<rparr>"

definition feed_node_rebind ::
    "('s, sink_binding) slab_ops \<Rightarrow> ('w, 'm, 'f) node_env \<Rightarrow> nid \<Rightarrow> slot \<Rightarrow> bind_key \<Rightarrow> sink option \<Rightarrow> ('m, 'c, 's) feed_node \<Rightarrow> 'w
       \<Rightarrow> (sink option \<times> ('m, 'c, 's) feed_node \<times> 'w) result" where
  "feed_node_rebind ops env this slot key ko n w =
     res_bind (rebind_sinks ops env this slot key ko (fn_sinks n) w) (\<lambda>(S, ko1, w1). Inr (ko1, n\<lparr>fn_sinks := S\<rparr>, w1))"

definition feed_node_notify ::
    "('s, sink_binding) slab_ops \<Rightarrow> ('w, 'm, 'f) node_env \<Rightarrow> slot \<Rightarrow> dirty_level \<Rightarrow> ('m, 'c, 's) feed_node \<Rightarrow> 'w
       \<Rightarrow> (('m, 'c, 's) feed_node \<times> 'w) result" where
  "feed_node_notify ops env slot level n w =
     (if slot = feed_local_slot
      then res_bind (sinks_notify ops (ge_notify env) level (fn_sinks n) w) (\<lambda>(S, w1). Inr (n\<lparr>fn_sinks := S\<rparr>, w1))
      else case fn_binder n of None \<Rightarrow> Inr (n, w)
        | Some b \<Rightarrow> let (need, b1) = binder_on_notify slot level b; n1 = n\<lparr>fn_binder := Some b1\<rparr> in
            if need then res_bind (sinks_notify ops (ge_notify env) LevelMaybeDirty (fn_sinks n1) w) (\<lambda>(S, w1). Inr (n1\<lparr>fn_sinks := S\<rparr>, w1))
            else Inr (n1, w))"

subsection \<open>Contextual edits and reads\<close>

text \<open>What dropping a dirty \<open>ChangeFeedRefMut\<close> does last.\<close>

definition finish_edit ::
    "('s, sink_binding) slab_ops \<Rightarrow> ('w, 'm, 'f) node_env \<Rightarrow> nid \<Rightarrow> edit_finish \<Rightarrow> ('m, 'c, 's) feed_node \<Rightarrow> 'w
       \<Rightarrow> (('m, 'c, 's) feed_node \<times> 'w) result" where
  "finish_edit ops env this fin n w = (case fin of
       FinishNone \<Rightarrow> Inr (n, w)
     | FinishTrack \<Rightarrow> Inr (n, w)
     | FinishNotify \<Rightarrow> res_bind (sinks_notify ops (ge_notify env) LevelDirty (fn_sinks n) w) (\<lambda>(S, w1). Inr (n\<lparr>fn_sinks := S\<rparr>, w1))
     | FinishSchedule \<Rightarrow> Inr (n, ge_schedule env this feed_local_slot w))"

definition feed_edit_with ::
    "('s, sink_binding) slab_ops \<Rightarrow> ('c \<Rightarrow> 'm \<Rightarrow> 'm) \<Rightarrow> ('f \<Rightarrow> 'm \<Rightarrow> ('m \<times> 'c list) result) \<Rightarrow> ('w, 'm, 'f) node_env \<Rightarrow> nid
       \<Rightarrow> edit_finish \<Rightarrow> 'f list \<Rightarrow> ('m, 'c, 's) feed_node \<Rightarrow> 'w \<Rightarrow> (('m, 'c, 's) feed_node \<times> 'w) result" where
  "feed_edit_with ops rel fe env this fin fs n w =
     res_bind (feed_node_update ops rel fe env n w) (\<lambda>(n1, w1).
     res_bind (feed_edit_run rel fin (map fe fs) (fn_storage n1)) (\<lambda>(fin1, st).
       finish_edit ops env this fin1 (n1\<lparr>fn_storage := st\<rparr>) w1))"

definition feed_borrow_mut ::
    "('s, sink_binding) slab_ops \<Rightarrow> ('c \<Rightarrow> 'm \<Rightarrow> 'm) \<Rightarrow> ('f \<Rightarrow> 'm \<Rightarrow> ('m \<times> 'c list) result) \<Rightarrow> ('w, 'm, 'f) node_env \<Rightarrow> nid
       \<Rightarrow> 'f list \<Rightarrow> ('m, 'c, 's) feed_node \<Rightarrow> 'w \<Rightarrow> (('m, 'c, 's) feed_node \<times> 'w) result" where
  "feed_borrow_mut ops rel fe env this = feed_edit_with ops rel fe env this FinishNotify"

definition feed_borrow_mut_loose ::
    "('s, sink_binding) slab_ops \<Rightarrow> ('c \<Rightarrow> 'm \<Rightarrow> 'm) \<Rightarrow> ('f \<Rightarrow> 'm \<Rightarrow> ('m \<times> 'c list) result) \<Rightarrow> ('w, 'm, 'f) node_env \<Rightarrow> nid
       \<Rightarrow> 'f list \<Rightarrow> ('m, 'c, 's) feed_node \<Rightarrow> 'w \<Rightarrow> (('m, 'c, 's) feed_node \<times> 'w) result" where
  "feed_borrow_mut_loose ops rel fe env this = feed_edit_with ops rel fe env this FinishSchedule"

definition feed_borrow ::
    "('s, sink_binding) slab_ops \<Rightarrow> ('c \<Rightarrow> 'm \<Rightarrow> 'm) \<Rightarrow> ('f \<Rightarrow> 'm \<Rightarrow> ('m \<times> 'c list) result) \<Rightarrow> ('w, 'm, 'f) node_env \<Rightarrow> nid
       \<Rightarrow> sink option \<Rightarrow> ('m, 'c, 's) feed_node \<Rightarrow> 'w \<Rightarrow> (feed_ref \<times> sink option \<times> ('m, 'c, 's) feed_node \<times> 'w) result" where
  "feed_borrow ops rel fe env this ko n w =
     res_bind (feed_node_watch ops rel fe env this ko n w) (\<lambda>(ko1, n1, w1).
     res_bind (borrow_current rel (fn_storage n1)) (\<lambda>(g, st). Inr (g, ko1, n1\<lparr>fn_storage := st\<rparr>, w1)))"

definition feed_reader_read ::
    "('s, sink_binding) slab_ops \<Rightarrow> ('c \<Rightarrow> 'm \<Rightarrow> 'm) \<Rightarrow> ('f \<Rightarrow> 'm \<Rightarrow> ('m \<times> 'c list) result) \<Rightarrow> ('w, 'm, 'f) node_env \<Rightarrow> nid
       \<Rightarrow> sink option \<Rightarrow> feed_reader \<Rightarrow> ('m, 'c, 's) feed_node \<Rightarrow> 'w \<Rightarrow> (feed_ref \<times> feed_reader \<times> sink option \<times> ('m, 'c, 's) feed_node \<times> 'w) result" where
  "feed_reader_read ops rel fe env this ko r n w =
     res_bind (feed_node_watch ops rel fe env this ko n w) (\<lambda>(ko1, n1, w1).
     res_bind (reader_read rel r (fn_storage n1)) (\<lambda>(g, r1, st). Inr (g, r1, ko1, n1\<lparr>fn_storage := st\<rparr>, w1)))"

definition feed_reader_peek ::
    "('s, sink_binding) slab_ops \<Rightarrow> ('c \<Rightarrow> 'm \<Rightarrow> 'm) \<Rightarrow> ('f \<Rightarrow> 'm \<Rightarrow> ('m \<times> 'c list) result) \<Rightarrow> ('w, 'm, 'f) node_env \<Rightarrow> nid
       \<Rightarrow> sink option \<Rightarrow> feed_reader \<Rightarrow> ('m, 'c, 's) feed_node \<Rightarrow> 'w \<Rightarrow> (feed_ref \<times> sink option \<times> ('m, 'c, 's) feed_node \<times> 'w) result" where
  "feed_reader_peek ops rel fe env this ko r n w =
     res_bind (feed_node_watch ops rel fe env this ko n w) (\<lambda>(ko1, n1, w1).
     res_bind (reader_peek rel r (fn_storage n1)) (\<lambda>(g, st). Inr (g, ko1, n1\<lparr>fn_storage := st\<rparr>, w1)))"

definition feed_contextless :: "('m, 'c, 's) feed_node \<Rightarrow> (feed_ref \<times> ('m, 'c, 's) feed_node) option" where
  "feed_contextless n = map_option (\<lambda>(g, st). (g, n\<lparr>fn_storage := st\<rparr>)) (try_borrow_current (fn_storage n))"

subsection \<open>Scans\<close>

record ('m, 'c, 's) feed_scan =
  fs_storage :: "('m, 'c) feed"
  fs_binder :: source_binder
  fs_sinks :: 's

definition feed_scan_new :: "('s, sink_binding) slab_ops \<Rightarrow> nid \<Rightarrow> 'm \<Rightarrow> ('m, 'c, 's) feed_scan" where
  "feed_scan_new ops this m = \<lparr>fs_storage = feed_new m, fs_binder = binder_new this 0, fs_sinks = slab_new ops\<rparr>"

definition feed_scan_update ::
    "('s, sink_binding) slab_ops \<Rightarrow> ('c \<Rightarrow> 'm \<Rightarrow> 'm) \<Rightarrow> ('f \<Rightarrow> 'm \<Rightarrow> ('m \<times> 'c list) result) \<Rightarrow> ('w, 'm, 'f) node_env
       \<Rightarrow> ('m, 'c, 's) feed_scan \<Rightarrow> 'w \<Rightarrow> (('m, 'c, 's) feed_scan \<times> 'w) result" where
  "feed_scan_update ops rel fe env n w =
     res_bind (feed_refresh ops rel fe env (fs_binder n) (fs_storage n) (fs_sinks n) w) (\<lambda>(b1, st1, S1, w1).
       Inr (\<lparr>fs_storage = st1, fs_binder = b1, fs_sinks = S1\<rparr>, w1))"

definition feed_scan_watch ::
    "('s, sink_binding) slab_ops \<Rightarrow> ('c \<Rightarrow> 'm \<Rightarrow> 'm) \<Rightarrow> ('f \<Rightarrow> 'm \<Rightarrow> ('m \<times> 'c list) result) \<Rightarrow> ('w, 'm, 'f) node_env \<Rightarrow> nid
       \<Rightarrow> sink option \<Rightarrow> ('m, 'c, 's) feed_scan \<Rightarrow> 'w \<Rightarrow> (sink option \<times> ('m, 'c, 's) feed_scan \<times> 'w) result" where
  "feed_scan_watch ops rel fe env this ko n w =
     res_bind (feed_scan_update ops rel fe env n w) (\<lambda>(n1, w1).
     res_bind (bind_sinks ops env this 0 ko (fs_sinks n1) w1) (\<lambda>(S, ko1, w2). Inr (ko1, n1\<lparr>fs_sinks := S\<rparr>, w2)))"

definition feed_scan_check ::
    "('s, sink_binding) slab_ops \<Rightarrow> ('c \<Rightarrow> 'm \<Rightarrow> 'm) \<Rightarrow> ('f \<Rightarrow> 'm \<Rightarrow> ('m \<times> 'c list) result) \<Rightarrow> ('w, 'm, 'f) node_env
       \<Rightarrow> bind_key \<Rightarrow> ('m, 'c, 's) feed_scan \<Rightarrow> 'w \<Rightarrow> (bool \<times> ('m, 'c, 's) feed_scan \<times> 'w) result" where
  "feed_scan_check ops rel fe env key n w =
     res_bind (feed_scan_update ops rel fe env n w) (\<lambda>(n1, w1).
     res_bind (sinks_is_dirty ops key (fs_sinks n1)) (\<lambda>d. Inr (d, n1, w1)))"

definition feed_scan_unbind :: "('s, sink_binding) slab_ops \<Rightarrow> bind_key \<Rightarrow> ('m, 'c, 's) feed_scan \<Rightarrow> ('m, 'c, 's) feed_scan" where
  "feed_scan_unbind ops key n = n\<lparr>fs_sinks := sinks_unbind ops key (fs_sinks n)\<rparr>"

definition feed_scan_rebind ::
    "('s, sink_binding) slab_ops \<Rightarrow> ('w, 'm, 'f) node_env \<Rightarrow> nid \<Rightarrow> slot \<Rightarrow> bind_key \<Rightarrow> sink option \<Rightarrow> ('m, 'c, 's) feed_scan \<Rightarrow> 'w
       \<Rightarrow> (sink option \<times> ('m, 'c, 's) feed_scan \<times> 'w) result" where
  "feed_scan_rebind ops env this slot key ko n w =
     res_bind (rebind_sinks ops env this slot key ko (fs_sinks n) w) (\<lambda>(S, ko1, w1). Inr (ko1, n\<lparr>fs_sinks := S\<rparr>, w1))"

definition feed_scan_notify ::
    "('s, sink_binding) slab_ops \<Rightarrow> ('w, 'm, 'f) node_env \<Rightarrow> slot \<Rightarrow> dirty_level \<Rightarrow> ('m, 'c, 's) feed_scan \<Rightarrow> 'w
       \<Rightarrow> (('m, 'c, 's) feed_scan \<times> 'w) result" where
  "feed_scan_notify ops env slot level n w =
     (let (need, b1) = binder_on_notify slot level (fs_binder n); n1 = n\<lparr>fs_binder := b1\<rparr> in
      if need then res_bind (sinks_notify ops (ge_notify env) LevelMaybeDirty (fs_sinks n1) w) (\<lambda>(S, w1). Inr (n1\<lparr>fs_sinks := S\<rparr>, w1))
      else Inr (n1, w))"

end
