(* ===== verification/Vec_Access.thy ===== *)
theory Vec_Access
  imports Vec_Properties Feed_Node
begin

section \<open>Access to vectors (the remaining operations of collections/vec.rs)\<close>

text \<open>
  How code gets at the contents: indexing, comparison, the sorts by the order of the elements, and the three kinds of vectors behind a \<open>SignalVec\<close>, a node with a feed or an
  immutable vector or slice, with their readers. \<open>feed\<close> is the node that the signal or the state refers to.
\<close>

subsection \<open>Items\<close>

definition items_is_empty :: "('s, 'v) vec_items \<Rightarrow> bool" where
  "items_is_empty it \<longleftrightarrow> items_len it = 0"

definition items_index :: "('s, 'v) slab_ops \<Rightarrow> ('s, 'v) vec_items \<Rightarrow> nat \<Rightarrow> 'v result" where
  "items_index ops it i = res_bind (items_get ops it i) (\<lambda>x. case x of Some v \<Rightarrow> Inr v | None \<Rightarrow> Inl IndexOutOfBounds)"

text \<open>The loop of \<open>PartialEq\<close> over two zipped iterators, which stops at the first difference.\<close>

fun eq_loop :: "nat \<Rightarrow> ('v \<Rightarrow> 'u \<Rightarrow> bool) \<Rightarrow> (nat \<Rightarrow> 'v option result) \<Rightarrow> (nat \<Rightarrow> 'u option result) \<Rightarrow> nat \<Rightarrow> nat \<Rightarrow> bool result" where
  "eq_loop 0 eq get1 get2 i j = Inl OutOfFuel"
| "eq_loop (Suc fuel) eq get1 get2 i j =
     res_bind (iter_next get1 i) (\<lambda>(a, i1). case a of None \<Rightarrow> Inr True
     | Some a \<Rightarrow> res_bind (iter_next get2 j) (\<lambda>(b, j1). case b of None \<Rightarrow> Inr True
     | Some b \<Rightarrow> if \<not> eq a b then Inr False else eq_loop fuel eq get1 get2 i1 j1))"

definition slice_get :: "'v list \<Rightarrow> nat \<Rightarrow> 'v option result" where
  "slice_get xs i = Inr (if i < length xs then Some (xs ! i) else None)"

definition items_eq :: "('s, 'v) slab_ops \<Rightarrow> ('v \<Rightarrow> 'v \<Rightarrow> bool) \<Rightarrow> ('s, 'v) vec_items \<Rightarrow> ('s, 'v) vec_items \<Rightarrow> bool result" where
  "items_eq ops eq x y = (if items_len x \<noteq> items_len y then Inr False
     else eq_loop (Suc (items_len x)) eq (items_get ops x) (items_get ops y) 0 0)"

definition items_eq_slice :: "('s, 'v) slab_ops \<Rightarrow> ('v \<Rightarrow> 'v \<Rightarrow> bool) \<Rightarrow> ('s, 'v) vec_items \<Rightarrow> 'v list \<Rightarrow> bool result" where
  "items_eq_slice ops eq x ys = (if items_len x \<noteq> length ys then Inr False
     else eq_loop (Suc (items_len x)) eq (items_get ops x) (slice_get ys) 0 0)"

subsection \<open>ItemsMut\<close>

definition im_len :: "'s vec_model \<Rightarrow> nat" where
  "im_len m = vm_len m"

definition im_is_empty :: "'s vec_model \<Rightarrow> bool" where
  "im_is_empty m \<longleftrightarrow> im_len m = 0"

definition im_get :: "('s, 'v) slab_ops \<Rightarrow> 's vec_model \<Rightarrow> nat \<Rightarrow> 'v option result" where
  "im_get ops m i = vm_get ops m i"

definition im_index :: "('s, 'v) slab_ops \<Rightarrow> 's vec_model \<Rightarrow> nat \<Rightarrow> 'v result" where
  "im_index ops m i = res_bind (im_get ops m i) (\<lambda>x. case x of Some v \<Rightarrow> Inr v | None \<Rightarrow> Inl IndexOutOfBounds)"

definition im_iter :: "('s, 'v) slab_ops \<Rightarrow> 's vec_model \<Rightarrow> 'v list result" where
  "im_iter ops m = vm_iter ops m"

definition im_eq :: "('s, 'v) slab_ops \<Rightarrow> ('v \<Rightarrow> 'v \<Rightarrow> bool) \<Rightarrow> 's vec_model \<Rightarrow> 's vec_model \<Rightarrow> bool result" where
  "im_eq ops eq m m' = (if im_len m \<noteq> im_len m' then Inr False
     else eq_loop (Suc (im_len m)) eq (im_get ops m) (im_get ops m') 0 0)"

definition im_eq_slice :: "('s, 'v) slab_ops \<Rightarrow> ('v \<Rightarrow> 'v \<Rightarrow> bool) \<Rightarrow> 's vec_model \<Rightarrow> 'v list \<Rightarrow> bool result" where
  "im_eq_slice ops eq m ys = (if im_len m \<noteq> length ys then Inr False
     else eq_loop (Suc (im_len m)) eq (im_get ops m) (slice_get ys) 0 0)"

definition items_sort :: "('s, 'v :: linorder) slab_ops \<Rightarrow> unstable_sort \<Rightarrow> 's vec_edit" where
  "items_sort ops us = items_sort_by ops us (\<le>)"

definition items_sort_unstable :: "('s, 'v :: linorder) slab_ops \<Rightarrow> unstable_sort \<Rightarrow> 's vec_edit" where
  "items_sort_unstable ops us = items_sort_unstable_by ops us (\<le>)"

subsection \<open>Signals of vectors\<close>

datatype 'v signal_vec = SvChanging nid | SvVec "'v list" | SvSlice "'v list"

datatype 'v signal_vec_reader = SvrChanging nid feed_reader | SvrVec "'v slice_reader" | SvrSlice "'v slice_reader"

type_synonym ('s, 'v, 't) vec_node = "('s vec_model, change_data, 't) feed_node"

definition vec_of_vec :: "'v list \<Rightarrow> 'v signal_vec" where
  "vec_of_vec xs = SvVec xs"

definition vec_of_slice :: "'v list \<Rightarrow> 'v signal_vec" where
  "vec_of_slice xs = SvSlice xs"

definition signal_vec_borrow ::
    "('t, sink_binding) slab_ops \<Rightarrow> (change_data \<Rightarrow> 's vec_model \<Rightarrow> 's vec_model) \<Rightarrow> ('f \<Rightarrow> 's vec_model \<Rightarrow> ('s vec_model \<times> change_data list) result)
       \<Rightarrow> ('w, 's vec_model, 'f) node_env \<Rightarrow> 'v signal_vec \<Rightarrow> sink option \<Rightarrow> ('s, 'v, 't) vec_node \<Rightarrow> 'w
       \<Rightarrow> (('s, 'v) vec_items \<times> sink option \<times> ('s, 'v, 't) vec_node \<times> 'w) result" where
  "signal_vec_borrow ops rel fe env sv ko feed w = (case sv of
     SvChanging this \<Rightarrow> res_bind (feed_borrow ops rel fe env this ko feed w) (\<lambda>(g, ko1, feed1, w1). Inr (from_ref g (fn_storage feed1), ko1, feed1, w1))
   | SvVec xs \<Rightarrow> Inr (from_slice xs False, ko, feed, w)
   | SvSlice xs \<Rightarrow> Inr (from_slice xs False, ko, feed, w))"

definition signal_vec_reader_new :: "'v signal_vec \<Rightarrow> ('s, 'v, 't) vec_node \<Rightarrow> 'v signal_vec_reader" where
  "signal_vec_reader_new sv feed = (case sv of
     SvChanging this \<Rightarrow> SvrChanging this (storage_reader (fn_storage feed))
   | SvVec xs \<Rightarrow> SvrVec (slice_reader_new xs)
   | SvSlice xs \<Rightarrow> SvrSlice (slice_reader_new xs))"

definition signal_vec_read ::
    "('t, sink_binding) slab_ops \<Rightarrow> (change_data \<Rightarrow> 's vec_model \<Rightarrow> 's vec_model) \<Rightarrow> ('f \<Rightarrow> 's vec_model \<Rightarrow> ('s vec_model \<times> change_data list) result)
       \<Rightarrow> ('w, 's vec_model, 'f) node_env \<Rightarrow> 'v signal_vec_reader \<Rightarrow> sink option \<Rightarrow> ('s, 'v, 't) vec_node \<Rightarrow> 'w
       \<Rightarrow> (('s, 'v) vec_items \<times> 'v signal_vec_reader \<times> sink option \<times> ('s, 'v, 't) vec_node \<times> 'w) result" where
  "signal_vec_read ops rel fe env r ko feed w = (case r of
     SvrChanging this fr \<Rightarrow> res_bind (feed_reader_read ops rel fe env this ko fr feed w) (\<lambda>(g, fr1, ko1, feed1, w1).
       Inr (from_ref g (fn_storage feed1), SvrChanging this fr1, ko1, feed1, w1))
   | SvrVec sr \<Rightarrow> (let (it, sr1) = slice_reader_read sr in Inr (it, SvrVec sr1, ko, feed, w))
   | SvrSlice sr \<Rightarrow> (let (it, sr1) = slice_reader_read sr in Inr (it, SvrSlice sr1, ko, feed, w)))"

definition signal_vec_peek ::
    "('t, sink_binding) slab_ops \<Rightarrow> (change_data \<Rightarrow> 's vec_model \<Rightarrow> 's vec_model) \<Rightarrow> ('f \<Rightarrow> 's vec_model \<Rightarrow> ('s vec_model \<times> change_data list) result)
       \<Rightarrow> ('w, 's vec_model, 'f) node_env \<Rightarrow> 'v signal_vec_reader \<Rightarrow> sink option \<Rightarrow> ('s, 'v, 't) vec_node \<Rightarrow> 'w
       \<Rightarrow> (('s, 'v) vec_items \<times> sink option \<times> ('s, 'v, 't) vec_node \<times> 'w) result" where
  "signal_vec_peek ops rel fe env r ko feed w = (case r of
     SvrChanging this fr \<Rightarrow> res_bind (feed_reader_peek ops rel fe env this ko fr feed w) (\<lambda>(g, ko1, feed1, w1).
       Inr (from_ref g (fn_storage feed1), ko1, feed1, w1))
   | SvrVec sr \<Rightarrow> Inr (slice_reader_peek sr, ko, feed, w)
   | SvrSlice sr \<Rightarrow> Inr (slice_reader_peek sr, ko, feed, w))"

subsection \<open>StateVec\<close>

definition state_vec_new :: "('t, sink_binding) slab_ops \<Rightarrow> ('s, 'v) slab_ops \<Rightarrow> ('s, 'v, 't) vec_node" where
  "state_vec_new ops vops = feed_state_new ops (vm_new vops)"

definition to_signal_vec :: "nid \<Rightarrow> 'v signal_vec" where
  "to_signal_vec this = SvChanging this"

definition state_vec_reader :: "nid \<Rightarrow> ('s, 'v, 't) vec_node \<Rightarrow> 'v signal_vec_reader" where
  "state_vec_reader this feed = SvrChanging this (storage_reader (fn_storage feed))"

definition state_vec_borrow ::
    "('t, sink_binding) slab_ops \<Rightarrow> (change_data \<Rightarrow> 's vec_model \<Rightarrow> 's vec_model) \<Rightarrow> ('f \<Rightarrow> 's vec_model \<Rightarrow> ('s vec_model \<times> change_data list) result)
       \<Rightarrow> ('w, 's vec_model, 'f) node_env \<Rightarrow> nid \<Rightarrow> sink option \<Rightarrow> ('s, 'v, 't) vec_node \<Rightarrow> 'w
       \<Rightarrow> (('s, 'v) vec_items \<times> sink option \<times> ('s, 'v, 't) vec_node \<times> 'w) result" where
  "state_vec_borrow ops rel fe env this ko feed w =
     res_bind (feed_borrow ops rel fe env this ko feed w) (\<lambda>(g, ko1, feed1, w1). Inr (from_ref g (fn_storage feed1), ko1, feed1, w1))"

definition state_vec_borrow_mut ::
    "('t, sink_binding) slab_ops \<Rightarrow> (change_data \<Rightarrow> 's vec_model \<Rightarrow> 's vec_model) \<Rightarrow> ('f \<Rightarrow> 's vec_model \<Rightarrow> ('s vec_model \<times> change_data list) result)
       \<Rightarrow> ('w, 's vec_model, 'f) node_env \<Rightarrow> nid \<Rightarrow> 'f list \<Rightarrow> ('s, 'v, 't) vec_node \<Rightarrow> 'w \<Rightarrow> (('s, 'v, 't) vec_node \<times> 'w) result" where
  "state_vec_borrow_mut ops rel fe env this fs feed w = feed_borrow_mut ops rel fe env this fs feed w"

definition state_vec_borrow_mut_loose ::
    "('t, sink_binding) slab_ops \<Rightarrow> (change_data \<Rightarrow> 's vec_model \<Rightarrow> 's vec_model) \<Rightarrow> ('f \<Rightarrow> 's vec_model \<Rightarrow> ('s vec_model \<times> change_data list) result)
       \<Rightarrow> ('w, 's vec_model, 'f) node_env \<Rightarrow> nid \<Rightarrow> 'f list \<Rightarrow> ('s, 'v, 't) vec_node \<Rightarrow> 'w \<Rightarrow> (('s, 'v, 't) vec_node \<times> 'w) result" where
  "state_vec_borrow_mut_loose ops rel fe env this fs feed w = feed_borrow_mut_loose ops rel fe env this fs feed w"

subsection \<open>The contents as a list\<close>

text \<open>\<open>shows\<close>: what a reader of the items gets is the list \<open>xs\<close>. It is how all these operations are understood.\<close>

definition vec_shows :: "('s, 'v) slab_ops \<Rightarrow> ('s, 'v) vec_items \<Rightarrow> 'v list \<Rightarrow> bool" where
  "vec_shows ops it xs \<longleftrightarrow> items_len it = length xs \<and> items_get ops it = slice_get xs"

lemma shows_slice: "vec_shows ops (from_slice xs b) xs"
  by (simp add: vec_shows_def items_len_def items_get_def from_slice_def slice_get_def fun_eq_iff)

lemma shows_ref: "vm_present ops (fd_current st) \<Longrightarrow> vec_shows ops (from_ref g st) (vm_contents ops (fd_current st))"
  by (simp add: vec_shows_def items_len_def items_get_def from_ref_def slice_get_def ref_current_def vm_get_ok vm_len_def fun_eq_iff)

lemma im_get_contents: "vm_present ops m \<Longrightarrow> im_get ops m = slice_get (vm_contents ops m)"
  by (simp add: fun_eq_iff im_get_def slice_get_def vm_get_ok vm_len_def)

lemma im_len_contents: "im_len m = length (vm_contents ops m)"
  by (simp add: im_len_def vm_len_def)

lemma iter_next_slice: "iter_next (slice_get xs) i = Inr (if i < length xs then (Some (xs ! i), Suc i) else (None, i))"
  by (simp add: iter_next_def slice_get_def)

lemma eq_loop_ok:
  "length xs - i < fuel \<Longrightarrow> eq_loop fuel eq (slice_get xs) (slice_get ys) i j = Inr (list_all (\<lambda>(a, b). eq a b) (zip (drop i xs) (drop j ys)))"
proof (induction fuel arbitrary: i j)
  case (Suc fuel)
  show ?case
  proof (cases "i < length xs \<and> j < length ys")
    case True
    then have "zip (drop i xs) (drop j ys) = (xs ! i, ys ! j) # zip (drop (Suc i) xs) (drop (Suc j) ys)" by (simp flip: Cons_nth_drop_Suc)
    moreover have "length xs - Suc i < fuel" using True Suc.prems by linarith
    ultimately show ?thesis using True Suc.IH [of "Suc i" "Suc j"] by (simp add: iter_next_slice)
  qed (auto simp: iter_next_slice)
qed simp

lemma eq_loop_all2:
  "length xs = length ys \<Longrightarrow> eq_loop (Suc (length xs)) eq (slice_get xs) (slice_get ys) 0 0 = Inr (list_all2 eq xs ys)"
  using eq_loop_ok [of xs 0 "Suc (length xs)" eq ys 0] by (simp add: list_all2_iff list_all_iff del: eq_loop.simps)

lemma vec_access_list:
  assumes x: "vec_shows ops x xs"
  shows "items_is_empty x = (xs = [])"
    and "items_index ops x i = (if i < length xs then Inr (xs ! i) else Inl IndexOutOfBounds)"
    and "vec_shows ops y ys \<Longrightarrow> items_eq ops eq x y = Inr (list_all2 eq xs ys)"
    and "items_eq_slice ops eq x zs = Inr (list_all2 eq xs zs)"
  using x eq_loop_all2 [of xs _ eq]
  by (auto simp: vec_shows_def items_is_empty_def items_index_def items_eq_def items_eq_slice_def slice_get_def list_all2_lengthD simp del: eq_loop.simps)

lemma vec_edit_access_list:
  assumes m: "vm_present ops m"
  shows "im_is_empty m = (vm_contents ops m = [])"
    and "im_index ops m i = (if i < im_len m then Inr (vm_contents ops m ! i) else Inl IndexOutOfBounds)"
    and "im_iter ops m = Inr (vm_contents ops m)"
    and "vm_present ops m' \<Longrightarrow> im_eq ops eq m m' = Inr (list_all2 eq (vm_contents ops m) (vm_contents ops m'))"
    and "im_eq_slice ops eq m zs = Inr (list_all2 eq (vm_contents ops m) zs)"
  using m eq_loop_all2 [of "vm_contents ops m" _ eq]
  by (auto simp: im_is_empty_def im_index_def im_iter_def vm_iter_ok im_eq_def im_eq_slice_def im_get_contents im_len_contents [of _ ops] slice_get_def
      list_all2_lengthD simp del: eq_loop.simps length_vm_contents)

end
