(* ===== verification/Vec_Serde.thy ===== *)
theory Vec_Serde
  imports Vec_Access
begin

section \<open>Serialization of vectors (the serde implementations of collections/vec.rs)\<close>

text \<open>
  \<open>serde\<close> is a crate outside the repository: \<open>ser\<close> and \<open>de\<close> are the implementations of the elements, which may fail, \<open>custom\<close> makes an error of a text, and a serializer or
  deserializer of sequences handles the elements one after the other and stops at the first error.
\<close>

fun collect_seq :: "('v \<Rightarrow> 'x + 'o) \<Rightarrow> 'v list \<Rightarrow> 'x + 'o list" where
  "collect_seq ser [] = Inr []"
| "collect_seq ser (v # vs) = (case ser v of Inl e \<Rightarrow> Inl e
     | Inr x \<Rightarrow> (case collect_seq ser vs of Inl e \<Rightarrow> Inl e | Inr xs \<Rightarrow> Inr (x # xs)))"

definition state_vec_serialize ::
    "('s, 'v) slab_ops \<Rightarrow> (string \<Rightarrow> 'x) \<Rightarrow> ('v \<Rightarrow> 'x + 'o) \<Rightarrow> ('s, 'v, 't) vec_node \<Rightarrow> (('x + 'o list) \<times> ('s, 'v, 't) vec_node) result" where
  "state_vec_serialize vops custom ser n = (case feed_contextless n of
     None \<Rightarrow> Inr (Inl (custom ''already mutably borrowed''), n)
   | Some (g, n1) \<Rightarrow>
       res_bind (vm_iter vops (ref_current g (fn_storage n1))) (\<lambda>vs.
       res_bind (ref_drop (release_change vops) (fn_storage n1)) (\<lambda>st. Inr (collect_seq ser vs, n1\<lparr>fn_storage := st\<rparr>))))"

fun visit_seq :: "('s, 'v) slab_ops \<Rightarrow> ('o \<Rightarrow> 'x + 'v) \<Rightarrow> 'o list \<Rightarrow> 's vec_model \<Rightarrow> ('x + 's vec_model) result" where
  "visit_seq vops de [] data = Inr (Inr data)"
| "visit_seq vops de (x # xs) data = (case de x of Inl e \<Rightarrow> Inr (Inl e)
     | Inr v \<Rightarrow> res_bind (push_raw vops v data) (visit_seq vops de xs))"

definition state_vec_deserialize ::
    "('t, sink_binding) slab_ops \<Rightarrow> ('s, 'v) slab_ops \<Rightarrow> ('o \<Rightarrow> 'x + 'v) \<Rightarrow> 'o list \<Rightarrow> ('x + ('s, 'v, 't) vec_node) result" where
  "state_vec_deserialize ops vops de xs = res_bind (visit_seq vops de xs (vm_new vops)) (\<lambda>r. Inr (case r of
     Inl e \<Rightarrow> Inl e
   | Inr data \<Rightarrow> Inr (feed_state_new ops data)))"

lemma visit_seq_decoded: "list_all2 (\<lambda>x v. de x = Inr v) xs vs \<Longrightarrow> visit_seq vops de xs data = res_bind (res_fold (push_raw vops) vs data) (\<lambda>m. Inr (Inr m))"
  by (induction xs vs arbitrary: data rule: list_all2_induct) (auto simp: res_bind_def split: sum.split)

lemma collect_seq_coded:
  assumes "\<And>v x. ser v = Inr x \<Longrightarrow> de x = Inr v"
  shows "collect_seq ser vs = Inr xs \<Longrightarrow> list_all2 (\<lambda>x v. de x = Inr v) xs vs"
  using assms by (induction vs arbitrary: xs) (auto split: sum.splits)

text \<open>
  What was written can be read again: if the elements survive their own serialization, so does the whole vector, with the same contents in the same order. A vector that is being edited is
  not written.
\<close>

lemma state_vec_serde_roundtrip:
  assumes laws: "slab_laws vops" "unstable_sort_laws us" and pres: "vm_present vops (fd_current (fn_storage n))"
    and elems: "\<And>v x. ser v = Inr x \<Longrightarrow> de x = Inr v" and out: "state_vec_serialize vops custom ser n = Inr (Inr xs, n')"
  shows "\<exists>n2. state_vec_deserialize ops vops de xs = Inr (Inr n2)
    \<and> vm_contents vops (fd_current (fn_storage n2)) = vm_contents vops (fd_current (fn_storage n))"
    and "\<not> fd_excl (fn_storage n)"
proof -
  obtain g n1 where g: "feed_contextless n = Some (g, n1)" "fd_current (fn_storage n1) = fd_current (fn_storage n)" "\<not> fd_excl (fn_storage n)"
    using out by (cases "fd_excl (fn_storage n)") (simp_all add: state_vec_serialize_def feed_contextless_def try_borrow_current_def)
  have coll: "collect_seq ser (vm_contents vops (fd_current (fn_storage n))) = Inr xs"
    using out g(1,2) vm_iter_ok [OF pres] by (auto simp: state_vec_serialize_def ref_current_def res_bind_eq_Inr)
  have c: "list_all2 (\<lambda>x v. de x = Inr v) xs (vm_contents vops (fd_current (fn_storage n)))"
    by (rule collect_seq_coded [OF _ coll]) (rule elems)
  obtain m where m: "res_fold (push_raw vops) (vm_contents vops (fd_current (fn_storage n))) (vm_new vops) = Inr m"
    "vm_contents vops m = vm_contents vops (fd_current (fn_storage n))"
    using from_iter_ok [OF laws, of "vm_contents vops (fd_current (fn_storage n))"] by (auto simp: from_iter_def)
  then show "\<exists>n2. state_vec_deserialize ops vops de xs = Inr (Inr n2)
    \<and> vm_contents vops (fd_current (fn_storage n2)) = vm_contents vops (fd_current (fn_storage n))"
    by (simp add: state_vec_deserialize_def visit_seq_decoded [OF c] feed_state_new_def feed_new_def)
  show "\<not> fd_excl (fn_storage n)" by (rule g(3))
qed

end
