(* ===== verification/Slab_Map_Model.thy ===== *)
theory Slab_Map_Model
  imports Retained_Keys Feed_Client
begin

section \<open>Observable slab maps (collections/slab_map.rs)\<close>

text \<open>
  \<open>SlabMapModel\<close> keeps every item in a slab map with a flag \<open>is_exists\<close>; removing an item clears the flag, and the
  entry itself goes when no reader can see the removal any more. \<open>ItemsMut\<close> collects the changes of an
  edit in \<open>pending_changes\<close>, which \<open>record_pending\<close> moves to the log. The slab map is the parameter \<open>ops\<close>.
\<close>

subsection \<open>The model\<close>

record 'v item =
  it_value :: 'v
  is_exists :: bool

datatype sm_change = SmInsert nat | SmRemove nat

datatype 'v slab_change = ScInsert nat 'v | ScRemove nat 'v

record 's slab_items =
  si_items :: 's
  si_len :: nat
  si_pending :: "sm_change list"

definition si_new :: "('s, 'v item) slab_ops \<Rightarrow> 's slab_items" where
  "si_new ops = \<lparr>si_items = slab_new ops, si_len = 0, si_pending = []\<rparr>"

definition take_changes :: "'s slab_items \<Rightarrow> sm_change list \<times> 's slab_items" where
  "take_changes m = (si_pending m, m\<lparr>si_pending := []\<rparr>)"

definition si_get :: "('s, 'v item) slab_ops \<Rightarrow> 's slab_items \<Rightarrow> nat \<Rightarrow> 'v option" where
  "si_get ops m k = (case slab_get ops (si_items m) k of None \<Rightarrow> None
     | Some item \<Rightarrow> if is_exists item then Some (it_value item) else None)"

definition si_insert :: "('s, 'v item) slab_ops \<Rightarrow> 'v \<Rightarrow> 's slab_items \<Rightarrow> nat \<times> 's slab_items" where
  "si_insert ops v m =
     (let (key, s) = slab_insert ops (si_items m) \<lparr>it_value = v, is_exists = True\<rparr>
      in (key, \<lparr>si_items = s, si_len = si_len m + 1, si_pending = si_pending m @ [SmInsert key]\<rparr>))"

definition si_remove :: "('s, 'v item) slab_ops \<Rightarrow> nat \<Rightarrow> 's slab_items \<Rightarrow> 's slab_items result" where
  "si_remove ops key m =
     res_bind (res_of_option InvalidKey (slab_get ops (si_items m) key)) (\<lambda>item.
     res_bind (res_assert AssertFailed (is_exists item)) (\<lambda>_.
     if si_len m = 0 then Inl ArithOverflow
     else Inr \<lparr>si_items = slab_put ops (si_items m) key (item\<lparr>is_exists := False\<rparr>), si_len = si_len m - 1,
               si_pending = si_pending m @ [SmRemove key]\<rparr>))"

definition si_index :: "('s, 'v item) slab_ops \<Rightarrow> 's slab_items \<Rightarrow> nat \<Rightarrow> 'v result" where
  "si_index ops m k = res_of_option IndexOutOfBounds (si_get ops m k)"

definition sm_release :: "('s, 'v item) slab_ops \<Rightarrow> sm_change \<Rightarrow> 's slab_items \<Rightarrow> 's slab_items" where
  "sm_release ops c m = (case c of SmInsert _ \<Rightarrow> m | SmRemove k \<Rightarrow> m\<lparr>si_items := slab_remove ops (si_items m) k\<rparr>)"

definition sm_key :: "sm_change \<Rightarrow> nat" where
  "sm_key c = (case c of SmInsert k \<Rightarrow> k | SmRemove k \<Rightarrow> k)"

text \<open>\<open>record_pending_into\<close>, on an edit: its keys are appended to those collected before.\<close>

definition record_pending_into :: "feed_edit \<times> ('s slab_items, sm_change) feed \<Rightarrow> nat list \<Rightarrow> (feed_edit \<times> ('s slab_items, sm_change) feed) \<times> nat list" where
  "record_pending_into = (\<lambda>(e, st) keys.
     let (cs, m) = take_changes (fd_current st)
     in (fold edit_record cs (e, edit_current_mut (\<lambda>_. m) st), keys @ map sm_key cs))"

definition record_pending :: "feed_edit \<times> ('s slab_items, sm_change) feed \<Rightarrow> (feed_edit \<times> ('s slab_items, sm_change) feed) \<times> nat list" where
  "record_pending es = record_pending_into es []"

text \<open>\<open>Iter\<close> skips the entries that are only waiting for a reader.\<close>

fun si_next :: "('s, 'v item) slab_ops \<Rightarrow> 's \<Rightarrow> nat list \<Rightarrow> ((nat \<times> 'v) \<times> nat list) option" where
  "si_next ops s [] = None"
| "si_next ops s (k # ks) = (case slab_get ops s k of
       Some item \<Rightarrow> if is_exists item then Some ((k, it_value item), ks) else si_next ops s ks
     | None \<Rightarrow> si_next ops s ks)"

lemma si_next_shorter: "si_next ops s ks = Some (x, ks') \<Longrightarrow> length ks' < length ks"
  by (induction ks) (fastforce split: option.splits if_splits)+

function si_iter :: "('s, 'v item) slab_ops \<Rightarrow> 's \<Rightarrow> nat list \<Rightarrow> (nat \<times> 'v) list" where
  "si_iter ops s ks = (case si_next ops s ks of None \<Rightarrow> [] | Some (x, ks') \<Rightarrow> x # si_iter ops s ks')"
  by pat_completeness auto

termination
  by (relation "measure (\<lambda>(ops, s, ks). length ks)") (auto dest: si_next_shorter)

declare si_iter.simps [simp del]

subsection \<open>Editing and reading\<close>

datatype 'v slab_edit = SlabInsert 'v | SlabRemove nat

fun slab_edit_one :: "('s, 'v item) slab_ops \<Rightarrow> 'v slab_edit \<Rightarrow> 's slab_items \<Rightarrow> 's slab_items result" where
  "slab_edit_one ops (SlabInsert v) m = Inr (snd (si_insert ops v m))"
| "slab_edit_one ops (SlabRemove k) m = si_remove ops k m"

text \<open>
  What an edit does between \<open>begin_edit\<close> and its drop: \<open>ItemsMut\<close> operations, then \<open>record_pending\<close>. A
  \<open>StateSlabMap\<close> edit is one operation, a scan any number of them.
\<close>

definition slab_edits :: "('s, 'v item) slab_ops \<Rightarrow> 'v slab_edit list \<Rightarrow> 's slab_items \<Rightarrow> ('s slab_items \<times> sm_change list) result" where
  "slab_edits ops es m = res_bind (res_fold (slab_edit_one ops) es m) (\<lambda>m1. let (cs, m2) = take_changes m1 in Inr (m2, cs))"

definition to_slab_change :: "('s, 'v item) slab_ops \<Rightarrow> 's \<Rightarrow> sm_change \<Rightarrow> 'v slab_change result" where
  "to_slab_change ops s c =
     res_bind (res_of_option InvalidKey (slab_get ops s (sm_key c))) (\<lambda>item.
       Inr (case c of SmInsert k \<Rightarrow> ScInsert k (it_value item) | SmRemove k \<Rightarrow> ScRemove k (it_value item)))"

definition slab_items_len :: "feed_ref \<Rightarrow> ('s slab_items, sm_change) feed \<Rightarrow> nat" where
  "slab_items_len g st = si_len (ref_current g st)"

definition slab_items_delta :: "('s, 'v item) slab_ops \<Rightarrow> feed_ref \<Rightarrow> ('s slab_items, sm_change) feed \<Rightarrow> 'v slab_change list result" where
  "slab_items_delta ops g st =
     (let m = ref_current g st
      in res_bind (ref_delta g st) (\<lambda>d. case d of
           DeltaInitial \<Rightarrow> Inr (map (\<lambda>(k, v). ScInsert k v) (si_iter ops (si_items m) (slab_keys ops (si_items m))))
         | DeltaIncremental cs \<Rightarrow> res_map (to_slab_change ops (si_items m)) cs))"

subsection \<open>Slots\<close>

definition slot_items :: nat where
  "slot_items = 2 ^ 64 - 1"

definition key_to_slot :: "nat \<Rightarrow> nat result" where
  "key_to_slot key = res_bind (res_assert AssertFailed (key \<noteq> 2 ^ 64 - 1)) (\<lambda>_. Inr key)"

lemma key_to_slot_code [code]: "key_to_slot key = (if int key = 18446744073709551615 then Inl AssertFailed else Inr key)"
  by (simp add: key_to_slot_def res_assert_def)

definition slot_to_key :: "nat \<Rightarrow> nat option" where
  "slot_to_key slot = (if slot = slot_items then None else Some slot)"

lemma slot_to_key_code [code]: "slot_to_key slot = (if int slot = 18446744073709551615 then None else Some slot)"
  by (simp add: slot_to_key_def slot_items_def)

end
