(* ===== verification/Feed_Reads.thy ===== *)
theory Feed_Reads
  imports Feed_Client
begin

section \<open>What the readers of a feed see\<close>

text \<open>
  \<open>reads_ok\<close> follows a run of a client: every read yields the current value and its delta passes the check \<open>ok\<close>,
  which is told what that reader saw last. Unlike \<open>spec_client\<close> it needs no deterministic specification of the edits: \<open>feed_reads_ok\<close>, in
  the locale \<open>feed_ops\<close>, holds for every run, and the only panic such a run can end with is one of an edit's own operations.
\<close>

fun reads_ok :: "('m \<Rightarrow> 'x) \<Rightarrow> ('c feed_delta \<Rightarrow> 'm \<Rightarrow> 'x option \<Rightarrow> bool) \<Rightarrow> 'f feed_op list \<Rightarrow> ('c, 'm) feed_out list \<Rightarrow> 'x option option list \<Rightarrow> bool" where
  "reads_ok view ok [] outs seen \<longleftrightarrow> outs = []"
| "reads_ok view ok (ReaderNew # ops) outs seen \<longleftrightarrow> (case outs of OutNone # outs' \<Rightarrow> reads_ok view ok ops outs' (seen @ [Some None]) | _ \<Rightarrow> False)"
| "reads_ok view ok (ReaderRead i # ops) outs seen \<longleftrightarrow> (case live seen i of
       None \<Rightarrow> (case outs of OutNone # outs' \<Rightarrow> reads_ok view ok ops outs' seen | _ \<Rightarrow> False)
     | Some s \<Rightarrow> (case outs of OutRead d m # outs' \<Rightarrow> ok d m s \<and> reads_ok view ok ops outs' (seen[i := Some (Some (view m))]) | _ \<Rightarrow> False))"
| "reads_ok view ok (ReaderClone i # ops) outs seen \<longleftrightarrow> (case outs of OutNone # outs' \<Rightarrow>
       reads_ok view ok ops outs' (case live seen i of None \<Rightarrow> seen | Some s \<Rightarrow> seen @ [Some s]) | _ \<Rightarrow> False)"
| "reads_ok view ok (ReaderDrop i # ops) outs seen \<longleftrightarrow> (case outs of OutNone # outs' \<Rightarrow>
       reads_ok view ok ops outs' (case live seen i of None \<Rightarrow> seen | Some s \<Rightarrow> seen[i := None]) | _ \<Rightarrow> False)"
| "reads_ok view ok (EditWith fin es # ops) outs seen \<longleftrightarrow> (case outs of OutEdit _ # outs' \<Rightarrow> reads_ok view ok ops outs' seen | _ \<Rightarrow> False)"

lemma reads_ok_mono:
  "reads_ok view ok ops outs seen \<Longrightarrow> (\<And>d m s. ok d m s \<Longrightarrow> ok' d m s) \<Longrightarrow> reads_ok view ok' ops outs seen"
  by (induction view ok ops outs seen rule: reads_ok.induct) (auto split: option.splits list.splits feed_out.splits)

text \<open>The delta of a read replays to the current value.\<close>

definition replays :: "('m \<Rightarrow> 'x) \<Rightarrow> ('m \<Rightarrow> 'c \<Rightarrow> 'x \<Rightarrow> 'x) \<Rightarrow> 'c feed_delta \<Rightarrow> 'm \<Rightarrow> 'x option \<Rightarrow> bool" where
  "replays view replay d m s \<longleftrightarrow> (case d of DeltaInitial \<Rightarrow> s = None
     | DeltaIncremental cs \<Rightarrow> (case s of None \<Rightarrow> False | Some x \<Rightarrow> fold (replay m) cs x = view m))"

text \<open>No live reader has read.\<close>

definition no_cursors :: "feed_reader option list \<Rightarrow> bool" where
  "no_cursors rs \<longleftrightarrow> list_all (\<lambda>h. case h of Some r \<Rightarrow> rd_cursor r = None | None \<Rightarrow> True) rs"

lemma no_cursors_seen: "list_all2 handle_ok rs qs \<Longrightarrow> no_cursors rs \<Longrightarrow> unread (map (map_option (map_option snd)) qs)"
  by (induction rule: list_all2_induct) (auto simp: no_cursors_def unread_def handle_ok_def split: option.splits)

definition edit_panics :: "('f \<Rightarrow> 'm \<Rightarrow> ('m \<times> 'c list) result) \<Rightarrow> ('m \<Rightarrow> bool) \<Rightarrow> 'f feed_op list \<Rightarrow> panic \<Rightarrow> bool" where
  "edit_panics fe good ops e \<longleftrightarrow> (\<exists>fin es m. EditWith fin es \<in> set ops \<and> good m \<and> edit_trace (map fe es) m = Inl e)"

fun op_cost :: "('f \<Rightarrow> nat) \<Rightarrow> 'f feed_op \<Rightarrow> nat" where
  "op_cost cost (EditWith fin es) = sum_list (map cost es)"
| "op_cost cost _ = 0"

locale feed_ops = feed_model release own view replay edit
  for release :: "'c \<Rightarrow> 'm \<Rightarrow> 'm" and own and view :: "'m \<Rightarrow> 'x" and replay and edit +
  fixes fe :: "'f \<Rightarrow> 'm \<Rightarrow> ('m \<times> 'c list) result" and cost :: "'f \<Rightarrow> nat"
  assumes op_edit: "fe f m = Inr (m', ds) \<Longrightarrow> edit m ds m'"
    and op_bound: "fe f m = Inr (m', ds) \<Longrightarrow> own m cs \<Longrightarrow> length ds \<le> cost f"
begin

lemma trace_bound:
  assumes "edit_trace (map fe es) m = Inr (m', ds)" and "own m cs"
  shows "length ds \<le> sum_list (map cost es)"
  using assms
proof (induction es arbitrary: m ds cs)
  case (Cons f es)
  obtain m1 ds1 ds2 where h: "fe f m = Inr (m1, ds1)" "edit_trace (map fe es) m1 = Inr (m', ds2)" "ds = ds1 @ ds2"
    using Cons.prems(1) by (auto simp: res_bind_eq_Inr)
  have "own m1 (cs @ ds1)" by (rule edit_own [OF Cons.prems(2) op_edit [OF h(1)]])
  from Cons.IH [OF h(2) this] op_bound [OF h(1) Cons.prems(2)] h(3) show ?case by simp
qed simp

lemma client_edit_any:
  assumes inv: "client_inv own view replay st rs log qs" and room: "length qs + 2 < 2 ^ 64" "length log + op_cost cost (EditWith fin es) < 2 ^ 64"
  shows "(\<exists>m cs e. own m cs \<and> edit_trace (map fe es) m = Inl e \<and> feed_client release fe (EditWith fin es) (st, rs) = Inl e)
    \<or> (\<exists>fin' st' ds. feed_client release fe (EditWith fin es) (st, rs) = Inr (OutEdit fin', st', rs)
         \<and> client_inv own view replay st' rs (log @ ds) qs \<and> length ds \<le> op_cost cost (EditWith fin es))"
proof -
  have f: "feed_inv own view replay st log (all_seen qs) {#}" using inv by (simp add: client_inv_def)
  have small: "size (all_seen qs) + length (decrement_ages (fd_ops st)) < 2 ^ 64" using client_inv_room [OF inv room(1)] by simp
  have li: "length (log_items (fd_changes st)) \<le> length log" by (rule log_items_le [OF f])
  have shared: "fd_shared st = 0" using client_inv_shared [OF inv] by blast
  obtain st1 where st1: "feed_compact release st = Inr st1" "feed_inv own view replay st1 log (all_seen qs) {#}" "fd_shared st1 = 0"
    using compact_ok [OF f small] shared by auto
  then obtain cs where own1: "\<not> fd_excl st1" "own (fd_current st1) cs" by (auto simp: feed_inv_def feed_sound_def)
  show ?thesis
  proof (cases "edit_trace (map fe es) (fd_current st1)")
    case (Inl e)
    then have "edit_trace (map fe es) (fd_current (st1\<lparr>fd_excl := True\<rparr>)) = Inl e" by simp
    from edit_trace_fails [OF this] have "feed_edit_run release fin (map fe es) st = Inl e"
      using st1(1,3) own1(1) by (simp add: feed_edit_run_def begin_edit_def with_finish_def)
    then show ?thesis using Inl own1(2) by auto
  next
    case (Inr r)
    obtain m' ds where r: "edit_trace (map fe es) (fd_current st1) = Inr (m', ds)" using Inr by (cases r) auto
    have bound: "length ds \<le> op_cost cost (EditWith fin es)" using trace_bound [OF r own1(2)] by simp
    have ed: "\<forall>f \<in> set (map fe es). \<forall>m m' ds. f m = Inr (m', ds) \<longrightarrow> edit m ds m'" using op_edit by auto
    have run: "\<exists>m' ds. edit_trace (map fe es) m = Inr (m', ds) \<and> length (log_items (fd_changes st)) + length ds < 2 ^ 64"
      if "feed_compact release st = Inr st2" "m = fd_current st2" for m st2
      using that st1(1) r li bound room(2) by (intro exI [of _ m'] exI [of _ ds]) simp
    have "\<exists>st1 m m' ds st' cs. feed_compact release st = Inr st1 \<and> m = fd_current st1 \<and> view m = view (fd_current st) \<and> own m cs \<and> edit_trace (map fe es) m = Inr (m', ds)
      \<and> feed_edit_run release fin (map fe es) st = Inr (if ds = [] then FinishNone else fin, st')
      \<and> feed_inv own view replay st' (log @ ds) (all_seen qs) {#} \<and> view (fd_current st') = view m' \<and> compacted st'"
      by (rule feed_edit_ok [OF f shared small ed]) (rule run; assumption)
    then obtain m2 cs2 m2' ds2 st' where e: "own m2 cs2" "edit_trace (map fe es) m2 = Inr (m2', ds2)"
      "feed_edit_run release fin (map fe es) st = Inr (if ds2 = [] then FinishNone else fin, st')"
      "feed_inv own view replay st' (log @ ds2) (all_seen qs) {#}" "compacted st'" by blast
    have "client_inv own view replay st' rs (log @ ds2) qs" using inv e(4,5) by (simp add: client_inv_def)
    moreover have "length ds2 \<le> op_cost cost (EditWith fin es)" using trace_bound [OF e(2,1)] by simp
    ultimately show ?thesis using e(3) by auto
  qed
qed

text \<open>Every run: it returns with correct reads, or an edit's own operation panicked.\<close>

lemma feed_reads_ok:
  assumes "client_inv own view replay st rs log qs" and "length qs + length ops + 2 < 2 ^ 64"
    and "length log + sum_list (map (op_cost cost) ops) < 2 ^ 64"
  shows "case feed_run release fe ops (st, rs) of
      Inl e \<Rightarrow> edit_panics fe (\<lambda>m. \<exists>cs. own m cs) ops e
    | Inr (outs, st', rs') \<Rightarrow> reads_ok view (replays view replay) ops outs (map (map_option (map_option snd)) qs)
        \<and> (\<exists>log' qs'. client_inv own view replay st' rs' log' qs')"
  using assms
proof (induction ops arbitrary: st rs log qs)
  case Nil
  then show ?case by auto
next
  case (Cons op ops)
  let ?seen = "map (map_option (map_option snd))"
  let ?goal = "\<lambda>ops r qs. case r of Inl e \<Rightarrow> edit_panics fe (\<lambda>m. \<exists>cs. own m cs) ops e
    | Inr (outs, st', rs') \<Rightarrow> reads_ok view (replays view replay) ops outs (?seen qs) \<and> (\<exists>log' qs'. client_inv own view replay st' rs' log' qs')"
  have room: "length qs + 2 < 2 ^ 64" "length log + op_cost cost op < 2 ^ 64" using Cons.prems(2,3) by simp_all
  have later: ?case if step: "feed_client release fe op (st, rs) = Inr (out, st1, rs1)"
    and inv1: "client_inv own view replay st1 rs1 (log @ ds) qs1" and len: "length qs1 \<le> Suc (length qs)" "length ds \<le> op_cost cost op"
    and head: "\<And>outs. reads_ok view (replays view replay) ops outs (?seen qs1) \<Longrightarrow> reads_ok view (replays view replay) (op # ops) (out # outs) (?seen qs)" for out st1 rs1 ds qs1
  proof -
    have "?goal ops (feed_run release fe ops (st1, rs1)) qs1"
      by (rule Cons.IH [OF inv1]) (use Cons.prems(2,3) len in simp_all)
    then show ?thesis using step head
      by (cases "feed_run release fe ops (st1, rs1)") (auto 0 4 simp: edit_panics_def simp del: feed_client.simps)
  qed
  have skip: ?case if "feed_client release fe op (st, rs) = Inr (OutNone, st, rs)"
    and "\<And>outs. reads_ok view (replays view replay) ops outs (?seen qs) \<Longrightarrow> reads_ok view (replays view replay) (op # ops) (OutNone # outs) (?seen qs)"
  proof (rule later)
    show "client_inv own view replay st rs (log @ []) qs" using Cons.prems(1) by simp
  qed (use that in simp_all)
  show ?case
  proof (cases op)
    case ReaderNew
    have step: "feed_client release fe op (st, rs) = Inr (OutNone, st, rs @ [Some (storage_reader st)])" using ReaderNew by simp
    show ?thesis
    proof (rule later [OF step])
      show "client_inv own view replay st (rs @ [Some (storage_reader st)]) (log @ []) (qs @ [Some None])" using client_new_ok [OF Cons.prems(1)] by simp
    qed (use ReaderNew in simp_all)
  next
    case (ReaderRead i)
    show ?thesis
    proof (cases "live rs i")
      case None
      then have "live qs i = None" using client_live [OF Cons.prems(1)] by simp
      then show ?thesis using None ReaderRead by (intro skip) (simp_all add: live_map)
    next
      case (Some r)
      from client_read_ok [OF Cons.prems(1) room(1) Some, of fe] obtain d m st' rs' px where
        s: "feed_client release fe (ReaderRead i) (st, rs) = Inr (OutRead d m, st', rs')" "qs ! i = Some px" "i < length qs"
        "client_inv own view replay st' rs' log (qs[i := Some (Some (length log, view (fd_current st)))])" "view m = view (fd_current st)"
        "case px of None \<Rightarrow> d = DeltaInitial | Some q \<Rightarrow> \<exists>cs. d = DeltaIncremental cs \<and> fold (replay m) cs (snd q) = view m" by blast
      show ?thesis
      proof (rule later)
        show "client_inv own view replay st' rs' (log @ []) (qs[i := Some (Some (length log, view (fd_current st)))])" using s(4) by simp
      qed (use s ReaderRead in \<open>auto simp: live_map live_def map_update replays_def simp del: feed_client.simps split: option.splits\<close>)
    qed
  next
    case (ReaderClone i)
    show ?thesis
    proof (cases "live rs i")
      case None
      then have "live qs i = None" using client_live [OF Cons.prems(1)] by simp
      then show ?thesis using None ReaderClone by (intro skip) (simp_all add: live_map)
    next
      case (Some r)
      from client_clone_ok [OF Cons.prems(1) room(1) Some, of fe] obtain st' rs' px where
        s: "feed_client release fe (ReaderClone i) (st, rs) = Inr (OutNone, st', rs')" "qs ! i = Some px" "i < length qs"
        "client_inv own view replay st' rs' log (qs @ [Some px])" by blast
      show ?thesis
      proof (rule later)
        show "client_inv own view replay st' rs' (log @ []) (qs @ [Some px])" using s(4) by simp
      qed (use s ReaderClone in \<open>auto simp: live_map live_def simp del: feed_client.simps\<close>)
    qed
  next
    case (ReaderDrop i)
    show ?thesis
    proof (cases "live rs i")
      case None
      then have "live qs i = None" using client_live [OF Cons.prems(1)] by simp
      then show ?thesis using None ReaderDrop by (intro skip) (simp_all add: live_map)
    next
      case (Some r)
      obtain px where q: "qs ! i = Some px" "i < length qs" using client_reader_at [OF Cons.prems(1) Some] by blast
      from client_drop_ok [OF Cons.prems(1) room(1) Some, of fe] obtain st' rs' where
        s: "feed_client release fe (ReaderDrop i) (st, rs) = Inr (OutNone, st', rs')"
        "client_inv own view replay st' rs' log (qs[i := None])" by blast
      show ?thesis
      proof (rule later)
        show "client_inv own view replay st' rs' (log @ []) (qs[i := None])" using s(2) by simp
      qed (use s q ReaderDrop in \<open>auto simp: live_map live_def map_update simp del: feed_client.simps\<close>)
    qed
  next
    case (EditWith fin es)
    from client_edit_any [OF Cons.prems(1) room(1), of fin es] room(2) EditWith
    consider (panic) m cs e where "own m cs" "edit_trace (map fe es) m = Inl e" "feed_client release fe (EditWith fin es) (st, rs) = Inl e"
      | (ok) fin' st' ds where "feed_client release fe (EditWith fin es) (st, rs) = Inr (OutEdit fin', st', rs)"
         "client_inv own view replay st' rs (log @ ds) qs" "length ds \<le> op_cost cost (EditWith fin es)" by auto
    then show ?thesis
    proof cases
      case panic
      then show ?thesis using EditWith by (auto simp: edit_panics_def simp del: feed_client.simps)
    next
      case ok
      have step: "feed_client release fe op (st, rs) = Inr (OutEdit fin', st', rs)" using ok(1) EditWith by simp
      show ?thesis by (rule later [OF step ok(2)]) (use ok EditWith in \<open>simp_all del: feed_client.simps\<close>)
    qed
  qed
qed

end

end
