(* ===== verification/Slab_Map_Spec.thy ===== *)
theory Slab_Map_Spec
  imports Slab_Map_Model Feed_Reads
begin

section \<open>Correctness of observable slab maps\<close>

text \<open>
  The value of a slab map is the partial map of its existing items. \<open>slab_replay\<close> is what a mirror does with a change; it
  fails unless an inserted key is new and a removed key holds the reported value. The specification leaves the choice
  of the key of a new item open, so the abstract edits are a relation, and the contract of change feeds
  is interpreted on the model with the edits' results as they come.
\<close>

definition slab_value :: "('s, 'v item) slab_ops \<Rightarrow> 's slab_items \<Rightarrow> nat \<rightharpoonup> 'v" where
  "slab_value ops m = si_get ops m"

definition live_keys :: "('s, 'v item) slab_ops \<Rightarrow> 's slab_items \<Rightarrow> nat set" where
  "live_keys ops m = dom (si_get ops m)"

fun sm_new_keys :: "sm_change \<Rightarrow> nat set" where
  "sm_new_keys (SmInsert k) = {k}"
| "sm_new_keys (SmRemove k) = {}"

fun sm_old_keys :: "sm_change \<Rightarrow> nat set" where
  "sm_old_keys (SmInsert k) = {}"
| "sm_old_keys (SmRemove k) = {k}"

fun apply_slab_change :: "'v slab_change \<Rightarrow> (nat \<rightharpoonup> 'v) \<Rightarrow> (nat \<rightharpoonup> 'v) option" where
  "apply_slab_change (ScInsert k v) x = (if x k = None then Some (x(k \<mapsto> v)) else None)"
| "apply_slab_change (ScRemove k v) x = (if x k = Some v then Some (x(k := None)) else None)"

definition apply_slab_delta :: "'v slab_change list \<Rightarrow> (nat \<rightharpoonup> 'v) \<Rightarrow> (nat \<rightharpoonup> 'v) option" where
  "apply_slab_delta cs x = fold (\<lambda>c x. Option.bind x (apply_slab_change c)) cs (Some x)"

definition slab_replay :: "('s, 'v item) slab_ops \<Rightarrow> 's slab_items \<Rightarrow> sm_change \<Rightarrow> (nat \<rightharpoonup> 'v) option \<Rightarrow> (nat \<rightharpoonup> 'v) option" where
  "slab_replay ops m c x = (case to_slab_change ops (si_items m) c of Inl _ \<Rightarrow> None | Inr d \<Rightarrow> Option.bind x (apply_slab_change d))"

text \<open>The storage invariant, also while changes are pending: they count as retained.\<close>

definition slab_inv :: "('s, 'v item) slab_ops \<Rightarrow> 's slab_items \<Rightarrow> sm_change list \<Rightarrow> bool" where
  "slab_inv ops m cs \<longleftrightarrow> slab_laws ops \<and> si_len m = card (live_keys ops m)
     \<and> keys_inv sm_new_keys sm_old_keys cs (live_keys ops m) (dom (slab_get ops (si_items m)))"

definition slab_own :: "('s, 'v item) slab_ops \<Rightarrow> 's slab_items \<Rightarrow> sm_change list \<Rightarrow> bool" where
  "slab_own ops m cs \<longleftrightarrow> slab_inv ops m cs \<and> si_pending m = []"

lemma si_get_cong: "si_items m = si_items m' \<Longrightarrow> si_get ops m = si_get ops m'"
  by (simp add: si_get_def fun_eq_iff)

lemma slab_own_new: "slab_laws ops \<Longrightarrow> slab_own ops (si_new ops) []"
  by (simp add: slab_own_def slab_inv_def si_new_def live_keys_def si_get_def slab_get_new dom_def keys_inv_Nil)

lemma live_finite: "slab_laws ops \<Longrightarrow> finite (live_keys ops m)"
  by (rule finite_subset [OF _ slab_finite [of ops "si_items m"]]) (auto simp: live_keys_def si_get_def split: option.splits)

lemma slab_replay_None [simp]: "fold (slab_replay ops m) cs None = None"
  by (induction cs) (simp_all add: slab_replay_def split: sum.split)

lemma slab_replay_delta:
  assumes "fold (slab_replay ops m) cs (Some x) = Some y"
  shows "\<exists>ds. res_map (to_slab_change ops (si_items m)) cs = Inr ds \<and> apply_slab_delta ds x = Some y"
  using assms
proof (induction cs arbitrary: x)
  case Nil
  then show ?case by (simp add: apply_slab_delta_def)
next
  case (Cons c cs)
  obtain z where z: "slab_replay ops m c (Some x) = Some z" using Cons.prems by (cases "slab_replay ops m c (Some x)") auto
  then obtain d where d: "to_slab_change ops (si_items m) c = Inr d" "apply_slab_change d x = Some z"
    by (auto simp: slab_replay_def split: sum.splits)
  have "fold (slab_replay ops m) cs (Some z) = Some y" using Cons.prems z by simp
  from Cons.IH [OF this] d show ?case by (auto simp: apply_slab_delta_def)
qed

text \<open>A value in the storage stays readable, whether the item still exists or not.\<close>

definition values_kept :: "('s, 'v item) slab_ops \<Rightarrow> 's slab_items \<Rightarrow> 's slab_items \<Rightarrow> bool" where
  "values_kept ops m m' \<longleftrightarrow> (\<forall>k i. slab_get ops (si_items m) k = Some i \<longrightarrow> (\<exists>j. slab_get ops (si_items m') k = Some j \<and> it_value j = it_value i))"

lemma values_kept_refl: "values_kept ops m m"
  by (simp add: values_kept_def)

lemma values_kept_trans: "values_kept ops m m1 \<Longrightarrow> values_kept ops m1 m2 \<Longrightarrow> values_kept ops m m2"
  unfolding values_kept_def by metis

lemma replay_kept:
  assumes "values_kept ops m m'" and "slab_get ops (si_items m) (sm_key c) = Some i"
  shows "slab_replay ops m' c x = slab_replay ops m c x"
proof -
  obtain j where "slab_get ops (si_items m') (sm_key c) = Some j" "it_value j = it_value i" using assms unfolding values_kept_def by blast
  then show ?thesis using assms(2) by (cases c) (simp_all add: slab_replay_def to_slab_change_def)
qed

lemma sm_release_ok:
  assumes o: "slab_own ops m (c # cs)"
  shows "slab_own ops (sm_release ops c m) cs" and "slab_value ops (sm_release ops c m) = slab_value ops m"
    and "d \<in> set cs \<Longrightarrow> slab_replay ops (sm_release ops c m) d x = slab_replay ops m d x"
proof -
  let ?m = "sm_release ops c m"
  have laws: "slab_laws ops" and keys: "keys_inv sm_new_keys sm_old_keys (c # cs) (live_keys ops m) (dom (slab_get ops (si_items m)))"
    using o by (simp_all add: slab_own_def slab_inv_def)
  have eq: "slab_get ops (si_items ?m) k = (if k \<in> sm_old_keys c then None else slab_get ops (si_items m) k)" for k
    by (cases c) (simp_all add: sm_release_def slab_get_remove [OF laws])
  have same: "si_len ?m = si_len m" "si_pending ?m = si_pending m" by (simp_all add: sm_release_def split: sm_change.split)
  have dom: "dom (slab_get ops (si_items ?m)) = dom (slab_get ops (si_items m)) - sm_old_keys c" by (auto simp: eq split: if_splits)
  have "si_get ops ?m k = si_get ops m k" for k
  proof (cases "k \<in> live_keys ops m")
    case True
    then show ?thesis using keys_inv_retired [OF keys, of k] by (simp add: si_get_def eq)
  next
    case False
    then show ?thesis by (auto simp: live_keys_def si_get_def eq dom_def split: option.splits if_splits)
  qed
  then have get: "si_get ops ?m = si_get ops m" ..
  then show "slab_value ops ?m = slab_value ops m" by (simp add: slab_value_def)
  have live: "live_keys ops ?m = live_keys ops m" by (simp add: live_keys_def get)
  show "slab_own ops ?m cs" using o keys_inv_release [OF keys] by (simp add: slab_own_def slab_inv_def live dom same)
  assume d: "d \<in> set cs"
  have "sm_key d \<in> touched sm_new_keys sm_old_keys d" by (cases d) (simp_all add: sm_key_def touched_def)
  then have "sm_key d \<notin> sm_old_keys c" using keys_inv_retired [OF keys] d by blast
  then show "slab_replay ops ?m d x = slab_replay ops m d x" by (simp add: slab_replay_def to_slab_change_def eq)
qed

text \<open>One operation of \<open>ItemsMut\<close> appends one pending change, which replays to the new value.\<close>

lemma slab_edit_step:
  assumes "slab_edit_one ops e m = Inr m'" and inv: "slab_inv ops m cs"
  shows "\<exists>c. si_pending m' = si_pending m @ [c] \<and> slab_inv ops m' (cs @ [c]) \<and> values_kept ops m m'
    \<and> slab_replay ops m' c (Some (slab_value ops m)) = Some (slab_value ops m')"
proof (cases e)
  case (SlabInsert v)
  have laws: "slab_laws ops" and keys: "keys_inv sm_new_keys sm_old_keys cs (live_keys ops m) (dom (slab_get ops (si_items m)))"
    using inv by (simp_all add: slab_inv_def)
  obtain k s where k: "slab_insert ops (si_items m) \<lparr>it_value = v, is_exists = True\<rparr> = (k, s)" by fastforce
  then have m': "m' = \<lparr>si_items = s, si_len = si_len m + 1, si_pending = si_pending m @ [SmInsert k]\<rparr>"
    using assms(1) SlabInsert by (simp add: si_insert_def)
  have vacant: "slab_get ops (si_items m) k = None" by (rule slab_insert_vacant [OF laws k])
  have get: "slab_get ops s j = (if j = k then Some \<lparr>it_value = v, is_exists = True\<rparr> else slab_get ops (si_items m) j)" for j
    by (rule slab_get_insert [OF laws k])
  have val: "si_get ops m' = (si_get ops m)(k \<mapsto> v)" by (auto simp: m' si_get_def get fun_eq_iff)
  have none: "si_get ops m k = None" by (simp add: si_get_def vacant)
  then have live: "live_keys ops m' = insert k (live_keys ops m)" "k \<notin> live_keys ops m" by (auto simp: live_keys_def val)
  have dom: "dom (slab_get ops (si_items m')) = dom (slab_get ops (si_items m)) \<union> sm_new_keys (SmInsert k)" by (auto simp: m' get)
  have "slab_inv ops m' (cs @ [SmInsert k])"
    using keys_inv_step [OF keys _ _ dom, of "live_keys ops m'"] live vacant live_finite [OF laws, of m] inv
    by (auto simp: slab_inv_def m')
  moreover have "values_kept ops m m'" using vacant by (auto simp: values_kept_def m' get)
  moreover have "slab_replay ops m' (SmInsert k) (Some (slab_value ops m)) = Some (slab_value ops m')"
    using none by (simp add: slab_replay_def to_slab_change_def sm_key_def slab_value_def val) (simp add: m' get)
  ultimately show ?thesis by (auto simp: m')
next
  case (SlabRemove k)
  have laws: "slab_laws ops" and keys: "keys_inv sm_new_keys sm_old_keys cs (live_keys ops m) (dom (slab_get ops (si_items m)))"
    using inv by (simp_all add: slab_inv_def)
  obtain item where item: "slab_get ops (si_items m) k = Some item" "is_exists item"
    and m': "m' = \<lparr>si_items = slab_put ops (si_items m) k (item\<lparr>is_exists := False\<rparr>), si_len = si_len m - 1, si_pending = si_pending m @ [SmRemove k]\<rparr>"
    using assms(1) SlabRemove by (auto simp: si_remove_def res_bind_eq_Inr split: if_splits)
  have get: "slab_get ops (si_items m') j = (if j = k then Some (item\<lparr>is_exists := False\<rparr>) else slab_get ops (si_items m) j)" for j
    by (simp add: m' slab_get_put [OF laws item(1)])
  have val: "si_get ops m' = (si_get ops m)(k := None)" by (auto simp: si_get_def get fun_eq_iff)
  have some: "si_get ops m k = Some (it_value item)" using item by (simp add: si_get_def)
  then have live: "live_keys ops m' = live_keys ops m - {k}" "k \<in> live_keys ops m" by (auto simp: live_keys_def val)
  have dom: "dom (slab_get ops (si_items m')) = dom (slab_get ops (si_items m)) \<union> sm_new_keys (SmRemove k)" using item(1) by (auto simp: get split: if_splits)
  have "slab_inv ops m' (cs @ [SmRemove k])"
    using keys_inv_step [OF keys _ _ dom, of "live_keys ops m'"] live live_finite [OF laws, of m] inv
    by (auto simp: slab_inv_def m' insert_absorb)
  moreover have "values_kept ops m m'" using item by (auto simp: values_kept_def get)
  moreover have "slab_replay ops m' (SmRemove k) (Some (slab_value ops m)) = Some (slab_value ops m')"
    using some by (simp add: slab_replay_def to_slab_change_def sm_key_def slab_value_def val get)
  ultimately show ?thesis by (auto simp: m')
qed

subsection \<open>A whole edit\<close>

lemma slab_replay_get: "slab_replay ops m c x = Some y \<Longrightarrow> \<exists>i. slab_get ops (si_items m) (sm_key c) = Some i"
  by (auto simp: slab_replay_def to_slab_change_def res_bind_eq_Inr split: sum.splits)

lemma slab_edits_steps:
  assumes "res_fold (slab_edit_one ops) es m = Inr m'" and "slab_inv ops m cs"
  shows "\<exists>ds. si_pending m' = si_pending m @ ds \<and> slab_inv ops m' (cs @ ds) \<and> values_kept ops m m' \<and> length ds = length es
    \<and> fold (slab_replay ops m') ds (Some (slab_value ops m)) = Some (slab_value ops m')"
  using assms
proof (induction es arbitrary: m cs)
  case Nil
  then show ?case by (simp add: values_kept_refl)
next
  case (Cons e es)
  obtain m1 where m1: "slab_edit_one ops e m = Inr m1" "res_fold (slab_edit_one ops) es m1 = Inr m'"
    using Cons.prems(1) by (auto simp: res_bind_eq_Inr)
  obtain c where c: "si_pending m1 = si_pending m @ [c]" "slab_inv ops m1 (cs @ [c])" "values_kept ops m m1"
    "slab_replay ops m1 c (Some (slab_value ops m)) = Some (slab_value ops m1)"
    using slab_edit_step [OF m1(1) Cons.prems(2)] by blast
  obtain ds where ds: "si_pending m' = si_pending m1 @ ds" "slab_inv ops m' ((cs @ [c]) @ ds)" "values_kept ops m1 m'" "length ds = length es"
    "fold (slab_replay ops m') ds (Some (slab_value ops m1)) = Some (slab_value ops m')"
    using Cons.IH [OF m1(2) c(2)] by blast
  obtain i where "slab_get ops (si_items m1) (sm_key c) = Some i" using slab_replay_get [OF c(4)] by blast
  from replay_kept [OF ds(3) this] have "slab_replay ops m' c (Some (slab_value ops m)) = Some (slab_value ops m1)" using c(4) by simp
  then show ?case using c ds values_kept_trans [OF c(3) ds(3)] by (intro exI [of _ "c # ds"]) simp
qed

lemma slab_inv_pending [simp]: "slab_inv ops (m\<lparr>si_pending := p\<rparr>) cs = slab_inv ops m cs"
  using si_get_cong [of "m\<lparr>si_pending := p\<rparr>" m ops] by (simp add: slab_inv_def live_keys_def)

lemma slab_edits_ok:
  assumes own: "slab_own ops m cs" and e: "slab_edits ops es m = Inr (m', ds)"
  shows "slab_own ops m' (cs @ ds)" and "values_kept ops m m'" and "length ds = length es"
    and "fold (slab_replay ops m') ds (Some (slab_value ops m)) = Some (slab_value ops m')"
proof -
  obtain m1 where m1: "res_fold (slab_edit_one ops) es m = Inr m1" and m': "m' = m1\<lparr>si_pending := []\<rparr>" "ds = si_pending m1"
    using e by (auto simp: slab_edits_def res_bind_eq_Inr take_changes_def)
  have inv: "slab_inv ops m cs" "si_pending m = []" using own by (simp_all add: slab_own_def)
  note steps = slab_edits_steps [OF m1 inv(1)]
  have same: "si_items m' = si_items m1" by (simp add: m')
  have val: "slab_value ops m' = slab_value ops m1" using si_get_cong [OF same] by (simp add: slab_value_def)
  have rep: "slab_replay ops m' = slab_replay ops m1" by (simp add: slab_replay_def fun_eq_iff same)
  have kept: "values_kept ops m m' = values_kept ops m m1" by (simp add: values_kept_def same)
  show "slab_own ops m' (cs @ ds)" "values_kept ops m m'" "length ds = length es"
    "fold (slab_replay ops m') ds (Some (slab_value ops m)) = Some (slab_value ops m')"
    using steps inv(2) m'(2) by (auto simp: slab_own_def kept val rep) (simp_all add: m'(1))
qed

text \<open>The changes a reader still has to see keep their meaning through an edit.\<close>

lemma slab_edits_keep:
  assumes own: "slab_own ops m cs" and e: "slab_edits ops es m = Inr (m', ds)" and d: "d \<in> set cs"
  shows "slab_replay ops m' d x = slab_replay ops m d x"
proof -
  have k: "keys_inv sm_new_keys sm_old_keys cs (live_keys ops m) (dom (slab_get ops (si_items m)))" using own by (simp add: slab_own_def slab_inv_def)
  have "sm_key d \<in> touched sm_new_keys sm_old_keys d" by (cases d) (simp_all add: sm_key_def touched_def)
  then have "sm_key d \<in> dom (slab_get ops (si_items m))" using keys_inv_mem [OF k] d by blast
  then show ?thesis using replay_kept [OF slab_edits_ok(2) [OF own e]] by blast
qed

subsection \<open>The contract of change feeds, on slab maps\<close>

definition slab_edit_rel :: "('s, 'v item) slab_ops \<Rightarrow> 's slab_items \<Rightarrow> sm_change list \<Rightarrow> 's slab_items \<Rightarrow> bool" where
  "slab_edit_rel ops m ds m' \<longleftrightarrow> (\<exists>es. slab_edits ops es m = Inr (m', ds))"

definition slab_view :: "('s, 'v item) slab_ops \<Rightarrow> 's slab_items \<Rightarrow> (nat \<rightharpoonup> 'v) option" where
  "slab_view ops m = Some (slab_value ops m)"

interpretation slab_feed: feed_ops "sm_release ops" "slab_own ops" "slab_view ops" "slab_replay ops" "slab_edit_rel ops" "slab_edits ops" length
  for ops :: "('s, 'v item) slab_ops"
proof
  fix m :: "'s slab_items" and c cs assume o: "slab_own ops m (c # cs)"
  show "slab_own ops (sm_release ops c m) cs" by (rule sm_release_ok(1) [OF o])
  show "slab_view ops (sm_release ops c m) = slab_view ops m" by (simp add: slab_view_def sm_release_ok(2) [OF o])
  fix d x assume "d \<in> set cs"
  then show "slab_replay ops (sm_release ops c m) d x = slab_replay ops m d x" by (rule sm_release_ok(3) [OF o])
next
  fix m :: "'s slab_items" and cs ds m' assume o: "slab_own ops m cs" and e: "slab_edit_rel ops m ds m'"
  obtain es where es: "slab_edits ops es m = Inr (m', ds)" using e unfolding slab_edit_rel_def by blast
  show "slab_own ops m' (cs @ ds)" "fold (slab_replay ops m') ds (slab_view ops m) = slab_view ops m'"
    using slab_edits_ok [OF o es] by (simp_all add: slab_view_def)
  fix d x assume "d \<in> set cs"
  then show "slab_replay ops m' d x = slab_replay ops m d x" by (rule slab_edits_keep [OF o es])
next
  fix es and m m' :: "'s slab_items" and ds assume e: "slab_edits ops es m = Inr (m', ds)"
  show "slab_edit_rel ops m ds m'" unfolding slab_edit_rel_def using e by blast
  fix cs assume "slab_own ops m cs"
  then show "length ds \<le> length es" using slab_edits_ok(3) [OF _ e] by simp
qed

subsection \<open>Iteration\<close>

lemma si_iter_eq: "si_iter ops s ks = List.map_filter (\<lambda>k. case slab_get ops s k of None \<Rightarrow> None | Some i \<Rightarrow> if is_exists i then Some (k, it_value i) else None) ks"
proof -
  let ?f = "\<lambda>k. case slab_get ops s k of None \<Rightarrow> None | Some i \<Rightarrow> if is_exists i then Some (k, it_value i) else None"
  have next_eq: "si_next ops s ks = (case List.map_filter ?f ks of [] \<Rightarrow> None | x # xs \<Rightarrow> Some (x, tl (dropWhile (\<lambda>k. ?f k = None) ks)))" for ks
    by (induction ks) (auto simp: map_filter_simps split: option.splits list.splits)
  have rest: "List.map_filter ?f ks = x # xs \<Longrightarrow> List.map_filter ?f (tl (dropWhile (\<lambda>k. ?f k = None) ks)) = xs" for ks x xs
    by (induction ks) (auto simp: map_filter_simps split: option.splits if_splits)
  show ?thesis
  proof (induction "length ks" arbitrary: ks rule: less_induct)
    case less
    show ?case
    proof (cases "List.map_filter ?f ks")
      case Nil
      then show ?thesis by (subst si_iter.simps) (simp add: next_eq)
    next
      case (Cons x xs)
      let ?ks = "tl (dropWhile (\<lambda>k. ?f k = None) ks)"
      have n: "si_next ops s ks = Some (x, ?ks)" by (simp add: next_eq Cons)
      from less.hyps [OF si_next_shorter [OF n]] rest [OF Cons] have "si_iter ops s ?ks = xs" by simp
      then show ?thesis by (subst si_iter.simps) (simp add: n Cons)
    qed
  qed
qed

lemma map_filter_key: "(\<And>k x. f k = Some x \<Longrightarrow> fst x = k) \<Longrightarrow> map fst (List.map_filter f ks) = filter (\<lambda>k. f k \<noteq> None) ks"
  by (induction ks) (auto simp: map_filter_simps split: option.splits)

text \<open>\<open>Iter\<close> visits every existing item once.\<close>

lemma si_iter_ok:
  assumes laws: "slab_laws ops" and xs: "xs = si_iter ops (si_items m) (slab_keys ops (si_items m))"
  shows "distinct (map fst xs)" and "map_of xs = slab_value ops m"
proof -
  let ?f = "\<lambda>k. case slab_get ops (si_items m) k of None \<Rightarrow> None | Some i \<Rightarrow> if is_exists i then Some (k, it_value i) else None"
  have f: "?f k = map_option (Pair k) (si_get ops m k)" for k by (simp add: si_get_def split: option.split)
  have x: "xs = List.map_filter (\<lambda>k. map_option (Pair k) (si_get ops m k)) (slab_keys ops (si_items m))" unfolding xs si_iter_eq by (simp add: f)
  have keys: "map fst xs = filter (\<lambda>k. map_option (Pair k) (si_get ops m k) \<noteq> None) (slab_keys ops (si_items m))" unfolding x by (rule map_filter_key) auto
  then show d: "distinct (map fst xs)" using slab_keys_distinct [OF laws] by simp
  have mem: "(k, v) \<in> set xs \<longleftrightarrow> si_get ops m k = Some v" for k v
  proof -
    have "si_get ops m k = Some v \<Longrightarrow> k \<in> set (slab_keys ops (si_items m))" by (auto simp: si_get_def slab_keys_iff [OF laws] split: option.splits)
    then show ?thesis unfolding x by (force simp: List.map_filter_def image_iff split: option.splits)
  qed
  show "map_of xs = slab_value ops m"
  proof
    fix k
    show "map_of xs k = slab_value ops m k"
      using mem [of k] map_of_eq_Some_iff [OF d, of k] by (cases "slab_value ops m k"; cases "map_of xs k") (auto simp: slab_value_def)
  qed
qed

end
