(* ===== verification/Slab_Map_Properties.thy ===== *)
theory Slab_Map_Properties
  imports Slab_Map_Spec
begin

section \<open>Properties of observable slab maps\<close>

text \<open>
  What a client of \<open>StateSlabMap\<close> and \<open>SignalSlabMap\<close> relies on: the deltas of its readers, the operations of
  \<open>ItemsMut\<close>, iteration and length, and the storage of removed values, each with a witness on \<open>vec_slab\<close>.
\<close>

subsection \<open>Deltas as a client sees them\<close>

definition slab_model_delta :: "('s, 'v item) slab_ops \<Rightarrow> sm_change feed_delta \<Rightarrow> 's slab_items \<Rightarrow> 'v slab_change list result" where
  "slab_model_delta ops d m = (case d of
       DeltaInitial \<Rightarrow> Inr (map (\<lambda>(k, v). ScInsert k v) (si_iter ops (si_items m) (slab_keys ops (si_items m))))
     | DeltaIncremental cs \<Rightarrow> res_map (to_slab_change ops (si_items m)) cs)"

lemma slab_items_delta_model: "slab_items_delta ops g st = res_bind (ref_delta g st) (\<lambda>d. slab_model_delta ops d (ref_current g st))"
  by (simp add: slab_items_delta_def slab_model_delta_def Let_def)

lemma apply_inserts:
  "distinct (map fst xs) \<Longrightarrow> dom x \<inter> fst ` set xs = {} \<Longrightarrow> apply_slab_delta (map (\<lambda>(k, v). ScInsert k v) xs) x = Some (x ++ map_of xs)"
proof (induction xs arbitrary: x)
  case (Cons p xs)
  obtain k v where p: "p = (k, v)" by (cases p)
  have "k \<notin> dom (map_of xs)" using Cons.prems(1) by (simp add: p dom_map_of_conv_image_fst)
  then have "x(k \<mapsto> v) ++ map_of xs = x ++ map_of (p # xs)" by (simp add: p map_add_upd_left del: fun_upd_apply)
  moreover have "x k = None" using Cons.prems(2) by (auto simp: p)
  moreover have "apply_slab_delta (map (\<lambda>(k, v). ScInsert k v) xs) (x(k \<mapsto> v)) = Some (x(k \<mapsto> v) ++ map_of xs)"
    using Cons.prems by (intro Cons.IH) (auto simp: p dom_def image_iff split: if_splits)
  ultimately show ?case by (simp add: p apply_slab_delta_def del: map_of.simps)
qed (simp add: apply_slab_delta_def)

definition slab_read_ok :: "('s, 'v item) slab_ops \<Rightarrow> sm_change feed_delta \<Rightarrow> 's slab_items \<Rightarrow> (nat \<rightharpoonup> 'v) option option \<Rightarrow> bool" where
  "slab_read_ok ops d m s \<longleftrightarrow> (case slab_model_delta ops d m of Inl _ \<Rightarrow> False
     | Inr ds \<Rightarrow> apply_slab_delta ds (case s of Some (Some x) \<Rightarrow> x | _ \<Rightarrow> Map.empty) = Some (slab_value ops m))"

lemma replays_read_ok:
  assumes laws: "slab_laws ops" and r: "replays (slab_view ops) (slab_replay ops) d m s"
  shows "slab_read_ok ops d m s"
proof (cases d)
  case DeltaInitial
  then have "s = None" using r by (simp add: replays_def)
  let ?xs = "si_iter ops (si_items m) (slab_keys ops (si_items m))"
  have "apply_slab_delta (map (\<lambda>(k, v). ScInsert k v) ?xs) Map.empty = Some (slab_value ops m)"
    using apply_inserts [OF si_iter_ok(1) [OF laws refl], of Map.empty m] si_iter_ok(2) [OF laws refl, of m] by simp
  then show ?thesis using DeltaInitial \<open>s = None\<close> by (simp add: slab_read_ok_def slab_model_delta_def)
next
  case (DeltaIncremental cs)
  then obtain x where x: "s = Some (Some x)" "fold (slab_replay ops m) cs (Some x) = Some (slab_value ops m)"
    using r by (auto simp: replays_def slab_view_def split: option.splits) (metis option.exhaust option.distinct(1) slab_replay_None)
  from slab_replay_delta [OF x(2)] show ?thesis using x(1) DeltaIncremental by (auto simp: slab_read_ok_def slab_model_delta_def)
qed

text \<open>An operation panics on a key without an item; the counter does not underflow.\<close>

lemma si_remove_ok:
  assumes inv: "slab_inv ops m cs"
  shows "si_remove ops k m = (if k \<in> live_keys ops m
      then Inr \<lparr>si_items = slab_put ops (si_items m) k (the (slab_get ops (si_items m) k)\<lparr>is_exists := False\<rparr>), si_len = si_len m - 1, si_pending = si_pending m @ [SmRemove k]\<rparr>
      else Inl (if slab_get ops (si_items m) k = None then InvalidKey else AssertFailed))"
proof -
  have "slab_laws ops" using inv by (simp add: slab_inv_def)
  then have "finite (live_keys ops m)" by (rule live_finite)
  then have "k \<in> live_keys ops m \<Longrightarrow> si_len m \<noteq> 0" using inv by (auto simp: slab_inv_def)
  then show ?thesis by (auto simp: si_remove_def live_keys_def si_get_def dom_def split: option.splits)
qed

lemma slab_edits_panic:
  assumes "res_fold (slab_edit_one ops) es m = Inl e" and "slab_inv ops m cs"
  shows "e \<in> {InvalidKey, AssertFailed} \<and> (\<exists>k. SlabRemove k \<in> set es)"
  using assms
proof (induction es arbitrary: m cs)
  case (Cons x es)
  show ?case
  proof (cases "slab_edit_one ops x m")
    case (Inl e')
    then obtain k where "x = SlabRemove k" "si_remove ops k m = Inl e'" by (cases x) auto
    then show ?thesis using si_remove_ok [OF Cons.prems(2), of k] Inl Cons.prems(1) by (auto split: if_splits)
  next
    case (Inr m1)
    then obtain c where "slab_inv ops m1 (cs @ [c])" using slab_edit_step [OF Inr Cons.prems(2)] by blast
    from Cons.IH [OF _ this] show ?thesis using Cons.prems(1) Inr by auto
  qed
qed simp

lemma slab_trace_panic:
  assumes "edit_trace (map (slab_edits ops) ess) m = Inl e" and "slab_own ops m cs"
  shows "e \<in> {InvalidKey, AssertFailed} \<and> (\<exists>es \<in> set ess. \<exists>k. SlabRemove k \<in> set es)"
  using assms
proof (induction ess arbitrary: m cs)
  case (Cons es ess)
  show ?case
  proof (cases "slab_edits ops es m")
    case (Inl e')
    then have "res_fold (slab_edit_one ops) es m = Inl e'" by (auto simp: slab_edits_def res_bind_def take_changes_def split: sum.splits)
    from slab_edits_panic [OF this, of cs] show ?thesis using Inl Cons.prems by (auto simp: slab_own_def)
  next
    case (Inr p)
    then obtain m1 ds where p: "slab_edits ops es m = Inr (m1, ds)" by (cases p) auto
    have "edit_trace (map (slab_edits ops) ess) m1 = Inl e" using Cons.prems(1) p by (auto simp: res_bind_def split: sum.splits)
    from Cons.IH [OF this slab_edits_ok(1) [OF Cons.prems(2) p]] show ?thesis by auto
  qed
qed simp

lemma slab_run:
  assumes laws: "slab_laws ops" and room: "length xs + 2 < 2 ^ 64" "sum_list (map (op_cost length) xs) < 2 ^ 64"
  shows "case feed_run (sm_release ops) (slab_edits ops) xs (feed_new (si_new ops), []) of
      Inl e \<Rightarrow> edit_panics (slab_edits ops) (\<lambda>m. \<exists>cs. slab_own ops m cs) xs e
    | Inr (outs, st, rs) \<Rightarrow> reads_ok (slab_view ops) (replays (slab_view ops) (slab_replay ops)) xs outs []
        \<and> (\<exists>log qs. client_inv (slab_own ops) (slab_view ops) (slab_replay ops) st rs log qs)"
proof -
  have "client_inv (slab_own ops) (slab_view ops) (slab_replay ops) (feed_new (si_new ops)) [] [] []"
    by (rule slab_feed.feed_start [OF slab_own_new [OF laws]])
  from slab_feed.feed_reads_ok [OF this, of xs] room show ?thesis by (auto split: sum.splits)
qed

text \<open>
  C15. Readers track the slab map. Whatever a client of a new \<open>StateSlabMap\<close> or a scan does (creating, cloning, reading and
  dropping readers, editing through guards, in any order), the run returns unless an edit removes a key that
  has no item. Every read has a delta that can be computed and that, applied change by change with inserted keys checked to
  be new and removed values checked, turns the items that reader saw last into the current ones.
\<close>

theorem slab_readers_track:
  assumes laws: "slab_laws ops" and room: "length xs + 2 < 2 ^ 64" "sum_list (map (op_cost length) xs) < 2 ^ 64"
  shows "case feed_run (sm_release ops) (slab_edits ops) xs (feed_new (si_new ops), []) of
      Inl e \<Rightarrow> e \<in> {InvalidKey, AssertFailed} \<and> (\<exists>fin ess es k. EditWith fin ess \<in> set xs \<and> es \<in> set ess \<and> SlabRemove k \<in> set es)
    | Inr (outs, st, rs) \<Rightarrow> reads_ok (slab_view ops) (slab_read_ok ops) xs outs []"
proof (cases "feed_run (sm_release ops) (slab_edits ops) xs (feed_new (si_new ops), [])")
  case (Inl e)
  then obtain fin ess m cs where e: "EditWith fin ess \<in> set xs" "slab_own ops m cs" "edit_trace (map (slab_edits ops) ess) m = Inl e"
    using slab_run [OF assms] by (auto simp: edit_panics_def)
  show ?thesis using Inl e(1) slab_trace_panic [OF e(3,2)] by auto
next
  case (Inr r)
  obtain outs st rs where r: "r = (outs, st, rs)" by (cases r)
  have "reads_ok (slab_view ops) (replays (slab_view ops) (slab_replay ops)) xs outs []" using slab_run [OF assms] Inr r by simp
  then have "reads_ok (slab_view ops) (slab_read_ok ops) xs outs []" by (rule reads_ok_mono) (rule replays_read_ok [OF laws])
  then show ?thesis using Inr r by simp
qed

definition ex_slab_ops :: "nat slab_edit list feed_op list" where
  "ex_slab_ops = [ReaderNew, EditWith FinishNotify [[SlabInsert 3], [SlabInsert 4]], ReaderRead 0, EditWith FinishNotify [[SlabRemove 0], [SlabInsert 5, SlabRemove 1]],
     ReaderClone 0, ReaderRead 0, ReaderDrop 0, EditWith FinishSchedule [[SlabInsert 6]], ReaderRead 1]"

theorem slab_readers_track_witness:
  "\<exists>outs st rs. feed_run (sm_release vec_slab) (slab_edits vec_slab) ex_slab_ops (feed_new (si_new vec_slab), []) = Inr (outs, st, rs)
     \<and> reads_ok (slab_view vec_slab) (slab_read_ok vec_slab) ex_slab_ops outs []"
proof -
  have "\<not> isl (feed_run (sm_release vec_slab) (slab_edits vec_slab) ex_slab_ops (feed_new (si_new vec_slab), []))" by code_simp
  then obtain outs st rs where "feed_run (sm_release vec_slab) (slab_edits vec_slab) ex_slab_ops (feed_new (si_new vec_slab), []) = Inr (outs, st, rs)"
    by (cases "feed_run (sm_release vec_slab) (slab_edits vec_slab) ex_slab_ops (feed_new (si_new vec_slab), [])") auto
  moreover have "length ex_slab_ops + 2 < 2 ^ 64" "sum_list (map (op_cost length) ex_slab_ops) < 2 ^ 64" by (simp_all add: ex_slab_ops_def)
  ultimately show ?thesis using slab_readers_track [OF vec_slab_laws, of ex_slab_ops] by simp
qed

text \<open>
  C16. The operations of \<open>ItemsMut\<close> refine partial maps. \<open>insert\<close> returns a key that is neither in use nor named by a change
  some reader still has to see; \<open>remove\<close> returns exactly on the keys of the map, and its length counter does not underflow; both keep the storage invariant.
\<close>

theorem slab_ops_refine:
  assumes inv: "slab_inv ops m cs"
  shows "(case si_insert ops v m of (k, m') \<Rightarrow> si_get ops m k = None \<and> k \<notin> sm_key ` set cs \<and> si_get ops m' = (si_get ops m)(k \<mapsto> v)
        \<and> slab_inv ops m' (cs @ [SmInsert k]))
    \<and> (case si_remove ops k m of Inl _ \<Rightarrow> si_get ops m k = None
       | Inr m' \<Rightarrow> si_get ops m k \<noteq> None \<and> si_get ops m' = (si_get ops m)(k := None) \<and> slab_inv ops m' (cs @ [SmRemove k]))"
proof -
  have laws: "slab_laws ops" and keys: "keys_inv sm_new_keys sm_old_keys cs (live_keys ops m) (dom (slab_get ops (si_items m)))"
    using inv by (simp_all add: slab_inv_def)
  have mem: "slab_get ops (si_items m) (sm_key c) \<noteq> None" if "c \<in> set cs" for c
  proof -
    have "sm_key c \<in> touched sm_new_keys sm_old_keys c" by (cases c) (simp_all add: sm_key_def touched_def)
    then show ?thesis using keys_inv_mem [OF keys, of "sm_key c"] that by blast
  qed
  obtain i s where i: "slab_insert ops (si_items m) \<lparr>it_value = v, is_exists = True\<rparr> = (i, s)" by fastforce
  let ?m = "\<lparr>si_items = s, si_len = si_len m + 1, si_pending = si_pending m @ [SmInsert i]\<rparr>"
  have ins: "si_insert ops v m = (i, ?m)" by (simp add: si_insert_def i)
  have vacant: "slab_get ops (si_items m) i = None" by (rule slab_insert_vacant [OF laws i])
  have "slab_inv ops ?m (cs @ [SmInsert i])" using slab_edit_step [of ops "SlabInsert v" m ?m cs] inv ins by auto
  moreover have "si_get ops ?m = (si_get ops m)(i \<mapsto> v)" by (auto simp: si_get_def slab_get_insert [OF laws i] fun_eq_iff)
  moreover have "i \<notin> sm_key ` set cs" using mem vacant by (metis imageE)
  ultimately have ok: "case si_insert ops v m of (k, m') \<Rightarrow> si_get ops m k = None \<and> k \<notin> sm_key ` set cs \<and> si_get ops m' = (si_get ops m)(k \<mapsto> v)
        \<and> slab_inv ops m' (cs @ [SmInsert k])" using ins vacant by (simp add: si_get_def)
  show ?thesis
  proof (cases "k \<in> live_keys ops m")
    case False
    then have "\<exists>e. si_remove ops k m = Inl e" using si_remove_ok [OF inv, of k] by simp
    moreover have "si_get ops m k = None" using False by (auto simp: live_keys_def)
    ultimately show ?thesis using ok by auto
  next
    case True
    then obtain m' where m': "si_remove ops k m = Inr m'" "si_items m' = slab_put ops (si_items m) k (the (slab_get ops (si_items m) k)\<lparr>is_exists := False\<rparr>)"
      "si_pending m' = si_pending m @ [SmRemove k]"
      using si_remove_ok [OF inv, of k] by simp
    have "slab_inv ops m' (cs @ [SmRemove k])" using slab_edit_step [of ops "SlabRemove k" m m' cs] inv m' by auto
    moreover obtain j where j: "slab_get ops (si_items m) k = Some j" using True by (auto simp: live_keys_def si_get_def split: option.splits)
    moreover have "si_get ops m' = (si_get ops m)(k := None)" by (auto simp: si_get_def m'(2) j slab_get_put [OF laws j] fun_eq_iff)
    moreover have "si_get ops m k \<noteq> None" using True by (auto simp: live_keys_def)
    ultimately show ?thesis using ok m'(1) by simp
  qed
qed

definition ex_items :: "nat item option list slab_items" where
  "ex_items = \<lparr>si_items = [Some \<lparr>it_value = 7, is_exists = False\<rparr>, Some \<lparr>it_value = 8, is_exists = True\<rparr>], si_len = 1, si_pending = []\<rparr>"

lemma ex_items_inv: "slab_own vec_slab ex_items [SmRemove 0]"
proof -
  have get: "si_get vec_slab ex_items = [1 \<mapsto> 8]"
    by (auto simp: fun_eq_iff si_get_def ex_items_def vec_slab_def vec_get_def less_Suc_eq nth_Cons' split: option.splits)
  have "dom (slab_get vec_slab (si_items ex_items)) = {0, 1}"
    by (auto simp: ex_items_def vec_slab_def vec_get_def less_Suc_eq nth_Cons' split: if_splits)
  then have "keys_inv sm_new_keys sm_old_keys [SmRemove 0] {1} (dom (slab_get vec_slab (si_items ex_items)))" by (simp add: keys_inv_def)
  then show ?thesis by (simp add: slab_own_def slab_inv_def vec_slab_laws live_keys_def get) (simp add: ex_items_def)
qed

theorem slab_ops_refine_witness:
  "fst (si_insert vec_slab 9 ex_items) = 2 \<and> \<not> isl (si_remove vec_slab 1 ex_items)
     \<and> si_get vec_slab (snd (si_insert vec_slab 9 ex_items)) = (si_get vec_slab ex_items)(2 \<mapsto> 9)"
proof -
  have "slab_inv vec_slab ex_items [SmRemove 0]" using ex_items_inv by (simp add: slab_own_def)
  moreover have "fst (si_insert vec_slab 9 ex_items) = 2" "\<not> isl (si_remove vec_slab 1 ex_items)" by code_simp+
  ultimately show ?thesis using slab_ops_refine [of vec_slab ex_items "[SmRemove 0]" 9 1] by (auto split: prod.splits)
qed

text \<open>
  C17. Iteration is complete and \<open>len\<close> counts it: \<open>Iter\<close> skips the removed items that wait for readers, visits every existing
  item exactly once with its value, and \<open>len\<close> is the number of items it yields.
\<close>

theorem slab_iter_complete:
  assumes own: "slab_own ops m cs"
  shows "let xs = si_iter ops (si_items m) (slab_keys ops (si_items m))
    in distinct (map fst xs) \<and> map_of xs = si_get ops m \<and> length xs = si_len m"
proof -
  let ?xs = "si_iter ops (si_items m) (slab_keys ops (si_items m))"
  have laws: "slab_laws ops" and n: "si_len m = card (live_keys ops m)" using own by (simp_all add: slab_own_def slab_inv_def)
  note it = si_iter_ok [OF laws refl, of m]
  have "live_keys ops m = fst ` set ?xs" using it(2) dom_map_of_conv_image_fst [of ?xs] by (simp add: live_keys_def slab_value_def)
  then have "length ?xs = si_len m" using n distinct_card [OF it(1)] by simp
  then show ?thesis using it by (simp add: slab_value_def)
qed

theorem slab_iter_complete_witness: "length (si_iter vec_slab (si_items ex_items) (slab_keys vec_slab (si_items ex_items))) = 1"
  using slab_iter_complete [OF ex_items_inv] by (simp add: Let_def) (simp add: ex_items_def)

text \<open>
  C18. Removed items are not leaked. At the end of any run that returns, \<open>len\<close> is the number of items; and when no live
  reader has read, no change is retained and the slab map holds exactly the existing items.
\<close>

theorem slab_no_leak:
  assumes laws: "slab_laws ops" and room: "length xs + 2 < 2 ^ 64" "sum_list (map (op_cost length) xs) < 2 ^ 64"
    and run: "feed_run (sm_release ops) (slab_edits ops) xs (feed_new (si_new ops), []) = Inr (outs, st, rs)"
  shows "si_len (fd_current st) = card (dom (si_get ops (fd_current st)))
    \<and> (if no_cursors rs then log_items (fd_changes st) = [] \<and> set (slab_keys ops (si_items (fd_current st))) = dom (si_get ops (fd_current st)) else True)"
proof -
  obtain log qs where inv: "client_inv (slab_own ops) (slab_view ops) (slab_replay ops) st rs log qs"
    using slab_run [OF assms(1-3)] run by auto
  then obtain cs where "slab_own ops (fd_current st) cs" by (auto simp: client_inv_def feed_inv_def feed_sound_def)
  then have len: "si_len (fd_current st) = card (dom (si_get ops (fd_current st)))" by (simp add: slab_own_def slab_inv_def live_keys_def)
  have "log_items (fd_changes st) = [] \<and> slab_own ops (fd_current st) []" if "no_cursors rs"
  proof -
    have "unread (map (map_option (map_option snd)) qs)" by (rule no_cursors_seen [OF _ that]) (use inv in \<open>simp add: client_inv_def\<close>)
    from slab_feed.client_unread [OF inv this] show ?thesis by blast
  qed
  then show ?thesis using len laws by (auto simp: slab_own_def slab_inv_def keys_inv_Nil slab_keys_set live_keys_def)
qed

definition ex_slab_drop :: "nat slab_edit list feed_op list" where
  "ex_slab_drop = [ReaderNew, EditWith FinishNotify [[SlabInsert 3], [SlabInsert 4]], ReaderRead 0, EditWith FinishNotify [[SlabRemove 0]], ReaderDrop 0]"

theorem slab_no_leak_witness:
  "\<exists>outs st rs. feed_run (sm_release vec_slab) (slab_edits vec_slab) ex_slab_drop (feed_new (si_new vec_slab), []) = Inr (outs, st, rs)
     \<and> no_cursors rs \<and> log_items (fd_changes st) = [] \<and> set (slab_keys vec_slab (si_items (fd_current st))) = dom (si_get vec_slab (fd_current st))"
proof -
  let ?run = "feed_run (sm_release vec_slab) (slab_edits vec_slab) ex_slab_drop (feed_new (si_new vec_slab), [])"
  have "case ?run of Inl _ \<Rightarrow> False | Inr (outs, st, rs) \<Rightarrow> no_cursors rs" by code_simp
  then obtain outs st rs where r: "?run = Inr (outs, st, rs)" "no_cursors rs" by (cases ?run) auto
  moreover have "length ex_slab_drop + 2 < 2 ^ 64" "sum_list (map (op_cost length) ex_slab_drop) < 2 ^ 64" by (simp_all add: ex_slab_drop_def)
  ultimately show ?thesis using slab_no_leak [OF vec_slab_laws _ _ r(1)] by simp
qed

end
