(* ===== verification/Feed_Node_Spec.thy ===== *)
theory Feed_Node_Spec
  imports Feed_Node
begin

section \<open>Correctness of change feed nodes\<close>

text \<open>
  A refresh leaves the node clean and decides every open flag by whether its closure recorded a change. The locale \<open>pull_node\<close> is the
  contract of a node that is asked by \<open>check\<close>: it never asks for a flag that is still open.
\<close>

subsection \<open>Feed operations raise no panic of an open flag\<close>

lemma not_stale_modify: "(\<And>n. not_stale (f n)) \<Longrightarrow> not_stale (modify_ref_count f a c)"
  unfolding modify_ref_count_def age_to_index_def Let_def by (auto intro!: not_stale_intro)

lemma not_stale_compact [not_stale_intro]: "not_stale (feed_compact rel st)"
proof -
  have "not_stale (increment_ref_count_at a c)" "not_stale (decrement_ref_count a c)" for a and c :: "'b changes"
    unfolding increment_ref_count_at_def decrement_ref_count_def
    by (rule not_stale_modify; simp add: checked_add_def checked_sub_def not_stale_def)+
  moreover have "not_stale (increment_ref_count k c)" for k and c :: "'b changes"
    unfolding increment_ref_count_def checked_add_def by (auto intro!: not_stale_intro simp: not_stale_def)
  ultimately have "not_stale (ops_apply r c)" for r and c :: "'b changes"
    unfolding ops_apply_def by (auto intro!: not_stale_intro not_stale_fold)
  then show ?thesis unfolding feed_compact_def Let_def by (auto intro!: not_stale_intro split: prod.split)
qed

lemma not_stale_history [not_stale_intro]: "not_stale (borrow_history st)"
  by (simp add: not_stale_def borrow_history_def)

lemma not_stale_begin [not_stale_intro]: "not_stale (begin_edit rel st)"
  unfolding begin_edit_def by (auto intro!: not_stale_intro not_stale_Inl)

lemma not_stale_drop [not_stale_intro]: "not_stale (edit_drop rel e st)"
  unfolding edit_drop_def edit_is_dirty_def by (auto intro!: not_stale_intro)

lemma not_stale_reads [not_stale_intro]:
  "not_stale (borrow_current rel st)" "not_stale (current_ref rel st)" "not_stale (reader_read rel r st)" "not_stale (ref_drop rel st)"
  unfolding borrow_current_def current_ref_def reader_read_def borrow_since_def advance_cursor_def ref_drop_def Let_def by (auto intro!: not_stale_intro)

lemma not_stale_steps: "(\<And>f m. not_stale (fe f m)) \<Longrightarrow> not_stale (res_fold edit_step (map fe fs) s)"
  by (rule not_stale_fold) (auto simp: edit_step_def split: prod.split intro!: not_stale_intro)

lemma not_stale_edit_run: "(\<And>f m. not_stale (fe f m)) \<Longrightarrow> not_stale (feed_edit_run rel fin (map fe fs) st)"
  unfolding feed_edit_run_def by (auto intro!: not_stale_intro not_stale_steps)

subsection \<open>Compaction keeps the end of the log\<close>

lemma modify_ref_count_end: "modify_ref_count f a c = Inr c' \<Longrightarrow> end_age c' = end_age c"
  by (auto simp: modify_ref_count_def res_bind_eq_Inr end_age_def split: if_splits)

lemma res_fold_end:
  "(\<And>a c c'. f a c = Inr c' \<Longrightarrow> end_age c' = end_age c) \<Longrightarrow> res_fold f xs c = Inr c' \<Longrightarrow> end_age c' = end_age c"
  by (induction xs arbitrary: c) (auto simp: res_bind_eq_Inr)

lemma clean_items_end: "clean_items f xs a m = (ys, b, m1) \<Longrightarrow> b + of_nat (length ys) = a + of_nat (length xs)"
  by (induction f xs a m rule: clean_items.induct) (auto split: if_splits)

lemma compact_end:
  assumes "feed_compact rel st = Inr st'"
  shows "end_cursor st' = end_cursor st"
proof (cases "fd_shared st \<noteq> 0 \<or> fd_excl st")
  case False
  then obtain r c where a: "ops_apply (fd_ops st) (fd_changes st) = Inr (r, c)" and st': "fd_changes st' = fst (changes_clean rel c (fd_current st))"
    using assms by (cases "ops_apply (fd_ops st) (fd_changes st)") (auto simp: feed_compact_def Let_def split: prod.splits)
  have "end_age c = end_age (fd_changes st)"
  proof -
    obtain c1 c2 where "increment_ref_count (increments (fd_ops st)) (fd_changes st) = Inr c1"
      "res_fold increment_ref_count_at (rev (increment_ages (fd_ops st))) c1 = Inr c2" "res_fold decrement_ref_count (rev (decrement_ages (fd_ops st))) c2 = Inr c"
      using a by (auto simp: ops_apply_def res_bind_eq_Inr)
    moreover have "end_age c1 = end_age (fd_changes st)" using calculation(1) by (auto simp: increment_ref_count_def res_bind_eq_Inr end_age_def)
    moreover have "end_age c2 = end_age c1"
      by (rule res_fold_end [OF _ calculation(2)]) (simp add: increment_ref_count_at_def modify_ref_count_end)
    moreover have "end_age c = end_age c2"
      by (rule res_fold_end [OF _ calculation(3)]) (simp add: decrement_ref_count_def modify_ref_count_end)
    ultimately show ?thesis by simp
  qed
  moreover have "end_age (fd_changes st') = end_age c"
    using clean_items_end [of rel "log_items c" "age_base c" "fd_current st"]
    by (auto simp: st' changes_clean_def end_age_def split: prod.split)
  ultimately show ?thesis by (simp add: end_cursor_def)
qed (use assms in \<open>simp add: feed_compact_def\<close>)

lemma edit_steps_start: "res_fold edit_step fs (e, st) = Inr (e1, st1) \<Longrightarrow> fe_start e1 = fe_start e \<and> fe_finish e1 = fe_finish e"
proof (induction fs arbitrary: e st)
  case (Cons f fs)
  obtain e2 st2 where s: "edit_step f (e, st) = Inr (e2, st2)" "res_fold edit_step fs (e2, st2) = Inr (e1, st1)"
    using Cons.prems by (auto simp: res_bind_eq_Inr)
  then have "fe_start e2 = fe_start e \<and> fe_finish e2 = fe_finish e"
    by (auto simp: edit_step_def res_bind_eq_Inr fold_edit_record split: if_splits)
  then show ?case using Cons.IH [OF s(2)] by simp
qed simp

text \<open>An edit asks its owner to act exactly when the end of the log moved.\<close>

lemma edit_finish_iff:
  assumes "begin_edit rel st = Inr (e, st1)" and "res_fold edit_step fs (with_finish fin e, st1) = Inr (e1, st2)"
    and "edit_drop rel e1 st2 = Inr (fin1, st3)"
  shows "fin1 = (if end_cursor st3 = end_cursor st then FinishNone else fin)"
proof -
  obtain st0 where st0: "feed_compact rel st = Inr st0" "fe_start e = end_cursor st0" using assms(1) by (auto simp: begin_edit_def res_bind_eq_Inr split: if_splits)
  have start: "fe_start e1 = end_cursor st" "fe_finish e1 = fin"
    using edit_steps_start [OF assms(2)] st0(2) compact_end [OF st0(1)] by (simp_all add: with_finish_def)
  obtain d st4 where d: "edit_is_dirty e1 st2 = Inr d" "feed_compact rel (st2\<lparr>fd_excl := False\<rparr>) = Inr st3" "fin1 = (if \<not> d then FinishNone else fe_finish e1)"
    using assms(3) by (auto simp: edit_drop_def res_bind_eq_Inr)
  have "end_cursor st3 = end_age (fd_changes st2)" using compact_end [OF d(2)] by (simp add: end_cursor_def)
  then show ?thesis using d(1,3) start by (auto simp: edit_is_dirty_def res_bind_eq_Inr)
qed

lemma edit_run_finish:
  assumes "feed_edit_run rel fin fs st = Inr (fin1, st3)"
  shows "fin1 = (if end_cursor st3 = end_cursor st then FinishNone else fin)"
proof -
  obtain e st1 e1 st2 where "begin_edit rel st = Inr (e, st1)" "res_fold edit_step fs (with_finish fin e, st1) = Inr (e1, st2)"
    "edit_drop rel e1 st2 = Inr (fin1, st3)" using assms by (auto simp: feed_edit_run_def res_bind_eq_Inr)
  then show ?thesis by (rule edit_finish_iff)
qed

subsection \<open>A refresh\<close>

lemma refresh_ok:
  assumes laws: "slab_laws ops" and b: "\<not> binder_is_clean b" and run: "feed_refresh ops rel fe env b st S w = Inr (b', st', S', w')"
  shows "binder_is_clean b'" and "sbr_slot b' = sbr_slot b"
    and "\<exists>us. \<forall>k. slab_get ops S' k = (if k \<in> us then None else map_option (resolve_binding (end_cursor st' \<noteq> end_cursor st)) (slab_get ops S k))"
proof -
  obtain r b1 us w1 where c: "binder_check_with env b w = Inr (r, b1, us, w1)"
    using b run by (auto simp: feed_refresh_def res_bind_eq_Inr)
  note bc = binder_check_clean [OF c]
  have "binder_is_clean b' \<and> sbr_slot b' = sbr_slot b
    \<and> (\<exists>us. \<forall>k. slab_get ops S' k = (if k \<in> us then None else map_option (resolve_binding (end_cursor st' \<noteq> end_cursor st)) (slab_get ops S k)))"
  proof (cases r)
    case False
    then have "b' = b1" "st' = st" "S' = sinks_update ops False (unbind_keys ops us S)" using run b c by (simp_all add: feed_refresh_def Let_def)
    then show ?thesis using bc False
      by (auto simp: sinks_update_get [OF laws] unbind_keys_get [OF laws] intro!: exI [of _ "snd ` set us"])
  next
    case True
    then obtain e st1 fs srcs us1 w2 e1 st2 fin st3 where s: "begin_edit rel st = Inr (e, st1)"
      "res_fold edit_step (map fe fs) (with_finish FinishTrack e, st1) = Inr (e1, st2)" "edit_drop rel e1 st2 = Inr (fin, st3)"
      "b' = b1\<lparr>sbr_dirty := Clean, sbr_sources := srcs\<rparr>" "st' = st3" "S' = sinks_update ops (fin = FinishTrack) (unbind_keys ops us1 (unbind_keys ops us S))"
      using run b c by (auto simp: feed_refresh_def Let_def res_bind_eq_Inr)
    have "(fin = FinishTrack) = (end_cursor st' \<noteq> end_cursor st)" using edit_finish_iff [OF s(1-3)] s(5) by simp
    moreover have "binder_is_clean b'" "sbr_slot b' = sbr_slot b" using bc by (simp_all add: s(4) binder_is_clean_def is_clean_def)
    ultimately show ?thesis
      by (auto simp: s(6) sinks_update_get [OF laws] unbind_keys_get [OF laws] intro!: exI [of _ "snd ` (set us \<union> set us1)"])
  qed
  then show "binder_is_clean b'" and "sbr_slot b' = sbr_slot b"
    and "\<exists>us. \<forall>k. slab_get ops S' k = (if k \<in> us then None else map_option (resolve_binding (end_cursor st' \<noteq> end_cursor st)) (slab_get ops S k))"
    by blast+
qed

lemma refresh_flags:
  assumes laws: "slab_laws ops" and f: "flags_ok ops (binder_is_clean b) S" and run: "feed_refresh ops rel fe env b st S w = Inr (b', st', S', w')"
  shows "binder_is_clean b'" and "flags_ok ops True S'"
proof -
  show c: "binder_is_clean b'" using refresh_ok(1) [OF laws _ run] run by (cases "binder_is_clean b") (simp_all add: feed_refresh_def)
  show "flags_ok ops True S'"
  proof (cases "binder_is_clean b")
    case True
    then show ?thesis using f run by (simp add: feed_refresh_def)
  next
    case False
    then obtain us where "\<forall>k. slab_get ops S' k = (if k \<in> us then None else map_option (resolve_binding (end_cursor st' \<noteq> end_cursor st)) (slab_get ops S k))"
      using refresh_ok(3) [OF laws False run] by blast
    then show ?thesis by (auto simp: flags_ok_def split: if_splits)
  qed
qed

lemma refresh_not_stale:
  assumes "env_safe env" and fe: "\<And>f m. not_stale (fe f m)"
  shows "not_stale (feed_refresh ops rel fe env b st S w)"
proof -
  show ?thesis unfolding feed_refresh_def Let_def
    using assms(1) not_stale_check [OF assms(1)]
    by (auto simp: env_safe_def intro!: not_stale_intro not_stale_steps fe)
qed

end
