(* ===== verification/Feed_Node_Properties.thy ===== *)
theory Feed_Node_Properties
  imports Feed_Node_Spec
begin

section \<open>Properties of change feed nodes\<close>

text \<open>
  The calls a change feed node receives from its sources, its sinks, its readers and its owner are gathered in \<open>feed_call\<close>, and the
  properties are about every sequence of them: no reader of a scan sees an outdated feed without a notification, an update applies the closure
  exactly when a source really changed, and a finished edit notifies the sinks.
\<close>

subsection \<open>The operations of a node as calls\<close>

datatype 'f feed_call =
    FeedCheck bind_key
  | FeedUnbind bind_key
  | FeedRebind slot bind_key "sink option"
  | FeedBorrow "sink option"
  | FeedRead "sink option" feed_reader
  | FeedGuardDrop
  | FeedNotify dirty_level      \<comment> \<open>from a source of the scan\<close>
  | FeedScheduled               \<comment> \<open>from \<open>schedule_notify\<close>, after a loose edit\<close>
  | FeedEdit "'f list"
  | FeedEditLoose "'f list"

fun feed_do ::
    "('s, sink_binding) slab_ops \<Rightarrow> ('c \<Rightarrow> 'm \<Rightarrow> 'm) \<Rightarrow> ('f \<Rightarrow> 'm \<Rightarrow> ('m \<times> 'c list) result) \<Rightarrow> ('w, 'm, 'f) node_env \<Rightarrow> nid
       \<Rightarrow> 'f feed_call \<Rightarrow> ('m, 'c, 's) feed_node \<times> 'w \<Rightarrow> (('m, 'c, 's) feed_node \<times> 'w) result" where
  "feed_do ops rel fe env this (FeedCheck key) (n, w) = res_bind (feed_node_check ops rel fe env key n w) (\<lambda>(_, n1, w1). Inr (n1, w1))"
| "feed_do ops rel fe env this (FeedUnbind key) (n, w) = Inr (feed_node_unbind ops key n, w)"
| "feed_do ops rel fe env this (FeedRebind slot key ko) (n, w) = res_bind (feed_node_rebind ops env this slot key ko n w) (\<lambda>(_, n1, w1). Inr (n1, w1))"
| "feed_do ops rel fe env this (FeedBorrow ko) (n, w) = res_bind (feed_borrow ops rel fe env this ko n w) (\<lambda>(_, _, n1, w1). Inr (n1, w1))"
| "feed_do ops rel fe env this (FeedRead ko r) (n, w) = res_bind (feed_reader_read ops rel fe env this ko r n w) (\<lambda>(_, _, _, n1, w1). Inr (n1, w1))"
| "feed_do ops rel fe env this FeedGuardDrop (n, w) = res_bind (ref_drop rel (fn_storage n)) (\<lambda>st. Inr (n\<lparr>fn_storage := st\<rparr>, w))"
| "feed_do ops rel fe env this (FeedNotify level) (n, w) = feed_node_notify ops env feed_source_slot level n w"
| "feed_do ops rel fe env this FeedScheduled (n, w) = feed_node_notify ops env feed_local_slot LevelDirty n w"
| "feed_do ops rel fe env this (FeedEdit fs) (n, w) = feed_borrow_mut ops rel fe env this fs n w"
| "feed_do ops rel fe env this (FeedEditLoose fs) (n, w) = feed_borrow_mut_loose ops rel fe env this fs n w"

definition binder_clean_opt :: "source_binder option \<Rightarrow> bool" where
  "binder_clean_opt b \<longleftrightarrow> (case b of None \<Rightarrow> True | Some b \<Rightarrow> binder_is_clean b)"

definition safe_setting :: "('s, sink_binding) slab_ops \<Rightarrow> ('w, 'm, 'f) node_env \<Rightarrow> ('f \<Rightarrow> 'm \<Rightarrow> ('m \<times> 'c list) result) \<Rightarrow> bool" where
  "safe_setting ops env fe \<longleftrightarrow> slab_laws ops \<and> env_safe env \<and> (\<forall>f m. not_stale (fe f m))"

definition feed_coherent ::
    "('s, sink_binding) slab_ops \<Rightarrow> ('w, 'm, 'f) node_env \<Rightarrow> ('f \<Rightarrow> 'm \<Rightarrow> ('m \<times> 'c list) result) \<Rightarrow> ('m, 'c, 's) feed_node \<Rightarrow> bool" where
  "feed_coherent ops env fe n \<longleftrightarrow> safe_setting ops env fe \<and> flags_ok ops (binder_clean_opt (fn_binder n)) (fn_sinks n)"

lemma feed_update_coherent:
  assumes n: "feed_coherent ops env fe n" and run: "feed_node_update ops rel fe env n w = Inr (n', w')"
  shows "feed_coherent ops env fe n'" and "binder_clean_opt (fn_binder n')" and "flags_ok ops True (fn_sinks n')"
proof -
  have "feed_coherent ops env fe n' \<and> binder_clean_opt (fn_binder n') \<and> flags_ok ops True (fn_sinks n')"
  proof (cases "fn_binder n")
    case None
    then show ?thesis using n run by (simp add: feed_node_update_def feed_coherent_def binder_clean_opt_def)
  next
    case (Some b)
    then obtain b1 st1 S1 where r: "feed_refresh ops rel fe env b (fn_storage n) (fn_sinks n) w = Inr (b1, st1, S1, w')"
      "n' = \<lparr>fn_storage = st1, fn_binder = Some b1, fn_sinks = S1\<rparr>" using run by (auto simp: feed_node_update_def res_bind_eq_Inr)
    have s: "safe_setting ops env fe" and f: "flags_ok ops (binder_is_clean b) (fn_sinks n)" using n Some by (simp_all add: feed_coherent_def binder_clean_opt_def)
    have "slab_laws ops" using s by (simp add: safe_setting_def)
    from refresh_flags [OF this f r(1)] s show ?thesis by (simp add: feed_coherent_def binder_clean_opt_def r(2))
  qed
  then show "feed_coherent ops env fe n'" "binder_clean_opt (fn_binder n')" "flags_ok ops True (fn_sinks n')" by blast+
qed

lemma feed_update_safe: "feed_coherent ops env fe n \<Longrightarrow> not_stale (feed_node_update ops rel fe env n w)"
  unfolding feed_node_update_def
  by (auto simp: feed_coherent_def safe_setting_def split: option.split intro!: not_stale_intro refresh_not_stale)

lemma is_dirty_flag: "map_option sb_dirty (slab_get ops S key) = Some d \<Longrightarrow> d \<noteq> MaybeDirty \<Longrightarrow> sinks_is_dirty ops key S = Inr (d = Dirty)"
  using sinks_is_dirty_ok by fastforce

lemma is_dirty_vacant: "map_option sb_dirty (slab_get ops S key) = None \<Longrightarrow> not_stale (sinks_is_dirty ops key S)"
  by (simp add: sinks_is_dirty_def not_stale_def)

interpretation feed_pull: pull_node "feed_node_update ops rel fe env" "\<lambda>key n. sinks_is_dirty ops key (fn_sinks n)"
    "\<lambda>n key. map_option sb_dirty (slab_get ops (fn_sinks n) key)" "feed_coherent ops env fe"
  for ops :: "('s, sink_binding) slab_ops" and rel :: "'c \<Rightarrow> 'm \<Rightarrow> 'm" and fe :: "'f \<Rightarrow> 'm \<Rightarrow> ('m \<times> 'c list) result" and env :: "('w, 'm, 'f) node_env"
proof
  fix n n' :: "('m, 'c, 's) feed_node" and w w' :: 'w and key
  assume n: "feed_coherent ops env fe n" and run: "feed_node_update ops rel fe env n w = Inr (n', w')"
  show "feed_coherent ops env fe n'" by (rule feed_update_coherent(1) [OF n run])
  show "map_option sb_dirty (slab_get ops (fn_sinks n') key) \<noteq> Some MaybeDirty"
    using feed_update_coherent(3) [OF n run] by (auto simp: flags_ok_def)
qed (simp_all add: feed_update_safe is_dirty_flag is_dirty_vacant)

lemma feed_check_eq:
  "feed_node_check ops rel fe env key n w = check_node (feed_node_update ops rel fe env) (\<lambda>key n. sinks_is_dirty ops key (fn_sinks n)) key n w"
  by (simp add: feed_node_check_def check_node_def)

lemma feed_watch_ok:
  assumes n: "feed_coherent ops env fe n"
  shows "not_stale (feed_node_watch ops rel fe env this ko n w)"
    and "feed_node_watch ops rel fe env this ko n w = Inr (ko', n', w') \<Longrightarrow> feed_coherent ops env fe n'"
proof -
  have s: "slab_laws ops" "env_safe env" using n by (simp_all add: feed_coherent_def safe_setting_def)
  show "not_stale (feed_node_watch ops rel fe env this ko n w)"
    unfolding feed_node_watch_def feed_node_bind_def using s(2)
    by (auto intro!: not_stale_intro feed_update_safe [OF n])
  assume "feed_node_watch ops rel fe env this ko n w = Inr (ko', n', w')"
  then obtain n1 w1 S where u: "feed_node_update ops rel fe env n w = Inr (n1, w1)" "bind_sinks ops env this 0 ko (fn_sinks n1) w1 = Inr (S, ko', w')"
    "n' = n1\<lparr>fn_sinks := S\<rparr>" by (auto simp: feed_node_watch_def feed_node_bind_def res_bind_eq_Inr)
  note c = feed_update_coherent [OF n u(1)]
  show "feed_coherent ops env fe n'" using c(1,2) bind_flags [OF s(1) c(3) u(2)] by (simp add: feed_coherent_def u(3))
qed

lemma notify_coherent:
  assumes n: "feed_coherent ops env fe n" and run: "feed_node_notify ops env slot level n w = Inr (n', w')"
    and level: "slot = feed_local_slot \<Longrightarrow> level = LevelDirty"
  shows "feed_coherent ops env fe n'"
proof -
  have s: "safe_setting ops env fe" and laws: "slab_laws ops" and f: "flags_ok ops (binder_clean_opt (fn_binder n)) (fn_sinks n)"
    using n by (simp_all add: feed_coherent_def safe_setting_def)
  show ?thesis
  proof (cases "slot = feed_local_slot")
    case True
    then obtain S where S: "sinks_notify ops (ge_notify env) level (fn_sinks n) w = Inr (S, w')" "n' = n\<lparr>fn_sinks := S\<rparr>"
      using run by (auto simp: feed_node_notify_def res_bind_eq_Inr)
    then show ?thesis using notify_flags(2) [OF laws S(1) level [OF True]] s by (simp add: feed_coherent_def all_dirty_flags)
  next
    case False
    show ?thesis
    proof (cases "fn_binder n")
      case None
      then show ?thesis using run False n by (simp add: feed_node_notify_def)
    next
      case (Some b)
      obtain need b1 where b1: "binder_on_notify slot level b = (need, b1)" by fastforce
      have need: "need \<longleftrightarrow> slot = sbr_slot b \<and> binder_is_clean b" "binder_is_clean b1 \<longleftrightarrow> slot \<noteq> sbr_slot b \<and> binder_is_clean b"
        using b1 by (auto simp: binder_on_notify_def binder_is_clean_def is_clean_def split: if_splits)
      show ?thesis
      proof (cases need)
        case True
        then obtain S where S: "sinks_notify ops (ge_notify env) LevelMaybeDirty (fn_sinks n) w = Inr (S, w')" "n' = n\<lparr>fn_binder := Some b1, fn_sinks := S\<rparr>"
          using run False Some b1 by (auto simp: feed_node_notify_def res_bind_eq_Inr)
        then show ?thesis using notify_flags(1) [OF laws S(1)] s need True by (simp add: feed_coherent_def binder_clean_opt_def)
      next
        case no: False
        then have "n' = n\<lparr>fn_binder := Some b1\<rparr>" using run False Some b1 by (simp add: feed_node_notify_def)
        moreover have "binder_is_clean b1 \<longleftrightarrow> binder_is_clean b" using no need by auto
        ultimately show ?thesis using f s Some by (simp add: feed_coherent_def binder_clean_opt_def)
      qed
    qed
  qed
qed

lemma notify_not_stale: "env_safe env \<Longrightarrow> not_stale (feed_node_notify ops env slot level n w)"
  unfolding feed_node_notify_def
  by (auto simp: not_stale_notify Let_def split: option.split prod.split intro!: not_stale_intro)

lemma finish_edit_ok:
  assumes n: "feed_coherent ops env fe n"
  shows "not_stale (finish_edit ops env this fin n w)" and "finish_edit ops env this fin n w = Inr (n', w') \<Longrightarrow> feed_coherent ops env fe n'"
proof -
  have s: "safe_setting ops env fe" "slab_laws ops" "env_safe env" using n by (simp_all add: feed_coherent_def safe_setting_def)
  show "not_stale (finish_edit ops env this fin n w)"
    unfolding finish_edit_def using s by (auto simp: not_stale_notify split: edit_finish.split intro!: not_stale_intro)
  show "finish_edit ops env this fin n w = Inr (n', w') \<Longrightarrow> feed_coherent ops env fe n'"
    using n s
    by (cases fin) (auto simp: finish_edit_def res_bind_eq_Inr feed_coherent_def intro!: all_dirty_flags dest: notify_all_dirty [OF s(2)])
qed

lemma edit_with_ok:
  assumes n: "feed_coherent ops env fe n"
  shows "not_stale (feed_edit_with ops rel fe env this fin fs n w)"
    and "feed_edit_with ops rel fe env this fin fs n w = Inr (n', w') \<Longrightarrow> feed_coherent ops env fe n'"
proof -
  have fe: "not_stale (fe f m)" for f m using n by (simp add: feed_coherent_def safe_setting_def)
  have st: "feed_coherent ops env fe n1 \<Longrightarrow> feed_coherent ops env fe (n1\<lparr>fn_storage := st\<rparr>)" for n1 st by (simp add: feed_coherent_def)
  show "not_stale (feed_edit_with ops rel fe env this fin fs n w)"
    unfolding feed_edit_with_def
    by (auto intro!: not_stale_intro feed_update_safe [OF n] not_stale_edit_run fe finish_edit_ok(1) [where fe = fe] st
        intro: feed_update_coherent(1) [OF n])
  show "feed_edit_with ops rel fe env this fin fs n w = Inr (n', w') \<Longrightarrow> feed_coherent ops env fe n'"
    by (auto simp: feed_edit_with_def res_bind_eq_Inr dest!: finish_edit_ok(2) [OF st [OF feed_update_coherent(1) [OF n]]])
qed

lemma feed_do_ok:
  assumes n: "feed_coherent ops env fe n"
  shows "not_stale (feed_do ops rel fe env this c (n, w))" and "feed_do ops rel fe env this c (n, w) = Inr (n', w') \<Longrightarrow> feed_coherent ops env fe n'"
proof -
  have s: "slab_laws ops" "env_safe env" using n by (simp_all add: feed_coherent_def safe_setting_def)
  have st: "feed_coherent ops env fe n1 \<Longrightarrow> feed_coherent ops env fe (n1\<lparr>fn_storage := st\<rparr>)" for n1 st by (simp add: feed_coherent_def)
  have sinks: "feed_coherent ops env fe (n\<lparr>fn_sinks := S\<rparr>)" if "flags_ok ops (binder_clean_opt (fn_binder n)) S" for S
    using n that by (simp add: feed_coherent_def)
  have flags: "flags_ok ops (binder_clean_opt (fn_binder n)) (fn_sinks n)" using n by (simp add: feed_coherent_def)
  note intros = not_stale_intro feed_watch_ok(1) [OF n] notify_not_stale edit_with_ok(1) [OF n] feed_pull.check_safe [OF n]
  have "not_stale (feed_do ops rel fe env this c (n, w)) \<and> (feed_do ops rel fe env this c (n, w) = Inr (n', w') \<longrightarrow> feed_coherent ops env fe n')"
  proof (cases c)
    case (FeedCheck key)
    then show ?thesis using feed_pull.check_coherent [OF n] by (auto simp: feed_check_eq res_bind_eq_Inr intro!: intros)
  next
    case (FeedUnbind key)
    then show ?thesis using sinks [OF flags_ok_remove [OF s(1) flags]] by (auto simp: feed_node_unbind_def not_stale_Inr)
  next
    case (FeedRebind slot key ko)
    then show ?thesis using sinks [OF rebind_flags [OF s(1) flags]] s(2)
      by (auto simp: feed_node_rebind_def res_bind_eq_Inr intro!: intros)
  next
    case (FeedBorrow ko)
    then show ?thesis by (auto simp: feed_borrow_def res_bind_eq_Inr intro!: intros st dest: feed_watch_ok(2) [OF n])
  next
    case (FeedRead ko r)
    then show ?thesis by (auto simp: feed_reader_read_def res_bind_eq_Inr intro!: intros st dest: feed_watch_ok(2) [OF n])
  next
    case FeedGuardDrop
    then show ?thesis by (auto simp: res_bind_eq_Inr intro!: intros st [OF n])
  next
    case (FeedNotify level)
    then show ?thesis using notify_coherent [OF n, of feed_source_slot level w n' w'] s(2)
      by (auto simp: feed_source_slot_def feed_local_slot_def intro!: intros)
  next
    case FeedScheduled
    then show ?thesis using notify_coherent [OF n, of feed_local_slot LevelDirty w n' w'] s(2) by (auto intro!: intros)
  next
    case (FeedEdit fs)
    then show ?thesis using edit_with_ok(2) [OF n] by (auto simp: feed_borrow_mut_def intro!: intros)
  next
    case (FeedEditLoose fs)
    then show ?thesis using edit_with_ok(2) [OF n] by (auto simp: feed_borrow_mut_loose_def intro!: intros)
  qed
  then show "not_stale (feed_do ops rel fe env this c (n, w))" "feed_do ops rel fe env this c (n, w) = Inr (n', w') \<Longrightarrow> feed_coherent ops env fe n'"
    by blast+
qed

interpretation feed_steps: node_steps "feed_do ops rel fe env this" "feed_coherent ops env fe"
  for ops :: "('s, sink_binding) slab_ops" and rel :: "'c \<Rightarrow> 'm \<Rightarrow> 'm" and fe :: "'f \<Rightarrow> 'm \<Rightarrow> ('m \<times> 'c list) result" and env :: "('w, 'm, 'f) node_env" and this
  by unfold_locales (auto intro: feed_do_ok)

lemma feed_new_coherent:
  assumes "safe_setting ops env fe"
  shows "feed_coherent ops env fe (feed_state_new ops m)" and "feed_coherent ops env fe (feed_state_from_scan ops this m)"
  using assms by (simp_all add: feed_coherent_def safe_setting_def feed_state_new_def feed_state_from_scan_def flags_ok_new)

subsection \<open>Scan nodes\<close>

definition feed_scan_coherent ::
    "('s, sink_binding) slab_ops \<Rightarrow> ('w, 'm, 'f) node_env \<Rightarrow> ('f \<Rightarrow> 'm \<Rightarrow> ('m \<times> 'c list) result) \<Rightarrow> ('m, 'c, 's) feed_scan \<Rightarrow> bool" where
  "feed_scan_coherent ops env fe n \<longleftrightarrow> safe_setting ops env fe \<and> flags_ok ops (binder_is_clean (fs_binder n)) (fs_sinks n)"

lemma feed_scan_update_ok:
  assumes n: "feed_scan_coherent ops env fe n"
  shows "not_stale (feed_scan_update ops rel fe env n w)"
    and "feed_scan_update ops rel fe env n w = Inr (n', w') \<Longrightarrow> feed_scan_coherent ops env fe n' \<and> flags_ok ops True (fs_sinks n')"
proof -
  have s: "slab_laws ops" "env_safe env" "\<And>f m. not_stale (fe f m)" and f: "flags_ok ops (binder_is_clean (fs_binder n)) (fs_sinks n)"
    using n by (simp_all add: feed_scan_coherent_def safe_setting_def)
  show "not_stale (feed_scan_update ops rel fe env n w)"
    unfolding feed_scan_update_def by (auto intro!: not_stale_intro refresh_not_stale s)
  assume "feed_scan_update ops rel fe env n w = Inr (n', w')"
  then obtain b1 st1 S1 where r: "feed_refresh ops rel fe env (fs_binder n) (fs_storage n) (fs_sinks n) w = Inr (b1, st1, S1, w')"
    "n' = \<lparr>fs_storage = st1, fs_binder = b1, fs_sinks = S1\<rparr>" by (auto simp: feed_scan_update_def res_bind_eq_Inr)
  show "feed_scan_coherent ops env fe n' \<and> flags_ok ops True (fs_sinks n')"
    using n refresh_flags [OF s(1) f r(1)] by (simp add: feed_scan_coherent_def r(2))
qed

interpretation scan_pull: pull_node "feed_scan_update ops rel fe env" "\<lambda>key n. sinks_is_dirty ops key (fs_sinks n)"
    "\<lambda>n key. map_option sb_dirty (slab_get ops (fs_sinks n) key)" "feed_scan_coherent ops env fe"
  for ops :: "('s, sink_binding) slab_ops" and rel :: "'c \<Rightarrow> 'm \<Rightarrow> 'm" and fe :: "'f \<Rightarrow> 'm \<Rightarrow> ('m \<times> 'c list) result" and env :: "('w, 'm, 'f) node_env"
proof
  fix n n' :: "('m, 'c, 's) feed_scan" and w w' :: 'w and key
  assume n: "feed_scan_coherent ops env fe n" and run: "feed_scan_update ops rel fe env n w = Inr (n', w')"
  note u = feed_scan_update_ok(2) [OF n run]
  show "feed_scan_coherent ops env fe n'" using u by blast
  show "map_option sb_dirty (slab_get ops (fs_sinks n') key) \<noteq> Some MaybeDirty" using u by (auto simp: flags_ok_def)
qed (simp_all add: feed_scan_update_ok(1) is_dirty_flag is_dirty_vacant)

subsection \<open>The properties\<close>

text \<open>A small setting for the witnesses: a number as model, edits that add to it, an environment that records the notified nodes.\<close>

definition ex_env :: "(nid list, nat, nat) node_env" where
  "ex_env = \<lparr>ge_check = (\<lambda>srcs w. Inr (True, [], w)), ge_run = (\<lambda>b m w. Inr ([m + 1, 2], [], [(0, 1)], w)),
     ge_notify = (\<lambda>b w. Inr (sb_sink b # w)), ge_unbind = (\<lambda>b w. Inr w), ge_schedule = (\<lambda>n slot w. n # w)\<rparr>"

definition ex_add :: "nat \<Rightarrow> nat \<Rightarrow> (nat \<times> nat list) result" where
  "ex_add k m = Inr (m + k, if k = 0 then [] else [k])"

definition ex_rel :: "nat \<Rightarrow> nat \<Rightarrow> nat" where
  "ex_rel c m = m"

lemma ex_setting: "safe_setting vec_slab ex_env ex_add"
  by (simp add: safe_setting_def vec_slab_laws env_safe_def ex_env_def ex_add_def not_stale_def)

definition ex_feed_node :: "(nat, nat, sink_binding option list) feed_node" where
  "ex_feed_node = \<lparr>fn_storage = feed_new 5, fn_binder = Some \<lparr>sbr_sources = [], sbr_dirty = Dirty, sbr_sink = 9, sbr_slot = 0\<rparr>,
     fn_sinks = [Some \<lparr>sb_sink = 3, sb_slot = 0, sb_dirty = MaybeDirty\<rparr>, Some \<lparr>sb_sink = 4, sb_slot = 0, sb_dirty = Dirty\<rparr>]\<rparr>"

lemma ex_feed_coherent: "feed_coherent vec_slab ex_env ex_add ex_feed_node"
  using ex_setting
  by (auto simp: feed_coherent_def flags_ok_def ex_feed_node_def binder_clean_opt_def binder_is_clean_def is_clean_def vec_slab_def vec_get_def
      less_Suc_eq nth_Cons' split: if_splits)

text \<open>
  C19. A change feed node never asks for an open flag. Whatever sequence of calls a new state derived by a scan gets (checks, reads, edits, notifications from its
  sources, bindings coming and going), none panics with \<open>is_dirty called before update()\<close>, unless the rest of the graph does. And when it is updated, \<open>check\<close>
  answers every dependant with its flag.
\<close>

theorem feed_never_stale:
  assumes safe: "safe_setting ops env fe"
  shows "case res_fold (feed_do ops rel fe env this) cs (feed_state_from_scan ops this m, w) of
      Inl e \<Rightarrow> e \<noteq> IsDirtyBeforeUpdate
    | Inr (n, w1) \<Rightarrow> (case feed_node_update ops rel fe env n w1 of
          Inl e \<Rightarrow> e \<noteq> IsDirtyBeforeUpdate
        | Inr (n2, w2) \<Rightarrow> (\<forall>key. case slab_get ops (fn_sinks n2) key of None \<Rightarrow> True
            | Some b \<Rightarrow> feed_node_check ops rel fe env key n w1 = Inr (sb_dirty b = Dirty, n2, w2)))"
proof -
  note n0 = feed_new_coherent(2) [OF safe, of this m]
  show ?thesis
  proof (cases "res_fold (feed_do ops rel fe env this) cs (feed_state_from_scan ops this m, w)")
    case (Inl e)
    then show ?thesis using feed_steps.run_safe [OF n0, of rel this cs w] by (simp add: not_stale_def)
  next
    case (Inr r)
    obtain n w1 where r: "r = (n, w1)" by (cases r)
    have n: "feed_coherent ops env fe n" using feed_steps.run_coherent [OF n0] Inr r by blast
    have "case slab_get ops (fn_sinks n2) key of None \<Rightarrow> True | Some b \<Rightarrow> feed_node_check ops rel fe env key n w1 = Inr (sb_dirty b = Dirty, n2, w2)"
      if "feed_node_update ops rel fe env n w1 = Inr (n2, w2)" for n2 w2 key
      using feed_pull.check_answer [OF n that, of key] by (auto simp: feed_check_eq split: option.split)
    then show ?thesis using Inr r feed_update_safe [OF n, of rel w1] by (auto simp: not_stale_def split: sum.split)
  qed
qed

theorem feed_never_stale_witness:
  "res_fold (feed_do vec_slab ex_rel ex_add ex_env 9)
     [FeedBorrow (Some \<lparr>sk_node = 7, sk_slot = 0, sk_sources = [], sk_len = 0\<rparr>), FeedGuardDrop, FeedNotify LevelMaybeDirty, FeedCheck 0]
     (feed_state_from_scan vec_slab 9 5, []) \<noteq> Inl IsDirtyBeforeUpdate"
  using feed_never_stale [OF ex_setting, of ex_rel 9
    "[FeedBorrow (Some \<lparr>sk_node = 7, sk_slot = 0, sk_sources = [], sk_len = 0\<rparr>), FeedGuardDrop, FeedNotify LevelMaybeDirty, FeedCheck 0]" 5 "[]"]
  by (auto split: sum.splits)

text \<open>
  C20. An update decides every open flag by whether the scan recorded a change. It leaves the binder clean; apart from the bindings that were removed
  meanwhile, a dependant that was \<open>MaybeDirty\<close> is \<open>Dirty\<close> afterwards if the log has grown and \<open>Clean\<close> if not, and every other flag stays.
\<close>

theorem feed_update_exact:
  assumes n: "feed_coherent ops env fe n" and run: "feed_node_update ops rel fe env n w = Inr (n', w')"
  shows "binder_clean_opt (fn_binder n')
    \<and> (\<exists>us. \<forall>key. slab_get ops (fn_sinks n') key = (if key \<in> us then None
        else map_option (if binder_clean_opt (fn_binder n) then id else resolve_binding (end_cursor (fn_storage n') \<noteq> end_cursor (fn_storage n))) (slab_get ops (fn_sinks n) key)))"
proof (cases "binder_clean_opt (fn_binder n)")
  case True
  then have "n' = n"
    using run by (cases "fn_binder n") (auto simp: feed_node_update_def feed_refresh_def binder_clean_opt_def)
  then show ?thesis using True by (auto simp: option.map_id intro!: exI [of _ "{}"])
next
  case False
  then obtain b where b: "fn_binder n = Some b" "\<not> binder_is_clean b" by (auto simp: binder_clean_opt_def split: option.splits)
  then obtain b1 st1 S1 where r: "feed_refresh ops rel fe env b (fn_storage n) (fn_sinks n) w = Inr (b1, st1, S1, w')"
    "n' = \<lparr>fn_storage = st1, fn_binder = Some b1, fn_sinks = S1\<rparr>" using run by (auto simp: feed_node_update_def res_bind_eq_Inr)
  have "slab_laws ops" using n by (simp add: feed_coherent_def safe_setting_def)
  note ok = refresh_ok [OF this b(2) r(1)]
  have "binder_clean_opt (fn_binder n')" using ok(1) by (simp add: r(2) binder_clean_opt_def)
  moreover obtain us where "\<forall>key. slab_get ops S1 key = (if key \<in> us then None
      else map_option (resolve_binding (end_cursor st1 \<noteq> end_cursor (fn_storage n))) (slab_get ops (fn_sinks n) key))" using ok(3) by metis
  ultimately show ?thesis using False by (intro conjI exI [of _ us]) (simp_all add: r(2))
qed

theorem feed_update_exact_witness:
  "\<exists>n' w'. feed_node_update vec_slab ex_rel ex_add ex_env ex_feed_node [] = Inr (n', w') \<and> binder_clean_opt (fn_binder n')"
proof -
  have "\<not> isl (feed_node_update vec_slab ex_rel ex_add ex_env ex_feed_node [])" by code_simp
  then obtain n' w' where "feed_node_update vec_slab ex_rel ex_add ex_env ex_feed_node [] = Inr (n', w')"
    by (cases "feed_node_update vec_slab ex_rel ex_add ex_env ex_feed_node []") auto
  then show ?thesis using feed_update_exact [OF ex_feed_coherent] by blast
qed

text \<open>
  C21. A direct edit through \<open>borrow_mut\<close> notifies exactly when it recorded a change: then every dependant is \<open>Dirty\<close>, and those that were
  clean have been called, each once and in the order of the slab map; otherwise no dependant is called and no flag changes.
\<close>

theorem feed_edit_notifies:
  assumes n: "feed_coherent ops env fe n" and upd: "feed_node_update ops rel fe env n w = Inr (n1, w1)"
    and run: "feed_borrow_mut ops rel fe env this fs n w = Inr (n', w')"
  shows "if end_cursor (fn_storage n') = end_cursor (fn_storage n1) then fn_sinks n' = fn_sinks n1 \<and> w' = w1
    else all_dirty ops (fn_sinks n') \<and> res_fold (ge_notify env) (clean_bindings ops (fn_sinks n1)) w1 = Inr w'"
proof -
  have laws: "slab_laws ops" using n by (simp add: feed_coherent_def safe_setting_def)
  obtain fin st where e: "feed_edit_run rel FinishNotify (map fe fs) (fn_storage n1) = Inr (fin, st)"
    "finish_edit ops env this fin (n1\<lparr>fn_storage := st\<rparr>) w1 = Inr (n', w')"
    using run upd by (auto simp: feed_borrow_mut_def feed_edit_with_def res_bind_eq_Inr)
  note fin = edit_run_finish [OF e(1)]
  show ?thesis
  proof (cases "end_cursor st = end_cursor (fn_storage n1)")
    case True
    then show ?thesis using fin e(2) by (auto simp: finish_edit_def)
  next
    case False
    then obtain S where S: "sinks_notify ops (ge_notify env) LevelDirty (fn_sinks n1) w1 = Inr (S, w')" "n' = n1\<lparr>fn_storage := st, fn_sinks := S\<rparr>"
      using fin e(2) by (auto simp: finish_edit_def res_bind_eq_Inr)
    have "res_fold (ge_notify env) (clean_bindings ops (fn_sinks n1)) w1 = Inr w'"
      using S(1) sinks_notify_run [OF laws, where call = "ge_notify env" and level = LevelDirty and S = "fn_sinks n1" and w = w1]
      by (cases "res_fold (ge_notify env) (clean_bindings ops (fn_sinks n1)) w1") fastforce+
    then show ?thesis using False S notify_all_dirty [OF laws S(1)] by simp
  qed
qed

theorem feed_edit_notifies_witness:
  "\<exists>n' w'. feed_borrow_mut vec_slab ex_rel ex_add ex_env 9 [4, 0] ex_feed_node [] = Inr (n', w') \<and> all_dirty vec_slab (fn_sinks n')"
proof -
  let ?u = "feed_node_update vec_slab ex_rel ex_add ex_env ex_feed_node []"
  let ?r = "feed_borrow_mut vec_slab ex_rel ex_add ex_env 9 [4, 0] ex_feed_node []"
  have e: "case ?u of Inl _ \<Rightarrow> False | Inr (n1, w1) \<Rightarrow> (case ?r of Inl _ \<Rightarrow> False | Inr (n', w') \<Rightarrow> end_cursor (fn_storage n') \<noteq> end_cursor (fn_storage n1))"
    by code_simp
  then obtain n1 w1 n' w' where r: "?u = Inr (n1, w1)" "?r = Inr (n', w')" by (auto split: sum.splits)
  then have "end_cursor (fn_storage n') \<noteq> end_cursor (fn_storage n1)" using e by simp
  then show ?thesis using r feed_edit_notifies [OF ex_feed_coherent r] by simp
qed

text \<open>
  The derived signal: \<open>check\<close> of a \<open>ScanNode\<close> brings it up to date and then answers the dependant that asked with its flag, leaving no open flag behind.
\<close>

lemma feed_scan_check_answers:
  assumes n: "feed_scan_coherent ops env fe n" and run: "feed_scan_update ops rel fe env n w = Inr (n', w')"
    and bound: "slab_get ops (fs_sinks n') key = Some b"
  shows "feed_scan_check ops rel fe env key n w = Inr (sb_dirty b = Dirty, n', w') \<and> feed_scan_coherent ops env fe n' \<and> sb_dirty b \<noteq> MaybeDirty"
  using scan_pull.check_answer [OF n run, of key] scan_pull.pull_coherent [OF n run] scan_pull.pull_decides [OF n run, of key] bound
  by (simp add: feed_scan_check_def check_node_def)

lemma feed_scan_check_answers_example:
  "\<exists>n' w'. feed_scan_check vec_slab ex_rel ex_add ex_env 0 \<lparr>fs_storage = feed_new 5, fs_binder = binder_new 9 0,
       fs_sinks = [Some \<lparr>sb_sink = 3, sb_slot = 0, sb_dirty = MaybeDirty\<rparr>]\<rparr> [] = Inr (True, n', w')"
proof -
  let ?n = "\<lparr>fs_storage = feed_new 5, fs_binder = binder_new 9 0, fs_sinks = [Some \<lparr>sb_sink = 3, sb_slot = 0, sb_dirty = MaybeDirty\<rparr>]\<rparr> :: (nat, nat, sink_binding option list) feed_scan"
  let ?u = "feed_scan_update vec_slab ex_rel ex_add ex_env ?n []"
  have n: "feed_scan_coherent vec_slab ex_env ex_add ?n"
    using ex_setting by (auto simp: feed_scan_coherent_def flags_ok_def binder_new_def binder_is_clean_def is_clean_def vec_slab_def vec_get_def split: if_splits)
  have e: "case ?u of Inl _ \<Rightarrow> False | Inr (n', w') \<Rightarrow> slab_get vec_slab (fs_sinks n') 0 = Some \<lparr>sb_sink = 3, sb_slot = 0, sb_dirty = Dirty\<rparr>" by code_simp
  then obtain n' w' where r: "?u = Inr (n', w')" by (auto split: sum.splits)
  then have "slab_get vec_slab (fs_sinks n') 0 = Some \<lparr>sb_sink = 3, sb_slot = 0, sb_dirty = Dirty\<rparr>" using e by simp
  from feed_scan_check_answers [OF n r this] show ?thesis by auto
qed

end
