(* ===== verification/Slab_Node.thy ===== *)
theory Slab_Node
  imports Slab_Map_Model Feed_Node
begin

section \<open>Slab map nodes (collections/slab_map.rs)\<close>

text \<open>
  Dependants of a slab map are bound per item, so that an edit only reaches those that read an item it touched. A \<open>StateSlabMap\<close> has
  a change feed node for the whole map and \<open>ItemSinkBindings\<close> for the items; a \<open>Scan\<close> keeps both in a \<open>SinkBindingsSet\<close>, with the
  slot of an item being its key and \<open>SLOT_ITEMS\<close> the slot of the whole map. \<open>iops\<close> is the slab map of the items, \<open>ops\<close> that of the bindings.
\<close>

subsection \<open>ItemSinkBindings\<close>

text \<open>\<open>Vec::resize_with(key + 1, SinkBindings::new)\<close>, when the vector is too short.\<close>

definition items_grow :: "('k, sink_binding) slab_ops \<Rightarrow> nat \<Rightarrow> 'k list \<Rightarrow> 'k list result" where
  "items_grow ops key xs =
     (if length xs \<le> key then if key = 2 ^ 64 - 1 then Inl ArithOverflow else Inr (xs @ replicate (key + 1 - length xs) (slab_new ops))
      else Inr xs)"

lemma items_grow_code [code]:
  "items_grow ops key xs =
     (if length xs \<le> key then if int key = 18446744073709551615 then Inl ArithOverflow else Inr (xs @ replicate (key + 1 - length xs) (slab_new ops))
      else Inr xs)"
  by (simp add: items_grow_def)

definition item_sinks_bind ::
    "('k, sink_binding) slab_ops \<Rightarrow> ('w, 'm, 'f) node_env \<Rightarrow> nid \<Rightarrow> nat \<Rightarrow> sink option \<Rightarrow> 'k list \<Rightarrow> 'w \<Rightarrow> ('k list \<times> sink option \<times> 'w) result" where
  "item_sinks_bind ops env this key ko xs w =
     res_bind (items_grow ops key xs) (\<lambda>xs1.
     res_bind (key_to_slot key) (\<lambda>slot.
     res_bind (bind_sinks ops env this slot ko (xs1 ! key) w) (\<lambda>(S, ko1, w1). Inr (xs1[key := S], ko1, w1))))"

definition item_sinks_unbind :: "('k, sink_binding) slab_ops \<Rightarrow> nat \<Rightarrow> bind_key \<Rightarrow> 'k list \<Rightarrow> 'k list" where
  "item_sinks_unbind ops item key xs = (if item < length xs then xs[item := sinks_unbind ops key (xs ! item)] else xs)"

definition item_sinks_rebind ::
    "('k, sink_binding) slab_ops \<Rightarrow> ('w, 'm, 'f) node_env \<Rightarrow> nid \<Rightarrow> nat \<Rightarrow> bind_key \<Rightarrow> sink option \<Rightarrow> 'k list \<Rightarrow> 'w
       \<Rightarrow> ('k list \<times> sink option \<times> 'w) result" where
  "item_sinks_rebind ops env this item key ko xs w =
     (if item < length xs
      then res_bind (key_to_slot item) (\<lambda>slot. res_bind (rebind_sinks ops env this slot key ko (xs ! item) w) (\<lambda>(S, ko1, w1). Inr (xs[item := S], ko1, w1)))
      else Inr (xs, ko, w))"

definition item_sinks_is_dirty :: "('k, sink_binding) slab_ops \<Rightarrow> nat \<Rightarrow> bind_key \<Rightarrow> 'k list \<Rightarrow> bool result" where
  "item_sinks_is_dirty ops item key xs = (if item < length xs then sinks_is_dirty ops key (xs ! item) else Inr True)"

definition item_sinks_notify :: "('k, sink_binding) slab_ops \<Rightarrow> ('w, 'm, 'f) node_env \<Rightarrow> nat \<Rightarrow> 'k list \<Rightarrow> 'w \<Rightarrow> ('k list \<times> 'w) result" where
  "item_sinks_notify ops env item xs w =
     (if item < length xs then res_bind (sinks_notify ops (ge_notify env) LevelDirty (xs ! item) w) (\<lambda>(S, w1). Inr (xs[item := S], w1))
      else Inr (xs, w))"

subsection \<open>SinkBindingsSet\<close>

record 'k sink_set =
  ss_items :: "'k list"
  ss_any :: 'k

definition sink_set_new :: "('k, sink_binding) slab_ops \<Rightarrow> 'k sink_set" where
  "sink_set_new ops = \<lparr>ss_items = [], ss_any = slab_new ops\<rparr>"

definition set_get :: "slot \<Rightarrow> 'k sink_set \<Rightarrow> 'k option" where
  "set_get slot s = (case slot_to_key slot of
       Some key \<Rightarrow> if key < length (ss_items s) then Some (ss_items s ! key) else None
     | None \<Rightarrow> Some (ss_any s))"

text \<open>Assignment through \<open>get_mut\<close>.\<close>

definition set_put :: "slot \<Rightarrow> 'k \<Rightarrow> 'k sink_set \<Rightarrow> 'k sink_set" where
  "set_put slot S s = (case slot_to_key slot of Some key \<Rightarrow> s\<lparr>ss_items := (ss_items s)[key := S]\<rparr> | None \<Rightarrow> s\<lparr>ss_any := S\<rparr>)"

definition update_item :: "('k, sink_binding) slab_ops \<Rightarrow> nat \<Rightarrow> 'k list \<Rightarrow> 'k list" where
  "update_item ops key xs = (if key < length xs then xs[key := sinks_update ops True (xs ! key)] else xs)"

definition set_update_changed :: "('k, sink_binding) slab_ops \<Rightarrow> nat list \<Rightarrow> 'k sink_set \<Rightarrow> 'k sink_set" where
  "set_update_changed ops keys s =
     (let s1 = s\<lparr>ss_items := fold (update_item ops) keys (ss_items s)\<rparr>
      in if keys \<noteq> [] then s1\<lparr>ss_any := sinks_update ops True (ss_any s1)\<rparr> else s1)"

definition set_update_all :: "('k, sink_binding) slab_ops \<Rightarrow> bool \<Rightarrow> 'k sink_set \<Rightarrow> 'k sink_set" where
  "set_update_all ops changed s = \<lparr>ss_items = map (sinks_update ops changed) (ss_items s), ss_any = sinks_update ops changed (ss_any s)\<rparr>"

fun notify_list ::
    "('k, sink_binding) slab_ops \<Rightarrow> (sink_binding \<Rightarrow> 'w \<Rightarrow> 'w result) \<Rightarrow> dirty_level \<Rightarrow> 'k list \<Rightarrow> 'w \<Rightarrow> ('k list \<times> 'w) result" where
  "notify_list ops call level [] w = Inr ([], w)"
| "notify_list ops call level (S # xs) w =
     res_bind (sinks_notify ops call level S w) (\<lambda>(S1, w1).
     res_bind (notify_list ops call level xs w1) (\<lambda>(ys, w2). Inr (S1 # ys, w2)))"

definition set_notify_all ::
    "('k, sink_binding) slab_ops \<Rightarrow> (sink_binding \<Rightarrow> 'w \<Rightarrow> 'w result) \<Rightarrow> dirty_level \<Rightarrow> 'k sink_set \<Rightarrow> 'w \<Rightarrow> ('k sink_set \<times> 'w) result" where
  "set_notify_all ops call level s w =
     res_bind (notify_list ops call level (ss_items s) w) (\<lambda>(xs, w1).
     res_bind (sinks_notify ops call level (ss_any s) w1) (\<lambda>(S, w2). Inr (\<lparr>ss_items = xs, ss_any = S\<rparr>, w2)))"

definition set_bind ::
    "('k, sink_binding) slab_ops \<Rightarrow> ('w, 'm, 'f) node_env \<Rightarrow> nid \<Rightarrow> slot \<Rightarrow> sink option \<Rightarrow> 'k sink_set \<Rightarrow> 'w
       \<Rightarrow> ('k sink_set \<times> sink option \<times> 'w) result" where
  "set_bind ops env this slot ko s w = (case slot_to_key slot of
       Some key \<Rightarrow> res_bind (items_grow ops key (ss_items s)) (\<lambda>xs.
         res_bind (bind_sinks ops env this slot ko (xs ! key) w) (\<lambda>(S, ko1, w1). Inr (s\<lparr>ss_items := xs[key := S]\<rparr>, ko1, w1)))
     | None \<Rightarrow> res_bind (bind_sinks ops env this slot ko (ss_any s) w) (\<lambda>(S, ko1, w1). Inr (s\<lparr>ss_any := S\<rparr>, ko1, w1)))"

definition set_unbind :: "('k, sink_binding) slab_ops \<Rightarrow> slot \<times> bind_key \<Rightarrow> 'k sink_set \<Rightarrow> 'k sink_set" where
  "set_unbind ops = (\<lambda>(slot, key) s. case set_get slot s of None \<Rightarrow> s | Some S \<Rightarrow> set_put slot (sinks_unbind ops key S) s)"

definition set_rebind ::
    "('k, sink_binding) slab_ops \<Rightarrow> ('w, 'm, 'f) node_env \<Rightarrow> nid \<Rightarrow> slot \<Rightarrow> bind_key \<Rightarrow> sink option \<Rightarrow> 'k sink_set \<Rightarrow> 'w
       \<Rightarrow> ('k sink_set \<times> sink option \<times> 'w) result" where
  "set_rebind ops env this slot key ko s w = (case set_get slot s of
       None \<Rightarrow> Inr (s, ko, w)
     | Some S \<Rightarrow> res_bind (rebind_sinks ops env this slot key ko S w) (\<lambda>(S1, ko1, w1). Inr (set_put slot S1 s, ko1, w1)))"

definition set_is_dirty :: "('k, sink_binding) slab_ops \<Rightarrow> slot \<Rightarrow> bind_key \<Rightarrow> 'k sink_set \<Rightarrow> bool result" where
  "set_is_dirty ops slot key s = (case set_get slot s of None \<Rightarrow> Inr True | Some S \<Rightarrow> sinks_is_dirty ops key S)"

subsection \<open>Scan\<close>

record ('s, 'k) slab_scan =
  sl_storage :: "('s slab_items, sm_change) feed"
  sl_binder :: source_binder
  sl_sinks :: "'k sink_set"

definition slab_scan_new :: "('s, 'v item) slab_ops \<Rightarrow> ('k, sink_binding) slab_ops \<Rightarrow> nid \<Rightarrow> ('s, 'k) slab_scan" where
  "slab_scan_new iops ops this = \<lparr>sl_storage = feed_new (si_new iops), sl_binder = binder_new this 0, sl_sinks = sink_set_new ops\<rparr>"

text \<open>The run of the closure on \<open>pending.current()\<close>; dropping \<open>PendingEdit\<close> records what it did.\<close>

definition slab_scan_run ::
    "('s, 'v item) slab_ops \<Rightarrow> 'v slab_edit list \<Rightarrow> feed_edit \<times> ('s slab_items, sm_change) feed
       \<Rightarrow> ((feed_edit \<times> ('s slab_items, sm_change) feed) \<times> nat list) result" where
  "slab_scan_run iops es = (\<lambda>(e, st).
     res_bind (res_fold (slab_edit_one iops) es (fd_current st)) (\<lambda>m.
       Inr (record_pending_into (e, edit_current_mut (\<lambda>_. m) st) [])))"

definition slab_scan_update ::
    "('s, 'v item) slab_ops \<Rightarrow> ('k, sink_binding) slab_ops \<Rightarrow> ('w, 's slab_items, 'v slab_edit) node_env
       \<Rightarrow> ('s, 'k) slab_scan \<Rightarrow> 'w \<Rightarrow> (('s, 'k) slab_scan \<times> 'w) result" where
  "slab_scan_update iops ops env n w =
     (if binder_is_clean (sl_binder n) then Inr (n, w)
      else res_bind (binder_check_with env (sl_binder n) w) (\<lambda>(r, b1, us, w1).
        let S1 = fold (set_unbind ops) us (sl_sinks n) in
        if \<not> r then Inr (\<lparr>sl_storage = sl_storage n, sl_binder = b1, sl_sinks = set_update_all ops False S1\<rparr>, w1)
        else res_bind (begin_edit (sm_release iops) (sl_storage n)) (\<lambda>(e, st1).
          res_bind (ge_run env (b1\<lparr>sbr_dirty := Clean\<rparr>) (fd_current st1) w1) (\<lambda>(es, srcs, us1, w2).
          res_bind (slab_scan_run iops es (e, st1)) (\<lambda>((e1, st2), keys).
          res_bind (edit_drop (sm_release iops) e1 st2) (\<lambda>(fin, st3).
            let S2 = set_update_changed ops keys (fold (set_unbind ops) us1 S1)
            in Inr (\<lparr>sl_storage = st3, sl_binder = b1\<lparr>sbr_dirty := Clean, sbr_sources := srcs\<rparr>, sl_sinks = set_update_all ops False S2\<rparr>, w2)))))))"

definition slab_scan_watch ::
    "('s, 'v item) slab_ops \<Rightarrow> ('k, sink_binding) slab_ops \<Rightarrow> ('w, 's slab_items, 'v slab_edit) node_env \<Rightarrow> nid \<Rightarrow> slot
       \<Rightarrow> sink option \<Rightarrow> ('s, 'k) slab_scan \<Rightarrow> 'w \<Rightarrow> (sink option \<times> ('s, 'k) slab_scan \<times> 'w) result" where
  "slab_scan_watch iops ops env this slot ko n w =
     res_bind (slab_scan_update iops ops env n w) (\<lambda>(n1, w1).
     res_bind (set_bind ops env this slot ko (sl_sinks n1) w1) (\<lambda>(S, ko1, w2). Inr (ko1, n1\<lparr>sl_sinks := S\<rparr>, w2)))"

definition slab_scan_item ::
    "('s, 'v item) slab_ops \<Rightarrow> ('k, sink_binding) slab_ops \<Rightarrow> ('w, 's slab_items, 'v slab_edit) node_env \<Rightarrow> nid \<Rightarrow> nat
       \<Rightarrow> sink option \<Rightarrow> ('s, 'k) slab_scan \<Rightarrow> 'w \<Rightarrow> ('v \<times> sink option \<times> ('s, 'k) slab_scan \<times> 'w) result" where
  "slab_scan_item iops ops env this key ko n w =
     res_bind (key_to_slot key) (\<lambda>slot.
     res_bind (slab_scan_watch iops ops env this slot ko n w) (\<lambda>(ko1, n1, w1).
     res_bind (current_ref (sm_release iops) (sl_storage n1)) (\<lambda>(m, st).
     res_bind (si_index iops m key) (\<lambda>v. Inr (v, ko1, n1\<lparr>sl_storage := st\<rparr>, w1)))))"

definition slab_scan_items ::
    "('s, 'v item) slab_ops \<Rightarrow> ('k, sink_binding) slab_ops \<Rightarrow> ('w, 's slab_items, 'v slab_edit) node_env \<Rightarrow> nid
       \<Rightarrow> sink option \<Rightarrow> ('s, 'k) slab_scan \<Rightarrow> 'w \<Rightarrow> (feed_ref \<times> sink option \<times> ('s, 'k) slab_scan \<times> 'w) result" where
  "slab_scan_items iops ops env this ko n w =
     res_bind (slab_scan_watch iops ops env this slot_items ko n w) (\<lambda>(ko1, n1, w1).
     res_bind (borrow_current (sm_release iops) (sl_storage n1)) (\<lambda>(g, st). Inr (g, ko1, n1\<lparr>sl_storage := st\<rparr>, w1)))"

definition slab_scan_check ::
    "('s, 'v item) slab_ops \<Rightarrow> ('k, sink_binding) slab_ops \<Rightarrow> ('w, 's slab_items, 'v slab_edit) node_env \<Rightarrow> slot \<Rightarrow> bind_key
       \<Rightarrow> ('s, 'k) slab_scan \<Rightarrow> 'w \<Rightarrow> (bool \<times> ('s, 'k) slab_scan \<times> 'w) result" where
  "slab_scan_check iops ops env slot key n w =
     res_bind (slab_scan_update iops ops env n w) (\<lambda>(n1, w1).
     res_bind (set_is_dirty ops slot key (sl_sinks n1)) (\<lambda>d. Inr (d, n1, w1)))"

definition slab_scan_unbind :: "('k, sink_binding) slab_ops \<Rightarrow> slot \<Rightarrow> bind_key \<Rightarrow> ('s, 'k) slab_scan \<Rightarrow> ('s, 'k) slab_scan" where
  "slab_scan_unbind ops slot key n = n\<lparr>sl_sinks := set_unbind ops (slot, key) (sl_sinks n)\<rparr>"

definition slab_scan_rebind ::
    "('k, sink_binding) slab_ops \<Rightarrow> ('w, 's slab_items, 'v slab_edit) node_env \<Rightarrow> nid \<Rightarrow> slot \<Rightarrow> bind_key \<Rightarrow> sink option
       \<Rightarrow> ('s, 'k) slab_scan \<Rightarrow> 'w \<Rightarrow> (sink option \<times> ('s, 'k) slab_scan \<times> 'w) result" where
  "slab_scan_rebind ops env this slot key ko n w =
     res_bind (set_rebind ops env this slot key ko (sl_sinks n) w) (\<lambda>(S, ko1, w1). Inr (ko1, n\<lparr>sl_sinks := S\<rparr>, w1))"

definition slab_scan_notify ::
    "('k, sink_binding) slab_ops \<Rightarrow> ('w, 's slab_items, 'v slab_edit) node_env \<Rightarrow> slot \<Rightarrow> dirty_level \<Rightarrow> ('s, 'k) slab_scan \<Rightarrow> 'w
       \<Rightarrow> (('s, 'k) slab_scan \<times> 'w) result" where
  "slab_scan_notify ops env slot level n w =
     (let (need, b1) = binder_on_notify slot level (sl_binder n); n1 = n\<lparr>sl_binder := b1\<rparr> in
      if need then res_bind (set_notify_all ops (ge_notify env) LevelMaybeDirty (sl_sinks n1) w) (\<lambda>(S, w1). Inr (n1\<lparr>sl_sinks := S\<rparr>, w1))
      else Inr (n1, w))"

subsection \<open>StateSlabMap\<close>

record ('s, 'k) slab_state =
  sm_state :: "('s slab_items, sm_change, 'k) feed_node"
  sm_item_sinks :: "'k list"

definition slab_state_new :: "('s, 'v item) slab_ops \<Rightarrow> ('k, sink_binding) slab_ops \<Rightarrow> ('s, 'k) slab_state" where
  "slab_state_new iops ops = \<lparr>sm_state = feed_state_new ops (si_new iops), sm_item_sinks = []\<rparr>"

text \<open>The edit that \<open>insert\<close> and \<open>remove\<close> share: the operation, its record, the drop of the guard, the notification of the item.\<close>

definition slab_state_commit ::
    "('s, 'v item) slab_ops \<Rightarrow> ('k, sink_binding) slab_ops \<Rightarrow> ('w, 's slab_items, 'v slab_edit) node_env \<Rightarrow> nid
       \<Rightarrow> ('s slab_items \<Rightarrow> (nat \<times> 's slab_items) result) \<Rightarrow> ('s, 'k) slab_state \<Rightarrow> 'w \<Rightarrow> (nat \<times> ('s, 'k) slab_state \<times> 'w) result" where
  "slab_state_commit iops ops env this f n w =
     res_bind (feed_node_update ops (sm_release iops) (\<lambda>e m. slab_edits iops [e] m) env (sm_state n) w) (\<lambda>(fn, w1).
     res_bind (begin_edit (sm_release iops) (fn_storage fn)) (\<lambda>(e, st1).
     res_bind (f (fd_current st1)) (\<lambda>(key, m).
       let ((e1, st2), keys) = record_pending (with_finish FinishNotify e, edit_current_mut (\<lambda>_. m) st1) in
       res_bind (res_assert AssertFailed (keys = [key])) (\<lambda>_.
       res_bind (edit_drop (sm_release iops) e1 st2) (\<lambda>(fin, st3).
       res_bind (finish_edit ops env this fin (fn\<lparr>fn_storage := st3\<rparr>) w1) (\<lambda>(fn1, w2).
       res_bind (item_sinks_notify ops env key (sm_item_sinks n) w2) (\<lambda>(ss, w3).
         Inr (key, \<lparr>sm_state = fn1, sm_item_sinks = ss\<rparr>, w3))))))))"

definition slab_state_insert ::
    "('s, 'v item) slab_ops \<Rightarrow> ('k, sink_binding) slab_ops \<Rightarrow> ('w, 's slab_items, 'v slab_edit) node_env \<Rightarrow> nid \<Rightarrow> 'v
       \<Rightarrow> ('s, 'k) slab_state \<Rightarrow> 'w \<Rightarrow> (nat \<times> ('s, 'k) slab_state \<times> 'w) result" where
  "slab_state_insert iops ops env this v = slab_state_commit iops ops env this (\<lambda>m. Inr (si_insert iops v m))"

definition slab_state_remove ::
    "('s, 'v item) slab_ops \<Rightarrow> ('k, sink_binding) slab_ops \<Rightarrow> ('w, 's slab_items, 'v slab_edit) node_env \<Rightarrow> nid \<Rightarrow> nat
       \<Rightarrow> ('s, 'k) slab_state \<Rightarrow> 'w \<Rightarrow> (nat \<times> ('s, 'k) slab_state \<times> 'w) result" where
  "slab_state_remove iops ops env this key = slab_state_commit iops ops env this (\<lambda>m. res_bind (si_remove iops key m) (\<lambda>m1. Inr (key, m1)))"

definition slab_state_item ::
    "('s, 'v item) slab_ops \<Rightarrow> ('k, sink_binding) slab_ops \<Rightarrow> ('w, 's slab_items, 'v slab_edit) node_env \<Rightarrow> nid \<Rightarrow> nat
       \<Rightarrow> sink option \<Rightarrow> ('s, 'k) slab_state \<Rightarrow> 'w \<Rightarrow> ('v \<times> sink option \<times> ('s, 'k) slab_state \<times> 'w) result" where
  "slab_state_item iops ops env this key ko n w =
     res_bind (item_sinks_bind ops env this key ko (sm_item_sinks n) w) (\<lambda>(ss, ko1, w1).
     res_bind (current_ref (sm_release iops) (fn_storage (sm_state n))) (\<lambda>(m, st).
     res_bind (si_index iops m key) (\<lambda>v.
       Inr (v, ko1, \<lparr>sm_state = (sm_state n)\<lparr>fn_storage := st\<rparr>, sm_item_sinks = ss\<rparr>, w1))))"

definition slab_state_items ::
    "('s, 'v item) slab_ops \<Rightarrow> ('k, sink_binding) slab_ops \<Rightarrow> ('w, 's slab_items, 'v slab_edit) node_env \<Rightarrow> nid
       \<Rightarrow> sink option \<Rightarrow> ('s, 'k) slab_state \<Rightarrow> 'w \<Rightarrow> (feed_ref \<times> sink option \<times> ('s, 'k) slab_state \<times> 'w) result" where
  "slab_state_items iops ops env this ko n w =
     res_bind (feed_borrow ops (sm_release iops) (\<lambda>e m. slab_edits iops [e] m) env this ko (sm_state n) w) (\<lambda>(g, ko1, fn, w1).
       Inr (g, ko1, n\<lparr>sm_state := fn\<rparr>, w1))"

definition slab_state_check :: "('k, sink_binding) slab_ops \<Rightarrow> slot \<Rightarrow> bind_key \<Rightarrow> ('s, 'k) slab_state \<Rightarrow> bool result" where
  "slab_state_check ops slot key n =
     res_bind (res_of_option UnwrapNone (slot_to_key slot)) (\<lambda>item. item_sinks_is_dirty ops item key (sm_item_sinks n))"

definition slab_state_unbind :: "('k, sink_binding) slab_ops \<Rightarrow> slot \<Rightarrow> bind_key \<Rightarrow> ('s, 'k) slab_state \<Rightarrow> ('s, 'k) slab_state result" where
  "slab_state_unbind ops slot key n =
     res_bind (res_of_option UnwrapNone (slot_to_key slot)) (\<lambda>item. Inr (n\<lparr>sm_item_sinks := item_sinks_unbind ops item key (sm_item_sinks n)\<rparr>))"

definition slab_state_rebind ::
    "('k, sink_binding) slab_ops \<Rightarrow> ('w, 's slab_items, 'v slab_edit) node_env \<Rightarrow> nid \<Rightarrow> slot \<Rightarrow> bind_key \<Rightarrow> sink option
       \<Rightarrow> ('s, 'k) slab_state \<Rightarrow> 'w \<Rightarrow> (sink option \<times> ('s, 'k) slab_state \<times> 'w) result" where
  "slab_state_rebind ops env this slot key ko n w =
     res_bind (res_of_option UnwrapNone (slot_to_key slot)) (\<lambda>item.
     res_bind (item_sinks_rebind ops env this item key ko (sm_item_sinks n) w) (\<lambda>(ss, ko1, w1). Inr (ko1, n\<lparr>sm_item_sinks := ss\<rparr>, w1)))"

end
