(* ===== verification/Slab_Node_Spec.thy ===== *)
theory Slab_Node_Spec
  imports Slab_Node Slab_Map_Spec Feed_Node_Properties
begin

section \<open>Correctness of slab map nodes\<close>

text \<open>
  \<open>entry\<close> is the binding of one dependant of a \<open>SinkBindingsSet\<close>, whatever vector or field it is stored in; an update
  resolves it by whether the edit touched its item. Every operation keeps the flags of all dependants coherent with the binder.
\<close>

definition entry :: "('k, sink_binding) slab_ops \<Rightarrow> 'k sink_set \<Rightarrow> slot \<Rightarrow> bind_key \<Rightarrow> sink_binding option" where
  "entry ops s slot key = Option.bind (set_get slot s) (\<lambda>S. slab_get ops S key)"

definition hits :: "nat list \<Rightarrow> slot \<Rightarrow> bool" where
  "hits keys slot \<longleftrightarrow> (case slot_to_key slot of Some k \<Rightarrow> k \<in> set keys | None \<Rightarrow> keys \<noteq> [])"

definition set_flags_ok :: "('k, sink_binding) slab_ops \<Rightarrow> bool \<Rightarrow> 'k sink_set \<Rightarrow> bool" where
  "set_flags_ok ops clean s \<longleftrightarrow> (\<forall>S \<in> set (ss_items s). flags_ok ops clean S) \<and> flags_ok ops clean (ss_any s)"

subsection \<open>What the updates do to an entry\<close>

lemma resolve_twice [simp]: "resolve_binding c (resolve_binding c' b) = resolve_binding c' b"
  by (simp add: resolve_binding_def)

lemma map_resolve_twice [simp]: "map_option (resolve_binding c) (map_option (resolve_binding c') x) = map_option (resolve_binding c') x"
  by (cases x) simp_all

lemma fold_update_item:
  assumes laws: "slab_laws ops"
  shows "length (fold (update_item ops) keys xs) = length xs
    \<and> (i < length xs \<longrightarrow> slab_get ops (fold (update_item ops) keys xs ! i) key
        = (if i \<in> set keys then map_option (resolve_binding True) (slab_get ops (xs ! i) key) else slab_get ops (xs ! i) key))"
proof (induction keys arbitrary: xs)
  case (Cons k keys)
  have "length (update_item ops k xs) = length xs" by (simp add: update_item_def)
  moreover have "i < length xs \<Longrightarrow> slab_get ops (update_item ops k xs ! i) key
      = (if i = k then map_option (resolve_binding True) (slab_get ops (xs ! i) key) else slab_get ops (xs ! i) key)"
    by (simp add: update_item_def nth_list_update sinks_update_get [OF laws])
  ultimately show ?case using Cons.IH [of "update_item ops k xs"] by auto
qed simp

lemma entry_update_changed:
  assumes "slab_laws ops"
  shows "entry ops (set_update_changed ops keys s) slot key = (if hits keys slot then map_option (resolve_binding True) (entry ops s slot key) else entry ops s slot key)"
  using fold_update_item [OF assms, of keys "ss_items s" _ key] sinks_update_get [OF assms, of True "ss_any s" key]
  by (auto simp: entry_def set_get_def set_update_changed_def hits_def Let_def split: option.split)

lemma entry_update_all: "slab_laws ops \<Longrightarrow> entry ops (set_update_all ops c s) slot key = map_option (resolve_binding c) (entry ops s slot key)"
  by (auto simp: entry_def set_get_def set_update_all_def sinks_update_get split: option.split)

lemma slot_to_key_inj: "slot_to_key a = slot_to_key b \<Longrightarrow> a = b"
  by (auto simp: slot_to_key_def split: if_splits)

lemma set_get_put: "set_get slot s = Some S \<Longrightarrow> set_get t (set_put slot S' s) = (if t = slot then Some S' else set_get t s)"
  by (auto simp: set_get_def set_put_def nth_list_update split: option.splits if_splits dest: slot_to_key_inj) (metis slot_to_key_inj)+

lemma entry_unbind:
  assumes laws: "slab_laws ops"
  shows "entry ops (set_unbind ops (slot, key) s) t k = (if (t, k) = (slot, key) then None else entry ops s t k)"
proof (cases "set_get slot s")
  case None
  then show ?thesis by (auto simp: set_unbind_def entry_def)
next
  case (Some S)
  then show ?thesis by (auto simp: set_unbind_def entry_def set_get_put [OF Some] sinks_unbind_def slab_get_remove [OF laws])
qed

lemma entry_unbinds:
  assumes laws: "slab_laws ops"
  shows "entry ops (fold (set_unbind ops) us s) slot key = (if (slot, key) \<in> set us then None else entry ops s slot key)"
proof (induction us arbitrary: s)
  case (Cons u us)
  obtain t k where "u = (t, k)" by (cases u)
  then show ?case using Cons.IH [of "set_unbind ops u s"] entry_unbind [OF laws, of t k s slot key] by auto
qed simp

subsection \<open>Coherence\<close>

lemma set_flags_new: "slab_laws ops \<Longrightarrow> set_flags_ok ops c (sink_set_new ops)"
  by (simp add: set_flags_ok_def sink_set_new_def flags_ok_new)

lemma set_flags_update: "slab_laws ops \<Longrightarrow> set_flags_ok ops True (set_update_all ops c s)"
  by (auto simp: set_flags_ok_def set_update_all_def flags_ok_update)

lemma notify_list_flags: "slab_laws ops \<Longrightarrow> notify_list ops call level xs w = Inr (ys, w') \<Longrightarrow> \<forall>S \<in> set ys. flags_ok ops False S"
  by (induction xs arbitrary: w ys) (auto simp: res_bind_eq_Inr dest: notify_flags(1))

lemma set_flags_notify: "slab_laws ops \<Longrightarrow> set_notify_all ops call level s w = Inr (s', w') \<Longrightarrow> set_flags_ok ops False s'"
  by (auto simp: set_notify_all_def res_bind_eq_Inr set_flags_ok_def dest: notify_flags(1) notify_list_flags)

lemma set_flags_get: "set_flags_ok ops c s \<Longrightarrow> set_get slot s = Some S \<Longrightarrow> flags_ok ops c S"
  by (auto simp: set_flags_ok_def set_get_def split: option.splits if_splits)

lemma set_flags_put: "set_flags_ok ops c s \<Longrightarrow> flags_ok ops c S \<Longrightarrow> set_flags_ok ops c (set_put slot S s)"
  using set_update_subset_insert by (fastforce simp: set_flags_ok_def set_put_def split: option.split)

lemma set_flags_unbind: "slab_laws ops \<Longrightarrow> set_flags_ok ops c s \<Longrightarrow> set_flags_ok ops c (set_unbind ops u s)"
  by (cases u) (auto simp: set_unbind_def intro: set_flags_put flags_ok_remove set_flags_get split: option.split)

lemma grow_flags:
  assumes "slab_laws ops" and "items_grow ops key xs = Inr ys" and "\<forall>S \<in> set xs. flags_ok ops c S"
  shows "key < length ys" and "\<forall>S \<in> set ys. flags_ok ops c S"
  using assms by (auto simp: items_grow_def flags_ok_new split: if_splits)

lemma set_flags_bind:
  assumes laws: "slab_laws ops" and f: "set_flags_ok ops True s" and b: "set_bind ops env this slot ko s w = Inr (s', ko', w')"
  shows "set_flags_ok ops True s'"
proof (cases "slot_to_key slot")
  case None
  then show ?thesis using b f bind_flags [OF laws, of "ss_any s"] by (auto simp: set_bind_def res_bind_eq_Inr set_flags_ok_def)
next
  case (Some key)
  then obtain xs S where x: "items_grow ops key (ss_items s) = Inr xs" "bind_sinks ops env this slot ko (xs ! key) w = Inr (S, ko', w')"
    "s' = s\<lparr>ss_items := xs[key := S]\<rparr>" using b by (auto simp: set_bind_def res_bind_eq_Inr)
  have g: "key < length xs" "\<forall>S \<in> set xs. flags_ok ops True S" using grow_flags [OF laws x(1), where c = True] f by (simp_all add: set_flags_ok_def)
  then have "flags_ok ops True S" using bind_flags [OF laws _ x(2)] by simp
  then show ?thesis using f g(2) set_update_subset_insert [of xs key S] by (auto simp: x(3) set_flags_ok_def)
qed

lemma set_flags_rebind:
  assumes laws: "slab_laws ops" and f: "set_flags_ok ops c s" and b: "set_rebind ops env this slot key ko s w = Inr (s', ko', w')"
  shows "set_flags_ok ops c s'"
proof (cases "set_get slot s")
  case None
  then show ?thesis using b f by (simp add: set_rebind_def)
next
  case (Some S)
  then obtain S1 where r: "rebind_sinks ops env this slot key ko S w = Inr (S1, ko', w')" and s': "s' = set_put slot S1 s"
    using b by (auto simp: set_rebind_def res_bind_eq_Inr)
  show ?thesis unfolding s' by (rule set_flags_put [OF f rebind_flags [OF laws set_flags_get [OF f Some] r]])
qed

text \<open>None of these raises the panic of an open flag.\<close>

lemma not_stale_grow [not_stale_intro]: "not_stale (items_grow ops key xs)"
  by (simp add: items_grow_def not_stale_def)

lemma not_stale_set_bind: "env_safe env \<Longrightarrow> not_stale (set_bind ops env this slot ko s w)"
  unfolding set_bind_def by (auto split: option.split intro!: not_stale_intro)

lemma not_stale_set_rebind: "env_safe env \<Longrightarrow> not_stale (set_rebind ops env this slot key ko s w)"
  unfolding set_rebind_def by (auto split: option.split intro!: not_stale_intro)

lemma not_stale_set_notify:
  assumes "env_safe env"
  shows "not_stale (set_notify_all ops (ge_notify env) level s w)"
proof -
  have "not_stale (notify_list ops (ge_notify env) level xs w)" for xs w
    by (induction xs arbitrary: w) (auto intro!: not_stale_intro not_stale_notify [OF assms])
  then show ?thesis unfolding set_notify_all_def by (auto intro!: not_stale_intro not_stale_notify [OF assms])
qed

lemma not_stale_edits: "not_stale (slab_edit_one iops e m)"
  by (cases e) (auto simp: si_remove_def res_of_option_def not_stale_def res_bind_def res_assert_def split: option.split)

lemma not_stale_scan_run: "not_stale (slab_scan_run iops es s)"
  by (cases s) (auto simp: slab_scan_run_def intro!: not_stale_intro not_stale_fold not_stale_edits)

subsection \<open>The closure of a scan as an edit of the feed\<close>

lemma slab_scan_run_step:
  assumes "slab_scan_run iops es (e, st) = Inr ((e1, st2), keys)"
  shows "\<exists>m ds. slab_edits iops es (fd_current st) = Inr (m, ds) \<and> keys = map sm_key ds \<and> edit_step (slab_edits iops es) (e, st) = Inr (e1, st2)"
proof -
  obtain m where m: "res_fold (slab_edit_one iops) es (fd_current st) = Inr m"
    "record_pending_into (e, edit_current_mut (\<lambda>_. m) st) [] = ((e1, st2), keys)"
    using assms by (auto simp: slab_scan_run_def res_bind_eq_Inr)
  then have "slab_edits iops es (fd_current st) = Inr (m\<lparr>si_pending := []\<rparr>, si_pending m)" by (simp add: slab_edits_def take_changes_def)
  then show ?thesis using m(2) by (auto simp: record_pending_into_def take_changes_def edit_step_def edit_current_mut_def)
qed

text \<open>A key that no change names keeps its item.\<close>

lemma slab_edits_values:
  assumes laws: "slab_laws iops" and "res_fold (slab_edit_one iops) es m = Inr m'"
  shows "\<exists>ds. si_pending m' = si_pending m @ ds \<and> (\<forall>k. k \<notin> sm_key ` set ds \<longrightarrow> si_get iops m' k = si_get iops m k)"
  using assms(2)
proof (induction es arbitrary: m)
  case (Cons e es)
  obtain m1 where m1: "slab_edit_one iops e m = Inr m1" "res_fold (slab_edit_one iops) es m1 = Inr m'"
    using Cons.prems by (auto simp: res_bind_eq_Inr)
  have "\<exists>d. si_pending m1 = si_pending m @ [d] \<and> (\<forall>k. k \<noteq> sm_key d \<longrightarrow> si_get iops m1 k = si_get iops m k)"
  proof (cases e)
    case (SlabInsert v)
    obtain k s where k: "slab_insert iops (si_items m) \<lparr>it_value = v, is_exists = True\<rparr> = (k, s)" by fastforce
    then have "m1 = \<lparr>si_items = s, si_len = si_len m + 1, si_pending = si_pending m @ [SmInsert k]\<rparr>"
      using m1(1) SlabInsert by (simp add: si_insert_def)
    then show ?thesis by (intro exI [of _ "SmInsert k"]) (simp add: si_get_def sm_key_def slab_get_insert [OF laws k])
  next
    case (SlabRemove k)
    then obtain i where i: "slab_get iops (si_items m) k = Some i" and m1': "m1 = \<lparr>si_items = slab_put iops (si_items m) k (i\<lparr>is_exists := False\<rparr>), si_len = si_len m - 1,
        si_pending = si_pending m @ [SmRemove k]\<rparr>"
      using m1(1) by (auto simp: si_remove_def res_bind_eq_Inr split: if_splits)
    then show ?thesis by (intro exI [of _ "SmRemove k"]) (simp add: si_get_def sm_key_def slab_get_put [OF laws i])
  qed
  then show ?case using Cons.IH [OF m1(2)] by (fastforce intro: exI [of _ "_ # _"])
qed simp

end
