(* ===== verification/Slab_Node_Properties.thy ===== *)
theory Slab_Node_Properties
  imports Slab_Node_Spec
begin

section \<open>Properties of slab map nodes\<close>

text \<open>
  Updates reach exactly the dependants whose items an edit touched, no sequence of calls asks for a flag that is still open, and the panic that reading another item at the same place
  of a closure runs into.
\<close>

subsection \<open>The update of a scan\<close>

lemma scan_update_shape:
  assumes dirty: "\<not> binder_is_clean (sl_binder n)" and run: "slab_scan_update iops ops env n w = Inr (n', w')"
  shows "\<exists>keys us. sl_sinks n' = set_update_all ops False (set_update_changed ops keys (fold (set_unbind ops) us (sl_sinks n)))
    \<and> binder_is_clean (sl_binder n')
    \<and> (keys = [] \<and> sl_storage n' = sl_storage n
      \<or> (\<exists>b v v' srcs us1 e st1 es m ds fin. begin_edit (sm_release iops) (sl_storage n) = Inr (e, st1) \<and> ge_run env b (fd_current st1) v = Inr (es, srcs, us1, v')
          \<and> slab_edits iops es (fd_current st1) = Inr (m, ds) \<and> keys = map sm_key ds
          \<and> feed_edit_run (sm_release iops) FinishNone [slab_edits iops es] (sl_storage n) = Inr (fin, sl_storage n')))"
proof -
  obtain r b1 us w1 where c: "binder_check_with env (sl_binder n) w = Inr (r, b1, us, w1)"
    using dirty run by (auto simp: slab_scan_update_def res_bind_eq_Inr)
  note bc = binder_check_clean [OF c]
  show ?thesis
  proof (cases r)
    case False
    then have "n' = \<lparr>sl_storage = sl_storage n, sl_binder = b1, sl_sinks = set_update_all ops False (fold (set_unbind ops) us (sl_sinks n))\<rparr>"
      using run dirty c by (simp add: slab_scan_update_def Let_def)
    then show ?thesis using bc False
      by (intro exI [of _ "[]"] exI [of _ us]) (simp add: set_update_changed_def Let_def)
  next
    case True
    then obtain e st1 es srcs us1 w2 e1 st2 keys fin st3 where s: "begin_edit (sm_release iops) (sl_storage n) = Inr (e, st1)"
      "ge_run env (b1\<lparr>sbr_dirty := Clean\<rparr>) (fd_current st1) w1 = Inr (es, srcs, us1, w2)" "slab_scan_run iops es (e, st1) = Inr ((e1, st2), keys)"
      "edit_drop (sm_release iops) e1 st2 = Inr (fin, st3)"
      "n' = \<lparr>sl_storage = st3, sl_binder = b1\<lparr>sbr_dirty := Clean, sbr_sources := srcs\<rparr>,
        sl_sinks = set_update_all ops False (set_update_changed ops keys (fold (set_unbind ops) us1 (fold (set_unbind ops) us (sl_sinks n))))\<rparr>"
      using run dirty c by (auto simp: slab_scan_update_def Let_def res_bind_eq_Inr)
    obtain m ds where m: "slab_edits iops es (fd_current st1) = Inr (m, ds)" "keys = map sm_key ds" "edit_step (slab_edits iops es) (e, st1) = Inr (e1, st2)"
      using slab_scan_run_step [OF s(3)] by blast
    have "with_finish FinishNone e = e" using s(1) by (auto simp: begin_edit_def with_finish_def res_bind_eq_Inr split: if_splits)
    then have "feed_edit_run (sm_release iops) FinishNone [slab_edits iops es] (sl_storage n) = Inr (fin, st3)"
      using s(1,4) m(3) by (simp add: feed_edit_run_def)
    then show ?thesis using s(1,2,5) m(1,2)
      by (intro exI [of _ keys] exI [of _ "us @ us1"]) (auto simp: binder_is_clean_def is_clean_def)
  qed
qed

lemma scan_update_entries:
  assumes laws: "slab_laws ops"
  shows "entry ops (set_update_all ops False (set_update_changed ops keys (fold (set_unbind ops) us s))) slot key
    = (if (slot, key) \<in> set us then None else map_option (resolve_binding (hits keys slot)) (entry ops s slot key))"
  by (simp add: entry_update_all [OF laws] entry_update_changed [OF laws] entry_unbinds [OF laws])

subsection \<open>Coherence under every call\<close>

definition slab_scan_coherent ::
    "('k, sink_binding) slab_ops \<Rightarrow> ('w, 's slab_items, 'v slab_edit) node_env \<Rightarrow> ('s, 'k) slab_scan \<Rightarrow> bool" where
  "slab_scan_coherent ops env n \<longleftrightarrow> slab_laws ops \<and> env_safe env \<and> set_flags_ok ops (binder_is_clean (sl_binder n)) (sl_sinks n)"

lemma slab_scan_update_coherent:
  assumes n: "slab_scan_coherent ops env n" and run: "slab_scan_update iops ops env n w = Inr (n', w')"
  shows "slab_scan_coherent ops env n'" and "set_flags_ok ops True (sl_sinks n')"
proof -
  have s: "slab_laws ops" "env_safe env" using n by (simp_all add: slab_scan_coherent_def)
  have "binder_is_clean (sl_binder n') \<and> set_flags_ok ops True (sl_sinks n')"
  proof (cases "binder_is_clean (sl_binder n)")
    case True
    then show ?thesis using run n by (simp add: slab_scan_update_def slab_scan_coherent_def)
  next
    case False
    from scan_update_shape [OF False run] show ?thesis using set_flags_update [OF s(1)] by auto
  qed
  then show "slab_scan_coherent ops env n'" "set_flags_ok ops True (sl_sinks n')" using s by (simp_all add: slab_scan_coherent_def)
qed

lemma slab_scan_update_safe: "slab_scan_coherent ops env n \<Longrightarrow> not_stale (slab_scan_update iops ops env n w)"
  unfolding slab_scan_update_def Let_def
  by (auto simp: slab_scan_coherent_def env_safe_def intro!: not_stale_intro not_stale_scan_run not_stale_check split: prod.split)

interpretation slab_pull: pull_node "slab_scan_update iops ops env" "\<lambda>(slot, key) n. set_is_dirty ops slot key (sl_sinks n)"
    "\<lambda>n (slot, key). map_option sb_dirty (entry ops (sl_sinks n) slot key)" "slab_scan_coherent ops env"
  for iops :: "('s, 'v item) slab_ops" and ops :: "('k, sink_binding) slab_ops" and env :: "('w, 's slab_items, 'v slab_edit) node_env"
proof
  fix n n' :: "('s, 'k) slab_scan" and w w' :: 'w and q
  assume n: "slab_scan_coherent ops env n" and run: "slab_scan_update iops ops env n w = Inr (n', w')"
  show "slab_scan_coherent ops env n'" by (rule slab_scan_update_coherent(1) [OF n run])
  show "(case q of (slot, key) \<Rightarrow> map_option sb_dirty (entry ops (sl_sinks n') slot key)) \<noteq> Some MaybeDirty"
    using set_flags_get [OF slab_scan_update_coherent(2) [OF n run]]
    by (auto simp: entry_def flags_ok_def split: bind_split prod.split)
next
  fix n :: "('s, 'k) slab_scan" and q :: "slot \<times> bind_key" and d
  obtain slot key where q: "q = (slot, key)" by (cases q)
  show "(case q of (slot, key) \<Rightarrow> map_option sb_dirty (entry ops (sl_sinks n) slot key)) = Some d \<Longrightarrow> d \<noteq> MaybeDirty \<Longrightarrow>
      (case q of (slot, key) \<Rightarrow> \<lambda>n. set_is_dirty ops slot key (sl_sinks n)) n = Inr (d = Dirty)"
    using is_dirty_flag by (fastforce simp: q entry_def set_is_dirty_def split: bind_splits)
  show "(case q of (slot, key) \<Rightarrow> map_option sb_dirty (entry ops (sl_sinks n) slot key)) = None \<Longrightarrow>
      not_stale ((case q of (slot, key) \<Rightarrow> \<lambda>n. set_is_dirty ops slot key (sl_sinks n)) n)"
    using is_dirty_vacant by (auto simp: q entry_def set_is_dirty_def not_stale_Inr split: bind_splits option.split)
qed (rule slab_scan_update_safe)

lemma slab_scan_check_eq:
  "slab_scan_check iops ops env slot key n w = check_node (slab_scan_update iops ops env) (\<lambda>(slot, key) n. set_is_dirty ops slot key (sl_sinks n)) (slot, key) n w"
  by (simp add: slab_scan_check_def check_node_def)

datatype slab_call =
    SlabCheck slot bind_key
  | SlabUnbind slot bind_key
  | SlabRebind slot bind_key "sink option"
  | SlabItem nat "sink option"
  | SlabItems "sink option"
  | SlabGuardDrop
  | SlabNotify slot dirty_level

fun slab_do ::
    "('s, 'v item) slab_ops \<Rightarrow> ('k, sink_binding) slab_ops \<Rightarrow> ('w, 's slab_items, 'v slab_edit) node_env \<Rightarrow> nid
       \<Rightarrow> slab_call \<Rightarrow> ('s, 'k) slab_scan \<times> 'w \<Rightarrow> (('s, 'k) slab_scan \<times> 'w) result" where
  "slab_do iops ops env this (SlabCheck slot key) (n, w) = res_bind (slab_scan_check iops ops env slot key n w) (\<lambda>(_, n1, w1). Inr (n1, w1))"
| "slab_do iops ops env this (SlabUnbind slot key) (n, w) = Inr (slab_scan_unbind ops slot key n, w)"
| "slab_do iops ops env this (SlabRebind slot key ko) (n, w) = res_bind (slab_scan_rebind ops env this slot key ko n w) (\<lambda>(_, n1, w1). Inr (n1, w1))"
| "slab_do iops ops env this (SlabItem key ko) (n, w) = res_bind (slab_scan_item iops ops env this key ko n w) (\<lambda>(_, _, n1, w1). Inr (n1, w1))"
| "slab_do iops ops env this (SlabItems ko) (n, w) = res_bind (slab_scan_items iops ops env this ko n w) (\<lambda>(_, _, n1, w1). Inr (n1, w1))"
| "slab_do iops ops env this SlabGuardDrop (n, w) = res_bind (ref_drop (sm_release iops) (sl_storage n)) (\<lambda>st. Inr (n\<lparr>sl_storage := st\<rparr>, w))"
| "slab_do iops ops env this (SlabNotify slot level) (n, w) = slab_scan_notify ops env slot level n w"

lemma slab_watch_ok:
  assumes n: "slab_scan_coherent ops env n"
  shows "not_stale (slab_scan_watch iops ops env this slot ko n w)"
    and "slab_scan_watch iops ops env this slot ko n w = Inr (ko', n', w') \<Longrightarrow> slab_scan_coherent ops env n'"
proof -
  have s: "slab_laws ops" "env_safe env" using n by (simp_all add: slab_scan_coherent_def)
  show "not_stale (slab_scan_watch iops ops env this slot ko n w)"
    unfolding slab_scan_watch_def by (auto intro!: not_stale_intro slab_scan_update_safe [OF n] not_stale_set_bind s)
  assume "slab_scan_watch iops ops env this slot ko n w = Inr (ko', n', w')"
  then obtain n1 w1 S where u: "slab_scan_update iops ops env n w = Inr (n1, w1)" "set_bind ops env this slot ko (sl_sinks n1) w1 = Inr (S, ko', w')"
    "n' = n1\<lparr>sl_sinks := S\<rparr>" by (auto simp: slab_scan_watch_def res_bind_eq_Inr)
  note c = slab_scan_update_coherent [OF n u(1)]
  have "set_flags_ok ops True S" by (rule set_flags_bind [OF s(1) c(2) u(2)])
  moreover have "binder_is_clean (sl_binder n1)"
    using scan_update_shape [OF _ u(1)] u(1) by (cases "binder_is_clean (sl_binder n)") (auto simp: slab_scan_update_def)
  ultimately show "slab_scan_coherent ops env n'" using s by (simp add: slab_scan_coherent_def u(3))
qed

lemma slab_notify_ok:
  assumes n: "slab_scan_coherent ops env n"
  shows "not_stale (slab_scan_notify ops env slot level n w)"
    and "slab_scan_notify ops env slot level n w = Inr (n', w') \<Longrightarrow> slab_scan_coherent ops env n'"
proof -
  have s: "slab_laws ops" "env_safe env" "set_flags_ok ops (binder_is_clean (sl_binder n)) (sl_sinks n)" using n by (simp_all add: slab_scan_coherent_def)
  show "not_stale (slab_scan_notify ops env slot level n w)"
    unfolding slab_scan_notify_def Let_def by (auto intro!: not_stale_intro not_stale_set_notify s split: prod.split)
  obtain need b1 where b1: "binder_on_notify slot level (sl_binder n) = (need, b1)" by fastforce
  have need: "need \<longleftrightarrow> slot = sbr_slot (sl_binder n) \<and> binder_is_clean (sl_binder n)" "binder_is_clean b1 \<longleftrightarrow> slot \<noteq> sbr_slot (sl_binder n) \<and> binder_is_clean (sl_binder n)"
    using b1 by (auto simp: binder_on_notify_def binder_is_clean_def is_clean_def split: if_splits)
  show "slab_scan_notify ops env slot level n w = Inr (n', w') \<Longrightarrow> slab_scan_coherent ops env n'"
    using b1 need s set_flags_notify [OF s(1)]
    by (cases need) (fastforce simp: slab_scan_notify_def res_bind_eq_Inr slab_scan_coherent_def)+
qed

lemma slab_do_ok:
  assumes n: "slab_scan_coherent ops env n"
  shows "not_stale (slab_do iops ops env this c (n, w))" and "slab_do iops ops env this c (n, w) = Inr (n', w') \<Longrightarrow> slab_scan_coherent ops env n'"
proof -
  have s: "slab_laws ops" "env_safe env" "set_flags_ok ops (binder_is_clean (sl_binder n)) (sl_sinks n)" using n by (simp_all add: slab_scan_coherent_def)
  have st: "slab_scan_coherent ops env n1 \<Longrightarrow> slab_scan_coherent ops env (n1\<lparr>sl_storage := st\<rparr>)" for n1 st by (simp add: slab_scan_coherent_def)
  have sinks: "set_flags_ok ops (binder_is_clean (sl_binder n)) S \<Longrightarrow> slab_scan_coherent ops env (n\<lparr>sl_sinks := S\<rparr>)" for S using s by (simp add: slab_scan_coherent_def)
  note intros = not_stale_intro slab_watch_ok(1) [OF n] slab_notify_ok(1) [OF n] slab_pull.check_safe [OF n]
  have idx: "not_stale (si_index iops m k)" "not_stale (key_to_slot k)" for m k
    by (auto simp: si_index_def key_to_slot_def res_of_option_def not_stale_def res_assert_def split: option.split)
  have "not_stale (slab_do iops ops env this c (n, w)) \<and> (slab_do iops ops env this c (n, w) = Inr (n', w') \<longrightarrow> slab_scan_coherent ops env n')"
  proof (cases c)
    case (SlabCheck slot key)
    then show ?thesis using slab_pull.check_coherent [OF n] by (auto simp: slab_scan_check_eq res_bind_eq_Inr intro!: intros)
  next
    case (SlabUnbind slot key)
    then show ?thesis using sinks [OF set_flags_unbind [OF s(1,3)]] by (auto simp: slab_scan_unbind_def not_stale_Inr)
  next
    case (SlabRebind slot key ko)
    then show ?thesis using sinks [OF set_flags_rebind [OF s(1,3)]] s(2)
      by (auto simp: slab_scan_rebind_def res_bind_eq_Inr intro!: not_stale_intro not_stale_set_rebind)
  next
    case (SlabItem key ko)
    then show ?thesis by (auto simp: slab_scan_item_def res_bind_eq_Inr intro!: intros idx st dest: slab_watch_ok(2) [OF n])
  next
    case (SlabItems ko)
    then show ?thesis by (auto simp: slab_scan_items_def res_bind_eq_Inr intro!: intros st dest: slab_watch_ok(2) [OF n])
  next
    case SlabGuardDrop
    then show ?thesis by (auto simp: res_bind_eq_Inr intro!: intros st [OF n])
  next
    case (SlabNotify slot level)
    then show ?thesis using slab_notify_ok [OF n] by auto
  qed
  then show "not_stale (slab_do iops ops env this c (n, w))" "slab_do iops ops env this c (n, w) = Inr (n', w') \<Longrightarrow> slab_scan_coherent ops env n'"
    by blast+
qed

interpretation slab_steps: node_steps "slab_do iops ops env this" "slab_scan_coherent ops env"
  for iops :: "('s, 'v item) slab_ops" and ops :: "('k, sink_binding) slab_ops" and env :: "('w, 's slab_items, 'v slab_edit) node_env" and this
  by unfold_locales (auto intro: slab_do_ok)

subsection \<open>The properties\<close>

text \<open>A setting for the witnesses: the closure inserts 7 and removes item 0; the environment records the notified nodes.\<close>

definition ex_slab_env :: "(nid list, nat item option list slab_items, nat slab_edit) node_env" where
  "ex_slab_env = \<lparr>ge_check = (\<lambda>srcs w. Inr (True, [], w)), ge_run = (\<lambda>b m w. Inr ([SlabInsert 7, SlabRemove 0], [], [], w)),
     ge_notify = (\<lambda>b w. Inr (sb_sink b # w)), ge_unbind = (\<lambda>b w. Inr w), ge_schedule = (\<lambda>n slot w. n # w)\<rparr>"

lemma ex_slab_env_safe: "env_safe ex_slab_env"
  by (simp add: env_safe_def ex_slab_env_def not_stale_def)

definition open_binding :: "sink_binding option list" where
  "open_binding = [Some \<lparr>sb_sink = 3, sb_slot = 0, sb_dirty = MaybeDirty\<rparr>]"

definition ex_scan :: "(nat item option list, sink_binding option list) slab_scan" where
  "ex_scan = \<lparr>sl_storage = feed_new (si_new vec_slab), sl_binder = binder_new 9 0, sl_sinks = \<lparr>ss_items = [open_binding, open_binding], ss_any = open_binding\<rparr>\<rparr>"

lemma slab_edits_untouched:
  assumes own: "slab_own iops m0 cs" and edits: "slab_edits iops es m0 = Inr (m, ds)" and k: "k \<notin> sm_key ` set ds"
  shows "si_get iops m k = si_get iops m0 k"
proof -
  obtain m2 where m2: "res_fold (slab_edit_one iops) es m0 = Inr m2" "m = m2\<lparr>si_pending := []\<rparr>" "ds = si_pending m2"
    using edits by (auto simp: slab_edits_def res_bind_eq_Inr take_changes_def)
  have "slab_laws iops" "si_pending m0 = []" using own by (simp_all add: slab_own_def slab_inv_def)
  then have "si_get iops m2 k = si_get iops m0 k" using slab_edits_values [of iops es m0 m2] m2(1,3) k by auto
  moreover have "si_get iops m = si_get iops m2" by (rule si_get_cong) (simp add: m2(2))
  ultimately show ?thesis by simp
qed

text \<open>The edit of an update, on the storage: what it touches, and that its readers can replay it.\<close>

lemma scan_edit_touches:
  assumes inv: "client_inv (slab_own iops) (slab_view iops) (slab_replay iops) st rs log qs" and room: "length qs + 2 < 2 ^ 64"
    and few: "length log + length es < 2 ^ 64" and started: "begin_edit (sm_release iops) st = Inr (e, st1)"
    and edits: "slab_edits iops es (fd_current st1) = Inr (m, ds)"
    and run: "feed_edit_run (sm_release iops) FinishNone [slab_edits iops es] st = Inr (fin, st')"
  shows "{k. si_get iops (fd_current st') k \<noteq> si_get iops (fd_current st) k} \<subseteq> sm_key ` set ds
    \<and> client_inv (slab_own iops) (slab_view iops) (slab_replay iops) st' rs (log @ ds) qs"
proof -
  obtain st0 where st0: "feed_compact (sm_release iops) st = Inr st0" "fd_current st1 = fd_current st0"
    using started by (auto simp: begin_edit_def res_bind_eq_Inr split: if_splits)
  have f: "feed_inv (slab_own iops) (slab_view iops) (slab_replay iops) st log (all_seen qs) {#}" using inv by (simp add: client_inv_def)
  have small: "size (all_seen qs) + length (decrement_ages (fd_ops st)) < 2 ^ 64" using client_inv_room [OF inv room] by simp
  have shared: "fd_shared st = 0" using client_inv_shared [OF inv] by blast
  have rel: "\<forall>g \<in> set [slab_edits iops es]. \<forall>m m' ds. g m = Inr (m', ds) \<longrightarrow> slab_edit_rel iops m ds m'" by (auto simp: slab_edit_rel_def)
  have tr: "edit_trace [slab_edits iops es] (fd_current st0) = Inr (m, ds)" using edits st0(2) by simp
  have li: "length (log_items (fd_changes st)) \<le> length log" by (rule slab_feed.log_items_le [OF f])
  have runs: "\<exists>m' ds. edit_trace [slab_edits iops es] mm = Inr (m', ds) \<and> length (log_items (fd_changes st)) + length ds < 2 ^ 64"
    if "feed_compact (sm_release iops) st = Inr st2" "mm = fd_current st2" "slab_own iops mm cs" for mm st2 cs
  proof -
    have "length ds = length es" by (rule slab_edits_ok(3) [OF that(3)]) (use edits st0 that(1,2) in simp)
    then show ?thesis using few li tr st0(1) that(1,2) by auto
  qed
  have "\<exists>st1 m m' ds st' cs. feed_compact (sm_release iops) st = Inr st1 \<and> m = fd_current st1
    \<and> slab_view iops m = slab_view iops (fd_current st) \<and> slab_own iops m cs \<and> edit_trace [slab_edits iops es] m = Inr (m', ds)
    \<and> feed_edit_run (sm_release iops) FinishNone [slab_edits iops es] st = Inr (if ds = [] then FinishNone else FinishNone, st')
    \<and> feed_inv (slab_own iops) (slab_view iops) (slab_replay iops) st' (log @ ds) (all_seen qs) {#}
    \<and> slab_view iops (fd_current st') = slab_view iops m' \<and> compacted st'"
    by (rule slab_feed.feed_edit_ok [OF f shared small rel]) (rule runs; assumption)
  then obtain cs where c: "slab_view iops (fd_current st0) = slab_view iops (fd_current st)" "slab_own iops (fd_current st0) cs"
    "feed_inv (slab_own iops) (slab_view iops) (slab_replay iops) st' (log @ ds) (all_seen qs) {#}"
    "slab_view iops (fd_current st') = slab_view iops m" "compacted st'"
    using st0(1) tr run by (auto simp del: edit_trace.simps)
  have "{k. si_get iops (fd_current st') k \<noteq> si_get iops (fd_current st) k} \<subseteq> sm_key ` set ds"
    using c(1,4) slab_edits_untouched [OF c(2) edits [unfolded st0(2)]] by (auto simp: slab_view_def slab_value_def)
  then show ?thesis using inv c(3,5) by (simp add: client_inv_def)
qed

text \<open>
  C22. An update of a scan reaches exactly the dependants of the items it touched. There is a list of touched keys such that every item
  whose existence or value changed is among them; a dependant with an open flag becomes \<open>Dirty\<close> if its item is touched (for a dependant of the whole map: if any is)
  and \<open>Clean\<close> otherwise, every other flag stays, and the storage keeps its invariant.
\<close>

theorem scan_reaches_touched:
  assumes laws: "slab_laws ops" and inv: "client_inv (slab_own iops) (slab_view iops) (slab_replay iops) (sl_storage n) rs log qs"
    and room: "length qs + 2 < 2 ^ 64"
    and few: "\<And>b m v es srcs us v'. ge_run env b m v = Inr (es, srcs, us, v') \<Longrightarrow> length log + length es < 2 ^ 64"
    and dirty: "\<not> binder_is_clean (sl_binder n)" and run: "slab_scan_update iops ops env n w = Inr (n', w')"
  shows "\<exists>keys us ds. {k. si_get iops (fd_current (sl_storage n')) k \<noteq> si_get iops (fd_current (sl_storage n)) k} \<subseteq> set keys
    \<and> (\<forall>slot key. entry ops (sl_sinks n') slot key
        = (if (slot, key) \<in> set us then None else map_option (resolve_binding (hits keys slot)) (entry ops (sl_sinks n) slot key)))
    \<and> binder_is_clean (sl_binder n') \<and> keys = map sm_key ds
    \<and> client_inv (slab_own iops) (slab_view iops) (slab_replay iops) (sl_storage n') rs (log @ ds) qs"
proof -
  obtain keys us where k: "sl_sinks n' = set_update_all ops False (set_update_changed ops keys (fold (set_unbind ops) us (sl_sinks n)))" "binder_is_clean (sl_binder n')"
    "keys = [] \<and> sl_storage n' = sl_storage n
      \<or> (\<exists>b v v' srcs us1 e st1 es m ds fin. begin_edit (sm_release iops) (sl_storage n) = Inr (e, st1) \<and> ge_run env b (fd_current st1) v = Inr (es, srcs, us1, v')
          \<and> slab_edits iops es (fd_current st1) = Inr (m, ds) \<and> keys = map sm_key ds
          \<and> feed_edit_run (sm_release iops) FinishNone [slab_edits iops es] (sl_storage n) = Inr (fin, sl_storage n'))"
    using scan_update_shape [OF dirty run] by metis
  have "\<exists>ds. {k. si_get iops (fd_current (sl_storage n')) k \<noteq> si_get iops (fd_current (sl_storage n)) k} \<subseteq> set keys \<and> keys = map sm_key ds
    \<and> client_inv (slab_own iops) (slab_view iops) (slab_replay iops) (sl_storage n') rs (log @ ds) qs"
    using k(3)
  proof (elim disjE exE conjE)
    assume "keys = []" "sl_storage n' = sl_storage n"
    then show ?thesis using inv by (intro exI [of _ "[]"]) simp
  next
    fix b v v' srcs us1 e st1 es m ds fin
    assume s: "begin_edit (sm_release iops) (sl_storage n) = Inr (e, st1)" "ge_run env b (fd_current st1) v = Inr (es, srcs, us1, v')"
      "slab_edits iops es (fd_current st1) = Inr (m, ds)" "keys = map sm_key ds"
      "feed_edit_run (sm_release iops) FinishNone [slab_edits iops es] (sl_storage n) = Inr (fin, sl_storage n')"
    from scan_edit_touches [OF inv room few [OF s(2)] s(1,3,5)] s(4) show ?thesis by auto
  qed
  then obtain ds where ds: "{k. si_get iops (fd_current (sl_storage n')) k \<noteq> si_get iops (fd_current (sl_storage n)) k} \<subseteq> set keys" "keys = map sm_key ds"
    "client_inv (slab_own iops) (slab_view iops) (slab_replay iops) (sl_storage n') rs (log @ ds) qs" by blast
  show ?thesis
    by (intro exI [of _ keys] exI [of _ us] exI [of _ ds] conjI allI) (use ds k(2) in \<open>simp_all add: k(1) scan_update_entries [OF laws]\<close>)
qed

theorem scan_reaches_touched_witness:
  "\<exists>n' w'. slab_scan_update vec_slab vec_slab ex_slab_env ex_scan [] = Inr (n', w') \<and> binder_is_clean (sl_binder n')"
proof -
  have "\<not> isl (slab_scan_update vec_slab vec_slab ex_slab_env ex_scan [])" by code_simp
  then obtain n' w' where r: "slab_scan_update vec_slab vec_slab ex_slab_env ex_scan [] = Inr (n', w')"
    by (cases "slab_scan_update vec_slab vec_slab ex_slab_env ex_scan []") auto
  have inv: "client_inv (slab_own vec_slab) (slab_view vec_slab) (slab_replay vec_slab) (sl_storage ex_scan) [] [] []"
    unfolding ex_scan_def slab_scan.simps by (rule slab_feed.feed_start [OF slab_own_new [OF vec_slab_laws]])
  have d: "\<not> binder_is_clean (sl_binder ex_scan)" by (simp add: ex_scan_def binder_new_def binder_is_clean_def is_clean_def)
  have room: "length ([] :: (nat \<times> (nat \<rightharpoonup> nat) option) option option list) + 2 < 2 ^ 64" by simp
  have few: "length ([] :: sm_change list) + length es < 2 ^ 64" if "ge_run ex_slab_env b m v = Inr (es, srcs, us, v')" for b m v es srcs us v'
    using that by (auto simp: ex_slab_env_def)
  have "\<exists>keys us ds. {k. si_get vec_slab (fd_current (sl_storage n')) k \<noteq> si_get vec_slab (fd_current (sl_storage ex_scan)) k} \<subseteq> set keys
    \<and> (\<forall>slot key. entry vec_slab (sl_sinks n') slot key
        = (if (slot, key) \<in> set us then None else map_option (resolve_binding (hits keys slot)) (entry vec_slab (sl_sinks ex_scan) slot key)))
    \<and> binder_is_clean (sl_binder n') \<and> keys = map sm_key ds
    \<and> client_inv (slab_own vec_slab) (slab_view vec_slab) (slab_replay vec_slab) (sl_storage n') [] ([] @ ds) []"
    by (rule scan_reaches_touched [OF vec_slab_laws inv room _ d r]) (rule few)
  then show ?thesis using r by blast
qed

text \<open>
  C23. A scan of a slab map never asks for an open flag: whatever calls it gets, in any order, none panics with \<open>is_dirty called before update()\<close> unless the rest
  of the graph does, and after an update \<open>check\<close> answers every dependant of an item or of the whole map with its flag.
\<close>

theorem slab_scan_never_stale:
  assumes laws: "slab_laws ops" and env: "env_safe env"
  shows "case res_fold (slab_do iops ops env this) cs (slab_scan_new iops ops this, w) of
      Inl e \<Rightarrow> e \<noteq> IsDirtyBeforeUpdate
    | Inr (n, w1) \<Rightarrow> (case slab_scan_update iops ops env n w1 of
          Inl e \<Rightarrow> e \<noteq> IsDirtyBeforeUpdate
        | Inr (n2, w2) \<Rightarrow> (\<forall>slot key. case entry ops (sl_sinks n2) slot key of None \<Rightarrow> True
            | Some b \<Rightarrow> slab_scan_check iops ops env slot key n w1 = Inr (sb_dirty b = Dirty, n2, w2)))"
proof -
  have n0: "slab_scan_coherent ops env (slab_scan_new iops ops this)"
    using laws env by (simp add: slab_scan_coherent_def slab_scan_new_def set_flags_new)
  show ?thesis
  proof (cases "res_fold (slab_do iops ops env this) cs (slab_scan_new iops ops this, w)")
    case (Inl e)
    then show ?thesis using slab_steps.run_safe [OF n0, of iops this cs w] by (simp add: not_stale_def)
  next
    case (Inr r)
    obtain n w1 where r: "r = (n, w1)" by (cases r)
    have n: "slab_scan_coherent ops env n" using slab_steps.run_coherent [OF n0] Inr r by blast
    have "case entry ops (sl_sinks n2) slot key of None \<Rightarrow> True | Some b \<Rightarrow> slab_scan_check iops ops env slot key n w1 = Inr (sb_dirty b = Dirty, n2, w2)"
      if "slab_scan_update iops ops env n w1 = Inr (n2, w2)" for n2 w2 slot key
      using slab_pull.check_answer [OF n that, of "(slot, key)"] by (auto simp: slab_scan_check_eq split: option.split)
    then show ?thesis using Inr r slab_scan_update_safe [OF n, of iops w1] by (auto simp: not_stale_def split: sum.split)
  qed
qed

theorem slab_scan_never_stale_witness:
  "res_fold (slab_do vec_slab vec_slab ex_slab_env 9) [SlabItems (Some \<lparr>sk_node = 7, sk_slot = 0, sk_sources = [], sk_len = 0\<rparr>), SlabCheck slot_items 0]
     (slab_scan_new vec_slab vec_slab 9, []) \<noteq> Inl IsDirtyBeforeUpdate"
  using slab_scan_never_stale [OF vec_slab_laws ex_slab_env_safe, of vec_slab 9
    "[SlabItems (Some \<lparr>sk_node = 7, sk_slot = 0, sk_sources = [], sk_len = 0\<rparr>), SlabCheck slot_items 0]" "[]"]
  by (auto split: sum.splits)




lemma sinks_bind_pushed:
  assumes s: "sinks_bind ops this slot k S = Inr (S', k', old)" and head: "sk_len k \<le> length (sk_sources k)"
  shows "sk_len k < length (sk_sources k') \<and> src_node (sk_sources k' ! sk_len k) = this \<and> src_slot (sk_sources k' ! sk_len k) = slot"
proof (cases "sk_len k < length (sk_sources k) \<and> is_same (sk_sources k ! sk_len k) this slot")
  case True
  then show ?thesis using s by (auto simp: sinks_bind_def Let_def is_same_def split: option.splits)
next
  case False
  obtain key S1 where "slab_insert ops S \<lparr>sb_sink = sk_node k, sb_slot = sk_slot k, sb_dirty = Clean\<rparr> = (key, S1)" by fastforce
  then have "sink_push \<lparr>src_node = this, src_slot = slot, src_key = key\<rparr> k = (k', old)" using s False by (auto simp: sinks_bind_def split: prod.splits)
  then show ?thesis using head by (cases "sk_len k < length (sk_sources k)") (auto simp: sink_push_def Let_def)
qed

definition ex_two_items :: "(nat item option list, sink_binding option list) slab_state" where
  "ex_two_items = \<lparr>sm_state = \<lparr>fn_storage = feed_new \<lparr>si_items = [Some \<lparr>it_value = 5, is_exists = True\<rparr>, Some \<lparr>it_value = 6, is_exists = True\<rparr>],
     si_len = 2, si_pending = []\<rparr>, fn_binder = None, fn_sinks = []\<rparr>, sm_item_sinks = []\<rparr>"

text \<open>
  C25. Reading another item at the same place panics. When a closure reads item \<open>k1\<close> of a \<open>StateSlabMap\<close> as a dependency and, in its next run, reads item \<open>k2\<close> there, the
  read ends in a \<open>BorrowMutError\<close>: \<open>bind\<close> holds the item sinks borrowed while it unbinds the dependency on \<open>k1\<close>, which borrows them again.
\<close>

theorem other_item_panics:
  assumes laws: "slab_laws ops" and head: "sk_len k \<le> length (sk_sources k)"
    and first: "slab_state_item iops ops env this k1 (Some k) n w = Inr (v, Some k', n1, w1)"
    and other: "k1 \<noteq> k2" and fits: "k2 < 2 ^ 64 - 1"
  shows "slab_state_item iops ops env this k2 (Some (k'\<lparr>sk_len := sk_len k\<rparr>)) n1 w2 = Inl BorrowMutError"
proof -
  obtain xs S where b: "bind_sinks ops env this k1 (Some k) (xs ! k1) w = Inr (S, Some k', w1)"
    using first by (auto simp: slab_state_item_def item_sinks_bind_def key_to_slot_def res_bind_eq_Inr)
  then obtain old where s: "sinks_bind ops this k1 k (xs ! k1) = Inr (S, k', old)" by (auto simp: bind_sinks_def res_bind_eq_Inr)
  have k': "sk_len k < length (sk_sources k') \<and> src_node (sk_sources k' ! sk_len k) = this \<and> src_slot (sk_sources k' ! sk_len k) = k1"
    by (rule sinks_bind_pushed [OF s head])
  obtain ys where ys: "items_grow ops k2 (sm_item_sinks n1) = Inr ys" using fits by (cases "items_grow ops k2 (sm_item_sinks n1)") (auto simp: items_grow_def split: if_splits)
  have "bind_sinks ops env this k2 (Some (k'\<lparr>sk_len := sk_len k\<rparr>)) (ys ! k2) w2 = Inl BorrowMutError"
    using k' other by (auto simp: bind_sinks_def sinks_bind_def is_same_def sink_push_def Let_def release_old_def split: prod.split)
  then show ?thesis using ys fits by (simp add: slab_state_item_def item_sinks_bind_def key_to_slot_def)
qed

theorem other_item_panics_witness:
  "\<exists>v k n w. slab_state_item vec_slab vec_slab ex_slab_env 9 0 (Some \<lparr>sk_node = 7, sk_slot = 0, sk_sources = [], sk_len = 0\<rparr>) ex_two_items [] = Inr (v, Some k, n, w)
     \<and> slab_state_item vec_slab vec_slab ex_slab_env 9 1 (Some (k\<lparr>sk_len := 0\<rparr>)) n w = Inl BorrowMutError"
proof -
  let ?k = "\<lparr>sk_node = 7, sk_slot = 0, sk_sources = [], sk_len = 0\<rparr> :: sink"
  let ?r = "slab_state_item vec_slab vec_slab ex_slab_env 9 0 (Some ?k) ex_two_items []"
  have "case ?r of Inl _ \<Rightarrow> False | Inr (v, ko, n, w) \<Rightarrow> ko \<noteq> None" by code_simp
  then obtain v k n w where r: "?r = Inr (v, Some k, n, w)" by (auto split: sum.splits)
  have "slab_state_item vec_slab vec_slab ex_slab_env 9 1 (Some (k\<lparr>sk_len := sk_len ?k\<rparr>)) n w = Inl BorrowMutError"
    by (rule other_item_panics [OF vec_slab_laws _ r]) simp_all
  then show ?thesis using r by auto
qed

end
