(* ===== verification/Slab_Access.thy ===== *)
theory Slab_Access
  imports Slab_Node_Properties
begin

section \<open>Slab maps behind their common interface (the remaining operations of collections/slab\_map.rs)\<close>

text \<open>
  A \<open>SignalSlabMap\<close> is a node of one of two kinds behind \<open>DynSignalSlabMap\<close>, a state or a scan; its readers are of the same two kinds. Here are the calls on them, which select the operations
  of Slab\_Node, and the access to the items of a guard.
\<close>

subsection \<open>Items\<close>

definition slab_items_is_empty :: "feed_ref \<Rightarrow> ('s slab_items, sm_change) feed \<Rightarrow> bool" where
  "slab_items_is_empty g st \<longleftrightarrow> slab_items_len g st = 0"

definition slab_items_get :: "('s, 'v item) slab_ops \<Rightarrow> nat \<Rightarrow> feed_ref \<Rightarrow> ('s slab_items, sm_change) feed \<Rightarrow> 'v option" where
  "slab_items_get iops key g st = si_get iops (ref_current g st) key"

definition slab_items_index :: "('s, 'v item) slab_ops \<Rightarrow> nat \<Rightarrow> feed_ref \<Rightarrow> ('s slab_items, sm_change) feed \<Rightarrow> 'v result" where
  "slab_items_index iops key g st = (case slab_items_get iops key g st of Some v \<Rightarrow> Inr v | None \<Rightarrow> Inl IndexOutOfBounds)"

subsection \<open>The two kinds of nodes\<close>

datatype ('s, 'k) slab_node = StateSlab "('s, 'k) slab_state" | ScanSlab "('s, 'k) slab_scan"

definition to_signal_slab_map :: "('s, 'k) slab_state \<Rightarrow> ('s, 'k) slab_node" where
  "to_signal_slab_map s = StateSlab s"

definition signal_slab_from_scan :: "('s, 'v item) slab_ops \<Rightarrow> ('k, sink_binding) slab_ops \<Rightarrow> nid \<Rightarrow> ('s, 'k) slab_node" where
  "signal_slab_from_scan iops ops this = ScanSlab (slab_scan_new iops ops this)"

definition signal_slab_item ::
    "('s, 'v item) slab_ops \<Rightarrow> ('k, sink_binding) slab_ops \<Rightarrow> ('w, 's slab_items, 'v slab_edit) node_env \<Rightarrow> nid \<Rightarrow> nat
       \<Rightarrow> sink option \<Rightarrow> ('s, 'k) slab_node \<Rightarrow> 'w \<Rightarrow> ('v \<times> sink option \<times> ('s, 'k) slab_node \<times> 'w) result" where
  "signal_slab_item iops ops env this key ko n w = (case n of
     StateSlab s \<Rightarrow> res_bind (slab_state_item iops ops env this key ko s w) (\<lambda>(v, ko1, s1, w1). Inr (v, ko1, StateSlab s1, w1))
   | ScanSlab s \<Rightarrow> res_bind (slab_scan_item iops ops env this key ko s w) (\<lambda>(v, ko1, s1, w1). Inr (v, ko1, ScanSlab s1, w1)))"

definition signal_slab_items ::
    "('s, 'v item) slab_ops \<Rightarrow> ('k, sink_binding) slab_ops \<Rightarrow> ('w, 's slab_items, 'v slab_edit) node_env \<Rightarrow> nid
       \<Rightarrow> sink option \<Rightarrow> ('s, 'k) slab_node \<Rightarrow> 'w \<Rightarrow> (feed_ref \<times> sink option \<times> ('s, 'k) slab_node \<times> 'w) result" where
  "signal_slab_items iops ops env this ko n w = (case n of
     StateSlab s \<Rightarrow> res_bind (slab_state_items iops ops env this ko s w) (\<lambda>(g, ko1, s1, w1). Inr (g, ko1, StateSlab s1, w1))
   | ScanSlab s \<Rightarrow> res_bind (slab_scan_items iops ops env this ko s w) (\<lambda>(g, ko1, s1, w1). Inr (g, ko1, ScanSlab s1, w1)))"

text \<open>\<open>watch_items\<close>; that of a state takes and drops a guard of the items.\<close>

definition state_watch_items ::
    "('s, 'v item) slab_ops \<Rightarrow> ('k, sink_binding) slab_ops \<Rightarrow> ('w, 's slab_items, 'v slab_edit) node_env \<Rightarrow> nid
       \<Rightarrow> sink option \<Rightarrow> ('s, 'k) slab_state \<Rightarrow> 'w \<Rightarrow> (sink option \<times> ('s, 'k) slab_state \<times> 'w) result" where
  "state_watch_items iops ops env this ko s w =
     res_bind (slab_state_items iops ops env this ko s w) (\<lambda>(g, ko1, s1, w1).
     res_bind (ref_drop (sm_release iops) (fn_storage (sm_state s1))) (\<lambda>st.
       Inr (ko1, s1\<lparr>sm_state := (sm_state s1)\<lparr>fn_storage := st\<rparr>\<rparr>, w1)))"

definition scan_watch_items ::
    "('s, 'v item) slab_ops \<Rightarrow> ('k, sink_binding) slab_ops \<Rightarrow> ('w, 's slab_items, 'v slab_edit) node_env \<Rightarrow> nid
       \<Rightarrow> sink option \<Rightarrow> ('s, 'k) slab_scan \<Rightarrow> 'w \<Rightarrow> (sink option \<times> ('s, 'k) slab_scan \<times> 'w) result" where
  "scan_watch_items iops ops env this ko s w = slab_scan_watch iops ops env this slot_items ko s w"

subsection \<open>Readers\<close>

datatype slab_reader = StateReader feed_reader | ScanReader feed_reader

definition state_slab_reader :: "('s, 'k) slab_state \<Rightarrow> slab_reader" where
  "state_slab_reader s = StateReader (storage_reader (fn_storage (sm_state s)))"

definition scan_slab_reader :: "('s, 'k) slab_scan \<Rightarrow> slab_reader" where
  "scan_slab_reader s = ScanReader (storage_reader (sl_storage s))"

definition slab_reader_new :: "('s, 'k) slab_node \<Rightarrow> slab_reader" where
  "slab_reader_new n = (case n of StateSlab s \<Rightarrow> state_slab_reader s | ScanSlab s \<Rightarrow> scan_slab_reader s)"

text \<open>A reader of a state reads the feed of the state, a reader of a scan its own cursor after it has watched the node. Each refers to a node of its kind.\<close>

definition slab_read ::
    "('s, 'v item) slab_ops \<Rightarrow> ('k, sink_binding) slab_ops \<Rightarrow> ('w, 's slab_items, 'v slab_edit) node_env \<Rightarrow> nid
       \<Rightarrow> sink option \<Rightarrow> slab_reader \<Rightarrow> ('s, 'k) slab_node \<Rightarrow> 'w \<Rightarrow> (feed_ref \<times> slab_reader \<times> sink option \<times> ('s, 'k) slab_node \<times> 'w) result" where
  "slab_read iops ops env this ko r n w = (case (r, n) of
     (StateReader fr, StateSlab s) \<Rightarrow>
       res_bind (feed_reader_read ops (sm_release iops) (\<lambda>e m. slab_edits iops [e] m) env this ko fr (sm_state s) w) (\<lambda>(g, fr1, ko1, fn, w1).
         Inr (g, StateReader fr1, ko1, StateSlab (s\<lparr>sm_state := fn\<rparr>), w1))
   | (ScanReader cur, ScanSlab s) \<Rightarrow>
       res_bind (scan_watch_items iops ops env this ko s w) (\<lambda>(ko1, s1, w1).
       res_bind (reader_read (sm_release iops) cur (sl_storage s1)) (\<lambda>(g, cur1, st).
         Inr (g, ScanReader cur1, ko1, ScanSlab (s1\<lparr>sl_storage := st\<rparr>), w1)))
   | _ \<Rightarrow> Inl Unreachable)"

definition slab_peek ::
    "('s, 'v item) slab_ops \<Rightarrow> ('k, sink_binding) slab_ops \<Rightarrow> ('w, 's slab_items, 'v slab_edit) node_env \<Rightarrow> nid
       \<Rightarrow> sink option \<Rightarrow> slab_reader \<Rightarrow> ('s, 'k) slab_node \<Rightarrow> 'w \<Rightarrow> (feed_ref \<times> sink option \<times> ('s, 'k) slab_node \<times> 'w) result" where
  "slab_peek iops ops env this ko r n w = (case (r, n) of
     (StateReader fr, StateSlab s) \<Rightarrow>
       res_bind (feed_reader_peek ops (sm_release iops) (\<lambda>e m. slab_edits iops [e] m) env this ko fr (sm_state s) w) (\<lambda>(g, ko1, fn, w1).
         Inr (g, ko1, StateSlab (s\<lparr>sm_state := fn\<rparr>), w1))
   | (ScanReader cur, ScanSlab s) \<Rightarrow>
       res_bind (scan_watch_items iops ops env this ko s w) (\<lambda>(ko1, s1, w1).
       res_bind (reader_peek (sm_release iops) cur (sl_storage s1)) (\<lambda>(g, st). Inr (g, ko1, ScanSlab (s1\<lparr>sl_storage := st\<rparr>), w1)))
   | _ \<Rightarrow> Inl Unreachable)"

subsection \<open>Reads are of an up-to-date node\<close>

definition slab_fresh :: "('s, 'k) slab_node \<Rightarrow> bool" where
  "slab_fresh n = (case n of StateSlab s \<Rightarrow> True | ScanSlab s \<Rightarrow> binder_is_clean (sl_binder s))"

lemma scan_watch_fresh:
  assumes "slab_scan_watch iops ops env this slot ko s w = Inr (ko1, s1, w1)"
  shows "binder_is_clean (sl_binder s1)"
proof -
  obtain s2 w2 S where u: "slab_scan_update iops ops env s w = Inr (s2, w2)" and s1: "s1 = s2\<lparr>sl_sinks := S\<rparr>"
    using assms by (auto simp: slab_scan_watch_def res_bind_eq_Inr)
  have "binder_is_clean (sl_binder s2)"
  proof (cases "binder_is_clean (sl_binder s)")
    case True
    then show ?thesis using u by (simp add: slab_scan_update_def)
  next
    case False
    from scan_update_shape [OF False u] show ?thesis by blast
  qed
  then show ?thesis by (simp add: s1)
qed

text \<open>
  The items and the value that a \<open>SignalSlabMap\<close> or one of its readers returns come from a node that has run its closure for all notifications received so far.
\<close>

lemma signal_slab_fresh:
  shows "signal_slab_items iops ops env this ko n w = Inr (g, ko1, n1, w1) \<Longrightarrow> slab_fresh n1"
    and "signal_slab_item iops ops env this key ko n w = Inr (v, ko1, n1, w1) \<Longrightarrow> slab_fresh n1"
    and "slab_read iops ops env this ko r n w = Inr (g, r1, ko1, n1, w1) \<Longrightarrow> slab_fresh n1"
    and "slab_peek iops ops env this ko r n w = Inr (g, ko1, n1, w1) \<Longrightarrow> slab_fresh n1"
  by (auto simp: signal_slab_items_def signal_slab_item_def slab_read_def slab_peek_def slab_fresh_def slab_scan_items_def slab_scan_item_def
      scan_watch_items_def res_bind_eq_Inr dest!: scan_watch_fresh split: slab_node.splits slab_reader.splits)

end
