(* ===== verification/Spec2Isabelle.thy ===== *)
theory Spec2Isabelle
  imports Context_Channel Poll_Scan_Properties Async_Properties Signal_Stream State_Edit Oneshot Bucket_Properties
    State_Ref_Properties Format_String Keep_Node Runtime_Teardown Subscription
    Runtime_Properties Vec_Serde Slab_Map_Properties Feed_Node_Properties Slab_Access
begin

text \<open>
  This development models sigmut (src/), a Rust library of signals: values that are computed from states and from other signals, cached, and
  recomputed only when something they have read has changed. Changes travel through the graph of dependencies as dirty flags when a state is written; the values are pulled afterwards,
  when somebody reads them or when the runtime dispatches the effects that have been marked. One thread owns at most one runtime. It has queues of actions, which may write states,
  of reactions, which may only read, and of discards, which throw away the caches nobody depends on.

  The definitions are translated from the Rust source, operation by operation. A panic, a failed assertion or an overflow is a value \<open>Inl\<close> of the result
  type (Prelude); a \<open>RefCell\<close> that stays borrowed across a call is a cell with a flag; a weak reference is a node number that may have no entry in the heap. A closure of the user is a program over reads
  of other nodes (\<open>prog\<close>) or over actions (\<open>act\<close>), or, where a node is modelled with its surroundings as a parameter, a function of them.

  \<^bold>\<open>The slab map.\<close> \<open>slabmap::SlabMap\<close> is a crate outside the repository. It is the parameter \<open>ops\<close> of the definitions, with the laws \<open>slab_laws\<close> (what a lookup gives after
  an insertion, a removal and an update, and that an insertion takes a key that is free); \<open>vec_slab\<close> is a concrete one that satisfies them (Slab\_Interface). The unstable sort of the standard library and
  the layout of values in memory are parameters in the same way.

  \<^bold>\<open>The reactive graph.\<close> Dirty\_State, Bindings and Reactive\_Graph model core/dirty.rs, core/source\_binder.rs, the bindings of core.rs, state.rs, signal/builder/scan.rs and
  effect\_fn.rs: the flags, both ends of an edge, bind, rebind, unbind, check, update, notify, and the nodes that do them. Graph\_View, Graph\_Invariant and Graph\_Update define the invariant of the graph
  and prove that reading keeps it. Glitch\_Freedom compares with the reference semantics \<open>sem\<close>, which evaluates every closure from scratch. Graph\_Notify,
  Graph\_Lifecycle, Graph\_Drop and Queue\_Contents prove the invariant for writes, for the creation, discard and drop of nodes, and for what waits in the queues.
  The recursion of \<open>node_update\<close> and \<open>node_notify\<close> is bounded by a fuel argument; \<open>do_update\<close> and \<open>do_notify\<close> take the number of nodes, and a node reads older ones only, which
  the invariant states and which makes that enough.

  \<^bold>\<open>The runtime.\<close> Phases, ISize\_Map and Bucket\_Queue model the configuration of phases, utils/isize\_map.rs and utils/buckets.rs; Bucket\_Properties shows that the bucket queue refines a stable sort. Runtime\_Loop and
  Runtime\_Handle model the second half of core.rs: the queues of \<open>Globals\<close>, wake-ups, asynchronous actions, the dispatch loops, \<open>flush\<close>, \<open>wait_for_ready\<close>, and the handle with \<open>lend\<close>, \<open>call\<close> and \<open>drop\<close>. The loops take
  fuel, because they run closures that may schedule further ones; Runtime\_Actions, Runtime\_Flush and Runtime\_Settle show that some fuel is always enough, and that more gives the same result. Runtime\_Invariant,
  Runtime\_Steps and Runtime\_Reach prove one invariant for every state that a program can bring the runtime into (\<open>reach\<close>). The properties are here and in Runtime\_Properties, their instances on the graph of
  Example\_Graph and Example\_Runtime. Runtime\_Teardown is about queued closures that own nodes.

  \<^bold>\<open>Building and reading signals.\<close> Signal\_Algebra and Signal\_Builder model the constructors and operators of signal/signal\_t.rs and the builders of signal/builder.rs and
  signal/builder/get.rs: what is built means what it should. Keep\_Node models signal/signal\_t/keep.rs. State\_Ref and State\_Ref\_Properties model core/state\_ref.rs and core/state\_ref\_builder.rs over an explicit
  memory, and prove that there is no access to a dropped value and no leak, for closures that meet a condition which the signatures do not state. State\_Edit is about the guards of state.rs, Context\_Channel about core/context\_channel.rs and core/raw\_context.rs,
  Callback about the closures over \<open>Rc\<close> and \<open>Weak\<close> of actions and reactions, Subscription about subscription.rs. Format\_Macro models the macro behind \<open>signal_format!\<close> (macros/src/signal\_format\_impl.rs) and Format\_String the string builder of fmt/helpers.rs that the expanded code calls; the
  signal that comes out is compared with \<open>format!\<close>.

  \<^bold>\<open>Futures and streams.\<close> Poll\_Scan and Poll\_Scan\_Properties model signal/builder/future\_scan.rs and stream\_scan.rs; Async\_Node and Async\_Properties core/async\_signal\_context.rs, signal/scan\_async.rs and
  effect\_async\_fn.rs; Signal\_Stream stream.rs (what an effect or a stream has to do is read from the sequence of events, and compared with what it does); Oneshot utils/sync/oneshot\_broadcast.rs. Polling a future is a function of it and of everything else. These nodes, and those of the collections, are modelled each with its surroundings
  as a record of functions (\<open>node_env\<close>, Node\_Protocol): what a \<open>dyn\<close> call does is arbitrary, except that a call that finds a cell of the node borrowed panics.

  \<^bold>\<open>Collections.\<close> Change\_Log, Index\_Permutation (utils.rs), Change\_Feed, Feed\_Client, Feed\_Reads (the storage half of building\_blocks/change\_feed.rs) and Feed\_Node, Feed\_Node\_Spec, Feed\_Node\_Properties (its nodes) model
  feeds of changes with any number of readers at their own positions. Vec\_Model, Vec\_Spec, Vec\_Refine, Vec\_Properties model collections/vec.rs, and Slab\_Map\_Model, Slab\_Map\_Spec, Slab\_Map\_Properties, Slab\_Node,
  Slab\_Node\_Spec, Slab\_Node\_Properties collections/slab\_map.rs. Vec\_Access and Slab\_Access hold the comparisons, the signals and states that wrap the nodes, and their readers, Vec\_Serde the serialization. The operations refine those of lists and partial maps, the delta of every read replays the mirror of its reader to the current value, and what was removed is
  freed once no reader needs it (Retained\_Keys).

  \<^bold>\<open>Interfaces.\<close> A contract that a client relies on is a locale, interpreted on the definitions of the component that provides it: \<open>int_map\<close> for the bucket queue, \<open>id_set\<close> for phase sets, \<open>node_updater\<close> for the recursion
  of updates, \<open>feed_model\<close> with \<open>feed_edits\<close> and \<open>feed_ops\<close> for the collections on a feed, \<open>pull_node\<close> and \<open>node_steps\<close> for cached nodes, \<open>poll_kind\<close> and \<open>poll_account\<close> for futures and streams, \<open>rc_callback\<close> for actions, reactions and subscriptions, and
  \<open>context_channel\<close> for the three channels.

  \<^bold>\<open>Assumptions on clients.\<close> The theorems about the graph and the runtime are about closures that register what they read and read existing sources (\<open>closed_prog\<close>, \<open>act_ok\<close>): a read inside \<open>untrack\<close> is modelled, but a signal that uses it is
  not a function of its sources. Closures are finite trees of effects, which the source does not require: an action that schedules itself again without end keeps
  \<open>dispatch_actions\<close> and \<open>flush\<close> running for ever and is no value of \<open>act\<close>, so all claims that something returns are relative to that (\<open>respawn\<close> in Runtime\_Properties measures it). Closures own no nodes, except in Runtime\_Teardown.
  Code over \<open>StateRef\<close> follows the rules of lifetimes, and \<open>static_apart\<close>, which no signature states. \<open>signal_format!\<close> is compared with \<open>format!\<close> for format specifications without \<open>$\<close> and \<open>.*\<close> only. Integers of the source are words or are checked for overflow where a run could reach it; otherwise they count objects in memory.

  \<^bold>\<open>Not modelled.\<close> The parsing of Rust tokens in the macro crate and the implementations of the format traits (a parameter), \<open>Debug\<close>, \<open>Display\<close> and error texts, the
  conversions of \<open>Any\<close> (\<open>downcast\<close>), the reclamation of memory by the bump allocator, the mutex around wake requests (they are lists that a waker appends to), a \<open>StateRef\<close> inside a \<open>StateRef\<close>, unwinding
  after a panic, and two threads at once.
\<close>

section \<open>Reading signals\<close>

text \<open>
  C1. Glitch freedom. Reading a state or a signal from outside a closure returns: no panic, no
  exhausted recursion. The value is what the closures give when they are evaluated from scratch over the
  current states, whatever the caches and dirty flags are, and the read changes neither the meaning
  of the graph nor the system invariant.
\<close>

theorem read_is_sem:
  assumes laws: "slab_laws ops" and inv: "sys_inv ops G w" and src: "is_source w n"
  shows "\<exists>v w'. signal_get ops n w = Inr (v, w') \<and> sem G w n = Some v \<and> sys_inv ops G w' \<and> sem G w' = sem G w"
proof -
  obtain v w' where r: "signal_get ops n w = Inr (v, w')" "sem G w n = Some v" "graph_inv ops G w'"
    "upd_frame ops (Suc n) (Suc n) w w'"
    using signal_get_ok [OF laws sys_graph [OF inv] sys_quiet [OF inv] src] by blast
  have "sys_inv ops G w'" by (rule sys_inv_upd [OF inv r(3,4)])
  then show ?thesis using r upd_frame_sem [OF r(4), of G] by blast
qed

theorem read_is_sem_witness:
  "\<exists>w'. signal_get vec_slab 2 ex_world = Inr (3, w') \<and> sem ex_G w' 2 = Some 3"
proof -
  have "is_source ex_world 2" by (simp add: is_source_code ex_world_facts)
  from read_is_sem [OF vec_slab_laws ex_world_facts(1) this]
  obtain v w' where r: "signal_get vec_slab 2 ex_world = Inr (v, w')" "sem ex_G ex_world 2 = Some v"
    "sem ex_G w' = sem ex_G ex_world" by blast
  have "v = 3" using r(2) by (simp add: ex_world_facts)
  with r show ?thesis by simp
qed

section \<open>Whole runs\<close>

text \<open>
  C2. \<open>flush\<close> returns in every state a program can reach, with one result for all sufficient fuel. In
  that result nothing is left to do: no action, reaction, notification, unbinding or discard is
  pending. Every effect has run on what it reads now, so it holds the value of the reference semantics.
  That \<open>flush\<close> returns rests on closures being finite trees: no action schedules itself again without end.
\<close>

theorem flush_settles:
  assumes L: "slabs_laws L" and r: "reach L G w"
  shows "\<exists>f0 w'. (\<forall>f \<ge> f0. flush L f w = Inr w') \<and> reach L G w' \<and> no_actions w' \<and> no_reactions w' \<and> discards w' = []
    \<and> (\<forall>n g q. code w' n = Some (CEffect g q) \<longrightarrow> cval w' n = sem G w' n \<and> sem G w' n \<noteq> None) \<and> code w' = code w"
proof -
  obtain f0 w' where w': "\<forall>f \<ge> f0. flush L f w = Inr w'" "settled L G w'" "code w' = code w"
    using flush_ends [OF L goodD [OF reach_good [OF L r]]] by blast
  have "reach L G w'" by (rule reach_step [OF r, of OpFlush f0]) (use w'(1) in \<open>simp_all add: client_ok_def client_run_def\<close>)
  then show ?thesis using w' unfolding settled_def flush_rank_def effects_current_def by (metis One_nat_def Suc_neq_Zero numeral_2_eq_2 numeral_3_eq_3)
qed

theorem flush_settles_witness:
  "\<exists>f0 w'. (\<forall>f \<ge> f0. flush ex_L f ex_r = Inr w') \<and> cval w' 3 = sem ex_G w' 3 \<and> cval w' 3 \<noteq> None"
proof -
  obtain f0 w' where w': "\<forall>f \<ge> f0. flush ex_L f ex_r = Inr w'" "code w' = code ex_r"
    "\<forall>n g q. code w' n = Some (CEffect g q) \<longrightarrow> cval w' n = sem ex_G w' n \<and> sem ex_G w' n \<noteq> None"
    using flush_settles [OF ex_L(1) ex_reach] by blast
  have "code w' 3 = Some (CEffect (\<lambda>_. prog_map Some (ex_G 3)) 0)" by (simp add: w'(2) ex_r_facts)
  then have "cval w' 3 = sem ex_G w' 3" "sem ex_G w' 3 \<noteq> None" using w'(3) by blast+
  then show ?thesis using w'(1) by metis
qed

text \<open>
  C3. No operation panics and none hangs: in a reachable state every operation of a client whose
  arguments are in order (existing sources, allowed phases, closures that do not panic
  themselves, and finite trees, so that no action schedules itself again without end) returns, with one result for
  all sufficient fuel, and leads to a reachable state.
\<close>

theorem no_operation_panics:
  assumes L: "slabs_laws L" and r: "reach L G w" and ok: "client_ok L G w x"
  shows "\<exists>f0 w'. (\<forall>f \<ge> f0. client_run L f x w = Inr w') \<and> reach L G w'"
proof -
  obtain f0 w' where w': "\<forall>f \<ge> f0. client_run L f x w = Inr w'" using client_step [OF L reach_good [OF L r] ok] by blast
  then have "reach L G w'" by (intro reach_step [OF r ok, of f0]) simp
  then show ?thesis using w' by blast
qed

theorem no_operation_panics_witness:
  "\<exists>f0 w'. \<forall>f \<ge> f0. client_run ex_L f (OpRun (ASet 0 10 (AGet 2 (\<lambda>v. ASet 1 v ADone)))) ex_r = Inr w'"
proof -
  have "client_ok ex_L ex_G ex_r (OpRun (ASet 0 10 (AGet 2 (\<lambda>v. ASet 1 v ADone))))"
    by (simp add: client_ok_def ex_r_facts source_code_def)
  from no_operation_panics [OF ex_L(1) ex_reach this] show ?thesis by blast
qed

text \<open>
  C4. Writing a state and then reading through the runtime: the closure \<open>set(v); get(m)\<close> hands its
  continuation the value that the closures give from scratch over the states as they are after the
  write, and the write changes the value of that state only.
\<close>

theorem set_then_get:
  assumes L: "slabs_laws L" and inv: "rt_inv L G w" and n: "code w n = Some CState" and m: "is_source w m"
  shows "\<exists>w1 x w2. act_run L (ASet n v (AGet m k)) w = act_run L (k x) w2 \<and> state_set (sink_slab L) n v w = Inr w1
    \<and> runtime_get L m w1 = Inr (x, w2) \<and> sem G w1 m = Some x \<and> rt_inv L G w2
    \<and> (\<forall>j. code w j = Some CState \<longrightarrow> cval w1 j = (if j = n then Some v else cval w j))"
proof -
  obtain w1 where w1: "state_set (sink_slab L) n v w = Inr w1" "rt_inv L G w1" "graph_step w w1" "written n v w w1"
    using rt_state_set [OF L inv n] by blast
  have "is_source w1 m" using m graph_stepD(9) [OF w1(3)] by (simp add: is_source_code)
  from runtime_get_ok [OF L w1(2) this] obtain x w2 where x: "runtime_get L m w1 = Inr (x, w2)" "sem G w1 m = Some x" "rt_inv L G w2"
    by blast
  have "act_run L (ASet n v (AGet m k)) w = act_run L (k x) w2" using w1(1) x(1) by simp
  moreover have "\<forall>j. code w j = Some CState \<longrightarrow> cval w1 j = (if j = n then Some v else cval w j)"
    using w1(4) by (simp add: written_def)
  ultimately show ?thesis using w1(1) x by blast
qed

theorem set_then_get_witness:
  "\<exists>w1 x w2. state_set vec_slab 0 10 ex_r = Inr w1 \<and> runtime_get ex_L 2 w1 = Inr (x, w2) \<and> sem ex_G w1 2 = Some x"
proof -
  have "code ex_r 0 = Some CState" "is_source ex_r 2" by (simp_all add: ex_r_facts is_source_code)
  from set_then_get [OF ex_L(1) goodD(1) [OF ex_good] this, of 10 "\<lambda>_. ADone"] show ?thesis unfolding ex_L(2) by blast
qed

end
